(* ===== verification/Prelude.thy ===== *)
theory Prelude
  imports Main "HOL-Library.Word"
begin

text \<open>
  What every theory of the library shares: the ways a C++ call can fail to return a value and
  the result type that carries them, \<open>std::vector::resize\<close>, stable sorting as
  \<open>std::list::sort\<close> does it, and the generic lemmas (with the collections they go into) that
  the component proofs are run with.
\<close>

unbundle bit_operations_syntax

section \<open>Results\<close>

text \<open>
  A C++ function either returns a value or ends in one of these ways: \<open>ASSERTION\<close> (or
  \<open>assert\<close>) fails and the process aborts; it reads outside a vector or dereferences an end
  iterator, which the language leaves undefined; \<open>exit\<close> is called; \<open>std::logic_error\<close> is
  thrown (a \<open>std::string\<close> made from a null pointer); a loop never ends.
\<close>

datatype cpp_error = Assertion | Undefined | Exit | LogicError | Diverges

type_synonym 'a res = "cpp_error + 'a"

definition bind_res :: "'a res \<Rightarrow> ('a \<Rightarrow> 'b res) \<Rightarrow> 'b res" where
  "bind_res m f = (case m of Inl e \<Rightarrow> Inl e | Inr x \<Rightarrow> f x)"

lemma bind_res_simps [simp]:
  "bind_res (Inl e) f = Inl e"
  "bind_res (Inr x) f = f x"
  by (simp_all add: bind_res_def)

lemma bind_res_Inr_iff:
  "bind_res m f = Inr y \<longleftrightarrow> (\<exists>x. m = Inr x \<and> f x = Inr y)"
  by (cases m) auto

lemma bind_res_assoc: "bind_res (bind_res m f) g = bind_res m (\<lambda>x. bind_res (f x) g)"
  by (cases m) auto

text \<open>Folding a fallible step over a list, as a \<open>for\<close> loop that may abort does.\<close>

fun fold_res :: "('s \<Rightarrow> 'x \<Rightarrow> 's res) \<Rightarrow> 's \<Rightarrow> 'x list \<Rightarrow> 's res" where
  "fold_res f s [] = Inr s"
| "fold_res f s (x # xs) = bind_res (f s x) (\<lambda>s'. fold_res f s' xs)"

lemma fold_res_append:
  "fold_res f s (xs @ ys) = bind_res (fold_res f s xs) (\<lambda>s'. fold_res f s' ys)"
  by (induction xs arbitrary: s) (auto simp: bind_res_assoc)

text \<open>If every step succeeds under an invariant, so does the loop, and the invariant holds.\<close>

lemma fold_res_total:
  assumes "I s" and "\<And>s x. I s \<Longrightarrow> x \<in> set xs \<Longrightarrow> f s x = Inr (g s x) \<and> I (g s x)"
  shows "fold_res f s xs = Inr (foldl g s xs) \<and> I (foldl g s xs)"
  using assms
proof (induction xs arbitrary: s)
  case (Cons x xs)
  from Cons.prems have "f s x = Inr (g s x)" "I (g s x)" by auto
  with Cons.IH [of "g s x"] Cons.prems(2) show ?case by simp
qed simp

section \<open>Vectors\<close>

text \<open>\<open>std::vector::resize (n)\<close>: cut to \<open>n\<close> elements, or pad with value-initialised ones.\<close>

definition resize :: "nat \<Rightarrow> 'a::zero list \<Rightarrow> 'a list" where
  "resize n xs = take n xs @ replicate (n - length xs) 0"

lemma length_resize [simp]: "length (resize n xs) = n"
  by (simp add: resize_def)

lemma resize_self [simp]: "resize (length xs) xs = xs"
  by (simp add: resize_def)

lemma resize_ge: "length xs \<le> n \<Longrightarrow> resize n xs = xs @ replicate (n - length xs) 0"
  by (simp add: resize_def)

section \<open>C strings\<close>

text \<open>The characters a C function sees of an array: those before the first zero.\<close>

definition c_str :: "string \<Rightarrow> string" where
  "c_str s = takeWhile (\<lambda>c. c \<noteq> CHR 0x00) s"

section \<open>Stable sorting\<close>

text \<open>
  \<open>std::list::sort (lt)\<close> is a stable merge sort: its result is the stable arrangement of the
  elements by \<open>lt\<close>, which insertion from the right computes.
\<close>

fun ins_by :: "('a \<Rightarrow> 'a \<Rightarrow> bool) \<Rightarrow> 'a \<Rightarrow> 'a list \<Rightarrow> 'a list" where
  "ins_by lt x [] = [x]"
| "ins_by lt x (y # ys) = (if lt y x then y # ins_by lt x ys else x # y # ys)"

definition list_sort :: "('a \<Rightarrow> 'a \<Rightarrow> bool) \<Rightarrow> 'a list \<Rightarrow> 'a list" where
  "list_sort lt xs = foldr (ins_by lt) xs []"

lemma list_sort_simps [simp]:
  "list_sort lt [] = []"
  "list_sort lt (x # xs) = ins_by lt x (list_sort lt xs)"
  by (simp_all add: list_sort_def)

lemma set_ins_by [simp]: "set (ins_by lt x ys) = insert x (set ys)"
  by (induction ys) auto

lemma length_ins_by [simp]: "length (ins_by lt x ys) = Suc (length ys)"
  by (induction ys) auto

lemma distinct_map_ins_by:
  "distinct (map f (ins_by lt x ys)) \<longleftrightarrow> f x \<notin> f ` set ys \<and> distinct (map f ys)"
  by (induction ys) auto

lemma set_list_sort [simp]: "set (list_sort lt xs) = set xs"
  by (induction xs) auto

lemma length_list_sort [simp]: "length (list_sort lt xs) = length xs"
  by (induction xs) auto

lemma distinct_map_list_sort [simp]:
  "distinct (map f (list_sort lt xs)) \<longleftrightarrow> distinct (map f xs)"
  by (induction xs) (auto simp: distinct_map_ins_by)

section \<open>Words\<close>

lemma unat_minus_1_word: "unat (- 1 :: 'a::len word) = 2 ^ LENGTH('a) - 1"
  by (simp only: unsigned_minus_1_eq_mask) (simp add: mask_eq_exp_minus_1)

lemma unat_not_word: "unat (NOT u) + unat (u :: 'a::len word) = 2 ^ LENGTH('a) - 1"
proof -
  have "NOT u = - 1 - u" by (simp add: not_eq_complement)
  moreover have "u \<le> - 1" by simp
  moreover from this have "unat u \<le> 2 ^ LENGTH('a) - 1"
    by (simp only: word_le_nat_alt unat_minus_1_word)
  ultimately show ?thesis by (simp only: unat_sub unat_minus_1_word)
qed

text \<open>A counter below a bound of its own type does not wrap when it is incremented.\<close>

lemma unat_inc_below:
  fixes i n :: "'a::len word"
  assumes "i < n"
  shows "unat (i + 1) = Suc (unat i)"
proof -
  have "unat i < unat n" "unat n < 2 ^ LENGTH('a)"
    using assms by (simp_all add: word_less_nat_alt)
  then have "unat i + 1 < 2 ^ LENGTH('a)" by linarith
  then show ?thesis by (simp add: unat_word_ariths)
qed

end
