(* ===== verification/BigIntUnits.thy ===== *)
theory BigIntUnits
  imports Prelude "HOL-Library.Word"
begin

text \<open>
  \<open>BaseBigInt\<close> of \<open>include/common/BigInt.h\<close>: the vector \<open>m_units\<close> of machine words that both
  big-integer classes hold, least significant unit first, with the comparison loop and the
  truncation that work on it. A unit is an \<open>unsigned long\<close> (\<open>Ulong\<close>), 64 bits.

  \<open>digits_val\<close> reads a vector of units as a number in a given base: \<open>2^64\<close> for
  \<open>Rossi\<close>, \<open>10^9\<close> for \<open>Vin\<close>. The locale \<open>positional\<close> holds what is true in any base;
  it is interpreted once for each class.
\<close>

section \<open>Units\<close>

type_synonym ulong = "64 word"

fun digits_val :: "nat \<Rightarrow> ulong list \<Rightarrow> nat" where
  "digits_val B [] = 0"
| "digits_val B (u # us) = unat u + B * digits_val B us"

lemma digits_val_append:
  "digits_val B (us @ vs) = digits_val B us + B ^ length us * digits_val B vs"
  by (induction us) (auto simp: algebra_simps)

lemma digits_val_zeros [simp]: "digits_val B (replicate n 0) = 0"
  by (induction n) auto

lemma digits_val_resize: "length us \<le> n \<Longrightarrow> digits_val B (resize n us) = digits_val B us"
  by (simp add: resize_ge digits_val_append)

section \<open>Truncation\<close>

text \<open>\<open>truncateUnits\<close>: drop the zero units at the back, but keep one unit.\<close>

function truncate_units :: "ulong list \<Rightarrow> ulong list" where
  "truncate_units us =
     (if length us > 1 \<and> last us = 0 then truncate_units (butlast us) else us)"
  by pat_completeness auto
termination by (relation "measure length") auto

declare truncate_units.simps [simp del]

text \<open>\<open>backUnitIsNull\<close> (its \<open>ASSERTION (!m_units.empty())\<close> is checked by the callers here).\<close>

definition back_unit_is_null :: "ulong list \<Rightarrow> bool" where
  "back_unit_is_null us = (if length us = 1 then False else last us = 0)"

text \<open>\<open>smartTruncateUnits\<close> on a vector that is not empty.\<close>

definition smart_truncate :: "ulong list \<Rightarrow> ulong list" where
  "smart_truncate us = (if back_unit_is_null us then truncate_units us else us)"

text \<open>
  The normal form: at least one unit, and no zero unit at the back of more than one. Every
  operation that ends in \<open>smartTruncateUnits\<close> leaves its vector in it.
\<close>

definition normal_units :: "ulong list \<Rightarrow> bool" where
  "normal_units us \<longleftrightarrow> us \<noteq> [] \<and> (length us > 1 \<longrightarrow> last us \<noteq> 0)"

lemma truncate_units_stop: "\<not> (length us > 1 \<and> last us = 0) \<Longrightarrow> truncate_units us = us"
  by (subst truncate_units.simps) auto

lemma truncate_units_step: "length us > 1 \<Longrightarrow> last us = 0 \<Longrightarrow> truncate_units us = truncate_units (butlast us)"
  by (subst truncate_units.simps) simp

lemma truncate_units_Nil [simp]: "truncate_units [] = []"
  by (simp add: truncate_units_stop)

lemma truncate_units_eq_smart: "us \<noteq> [] \<Longrightarrow> smart_truncate us = truncate_units us"
  by (auto simp: smart_truncate_def back_unit_is_null_def truncate_units_stop)

lemma normal_truncate: "us \<noteq> [] \<Longrightarrow> normal_units (truncate_units us)"
proof (induction us rule: truncate_units.induct)
  case (1 us)
  show ?case
  proof (cases "length us > 1 \<and> last us = 0")
    case True
    then have "butlast us \<noteq> []" by (cases us) auto
    with True 1 show ?thesis by (simp add: truncate_units_step)
  next
    case False
    with "1.prems" show ?thesis by (auto simp: truncate_units_stop normal_units_def)
  qed
qed

lemma truncate_units_Nil_iff [simp]: "truncate_units us = [] \<longleftrightarrow> us = []"
  using normal_truncate [of us] by (auto simp: normal_units_def)

lemma normal_smart_truncate [simp]: "us \<noteq> [] \<Longrightarrow> normal_units (smart_truncate us)"
  by (simp add: truncate_units_eq_smart normal_truncate)

lemma smart_truncate_normal: "normal_units us \<Longrightarrow> smart_truncate us = us"
  by (cases us) (auto simp: smart_truncate_def back_unit_is_null_def normal_units_def)

lemma digits_val_truncate: "digits_val B (truncate_units us) = digits_val B us"
proof (induction us rule: truncate_units.induct)
  case (1 us)
  show ?case
  proof (cases "length us > 1 \<and> last us = 0")
    case True
    then have "us = butlast us @ [0]" by (cases us rule: rev_cases) auto
    then have "digits_val B us = digits_val B (butlast us @ [0])" by simp
    also have "\<dots> = digits_val B (butlast us)" by (simp add: digits_val_append)
    finally show ?thesis using True 1 by (simp add: truncate_units_step)
  qed (auto simp: truncate_units_stop)
qed

lemma digits_val_smart_truncate [simp]: "digits_val B (smart_truncate us) = digits_val B us"
  by (simp add: smart_truncate_def digits_val_truncate)

section \<open>Comparison\<close>

text \<open>
  The loop of \<open>operator<\<close> (the same text in \<open>Vin\<close> and in \<open>Rossi\<close>): from the back unit
  down to index 1, then the front unit. \<open>units_less\<close> is the whole operator for vectors that
  are not both empty; for two empty vectors the C++ loop starts at \<open>size () - 1\<close>, which wraps,
  and reads outside both.
\<close>

fun less_loop :: "ulong list \<Rightarrow> ulong list \<Rightarrow> nat \<Rightarrow> bool" where
  "less_loop us vs 0 = (us ! 0 < vs ! 0)"
| "less_loop us vs (Suc i) =
     (if us ! Suc i < vs ! Suc i then True
      else if vs ! Suc i < us ! Suc i then False
      else less_loop us vs i)"

definition units_less :: "ulong list \<Rightarrow> ulong list \<Rightarrow> bool" where
  "units_less us vs =
     (if length us < length vs then True
      else if length vs < length us then False
      else if us = [] then False
      else less_loop us vs (length us - 1))"

lemma less_loop_append:
  "i < length us \<Longrightarrow> i < length vs \<Longrightarrow> less_loop (us @ xs) (vs @ ys) i = less_loop us vs i"
  by (induction i) (auto simp: nth_append)

lemma less_loop_snoc:
  assumes "length us = length vs"
  shows "less_loop (us @ [u]) (vs @ [v]) (length vs) \<longleftrightarrow>
    u < v \<or> u = v \<and> us \<noteq> [] \<and> less_loop us vs (length vs - 1)"
proof (cases "length us")
  case 0
  with assms show ?thesis by auto
next
  case (Suc n)
  then have rest: "less_loop (us @ [u]) (vs @ [v]) n = less_loop us vs n"
    using assms by (intro less_loop_append) auto
  have top: "(us @ [u]) ! Suc n = u" "(vs @ [v]) ! Suc n = v" "us \<noteq> []"
    using Suc assms by (auto simp: nth_append)
  have "\<not> u < v \<Longrightarrow> \<not> v < u \<Longrightarrow> u = v" by simp
  then show ?thesis unfolding assms [symmetric] Suc less_loop.simps top rest
    using top(3) by auto
qed

lemma units_less_snoc:
  "length us = length vs \<Longrightarrow>
    units_less (us @ [u]) (vs @ [v]) \<longleftrightarrow> u < v \<or> u = v \<and> units_less us vs"
  by (auto simp: units_less_def less_loop_snoc)

lemma units_less_Nil [simp]:
  "units_less [] vs \<longleftrightarrow> vs \<noteq> []" "\<not> units_less us []"
  by (auto simp: units_less_def)

text \<open>It is a strict linear order on all vectors: by length, then from the back unit down.\<close>

lemma units_less_total:
  "length us = length vs \<Longrightarrow> \<not> units_less us vs \<Longrightarrow> \<not> units_less vs us \<Longrightarrow> us = vs"
proof (induction us arbitrary: vs rule: rev_induct)
  case (snoc u us)
  then obtain vs' v where vs: "vs = vs' @ [v]" "length us = length vs'"
    by (cases vs rule: rev_cases) auto
  with snoc.prems have "u = v" "\<not> units_less us vs'" "\<not> units_less vs' us"
    by (auto simp: units_less_snoc)
  with vs snoc.IH [of vs'] show ?case by simp
qed simp

lemma units_less_irrefl [simp]: "\<not> units_less us us"
  by (induction us rule: rev_induct) (auto simp: units_less_snoc)

lemma units_less_trans_eq_length:
  "length us = length vs \<Longrightarrow> length vs = length ws \<Longrightarrow>
    units_less us vs \<Longrightarrow> units_less vs ws \<Longrightarrow> units_less us ws"
proof (induction us arbitrary: vs ws rule: rev_induct)
  case (snoc u us)
  then obtain vs' v where vs: "vs = vs' @ [v]" "length us = length vs'"
    by (cases vs rule: rev_cases) auto
  with snoc.prems obtain ws' w where ws: "ws = ws' @ [w]" "length vs' = length ws'"
    by (cases ws rule: rev_cases) auto
  note * = vs ws
  with snoc.prems show ?case
    using snoc.IH [of vs' ws'] by (auto simp: units_less_snoc)
qed simp

lemma units_less_length: "units_less us vs \<Longrightarrow> length us \<le> length vs"
  by (auto simp: units_less_def split: if_splits)

lemma units_less_trans:
  assumes "units_less us vs" "units_less vs ws"
  shows "units_less us ws"
proof (cases "length us = length vs \<and> length vs = length ws")
  case True
  with assms show ?thesis by (blast intro: units_less_trans_eq_length)
next
  case False
  with assms units_less_length [of us vs] units_less_length [of vs ws]
  have "length us < length ws" by auto
  then show ?thesis by (simp add: units_less_def)
qed

lemma units_less_asym: "units_less us vs \<Longrightarrow> \<not> units_less vs us"
  using units_less_trans [of us vs us] by auto

lemma units_less_linear: "units_less us vs \<or> us = vs \<or> units_less vs us"
proof (cases "length us = length vs")
  case True
  then show ?thesis by (metis units_less_total)
qed (auto simp: units_less_def)

section \<open>Positional systems\<close>

text \<open>
  The interface of both classes to their units: a base above 1 and units below it. In it the
  value is bounded by the length, normal vectors are determined by their value, and the
  comparison loop compares values.
\<close>

locale positional =
  fixes base :: nat
  assumes base: "1 < base"
begin

lemma val_bound:
  "\<forall>u\<in>set us. unat u < base \<Longrightarrow> digits_val base us < base ^ length us"
proof (induction us)
  case (Cons u us)
  then have "digits_val base us + 1 \<le> base ^ length us" "unat u < base" by auto
  then have "base * (digits_val base us + 1) \<le> base * base ^ length us"
    by (intro mult_le_mono2)
  then show ?case using \<open>unat u < base\<close> by (simp add: algebra_simps)
qed simp

lemma val_lower:
  assumes "normal_units us" "length us > 1"
  shows "base ^ (length us - 1) \<le> digits_val base us"
proof -
  from assms obtain vs v where us: "us = vs @ [v]" and "v \<noteq> 0"
    by (cases us rule: rev_cases) (auto simp: normal_units_def)
  then have "1 \<le> unat v" by (simp add: Suc_leI unat_gt_0)
  then have "base ^ length vs * 1 \<le> base ^ length vs * unat v"
    by (rule mult_le_mono2)
  then have "base ^ length vs \<le> base ^ length vs * unat v" by simp
  also have "\<dots> \<le> digits_val base us" by (simp add: us digits_val_append)
  finally show ?thesis by (simp add: us)
qed

lemma normal_if_large:
  assumes "\<forall>u\<in>set us. unat u < base" "length us > 1" "base ^ (length us - 1) \<le> digits_val base us"
  shows "last us \<noteq> 0"
proof
  assume "last us = 0"
  then obtain vs where us: "us = vs @ [0]" using assms(2) by (cases us rule: rev_cases) auto
  with assms(1) val_bound [of vs] have "digits_val base us < base ^ length vs"
    by (simp add: digits_val_append)
  with assms(3) us show False by simp
qed

lemma less_same_length:
  assumes "length us = length vs" "\<forall>u\<in>set us. unat u < base" "\<forall>v\<in>set vs. unat v < base"
  shows "units_less us vs \<longleftrightarrow> digits_val base us < digits_val base vs"
  using assms
proof (induction us arbitrary: vs rule: rev_induct)
  case (snoc u us)
  then obtain vs' v where vs: "vs = vs' @ [v]" and len: "length us = length vs'"
    by (cases vs rule: rev_cases) auto
  let ?n = "base ^ length us" and ?a = "digits_val base us" and ?b = "digits_val base vs'"
  have ab: "?a < ?n" "?b < ?n"
    using snoc.prems vs len val_bound [of us] val_bound [of vs'] by auto
  have IH: "units_less us vs' \<longleftrightarrow> ?a < ?b"
    using snoc.prems vs len by (intro snoc.IH) auto
  have step: "?a + ?n * i < ?b + ?n * j" if "i < j" for i j
  proof -
    from that have "?n * (i + 1) \<le> ?n * j" by (intro mult_le_mono2) simp
    then have "?n * i + ?n \<le> ?n * j" by (simp add: algebra_simps)
    then show ?thesis using ab by linarith
  qed
  have step': "?b + ?n * j < ?a + ?n * i" if "j < i" for i j
  proof -
    from that have "?n * (j + 1) \<le> ?n * i" by (intro mult_le_mono2) simp
    then have "?n * j + ?n \<le> ?n * i" by (simp add: algebra_simps)
    then show ?thesis using ab by linarith
  qed
  have "?a + ?n * unat u < ?b + ?n * unat v \<longleftrightarrow>
      u < v \<or> u = v \<and> ?a < ?b"
  proof (cases "unat u" "unat v" rule: linorder_cases)
    case less
    with step [OF less] show ?thesis by (simp add: word_less_nat_alt)
  next
    case equal
    then have "u = v" by (rule unsigned_word_eqI)
    then show ?thesis by simp
  next
    case greater
    then have "\<not> u < v" "u \<noteq> v" by (auto simp: word_less_nat_alt)
    with greater step' [OF greater] show ?thesis by simp
  qed
  then show ?case
    using len by (simp add: vs units_less_snoc digits_val_append IH)
qed simp

lemma less_iff_val:
  assumes "normal_units us" "normal_units vs"
    "\<forall>u\<in>set us. unat u < base" "\<forall>v\<in>set vs. unat v < base"
  shows "units_less us vs \<longleftrightarrow> digits_val base us < digits_val base vs"
proof -
  have shorter: "digits_val base xs < digits_val base ys"
    if "normal_units xs" "normal_units ys" "\<forall>u\<in>set xs. unat u < base"
      "length xs < length ys" for xs ys
  proof -
    from that(1) have "length xs \<ge> 1" by (cases xs) (auto simp: normal_units_def)
    with that(4) have "length ys > 1" "length xs \<le> length ys - 1" by auto
    then have "base ^ length xs \<le> base ^ (length ys - 1)"
      using base by (intro power_increasing) auto
    with val_bound [OF that(3)] val_lower [OF that(2) \<open>length ys > 1\<close>]
    show ?thesis by linarith
  qed
  consider "length us < length vs" | "length vs < length us" | "length us = length vs"
    by linarith
  then show ?thesis
  proof cases
    case 1
    with shorter [of us vs] assms show ?thesis by (simp add: units_less_def)
  next
    case 2
    with shorter [of vs us] assms show ?thesis by (simp add: units_less_def)
  next
    case 3
    with assms show ?thesis by (intro less_same_length)
  qed
qed

lemma val_inj:
  assumes "normal_units us" "normal_units vs"
    "\<forall>u\<in>set us. unat u < base" "\<forall>v\<in>set vs. unat v < base"
    "digits_val base us = digits_val base vs"
  shows "us = vs"
  using assms less_iff_val [of us vs] less_iff_val [of vs us] units_less_linear [of us vs] by auto

end

end
