(* ===== verification/Numerals.thy ===== *)
theory Numerals
  imports BigIntUnits "HOL-Library.Word"
begin

text \<open>
  Numbers as text, as \<open>std::ostream\<close> prints an unsigned integer (\<open>std::dec\<close>, \<open>std::hex\<close>, with
  \<open>std::setw\<close> and \<open>std::setfill ('0')\<close>), the character tests of \<open><cctype>\<close>, the table
  \<open>s_hex2dec\<close> of \<open>BigInt.cpp\<close>, and the text of a whole vector of units. The locale
  \<open>unit_text\<close> says when printing unit by unit prints the number; it is interpreted for the
  hexadecimal units of \<open>Rossi\<close> and the decimal units of \<open>Vin\<close>.
\<close>

section \<open>Digits\<close>

definition isdigit :: "char \<Rightarrow> bool" where
  "isdigit c \<longleftrightarrow> c \<in> set ''0123456789''"

definition isxdigit :: "char \<Rightarrow> bool" where
  "isxdigit c \<longleftrightarrow> c \<in> set ''0123456789abcdefABCDEF''"

definition s_hex2dec :: "(char \<times> nat) list" where
  "s_hex2dec =
     [(CHR ''0'', 0), (CHR ''1'', 1), (CHR ''2'', 2), (CHR ''3'', 3), (CHR ''4'', 4),
      (CHR ''5'', 5), (CHR ''6'', 6), (CHR ''7'', 7), (CHR ''8'', 8), (CHR ''9'', 9),
      (CHR ''a'', 10), (CHR ''A'', 10), (CHR ''b'', 11), (CHR ''B'', 11),
      (CHR ''c'', 12), (CHR ''C'', 12), (CHR ''d'', 13), (CHR ''D'', 13),
      (CHR ''e'', 14), (CHR ''E'', 14), (CHR ''f'', 15), (CHR ''F'', 15)]"

text \<open>\<open>ms_hex2dec[c]\<close>: a missing key is inserted with the value 0.\<close>

definition ms_hex2dec :: "char \<Rightarrow> nat" where
  "ms_hex2dec c = (case map_of s_hex2dec c of None \<Rightarrow> 0 | Some d \<Rightarrow> d)"

definition digit_char :: "nat \<Rightarrow> char" where
  "digit_char d = ''0123456789abcdef'' ! d"

text \<open>The tables are finite: each fact about them is evaluated entry by entry.\<close>

lemma digit_char_table:
  "\<forall>d\<in>set [0..<16]. ms_hex2dec (digit_char d) = d \<and> isxdigit (digit_char d)"
  "\<forall>d\<in>set [0..<10]. isdigit (digit_char d)"
  by code_simp+

lemma hex2dec_digit_char [simp]: "d < 16 \<Longrightarrow> ms_hex2dec (digit_char d) = d"
  using digit_char_table(1) by simp

lemma isxdigit_digit_char: "d < 16 \<Longrightarrow> isxdigit (digit_char d)"
  using digit_char_table(1) by simp

lemma isdigit_digit_char: "d < 10 \<Longrightarrow> isdigit (digit_char d)"
  using digit_char_table(2) by simp

lemma hex2dec_table:
  "\<forall>p\<in>set s_hex2dec. snd p < 16"
  "\<forall>c\<in>set ''0123456789''. ms_hex2dec c < 10"
  by code_simp+

lemma hex2dec_less_16: "ms_hex2dec c < 16"
proof (cases "map_of s_hex2dec c")
  case (Some d)
  then have "(c, d) \<in> set s_hex2dec" by (rule map_of_SomeD)
  with hex2dec_table(1) have "d < 16" by fastforce
  with Some show ?thesis by (simp add: ms_hex2dec_def)
qed (simp add: ms_hex2dec_def)

lemma hex2dec_less_10: "isdigit c \<Longrightarrow> ms_hex2dec c < 10"
  unfolding isdigit_def by (rule bspec [OF hex2dec_table(2)])

section \<open>Printing and reading\<close>

function show_nat :: "nat \<Rightarrow> nat \<Rightarrow> string" where
  "show_nat b n =
     (if b \<le> 1 \<or> n < b then [digit_char n] else show_nat b (n div b) @ [digit_char (n mod b)])"
  by pat_completeness auto
termination by (relation "measure snd") auto

declare show_nat.simps [simp del]

definition setw0 :: "nat \<Rightarrow> string \<Rightarrow> string" where
  "setw0 w s = replicate (w - length s) (CHR ''0'') @ s"

text \<open>The number a string of digits stands for: the value \<open>initViaString\<close> accumulates.\<close>

definition parse_nat :: "nat \<Rightarrow> string \<Rightarrow> nat" where
  "parse_nat b s = foldl (\<lambda>n c. n * b + ms_hex2dec c) 0 s"

text \<open>The back unit plain, every unit below it with the fill width.\<close>

definition show_units :: "nat \<Rightarrow> nat \<Rightarrow> ulong list \<Rightarrow> string" where
  "show_units b w us =
     show_nat b (unat (last us)) @ concat (map (\<lambda>u. setw0 w (show_nat b (unat u))) (rev (butlast us)))"

lemma parse_nat_Nil [simp]: "parse_nat b [] = 0"
  by (simp add: parse_nat_def)

lemma parse_nat_snoc [simp]: "parse_nat b (s @ [c]) = parse_nat b s * b + ms_hex2dec c"
  by (simp add: parse_nat_def)

lemma show_nat_small: "n < b \<Longrightarrow> show_nat b n = [digit_char n]"
  by (subst show_nat.simps) simp

lemma show_nat_step: "1 < b \<Longrightarrow> b \<le> n \<Longrightarrow> show_nat b n = show_nat b (n div b) @ [digit_char (n mod b)]"
  by (subst show_nat.simps) simp

locale unit_text =
  fixes b w :: nat
  assumes base: "1 < b" "b \<le> 16" and width: "0 < w"
begin

lemma parse_show [simp]: "parse_nat b (show_nat b n) = n"
proof (induction n rule: less_induct)
  case (less n)
  show ?case
  proof (cases "n < b")
    case True
    then show ?thesis using base parse_nat_snoc [of b "[]"]
      by (simp add: show_nat_small)
  next
    case False
    then have "n div b < n" using base by simp
    moreover have "n mod b < 16" using base mod_less_divisor [of b n] by linarith
    ultimately show ?thesis using False base less by (simp add: show_nat_step)
  qed
qed

lemma show_nonempty [simp]: "show_nat b n \<noteq> []"
  by (subst show_nat.simps) simp

lemma show_digits: "c \<in> set (show_nat b n) \<Longrightarrow> \<exists>d<b. c = digit_char d"
proof (induction n rule: less_induct)
  case (less n)
  show ?case
  proof (cases "n < b")
    case True
    then show ?thesis using less.prems by (auto simp: show_nat_small)
  next
    case False
    then have "n div b < n" using base by simp
    moreover have "n mod b < b" using base by simp
    moreover have "c \<in> set (show_nat b (n div b)) \<or> c = digit_char (n mod b)"
      using less.prems False base by (auto simp: show_nat_step)
    ultimately show ?thesis using less.IH by blast
  qed
qed

lemma show_length: "n < b ^ Suc k \<Longrightarrow> length (show_nat b n) \<le> Suc k"
proof (induction k arbitrary: n)
  case (Suc k)
  show ?case
  proof (cases "n < b")
    case False
    have "n div b < b ^ Suc k" using Suc.prems base by (simp add: less_mult_imp_div_less mult.commute)
    from Suc.IH [OF this] show ?thesis using False base by (simp add: show_nat_step)
  qed (simp add: show_nat_small)
qed (simp add: show_nat_small)

text \<open>A padded unit of \<open>k + 1\<close> digits, one digit at a time.\<close>

lemma setw0_step:
  assumes "n < b ^ Suc (Suc k)"
  shows "setw0 (Suc (Suc k)) (show_nat b n) = setw0 (Suc k) (show_nat b (n div b)) @ [digit_char (n mod b)]"
proof (cases "n < b")
  case True
  have "digit_char 0 = CHR ''0''" by (simp add: digit_char_def)
  then show ?thesis using True base
    by (simp add: setw0_def show_nat_small replicate_append_same [symmetric])
next
  case False
  then have "show_nat b n = show_nat b (n div b) @ [digit_char (n mod b)]"
    using base by (simp add: show_nat_step)
  then show ?thesis by (simp add: setw0_def)
qed

lemma show_nat_append:
  assumes "0 < m" "n < b ^ Suc k"
  shows "show_nat b (m * b ^ Suc k + n) = show_nat b m @ setw0 (Suc k) (show_nat b n)"
  using assms(2)
proof (induction k arbitrary: n)
  case 0
  then have "b \<le> m * b + n" using assms(1) by (simp add: trans_le_add1)
  then show ?case using 0 base by (simp add: show_nat_step show_nat_small setw0_def)
next
  case (Suc k)
  let ?x = "m * b ^ Suc (Suc k) + n"
  have "1 \<le> m * b ^ Suc k" using assms(1) base by (simp add: Suc_le_eq)
  then have "b * 1 \<le> b * (m * b ^ Suc k)" by (rule mult_le_mono2)
  also have "\<dots> \<le> ?x" by (simp add: ac_simps)
  finally have "b \<le> ?x" by simp
  moreover have "?x div b = m * b ^ Suc k + n div b"
    using base by (simp add: div_mult_self4 ac_simps)
  moreover have "?x mod b = n mod b" using base by (simp add: mod_mult_self4 ac_simps)
  moreover have "n div b < b ^ Suc k"
    using Suc.prems base by (simp add: less_mult_imp_div_less mult.commute)
  ultimately show ?case
    using base Suc.IH [of "n div b"] setw0_step [OF Suc.prems] by (simp add: show_nat_step)
qed

lemma show_units_normal:
  assumes "normal_units us" "\<forall>u\<in>set us. unat u < b ^ w"
  shows "show_units b w us = show_nat b (digits_val (b ^ w) us)"
proof -
  have gen: "vs \<noteq> [] \<Longrightarrow> (vs \<noteq> us \<Longrightarrow> True) \<Longrightarrow> normal_units vs \<Longrightarrow> \<forall>u\<in>set vs. unat u < b ^ w \<Longrightarrow>
      show_units b w vs = show_nat b (digits_val (b ^ w) vs)" for vs
  proof (induction vs)
    case (Cons u vs)
    obtain k where k: "w = Suc k" using width by (cases w) auto
    show ?case
    proof (cases "vs = []")
      case True
      then show ?thesis by (simp add: show_units_def)
    next
      case False
      with Cons.prems have vs: "normal_units vs" "last vs \<noteq> 0" by (auto simp: normal_units_def)
      then have pos: "0 < digits_val (b ^ w) vs"
        using False base by (cases vs rule: rev_cases) (auto simp: digits_val_append unat_gt_0)
      have "show_units b w (u # vs) = show_units b w vs @ setw0 w (show_nat b (unat u))"
        using False by (simp add: show_units_def)
      also have "\<dots> = show_nat b (digits_val (b ^ w) vs) @ setw0 w (show_nat b (unat u))"
        using Cons.IH Cons.prems vs False by simp
      also have "\<dots> = show_nat b (digits_val (b ^ w) vs * b ^ w + unat u)"
        using show_nat_append [OF pos, of "unat u" k] Cons.prems(4) k by simp
      finally show ?thesis by (simp add: ac_simps)
    qed
  qed simp
  then show ?thesis using assms by (auto simp: normal_units_def)
qed

end

interpretation hex16: unit_text 16 16
  by unfold_locales simp_all

interpretation dec9: unit_text 10 9
  by unfold_locales simp_all

end
