(* ===== verification/RossiArith.thy ===== *)
theory RossiArith
  imports BigIntUnits "HOL-Library.Word"
begin

text \<open>
  \<open>BigInt::Rossi\<close> of \<open>src/common/BigInt.cpp\<close>, the binary big integer: construction,
  comparison, addition, subtraction, increment, decrement and negation, each as the loop over
  64-bit units that the C++ runs. \<open>rossi_val\<close> is the natural number a \<open>Rossi\<close> stands for and
  \<open>rossi_normal\<close> its normal form; the lemmas say that the loops compute the operation on
  \<open>rossi_val\<close> and end in the normal form, or abort exactly where they must.

  Several operators are not \<open>const\<close> in the source and truncate \<open>*this\<close> as well; what is left
  in \<open>*this\<close> is the \<open>_this\<close> companion of the operator. Memory allocation succeeds throughout:
  the \<open>catch (...)\<close> clauses around \<open>reserve\<close>, \<open>resize\<close> and \<open>push_back\<close> are not modelled.
\<close>

section \<open>The class\<close>

datatype rossi = Rossi (m_units: "ulong list")

definition ulong_base :: nat where
  "ulong_base = 2 ^ 64"

lemma ulong_base_pos [simp]: "0 < ulong_base" and ulong_base_gt_1 [simp]: "Suc 0 < ulong_base"
  by (simp_all add: ulong_base_def)

lemma unat_ulong_less: "unat (u :: ulong) < 2 ^ 64"
proof -
  have "(unsigned u :: nat) < 2 ^ LENGTH(64)" by (rule unsigned_less)
  then show ?thesis by simp
qed

lemma unat_less_ulong_base [simp]: "unat (u :: ulong) < ulong_base"
  using unat_ulong_less by (simp add: ulong_base_def)

interpretation r64: positional ulong_base
  by unfold_locales simp

abbreviation units_val :: "ulong list \<Rightarrow> nat" where
  "units_val \<equiv> digits_val ulong_base"

definition rossi_val :: "rossi \<Rightarrow> nat" where
  "rossi_val x = units_val (m_units x)"

definition rossi_normal :: "rossi \<Rightarrow> bool" where
  "rossi_normal x \<longleftrightarrow> normal_units (m_units x)"

lemma units_val_bound: "units_val us < ulong_base ^ length us"
  by (rule r64.val_bound) simp

lemma rossi_normal_nonempty: "rossi_normal x \<Longrightarrow> m_units x \<noteq> []"
  by (simp add: rossi_normal_def normal_units_def)

subsection \<open>Constructors and conversion\<close>

definition rossi_empty :: rossi where
  "rossi_empty = Rossi []"

definition rossi_of_ulong :: "ulong \<Rightarrow> rossi" where
  "rossi_of_ulong i_unit = Rossi [i_unit]"

definition rossi_fill :: "nat \<Rightarrow> ulong \<Rightarrow> ulong \<Rightarrow> rossi res" where
  "rossi_fill i_noOfUnits i_internalUnits i_backUnit =
     (if i_noOfUnits = 0 then Inl Undefined
      else Inr (Rossi (replicate (i_noOfUnits - 1) i_internalUnits @ [i_backUnit])))"

definition RossiZero :: rossi where "RossiZero = rossi_of_ulong 0"
definition RossiOne :: rossi where "RossiOne = rossi_of_ulong 1"
definition RossiTwo :: rossi where "RossiTwo = rossi_of_ulong 2"

definition rossi_toUlong :: "rossi \<Rightarrow> ulong res" where
  "rossi_toUlong x =
     (if m_units x = [] then Inl Assertion
      else if length (m_units x) > 1 then Inl Assertion
      else Inr (hd (m_units x)))"

lemma rossi_val_of_ulong [simp]: "rossi_val (rossi_of_ulong u) = unat u"
  by (simp add: rossi_val_def rossi_of_ulong_def)

lemma rossi_normal_of_ulong [simp]: "rossi_normal (rossi_of_ulong u)"
  by (simp add: rossi_normal_def rossi_of_ulong_def normal_units_def)

lemma rossi_val_consts [simp]:
  "rossi_val RossiZero = 0" "rossi_val RossiOne = 1" "rossi_val RossiTwo = 2"
  by (simp_all add: RossiZero_def RossiOne_def RossiTwo_def)

lemma rossi_normal_consts [simp]:
  "rossi_normal RossiZero" "rossi_normal RossiOne" "rossi_normal RossiTwo"
  by (simp_all add: RossiZero_def RossiOne_def RossiTwo_def)

subsection \<open>Comparison\<close>

text \<open>
  The six comparison operators, each from the others as in the source. Two empty operands are
  outside the domain of the C++ operators (see \<open>BigIntUnits\<close>).
\<close>

definition rossi_lt :: "rossi \<Rightarrow> rossi \<Rightarrow> bool" where
  "rossi_lt x y = units_less (m_units x) (m_units y)"

definition rossi_eq :: "rossi \<Rightarrow> rossi \<Rightarrow> bool" where
  "rossi_eq x y = (if rossi_lt x y then False else if rossi_lt y x then False else True)"

definition rossi_ne :: "rossi \<Rightarrow> rossi \<Rightarrow> bool" where
  "rossi_ne x y = (\<not> rossi_eq x y)"

definition rossi_le :: "rossi \<Rightarrow> rossi \<Rightarrow> bool" where
  "rossi_le x y = (if rossi_lt x y then True else if rossi_eq x y then True else False)"

definition rossi_gt :: "rossi \<Rightarrow> rossi \<Rightarrow> bool" where
  "rossi_gt x y = (\<not> rossi_le x y)"

definition rossi_ge :: "rossi \<Rightarrow> rossi \<Rightarrow> bool" where
  "rossi_ge x y = (\<not> rossi_lt x y)"

lemma rossi_eq_iff [simp]: "rossi_eq x y \<longleftrightarrow> x = y"
  using units_less_linear [of "m_units x" "m_units y"]
  by (cases x; cases y) (auto simp: rossi_eq_def rossi_lt_def)

instantiation rossi :: linorder
begin

definition less_rossi :: "rossi \<Rightarrow> rossi \<Rightarrow> bool" where
  "less_rossi = rossi_lt"

definition less_eq_rossi :: "rossi \<Rightarrow> rossi \<Rightarrow> bool" where
  "less_eq_rossi = rossi_le"

instance
proof
  fix x y z :: rossi
  show "x < y \<longleftrightarrow> x \<le> y \<and> \<not> y \<le> x"
    using units_less_asym by (auto simp: less_rossi_def less_eq_rossi_def rossi_le_def rossi_lt_def)
  show "x \<le> x" by (simp add: less_eq_rossi_def rossi_le_def)
  show "x \<le> y \<Longrightarrow> y \<le> z \<Longrightarrow> x \<le> z"
    using units_less_trans
    by (auto simp: less_eq_rossi_def rossi_le_def rossi_lt_def split: if_splits)
  show "x \<le> y \<Longrightarrow> y \<le> x \<Longrightarrow> x = y"
    using units_less_asym
    by (auto simp: less_eq_rossi_def rossi_le_def rossi_lt_def split: if_splits)
  show "x \<le> y \<or> y \<le> x"
    using units_less_linear [of "m_units x" "m_units y"]
    by (auto simp: less_eq_rossi_def rossi_le_def rossi_lt_def dest: rossi.expand)
qed

end

lemma rossi_lt_order [simp]: "rossi_lt x y \<longleftrightarrow> x < y"
  by (simp add: less_rossi_def)

lemma rossi_le_order [simp]: "rossi_le x y \<longleftrightarrow> x \<le> y"
  by (simp add: less_eq_rossi_def)

lemma rossi_cmp_order [simp]:
  "rossi_gt x y \<longleftrightarrow> y < x" "rossi_ge x y \<longleftrightarrow> y \<le> x" "rossi_ne x y \<longleftrightarrow> x \<noteq> y"
  by (auto simp: rossi_gt_def rossi_ge_def rossi_ne_def)

lemma rossi_less_iff:
  "rossi_normal x \<Longrightarrow> rossi_normal y \<Longrightarrow> x < y \<longleftrightarrow> rossi_val x < rossi_val y"
  unfolding less_rossi_def rossi_lt_def rossi_normal_def rossi_val_def
  by (rule r64.less_iff_val) simp_all

lemma rossi_val_inj:
  "rossi_normal x \<Longrightarrow> rossi_normal y \<Longrightarrow> rossi_val x = rossi_val y \<Longrightarrow> x = y"
  using r64.val_inj [of "m_units x" "m_units y"]
  by (cases x; cases y) (simp add: rossi_normal_def rossi_val_def)

lemma rossi_le_iff:
  "rossi_normal x \<Longrightarrow> rossi_normal y \<Longrightarrow> x \<le> y \<longleftrightarrow> rossi_val x \<le> rossi_val y"
  using rossi_less_iff [of y x] by (simp add: not_less [symmetric])

lemma rossi_eq_iff_val:
  "rossi_normal x \<Longrightarrow> rossi_normal y \<Longrightarrow> x = y \<longleftrightarrow> rossi_val x = rossi_val y"
  using rossi_val_inj by blast

lemmas rossi_order_iffs = rossi_less_iff rossi_le_iff rossi_eq_iff_val

lemma units_less_resized:
  "units_less (resize n us) (resize n vs) \<longleftrightarrow>
    units_val (resize n us) < units_val (resize n vs)"
  by (rule r64.less_same_length) auto

section \<open>Addition\<close>

text \<open>
  The loop of \<open>operator+\<close>, and of \<open>operator+=\<close> (which keeps the overwritten unit in
  \<open>prevDigit\<close>): a unit overflowed when the sum is below an operand, or not above it when
  there was a carry in. The last carry is dropped; the vectors have a spare unit at the back.
\<close>

fun add_units :: "ulong list \<Rightarrow> ulong list \<Rightarrow> ulong \<Rightarrow> ulong list" where
  "add_units (a # as) (b # bs) carry =
     (let r = a + b + carry;
          carry' = (if carry = 0 then (if r < a \<or> r < b then 1 else 0)
                    else (if r \<le> a \<or> r \<le> b then 1 else 0))
      in r # add_units as bs carry')"
| "add_units _ _ _ = []"

definition rossi_plus :: "rossi \<Rightarrow> rossi \<Rightarrow> rossi" where
  "rossi_plus x y =
     (let maxSize = max (length (m_units x)) (length (m_units y));
          this = resize (maxSize + 1) (m_units x);
          arg = resize (maxSize + 1) (m_units y)
      in Rossi (smart_truncate (add_units this arg 0)))"

definition rossi_plus_this :: "rossi \<Rightarrow> rossi \<Rightarrow> rossi" where
  "rossi_plus_this x y =
     (let maxSize = max (length (m_units x)) (length (m_units y))
      in Rossi (smart_truncate (resize (maxSize + 1) (m_units x))))"

definition rossi_plus_ulong :: "rossi \<Rightarrow> ulong \<Rightarrow> rossi" where
  "rossi_plus_ulong x i_arg = rossi_plus x (rossi_of_ulong i_arg)"

definition rossi_plus_assign :: "rossi \<Rightarrow> rossi \<Rightarrow> rossi" where
  "rossi_plus_assign x y =
     (let maxSize = max (length (m_units x)) (length (m_units y));
          this = resize (maxSize + 1) (m_units x);
          arg = resize (maxSize + 1) (m_units y)
      in Rossi (smart_truncate (add_units this arg 0)))"

lemma length_add_units [simp]: "length (add_units us vs c) = min (length us) (length vs)"
  by (induction us vs c rule: add_units.induct) (auto simp: Let_def)

text \<open>One unit: the comparison with the operands is the carry out of the 64-bit sum.\<close>

lemma ulong_add_carry:
  fixes a b c :: ulong
  assumes "c = 0 \<or> c = 1"
  defines "r \<equiv> a + b + c"
  defines "c' \<equiv> (if c = 0 then (if r < a \<or> r < b then 1 else 0)
                   else (if r \<le> a \<or> r \<le> b then 1 else 0) :: ulong)"
  shows "(c' = 0 \<or> c' = 1) \<and> unat r + ulong_base * unat c' = unat a + unat b + unat c"
proof -
  have ab: "unat a < 2 ^ 64" "unat b < 2 ^ 64"
    using unsigned_less [of a] unsigned_less [of b] by simp_all
  have "unat r = (unat a + unat b + unat c) mod 2 ^ 64"
    by (simp add: r_def unat_word_ariths mod_simps)
  moreover have "(n::nat) mod 2 ^ 64 = (if n < 2 ^ 64 then n else n - 2 ^ 64)" if "n < 2 * 2 ^ 64" for n
    using that by (simp add: mod_if)
  ultimately have r: "unat r = (if unat a + unat b + unat c < 2 ^ 64
      then unat a + unat b + unat c else unat a + unat b + unat c - 2 ^ 64)"
    using ab assms(1) by auto
  show ?thesis
    using assms(1) ab r
    by (auto simp: c'_def word_less_nat_alt word_le_nat_alt ulong_base_def split: if_splits)
qed

lemma add_units_val:
  assumes "length us = length vs" "c = 0 \<or> c = 1"
  shows "\<exists>d. units_val (add_units us vs c) + ulong_base ^ length us * d
    = units_val us + units_val vs + unat c"
  using assms
proof (induction us arbitrary: vs c)
  case Nil
  then show ?case by (auto intro: exI [of _ "unat c"])
next
  case (Cons a us)
  then obtain b vs' where vs: "vs = b # vs'" "length us = length vs'"
    by (cases vs) auto
  define r where "r = a + b + c"
  define c' where "c' = (if c = 0 then (if r < a \<or> r < b then 1 else 0)
                         else (if r \<le> a \<or> r \<le> b then 1 else 0) :: ulong)"
  have "(c' = 0 \<or> c' = 1) \<and> unat r + ulong_base * unat c' = unat a + unat b + unat c"
    unfolding r_def c'_def by (rule ulong_add_carry [OF Cons.prems(2)])
  note c' = conjunct1 [OF this] conjunct2 [OF this]
  from Cons.IH [OF vs(2) c'(1)] obtain d where d:
    "units_val (add_units us vs' c') + ulong_base ^ length us * d
      = units_val us + units_val vs' + unat c'" ..
  have "units_val (add_units (a # us) vs c) + ulong_base ^ length (a # us) * d
      = unat r + ulong_base * (units_val (add_units us vs' c') + ulong_base ^ length us * d)"
    by (simp add: vs Let_def r_def c'_def algebra_simps)
  also have "\<dots> = (unat r + ulong_base * unat c') + ulong_base * (units_val us + units_val vs')"
    by (simp only: d) (simp add: algebra_simps)
  also have "\<dots> = units_val (a # us) + units_val vs + unat c"
    by (simp only: c'(2)) (simp add: vs algebra_simps)
  finally show ?case ..
qed

lemma add_units_resized:
  assumes "max (length us) (length vs) < n"
  shows "units_val (add_units (resize n us) (resize n vs) 0) = units_val us + units_val vs"
proof -
  have vals: "units_val (resize n us) = units_val us" "units_val (resize n vs) = units_val vs"
    using assms by (auto intro: digits_val_resize)
  from add_units_val [of "resize n us" "resize n vs" 0] obtain d where d:
    "units_val (add_units (resize n us) (resize n vs) 0) + ulong_base ^ n * d
      = units_val us + units_val vs" by (auto simp: vals)
  have pow: "ulong_base ^ k \<le> ulong_base ^ (n - 1)" if "k < n" for k
    using that ulong_base_gt_1 by (intro power_increasing) linarith+
  have "units_val us < ulong_base ^ (n - 1)" "units_val vs < ulong_base ^ (n - 1)"
    using assms units_val_bound [of us] units_val_bound [of vs]
      pow [of "length us"] pow [of "length vs"] by linarith+
  moreover have "2 * ulong_base ^ (n - 1) \<le> ulong_base ^ n"
    using assms by (cases n) (auto simp: ulong_base_def)
  ultimately have "units_val us + units_val vs < ulong_base ^ n" by linarith
  with d have "ulong_base ^ n * d < ulong_base ^ n * 1" by linarith
  then have "d < 1" by (simp only: mult_less_cancel1)
  then have "d = 0" by simp
  with d show ?thesis by simp
qed

lemma rossi_plus_val [simp]: "rossi_val (rossi_plus x y) = rossi_val x + rossi_val y"
  by (simp add: rossi_plus_def rossi_val_def Let_def add_units_resized)

lemma add_units_resized_Nil [simp]:
  "0 < n \<Longrightarrow> add_units (resize n us) (resize n vs) c \<noteq> []"
  by (metis length_add_units length_resize list.size(3) min.idem neq0_conv)

lemma rossi_plus_normal [simp]: "rossi_normal (rossi_plus x y)"
  by (simp add: rossi_plus_def rossi_normal_def Let_def)

lemma rossi_plus_assign_eq [simp]: "rossi_plus_assign x y = rossi_plus x y"
  by (simp add: rossi_plus_def rossi_plus_assign_def)

lemma smart_truncate_resize:
  assumes "normal_units us" "length us \<le> n"
  shows "smart_truncate (resize n us) = us"
proof (rule r64.val_inj)
  have "resize n us \<noteq> []"
    using assms by (auto simp: normal_units_def resize_def)
  then show "normal_units (smart_truncate (resize n us))" by simp
qed (use assms in \<open>auto simp: digits_val_resize\<close>)

text \<open>A normal operand is left as it was.\<close>

lemma rossi_plus_this_normal: "rossi_normal x \<Longrightarrow> rossi_plus_this x y = x"
  by (simp add: rossi_plus_this_def rossi_normal_def smart_truncate_resize Let_def)

section \<open>Subtraction\<close>

text \<open>The loop of \<open>operator-\<close> and of \<open>operator-=\<close>.\<close>

fun sub_units :: "ulong list \<Rightarrow> ulong list \<Rightarrow> ulong \<Rightarrow> ulong list" where
  "sub_units (a # as) (b # bs) borrow =
     (let r = a - b - borrow;
          borrow' = (if borrow = 0 then (if a < b then 1 else 0) else (if a \<le> b then 1 else 0))
      in r # sub_units as bs borrow')"
| "sub_units _ _ _ = []"

text \<open>The subtrahend must not be larger: \<open>ASSERTION (0)\<close> otherwise.\<close>

definition rossi_minus :: "rossi \<Rightarrow> rossi \<Rightarrow> rossi res" where
  "rossi_minus x y =
     (let maxSize = max (length (m_units x)) (length (m_units y));
          this = resize (maxSize + 1) (m_units x);
          arg = resize (maxSize + 1) (m_units y)
      in if units_less this arg then Inl Assertion
         else Inr (Rossi (smart_truncate (sub_units this arg 0))))"

definition rossi_minus_assign :: "rossi \<Rightarrow> rossi \<Rightarrow> rossi res" where
  "rossi_minus_assign x y =
     (let maxSize = max (length (m_units x)) (length (m_units y));
          this = resize (maxSize + 1) (m_units x);
          arg = resize (maxSize + 1) (m_units y)
      in if units_less this arg then Inl Assertion
         else Inr (Rossi (smart_truncate (sub_units this arg 0))))"

lemma length_sub_units [simp]: "length (sub_units us vs c) = min (length us) (length vs)"
  by (induction us vs c rule: sub_units.induct) (auto simp: Let_def)

lemma ulong_sub_borrow:
  fixes a b c :: ulong
  assumes "c = 0 \<or> c = 1"
  defines "r \<equiv> a - b - c"
  defines "c' \<equiv> (if c = 0 then (if a < b then 1 else 0) else (if a \<le> b then 1 else 0) :: ulong)"
  shows "(c' = 0 \<or> c' = 1) \<and> unat r + unat b + unat c = unat a + ulong_base * unat c'"
proof -
  have "unat a < 2 ^ 64" "unat b < 2 ^ 64"
    using unsigned_less [of a] unsigned_less [of b] by simp_all
  then show ?thesis
    using assms(1)
    by (auto simp: r_def c'_def unat_sub_if_size word_size word_less_nat_alt word_le_nat_alt
        ulong_base_def split: if_splits)
qed

lemma sub_units_val:
  assumes "length us = length vs" "c = 0 \<or> c = 1"
  shows "\<exists>d. units_val (sub_units us vs c) + units_val vs + unat c
    = units_val us + ulong_base ^ length us * d"
  using assms
proof (induction us arbitrary: vs c)
  case Nil
  then show ?case by (auto intro: exI [of _ "unat c"])
next
  case (Cons a us)
  then obtain b vs' where vs: "vs = b # vs'" "length us = length vs'"
    by (cases vs) auto
  define r where "r = a - b - c"
  define c' where "c' = (if c = 0 then (if a < b then 1 else 0)
                         else (if a \<le> b then 1 else 0) :: ulong)"
  have "(c' = 0 \<or> c' = 1) \<and> unat r + unat b + unat c = unat a + ulong_base * unat c'"
    unfolding r_def c'_def by (rule ulong_sub_borrow [OF Cons.prems(2)])
  note c' = conjunct1 [OF this] conjunct2 [OF this]
  from Cons.IH [OF vs(2) c'(1)] obtain d where d:
    "units_val (sub_units us vs' c') + units_val vs' + unat c'
      = units_val us + ulong_base ^ length us * d" ..
  have "units_val (sub_units (a # us) vs c) + units_val vs + unat c
      = (unat r + unat b + unat c)
        + ulong_base * (units_val (sub_units us vs' c') + units_val vs')"
    by (simp add: vs Let_def r_def c'_def algebra_simps)
  also have "\<dots> = unat a
      + ulong_base * (units_val (sub_units us vs' c') + units_val vs' + unat c')"
    by (simp only: c'(2)) (simp add: algebra_simps)
  also have "\<dots> = units_val (a # us) + ulong_base ^ length (a # us) * d"
    by (simp only: d) (simp add: algebra_simps)
  finally show ?case ..
qed

lemma sub_units_resized:
  assumes "max (length us) (length vs) < n" "units_val vs \<le> units_val us"
  shows "units_val (sub_units (resize n us) (resize n vs) 0) = units_val us - units_val vs"
proof -
  have vals: "units_val (resize n us) = units_val us" "units_val (resize n vs) = units_val vs"
    using assms by (auto intro: digits_val_resize)
  let ?r = "units_val (sub_units (resize n us) (resize n vs) 0)"
  from sub_units_val [of "resize n us" "resize n vs" 0] obtain d where d:
    "?r + units_val vs = units_val us + ulong_base ^ n * d" by (auto simp: vals)
  have "?r < ulong_base ^ n"
    using units_val_bound [of "sub_units (resize n us) (resize n vs) 0"] by simp
  with d assms(2) have "ulong_base ^ n * d < ulong_base ^ n * 1" by linarith
  then have "d < 1" by (simp only: mult_less_cancel1)
  then have "d = 0" by simp
  with d show ?thesis by simp
qed

lemma rossi_minus_Inr:
  assumes "rossi_val y \<le> rossi_val x"
  shows "\<exists>z. rossi_minus x y = Inr z \<and> rossi_normal z \<and> rossi_val z = rossi_val x - rossi_val y"
proof -
  let ?n = "max (length (m_units x)) (length (m_units y)) + 1"
  have "\<not> units_less (resize ?n (m_units x)) (resize ?n (m_units y))"
    using assms by (simp add: units_less_resized rossi_val_def digits_val_resize)
  moreover have "sub_units (resize ?n (m_units x)) (resize ?n (m_units y)) 0 \<noteq> []"
    unfolding length_0_conv [symmetric] by simp
  ultimately show ?thesis using assms
    by (simp add: rossi_minus_def Let_def rossi_normal_def rossi_val_def sub_units_resized)
qed

lemma rossi_minus_Inl:
  "rossi_val x < rossi_val y \<Longrightarrow> rossi_minus x y = Inl Assertion"
  by (simp add: rossi_minus_def Let_def units_less_resized rossi_val_def digits_val_resize)

lemma rossi_minus_assign_eq [simp]: "rossi_minus_assign x y = rossi_minus x y"
  by (simp add: rossi_minus_def rossi_minus_assign_def)

section \<open>Increment, decrement, negation\<close>

text \<open>\<open>operator++\<close>: the carry goes on while the unit just incremented became zero.\<close>

fun inc_loop :: "ulong \<Rightarrow> ulong list \<Rightarrow> ulong list" where
  "inc_loop prev [] = []"
| "inc_loop prev (u # us) = (if prev \<noteq> 0 then u # us else (u + 1) # inc_loop (u + 1) us)"

definition inc_units :: "ulong list \<Rightarrow> ulong list" where
  "inc_units us = (case us of [] \<Rightarrow> [] | u # vs \<Rightarrow> (u + 1) # inc_loop (u + 1) vs)"

definition rossi_inc :: "rossi \<Rightarrow> rossi" where
  "rossi_inc x = Rossi (smart_truncate (inc_units (m_units x @ [0])))"

text \<open>The post increment returns the old value and leaves the new one: (result, \<open>*this\<close>).\<close>

definition rossi_post_inc :: "rossi \<Rightarrow> rossi \<times> rossi" where
  "rossi_post_inc x = (x, rossi_inc x)"

text \<open>
  \<open>operator--\<close>: when the front unit wraps to \<open>ULONG_MAX\<close> and there is another unit, the
  source asserts that the unit is below \<open>ULONG_MAX\<close>, which it is not: the borrow always aborts.
\<close>

definition ULONG_MAX :: ulong where "ULONG_MAX = - 1"

fun dec_loop :: "ulong \<Rightarrow> ulong list \<Rightarrow> ulong list res" where
  "dec_loop prev [] = Inr []"
| "dec_loop prev (u # us) =
     (if prev \<noteq> ULONG_MAX then Inr (u # us)
      else if \<not> prev < ULONG_MAX then Inl Assertion
      else bind_res (dec_loop (u - 1) us) (\<lambda>vs. Inr ((u - 1) # vs)))"

definition rossi_dec :: "rossi \<Rightarrow> rossi res" where
  "rossi_dec x =
     (case m_units x of
        [] \<Rightarrow> Inl Undefined
      | u # us \<Rightarrow> bind_res (dec_loop (u - 1) us)
                   (\<lambda>vs. Inr (Rossi (smart_truncate ((u - 1) # vs)))))"

definition rossi_post_dec :: "rossi \<Rightarrow> (rossi \<times> rossi) res" where
  "rossi_post_dec x = bind_res (rossi_dec x) (\<lambda>y. Inr (x, y))"

text \<open>Unary minus: the complement in one unit more, plus one.\<close>

definition rossi_neg :: "rossi \<Rightarrow> rossi res" where
  "rossi_neg x =
     (if m_units x = [] then Inl Assertion
      else Inr (rossi_plus (Rossi (map NOT (m_units x) @ [0])) RossiOne))"

lemma ulong_inc_carry:
  fixes u :: ulong
  shows "unat (u + 1) + ulong_base * of_bool (u + 1 = 0) = unat u + 1"
proof (cases "u + 1 = 0")
  case True
  then have "u = - 1" by (simp add: add_eq_0_iff2)
  then show ?thesis by (simp add: ulong_base_def unat_minus_1_word)
next
  case False
  then have "unat (1 + u) = Suc (unat u)" by (intro unatSuc) (simp add: add.commute)
  then show ?thesis using False by (simp add: add.commute)
qed

lemma inc_loop_val:
  "\<exists>d. units_val (inc_loop prev us) + ulong_base ^ length us * d = units_val us + of_bool (prev = 0)"
proof (induction us arbitrary: prev)
  case Nil
  then show ?case by (auto intro: exI [of _ "of_bool (prev = 0)"])
next
  case (Cons u us)
  show ?case
  proof (cases "prev = 0")
    case True
    from Cons.IH [of "u + 1"] obtain d where d:
      "units_val (inc_loop (u + 1) us) + ulong_base ^ length us * d
        = units_val us + of_bool (u + 1 = 0)" ..
    have "units_val (inc_loop prev (u # us)) + ulong_base ^ length (u # us) * d
        = unat (u + 1)
          + ulong_base * (units_val (inc_loop (u + 1) us) + ulong_base ^ length us * d)"
      using True by (simp add: algebra_simps)
    also have "\<dots> = (unat (u + 1) + ulong_base * of_bool (u + 1 = 0)) + ulong_base * units_val us"
      by (simp only: d) (simp add: algebra_simps)
    also have "\<dots> = units_val (u # us) + of_bool (prev = 0)"
      using True by (simp only: ulong_inc_carry) simp
    finally show ?thesis ..
  qed (auto intro: exI [of _ 0])
qed

lemma length_inc_loop [simp]: "length (inc_loop prev us) = length us"
  by (induction prev us rule: inc_loop.induct) auto

lemma length_inc_units [simp]: "length (inc_units us) = length us"
  by (cases us) (auto simp: inc_units_def)

lemma inc_units_val: "units_val (inc_units (us @ [0])) = units_val us + 1"
proof -
  obtain u vs where uv: "us @ [0] = u # vs" by (cases "us @ [0]") auto
  from inc_loop_val [of "u + 1" vs] obtain d where d:
    "units_val (inc_loop (u + 1) vs) + ulong_base ^ length vs * d
      = units_val vs + of_bool (u + 1 = 0)" ..
  let ?r = "units_val (inc_units (us @ [0]))" and ?n = "Suc (length us)"
  have n: "?n = Suc (length vs)" using arg_cong [OF uv, of length] by simp
  have "?r + ulong_base ^ ?n * d
      = unat (u + 1) + ulong_base * (units_val (inc_loop (u + 1) vs) + ulong_base ^ length vs * d)"
    by (simp only: n uv) (simp add: inc_units_def algebra_simps)
  also have "\<dots> = (unat (u + 1) + ulong_base * of_bool (u + 1 = 0)) + ulong_base * units_val vs"
    by (simp only: d) (simp add: algebra_simps)
  also have "\<dots> = units_val (us @ [0]) + 1"
    by (simp only: ulong_inc_carry uv) simp
  also have "\<dots> = units_val us + 1" by (simp add: digits_val_append)
  finally have eq: "?r + ulong_base ^ ?n * d = units_val us + 1" .
  have "units_val us + 1 \<le> ulong_base ^ length us"
    using units_val_bound [of us] by simp
  also have "\<dots> < ulong_base ^ ?n" by (intro power_strict_increasing) auto
  finally have "ulong_base ^ ?n * d < ulong_base ^ ?n * 1" using eq by linarith
  then have "d < 1" by (simp only: mult_less_cancel1)
  then have "d = 0" by simp
  with eq show ?thesis by simp
qed

lemma rossi_inc_val [simp]: "rossi_val (rossi_inc x) = rossi_val x + 1"
  by (simp add: rossi_inc_def rossi_val_def inc_units_val)

lemma rossi_inc_normal [simp]: "rossi_normal (rossi_inc x)"
proof -
  have "inc_units (m_units x @ [0]) \<noteq> []"
    by (metis length_inc_units append_is_Nil_conv length_0_conv not_Cons_self2)
  then show ?thesis by (simp add: rossi_inc_def rossi_normal_def)
qed

text \<open>Decrement: it borrows nothing, or aborts.\<close>

lemma rossi_dec_front:
  assumes "m_units x = u # us" "u \<noteq> 0"
  shows "\<exists>z. rossi_dec x = Inr z \<and> rossi_normal z \<and> rossi_val z = rossi_val x - 1"
proof -
  have ne: "u - 1 \<noteq> ULONG_MAX" using assms(2) by (simp add: ULONG_MAX_def diff_eq_eq)
  have "unat (u - 1) = unat u - 1" using assms(2) by (simp add: unat_minus_one)
  moreover have "0 < unat u" using assms(2) by (simp add: unat_gt_0)
  ultimately show ?thesis using assms(1) ne
    by (cases us) (simp_all add: rossi_dec_def rossi_normal_def rossi_val_def)
qed

lemma rossi_dec_borrow:
  "m_units x = 0 # v # us \<Longrightarrow> rossi_dec x = Inl Assertion"
  by (simp add: rossi_dec_def ULONG_MAX_def)

lemma rossi_dec_zero: "rossi_dec RossiZero = Inr (rossi_of_ulong ULONG_MAX)"
  by (simp add: rossi_dec_def RossiZero_def rossi_of_ulong_def ULONG_MAX_def
      smart_truncate_normal normal_units_def)

text \<open>Negation is two's complement in as many units as the operand has.\<close>

lemma units_val_not: "units_val (map NOT us) + units_val us = ulong_base ^ length us - 1"
proof (induction us)
  case (Cons u us)
  have "unat (NOT u) + unat u = ulong_base - 1"
    using unat_not_word [of u] by (simp add: ulong_base_def)
  then have "units_val (map NOT (u # us)) + units_val (u # us)
      = (ulong_base - 1) + ulong_base * (units_val (map NOT us) + units_val us)"
    by (simp add: algebra_simps)
  also have "\<dots> = (ulong_base - 1) + ulong_base * (ulong_base ^ length us - 1)"
    by (simp only: Cons.IH)
  also have "\<dots> = ulong_base ^ length (u # us) - 1"
  proof -
    obtain p b where "ulong_base ^ length us = Suc p" "ulong_base = Suc b"
      using gr0_conv_Suc ulong_base_pos zero_less_power by metis
    then show ?thesis by simp
  qed
  finally show ?case .
qed simp

lemma rossi_neg_val:
  assumes "m_units x \<noteq> []"
  shows "\<exists>z. rossi_neg x = Inr z \<and> rossi_normal z \<and>
    rossi_val z + rossi_val x = ulong_base ^ length (m_units x)"
proof -
  have "0 < ulong_base ^ length (m_units x)" by simp
  then show ?thesis using assms units_val_not [of "m_units x"]
    by (simp add: rossi_neg_def) (simp add: rossi_val_def digits_val_append)
qed

end
