(* ===== verification/VinDec.thy ===== *)
theory VinDec
  imports Numerals RossiArith "HOL-Library.Word"
begin

text \<open>
  \<open>BigInt::Vin\<close> of \<open>src/common/BigInt.cpp\<close>, the decimal big integer: units below
  \<open>BASE2 = 10^9\<close> in 64-bit words, least significant first. It exists to print and read a
  \<open>Rossi\<close> in decimal. \<open>vin_ok\<close> is its invariant (units in range, normal form), \<open>vin_val\<close> the
  number it stands for. As in \<open>RossiArith\<close>, allocation succeeds.
\<close>

unbundle bit_operations_syntax

section \<open>The class\<close>

datatype vin = Vin (v_units: "ulong list")

definition BASE2 :: ulong where "BASE2 = 1000000000"
definition SUB_BASE2 :: ulong where "SUB_BASE2 = BASE2 - 1"
definition OVER_BASE2 :: ulong where "OVER_BASE2 = 0xc0000000"

definition vin_base :: nat where "vin_base = 10 ^ 9"

interpretation v9: positional vin_base
  by unfold_locales (simp add: vin_base_def)

definition vin_val :: "vin \<Rightarrow> nat" where
  "vin_val x = digits_val vin_base (v_units x)"

definition vin_ok :: "vin \<Rightarrow> bool" where
  "vin_ok x \<longleftrightarrow> normal_units (v_units x) \<and> (\<forall>u\<in>set (v_units x). unat u < vin_base)"

subsection \<open>Construction, conversion, comparison\<close>

definition vin_of_ulong :: "ulong \<Rightarrow> vin res" where
  "vin_of_ulong i_unit = (if \<not> i_unit < BASE2 then Inl Assertion else Inr (Vin [i_unit]))"

definition vin_toUlong :: "vin \<Rightarrow> ulong res" where
  "vin_toUlong x =
     (if v_units x = [] then Inl Assertion
      else if length (v_units x) > 1 then Inl Assertion
      else Inr (hd (v_units x)))"

definition vin_lt :: "vin \<Rightarrow> vin \<Rightarrow> bool" where
  "vin_lt x y = units_less (v_units x) (v_units y)"

definition vin_eq :: "vin \<Rightarrow> vin \<Rightarrow> bool" where
  "vin_eq x y = (if vin_lt x y then False else if vin_lt y x then False else True)"

definition vin_le :: "vin \<Rightarrow> vin \<Rightarrow> bool" where
  "vin_le x y = (if vin_lt x y then True else if vin_eq x y then True else False)"

definition vin_gt :: "vin \<Rightarrow> vin \<Rightarrow> bool" where
  "vin_gt x y = (\<not> vin_le x y)"

definition vin_ge :: "vin \<Rightarrow> vin \<Rightarrow> bool" where
  "vin_ge x y = (\<not> vin_lt x y)"

definition vin_ne :: "vin \<Rightarrow> vin \<Rightarrow> bool" where
  "vin_ne x y = (\<not> vin_eq x y)"

lemma vin_lt_val: "vin_ok x \<Longrightarrow> vin_ok y \<Longrightarrow> vin_lt x y \<longleftrightarrow> vin_val x < vin_val y"
  by (simp add: vin_lt_def vin_ok_def vin_val_def v9.less_iff_val)

lemma vin_compare_val:
  assumes "vin_ok x" "vin_ok y"
  shows "vin_eq x y \<longleftrightarrow> vin_val x = vin_val y" "vin_le x y \<longleftrightarrow> vin_val x \<le> vin_val y"
    "vin_gt x y \<longleftrightarrow> vin_val y < vin_val x" "vin_ge x y \<longleftrightarrow> vin_val y \<le> vin_val x"
    "vin_ne x y \<longleftrightarrow> vin_val x \<noteq> vin_val y"
  using assms by (auto simp: vin_eq_def vin_le_def vin_gt_def vin_ge_def vin_ne_def vin_lt_val)

section \<open>Addition\<close>

text \<open>\<open>addUnits\<close> with the static \<open>s_carry\<close> as an argument and as the second result.\<close>

definition vin_addUnits :: "ulong \<Rightarrow> ulong \<Rightarrow> ulong \<Rightarrow> ulong \<times> ulong" where
  "vin_addUnits n1 n2 s_carry =
     (let n1' = n1 + (n2 + s_carry);
          s_carry' = (if OVER_BASE2 AND n1' \<noteq> 0 \<or> n1' > SUB_BASE2 then 1 else 0)
      in (if s_carry' \<noteq> 0 then n1' - BASE2 else n1', s_carry'))"

text \<open>\<open>std::transform\<close> over both vectors: the units and the carry that is left.\<close>

fun vin_transform :: "ulong list \<Rightarrow> ulong list \<Rightarrow> ulong \<Rightarrow> ulong list \<times> ulong" where
  "vin_transform (u # us) (v # vs) c =
     (let (r, c') = vin_addUnits u v c; (rs, c'') = vin_transform us vs c' in (r # rs, c''))"
| "vin_transform _ _ c = ([], c)"

definition vin_plus :: "vin \<Rightarrow> vin \<Rightarrow> vin" where
  "vin_plus x y =
     (let maxSize = max (length (v_units x)) (length (v_units y));
          u1 = resize maxSize (v_units x);
          u2 = resize maxSize (v_units y);
          (units, s_carry) = vin_transform u1 u2 0
      in Vin (if s_carry \<noteq> 0 then units @ [s_carry] else units))"

text \<open>\<open>operator*\<close> adds \<open>*this\<close> as many times as its argument says.\<close>

definition vin_times_ulong :: "vin \<Rightarrow> ulong \<Rightarrow> vin" where
  "vin_times_ulong x i_arg = ((\<lambda>ret. vin_plus ret x) ^^ unat i_arg) (Vin [0])"

lemma over_base2_and: "unat u < 2 ^ 30 \<Longrightarrow> OVER_BASE2 AND u = 0"
proof (rule bit_eqI)
  fix n assume "unat u < 2 ^ 30"
  then have "take_bit 30 (unat u) = unat u" by (simp add: take_bit_nat_eq_self_iff)
  then have "bit u n \<Longrightarrow> n < 30"
    by (metis bit_take_bit_iff bit_unsigned_iff bit_imp_possible_bit possible_bit_def unsigned_take_bit_eq
        unsigned_word_eqI)
  moreover have "bit OVER_BASE2 n \<Longrightarrow> 30 \<le> n"
  proof -
    have "OVER_BASE2 = push_bit 30 3" by (simp add: OVER_BASE2_def push_bit_eq_mult)
    then have "bit OVER_BASE2 n = bit (push_bit 30 3 :: ulong) n" by simp
    then show "bit OVER_BASE2 n \<Longrightarrow> 30 \<le> n" by (simp only: bit_push_bit_iff)
  qed
  ultimately show "bit (OVER_BASE2 AND u) n = bit 0 n"
    unfolding bit_and_iff by auto
qed

lemma vin_addUnits_val:
  assumes "unat u < vin_base" "unat v < vin_base" "c = 0 \<or> c = 1"
  shows "vin_addUnits u v c = (r, c') \<Longrightarrow>
    unat r < vin_base \<and> (c' = 0 \<or> c' = 1) \<and> unat r + vin_base * unat c' = unat u + unat v + unat c"
proof -
  assume res: "vin_addUnits u v c = (r, c')"
  let ?n = "u + (v + c)"
  have c: "unat c \<le> 1" using assms(3) by auto
  have n: "unat ?n = unat u + unat v + unat c"
    using assms c by (simp add: unat_word_ariths vin_base_def mod_simps)
  have sub: "SUB_BASE2 < ?n \<longleftrightarrow> vin_base \<le> unat ?n"
    by (simp add: SUB_BASE2_def BASE2_def word_less_nat_alt vin_base_def) linarith
  have carry: "OVER_BASE2 AND ?n \<noteq> 0 \<or> SUB_BASE2 < ?n \<longleftrightarrow> vin_base \<le> unat ?n"
    using over_base2_and [of ?n] sub by (auto simp: vin_base_def)
  show ?thesis
  proof (cases "vin_base \<le> unat ?n")
    case True
    then have "unat (?n - BASE2) = unat ?n - vin_base"
      by (simp add: unat_sub_if_size BASE2_def vin_base_def)
    moreover from res True carry have "r = ?n - BASE2" "c' = 1"
      by (auto simp: vin_addUnits_def Let_def)
    ultimately show ?thesis using True n assms(1,2) c by auto
  next
    case False
    with res carry have "r = ?n" "c' = 0" by (auto simp: vin_addUnits_def Let_def)
    then show ?thesis using False n by auto
  qed
qed

lemma vin_transform_val:
  assumes "length us = length vs" "\<forall>u\<in>set us. unat u < vin_base" "\<forall>v\<in>set vs. unat v < vin_base"
    "c = 0 \<or> c = 1" "vin_transform us vs c = (rs, d)"
  shows "length rs = length us \<and> (\<forall>r\<in>set rs. unat r < vin_base) \<and> (d = 0 \<or> d = 1) \<and>
    digits_val vin_base rs + vin_base ^ length us * unat d
      = digits_val vin_base us + digits_val vin_base vs + unat c"
  using assms
proof (induction us arbitrary: vs c rs)
  case (Cons u us)
  from Cons.prems(1) obtain v vs' where vs: "vs = v # vs'" "length us = length vs'" by (cases vs) auto
  obtain r c' where r: "vin_addUnits u v c = (r, c')" by fastforce
  obtain rs' where rs': "vin_transform us vs' c' = (rs', d)" "rs = r # rs'"
  proof -
    obtain rs' d' where rs': "vin_transform us vs' c' = (rs', d')"
      by (cases "vin_transform us vs' c'")
    have "vin_transform (u # us) vs c = (r # rs', d')" by (simp add: vs(1) r rs')
    then have "rs = r # rs'" "d = d'" unfolding Cons.prems(5) by simp_all
    then show thesis using rs' that by blast
  qed
  from vin_addUnits_val [OF _ _ Cons.prems(4) r] Cons.prems(2,3) vs
  have unit: "unat r < vin_base" "c' = 0 \<or> c' = 1"
    "unat r + vin_base * unat c' = unat u + unat v + unat c" by auto
  from Cons.IH [OF vs(2) _ _ unit(2) rs'(1)] Cons.prems(2,3) vs
  have IH: "length rs' = length us" "\<forall>r\<in>set rs'. unat r < vin_base" "d = 0 \<or> d = 1"
    "digits_val vin_base rs' + vin_base ^ length us * unat d
      = digits_val vin_base us + digits_val vin_base vs' + unat c'" by auto
  have "digits_val vin_base rs + vin_base ^ length (u # us) * unat d
      = unat r + vin_base * (digits_val vin_base rs' + vin_base ^ length us * unat d)"
    by (simp add: rs'(2) algebra_simps)
  also have "\<dots> = (unat r + vin_base * unat c')
      + vin_base * (digits_val vin_base us + digits_val vin_base vs')"
    by (simp only: IH(4)) (simp add: algebra_simps)
  also have "\<dots> = digits_val vin_base (u # us) + digits_val vin_base vs + unat c"
    by (simp only: unit(3)) (simp add: vs algebra_simps)
  finally show ?case using IH unit rs'(2) by auto
qed auto

lemma resize_units_bound:
  "\<forall>u\<in>set us. unat u < vin_base \<Longrightarrow> \<forall>u\<in>set (resize n us). unat u < vin_base"
  by (auto simp: resize_def vin_base_def dest: in_set_takeD)

lemma vin_plus_ok:
  assumes "vin_ok x" "vin_ok y"
  shows "vin_ok (vin_plus x y) \<and> vin_val (vin_plus x y) = vin_val x + vin_val y"
proof -
  let ?us = "v_units x" and ?vs = "v_units y"
  let ?n = "max (length ?us) (length ?vs)"
  obtain rs d where rs: "vin_transform (resize ?n ?us) (resize ?n ?vs) 0 = (rs, d)" by fastforce
  have vals: "digits_val vin_base (resize ?n ?us) = vin_val x" "digits_val vin_base (resize ?n ?vs) = vin_val y"
    by (simp_all add: vin_val_def digits_val_resize)
  have in_range: "\<forall>u\<in>set (resize ?n ?us). unat u < vin_base" "\<forall>u\<in>set (resize ?n ?vs). unat u < vin_base"
    using resize_units_bound assms unfolding vin_ok_def by blast+
  have "length (resize ?n ?us) = length (resize ?n ?vs)" by simp
  note vin_transform_val [OF this in_range disjI1 [OF refl] rs]
  then have r: "length rs = ?n" "\<forall>r\<in>set rs. unat r < vin_base" "d = 0 \<or> d = 1"
    "digits_val vin_base rs + vin_base ^ ?n * unat d = vin_val x + vin_val y"
    by (simp_all add: vals)
  have plus: "vin_plus x y = Vin (if d \<noteq> 0 then rs @ [d] else rs)"
    by (simp add: vin_plus_def rs Let_def)
  show ?thesis
  proof (cases "d = 0")
    case True
    have "last rs \<noteq> 0" if "length rs > 1"
    proof -
      have "vin_base ^ (?n - 1) \<le> vin_val x + vin_val y"
        using assms that v9.val_lower [of ?us] v9.val_lower [of ?vs] r(1)
        by (cases "length ?vs \<le> length ?us") (auto simp: vin_ok_def vin_val_def max_def)
      with True r v9.normal_if_large [OF r(2) that] show ?thesis by simp
    qed
    moreover have "rs \<noteq> []" using r(1) assms by (auto simp: vin_ok_def normal_units_def)
    ultimately show ?thesis using True r plus by (simp add: vin_ok_def vin_val_def normal_units_def)
  next
    case False
    then have "d = 1" using r(3) by simp
    then show ?thesis using r plus
      by (auto simp: vin_ok_def vin_val_def normal_units_def digits_val_append vin_base_def)
  qed
qed

lemma vin_ok_single: "unat u < vin_base \<Longrightarrow> vin_ok (Vin [u])" and vin_val_single: "vin_val (Vin [u]) = unat u"
  by (simp_all add: vin_ok_def normal_units_def vin_val_def)

lemma vin_times_ok:
  assumes "vin_ok x"
  shows "vin_ok (vin_times_ulong x k) \<and> vin_val (vin_times_ulong x k) = vin_val x * unat k"
proof -
  have "vin_ok (((\<lambda>ret. vin_plus ret x) ^^ n) (Vin [0])) \<and>
      vin_val (((\<lambda>ret. vin_plus ret x) ^^ n) (Vin [0])) = n * vin_val x" for n
  proof (induction n)
    case 0
    then show ?case by (simp add: vin_ok_single vin_val_single vin_base_def)
  next
    case (Suc n)
    with vin_plus_ok [OF _ assms] show ?case by simp
  qed
  then show ?thesis by (simp add: vin_times_ulong_def mult.commute)
qed

section \<open>Reading and printing\<close>

text \<open>
  \<open>initViaString\<close>: the base must be 10 or 16 and every character a digit in it, or an
  assertion fails; then the digits are accumulated from the left.
\<close>

definition digits_checked :: "nat \<Rightarrow> string \<Rightarrow> bool" where
  "digits_checked i_digitBase i_arg \<longleftrightarrow>
     (i_digitBase = 16 \<or> i_digitBase = 10) \<and>
     (if i_digitBase = 10 then list_all isdigit i_arg else list_all isxdigit i_arg)"

definition vin_of_string :: "string \<Rightarrow> nat \<Rightarrow> vin res" where
  "vin_of_string i_arg i_digitBase =
     (if digits_checked i_digitBase i_arg
      then fold_res (\<lambda>this c. bind_res (vin_of_ulong (of_nat (ms_hex2dec c)))
                      (\<lambda>d. Inr (vin_plus (vin_times_ulong this (of_nat i_digitBase)) d)))
             (Vin [0]) i_arg
      else Inl Assertion)"

definition vin_toStrDec :: "vin \<Rightarrow> string \<Rightarrow> string" where
  "vin_toStrDec x i_prefix =
     (if v_units x = [] then ''isEmpty'' else i_prefix @ show_units 10 9 (v_units x))"

lemma vin_parse_step:
  assumes "vin_ok x" "b = 10 \<or> b = 16"
  shows "\<exists>z. bind_res (vin_of_ulong (of_nat (ms_hex2dec c)))
      (\<lambda>d. Inr (vin_plus (vin_times_ulong x (of_nat b)) d)) = Inr z \<and> vin_ok z \<and>
    vin_val z = vin_val x * b + ms_hex2dec c"
proof -
  have h: "ms_hex2dec c < 16" by (rule hex2dec_less_16)
  have unats: "unat (of_nat (ms_hex2dec c) :: ulong) = ms_hex2dec c" "unat (of_nat b :: ulong) = b"
    using h assms(2) by (auto simp: unat_of_nat)
  have "vin_of_ulong (of_nat (ms_hex2dec c)) = Inr (Vin [of_nat (ms_hex2dec c)])"
    using h unats(1) by (simp add: vin_of_ulong_def word_less_nat_alt BASE2_def)
  moreover have "vin_ok (Vin [of_nat (ms_hex2dec c)])"
    using h unats(1) by (simp add: vin_ok_single vin_base_def)
  ultimately show ?thesis
    using vin_plus_ok [of "vin_times_ulong x (of_nat b)" "Vin [of_nat (ms_hex2dec c)]"]
      vin_times_ok [OF assms(1), of "of_nat b"] unats by (simp add: vin_val_single)
qed

lemma vin_of_string_Inr:
  assumes "digits_checked b s"
  shows "\<exists>z. vin_of_string s b = Inr z \<and> vin_ok z \<and> vin_val z = parse_nat b s"
proof -
  let ?f = "\<lambda>this c. bind_res (vin_of_ulong (of_nat (ms_hex2dec c)))
                      (\<lambda>d. Inr (vin_plus (vin_times_ulong this (of_nat b)) d))"
  have b: "b = 10 \<or> b = 16" using assms by (auto simp: digits_checked_def)
  have "\<exists>z. fold_res ?f (Vin [0]) t = Inr z \<and> vin_ok z \<and> vin_val z = parse_nat b t" for t
  proof (induction t rule: rev_induct)
    case Nil
    then show ?case by (simp add: vin_ok_single vin_val_single vin_base_def)
  next
    case (snoc c t)
    then obtain z where "fold_res ?f (Vin [0]) t = Inr z" "vin_ok z" "vin_val z = parse_nat b t"
      by blast
    with vin_parse_step [OF _ b, of z c] show ?case by (auto simp: fold_res_append)
  qed
  then show ?thesis using assms by (simp add: vin_of_string_def)
qed

lemma vin_toStrDec_val: "vin_ok x \<Longrightarrow> vin_toStrDec x p = p @ show_nat 10 (vin_val x)"
  using dec9.show_units_normal [of "v_units x"]
  by (auto simp: vin_toStrDec_def vin_ok_def vin_val_def vin_base_def normal_units_def)

end
