(* ===== verification/RossiBits.thy ===== *)
theory RossiBits
  imports RossiArith "HOL-Library.Word"
begin

text \<open>
  The bit operations of \<open>BigInt::Rossi\<close>: the in-place shifts \<open><<=\<close> and \<open>>>=\<close>, one bit per
  pass over the units; the copying shifts \<open><<\<close> and \<open>>>\<close>; and the bitwise operators. The
  lemmas give their values: multiplication and division by powers of two, and the bitwise
  operations on natural numbers.

  Two operators do not do what they are for, and are modelled as they are. \<open>operator<<\<close> asserts
  that its result has one unit less than a vector it has one unit more than, so it always
  aborts. \<open>operator>>\<close> reads \<open>m_units[size ()]\<close>, one unit past the end, in every pass; what it
  finds there is the argument \<open>past\<close> of the model (\<open>past i\<close> in pass \<open>i\<close>). It also returns zero
  when the shift is zero.
\<close>

unbundle bit_operations_syntax

definition ULONG_MSB :: ulong where
  "ULONG_MSB = 0x8000000000000000"

section \<open>Shift left in place\<close>

text \<open>One pass of \<open><<=\<close>: from the front unit to the back, the carry is the old top bit.\<close>

fun shl_rest :: "ulong \<Rightarrow> ulong list \<Rightarrow> ulong list" where
  "shl_rest carry [] = []"
| "shl_rest carry (u # us) =
     (if carry \<noteq> 0 then (push_bit 1 u OR 1) # shl_rest (u AND ULONG_MSB) us
      else push_bit 1 u # shl_rest (u AND ULONG_MSB) us)"

fun shl_pass :: "ulong list \<Rightarrow> ulong list" where
  "shl_pass [] = []"
| "shl_pass (u # us) = push_bit 1 u # shl_rest (u AND ULONG_MSB) us"

definition rossi_shl_assign :: "rossi \<Rightarrow> nat \<Rightarrow> rossi" where
  "rossi_shl_assign x i_shift =
     (let pushBackSize = i_shift div 64 + 1;
          units = m_units x @ replicate (pushBackSize + 1) 0
      in Rossi (smart_truncate ((shl_pass ^^ i_shift) units)))"

lemma unat_msb: "unat ULONG_MSB = 2 ^ 63"
  by (simp add: ULONG_MSB_def)

lemma ulong_msb_exp: "ULONG_MSB = 2 ^ 63"
  by (simp add: ULONG_MSB_def)

lemma ulong_msb_iff: "u AND ULONG_MSB = 0 \<longleftrightarrow> unat (u :: ulong) < 2 ^ 63"
proof -
  have "unat u < 2 ^ 64" by (rule unat_ulong_less)
  then have "unat u div 2 ^ 63 = 0 \<or> unat u div 2 ^ 63 = 1"
    by (auto simp: less_mult_imp_div_less)
  then have "even (unat u div 2 ^ 63) \<longleftrightarrow> unat u < 2 ^ 63" by (auto simp: div_eq_0_iff)
  moreover have "bit u 63 \<longleftrightarrow> bit (unat u) 63" by (simp add: bit_unsigned_iff)
  ultimately show ?thesis
    by (simp only: ulong_msb_exp and_exp_eq_0_iff_not_bit) (simp add: bit_iff_odd)
qed

text \<open>One unit of a pass: doubling it, with the carry out for the bit that is shifted away.\<close>

lemma push_bit_1_ulong: "push_bit 1 u = u * 2" for u :: ulong
  by (simp add: push_bit_eq_mult)

lemma unat_double: "unat (u * 2) = (2 * unat u) mod 2 ^ 64" for u :: ulong
  by (simp add: unat_word_ariths mult.commute)

lemma ulong_double:
  fixes u :: ulong
  shows "unat (u * 2) + ulong_base * of_bool (u AND ULONG_MSB \<noteq> 0) = 2 * unat u"
proof -
  have u: "unat u < 2 ^ 64" by (rule unat_ulong_less)
  show ?thesis
  proof (cases "unat u < 2 ^ 63")
    case True
    then show ?thesis by (simp only: ulong_msb_iff unat_double) simp
  next
    case False
    with u have "(2 * unat u) mod 2 ^ 64 = 2 * unat u - 2 ^ 64" by (simp add: mod_if)
    with False show ?thesis by (simp only: ulong_msb_iff unat_double ulong_base_def) simp
  qed
qed

lemma ulong_double_odd: "unat (u * 2 OR 1) = unat (u * 2) + 1" for u :: ulong
proof -
  have "even (unat (u * 2))" by (simp only: unat_double) (simp add: dvd_mod_iff)
  then show ?thesis by (simp only: unsigned_or_eq unsigned_1) (simp add: or_Suc_0_eq)
qed

lemma shl_rest_val:
  "\<exists>d. units_val (shl_rest carry us) + ulong_base ^ length us * d
    = 2 * units_val us + of_bool (carry \<noteq> 0)"
proof (induction us arbitrary: carry)
  case Nil
  then show ?case by (auto intro: exI [of _ "of_bool (carry \<noteq> 0)"])
next
  case (Cons u us)
  let ?c = "u AND ULONG_MSB"
  from Cons.IH [of ?c] obtain d where d:
    "units_val (shl_rest ?c us) + ulong_base ^ length us * d
      = 2 * units_val us + of_bool (?c \<noteq> 0)" ..
  have "units_val (shl_rest carry (u # us)) + ulong_base ^ length (u # us) * d
      = unat (u * 2) + of_bool (carry \<noteq> 0)
        + ulong_base * (units_val (shl_rest ?c us) + ulong_base ^ length us * d)"
    by (simp add: push_bit_1_ulong ulong_double_odd algebra_simps)
  also have "\<dots> = (unat (u * 2) + ulong_base * of_bool (?c \<noteq> 0))
      + ulong_base * (2 * units_val us) + of_bool (carry \<noteq> 0)"
    by (simp only: d) (simp add: algebra_simps)
  also have "\<dots> = 2 * units_val (u # us) + of_bool (carry \<noteq> 0)"
    by (simp only: ulong_double) simp
  finally show ?case ..
qed

lemma length_shl_rest [simp]: "length (shl_rest carry us) = length us"
  by (induction carry us rule: shl_rest.induct) auto

lemma length_shl_pass [simp]: "length (shl_pass us) = length us"
  by (cases us) auto

lemma shl_pass_eq_rest: "shl_pass us = shl_rest 0 us"
  by (cases us) auto

text \<open>A pass doubles the value as long as it fits in the units.\<close>

lemma shl_pass_val:
  assumes "2 * units_val us < ulong_base ^ length us"
  shows "units_val (shl_pass us) = 2 * units_val us"
proof -
  from shl_rest_val [of 0 us] obtain d where d:
    "units_val (shl_rest 0 us) + ulong_base ^ length us * d = 2 * units_val us" by auto
  with assms have "ulong_base ^ length us * d < ulong_base ^ length us * 1" by linarith
  then have "d < 1" by (simp only: mult_less_cancel1)
  with d show ?thesis by (simp add: shl_pass_eq_rest)
qed

lemma length_shl_passes [simp]: "length ((shl_pass ^^ k) us) = length us"
  by (induction k) auto

lemma shl_passes_val:
  "2 ^ k * units_val us < ulong_base ^ length us \<Longrightarrow>
    units_val ((shl_pass ^^ k) us) = 2 ^ k * units_val us"
proof (induction k)
  case (Suc k)
  have "2 ^ k * units_val us \<le> 2 ^ Suc k * units_val us" by simp
  with Suc.prems have "2 ^ k * units_val us < ulong_base ^ length us" by linarith
  with Suc.IH have IH: "units_val ((shl_pass ^^ k) us) = 2 ^ k * units_val us" .
  with Suc.prems have "2 * units_val ((shl_pass ^^ k) us) < ulong_base ^ length ((shl_pass ^^ k) us)"
    by simp
  from shl_pass_val [OF this] show ?case by (simp add: IH)
qed simp

lemma rossi_shl_assign_val [simp]: "rossi_val (rossi_shl_assign x k) = 2 ^ k * rossi_val x"
proof -
  let ?us = "m_units x" and ?n = "k div 64 + 2"
  have fits: "2 ^ k * units_val (?us @ replicate ?n 0) < ulong_base ^ length (?us @ replicate ?n 0)"
  proof -
    have "k < 64 * ?n" by simp
    then have "(2::nat) ^ k \<le> 2 ^ (64 * ?n)" by (intro power_increasing) auto
    also have "\<dots> = ulong_base ^ ?n" by (simp only: ulong_base_def power_mult)
    finally have "2 ^ k * units_val ?us \<le> ulong_base ^ ?n * units_val ?us" by (rule mult_le_mono1)
    also have "\<dots> < ulong_base ^ ?n * ulong_base ^ length ?us"
      using units_val_bound [of ?us] by (intro mult_strict_left_mono) auto
    finally show ?thesis by (simp add: digits_val_append power_add ac_simps)
  qed
  have "units_val ((shl_pass ^^ k) (?us @ replicate ?n 0)) = 2 ^ k * units_val ?us"
    using shl_passes_val [OF fits] by (simp add: digits_val_append)
  then show ?thesis by (simp add: rossi_shl_assign_def rossi_val_def Let_def)
qed

lemma rossi_shl_assign_normal [simp]: "rossi_normal (rossi_shl_assign x k)"
proof -
  have "length ((shl_pass ^^ k) (m_units x @ replicate (k div 64 + 1 + 1) 0)) \<noteq> 0"
    unfolding length_shl_passes by simp
  then have "(shl_pass ^^ k) (m_units x @ replicate (k div 64 + 1 + 1) 0) \<noteq> []"
    by (simp only: length_0_conv) simp
  then show ?thesis by (simp only: rossi_shl_assign_def rossi_normal_def Let_def rossi.sel) simp
qed

section \<open>Shift right in place\<close>

text \<open>
  One pass of \<open>>>=\<close>: the loop runs from the back unit to the front, so it is written on the
  reversed vector; the carry is the low bit of the unit above.
\<close>

fun shr_rest :: "ulong \<Rightarrow> ulong list \<Rightarrow> ulong list" where
  "shr_rest carry [] = []"
| "shr_rest carry (u # us) =
     (if carry \<noteq> 0 then (drop_bit 1 u OR ULONG_MSB) # shr_rest (u AND 1) us
      else drop_bit 1 u # shr_rest (u AND 1) us)"

text \<open>
  The source first takes the carry from the back unit and shifts that unit, then runs the loop
  over all units, the back one included: the back unit is shifted twice. It is the zero that
  was pushed just before.
\<close>

definition shr_pass :: "ulong list \<Rightarrow> ulong list" where
  "shr_pass us =
     (case rev us of
        [] \<Rightarrow> []
      | u # vs \<Rightarrow> rev (shr_rest (u AND 1) (drop_bit 1 u # vs)))"

definition rossi_shr_assign :: "rossi \<Rightarrow> nat \<Rightarrow> rossi" where
  "rossi_shr_assign x i_shift =
     Rossi (smart_truncate ((shr_pass ^^ i_shift) (m_units x @ [0])))"

lemma unat_drop_bit_1: "unat (drop_bit (Suc 0) u) = unat u div 2" for u :: ulong
  by (simp add: drop_bit_eq_div unat_div)

lemma ulong_halve_msb: "unat (drop_bit (Suc 0) u OR ULONG_MSB) = unat u div 2 + 2 ^ 63" for u :: ulong
proof -
  have "unat u < 2 ^ 64" by (rule unat_ulong_less)
  then have "unat u div 2 < 2 ^ 63" by simp
  then have "\<not> bit (unat u div 2) 63" by (simp add: bit_iff_odd)
  then have "set_bit 63 (unat u div 2) = unat u div 2 + 2 ^ 63"
    by (simp add: set_bit_eq)
  then show ?thesis
    by (simp add: unsigned_or_eq unat_drop_bit_1 unat_msb set_bit_eq_or push_bit_eq_mult)
qed

lemma length_shr_rest [simp]: "length (shr_rest c us) = length us"
  by (induction c us rule: shr_rest.induct) auto

text \<open>In value: halving the number whose units, from the back, are the given ones.\<close>

lemma ulong_low_bit: "u AND 1 = 0 \<longleftrightarrow> even (unat u)" for u :: ulong
proof -
  have "bit u 0 \<longleftrightarrow> bit (unat u) 0" by (simp only: bit_unsigned_iff) simp
  then show ?thesis using and_exp_eq_0_iff_not_bit [of u 0] by (simp add: bit_0)
qed

lemma shr_rest_val:
  "units_val (rev (shr_rest c us))
    = (units_val (rev us) + ulong_base ^ length us * of_bool (c \<noteq> 0)) div 2"
proof (induction us arbitrary: c)
  case (Cons u us)
  let ?n = "ulong_base ^ length us" and ?v = "units_val (rev us)"
  let ?top = "unat u div 2 + 2 ^ 63 * of_bool (c \<noteq> 0)"
  have "units_val (rev (shr_rest c (u # us)))
      = (?v + ?n * of_bool (u AND 1 \<noteq> 0)) div 2 + ?n * ?top"
    by (simp add: digits_val_append Cons.IH unat_drop_bit_1 ulong_halve_msb)
  also have "\<dots> = (?v + ?n * of_bool (u AND 1 \<noteq> 0) + 2 * (?n * ?top)) div 2"
    by simp
  also have "?v + ?n * of_bool (u AND 1 \<noteq> 0) + 2 * (?n * ?top)
      = ?v + ?n * (of_bool (odd (unat u)) + 2 * (unat u div 2))
        + ulong_base * ?n * of_bool (c \<noteq> 0)"
    by (simp add: ulong_low_bit ulong_base_def algebra_simps)
  also have "of_bool (odd (unat u)) + 2 * (unat u div 2) = unat u"
    by (simp add: mod2_eq_if [symmetric])
  finally show ?case by (simp add: digits_val_append ac_simps)
qed simp

lemma shr_pass_val:
  assumes "us \<noteq> []" "last us = 0"
  shows "units_val (shr_pass us) = units_val us div 2 \<and> shr_pass us \<noteq> [] \<and> last (shr_pass us) = 0"
proof -
  from assms obtain vs where us: "us = vs @ [0]" by (metis append_butlast_last_id)
  have "units_val (rev (shr_rest 0 (0 # rev vs))) = units_val us div 2"
    by (simp only: shr_rest_val) (simp add: us)
  then show ?thesis by (simp add: shr_pass_def us)
qed

lemma shr_passes_val:
  assumes "us \<noteq> []" "last us = 0"
  shows "units_val ((shr_pass ^^ k) us) = units_val us div 2 ^ k \<and>
    (shr_pass ^^ k) us \<noteq> [] \<and> last ((shr_pass ^^ k) us) = 0"
proof (induction k)
  case (Suc k)
  then show ?case
    using shr_pass_val [of "(shr_pass ^^ k) us"]
    by (simp add: div_mult2_eq [symmetric] mult.commute)
qed (simp add: assms)

lemma rossi_shr_assign_val [simp]: "rossi_val (rossi_shr_assign x k) = rossi_val x div 2 ^ k"
  using shr_passes_val [of "m_units x @ [0]" k]
  by (simp add: rossi_shr_assign_def rossi_val_def digits_val_append)

lemma rossi_shr_assign_normal [simp]: "rossi_normal (rossi_shr_assign x k)"
  using shr_passes_val [of "m_units x @ [0]" k]
  by (simp add: rossi_shr_assign_def rossi_normal_def)

section \<open>The copying shifts\<close>

text \<open>
  \<open>operator>>\<close>: \<open>ret\<close> starts as zeros, and every pass computes it from \<open>tmp\<close>, reading the
  unit past the end of \<open>tmp\<close> as the carry into the back unit. The pass of an empty vector
  writes to \<open>back ()\<close>.
\<close>

fun shr_copy_loop :: "(nat \<Rightarrow> ulong) \<Rightarrow> nat \<Rightarrow> ulong list \<Rightarrow> ulong list \<Rightarrow> ulong list" where
  "shr_copy_loop past 0 tmp ret = ret"
| "shr_copy_loop past (Suc n) tmp ret =
     (let ret' = rev (shr_rest (past 0 AND 1) (rev tmp))
      in shr_copy_loop (\<lambda>i. past (Suc i)) n ret' ret')"

definition rossi_shr :: "(nat \<Rightarrow> ulong) \<Rightarrow> rossi \<Rightarrow> nat \<Rightarrow> rossi res" where
  "rossi_shr past x i_shift =
     (if m_units x = [] then Inl (if i_shift = 0 then Assertion else Undefined)
      else Inr (Rossi (smart_truncate
             (shr_copy_loop past i_shift (m_units x) (replicate (length (m_units x)) 0)))))"

text \<open>\<open>operator<<\<close> stops at \<open>ASSERTION ((ret.getUnitsSize () + 1) == tmp.getUnitsSize ())\<close>.\<close>

definition rossi_shl :: "rossi \<Rightarrow> nat \<Rightarrow> rossi res" where
  "rossi_shl x i_shift =
     (let tmp = m_units x; ret = resize (length tmp + 1) ([] :: ulong list)
      in if length ret + 1 \<noteq> length tmp then Inl Assertion
         else Inr (Rossi (smart_truncate ((shl_pass ^^ i_shift) tmp))))"

lemma shr_copy_loop_val:
  assumes "us \<noteq> []" "\<forall>i < n. even (unat (past i))"
  shows "units_val (shr_copy_loop past n us ret) = (if n = 0 then units_val ret else units_val us div 2 ^ n)"
  using assms
proof (induction past n us ret rule: shr_copy_loop.induct)
  case (2 past n tmp ret)
  let ?ret = "rev (shr_rest (past 0 AND 1) (rev tmp))"
  from "2.prems"(2) have "past 0 AND 1 = 0" by (simp add: ulong_low_bit)
  then have ret: "units_val ?ret = units_val tmp div 2"
    using shr_rest_val [of "past 0 AND 1" "rev tmp"] by simp
  have ne: "?ret \<noteq> []" using "2.prems"(1) by (metis length_0_conv length_rev length_shr_rest)
  from "2.prems"(2) have "\<forall>i < n. even (unat (past (Suc i)))" by auto
  from "2.IH" [OF refl ne this] ret show ?case
    by (simp add: Let_def div_mult2_eq [symmetric])
qed simp

lemma shr_copy_loop_length [simp]:
  "length (shr_copy_loop past n us ret) = (if n = 0 then length ret else length us)"
  by (induction past n us ret rule: shr_copy_loop.induct) (auto simp: Let_def)

lemma shr_copy_loop_Nil:
  "us \<noteq> [] \<Longrightarrow> shr_copy_loop past n us (replicate (length us) 0) \<noteq> []"
  by (subst length_0_conv [symmetric]) simp

text \<open>With an even unit past the end, a shift that is not zero divides.\<close>

lemma rossi_shr_val:
  assumes "m_units x \<noteq> []" "0 < n" "\<forall>i < n. even (unat (past i))"
  shows "\<exists>z. rossi_shr past x n = Inr z \<and> rossi_normal z \<and> rossi_val z = rossi_val x div 2 ^ n"
  using assms shr_copy_loop_val [OF assms(1,3)] shr_copy_loop_Nil [OF assms(1)]
  by (simp add: rossi_shr_def rossi_normal_def rossi_val_def)

text \<open>With an odd one, the top bit of the result is set instead of cleared.\<close>

lemma rossi_shr_garbage:
  assumes "m_units x \<noteq> []" "odd (unat (past 0))"
  shows "\<exists>z. rossi_shr past x 1 = Inr z \<and>
    rossi_val z = (rossi_val x + ulong_base ^ length (m_units x)) div 2"
proof -
  from assms(2) have "past 0 AND 1 \<noteq> 0" by (simp add: ulong_low_bit)
  then show ?thesis using assms(1) shr_rest_val [of "past 0 AND 1" "rev (m_units x)"]
    by (simp add: rossi_shr_def rossi_val_def Let_def)
qed

text \<open>A zero shift returns zero.\<close>

lemma rossi_shr_zero:
  "m_units x \<noteq> [] \<Longrightarrow> \<exists>z. rossi_shr past x 0 = Inr z \<and> rossi_val z = 0"
  by (simp add: rossi_shr_def rossi_val_def)

lemma rossi_shl_aborts: "rossi_shl x k = Inl Assertion"
  by (simp add: rossi_shl_def Let_def)

section \<open>Bitwise operators\<close>

text \<open>
  All of them resize the operands to the longer length, work unit by unit and truncate; for two
  empty operands the truncation asserts.
\<close>

definition rossi_bitop :: "(ulong \<Rightarrow> ulong \<Rightarrow> ulong) \<Rightarrow> rossi \<Rightarrow> rossi \<Rightarrow> rossi res" where
  "rossi_bitop f x y =
     (let maxSize = max (length (m_units x)) (length (m_units y))
      in if maxSize = 0 then Inl Assertion
         else Inr (Rossi (smart_truncate
                (map2 f (resize maxSize (m_units x)) (resize maxSize (m_units y))))))"

definition rossi_and :: "rossi \<Rightarrow> rossi \<Rightarrow> rossi res" where
  "rossi_and x y = rossi_bitop (AND) x y"

definition rossi_or :: "rossi \<Rightarrow> rossi \<Rightarrow> rossi res" where
  "rossi_or x y = rossi_bitop (OR) x y"

definition rossi_xor :: "rossi \<Rightarrow> rossi \<Rightarrow> rossi res" where
  "rossi_xor x y = rossi_bitop (XOR) x y"

definition rossi_not :: "rossi \<Rightarrow> rossi res" where
  "rossi_not x =
     (if m_units x = [] then Inl Assertion
      else Inr (Rossi (smart_truncate (map NOT (m_units x)))))"

definition rossi_and_assign :: "rossi \<Rightarrow> rossi \<Rightarrow> rossi res" where
  "rossi_and_assign x y = rossi_bitop (AND) x y"

definition rossi_or_assign :: "rossi \<Rightarrow> rossi \<Rightarrow> rossi res" where
  "rossi_or_assign x y = rossi_bitop (OR) x y"

definition rossi_xor_assign :: "rossi \<Rightarrow> rossi \<Rightarrow> rossi res" where
  "rossi_xor_assign x y = rossi_bitop (XOR) x y"

text \<open>
  The law a unit operation must have for the bitwise operator on vectors to be the operation on
  numbers; the three operators are its instances.
\<close>

locale bitwise_op =
  fixes f :: "ulong \<Rightarrow> ulong \<Rightarrow> ulong" and F :: "nat \<Rightarrow> nat \<Rightarrow> nat"
  assumes zero: "F 0 0 = 0"
    and unit: "unat (f u v) = F (unat u) (unat v)"
    and low: "take_bit 64 (F m n) = F (take_bit 64 m) (take_bit 64 n)"
    and high: "drop_bit 64 (F m n) = F (drop_bit 64 m) (drop_bit 64 n)"
begin

lemma units_op:
  "length us = length vs \<Longrightarrow> units_val (map2 f us vs) = F (units_val us) (units_val vs)"
proof (induction us vs rule: list_induct2)
  case Nil
  then show ?case by (simp add: zero)
next
  case (Cons u us v vs)
  have parts: "take_bit 64 (unat w + ulong_base * n) = unat w"
    "drop_bit 64 (unat w + ulong_base * n) = n" for w :: ulong and n
    using unat_ulong_less [of w] by (simp_all add: ulong_base_def take_bit_eq_mod drop_bit_eq_div)
  let ?F = "F (units_val (u # us)) (units_val (v # vs))"
  have "units_val (map2 f (u # us) (v # vs))
      = take_bit 64 ?F + ulong_base * drop_bit 64 ?F"
    unfolding low high digits_val.simps parts by (simp add: unit Cons.IH)
  also have "\<dots> = push_bit 64 (drop_bit 64 ?F) + take_bit 64 ?F"
    by (simp add: ulong_base_def push_bit_eq_mult)
  finally show ?case by (simp only: bits_ident)
qed

lemma rossi_bitop_val:
  assumes "m_units x \<noteq> [] \<or> m_units y \<noteq> []"
  shows "\<exists>z. rossi_bitop f x y = Inr z \<and> rossi_normal z \<and> rossi_val z = F (rossi_val x) (rossi_val y)"
proof -
  let ?n = "max (length (m_units x)) (length (m_units y))"
  let ?us = "resize ?n (m_units x)" and ?vs = "resize ?n (m_units y)"
  have n: "?n \<noteq> 0" using assms by auto
  then have "map2 f ?us ?vs \<noteq> []" by (subst length_0_conv [symmetric]) simp
  moreover have "units_val (map2 f ?us ?vs) = F (units_val (m_units x)) (units_val (m_units y))"
    by (simp add: units_op digits_val_resize)
  ultimately show ?thesis using n
    by (simp add: rossi_bitop_def Let_def rossi_normal_def rossi_val_def)
qed

end

interpretation and64: bitwise_op "(AND)" "(AND)"
  by unfold_locales (simp_all add: unsigned_and_eq)

interpretation or64: bitwise_op "(OR)" "(OR)"
  by unfold_locales (simp_all add: unsigned_or_eq)

interpretation xor64: bitwise_op "(XOR)" "(XOR)"
  by unfold_locales (simp_all add: unsigned_xor_eq)

lemmas rossi_and_val = and64.rossi_bitop_val [folded rossi_and_def]
lemmas rossi_or_val = or64.rossi_bitop_val [folded rossi_or_def]
lemmas rossi_xor_val = xor64.rossi_bitop_val [folded rossi_xor_def]

lemma rossi_not_val:
  assumes "m_units x \<noteq> []"
  shows "\<exists>z. rossi_not x = Inr z \<and> rossi_normal z \<and>
    rossi_val z = ulong_base ^ length (m_units x) - 1 - rossi_val x"
  using assms units_val_not [of "m_units x"]
  by (simp add: rossi_not_def rossi_normal_def rossi_val_def)

end
