(* ===== verification/RossiMul.thy ===== *)
theory RossiMul
  imports RossiBits "HOL-Library.Word"
begin

text \<open>
  Multiplication, division, the binary logarithm and the square root of \<open>BigInt::Rossi\<close>. The
  first two are the school methods in base two, built on the in-place shifts, \<open>+=\<close> and \<open>-=\<close>;
  the lemmas show that they compute the product, the quotient and the remainder, that their
  loops end, and that the assertion at the end of \<open>divide\<close> holds.
\<close>

section \<open>Multiplication\<close>

lemma rossi_eq_zero_iff: "rossi_normal x \<Longrightarrow> x = RossiZero \<longleftrightarrow> rossi_val x = 0"
  using rossi_eq_iff_val [of x RossiZero] by simp

text \<open>
  The \<open>do ... while\<close> of \<open>operator*\<close>: add \<open>tmp\<close> where the low bit of the multiplier is set,
  halve the multiplier, double \<open>tmp\<close>, until the multiplier is zero.
\<close>

function mul_loop :: "rossi \<Rightarrow> rossi \<Rightarrow> rossi \<Rightarrow> rossi" where
  "mul_loop ret tmp i_arg =
     (let ret' = (if hd (m_units i_arg) AND 1 \<noteq> 0 then rossi_plus_assign ret tmp else ret);
          i_arg' = rossi_shr_assign i_arg 1;
          tmp' = rossi_shl_assign tmp 1
      in if rossi_ne i_arg' RossiZero then mul_loop ret' tmp' i_arg' else ret')"
  by pat_completeness auto

termination
proof (relation "measure (\<lambda>(ret, tmp, i_arg). rossi_val i_arg)")
  fix ret tmp i_arg ret' i_arg' tmp'
  assume "i_arg' = rossi_shr_assign i_arg 1" "rossi_ne i_arg' RossiZero"
  then have "rossi_val i_arg div 2 \<noteq> 0"
    using rossi_eq_zero_iff [of "rossi_shr_assign i_arg 1"] by simp
  then show "((ret', tmp', i_arg'), ret, tmp, i_arg) \<in> measure (\<lambda>(ret, tmp, i_arg). rossi_val i_arg)"
    using \<open>i_arg' = rossi_shr_assign i_arg 1\<close> by simp
qed simp

declare mul_loop.simps [simp del]

text \<open>
  An empty multiplier is read with \<open>front ()\<close>; an empty \<open>*this\<close> is truncated at the end, which
  asserts. The operator takes \<open>const\<close> and casts it away to truncate \<open>*this\<close>.
\<close>

definition rossi_times :: "rossi \<Rightarrow> rossi \<Rightarrow> rossi res" where
  "rossi_times x i_arg =
     (if m_units i_arg = [] then Inl Undefined
      else let ret = mul_loop RossiZero x i_arg
           in if m_units x = [] then Inl Assertion
              else Inr (Rossi (smart_truncate (m_units ret))))"

definition rossi_times_ulong :: "rossi \<Rightarrow> ulong \<Rightarrow> rossi res" where
  "rossi_times_ulong x i_arg = rossi_times x (rossi_of_ulong i_arg)"

lemma rossi_low_bit: "m_units x \<noteq> [] \<Longrightarrow> hd (m_units x) AND 1 = 0 \<longleftrightarrow> even (rossi_val x)"
  by (cases "m_units x") (auto simp: rossi_val_def ulong_low_bit ulong_base_def)

lemma mul_loop_val:
  assumes "m_units i_arg \<noteq> []" "rossi_normal ret"
  shows "rossi_val (mul_loop ret tmp i_arg) = rossi_val ret + rossi_val tmp * rossi_val i_arg
    \<and> rossi_normal (mul_loop ret tmp i_arg)"
  using assms
proof (induction ret tmp i_arg rule: mul_loop.induct)
  case (1 ret tmp i_arg)
  let ?v = "rossi_val i_arg"
  define ret' where "ret' = (if hd (m_units i_arg) AND 1 \<noteq> 0 then rossi_plus_assign ret tmp else ret)"
  have ret': "rossi_val ret' = rossi_val ret + rossi_val tmp * of_bool (odd ?v)" "rossi_normal ret'"
    using "1.prems" by (auto simp: ret'_def rossi_low_bit)
  have v: "?v = of_bool (odd ?v) + 2 * (?v div 2)" by (simp add: mod2_eq_if [symmetric])
  show ?case
  proof (cases "rossi_ne (rossi_shr_assign i_arg 1) RossiZero")
    case True
    have "m_units (rossi_shr_assign i_arg 1) \<noteq> []"
      by (rule rossi_normal_nonempty) simp
    from "1.IH" [OF ret'_def refl refl True this ret'(2)]
    have IH: "rossi_val (mul_loop ret' (rossi_shl_assign tmp 1) (rossi_shr_assign i_arg 1))
        = rossi_val ret' + (2 * rossi_val tmp) * (?v div 2)"
      "rossi_normal (mul_loop ret' (rossi_shl_assign tmp 1) (rossi_shr_assign i_arg 1))"
      by simp_all
    have step: "mul_loop ret tmp i_arg
        = mul_loop ret' (rossi_shl_assign tmp 1) (rossi_shr_assign i_arg 1)"
      using True by (subst mul_loop.simps) (simp only: ret'_def Let_def if_True)
    have "rossi_val ret' + (2 * rossi_val tmp) * (?v div 2)
        = rossi_val ret + rossi_val tmp * (of_bool (odd ?v) + 2 * (?v div 2))"
      unfolding ret' by (simp add: algebra_simps)
    then show ?thesis using IH by (simp only: step v [symmetric])
  next
    case False
    then have "rossi_val (rossi_shr_assign i_arg 1) = 0" by simp
    then have "?v div 2 = 0" by simp
    then have "?v = of_bool (odd ?v)" using v by linarith
    moreover have "mul_loop ret tmp i_arg = ret'"
      using False by (subst mul_loop.simps) (simp only: ret'_def Let_def if_False)
    ultimately show ?thesis using ret' by metis
  qed
qed

lemma rossi_times_Inr:
  assumes "m_units x \<noteq> []" "m_units y \<noteq> []"
  shows "\<exists>z. rossi_times x y = Inr z \<and> rossi_normal z \<and> rossi_val z = rossi_val x * rossi_val y"
proof -
  from mul_loop_val [OF assms(2), of RossiZero x]
  have "rossi_val (mul_loop RossiZero x y) = rossi_val x * rossi_val y"
    "rossi_normal (mul_loop RossiZero x y)" by auto
  moreover from this have "smart_truncate (m_units (mul_loop RossiZero x y)) = m_units (mul_loop RossiZero x y)"
    by (simp add: rossi_normal_def smart_truncate_normal)
  ultimately show ?thesis using assms by (simp add: rossi_times_def)
qed

section \<open>Division\<close>

text \<open>
  The first loop of \<open>divide\<close>: shift the divisor left until it is not below the dividend,
  counting. The loop has no bound in the code, so not returning is the value \<open>None\<close>: a divisor
  of several units that are all zero is not equal to \<open>RossiZero\<close>, passes the check for zero and
  is never shifted to anything else.
\<close>

partial_function (option) shift_up :: "rossi \<Rightarrow> rossi \<Rightarrow> int \<Rightarrow> (rossi \<times> int) option" where
  "shift_up divisor dividend shiftcnt =
     (if rossi_lt divisor dividend
      then shift_up (rossi_shl_assign divisor 1) dividend (shiftcnt + 1)
      else Some (divisor, shiftcnt))"

declare shift_up.simps [code]

text \<open>The second loop: \<open>n\<close> more bits of the quotient; the state is (dividend, divisor, quotient).\<close>

fun divide_loop :: "nat \<Rightarrow> rossi \<Rightarrow> rossi \<Rightarrow> rossi \<Rightarrow> (rossi \<times> rossi) res" where
  "divide_loop 0 dividend divisor quot = Inr (dividend, quot)"
| "divide_loop (Suc n) dividend divisor quot =
     (if rossi_le divisor dividend
      then bind_res (rossi_minus_assign dividend divisor) (\<lambda>dividend'.
             divide_loop n dividend' (rossi_shr_assign divisor 1)
               (snd (rossi_post_inc (rossi_shl_assign quot 1))))
      else divide_loop n dividend (rossi_shr_assign divisor 1) (rossi_shl_assign quot 1))"

text \<open>
  \<open>divide\<close>, with the remainder it stores through \<open>o_remainder\<close> as the second result. The
  quotient starts as zeros in as many units as the dividend has. The last step is the source's
  own check of the result.
\<close>

definition rossi_divide :: "rossi \<Rightarrow> rossi \<Rightarrow> (rossi \<times> rossi) res" where
  "rossi_divide i_dividend i_divisor =
     (if rossi_eq i_divisor RossiZero then Inl Assertion
      else case shift_up i_divisor i_dividend 0 of
        None \<Rightarrow> Inl Diverges
      | Some (divisor, shiftcnt) \<Rightarrow>
          (let quot = Rossi (resize (length (m_units i_dividend)) (m_units RossiZero));
               (divisor', shiftcnt') =
                 (if rossi_gt divisor i_dividend then (rossi_shr_assign divisor 1, shiftcnt - 1)
                  else (divisor, shiftcnt))
           in bind_res
                (if shiftcnt' \<ge> 0
                 then divide_loop (nat (shiftcnt' + 1)) i_dividend divisor' quot
                 else Inr (i_dividend, quot))
                (\<lambda>(dividend, quot').
                   if m_units dividend = [] \<or> m_units quot' = [] then Inl Assertion
                   else let remainder = Rossi (smart_truncate (m_units dividend));
                            quot'' = Rossi (smart_truncate (m_units quot'))
                        in bind_res (rossi_times quot'' i_divisor) (\<lambda>p.
                             if rossi_eq (rossi_plus p remainder) i_dividend
                             then Inr (quot'', remainder)
                             else Inl Assertion))))"

definition rossi_div :: "rossi \<Rightarrow> rossi \<Rightarrow> rossi res" where
  "rossi_div x i_arg = bind_res (rossi_divide x i_arg) (\<lambda>(q, r). Inr q)"

definition rossi_mod :: "rossi \<Rightarrow> rossi \<Rightarrow> rossi res" where
  "rossi_mod x i_arg = bind_res (rossi_divide x i_arg) (\<lambda>(q, r). Inr r)"

lemma shift_up_result:
  assumes "rossi_normal d" "rossi_normal n" "0 < rossi_val d"
  shows "\<exists>d' k. shift_up d n c = Some (d', c + int k) \<and> rossi_normal d' \<and>
    rossi_val d' = 2 ^ k * rossi_val d \<and> rossi_val n \<le> rossi_val d' \<and>
    (0 < k \<longrightarrow> rossi_val d' < 2 * rossi_val n)"
  using assms
proof (induction "rossi_val n - rossi_val d" arbitrary: d c rule: less_induct)
  case less
  show ?case
  proof (cases "rossi_val d < rossi_val n")
    case True
    let ?d = "rossi_shl_assign d 1"
    have step: "shift_up d n c = shift_up ?d n (c + 1)"
      using True less.prems by (subst shift_up.simps) (simp add: rossi_less_iff)
    have "rossi_val n - rossi_val ?d < rossi_val n - rossi_val d"
      using True less.prems(3) by simp
    from less.hyps [OF this, of "c + 1"] less.prems obtain d' k where d':
      "shift_up ?d n (c + 1) = Some (d', c + 1 + int k)" "rossi_normal d'"
      "rossi_val d' = 2 ^ k * rossi_val ?d" "rossi_val n \<le> rossi_val d'"
      "0 < k \<longrightarrow> rossi_val d' < 2 * rossi_val n" by auto
    have "rossi_val d' < 2 * rossi_val n"
      using d'(3,5) True by (cases "k = 0") auto
    then have "shift_up d n c = Some (d', c + int (Suc k)) \<and> rossi_normal d' \<and>
        rossi_val d' = 2 ^ Suc k * rossi_val d \<and> rossi_val n \<le> rossi_val d' \<and>
        (0 < Suc k \<longrightarrow> rossi_val d' < 2 * rossi_val n)"
      using d' by (simp add: step)
    then show ?thesis by blast
  next
    case False
    then have "shift_up d n c = Some (d, c + int 0) \<and> rossi_normal d \<and>
        rossi_val d = 2 ^ 0 * rossi_val d \<and> rossi_val n \<le> rossi_val d \<and>
        (0 < (0::nat) \<longrightarrow> rossi_val d < 2 * rossi_val n)"
      using less.prems by (subst shift_up.simps) (simp add: rossi_less_iff)
    then show ?thesis by blast
  qed
qed

text \<open>
  One turn of the second loop keeps \<open>dividend + quotient * 2 * divisor\<close>; the divisor is
  \<open>2^n\<close> times the given one when \<open>n + 1\<close> bits are left, and halving it is exact until then.
\<close>

lemma divide_loop_val:
  assumes "rossi_normal a" "rossi_normal d" "rossi_val d = (2 ^ n * b) div 2" "0 < b"
    "rossi_val a < 2 ^ n * b"
  shows "\<exists>r q'. divide_loop n a d q = Inr (r, q') \<and> rossi_normal r \<and> rossi_val r < b \<and>
    (n \<noteq> 0 \<longrightarrow> rossi_normal q') \<and> (n = 0 \<longrightarrow> q' = q) \<and>
    rossi_val q' * b + rossi_val r = 2 ^ n * rossi_val q * b + rossi_val a"
  using assms
proof (induction n arbitrary: a d q)
  case (Suc n)
  have d: "rossi_val d = 2 ^ n * b" using Suc.prems(3) by simp
  define a' where "a' = (if rossi_val d \<le> rossi_val a then rossi_val a - rossi_val d else rossi_val a)"
  have a': "a' < 2 ^ n * b" using Suc.prems(5) d by (auto simp: a'_def)
  let ?q = "rossi_shl_assign q 1" and ?d = "rossi_shr_assign d 1"
  have halved: "rossi_val ?d = (2 ^ n * b) div 2" by (simp add: d)
  show ?case
  proof (cases "rossi_val d \<le> rossi_val a")
    case True
    from rossi_minus_Inr [OF True] obtain z where z: "rossi_minus a d = Inr z" "rossi_normal z"
      "rossi_val z = rossi_val a - rossi_val d" by blast
    have "rossi_val z < 2 ^ n * b" using a' True z(3) by (simp add: a'_def)
    from Suc.IH [OF z(2) _ halved Suc.prems(4) this, of "rossi_inc ?q"]
    obtain r q' where IH: "divide_loop n z ?d (rossi_inc ?q) = Inr (r, q')" "rossi_normal r"
      "rossi_val r < b" "n \<noteq> 0 \<longrightarrow> rossi_normal q'" "n = 0 \<longrightarrow> q' = rossi_inc ?q"
      "rossi_val q' * b + rossi_val r = 2 ^ n * rossi_val (rossi_inc ?q) * b + rossi_val z" by auto
    have "2 ^ n * rossi_val (rossi_inc ?q) * b + rossi_val z
        = 2 ^ Suc n * rossi_val q * b + (2 ^ n * b + rossi_val z)"
      by (simp add: algebra_simps)
    also have "2 ^ n * b + rossi_val z = rossi_val a" using True z(3) d by simp
    finally have "rossi_val q' * b + rossi_val r = 2 ^ Suc n * rossi_val q * b + rossi_val a"
      using IH(6) by simp
    moreover have "divide_loop (Suc n) a d q = Inr (r, q')"
      using True Suc.prems z(1) IH(1) by (simp add: rossi_le_iff rossi_post_inc_def)
    moreover have "rossi_normal q'" using IH(4,5) by (cases "n = 0") auto
    ultimately show ?thesis using IH(2,3) by blast
  next
    case False
    then have "rossi_val a < 2 ^ n * b" using a' by (simp add: a'_def)
    from Suc.IH [OF Suc.prems(1) _ halved Suc.prems(4) this, of ?q]
    obtain r q' where IH: "divide_loop n a ?d ?q = Inr (r, q')" "rossi_normal r"
      "rossi_val r < b" "n \<noteq> 0 \<longrightarrow> rossi_normal q'" "n = 0 \<longrightarrow> q' = ?q"
      "rossi_val q' * b + rossi_val r = 2 ^ n * rossi_val ?q * b + rossi_val a" by auto
    have "divide_loop (Suc n) a d q = Inr (r, q')"
      using False Suc.prems IH(1) by (simp add: rossi_le_iff)
    moreover have "rossi_normal q'" using IH(4,5) by (cases "n = 0") auto
    moreover have "rossi_val q' * b + rossi_val r = 2 ^ Suc n * rossi_val q * b + rossi_val a"
      using IH(6) by simp
    ultimately show ?thesis using IH(2,3) by blast
  qed
qed (auto intro!: exI)

lemma rossi_divide_zero: "rossi_divide x RossiZero = Inl Assertion"
  by (simp add: rossi_divide_def)

text \<open>The end of \<open>divide\<close>: the truncations and the check of the result.\<close>

lemma divide_check:
  assumes "rossi_normal a" "rossi_normal b" "m_units q \<noteq> []" "rossi_normal r"
    "rossi_val q * rossi_val b + rossi_val r = rossi_val a" "rossi_val r < rossi_val b"
  shows "\<exists>z. bind_res (rossi_times (Rossi (smart_truncate (m_units q))) b) (\<lambda>p.
      if rossi_eq (rossi_plus p r) a then Inr (Rossi (smart_truncate (m_units q)), r)
      else Inl Assertion) = Inr (z, r) \<and> rossi_normal z \<and>
      rossi_val z = rossi_val a div rossi_val b \<and> rossi_val r = rossi_val a mod rossi_val b"
proof -
  let ?q = "Rossi (smart_truncate (m_units q))"
  have q: "rossi_normal ?q" "rossi_val ?q = rossi_val q"
    using assms(3) by (simp_all add: rossi_normal_def rossi_val_def)
  from rossi_times_Inr [of ?q b] obtain p where p: "rossi_times ?q b = Inr p"
    "rossi_val p = rossi_val q * rossi_val b"
    using rossi_normal_nonempty [OF q(1)] rossi_normal_nonempty [OF assms(2)] q(2) by auto
  have "rossi_plus p r = a"
    using assms(1,5) p(2) by (intro rossi_val_inj) auto
  moreover have "rossi_val a div rossi_val b = rossi_val q" "rossi_val a mod rossi_val b = rossi_val r"
    using assms(5,6) by (auto simp flip: assms(5))
  ultimately show ?thesis using p(1) q by simp
qed

lemma rossi_divide_Inr:
  assumes "rossi_normal a" "rossi_normal b" "0 < rossi_val b"
  shows "\<exists>q r. rossi_divide a b = Inr (q, r) \<and> rossi_normal q \<and> rossi_normal r \<and>
    rossi_val q = rossi_val a div rossi_val b \<and> rossi_val r = rossi_val a mod rossi_val b"
proof -
  let ?q0 = "Rossi (resize (length (m_units a)) (m_units RossiZero))"
  have len: "length [0::ulong] \<le> length (m_units a)"
    using rossi_normal_nonempty [OF assms(1)] by (cases "m_units a") auto
  have q0: "rossi_val ?q0 = 0" "m_units ?q0 \<noteq> []"
    by (simp_all only: rossi_val_def RossiZero_def rossi_of_ulong_def rossi.sel
        digits_val_resize [OF len] resize_ge [OF len]) simp_all
  from shift_up_result [OF assms(2,1,3), of 0] obtain d k where d:
    "shift_up b a 0 = Some (d, int k)" "rossi_normal d" "rossi_val d = 2 ^ k * rossi_val b"
    "rossi_val a \<le> rossi_val d" by auto
  define n where "n = (if rossi_val a < rossi_val d then k else Suc k)"
  define d' where "d' = (if rossi_val a < rossi_val d then rossi_shr_assign d 1 else d)"
  have d': "rossi_normal d'" "rossi_val d' = (2 ^ n * rossi_val b) div 2"
      "rossi_val a < 2 ^ n * rossi_val b"
    using d(2-4) assms(3) by (auto simp: d'_def n_def)
  from divide_loop_val [OF assms(1) d'(1,2) assms(3) d'(3), of ?q0] obtain r q' where r:
    "divide_loop n a d' ?q0 = Inr (r, q')" "rossi_normal r" "rossi_val r < rossi_val b"
    "n \<noteq> 0 \<longrightarrow> rossi_normal q'" "n = 0 \<longrightarrow> q' = ?q0"
    "rossi_val q' * rossi_val b + rossi_val r = rossi_val a" by (auto simp: q0)
  have q': "m_units q' \<noteq> []" "m_units r \<noteq> []"
    using r(2,4,5) q0(2) rossi_normal_nonempty by (cases "n = 0"; auto)+
  have loop: "(if int n - 1 \<ge> 0 then divide_loop (nat (int n - 1 + 1)) a d' ?q0 else Inr (a, ?q0))
      = Inr (r, q')"
    using r(1) by (cases "n = 0") auto
  have branch: "(if rossi_gt d a then (rossi_shr_assign d 1, int k - 1) else (d, int k))
      = (d', int n - 1)"
    using d(2) assms(1) by (simp add: n_def d'_def rossi_less_iff)
  have trunc: "Rossi (smart_truncate (m_units r)) = r"
    using r(2) by (cases r) (simp add: rossi_normal_def smart_truncate_normal)
  have nz: "b \<noteq> RossiZero" using assms(3) by auto
  from divide_check [OF assms(1,2) q'(1) r(2,6,3)] obtain z where z:
    "bind_res (rossi_times (Rossi (smart_truncate (m_units q'))) b) (\<lambda>p.
      if rossi_eq (rossi_plus p r) a then Inr (Rossi (smart_truncate (m_units q')), r)
      else Inl Assertion) = Inr (z, r)" "rossi_normal z"
    "rossi_val z = rossi_val a div rossi_val b" "rossi_val r = rossi_val a mod rossi_val b"
    by blast
  have "rossi_divide a b = Inr (z, r)"
    unfolding rossi_divide_def d(1) option.case prod.case branch Let_def loop bind_res_simps trunc
    using nz q' z(1) by simp
  with z r(2) show ?thesis by blast
qed

text \<open>A divisor with value zero that is not \<open>RossiZero\<close> is never shifted past the dividend.\<close>

lemma shift_up_zero_diverges:
  assumes "rossi_val d = 0" "length (m_units d) < length (m_units n)" "1 < length (m_units n)"
  shows "shift_up d n c = None"
proof -
  let ?P = "\<lambda>d n. \<not> (rossi_val d = 0 \<and> length (m_units d) < length (m_units n) \<and> 1 < length (m_units n))"
  have "?P d n" if ret: "shift_up d n c = Some r" for r
  proof (rule shift_up.raw_induct [where P = "\<lambda>d n c r. ?P d n", OF _ ret])
    fix f :: "rossi \<Rightarrow> rossi \<Rightarrow> int \<Rightarrow> (rossi \<times> int) option" and d n c r
    assume IH: "\<And>d n c r. f d n c = Some r \<Longrightarrow> ?P d n"
      and eq: "(if rossi_lt d n then f (rossi_shl_assign d 1) n (c + 1) else Some (d, c)) = Some r"
    show "?P d n"
    proof
      assume zero: "rossi_val d = 0 \<and> length (m_units d) < length (m_units n) \<and> 1 < length (m_units n)"
      then have "rossi_lt d n" by (simp add: rossi_lt_def units_less_def del: rossi_lt_order)
      with eq have "f (rossi_shl_assign d 1) n (c + 1) = Some r" by simp
      from IH [OF this] have "\<not> length (m_units (rossi_shl_assign d 1)) < length (m_units n)"
        using zero by simp
      moreover have "rossi_shl_assign d 1 = RossiZero"
        using zero by (intro rossi_val_inj) simp_all
      ultimately show False using zero by (simp add: RossiZero_def rossi_of_ulong_def)
    qed
  qed
  then show ?thesis using assms by (cases "shift_up d n c") auto
qed

lemma rossi_divide_diverges:
  assumes "rossi_val b = 0" "b \<noteq> RossiZero" "length (m_units b) < length (m_units a)"
    "1 < length (m_units a)"
  shows "rossi_divide a b = Inl Diverges"
  using shift_up_zero_diverges [OF assms(1,3,4), of 0] assms(2) by (simp add: rossi_divide_def)

section \<open>Logarithm\<close>

text \<open>
  \<open>rossiLog\<close>: the exception for an argument that is not positive is caught in the function
  itself, which then calls \<open>exit (1)\<close>.
\<close>

function log_loop :: "rossi \<Rightarrow> int \<Rightarrow> int" where
  "log_loop tmp count =
     (if rossi_gt tmp RossiZero then log_loop (rossi_shr_assign tmp 1) (count + 1) else count)"
  by pat_completeness auto
termination
proof (relation "measure (\<lambda>(tmp, count). 2 * rossi_val tmp + of_bool (\<not> rossi_normal tmp))")
  fix tmp :: rossi and count :: int
  assume gt: "rossi_gt tmp RossiZero"
  show "((rossi_shr_assign tmp 1, count + 1), tmp, count)
      \<in> measure (\<lambda>(tmp, count). 2 * rossi_val tmp + of_bool (\<not> rossi_normal tmp))"
  proof (cases "rossi_normal tmp")
    case True
    then have "0 < rossi_val tmp" using gt by (simp add: rossi_less_iff)
    then show ?thesis by simp
  qed simp
qed simp

declare log_loop.simps [simp del]

definition rossiLog :: "rossi \<Rightarrow> int res" where
  "rossiLog bint =
     (if rossi_le bint RossiZero then Inl Exit else Inr (log_loop bint 0 - 1))"

lemma log_loop_val:
  assumes "rossi_normal x" "2 ^ n \<le> rossi_val x" "rossi_val x < 2 ^ Suc n"
  shows "log_loop x c = c + int n + 1"
  using assms
proof (induction n arbitrary: x c)
  case 0
  then have v: "rossi_val x = 1" by simp
  then have "log_loop x c = log_loop (rossi_shr_assign x 1) (c + 1)"
    using 0 by (subst log_loop.simps) (simp add: rossi_less_iff)
  also have "\<dots> = c + 1"
    using v by (subst log_loop.simps) (simp add: rossi_less_iff)
  finally show ?case by simp
next
  case (Suc n)
  then have "log_loop x c = log_loop (rossi_shr_assign x 1) (c + 1)"
    by (subst log_loop.simps) (simp add: rossi_less_iff)
  also have "\<dots> = (c + 1) + int n + 1"
    using Suc.prems by (intro Suc.IH) auto
  finally show ?case by simp
qed

lemma rossiLog_val:
  assumes "rossi_normal x" "2 ^ n \<le> rossi_val x" "rossi_val x < 2 ^ Suc n"
  shows "rossiLog x = Inr (int n)"
proof -
  have "0 < rossi_val x" using assms(2) by (rule less_le_trans [rotated]) simp
  then show ?thesis using log_loop_val [OF assms, of 0] assms(1)
    by (simp add: rossiLog_def rossi_le_iff)
qed

section \<open>Square root\<close>

text \<open>
  \<open>sqrt\<close>: Newton's iteration from an estimate, with \<open>operator>>\<close> (and the units it reads past
  the end, \<open>past i\<close> in turn \<open>i\<close> for \<open>tmp\<close> and for \<open>ret\<close>) and \<open>operator-\<close>, which aborts when
  the correction would be negative.
\<close>

function bit_count :: "rossi \<Rightarrow> nat \<Rightarrow> nat" where
  "bit_count ret i =
     (if rossi_ne ret RossiZero then bit_count (rossi_shr_assign ret 1) (i + 1) else i)"
  by pat_completeness auto
termination
proof (relation "measure (\<lambda>(ret, i). 2 * rossi_val ret + of_bool (\<not> rossi_normal ret))")
  fix ret :: rossi and i :: nat
  assume ne: "rossi_ne ret RossiZero"
  show "((rossi_shr_assign ret 1, i + 1), ret, i)
      \<in> measure (\<lambda>(ret, i). 2 * rossi_val ret + of_bool (\<not> rossi_normal ret))"
  proof (cases "rossi_normal ret")
    case True
    then have "0 < rossi_val ret" using ne rossi_eq_zero_iff by auto
    then show ?thesis by simp
  qed simp
qed simp

declare bit_count.simps [simp del]

partial_function (option) sqrt_loop ::
  "(nat \<Rightarrow> ulong \<times> ulong) \<Rightarrow> rossi \<Rightarrow> rossi \<Rightarrow> rossi \<Rightarrow> (rossi res) option" where
  "sqrt_loop past tmp msk ret =
     (case bind_res (rossi_shr (\<lambda>_. fst (past 0)) tmp 1) (\<lambda>h.
           bind_res (rossi_div h ret) (\<lambda>a.
           bind_res (rossi_shr (\<lambda>_. snd (past 0)) ret 1) (\<lambda>b.
           bind_res (rossi_minus a b) (\<lambda>delta.
           bind_res (rossi_and_assign delta msk) (\<lambda>delta'.
             Inr (rossi_plus ret delta, delta'))))))
      of Inl e \<Rightarrow> Some (Inl e)
       | Inr (ret', delta') \<Rightarrow>
           if rossi_ne delta' RossiZero then sqrt_loop (\<lambda>i. past (Suc i)) tmp msk ret'
           else Some (Inr ret'))"

declare sqrt_loop.simps [code]

definition rossi_sqrt :: "(nat \<Rightarrow> ulong \<times> ulong) \<Rightarrow> rossi \<Rightarrow> (rossi res) option" where
  "rossi_sqrt past x =
     (case rossi_neg RossiTwo of
        Inl e \<Rightarrow> Some (Inl e)
      | Inr msk \<Rightarrow>
          sqrt_loop past x msk (rossi_shr_assign x (bit_count x 0 div 2)))"

end
