(* ===== verification/RossiText.thy ===== *)
theory RossiText
  imports VinDec RossiMul "HOL-Library.Word"
begin

text \<open>
  The text form of \<open>BigInt::Rossi\<close> (\<open>initViaString\<close>, \<open>toStrHex\<close>, \<open>toStr0xHex\<close>, \<open>toStrDec\<close>)
  and the conversions between \<open>Rossi\<close> and \<open>Vin\<close>, which go through text in both directions.
  The lemmas say that a printed number is the canonical numeral of its value and that reading
  what was printed gives the number back.
\<close>

section \<open>Reading\<close>

definition rossi_of_string :: "string \<Rightarrow> nat \<Rightarrow> rossi res" where
  "rossi_of_string i_arg i_digitBase =
     (if digits_checked i_digitBase i_arg
      then fold_res (\<lambda>this c. bind_res (rossi_times_ulong this (of_nat i_digitBase))
                      (\<lambda>p. Inr (rossi_plus p (rossi_of_ulong (of_nat (ms_hex2dec c))))))
             (Rossi [0]) i_arg
      else Inl Assertion)"

lemma rossi_parse_step:
  assumes "rossi_normal x" "b = 10 \<or> b = 16"
  shows "\<exists>z. bind_res (rossi_times_ulong x (of_nat b))
      (\<lambda>p. Inr (rossi_plus p (rossi_of_ulong (of_nat (ms_hex2dec c))))) = Inr z \<and> rossi_normal z \<and>
    rossi_val z = rossi_val x * b + ms_hex2dec c"
proof -
  have h: "ms_hex2dec c < 16" by (rule hex2dec_less_16)
  have unats: "unat (of_nat (ms_hex2dec c) :: ulong) = ms_hex2dec c" "unat (of_nat b :: ulong) = b"
    using h assms(2) by (auto simp: unat_of_nat)
  have "m_units x \<noteq> []" "m_units (rossi_of_ulong (of_nat b)) \<noteq> []"
    using assms(1) by (auto simp: rossi_normal_def normal_units_def rossi_of_ulong_def)
  from rossi_times_Inr [OF this] obtain z where
    "rossi_times x (rossi_of_ulong (of_nat b)) = Inr z" "rossi_val z = rossi_val x * b"
    using unats by auto
  then show ?thesis using unats by (simp add: rossi_times_ulong_def)
qed

lemma rossi_of_string_Inr:
  assumes "digits_checked b s"
  shows "\<exists>z. rossi_of_string s b = Inr z \<and> rossi_normal z \<and> rossi_val z = parse_nat b s"
proof -
  let ?f = "\<lambda>this c. bind_res (rossi_times_ulong this (of_nat b))
                      (\<lambda>p. Inr (rossi_plus p (rossi_of_ulong (of_nat (ms_hex2dec c)))))"
  have b: "b = 10 \<or> b = 16" using assms by (auto simp: digits_checked_def)
  have "\<exists>z. fold_res ?f (Rossi [0]) t = Inr z \<and> rossi_normal z \<and> rossi_val z = parse_nat b t" for t
  proof (induction t rule: rev_induct)
    case Nil
    then show ?case by (simp add: rossi_normal_def normal_units_def rossi_val_def)
  next
    case (snoc c t)
    then obtain z where "fold_res ?f (Rossi [0]) t = Inr z" "rossi_normal z" "rossi_val z = parse_nat b t"
      by blast
    with rossi_parse_step [OF _ b, of z c] show ?case by (auto simp: fold_res_append)
  qed
  then show ?thesis using assms by (simp add: rossi_of_string_def)
qed

lemma rossi_of_string_Inl: "\<not> digits_checked b s \<Longrightarrow> rossi_of_string s b = Inl Assertion"
  by (simp add: rossi_of_string_def)

section \<open>Printing\<close>

definition rossi_toStrHex :: "rossi \<Rightarrow> string \<Rightarrow> string" where
  "rossi_toStrHex x i_prefix =
     (if m_units x = [] then i_prefix @ show_nat 16 0
      else i_prefix @ show_units 16 16 (m_units x))"

definition rossi_toStr0xHex :: "rossi \<Rightarrow> string" where
  "rossi_toStr0xHex x = rossi_toStrHex x ''0x''"

text \<open>\<open>toStrDec\<close> does not use its prefix.\<close>

definition rossi_toStrDec :: "rossi \<Rightarrow> string \<Rightarrow> string res" where
  "rossi_toStrDec x i_prefix =
     bind_res (vin_of_string (rossi_toStrHex x []) 16) (\<lambda>vin. Inr (vin_toStrDec vin []))"

lemma rossi_toStrHex_val: "rossi_normal x \<Longrightarrow> rossi_toStrHex x p = p @ show_nat 16 (rossi_val x)"
proof -
  assume n: "rossi_normal x"
  have "\<forall>u\<in>set (m_units x). unat u < 16 ^ 16"
    using unat_ulong_less by (simp add: ulong_base_def)
  with n hex16.show_units_normal [of "m_units x"] show ?thesis
    by (auto simp: rossi_toStrHex_def rossi_normal_def normal_units_def rossi_val_def ulong_base_def)
qed

lemma digits_checked_show_nat [simp]:
  "digits_checked 16 (show_nat 16 n)" "digits_checked 10 (show_nat 10 n)"
  using hex16.show_digits [of _ n] dec9.show_digits [of _ n] isxdigit_digit_char isdigit_digit_char
  by (force simp: digits_checked_def list_all_iff)+

lemma rossi_toStrDec_val:
  assumes "rossi_normal x"
  shows "rossi_toStrDec x p = Inr (show_nat 10 (rossi_val x))"
  using vin_of_string_Inr [of 16 "show_nat 16 (rossi_val x)"] assms
  by (auto simp: rossi_toStrDec_def rossi_toStrHex_val vin_toStrDec_val)

lemma rossi_of_show_nat:
  assumes "rossi_normal x" "b = 10 \<or> b = 16"
  shows "rossi_of_string (show_nat b (rossi_val x)) b = Inr x"
proof -
  have "parse_nat b (show_nat b (rossi_val x)) = rossi_val x" "digits_checked b (show_nat b (rossi_val x))"
    using assms(2) by auto
  with rossi_of_string_Inr [of b "show_nat b (rossi_val x)"] assms(1) show ?thesis
    using rossi_val_inj by metis
qed

section \<open>Conversions between the two classes\<close>

definition vin_of_rossi :: "rossi \<Rightarrow> vin res" where
  "vin_of_rossi i_arg = vin_of_string (rossi_toStrHex i_arg []) 16"

definition rossi_of_vin :: "vin \<Rightarrow> rossi res" where
  "rossi_of_vin i_arg = rossi_of_string (vin_toStrDec i_arg []) 10"

definition vin_toStrHex :: "vin \<Rightarrow> string \<Rightarrow> string res" where
  "vin_toStrHex x i_prefix =
     bind_res (rossi_of_string (vin_toStrDec x []) 10) (\<lambda>r. Inr (i_prefix @ rossi_toStrHex r []))"

definition vin_toStr0xHex :: "vin \<Rightarrow> string res" where
  "vin_toStr0xHex x = vin_toStrHex x ''0x''"

lemma vin_of_rossi_Inr:
  assumes "rossi_normal x"
  shows "\<exists>z. vin_of_rossi x = Inr z \<and> vin_ok z \<and> vin_val z = rossi_val x"
  using vin_of_string_Inr [of 16 "show_nat 16 (rossi_val x)"] assms
  by (simp add: vin_of_rossi_def rossi_toStrHex_val)

lemma rossi_of_vin_Inr:
  assumes "vin_ok x"
  shows "\<exists>z. rossi_of_vin x = Inr z \<and> rossi_normal z \<and> rossi_val z = vin_val x"
  using rossi_of_string_Inr [of 10 "show_nat 10 (vin_val x)"] assms
  by (simp add: rossi_of_vin_def vin_toStrDec_val)

lemma vin_toStrHex_val:
  assumes "vin_ok x"
  shows "vin_toStrHex x p = Inr (p @ show_nat 16 (vin_val x))"
  using rossi_of_vin_Inr [OF assms] by (auto simp: rossi_of_vin_def vin_toStrHex_def rossi_toStrHex_val)

text \<open>An empty \<open>Vin\<close> prints a word, which the conversion to \<open>Rossi\<close> then refuses.\<close>

lemma rossi_of_vin_empty: "rossi_of_vin (Vin []) = Inl Assertion"
  by (simp add: rossi_of_vin_def vin_toStrDec_def rossi_of_string_def digits_checked_def isdigit_def)

end
