(* ===== verification/BigIntProperties.thy ===== *)
theory BigIntProperties
  imports RossiText "HOL-Library.Word"
begin

text \<open>
  What the big integers promise, stated on the numbers they stand for, and the operators that
  do not keep the promise.
\<close>

unbundle bit_operations_syntax

section \<open>Arithmetic\<close>

text \<open>
  C5: division. On normal operands with a divisor that is not zero, the shift and subtract loops
  of \<open>divide\<close> end, pass the check at the end of the function and give the quotient and the
  remainder, both in normal form.
\<close>

theorem rossi_divide_correct:
  assumes "rossi_normal a" "rossi_normal b" "0 < rossi_val b"
  shows "\<exists>q r. rossi_divide a b = Inr (q, r) \<and> rossi_normal q \<and> rossi_normal r \<and>
    rossi_val q = rossi_val a div rossi_val b \<and> rossi_val r = rossi_val a mod rossi_val b"
  by (rule rossi_divide_Inr [OF assms])

lemma rossi_divide_correct_witness:
  "\<exists>q r. rossi_divide (Rossi [5, 3]) (Rossi [7]) = Inr (q, r) \<and> rossi_normal q \<and> rossi_normal r \<and>
    rossi_val q = rossi_val (Rossi [5, 3]) div rossi_val (Rossi [7]) \<and>
    rossi_val r = rossi_val (Rossi [5, 3]) mod rossi_val (Rossi [7])"
  by (rule rossi_divide_correct) (simp_all add: rossi_normal_def normal_units_def rossi_val_def)

text \<open>
  Addition, subtraction and multiplication are those of the numbers. Addition carries through
  all units and grows by one when it must, subtraction aborts exactly when the result would be
  negative, and the double and add loop of \<open>operator*\<close> multiplies; every result is normal.
\<close>

theorem rossi_ring_operations:
  assumes "m_units x \<noteq> []" "m_units y \<noteq> []"
  shows "rossi_normal (rossi_plus x y) \<and> rossi_val (rossi_plus x y) = rossi_val x + rossi_val y \<and>
    (case rossi_minus x y of
       Inr z \<Rightarrow> rossi_val y \<le> rossi_val x \<and> rossi_normal z \<and> rossi_val z = rossi_val x - rossi_val y
     | Inl e \<Rightarrow> rossi_val x < rossi_val y \<and> e = Assertion) \<and>
    (\<exists>z. rossi_times x y = Inr z \<and> rossi_normal z \<and> rossi_val z = rossi_val x * rossi_val y)"
proof -
  have "case rossi_minus x y of
       Inr z \<Rightarrow> rossi_val y \<le> rossi_val x \<and> rossi_normal z \<and> rossi_val z = rossi_val x - rossi_val y
     | Inl e \<Rightarrow> rossi_val x < rossi_val y \<and> e = Assertion"
  proof (cases "rossi_val y \<le> rossi_val x")
    case True
    with rossi_minus_Inr [OF this] show ?thesis by auto
  next
    case False
    then show ?thesis using rossi_minus_Inl [of x y] by simp
  qed
  then show ?thesis using rossi_times_Inr [OF assms] by simp
qed

lemma rossi_ring_operations_witness:
  "rossi_val (rossi_plus (Rossi [18446744073709551615]) (Rossi [1])) = 18446744073709551616"
  using rossi_ring_operations [of "Rossi [18446744073709551615]" "Rossi [1]"] by (simp add: rossi_val_def)

text \<open>
  Comparison. On normal operands the unit by unit loops of the six operators decide the
  order of the numbers.
\<close>

theorem rossi_comparison:
  assumes "rossi_normal x" "rossi_normal y"
  shows "(rossi_lt x y \<longleftrightarrow> rossi_val x < rossi_val y) \<and> (rossi_le x y \<longleftrightarrow> rossi_val x \<le> rossi_val y) \<and>
    (rossi_gt x y \<longleftrightarrow> rossi_val y < rossi_val x) \<and> (rossi_ge x y \<longleftrightarrow> rossi_val y \<le> rossi_val x) \<and>
    (rossi_eq x y \<longleftrightarrow> rossi_val x = rossi_val y) \<and> (rossi_ne x y \<longleftrightarrow> rossi_val x \<noteq> rossi_val y)"
proof -
  have "rossi_lt x y \<longleftrightarrow> rossi_val x < rossi_val y" "rossi_le x y \<longleftrightarrow> rossi_val x \<le> rossi_val y"
    using rossi_order_iffs(1,2) [OF assms] unfolding less_rossi_def less_eq_rossi_def by blast+
  then show ?thesis
    using rossi_order_iffs(3) [OF assms] by (auto simp: rossi_gt_def rossi_ge_def rossi_ne_def)
qed

lemma rossi_comparison_witness: "rossi_lt (Rossi [9]) (Rossi [3, 1])"
  using rossi_comparison [of "Rossi [9]" "Rossi [3, 1]"]
  by (simp add: rossi_normal_def normal_units_def rossi_val_def ulong_base_def)

text \<open>
  The assigning shifts and the bitwise operators. \<open><<=\<close> multiplies by a power of two and
  never loses a bit, \<open>>>=\<close> divides, and \<open>&\<close>, \<open>|\<close>, \<open>^\<close> act on the binary digits of operands of
  any two lengths.
\<close>

theorem rossi_bits:
  assumes "m_units x \<noteq> []" "m_units y \<noteq> []"
  shows "rossi_val (rossi_shl_assign x k) = 2 ^ k * rossi_val x \<and>
    rossi_val (rossi_shr_assign x k) = rossi_val x div 2 ^ k \<and>
    (\<exists>z. rossi_and x y = Inr z \<and> rossi_normal z \<and> rossi_val z = rossi_val x AND rossi_val y) \<and>
    (\<exists>z. rossi_or x y = Inr z \<and> rossi_normal z \<and> rossi_val z = rossi_val x OR rossi_val y) \<and>
    (\<exists>z. rossi_xor x y = Inr z \<and> rossi_normal z \<and> rossi_val z = rossi_val x XOR rossi_val y)"
proof -
  have ne: "m_units x \<noteq> [] \<or> m_units y \<noteq> []" using assms by blast
  show ?thesis by (intro conjI rossi_shl_assign_val rossi_shr_assign_val rossi_and_val [OF ne] rossi_or_val [OF ne]
        rossi_xor_val [OF ne])
qed

lemma rossi_bits_witness: "rossi_val (rossi_shl_assign (Rossi [3]) 64) = 2 ^ 64 * 3"
  using rossi_bits [of "Rossi [3]" "Rossi [1]" 64] by (simp add: rossi_val_def)

text \<open>
  The logarithm. \<open>rossiLog\<close> is the position of the highest bit of a number that is not zero
  (and exits the process for zero).
\<close>

theorem rossiLog_position:
  assumes "rossi_normal x"
  shows "if rossi_val x = 0 then rossiLog x = Inl Exit
    else \<exists>n. rossiLog x = Inr (int n) \<and> 2 ^ n \<le> rossi_val x \<and> rossi_val x < 2 ^ Suc n"
proof (cases "rossi_val x = 0")
  case True
  then have "x = RossiZero" using assms rossi_eq_zero_iff by simp
  then show ?thesis by (simp add: rossiLog_def rossi_le_def)
next
  case False
  then obtain n where "2 ^ n \<le> rossi_val x" "rossi_val x < 2 ^ (n + 1)"
    using ex_power_ivl1 [of 2 "rossi_val x"] by auto
  with rossiLog_val [OF assms, of n] False show ?thesis by auto
qed

lemma rossiLog_position_witness: "rossiLog (Rossi [0]) = Inl Exit"
  using rossiLog_position [of "Rossi [0]"] by (simp add: rossi_normal_def normal_units_def rossi_val_def)

section \<open>Text\<close>

text \<open>
  C36: reading what was printed. The hexadecimal and the decimal text of a normal number are its
  canonical numerals, and \<open>initViaString\<close> reads both back to the same units.
\<close>

theorem rossi_text_roundtrip:
  assumes "rossi_normal x"
  shows "rossi_toStrHex x [] = show_nat 16 (rossi_val x) \<and> rossi_of_string (rossi_toStrHex x []) 16 = Inr x \<and>
    rossi_toStrDec x p = Inr (show_nat 10 (rossi_val x)) \<and>
    bind_res (rossi_toStrDec x p) (\<lambda>s. rossi_of_string s 10) = Inr x"
  using rossi_toStrHex_val [OF assms, of "[]"] rossi_toStrDec_val [OF assms, of p]
    rossi_of_show_nat [OF assms, of 10] rossi_of_show_nat [OF assms, of 16] by simp

lemma rossi_text_roundtrip_witness:
  "bind_res (rossi_toStrDec (Rossi [0, 1]) []) (\<lambda>s. rossi_of_string s 10) = Inr (Rossi [0, 1])"
proof -
  have "rossi_normal (Rossi [0, 1])" by (simp add: rossi_normal_def normal_units_def)
  from rossi_text_roundtrip [OF this] show ?thesis by blast
qed

text \<open>
  The two classes agree. A normal \<open>Rossi\<close> converts to a \<open>Vin\<close> in range with the same value,
  and back to itself.
\<close>

theorem rossi_vin_roundtrip:
  assumes "rossi_normal x"
  shows "\<exists>v. vin_of_rossi x = Inr v \<and> vin_ok v \<and> vin_val v = rossi_val x \<and> rossi_of_vin v = Inr x"
proof -
  obtain v where v: "vin_of_rossi x = Inr v" "vin_ok v" "vin_val v = rossi_val x"
    using vin_of_rossi_Inr [OF assms] by blast
  from rossi_of_vin_Inr [OF v(2)] v(3) assms rossi_val_inj show ?thesis using v by metis
qed

lemma rossi_vin_roundtrip_witness:
  "\<exists>v. vin_of_rossi (Rossi [0, 1]) = Inr v \<and> vin_ok v \<and> vin_val v = rossi_val (Rossi [0, 1]) \<and>
    rossi_of_vin v = Inr (Rossi [0, 1])"
  by (rule rossi_vin_roundtrip) (simp add: rossi_normal_def normal_units_def)

section \<open>Operators that fail\<close>

text \<open>
  \<open>operator--\<close> cannot borrow. On a number whose lowest unit is zero and that has another unit
  it stops at its own assertion, although the predecessor exists; on zero it gives the largest
  unit.
\<close>

theorem rossi_dec_cannot_borrow:
  "rossi_dec (Rossi (0 # v # us)) = Inl Assertion \<and> rossi_dec RossiZero = Inr (rossi_of_ulong ULONG_MAX)"
  using rossi_dec_borrow [of "Rossi (0 # v # us)" v us] rossi_dec_zero by simp

text \<open>
  The copying shifts. \<open>operator<<\<close> aborts for every argument, because its assertion compares
  the new length with one less than the old; \<open>operator>>\<close> reads the unit behind the vector and
  sets the top bit of the result when that unit is odd.
\<close>

theorem rossi_copying_shifts_fail:
  assumes "m_units x \<noteq> []" "odd (unat (past 0))"
  shows "rossi_shl x k = Inl Assertion \<and>
    (\<exists>z. rossi_shr past x 1 = Inr z \<and> rossi_val z = (rossi_val x + ulong_base ^ length (m_units x)) div 2)"
  using rossi_shl_aborts rossi_shr_garbage [of x past, OF assms] by blast

lemma rossi_copying_shifts_fail_witness:
  "rossi_shl (Rossi [4]) 1 = Inl Assertion \<and>
    (\<exists>z. rossi_shr (\<lambda>_. 1) (Rossi [4]) 1 = Inr z \<and>
      rossi_val z = (rossi_val (Rossi [4]) + ulong_base ^ length (m_units (Rossi [4]))) div 2)"
  by (rule rossi_copying_shifts_fail) simp_all

text \<open>
  Division by a zero that is not in normal form. \<open>divide\<close> refuses only the one unit zero; for
  a longer vector of zeros and a longer dividend its first loop never ends.
\<close>

theorem rossi_divide_zero_units_diverges:
  assumes "rossi_val b = 0" "b \<noteq> RossiZero" "length (m_units b) < length (m_units a)" "1 < length (m_units a)"
  shows "rossi_divide a b = Inl Diverges"
  by (rule rossi_divide_diverges [OF assms])

lemma rossi_divide_zero_units_diverges_witness: "rossi_divide (Rossi [1, 2, 3]) (Rossi [0, 0]) = Inl Diverges"
  by (rule rossi_divide_zero_units_diverges) (simp_all add: rossi_val_def RossiZero_def rossi_of_ulong_def)

text \<open>
  \<open>sqrt\<close> is wrong. For 2 it returns 2, and for 31 it aborts in the subtraction of its
  correction step, with zeros behind the vectors.
\<close>

theorem rossi_sqrt_wrong:
  "rossi_sqrt (\<lambda>_. (0, 0)) (Rossi [2]) = Some (Inr (Rossi [2])) \<and>
    rossi_sqrt (\<lambda>_. (0, 0)) (Rossi [31]) = Some (Inl Assertion)"
  by (rule conjI) code_simp+

end
