(* ===== verification/StdMap.thy ===== *)
theory StdMap
  imports Prelude "HOL-Library.AList"
begin

text \<open>
  \<open>std::map\<close> as the code uses it: the pairs in increasing order of the keys. \<open>insert\<close> keeps
  the pair that is there already, \<open>lower_bound\<close> finds the first key that is not less than its
  argument, and a loop over the map sees the pairs in order.
\<close>

type_synonym ('k, 'v) std_map = "('k \<times> 'v) list"

definition map_ok :: "('k::linorder, 'v) std_map \<Rightarrow> bool" where
  "map_ok m \<longleftrightarrow> sorted_wrt (<) (map fst m)"

fun map_insert :: "'k::linorder \<times> 'v \<Rightarrow> ('k, 'v) std_map \<Rightarrow> ('k, 'v) std_map" where
  "map_insert p [] = [p]"
| "map_insert p (q # m) =
     (if fst p < fst q then p # q # m else if fst q < fst p then q # map_insert p m else q # m)"

definition map_lower_bound :: "'k::linorder \<Rightarrow> ('k, 'v) std_map \<Rightarrow> ('k \<times> 'v) option" where
  "map_lower_bound k m = find (\<lambda>p. \<not> fst p < k) m"

definition map_of_pairs :: "('k::linorder \<times> 'v) list \<Rightarrow> ('k, 'v) std_map" where
  "map_of_pairs ps = fold map_insert ps []"

lemma map_ok_Nil [simp]: "map_ok []"
  by (simp add: map_ok_def)

lemma set_map_insert:
  "set (map_insert p m) \<subseteq> insert p (set m)" "set m \<subseteq> set (map_insert p m)"
  by (induction m) auto

lemma keys_map_insert [simp]: "fst ` set (map_insert p m) = insert (fst p) (fst ` set m)"
proof (induction m)
  case (Cons q m)
  then show ?case by (cases "fst p" "fst q" rule: linorder_cases) auto
qed simp

lemma map_ok_insert [simp]:
  assumes "map_ok m"
  shows "map_ok (map_insert p m)"
  using assms
proof (induction m)
  case (Cons q m)
  have "x \<in> fst ` set (map_insert p m) \<Longrightarrow> fst q < fst p \<Longrightarrow> fst q < x" for x
    unfolding keys_map_insert using Cons.prems by (auto simp: map_ok_def)
  with Cons show ?case by (auto simp: map_ok_def)
qed (simp add: map_ok_def)

lemma set_map_insert_new:
  "map_ok m \<Longrightarrow> fst p \<notin> fst ` set m \<Longrightarrow> set (map_insert p m) = insert p (set m)"
  by (induction m) (auto simp: map_ok_def)

lemma length_map_insert_new:
  "fst p \<notin> fst ` set m \<Longrightarrow> length (map_insert p m) = Suc (length m)"
  by (induction m) auto

lemma map_ok_pairs [simp]: "map_ok (map_of_pairs ps)"
proof -
  have "map_ok m \<Longrightarrow> map_ok (fold map_insert ps m)" for m
    by (induction ps arbitrary: m) auto
  then show ?thesis by (simp add: map_of_pairs_def)
qed

text \<open>Pairs with different keys are all kept.\<close>

lemma map_of_pairs_distinct:
  assumes "distinct (map fst ps)"
  shows "set (map_of_pairs ps) = set ps \<and> length (map_of_pairs ps) = length ps"
proof -
  have "map_ok m \<Longrightarrow> distinct (map fst ps) \<Longrightarrow> fst ` set ps \<inter> fst ` set m = {} \<Longrightarrow>
      set (fold map_insert ps m) = set ps \<union> set m \<and> length (fold map_insert ps m) = length ps + length m" for m
  proof (induction ps arbitrary: m)
    case (Cons p ps)
    from Cons.prems have new: "fst p \<notin> fst ` set m" by auto
    have "fst ` set ps \<inter> fst ` set (map_insert p m) = {}"
      unfolding keys_map_insert using Cons.prems(2,3) by auto
    with Cons.IH [of "map_insert p m"] Cons.prems new show ?case
      by (auto simp: set_map_insert_new length_map_insert_new)
  qed simp
  from this [of "[]"] assms show ?thesis by (simp add: map_of_pairs_def)
qed

text \<open>Pairs that come in increasing order stay as they are.\<close>

lemma map_insert_greatest:
  "\<forall>q\<in>set m. fst q < fst p \<Longrightarrow> map_insert p m = m @ [p]"
  by (induction m) auto

lemma map_of_pairs_sorted:
  assumes "sorted_wrt (<) (map fst ps)"
  shows "map_of_pairs ps = ps"
proof -
  have "sorted_wrt (<) (map fst (m @ ps)) \<Longrightarrow> fold map_insert ps m = m @ ps" for m
  proof (induction ps arbitrary: m)
    case (Cons p ps)
    have "map_insert p m = m @ [p]"
      using Cons.prems by (intro map_insert_greatest) (auto simp: sorted_wrt_append)
    with Cons.IH [of "m @ [p]"] Cons.prems show ?case by simp
  qed simp
  from this [of "[]"] assms show ?thesis by (simp add: map_of_pairs_def)
qed

lemma map_of_pairs_length:
  fixes ps :: "('k::linorder \<times> 'v) list"
  shows "length (map_of_pairs ps) \<le> length ps"
proof -
  have "length (map_insert p m) \<le> Suc (length m)" for p :: "'k \<times> 'v" and m
    by (induction m) auto
  then have "length (fold map_insert ps m) \<le> length ps + length m" for ps m :: "('k \<times> 'v) list"
    by (induction ps arbitrary: m) (auto, metis add_Suc_right dual_order.trans nat_add_left_cancel_le)
  from this [of ps "[]"] show ?thesis by (simp add: map_of_pairs_def)
qed

lemma set_map_of_pairs_subset:
  fixes ps :: "('k::linorder \<times> 'v) list"
  shows "set (map_of_pairs ps) \<subseteq> set ps"
proof -
  have "set (fold map_insert ps m) \<subseteq> set ps \<union> set m" for ps m :: "('k \<times> 'v) list"
  proof (induction ps arbitrary: m)
    case (Cons p ps)
    from Cons.IH [of "map_insert p m"] set_map_insert(1) [of p m] show ?case by auto
  qed simp
  from this [of ps "[]"] show ?thesis by (simp add: map_of_pairs_def)
qed

lemma keys_map_of_pairs:
  fixes ps :: "('k::linorder \<times> 'v) list"
  shows "fst ` set (map_of_pairs ps) = fst ` set ps"
proof -
  have "fst ` set (fold map_insert ps m) = fst ` set ps \<union> fst ` set m" for ps m :: "('k \<times> 'v) list"
    by (induction ps arbitrary: m) auto
  from this [of ps "[]"] show ?thesis by (simp add: map_of_pairs_def)
qed

lemma lower_bound_Some:
  assumes "map_ok m" "map_lower_bound k m = Some (k', v)"
  shows "(k', v) \<in> set m \<and> k \<le> k' \<and> (\<forall>q\<in>set m. fst q < k' \<longrightarrow> fst q < k)"
  using assms by (induction m) (auto simp: map_lower_bound_def map_ok_def split: if_splits)

lemma lower_bound_None: "map_lower_bound k m = None \<longleftrightarrow> (\<forall>q\<in>set m. fst q < k)"
  by (auto simp: map_lower_bound_def find_None_iff)

end
