(* ===== verification/Sha1.thy ===== *)
theory Sha1
  imports RossiBits "HOL-Library.Word"
begin

text \<open>
  \<open>class SHA1\<close> of \<open>src/common/sha1.cpp\<close>: the object with its block buffer, bit counters and
  flags, one definition per member function, on 32-bit words and 8-bit octets. \<open>fips_sha1\<close>
  is SHA-1 as FIPS 180 states it, on the padded message; \<open>sha_rep msg st\<close> says that \<open>st\<close> has
  absorbed \<open>msg\<close>. Lemmas: every input step keeps the relation, the loops of
  \<open>ProcessMessageBlock\<close> compute the compression function, \<open>PadMessage\<close> the padding.

  \<open>Message_Block\<close> is not initialised by the constructor, so the object that \<open>Reset\<close> starts
  from is an argument.
\<close>

unbundle bit_operations_syntax

section \<open>The object\<close>

type_synonym u32 = "32 word"
type_synonym octet = "8 word"

record sha1 =
  sha_H :: "u32 list"
  Length_Low :: u32
  Length_High :: u32
  Message_Block :: "octet list"
  Message_Block_Index :: nat
  Computed :: bool
  Corrupted :: bool

definition SHA1_Reset :: "sha1 \<Rightarrow> sha1" where
  "SHA1_Reset st = st\<lparr>Length_Low := 0, Length_High := 0, Message_Block_Index := 0,
     sha_H := [0x67452301, 0xEFCDAB89, 0x98BADCFE, 0x10325476, 0xC3D2E1F0],
     Computed := False, Corrupted := False\<rparr>"

subsection \<open>\<open>ProcessMessageBlock\<close>\<close>

definition CircularShift :: "nat \<Rightarrow> u32 \<Rightarrow> u32" where
  "CircularShift bits w = (push_bit bits w AND 0xFFFFFFFF) OR drop_bit (32 - bits) (w AND 0xFFFFFFFF)"

definition block_word :: "octet list \<Rightarrow> nat \<Rightarrow> u32" where
  "block_word blk t =
     push_bit 24 (ucast (blk ! (t * 4))) OR push_bit 16 (ucast (blk ! (t * 4 + 1)))
       OR push_bit 8 (ucast (blk ! (t * 4 + 2))) OR ucast (blk ! (t * 4 + 3))"

definition expand_word :: "nat \<Rightarrow> u32 list \<Rightarrow> u32 list" where
  "expand_word t W =
     W @ [CircularShift 1 (W ! (t - 3) XOR W ! (t - 8) XOR W ! (t - 14) XOR W ! (t - 16))]"

definition message_schedule :: "octet list \<Rightarrow> u32 list" where
  "message_schedule blk = fold expand_word [16..<80] (map (block_word blk) [0..<16])"

type_synonym hash = "u32 \<times> u32 \<times> u32 \<times> u32 \<times> u32"

definition sha_step :: "(u32 \<Rightarrow> u32 \<Rightarrow> u32 \<Rightarrow> u32) \<Rightarrow> u32 \<Rightarrow> u32 list \<Rightarrow> nat \<Rightarrow> hash \<Rightarrow> hash" where
  "sha_step f k W t v =
     (let (A, B, C, D, E) = v;
          temp = (CircularShift 5 A + f B C D + E + W ! t + k) AND 0xFFFFFFFF
      in (temp, A, CircularShift 30 B, C, D))"

definition sha_rounds :: "u32 list \<Rightarrow> hash \<Rightarrow> hash" where
  "sha_rounds W v =
     fold (sha_step (\<lambda>B C D. B XOR C XOR D) 0xCA62C1D6 W) [60..<80]
       (fold (sha_step (\<lambda>B C D. B AND C OR B AND D OR C AND D) 0x8F1BBCDC W) [40..<60]
         (fold (sha_step (\<lambda>B C D. B XOR C XOR D) 0x6ED9EBA1 W) [20..<40]
           (fold (sha_step (\<lambda>B C D. B AND C OR NOT B AND D) 0x5A827999 W) [0..<20] v)))"

definition ProcessMessageBlock :: "sha1 \<Rightarrow> sha1" where
  "ProcessMessageBlock st =
     (let W = message_schedule (Message_Block st);
          H = sha_H st;
          (A, B, C, D, E) = sha_rounds W (H ! 0, H ! 1, H ! 2, H ! 3, H ! 4)
      in st\<lparr>sha_H := [(H ! 0 + A) AND 0xFFFFFFFF, (H ! 1 + B) AND 0xFFFFFFFF,
              (H ! 2 + C) AND 0xFFFFFFFF, (H ! 3 + D) AND 0xFFFFFFFF, (H ! 4 + E) AND 0xFFFFFFFF],
            Message_Block_Index := 0\<rparr>)"

subsection \<open>\<open>PadMessage\<close>\<close>

definition push_octet :: "octet \<Rightarrow> sha1 \<Rightarrow> sha1" where
  "push_octet b st = st\<lparr>Message_Block := (Message_Block st)[Message_Block_Index st := b],
     Message_Block_Index := Message_Block_Index st + 1\<rparr>"

function pad_zeros :: "nat \<Rightarrow> sha1 \<Rightarrow> sha1" where
  "pad_zeros n st = (if Message_Block_Index st < n then pad_zeros n (push_octet 0 st) else st)"
  by pat_completeness auto
termination by (relation "measure (\<lambda>(n, st). n - Message_Block_Index st)") (auto simp: push_octet_def)

declare pad_zeros.simps [simp del]

definition length_octets :: "u32 \<Rightarrow> u32 \<Rightarrow> octet list" where
  "length_octets hi lo =
     [ucast (drop_bit 24 hi AND 0xFF), ucast (drop_bit 16 hi AND 0xFF),
      ucast (drop_bit 8 hi AND 0xFF), ucast (hi AND 0xFF),
      ucast (drop_bit 24 lo AND 0xFF), ucast (drop_bit 16 lo AND 0xFF),
      ucast (drop_bit 8 lo AND 0xFF), ucast (lo AND 0xFF)]"

text \<open>The eight assignments to \<open>Message_Block [56]\<close> to \<open>[63]\<close>.\<close>

definition store_length :: "sha1 \<Rightarrow> sha1" where
  "store_length st =
     st\<lparr>Message_Block := fold (\<lambda>(i, b) blk. blk[i := b])
          (zip [56..<64] (length_octets (Length_High st) (Length_Low st))) (Message_Block st)\<rparr>"

definition PadMessage :: "sha1 \<Rightarrow> sha1" where
  "PadMessage st =
     (let st1 = (if Message_Block_Index st > 55
                 then pad_zeros 56 (ProcessMessageBlock (pad_zeros 64 (push_octet 0x80 st)))
                 else pad_zeros 56 (push_octet 0x80 st))
      in ProcessMessageBlock (store_length st1))"

subsection \<open>\<open>Input\<close> and \<open>Result\<close>\<close>

definition count_octet :: "sha1 \<Rightarrow> sha1" where
  "count_octet st =
     (let low = (Length_Low st + 8) AND 0xFFFFFFFF;
          high = (if low = 0 then (Length_High st + 1) AND 0xFFFFFFFF else Length_High st)
      in st\<lparr>Length_Low := low, Length_High := high,
            Corrupted := (if low = 0 \<and> high = 0 then True else Corrupted st)\<rparr>)"

definition input_octet :: "sha1 \<Rightarrow> octet \<Rightarrow> sha1" where
  "input_octet st b =
     (let st1 = count_octet (push_octet (b AND 0xFF) st)
      in if Message_Block_Index st1 = 64 then ProcessMessageBlock st1 else st1)"

fun input_loop :: "sha1 \<Rightarrow> octet list \<Rightarrow> sha1" where
  "input_loop st [] = st"
| "input_loop st (b # bs) = (if Corrupted st then st else input_loop (input_octet st b) bs)"

definition SHA1_Input :: "octet list \<Rightarrow> sha1 \<Rightarrow> sha1" where
  "SHA1_Input message_array st =
     (if message_array = [] then st
      else if Computed st \<or> Corrupted st then st\<lparr>Corrupted := True\<rparr>
      else input_loop st message_array)"

text \<open>\<open>operator<<\<close>: the octets up to the terminating zero, one call of \<open>Input\<close> each.\<close>

definition SHA1_shl :: "octet list \<Rightarrow> sha1 \<Rightarrow> sha1" where
  "SHA1_shl message_array st =
     fold (\<lambda>b. SHA1_Input [b]) (takeWhile (\<lambda>b. b \<noteq> 0) message_array) st"

text \<open>\<open>Result\<close>: the digest, or nothing when it returns false.\<close>

definition SHA1_Result :: "sha1 \<Rightarrow> sha1 \<times> u32 list option" where
  "SHA1_Result st =
     (if Corrupted st then (st, None)
      else let st1 = (if Computed st then st else (PadMessage st)\<lparr>Computed := True\<rparr>)
           in (st1, Some (map (\<lambda>i. sha_H st1 ! i) [0..<5])))"

definition digest_rossi :: "u32 list \<Rightarrow> rossi" where
  "digest_rossi digest =
     fold (\<lambda>i bint. rossi_plus_assign (rossi_shl_assign bint 32) (rossi_of_ulong (ucast (digest ! i))))
       [1..<5] (rossi_of_ulong (ucast (digest ! 0)))"

definition SHA1_Result_rossi :: "sha1 \<Rightarrow> sha1 \<times> rossi option" where
  "SHA1_Result_rossi st = (let (st1, d) = SHA1_Result st in (st1, map_option digest_rossi d))"

definition sha1_octets :: "sha1 \<Rightarrow> octet list \<Rightarrow> rossi option" where
  "sha1_octets obj msg = snd (SHA1_Result_rossi (SHA1_Input msg (SHA1_Reset obj)))"


section \<open>SHA-1 as the standard states it\<close>

definition fips_f :: "nat \<Rightarrow> u32 \<Rightarrow> u32 \<Rightarrow> u32 \<Rightarrow> u32" where
  "fips_f t x y z =
     (if t < 20 then (x AND y) XOR (NOT x AND z)
      else if t < 40 then x XOR y XOR z
      else if t < 60 then (x AND y) XOR (x AND z) XOR (y AND z)
      else x XOR y XOR z)"

definition fips_K :: "nat \<Rightarrow> u32" where
  "fips_K t = (if t < 20 then 0x5A827999 else if t < 40 then 0x6ED9EBA1
     else if t < 60 then 0x8F1BBCDC else 0xCA62C1D6)"

definition fips_M :: "octet list \<Rightarrow> nat \<Rightarrow> u32" where
  "fips_M blk t = word_rcat (take 4 (drop (4 * t) blk))"

fun fips_W :: "octet list \<Rightarrow> nat \<Rightarrow> u32" where
  "fips_W blk t =
     (if t < 16 then fips_M blk t
      else word_rotl 1 (fips_W blk (t - 3) XOR fips_W blk (t - 8) XOR
                        fips_W blk (t - 14) XOR fips_W blk (t - 16)))"

declare fips_W.simps [simp del]

primrec fips_vars :: "octet list \<Rightarrow> hash \<Rightarrow> nat \<Rightarrow> hash" where
  "fips_vars blk h 0 = h"
| "fips_vars blk h (Suc t) =
     (let (a, b, c, d, e) = fips_vars blk h t
      in (word_rotl 5 a + fips_f t b c d + e + fips_K t + fips_W blk t, a, word_rotl 30 b, c, d))"

definition fips_compress :: "hash \<Rightarrow> octet list \<Rightarrow> hash" where
  "fips_compress h blk =
     (let (h0, h1, h2, h3, h4) = h; (a, b, c, d, e) = fips_vars blk h 80
      in (h0 + a, h1 + b, h2 + c, h3 + d, h4 + e))"

definition fips_H0 :: hash where
  "fips_H0 = (0x67452301, 0xEFCDAB89, 0x98BADCFE, 0x10325476, 0xC3D2E1F0)"

text \<open>The whole 64-octet blocks of a string, and what is left after them.\<close>

function blocks :: "octet list \<Rightarrow> octet list list" where
  "blocks xs = (if length xs < 64 then [] else take 64 xs # blocks (drop 64 xs))"
  by pat_completeness auto
termination by (relation "measure length") auto

declare blocks.simps [simp del]

definition rest :: "octet list \<Rightarrow> octet list" where
  "rest xs = drop (length xs - length xs mod 64) xs"

definition be64 :: "nat \<Rightarrow> octet list" where
  "be64 n = map (\<lambda>i. of_nat (n div 2 ^ (8 * (7 - i)))) [0..<8]"

definition fips_pad :: "octet list \<Rightarrow> octet list" where
  "fips_pad msg = msg @ 0x80 # replicate ((119 - length msg mod 64) mod 64) 0
     @ be64 (8 * length msg)"

definition fips_sha1 :: "octet list \<Rightarrow> hash" where
  "fips_sha1 msg = foldl fips_compress fips_H0 (blocks (fips_pad msg))"

fun hash_list :: "hash \<Rightarrow> u32 list" where
  "hash_list (a, b, c, d, e) = [a, b, c, d, e]"

section \<open>The loops compute the compression function\<close>

lemma u32_mask [simp]: "(w :: u32) AND 0xFFFFFFFF = w"
proof -
  have "(0xFFFFFFFF :: u32) = - 1" by simp
  then show ?thesis by (simp only: and.right_neutral)
qed

lemma octet_mask [simp]: "(w :: octet) AND 0xFF = w"
proof -
  have "(0xFF :: octet) = - 1" by simp
  then show ?thesis by (simp only: and.right_neutral)
qed

lemma CircularShift_rotl:
  assumes "0 < n" "n < 32"
  shows "CircularShift n w = word_rotl n w"
proof (rule bit_word_eqI)
  fix i assume "i < LENGTH(32)"
  then have i: "i < 32" by simp
  have shift: "bit (CircularShift n w) i \<longleftrightarrow> n \<le> i \<and> bit w (i - n) \<or> bit w (i + (32 - n))"
    using i by (simp add: CircularShift_def bit_or_iff bit_push_bit_iff bit_drop_bit_eq possible_bit_def
        add.commute)
  have rot: "bit (word_rotl n w) i \<longleftrightarrow> bit w ((i + (32 - n)) mod 32)"
    using i assms by (simp only: bit_word_rotl_iff) simp
  show "bit (CircularShift n w) i = bit (word_rotl n w) i"
  proof (cases "n \<le> i")
    case True
    then have "i + (32 - n) = 32 + (i - n)" using assms by simp
    moreover have "(32 + (i - n)) mod 32 = i - n" using i by (simp only: mod_add_self1) simp
    moreover have "\<not> bit w (32 + (i - n))" using bit_imp_le_length [of w "32 + (i - n)"] by auto
    ultimately show ?thesis unfolding shift rot using True by metis
  next
    case False
    then have "(i + (32 - n)) mod 32 = i + (32 - n)" using assms by (intro mod_less) simp
    then show ?thesis unfolding shift rot using False by simp
  qed
qed

lemma fips_f_or:
  "b AND c OR NOT b AND d = (b AND c) XOR (NOT b AND (d :: u32))"
  "b AND c OR b AND d OR c AND d = (b AND c) XOR (b AND d) XOR (c AND (d :: u32))"
  by (auto intro!: bit_word_eqI simp: bit_and_iff bit_or_iff bit_xor_iff bit_not_iff possible_bit_def)

lemma bit_rcat_octets:
  "i < 32 \<Longrightarrow> bit (word_rcat (ws :: octet list) :: u32) i \<longleftrightarrow>
    i div 8 < length ws \<and> bit (rev ws ! (i div 8)) (i mod 8)"
  unfolding word_rcat_def comp_def bit_word_of_int_iff bit_horner_sum_uint_exp_iff by simp

lemma block_word_rcat:
  assumes "4 * t + 3 < length blk"
  shows "block_word blk t = fips_M blk t"
proof -
  have four: "take 4 (drop (4 * t) blk) = [blk ! (4 * t), blk ! (4 * t + 1), blk ! (4 * t + 2), blk ! (4 * t + 3)]"
    using assms by (intro nth_equalityI) (auto simp: nth_Cons numeral_eq_Suc less_Suc_eq split: nat.splits)
  have "bit (block_word blk t) i = bit (fips_M blk t) i" if "i < 32" for i
  proof -
    define d r where "d = i div 8" and "r = i mod 8"
    have i: "i = 8 * d + r" "r < 8" "d < 4" using that by (simp_all add: d_def r_def)
    have digit: "bit (fips_M blk t) i = bit (rev (take 4 (drop (4 * t) blk)) ! d) r"
      unfolding fips_M_def four using bit_rcat_octets [OF that, folded d_def r_def] i(3) by simp
    have off: "\<not> bit (u :: octet) k" if "8 \<le> k" for u k
      using that bit_imp_le_length [of u k] by auto
    from i(3) have "d = 0 \<or> d = 1 \<or> d = 2 \<or> d = 3" by linarith
    then show ?thesis
      using that i(1,2) off unfolding digit four block_word_def
      by (elim disjE) (simp_all add: bit_or_iff bit_push_bit_iff bit_ucast_iff possible_bit_def mult.commute)
  qed
  then show ?thesis by (intro bit_word_eqI) simp
qed

lemma length_octets_be64: "length_octets (of_nat (n div 2 ^ 32)) (of_nat n) = be64 n"
proof -
  have lo: "(ucast (drop_bit k (of_nat n :: u32)) :: octet) = of_nat (n div 2 ^ k)" if "k \<le> 24" for k
    using that unfolding drop_bit_eq_div [symmetric]
    by (intro bit_word_eqI) (auto simp: bit_ucast_iff bit_drop_bit_eq bit_of_nat_iff possible_bit_def)
  have hi: "(ucast (drop_bit k (of_nat (n div 2 ^ 32) :: u32)) :: octet) = of_nat (n div 2 ^ (32 + k))"
    if "k \<le> 24" for k
    using that unfolding drop_bit_eq_div [symmetric]
    by (intro bit_word_eqI) (auto simp: bit_ucast_iff bit_drop_bit_eq bit_of_nat_iff possible_bit_def ac_simps)
  have mask: "ucast (w AND 0xFF :: u32) = (ucast w :: octet)" for w
  proof -
    have "(0xFF :: u32) = mask 8" by (simp add: mask_eq_exp_minus_1)
    then have "w AND 0xFF = take_bit 8 w" by (simp only: take_bit_eq_mask)
    then show ?thesis by (auto intro!: bit_word_eqI simp: bit_ucast_iff bit_take_bit_iff)
  qed
  have idx: "[0..<8] = [0, 1, 2, 3, 4, 5, 6, 7 :: nat]" by (simp add: upt_rec)
  show ?thesis
    using hi [of 24] hi [of 16] hi [of 8] hi [of 0] lo [of 24] lo [of 16] lo [of 8] lo [of 0]
    by (simp add: length_octets_def be64_def idx mask)
qed


lemma schedule_loop:
  assumes "length blk = 64" "n \<le> 64"
  shows "fold expand_word [16..<16 + n] (map (block_word blk) [0..<16]) = map (fips_W blk) [0..<16 + n]"
  using assms(2)
proof (induction n)
  case 0
  have "block_word blk t = fips_W blk t" if "t < 16" for t
    using that assms(1) block_word_rcat [of t blk] by (simp add: fips_W.simps [of blk t])
  then show ?case by simp
next
  case (Suc n)
  have "expand_word (16 + n) (map (fips_W blk) [0..<16 + n]) = map (fips_W blk) [0..<16 + n] @ [fips_W blk (16 + n)]"
    by (subst fips_W.simps [of blk "16 + n"]) (simp add: expand_word_def CircularShift_rotl)
  moreover have "[m..<16 + Suc n] = [m..<16 + n] @ [16 + n]" if "m \<le> 16" for m
    using that by (simp only: add_Suc_right upt_Suc) simp
  ultimately show ?case using Suc by (simp del: upt_Suc add_Suc_right)
qed

lemma message_schedule_fips:
  "length blk = 64 \<Longrightarrow> message_schedule blk = map (fips_W blk) [0..<80]"
  using schedule_loop [of blk 64] by (simp add: message_schedule_def)

lemma fold_rounds:
  assumes "length blk = 64" "m \<le> n" "n \<le> 80"
    and "\<And>t v. m \<le> t \<Longrightarrow> t < n \<Longrightarrow> k = fips_K t \<and> (\<forall>b c d. f b c d = fips_f t b c d)"
  shows "fold (sha_step f k (map (fips_W blk) [0..<80])) [m..<n] (fips_vars blk h m) = fips_vars blk h n"
  using assms(2-)
proof (induction n rule: dec_induct)
  case base
  then show ?case by simp
next
  case (step n)
  have "fold (sha_step f k (map (fips_W blk) [0..<80])) [m..<n] (fips_vars blk h m) = fips_vars blk h n"
    using step.prems by (intro step.IH) auto
  moreover have "k = fips_K n" "f b c d = fips_f n b c d" for b c d
    using step.prems(2) [of n] step.hyps by auto
  then have "sha_step f k (map (fips_W blk) [0..<80]) n (fips_vars blk h n) = fips_vars blk h (Suc n)"
    using step.prems(1) by (simp add: sha_step_def CircularShift_rotl ac_simps split: prod.splits)
  ultimately show ?case using step.hyps by simp
qed

lemma sha_rounds_fips:
  assumes "length blk = 64"
  shows "sha_rounds (message_schedule blk) h = fips_vars blk h 80"
proof -
  let ?W = "map (fips_W blk) [0..<80]"
  have "fold (sha_step (\<lambda>B C D. B AND C OR NOT B AND D) 0x5A827999 ?W) [0..<20] h = fips_vars blk h 20"
    using fold_rounds [OF assms, of 0 20 "0x5A827999" "\<lambda>B C D. B AND C OR NOT B AND D" h]
    by (simp add: fips_K_def fips_f_def fips_f_or)
  moreover have "fold (sha_step (\<lambda>B C D. B XOR C XOR D) 0x6ED9EBA1 ?W) [20..<40] (fips_vars blk h 20) = fips_vars blk h 40"
    by (rule fold_rounds [OF assms]) (simp_all add: fips_K_def fips_f_def)
  moreover have "fold (sha_step (\<lambda>B C D. B AND C OR B AND D OR C AND D) 0x8F1BBCDC ?W) [40..<60] (fips_vars blk h 40) = fips_vars blk h 60"
    by (rule fold_rounds [OF assms]) (simp_all add: fips_K_def fips_f_def fips_f_or)
  moreover have "fold (sha_step (\<lambda>B C D. B XOR C XOR D) 0xCA62C1D6 ?W) [60..<80] (fips_vars blk h 60) = fips_vars blk h 80"
    by (rule fold_rounds [OF assms]) (simp_all add: fips_K_def fips_f_def)
  ultimately show ?thesis by (simp only: sha_rounds_def message_schedule_fips [OF assms])
qed

lemma ProcessMessageBlock_fips:
  assumes "length (Message_Block st) = 64" "sha_H st = hash_list h"
  shows "ProcessMessageBlock st =
    st\<lparr>sha_H := hash_list (fips_compress h (Message_Block st)), Message_Block_Index := 0\<rparr>"
proof -
  obtain a b c d e where h: "h = (a, b, c, d, e)" by (cases h)
  then have "sha_H st = [a, b, c, d, e]" using assms(2) by simp
  then show ?thesis
    by (simp add: ProcessMessageBlock_def sha_rounds_fips [OF assms(1)] h fips_compress_def Let_def
        split: prod.splits)
qed


section \<open>The buffer\<close>

lemma blocks_short: "length xs < 64 \<Longrightarrow> blocks xs = []"
  by (subst blocks.simps) simp

lemma blocks_step: "length xs = 64 \<Longrightarrow> blocks (xs @ ys) = xs # blocks ys"
  by (subst blocks.simps) simp

lemma blocks_append: "length xs mod 64 = 0 \<Longrightarrow> blocks (xs @ ys) = blocks xs @ blocks ys"
proof (induction xs rule: blocks.induct)
  case (1 xs)
  show ?case
  proof (cases "length xs < 64")
    case True
    with 1 have "xs = []" by simp
    then show ?thesis by (simp add: blocks_short)
  next
    case False
    then have split: "xs = take 64 xs @ drop 64 xs" "length (take 64 xs) = 64" by simp_all
    have "length (drop 64 xs) mod 64 = 0" using 1(2) False by (simp add: le_mod_geq)
    with 1(1) False have IH: "blocks (drop 64 xs @ ys) = blocks (drop 64 xs) @ blocks ys" by simp
    have "xs @ ys = take 64 xs @ (drop 64 xs @ ys)" by (metis append.assoc append_take_drop_id)
    then have "blocks (xs @ ys) = blocks (take 64 xs @ (drop 64 xs @ ys))" by (rule arg_cong)
    also have "\<dots> = take 64 xs # blocks (drop 64 xs) @ blocks ys"
      using blocks_step [OF split(2), of "drop 64 xs @ ys"] IH by simp
    finally show ?thesis using blocks_step [OF split(2), of "drop 64 xs"] by simp
  qed
qed

text \<open>A string as its whole blocks and its rest.\<close>

lemma rest_length: "length (rest xs) = length xs mod 64"
  by (simp add: rest_def diff_diff_cancel)

lemma rest_split:
  obtains w where "xs = w @ rest xs" "length w mod 64 = 0"
proof
  let ?w = "take (length xs - length xs mod 64) xs"
  show "xs = ?w @ rest xs" by (simp add: rest_def)
  have "length ?w = 64 * (length xs div 64)" by (simp add: minus_mod_eq_mult_div)
  then show "length ?w mod 64 = 0" by simp
qed

lemma blocks_rest: "blocks (xs @ ys) = blocks xs @ blocks (rest xs @ ys)"
proof -
  obtain w where w: "xs = w @ rest xs" "length w mod 64 = 0" by (rule rest_split)
  have "blocks (w @ rest xs) = blocks w @ blocks (rest xs)" by (rule blocks_append [OF w(2)])
  moreover have "blocks (rest xs) = []" by (rule blocks_short) (simp add: rest_length)
  ultimately have "blocks xs = blocks w" using w(1) by simp
  moreover have "blocks (w @ (rest xs @ ys)) = blocks w @ blocks (rest xs @ ys)" by (rule blocks_append [OF w(2)])
  moreover have "xs @ ys = w @ (rest xs @ ys)" by (subst w(1)) simp
  ultimately show ?thesis by (simp only:)
qed

lemma rest_snoc: "rest (xs @ [b]) = (if length xs mod 64 = 63 then [] else rest xs @ [b])"
proof -
  have "Suc n mod 64 = (if n mod 64 = 63 then 0 else Suc (n mod 64))" for n :: nat
    by (simp add: mod_Suc)
  then show ?thesis by (auto simp: rest_def Suc_diff_le)
qed

text \<open>
  \<open>st\<close> has absorbed \<open>msg\<close>: the digest of the whole blocks, the rest at the front of the
  buffer, the counters at the number of bits.
\<close>

definition sha_rep :: "octet list \<Rightarrow> sha1 \<Rightarrow> bool" where
  "sha_rep msg st \<longleftrightarrow>
     length (Message_Block st) = 64 \<and> Message_Block_Index st = length msg mod 64 \<and>
     take (length msg mod 64) (Message_Block st) = rest msg \<and>
     sha_H st = hash_list (foldl fips_compress fips_H0 (blocks msg)) \<and>
     Length_Low st = of_nat (8 * length msg) \<and>
     Length_High st = of_nat (8 * length msg div 2 ^ 32) \<and>
     \<not> Computed st \<and> \<not> Corrupted st"

lemma sha_rep_Reset: "length (Message_Block obj) = 64 \<Longrightarrow> sha_rep [] (SHA1_Reset obj)"
  by (simp add: sha_rep_def SHA1_Reset_def rest_def blocks_short fips_H0_def)

lemma count_octet_rep:
  assumes "sha_rep msg st" "8 * (length msg + 1) < 2 ^ 64"
  shows "count_octet (push_octet b st) =
    (push_octet b st)\<lparr>Length_Low := of_nat (8 * (length msg + 1)),
      Length_High := of_nat (8 * (length msg + 1) div 2 ^ 32)\<rparr>"
proof -
  let ?n = "8 * length msg"
  have zero: "(of_nat m :: u32) = 0 \<longleftrightarrow> m mod 2 ^ 32 = 0" for m
    by (simp add: word_of_nat_eq_0_iff dvd_eq_mod_eq_0)
  have step: "(?n + 8) div 2 ^ 32 = ?n div 2 ^ 32 + (if (?n + 8) mod 2 ^ 32 = 0 then 1 else 0)"
  proof -
    define q r where "q = ?n div 2 ^ 32" and "r = ?n mod 2 ^ 32"
    have "8 dvd r" unfolding r_def by (simp add: dvd_mod)
    then obtain j where j: "r = 8 * j" by blast
    have "r < 2 ^ 32" by (simp add: r_def)
    then have "r + 8 \<le> 2 ^ 32" using j by simp
    moreover have "?n + 8 = 2 ^ 32 * q + (r + 8)"
      using mult_div_mod_eq [of "2 ^ 32" ?n] unfolding q_def r_def by linarith
    ultimately show ?thesis unfolding q_def [symmetric] by (cases "r + 8 = 2 ^ 32") auto
  qed
  have high: "(?n + 8) div 2 ^ 32 < 2 ^ 32" using assms(2) by (simp add: less_mult_imp_div_less)
  have low: "Length_Low (push_octet b st) + 8 = of_nat (?n + 8)"
    using assms(1) by (simp add: sha_rep_def push_octet_def)
  have hi: "Length_High (push_octet b st) = of_nat (?n div 2 ^ 32)"
    using assms(1) by (simp add: sha_rep_def push_octet_def)
  have corrupted: "\<not> ((?n + 8) mod 2 ^ 32 = 0 \<and> (of_nat (?n div 2 ^ 32 + 1) :: u32) = 0)"
  proof
    assume *: "(?n + 8) mod 2 ^ 32 = 0 \<and> (of_nat (?n div 2 ^ 32 + 1) :: u32) = 0"
    then have "(?n + 8) div 2 ^ 32 = ?n div 2 ^ 32 + 1" using step by presburger
    with * have "((?n + 8) div 2 ^ 32) mod 2 ^ 32 = 0" unfolding zero by presburger
    with high have "(?n + 8) div 2 ^ 32 = 0" by simp
    with \<open>(?n + 8) div 2 ^ 32 = ?n div 2 ^ 32 + 1\<close> show False by linarith
  qed
  define L H H' where "L = (of_nat (?n + 8) :: u32)" and "H = (of_nat (?n div 2 ^ 32) :: u32)"
    and "H' = (of_nat ((?n + 8) div 2 ^ 32) :: u32)"
  have n8: "8 * (length msg + 1) = ?n + 8" by simp
  have "H' = (if L = 0 then H + 1 else H)" "\<not> (L = 0 \<and> H' = 0)"
  proof -
    have L: "L = 0 \<longleftrightarrow> (?n + 8) mod 2 ^ 32 = 0" unfolding L_def by (rule zero)
    have one: "(of_nat (m + 1) :: u32) = of_nat m + 1" for m by simp
    show "H' = (if L = 0 then H + 1 else H)"
    proof (cases "L = 0")
      case True
      then have "(?n + 8) div 2 ^ 32 = ?n div 2 ^ 32 + 1" using step L by presburger
      then show ?thesis using True one unfolding H'_def H_def by (simp only: if_True simp_thms)
    next
      case False
      then have "(?n + 8) div 2 ^ 32 = ?n div 2 ^ 32" using step L by presburger
      then show ?thesis using False unfolding H'_def H_def by (simp only: if_False)
    qed
    then show "\<not> (L = 0 \<and> H' = 0)" using corrupted L one unfolding H_def by metis
  qed
  then show ?thesis
    unfolding count_octet_def Let_def u32_mask low hi n8 L_def [symmetric] H_def [symmetric] H'_def [symmetric]
    by (cases "L = 0") auto
qed

text \<open>One octet of input.\<close>

lemma input_octet_rep:
  assumes "sha_rep msg st" "8 * (length msg + 1) < 2 ^ 64"
  shows "sha_rep (msg @ [b]) (input_octet st b)"
proof -
  let ?m = "length msg mod 64"
  let ?st1 = "count_octet (push_octet b st)"
  have st: "length (Message_Block st) = 64" "Message_Block_Index st = ?m" "take ?m (Message_Block st) = rest msg"
    "sha_H st = hash_list (foldl fips_compress fips_H0 (blocks msg))" "\<not> Computed st" "\<not> Corrupted st"
    using assms(1) by (auto simp: sha_rep_def)
  have m: "?m < 64" by simp
  note st1 = count_octet_rep [OF assms]
  have idx: "Message_Block_Index ?st1 = Suc ?m" unfolding st1 by (simp add: push_octet_def st)
  have blk: "Message_Block ?st1 = (Message_Block st)[?m := b]" unfolding st1 by (simp add: push_octet_def st)
  have len: "length (Message_Block ?st1) = 64" unfolding blk by (simp add: st)
  have hash: "sha_H ?st1 = hash_list (foldl fips_compress fips_H0 (blocks msg))"
    unfolding st1 by (simp add: push_octet_def st)
  have pre: "take (Suc ?m) (Message_Block ?st1) = rest msg @ [b]"
    unfolding blk using st(1,3) m by (simp add: take_Suc_conv_app_nth)
  have in_eq: "input_octet st b = (if Suc ?m = 64 then ProcessMessageBlock ?st1 else ?st1)"
    by (simp add: input_octet_def idx Let_def)
  have blocks: "blocks (msg @ [b]) = blocks msg @ (if Suc ?m = 64 then [rest msg @ [b]] else [])"
    using blocks_rest [of msg "[b]"] blocks_step [of "rest msg @ [b]" "[]"] m
    by (auto simp: blocks_short rest_length)
  show ?thesis
  proof (cases "Suc ?m = 64")
    case True
    then have full: "Message_Block ?st1 = rest msg @ [b]" using pre len by simp
    have "input_octet st b =
        ?st1\<lparr>sha_H := hash_list (fips_compress (foldl fips_compress fips_H0 (blocks msg)) (rest msg @ [b])),
          Message_Block_Index := 0\<rparr>"
      using ProcessMessageBlock_fips [OF len hash] True full in_eq by simp
    moreover have "length (msg @ [b]) mod 64 = 0" using True by (simp add: mod_Suc)
    ultimately show ?thesis using len blocks True unfolding st1
      by (simp add: sha_rep_def rest_snoc push_octet_def st)
  next
    case False
    then have "length (msg @ [b]) mod 64 = Suc ?m" by (simp add: mod_Suc)
    moreover have "input_octet st b = ?st1" using in_eq False by simp
    moreover have "rest (msg @ [b]) = rest msg @ [b]" using False by (auto simp: rest_snoc)
    ultimately show ?thesis using len pre idx blocks False hash unfolding st1
      by (simp add: sha_rep_def push_octet_def st)
  qed
qed

lemma input_loop_rep:
  "sha_rep msg st \<Longrightarrow> 8 * (length msg + length bs) < 2 ^ 64 \<Longrightarrow> sha_rep (msg @ bs) (input_loop st bs)"
proof (induction bs arbitrary: msg st)
  case (Cons b bs)
  have "\<not> Corrupted st" using Cons.prems(1) by (simp add: sha_rep_def)
  moreover have "sha_rep (msg @ [b]) (input_octet st b)" using Cons.prems by (intro input_octet_rep) auto
  from Cons.IH [OF this] have "sha_rep ((msg @ [b]) @ bs) (input_loop (input_octet st b) bs)"
    using Cons.prems(2) by simp
  ultimately show ?case by simp
qed simp

lemma SHA1_Input_rep:
  "sha_rep msg st \<Longrightarrow> 8 * (length msg + length bs) < 2 ^ 64 \<Longrightarrow> sha_rep (msg @ bs) (SHA1_Input bs st)"
  using input_loop_rep [of msg st bs] by (auto simp: SHA1_Input_def sha_rep_def)


section \<open>Padding and the digest\<close>

lemma push_octet_take:
  assumes "Message_Block_Index st < length (Message_Block st)"
  shows "take (Message_Block_Index (push_octet b st)) (Message_Block (push_octet b st))
    = take (Message_Block_Index st) (Message_Block st) @ [b]"
  using assms by (simp add: push_octet_def take_Suc_conv_app_nth)

lemma pad_zeros_spec:
  assumes "Message_Block_Index st \<le> n" "n \<le> length (Message_Block st)"
  shows "\<exists>blk. pad_zeros n st = st\<lparr>Message_Block := blk, Message_Block_Index := n\<rparr> \<and>
    length blk = length (Message_Block st) \<and>
    take n blk = take (Message_Block_Index st) (Message_Block st) @ replicate (n - Message_Block_Index st) 0"
  using assms
proof (induction n st rule: pad_zeros.induct)
  case (1 n st)
  show ?case
  proof (cases "Message_Block_Index st < n")
    case True
    let ?st' = "push_octet 0 st"
    have idx: "Message_Block_Index ?st' = Suc (Message_Block_Index st)" "length (Message_Block ?st') = length (Message_Block st)"
      by (simp_all add: push_octet_def)
    from 1(1) [OF True] idx True 1(3) obtain blk where blk: "pad_zeros n ?st' = ?st'\<lparr>Message_Block := blk, Message_Block_Index := n\<rparr>"
      "length blk = length (Message_Block ?st')"
      "take n blk = take (Message_Block_Index ?st') (Message_Block ?st') @ replicate (n - Message_Block_Index ?st') 0"
      by auto
    have "replicate (n - Message_Block_Index st) 0 = (0::octet) # replicate (n - Suc (Message_Block_Index st)) 0"
      using True by (simp add: Suc_diff_Suc [symmetric] replicate_Suc [symmetric] del: replicate_Suc)
    then have "take n blk = take (Message_Block_Index st) (Message_Block st) @ replicate (n - Message_Block_Index st) 0"
      using blk(3) push_octet_take [of st 0] True 1(3) idx(1) by simp
    moreover have "pad_zeros n st = st\<lparr>Message_Block := blk, Message_Block_Index := n\<rparr>"
      using blk(1) True by (subst pad_zeros.simps) (simp add: push_octet_def)
    ultimately show ?thesis using blk(2) idx(2) by auto
  next
    case False
    then have "Message_Block_Index st = n" using 1(2) by simp
    moreover have "pad_zeros n st = st" using False by (subst pad_zeros.simps) simp
    ultimately show ?thesis using 1(3) by (intro exI [of _ "Message_Block st"]) auto
  qed
qed

lemma fold_store:
  fixes blk :: "octet list"
  assumes "length blk = 56 + length bs"
  shows "fold (\<lambda>(i, b) blk. blk[i := b]) (zip [56..<56 + length bs] bs) blk = take 56 blk @ bs"
proof -
  have "fold (\<lambda>(i, b) blk. blk[i := b]) (zip [k..<k + length bs] bs) (pre @ post) = pre @ bs"
    if "length pre = k" "length post = length bs" for k and pre post bs :: "octet list"
    using that
  proof (induction bs arbitrary: k pre post)
    case (Cons b bs)
    then obtain p post' where post: "post = p # post'" by (cases post) auto
    have "[k..<k + length (b # bs)] = k # [Suc k..<Suc k + length bs]" by (simp add: upt_rec)
    moreover have "(pre @ post)[k := b] = (pre @ [b]) @ post'" using Cons.prems post by (simp add: list_update_append)
    ultimately show ?case using Cons.IH [of "pre @ [b]" "Suc k" post'] Cons.prems post by simp
  qed simp
  from this [of "take 56 blk" 56 "drop 56 blk" bs] assms show ?thesis by simp
qed

lemma store_length_block:
  assumes "length (Message_Block st) = 64"
  shows "store_length st = st\<lparr>Message_Block :=
    take 56 (Message_Block st) @ length_octets (Length_High st) (Length_Low st)\<rparr>"
  using assms fold_store [of "Message_Block st" "length_octets (Length_High st) (Length_Low st)"]
  by (simp add: store_length_def length_octets_def)

text \<open>The last blocks, as \<open>PadMessage\<close> makes them.\<close>

lemma blocks_fips_pad:
  "blocks (fips_pad msg) = blocks msg @
     (let m = length msg mod 64 in
      if m > 55 then [rest msg @ 0x80 # replicate (63 - m) 0, replicate 56 0 @ be64 (8 * length msg)]
      else [rest msg @ 0x80 # replicate (55 - m) 0 @ be64 (8 * length msg)])"
proof -
  define m where "m = length msg mod 64"
  define tail where "tail = be64 (8 * length msg)"
  have m: "m < 64" "length (rest msg) = m" by (simp_all add: m_def rest_length)
  have tail: "length tail = 8" by (simp add: tail_def be64_def)
  have "blocks (rest msg @ 0x80 # replicate ((119 - m) mod 64) 0 @ tail)
      = (if m > 55 then [rest msg @ 0x80 # replicate (63 - m) 0, replicate 56 0 @ tail]
         else [rest msg @ 0x80 # replicate (55 - m) 0 @ tail])"
  proof (cases "m > 55")
    case True
    then have "(119 - m) mod 64 = (63 - m) + 56" using m by simp
    then have split: "rest msg @ 0x80 # replicate ((119 - m) mod 64) 0 @ tail
        = (rest msg @ 0x80 # replicate (63 - m) 0) @ (replicate 56 0 @ tail)"
      by (simp only: replicate_add append.simps append.assoc)
    have "blocks (replicate 56 0 @ tail) = [replicate 56 0 @ tail]"
      using blocks_step [of "replicate 56 0 @ tail" "[]"] tail by (simp add: blocks_short)
    moreover have "length (rest msg @ 0x80 # replicate (63 - m) 0) = 64" using m True by simp
    note blocks_step [OF this, of "replicate 56 0 @ tail"]
    ultimately show ?thesis using True unfolding split by (simp only: if_True)
  next
    case False
    then have "(119 - m) mod 64 = 55 - m"
    proof -
      have "119 - m = 64 + (55 - m)" using False by simp
      then have "(119 - m) mod 64 = (55 - m) mod 64" by (simp only: mod_add_self1)
      then show ?thesis by simp
    qed
    then show ?thesis
      using False blocks_step [of "rest msg @ 0x80 # replicate (55 - m) 0 @ tail" "[]"] m tail
      by (simp add: blocks_short)
  qed
  then show ?thesis
    unfolding fips_pad_def Let_def m_def [symmetric] tail_def [symmetric] by (simp add: blocks_rest [of msg])
qed


lemma PadMessage_fips:
  assumes "sha_rep msg st"
  shows "sha_H (PadMessage st) = hash_list (fips_sha1 msg) \<and> length (Message_Block (PadMessage st)) = 64
    \<and> Corrupted (PadMessage st) = False"
proof -
  define m where "m = length msg mod 64"
  define h where "h = foldl fips_compress fips_H0 (blocks msg)"
  have m: "m < 64" "length (rest msg) = m" by (simp_all add: m_def rest_length)
  have st: "length (Message_Block st) = 64" "Message_Block_Index st = m" "take m (Message_Block st) = rest msg"
    "sha_H st = hash_list h" "length_octets (Length_High st) (Length_Low st) = be64 (8 * length msg)" "\<not> Corrupted st"
    using assms length_octets_be64 [where n = "8 * length msg"] by (auto simp: sha_rep_def m_def h_def)
  let ?p = "push_octet 0x80 st"
  have p: "Message_Block_Index ?p = Suc m" "length (Message_Block ?p) = 64" "sha_H ?p = hash_list h"
    "take (Suc m) (Message_Block ?p) = rest msg @ [0x80]"
    "Length_High ?p = Length_High st" "Length_Low ?p = Length_Low st" "\<not> Corrupted ?p"
    using push_octet_take [of st "0x80"] m st by (simp_all add: push_octet_def)
  show ?thesis
  proof (cases "m > 55")
    case True
    from pad_zeros_spec [of ?p 64] p m obtain b1 where b1: "pad_zeros 64 ?p = ?p\<lparr>Message_Block := b1, Message_Block_Index := 64\<rparr>"
      "length b1 = 64" "b1 = rest msg @ 0x80 # replicate (63 - m) 0" by auto
    let ?q = "?p\<lparr>Message_Block := b1, Message_Block_Index := 0, sha_H := hash_list (fips_compress h b1)\<rparr>"
    have q: "ProcessMessageBlock (pad_zeros 64 ?p) = ?q"
      using ProcessMessageBlock_fips [of "pad_zeros 64 ?p" h] b1(1,2) p(3) by simp
    from pad_zeros_spec [of ?q 56] b1(2) obtain b2 where b2: "pad_zeros 56 ?q = ?q\<lparr>Message_Block := b2, Message_Block_Index := 56\<rparr>"
      "length b2 = 64" "take 56 b2 = replicate 56 0" by auto
    let ?s = "?q\<lparr>Message_Block := b2, Message_Block_Index := 56\<rparr>"
    have s: "store_length ?s = ?s\<lparr>Message_Block := replicate 56 0 @ be64 (8 * length msg)\<rparr>"
      using store_length_block [of ?s] b2 p st(5) by simp
    have "PadMessage st = ProcessMessageBlock (store_length ?s)"
      using True st(2) q b2(1) by (simp add: PadMessage_def)
    moreover have "fips_sha1 msg = fips_compress (fips_compress h b1) (replicate 56 0 @ be64 (8 * length msg))"
      using True by (simp add: fips_sha1_def blocks_fips_pad Let_def m_def h_def b1(3))
    ultimately show ?thesis unfolding s
      using p(7) by (simp add: ProcessMessageBlock_fips [where h = "fips_compress h b1"] be64_def)
  next
    case False
    from pad_zeros_spec [of ?p 56] p m False obtain b2 where b2: "pad_zeros 56 ?p = ?p\<lparr>Message_Block := b2, Message_Block_Index := 56\<rparr>"
      "length b2 = 64" "take 56 b2 = rest msg @ 0x80 # replicate (55 - m) 0" by auto
    let ?s = "?p\<lparr>Message_Block := b2, Message_Block_Index := 56\<rparr>"
    have s: "store_length ?s = ?s\<lparr>Message_Block := rest msg @ 0x80 # replicate (55 - m) 0 @ be64 (8 * length msg)\<rparr>"
      using store_length_block [of ?s] b2 p st(5) by simp
    have "PadMessage st = ProcessMessageBlock (store_length ?s)"
      using False st(2) b2(1) by (simp add: PadMessage_def)
    moreover have "fips_sha1 msg = fips_compress h (rest msg @ 0x80 # replicate (55 - m) 0 @ be64 (8 * length msg))"
      using False by (simp add: fips_sha1_def blocks_fips_pad Let_def m_def h_def)
    moreover have "length (rest msg @ 0x80 # replicate (55 - m) 0 @ be64 (8 * length msg)) = 64"
      using False m by (simp add: be64_def)
    ultimately show ?thesis unfolding s
      using p(3,7) by (simp add: ProcessMessageBlock_fips [where h = h])
  qed
qed

lemma SHA1_Result_fips:
  assumes "sha_rep msg st"
  shows "snd (SHA1_Result st) = Some (hash_list (fips_sha1 msg))"
proof -
  obtain a b c d e where h: "fips_sha1 msg = (a, b, c, d, e)" by (cases "fips_sha1 msg")
  have five: "[0..<5] = [0, 1, 2, 3, 4 :: nat]" by (simp add: upt_rec)
  from PadMessage_fips [OF assms] have "sha_H (PadMessage st) = [a, b, c, d, e]" by (simp add: h)
  then show ?thesis
    using assms unfolding SHA1_Result_def five by (simp add: sha_rep_def h Let_def)
qed

text \<open>The digest as a number: its five words, most significant first.\<close>

fun hash_val :: "hash \<Rightarrow> nat" where
  "hash_val (a, b, c, d, e) =
     unat a * 2 ^ 128 + unat b * 2 ^ 96 + unat c * 2 ^ 64 + unat d * 2 ^ 32 + unat e"

lemma unat_u32_less: "unat (w :: u32) < 2 ^ 64"
proof -
  have "(unsigned w :: nat) < 2 ^ LENGTH(32)" by (rule unsigned_less)
  then show ?thesis by simp
qed

lemma digest_rossi_val: "rossi_val (digest_rossi (hash_list h)) = hash_val h \<and> rossi_normal (digest_rossi (hash_list h))"
proof -
  obtain a b c d e where h: "h = (a, b, c, d, e)" by (cases h)
  have idx: "[1..<5] = [1, 2, 3, 4 :: nat]" by (simp add: upt_rec)
  have u: "unat (ucast (w :: u32) :: ulong) = unat w" for w 
    using unat_u32_less [of w] by (simp add: unsigned_ucast_eq take_bit_nat_eq_self_iff)
  show ?thesis unfolding h idx digest_rossi_def by (simp add: u)
qed

lemma SHA1_shl_rep:
  assumes "sha_rep msg st" "8 * (length msg + length bs) < 2 ^ 64" "0 \<notin> set bs"
  shows "sha_rep (msg @ bs) (SHA1_shl bs st)"
proof -
  have "takeWhile (\<lambda>b. b \<noteq> 0) bs = bs" using assms(3) by (auto simp: takeWhile_eq_all_conv)
  moreover have "sha_rep (msg @ bs) (fold (\<lambda>b. SHA1_Input [b]) bs st)"
    using assms(1,2)
  proof (induction bs arbitrary: msg st)
    case (Cons b bs)
    have "sha_rep (msg @ [b]) (SHA1_Input [b] st)" using Cons.prems by (intro SHA1_Input_rep) auto
    from Cons.IH [OF this] Cons.prems(2) show ?case by simp
  qed simp
  ultimately show ?thesis unfolding SHA1_shl_def by (simp only:)
qed

lemma SHA1_Result_rossi_fips:
  assumes "sha_rep msg st"
  shows "\<exists>r. snd (SHA1_Result_rossi st) = Some r \<and> rossi_normal r \<and> rossi_val r = hash_val (fips_sha1 msg)"
  using SHA1_Result_fips [OF assms] digest_rossi_val [of "fips_sha1 msg"]
  by (auto simp: SHA1_Result_rossi_def split: prod.splits)

lemma hash_val_less: "hash_val h < 2 ^ 160"
proof -
  obtain a b c d e where h: "h = (a, b, c, d, e)" by (cases h)
  have u: "unat (w :: u32) \<le> 2 ^ 32 - 1" for w
  proof -
    have "(unsigned w :: nat) < 2 ^ LENGTH(32)" by (rule unsigned_less)
    then show ?thesis by simp
  qed
  show ?thesis using u [of a] u [of b] u [of c] u [of d] u [of e] by (simp add: h)
qed

section \<open>Properties\<close>

definition ex_sha1 :: sha1 where
  "ex_sha1 = \<lparr>sha_H = [], Length_Low = 7, Length_High = 7, Message_Block = replicate 64 9,
     Message_Block_Index = 3, Computed = True, Corrupted = True\<rparr>"

text \<open>
  C4: the object computes SHA-1. After \<open>Reset\<close>, whatever the storage held, giving a message to
  \<open>Input\<close> in pieces of any lengths and asking for \<open>Result\<close> yields the digest that FIPS 180
  defines for the whole message, for every message below \<open>2^61\<close> octets.
\<close>

theorem SHA1_computes_fips:
  assumes "length (Message_Block obj) = 64" "8 * length (concat pieces) < 2 ^ 64"
  shows "snd (SHA1_Result (fold SHA1_Input pieces (SHA1_Reset obj))) = Some (hash_list (fips_sha1 (concat pieces)))"
proof -
  have "sha_rep (msg @ concat pieces) (fold SHA1_Input pieces st)"
    if "sha_rep msg st" "8 * (length msg + length (concat pieces)) < 2 ^ 64" for msg st
    using that
  proof (induction pieces arbitrary: msg st)
    case (Cons bs pieces)
    have "sha_rep (msg @ bs) (SHA1_Input bs st)" using Cons.prems by (intro SHA1_Input_rep) auto
    from Cons.IH [OF this] Cons.prems(2) show ?case by simp
  qed simp
  from this [OF sha_rep_Reset [OF assms(1)]] assms(2) show ?thesis using SHA1_Result_fips by simp
qed

lemma SHA1_computes_fips_witness:
  "snd (SHA1_Result (fold SHA1_Input [[97], [98, 99]] (SHA1_Reset ex_sha1))) =
    Some (hash_list (fips_sha1 (concat [[97], [98, 99]])))"
  by (rule SHA1_computes_fips) (simp_all add: ex_sha1_def)

text \<open>
  The life cycle of the object. A second \<open>Result\<close> gives the same digest without padding
  again; input after a result corrupts the object, and then \<open>Result\<close> fails until \<open>Reset\<close>.
\<close>

theorem SHA1_life_cycle:
  assumes "\<not> Corrupted st" "bs \<noteq> []"
  shows "SHA1_Result (fst (SHA1_Result st)) = (fst (SHA1_Result st), snd (SHA1_Result st)) \<and>
    snd (SHA1_Result (SHA1_Input bs (fst (SHA1_Result st)))) = None"
proof -
  have keep: "Corrupted (ProcessMessageBlock s) = Corrupted s" for s
    by (simp add: ProcessMessageBlock_def Let_def split: prod.splits)
  have zeros: "Corrupted (pad_zeros n s) = Corrupted s" for n s
    by (induction n s rule: pad_zeros.induct) (subst pad_zeros.simps, simp add: push_octet_def)
  have "\<not> Corrupted (PadMessage st)"
    using assms(1) by (simp add: PadMessage_def Let_def keep zeros store_length_def push_octet_def)
  then show ?thesis using assms by (simp add: SHA1_Result_def SHA1_Input_def Let_def)
qed

lemma SHA1_life_cycle_witness:
  "snd (SHA1_Result (SHA1_Input [1] (fst (SHA1_Result (SHA1_Reset ex_sha1))))) = None"
  using SHA1_life_cycle [of "SHA1_Reset ex_sha1" "[1]"] by (simp add: SHA1_Reset_def)

end
