(* ===== verification/KadIdent.thy ===== *)
theory KadIdent
  imports StdMap RossiText Sha1 "HOL-Library.Word"
begin

text \<open>
  \<open>kad::KadID\<close> of \<open>src/kademlia/kadid.cpp\<close>: the node identifier over \<open>BigInt::Rossi\<close>, its
  constructors, order, exclusive-or distance, arithmetic and \<open>SplitRange\<close>. Every constructor
  gives \<open>raw_id\<close> at least one unit and every operation that computes an id leaves it in normal
  form: \<open>kadid_ok\<close>. \<open>kadid_val\<close> is the number an id stands for. The locale \<open>xor_distance\<close> is
  what sorting by distance needs of ids.

  Local variables that the source makes with \<open>KadID ()\<close> and assigns at once are not modelled.
\<close>

unbundle bit_operations_syntax

datatype kadid = KadID (raw_id: rossi)

definition kadid_val :: "kadid \<Rightarrow> nat" where
  "kadid_val k = rossi_val (raw_id k)"

definition kadid_ok :: "kadid \<Rightarrow> bool" where
  "kadid_ok k \<longleftrightarrow> rossi_normal (raw_id k)"

section \<open>Constructors\<close>

text \<open>
  \<open>KadID ()\<close> hashes the decimal text of the clock; \<open>obj\<close> is the storage the local \<open>SHA1\<close>
  object is made in. Its \<open>Result\<close> is ignored, so a failure would leave \<open>raw_id\<close> empty.
\<close>

definition text_octets :: "string \<Rightarrow> octet list" where
  "text_octets s = map (\<lambda>c. of_nat (of_char c)) s"

definition kadid_default :: "sha1 \<Rightarrow> nat \<Rightarrow> kadid" where
  "kadid_default obj tmp_time =
     (case snd (SHA1_Result_rossi (SHA1_shl (text_octets (show_nat 10 tmp_time)) (SHA1_Reset (SHA1_Reset obj)))) of
        Some r \<Rightarrow> KadID r | None \<Rightarrow> KadID rossi_empty)"

definition kadid_of_string :: "string \<Rightarrow> kadid res" where
  "kadid_of_string raw = bind_res (rossi_of_string raw 8) (\<lambda>r. Inr (KadID r))"

definition kadid_of_rossi :: "rossi \<Rightarrow> kadid" where
  "kadid_of_rossi raw = KadID raw"

text \<open>
  The copy constructor compares its own still empty \<open>raw_id\<close> with the other one first.
\<close>

definition kadid_copy :: "kadid \<Rightarrow> kadid res" where
  "kadid_copy other =
     (if m_units (raw_id other) = [] then Inl Undefined
      else if rossi_ne rossi_empty (raw_id other) then Inr (KadID (raw_id other))
      else Inr (KadID rossi_empty))"

definition kadid_mid :: "(nat \<Rightarrow> ulong) \<Rightarrow> kadid \<Rightarrow> kadid \<Rightarrow> kadid res" where
  "kadid_mid past kmin kmax =
     bind_res (rossi_shr past (rossi_plus (raw_id kmin) (raw_id kmax)) 1) (\<lambda>r. Inr (KadID r))"

definition KMaxID :: "kadid res" where
  "KMaxID = bind_res (rossi_of_string (replicate 160 (CHR ''1'')) 10) (\<lambda>r. Inr (kadid_of_rossi r))"

definition KMinID :: kadid where
  "KMinID = kadid_of_rossi (rossi_of_ulong 0)"

section \<open>Comparison\<close>

definition kadid_lt :: "kadid \<Rightarrow> kadid \<Rightarrow> bool" where "kadid_lt ls rs = rossi_lt (raw_id ls) (raw_id rs)"
definition kadid_gt :: "kadid \<Rightarrow> kadid \<Rightarrow> bool" where "kadid_gt ls rs = rossi_gt (raw_id ls) (raw_id rs)"
definition kadid_le :: "kadid \<Rightarrow> kadid \<Rightarrow> bool" where "kadid_le ls rs = (\<not> kadid_gt ls rs)"
definition kadid_ge :: "kadid \<Rightarrow> kadid \<Rightarrow> bool" where "kadid_ge ls rs = (\<not> kadid_lt ls rs)"
definition kadid_eq :: "kadid \<Rightarrow> kadid \<Rightarrow> bool" where "kadid_eq ls rs = rossi_eq (raw_id ls) (raw_id rs)"
definition kadid_ne :: "kadid \<Rightarrow> kadid \<Rightarrow> bool" where "kadid_ne ls rs = rossi_ne (raw_id ls) (raw_id rs)"

instantiation kadid :: linorder
begin

definition less_kadid :: "kadid \<Rightarrow> kadid \<Rightarrow> bool" where
  "less_kadid = kadid_lt"

definition less_eq_kadid :: "kadid \<Rightarrow> kadid \<Rightarrow> bool" where
  "less_eq_kadid = kadid_le"

lemma kadid_order_raw:
  "(a :: kadid) < b \<longleftrightarrow> raw_id a < raw_id b" "(a :: kadid) \<le> b \<longleftrightarrow> raw_id a \<le> raw_id b"
  unfolding less_kadid_def less_eq_kadid_def kadid_lt_def kadid_le_def kadid_gt_def rossi_gt_def
    less_rossi_def less_eq_rossi_def by simp_all

instance
proof
  fix x y z :: kadid
  show "x < y \<longleftrightarrow> x \<le> y \<and> \<not> y \<le> x" "x \<le> x" "x \<le> y \<or> y \<le> x"
    by (auto simp: kadid_order_raw)
  show "x \<le> y \<Longrightarrow> y \<le> z \<Longrightarrow> x \<le> z" by (simp add: kadid_order_raw)
  show "x \<le> y \<Longrightarrow> y \<le> x \<Longrightarrow> x = y" by (simp add: kadid_order_raw kadid.expand)
qed

end

text \<open>The six operators are the order of the class, and the order of the numbers on normal ids.\<close>

lemma kadid_ops_order [simp]:
  "kadid_lt a b \<longleftrightarrow> a < b" "kadid_gt a b \<longleftrightarrow> b < a" "kadid_le a b \<longleftrightarrow> a \<le> b"
  "kadid_ge a b \<longleftrightarrow> b \<le> a" "kadid_eq a b \<longleftrightarrow> a = b" "kadid_ne a b \<longleftrightarrow> a \<noteq> b"
proof -
  show lt: "kadid_lt a b \<longleftrightarrow> a < b" by (simp add: less_kadid_def)
  show le: "kadid_le a b \<longleftrightarrow> a \<le> b" by (simp add: less_eq_kadid_def)
  show "kadid_gt a b \<longleftrightarrow> b < a" using le by (auto simp: kadid_le_def)
  show "kadid_ge a b \<longleftrightarrow> b \<le> a" using lt by (auto simp: kadid_ge_def)
  show "kadid_eq a b \<longleftrightarrow> a = b" "kadid_ne a b \<longleftrightarrow> a \<noteq> b"
    by (cases a; cases b; simp add: kadid_eq_def kadid_ne_def rossi_ne_def)+
qed

lemma kadid_val_order:
  assumes "kadid_ok a" "kadid_ok b"
  shows "a < b \<longleftrightarrow> kadid_val a < kadid_val b" "a \<le> b \<longleftrightarrow> kadid_val a \<le> kadid_val b"
    "a = b \<longleftrightarrow> kadid_val a = kadid_val b"
proof -
  have "rossi_normal (raw_id a)" "rossi_normal (raw_id b)" using assms by (simp_all add: kadid_ok_def)
  note iffs = rossi_order_iffs [OF this]
  show "a < b \<longleftrightarrow> kadid_val a < kadid_val b" "a \<le> b \<longleftrightarrow> kadid_val a \<le> kadid_val b"
    using iffs by (simp_all add: kadid_order_raw kadid_val_def)
  show "a = b \<longleftrightarrow> kadid_val a = kadid_val b"
    using iffs(3) by (cases a; cases b) (simp add: kadid_val_def)
qed

section \<open>Distance and arithmetic\<close>

text \<open>
  \<open>operator^\<close> in both forms. The assertion of \<open>Rossi::operator^\<close> fails only on two empty
  operands, which ids never are.
\<close>

definition kadid_xor :: "kadid \<Rightarrow> kadid \<Rightarrow> kadid" where
  "kadid_xor ls rs =
     (case rossi_xor (raw_id ls) (raw_id rs) of Inr r \<Rightarrow> KadID r | Inl e \<Rightarrow> KadID rossi_empty)"

definition CloserToTarget :: "kadid \<Rightarrow> kadid \<Rightarrow> kadid \<Rightarrow> bool" where
  "CloserToTarget id1 id2 target = kadid_lt (kadid_xor id1 target) (kadid_xor id2 target)"

definition kadid_plus :: "kadid \<Rightarrow> kadid \<Rightarrow> kadid" where
  "kadid_plus this other = KadID (rossi_plus (raw_id this) (raw_id other))"

definition kadid_minus :: "kadid \<Rightarrow> kadid \<Rightarrow> kadid res" where
  "kadid_minus this rs = bind_res (rossi_minus (raw_id this) (raw_id rs)) (\<lambda>r. Inr (KadID r))"

definition kadid_shr :: "(nat \<Rightarrow> ulong) \<Rightarrow> kadid \<Rightarrow> nat \<Rightarrow> kadid res" where
  "kadid_shr past this shift = bind_res (rossi_shr past (raw_id this) shift) (\<lambda>r. Inr (KadID r))"

text \<open>
  \<open>SplitRange\<close>: the two results are \<open>*min1\<close> and \<open>*max1\<close>. Its two right shifts each read one
  unit past the end of the vector they shift.
\<close>

definition SplitRange :: "ulong \<times> ulong \<Rightarrow> kadid \<Rightarrow> kadid \<Rightarrow> (kadid \<times> kadid) res" where
  "SplitRange past kmin kmax =
     bind_res (kadid_shr (\<lambda>_. fst past) kmin 1) (\<lambda>a.
     bind_res (kadid_shr (\<lambda>_. snd past) kmax 1) (\<lambda>b.
       let max1 = kadid_plus a b;
           min1 = kadid_plus max1 (kadid_of_rossi (rossi_of_ulong 1))
       in Inr (min1, max1)))"

lemma kadid_xor_val:
  assumes "kadid_ok a" "kadid_ok b"
  shows "kadid_ok (kadid_xor a b)" "kadid_val (kadid_xor a b) = kadid_val a XOR kadid_val b"
proof -
  have "m_units (raw_id a) \<noteq> []" using assms(1) by (simp add: kadid_ok_def rossi_normal_nonempty)
  with rossi_xor_val [of "raw_id a" "raw_id b"] show
    "kadid_ok (kadid_xor a b)" "kadid_val (kadid_xor a b) = kadid_val a XOR kadid_val b"
    by (auto simp: kadid_xor_def kadid_ok_def kadid_val_def)
qed

lemma kadid_plus_val [simp]:
  "kadid_ok (kadid_plus a b)" "kadid_val (kadid_plus a b) = kadid_val a + kadid_val b"
  by (simp_all add: kadid_plus_def kadid_ok_def kadid_val_def)

lemma kadid_of_ulong_val [simp]:
  "kadid_ok (kadid_of_rossi (rossi_of_ulong u))" "kadid_val (kadid_of_rossi (rossi_of_ulong u)) = unat u"
  by (simp_all add: kadid_of_rossi_def kadid_ok_def kadid_val_def)

lemma kadid_shr_1:
  assumes "kadid_ok a" "even (unat p)"
  shows "\<exists>z. kadid_shr (\<lambda>_. p) a 1 = Inr z \<and> kadid_ok z \<and> kadid_val z = kadid_val a div 2"
proof -
  have "m_units (raw_id a) \<noteq> []" using assms(1) by (simp add: kadid_ok_def rossi_normal_nonempty)
  from rossi_shr_val [OF this, of 1 "\<lambda>_. p"] assms(2) show ?thesis
    by (auto simp: kadid_shr_def kadid_ok_def kadid_val_def)
qed

text \<open>When the units past the end are even, \<open>SplitRange\<close> halves the range.\<close>

lemma SplitRange_val:
  assumes "kadid_ok kmin" "kadid_ok kmax" "even (unat (fst past))" "even (unat (snd past))"
  shows "\<exists>min1 max1. SplitRange past kmin kmax = Inr (min1, max1) \<and> kadid_ok min1 \<and> kadid_ok max1 \<and>
    kadid_val max1 = kadid_val kmin div 2 + kadid_val kmax div 2 \<and>
    kadid_val min1 = kadid_val max1 + 1"
proof -
  from kadid_shr_1 [OF assms(1,3)] kadid_shr_1 [OF assms(2,4)] obtain a b where
    a: "kadid_shr (\<lambda>_. fst past) kmin 1 = Inr a" "kadid_val a = kadid_val kmin div 2" and
    b: "kadid_shr (\<lambda>_. snd past) kmax 1 = Inr b" "kadid_val b = kadid_val kmax div 2" by blast
  then show ?thesis by (simp add: SplitRange_def Let_def)
qed

text \<open>What the shift of an id takes in from the unit behind its vector.\<close>

definition stray_bit :: "ulong \<Rightarrow> kadid \<Rightarrow> nat" where
  "stray_bit past k = (if odd (unat past) then ulong_base ^ length (m_units (raw_id k)) else 0)"

lemma kadid_shr_stray:
  assumes "kadid_ok a"
  shows "\<exists>z. kadid_shr (\<lambda>_. p) a 1 = Inr z \<and> kadid_val z = (kadid_val a + stray_bit p a) div 2"
proof (cases "odd (unat p)")
  case True
  have "m_units (raw_id a) \<noteq> []" using assms by (simp add: kadid_ok_def rossi_normal_nonempty)
  from rossi_shr_garbage [OF this, of "\<lambda>_. p"] True show ?thesis
    by (auto simp: kadid_shr_def kadid_val_def stray_bit_def)
next
  case False
  then show ?thesis using kadid_shr_1 [OF assms, of p] by (auto simp: stray_bit_def)
qed

lemma SplitRange_stray:
  assumes "kadid_ok kmin" "kadid_ok kmax"
  shows "\<exists>min1 max1. SplitRange past kmin kmax = Inr (min1, max1) \<and> kadid_ok min1 \<and> kadid_ok max1 \<and>
    kadid_val max1 = (kadid_val kmin + stray_bit (fst past) kmin) div 2 + (kadid_val kmax + stray_bit (snd past) kmax) div 2 \<and>
    kadid_val min1 = kadid_val max1 + 1"
proof -
  from kadid_shr_stray [OF assms(1), of "fst past"] kadid_shr_stray [OF assms(2), of "snd past"] obtain a b where
    "kadid_shr (\<lambda>_. fst past) kmin 1 = Inr a" "kadid_val a = (kadid_val kmin + stray_bit (fst past) kmin) div 2"
    "kadid_shr (\<lambda>_. snd past) kmax 1 = Inr b" "kadid_val b = (kadid_val kmax + stray_bit (snd past) kmax) div 2" by blast
  then show ?thesis by (simp add: SplitRange_def Let_def)
qed

lemma kadid_of_string_aborts: "kadid_of_string s = Inl Assertion"
  by (simp add: kadid_of_string_def rossi_of_string_def digits_checked_def)

section \<open>The ids the code makes up\<close>

lemma text_octets_digits: "\<forall>c\<in>set s. isdigit c \<Longrightarrow> 0 \<notin> set (text_octets s)"
proof -
  have "\<forall>c\<in>set ''0123456789''. (of_nat (of_char c) :: octet) \<noteq> 0" by simp
  then show "\<forall>c\<in>set s. isdigit c \<Longrightarrow> 0 \<notin> set (text_octets s)"
    unfolding isdigit_def text_octets_def by (metis (no_types, lifting) image_iff list.set_map)
qed

text \<open>\<open>KadID ()\<close> is the SHA-1 of the decimal text of the time, whatever storage it is made in.\<close>

lemma kadid_default_sha1:
  assumes "length (Message_Block obj) = 64" "now < 10 ^ 20"
  shows "kadid_ok (kadid_default obj now)"
    "kadid_val (kadid_default obj now) = hash_val (fips_sha1 (text_octets (show_nat 10 now)))"
proof -
  let ?msg = "text_octets (show_nat 10 now)"
  have "now < 10 ^ Suc 19" using assms(2) by simp
  from dec9.show_length [OF this] have len: "length ?msg \<le> 20" by (simp add: text_octets_def)
  have "0 \<notin> set ?msg"
    using dec9.show_digits [of _ now] isdigit_digit_char by (intro text_octets_digits) blast
  moreover have "sha_rep [] (SHA1_Reset (SHA1_Reset obj))"
    using assms(1) by (intro sha_rep_Reset) (simp add: SHA1_Reset_def)
  ultimately have "sha_rep ([] @ ?msg) (SHA1_shl ?msg (SHA1_Reset (SHA1_Reset obj)))"
    using len by (intro SHA1_shl_rep) auto
  then obtain r where "snd (SHA1_Result_rossi (SHA1_shl ?msg (SHA1_Reset (SHA1_Reset obj)))) = Some r"
      "rossi_normal r" "rossi_val r = hash_val (fips_sha1 ?msg)"
    using SHA1_Result_rossi_fips by force
  then show "kadid_ok (kadid_default obj now)"
    "kadid_val (kadid_default obj now) = hash_val (fips_sha1 ?msg)"
    by (simp_all add: kadid_default_def kadid_ok_def kadid_val_def)
qed

text \<open>\<open>KMaxID\<close> reads 160 digits \<open>1\<close> in base 10: a number of 529 bits, not \<open>2^160 - 1\<close>.\<close>

lemma parse_ones: "9 * parse_nat 10 (replicate n (CHR ''1'')) + 1 = 10 ^ n"
proof (induction n)
  case (Suc n)
  have "replicate (Suc n) (CHR ''1'') = replicate n (CHR ''1'') @ [CHR ''1'']"
    by (simp add: replicate_append_same)
  then have "parse_nat 10 (replicate (Suc n) (CHR ''1'')) = parse_nat 10 (replicate n (CHR ''1'')) * 10 + 1"
    by (simp add: ms_hex2dec_def s_hex2dec_def)
  with Suc show ?case by simp
qed simp

lemma KMaxID_val:
  "\<exists>z. KMaxID = Inr z \<and> kadid_ok z \<and> 9 * kadid_val z + 1 = 10 ^ 160"
proof -
  have "isdigit (CHR ''1'')" by (simp add: isdigit_def)
  then have "digits_checked 10 (replicate 160 (CHR ''1''))" by (simp add: digits_checked_def list_all_iff)
  from rossi_of_string_Inr [OF this] obtain r where
    "rossi_of_string (replicate 160 (CHR ''1'')) 10 = Inr r" "rossi_normal r"
    "rossi_val r = parse_nat 10 (replicate 160 (CHR ''1''))" by blast
  moreover have "9 * parse_nat 10 (replicate 160 (CHR ''1'')) + 1 = 10 ^ 160" by (rule parse_ones)
  ultimately show ?thesis
    by (intro exI [of _ "KadID r"]) (simp only: KMaxID_def kadid_of_rossi_def bind_res_simps kadid_ok_def
        kadid_val_def kadid.sel simp_thms)
qed

section \<open>The space of ids\<close>

text \<open>
  What the routing table needs of the distance: for a fixed key it tells valid ids apart. Ids
  ordered by distance are then ordered strictly, and none is lost when a map is keyed by it.
\<close>

locale xor_distance =
  fixes valid :: "'i \<Rightarrow> bool" and dist :: "'i \<Rightarrow> 'i \<Rightarrow> 'd::linorder"
  assumes dist_cancel: "valid a \<Longrightarrow> valid b \<Longrightarrow> valid k \<Longrightarrow> dist a k = dist b k \<Longrightarrow> a = b"
begin

definition by_distance :: "('c \<Rightarrow> 'i) \<Rightarrow> 'i \<Rightarrow> 'c list \<Rightarrow> ('d, 'c) std_map" where
  "by_distance ident k cs = map_of_pairs (map (\<lambda>c. (dist (ident c) k, c)) cs)"

lemma distinct_dist:
  assumes "valid k" "\<forall>c\<in>set cs. valid (ident c)" "distinct (map ident cs)"
  shows "distinct (map (\<lambda>c. dist (ident c) k) cs)"
  using assms by (induction cs) (auto dest: dist_cancel)

lemma by_distance_keeps:
  assumes "valid k" "\<forall>c\<in>set cs. valid (ident c)" "distinct (map ident cs)"
  shows "set (map snd (by_distance ident k cs)) = set cs"
    "length (by_distance ident k cs) = length cs"
proof -
  have "distinct (map fst (map (\<lambda>c. (dist (ident c) k, c)) cs))"
    using distinct_dist [OF assms] by (simp add: comp_def)
  note keep = map_of_pairs_distinct [OF this]
  then show "set (map snd (by_distance ident k cs)) = set cs"
    by (auto simp: by_distance_def image_image)
  show "length (by_distance ident k cs) = length cs" using keep by (simp add: by_distance_def)
qed

lemma by_distance_sorted:
  "sorted_wrt (<) (map (\<lambda>c. dist (ident c) k) (map snd (by_distance ident k cs)))"
proof -
  have fst: "\<forall>p\<in>set (by_distance ident k cs). fst p = dist (ident (snd p)) k"
    using set_map_of_pairs_subset [of "map (\<lambda>c. (dist (ident c) k, c)) cs"]
    by (auto simp: by_distance_def)
  have "sorted_wrt (<) (map fst (by_distance ident k cs))"
    using map_ok_pairs by (auto simp: by_distance_def map_ok_def)
  moreover have "map fst (by_distance ident k cs) = map (\<lambda>c. dist (ident c) k) (map snd (by_distance ident k cs))"
    using fst by simp
  ultimately show ?thesis by simp
qed

lemma by_distance_subset: "set (map snd (by_distance ident k cs)) \<subseteq> set cs"
  using set_map_of_pairs_subset [of "map (\<lambda>c. (dist (ident c) k, c)) cs"]
  by (auto simp: by_distance_def)

end

interpretation kadx: xor_distance kadid_ok kadid_xor
proof
  fix a b k assume ok: "kadid_ok a" "kadid_ok b" "kadid_ok k" and eq: "kadid_xor a k = kadid_xor b k"
  from eq have "kadid_val a XOR kadid_val k = kadid_val b XOR kadid_val k"
    using kadid_xor_val(2) [OF ok(1,3)] kadid_xor_val(2) [OF ok(2,3)] by simp
  then have "(kadid_val a XOR kadid_val k) XOR kadid_val k = (kadid_val b XOR kadid_val k) XOR kadid_val k"
    by simp
  then have "kadid_val a = kadid_val b" by (simp add: xor.assoc)
  then show "a = b" using kadid_val_order(3) [OF ok(1,2)] by simp
qed

section \<open>Properties\<close>

text \<open>
  C34: \<open>CloserToTarget\<close> compares exclusive-or distances. On valid ids it is the order of the
  distances as numbers, and for a fixed target two different ids are never equally close.
\<close>

theorem CloserToTarget_xor_metric:
  assumes "kadid_ok a" "kadid_ok b" "kadid_ok t"
  shows "(CloserToTarget a b t \<longleftrightarrow> (kadid_val a XOR kadid_val t) < (kadid_val b XOR kadid_val t)) \<and>
    (a = b \<or> CloserToTarget a b t \<or> CloserToTarget b a t) \<and> \<not> (CloserToTarget a b t \<and> CloserToTarget b a t)"
  using kadid_xor_val [OF assms(1,3)] kadid_xor_val [OF assms(2,3)] kadx.dist_cancel [OF assms]
    kadid_val_order(1) [of "kadid_xor a t" "kadid_xor b t"]
  by (auto simp: CloserToTarget_def)

lemma CloserToTarget_xor_metric_witness:
  "CloserToTarget (KadID (Rossi [5])) (KadID (Rossi [1])) (KadID (Rossi [6]))"
  using CloserToTarget_xor_metric [of "KadID (Rossi [5])" "KadID (Rossi [1])" "KadID (Rossi [6])"]
  by (simp add: kadid_ok_def rossi_normal_def normal_units_def kadid_val_def rossi_val_def)

text \<open>
  C35: \<open>SplitRange\<close> cuts a range in the middle. \<open>*max1\<close> is the sum of the halves of the two bounds and
  \<open>*min1\<close> its successor, where a bound counts with one more bit, above its highest unit, when the unit
  that \<open>operator>>\<close> reads behind its vector is odd. When both of these units are even and the bounds
  are two apart or more, the two ranges meet without overlap and lie inside the range, the lengths of the parts
  differ by at most two, and \<open>*max1\<close> is the documented \<open>(min + max) / 2\<close>, or one less when both
  bounds are odd.
\<close>

theorem SplitRange_bisects:
  assumes "kadid_ok lo" "kadid_ok hi"
  shows "\<exists>min1 max1. SplitRange past lo hi = Inr (min1, max1) \<and> kadid_ok min1 \<and> kadid_ok max1 \<and>
    kadid_val min1 = kadid_val max1 + 1 \<and>
    kadid_val max1 = (kadid_val lo + stray_bit (fst past) lo) div 2 + (kadid_val hi + stray_bit (snd past) hi) div 2 \<and>
    (even (unat (fst past)) \<and> even (unat (snd past)) \<and> kadid_val lo + 2 \<le> kadid_val hi \<longrightarrow>
      kadid_val lo \<le> kadid_val max1 \<and> kadid_val min1 \<le> kadid_val hi \<and>
      \<bar>(int (kadid_val max1) - int (kadid_val lo)) - (int (kadid_val hi) - int (kadid_val min1))\<bar> \<le> 2 \<and>
      kadid_val max1 + (if odd (kadid_val lo) \<and> odd (kadid_val hi) then 1 else 0) = (kadid_val lo + kadid_val hi) div 2)"
proof -
  let ?l = "kadid_val lo" and ?h = "kadid_val hi"
  obtain min1 max1 where s: "SplitRange past lo hi = Inr (min1, max1)" "kadid_ok min1" "kadid_ok max1"
    "kadid_val max1 = (?l + stray_bit (fst past) lo) div 2 + (?h + stray_bit (snd past) hi) div 2"
    "kadid_val min1 = kadid_val max1 + 1"
    using SplitRange_stray [OF assms, of past] by blast
  have "?l \<le> ?l div 2 + ?h div 2 \<and> ?l div 2 + ?h div 2 + 1 \<le> ?h \<and>
      \<bar>(int (?l div 2 + ?h div 2) - int ?l) - (int ?h - int (?l div 2 + ?h div 2 + 1))\<bar> \<le> 2"
    if "?l + 2 \<le> ?h"
  proof -
    have "2 * (?l div 2) \<le> ?l" "?l \<le> 2 * (?l div 2) + 1" "2 * (?h div 2) \<le> ?h" "?h \<le> 2 * (?h div 2) + 1" by simp_all
    with that show ?thesis by linarith
  qed
  moreover have "m div 2 + n div 2 + (if odd m \<and> odd n then 1 else 0) = (m + n) div 2" for m n :: nat
    by (simp add: div_add1_eq [of m n 2] odd_iff_mod_2_eq_one even_iff_mod_2_eq_zero)
  ultimately show ?thesis using s by (intro exI [of _ min1] exI [of _ max1]) (simp add: stray_bit_def)
qed

lemma SplitRange_bisects_witness:
  "\<exists>min1 max1. SplitRange (0, 0) (kadid_of_rossi (rossi_of_ulong 0)) (kadid_of_rossi (rossi_of_ulong 1000)) = Inr (min1, max1) \<and>
    kadid_val min1 = kadid_val max1 + 1 \<and> kadid_val max1 = 500"
  using SplitRange_bisects [of "kadid_of_rossi (rossi_of_ulong 0)" "kadid_of_rossi (rossi_of_ulong 1000)" "(0, 0)"]
  by (auto simp: stray_bit_def)

text \<open>
  The ids the code makes up. \<open>KadID ()\<close> is the SHA-1 of the decimal text of the time, a valid id
  below \<open>2^160\<close>, whatever the storage of the hash object held; \<open>KMaxID\<close>, meant as the largest
  id, is a ninth of \<open>10^160 - 1\<close> and so far above every hash; and \<open>KadID (std::string)\<close>
  always aborts, because it asks for base 8.
\<close>

theorem kadid_constructors:
  assumes "length (Message_Block obj) = 64" "now < 10 ^ 20"
  shows "kadid_ok (kadid_default obj now) \<and> kadid_val (kadid_default obj now) < 2 ^ 160 \<and>
    kadid_val (kadid_default obj now) = hash_val (fips_sha1 (text_octets (show_nat 10 now))) \<and>
    (\<exists>m. KMaxID = Inr m \<and> kadid_ok m \<and> 9 * kadid_val m + 1 = 10 ^ 160 \<and> kadid_default obj now < m) \<and>
    kadid_of_string s = Inl Assertion"
proof -
  note d = kadid_default_sha1 [OF assms]
  obtain m where m: "KMaxID = Inr m" "kadid_ok m" "9 * kadid_val m + 1 = 10 ^ 160" using KMaxID_val by blast
  have small: "kadid_val (kadid_default obj now) < 2 ^ 160" using d(2) hash_val_less by simp
  have "(9 :: nat) * 2 ^ 160 + 1 < 10 ^ 160" by simp
  then have "2 ^ 160 < kadid_val m" using m(3) by linarith
  with small have "kadid_default obj now < m" using d(1) m(2) by (simp add: kadid_val_order)
  with d small m kadid_of_string_aborts show ?thesis by blast
qed

lemma kadid_constructors_witness:
  "kadid_val (kadid_default ex_sha1 1290930738) < 2 ^ 160"
proof -
  have "length (Message_Block ex_sha1) = 64" "(1290930738 :: nat) < 10 ^ 20" by (simp_all add: ex_sha1_def)
  from kadid_constructors [OF this] show ?thesis by blast
qed

end
