(* ===== verification/ContactInfo.thy ===== *)
theory ContactInfo
  imports KadIdent "HOL-Library.Word"
begin

text \<open>
  \<open>kad::Contact\<close> of \<open>src/kademlia/contact.cpp\<close>: the record a routing table holds of a node,
  its constructors and its conversions from and to the Thrift structure \<open>ContactInfo\<close>. No
  constructor sets \<open>last_seen_\<close>: its first value is an argument (\<open>junk\<close>). \<open>last_seen_\<close> is an
  \<open>int64_t\<close> that is only stored and compared, so it is an \<open>int\<close> here.
\<close>

type_synonym u16 = "16 word"

record contact =
  ct_node_id :: kadid
  ct_host_ip :: string
  ct_host_port :: u16
  ct_rendezvous_ip :: string
  ct_rendezvous_port :: u16
  ct_local_ip :: string
  ct_local_port :: u16
  ct_last_seen :: int

text \<open>\<open>ContactInfo\<close> of \<open>thrift/contact_info.thrift\<close>: ports are \<open>i32\<close> there.\<close>

record contact_info =
  ci_node_id :: string
  ci_ip :: string
  ci_port :: "32 word"
  ci_local_ip :: string
  ci_local_port :: "32 word"
  ci_rendezvous_ip :: string
  ci_rendezvous_port :: "32 word"
  ci_isset :: "nat set"

text \<open>\<open>__isset\<close> is the set of the ids of the fields whose flag is set.\<close>

definition ContactInfo_new :: contact_info where
  "ContactInfo_new = \<lparr>ci_node_id = [], ci_ip = [], ci_port = 0, ci_local_ip = [], ci_local_port = 0,
     ci_rendezvous_ip = [], ci_rendezvous_port = 0, ci_isset = {}\<rparr>"

section \<open>Constructors\<close>

definition Contact_full :: "int \<Rightarrow> kadid \<Rightarrow> string \<Rightarrow> u16 \<Rightarrow> string \<Rightarrow> u16 \<Rightarrow> string \<Rightarrow> u16 \<Rightarrow> contact" where
  "Contact_full junk node_id host_ip host_port local_ip local_port rendezvous_ip rendezvous_port =
     \<lparr>ct_node_id = node_id, ct_host_ip = host_ip, ct_host_port = host_port,
      ct_rendezvous_ip = rendezvous_ip, ct_rendezvous_port = rendezvous_port,
      ct_local_ip = local_ip, ct_local_port = local_port, ct_last_seen = junk\<rparr>"

definition Contact_default :: "int \<Rightarrow> contact" where
  "Contact_default junk = Contact_full junk (kadid_of_rossi (rossi_of_ulong 0)) [] 0 [] 0 [] 0"

definition Contact_host :: "int \<Rightarrow> kadid \<Rightarrow> string \<Rightarrow> u16 \<Rightarrow> contact" where
  "Contact_host junk node_id host_ip host_port = Contact_full junk node_id host_ip host_port [] 0 [] 0"

definition Contact_local :: "int \<Rightarrow> kadid \<Rightarrow> string \<Rightarrow> u16 \<Rightarrow> string \<Rightarrow> u16 \<Rightarrow> contact" where
  "Contact_local junk node_id host_ip host_port local_ip local_port =
     Contact_full junk node_id host_ip host_port local_ip local_port [] 0"

text \<open>The overloads on a \<open>BigInt::Rossi\<close> convert it with \<open>KadID (Rossi)\<close>.\<close>

definition Contact_full_rossi :: "int \<Rightarrow> rossi \<Rightarrow> string \<Rightarrow> u16 \<Rightarrow> string \<Rightarrow> u16 \<Rightarrow> string \<Rightarrow> u16 \<Rightarrow> contact" where
  "Contact_full_rossi junk node_id = Contact_full junk (kadid_of_rossi node_id)"

definition Contact_of_info :: "int \<Rightarrow> contact_info \<Rightarrow> contact res" where
  "Contact_of_info junk info =
     bind_res (kadid_of_string (ci_node_id info)) (\<lambda>node_id.
       Inr (Contact_full junk node_id (ci_ip info) (ucast (ci_port info)) (ci_local_ip info)
              (ucast (ci_local_port info)) (ci_rendezvous_ip info) (ucast (ci_rendezvous_port info))))"

section \<open>Operations\<close>

definition contact_Equals :: "contact \<Rightarrow> contact \<Rightarrow> bool" where
  "contact_Equals x y = kadid_eq (ct_node_id x) (ct_node_id y)"

definition endl :: string where "endl = [CHR 0x0A]"

definition DebugString :: "contact \<Rightarrow> string res" where
  "DebugString c =
     bind_res (rossi_toStrDec (raw_id (ct_node_id c)) []) (\<lambda>ident. Inr (
       ''Serialise id   :'' @ ident @ endl @
       ''host_ip        :'' @ ct_host_ip c @ endl @
       ''host port      :'' @ show_nat 10 (unat (ct_host_port c)) @ endl @
       ''local ip       :'' @ ct_local_ip c @ endl @
       ''local port     :'' @ show_nat 10 (unat (ct_local_port c)) @ endl @
       ''rendezvous ip  :'' @ ct_rendezvous_ip c @ endl @
       ''rendezvous port:'' @ show_nat 10 (unat (ct_rendezvous_port c)) @ endl))"

definition ParseFromThrift :: "contact_info \<Rightarrow> contact \<Rightarrow> (contact \<times> bool) res" where
  "ParseFromThrift data c =
     (if ci_node_id data = [] then Inr (c, False)
      else bind_res (kadid_of_string (ci_node_id data)) (\<lambda>node_id.
        Inr (c\<lparr>ct_node_id := node_id, ct_host_ip := ci_ip data, ct_host_port := ucast (ci_port data),
              ct_rendezvous_ip := ci_rendezvous_ip data, ct_rendezvous_port := ucast (ci_rendezvous_port data),
              ct_local_ip := ci_local_ip data, ct_local_port := ucast (ci_local_port data)\<rparr>, True)))"

text \<open>
  \<open>ParseToThrift\<close> compares with \<open>KadID (0)\<close>. The constructors of \<open>Rossi\<close> are explicit, so the
  \<open>0\<close> is a null pointer for \<open>KadID (std::string)\<close>, and making the string throws.
\<close>

definition string_of_null :: "string res" where
  "string_of_null = Inl LogicError"

definition ParseToThrift :: "contact \<Rightarrow> contact_info res" where
  "ParseToThrift c =
     bind_res (bind_res string_of_null kadid_of_string) (\<lambda>zero.
       if kadid_ne (ct_node_id c) zero
       then bind_res (rossi_toStrDec (raw_id (ct_node_id c)) []) (\<lambda>ident. Inr
              (ContactInfo_new\<lparr>ci_node_id := ident, ci_ip := ct_host_ip c, ci_port := ucast (ct_host_port c),
               ci_rendezvous_ip := ct_rendezvous_ip c, ci_rendezvous_port := ucast (ct_rendezvous_port c),
               ci_local_ip := ct_local_ip c, ci_local_port := ucast (ct_local_port c)\<rparr>))
       else Inl Undefined)"

lemma contact_Equals_iff [simp]: "contact_Equals x y \<longleftrightarrow> ct_node_id x = ct_node_id y"
  by (simp add: contact_Equals_def)

lemma Contact_of_info_aborts: "Contact_of_info junk info = Inl Assertion"
  by (simp add: Contact_of_info_def kadid_of_string_aborts)

end
