(* ===== verification/KBucket.thy ===== *)
theory KBucket
  imports ContactInfo "HOL-Library.Word"
begin

text \<open>
  \<open>kad::KBucket\<close> of \<open>src/kademlia/kbucket.cpp\<close>: at most \<open>K_\<close> contacts, the one added last in
  front, with the range of ids the bucket covers. Each member function is a definition, its
  loops as recursive functions; \<open>kb_ok\<close> is the class invariant (different ids, at most \<open>K_\<close>
  contacts). The locale \<open>contact_bucket\<close> is what the routing table needs of a bucket.
\<close>

datatype KBucketExitCode = SUCCEED | FULL | FAIL

record kbucket =
  kb_last_accessed :: u32
  kb_contacts :: "contact list"
  kb_range_min :: kadid
  kb_range_max :: kadid
  kb_K :: u16

definition KBucket_new :: "kadid \<Rightarrow> kadid \<Rightarrow> u16 \<Rightarrow> kbucket" where
  "KBucket_new kmin kmax K =
     \<lparr>kb_last_accessed = 0, kb_contacts = [], kb_range_min = kmin, kb_range_max = kmax, kb_K = K\<rparr>"

definition KeyInRange :: "kbucket \<Rightarrow> kadid \<Rightarrow> bool" where
  "KeyInRange kb key \<longleftrightarrow> kadid_le (kb_range_min kb) key \<and> kadid_le key (kb_range_max kb)"

definition kb_Size :: "kbucket \<Rightarrow> nat" where
  "kb_Size kb = length (kb_contacts kb)"

definition set_last_accessed :: "u32 \<Rightarrow> kbucket \<Rightarrow> kbucket" where
  "set_last_accessed time_accessed kb = kb\<lparr>kb_last_accessed := time_accessed\<rparr>"

section \<open>Adding and removing\<close>

text \<open>\<open>erase\<close> at a position of a list.\<close>

definition list_erase :: "nat \<Rightarrow> 'a list \<Rightarrow> 'a list" where
  "list_erase n xs = take n xs @ drop (Suc n) xs"

text \<open>The loop of \<open>AddContact\<close>: it stops at the first contact with the same id.\<close>

fun first_position :: "contact \<Rightarrow> contact list \<Rightarrow> int \<Rightarrow> int \<Rightarrow> int" where
  "first_position c [] position i = position"
| "first_position c (x # xs) position i =
     (if position = - 1
      then first_position c xs (if contact_Equals c x then i else position) (i + 1)
      else position)"

definition kb_AddContact :: "contact \<Rightarrow> kbucket \<Rightarrow> kbucket \<times> KBucketExitCode" where
  "kb_AddContact new_contact kb =
     (let position = first_position new_contact (kb_contacts kb) (- 1) 0;
          contacts = (if position \<noteq> - 1 then list_erase (nat position) (kb_contacts kb) else kb_contacts kb)
      in if length contacts = unat (kb_K kb) then (kb\<lparr>kb_contacts := contacts\<rparr>, FULL)
         else (kb\<lparr>kb_contacts := new_contact # contacts\<rparr>, SUCCEED))"

text \<open>The loop of \<open>RemoveContact\<close> runs to the end: the last contact with the id.\<close>

fun last_position :: "kadid \<Rightarrow> contact list \<Rightarrow> int \<Rightarrow> int \<Rightarrow> int" where
  "last_position k [] position i = position"
| "last_position k (x # xs) position i =
     last_position k xs (if kadid_eq (ct_node_id x) k then i else position) (i + 1)"

definition kb_RemoveContact :: "kadid \<Rightarrow> kbucket \<Rightarrow> kbucket" where
  "kb_RemoveContact node_id kb =
     (let position = last_position node_id (kb_contacts kb) (- 1) 0
      in if position \<noteq> - 1 then kb\<lparr>kb_contacts := list_erase (nat position) (kb_contacts kb)\<rparr> else kb)"

section \<open>Reading\<close>

text \<open>\<open>GetContact\<close>: the contact written to the result, or \<open>None\<close> when it returns false.\<close>

fun find_contact :: "kadid \<Rightarrow> contact list \<Rightarrow> contact option" where
  "find_contact k [] = None"
| "find_contact k (c # cs) = (if kadid_eq (ct_node_id c) k then Some c else find_contact k cs)"

definition kb_GetContact :: "kadid \<Rightarrow> kbucket \<Rightarrow> contact option" where
  "kb_GetContact node_id kb = find_contact node_id (kb_contacts kb)"

fun not_excluded :: "contact \<Rightarrow> contact list \<Rightarrow> bool" where
  "not_excluded c [] = True"
| "not_excluded c (e # es) = (if kadid_eq (ct_node_id c) (ct_node_id e) then False else not_excluded c es)"

text \<open>The loop of \<open>GetContacts\<close>, with its \<open>unsigned short\<close> counter.\<close>

fun get_loop :: "u16 \<Rightarrow> contact list \<Rightarrow> contact list \<Rightarrow> u16 \<Rightarrow> contact list \<Rightarrow> contact list" where
  "get_loop count exclude [] i contacts = contacts"
| "get_loop count exclude (c # cs) i contacts =
     (if i < count
      then if not_excluded c exclude then get_loop count exclude cs (i + 1) (contacts @ [c])
           else get_loop count exclude cs i contacts
      else contacts)"

definition kb_GetContacts :: "u16 \<Rightarrow> contact list \<Rightarrow> kbucket \<Rightarrow> contact list \<Rightarrow> contact list" where
  "kb_GetContacts count exclude_contacts kb contacts =
     get_loop count exclude_contacts (kb_contacts kb) 0 contacts"

definition kb_LastSeenContact :: "int \<Rightarrow> kbucket \<Rightarrow> contact" where
  "kb_LastSeenContact junk kb =
     (if kb_contacts kb = [] then Contact_default junk else last (kb_contacts kb))"

section \<open>What the loops compute\<close>

abbreviation ids :: "contact list \<Rightarrow> kadid list" where
  "ids cs \<equiv> map ct_node_id cs"

definition drop_id :: "kadid \<Rightarrow> contact list \<Rightarrow> contact list" where
  "drop_id k cs = filter (\<lambda>c. ct_node_id c \<noteq> k) cs"

lemma drop_id_simps [simp]:
  "drop_id k [] = []"
  "drop_id k (c # cs) = (if ct_node_id c = k then drop_id k cs else c # drop_id k cs)"
  by (simp_all add: drop_id_def)

lemma drop_id_absent: "k \<notin> set (ids cs) \<Longrightarrow> drop_id k cs = cs"
  by (induction cs) auto

lemma set_drop_id [simp]: "set (drop_id k cs) = {c \<in> set cs. ct_node_id c \<noteq> k}"
  by (auto simp: drop_id_def)

lemma distinct_drop_id: "distinct (ids cs) \<Longrightarrow> distinct (ids (drop_id k cs))"
  by (induction cs) auto

lemma length_drop_id:
  "distinct (ids cs) \<Longrightarrow> k \<in> set (ids cs) \<Longrightarrow> Suc (length (drop_id k cs)) = length cs"
  by (induction cs) (auto simp: drop_id_absent)

lemma length_drop_id_le: "length (drop_id k cs) \<le> length cs"
  by (simp add: drop_id_def)

lemma list_erase_Suc: "list_erase (Suc n) (x # xs) = x # list_erase n xs"
  by (simp add: list_erase_def)

lemma first_position_found: "position \<noteq> - 1 \<Longrightarrow> first_position c xs position i = position"
  by (cases xs) auto

lemma first_position_absent:
  "ct_node_id c \<notin> set (ids xs) \<Longrightarrow> first_position c xs (- 1) i = - 1"
  by (induction xs arbitrary: i) auto

lemma first_position_erase:
  assumes "ct_node_id c \<in> set (ids xs)" "distinct (ids xs)" "0 \<le> i"
  shows "i \<le> first_position c xs (- 1) i \<and>
    list_erase (nat (first_position c xs (- 1) i - i)) xs = drop_id (ct_node_id c) xs"
  using assms
proof (induction xs arbitrary: i)
  case (Cons x xs)
  show ?case
  proof (cases "ct_node_id c = ct_node_id x")
    case True
    then have "first_position c (x # xs) (- 1) i = i" using Cons.prems(3) by (simp add: first_position_found)
    then show ?thesis using True Cons.prems(2) by (auto simp: list_erase_def drop_id_absent)
  next
    case False
    with Cons.prems have IH: "i + 1 \<le> first_position c xs (- 1) (i + 1)"
      "list_erase (nat (first_position c xs (- 1) (i + 1) - (i + 1))) xs = drop_id (ct_node_id c) xs"
      using Cons.IH [of "i + 1"] by auto
    have "nat (first_position c xs (- 1) (i + 1) - i) = Suc (nat (first_position c xs (- 1) (i + 1) - (i + 1)))"
      using IH(1) by linarith
    then show ?thesis using False IH by (simp add: list_erase_Suc)
  qed
qed simp

lemma last_position_absent: "k \<notin> set (ids xs) \<Longrightarrow> last_position k xs p i = p"
  by (induction xs arbitrary: p i) auto

lemma last_position_erase:
  assumes "k \<in> set (ids xs)" "distinct (ids xs)" "0 \<le> i"
  shows "i \<le> last_position k xs p i \<and> list_erase (nat (last_position k xs p i - i)) xs = drop_id k xs"
  using assms
proof (induction xs arbitrary: p i)
  case (Cons x xs)
  show ?case
  proof (cases "ct_node_id x = k")
    case True
    then have "k \<notin> set (ids xs)" using Cons.prems(2) by auto
    then show ?thesis using True by (simp add: last_position_absent list_erase_def drop_id_absent)
  next
    case False
    with Cons.prems have IH: "i + 1 \<le> last_position k xs p (i + 1)"
      "list_erase (nat (last_position k xs p (i + 1) - (i + 1))) xs = drop_id k xs"
      using Cons.IH [of "i + 1" p] by auto
    have "nat (last_position k xs p (i + 1) - i) = Suc (nat (last_position k xs p (i + 1) - (i + 1)))"
      using IH(1) by linarith
    then show ?thesis using False IH by (simp add: list_erase_Suc)
  qed
qed simp

lemma not_excluded_iff [simp]: "not_excluded c es \<longleftrightarrow> ct_node_id c \<notin> set (ids es)"
  by (induction es) auto

lemma get_loop_eq:
  "get_loop count exclude cs i contacts =
     contacts @ take (unat count - unat i) (filter (\<lambda>c. ct_node_id c \<notin> set (ids exclude)) cs)"
proof (induction cs arbitrary: i contacts)
  case (Cons c cs)
  show ?case
  proof (cases "i < count")
    case True
    then have less: "unat i < unat count" by (simp add: word_less_nat_alt)
    have "unat (i + 1) = Suc (unat i)" by (rule unat_inc_below [OF True])
    with less have "Suc (unat count - unat (i + 1)) = unat count - unat i" by simp
    then show ?thesis using True Cons by (auto simp: take_Cons split: nat.splits)
  next
    case False
    then have "unat count - unat i = 0" by (simp add: word_less_nat_alt)
    then show ?thesis using False by simp
  qed
qed simp

lemma kb_GetContacts_eq:
  "kb_GetContacts count exclude kb contacts =
     contacts @ take (unat count) (filter (\<lambda>c. ct_node_id c \<notin> set (ids exclude)) (kb_contacts kb))"
  by (simp add: kb_GetContacts_def get_loop_eq)

lemma find_contact_None: "find_contact k cs = None \<longleftrightarrow> k \<notin> set (ids cs)"
  by (induction cs) auto

lemma find_contact_Some:
  "distinct (ids cs) \<Longrightarrow> find_contact k cs = Some c \<longleftrightarrow> c \<in> set cs \<and> ct_node_id c = k"
  by (induction cs) auto

section \<open>The invariant\<close>

definition kb_ok :: "kbucket \<Rightarrow> bool" where
  "kb_ok kb \<longleftrightarrow> distinct (ids (kb_contacts kb)) \<and> length (kb_contacts kb) \<le> unat (kb_K kb)"

lemma kb_ok_new [simp]: "kb_ok (KBucket_new kmin kmax K)"
  by (simp add: kb_ok_def KBucket_new_def)

lemma kb_erase_first:
  assumes "distinct (ids (kb_contacts kb))"
  shows "(let position = first_position c (kb_contacts kb) (- 1) 0
    in if position \<noteq> - 1 then list_erase (nat position) (kb_contacts kb) else kb_contacts kb)
      = drop_id (ct_node_id c) (kb_contacts kb)"
proof (cases "ct_node_id c \<in> set (ids (kb_contacts kb))")
  case True
  from first_position_erase [OF this assms order_refl] show ?thesis by (simp add: Let_def)
qed (simp add: first_position_absent drop_id_absent Let_def)

text \<open>\<open>AddContact\<close> on every branch: the contact goes to the front, or the bucket is full.\<close>

lemma kb_AddContact_eq:
  assumes "kb_ok kb"
  shows "kb_AddContact c kb =
    (if ct_node_id c \<notin> set (ids (kb_contacts kb)) \<and> length (kb_contacts kb) = unat (kb_K kb) then (kb, FULL)
     else (kb\<lparr>kb_contacts := c # drop_id (ct_node_id c) (kb_contacts kb)\<rparr>, SUCCEED))"
proof -
  have d: "distinct (ids (kb_contacts kb))" "length (kb_contacts kb) \<le> unat (kb_K kb)"
    using assms by (auto simp: kb_ok_def)
  let ?rest = "drop_id (ct_node_id c) (kb_contacts kb)"
  have add: "kb_AddContact c kb =
      (if length ?rest = unat (kb_K kb) then (kb\<lparr>kb_contacts := ?rest\<rparr>, FULL)
       else (kb\<lparr>kb_contacts := c # ?rest\<rparr>, SUCCEED))"
    using kb_erase_first [OF d(1), of c] by (simp add: kb_AddContact_def Let_def)
  show ?thesis
  proof (cases "ct_node_id c \<in> set (ids (kb_contacts kb))")
    case True
    then have "length ?rest \<noteq> unat (kb_K kb)" using length_drop_id [OF d(1)] d(2) by force
    then show ?thesis using True by (simp add: add)
  next
    case False
    then show ?thesis by (simp add: add drop_id_absent)
  qed
qed

lemma kb_RemoveContact_eq:
  assumes "distinct (ids (kb_contacts kb))"
  shows "kb_RemoveContact k kb = kb\<lparr>kb_contacts := drop_id k (kb_contacts kb)\<rparr>"
proof (cases "k \<in> set (ids (kb_contacts kb))")
  case True
  from last_position_erase [OF this assms order_refl, of "- 1"] show ?thesis
    by (simp add: kb_RemoveContact_def Let_def)
qed (simp add: kb_RemoveContact_def last_position_absent drop_id_absent Let_def)

lemma kb_ok_front:
  assumes "kb_ok kb" "ct_node_id c \<in> set (ids (kb_contacts kb)) \<or> length (kb_contacts kb) < unat (kb_K kb)"
  shows "kb_ok (kb\<lparr>kb_contacts := c # drop_id (ct_node_id c) (kb_contacts kb)\<rparr>)"
  using assms length_drop_id [of "kb_contacts kb" "ct_node_id c"] length_drop_id_le [of "ct_node_id c" "kb_contacts kb"]
  by (auto simp: kb_ok_def distinct_drop_id)

lemma kb_ok_drop: "kb_ok kb \<Longrightarrow> kb_ok (kb\<lparr>kb_contacts := drop_id k (kb_contacts kb)\<rparr>)"
  using length_drop_id_le [of k "kb_contacts kb"] by (auto simp: kb_ok_def distinct_drop_id)

section \<open>The interface of a bucket\<close>

locale contact_bucket =
  fixes ok :: "'b \<Rightarrow> bool" and items :: "'b \<Rightarrow> contact list" and capacity :: "'b \<Rightarrow> nat"
    and add :: "contact \<Rightarrow> 'b \<Rightarrow> 'b \<times> KBucketExitCode" and remove :: "kadid \<Rightarrow> 'b \<Rightarrow> 'b"
  assumes ok_bounds: "ok b \<Longrightarrow> distinct (ids (items b)) \<and> length (items b) \<le> capacity b"
    and add_front: "ok b \<Longrightarrow> ct_node_id c \<in> set (ids (items b)) \<or> length (items b) < capacity b \<Longrightarrow>
      \<exists>b'. add c b = (b', SUCCEED) \<and> ok b' \<and> items b' = c # drop_id (ct_node_id c) (items b) \<and>
        capacity b' = capacity b"
    and add_full: "ok b \<Longrightarrow> ct_node_id c \<notin> set (ids (items b)) \<Longrightarrow> length (items b) = capacity b \<Longrightarrow>
      add c b = (b, FULL)"
    and remove_items: "ok b \<Longrightarrow> ok (remove k b) \<and> items (remove k b) = drop_id k (items b) \<and>
      capacity (remove k b) = capacity b"
begin

lemma add_cases:
  assumes "ok b"
  obtains (front) b' where "add c b = (b', SUCCEED)" "ok b'" "capacity b' = capacity b"
      "items b' = c # drop_id (ct_node_id c) (items b)"
  | (full) "add c b = (b, FULL)" "ct_node_id c \<notin> set (ids (items b))" "length (items b) = capacity b"
proof (cases "ct_node_id c \<in> set (ids (items b)) \<or> length (items b) < capacity b")
  case True
  with add_front [OF assms this] front show thesis by blast
next
  case False
  with ok_bounds [OF assms] have "length (items b) = capacity b" by auto
  with False full add_full [OF assms] show thesis by blast
qed

lemma add_ok: "ok b \<Longrightarrow> ok (fst (add c b))"
  by (cases rule: add_cases [of b c]) auto

text \<open>Contacts with new ids that fit are all taken, in their order.\<close>

lemma refill:
  assumes "ok b" "distinct (ids (cs @ items b))" "length cs + length (items b) \<le> capacity b"
  shows "ok (foldr (\<lambda>c b. fst (add c b)) cs b) \<and>
    items (foldr (\<lambda>c b. fst (add c b)) cs b) = cs @ items b \<and>
    capacity (foldr (\<lambda>c b. fst (add c b)) cs b) = capacity b"
  using assms
proof (induction cs)
  case (Cons c cs)
  let ?b = "foldr (\<lambda>c b. fst (add c b)) cs b"
  from Cons have IH: "ok ?b" "items ?b = cs @ items b" "capacity ?b = capacity b" by auto
  have "length (items ?b) < capacity ?b" using IH Cons.prems(3) by simp
  with add_front [OF IH(1), of c] obtain b' where
    "add c ?b = (b', SUCCEED)" "ok b'" "items b' = c # drop_id (ct_node_id c) (items ?b)" "capacity b' = capacity ?b"
    by blast
  moreover have "drop_id (ct_node_id c) (items ?b) = items ?b"
    using IH(2) Cons.prems(2) by (intro drop_id_absent) auto
  ultimately show ?case using IH by simp
qed simp

text \<open>Taking a contact out of a full bucket makes room for another.\<close>

lemma exchange:
  assumes "ok b" "k \<in> set (ids (items b))"
  shows "\<exists>b'. add c (remove k b) = (b', SUCCEED) \<and> ok b' \<and> capacity b' = capacity b \<and>
    items b' = c # drop_id (ct_node_id c) (drop_id k (items b))"
proof -
  have "distinct (ids (items b))" using ok_bounds [OF assms(1)] by blast
  from length_drop_id [OF this assms(2)] have "length (drop_id k (items b)) < capacity b"
    using ok_bounds [OF assms(1)] by linarith
  then show ?thesis using remove_items [OF assms(1), of k] add_front [of "remove k b" c] by auto
qed

end

interpretation kb: contact_bucket kb_ok kb_contacts "\<lambda>kb. unat (kb_K kb)" kb_AddContact kb_RemoveContact
proof
  fix b :: kbucket and c k assume ok: "kb_ok b"
  then show d: "distinct (ids (kb_contacts b)) \<and> length (kb_contacts b) \<le> unat (kb_K b)"
    by (simp add: kb_ok_def)
  show "\<exists>b'. kb_AddContact c b = (b', SUCCEED) \<and> kb_ok b' \<and>
      kb_contacts b' = c # drop_id (ct_node_id c) (kb_contacts b) \<and> unat (kb_K b') = unat (kb_K b)"
    if "ct_node_id c \<in> set (ids (kb_contacts b)) \<or> length (kb_contacts b) < unat (kb_K b)"
    using that kb_ok_front [OF ok that] by (auto simp: kb_AddContact_eq [OF ok])
  show "kb_AddContact c b = (b, FULL)"
    if "ct_node_id c \<notin> set (ids (kb_contacts b))" "length (kb_contacts b) = unat (kb_K b)"
    using that by (simp add: kb_AddContact_eq [OF ok])
  show "kb_ok (kb_RemoveContact k b) \<and> kb_contacts (kb_RemoveContact k b) = drop_id k (kb_contacts b) \<and>
      unat (kb_K (kb_RemoveContact k b)) = unat (kb_K b)"
    using d kb_ok_drop [OF ok, of k] by (simp add: kb_RemoveContact_eq)
qed

section \<open>Properties\<close>

text \<open>
  \<open>AddContact\<close> of a bucket on every branch. A known id moves to the front with the new data; a
  new id goes to the front while there is room; a full bucket stays as it is and answers \<open>FULL\<close>.
  In each case the ids stay different and within \<open>K_\<close>.
\<close>

theorem kb_AddContact_functional:
  assumes "kb_ok kb"
  shows "case kb_AddContact c kb of (kb', code) \<Rightarrow>
    kb_ok kb' \<and> code \<noteq> FAIL \<and>
    (if ct_node_id c \<in> set (ids (kb_contacts kb)) \<or> length (kb_contacts kb) < unat (kb_K kb)
     then code = SUCCEED \<and> kb' = kb\<lparr>kb_contacts := c # filter (\<lambda>x. ct_node_id x \<noteq> ct_node_id c) (kb_contacts kb)\<rparr>
     else code = FULL \<and> kb' = kb)"
proof (cases "ct_node_id c \<in> set (ids (kb_contacts kb)) \<or> length (kb_contacts kb) < unat (kb_K kb)")
  case True
  from kb_ok_front [OF assms True] True show ?thesis
    by (auto simp: kb_AddContact_eq [OF assms] drop_id_def)
next
  case False
  with assms have "length (kb_contacts kb) = unat (kb_K kb)" by (simp add: kb_ok_def)
  with False show ?thesis using assms by (simp add: kb_AddContact_eq [OF assms])
qed

lemma kb_AddContact_functional_witness:
  "kb_AddContact (Contact_default 0) (KBucket_new KMinID KMinID 0) = (KBucket_new KMinID KMinID 0, FULL)"
  using kb_AddContact_functional [of "KBucket_new KMinID KMinID 0" "Contact_default 0"]
  by (simp add: KBucket_new_def kb_ok_def split: prod.splits)

text \<open>
  \<open>GetContacts\<close> of a bucket appends the first \<open>count\<close> contacts whose ids are not excluded, in
  the order of the bucket, and \<open>GetContact\<close> finds a contact exactly when one has the id.
\<close>

theorem kb_queries:
  "kb_GetContacts count exclude kb close =
     close @ take (unat count) (filter (\<lambda>c. ct_node_id c \<notin> ct_node_id ` set exclude) (kb_contacts kb)) \<and>
   (kb_GetContact k kb = None \<longleftrightarrow> k \<notin> ct_node_id ` set (kb_contacts kb))"
  using find_contact_None [of k "kb_contacts kb"] by (simp add: kb_GetContacts_eq kb_GetContact_def)

end
