(* ===== verification/RoutingTable.thy ===== *)
theory RoutingTable
  imports KBucket "HOL-Library.Word"
begin

text \<open>
  \<open>kad::RoutingTable\<close> of \<open>src/kademlia/kadroutingtable.cpp\<close>: the vector of buckets, the map
  from their upper addresses to their positions, and the operations on them; the functions of
  namespace \<open>detail\<close> that choose the contact a full bucket gives up.

  What the code reads from outside is an argument: \<open>id_now\<close> is the value of \<open>KadID ()\<close> (the
  hash of the current second, taken not to change during one call), \<open>past\<close> the units that the
  right shifts of \<open>SplitRange\<close> read past the end of their vectors. Indexing a vector out of
  range and dereferencing an end iterator is \<open>Inl Undefined\<close>. \<open>AddContact\<close> calls itself after
  a split; its fuel counts these calls.
\<close>

section \<open>State\<close>

record routing_table =
  rt_buckets :: "kbucket list"
  rt_upper :: "(kadid, u16) std_map"
  rt_holder :: kadid
  rt_bucket_of_holder :: u16
  rt_brother :: u16
  rt_address_upper :: kadid
  rt_K :: u16

definition RoutingTable_init :: "kadid \<Rightarrow> kadid \<Rightarrow> kadid \<Rightarrow> u16 \<Rightarrow> routing_table" where
  "RoutingTable_init min_range max_id holder_id K =
     \<lparr>rt_buckets = [KBucket_new min_range max_id K], rt_upper = map_insert (max_id, 0) [],
      rt_holder = holder_id, rt_bucket_of_holder = 0, rt_brother = - 1,
      rt_address_upper = max_id, rt_K = K\<rparr>"

definition RoutingTable_new :: "kadid \<Rightarrow> kadid \<Rightarrow> u16 \<Rightarrow> routing_table res" where
  "RoutingTable_new id_now holder_id K =
     bind_res KMaxID (\<lambda>max_id. Inr (RoutingTable_init id_now max_id holder_id K))"

definition bucket_at :: "routing_table \<Rightarrow> nat \<Rightarrow> kbucket res" where
  "bucket_at rt i = (if i < length (rt_buckets rt) then Inr (rt_buckets rt ! i) else Inl Undefined)"

definition set_bucket :: "nat \<Rightarrow> kbucket \<Rightarrow> routing_table \<Rightarrow> routing_table" where
  "set_bucket i kb rt = rt\<lparr>rt_buckets := (rt_buckets rt)[i := kb]\<rparr>"

section \<open>Lookup\<close>

definition KBucketIndex :: "kadid \<Rightarrow> routing_table \<Rightarrow> u16 res" where
  "KBucketIndex key rt =
     (if kadid_gt key (rt_address_upper rt) then Inr (- 1)
      else case map_lower_bound key (rt_upper rt) of
             None \<Rightarrow> Inl Undefined
           | Some (k, v) \<Rightarrow> Inr v)"

definition SortBucketsByDistance :: "kadid \<Rightarrow> routing_table \<Rightarrow> u16 list" where
  "SortBucketsByDistance key rt =
     map snd (map_of_pairs (map (\<lambda>(k, v). (kadid_xor k key, v)) (rt_upper rt)))"

definition SortContactsByDistance :: "kadid \<Rightarrow> contact list \<Rightarrow> contact list \<times> int" where
  "SortContactsByDistance key contacts =
     (let number_of_contacts = length contacts;
          distance = map_of_pairs (map (\<lambda>c. (kadid_xor (ct_node_id c) key, c)) contacts);
          sorted = map snd distance
      in (sorted, if length sorted = number_of_contacts then 0 else - 1))"

text \<open>In these three \<open>index\<close> is an \<open>int\<close>, so the \<open>unsigned short\<close> 65535 is not negative.\<close>

definition rt_GetContact :: "kadid \<Rightarrow> routing_table \<Rightarrow> contact option res" where
  "rt_GetContact node_id rt =
     bind_res (KBucketIndex node_id rt) (\<lambda>i. let index = uint i in
       if index < 0 then Inr None
       else bind_res (bucket_at rt (nat index)) (\<lambda>kb. Inr (kb_GetContact node_id kb)))"

definition TouchKBucket :: "u32 \<Rightarrow> kadid \<Rightarrow> routing_table \<Rightarrow> routing_table res" where
  "TouchKBucket now node_id rt =
     bind_res (KBucketIndex node_id rt) (\<lambda>i. let index = uint i in
       if index < 0 then Inr rt
       else bind_res (bucket_at rt (nat index)) (\<lambda>kb.
              Inr (set_bucket (nat index) (set_last_accessed now kb) rt)))"

definition rt_RemoveContact :: "kadid \<Rightarrow> routing_table \<Rightarrow> routing_table res" where
  "rt_RemoveContact node_id rt =
     bind_res (KBucketIndex node_id rt) (\<lambda>i. let index = uint i in
       if index < 0 then Inr rt
       else bind_res (bucket_at rt (nat index)) (\<lambda>kb.
              Inr (set_bucket (nat index) (kb_RemoveContact node_id kb) rt)))"

section \<open>Splitting a bucket\<close>

text \<open>The loop that hands the contacts to the two halves, from the last contact to the first.\<close>

definition split_contacts :: "contact list \<Rightarrow> kbucket \<times> kbucket \<Rightarrow> kbucket \<times> kbucket" where
  "split_contacts contacts halves =
     foldr (\<lambda>contact (kb_left, kb_right).
              if KeyInRange kb_left (ct_node_id contact)
              then (fst (kb_AddContact contact kb_left), kb_right)
              else (kb_left, fst (kb_AddContact contact kb_right)))
       contacts halves"

definition upper_addresses :: "kbucket list \<Rightarrow> (kadid, u16) std_map" where
  "upper_addresses bs = map_of_pairs (map (\<lambda>j. (kb_range_max (bs ! j), of_nat j)) [0..<length bs])"

text \<open>
  \<open>SplitRange\<close> writes \<open>min1\<close> and \<open>max1\<close>, and is given \<open>&range_max_kb_left\<close> for the first and
  \<open>&range_min_kb_right\<close> for the second.
\<close>

definition SplitKbucket :: "ulong \<times> ulong \<Rightarrow> u16 \<Rightarrow> routing_table \<Rightarrow> routing_table res" where
  "SplitKbucket past index rt =
     bind_res (bucket_at rt (unat index)) (\<lambda>kb.
     bind_res (SplitRange past (kb_range_min kb) (kb_range_max kb)) (\<lambda>(range_max_kb_left, range_min_kb_right).
       let kb_left = KBucket_new (kb_range_min kb) range_max_kb_left (rt_K rt);
           kb_right = KBucket_new range_min_kb_right (kb_range_max kb) (rt_K rt);
           contacts = kb_GetContacts (rt_K rt) [] kb [];
           (kb_left', kb_right') = split_contacts contacts (kb_left, kb_right);
           i = unat index;
           bs = take i (rt_buckets rt) @ [kb_left', kb_right'] @ drop (Suc i) (rt_buckets rt);
           left_holds = KeyInRange kb_left' (rt_holder rt)
       in Inr (rt\<lparr>rt_buckets := bs, rt_upper := upper_addresses bs,
                  rt_bucket_of_holder := (if left_holds then index else index + 1),
                  rt_brother := (if left_holds then index + 1 else index)\<rparr>)))"

section \<open>Giving up a contact\<close>

type_synonym contact_with_target = "contact \<times> kadid"
type_synonym force_k_entry = "contact \<times> int"

text \<open>
  The candidates have different ids, so \<open>compare_distance\<close> is a strict order on them although it
  puts a contact with the id \<open>KadID ()\<close> before itself.
\<close>

definition compare_distance :: "kadid \<Rightarrow> contact_with_target \<Rightarrow> contact_with_target \<Rightarrow> bool" where
  "compare_distance id_now first second =
     (if kadid_eq (ct_node_id (fst first)) id_now then True
      else if kadid_eq (ct_node_id (fst second)) id_now then False
      else CloserToTarget (ct_node_id (fst first)) (ct_node_id (fst second)) (snd first))"

definition compare_time :: "contact_with_target \<Rightarrow> contact_with_target \<Rightarrow> bool" where
  "compare_time first second =
     (if ct_last_seen (fst first) > ct_last_seen (fst second) then True else False)"

definition compare_score :: "force_k_entry \<Rightarrow> force_k_entry \<Rightarrow> bool" where
  "compare_score first second = (if snd first > snd second then True else False)"

fun time_row :: "contact \<Rightarrow> int \<Rightarrow> force_k_entry list \<Rightarrow> int \<times> force_k_entry list" where
  "time_row c t [] = (t, [])"
| "time_row c t (e # es) =
     (if contact_Equals c (fst e)
      then let (t', es') = time_row c (t + 1) es in (t', (fst e, snd e + t) # es')
      else let (t', es') = time_row c t es in (t', e # es'))"

definition time_scores :: "contact_with_target list \<Rightarrow> force_k_entry list \<Rightarrow> int \<times> force_k_entry list" where
  "time_scores l l_score = fold (\<lambda>it (t, es). time_row (fst it) t es) l (1, l_score)"

definition get_least_useful_contact :: "kadid \<Rightarrow> contact_with_target list \<Rightarrow> contact option" where
  "get_least_useful_contact id_now l =
     (let l1 = list_sort (compare_distance id_now) l;
          l_score = map (\<lambda>(it, d). (fst it, d)) (zip l1 (map int [1..<Suc (length l1)]));
          l2 = list_sort compare_time l1;
          l_score' = list_sort compare_score (snd (time_scores l2 l_score))
      in if l_score' \<noteq> [] then Some (fst (hd l_score')) else None)"

definition ForceKAcceptNewPeer :: "kadid \<Rightarrow> contact \<Rightarrow> routing_table \<Rightarrow> (routing_table \<times> int) res" where
  "ForceKAcceptNewPeer id_now new_contact rt =
     bind_res (bucket_at rt (unat (rt_bucket_of_holder rt))) (\<lambda>holder_kb.
       let v = uint (rt_K rt) - int (kb_Size holder_kb) in
       if v = 0 then Inr (rt, 1)
       else bind_res (bucket_at rt (unat (rt_brother rt))) (\<lambda>brother_kb.
         let contacts = kb_GetContacts (rt_K rt) [] brother_kb [];
             candidates_for_l = list_sort (compare_distance id_now) (map (\<lambda>c. (c, rt_holder rt)) contacts);
             it = v - 1 in
         if it < 0 \<or> int (length candidates_for_l) < it then Inl Undefined
         else if it = int (length candidates_for_l) then Inr (rt, 1)
         else if CloserToTarget (ct_node_id (fst (candidates_for_l ! nat it))) (ct_node_id new_contact) (rt_holder rt)
         then Inr (rt, 1)
         else case get_least_useful_contact id_now (drop (nat it) candidates_for_l) of
                Some least_useful_contact \<Rightarrow>
                  Inr (set_bucket (unat (rt_brother rt))
                         (fst (kb_AddContact new_contact
                            (kb_RemoveContact (ct_node_id least_useful_contact) brother_kb))) rt, 0)
              | None \<Rightarrow> Inr (rt, - 1)))"

section \<open>Adding a contact\<close>

fun rt_AddContact ::
  "nat \<Rightarrow> kadid \<Rightarrow> (nat \<Rightarrow> ulong \<times> ulong) \<Rightarrow> contact \<Rightarrow> routing_table \<Rightarrow> (routing_table \<times> int) res" where
  "rt_AddContact 0 id_now past new_contact rt = Inl Diverges"
| "rt_AddContact (Suc fuel) id_now past new_contact rt =
     bind_res (KBucketIndex (ct_node_id new_contact) rt) (\<lambda>i. let index = sint i in
       if index < 0 then Inr (rt, 3)
       else bind_res (bucket_at rt (nat index)) (\<lambda>kb.
         let (kb', exitcode) = kb_AddContact new_contact kb;
             rt' = set_bucket (nat index) kb' rt in
         case exitcode of
           SUCCEED \<Rightarrow> Inr (rt', 0)
         | FULL \<Rightarrow>
             if unat (rt_K rt') > 2 \<and> \<not> KeyInRange kb' (rt_holder rt')
             then if index = uint (rt_brother rt')
                  then bind_res (ForceKAcceptNewPeer id_now new_contact rt') (\<lambda>(rt'', r).
                         if r \<noteq> 0 then Inr (rt'', 2) else Inr (rt'', 0))
                  else Inr (rt', 2)
             else bind_res (SplitKbucket (past 0) (of_int index) rt') (\<lambda>rt''.
                    rt_AddContact fuel id_now (\<lambda>n. past (Suc n)) new_contact rt'')
         | FAIL \<Rightarrow> Inr (rt', - 2)))"

section \<open>Queries\<close>

fun fill_loop :: "int \<Rightarrow> contact list \<Rightarrow> contact list \<Rightarrow> contact list \<times> bool" where
  "fill_loop count [] close_nodes = (close_nodes, False)"
| "fill_loop count (c # cs) close_nodes =
     (let close' = close_nodes @ [c]
      in if count = int (length close') then (close', True) else fill_loop count cs close')"

fun close_loop :: "routing_table \<Rightarrow> kadid \<Rightarrow> int \<Rightarrow> contact list \<Rightarrow> u16 list \<Rightarrow> contact list \<Rightarrow> contact list res" where
  "close_loop rt key count exclude [] close_nodes = Inr close_nodes"
| "close_loop rt key count exclude (i # indices) close_nodes =
     bind_res (bucket_at rt (unat i)) (\<lambda>kb.
       let (contacts, r) = SortContactsByDistance key (kb_GetContacts (rt_K rt) exclude kb []) in
       if r \<noteq> 0 then close_loop rt key count exclude indices close_nodes
       else let (close', full) = fill_loop count contacts close_nodes in
            if full then Inr close' else close_loop rt key count exclude indices close')"

definition FindCloseNodes ::
  "kadid \<Rightarrow> int \<Rightarrow> contact list \<Rightarrow> contact list \<Rightarrow> routing_table \<Rightarrow> contact list res" where
  "FindCloseNodes key count exclude_contacts close_nodes rt =
     bind_res (KBucketIndex key rt) (\<lambda>i. let index = uint i in
       if index < 0 then Inr close_nodes
       else bind_res (bucket_at rt (nat index)) (\<lambda>kb.
         let close1 = kb_GetContacts (of_int count) exclude_contacts kb close_nodes in
         if count = int (length close1) then Inr close1
         else close_loop rt key count exclude_contacts (drop 1 (SortBucketsByDistance key rt)) close1))"

definition KRefreshTime :: u32 where "KRefreshTime = 3600"

definition GetRefreshList ::
  "u32 \<Rightarrow> (nat \<Rightarrow> ulong) \<Rightarrow> u16 \<Rightarrow> bool \<Rightarrow> routing_table \<Rightarrow> kadid list \<Rightarrow> kadid list res" where
  "GetRefreshList curr_time past start_kbucket force rt refresh =
     fold_res (\<lambda>keys i. let kb = rt_buckets rt ! i in
         if force \<or> curr_time - kb_last_accessed kb > KRefreshTime
         then bind_res (kadid_mid (\<lambda>_. past i) (kb_range_min kb) (kb_range_max kb)) (\<lambda>k. Inr (keys @ [k]))
         else Inr keys)
       refresh [unat start_kbucket..<length (rt_buckets rt)]"

definition KbucketSize :: "routing_table \<Rightarrow> nat" where
  "KbucketSize rt = length (rt_buckets rt)"

definition rt_Size :: "routing_table \<Rightarrow> nat" where
  "rt_Size rt = fold (\<lambda>kb n. n + kb_Size kb) (rt_buckets rt) 0"

definition rt_GetContacts ::
  "u16 \<Rightarrow> contact list \<Rightarrow> contact list \<Rightarrow> routing_table \<Rightarrow> (contact list \<times> bool) res" where
  "rt_GetContacts index exclude_contacts contacts rt =
     (if unat index > length (rt_buckets rt) then Inr (contacts, False)
      else bind_res (bucket_at rt (unat index)) (\<lambda>kb.
             Inr (kb_GetContacts (rt_K rt) exclude_contacts kb [], True)))"

text \<open>\<open>Clear\<close> leaves \<open>bucket_of_holder_\<close> and \<open>brother_bucket_of_holder_\<close> as they were.\<close>

definition rt_Clear :: "kadid \<Rightarrow> routing_table \<Rightarrow> routing_table" where
  "rt_Clear id_now rt =
     rt\<lparr>rt_buckets := [KBucket_new id_now (rt_address_upper rt) (rt_K rt)],
        rt_upper := map_insert (rt_address_upper rt, 0) []\<rparr>"

definition GetLastSeenContact :: "int \<Rightarrow> u16 \<Rightarrow> routing_table \<Rightarrow> contact res" where
  "GetLastSeenContact junk kbucket_index rt =
     (if unat kbucket_index + 1 > length (rt_buckets rt) then Inr (Contact_default junk)
      else bind_res (bucket_at rt (unat kbucket_index)) (\<lambda>kb. Inr (kb_LastSeenContact junk kb)))"

text \<open>\<open>count\<close> is an \<open>unsigned short\<close>: it is never below \<open>-1\<close>.\<close>

definition GetFurthestContacts :: "kadid \<Rightarrow> u16 \<Rightarrow> contact list \<Rightarrow> routing_table \<Rightarrow> contact list \<Rightarrow> contact list" where
  "GetFurthestContacts key count exclude_contacts rt close_nodes =
     (if uint count < - 1 \<or> count = 0 then []
      else let all = fold (\<lambda>kb close. kb_GetContacts (rt_K rt) exclude_contacts kb close) (rt_buckets rt) close_nodes;
               (sorted, a) = SortContactsByDistance key all
           in if a \<noteq> 0 then []
              else let rs = rev sorted
                   in if count > 0 \<and> length rs > unat count then take (unat count) rs else rs)"

end
