(* ===== verification/RoutingInvariant.thy ===== *)
theory RoutingInvariant
  imports RoutingTable "HOL-Library.Word"
begin

text \<open>
  The invariant of the routing table and its preservation. The buckets tile the space of ids:
  bucket \<open>j\<close> holds the ids above the upper address of bucket \<open>j - 1\<close> and up to its own
  (\<open>tiles\<close>), which is where \<open>KBucketIndex\<close> looks for them. The \<open>range_min_\<close> that
  \<open>SplitKbucket\<close> gives a right half lies two below its first id, since the source passes the
  two results of \<open>SplitRange\<close> crosswise; \<open>tile\<close> allows for that.
\<close>

section \<open>Tiles\<close>

definition tile :: "u16 \<Rightarrow> nat \<Rightarrow> kbucket \<Rightarrow> bool" where
  "tile K low b \<longleftrightarrow>
     kb_ok b \<and> kb_K b = K \<and> kadid_ok (kb_range_min b) \<and> kadid_ok (kb_range_max b) \<and>
     kadid_val (kb_range_min b) \<le> low \<and> low \<le> kadid_val (kb_range_min b) + 2 \<and>
     low \<le> kadid_val (kb_range_max b) \<and>
     (\<forall>c\<in>set (kb_contacts b). kadid_ok (ct_node_id c) \<and> low \<le> kadid_val (ct_node_id c) \<and>
        kadid_val (ct_node_id c) \<le> kadid_val (kb_range_max b))"

abbreviation upper :: "kbucket \<Rightarrow> nat" where
  "upper b \<equiv> kadid_val (kb_range_max b)"

fun tiles :: "u16 \<Rightarrow> nat \<Rightarrow> kbucket list \<Rightarrow> bool" where
  "tiles K low [] = True"
| "tiles K low (b # bs) = (tile K low b \<and> tiles K (Suc (upper b)) bs)"

fun next_low :: "nat \<Rightarrow> kbucket list \<Rightarrow> nat" where
  "next_low low [] = low"
| "next_low low (b # bs) = next_low (Suc (upper b)) bs"

lemma next_low_append [simp]: "next_low low (xs @ ys) = next_low (next_low low xs) ys"
  by (induction xs arbitrary: low) auto

lemma tiles_append [simp]:
  "tiles K low (xs @ ys) \<longleftrightarrow> tiles K low xs \<and> tiles K (next_low low xs) ys"
  by (induction xs arbitrary: low) auto

lemma tile_low_upper: "tile K low b \<Longrightarrow> low \<le> upper b"
  by (simp add: tile_def)

lemma next_low_mono: "tiles K low bs \<Longrightarrow> low \<le> next_low low bs"
  by (induction bs arbitrary: low) (force dest: tile_low_upper)+

lemma tiles_upper_less: "tiles K low bs \<Longrightarrow> b \<in> set bs \<Longrightarrow> low \<le> upper b \<and> upper b < next_low low bs"
proof (induction bs arbitrary: low)
  case (Cons x bs)
  then have x: "low \<le> upper x" "Suc (upper x) \<le> next_low (Suc (upper x)) bs"
    by (auto dest: tile_low_upper next_low_mono)
  show ?case
  proof (cases "b = x")
    case True
    then show ?thesis using x by simp
  next
    case False
    then show ?thesis using Cons.IH [of "Suc (upper x)"] Cons.prems x by simp
  qed
qed simp

lemma tiles_sorted: "tiles K low bs \<Longrightarrow> sorted_wrt (<) (map kb_range_max bs)"
proof (induction bs arbitrary: low)
  case (Cons b bs)
  have "kb_range_max b < kb_range_max x" if "x \<in> set bs" for x
  proof -
    have "upper b < upper x" using tiles_upper_less [of K "Suc (upper b)" bs x] Cons.prems that by simp
    moreover have "kadid_ok (kb_range_max b)" using Cons.prems by (simp add: tile_def)
    moreover have "kadid_ok (kb_range_max x)"
    proof -
      from split_list [OF that] obtain pre post where "bs = pre @ x # post" by blast
      with Cons.prems show ?thesis by (auto simp: tile_def)
    qed
    ultimately show ?thesis by (simp add: kadid_val_order)
  qed
  with Cons show ?case by auto
qed simp

lemma upper_addresses_tiles:
  assumes "tiles K low bs"
  shows "upper_addresses bs = map (\<lambda>j. (kb_range_max (bs ! j), of_nat j)) [0..<length bs]"
proof -
  have "map fst (map (\<lambda>j. (kb_range_max (bs ! j), of_nat j :: u16)) [0..<length bs]) = map kb_range_max bs"
    by (intro nth_equalityI) auto
  then show ?thesis
    using tiles_sorted [OF assms] unfolding upper_addresses_def by (intro map_of_pairs_sorted) simp
qed

section \<open>The invariant\<close>

definition rt_low :: "routing_table \<Rightarrow> nat" where
  "rt_low rt = kadid_val (kb_range_min (hd (rt_buckets rt)))"

definition rt_ok :: "routing_table \<Rightarrow> bool" where
  "rt_ok rt \<longleftrightarrow>
     rt_buckets rt \<noteq> [] \<and> length (rt_buckets rt) \<le> 2 ^ 15 \<and>
     tiles (rt_K rt) (rt_low rt) (rt_buckets rt) \<and>
     kb_range_max (last (rt_buckets rt)) = rt_address_upper rt \<and>
     rt_upper rt = upper_addresses (rt_buckets rt) \<and> kadid_ok (rt_holder rt) \<and>
     unat (rt_bucket_of_holder rt) < length (rt_buckets rt) \<and>
     (rt_brother rt = - 1 \<or> unat (rt_brother rt) < length (rt_buckets rt))"

text \<open>The ids the table covers, and the bucket of one.\<close>

definition in_space :: "routing_table \<Rightarrow> kadid \<Rightarrow> bool" where
  "in_space rt k \<longleftrightarrow> kadid_ok k \<and> rt_low rt \<le> kadid_val k \<and> k \<le> rt_address_upper rt"

definition at_bucket :: "routing_table \<Rightarrow> kadid \<Rightarrow> kbucket list \<Rightarrow> kbucket \<Rightarrow> kbucket list \<Rightarrow> bool" where
  "at_bucket rt k pre b post \<longleftrightarrow>
     rt_buckets rt = pre @ b # post \<and> next_low (rt_low rt) pre \<le> kadid_val k \<and> kadid_val k \<le> upper b"

definition rt_contacts :: "routing_table \<Rightarrow> contact set" where
  "rt_contacts rt = (\<Union>b\<in>set (rt_buckets rt). set (kb_contacts b))"

lemma in_tiles:
  assumes "tiles K low bs" "bs \<noteq> []" "low \<le> n" "n \<le> upper (last bs)"
  shows "\<exists>pre b post. bs = pre @ b # post \<and> next_low low pre \<le> n \<and> n \<le> upper b"
  using assms
proof (induction bs arbitrary: low)
  case (Cons b bs)
  show ?case
  proof (cases "n \<le> upper b")
    case True
    then show ?thesis using Cons.prems(3) by (intro exI [of _ "[]"]) auto
  next
    case False
    with Cons.prems have "bs \<noteq> []" by auto
    with Cons.IH [of "Suc (upper b)"] Cons.prems False obtain pre x post where
      "bs = pre @ x # post" "next_low (Suc (upper b)) pre \<le> n" "n \<le> upper x" by auto
    then show ?thesis by (intro exI [of _ "b # pre"]) auto
  qed
qed simp

lemma tile_ok_range_max: "tile K low b \<Longrightarrow> kadid_ok (kb_range_max b)"
  by (simp add: tile_def)

lemma rt_ok_upper_ok: "rt_ok rt \<Longrightarrow> kadid_ok (rt_address_upper rt)"
proof -
  assume ok: "rt_ok rt"
  then obtain bs b where bs: "rt_buckets rt = bs @ [b]" by (cases "rt_buckets rt" rule: rev_cases) (auto simp: rt_ok_def)
  with ok have "tile (rt_K rt) (next_low (rt_low rt) bs) b" by (simp add: rt_ok_def)
  from tile_ok_range_max [OF this] ok bs show ?thesis by (simp add: rt_ok_def)
qed

lemma at_bucket_exists:
  assumes "rt_ok rt" "in_space rt k"
  obtains pre b post where "at_bucket rt k pre b post"
proof -
  have "kadid_val k \<le> kadid_val (rt_address_upper rt)"
    using assms(2) kadid_val_order(2) [OF _ rt_ok_upper_ok [OF assms(1)], THEN iffD1] by (simp add: in_space_def)
  with in_tiles [of "rt_K rt" "rt_low rt" "rt_buckets rt" "kadid_val k"] assms
  show thesis using that by (auto simp: rt_ok_def in_space_def at_bucket_def)
qed

lemma find_append_first:
  "(\<forall>x\<in>set xs. \<not> P x) \<Longrightarrow> P y \<Longrightarrow> find P (xs @ y # ys) = Some y"
  by (induction xs) auto

lemma at_bucket_index:
  assumes "rt_ok rt" "kadid_ok k" "at_bucket rt k pre b post"
  shows "KBucketIndex k rt = Inr (of_nat (length pre))" "length pre < 2 ^ 15"
    "bucket_at rt (length pre) = Inr b" "unat (of_nat (length pre) :: u16) = length pre"
    "sint (of_nat (length pre) :: u16) = int (length pre)"
    "uint (of_nat (length pre) :: u16) = int (length pre)"
proof -
  let ?bs = "rt_buckets rt" and ?f = "\<lambda>j. (kb_range_max (rt_buckets rt ! j), of_nat j :: u16)"
  have bs: "?bs = pre @ b # post" using assms(3) by (simp add: at_bucket_def)
  have t: "tiles (rt_K rt) (rt_low rt) ?bs" and up: "rt_upper rt = map ?f [0..<length ?bs]"
    using assms(1) upper_addresses_tiles by (auto simp: rt_ok_def)
  have tb: "tile (rt_K rt) (next_low (rt_low rt) pre) b" "tiles (rt_K rt) (rt_low rt) pre"
    "tiles (rt_K rt) (Suc (upper b)) post" using t bs by auto
  show len: "length pre < 2 ^ 15" using assms(1) bs by (simp add: rt_ok_def)
  show "bucket_at rt (length pre) = Inr b" by (simp add: bucket_at_def bs)
  show "unat (of_nat (length pre) :: u16) = length pre" using len by (simp add: unat_of_nat)
  show "uint (of_nat (length pre) :: u16) = int (length pre)"
    using len by (simp add: unsigned_of_nat take_bit_nat_eq_self_iff of_nat_take_bit [symmetric])
  show "sint (of_nat (length pre) :: u16) = int (length pre)"
    using len by (simp add: signed_of_nat signed_take_bit_int_eq_self)
  have "kadid_val k \<le> kadid_val (rt_address_upper rt)"
  proof -
    have "upper b \<le> upper (last ?bs)"
      using bs tiles_upper_less [OF tb(3), of "last post"] by (cases "post = []") auto
    then show ?thesis using assms(1,3) by (simp add: rt_ok_def at_bucket_def)
  qed
  then have le: "\<not> kadid_gt k (rt_address_upper rt)"
    using assms(2) rt_ok_upper_ok [OF assms(1)] by (simp add: kadid_val_order)
  have split: "map ?f [0..<length ?bs]
      = map ?f [0..<length pre] @ ?f (length pre) # map ?f [Suc (length pre)..<length ?bs]"
  proof -
    have "[0..<length ?bs] = [0..<length pre] @ length pre # [Suc (length pre)..<length ?bs]"
    proof -
      have "length ?bs = length pre + Suc (length post)" by (simp add: bs)
      moreover have "[0..<length pre + Suc (length post)] = [0..<length pre] @ [length pre..<length pre + Suc (length post)]"
        by (rule upt_add_eq_append) simp
      moreover have "[length pre..<length pre + Suc (length post)] = length pre # [Suc (length pre)..<length pre + Suc (length post)]"
        by (rule upt_conv_Cons) simp
      ultimately show ?thesis by (simp only:)
    qed
    then show ?thesis by simp
  qed
  have before: "\<not> \<not> fst p < k" if "p \<in> set (map ?f [0..<length pre])" for p
  proof -
    from that obtain j where j: "j < length pre" "p = ?f j" by auto
    then have "pre ! j \<in> set pre" "kb_range_max (?bs ! j) = kb_range_max (pre ! j)"
      by (simp_all add: bs nth_append)
    moreover from split_list [OF this(1)] obtain ps qs where "pre = ps @ pre ! j # qs" by blast
    then have "kadid_ok (kb_range_max (pre ! j))" using tb(2) by (metis tile_ok_range_max tiles.simps(2) tiles_append)
    moreover have "upper (pre ! j) < kadid_val k"
      using tiles_upper_less [OF tb(2), of "pre ! j"] calculation(1) assms(3) by (simp add: at_bucket_def)
    ultimately show ?thesis using j assms(2) by (simp add: kadid_val_order)
  qed
  have here: "\<not> fst (?f (length pre)) < k"
    using assms(2,3) tb(1) by (simp add: bs at_bucket_def kadid_val_order tile_ok_range_max)
  have "map_lower_bound k (rt_upper rt) = Some (?f (length pre))"
    unfolding map_lower_bound_def up split by (rule find_append_first) (use before here in blast)+
  then show "KBucketIndex k rt = Inr (of_nat (length pre))" using le by (simp add: KBucketIndex_def)
qed

section \<open>Replacing one bucket\<close>

lemma upper_addresses_cong:
  assumes "map kb_range_max bs = map kb_range_max bs'"
  shows "upper_addresses bs = upper_addresses bs'"
proof -
  have len: "length bs = length bs'" using assms by (rule map_eq_imp_length_eq)
  have "kb_range_max (bs ! j) = kb_range_max (bs' ! j)" if "j < length bs'" for j
    using arg_cong [OF assms, of "\<lambda>xs. xs ! j"] that len by simp
  then have "map (\<lambda>j. (kb_range_max (bs ! j), of_nat j :: u16)) [0..<length bs]
      = map (\<lambda>j. (kb_range_max (bs' ! j), of_nat j)) [0..<length bs']"
    using len by simp
  then show ?thesis by (simp only: upper_addresses_def)
qed

text \<open>A new bucket with the old range whose contents fit the tile.\<close>

lemma set_bucket_ok:
  assumes ok: "rt_ok rt" and bs: "rt_buckets rt = pre @ b # post"
    and t: "tile (rt_K rt) (next_low (rt_low rt) pre) b'"
    and range: "kb_range_min b' = kb_range_min b" "kb_range_max b' = kb_range_max b"
  shows "rt_ok (set_bucket (length pre) b' rt)" "rt_buckets (set_bucket (length pre) b' rt) = pre @ b' # post"
    "rt_low (set_bucket (length pre) b' rt) = rt_low rt"
proof -
  show new: "rt_buckets (set_bucket (length pre) b' rt) = pre @ b' # post"
    by (simp add: set_bucket_def bs)
  show low: "rt_low (set_bucket (length pre) b' rt) = rt_low rt"
    unfolding rt_low_def new bs using range by (cases pre) auto
  have up: "upper_addresses (pre @ b' # post) = upper_addresses (pre @ b # post)"
    by (rule upper_addresses_cong) (simp add: range)
  have "tiles (rt_K rt) (rt_low rt) (pre @ b' # post)" using ok t by (simp add: rt_ok_def bs range)
  moreover have "kb_range_max (last (pre @ b' # post)) = kb_range_max (last (pre @ b # post))"
    using range by simp
  ultimately show "rt_ok (set_bucket (length pre) b' rt)"
    using ok unfolding rt_ok_def low unfolding new unfolding set_bucket_def bs
    by (simp add: up bs)
qed

lemma tile_contacts:
  assumes "tile K low b" "kb_ok (b\<lparr>kb_contacts := cs\<rparr>)"
    "\<forall>c\<in>set cs. kadid_ok (ct_node_id c) \<and> low \<le> kadid_val (ct_node_id c) \<and> kadid_val (ct_node_id c) \<le> upper b"
  shows "tile K low (b\<lparr>kb_contacts := cs\<rparr>)"
  using assms by (simp add: tile_def)

lemma rt_ok_at_tile:
  "rt_ok rt \<Longrightarrow> rt_buckets rt = pre @ b # post \<Longrightarrow> tile (rt_K rt) (next_low (rt_low rt) pre) b"
  by (simp add: rt_ok_def)

lemma rt_contacts_at:
  assumes "rt_buckets rt = pre @ b # post"
  shows "rt_contacts rt = set (kb_contacts b) \<union> (\<Union>x\<in>set pre \<union> set post. set (kb_contacts x))"
  using assms by (auto simp: rt_contacts_def)

lemma rt_contacts_set_bucket:
  assumes "rt_buckets rt = pre @ b # post"
  shows "rt_contacts (set_bucket (length pre) b' rt)
    = set (kb_contacts b') \<union> (\<Union>x\<in>set pre \<union> set post. set (kb_contacts x))"
  using assms by (intro rt_contacts_at) (simp add: set_bucket_def)

text \<open>All contacts with an id are in the bucket of that id, at most one of them.\<close>

lemma contact_elsewhere:
  assumes "rt_ok rt" "at_bucket rt k pre b post" "x \<in> set pre \<union> set post" "c \<in> set (kb_contacts x)"
  shows "ct_node_id c \<noteq> k"
proof
  assume id: "ct_node_id c = k"
  have bs: "rt_buckets rt = pre @ b # post" and k: "next_low (rt_low rt) pre \<le> kadid_val k" "kadid_val k \<le> upper b"
    using assms(2) by (auto simp: at_bucket_def)
  have t: "tiles (rt_K rt) (rt_low rt) pre" "tiles (rt_K rt) (Suc (upper b)) post"
    using assms(1) by (auto simp: rt_ok_def bs)
  consider "x \<in> set pre" | "x \<in> set post" using assms(3) by blast
  then show False
  proof cases
    case 1
    from split_list [OF this] obtain ps qs where "pre = ps @ x # qs" by blast
    with t(1) have "tile (rt_K rt) (next_low (rt_low rt) ps) x" by simp
    with assms(4) id have "kadid_val k \<le> upper x" by (auto simp: tile_def)
    with tiles_upper_less [OF t(1) 1] k(1) show False by linarith
  next
    case 2
    from split_list [OF this] obtain ps qs where post: "post = ps @ x # qs" by blast
    with t(2) have "tile (rt_K rt) (next_low (Suc (upper b)) ps) x" "Suc (upper b) \<le> next_low (Suc (upper b)) ps"
      using next_low_mono [of "rt_K rt" "Suc (upper b)" ps] by auto
    with assms(4) id have "Suc (upper b) \<le> kadid_val k" by (auto simp: tile_def)
    with k(2) show False by linarith
  qed
qed

lemma contact_in_its_bucket:
  assumes "rt_ok rt" "at_bucket rt k pre b post" "c \<in> rt_contacts rt" "ct_node_id c = k"
  shows "c \<in> set (kb_contacts b)"
proof -
  have "rt_buckets rt = pre @ b # post" using assms(2) by (simp add: at_bucket_def)
  from assms(3)[unfolded rt_contacts_at [OF this]] contact_elsewhere [OF assms(1,2)] assms(4) show ?thesis by blast
qed

lemma rt_contacts_inj:
  assumes "rt_ok rt" "in_space rt (ct_node_id c)" "c \<in> rt_contacts rt" "d \<in> rt_contacts rt" "ct_node_id d = ct_node_id c"
  shows "d = c"
proof -
  obtain pre b post where at: "at_bucket rt (ct_node_id c) pre b post"
    by (rule at_bucket_exists [OF assms(1,2)])
  then have "tile (rt_K rt) (next_low (rt_low rt) pre) b"
    using rt_ok_at_tile [OF assms(1)] by (simp add: at_bucket_def)
  then have "distinct (ids (kb_contacts b))" by (simp add: tile_def kb_ok_def)
  with contact_in_its_bucket [OF assms(1) at] assms(3-5) show ?thesis
    by (auto simp: distinct_map dest: inj_onD)
qed

section \<open>Lookup and removal\<close>

lemma rt_GetContact_ok:
  assumes "rt_ok rt" "in_space rt k"
  shows "\<exists>r. rt_GetContact k rt = Inr r \<and>
    (\<forall>c. r = Some c \<longleftrightarrow> c \<in> rt_contacts rt \<and> ct_node_id c = k)"
proof -
  obtain pre b post where at: "at_bucket rt k pre b post" by (rule at_bucket_exists [OF assms])
  have k: "kadid_ok k" using assms(2) by (simp add: in_space_def)
  note idx = at_bucket_index [OF assms(1) k at]
  have bs: "rt_buckets rt = pre @ b # post" using at by (simp add: at_bucket_def)
  have "distinct (ids (kb_contacts b))" using rt_ok_at_tile [OF assms(1) bs] by (simp add: tile_def kb_ok_def)
  note find = find_contact_Some [OF this, of k]
  have "rt_GetContact k rt = Inr (find_contact k (kb_contacts b))"
    using idx by (simp add: rt_GetContact_def kb_GetContact_def)
  moreover have "find_contact k (kb_contacts b) = Some c \<longleftrightarrow> c \<in> rt_contacts rt \<and> ct_node_id c = k" for c
    unfolding find using contact_in_its_bucket [OF assms(1) at, of c] rt_contacts_at [OF bs] by blast
  ultimately show ?thesis by blast
qed

lemma rt_RemoveContact_ok:
  assumes "rt_ok rt" "in_space rt k"
  shows "\<exists>rt'. rt_RemoveContact k rt = Inr rt' \<and> rt_ok rt' \<and>
    rt_contacts rt' = {c \<in> rt_contacts rt. ct_node_id c \<noteq> k}"
proof -
  obtain pre b post where at: "at_bucket rt k pre b post" by (rule at_bucket_exists [OF assms])
  have k: "kadid_ok k" using assms(2) by (simp add: in_space_def)
  note idx = at_bucket_index [OF assms(1) k at]
  have bs: "rt_buckets rt = pre @ b # post" using at by (simp add: at_bucket_def)
  have t: "tile (rt_K rt) (next_low (rt_low rt) pre) b" by (rule rt_ok_at_tile [OF assms(1) bs])
  let ?b = "b\<lparr>kb_contacts := drop_id k (kb_contacts b)\<rparr>"
  have "kb_RemoveContact k b = ?b" using t by (intro kb_RemoveContact_eq) (simp add: tile_def kb_ok_def)
  then have "rt_RemoveContact k rt = Inr (set_bucket (length pre) ?b rt)"
    using idx by (simp add: rt_RemoveContact_def)
  moreover have "tile (rt_K rt) (next_low (rt_low rt) pre) ?b"
    using t kb_ok_drop [of b k] by (intro tile_contacts) (auto simp: tile_def)
  then have "rt_ok (set_bucket (length pre) ?b rt)" by (intro set_bucket_ok(1) [OF assms(1) bs]) simp_all
  moreover have "rt_contacts (set_bucket (length pre) ?b rt) = {c \<in> rt_contacts rt. ct_node_id c \<noteq> k}"
    using contact_elsewhere [OF assms(1) at] by (auto simp: rt_contacts_set_bucket [OF bs] rt_contacts_at [OF bs])
  ultimately show ?thesis by blast
qed

end
