(* ===== verification/RoutingAdd.thy ===== *)
theory RoutingAdd
  imports RoutingInvariant "HOL-Library.Word"
begin

text \<open>
  \<open>SplitKbucket\<close>, \<open>ForceKAcceptNewPeer\<close> and \<open>AddContact\<close> keep the invariant of the routing
  table, and \<open>AddContact\<close> returns: a full bucket of three contacts or more is wide enough to be
  split, and a split leaves about half the width. A table of \<open>K > 2\<close> has few buckets
  (\<open>few_buckets_length\<close>), so their positions fit a \<open>short\<close>. All lemmas take the units that the shifts of
  \<open>SplitRange\<close> read past the end to be even.
\<close>

section \<open>Filling the halves\<close>

lemma kb_AddContact_fields [simp]:
  "kb_range_min (fst (kb_AddContact c b)) = kb_range_min b"
  "kb_range_max (fst (kb_AddContact c b)) = kb_range_max b"
  "kb_K (fst (kb_AddContact c b)) = kb_K b"
  by (simp_all add: kb_AddContact_def Let_def)

abbreviation add_all :: "contact list \<Rightarrow> kbucket \<Rightarrow> kbucket" where
  "add_all cs b \<equiv> foldr (\<lambda>c b. fst (kb_AddContact c b)) cs b"

lemma add_all_fields [simp]:
  "kb_range_min (add_all cs b) = kb_range_min b" "kb_range_max (add_all cs b) = kb_range_max b"
  "kb_K (add_all cs b) = kb_K b"
  by (induction cs) simp_all

lemma KeyInRange_add_all [simp]: "KeyInRange (add_all cs b) k = KeyInRange b k"
  by (simp add: KeyInRange_def)

lemma split_contacts_eq:
  "split_contacts cs (l, r) =
     (add_all (filter (\<lambda>c. KeyInRange l (ct_node_id c)) cs) l,
      add_all (filter (\<lambda>c. \<not> KeyInRange l (ct_node_id c)) cs) r)"
  unfolding split_contacts_def by (induction cs) auto

lemma add_all_new:
  assumes "distinct (ids cs)" "length cs \<le> unat K"
  shows "kb_ok (add_all cs (KBucket_new kmin kmax K))" "kb_contacts (add_all cs (KBucket_new kmin kmax K)) = cs"
proof -
  have new: "kb_contacts (KBucket_new kmin kmax K) = []" "kb_K (KBucket_new kmin kmax K) = K"
    by (simp_all add: KBucket_new_def)
  from kb.refill [OF kb_ok_new, of cs kmin kmax K] assms new
  show "kb_ok (add_all cs (KBucket_new kmin kmax K))" "kb_contacts (add_all cs (KBucket_new kmin kmax K)) = cs"
    by simp_all
qed

lemma kb_GetContacts_all:
  "kb_ok b \<Longrightarrow> kb_GetContacts (kb_K b) [] b [] = kb_contacts b"
  by (simp add: kb_GetContacts_eq kb_ok_def)

section \<open>\<open>SplitKbucket\<close>\<close>

lemma KeyInRange_val:
  "kadid_ok (kb_range_min b) \<Longrightarrow> kadid_ok (kb_range_max b) \<Longrightarrow> kadid_ok k \<Longrightarrow>
    KeyInRange b k \<longleftrightarrow> kadid_val (kb_range_min b) \<le> kadid_val k \<and> kadid_val k \<le> upper b"
  by (simp add: KeyInRange_def kadid_val_order)

text \<open>The two halves of a wide bucket are tiles again, with the contacts divided between them.\<close>

lemma split_halves:
  assumes t: "tile K low b" and wide: "low + 3 \<le> upper b"
    and ev: "even (unat (fst past))" "even (unat (snd past))"
  shows "\<exists>a c l r. SplitRange past (kb_range_min b) (kb_range_max b) = Inr (a, c) \<and>
    split_contacts (kb_GetContacts K [] b [])
      (KBucket_new (kb_range_min b) a K, KBucket_new c (kb_range_max b) K) = (l, r) \<and>
    tile K low l \<and> tile K (Suc (upper l)) r \<and> kb_range_min l = kb_range_min b \<and>
    kb_range_max r = kb_range_max b \<and> kadid_val (kb_range_min r) + 1 = upper l \<and>
    kb_contacts l = filter (\<lambda>x. kadid_val (ct_node_id x) \<le> upper l) (kb_contacts b) \<and>
    kb_contacts r = filter (\<lambda>x. upper l < kadid_val (ct_node_id x)) (kb_contacts b) \<and>
    upper l = kadid_val (kb_range_min b) div 2 + upper b div 2 + 1"
proof -
  let ?m = "kadid_val (kb_range_min b)" and ?M = "upper b" and ?cs = "kb_contacts b"
  let ?mid = "?m div 2 + ?M div 2"
  have b: "kb_ok b" "kb_K b = K" "kadid_ok (kb_range_min b)" "kadid_ok (kb_range_max b)" "?m \<le> low" "low \<le> ?m + 2"
    "\<forall>x\<in>set ?cs. kadid_ok (ct_node_id x) \<and> low \<le> kadid_val (ct_node_id x) \<and> kadid_val (ct_node_id x) \<le> ?M"
    using t by (auto simp: tile_def)
  from SplitRange_val [OF b(3,4) ev] obtain a c where ac: "SplitRange past (kb_range_min b) (kb_range_max b) = Inr (a, c)"
    "kadid_ok a" "kadid_ok c" "kadid_val c = ?mid" "kadid_val a = ?mid + 1" by auto
  have mid: "low \<le> ?mid + 1" "?mid + 2 \<le> ?M" using b(5,6) wide by presburger+
  define l0 r0 where "l0 = KBucket_new (kb_range_min b) a K" and "r0 = KBucket_new c (kb_range_max b) K"
  define ls rs where "ls = filter (\<lambda>x. kadid_val (ct_node_id x) \<le> ?mid + 1) ?cs"
    and "rs = filter (\<lambda>x. ?mid + 1 < kadid_val (ct_node_id x)) ?cs"
  have range: "KeyInRange l0 (ct_node_id x) \<longleftrightarrow> kadid_val (ct_node_id x) \<le> ?mid + 1" if "x \<in> set ?cs" for x
  proof -
    have "kadid_ok (ct_node_id x)" "?m \<le> kadid_val (ct_node_id x)" using b(5,7) that by force+
    then show ?thesis using b(3) ac by (simp add: l0_def KeyInRange_val KBucket_new_def)
  qed
  have filters: "filter (\<lambda>x. KeyInRange l0 (ct_node_id x)) ?cs = ls" "filter (\<lambda>x. \<not> KeyInRange l0 (ct_node_id x)) ?cs = rs"
    unfolding ls_def rs_def using range by (auto intro!: filter_cong)
  have d: "distinct (ids ?cs)" "length ?cs \<le> unat K" using b(1,2) by (auto simp: kb_ok_def)
  have parts: "distinct (ids ls)" "distinct (ids rs)" "length ls \<le> unat K" "length rs \<le> unat K"
    unfolding ls_def rs_def using d by (auto simp: distinct_map_filter intro: le_trans [OF length_filter_le])
  define l r where "l = add_all ls l0" and "r = add_all rs r0"
  note new = add_all_new [OF parts(1,3), of "kb_range_min b" a, folded l0_def, folded l_def]
    add_all_new [OF parts(2,4), of c "kb_range_max b", folded r0_def, folded r_def]
  have fields: "kb_range_min l = kb_range_min b" "kb_range_max l = a" "kb_K l = K"
    "kb_range_min r = c" "kb_range_max r = kb_range_max b" "kb_K r = K"
    by (simp_all add: l_def r_def l0_def r0_def KBucket_new_def)
  have "kb_GetContacts K [] b [] = ?cs" using kb_GetContacts_all [OF b(1)] b(2) by simp
  then have sc: "split_contacts (kb_GetContacts K [] b []) (l0, r0) = (l, r)"
    by (simp add: split_contacts_eq filters l_def r_def)
  have "tile K low l" using b ac mid new fields by (auto simp: tile_def ls_def)
  moreover have "tile K (Suc (upper l)) r" using b ac mid new fields by (auto simp: tile_def rs_def)
  ultimately show ?thesis
    using ac sc fields new ac(4,5) unfolding l0_def r0_def ls_def rs_def by (intro exI conjI) (assumption | simp)+
qed

lemma SplitKbucket_ok:
  assumes ok: "rt_ok rt" and bs: "rt_buckets rt = pre @ b # post" and wide: "next_low (rt_low rt) pre + 3 \<le> upper b"
    and ev: "even (unat (fst past))" "even (unat (snd past))" and room: "length (rt_buckets rt) < 2 ^ 15"
  shows "\<exists>l r rt'. SplitKbucket past (of_nat (length pre)) rt = Inr rt' \<and> rt_ok rt' \<and>
    rt_buckets rt' = pre @ l # r # post \<and> rt_low rt' = rt_low rt \<and>
    rt_address_upper rt' = rt_address_upper rt \<and> rt_K rt' = rt_K rt \<and> rt_holder rt' = rt_holder rt \<and>
    kb_range_min l = kb_range_min b \<and> kb_range_max r = kb_range_max b \<and>
    kadid_val (kb_range_min r) + 1 = upper l \<and>
    upper l = kadid_val (kb_range_min b) div 2 + upper b div 2 + 1 \<and>
    set (kb_contacts l) \<union> set (kb_contacts r) = set (kb_contacts b) \<and>
    kadid_ok (kb_range_max l) \<and> kadid_ok (kb_range_min r) \<and>
    kb_contacts l = filter (\<lambda>x. kadid_val (ct_node_id x) \<le> upper l) (kb_contacts b) \<and>
    kb_contacts r = filter (\<lambda>x. upper l < kadid_val (ct_node_id x)) (kb_contacts b)"
proof -
  let ?K = "rt_K rt" and ?low = "next_low (rt_low rt) pre"
  from split_halves [OF rt_ok_at_tile [OF ok bs] wide ev] obtain a c l r where
    s: "SplitRange past (kb_range_min b) (kb_range_max b) = Inr (a, c)"
    "split_contacts (kb_GetContacts ?K [] b [])
      (KBucket_new (kb_range_min b) a ?K, KBucket_new c (kb_range_max b) ?K) = (l, r)" and
    tl: "tile ?K ?low l" "tile ?K (Suc (upper l)) r" and
    lr: "kb_range_min l = kb_range_min b" "kb_range_max r = kb_range_max b"
    "kadid_val (kb_range_min r) + 1 = upper l" "upper l = kadid_val (kb_range_min b) div 2 + upper b div 2 + 1" and
    cs: "kb_contacts l = filter (\<lambda>x. kadid_val (ct_node_id x) \<le> upper l) (kb_contacts b)"
    "kb_contacts r = filter (\<lambda>x. upper l < kadid_val (ct_node_id x)) (kb_contacts b)" by blast
  have len: "length pre < 2 ^ 15" "length pre + 1 < 2 ^ 15" "length pre + 2 + length post \<le> 2 ^ 15"
    using room bs by simp_all
  then have u: "unat (of_nat (length pre) :: u16) = length pre" "unat (of_nat (length pre) + 1 :: u16) = length pre + 1"
    by (simp_all add: unat_of_nat unat_word_ariths)
  let ?bs = "pre @ l # r # post"
  let ?h = "KeyInRange l (rt_holder rt)" and ?i = "of_nat (length pre) :: u16"
  let ?rt = "rt\<lparr>rt_buckets := ?bs, rt_upper := upper_addresses ?bs,
      rt_bucket_of_holder := if ?h then ?i else ?i + 1, rt_brother := if ?h then ?i + 1 else ?i\<rparr>"
  have "SplitKbucket past ?i rt = Inr ?rt"
    using s u(1) by (simp add: SplitKbucket_def bucket_at_def bs Let_def)
  moreover have low: "rt_low ?rt = rt_low rt" unfolding rt_low_def using lr(1) by (cases pre) (auto simp: bs)
  moreover have "tiles ?K (rt_low rt) ?bs" using ok tl lr(2) by (simp add: rt_ok_def bs)
  moreover have "kb_range_max (last ?bs) = rt_address_upper rt"
    using ok lr(2) by (cases "post = []") (simp_all add: rt_ok_def bs)
  ultimately have "rt_ok ?rt"
    using ok len u unfolding rt_ok_def low by (auto simp: bs)
  moreover have "set (kb_contacts l) \<union> set (kb_contacts r) = set (kb_contacts b)" using cs by auto
  moreover have "kadid_ok (kb_range_max l)" "kadid_ok (kb_range_min r)" using tl by (simp_all add: tile_def)
  ultimately show ?thesis
    using \<open>SplitKbucket past ?i rt = Inr ?rt\<close> low lr cs by (intro exI [of _ l] exI [of _ r] exI [of _ ?rt]) simp
qed

section \<open>The number of buckets\<close>

text \<open>
  With \<open>K > 2\<close> only buckets whose range has the holder's id are split. At most three have it at a
  time, since ranges overlap by at most two ids, and each split takes one bit of their width: a
  table has at most \<open>1 + 3 * D\<close> buckets when the first one is \<open>D\<close> bits wide.
\<close>

definition width_bits :: "kbucket \<Rightarrow> nat" where
  "width_bits b = (LEAST n. upper b < kadid_val (kb_range_min b) + 2 ^ n + 2)"

abbreviation holding :: "kadid \<Rightarrow> kbucket list \<Rightarrow> kbucket list" where
  "holding h bs \<equiv> filter (\<lambda>b. KeyInRange b h) bs"

definition few_buckets :: "nat \<Rightarrow> routing_table \<Rightarrow> bool" where
  "few_buckets D rt \<longleftrightarrow>
     length (rt_buckets rt) + sum_list (map width_bits (holding (rt_holder rt) (rt_buckets rt)))
       \<le> 1 + D * length (holding (rt_holder rt) (rt_buckets rt)) \<and>
     (\<forall>b\<in>set (rt_buckets rt). width_bits b \<le> D)"

lemma width_bits_le: "upper b < kadid_val (kb_range_min b) + 2 ^ n + 2 \<Longrightarrow> width_bits b \<le> n"
  unfolding width_bits_def by (rule Least_le)

lemma width_bits_fits: "upper b < kadid_val (kb_range_min b) + 2 ^ width_bits b + 2"
proof -
  have "upper b < 2 ^ upper b" by (rule less_exp)
  then have "upper b < kadid_val (kb_range_min b) + 2 ^ upper b + 2" by linarith
  then show ?thesis unfolding width_bits_def by (rule LeastI)
qed

lemma width_bits_pos: "kadid_val (kb_range_min b) + 3 \<le> upper b \<Longrightarrow> 0 < width_bits b"
  using width_bits_fits [of b] by (cases "width_bits b = 0") auto

lemma holding_le_3:
  assumes "tiles K low bs" "kadid_ok h"
  shows "length (holding h bs) \<le> (if low \<le> kadid_val h then 3 else kadid_val h + 3 - low)"
  using assms(1)
proof (induction bs arbitrary: low)
  case (Cons b bs)
  then have b: "kadid_ok (kb_range_min b)" "kadid_ok (kb_range_max b)" "kadid_val (kb_range_min b) \<le> low"
    "low \<le> kadid_val (kb_range_min b) + 2" "low \<le> upper b" by (auto simp: tile_def)
  have "KeyInRange b h \<longleftrightarrow> kadid_val (kb_range_min b) \<le> kadid_val h \<and> kadid_val h \<le> upper b"
    using b(1,2) assms(2) by (simp add: KeyInRange_val)
  moreover have "length (holding h bs) \<le> (if Suc (upper b) \<le> kadid_val h then 3 else kadid_val h + 3 - Suc (upper b))"
    using Cons by simp
  ultimately show ?case using b(3-5) by (auto split: if_splits)
qed simp

lemma few_buckets_length:
  assumes "rt_ok rt" "few_buckets D rt"
  shows "length (rt_buckets rt) \<le> 1 + 3 * D"
proof -
  have "length (holding (rt_holder rt) (rt_buckets rt)) \<le> 3"
    using holding_le_3 [of "rt_K rt" "rt_low rt" "rt_buckets rt" "rt_holder rt"] assms(1)
    by (auto simp: rt_ok_def split: if_splits)
  then have "D * length (holding (rt_holder rt) (rt_buckets rt)) \<le> D * 3" by (rule mult_le_mono2)
  moreover have "length (rt_buckets rt) \<le> 1 + D * length (holding (rt_holder rt) (rt_buckets rt))"
    using assms(2) unfolding few_buckets_def by linarith
  ultimately show ?thesis by linarith
qed

lemma few_buckets_replace:
  assumes "few_buckets D rt" "rt_buckets rt = pre @ b # post"
    "kb_range_min b' = kb_range_min b" "kb_range_max b' = kb_range_max b"
  shows "few_buckets D (set_bucket (length pre) b' rt)"
proof -
  have "KeyInRange b' h = KeyInRange b h" for h using assms(3,4) by (simp add: KeyInRange_def)
  moreover have "width_bits b' = width_bits b" using assms(3,4) by (simp add: width_bits_def)
  moreover have "rt_buckets (set_bucket (length pre) b' rt) = pre @ b' # post" "rt_holder (set_bucket (length pre) b' rt) = rt_holder rt"
    using assms(2) by (simp_all add: set_bucket_def)
  ultimately show ?thesis using assms(1) unfolding few_buckets_def assms(2)
    by (cases "KeyInRange b (rt_holder rt)") simp_all
qed

lemma halved_width:
  fixes m M p u n :: nat
  assumes "M < m + 2 * p + 2" "u = m div 2 + M div 2 + 1" "n + 1 = u"
  shows "u < m + p + 2" "M < n + p + 2"
proof -
  have "2 * (m div 2) \<le> m" "m \<le> 2 * (m div 2) + 1" "2 * (M div 2) \<le> M" "M \<le> 2 * (M div 2) + 1"
    by simp_all
  then show "u < m + p + 2" "M < n + p + 2" using assms by linarith+
qed

lemma few_buckets_split:
  assumes few: "few_buckets D rt" and bs: "rt_buckets rt = pre @ b # post" "rt_buckets rt' = pre @ l # r # post"
    and wide: "kadid_val (kb_range_min b) + 3 \<le> upper b" and h: "rt_holder rt' = rt_holder rt" "KeyInRange b (rt_holder rt)"
    and ids: "kadid_ok (kb_range_min b)" "kadid_ok (kb_range_max b)" "kadid_ok (kb_range_max l)"
      "kadid_ok (kb_range_min r)" "kadid_ok (rt_holder rt)"
    and lr: "kb_range_min l = kb_range_min b" "kb_range_max r = kb_range_max b" "kadid_val (kb_range_min r) + 1 = upper l"
      "upper l = kadid_val (kb_range_min b) div 2 + upper b div 2 + 1"
  shows "few_buckets D rt'"
proof -
  obtain n where n: "width_bits b = Suc n" using width_bits_pos [OF wide] by (cases "width_bits b") auto
  have "upper b < kadid_val (kb_range_min b) + 2 * 2 ^ n + 2" using width_bits_fits [of b] n by simp
  note halved_width [OF this lr(4,3)]
  then have w: "width_bits l \<le> n" "width_bits r \<le> n" by (auto intro!: width_bits_le simp: lr)
  have "KeyInRange l (rt_holder rt) \<or> KeyInRange r (rt_holder rt)"
    using h(2) ids lr by (auto simp: KeyInRange_val)
  moreover have "Suc n \<le> D" using few n bs(1) by (auto simp: few_buckets_def)
  ultimately show ?thesis using few n w h(2) unfolding few_buckets_def bs h(1) by (auto simp: algebra_simps)
qed

section \<open>\<open>ForceKAcceptNewPeer\<close>\<close>

lemma time_row_contacts: "map fst (snd (time_row c t es)) = map fst es"
  by (induction c t es rule: time_row.induct) (auto split: prod.splits)

lemma time_scores_contacts: "map fst (snd (time_scores l es)) = map fst es"
proof -
  have "map fst (snd (fold (\<lambda>it (t, es). time_row (fst it) t es) l (t, es))) = map fst es" for t
  proof (induction l arbitrary: t es)
    case (Cons a l)
    obtain t' es' where row: "time_row (fst a) t es = (t', es')" by fastforce
    with time_row_contacts [of "fst a" t es] have "map fst es' = map fst es" by simp
    with Cons.IH row show ?case by simp
  qed simp
  then show ?thesis by (simp add: time_scores_def)
qed

text \<open>The contact given up is one of the candidates.\<close>

lemma get_least_useful_contact_in:
  assumes "l \<noteq> []"
  shows "\<exists>c. get_least_useful_contact id_now l = Some c \<and> c \<in> fst ` set l"
proof -
  define l1 where "l1 = list_sort (compare_distance id_now) l"
  define es where "es = map (\<lambda>(it, d). (fst it, d)) (zip l1 (map int [1..<Suc (length l1)]))"
  define l2 where "l2 = list_sort compare_time l1"
  define fin where "fin = list_sort compare_score (snd (time_scores l2 es))"
  have l1: "set l1 = set l" "length l1 = length l" by (simp_all add: l1_def)
  have "map fst es = map fst l1" unfolding es_def by (intro nth_equalityI) (auto simp: Suc_le_eq)
  then have scores: "map fst (snd (time_scores l2 es)) = map fst l1" by (simp add: time_scores_contacts)
  then have "length fin = length l" using l1(2) unfolding fin_def by (metis length_list_sort length_map)
  then have ne: "fin \<noteq> []" using assms by auto
  have "fst ` set fin = fst ` set l1"
    using arg_cong [OF scores, of set] by (simp add: fin_def)
  with ne l1(1) have "fst (hd fin) \<in> fst ` set l" by (metis hd_in_set image_eqI)
  moreover have "get_least_useful_contact id_now l = Some (fst (hd fin))"
    using ne unfolding get_least_useful_contact_def Let_def l1_def [symmetric] es_def [symmetric]
      l2_def [symmetric] fin_def [symmetric] by simp
  ultimately show ?thesis by blast
qed

lemma ForceKAcceptNewPeer_ok:
  assumes ok: "rt_ok rt" and bs: "rt_buckets rt = pre @ b # post" and brother: "unat (rt_brother rt) = length pre"
    and full: "length (kb_contacts b) = unat (rt_K rt)" and new: "ct_node_id c \<notin> set (ids (kb_contacts b))"
  shows "\<exists>r. ForceKAcceptNewPeer id_now c rt = Inr (rt, 1) \<or>
    (r \<in> set (kb_contacts b) \<and> ForceKAcceptNewPeer id_now c rt =
      Inr (set_bucket (length pre) (b\<lparr>kb_contacts := c # drop_id (ct_node_id r) (kb_contacts b)\<rparr>) rt, 0))"
proof -
  let ?K = "rt_K rt"
  have b: "kb_ok b" "kb_K b = ?K" using rt_ok_at_tile [OF ok bs] by (simp_all add: tile_def)
  obtain hb where hb: "bucket_at rt (unat (rt_bucket_of_holder rt)) = Inr hb" "hb \<in> set (rt_buckets rt)"
    using ok by (auto simp: bucket_at_def rt_ok_def)
  from split_list [OF hb(2)] obtain ps qs where "rt_buckets rt = ps @ hb # qs" by blast
  from rt_ok_at_tile [OF ok this] have hb_len: "kb_Size hb \<le> unat ?K" by (auto simp: tile_def kb_ok_def kb_Size_def)
  have bb: "bucket_at rt (unat (rt_brother rt)) = Inr b" by (simp add: bucket_at_def brother bs)
  have cs: "kb_GetContacts ?K [] b [] = kb_contacts b" using kb_GetContacts_all [OF b(1)] b(2) by simp
  define cands where "cands = list_sort (compare_distance id_now) (map (\<lambda>c. (c, rt_holder rt)) (kb_contacts b))"
  have cands: "length cands = unat ?K" "fst ` set cands = set (kb_contacts b)"
    unfolding cands_def by (simp_all add: full image_image)
  define v where "v = uint ?K - int (kb_Size hb)"
  have "int (kb_Size hb) \<le> uint ?K" using hb_len unfolding uint_nat by (simp only: of_nat_le_iff)
  then have v: "0 \<le> v" "v \<le> int (unat ?K)" by (simp_all add: v_def)
  have force: "ForceKAcceptNewPeer id_now c rt =
    (if v = 0 then Inr (rt, 1)
     else if v - 1 < 0 \<or> int (length cands) < v - 1 then Inl Undefined
     else if v - 1 = int (length cands) then Inr (rt, 1)
     else if CloserToTarget (ct_node_id (fst (cands ! nat (v - 1)))) (ct_node_id c) (rt_holder rt) then Inr (rt, 1)
     else case get_least_useful_contact id_now (drop (nat (v - 1)) cands) of
       Some r \<Rightarrow> Inr (set_bucket (unat (rt_brother rt)) (fst (kb_AddContact c (kb_RemoveContact (ct_node_id r) b))) rt, 0)
     | None \<Rightarrow> Inr (rt, - 1))"
    by (simp only: ForceKAcceptNewPeer_def hb(1) bb bind_res_simps Let_def cs cands_def [symmetric] v_def [symmetric])
  show ?thesis
  proof (cases "v = 0 \<or> CloserToTarget (ct_node_id (fst (cands ! nat (v - 1)))) (ct_node_id c) (rt_holder rt)")
    case True
    then show ?thesis using v cands(1) unfolding force by auto
  next
    case False
    have "v \<noteq> 0" using False by blast
    moreover have "v \<le> int (length cands)" using v(2) by (simp only: cands(1))
    ultimately have "nat (v - 1) < length cands" using v(1) by linarith
    then have "drop (nat (v - 1)) cands \<noteq> []" by simp
    from get_least_useful_contact_in [OF this] obtain r where
      r: "get_least_useful_contact id_now (drop (nat (v - 1)) cands) = Some r" "r \<in> fst ` set cands"
      by (meson image_mono set_drop_subset subsetD)
    let ?b = "b\<lparr>kb_contacts := drop_id (ct_node_id r) (kb_contacts b)\<rparr>"
    have rem: "kb_RemoveContact (ct_node_id r) b = ?b"
      using b(1) by (intro kb_RemoveContact_eq) (simp add: kb_ok_def)
    have len: "Suc (length (drop_id (ct_node_id r) (kb_contacts b))) = unat ?K"
      using length_drop_id [of "kb_contacts b" "ct_node_id r"] r(2) cands(2) b(1) full by (auto simp: kb_ok_def)
    have "ct_node_id c \<notin> set (ids (kb_contacts ?b))" using new by auto
    then have "kb_AddContact c ?b = (?b\<lparr>kb_contacts := c # kb_contacts ?b\<rparr>, SUCCEED)"
      using kb_AddContact_eq [OF kb_ok_drop [OF b(1)], of c "ct_node_id r"] len b(2) by (simp add: drop_id_absent)
    then have "ForceKAcceptNewPeer id_now c rt =
        Inr (set_bucket (length pre) (b\<lparr>kb_contacts := c # drop_id (ct_node_id r) (kb_contacts b)\<rparr>) rt, 0)"
      using False v cands(1) unfolding force r(1) brother by (simp add: rem)
    then show ?thesis using r(2) cands(2) by auto
  qed
qed

section \<open>\<open>AddContact\<close>\<close>

text \<open>A full bucket and one more id: the tile spans at least as many ids.\<close>

lemma full_tile_wide:
  assumes t: "tile K low b" and full: "length (kb_contacts b) = unat K" "3 \<le> unat K"
    and k: "kadid_ok k" "k \<notin> set (ids (kb_contacts b))" "low \<le> kadid_val k" "kadid_val k \<le> upper b"
  shows "low + 3 \<le> upper b"
proof -
  let ?S = "insert k (set (ids (kb_contacts b)))"
  have ok: "\<forall>x\<in>?S. kadid_ok x \<and> low \<le> kadid_val x \<and> kadid_val x \<le> upper b"
    using t k by (auto simp: tile_def)
  have "distinct (ids (kb_contacts b))" using t by (simp add: tile_def kb_ok_def)
  from distinct_card [OF this] have "card ?S = Suc (unat K)" using k(2) full(1) by simp
  moreover have "inj_on kadid_val ?S" using ok kadid_val_order(3) by (intro inj_onI) blast
  then have "card (kadid_val ` ?S) = card ?S" by (rule card_image)
  moreover have "kadid_val ` ?S \<subseteq> {low..upper b}" using ok by auto
  then have "card (kadid_val ` ?S) \<le> card {low..upper b}" by (intro card_mono) simp_all
  ultimately show ?thesis using full(2) by simp
qed

text \<open>What \<open>AddContact\<close> leaves: the new contact is in, and at most one other went out.\<close>

definition added :: "contact \<Rightarrow> routing_table \<Rightarrow> routing_table \<Rightarrow> bool" where
  "added c rt rt' \<longleftrightarrow> c \<in> rt_contacts rt' \<and> rt_contacts rt' \<subseteq> insert c (rt_contacts rt) \<and>
     (\<exists>r. \<forall>x\<in>rt_contacts rt. ct_node_id x \<noteq> ct_node_id c \<and> x \<noteq> r \<longrightarrow> x \<in> rt_contacts rt')"

definition same_space :: "routing_table \<Rightarrow> routing_table \<Rightarrow> bool" where
  "same_space rt rt' \<longleftrightarrow> rt_low rt' = rt_low rt \<and> rt_address_upper rt' = rt_address_upper rt \<and>
     rt_K rt' = rt_K rt \<and> rt_holder rt' = rt_holder rt"

lemma set_bucket_same_space:
  assumes "rt_buckets rt = pre @ b # post" "kb_range_min b' = kb_range_min b"
  shows "same_space rt (set_bucket (length pre) b' rt)"
  using assms by (cases pre) (auto simp: same_space_def rt_low_def set_bucket_def)

text \<open>The bucket takes the contact.\<close>

lemma set_front_ok:
  assumes ok: "rt_ok rt" and bs: "rt_buckets rt = pre @ b # post" and at: "at_bucket rt (ct_node_id c) pre b post"
    and c: "kadid_ok (ct_node_id c)" and sub: "set cs \<subseteq> set (kb_contacts b)"
    and kb: "kb_ok (b\<lparr>kb_contacts := c # cs\<rparr>)"
  shows "rt_ok (set_bucket (length pre) (b\<lparr>kb_contacts := c # cs\<rparr>) rt)"
proof -
  have "tile (rt_K rt) (next_low (rt_low rt) pre) (b\<lparr>kb_contacts := c # cs\<rparr>)"
    using rt_ok_at_tile [OF ok bs] at c sub by (intro tile_contacts [OF _ kb]) (auto simp: tile_def at_bucket_def)
  then show ?thesis by (intro set_bucket_ok(1) [OF ok bs]) simp_all
qed

lemma added_front:
  assumes "rt_buckets rt = pre @ b # post" "set cs \<subseteq> set (kb_contacts b)"
    "\<forall>x\<in>set (kb_contacts b). ct_node_id x \<noteq> ct_node_id c \<and> x \<noteq> r \<longrightarrow> x \<in> set cs"
  shows "added c rt (set_bucket (length pre) (b\<lparr>kb_contacts := c # cs\<rparr>) rt)"
  using assms(2,3) unfolding added_def rt_contacts_set_bucket [OF assms(1)] rt_contacts_at [OF assms(1)]
  by (intro conjI exI [of _ r]) auto

text \<open>One call, with its bucket found.\<close>

lemma AddContact_step:
  assumes "rt_ok rt" "kadid_ok (ct_node_id c)" "at_bucket rt (ct_node_id c) pre b post"
  shows "ct_node_id c \<in> set (ids (kb_contacts b)) \<or> length (kb_contacts b) \<noteq> unat (rt_K rt) \<Longrightarrow>
      rt_AddContact (Suc f) id_now past c rt =
        Inr (set_bucket (length pre) (b\<lparr>kb_contacts := c # drop_id (ct_node_id c) (kb_contacts b)\<rparr>) rt, 0)"
    "ct_node_id c \<notin> set (ids (kb_contacts b)) \<Longrightarrow> length (kb_contacts b) = unat (rt_K rt) \<Longrightarrow>
      rt_AddContact (Suc f) id_now past c rt =
       (if unat (rt_K rt) > 2 \<and> \<not> KeyInRange b (rt_holder rt)
        then if int (length pre) = uint (rt_brother rt)
             then bind_res (ForceKAcceptNewPeer id_now c rt) (\<lambda>(rt'', r). if r \<noteq> 0 then Inr (rt'', 2) else Inr (rt'', 0))
             else Inr (rt, 2)
        else bind_res (SplitKbucket (past 0) (of_nat (length pre)) rt) (\<lambda>rt''.
               rt_AddContact f id_now (\<lambda>n. past (Suc n)) c rt''))"
proof -
  have bs: "rt_buckets rt = pre @ b # post" using assms(3) by (simp add: at_bucket_def)
  note idx = at_bucket_index [OF assms(1,2,3)]
  have b: "kb_ok b" "kb_K b = rt_K rt" using rt_ok_at_tile [OF assms(1) bs] by (simp_all add: tile_def)
  note add = kb_AddContact_eq [OF b(1), of c, unfolded b(2)]
  have "(rt_buckets rt)[length pre := b] = rt_buckets rt" unfolding bs by (rule list_update_length)
  then have self: "set_bucket (length pre) b rt = rt" by (simp add: set_bucket_def)
  show "ct_node_id c \<in> set (ids (kb_contacts b)) \<or> length (kb_contacts b) \<noteq> unat (rt_K rt) \<Longrightarrow>
      rt_AddContact (Suc f) id_now past c rt =
        Inr (set_bucket (length pre) (b\<lparr>kb_contacts := c # drop_id (ct_node_id c) (kb_contacts b)\<rparr>) rt, 0)"
    using idx add by auto
  show "ct_node_id c \<notin> set (ids (kb_contacts b)) \<Longrightarrow> length (kb_contacts b) = unat (rt_K rt) \<Longrightarrow>
      rt_AddContact (Suc f) id_now past c rt =
       (if unat (rt_K rt) > 2 \<and> \<not> KeyInRange b (rt_holder rt)
        then if int (length pre) = uint (rt_brother rt)
             then bind_res (ForceKAcceptNewPeer id_now c rt) (\<lambda>(rt'', r). if r \<noteq> 0 then Inr (rt'', 2) else Inr (rt'', 0))
             else Inr (rt, 2)
        else bind_res (SplitKbucket (past 0) (of_nat (length pre)) rt) (\<lambda>rt''.
               rt_AddContact f id_now (\<lambda>n. past (Suc n)) c rt''))"
    using idx add self by (simp add: Let_def)
qed

text \<open>A call that ends without a split.\<close>

lemma AddContact_no_split:
  assumes ok: "rt_ok rt" and c: "kadid_ok (ct_node_id c)" and at: "at_bucket rt (ct_node_id c) pre b post"
    and cond: "ct_node_id c \<in> set (ids (kb_contacts b)) \<or> length (kb_contacts b) \<noteq> unat (rt_K rt) \<or>
      unat (rt_K rt) > 2 \<and> \<not> KeyInRange b (rt_holder rt)"
  shows "\<exists>rt' r. rt_AddContact (Suc f) id_now past c rt = Inr (rt', r) \<and> rt_ok rt' \<and> same_space rt rt' \<and>
    (few_buckets D rt \<longrightarrow> few_buckets D rt') \<and>
    (r = 0 \<and> added c rt rt' \<or> r = 2 \<and> rt_contacts rt' = rt_contacts rt)"
proof -
  have bs: "rt_buckets rt = pre @ b # post" using at by (simp add: at_bucket_def)
  have t: "tile (rt_K rt) (next_low (rt_low rt) pre) b" by (rule rt_ok_at_tile [OF ok bs])
  then have b: "kb_ok b" "kb_K b = rt_K rt" by (simp_all add: tile_def)
  show ?thesis
  proof (cases "ct_node_id c \<in> set (ids (kb_contacts b)) \<or> length (kb_contacts b) \<noteq> unat (rt_K rt)")
    case True
    let ?cs = "drop_id (ct_node_id c) (kb_contacts b)"
    have "kb_ok (b\<lparr>kb_contacts := c # ?cs\<rparr>)" using True b by (intro kb_ok_front) (auto simp: kb_ok_def)
    then have "rt_ok (set_bucket (length pre) (b\<lparr>kb_contacts := c # ?cs\<rparr>) rt)"
      by (intro set_front_ok [OF ok bs at c]) auto
    moreover have "added c rt (set_bucket (length pre) (b\<lparr>kb_contacts := c # ?cs\<rparr>) rt)"
      by (rule added_front [OF bs, of _ _ c]) auto
    ultimately show ?thesis
      using AddContact_step(1) [OF ok c at True] set_bucket_same_space [OF bs] few_buckets_replace [OF _ bs] by auto
  next
    case False
    then have full: "ct_node_id c \<notin> set (ids (kb_contacts b))" "length (kb_contacts b) = unat (rt_K rt)" by auto
    note call = AddContact_step(2) [OF ok c at full, of f id_now past]
    have refuse: "same_space rt rt" by (simp add: same_space_def)
    show ?thesis
    proof (cases "int (length pre) = uint (rt_brother rt)")
      case True
      then have brother: "unat (rt_brother rt) = length pre" by (simp only: uint_nat of_nat_eq_iff)
      have "rt_AddContact (Suc f) id_now past c rt =
          bind_res (ForceKAcceptNewPeer id_now c rt) (\<lambda>(rt'', r). if r \<noteq> 0 then Inr (rt'', 2) else Inr (rt'', 0))"
        using call cond full True by auto
      with ForceKAcceptNewPeer_ok [OF ok bs brother full(2,1), of id_now] consider
        "rt_AddContact (Suc f) id_now past c rt = Inr (rt, 2)"
        | r where "r \<in> set (kb_contacts b)" "rt_AddContact (Suc f) id_now past c rt =
            Inr (set_bucket (length pre) (b\<lparr>kb_contacts := c # drop_id (ct_node_id r) (kb_contacts b)\<rparr>) rt, 0)"
        by auto
      then show ?thesis
      proof cases
        case 1
        then show ?thesis using ok refuse by auto
      next
        case 2
        let ?cs = "drop_id (ct_node_id r) (kb_contacts b)"
        have d: "distinct (ids (kb_contacts b))" using b(1) by (simp add: kb_ok_def)
        have "Suc (length ?cs) = unat (rt_K rt)" using length_drop_id [OF d, of "ct_node_id r"] 2(1) full(2) by auto
        then have "kb_ok (b\<lparr>kb_contacts := c # ?cs\<rparr>)"
          using b distinct_drop_id [OF d] full(1) by (auto simp: kb_ok_def)
        then have "rt_ok (set_bucket (length pre) (b\<lparr>kb_contacts := c # ?cs\<rparr>) rt)"
          by (intro set_front_ok [OF ok bs at c]) auto
        moreover have "x = r" if "x \<in> set (kb_contacts b)" "ct_node_id x = ct_node_id r" for x
          using that 2(1) d by (auto simp: distinct_map dest: inj_onD)
        then have "added c rt (set_bucket (length pre) (b\<lparr>kb_contacts := c # ?cs\<rparr>) rt)"
          by (intro added_front [OF bs, of _ _ r]) auto
        ultimately show ?thesis using 2(2) set_bucket_same_space [OF bs] few_buckets_replace [OF _ bs] by auto
      qed
    next
      case other: False
      then show ?thesis using call cond full ok refuse by auto
    qed
  qed
qed

text \<open>With fuel for the width of its bucket, \<open>AddContact\<close> returns.\<close>

lemma AddContact_ok:
  assumes "rt_ok rt" "at_bucket rt (ct_node_id c) pre b post" "kadid_ok (ct_node_id c)" "3 \<le> unat (rt_K rt)"
    "\<forall>n. even (unat (fst (past n))) \<and> even (unat (snd (past n)))"
    "upper b < kadid_val (kb_range_min b) + 2 ^ f + 2" "few_buckets D rt" "1 + 3 * D < 2 ^ 15"
  shows "\<exists>rt' r. rt_AddContact (Suc f) id_now past c rt = Inr (rt', r) \<and> rt_ok rt' \<and> same_space rt rt' \<and> few_buckets D rt' \<and>
    (r = 0 \<and> added c rt rt' \<or> r = 2 \<and> rt_contacts rt' = rt_contacts rt)"
  using assms
proof (induction f arbitrary: rt pre b post past)
  case (0 rt pre b post past)
  have bs: "rt_buckets rt = pre @ b # post" using 0(2) by (simp add: at_bucket_def)
  note t = rt_ok_at_tile [OF 0(1) bs]
  have "ct_node_id c \<in> set (ids (kb_contacts b)) \<or> length (kb_contacts b) \<noteq> unat (rt_K rt)"
  proof (rule ccontr)
    assume "\<not> ?thesis"
    then have "next_low (rt_low rt) pre + 3 \<le> upper b"
      using 0(2-4) by (intro full_tile_wide [OF t]) (auto simp: at_bucket_def)
    with t 0(6) show False by (simp add: tile_def)
  qed
  then show ?case using AddContact_no_split [OF 0(1,3,2)] 0(7) by blast
next
  case (Suc f rt pre b post past)
  note ok = Suc.prems(1) and at = Suc.prems(2) and c = Suc.prems(3) and K = Suc.prems(4) and ev = Suc.prems(5)
  have bs: "rt_buckets rt = pre @ b # post" using at by (simp add: at_bucket_def)
  note t = rt_ok_at_tile [OF ok bs]
  show ?case
  proof (cases "ct_node_id c \<in> set (ids (kb_contacts b)) \<or> length (kb_contacts b) \<noteq> unat (rt_K rt) \<or>
      unat (rt_K rt) > 2 \<and> \<not> KeyInRange b (rt_holder rt)")
    case True
    then show ?thesis using AddContact_no_split [OF ok c at] Suc.prems(7) by blast
  next
    case False
    then have full: "ct_node_id c \<notin> set (ids (kb_contacts b))" "length (kb_contacts b) = unat (rt_K rt)"
      and live: "KeyInRange b (rt_holder rt)" using K by auto
    have wide: "next_low (rt_low rt) pre + 3 \<le> upper b"
      using full K c at by (intro full_tile_wide [OF t, of "ct_node_id c"]) (auto simp: at_bucket_def)
    have "length (rt_buckets rt) < 2 ^ 15" using few_buckets_length [OF ok Suc.prems(7)] Suc.prems(8) by simp
    from SplitKbucket_ok [OF ok bs wide _ _ this, of "past 0"] ev obtain l r rt' where
      split: "SplitKbucket (past 0) (of_nat (length pre)) rt = Inr rt'" "rt_ok rt'" "rt_buckets rt' = pre @ l # r # post" and
      same: "rt_low rt' = rt_low rt" "rt_address_upper rt' = rt_address_upper rt" "rt_K rt' = rt_K rt" "rt_holder rt' = rt_holder rt" and
      lr: "kb_range_min l = kb_range_min b" "kb_range_max r = kb_range_max b" "kadid_val (kb_range_min r) + 1 = upper l"
      "upper l = kadid_val (kb_range_min b) div 2 + upper b div 2 + 1"
      "set (kb_contacts l) \<union> set (kb_contacts r) = set (kb_contacts b)" and
      lr_ok: "kadid_ok (kb_range_max l)" "kadid_ok (kb_range_min r)" by blast
    have call: "rt_AddContact (Suc (Suc f)) id_now past c rt = rt_AddContact (Suc f) id_now (\<lambda>n. past (Suc n)) c rt'"
      using AddContact_step(2) [OF ok c at full, of "Suc f" id_now past] False full split(1) by auto
    have contacts: "rt_contacts rt' = rt_contacts rt" using lr(5) split(3) bs by (auto simp: rt_contacts_def)
    let ?m = "kadid_val (kb_range_min b)"
    have w: "upper b < ?m + 2 * 2 ^ f + 2" using Suc.prems(6) by simp
    have widths: "upper l < kadid_val (kb_range_min l) + 2 ^ f + 2" "upper r < kadid_val (kb_range_min r) + 2 ^ f + 2"
      using halved_width [OF w lr(4,3)] by (simp_all add: lr(1,2))
    have few: "few_buckets D rt'"
      using t wide ok by (intro few_buckets_split [OF Suc.prems(7) bs split(3) _ same(4) live _ _ lr_ok _ lr(1-4)])
        (auto simp: tile_def rt_ok_def)
    have ev': "\<forall>n. even (unat (fst (past (Suc n)))) \<and> even (unat (snd (past (Suc n))))" using ev by blast
    have rec: "at_bucket rt' (ct_node_id c) pre l (r # post) \<or> at_bucket rt' (ct_node_id c) (pre @ [l]) r post"
      using at split(3) same(1) lr(2) by (auto simp: at_bucket_def)
    have "\<exists>rt'' e. rt_AddContact (Suc f) id_now (\<lambda>n. past (Suc n)) c rt' = Inr (rt'', e) \<and> rt_ok rt'' \<and>
        same_space rt' rt'' \<and> few_buckets D rt'' \<and> (e = 0 \<and> added c rt' rt'' \<or> e = 2 \<and> rt_contacts rt'' = rt_contacts rt')"
      using rec Suc.IH [OF split(2) _ c _ ev' widths(1) few Suc.prems(8)] Suc.IH [OF split(2) _ c _ ev' widths(2) few Suc.prems(8)] K same(3)
      by auto
    then show ?thesis using call same contacts by (auto simp: same_space_def added_def)
  qed
qed

end
