(* ===== verification/RoutingProperties.thy ===== *)
theory RoutingProperties
  imports RoutingAdd "HOL-Library.Word"
begin

text \<open>
  What the routing table promises: the states it can reach, that \<open>AddContact\<close> returns and
  stores, what the queries answer, and where they go wrong. The lemmas on \<open>FindCloseNodes\<close> and
  on the sorting by distance come first.
\<close>

section \<open>Sorting by distance\<close>

lemma SortContacts_by_distance:
  "SortContactsByDistance key cs =
     (map snd (kadx.by_distance ct_node_id key cs),
      if length (kadx.by_distance ct_node_id key cs) = length cs then 0 else - 1)"
  by (simp add: SortContactsByDistance_def kadx.by_distance_def Let_def)

lemma SortContacts_ok:
  assumes "kadid_ok key" "\<forall>c\<in>set cs. kadid_ok (ct_node_id c)" "distinct (ids cs)"
  shows "\<exists>sorted. SortContactsByDistance key cs = (sorted, 0) \<and> set sorted = set cs \<and>
    length sorted = length cs \<and> sorted_wrt (\<lambda>x y. CloserToTarget (ct_node_id x) (ct_node_id y) key) sorted"
proof -
  let ?m = "kadx.by_distance ct_node_id key cs"
  have "sorted_wrt (<) (map (\<lambda>c. kadid_xor (ct_node_id c) key) (map snd ?m))" by (rule kadx.by_distance_sorted)
  then have "sorted_wrt (\<lambda>x y. CloserToTarget (ct_node_id x) (ct_node_id y) key) (map snd ?m)"
    by (simp add: sorted_wrt_map CloserToTarget_def)
  then show ?thesis
    using kadx.by_distance_keeps [where ident = ct_node_id, OF assms] by (simp add: SortContacts_by_distance)
qed

lemma SortContacts_subset: "set (fst (SortContactsByDistance key cs)) \<subseteq> set cs"
  using kadx.by_distance_subset [of ct_node_id key cs] by (simp add: SortContacts_by_distance)

section \<open>\<open>FindCloseNodes\<close>\<close>

lemma fill_loop_ok:
  assumes "int (length close) < count"
  shows "set (fst (fill_loop count cs close)) \<subseteq> set close \<union> set cs \<and>
    int (length (fst (fill_loop count cs close))) \<le> count \<and>
    (snd (fill_loop count cs close) \<longleftrightarrow> int (length (fst (fill_loop count cs close))) = count)"
  using assms
proof (induction cs arbitrary: close)
  case (Cons c cs)
  show ?case
  proof (cases "count = int (length (close @ [c]))")
    case True
    then show ?thesis by auto
  next
    case False
    with Cons.prems have "int (length (close @ [c])) < count" by simp
    from Cons.IH [OF this] False show ?thesis by (auto simp: Let_def)
  qed
qed simp

lemma bucket_at_valid: "i < length (rt_buckets rt) \<Longrightarrow> \<exists>kb\<in>set (rt_buckets rt). bucket_at rt i = Inr kb"
  by (simp add: bucket_at_def)

lemma kb_GetContacts_in:
  "kb \<in> set (rt_buckets rt) \<Longrightarrow> set (kb_GetContacts n exclude kb []) \<subseteq>
    {c \<in> rt_contacts rt. ct_node_id c \<notin> set (ids exclude)}"
proof -
  assume kb: "kb \<in> set (rt_buckets rt)"
  have "set (kb_GetContacts n exclude kb []) \<subseteq> {c \<in> set (kb_contacts kb). ct_node_id c \<notin> set (ids exclude)}"
    by (auto simp: kb_GetContacts_eq dest!: in_set_takeD)
  with kb show ?thesis by (auto simp: rt_contacts_def)
qed

lemma close_loop_ok:
  assumes "\<forall>i\<in>set indices. unat i < length (rt_buckets rt)" "int (length close) < count"
    "set close \<subseteq> {c \<in> rt_contacts rt. ct_node_id c \<notin> set (ids exclude)}"
  shows "\<exists>ns. close_loop rt key count exclude indices close = Inr ns \<and> int (length ns) \<le> count \<and>
    set ns \<subseteq> {c \<in> rt_contacts rt. ct_node_id c \<notin> set (ids exclude)}"
  using assms
proof (induction indices arbitrary: close)
  case Nil
  then show ?case by auto
next
  case (Cons i indices)
  from Cons.prems(1) bucket_at_valid [of "unat i" rt] obtain kb where
    kb: "kb \<in> set (rt_buckets rt)" "bucket_at rt (unat i) = Inr kb" by auto
  obtain cs r where sort: "SortContactsByDistance key (kb_GetContacts (rt_K rt) exclude kb []) = (cs, r)" by fastforce
  with SortContacts_subset kb_GetContacts_in [OF kb(1)]
  have cs: "set cs \<subseteq> {c \<in> rt_contacts rt. ct_node_id c \<notin> set (ids exclude)}" by (metis fst_conv subset_trans)
  obtain close' full where fill: "fill_loop count cs close = (close', full)" by fastforce
  from fill_loop_ok [OF Cons.prems(2), of cs] fill
  have f: "set close' \<subseteq> set close \<union> set cs" "int (length close') \<le> count" "full \<longleftrightarrow> int (length close') = count" by auto
  have IH: "int (length x) < count \<Longrightarrow> set x \<subseteq> {c \<in> rt_contacts rt. ct_node_id c \<notin> set (ids exclude)} \<Longrightarrow> ?case"
    if "close_loop rt key count exclude (i # indices) close = close_loop rt key count exclude indices x" for x
    using Cons.IH [of x] Cons.prems(1) that by auto
  show ?case
  proof (cases "r \<noteq> 0")
    case True
    then show ?thesis using IH [of close] Cons.prems(2,3) kb(2) sort by simp
  next
    case False
    have in_table: "set close' \<subseteq> {c \<in> rt_contacts rt. ct_node_id c \<notin> set (ids exclude)}" using f(1) cs Cons.prems(3) by blast
    show ?thesis
    proof (cases full)
      case True
      then show ?thesis using False kb(2) sort fill f(2) in_table by auto
    next
      case not_full: False
      then show ?thesis using False IH [of close'] kb(2) sort fill f(2,3) in_table by simp
    qed
  qed
qed

lemma SortBuckets_valid:
  assumes "rt_ok rt" "i \<in> set (SortBucketsByDistance key rt)"
  shows "unat i < length (rt_buckets rt)"
proof -
  have "i \<in> snd ` set (map (\<lambda>(k, v). (kadid_xor k key, v)) (rt_upper rt))"
    using assms(2) set_map_of_pairs_subset unfolding SortBucketsByDistance_def by fastforce
  then have "i \<in> snd ` set (upper_addresses (rt_buckets rt))"
    using assms(1) by (force simp: rt_ok_def)
  then obtain j where j: "j < length (rt_buckets rt)" "i = of_nat j"
    using upper_addresses_tiles [of "rt_K rt" "rt_low rt" "rt_buckets rt"] assms(1) by (auto simp: rt_ok_def)
  moreover have "j < 2 ^ 15" using j assms(1) by (simp add: rt_ok_def)
  ultimately show ?thesis by (simp add: unat_of_nat)
qed

lemma FindCloseNodes_ok:
  assumes "rt_ok rt" "in_space rt key" "0 \<le> count"
  shows "\<exists>ns. FindCloseNodes key count exclude [] rt = Inr ns \<and> int (length ns) \<le> count \<and>
    set ns \<subseteq> {c \<in> rt_contacts rt. ct_node_id c \<notin> set (ids exclude)}"
proof -
  obtain pre b post where at: "at_bucket rt key pre b post" by (rule at_bucket_exists [OF assms(1,2)])
  have "kadid_ok key" using assms(2) by (simp add: in_space_def)
  note idx = at_bucket_index [OF assms(1) this at]
  have b: "b \<in> set (rt_buckets rt)" using at by (simp add: at_bucket_def)
  let ?c1 = "kb_GetContacts (of_int count) exclude b []"
  have "unat (of_int count :: u16) \<le> nat count"
  proof -
    have "unat (of_nat (nat count) :: u16) \<le> nat count" by (simp add: unat_of_nat)
    moreover have "(of_int count :: u16) = of_nat (nat count)" using assms(3) by simp
    ultimately show ?thesis by (simp only:)
  qed
  then have len: "int (length ?c1) \<le> count" using assms(3) by (simp add: kb_GetContacts_eq)
  have c1: "set ?c1 \<subseteq> {c \<in> rt_contacts rt. ct_node_id c \<notin> set (ids exclude)}" by (rule kb_GetContacts_in [OF b])
  have find: "FindCloseNodes key count exclude [] rt =
      (if count = int (length ?c1) then Inr ?c1
       else close_loop rt key count exclude (drop 1 (SortBucketsByDistance key rt)) ?c1)"
    using idx by (simp add: FindCloseNodes_def Let_def)
  have "\<forall>i\<in>set (drop 1 (SortBucketsByDistance key rt)). unat i < length (rt_buckets rt)"
    using SortBuckets_valid [OF assms(1)] by (meson in_set_dropD)
  from close_loop_ok [OF this _ c1, of count key] len c1 show ?thesis unfolding find by auto
qed

section \<open>Ids above the address space\<close>

lemma KBucketIndex_above: "rt_address_upper rt < k \<Longrightarrow> KBucketIndex k rt = Inr (- 1)"
  by (simp add: KBucketIndex_def)

lemma bucket_at_max: "rt_ok rt \<Longrightarrow> bucket_at rt 65535 = Inl Undefined"
  by (simp add: bucket_at_def rt_ok_def)

section \<open>The bucket left out\<close>

text \<open>
  The bucket at position 0 of \<open>SortBucketsByDistance\<close> is never looked at again: the answer comes
  from the bucket of the key and from the buckets at the other positions.
\<close>

lemma close_loop_from:
  "close_loop rt key count exclude indices close = Inr ns \<Longrightarrow>
    set ns \<subseteq> set close \<union> (\<Union>i\<in>set indices. set (kb_contacts (rt_buckets rt ! unat i)))"
proof (induction indices arbitrary: close)
  case (Cons i indices)
  from Cons.prems obtain kb where kb: "bucket_at rt (unat i) = Inr kb" "kb = rt_buckets rt ! unat i"
    by (auto simp: bind_res_Inr_iff bucket_at_def split: if_splits)
  obtain cs r where sort: "SortContactsByDistance key (kb_GetContacts (rt_K rt) exclude kb []) = (cs, r)" by fastforce
  have "set (kb_GetContacts (rt_K rt) exclude kb []) \<subseteq> set (kb_contacts kb)"
    by (auto simp: kb_GetContacts_eq dest!: in_set_takeD)
  with sort SortContacts_subset have cs: "set cs \<subseteq> set (kb_contacts kb)" by (metis fst_conv subset_trans)
  obtain close' full where fill: "fill_loop count cs close = (close', full)" by fastforce
  have "set (fst (fill_loop count cs close)) \<subseteq> set close \<union> set cs"
    by (induction count cs close rule: fill_loop.induct) (auto simp: Let_def)
  with fill cs have close': "set close' \<subseteq> set close \<union> set (kb_contacts kb)" by auto
  have "close_loop rt key count exclude (i # indices) close =
      (if r \<noteq> 0 then close_loop rt key count exclude indices close
       else if full then Inr close' else close_loop rt key count exclude indices close')"
    using kb(1) sort fill by simp
  with Cons.prems Cons.IH [of close] Cons.IH [of close'] close' kb(2) show ?case by (auto split: if_splits)
qed simp

lemma SortBuckets_positions:
  assumes "rt_ok rt" "kadid_ok key"
  shows "distinct (SortBucketsByDistance key rt)"
    "set (SortBucketsByDistance key rt) = of_nat ` {..<length (rt_buckets rt)}"
proof -
  let ?ps = "map (\<lambda>(k, v). (kadid_xor k key, v)) (rt_upper rt)"
  have up: "rt_upper rt = map (\<lambda>j. (kb_range_max (rt_buckets rt ! j), of_nat j)) [0..<length (rt_buckets rt)]"
    using upper_addresses_tiles [of "rt_K rt" "rt_low rt" "rt_buckets rt"] assms(1) by (simp add: rt_ok_def)
  then have pos: "map snd ?ps = map of_nat [0..<length (rt_buckets rt)]" by simp
  have ids: "map fst (rt_upper rt) = map kb_range_max (rt_buckets rt)" unfolding up by (intro nth_equalityI) auto
  have ok: "kadid_ok k" if "k \<in> set (map kb_range_max (rt_buckets rt))" for k
  proof -
    from that obtain b where b: "b \<in> set (rt_buckets rt)" "k = kb_range_max b" by auto
    from split_list [OF b(1)] obtain pre post where "rt_buckets rt = pre @ b # post" by blast
    from rt_ok_at_tile [OF assms(1) this] b(2) show ?thesis by (simp add: tile_def)
  qed
  have "sorted_wrt (<) (map kb_range_max (rt_buckets rt))"
    using tiles_sorted [of "rt_K rt" "rt_low rt"] assms(1) by (simp add: rt_ok_def)
  then have "distinct (map kb_range_max (rt_buckets rt))" by (simp add: strict_sorted_iff)
  moreover have "inj_on (\<lambda>k. kadid_xor k key) (set (map kb_range_max (rt_buckets rt)))"
    using ok assms(2) kadx.dist_cancel by (intro inj_onI) blast
  ultimately have "distinct (map (\<lambda>k. kadid_xor k key) (map fst (rt_upper rt)))"
    by (simp only: ids distinct_map simp_thms)
  moreover have "map fst ?ps = map (\<lambda>k. kadid_xor k key) (map fst (rt_upper rt))" by (simp add: case_prod_beta comp_def)
  ultimately have "distinct (map fst ?ps)" by (simp only:)
  note keep = map_of_pairs_distinct [OF this]
  have set_eq: "set (SortBucketsByDistance key rt) = set (map snd ?ps)"
    using keep unfolding SortBucketsByDistance_def by (simp only: set_map)
  then show "set (SortBucketsByDistance key rt) = of_nat ` {..<length (rt_buckets rt)}"
    unfolding pos by (simp add: lessThan_atLeast0)
  have small: "length (rt_buckets rt) \<le> 2 ^ 15" using assms(1) by (simp add: rt_ok_def)
  have "distinct (map of_nat [0..<length (rt_buckets rt)] :: u16 list)"
  proof -
    have "inj_on (of_nat :: nat \<Rightarrow> u16) {0..<length (rt_buckets rt)}"
    proof (rule inj_onI)
      fix i j assume ij: "i \<in> {0..<length (rt_buckets rt)}" "j \<in> {0..<length (rt_buckets rt)}" "of_nat i = (of_nat j :: u16)"
      from ij(1,2) have u: "unat (of_nat i :: u16) = i" "unat (of_nat j :: u16) = j" using small by (simp_all add: unat_of_nat)
      have "i = unat (of_nat i :: u16)" by (rule u(1) [symmetric])
      also have "\<dots> = unat (of_nat j :: u16)" by (rule arg_cong [OF ij(3)])
      finally show "i = j" by (simp only: u(2))
    qed
    then show ?thesis by (simp add: distinct_map)
  qed
  then have "card (set (map snd ?ps)) = length (map snd ?ps)" unfolding pos by (rule distinct_card)
  then have "card (set (SortBucketsByDistance key rt)) = length (SortBucketsByDistance key rt)"
    unfolding set_eq using keep by (simp add: SortBucketsByDistance_def)
  then show "distinct (SortBucketsByDistance key rt)" by (rule card_distinct)
qed

lemma bucket_position_unique:
  assumes "rt_ok rt" "i < length (rt_buckets rt)" "j < length (rt_buckets rt)"
    "c \<in> set (kb_contacts (rt_buckets rt ! i))" "c \<in> set (kb_contacts (rt_buckets rt ! j))"
  shows "i = j"
proof -
  have "False" if "p < q" "q < length (rt_buckets rt)" "c \<in> set (kb_contacts (rt_buckets rt ! p))"
    "c \<in> set (kb_contacts (rt_buckets rt ! q))" for p q
  proof -
    let ?bs = "rt_buckets rt"
    have bs: "?bs = take q ?bs @ ?bs ! q # drop (Suc q) ?bs" using that(2) by (rule id_take_nth_drop)
    have t: "tile (rt_K rt) (next_low (rt_low rt) (take q ?bs)) (?bs ! q)" by (rule rt_ok_at_tile [OF assms(1) bs])
    then have "at_bucket rt (ct_node_id c) (take q ?bs) (?bs ! q) (drop (Suc q) ?bs)"
      using bs that(4) by (auto simp: at_bucket_def tile_def)
    moreover have "?bs ! p \<in> set (take q ?bs)" using that(1,2) by (auto simp: in_set_conv_nth intro!: exI [of _ p])
    ultimately show False using contact_elsewhere [OF assms(1)] that(3) by blast
  qed
  with assms(2-5) show ?thesis by (metis linorder_neqE_nat)
qed

lemma FindCloseNodes_skips:
  assumes ok: "rt_ok rt" and key: "in_space rt key" and find: "FindCloseNodes key count exclude [] rt = Inr ns"
    and sort: "SortBucketsByDistance key rt = i # is" and c: "c \<in> set ns" "c \<in> set (kb_contacts (rt_buckets rt ! unat i))"
  shows "KBucketIndex key rt = Inr i"
proof -
  obtain pre b post where at: "at_bucket rt key pre b post" by (rule at_bucket_exists [OF ok key])
  have "kadid_ok key" using key by (simp add: in_space_def)
  note idx = at_bucket_index [OF ok this at] and pos = SortBuckets_positions [OF ok this]
  have b: "b = rt_buckets rt ! length pre" "length pre < length (rt_buckets rt)" using at by (auto simp: at_bucket_def)
  let ?c1 = "kb_GetContacts (of_int count) exclude b []"
  have "FindCloseNodes key count exclude [] rt =
      (if count = int (length ?c1) then Inr ?c1 else close_loop rt key count exclude is ?c1)"
    using idx sort by (simp add: FindCloseNodes_def Let_def)
  with find close_loop_from [of rt key count exclude "is" ?c1 ns]
  have ns: "set ns \<subseteq> set ?c1 \<union> (\<Union>i\<in>set is. set (kb_contacts (rt_buckets rt ! unat i)))" by (auto split: if_splits)
  have c1: "set ?c1 \<subseteq> set (kb_contacts b)" by (auto simp: kb_GetContacts_eq dest!: in_set_takeD)
  have u: "unat j < length (rt_buckets rt)" if "j \<in> set (i # is)" for j
    by (rule SortBuckets_valid [OF ok, of _ key]) (simp only: sort that)
  have "c \<notin> set (kb_contacts (rt_buckets rt ! unat j))" if j: "j \<in> set is" for j
  proof
    assume "c \<in> set (kb_contacts (rt_buckets rt ! unat j))"
    from bucket_position_unique [OF ok u u c(2) this] j have "unat i = unat j" by simp
    then have "i = j" by (rule unsigned_word_eqI)
    with j pos(1) sort show False by simp
  qed
  with ns c(1) c1 have "c \<in> set (kb_contacts (rt_buckets rt ! length pre))" unfolding b(1) by blast
  from bucket_position_unique [OF ok u b(2) c(2) this] have "unat i = length pre" by simp
  then have "of_nat (length pre) = i" by (simp flip: \<open>unat i = length pre\<close>)
  with idx(1) show ?thesis by simp
qed

section \<open>Reachable states\<close>

text \<open>
  The tables of the program: the constructor's, whose lower address is a hash and whose upper
  address is \<open>KMaxID\<close>, with \<open>K > 2\<close>, and what the calls that change a table make of it. Two things
  are asked of the calls. Their id lies in the table's space, at or above the lower address:
  the code does not check it (\<open>below_space_lost\<close>). The units that \<open>operator>>\<close> reads behind a
  vector are even: the code leaves them to chance (\<open>SplitRange_bisects\<close>). \<open>Clear\<close> is left out, since it
  keeps the positions of the buckets it drops. The fuel 530 is one more than the bits of
  \<open>KMaxID\<close>, enough for every call.
\<close>

definition even_strays :: "(nat \<Rightarrow> ulong \<times> ulong) \<Rightarrow> bool" where
  "even_strays past \<longleftrightarrow> (\<forall>n. even (unat (fst (past n))) \<and> even (unat (snd (past n))))"

inductive rt_step :: "routing_table \<Rightarrow> routing_table \<Rightarrow> bool" where
  add: "in_space rt (ct_node_id c) \<Longrightarrow> even_strays past \<Longrightarrow>
    rt_AddContact 530 id_now past c rt = Inr (rt', r) \<Longrightarrow> rt_step rt rt'"
| remove: "in_space rt k \<Longrightarrow> rt_RemoveContact k rt = Inr rt' \<Longrightarrow> rt_step rt rt'"
| touch: "in_space rt k \<Longrightarrow> TouchKBucket now k rt = Inr rt' \<Longrightarrow> rt_step rt rt'"

inductive rt_reachable :: "routing_table \<Rightarrow> bool" where
  start: "RoutingTable_new id_now holder K = Inr rt \<Longrightarrow> kadid_ok id_now \<Longrightarrow> kadid_val id_now < 2 ^ 160 \<Longrightarrow>
    kadid_ok holder \<Longrightarrow> 3 \<le> unat K \<Longrightarrow> rt_reachable rt"
| step: "rt_reachable rt \<Longrightarrow> rt_step rt rt' \<Longrightarrow> rt_reachable rt'"

definition rt_inv :: "routing_table \<Rightarrow> bool" where
  "rt_inv rt \<longleftrightarrow> rt_ok rt \<and> 3 \<le> unat (rt_K rt) \<and> 9 * kadid_val (rt_address_upper rt) + 1 = 10 ^ 160 \<and>
     rt_low rt < 2 ^ 160 \<and> few_buckets 529 rt"

lemma RoutingTable_init_ok:
  assumes "kadid_ok min_id" "kadid_ok max_id" "kadid_ok holder" "min_id \<le> max_id"
  shows "rt_ok (RoutingTable_init min_id max_id holder K)"
proof -
  have "kadid_val min_id \<le> kadid_val max_id" using assms by (simp add: kadid_val_order)
  then show ?thesis
    using assms by (simp add: RoutingTable_init_def rt_ok_def rt_low_def tile_def KBucket_new_def kb_ok_def
        upper_addresses_def map_of_pairs_def)
qed

lemma KMaxID_bounds:
  fixes n :: nat
  assumes "9 * n + 1 = 10 ^ 160"
  shows "2 ^ 528 < n" "n < 2 ^ 529" "2 ^ 160 < n"
proof -
  have "(9 :: nat) * 2 ^ 528 + 1 < 10 ^ 160" "(10 :: nat) ^ 160 < 9 * 2 ^ 529" "(9 :: nat) * 2 ^ 160 + 1 < 10 ^ 160" by simp_all
  with assms show "2 ^ 528 < n" "n < 2 ^ 529" "2 ^ 160 < n" by linarith+
qed

lemma RoutingTable_new_inv:
  assumes "kadid_ok id_now" "kadid_val id_now < 2 ^ 160" "kadid_ok holder" "3 \<le> unat K"
  obtains max_id where "RoutingTable_new id_now holder K = Inr (RoutingTable_init id_now max_id holder K)"
    "kadid_ok max_id" "9 * kadid_val max_id + 1 = 10 ^ 160" "rt_inv (RoutingTable_init id_now max_id holder K)"
proof -
  obtain M where M: "KMaxID = Inr M" "kadid_ok M" "9 * kadid_val M + 1 = 10 ^ 160" using KMaxID_val by blast
  note bounds = KMaxID_bounds [OF M(3)]
  let ?rt = "RoutingTable_init id_now M holder K" and ?b = "KBucket_new id_now M K"
  have "id_now \<le> M" using bounds(3) assms(1,2) M(2) by (simp add: kadid_val_order)
  then have "rt_ok ?rt" using assms(1,3) M(2) by (intro RoutingTable_init_ok)
  moreover have "width_bits ?b \<le> 529" using bounds(2) by (intro width_bits_le) (simp add: KBucket_new_def)
  then have "few_buckets 529 ?rt" by (simp add: few_buckets_def RoutingTable_init_def)
  moreover have "rt_K ?rt = K" "rt_address_upper ?rt = M" "rt_low ?rt = kadid_val id_now"
    by (simp_all add: RoutingTable_init_def rt_low_def KBucket_new_def)
  ultimately have "rt_inv ?rt" using assms(2,4) M(3) by (simp only: rt_inv_def simp_thms)
  moreover have "RoutingTable_new id_now holder K = Inr ?rt" by (simp only: RoutingTable_new_def M(1) bind_res_simps)
  ultimately show thesis using that M(2,3) by blast
qed

lemma TouchKBucket_ok:
  assumes "rt_ok rt" "in_space rt k"
  shows "\<exists>rt'. TouchKBucket now k rt = Inr rt' \<and> rt_ok rt' \<and> same_space rt rt' \<and> rt_contacts rt' = rt_contacts rt \<and>
    (few_buckets D rt \<longrightarrow> few_buckets D rt')"
proof -
  obtain pre b post where at: "at_bucket rt k pre b post" by (rule at_bucket_exists [OF assms])
  have "kadid_ok k" using assms(2) by (simp add: in_space_def)
  note idx = at_bucket_index [OF assms(1) this at]
  have bs: "rt_buckets rt = pre @ b # post" using at by (simp add: at_bucket_def)
  let ?b = "set_last_accessed now b"
  have fields: "kb_range_min ?b = kb_range_min b" "kb_range_max ?b = kb_range_max b" "kb_contacts ?b = kb_contacts b"
    by (simp_all add: set_last_accessed_def)
  have "tile (rt_K rt) (next_low (rt_low rt) pre) ?b"
    using rt_ok_at_tile [OF assms(1) bs] by (auto simp: set_last_accessed_def tile_def kb_ok_def)
  from set_bucket_ok(1) [OF assms(1) bs this fields(1,2)] show ?thesis
    using idx set_bucket_same_space [OF bs fields(1)] few_buckets_replace [OF _ bs fields(1,2)]
    by (simp add: TouchKBucket_def Let_def rt_contacts_set_bucket [OF bs] rt_contacts_at [OF bs] fields(3))
qed

lemma at_bucket_width:
  assumes "rt_ok rt" "at_bucket rt k pre b post" "kadid_val (rt_address_upper rt) < 2 ^ f"
  shows "upper b < kadid_val (kb_range_min b) + 2 ^ f + 2"
proof -
  have bs: "rt_buckets rt = pre @ b # post" using assms(2) by (simp add: at_bucket_def)
  have "tiles (rt_K rt) (Suc (upper b)) post" using assms(1) by (simp add: rt_ok_def bs)
  then have "upper b \<le> upper (last (rt_buckets rt))"
    using tiles_upper_less [of "rt_K rt" "Suc (upper b)" post "last post"] by (cases "post = []") (auto simp: bs)
  moreover have "upper (last (rt_buckets rt)) = kadid_val (rt_address_upper rt)" using assms(1) by (simp add: rt_ok_def)
  ultimately show ?thesis using assms(3) by linarith
qed

lemma rt_RemoveContact_keeps:
  assumes "rt_ok rt" "in_space rt k" "rt_RemoveContact k rt = Inr rt'"
  shows "same_space rt rt'" "few_buckets D rt \<Longrightarrow> few_buckets D rt'"
proof -
  obtain pre b post where at: "at_bucket rt k pre b post" by (rule at_bucket_exists [OF assms(1,2)])
  have "kadid_ok k" using assms(2) by (simp add: in_space_def)
  note idx = at_bucket_index [OF assms(1) this at]
  have bs: "rt_buckets rt = pre @ b # post" using at by (simp add: at_bucket_def)
  have "kb_ok b" using rt_ok_at_tile [OF assms(1) bs] by (simp add: tile_def)
  then have "kb_RemoveContact k b = b\<lparr>kb_contacts := drop_id k (kb_contacts b)\<rparr>"
    by (intro kb_RemoveContact_eq) (simp add: kb_ok_def)
  with idx assms(3) have "rt' = set_bucket (length pre) (b\<lparr>kb_contacts := drop_id k (kb_contacts b)\<rparr>) rt"
    by (simp add: rt_RemoveContact_def)
  with set_bucket_same_space [OF bs] few_buckets_replace [OF _ bs]
  show "same_space rt rt'" "few_buckets D rt \<Longrightarrow> few_buckets D rt'" by simp_all
qed

lemma rt_inv_same_space:
  "rt_inv rt \<Longrightarrow> same_space rt rt' \<Longrightarrow> rt_ok rt' \<Longrightarrow> few_buckets 529 rt' \<Longrightarrow> rt_inv rt'"
  by (simp add: rt_inv_def same_space_def)

lemma AddContact_returns:
  assumes "rt_inv rt" "in_space rt (ct_node_id c)" "even_strays past" "529 \<le> f"
  shows "\<exists>rt' r. rt_AddContact (Suc f) id_now past c rt = Inr (rt', r) \<and> rt_inv rt' \<and> same_space rt rt' \<and>
    (r = 0 \<and> added c rt rt' \<or> r = 2 \<and> rt_contacts rt' = rt_contacts rt)"
proof -
  from assms(1) have inv: "rt_ok rt" "3 \<le> unat (rt_K rt)" "9 * kadid_val (rt_address_upper rt) + 1 = 10 ^ 160"
    "few_buckets 529 rt" by (simp_all only: rt_inv_def)
  obtain pre b post where at: "at_bucket rt (ct_node_id c) pre b post" by (rule at_bucket_exists [OF inv(1) assms(2)])
  have "(2 :: nat) ^ 529 \<le> 2 ^ f" using assms(4) by (intro power_increasing) simp_all
  with KMaxID_bounds(2) [OF inv(3)] have "kadid_val (rt_address_upper rt) < 2 ^ f" by linarith
  note width = at_bucket_width [OF inv(1) at this]
  have "kadid_ok (ct_node_id c)" using assms(2) by (simp add: in_space_def)
  from AddContact_ok [OF inv(1) at this inv(2) _ width inv(4), of past id_now] assms(3)
    rt_inv_same_space [OF assms(1)] show ?thesis by (fastforce simp: even_strays_def)
qed

lemma rt_step_inv:
  "rt_step rt rt' \<Longrightarrow> rt_inv rt \<Longrightarrow> rt_inv rt'"
proof (induction rule: rt_step.induct)
  case (add rt c past id_now rt' r)
  from AddContact_returns [OF add(4,1,2), of 529 id_now] add(3) show ?case by simp
next
  case (remove rt k rt')
  then have ok: "rt_ok rt" by (simp add: rt_inv_def)
  from rt_RemoveContact_ok [OF ok remove(1)] remove(2) have "rt_ok rt'" by auto
  with rt_RemoveContact_keeps [OF ok remove(1,2)] rt_inv_same_space [OF remove(3)] remove(3) show ?case
    by (simp only: rt_inv_def)
next
  case (touch rt k now rt')
  then have "rt_ok rt" by (simp add: rt_inv_def)
  from TouchKBucket_ok [OF this touch(1), of now 529] touch(2) have
    "rt_ok rt'" "same_space rt rt'" "few_buckets 529 rt \<longrightarrow> few_buckets 529 rt'" by simp_all
  with rt_inv_same_space [OF touch(3)] touch(3) show ?case by (simp only: rt_inv_def)
qed

lemma rt_reachable_inv: "rt_reachable rt \<Longrightarrow> rt_inv rt"
proof (induction rule: rt_reachable.induct)
  case (start id_now holder K rt)
  from RoutingTable_new_inv [OF start(2-5)] start(1) show ?case by fastforce
next
  case (step rt rt')
  then show ?case using rt_step_inv by blast
qed

lemma rt_reachable_ok: "rt_reachable rt \<Longrightarrow> rt_ok rt"
  by (drule rt_reachable_inv) (simp add: rt_inv_def)

lemma contact_in_space:
  assumes "rt_ok rt" "c \<in> rt_contacts rt"
  shows "in_space rt (ct_node_id c)"
proof -
  obtain b where b: "b \<in> set (rt_buckets rt)" "c \<in> set (kb_contacts b)" using assms(2) by (auto simp: rt_contacts_def)
  from split_list [OF b(1)] obtain pre post where bs: "rt_buckets rt = pre @ b # post" by blast
  have t: "tile (rt_K rt) (next_low (rt_low rt) pre) b" by (rule rt_ok_at_tile [OF assms(1) bs])
  have low: "rt_low rt \<le> next_low (rt_low rt) pre"
    using assms(1) by (intro next_low_mono [of "rt_K rt"]) (simp add: rt_ok_def bs)
  have "upper b \<le> upper (last (rt_buckets rt))"
    using assms(1) tiles_upper_less [of "rt_K rt" "Suc (upper b)" post "last post"] by (cases "post = []") (auto simp: rt_ok_def bs)
  then have "kadid_val (ct_node_id c) \<le> kadid_val (rt_address_upper rt)"
    using t b(2) assms(1) by (auto simp: tile_def rt_ok_def)
  moreover have "kadid_ok (ct_node_id c)" "next_low (rt_low rt) pre \<le> kadid_val (ct_node_id c)"
    using t b(2) by (auto simp: tile_def)
  ultimately show ?thesis using low rt_ok_upper_ok [OF assms(1)] by (simp add: in_space_def kadid_val_order)
qed

section \<open>Ids below the address space\<close>

text \<open>
  \<open>KBucketIndex\<close> sends an id below the lower address to the first bucket; \<open>SplitKbucket\<close> asks
  \<open>KeyInRange\<close> and hands it to the right half.
\<close>

lemma KBucketIndex_first:
  assumes ok: "rt_ok rt" and k: "kadid_ok k" "kadid_val k \<le> upper b" and bs: "rt_buckets rt = b # bs"
  shows "KBucketIndex k rt = Inr 0"
proof -
  have t: "tiles (rt_K rt) (rt_low rt) (b # bs)" and up: "rt_upper rt = upper_addresses (b # bs)"
    and last: "kb_range_max (last (b # bs)) = rt_address_upper rt" using ok by (simp_all add: rt_ok_def bs)
  have "upper b \<le> upper (last (b # bs))"
    using tiles_upper_less [of "rt_K rt" "Suc (upper b)" bs "last bs"] t by (cases "bs = []") auto
  then have "\<not> kadid_gt k (rt_address_upper rt)"
    using k rt_ok_upper_ok [OF ok] last by (simp add: kadid_val_order)
  moreover have "kadid_ok (kb_range_max b)" using t by (simp add: tile_def)
  then have "\<not> kb_range_max b < k" using k by (simp add: kadid_val_order)
  ultimately show ?thesis
    by (simp add: KBucketIndex_def up upper_addresses_tiles [OF t] map_lower_bound_def upt_conv_Cons del: upt_Suc)
qed

lemma below_space_lost:
  assumes ok: "rt_ok rt" and bs: "rt_buckets rt = b # bs" and wide: "rt_low rt + 3 \<le> upper b"
    and room: "length (kb_contacts b) < unat (rt_K rt)" "length (rt_buckets rt) < 2 ^ 15"
    and c: "kadid_ok (ct_node_id c)" "kadid_val (ct_node_id c) < rt_low rt"
    and ev: "even (unat (fst past))" "even (unat (snd past))"
  shows "\<exists>rt1 rt2. rt_AddContact (Suc f) id_now pasts c rt = Inr (rt1, 0) \<and>
    rt_GetContact (ct_node_id c) rt1 = Inr (Some c) \<and> SplitKbucket past 0 rt1 = Inr rt2 \<and>
    c \<in> rt_contacts rt2 \<and> rt_GetContact (ct_node_id c) rt2 = Inr None"
proof -
  let ?k = "ct_node_id c" and ?K = "rt_K rt"
  define b1 where "b1 = b\<lparr>kb_contacts := c # kb_contacts b\<rparr>"
  define rt1 where "rt1 = set_bucket 0 b1 rt"
  have t: "tile ?K (rt_low rt) b" using ok by (simp add: rt_ok_def bs)
  then have b: "kb_ok b" "kb_K b = ?K" "kadid_ok (kb_range_min b)" "kadid_ok (kb_range_max b)"
    "kadid_val (kb_range_min b) = rt_low rt" by (simp_all add: tile_def rt_low_def bs)
  have new: "?k \<notin> set (ids (kb_contacts b))" using t c(2) by (auto simp: tile_def)
  have k: "kadid_val ?k \<le> upper b" using c(2) wide by simp
  note first = KBucketIndex_first [OF ok c(1) k bs]
  have add: "kb_AddContact c b = (b1, SUCCEED)"
    using kb_AddContact_eq [OF b(1), of c] new room(1) b(2) by (simp add: b1_def drop_id_absent)
  have call: "rt_AddContact (Suc f) id_now pasts c rt = Inr (rt1, 0)"
    using first add by (simp add: bucket_at_def bs rt1_def)
  have rt1: "rt_buckets rt1 = b1 # bs" "rt_K rt1 = ?K" "rt_upper rt1 = rt_upper rt" "rt_address_upper rt1 = rt_address_upper rt"
    by (simp_all add: rt1_def set_bucket_def bs)
  have b1: "kb_ok b1" "kb_K b1 = ?K" "kb_contacts b1 = c # kb_contacts b" "kb_range_min b1 = kb_range_min b" "kb_range_max b1 = kb_range_max b"
    using b(1,2) new room(1) by (auto simp: b1_def kb_ok_def)
  have found: "rt_GetContact ?k rt1 = Inr (Some c)"
  proof -
    have "KBucketIndex ?k rt1 = KBucketIndex ?k rt" by (simp add: KBucketIndex_def rt1)
    then show ?thesis using first by (simp add: rt_GetContact_def rt1(1) bucket_at_def kb_GetContact_def b1(3))
  qed
  from SplitRange_val [OF b(3,4) ev] obtain min1 max1 where split: "SplitRange past (kb_range_min b) (kb_range_max b) = Inr (min1, max1)"
    "kadid_ok min1" "kadid_ok max1" "kadid_val min1 = kadid_val max1 + 1"
    "kadid_val max1 = kadid_val (kb_range_min b) div 2 + upper b div 2" by blast
  have "next_low (rt_low rt) [] + 3 \<le> upper b" using wide by simp
  note halves = SplitKbucket_ok [OF ok _ this ev room(2), of bs, unfolded append_Nil, OF bs]
  obtain l r rt' where lr: "rt_ok rt'" "rt_buckets rt' = l # r # bs" "rt_address_upper rt' = rt_address_upper rt"
      "upper l = kadid_val (kb_range_min b) div 2 + upper b div 2 + 1" "kadid_ok (kb_range_max l)"
      "kb_range_max r = kb_range_max b" using halves by blast
  have uppers: "kb_range_max l = min1"
    using kadid_val_order(3) [OF lr(5) split(2)] lr(4) split(4,5) by simp
  define l0 r0 where "l0 = KBucket_new (kb_range_min b) min1 ?K" and "r0 = KBucket_new max1 (kb_range_max b) ?K"
  define ls rs where "ls = filter (\<lambda>x. KeyInRange l0 (ct_node_id x)) (kb_contacts b1)"
    and "rs = filter (\<lambda>x. \<not> KeyInRange l0 (ct_node_id x)) (kb_contacts b1)"
  define l1 r1 where "l1 = add_all ls l0" and "r1 = add_all rs r0"
  have d: "distinct (ids (kb_contacts b1))" "length (kb_contacts b1) \<le> unat ?K" using b1(1,2) by (auto simp: kb_ok_def)
  then have "distinct (ids ls)" "distinct (ids rs)" "length ls \<le> unat ?K" "length rs \<le> unat ?K"
    unfolding ls_def rs_def by (auto simp: distinct_map_filter intro: le_trans [OF length_filter_le])
  then have cs: "kb_contacts l1 = ls" "kb_contacts r1 = rs"
    unfolding l1_def r1_def l0_def r0_def by (simp_all add: add_all_new)
  have "kb_GetContacts ?K [] b1 [] = kb_contacts b1" using kb_GetContacts_all [OF b1(1)] b1(2) by simp
  then have sc: "split_contacts (kb_GetContacts ?K [] b1 []) (l0, r0) = (l1, r1)"
    by (simp add: split_contacts_eq l1_def r1_def ls_def rs_def)
  obtain rt2 where rt2: "SplitKbucket past 0 rt1 = Inr rt2" "rt_buckets rt2 = l1 # r1 # bs"
    "rt_upper rt2 = upper_addresses (l1 # r1 # bs)" "rt_address_upper rt2 = rt_address_upper rt"
    using split(1) sc by (auto simp: SplitKbucket_def bucket_at_def rt1 b1(4,5) l0_def r0_def Let_def)
  have "kb_range_max l1 = kb_range_max l" "kb_range_max r1 = kb_range_max r"
    by (simp_all add: l1_def r1_def l0_def r0_def KBucket_new_def uppers lr(6))
  then have "upper_addresses (l1 # r1 # bs) = upper_addresses (l # r # bs)" by (intro upper_addresses_cong) simp
  then have "KBucketIndex ?k rt2 = KBucketIndex ?k rt'" using lr(1-3) rt2(3,4) by (simp add: KBucketIndex_def rt_ok_def)
  moreover have "kadid_val ?k \<le> upper l" using c(2) b(5) wide lr(4) by presburger
  from KBucketIndex_first [OF lr(1) c(1) this lr(2)] have "KBucketIndex ?k rt' = Inr 0" .
  moreover have out: "\<not> KeyInRange l0 ?k" using c b(3,5) split(2) by (simp add: KeyInRange_val l0_def KBucket_new_def)
  then have "find_contact ?k ls = None" using new unfolding ls_def b1(3)
    by (intro find_contact_None [THEN iffD2]) auto
  ultimately have "rt_GetContact ?k rt2 = Inr None"
    by (simp add: rt_GetContact_def rt2(2) bucket_at_def kb_GetContact_def cs(1))
  moreover have "c \<in> rt_contacts rt2" using out by (simp add: rt_contacts_def rt2(2) cs(2) rs_def b1(3))
  ultimately show ?thesis using call found rt2(1) by blast
qed

section \<open>Example tables\<close>

definition ex_id :: "ulong \<Rightarrow> kadid" where "ex_id n = kadid_of_rossi (rossi_of_ulong n)"
definition ex_contact :: "ulong \<Rightarrow> contact" where "ex_contact n = Contact_host 0 (ex_id n) [] 0"
definition ex_table :: "u16 \<Rightarrow> routing_table" where "ex_table K = RoutingTable_init (ex_id 0) (ex_id 1000) (ex_id 5) K"

lemma ex_id_facts [simp]:
  "kadid_ok (ex_id n)" "kadid_val (ex_id n) = unat n" "ct_node_id (ex_contact n) = ex_id n"
  by (simp_all add: ex_id_def ex_contact_def Contact_host_def Contact_full_def)

lemma ex_table_ok: "rt_ok (ex_table K)"
  unfolding ex_table_def by (rule RoutingTable_init_ok) (simp_all add: kadid_val_order)

lemma ex_table_fields [simp]:
  "rt_K (ex_table K) = K" "rt_address_upper (ex_table K) = ex_id 1000" "length (rt_buckets (ex_table K)) = 1"
  "rt_low (ex_table K) = 0"
  by (simp_all add: ex_table_def RoutingTable_init_def rt_low_def KBucket_new_def)

text \<open>The constructor's table with the lower address 1, and the ids below \<open>2^64\<close> in it.\<close>

definition ex_start :: "u16 \<Rightarrow> routing_table" where
  "ex_start K = (case RoutingTable_new (ex_id 1) (ex_id 5) K of Inr rt \<Rightarrow> rt | Inl e \<Rightarrow> ex_table K)"

lemma ex_start_reachable:
  assumes "3 \<le> unat K"
  shows "rt_reachable (ex_start K)"
    "\<exists>M. ex_start K = RoutingTable_init (ex_id 1) M (ex_id 5) K \<and> kadid_ok M \<and> 9 * kadid_val M + 1 = 10 ^ 160"
proof -
  have "kadid_val (ex_id 1) < 2 ^ 160" by simp
  from RoutingTable_new_inv [OF _ this _ assms, of "ex_id 5"] obtain M where
    M: "RoutingTable_new (ex_id 1) (ex_id 5) K = Inr (RoutingTable_init (ex_id 1) M (ex_id 5) K)" "kadid_ok M"
      "9 * kadid_val M + 1 = 10 ^ 160" by auto
  then have "ex_start K = RoutingTable_init (ex_id 1) M (ex_id 5) K" by (simp add: ex_start_def)
  with M(2,3) show "\<exists>M. ex_start K = RoutingTable_init (ex_id 1) M (ex_id 5) K \<and> kadid_ok M \<and> 9 * kadid_val M + 1 = 10 ^ 160"
    by blast
  from rt_reachable.start [OF M(1)] assms M(1) show "rt_reachable (ex_start K)" by (simp add: ex_start_def)
qed

lemma ex_start_space:
  assumes "3 \<le> unat K" "1 \<le> unat n"
  shows "in_space (ex_start K) (ex_id n)"
proof -
  obtain M where M: "ex_start K = RoutingTable_init (ex_id 1) M (ex_id 5) K" "kadid_ok M" "9 * kadid_val M + 1 = 10 ^ 160"
    using ex_start_reachable(2) [OF assms(1)] by blast
  have "unat n < 2 ^ 64" using unsigned_less [of n] by simp
  moreover have "(2 :: nat) ^ 64 < 2 ^ 160" by simp
  ultimately have "unat n < 2 ^ 160" by linarith
  with KMaxID_bounds(3) [OF M(3)] have "unat n \<le> kadid_val M" by linarith
  with assms(2) M(2) show ?thesis
    by (simp add: M(1) in_space_def rt_low_def RoutingTable_init_def KBucket_new_def kadid_val_order)
qed

text \<open>The first contact added.\<close>

lemma ex_start_add:
  assumes "3 \<le> unat K" "1 \<le> unat n"
  shows "\<exists>rt b. rt_AddContact 530 (ex_id 1) (\<lambda>_. (0, 0)) (ex_contact n) (ex_start K) = Inr (rt, 0) \<and>
    rt_buckets rt = [b] \<and> kb_contacts b = [ex_contact n] \<and> 2 ^ 160 < upper b \<and> rt_K rt = K \<and> rt_low rt = 1"
proof -
  obtain M where M: "ex_start K = RoutingTable_init (ex_id 1) M (ex_id 5) K" "kadid_ok M" "9 * kadid_val M + 1 = 10 ^ 160"
    using ex_start_reachable(2) [OF assms(1)] by blast
  let ?b = "KBucket_new (ex_id 1) M K"
  have bs: "rt_buckets (ex_start K) = [?b]" "rt_K (ex_start K) = K" by (simp_all add: M(1) RoutingTable_init_def)
  have space: "in_space (ex_start K) (ex_id n)" by (rule ex_start_space [OF assms])
  then have "at_bucket (ex_start K) (ct_node_id (ex_contact n)) [] ?b []"
    using M(2) unfolding at_bucket_def bs by (simp add: in_space_def M(1) RoutingTable_init_def rt_low_def KBucket_new_def kadid_val_order)
  from AddContact_step(1) [OF rt_reachable_ok [OF ex_start_reachable(1) [OF assms(1)]] _ this, of 529 "ex_id 1" "\<lambda>_. (0, 0)"] assms(1)
  have "rt_AddContact (Suc 529) (ex_id 1) (\<lambda>_. (0, 0)) (ex_contact n) (ex_start K) =
      Inr (set_bucket 0 (?b\<lparr>kb_contacts := [ex_contact n]\<rparr>) (ex_start K), 0)"
    by (simp add: KBucket_new_def bs del: rt_AddContact.simps)
  moreover have "rt_buckets (set_bucket 0 (?b\<lparr>kb_contacts := [ex_contact n]\<rparr>) (ex_start K)) = [?b\<lparr>kb_contacts := [ex_contact n]\<rparr>]"
    by (simp add: set_bucket_def bs)
  moreover have "rt_K (set_bucket 0 (?b\<lparr>kb_contacts := [ex_contact n]\<rparr>) (ex_start K)) = K"
    by (simp add: set_bucket_def bs)
  ultimately show ?thesis using KMaxID_bounds(3) [OF M(3)]
    by (intro exI [of _ "set_bucket 0 (?b\<lparr>kb_contacts := [ex_contact n]\<rparr>) (ex_start K)"] exI [of _ "?b\<lparr>kb_contacts := [ex_contact n]\<rparr>"])
      (simp add: rt_low_def KBucket_new_def del: rt_AddContact.simps)
qed

section \<open>A table whose closest contact is missed\<close>

text \<open>
  A table of the constructor, with any lower address and \<open>K = 3\<close>, after four calls of
  \<open>AddContact\<close>: the last one splits the only bucket.
\<close>

definition contact_of :: "kadid \<Rightarrow> contact" where "contact_of k = Contact_host 0 k [] 0"

definition one_bucket :: "kadid \<Rightarrow> kadid \<Rightarrow> kadid \<Rightarrow> kadid list \<Rightarrow> routing_table" where
  "one_bucket lo hi holder ks =
     set_bucket 0 ((KBucket_new lo hi 3)\<lparr>kb_contacts := map contact_of ks\<rparr>) (RoutingTable_init lo hi holder 3)"

lemma contact_of_id [simp]: "ct_node_id (contact_of k) = k"
  by (simp add: contact_of_def Contact_host_def Contact_full_def)

lemma kadid_exists: "\<exists>k. kadid_ok k \<and> kadid_val k = n"
proof (induction n)
  case 0
  show ?case by (intro exI [of _ "kadid_of_rossi (rossi_of_ulong 0)"]) simp
next
  case (Suc n)
  then obtain k where "kadid_ok k" "kadid_val k = n" by blast
  then show ?case by (intro exI [of _ "kadid_plus k (kadid_of_rossi (rossi_of_ulong 1))"]) simp
qed

lemma one_bucket_fields:
  "rt_buckets (one_bucket lo hi h ks) = [(KBucket_new lo hi 3)\<lparr>kb_contacts := map contact_of ks\<rparr>]"
  "rt_low (one_bucket lo hi h ks) = kadid_val lo" "rt_address_upper (one_bucket lo hi h ks) = hi"
  "rt_K (one_bucket lo hi h ks) = 3" "rt_holder (one_bucket lo hi h ks) = h"
  by (simp_all add: one_bucket_def set_bucket_def RoutingTable_init_def rt_low_def KBucket_new_def)

lemma one_bucket_at:
  assumes "kadid_ok k" "kadid_ok hi" "kadid_val lo \<le> kadid_val k" "kadid_val k \<le> kadid_val hi"
  shows "in_space (one_bucket lo hi h ks) k"
    "at_bucket (one_bucket lo hi h ks) k [] ((KBucket_new lo hi 3)\<lparr>kb_contacts := map contact_of ks\<rparr>) []"
  using assms by (simp_all add: in_space_def at_bucket_def one_bucket_fields kadid_val_order KBucket_new_def)

lemma even_strays_0: "even_strays (\<lambda>_. (0, 0))"
  by (simp add: even_strays_def)

lemma one_bucket_add:
  assumes reach: "rt_reachable (one_bucket lo hi h ks)" and "kadid_ok hi" "kadid_ok k" "k \<notin> set ks" "length ks < 3"
    "kadid_val lo \<le> kadid_val k" "kadid_val k \<le> kadid_val hi"
  shows "rt_reachable (one_bucket lo hi h (k # ks))"
proof -
  let ?b = "(KBucket_new lo hi 3)\<lparr>kb_contacts := map contact_of ks\<rparr>"
  note at = one_bucket_at [OF assms(3,2,6,7), of h ks]
  have "rt_AddContact (Suc 529) lo (\<lambda>_. (0, 0)) (contact_of k) (one_bucket lo hi h ks) =
      Inr (set_bucket 0 (?b\<lparr>kb_contacts := contact_of k # drop_id k (map contact_of ks)\<rparr>) (one_bucket lo hi h ks), 0)"
    using AddContact_step(1) [OF rt_reachable_ok [OF reach], of "contact_of k" "[]" ?b "[]" 529 lo "\<lambda>_. (0, 0)"] at(2) assms(3,5)
    by (simp add: one_bucket_fields)
  moreover have "drop_id k (map contact_of ks) = map contact_of ks" using assms(4) by (intro drop_id_absent) (simp add: comp_def)
  then have "set_bucket 0 (?b\<lparr>kb_contacts := contact_of k # drop_id k (map contact_of ks)\<rparr>) (one_bucket lo hi h ks) =
      one_bucket lo hi h (k # ks)" by (simp add: one_bucket_def set_bucket_def RoutingTable_init_def)
  ultimately have "rt_AddContact 530 lo (\<lambda>_. (0, 0)) (contact_of k) (one_bucket lo hi h ks) = Inr (one_bucket lo hi h (k # ks), 0)"
    by simp
  from rt_step.add [OF _ even_strays_0 this] at(1) show ?thesis by (intro rt_reachable.step [OF reach]) simp
qed

lemma xor_below: "a < 2 ^ n \<Longrightarrow> b < 2 ^ n \<Longrightarrow> a XOR b < (2 :: nat) ^ n"
proof -
  assume "a < 2 ^ n" "b < 2 ^ n"
  then have "take_bit n (a XOR b) = a XOR b" by (simp add: take_bit_nat_eq_self)
  then show "a XOR b < 2 ^ n" by (metis take_bit_nat_less_exp)
qed

lemma xor_above: "2 ^ n \<le> a \<Longrightarrow> a < 2 * 2 ^ n \<Longrightarrow> b < 2 ^ n \<Longrightarrow> (2 :: nat) ^ n \<le> a XOR b"
proof -
  assume a: "2 ^ n \<le> a" "a < 2 * 2 ^ n" and b: "b < 2 ^ n"
  have "a div 2 ^ n = 1" using a by (intro div_nat_eqI) simp_all
  moreover have "b div 2 ^ n = 0" using b by simp
  moreover have "drop_bit n (a XOR b) = drop_bit n a XOR drop_bit n b" by (rule drop_bit_xor)
  ultimately have "(a XOR b) div 2 ^ n = 1" unfolding drop_bit_eq_div by simp
  then show "2 ^ n \<le> a XOR b" by (metis div_less less_one not_less zero_neq_one)
qed

text \<open>The split: the two ids below \<open>u\<close> and \<open>u\<close> itself on the left, the upper address on the right.\<close>

lemma two_buckets:
  assumes lo: "kadid_ok lo" "kadid_val lo < 2 ^ 160" and h: "kadid_ok h" "lo \<le> h" "kadid_val h < 2 ^ 160"
  obtains rt M u l r where "rt_reachable rt" "rt_K rt = 3" "rt_address_upper rt = M" "rt_buckets rt = [l, r]"
    "kadid_ok u" "contact_of u \<in> set (kb_contacts l)" "kb_contacts r = [contact_of M]" "kadid_ok M"
    "9 * kadid_val M + 1 = 10 ^ 160" "kadid_val u = kadid_val lo div 2 + kadid_val M div 2 + 1"
    "kb_range_max l = u" "kb_range_max r = M" "rt_low rt = kadid_val lo"
proof -
  from RoutingTable_new_inv [OF lo h(1), of 3] obtain M where
    new: "RoutingTable_new lo h 3 = Inr (RoutingTable_init lo M h 3)" and M: "kadid_ok M" "9 * kadid_val M + 1 = 10 ^ 160"
    by auto
  note big = KMaxID_bounds [OF M(2)]
  let ?u = "kadid_val lo div 2 + kadid_val M div 2 + 1"
  obtain u w where u: "kadid_ok u" "kadid_val u = ?u" and w: "kadid_ok w" "kadid_val w = ?u - 1" using kadid_exists by metis
  have half: "2 ^ 160 < kadid_val M div 2" using big(1) by simp
  have le: "kadid_val lo \<le> kadid_val u" "kadid_val u \<le> kadid_val M" "kadid_val lo < kadid_val w" "kadid_val w < kadid_val u"
    "kadid_val u < kadid_val M" "kadid_val lo \<le> kadid_val M" "kadid_val w \<le> kadid_val M" using lo(2) half u w by simp_all
  then have ne: "lo \<noteq> u" "M \<noteq> u" "M \<noteq> lo" "w \<noteq> lo" "w \<noteq> u" "w \<noteq> M" by auto
  have "rt_reachable (RoutingTable_init lo M h 3)" by (rule rt_reachable.start [OF new lo h(1)]) simp
  then have "rt_reachable (one_bucket lo M h [])" by (simp add: one_bucket_def set_bucket_def RoutingTable_init_def KBucket_new_def)
  from one_bucket_add [OF this M(1) u(1)] le have "rt_reachable (one_bucket lo M h [u])" by simp
  from one_bucket_add [OF this M(1) lo(1)] le ne have "rt_reachable (one_bucket lo M h [lo, u])" by simp
  from one_bucket_add [OF this M(1) M(1)] le ne have full: "rt_reachable (one_bucket lo M h [M, lo, u])" by simp
  let ?rt = "one_bucket lo M h [M, lo, u]" and ?b = "(KBucket_new lo M 3)\<lparr>kb_contacts := map contact_of [M, lo, u]\<rparr>"
  note ok = rt_reachable_ok [OF full] and at = one_bucket_at [OF w(1) M(1), of lo h "[M, lo, u]"]
  have live: "KeyInRange ?b h"
    using lo(1) M(1) h big(3) by (simp add: KeyInRange_val KBucket_new_def kadid_val_order)
  have "next_low (rt_low ?rt) [] + 3 \<le> upper ?b"
    using half lo(2) by (simp add: one_bucket_fields KBucket_new_def)
  from SplitKbucket_ok [OF ok _ this, of "[]" "(0, 0)"] obtain l r rt' where
    split: "SplitKbucket (0, 0) 0 ?rt = Inr rt'" "rt_ok rt'" "rt_buckets rt' = [l, r]" "rt_low rt' = kadid_val lo"
      "rt_address_upper rt' = M" "rt_K rt' = 3" "rt_holder rt' = h" and
    lr: "kb_range_max r = M" "upper l = ?u" "kadid_ok (kb_range_max l)"
      "kb_contacts l = filter (\<lambda>x. kadid_val (ct_node_id x) \<le> upper l) (map contact_of [M, lo, u])"
      "kb_contacts r = filter (\<lambda>x. upper l < kadid_val (ct_node_id x)) (map contact_of [M, lo, u])"
    by (auto simp: one_bucket_fields KBucket_new_def)
  have max_l: "kb_range_max l = u" using kadid_val_order(3) [OF lr(3) u(1)] lr(2) u(2) by simp
  have cs: "kb_contacts l = [contact_of lo, contact_of u]" "kb_contacts r = [contact_of M]"
    using lr(4,5) le unfolding max_l by simp_all
  have low: "kadid_val lo \<le> kadid_val w" using le(3) by simp
  have call: "rt_AddContact (Suc (Suc 528)) lo (\<lambda>_. (0, 0)) (contact_of w) ?rt =
      rt_AddContact (Suc 528) lo (\<lambda>_. (0, 0)) (contact_of w) rt'"
    using AddContact_step(2) [OF ok, of "contact_of w" "[]" ?b "[]" "Suc 528" lo "\<lambda>_. (0, 0)"] at(2) [OF low le(7)] w(1) ne live split(1)
    by (simp add: one_bucket_fields del: rt_AddContact.simps)
  have "at_bucket rt' (ct_node_id (contact_of w)) [] l [r]" using split(3,4) low le(4) max_l by (simp add: at_bucket_def)
  from AddContact_step(1) [OF split(2) _ this, of 528 lo "\<lambda>_. (0, 0)"] w(1) cs(1) split(6)
  have last: "rt_AddContact (Suc 528) lo (\<lambda>_. (0, 0)) (contact_of w) rt' =
      Inr (set_bucket 0 (l\<lparr>kb_contacts := contact_of w # drop_id w (kb_contacts l)\<rparr>) rt', 0)"
    by (simp del: rt_AddContact.simps)
  let ?l = "l\<lparr>kb_contacts := contact_of w # drop_id w (kb_contacts l)\<rparr>"
  let ?rt4 = "set_bucket 0 ?l rt'"
  have "rt_AddContact 530 lo (\<lambda>_. (0, 0)) (contact_of w) ?rt = Inr (?rt4, 0)"
    using call last by (simp del: rt_AddContact.simps)
  from rt_step.add [OF _ even_strays_0 this] at(1) [OF low le(7)] have "rt_reachable ?rt4"
    by (intro rt_reachable.step [OF full]) simp
  moreover have "rt_buckets ?rt4 = [?l, r]" by (simp add: set_bucket_def split(3))
  moreover have "rt_K ?rt4 = 3" "rt_address_upper ?rt4 = M" "rt_low ?rt4 = kadid_val lo"
    using split(3-6) by (simp_all add: set_bucket_def rt_low_def)
  moreover have "contact_of u \<in> set (kb_contacts ?l)" using ne cs(1) by simp
  ultimately show thesis using that [of ?rt4 M ?l r u] u M cs(2) max_l lr(1) by simp
qed

lemma closest_missed:
  assumes lo: "kadid_ok lo" "kadid_val lo < 2 ^ 160" and h: "kadid_ok h" "lo \<le> h" "kadid_val h < 2 ^ 160"
  shows "\<exists>rt key near ns. rt_reachable rt \<and> rt_low rt = kadid_val lo \<and> in_space rt key \<and> near \<in> rt_contacts rt \<and>
    FindCloseNodes key 2 [] [] rt = Inr ns \<and> length ns = 2 \<and> \<not> distinct ns \<and> near \<notin> set ns \<and>
    (\<forall>n\<in>set ns. CloserToTarget (ct_node_id near) (ct_node_id n) key)"
proof -
  from two_buckets [OF lo h] obtain rt M u l r where
    rt: "rt_reachable rt" "rt_K rt = 3" "rt_address_upper rt = M" "rt_buckets rt = [l, r]" "rt_low rt = kadid_val lo" and
    u: "kadid_ok u" "contact_of u \<in> set (kb_contacts l)" "kadid_val u = kadid_val lo div 2 + kadid_val M div 2 + 1" and
    M: "kb_contacts r = [contact_of M]" "kadid_ok M" "9 * kadid_val M + 1 = 10 ^ 160" and
    ranges: "kb_range_max l = u" "kb_range_max r = M" by metis
  note ok = rt_reachable_ok [OF rt(1)] and big = KMaxID_bounds [OF M(3)]
  obtain key where key: "kadid_ok key" "kadid_val key = kadid_val u + 1" using kadid_exists by blast
  have top: "kadid_val M div 2 + (2 ^ 160 + 2) < 2 ^ 528" using M(3) by simp
  have small: "kadid_val u < 2 ^ 528" "kadid_val key < 2 ^ 528" using top lo(2) u(3) key(2) by linarith+
  have le: "kadid_val key \<le> kadid_val M" "kadid_val lo \<le> kadid_val key" using small(2) big(1,3) u(3) key(2) lo(2) by linarith+
  have "kadid_val u XOR kadid_val key < 2 ^ 528" using small by (rule xor_below)
  moreover have "2 ^ 528 \<le> kadid_val M XOR kadid_val key"
    using big(1,2) small(2) by (intro xor_above) simp_all
  ultimately have near: "CloserToTarget u M key"
    using kadid_xor_val [OF u(1) key(1)] kadid_xor_val [OF M(2) key(1)] by (simp add: CloserToTarget_def kadid_val_order)
  have at: "at_bucket rt key [l] r []" using key(2) le(1) ranges rt(4) by (simp add: at_bucket_def)
  note idx = at_bucket_index [OF ok key(1) at]
  have "kadid_val u < kadid_val M" using key(2) le(1) by simp
  then have lt: "u < M" using u(1) M(2) by (simp add: kadid_val_order)
  have "rt_upper rt = upper_addresses [l, r]" using ok rt(4) by (simp add: rt_ok_def)
  also have "\<dots> = [(u, 0), (M, 1)]" using lt by (simp add: upper_addresses_def map_of_pairs_def ranges)
  finally have sort: "SortBucketsByDistance key rt = [0, 1]"
    using near by (simp add: SortBucketsByDistance_def map_of_pairs_def CloserToTarget_def)
  have cs: "kb_GetContacts n [] r [] = [contact_of M]" if "n \<noteq> 0" for n
    using that by (simp add: kb_GetContacts_def M(1) word_gt_0)
  have one: "SortContactsByDistance key [contact_of M] = ([contact_of M], 0)"
    by (simp add: SortContactsByDistance_def map_of_pairs_def)
  have "FindCloseNodes key 2 [] [] rt = Inr [contact_of M, contact_of M]"
    using idx by (simp add: FindCloseNodes_def bucket_at_def rt(2,4) cs sort one)
  moreover have "in_space rt key" using le key(1) M(2) rt(3,5) by (simp add: in_space_def kadid_val_order)
  moreover have "contact_of u \<in> rt_contacts rt" using u(2) rt(4) by (simp add: rt_contacts_def)
  moreover have "contact_of u \<noteq> contact_of M" using lt by (metis contact_of_id less_irrefl)
  ultimately show ?thesis using rt(1,5) near
    by (intro exI [of _ rt] exI [of _ key] exI [of _ "contact_of u"] exI [of _ "[contact_of M, contact_of M]"]) simp
qed

section \<open>A table of buckets of one contact\<close>

text \<open>
  With \<open>K = 1\<close> and the range from 0 to 1, both halves of a split are the range again, the map
  keeps the first, and the contact stays in it.
\<close>

definition narrow_bucket :: kbucket where
  "narrow_bucket = (KBucket_new (ex_id 0) (ex_id 1) 1)\<lparr>kb_contacts := [ex_contact 0]\<rparr>"

definition narrow :: "routing_table \<Rightarrow> bool" where
  "narrow rt \<longleftrightarrow> rt_K rt = 1 \<and> rt_address_upper rt = ex_id 1 \<and> rt_upper rt = [(ex_id 1, 0)] \<and>
     (\<exists>bs. rt_buckets rt = narrow_bucket # bs \<and> (\<forall>b\<in>set bs. kb_range_max b = ex_id 1))"

definition narrow_table :: routing_table where
  "narrow_table = set_bucket 0 narrow_bucket (RoutingTable_init (ex_id 0) (ex_id 1) (ex_id 0) 1)"

lemma map_of_pairs_same_key:
  "\<forall>p\<in>set ps. fst p = k \<Longrightarrow> map_of_pairs ((k, v) # ps) = [(k, v)]"
proof -
  have "\<forall>p\<in>set ps. fst p = k \<Longrightarrow> fold map_insert ps [(k, v)] = [(k, v)]" by (induction ps) auto
  then show "\<forall>p\<in>set ps. fst p = k \<Longrightarrow> map_of_pairs ((k, v) # ps) = [(k, v)]" by (simp add: map_of_pairs_def)
qed

lemma upper_addresses_same:
  assumes "bs \<noteq> []" "\<forall>b\<in>set bs. kb_range_max b = k"
  shows "upper_addresses bs = [(k, 0)]"
proof -
  obtain n where n: "length bs = Suc n" using assms(1) by (cases bs) auto
  have "map (\<lambda>j. (kb_range_max (bs ! j), of_nat j :: u16)) [0..<length bs] = map (\<lambda>j. (k, of_nat j)) [0..<length bs]"
    using assms(2) by simp
  also have "\<dots> = (k, 0) # map (\<lambda>j. (k, of_nat j)) [1..<length bs]" by (simp add: n upt_conv_Cons del: upt_Suc)
  finally show ?thesis
    unfolding upper_addresses_def by (simp only:) (rule map_of_pairs_same_key, auto)
qed

lemma narrow_split:
  assumes "narrow rt"
  shows "\<exists>rt'. SplitKbucket (0, 0) 0 rt = Inr rt' \<and> narrow rt'"
proof -
  obtain bs where rt: "rt_K rt = 1" "rt_address_upper rt = ex_id 1" "rt_buckets rt = narrow_bucket # bs"
    "\<forall>b\<in>set bs. kb_range_max b = ex_id 1" using assms by (auto simp: narrow_def)
  have range: "SplitRange (0, 0) (ex_id 0) (ex_id 1) = Inr (ex_id 1, ex_id 0)" by code_simp
  have halves: "split_contacts (kb_GetContacts 1 [] narrow_bucket [])
      (KBucket_new (ex_id 0) (ex_id 1) 1, KBucket_new (ex_id 0) (ex_id 1) 1) =
      (narrow_bucket, KBucket_new (ex_id 0) (ex_id 1) 1)" by code_simp
  have fields: "kb_range_min narrow_bucket = ex_id 0" "kb_range_max narrow_bucket = ex_id 1"
    by (simp_all add: narrow_bucket_def KBucket_new_def)
  let ?bs = "narrow_bucket # KBucket_new (ex_id 0) (ex_id 1) 1 # bs"
  have max: "\<forall>b\<in>set ?bs. kb_range_max b = ex_id 1" using rt(4) fields by (auto simp: KBucket_new_def)
  have "upper_addresses ?bs = [(ex_id 1, 0)]" by (rule upper_addresses_same [OF _ max]) simp
  then show ?thesis
    using rt range halves fields max by (auto simp: SplitKbucket_def bucket_at_def narrow_def Let_def)
qed

lemma narrow_diverges: "narrow rt \<Longrightarrow> rt_AddContact fuel id_now (\<lambda>_. (0, 0)) (ex_contact 1) rt = Inl Diverges"
proof (induction fuel arbitrary: rt)
  case (Suc fuel rt)
  then obtain bs where rt: "rt_K rt = 1" "rt_address_upper rt = ex_id 1" "rt_upper rt = [(ex_id 1, 0)]"
    "rt_buckets rt = narrow_bucket # bs" by (auto simp: narrow_def)
  have idx: "KBucketIndex (ex_id 1) rt = Inr 0" using rt by (simp add: KBucketIndex_def map_lower_bound_def)
  have add: "kb_AddContact (ex_contact 1) narrow_bucket = (narrow_bucket, FULL)" by code_simp
  have "(rt_buckets rt)[0 := narrow_bucket] = rt_buckets rt" unfolding rt(4) by simp
  then have self: "set_bucket 0 narrow_bucket rt = rt" by (simp add: set_bucket_def)
  obtain rt' where "SplitKbucket (0, 0) 0 rt = Inr rt'" "narrow rt'" using narrow_split [OF Suc.prems] by blast
  then show ?case using idx add self rt Suc.IH by (simp add: bucket_at_def Let_def)
qed simp

section \<open>Properties\<close>

text \<open>
  C1: \<open>AddContact\<close> terminates. On a table that the constructor and calls on ids of its space have made,
  with \<open>K > 2\<close> and even units behind the vectors that \<open>operator>>\<close> reads, a call with an id of the space
  returns 0 or 2 after at most 530 calls of itself and leaves such a table, of at most 1588 buckets; the repeated
  splitting never runs on.
\<close>

theorem AddContact_terminates:
  assumes "rt_reachable rt" "in_space rt (ct_node_id c)" "even_strays past"
  shows "\<exists>rt' r. rt_AddContact 530 id_now past c rt = Inr (rt', r) \<and> (r = 0 \<or> r = 2) \<and> rt_reachable rt' \<and>
    length (rt_buckets rt') \<le> 1588"
proof -
  from AddContact_returns [OF rt_reachable_inv [OF assms(1)] assms(2,3), of 529 id_now] obtain rt' r where
    add: "rt_AddContact (Suc 529) id_now past c rt = Inr (rt', r)" "rt_inv rt'" "r = 0 \<or> r = 2" by blast
  then have call: "rt_AddContact 530 id_now past c rt = Inr (rt', r)" by simp
  have "length (rt_buckets rt') \<le> 1588"
    using few_buckets_length [of rt' 529] add(2) by (simp only: rt_inv_def) simp
  with rt_reachable.step [OF assms(1) rt_step.add [OF assms(2,3) call]] call add(3) show ?thesis by blast
qed

lemma AddContact_terminates_witness:
  "\<exists>rt' r. rt_AddContact 530 (ex_id 1) (\<lambda>_. (0, 0)) (ex_contact 7) (ex_start 20) = Inr (rt', r) \<and>
    (r = 0 \<or> r = 2) \<and> rt_reachable rt' \<and> length (rt_buckets rt') \<le> 1588"
  by (rule AddContact_terminates) (simp_all add: ex_start_reachable(1) ex_start_space even_strays_0 del: rt_AddContact.simps)

text \<open>
  C2: what \<open>AddContact\<close> stores, on the tables and calls of the property before. When it returns 0, a lookup
  of the id gives the contact back, and of the contacts with other ids at most one is gone (the one
  \<open>ForceKAcceptNewPeer\<close> gave up); when it returns 2 the table holds the same contacts as before.
\<close>

theorem AddContact_stores:
  assumes "rt_reachable rt" "in_space rt (ct_node_id c)" "even_strays past"
    "rt_AddContact 530 id_now past c rt = Inr (rt', r)"
  shows "r = 0 \<and> rt_GetContact (ct_node_id c) rt' = Inr (Some c) \<and>
      (\<exists>v. \<forall>x\<in>rt_contacts rt. ct_node_id x \<noteq> ct_node_id c \<and> x \<noteq> v \<longrightarrow> x \<in> rt_contacts rt')
    \<or> r = 2 \<and> rt_contacts rt' = rt_contacts rt"
proof -
  have "rt_AddContact (Suc 529) id_now past c rt = Inr (rt', r)" using assms(4) by simp
  with AddContact_returns [OF rt_reachable_inv [OF assms(1)] assms(2,3), of 529 id_now]
  have res: "rt_ok rt'" "same_space rt rt'" "r = 0 \<and> added c rt rt' \<or> r = 2 \<and> rt_contacts rt' = rt_contacts rt"
    by (auto simp: rt_inv_def simp del: rt_AddContact.simps)
  have "in_space rt' (ct_node_id c)" using assms(2) res(2) by (simp add: in_space_def same_space_def)
  from rt_GetContact_ok [OF res(1) this] obtain q where "rt_GetContact (ct_node_id c) rt' = Inr q"
    "\<forall>d. q = Some d \<longleftrightarrow> d \<in> rt_contacts rt' \<and> ct_node_id d = ct_node_id c" by blast
  then show ?thesis using res(3) by (auto simp: added_def)
qed

lemma AddContact_stores_witness:
  "\<exists>rt'. rt_AddContact 530 (ex_id 1) (\<lambda>_. (0, 0)) (ex_contact 7) (ex_start 20) = Inr (rt', 0) \<and>
    rt_GetContact (ex_id 7) rt' = Inr (Some (ex_contact 7))"
proof -
  have reach: "rt_reachable (ex_start 20)" and space: "in_space (ex_start 20) (ct_node_id (ex_contact 7))"
    by (simp_all add: ex_start_reachable(1) ex_start_space)
  obtain rt' where add: "rt_AddContact 530 (ex_id 1) (\<lambda>_. (0, 0)) (ex_contact 7) (ex_start 20) = Inr (rt', 0)"
    using ex_start_add [of 20 7] by auto
  from AddContact_stores [OF reach space even_strays_0 add] have "rt_GetContact (ex_id 7) rt' = Inr (Some (ex_contact 7))"
    by simp
  with add show ?thesis by blast
qed

text \<open>
  C3: every contact of a reachable table is found. The buckets tile the ids so that the contact sits in the
  bucket that \<open>KBucketIndex\<close> names, and no id is there twice. This rests on ids of the table's space: a contact
  with an id below the lower address, which the code takes in without a check, is found until the first
  bucket is split, and from then on it is still in the table and not found.
\<close>

theorem reachable_contacts_found:
  assumes "rt_reachable rt"
  shows "(\<forall>c\<in>rt_contacts rt. rt_GetContact (ct_node_id c) rt = Inr (Some c) \<and>
      (\<forall>d\<in>rt_contacts rt. ct_node_id d = ct_node_id c \<longrightarrow> d = c)) \<and>
    (\<forall>c b bs past. kadid_ok (ct_node_id c) \<and> kadid_val (ct_node_id c) < rt_low rt \<and> rt_buckets rt = b # bs \<and>
        rt_low rt + 3 \<le> upper b \<and> length (kb_contacts b) < unat (rt_K rt) \<and> even_strays past \<longrightarrow>
      (\<exists>rt1 rt2. rt_AddContact 530 id_now past c rt = Inr (rt1, 0) \<and> rt_GetContact (ct_node_id c) rt1 = Inr (Some c) \<and>
        SplitKbucket (past 0) 0 rt1 = Inr rt2 \<and> c \<in> rt_contacts rt2 \<and> rt_GetContact (ct_node_id c) rt2 = Inr None))"
proof -
  have inv: "rt_inv rt" by (rule rt_reachable_inv [OF assms])
  then have ok: "rt_ok rt" by (simp add: rt_inv_def)
  have few: "length (rt_buckets rt) < 2 ^ 15"
    using few_buckets_length [OF ok, of 529] inv by (simp only: rt_inv_def) simp
  have "rt_GetContact (ct_node_id c) rt = Inr (Some c) \<and> (\<forall>d\<in>rt_contacts rt. ct_node_id d = ct_node_id c \<longrightarrow> d = c)"
    if "c \<in> rt_contacts rt" for c
  proof -
    have "in_space rt (ct_node_id c)" by (rule contact_in_space [OF ok that])
    from rt_GetContact_ok [OF ok this] rt_contacts_inj [OF ok this that] that show ?thesis by force
  qed
  moreover have "\<exists>rt1 rt2. rt_AddContact 530 id_now past c rt = Inr (rt1, 0) \<and> rt_GetContact (ct_node_id c) rt1 = Inr (Some c) \<and>
        SplitKbucket (past 0) 0 rt1 = Inr rt2 \<and> c \<in> rt_contacts rt2 \<and> rt_GetContact (ct_node_id c) rt2 = Inr None"
    if "kadid_ok (ct_node_id c)" "kadid_val (ct_node_id c) < rt_low rt" "rt_buckets rt = b # bs"
      "rt_low rt + 3 \<le> upper b" "length (kb_contacts b) < unat (rt_K rt)" "even_strays past" for c b bs past
    using below_space_lost [OF ok that(3,4,5) few that(1,2), of "past 0" 529 id_now past] that(6)
    by (simp add: even_strays_def del: rt_AddContact.simps)
  ultimately show ?thesis by blast
qed

lemma reachable_contacts_found_witness:
  "\<exists>rt. rt_reachable rt \<and> rt_GetContact (ex_id 7) rt = Inr (Some (ex_contact 7)) \<and>
    (\<exists>rt1 rt2. rt_AddContact 530 (ex_id 1) (\<lambda>_. (0, 0)) (ex_contact 0) rt = Inr (rt1, 0) \<and>
      rt_GetContact (ex_id 0) rt1 = Inr (Some (ex_contact 0)) \<and> SplitKbucket (0, 0) 0 rt1 = Inr rt2 \<and>
      ex_contact 0 \<in> rt_contacts rt2 \<and> rt_GetContact (ex_id 0) rt2 = Inr None)"
proof -
  obtain rt b where rt: "rt_AddContact 530 (ex_id 1) (\<lambda>_. (0, 0)) (ex_contact 7) (ex_start 20) = Inr (rt, 0)"
    "rt_buckets rt = [b]" "kb_contacts b = [ex_contact 7]" "2 ^ 160 < upper b" "rt_K rt = 20" "rt_low rt = 1"
    using ex_start_add [of 20 7] by auto
  have "rt_step (ex_start 20) rt"
    using rt(1) by (intro rt_step.add [OF _ even_strays_0]) (simp_all add: ex_start_space del: rt_AddContact.simps)
  from rt_reachable.step [OF ex_start_reachable(1) this] have reach: "rt_reachable rt" by simp
  note found = reachable_contacts_found [OF reach, of "ex_id 1"]
  have "ex_contact 7 \<in> rt_contacts rt" using rt(2,3) by (simp add: rt_contacts_def)
  with found have one: "rt_GetContact (ex_id 7) rt = Inr (Some (ex_contact 7))" by fastforce
  have "(4 :: nat) < 2 ^ 160" by simp
  then have wide: "rt_low rt + 3 \<le> upper b" using rt(4,6) by linarith
  have "kadid_ok (ct_node_id (ex_contact 0)) \<and> kadid_val (ct_node_id (ex_contact 0)) < rt_low rt \<and> rt_buckets rt = b # [] \<and>
      rt_low rt + 3 \<le> upper b \<and> length (kb_contacts b) < unat (rt_K rt) \<and> even_strays (\<lambda>_. (0, 0))"
    using rt(2,3,5,6) wide even_strays_0 by simp
  with found have "\<exists>rt1 rt2. rt_AddContact 530 (ex_id 1) (\<lambda>_. (0, 0)) (ex_contact 0) rt = Inr (rt1, 0) \<and>
      rt_GetContact (ct_node_id (ex_contact 0)) rt1 = Inr (Some (ex_contact 0)) \<and> SplitKbucket (0, 0) 0 rt1 = Inr rt2 \<and>
      ex_contact 0 \<in> rt_contacts rt2 \<and> rt_GetContact (ct_node_id (ex_contact 0)) rt2 = Inr None" by blast
  with reach one show ?thesis by auto
qed

text \<open>
  \<open>FindCloseNodes\<close> answers with contacts of the table that are not excluded, at most
  \<open>count\<close> of them, on every reachable table and every id of its space.
\<close>

theorem FindCloseNodes_sound:
  assumes "rt_reachable rt" "in_space rt key" "0 \<le> count"
  shows "\<exists>ns. FindCloseNodes key count exclude [] rt = Inr ns \<and> int (length ns) \<le> count \<and>
    set ns \<subseteq> {c \<in> rt_contacts rt. ct_node_id c \<notin> set (ids exclude)}"
  by (rule FindCloseNodes_ok [OF rt_reachable_ok [OF assms(1)] assms(2,3)])

lemma FindCloseNodes_sound_witness:
  "\<exists>ns. FindCloseNodes (ex_id 7) 2 [] [] (ex_start 3) = Inr ns \<and> int (length ns) \<le> 2 \<and>
    set ns \<subseteq> {c \<in> rt_contacts (ex_start 3). ct_node_id c \<notin> set (ids [])}"
  by (rule FindCloseNodes_sound) (simp_all add: ex_start_reachable(1) ex_start_space)

text \<open>
  C40: the answer of \<open>FindCloseNodes\<close> can leave out the closest contact. It skips position 0 of
  \<open>SortBucketsByDistance\<close>, the bucket whose upper address is closest to the key, where it means to skip the
  bucket of the key: on every reachable table no contact of that bucket is in the answer, unless the bucket is
  the key's. Whatever lower address the constructor chose, there is a table of it where that is another
  bucket: asked for two contacts it answers the same one twice, and leaves out one that is closer to the key.
\<close>

theorem FindCloseNodes_misses_closest:
  assumes "kadid_ok lo" "kadid_val lo < 2 ^ 160"
  shows "(\<forall>rt key count exclude ns i is c. rt_reachable rt \<and> in_space rt key \<and>
      FindCloseNodes key count exclude [] rt = Inr ns \<and> SortBucketsByDistance key rt = i # is \<and>
      c \<in> set (kb_contacts (rt_buckets rt ! unat i)) \<and> KBucketIndex key rt \<noteq> Inr i \<longrightarrow> c \<notin> set ns) \<and>
    (\<exists>rt key near ns. rt_reachable rt \<and> rt_low rt = kadid_val lo \<and> in_space rt key \<and> near \<in> rt_contacts rt \<and>
      FindCloseNodes key 2 [] [] rt = Inr ns \<and> length ns = 2 \<and> \<not> distinct ns \<and> near \<notin> set ns \<and>
      (\<forall>n\<in>set ns. CloserToTarget (ct_node_id near) (ct_node_id n) key))"
  using FindCloseNodes_skips [OF rt_reachable_ok] closest_missed [OF assms assms(1) _ assms(2)] by blast

lemma FindCloseNodes_misses_closest_witness:
  "\<exists>rt key near ns. rt_reachable rt \<and> rt_low rt = 1 \<and> near \<in> rt_contacts rt \<and>
    FindCloseNodes key 2 [] [] rt = Inr ns \<and> length ns = 2 \<and> near \<notin> set ns \<and>
    (\<forall>n\<in>set ns. CloserToTarget (ct_node_id near) (ct_node_id n) key)"
proof -
  have "kadid_ok (ex_id 1)" "kadid_val (ex_id 1) < 2 ^ 160" by simp_all
  from FindCloseNodes_misses_closest [OF this] have "\<exists>rt key near ns. rt_reachable rt \<and> rt_low rt = kadid_val (ex_id 1) \<and>
    in_space rt key \<and> near \<in> rt_contacts rt \<and> FindCloseNodes key 2 [] [] rt = Inr ns \<and> length ns = 2 \<and> \<not> distinct ns \<and>
    near \<notin> set ns \<and> (\<forall>n\<in>set ns. CloserToTarget (ct_node_id near) (ct_node_id n) key)" by (rule conjunct2)
  then show ?thesis by simp blast
qed

text \<open>
  \<open>SortContactsByDistance\<close> is a sort. On contacts with different ids it reports success,
  keeps all of them and orders them strictly by \<open>CloserToTarget\<close>.
\<close>

theorem SortContactsByDistance_sorts:
  assumes "kadid_ok key" "\<forall>c\<in>set cs. kadid_ok (ct_node_id c)" "distinct (ids cs)"
  shows "\<exists>sorted. SortContactsByDistance key cs = (sorted, 0) \<and> set sorted = set cs \<and>
    length sorted = length cs \<and> sorted_wrt (\<lambda>x y. CloserToTarget (ct_node_id x) (ct_node_id y) key) sorted"
  by (rule SortContacts_ok [OF assms])

lemma SortContactsByDistance_sorts_witness:
  "\<exists>sorted. SortContactsByDistance (ex_id 6) [ex_contact 1, ex_contact 7] = (sorted, 0) \<and>
    set sorted = set [ex_contact 1, ex_contact 7] \<and> length sorted = length [ex_contact 1, ex_contact 7] \<and>
    sorted_wrt (\<lambda>x y. CloserToTarget (ct_node_id x) (ct_node_id y) (ex_id 6)) sorted"
proof (rule SortContactsByDistance_sorts)
  have "ex_id 1 \<noteq> ex_id 7" by code_simp
  then show "distinct (ids [ex_contact 1, ex_contact 7])" by simp
qed simp_all

text \<open>
  \<open>SplitKbucket\<close> neither loses nor moves a contact out of its bucket. A bucket that spans four
  ids or more is replaced by two that divide its contacts between them, and the table is
  well formed again.
\<close>

theorem SplitKbucket_divides:
  assumes "rt_ok rt" "rt_buckets rt = pre @ b # post" "next_low (rt_low rt) pre + 3 \<le> upper b"
    "even (unat (fst past))" "even (unat (snd past))" "length (rt_buckets rt) < 2 ^ 15"
  shows "\<exists>l r rt'. SplitKbucket past (of_nat (length pre)) rt = Inr rt' \<and> rt_ok rt' \<and>
    rt_buckets rt' = pre @ l # r # post \<and> set (kb_contacts l) \<union> set (kb_contacts r) = set (kb_contacts b)"
  using SplitKbucket_ok [OF assms] by blast

lemma SplitKbucket_divides_witness:
  "\<exists>l r rt'. SplitKbucket (0, 0) (of_nat (length ([] :: kbucket list))) (ex_table 3) = Inr rt' \<and> rt_ok rt' \<and>
    rt_buckets rt' = [] @ l # r # [] \<and>
    set (kb_contacts l) \<union> set (kb_contacts r) = set (kb_contacts (KBucket_new (ex_id 0) (ex_id 1000) 3))"
  using ex_table_ok [of 3]
  by (intro SplitKbucket_divides [of "ex_table 3" "[]" "KBucket_new (ex_id 0) (ex_id 1000) 3" "[]"])
    (simp_all add: ex_table_def RoutingTable_init_def rt_low_def KBucket_new_def)

text \<open>
  \<open>RemoveContact\<close> removes the contacts with its id and no other, and the id is not found
  any more.
\<close>

theorem RemoveContact_removes:
  assumes "rt_reachable rt" "in_space rt k"
  shows "\<exists>rt'. rt_RemoveContact k rt = Inr rt' \<and> rt_reachable rt' \<and>
    rt_contacts rt' = {c \<in> rt_contacts rt. ct_node_id c \<noteq> k}"
proof -
  from rt_RemoveContact_ok [OF rt_reachable_ok [OF assms(1)] assms(2)] obtain rt' where
    rt': "rt_RemoveContact k rt = Inr rt'" "rt_contacts rt' = {c \<in> rt_contacts rt. ct_node_id c \<noteq> k}" by blast
  have "rt_reachable rt'" by (rule rt_reachable.step [OF assms(1) rt_step.remove [OF assms(2) rt'(1)]])
  with rt' show ?thesis by blast
qed

lemma RemoveContact_removes_witness:
  "\<exists>rt'. rt_RemoveContact (ex_id 7) (ex_start 3) = Inr rt' \<and> rt_reachable rt' \<and>
    rt_contacts rt' = {c \<in> rt_contacts (ex_start 3). ct_node_id c \<noteq> ex_id 7}"
  by (rule RemoveContact_removes) (simp_all add: ex_start_reachable(1) ex_start_space)

text \<open>
  An id above the address space. \<open>KBucketIndex\<close> answers \<open>(unsigned short) -1\<close> for it;
  \<open>AddContact\<close> keeps it in a \<open>short\<close> and refuses the contact, but the lookups keep it in an
  \<open>int\<close>, take it for an index and read outside the vector of buckets.
\<close>

theorem above_space_out_of_range:
  assumes "rt_ok rt" "rt_address_upper rt < ct_node_id c"
  shows "rt_AddContact (Suc f) id_now past c rt = Inr (rt, 3) \<and>
    rt_GetContact (ct_node_id c) rt = Inl Undefined \<and> rt_RemoveContact (ct_node_id c) rt = Inl Undefined \<and>
    TouchKBucket now (ct_node_id c) rt = Inl Undefined \<and>
    FindCloseNodes (ct_node_id c) count exclude close rt = Inl Undefined"
proof -
  have "unat (- 1 :: u16) = 65535" by (simp add: unat_minus_1_word)
  then show ?thesis
    using KBucketIndex_above [OF assms(2)] bucket_at_max [OF assms(1)]
    by (simp add: rt_GetContact_def rt_RemoveContact_def TouchKBucket_def FindCloseNodes_def)
qed

lemma above_space_out_of_range_witness:
  "rt_AddContact (Suc 0) (ex_id 0) (\<lambda>_. (0, 0)) (ex_contact 2000) (ex_table 3) = Inr (ex_table 3, 3) \<and>
    rt_GetContact (ct_node_id (ex_contact 2000)) (ex_table 3) = Inl Undefined \<and>
    rt_RemoveContact (ct_node_id (ex_contact 2000)) (ex_table 3) = Inl Undefined \<and>
    TouchKBucket 0 (ct_node_id (ex_contact 2000)) (ex_table 3) = Inl Undefined \<and>
    FindCloseNodes (ct_node_id (ex_contact 2000)) 1 [] [] (ex_table 3) = Inl Undefined"
  using ex_table_ok [of 3]
  by (intro above_space_out_of_range) (simp_all add: kadid_val_order)

text \<open>
  With buckets of one contact \<open>AddContact\<close> can call itself for ever. In a table over the ids
  0 and 1 that holds 0, adding 1 splits the first bucket again and again: no fuel is enough.
\<close>

theorem AddContact_K1_diverges:
  "rt_AddContact fuel id_now (\<lambda>_. (0, 0)) (ex_contact 1) narrow_table = Inl Diverges"
proof (rule narrow_diverges)
  show "narrow narrow_table"
    by (simp add: narrow_def narrow_table_def set_bucket_def RoutingTable_init_def)
qed

end
