(* ===== verification/MultiIndex.thy ===== *)
theory MultiIndex
  imports Prelude "HOL-Library.List_Lexorder" "HOL-Library.Char_ord" "HOL-Library.Product_Lexorder"
    "HOL-Library.Multiset"
begin

text \<open>
  The entries of the data store (\<open>key_value_tuple\<close> of \<open>datastore.h\<close>) and the interface of the
  container that keeps them. The container is \<open>boost::multi_index_container\<close>, code outside the
  repository: here it is a record of the operations \<open>datastore.cpp\<close> calls, and the locale
  \<open>multi_index\<close> states what Boost documents of them for the three indices of the declaration
  (unique by key and value, ordered by refresh time, ordered by expiry time). Iterators are the
  entries they point at. \<open>list_index\<close> is a container of this kind on sorted lists.
\<close>

type_synonym uint32 = "32 word"

section \<open>Entries\<close>

datatype delete_status = NOT_DELETED | MARKED_FOR_DELETION | DELETED

record key_value_tuple =
  kv_key :: string
  kv_value :: string
  kv_ser_delete_req :: string
  kv_last_refresh_time :: uint32
  kv_expire_time :: uint32
  kv_ttl :: uint32
  kv_hashable :: bool
  kv_del_status :: delete_status

text \<open>The two constructors; \<open>kv_ttl\<close> holds the bits of an \<open>int32_t\<close>, read with \<open>sint\<close>.\<close>

definition key_value_full :: "string \<Rightarrow> string \<Rightarrow> uint32 \<Rightarrow> uint32 \<Rightarrow> uint32 \<Rightarrow> bool \<Rightarrow> key_value_tuple" where
  "key_value_full key value last_refresh_time expire_time ttl hashable =
     \<lparr>kv_key = key, kv_value = value, kv_ser_delete_req = [],
      kv_last_refresh_time = last_refresh_time,
      kv_expire_time = (if sint ttl < 0 then 0 else expire_time), kv_ttl = ttl,
      kv_hashable = hashable, kv_del_status = NOT_DELETED\<rparr>"

definition key_value_short :: "string \<Rightarrow> string \<Rightarrow> uint32 \<Rightarrow> key_value_tuple" where
  "key_value_short key value last_refresh_time =
     \<lparr>kv_key = key, kv_value = value, kv_ser_delete_req = [],
      kv_last_refresh_time = last_refresh_time, kv_expire_time = 0, kv_ttl = 0,
      kv_hashable = True, kv_del_status = NOT_DELETED\<rparr>"

definition kv_id :: "key_value_tuple \<Rightarrow> string \<times> string" where
  "kv_id t = (kv_key t, kv_value t)"

section \<open>The container\<close>

record 'm index_ops =
  mi_invar :: "'m \<Rightarrow> bool"
  mi_items :: "'m \<Rightarrow> key_value_tuple list"
  mi_clear :: 'm
  mi_insert :: "key_value_tuple \<Rightarrow> 'm \<Rightarrow> 'm \<times> key_value_tuple \<times> bool"
  mi_find :: "string \<times> string \<Rightarrow> 'm \<Rightarrow> key_value_tuple option"
  mi_equal_range :: "string \<Rightarrow> 'm \<Rightarrow> key_value_tuple list"
  mi_replace :: "key_value_tuple \<Rightarrow> key_value_tuple \<Rightarrow> 'm \<Rightarrow> 'm \<times> bool"
  mi_erase :: "key_value_tuple \<Rightarrow> 'm \<Rightarrow> 'm"
  mi_refresh_upto :: "uint32 \<Rightarrow> 'm \<Rightarrow> key_value_tuple list"
  mi_erase_expire :: "uint32 \<Rightarrow> uint32 \<Rightarrow> 'm \<Rightarrow> 'm"

text \<open>
  \<open>mi_items\<close> is the iteration over the unique index. \<open>insert\<close> keeps an entry with the same key
  and value and returns it; \<open>replace\<close> refuses to make two entries equal in key and value;
  \<open>mi_refresh_upto\<close> is the iteration over the index of the refresh times from its begin to
  \<open>upper_bound (t)\<close>; \<open>mi_erase_expire a b\<close> erases from \<open>upper_bound (a)\<close> to \<open>lower_bound (b)\<close> of
  the index of the expiry times.
\<close>

locale multi_index =
  fixes M :: "'m index_ops"
  assumes sorted_items: "mi_invar M m \<Longrightarrow> sorted_wrt (<) (map kv_id (mi_items M m))"
    and clear: "mi_invar M (mi_clear M)" "mi_items M (mi_clear M) = []"
    and insert_new: "mi_invar M m \<Longrightarrow> kv_id t \<notin> kv_id ` set (mi_items M m) \<Longrightarrow>
      \<exists>m'. mi_insert M t m = (m', t, True) \<and> mi_invar M m' \<and> set (mi_items M m') = insert t (set (mi_items M m))"
    and insert_old: "mi_invar M m \<Longrightarrow> u \<in> set (mi_items M m) \<Longrightarrow> kv_id t = kv_id u \<Longrightarrow>
      mi_insert M t m = (m, u, False)"
    and find: "mi_invar M m \<Longrightarrow> mi_find M i m = Some t \<longleftrightarrow> t \<in> set (mi_items M m) \<and> kv_id t = i"
    and equal_range: "mi_invar M m \<Longrightarrow> mi_equal_range M k m = filter (\<lambda>t. kv_key t = k) (mi_items M m)"
    and replace_ok: "mi_invar M m \<Longrightarrow> u \<in> set (mi_items M m) \<Longrightarrow>
      kv_id t \<notin> kv_id ` (set (mi_items M m) - {u}) \<Longrightarrow>
      \<exists>m'. mi_replace M u t m = (m', True) \<and> mi_invar M m' \<and>
        set (mi_items M m') = insert t (set (mi_items M m) - {u})"
    and replace_clash: "mi_invar M m \<Longrightarrow> u \<in> set (mi_items M m) \<Longrightarrow>
      kv_id t \<in> kv_id ` (set (mi_items M m) - {u}) \<Longrightarrow> mi_replace M u t m = (m, False)"
    and erase: "mi_invar M m \<Longrightarrow> u \<in> set (mi_items M m) \<Longrightarrow>
      mi_invar M (mi_erase M u m) \<and> set (mi_items M (mi_erase M u m)) = set (mi_items M m) - {u}"
    and refresh_upto: "mi_invar M m \<Longrightarrow>
      mset (mi_refresh_upto M r m) = mset (filter (\<lambda>t. kv_last_refresh_time t \<le> r) (mi_items M m)) \<and>
      sorted_wrt (\<le>) (map kv_last_refresh_time (mi_refresh_upto M r m))"
    and erase_expire: "mi_invar M m \<Longrightarrow> mi_invar M (mi_erase_expire M a b m) \<and>
      set (mi_items M (mi_erase_expire M a b m)) =
        {t \<in> set (mi_items M m). \<not> (a < kv_expire_time t \<and> kv_expire_time t < b)}"
begin

lemma distinct_ids: "mi_invar M m \<Longrightarrow> distinct (map kv_id (mi_items M m))"
  using sorted_items strict_sorted_iff by blast

lemma ids_inj: "mi_invar M m \<Longrightarrow> t \<in> set (mi_items M m) \<Longrightarrow> u \<in> set (mi_items M m) \<Longrightarrow>
    kv_id t = kv_id u \<Longrightarrow> t = u"
  using distinct_ids [of m] by (auto simp: distinct_map inj_on_def)

lemma find_None: "mi_invar M m \<Longrightarrow> mi_find M i m = None \<longleftrightarrow> i \<notin> kv_id ` set (mi_items M m)"
proof -
  assume inv: "mi_invar M m"
  have "(\<exists>t. mi_find M i m = Some t) \<longleftrightarrow> i \<in> kv_id ` set (mi_items M m)"
    unfolding find [OF inv] by auto
  then show ?thesis by auto
qed

lemma find_SomeD: "mi_invar M m \<Longrightarrow> mi_find M i m = Some t \<Longrightarrow> t \<in> set (mi_items M m) \<and> kv_id t = i"
  using find by blast

text \<open>The container as a finite map from key and value to the entry.\<close>

lemma find_eqI:
  assumes "mi_invar M m" "\<And>t. f = Some t \<longleftrightarrow> t \<in> set (mi_items M m) \<and> kv_id t = i"
  shows "mi_find M i m = f"
  using assms(2) find [OF assms(1), of i] by (metis option.collapse option.distinct(1))

lemma insert_find:
  assumes "mi_invar M m" "mi_find M (kv_id t) m = None"
  shows "\<exists>m'. mi_insert M t m = (m', t, True) \<and> mi_invar M m' \<and>
    (\<lambda>i. mi_find M i m') = (\<lambda>i. mi_find M i m)(kv_id t \<mapsto> t)"
proof -
  from assms obtain m' where m': "mi_insert M t m = (m', t, True)" "mi_invar M m'"
    "set (mi_items M m') = insert t (set (mi_items M m))"
    using insert_new [of m t] by (auto simp: find_None)
  have "mi_find M i m' = ((\<lambda>i. mi_find M i m)(kv_id t \<mapsto> t)) i" for i
  proof (rule find_eqI [OF m'(2)])
    show "((\<lambda>i. mi_find M i m)(kv_id t \<mapsto> t)) i = Some u \<longleftrightarrow> u \<in> set (mi_items M m') \<and> kv_id u = i" for u
      using find [OF assms(1), of i u] find_None [OF assms(1), of "kv_id t"] assms(2) m'(3) by auto
  qed
  with m' show ?thesis by blast
qed

lemma replace_find:
  assumes "mi_invar M m" "mi_find M (kv_id u) m = Some u"
    "kv_id t = kv_id u \<or> mi_find M (kv_id t) m = None"
  shows "\<exists>m'. mi_replace M u t m = (m', True) \<and> mi_invar M m' \<and>
    (\<lambda>i. mi_find M i m') = (\<lambda>i. mi_find M i m)(kv_id u := None, kv_id t \<mapsto> t)"
proof -
  have u: "u \<in> set (mi_items M m)" using assms find_SomeD by blast
  have id_u: "w \<in> set (mi_items M m) \<Longrightarrow> kv_id w = kv_id u \<longleftrightarrow> w = u" for w
    using ids_inj [OF assms(1) _ u] by blast
  have id_t: "w = u" if w: "w \<in> set (mi_items M m)" "kv_id w = kv_id t" for w
  proof -
    from imageI [OF w(1), of kv_id] w(2) have "kv_id t \<in> kv_id ` set (mi_items M m)" by simp
    then have "mi_find M (kv_id t) m \<noteq> None" by (simp only: find_None [OF assms(1)] not_not)
    with assms(3) w(2) have "kv_id w = kv_id u" by simp
    with id_u [OF w(1)] show "w = u" by blast
  qed
  have "kv_id t \<notin> kv_id ` (set (mi_items M m) - {u})"
  proof
    assume "kv_id t \<in> kv_id ` (set (mi_items M m) - {u})"
    then obtain w where "kv_id t = kv_id w" "w \<in> set (mi_items M m)" "w \<noteq> u" by blast
    then show False using id_t [of w] by simp
  qed
  from replace_ok [OF assms(1) u this]
  obtain m' where m': "mi_replace M u t m = (m', True)" "mi_invar M m'"
    "set (mi_items M m') = insert t (set (mi_items M m) - {u})"
    by blast
  have "mi_find M i m' = ((\<lambda>i. mi_find M i m)(kv_id u := None, kv_id t \<mapsto> t)) i" for i
  proof (rule find_eqI [OF m'(2)])
    fix v
    have "v \<in> set (mi_items M m') \<and> kv_id v = i \<longleftrightarrow>
        v = t \<and> kv_id t = i \<or> v \<in> set (mi_items M m) \<and> kv_id v = i \<and> v \<noteq> u \<and> i \<noteq> kv_id t"
      unfolding m'(3) using id_t by blast
    then show "((\<lambda>i. mi_find M i m)(kv_id u := None, kv_id t \<mapsto> t)) i = Some v \<longleftrightarrow>
        v \<in> set (mi_items M m') \<and> kv_id v = i"
      using find [OF assms(1), of i v] id_u [of v] by (simp only: fun_upd_apply split: if_split) blast
  qed
  with m' show ?thesis by blast
qed

lemma replace_clash_find:
  assumes "mi_invar M m" "mi_find M (kv_id u) m = Some u" "kv_id t \<noteq> kv_id u" "mi_find M (kv_id t) m = Some w"
  shows "mi_replace M u t m = (m, False)"
proof (rule replace_clash [OF assms(1)])
  have "w \<in> set (mi_items M m) \<and> kv_id w = kv_id t" using assms(1,4) find_SomeD by blast
  with assms(3) show "kv_id t \<in> kv_id ` (set (mi_items M m) - {u})" by (metis DiffI rev_image_eqI singletonD)
qed (use assms(1,2) find_SomeD in blast)

lemma erase_find:
  assumes "mi_invar M m" "mi_find M (kv_id u) m = Some u"
  shows "mi_invar M (mi_erase M u m) \<and>
    (\<lambda>i. mi_find M i (mi_erase M u m)) = (\<lambda>i. mi_find M i m)(kv_id u := None)"
proof -
  have u: "u \<in> set (mi_items M m)" using assms find_SomeD by blast
  from erase [OF assms(1) u] have m': "mi_invar M (mi_erase M u m)"
    "set (mi_items M (mi_erase M u m)) = set (mi_items M m) - {u}" by auto
  have "mi_find M i (mi_erase M u m) = ((\<lambda>i. mi_find M i m)(kv_id u := None)) i" for i
  proof (rule find_eqI [OF m'(1)])
    fix v
    show "((\<lambda>i. mi_find M i m)(kv_id u := None)) i = Some v \<longleftrightarrow>
        v \<in> set (mi_items M (mi_erase M u m)) \<and> kv_id v = i"
      using find [OF assms(1), of i v] ids_inj [OF assms(1) _ u, of v]
      by (simp only: m'(2) fun_upd_apply split: if_split) blast
  qed
  with m'(1) show ?thesis by blast
qed

lemma fold_erase_find:
  assumes "mi_invar M m" "\<forall>u\<in>set us. mi_find M (kv_id u) m = Some u" "distinct (map kv_id us)"
  shows "mi_invar M (fold (mi_erase M) us m) \<and>
    (\<lambda>i. mi_find M i (fold (mi_erase M) us m)) = (\<lambda>i. if i \<in> kv_id ` set us then None else mi_find M i m)"
  using assms
proof (induction us arbitrary: m)
  case (Cons u us)
  have "mi_find M (kv_id u) m = Some u" using Cons.prems(2) by simp
  from erase_find [OF Cons.prems(1) this] have step: "mi_invar M (mi_erase M u m)"
    "\<And>i. mi_find M i (mi_erase M u m) = ((\<lambda>i. mi_find M i m)(kv_id u := None)) i"
    unfolding fun_eq_iff by blast+
  have "\<forall>v\<in>set us. mi_find M (kv_id v) (mi_erase M u m) = Some v"
  proof
    fix v assume v: "v \<in> set us"
    from imageI [OF this, of kv_id] Cons.prems(3) have "kv_id v \<noteq> kv_id u" by auto
    then show "mi_find M (kv_id v) (mi_erase M u m) = Some v"
      using Cons.prems(2) v by (simp add: step(2))
  qed
  moreover have "distinct (map kv_id us)" using Cons.prems(3) by simp
  ultimately have "mi_invar M (fold (mi_erase M) us (mi_erase M u m))"
    "(\<lambda>i. mi_find M i (fold (mi_erase M) us (mi_erase M u m))) =
      (\<lambda>i. if i \<in> kv_id ` set us then None else mi_find M i (mi_erase M u m))"
    using Cons.IH [OF step(1)] by blast+
  then show ?case by (simp add: step(2) fun_eq_iff)
qed simp

lemma erase_expire_find:
  assumes "mi_invar M m"
  shows "mi_invar M (mi_erase_expire M a b m) \<and> (\<lambda>i. mi_find M i (mi_erase_expire M a b m)) =
    (\<lambda>i. case mi_find M i m of None \<Rightarrow> None
        | Some t \<Rightarrow> if a < kv_expire_time t \<and> kv_expire_time t < b then None else Some t)"
proof -
  from erase_expire [OF assms] have m': "mi_invar M (mi_erase_expire M a b m)"
    "set (mi_items M (mi_erase_expire M a b m)) =
      {t \<in> set (mi_items M m). \<not> (a < kv_expire_time t \<and> kv_expire_time t < b)}" by auto
  have "mi_find M i (mi_erase_expire M a b m) = (case mi_find M i m of None \<Rightarrow> None
        | Some t \<Rightarrow> if a < kv_expire_time t \<and> kv_expire_time t < b then None else Some t)" for i
  proof (rule find_eqI [OF m'(1)])
    fix t
    show "(case mi_find M i m of None \<Rightarrow> None
        | Some t \<Rightarrow> if a < kv_expire_time t \<and> kv_expire_time t < b then None else Some t) = Some t \<longleftrightarrow>
      t \<in> set (mi_items M (mi_erase_expire M a b m)) \<and> kv_id t = i"
      using find [OF assms, of i t] by (cases "mi_find M i m") (auto simp: m'(2))
  qed
  with m'(1) show ?thesis by blast
qed

lemma equal_range_find:
  assumes "mi_invar M m"
  shows "t \<in> set (mi_equal_range M k m) \<longleftrightarrow> mi_find M (k, kv_value t) m = Some t"
  using find [OF assms, of "(k, kv_value t)" t] by (auto simp: equal_range [OF assms] kv_id_def)

lemma equal_range_sorted:
  assumes "mi_invar M m"
  shows "sorted_wrt (<) (map kv_value (mi_equal_range M k m))"
proof -
  have "sorted_wrt (<) (map kv_value (filter (\<lambda>t. kv_key t = k) ts))"
    if "sorted_wrt (<) (map kv_id ts)" for ts
    using that by (induction ts) (auto simp: kv_id_def less_prod_def')
  from this [OF sorted_items [OF assms]] show ?thesis by (simp add: equal_range [OF assms])
qed

end

section \<open>A container on sorted lists\<close>

fun li_insert :: "key_value_tuple \<Rightarrow> key_value_tuple list \<Rightarrow> key_value_tuple list" where
  "li_insert t [] = [t]"
| "li_insert t (u # us) = (if kv_id t < kv_id u then t # u # us else u # li_insert t us)"

definition list_index :: "key_value_tuple list index_ops" where
  "list_index =
     \<lparr>mi_invar = (\<lambda>us. sorted_wrt (<) (map kv_id us)), mi_items = (\<lambda>us. us), mi_clear = [],
      mi_insert = (\<lambda>t us. case find (\<lambda>u. kv_id u = kv_id t) us of
                             Some u \<Rightarrow> (us, u, False) | None \<Rightarrow> (li_insert t us, t, True)),
      mi_find = (\<lambda>i us. find (\<lambda>u. kv_id u = i) us),
      mi_equal_range = (\<lambda>k us. filter (\<lambda>u. kv_key u = k) us),
      mi_replace = (\<lambda>u t us. if list_ex (\<lambda>v. v \<noteq> u \<and> kv_id v = kv_id t) us then (us, False)
                              else (li_insert t (filter (\<lambda>v. v \<noteq> u) us), True)),
      mi_erase = (\<lambda>u us. filter (\<lambda>v. v \<noteq> u) us),
      mi_refresh_upto = (\<lambda>r us. sort_key kv_last_refresh_time (filter (\<lambda>u. kv_last_refresh_time u \<le> r) us)),
      mi_erase_expire = (\<lambda>a b us. filter (\<lambda>u. \<not> (a < kv_expire_time u \<and> kv_expire_time u < b)) us)\<rparr>"

lemma set_li_insert [simp]: "set (li_insert t us) = insert t (set us)"
  by (induction us) auto

lemma sorted_li_insert:
  "sorted_wrt (<) (map kv_id us) \<Longrightarrow> kv_id t \<notin> kv_id ` set us \<Longrightarrow> sorted_wrt (<) (map kv_id (li_insert t us))"
  by (induction us) (auto simp: not_less intro: order.strict_trans order.not_eq_order_implies_strict)

lemma sorted_ids_filter: "sorted_wrt (<) (map kv_id us) \<Longrightarrow> sorted_wrt (<) (map kv_id (filter P us))"
  by (induction us) auto

lemma sorted_ids_inj:
  "sorted_wrt (<) (map kv_id us) \<Longrightarrow> t \<in> set us \<Longrightarrow> u \<in> set us \<Longrightarrow> kv_id t = kv_id u \<Longrightarrow> t = u"
  by (induction us) auto

lemma find_ids:
  assumes "sorted_wrt (<) (map kv_id us)"
  shows "find (\<lambda>u. kv_id u = i) us = Some t \<longleftrightarrow> t \<in> set us \<and> kv_id t = i"
  using assms by (induction us) auto

lemma find_ids_None: "find (\<lambda>u. kv_id u = i) us = None \<longleftrightarrow> i \<notin> kv_id ` set us"
  by (induction us) auto

lemma li_others: "list_ex (\<lambda>v. v \<noteq> u \<and> kv_id v = kv_id t) us \<longleftrightarrow> kv_id t \<in> kv_id ` (set us - {u})"
proof -
  have "list_ex (\<lambda>v. v \<noteq> u \<and> kv_id v = kv_id t) us \<longleftrightarrow> (\<exists>v\<in>set us - {u}. kv_id t = kv_id v)"
    unfolding list_ex_iff by (metis DiffE DiffI insertI1 singletonD)
  then show ?thesis by (simp add: image_iff)
qed

interpretation li: multi_index list_index
proof
  fix m t u i assume inv: "mi_invar list_index m"
  then have srt: "sorted_wrt (<) (map kv_id m)" by (simp add: list_index_def)
  show "sorted_wrt (<) (map kv_id (mi_items list_index m))" using srt by (simp add: list_index_def)
  show "mi_find list_index i m = Some t \<longleftrightarrow> t \<in> set (mi_items list_index m) \<and> kv_id t = i"
    using find_ids [OF srt] by (simp add: list_index_def)
  show "mi_equal_range list_index k m = filter (\<lambda>t. kv_key t = k) (mi_items list_index m)" for k
    by (simp add: list_index_def)
  show "kv_id t \<notin> kv_id ` set (mi_items list_index m) \<Longrightarrow> \<exists>m'. mi_insert list_index t m = (m', t, True) \<and>
      mi_invar list_index m' \<and> set (mi_items list_index m') = insert t (set (mi_items list_index m))"
    using find_ids_None [of "kv_id t" m] sorted_li_insert [OF srt, of t]
    by (simp add: list_index_def)
  show "u \<in> set (mi_items list_index m) \<Longrightarrow> kv_id t = kv_id u \<Longrightarrow> mi_insert list_index t m = (m, u, False)"
    using find_ids [OF srt, of "kv_id u" u] by (simp add: list_index_def)
  show "u \<in> set (mi_items list_index m) \<Longrightarrow> kv_id t \<notin> kv_id ` (set (mi_items list_index m) - {u}) \<Longrightarrow>
      \<exists>m'. mi_replace list_index u t m = (m', True) \<and> mi_invar list_index m' \<and>
        set (mi_items list_index m') = insert t (set (mi_items list_index m) - {u})"
    using sorted_li_insert [OF sorted_ids_filter [OF srt], of t "\<lambda>v. v \<noteq> u"] li_others [of u t m]
    by (auto simp: list_index_def)
  show "u \<in> set (mi_items list_index m) \<Longrightarrow> kv_id t \<in> kv_id ` (set (mi_items list_index m) - {u}) \<Longrightarrow>
      mi_replace list_index u t m = (m, False)"
    using li_others [of u t m] by (simp add: list_index_def)
  show "u \<in> set (mi_items list_index m) \<Longrightarrow> mi_invar list_index (mi_erase list_index u m) \<and>
      set (mi_items list_index (mi_erase list_index u m)) = set (mi_items list_index m) - {u}"
    using sorted_ids_filter [OF srt] by (auto simp: list_index_def)
  show "mset (mi_refresh_upto list_index r m) =
      mset (filter (\<lambda>t. kv_last_refresh_time t \<le> r) (mi_items list_index m)) \<and>
      sorted_wrt (\<le>) (map kv_last_refresh_time (mi_refresh_upto list_index r m))" for r
    by (simp add: list_index_def)
  show "mi_invar list_index (mi_erase_expire list_index a b m) \<and>
      set (mi_items list_index (mi_erase_expire list_index a b m)) =
        {t \<in> set (mi_items list_index m). \<not> (a < kv_expire_time t \<and> kv_expire_time t < b)}" for a b
    using sorted_ids_filter [OF srt] by (simp add: list_index_def)
qed (simp_all add: list_index_def)

end
