(* ===== verification/DataStore.thy ===== *)
theory DataStore
  imports MultiIndex "HOL-Library.Word"
begin

text \<open>
  \<open>DataStore\<close> (\<open>src/kademlia/datastore.cpp\<close>), the storage of the node for the values published
  in the network. The container is the argument \<open>M\<close>, the seconds \<open>TTimer::current ()\<close> reads,
  cast to \<open>uint32_t\<close>, are the argument \<open>now\<close>. The functions and the lemmas about them are those
  of one thread that holds the mutex.
\<close>

record 'm data_store =
  ds_index :: 'm
  ds_t_refresh :: uint32

definition DataStore_new :: "'m index_ops \<Rightarrow> uint32 \<Rightarrow> 'm data_store" where
  "DataStore_new M t_refresh = \<lparr>ds_index = mi_clear M, ds_t_refresh = t_refresh\<rparr>"

definition ds_Keys :: "'m index_ops \<Rightarrow> 'm data_store \<Rightarrow> string set \<times> bool" where
  "ds_Keys M ds = (kv_key ` set (mi_items M (ds_index ds)), True)"

definition StoreItem ::
  "'m index_ops \<Rightarrow> uint32 \<Rightarrow> string \<Rightarrow> string \<Rightarrow> uint32 \<Rightarrow> bool \<Rightarrow> 'm data_store \<Rightarrow> 'm data_store \<times> bool" where
  "StoreItem M now key value time_to_live hashable ds =
     (if key = [] \<or> value = [] \<or> time_to_live = 0 then (ds, False)
      else let tuple = key_value_full key value now (time_to_live + now) time_to_live hashable;
               (m, p, fresh) = mi_insert M tuple (ds_index ds)
           in if \<not> fresh
              then if kv_del_status p = NOT_DELETED \<or> kv_ttl tuple = - 1 \<or>
                      kv_expire_time p < kv_expire_time tuple \<and> kv_ttl p \<noteq> - 1
                   then (ds\<lparr>ds_index := fst (mi_replace M p tuple m)\<rparr>, True)
                   else (ds\<lparr>ds_index := m\<rparr>, False)
              else (ds\<lparr>ds_index := m\<rparr>, True))"

text \<open>The test of \<open>LoadItem\<close>: the time that remains is an \<open>int32_t\<close>.\<close>

definition kv_alive :: "uint32 \<Rightarrow> key_value_tuple \<Rightarrow> bool" where
  "kv_alive now t \<longleftrightarrow>
     (sint (kv_expire_time t - now) > 0 \<or> kv_ttl t = - 1) \<and> kv_del_status t = NOT_DELETED"

definition LoadItem :: "'m index_ops \<Rightarrow> uint32 \<Rightarrow> string \<Rightarrow> 'm data_store \<Rightarrow> string list \<times> bool" where
  "LoadItem M now key ds =
     (let p = mi_equal_range M key (ds_index ds) in
      if p = [] then ([], False)
      else let values = map kv_value (filter (kv_alive now) p)
           in if values = [] then (values, False) else (values, True))"

definition DeleteItem :: "'m index_ops \<Rightarrow> string \<Rightarrow> string \<Rightarrow> 'm data_store \<Rightarrow> 'm data_store \<times> bool" where
  "DeleteItem M key value ds =
     (case mi_find M (key, value) (ds_index ds) of
        None \<Rightarrow> (ds, False)
      | Some it \<Rightarrow> (ds\<lparr>ds_index := mi_erase M it (ds_index ds)\<rparr>, True))"

definition DeleteKey :: "'m index_ops \<Rightarrow> string \<Rightarrow> 'm data_store \<Rightarrow> 'm data_store \<times> bool" where
  "DeleteKey M key ds =
     (let p = mi_equal_range M key (ds_index ds) in
      if p = [] then (ds, False)
      else (ds\<lparr>ds_index := fold (mi_erase M) p (ds_index ds)\<rparr>, True))"

definition LastRefreshTime :: "'m index_ops \<Rightarrow> string \<Rightarrow> string \<Rightarrow> 'm data_store \<Rightarrow> uint32" where
  "LastRefreshTime M key value ds =
     (case mi_find M (key, value) (ds_index ds) of None \<Rightarrow> 0 | Some it \<Rightarrow> kv_last_refresh_time it)"

definition ExpireTime :: "'m index_ops \<Rightarrow> string \<Rightarrow> string \<Rightarrow> 'm data_store \<Rightarrow> uint32" where
  "ExpireTime M key value ds =
     (case mi_find M (key, value) (ds_index ds) of None \<Rightarrow> 0 | Some it \<Rightarrow> kv_expire_time it)"

definition TimeToLive :: "'m index_ops \<Rightarrow> string \<Rightarrow> string \<Rightarrow> 'm data_store \<Rightarrow> uint32" where
  "TimeToLive M key value ds =
     (case mi_find M (key, value) (ds_index ds) of None \<Rightarrow> 0 | Some it \<Rightarrow> kv_ttl it)"

record refresh_value =
  rv_key :: string
  rv_value :: string
  rv_ttl :: uint32
  rv_del_status :: delete_status

definition refresh_of :: "uint32 \<Rightarrow> key_value_tuple \<Rightarrow> refresh_value list" where
  "refresh_of now it =
     (if kv_ttl it = - 1 \<and> kv_del_status it = NOT_DELETED
      then [\<lparr>rv_key = kv_key it, rv_value = kv_value it, rv_ttl = kv_ttl it, rv_del_status = NOT_DELETED\<rparr>]
      else let ttl_remaining = kv_expire_time it - now in
           if sint ttl_remaining > 0 \<and> kv_del_status it = NOT_DELETED
           then [\<lparr>rv_key = kv_key it, rv_value = kv_value it, rv_ttl = ttl_remaining,
                  rv_del_status = NOT_DELETED\<rparr>]
           else if kv_del_status it \<noteq> NOT_DELETED
           then [\<lparr>rv_key = kv_key it, rv_value = kv_value it, rv_ttl = 0, rv_del_status = kv_del_status it\<rparr>]
           else [])"

definition ValuesToRefresh :: "'m index_ops \<Rightarrow> uint32 \<Rightarrow> 'm data_store \<Rightarrow> refresh_value list" where
  "ValuesToRefresh M now ds =
     concat (map (refresh_of now) (mi_refresh_upto M (now - ds_t_refresh ds) (ds_index ds)))"

text \<open>
  For \<open>now = 0\<close> and an entry with expiry time 0 the limits of the erased range are the wrong way
  round.
\<close>

definition DeleteExpiredValues :: "'m index_ops \<Rightarrow> uint32 \<Rightarrow> 'm data_store \<Rightarrow> 'm data_store res" where
  "DeleteExpiredValues M now ds =
     (if now = 0 \<and> list_ex (\<lambda>t. kv_expire_time t = 0) (mi_items M (ds_index ds)) then Inl Undefined
      else Inr (ds\<lparr>ds_index := mi_erase_expire M 0 now (ds_index ds)\<rparr>))"

definition ds_Clear :: "'m index_ops \<Rightarrow> 'm data_store \<Rightarrow> 'm data_store" where
  "ds_Clear M ds = ds\<lparr>ds_index := mi_clear M\<rparr>"

definition LoadKeyAppendableAttr :: "'m index_ops \<Rightarrow> string \<Rightarrow> 'm data_store \<Rightarrow> (string \<times> bool) list" where
  "LoadKeyAppendableAttr M key ds =
     map (\<lambda>t. (kv_value t, kv_hashable t)) (mi_equal_range M key (ds_index ds))"

text \<open>The second result is the returned bool, the third \<open>*str_delete_req\<close>.\<close>

definition RefreshItem ::
  "'m index_ops \<Rightarrow> uint32 \<Rightarrow> string \<Rightarrow> string \<Rightarrow> string \<Rightarrow> 'm data_store \<Rightarrow> 'm data_store \<times> bool \<times> string" where
  "RefreshItem M now key value str_delete_req ds =
     (case mi_find M (key, value) (ds_index ds) of
        None \<Rightarrow> (ds, False, str_delete_req)
      | Some it \<Rightarrow>
          if kv_del_status it \<noteq> NOT_DELETED then (ds, False, kv_ser_delete_req it)
          else let tuple = (key_value_short key value now)
                     \<lparr>kv_ttl := kv_ttl it, kv_expire_time := kv_expire_time it, kv_hashable := kv_hashable it\<rparr>;
                   (m, r) = mi_replace M it tuple (ds_index ds)
               in (ds\<lparr>ds_index := m\<rparr>, r, str_delete_req))"

definition MarkForDeletion ::
  "'m index_ops \<Rightarrow> string \<Rightarrow> string \<Rightarrow> string \<Rightarrow> 'm data_store \<Rightarrow> 'm data_store \<times> bool" where
  "MarkForDeletion M key value ser_del_request ds =
     (case mi_find M (key, value) (ds_index ds) of
        None \<Rightarrow> (ds, False)
      | Some it \<Rightarrow>
          if kv_del_status it \<noteq> NOT_DELETED then (ds, True)
          else let tuple = (key_value_short key value 0)
                     \<lparr>kv_ttl := kv_ttl it, kv_expire_time := kv_expire_time it, kv_hashable := kv_hashable it,
                      kv_last_refresh_time := kv_last_refresh_time it, kv_ser_delete_req := ser_del_request,
                      kv_del_status := MARKED_FOR_DELETION\<rparr>;
                   (m, r) = mi_replace M it tuple (ds_index ds)
               in (ds\<lparr>ds_index := m\<rparr>, r))"

definition MarkAsDeleted :: "'m index_ops \<Rightarrow> string \<Rightarrow> string \<Rightarrow> 'm data_store \<Rightarrow> 'm data_store \<times> bool" where
  "MarkAsDeleted M key value ds =
     (case mi_find M (key, value) (ds_index ds) of
        None \<Rightarrow> (ds, False)
      | Some it \<Rightarrow>
          if kv_del_status it \<noteq> MARKED_FOR_DELETION then (ds, False)
          else let tuple = (key_value_short key value 0)
                     \<lparr>kv_ttl := kv_ttl it, kv_expire_time := kv_expire_time it, kv_hashable := kv_hashable it,
                      kv_last_refresh_time := kv_last_refresh_time it,
                      kv_ser_delete_req := kv_ser_delete_req it, kv_del_status := DELETED\<rparr>;
                   (m, r) = mi_replace M it tuple (ds_index ds)
               in (ds\<lparr>ds_index := m\<rparr>, r))"

definition UpdateItem ::
  "'m index_ops \<Rightarrow> uint32 \<Rightarrow> string \<Rightarrow> string \<Rightarrow> string \<Rightarrow> uint32 \<Rightarrow> bool \<Rightarrow> 'm data_store \<Rightarrow>
     'm data_store \<times> bool" where
  "UpdateItem M now key old_value new_value time_to_live hashable ds =
     (case mi_find M (key, old_value) (ds_index ds) of
        None \<Rightarrow> (ds, False)
      | Some it \<Rightarrow>
          if kv_del_status it = MARKED_FOR_DELETION \<or> kv_del_status it = DELETED then (ds, False)
          else let tuple = (key_value_short key new_value 0)
                     \<lparr>kv_ttl := time_to_live, kv_expire_time := now + time_to_live,
                      kv_last_refresh_time := now, kv_del_status := NOT_DELETED, kv_hashable := hashable\<rparr>;
                   (m, r) = mi_replace M it tuple (ds_index ds)
               in (ds\<lparr>ds_index := m\<rparr>, r))"

end
