(* ===== verification/DataStoreSpec.thy ===== *)
theory DataStoreSpec
  imports DataStore "HOL-Library.Word"
begin

text \<open>
  What the data store promises. Its abstract state is a finite map from key and value to the
  entry; \<open>ds_exec\<close> runs one call on the model of the code and \<open>spec_exec\<close> the same call on the
  map, \<open>spec_answer\<close> says what it may answer, and \<open>ds_run\<close> and \<open>spec_run\<close> make calls one after the other. The lemmas show that the first implements the second for every container that keeps the
  laws of \<open>multi_index\<close>; what follows about life times and about deletion is proved on the map.
\<close>

definition ds_ok :: "'m index_ops \<Rightarrow> 'm data_store \<Rightarrow> bool" where
  "ds_ok M ds \<longleftrightarrow> mi_invar M (ds_index ds)"

definition ds_at :: "'m index_ops \<Rightarrow> 'm data_store \<Rightarrow> string \<times> string \<rightharpoonup> key_value_tuple" where
  "ds_at M ds = (\<lambda>i. mi_find M i (ds_index ds))"

datatype ds_op =
    Op_Store string string uint32 bool
  | Op_DeleteItem string string
  | Op_DeleteKey string
  | Op_Expire
  | Op_Clear
  | Op_Refresh string string string
  | Op_Mark string string string
  | Op_MarkDeleted string string
  | Op_Update string string string uint32 bool
  | Op_Load string
  | Op_Keys
  | Op_LastRefresh string string
  | Op_ExpireTime string string
  | Op_TimeToLive string string
  | Op_ToRefresh
  | Op_Attr string
  | Op_TRefresh

text \<open>
  A call returns the new store and the answer: what the function returns and what it writes to its
  arguments. \<open>Op_Refresh\<close> takes what \<open>*str_delete_req\<close> holds before the call.
\<close>

datatype ds_answer =
    Ans_Void
  | Ans_Bool bool
  | Ans_Refreshed bool string
  | Ans_Values "string list" bool
  | Ans_Keys "string set" bool
  | Ans_Word uint32
  | Ans_ToRefresh "refresh_value list"
  | Ans_Attrs "(string \<times> bool) list"

fun ds_exec :: "'m index_ops \<Rightarrow> uint32 \<Rightarrow> ds_op \<Rightarrow> 'm data_store \<Rightarrow> ('m data_store \<times> ds_answer) res" where
  "ds_exec M now (Op_Store k v ttl h) ds = (let (ds', r) = StoreItem M now k v ttl h ds in Inr (ds', Ans_Bool r))"
| "ds_exec M now (Op_DeleteItem k v) ds = (let (ds', r) = DeleteItem M k v ds in Inr (ds', Ans_Bool r))"
| "ds_exec M now (Op_DeleteKey k) ds = (let (ds', r) = DeleteKey M k ds in Inr (ds', Ans_Bool r))"
| "ds_exec M now Op_Expire ds = bind_res (DeleteExpiredValues M now ds) (\<lambda>ds'. Inr (ds', Ans_Void))"
| "ds_exec M now Op_Clear ds = Inr (ds_Clear M ds, Ans_Void)"
| "ds_exec M now (Op_Refresh k v req) ds =
     (let (ds', r, req') = RefreshItem M now k v req ds in Inr (ds', Ans_Refreshed r req'))"
| "ds_exec M now (Op_Mark k v req) ds = (let (ds', r) = MarkForDeletion M k v req ds in Inr (ds', Ans_Bool r))"
| "ds_exec M now (Op_MarkDeleted k v) ds = (let (ds', r) = MarkAsDeleted M k v ds in Inr (ds', Ans_Bool r))"
| "ds_exec M now (Op_Update k v v' ttl h) ds = (let (ds', r) = UpdateItem M now k v v' ttl h ds in Inr (ds', Ans_Bool r))"
| "ds_exec M now (Op_Load k) ds = (let (vs, r) = LoadItem M now k ds in Inr (ds, Ans_Values vs r))"
| "ds_exec M now Op_Keys ds = (let (ks, r) = ds_Keys M ds in Inr (ds, Ans_Keys ks r))"
| "ds_exec M now (Op_LastRefresh k v) ds = Inr (ds, Ans_Word (LastRefreshTime M k v ds))"
| "ds_exec M now (Op_ExpireTime k v) ds = Inr (ds, Ans_Word (ExpireTime M k v ds))"
| "ds_exec M now (Op_TimeToLive k v) ds = Inr (ds, Ans_Word (TimeToLive M k v ds))"
| "ds_exec M now Op_ToRefresh ds = Inr (ds, Ans_ToRefresh (ValuesToRefresh M now ds))"
| "ds_exec M now (Op_Attr k) ds = Inr (ds, Ans_Attrs (LoadKeyAppendableAttr M k ds))"
| "ds_exec M now Op_TRefresh ds = Inr (ds, Ans_Word (ds_t_refresh ds))"

text \<open>Calls one after the other, each with the time it is made at.\<close>

fun ds_run :: "'m index_ops \<Rightarrow> (uint32 \<times> ds_op) list \<Rightarrow> 'm data_store \<Rightarrow> ('m data_store \<times> ds_answer list) res" where
  "ds_run M [] ds = Inr (ds, [])"
| "ds_run M ((now, c) # calls) ds =
     bind_res (ds_exec M now c ds) (\<lambda>(ds', r). bind_res (ds_run M calls ds') (\<lambda>(ds'', rs). Inr (ds'', r # rs)))"

section \<open>The abstract store\<close>

type_synonym store_map = "string \<times> string \<rightharpoonup> key_value_tuple"

definition store_accepts :: "key_value_tuple option \<Rightarrow> key_value_tuple \<Rightarrow> bool" where
  "store_accepts old t = (case old of None \<Rightarrow> True
     | Some p \<Rightarrow> kv_del_status p = NOT_DELETED \<or> kv_ttl t = - 1 \<or>
                 kv_expire_time p < kv_expire_time t \<and> kv_ttl p \<noteq> - 1)"

definition updated :: "uint32 \<Rightarrow> string \<Rightarrow> string \<Rightarrow> uint32 \<Rightarrow> bool \<Rightarrow> key_value_tuple" where
  "updated now k v ttl h =
     \<lparr>kv_key = k, kv_value = v, kv_ser_delete_req = [], kv_last_refresh_time = now,
      kv_expire_time = now + ttl, kv_ttl = ttl, kv_hashable = h, kv_del_status = NOT_DELETED\<rparr>"

fun spec_exec :: "uint32 \<Rightarrow> ds_op \<Rightarrow> store_map \<Rightarrow> store_map" where
  "spec_exec now (Op_Store k v ttl h) A =
     (let t = key_value_full k v now (ttl + now) ttl h in
      if k \<noteq> [] \<and> v \<noteq> [] \<and> ttl \<noteq> 0 \<and> store_accepts (A (k, v)) t then A((k, v) \<mapsto> t) else A)"
| "spec_exec now (Op_DeleteItem k v) A = A((k, v) := None)"
| "spec_exec now (Op_DeleteKey k) A = (\<lambda>i. if fst i = k then None else A i)"
| "spec_exec now Op_Expire A = (\<lambda>i. case A i of None \<Rightarrow> None
     | Some t \<Rightarrow> if 0 < kv_expire_time t \<and> kv_expire_time t < now then None else Some t)"
| "spec_exec now Op_Clear A = Map.empty"
| "spec_exec now (Op_Refresh k v req) A = A((k, v) := map_option (\<lambda>t.
     if kv_del_status t = NOT_DELETED then t\<lparr>kv_last_refresh_time := now, kv_ser_delete_req := []\<rparr> else t)
     (A (k, v)))"
| "spec_exec now (Op_Mark k v req) A = A((k, v) := map_option (\<lambda>t.
     if kv_del_status t = NOT_DELETED
     then t\<lparr>kv_ser_delete_req := req, kv_del_status := MARKED_FOR_DELETION\<rparr> else t) (A (k, v)))"
| "spec_exec now (Op_MarkDeleted k v) A = A((k, v) := map_option (\<lambda>t.
     if kv_del_status t = MARKED_FOR_DELETION then t\<lparr>kv_del_status := DELETED\<rparr> else t) (A (k, v)))"
| "spec_exec now (Op_Update k v v' ttl h) A = (case A (k, v) of None \<Rightarrow> A
     | Some t \<Rightarrow> if kv_del_status t = NOT_DELETED \<and> (v' = v \<or> A (k, v') = None)
               then A((k, v) := None, (k, v') \<mapsto> updated now k v' ttl h) else A)"
| "spec_exec now _ A = A"

text \<open>
  The answers. The order of the values of a key is that of the strings; values due for a refresh come
  in the order of their refresh times, an entry that is neither deleted nor alive is left out.
\<close>

definition entry_word :: "(key_value_tuple \<Rightarrow> uint32) \<Rightarrow> key_value_tuple option \<Rightarrow> uint32" where
  "entry_word f e = (case e of None \<Rightarrow> 0 | Some t \<Rightarrow> f t)"

definition due_value :: "uint32 \<Rightarrow> key_value_tuple \<Rightarrow> refresh_value option" where
  "due_value now t =
     (if kv_del_status t \<noteq> NOT_DELETED
      then Some \<lparr>rv_key = kv_key t, rv_value = kv_value t, rv_ttl = 0, rv_del_status = kv_del_status t\<rparr>
      else if kv_alive now t
      then Some \<lparr>rv_key = kv_key t, rv_value = kv_value t,
                 rv_ttl = (if kv_ttl t = - 1 then - 1 else kv_expire_time t - now), rv_del_status = NOT_DELETED\<rparr>
      else None)"

fun spec_answer :: "uint32 \<Rightarrow> uint32 \<Rightarrow> ds_op \<Rightarrow> store_map \<Rightarrow> ds_answer \<Rightarrow> bool" where
  "spec_answer t_refresh now (Op_Store k v ttl h) A r \<longleftrightarrow> r = Ans_Bool (k \<noteq> [] \<and> v \<noteq> [] \<and> ttl \<noteq> 0 \<and>
     store_accepts (A (k, v)) (key_value_full k v now (ttl + now) ttl h))"
| "spec_answer t_refresh now (Op_DeleteItem k v) A r \<longleftrightarrow> r = Ans_Bool (A (k, v) \<noteq> None)"
| "spec_answer t_refresh now (Op_DeleteKey k) A r \<longleftrightarrow> r = Ans_Bool (\<exists>v. A (k, v) \<noteq> None)"
| "spec_answer t_refresh now Op_Expire A r \<longleftrightarrow> r = Ans_Void"
| "spec_answer t_refresh now Op_Clear A r \<longleftrightarrow> r = Ans_Void"
| "spec_answer t_refresh now (Op_Refresh k v req) A r \<longleftrightarrow> r = (case A (k, v) of None \<Rightarrow> Ans_Refreshed False req
     | Some t \<Rightarrow> if kv_del_status t = NOT_DELETED then Ans_Refreshed True req
               else Ans_Refreshed False (kv_ser_delete_req t))"
| "spec_answer t_refresh now (Op_Mark k v req) A r \<longleftrightarrow> r = Ans_Bool (A (k, v) \<noteq> None)"
| "spec_answer t_refresh now (Op_MarkDeleted k v) A r \<longleftrightarrow>
     r = Ans_Bool (\<exists>t. A (k, v) = Some t \<and> kv_del_status t = MARKED_FOR_DELETION)"
| "spec_answer t_refresh now (Op_Update k v v' ttl h) A r \<longleftrightarrow>
     r = Ans_Bool (\<exists>t. A (k, v) = Some t \<and> kv_del_status t = NOT_DELETED \<and> (v' = v \<or> A (k, v') = None))"
| "spec_answer t_refresh now (Op_Load k) A r \<longleftrightarrow> (\<exists>vs. r = Ans_Values vs (vs \<noteq> []) \<and> sorted_wrt (<) vs \<and>
     set vs = {v. \<exists>t. A (k, v) = Some t \<and> kv_alive now t})"
| "spec_answer t_refresh now Op_Keys A r \<longleftrightarrow> r = Ans_Keys {k. \<exists>v. A (k, v) \<noteq> None} True"
| "spec_answer t_refresh now (Op_LastRefresh k v) A r \<longleftrightarrow> r = Ans_Word (entry_word kv_last_refresh_time (A (k, v)))"
| "spec_answer t_refresh now (Op_ExpireTime k v) A r \<longleftrightarrow> r = Ans_Word (entry_word kv_expire_time (A (k, v)))"
| "spec_answer t_refresh now (Op_TimeToLive k v) A r \<longleftrightarrow> r = Ans_Word (entry_word kv_ttl (A (k, v)))"
| "spec_answer t_refresh now Op_ToRefresh A r \<longleftrightarrow> (\<exists>ts. r = Ans_ToRefresh (List.map_filter (due_value now) ts) \<and>
     distinct ts \<and> set ts = {t \<in> ran A. kv_last_refresh_time t \<le> now - t_refresh} \<and>
     sorted_wrt (\<le>) (map kv_last_refresh_time ts))"
| "spec_answer t_refresh now (Op_Attr k) A r \<longleftrightarrow> (\<exists>as. r = Ans_Attrs as \<and> sorted_wrt (<) (map fst as) \<and>
     set as = {(v, h). \<exists>t. A (k, v) = Some t \<and> kv_hashable t = h})"
| "spec_answer t_refresh now Op_TRefresh A r \<longleftrightarrow> r = Ans_Word t_refresh"

fun spec_answers :: "uint32 \<Rightarrow> (uint32 \<times> ds_op) list \<Rightarrow> store_map \<Rightarrow> ds_answer list \<Rightarrow> bool" where
  "spec_answers t_refresh ((now, c) # calls) A (r # rs) \<longleftrightarrow>
     spec_answer t_refresh now c A r \<and> spec_answers t_refresh calls (spec_exec now c A) rs"
| "spec_answers t_refresh calls A rs \<longleftrightarrow> calls = [] \<and> rs = []"

definition spec_run :: "(uint32 \<times> ds_op) list \<Rightarrow> store_map \<Rightarrow> store_map" where
  "spec_run calls A = fold (\<lambda>(now, c). spec_exec now c) calls A"

section \<open>The code implements the abstract store\<close>

lemma kv_id_simps [simp]:
  "kv_id (key_value_full k v r e ttl h) = (k, v)"
  "kv_id (key_value_short k v r) = (k, v)"
  "kv_id (updated now k v ttl h) = (k, v)"
  by (simp_all add: kv_id_def key_value_full_def key_value_short_def updated_def)

lemma kv_id_update [simp]:
  "kv_id (t\<lparr>kv_ttl := a\<rparr>) = kv_id t" "kv_id (t\<lparr>kv_expire_time := a\<rparr>) = kv_id t"
  "kv_id (t\<lparr>kv_hashable := h\<rparr>) = kv_id t" "kv_id (t\<lparr>kv_last_refresh_time := a\<rparr>) = kv_id t"
  "kv_id (t\<lparr>kv_ser_delete_req := s\<rparr>) = kv_id t" "kv_id (t\<lparr>kv_del_status := d\<rparr>) = kv_id t"
  by (simp_all add: kv_id_def)

text \<open>The entries the operations write back differ from the old ones in the fields named.\<close>

lemma copied_tuple:
  assumes "kv_id t = (k, v)"
  shows "(key_value_short k v now)\<lparr>kv_ttl := kv_ttl t, kv_expire_time := kv_expire_time t,
      kv_hashable := kv_hashable t\<rparr> =
    t\<lparr>kv_last_refresh_time := now, kv_ser_delete_req := [], kv_del_status := NOT_DELETED\<rparr>"
  using assms by (cases t) (simp add: kv_id_def key_value_short_def)

lemma updated_tuple:
  "(key_value_short k v 0)\<lparr>kv_ttl := ttl, kv_expire_time := now + ttl, kv_last_refresh_time := now,
      kv_del_status := NOT_DELETED, kv_hashable := h\<rparr> = updated now k v ttl h"
  by (simp add: key_value_short_def updated_def)

text \<open>The simulation of one call: the container stays well formed and the map steps.\<close>

definition sim :: "'m index_ops \<Rightarrow> (store_map \<Rightarrow> store_map) \<Rightarrow> 'm data_store \<Rightarrow> 'm data_store \<Rightarrow> bool" where
  "sim M F ds ds' \<longleftrightarrow> ds_ok M ds' \<and> ds_at M ds' = F (ds_at M ds) \<and> ds_t_refresh ds' = ds_t_refresh ds"

context multi_index
begin

lemma find_id: "ds_ok M ds \<Longrightarrow> mi_find M i (ds_index ds) = Some t \<Longrightarrow> kv_id t = i"
  by (simp add: ds_ok_def find)

text \<open>Writing back an entry with the same key and value.\<close>

lemma replace_same:
  assumes "ds_ok M ds" "mi_find M i (ds_index ds) = Some t" "kv_id u = i"
  obtains m' where "mi_replace M t u (ds_index ds) = (m', True)"
    "ds_ok M (ds\<lparr>ds_index := m'\<rparr>)" "ds_at M (ds\<lparr>ds_index := m'\<rparr>) = (ds_at M ds)(i \<mapsto> u)"
proof -
  have "kv_id t = i" using assms by (simp add: find_id)
  with replace_find [of "ds_index ds" t u] assms that show thesis
    by (auto simp: ds_ok_def ds_at_def)
qed

lemma StoreItem_sim:
  assumes "ds_ok M ds"
  shows "sim M (spec_exec now (Op_Store k v ttl h)) ds (fst (StoreItem M now k v ttl h ds)) \<and>
    (snd (StoreItem M now k v ttl h ds) \<longleftrightarrow> k \<noteq> [] \<and> v \<noteq> [] \<and> ttl \<noteq> 0 \<and>
      store_accepts (ds_at M ds (k, v)) (key_value_full k v now (ttl + now) ttl h))"
proof (cases "k = [] \<or> v = [] \<or> ttl = 0")
  case True
  then show ?thesis using assms by (auto simp: StoreItem_def sim_def)
next
  case False
  let ?t = "key_value_full k v now (ttl + now) ttl h" and ?m = "ds_index ds"
  show ?thesis
  proof (cases "mi_find M (k, v) ?m")
    case None
    with insert_find [of ?m ?t] assms obtain m' where "mi_insert M ?t ?m = (m', ?t, True)"
      "mi_invar M m'" "(\<lambda>i. mi_find M i m') = (\<lambda>i. mi_find M i ?m)((k, v) \<mapsto> ?t)"
      by (auto simp: ds_ok_def)
    with False None show ?thesis
      by (simp add: StoreItem_def sim_def ds_ok_def ds_at_def store_accepts_def)
  next
    case (Some p)
    then have p: "p \<in> set (mi_items M ?m)" "kv_id p = (k, v)"
      using assms find_SomeD [of ?m "(k, v)" p] by (auto simp: ds_ok_def)
    with insert_old [of ?m p ?t] assms have "mi_insert M ?t ?m = (?m, p, False)"
      by (simp add: ds_ok_def)
    moreover obtain m' where "mi_replace M p ?t ?m = (m', True)"
      "ds_ok M (ds\<lparr>ds_index := m'\<rparr>)" "ds_at M (ds\<lparr>ds_index := m'\<rparr>) = (ds_at M ds)((k, v) \<mapsto> ?t)"
      using replace_same [OF assms Some, of ?t] by auto
    moreover have "ds_at M ds (k, v) = Some p" using Some by (simp add: ds_at_def)
    ultimately show ?thesis using False assms
      by (simp add: StoreItem_def sim_def store_accepts_def Let_def)
  qed
qed

lemma DeleteItem_sim:
  assumes "ds_ok M ds"
  shows "sim M (spec_exec now (Op_DeleteItem k v)) ds (fst (DeleteItem M k v ds)) \<and>
    (snd (DeleteItem M k v ds) \<longleftrightarrow> ds_at M ds (k, v) \<noteq> None)"
proof (cases "mi_find M (k, v) (ds_index ds)")
  case None
  then have "(ds_at M ds)((k, v) := None) = ds_at M ds" by (auto simp: ds_at_def)
  with None assms show ?thesis by (simp add: DeleteItem_def sim_def) (simp add: ds_at_def)
next
  case (Some t)
  then have "kv_id t = (k, v)" using assms by (simp add: find_id)
  with erase_find [of "ds_index ds" t] Some assms show ?thesis
    by (simp add: DeleteItem_def sim_def ds_ok_def ds_at_def)
qed

lemma DeleteKey_sim:
  assumes "ds_ok M ds"
  shows "sim M (spec_exec now (Op_DeleteKey k)) ds (fst (DeleteKey M k ds)) \<and>
    (snd (DeleteKey M k ds) \<longleftrightarrow> (\<exists>v. ds_at M ds (k, v) \<noteq> None))"
proof -
  let ?m = "ds_index ds" and ?p = "mi_equal_range M k (ds_index ds)"
  have inv: "mi_invar M ?m" using assms by (simp add: ds_ok_def)
  have mem: "i \<in> kv_id ` set ?p \<longleftrightarrow> fst i = k \<and> mi_find M i ?m \<noteq> None" for i
  proof
    assume "i \<in> kv_id ` set ?p"
    then obtain t where t: "t \<in> set ?p" "i = kv_id t" by blast
    then have "kv_key t = k" by (simp add: equal_range [OF inv])
    with t equal_range_find [OF inv, of t k] show "fst i = k \<and> mi_find M i ?m \<noteq> None"
      by (simp add: kv_id_def)
  next
    assume i: "fst i = k \<and> mi_find M i ?m \<noteq> None"
    then obtain t where t: "mi_find M i ?m = Some t" by blast
    then have "kv_id t = i" using assms by (simp add: find_id)
    then have "t \<in> set ?p" using i t equal_range_find [OF inv, of t k] by (auto simp: kv_id_def)
    with \<open>kv_id t = i\<close> show "i \<in> kv_id ` set ?p" by blast
  qed
  have all: "\<forall>u\<in>set ?p. mi_find M (kv_id u) ?m = Some u"
    using find [OF inv] by (auto simp: equal_range [OF inv])
  have dist: "distinct (map kv_id ?p)"
    using distinct_ids [OF inv] by (simp add: equal_range [OF inv] distinct_map_filter)
  have none: "?p = [] \<longleftrightarrow> (\<forall>v. ds_at M ds (k, v) = None)"
  proof -
    have "?p = [] \<longleftrightarrow> kv_id ` set ?p = {}" by simp
    also have "\<dots> \<longleftrightarrow> (\<forall>i. \<not> (fst i = k \<and> mi_find M i ?m \<noteq> None))"
      unfolding mem [symmetric] by (rule all_not_in_conv [symmetric])
    also have "\<dots> \<longleftrightarrow> (\<forall>v. ds_at M ds (k, v) = None)" by (auto simp: ds_at_def)
    finally show ?thesis .
  qed
  show ?thesis
  proof (cases "?p = []")
    case True
    then have "(\<lambda>i. if fst i = k then None else ds_at M ds i) = ds_at M ds" using none by (auto simp: fun_eq_iff)
    with True none assms show ?thesis by (simp add: DeleteKey_def sim_def)
  next
    case False
    from fold_erase_find [OF inv all dist] have "mi_invar M (fold (mi_erase M) ?p ?m)"
      "(\<lambda>i. mi_find M i (fold (mi_erase M) ?p ?m)) = (\<lambda>i. if fst i = k then None else mi_find M i ?m)"
      by (auto simp: mem fun_eq_iff)
    with False none show ?thesis by (simp add: DeleteKey_def sim_def ds_ok_def ds_at_def Let_def)
  qed
qed

lemma DeleteExpired_sim:
  assumes "ds_ok M ds"
  shows "DeleteExpiredValues M now ds = Inl Undefined \<and> now = 0 \<or>
    (\<exists>ds'. DeleteExpiredValues M now ds = Inr ds' \<and> sim M (spec_exec now Op_Expire) ds ds')"
  using erase_expire_find [of "ds_index ds" 0 now] assms
  by (simp add: DeleteExpiredValues_def sim_def ds_ok_def ds_at_def)

lemma Clear_sim: "sim M (spec_exec now Op_Clear) ds (ds_Clear M ds)"
proof -
  have "mi_find M i (mi_clear M) = None" for i using clear by (simp add: find_None)
  then show ?thesis using clear by (simp add: ds_Clear_def sim_def ds_ok_def ds_at_def fun_eq_iff)
qed

lemma rewrite_sim:
  assumes "ds_ok M ds" "mi_find M i (ds_index ds) = Some t" "kv_id u = i"
  shows "sim M (\<lambda>A. A(i \<mapsto> u)) ds (ds\<lparr>ds_index := fst (mi_replace M t u (ds_index ds))\<rparr>) \<and>
    snd (mi_replace M t u (ds_index ds))"
  by (rule replace_same [OF assms]) (simp add: sim_def)

lemma RefreshItem_sim:
  assumes "ds_ok M ds"
  shows "sim M (spec_exec now (Op_Refresh k v req')) ds (fst (RefreshItem M now k v req ds)) \<and>
    snd (RefreshItem M now k v req ds) =
      (case ds_at M ds (k, v) of None \<Rightarrow> (False, req)
       | Some t \<Rightarrow> if kv_del_status t = NOT_DELETED then (True, req) else (False, kv_ser_delete_req t))"
proof (cases "mi_find M (k, v) (ds_index ds)")
  case None
  then have "ds_at M ds (k, v) = None" by (simp add: ds_at_def)
  then show ?thesis using None assms by (simp add: RefreshItem_def sim_def fun_upd_idem)
next
  case (Some t)
  then have at: "ds_at M ds (k, v) = Some t" by (simp add: ds_at_def)
  have id: "kv_id t = (k, v)" using assms Some by (simp add: find_id)
  from rewrite_sim [OF assms Some, of "t\<lparr>kv_last_refresh_time := now, kv_ser_delete_req := [],
      kv_del_status := NOT_DELETED\<rparr>"] id
  show ?thesis using Some at assms
    by (cases "kv_del_status t = NOT_DELETED")
      (auto simp: RefreshItem_def copied_tuple [OF id] sim_def fun_upd_idem split_beta)
qed

lemma MarkForDeletion_sim:
  assumes "ds_ok M ds"
  shows "sim M (spec_exec now (Op_Mark k v req)) ds (fst (MarkForDeletion M k v req ds)) \<and>
    (snd (MarkForDeletion M k v req ds) \<longleftrightarrow> ds_at M ds (k, v) \<noteq> None)"
proof (cases "mi_find M (k, v) (ds_index ds)")
  case None
  then have "ds_at M ds (k, v) = None" by (simp add: ds_at_def)
  then show ?thesis using None assms by (simp add: MarkForDeletion_def sim_def fun_upd_idem)
next
  case (Some t)
  then have at: "ds_at M ds (k, v) = Some t" by (simp add: ds_at_def)
  have id: "kv_id t = (k, v)" using assms Some by (simp add: find_id)
  from rewrite_sim [OF assms Some, of "t\<lparr>kv_ser_delete_req := req, kv_del_status := MARKED_FOR_DELETION\<rparr>"] id
  show ?thesis using Some at assms
    by (cases "kv_del_status t = NOT_DELETED")
      (auto simp: MarkForDeletion_def copied_tuple [OF id] sim_def fun_upd_idem split_beta)
qed

lemma MarkAsDeleted_sim:
  assumes "ds_ok M ds"
  shows "sim M (spec_exec now (Op_MarkDeleted k v)) ds (fst (MarkAsDeleted M k v ds)) \<and>
    (snd (MarkAsDeleted M k v ds) \<longleftrightarrow>
      (\<exists>t. ds_at M ds (k, v) = Some t \<and> kv_del_status t = MARKED_FOR_DELETION))"
proof (cases "mi_find M (k, v) (ds_index ds)")
  case None
  then have "ds_at M ds (k, v) = None" by (simp add: ds_at_def)
  then show ?thesis using None assms by (simp add: MarkAsDeleted_def sim_def fun_upd_idem)
next
  case (Some t)
  then have at: "ds_at M ds (k, v) = Some t" by (simp add: ds_at_def)
  have id: "kv_id t = (k, v)" using assms Some by (simp add: find_id)
  from rewrite_sim [OF assms Some, of "t\<lparr>kv_del_status := DELETED\<rparr>"] id
  show ?thesis using Some at assms
    by (cases "kv_del_status t = MARKED_FOR_DELETION")
      (auto simp: MarkAsDeleted_def copied_tuple [OF id] sim_def fun_upd_idem split_beta)
qed

lemma not_deleted_iff: "d = MARKED_FOR_DELETION \<or> d = DELETED \<longleftrightarrow> d \<noteq> NOT_DELETED"
  by (cases d) auto

lemma UpdateItem_sim:
  assumes "ds_ok M ds"
  shows "sim M (spec_exec now (Op_Update k v v' ttl h)) ds (fst (UpdateItem M now k v v' ttl h ds)) \<and>
    (snd (UpdateItem M now k v v' ttl h ds) \<longleftrightarrow>
      (\<exists>t. ds_at M ds (k, v) = Some t \<and> kv_del_status t = NOT_DELETED \<and>
        (v' = v \<or> ds_at M ds (k, v') = None)))"
proof (cases "mi_find M (k, v) (ds_index ds)")
  case None
  then show ?thesis using assms by (simp add: UpdateItem_def sim_def ds_at_def)
next
  case (Some t)
  let ?u = "updated now k v' ttl h"
  have id: "kv_id t = (k, v)" using assms Some by (simp add: find_id)
  have inv: "mi_invar M (ds_index ds)" using assms by (simp add: ds_ok_def)
  show ?thesis
  proof (cases "v' = v \<or> mi_find M (k, v') (ds_index ds) = None")
    case True
    with replace_find [OF inv, of t ?u] Some id
    obtain m' where "mi_replace M t ?u (ds_index ds) = (m', True)" "mi_invar M m'"
      "(\<lambda>i. mi_find M i m') = (\<lambda>i. mi_find M i (ds_index ds))((k, v) := None, (k, v') \<mapsto> ?u)"
      by auto
    with True Some assms show ?thesis
      by (simp add: UpdateItem_def updated_tuple not_deleted_iff sim_def ds_ok_def ds_at_def)
  next
    case False
    with replace_clash_find [OF inv, of t ?u] Some id
    have "mi_replace M t ?u (ds_index ds) = (ds_index ds, False)" by auto
    with False Some assms show ?thesis
      by (simp add: UpdateItem_def updated_tuple not_deleted_iff sim_def ds_ok_def ds_at_def)
  qed
qed

text \<open>The values of a key, in the order of the unique index.\<close>

lemma LoadItem_values:
  assumes "ds_ok M ds"
  shows "\<exists>vs. LoadItem M now k ds = (vs, vs \<noteq> []) \<and> sorted_wrt (<) vs \<and>
    set vs = {v. \<exists>t. ds_at M ds (k, v) = Some t \<and> kv_alive now t}"
proof -
  let ?p = "mi_equal_range M k (ds_index ds)" and ?vs = "map kv_value (filter (kv_alive now) (mi_equal_range M k (ds_index ds)))"
  have inv: "mi_invar M (ds_index ds)" using assms by (simp add: ds_ok_def)
  have "LoadItem M now k ds = (?vs, ?vs \<noteq> [])" by (simp add: LoadItem_def Let_def)
  moreover have "sorted_wrt (<) (map kv_value (filter P ts))" if "sorted_wrt (<) (map kv_value ts)" for P ts
    using that by (induction ts) auto
  then have "sorted_wrt (<) ?vs" using equal_range_sorted [OF inv] by blast
  moreover have "set ?vs = {v. \<exists>t. ds_at M ds (k, v) = Some t \<and> kv_alive now t}"
  proof (intro equalityI subsetI)
    fix v assume "v \<in> set ?vs"
    then obtain t where "t \<in> set ?p" "kv_alive now t" "v = kv_value t" by auto
    then show "v \<in> {v. \<exists>t. ds_at M ds (k, v) = Some t \<and> kv_alive now t}"
      using equal_range_find [OF inv, of t k] by (auto simp: ds_at_def)
  next
    fix v assume "v \<in> {v. \<exists>t. ds_at M ds (k, v) = Some t \<and> kv_alive now t}"
    then obtain t where t: "mi_find M (k, v) (ds_index ds) = Some t" "kv_alive now t" by (auto simp: ds_at_def)
    with find_id [OF assms t(1)] have "v = kv_value t" by (simp add: kv_id_def)
    with t equal_range_find [OF inv, of t k] show "v \<in> set ?vs" by auto
  qed
  ultimately show ?thesis by blast
qed

text \<open>The other queries.\<close>

lemma Keys_answer:
  assumes "ds_ok M ds"
  shows "ds_Keys M ds = ({k. \<exists>v. ds_at M ds (k, v) \<noteq> None}, True)"
proof -
  have inv: "mi_invar M (ds_index ds)" using assms by (simp add: ds_ok_def)
  have "kv_key ` set (mi_items M (ds_index ds)) = {k. \<exists>v. mi_find M (k, v) (ds_index ds) \<noteq> None}"
    unfolding find_None [OF inv] not_not by (auto simp: kv_id_def image_iff)
  then show ?thesis by (simp add: ds_Keys_def ds_at_def)
qed

lemma ran_at: "ds_ok M ds \<Longrightarrow> ran (ds_at M ds) = set (mi_items M (ds_index ds))"
  by (auto simp: ran_def ds_at_def ds_ok_def find)

lemma refresh_of_due: "refresh_of now t = (case due_value now t of None \<Rightarrow> [] | Some v \<Rightarrow> [v])"
  by (cases "kv_del_status t") (auto simp: refresh_of_def due_value_def kv_alive_def Let_def)

lemma concat_due: "concat (map (refresh_of now) ts) = List.map_filter (due_value now) ts"
  by (induction ts) (auto simp: refresh_of_due map_filter_simps split: option.splits)

lemma ValuesToRefresh_answer:
  assumes "ds_ok M ds"
  shows "\<exists>ts. ValuesToRefresh M now ds = List.map_filter (due_value now) ts \<and> distinct ts \<and>
    set ts = {t \<in> ran (ds_at M ds). kv_last_refresh_time t \<le> now - ds_t_refresh ds} \<and>
    sorted_wrt (\<le>) (map kv_last_refresh_time ts)"
proof -
  let ?r = "now - ds_t_refresh ds" and ?ts = "mi_refresh_upto M (now - ds_t_refresh ds) (ds_index ds)"
  have inv: "mi_invar M (ds_index ds)" using assms by (simp add: ds_ok_def)
  from refresh_upto [OF inv, of ?r] have ts: "mset ?ts = mset (filter (\<lambda>t. kv_last_refresh_time t \<le> ?r) (mi_items M (ds_index ds)))"
    "sorted_wrt (\<le>) (map kv_last_refresh_time ?ts)" by auto
  have "distinct (mi_items M (ds_index ds))" using distinct_ids [OF inv] by (simp add: distinct_map)
  then have "distinct ?ts" using ts(1) by (metis distinct_filter mset_eq_imp_distinct_iff)
  moreover have "set ?ts = {t \<in> ran (ds_at M ds). kv_last_refresh_time t \<le> ?r}"
    using mset_eq_setD [OF ts(1)] by (simp add: ran_at [OF assms])
  ultimately show ?thesis using ts(2) by (intro exI [of _ ?ts]) (simp add: ValuesToRefresh_def concat_due)
qed

lemma Attr_answer:
  assumes "ds_ok M ds"
  shows "sorted_wrt (<) (map fst (LoadKeyAppendableAttr M k ds)) \<and>
    set (LoadKeyAppendableAttr M k ds) = {(v, h). \<exists>t. ds_at M ds (k, v) = Some t \<and> kv_hashable t = h}"
proof -
  have inv: "mi_invar M (ds_index ds)" using assms by (simp add: ds_ok_def)
  have "(v, h) \<in> set (LoadKeyAppendableAttr M k ds) \<longleftrightarrow> (\<exists>t. ds_at M ds (k, v) = Some t \<and> kv_hashable t = h)" for v h
  proof -
    have "t \<in> set (mi_equal_range M k (ds_index ds)) \<and> kv_value t = v \<longleftrightarrow> ds_at M ds (k, v) = Some t" for t
      using equal_range_find [OF inv, of t k] find_id [OF assms, of "(k, v)" t] by (auto simp: ds_at_def kv_id_def)
    moreover have "(v, h) \<in> set (LoadKeyAppendableAttr M k ds) \<longleftrightarrow>
        (\<exists>t. (t \<in> set (mi_equal_range M k (ds_index ds)) \<and> kv_value t = v) \<and> kv_hashable t = h)"
      by (auto simp: LoadKeyAppendableAttr_def)
    ultimately show ?thesis by simp
  qed
  then have "set (LoadKeyAppendableAttr M k ds) = {(v, h). \<exists>t. ds_at M ds (k, v) = Some t \<and> kv_hashable t = h}" by auto
  moreover have "map fst (LoadKeyAppendableAttr M k ds) = map kv_value (mi_equal_range M k (ds_index ds))"
    by (simp add: LoadKeyAppendableAttr_def)
  ultimately show ?thesis using equal_range_sorted [OF inv] by simp
qed

lemma word_answers:
  "LastRefreshTime M k v ds = entry_word kv_last_refresh_time (ds_at M ds (k, v))"
  "ExpireTime M k v ds = entry_word kv_expire_time (ds_at M ds (k, v))"
  "TimeToLive M k v ds = entry_word kv_ttl (ds_at M ds (k, v))"
  by (simp_all add: LastRefreshTime_def ExpireTime_def TimeToLive_def entry_word_def ds_at_def)

text \<open>Every call implements its step on the map and gives the answer of the map.\<close>

lemma sim_unchanged: "ds_ok M ds \<Longrightarrow> (\<And>A. F A = A) \<Longrightarrow> sim M F ds ds"
  by (simp add: sim_def)

lemma exec_sim:
  assumes "ds_ok M ds" "ds_exec M now c ds = Inr (ds', r)"
  shows "sim M (spec_exec now c) ds ds' \<and> spec_answer (ds_t_refresh ds) now c (ds_at M ds) r"
proof (cases c)
  case Op_Expire
  then show ?thesis using DeleteExpired_sim [OF assms(1), of now] assms(2) by auto
next
  case Op_Clear
  then show ?thesis using Clear_sim [of now ds] assms(2) by auto
next
  case (Op_Refresh k v req)
  then show ?thesis using RefreshItem_sim [OF assms(1), of now k v req req] assms(2)
    by (auto simp del: spec_exec.simps split: prod.splits option.splits if_splits)
next
  case (Op_Load k)
  obtain vs where "LoadItem M now k ds = (vs, vs \<noteq> [])" "sorted_wrt (<) vs"
    "set vs = {v. \<exists>t. ds_at M ds (k, v) = Some t \<and> kv_alive now t}" using LoadItem_values [OF assms(1), of now k] by blast
  then show ?thesis using Op_Load assms by (auto intro: sim_unchanged)
next
  case Op_ToRefresh
  then show ?thesis using ValuesToRefresh_answer [OF assms(1), of now] assms by (auto intro: sim_unchanged)
next
  case (Op_Attr k)
  then show ?thesis using Attr_answer [OF assms(1), of k] assms by (auto intro: sim_unchanged)
next
  case (Op_Store k v ttl h)
  then show ?thesis using assms(2) StoreItem_sim [OF assms(1)] by (auto simp del: spec_exec.simps simp: prod_eq_iff split: prod.splits)
qed (use assms DeleteItem_sim [OF assms(1)] DeleteKey_sim [OF assms(1)] Keys_answer [OF assms(1)] word_answers
      MarkForDeletion_sim [OF assms(1)] MarkAsDeleted_sim [OF assms(1)] UpdateItem_sim [OF assms(1)]
      sim_unchanged [OF assms(1)] in \<open>auto simp del: spec_exec.simps(1-9) simp: split_beta\<close>)

lemma exec_total:
  assumes "ds_ok M ds" "now \<noteq> 0"
  shows "\<exists>ds' r. ds_exec M now c ds = Inr (ds', r)"
  using DeleteExpired_sim [OF assms(1), of now] assms(2) by (cases c) (auto split: prod.splits)

lemma run_sim:
  assumes "ds_ok M ds" "ds_run M calls ds = Inr (ds', rs)"
  shows "sim M (spec_run calls) ds ds' \<and> spec_answers (ds_t_refresh ds) calls (ds_at M ds) rs"
  using assms
proof (induction calls arbitrary: ds rs)
  case (Cons call calls)
  obtain now c where call: "call = (now, c)" by fastforce
  from Cons.prems(2) obtain ds1 r rs1 where step: "ds_exec M now c ds = Inr (ds1, r)"
    "ds_run M calls ds1 = Inr (ds', rs1)" "rs = r # rs1" by (auto simp: call bind_res_Inr_iff)
  from exec_sim [OF Cons.prems(1) step(1)] have one: "sim M (spec_exec now c) ds ds1"
    "spec_answer (ds_t_refresh ds) now c (ds_at M ds) r" by auto
  then have "ds_ok M ds1" by (simp add: sim_def)
  from Cons.IH [OF this step(2)] one step(3) show ?case by (simp add: call sim_def spec_run_def)
qed (simp add: sim_def spec_run_def)

lemma run_total:
  assumes "ds_ok M ds" "\<forall>(now, c)\<in>set calls. now \<noteq> 0"
  shows "\<exists>ds' rs. ds_run M calls ds = Inr (ds', rs)"
  using assms
proof (induction calls arbitrary: ds)
  case (Cons call calls)
  obtain now c where call: "call = (now, c)" by fastforce
  from exec_total [OF Cons.prems(1), of now c] Cons.prems(2) obtain ds1 r where step: "ds_exec M now c ds = Inr (ds1, r)"
    by (auto simp: call)
  with exec_sim [OF Cons.prems(1)] have "ds_ok M ds1" by (simp add: sim_def)
  from Cons.IH [OF this] Cons.prems(2) obtain ds2 rs where "ds_run M calls ds1 = Inr (ds2, rs)" by auto
  with step show ?case by (simp add: call)
qed simp

end

end
