(* ===== verification/DataStoreProperties.thy ===== *)
theory DataStoreProperties
  imports DataStoreSpec "HOL-Library.Word"
begin

text \<open>
  The correctness of the data store: the refinement of the map, what \<open>LoadItem\<close> answers, how long
  an item lives, that deletion is one way, and where times to live below zero go wrong. Every
  theorem holds for each container that keeps the laws of \<open>multi_index\<close>; the witnesses run it on
  the sorted lists.
\<close>

section \<open>Times\<close>

lemma unat_uint32: "unat (x :: uint32) < 2 ^ 32"
  using unsigned_less [of x, where 'a = nat] by simp

lemma signed_take_bit_nat:
  assumes "n < 2 ^ 32"
  shows "signed_take_bit 31 (int n) = (if n < 2 ^ 31 then int n else int n - 2 ^ 32)"
proof (cases "n < 2 ^ 31")
  case True
  then show ?thesis by (simp add: signed_take_bit_int_eq_self_iff)
next
  case False
  then have "int n div 2 ^ 31 = 1"
    by (intro int_div_pos_eq [of _ _ _ "int n - 2 ^ 31"]) (use assms in auto)
  then have "bit (int n) 31" by (simp add: bit_iff_odd)
  moreover have "take_bit (Suc 31) (int n) = int n" using assms by (simp add: take_bit_int_eq_self)
  ultimately show ?thesis using False by (simp add: signed_take_bit_eq_take_bit_minus)
qed

lemma sint_pos_u32: "0 < sint (x :: uint32) \<longleftrightarrow> x \<noteq> 0 \<and> unat x < 2 ^ 31"
proof -
  have "sint x = signed_take_bit 31 (int (unat x))" by (simp add: sint_uint)
  then have "sint x = (if unat x < 2 ^ 31 then int (unat x) else int (unat x) - 2 ^ 32)"
    by (simp only: signed_take_bit_nat [OF unat_uint32])
  moreover have "x \<noteq> 0 \<longleftrightarrow> 0 < unat x" by (simp add: unat_gt_0)
  moreover have "0 < (if n < 2 ^ 31 then int n else int n - 2 ^ 32) \<longleftrightarrow> 0 < n \<and> n < 2 ^ 31"
    if "n < 2 ^ 32" for n using that by simp
  ultimately show ?thesis using unat_uint32 [of x] by (simp only:)
qed

lemma unat_later: "(s :: uint32) \<le> now \<Longrightarrow> unat (now - s) = unat now - unat s"
  by (rule unat_sub)

text \<open>The time that remains of an expiry time \<open>e\<close> is positive before it, and not after it for \<open>2^31\<close> seconds.\<close>

lemma remaining_before: "unat e - unat now < 2 ^ 31 \<Longrightarrow> now < (e :: uint32) \<Longrightarrow> 0 < sint (e - now)"
  using unat_later [of now e] by (auto simp: sint_pos_u32)

lemma remaining_after:
  assumes "(e :: uint32) \<le> now" "unat now - unat e \<le> 2 ^ 31"
  shows "\<not> 0 < sint (e - now)"
proof (cases "e = now")
  case False
  have "unat (e - now) = 2 ^ 32 - (unat now - unat e)"
    using assms(1) False by (auto simp: unat_sub_if' word_le_nat_alt word_unat_eq_iff)
  with assms(2) have "\<not> unat (e - now) < 2 ^ 31" by simp
  then show ?thesis by (simp add: sint_pos_u32)
qed simp

section \<open>Reachable stores\<close>

inductive ds_reachable :: "'m index_ops \<Rightarrow> 'm data_store \<Rightarrow> bool" for M where
  created: "ds_reachable M (DataStore_new M t_refresh)"
| called: "ds_reachable M ds \<Longrightarrow> ds_exec M now c ds = Inr (ds', r) \<Longrightarrow> ds_reachable M ds'"

text \<open>
  What every reachable map satisfies: entries sit under their key and value, keys are not empty,
  and an entry that is not deleted carries no delete request.
\<close>

definition entry_ok :: "string \<times> string \<Rightarrow> key_value_tuple \<Rightarrow> bool" where
  "entry_ok i t \<longleftrightarrow> kv_id t = i \<and> kv_key t \<noteq> [] \<and> (kv_del_status t = NOT_DELETED \<longrightarrow> kv_ser_delete_req t = [])"

definition entries_ok :: "store_map \<Rightarrow> bool" where
  "entries_ok A \<longleftrightarrow> (\<forall>i t. A i = Some t \<longrightarrow> entry_ok i t)"

lemma entry_ok_new [simp]:
  "k \<noteq> [] \<Longrightarrow> entry_ok (k, v) (key_value_full k v r e ttl h)"
  "k \<noteq> [] \<Longrightarrow> entry_ok (k, v) (updated now k v ttl h)"
  by (simp_all add: entry_ok_def) (simp_all add: key_value_full_def updated_def)

lemma entry_ok_change:
  assumes "entry_ok i t"
  shows "entry_ok i (t\<lparr>kv_last_refresh_time := a, kv_ser_delete_req := []\<rparr>)"
    "entry_ok i (t\<lparr>kv_ser_delete_req := req, kv_del_status := MARKED_FOR_DELETION\<rparr>)"
    "entry_ok i (t\<lparr>kv_del_status := DELETED\<rparr>)"
  using assms by (simp_all add: entry_ok_def)

lemma entries_ok_upd:
  "entries_ok A \<Longrightarrow> entry_ok i t \<Longrightarrow> entries_ok (A(i \<mapsto> t))"
  "entries_ok A \<Longrightarrow> entries_ok (A(i := None))"
  by (auto simp: entries_ok_def)

lemma entries_ok_change:
  assumes "entries_ok A" "\<And>t. entry_ok i t \<Longrightarrow> entry_ok i (f t)"
  shows "entries_ok (A(i := map_option f (A i)))"
  using assms by (cases "A i") (auto simp: entries_ok_def)

lemma spec_exec_entries_ok:
  assumes "entries_ok A"
  shows "entries_ok (spec_exec now c A)"
proof (cases c)
  case (Op_Update k v v' ttl h)
  have "A (k, v) = Some t \<Longrightarrow> k \<noteq> []" for t using assms by (auto simp: entries_ok_def entry_ok_def kv_id_def)
  with Op_Update assms show ?thesis
    by (auto simp: entries_ok_upd split: option.splits)
next
  case Op_Expire
  then show ?thesis using assms by (auto simp: entries_ok_def split: option.splits if_splits)
next
  case (Op_Refresh k v)
  then show ?thesis using entries_ok_change [OF assms] by (simp add: entry_ok_change)
next
  case (Op_Mark k v req)
  then show ?thesis using entries_ok_change [OF assms] by (simp add: entry_ok_change)
next
  case (Op_MarkDeleted k v)
  then show ?thesis using entries_ok_change [OF assms] by (simp add: entry_ok_change)
qed (use assms in \<open>auto simp: Let_def entries_ok_upd entries_ok_def\<close>)

lemma reachable_ok:
  assumes "multi_index M" "ds_reachable M ds"
  shows "ds_ok M ds \<and> entries_ok (ds_at M ds)"
  using assms(2)
proof (induction rule: ds_reachable.induct)
  case (created t_refresh)
  show ?case using multi_index.clear [OF assms(1)] multi_index.find_None [OF assms(1) multi_index.clear(1) [OF assms(1)]]
    by (simp add: DataStore_new_def ds_ok_def ds_at_def entries_ok_def)
next
  case (called ds now c ds' r)
  then show ?case using multi_index.exec_sim [OF assms(1), of ds now c ds' r] spec_exec_entries_ok
    by (simp add: sim_def)
qed

text \<open>What one call does to an entry that is deleted or marked, and how one becomes marked.\<close>

lemma spec_one_way:
  assumes "entries_ok A" "A i = Some t" "spec_exec now c A i = Some t'"
  shows "if kv_del_status t = NOT_DELETED
    then kv_del_status t' = NOT_DELETED \<or>
      (\<exists>req. c = Op_Mark (fst i) (snd i) req \<and>
        t' = t\<lparr>kv_ser_delete_req := req, kv_del_status := MARKED_FOR_DELETION\<rparr>)
    else t' = t \<or>
      kv_del_status t = MARKED_FOR_DELETION \<and> c = Op_MarkDeleted (fst i) (snd i) \<and>
        t' = t\<lparr>kv_del_status := DELETED\<rparr> \<or>
      (\<exists>ttl h. c = Op_Store (fst i) (snd i) ttl h \<and> kv_del_status t' = NOT_DELETED \<and>
        (ttl = - 1 \<or> kv_expire_time t < kv_expire_time t' \<and> kv_ttl t \<noteq> - 1))"
proof (cases c)
  case (Op_Store k v ttl h)
  then show ?thesis using assms
    by (cases "i = (k, v)") (auto simp: Let_def store_accepts_def key_value_full_def split: if_splits)
next
  case (Op_Update k v v' ttl h)
  then show ?thesis using assms
    by (auto simp: updated_def split: option.splits if_splits)
qed (use assms in \<open>auto split: if_splits option.splits\<close>)

section \<open>Life times\<close>

lemma StoreItem_entry:
  assumes "multi_index M" "ds_ok M ds" "StoreItem M s k v ttl h ds = (ds1, True)"
  shows "ds_ok M ds1 \<and> ttl \<noteq> 0 \<and> ds_at M ds1 (k, v) = Some (key_value_full k v s (ttl + s) ttl h)"
  using multi_index.StoreItem_sim [OF assms(1,2), of s k v ttl h] assms(3)
  by (simp add: sim_def Let_def split: if_splits)

lemma LoadItem_entry:
  assumes "multi_index M" "ds_ok M ds" "ds_at M ds (k, v) = Some t"
  shows "v \<in> set (fst (LoadItem M now k ds)) \<longleftrightarrow> kv_alive now t"
  using multi_index.LoadItem_values [OF assms(1,2), of now k] assms(3) by auto

lemma DeleteExpired_entry:
  assumes "multi_index M" "ds_ok M ds" "ds_at M ds i = Some t" "DeleteExpiredValues M now ds = Inr ds'"
  shows "ds_at M ds' i = (if 0 < kv_expire_time t \<and> kv_expire_time t < now then None else Some t)"
  using multi_index.DeleteExpired_sim [OF assms(1,2), of now] assms(3,4) by (auto simp: sim_def)

text \<open>The expiry time of an item with a positive time to live that does not run over.\<close>

lemma expiry_sum:
  assumes "unat s + unat (ttl :: uint32) < 2 ^ 32"
  shows "unat (ttl + s) = unat ttl + unat s"
  using assms by (simp add: unat_word_ariths)

section \<open>Properties\<close>

text \<open>
  C6: the data store implements a map. On every container that keeps the laws of \<open>multi_index\<close>, every
  sequence of calls of \<open>DataStore\<close>, each at its own time and beginning with a new store, leaves the map from key and
  value to the entry that the abstract store has after the same calls, and each call answers what the abstract
  store says, the queries and \<open>*str_delete_req\<close> included. When no call is made at time 0 the whole sequence
  returns; at time 0 \<open>DeleteExpiredValues\<close> may leave the defined behaviour.
\<close>

theorem DataStore_refines_map:
  assumes "multi_index M"
  shows "(\<forall>ds rs. ds_run M calls (DataStore_new M t_refresh) = Inr (ds, rs) \<longrightarrow>
      ds_ok M ds \<and> ds_at M ds = spec_run calls Map.empty \<and> spec_answers t_refresh calls Map.empty rs) \<and>
    ((\<forall>(now, c)\<in>set calls. now \<noteq> 0) \<longrightarrow> (\<exists>ds rs. ds_run M calls (DataStore_new M t_refresh) = Inr (ds, rs)))"
proof -
  have new: "ds_ok M (DataStore_new M t_refresh)" "ds_at M (DataStore_new M t_refresh) = Map.empty"
    using multi_index.clear [OF assms] multi_index.find_None [OF assms multi_index.clear(1) [OF assms]]
    by (simp_all add: DataStore_new_def ds_ok_def ds_at_def fun_eq_iff)
  have "ds_t_refresh (DataStore_new M t_refresh) = t_refresh" by (simp add: DataStore_new_def)
  with multi_index.run_sim [OF assms new(1), of calls] multi_index.run_total [OF assms new(1), of calls] new(2)
  show ?thesis by (auto simp: sim_def)
qed

definition ex_store :: "key_value_tuple list data_store" where
  "ex_store = fst (StoreItem list_index 100 ''k'' ''v'' 50 False (DataStore_new list_index 3600))"

lemma list_index_laws: "multi_index list_index"
  by (rule li.multi_index_axioms)

lemma ex_store_reachable: "ds_reachable list_index ex_store"
proof -
  have "ds_exec list_index 100 (Op_Store ''k'' ''v'' 50 False) (DataStore_new list_index 3600) =
      Inr (ex_store, Ans_Bool (snd (StoreItem list_index 100 ''k'' ''v'' 50 False (DataStore_new list_index 3600))))"
    by (simp add: ex_store_def split_beta)
  then show ?thesis by (rule ds_reachable.called [OF ds_reachable.created])
qed

theorem DataStore_refines_map_witness:
  "\<exists>ds rs. ds_run list_index [(100, Op_Store ''k'' ''v'' 50 False), (120, Op_Mark ''k'' ''v'' ''r''),
      (130, Op_Refresh ''k'' ''v'' ''q''), (140, Op_Load ''k'')] (DataStore_new list_index 3600) = Inr (ds, rs) \<and>
    length rs = 4 \<and> rs ! 2 = Ans_Refreshed False ''r'' \<and> rs ! 3 = Ans_Values [] False \<and>
    ds_at list_index ds (''k'', ''v'') \<noteq> None"
proof -
  let ?calls = "[(100, Op_Store ''k'' ''v'' 50 False), (120, Op_Mark ''k'' ''v'' ''r''),
      (130, Op_Refresh ''k'' ''v'' ''q''), (140, Op_Load ''k'')] :: (uint32 \<times> ds_op) list"
  note refines = DataStore_refines_map [OF list_index_laws, of ?calls 3600]
  have "\<forall>(now, c)\<in>set ?calls. now \<noteq> 0" by simp
  with refines obtain ds rs where run: "ds_run list_index ?calls (DataStore_new list_index 3600) = Inr (ds, rs)" by blast
  with refines have at: "ds_at list_index ds = spec_run ?calls Map.empty" and
    answers: "spec_answers 3600 ?calls Map.empty rs" by blast+
  obtain r1 r2 r3 r4 where rs: "rs = [r1, r2, r3, r4]"
    using answers by (auto elim!: spec_answers.elims)
  have last: "r3 = Ans_Refreshed False ''r''"
    "\<exists>vs. r4 = Ans_Values vs (vs \<noteq> []) \<and> set vs = {v. v = ''v'' \<and> MARKED_FOR_DELETION = NOT_DELETED}"
    using answers by (auto simp: rs store_accepts_def key_value_full_def kv_alive_def split: if_splits)
  then have "r4 = Ans_Values [] False" by auto
  moreover have "ds_at list_index ds (''k'', ''v'') \<noteq> None"
    using at by (simp add: spec_run_def store_accepts_def key_value_full_def)
  ultimately show ?thesis using run last(1)
    by (intro exI [of _ ds] exI [of _ rs]) (simp add: rs del: ds_run.simps)
qed

text \<open>
  \<open>LoadItem\<close> answers with the values of the key that are alive, that is not marked or deleted
  and before their expiry time or without one, each once and in increasing order, and returns
  whether there are any.
\<close>

theorem LoadItem_live_values:
  assumes "multi_index M" "ds_reachable M ds" "LoadItem M now k ds = (values, found)"
  shows "(v \<in> set values \<longleftrightarrow> (\<exists>t. ds_at M ds (k, v) = Some t \<and> kv_del_status t = NOT_DELETED \<and>
      (kv_ttl t = - 1 \<or> 0 < sint (kv_expire_time t - now)))) \<and>
    sorted_wrt (<) values \<and> (found \<longleftrightarrow> values \<noteq> [])"
  using multi_index.LoadItem_values [OF assms(1), of ds now k] reachable_ok [OF assms(1,2)] assms(3)
  by (auto simp: kv_alive_def)

theorem LoadItem_live_values_witness:
  "''v'' \<in> set (fst (LoadItem list_index 149 ''k'' ex_store)) \<and>
    ''v'' \<notin> set (fst (LoadItem list_index 150 ''k'' ex_store))"
proof -
  have "\<exists>t. ds_at list_index ex_store (''k'', ''v'') = Some t \<and> kv_del_status t = NOT_DELETED \<and>
      kv_ttl t = 50 \<and> kv_expire_time t = 150"
    by (simp add: ex_store_def DataStore_new_def StoreItem_def list_index_def ds_at_def
        key_value_full_def kv_id_def)
  then show ?thesis
    using LoadItem_live_values [OF list_index_laws ex_store_reachable surjective_pairing, of "''v''" 149 "''k''"]
      LoadItem_live_values [OF list_index_laws ex_store_reachable surjective_pairing, of "''v''" 150 "''k''"]
    by auto
qed

text \<open>
  C8: how long a stored item lives. An item stored at time \<open>s\<close> with a time to live of \<open>ttl\<close>
  seconds is loaded until \<open>s + ttl\<close> and not from then on, and \<open>DeleteExpiredValues\<close> removes it
  after \<open>s + ttl\<close> and not before; an item stored with -1 is always loaded and never removed.
\<close>

theorem stored_item_lifetime:
  assumes "multi_index M" "ds_ok M ds" "StoreItem M s k v ttl h ds = (ds1, True)"
    and "DeleteExpiredValues M now ds1 = Inr ds2"
  shows "(ttl = - 1 \<longrightarrow> v \<in> set (fst (LoadItem M now k ds1)) \<and> ds_at M ds2 (k, v) = ds_at M ds1 (k, v)) \<and>
    (0 < sint ttl \<and> unat s + unat ttl < 2 ^ 32 \<and> s \<le> now \<and> unat now - unat (s + ttl) \<le> 2 ^ 31 \<longrightarrow>
      (v \<in> set (fst (LoadItem M now k ds1)) \<longleftrightarrow> now < s + ttl) \<and>
      (ds_at M ds2 (k, v) = None \<longleftrightarrow> s + ttl < now))"
proof -
  let ?t = "key_value_full k v s (ttl + s) ttl h"
  from StoreItem_entry [OF assms(1-3)] have ok: "ds_ok M ds1" and at: "ds_at M ds1 (k, v) = Some ?t" by auto
  have load: "v \<in> set (fst (LoadItem M now k ds1)) \<longleftrightarrow> kv_alive now ?t"
    by (rule LoadItem_entry [OF assms(1) ok at])
  have del: "ds_at M ds2 (k, v) = (if 0 < kv_expire_time ?t \<and> kv_expire_time ?t < now then None else Some ?t)"
    by (rule DeleteExpired_entry [OF assms(1) ok at assms(4)])
  have "ttl = - 1 \<Longrightarrow> kv_alive now ?t \<and> kv_expire_time ?t = 0"
    by (simp add: kv_alive_def key_value_full_def)
  moreover have "(kv_alive now ?t \<longleftrightarrow> now < s + ttl) \<and> kv_expire_time ?t = s + ttl \<and> 0 < s + ttl"
    if t: "0 < sint ttl" "unat s + unat ttl < 2 ^ 32" "s \<le> now" "unat now - unat (s + ttl) \<le> 2 ^ 31"
  proof -
    have e: "unat (s + ttl) = unat s + unat ttl" using expiry_sum [OF t(2)] by (simp add: add.commute)
    have pos: "0 < unat ttl" "unat ttl < 2 ^ 31" using t(1) by (auto simp: sint_pos_u32 unat_gt_0)
    have exp: "kv_expire_time ?t = s + ttl" using t(1) by (simp add: key_value_full_def add.commute)
    have "0 < sint (s + ttl - now) \<longleftrightarrow> now < s + ttl"
    proof (cases "now < s + ttl")
      case True
      have "unat (s + ttl) - unat now < 2 ^ 31" using e pos t(3) by (simp add: word_le_nat_alt)
      with True show ?thesis by (simp add: remaining_before)
    next
      case False
      then show ?thesis using remaining_after [of "s + ttl" now] t(4) by simp
    qed
    moreover have "ttl \<noteq> - 1" using t(1) by auto
    moreover have "0 < s + ttl" using e pos by (simp add: word_less_nat_alt)
    ultimately show ?thesis by (simp add: kv_alive_def exp) (simp add: key_value_full_def)
  qed
  ultimately show ?thesis using load del at by (auto split: if_splits)
qed

theorem stored_item_lifetime_witness:
  "\<exists>ds2. DeleteExpiredValues list_index 160 ex_store = Inr ds2 \<and> ds_at list_index ds2 (''k'', ''v'') = None"
proof -
  have start: "ds_ok list_index (DataStore_new list_index 3600)"
    using reachable_ok [OF list_index_laws ds_reachable.created] by blast
  have st: "StoreItem list_index 100 ''k'' ''v'' 50 False (DataStore_new list_index 3600) = (ex_store, True)"
    by (simp add: ex_store_def prod_eq_iff) (simp add: StoreItem_def DataStore_new_def list_index_def)
  obtain ds2 where ds2: "DeleteExpiredValues list_index 160 ex_store = Inr ds2"
    by (simp add: DeleteExpiredValues_def)
  with stored_item_lifetime [OF list_index_laws start st, of 160 ds2] show ?thesis
    by (simp add: sint_pos_u32)
qed

text \<open>
  C7: deletion is one way. One call moves the entry of a key and value from not deleted to marked,
  by \<open>MarkForDeletion\<close>, or from marked to deleted, by \<open>MarkAsDeleted\<close>, and keeps its other
  fields; only \<open>StoreItem\<close> of the same key and value brings it back, and only with no expiry time
  or a later one than the entry has.
\<close>

theorem deletion_one_way:
  assumes "multi_index M" "ds_reachable M ds" "ds_exec M now c ds = Inr (ds', r)"
    and "ds_at M ds i = Some t" "ds_at M ds' i = Some t'"
  shows "if kv_del_status t = NOT_DELETED
    then kv_ser_delete_req t = [] \<and> (kv_del_status t' = NOT_DELETED \<or>
      (\<exists>req. c = Op_Mark (fst i) (snd i) req \<and>
        t' = t\<lparr>kv_ser_delete_req := req, kv_del_status := MARKED_FOR_DELETION\<rparr>))
    else t' = t \<or>
      kv_del_status t = MARKED_FOR_DELETION \<and> c = Op_MarkDeleted (fst i) (snd i) \<and>
        t' = t\<lparr>kv_del_status := DELETED\<rparr> \<or>
      (\<exists>ttl h. c = Op_Store (fst i) (snd i) ttl h \<and> kv_del_status t' = NOT_DELETED \<and>
        (ttl = - 1 \<or> kv_expire_time t < kv_expire_time t' \<and> kv_ttl t \<noteq> - 1))"
proof -
  from reachable_ok [OF assms(1,2)] have ok: "ds_ok M ds" "entries_ok (ds_at M ds)" by auto
  from multi_index.exec_sim [OF assms(1) ok(1) assms(3)] assms(5)
  have "spec_exec now c (ds_at M ds) i = Some t'" by (simp add: sim_def)
  note spec_one_way [OF ok(2) assms(4) this]
  moreover have "entry_ok i t" using ok(2) assms(4) unfolding entries_ok_def by blast
  ultimately show ?thesis by (simp add: entry_ok_def split: if_splits)
qed

theorem deletion_one_way_witness:
  "\<exists>ds1 ds2 t t'. ds_exec list_index 120 (Op_Mark ''k'' ''v'' ''r'') ex_store = Inr (ds1, Ans_Bool True) \<and>
    ds_exec list_index 130 (Op_MarkDeleted ''k'' ''v'') ds1 = Inr (ds2, Ans_Bool True) \<and>
    ds_at list_index ds1 (''k'', ''v'') = Some t \<and> ds_at list_index ds2 (''k'', ''v'') = Some t' \<and>
    t' = t\<lparr>kv_del_status := DELETED\<rparr>"
proof -
  note eval = ex_store_def DataStore_new_def StoreItem_def list_index_def ds_at_def MarkForDeletion_def
    MarkAsDeleted_def key_value_full_def key_value_short_def kv_id_def
  obtain ds1 t where ds1: "ds_exec list_index 120 (Op_Mark ''k'' ''v'' ''r'') ex_store = Inr (ds1, Ans_Bool True)"
    "ds_at list_index ds1 (''k'', ''v'') = Some t" "kv_del_status t = MARKED_FOR_DELETION"
    by (simp add: eval)
  obtain ds2 t' where ds2: "ds_exec list_index 130 (Op_MarkDeleted ''k'' ''v'') ds1 = Inr (ds2, Ans_Bool True)"
    "ds_at list_index ds2 (''k'', ''v'') = Some t'" "kv_del_status t' = DELETED"
    using ds1(1) by (auto simp: eval)
  have "ds_reachable list_index ds1" by (rule ds_reachable.called [OF ex_store_reachable ds1(1)])
  from deletion_one_way [OF list_index_laws this ds2(1) ds1(2) ds2(2)] ds1 ds2 show ?thesis by auto
qed

text \<open>
  Times to live that are negative. An item stored with a time to live below -1 is reported as
  stored, but until \<open>2^31\<close> seconds no \<open>LoadItem\<close> answers it and no \<open>DeleteExpiredValues\<close> removes
  it; an item that \<open>UpdateItem\<close> writes with -1, which \<open>StoreItem\<close> takes for an item without expiry
  time, gets the expiry time \<open>now - 1\<close>, is answered by \<open>LoadItem\<close>, and is removed by the next
  \<open>DeleteExpiredValues\<close>.
\<close>

theorem negative_time_to_live:
  assumes "multi_index M" "ds_ok M ds" "now \<le> 2 ^ 31"
  shows "(StoreItem M s k v ttl h ds = (ds1, True) \<and> sint ttl < - 1 \<and> DeleteExpiredValues M now ds1 = Inr ds2 \<longrightarrow>
      v \<notin> set (fst (LoadItem M now k ds1)) \<and> ds_at M ds2 (k, v) = ds_at M ds1 (k, v)) \<and>
    (UpdateItem M s k v' v (- 1) h ds = (ds1, True) \<and> 1 < s \<and> s \<le> now \<and> DeleteExpiredValues M now ds1 = Inr ds2 \<longrightarrow>
      v \<in> set (fst (LoadItem M now k ds1)) \<and> ds_at M ds2 (k, v) = None)"
proof (intro conjI impI)
  assume a: "StoreItem M s k v ttl h ds = (ds1, True) \<and> sint ttl < - 1 \<and> DeleteExpiredValues M now ds1 = Inr ds2"
  let ?t = "key_value_full k v s (ttl + s) ttl h"
  from StoreItem_entry [OF assms(1,2)] a have ok: "ds_ok M ds1" and at: "ds_at M ds1 (k, v) = Some ?t" by auto
  have e: "kv_expire_time ?t = 0" "kv_ttl ?t \<noteq> - 1" using a by (auto simp: key_value_full_def)
  have "\<not> 0 < sint (0 - now)" by (rule remaining_after) (use assms(3) in \<open>simp_all add: word_le_nat_alt\<close>)
  with e LoadItem_entry [OF assms(1) ok at, of now]
  show "v \<notin> set (fst (LoadItem M now k ds1))" by (simp add: kv_alive_def)
  show "ds_at M ds2 (k, v) = ds_at M ds1 (k, v)"
    using DeleteExpired_entry [OF assms(1) ok at] a at e by auto
next
  assume a: "UpdateItem M s k v' v (- 1) h ds = (ds1, True) \<and> 1 < s \<and> s \<le> now \<and> DeleteExpiredValues M now ds1 = Inr ds2"
  let ?t = "updated s k v (- 1) h"
  from multi_index.UpdateItem_sim [OF assms(1,2), of s k v' v "- 1" h] a
  have ok: "ds_ok M ds1" and at: "ds_at M ds1 (k, v) = Some ?t"
    by (auto simp: sim_def split: option.splits if_splits)
  have t: "kv_ttl ?t = - 1" "kv_del_status ?t = NOT_DELETED" "kv_expire_time ?t = s - 1"
    by (simp_all add: updated_def)
  with LoadItem_entry [OF assms(1) ok at, of now]
  show "v \<in> set (fst (LoadItem M now k ds1))" by (simp add: kv_alive_def)
  have "unat (s - 1) = unat s - 1" using a by (intro trans [OF unat_sub]) (auto simp: word_le_nat_alt word_less_nat_alt)
  moreover have "1 < unat s" "unat s \<le> unat now" using a by (auto simp: word_less_nat_alt word_le_nat_alt)
  ultimately have "0 < s - 1 \<and> s - 1 < now" by (simp add: word_less_nat_alt)
  then show "ds_at M ds2 (k, v) = None"
    using DeleteExpired_entry [OF assms(1) ok at] a t by auto
qed

theorem negative_time_to_live_witness:
  "\<exists>ds1 ds2. UpdateItem list_index 120 ''k'' ''v'' ''w'' (- 1) False ex_store = (ds1, True) \<and>
    DeleteExpiredValues list_index 121 ds1 = Inr ds2 \<and> ds_at list_index ds2 (''k'', ''w'') = None"
proof -
  have ok: "ds_ok list_index ex_store" using reachable_ok [OF list_index_laws ex_store_reachable] by blast
  obtain ds1 where ds1: "UpdateItem list_index 120 ''k'' ''v'' ''w'' (- 1) False ex_store = (ds1, True)"
    by (simp add: UpdateItem_def ex_store_def DataStore_new_def StoreItem_def list_index_def
        key_value_full_def key_value_short_def kv_id_def)
  moreover obtain ds2 where ds2: "DeleteExpiredValues list_index 121 ds1 = Inr ds2"
    by (simp add: DeleteExpiredValues_def)
  ultimately show ?thesis
    using negative_time_to_live [OF list_index_laws ok, of 121 120 "''k''" "''w''" 0 False ds1 ds2 "''v''"] by simp
qed

end
