(* ===== verification/Sll.thy ===== *)
theory Sll
  imports Prelude "HOL-Library.Word"
begin

text \<open>
  The singly linked list \<open>sll\<close> of \<open>include/common/sll.hh\<close>, in which the thread pool keeps its
  idle threads. The items live in a heap from addresses to items; a pointer is an address or
  \<open>NULL\<close>; reading, writing or deleting an item that is not there is undefined. Allocation does
  not fail. A reference parameter that may refer into an item of the list is a \<open>ref\<close>.
\<close>

section \<open>The heap\<close>

type_synonym ptr = "nat option"

record 'a item =
  it_data :: 'a
  it_next :: ptr

record 'a sheap =
  cells :: "nat \<rightharpoonup> 'a item"
  next_free :: nat

definition deref :: "'a sheap \<Rightarrow> ptr \<Rightarrow> 'a item res" where
  "deref h p = (case p of None \<Rightarrow> Inl Undefined
     | Some a \<Rightarrow> (case cells h a of None \<Rightarrow> Inl Undefined | Some c \<Rightarrow> Inr c))"

definition new_item :: "'a \<Rightarrow> ptr \<Rightarrow> 'a sheap \<Rightarrow> ptr \<times> 'a sheap" where
  "new_item e n h = (Some (next_free h),
     h\<lparr>cells := (cells h)(next_free h \<mapsto> \<lparr>it_data = e, it_next = n\<rparr>), next_free := Suc (next_free h)\<rparr>)"

definition set_next :: "ptr \<Rightarrow> ptr \<Rightarrow> 'a sheap \<Rightarrow> 'a sheap res" where
  "set_next p n h = bind_res (deref h p) (\<lambda>c.
     Inr (h\<lparr>cells := (cells h)(the p \<mapsto> c\<lparr>it_next := n\<rparr>)\<rparr>))"

definition delete_item :: "ptr \<Rightarrow> 'a sheap \<Rightarrow> 'a sheap res" where
  "delete_item p h = bind_res (deref h p) (\<lambda>c. Inr (h\<lparr>cells := (cells h)(the p := None)\<rparr>))"

text \<open>A \<open>const T &\<close> argument: a value of the caller, or the data of an item.\<close>

datatype 'a ref = Val 'a | InItem ptr

fun ref_value :: "'a sheap \<Rightarrow> 'a ref \<Rightarrow> 'a res" where
  "ref_value h (Val x) = Inr x"
| "ref_value h (InItem p) = bind_res (deref h p) (\<lambda>c. Inr (it_data c))"

section \<open>The list\<close>

record sll =
  sll_first :: ptr
  sll_last :: ptr
  sll_size :: "32 word"

definition sll_new :: sll where
  "sll_new = \<lparr>sll_first = None, sll_last = None, sll_size = 0\<rparr>"

definition sll_first_item :: "sll \<Rightarrow> 'a sheap \<Rightarrow> 'a res" where
  "sll_first_item l h =
     (if sll_first l = None then Inl Assertion else bind_res (deref h (sll_first l)) (\<lambda>c. Inr (it_data c)))"

definition sll_last_item :: "sll \<Rightarrow> 'a sheap \<Rightarrow> 'a res" where
  "sll_last_item l h =
     (if sll_last l = None then Inl Assertion else bind_res (deref h (sll_last l)) (\<lambda>c. Inr (it_data c)))"

definition sll_push_front :: "'a \<Rightarrow> sll \<Rightarrow> 'a sheap \<Rightarrow> (sll \<times> 'a sheap) res" where
  "sll_push_front elem l h =
     (let (tmp, h') = new_item elem (sll_first l) h;
          l' = l\<lparr>sll_first := tmp, sll_size := sll_size l + 1\<rparr>
      in Inr (if sll_last l' = None then l'\<lparr>sll_last := tmp\<rparr> else l', h'))"

definition sll_push_back :: "'a \<Rightarrow> sll \<Rightarrow> 'a sheap \<Rightarrow> (sll \<times> 'a sheap) res" where
  "sll_push_back elem l h =
     (let (tmp, h1) = new_item elem None h in
      bind_res (if sll_last l \<noteq> None then set_next (sll_last l) tmp h1 else Inr h1) (\<lambda>h2.
        let l1 = l\<lparr>sll_last := tmp\<rparr>;
            l2 = (if sll_first l1 = None then l1\<lparr>sll_first := tmp\<rparr> else l1)
        in Inr (l2\<lparr>sll_size := sll_size l2 + 1\<rparr>, h2)))"

text \<open>The loop of \<open>remove\<close>; it compares with the referenced element anew in every round.\<close>

fun remove_loop :: "nat \<Rightarrow> 'a ref \<Rightarrow> ptr \<Rightarrow> ptr \<Rightarrow> sll \<Rightarrow> 'a sheap \<Rightarrow> (sll \<times> 'a sheap) res" where
  "remove_loop fuel elem old None l h = Inr (l, h)"
| "remove_loop 0 elem old (Some a) l h = Inl Diverges"
| "remove_loop (Suc fuel) elem old (Some a) l h =
     bind_res (deref h (Some a)) (\<lambda>c.
     bind_res (ref_value h elem) (\<lambda>e.
       if it_data c = e
       then bind_res (if Some a = sll_first l then Inr (l\<lparr>sll_first := it_next c\<rparr>, h)
                      else bind_res (set_next old (it_next c) h) (\<lambda>h1. Inr (l, h1))) (\<lambda>(l1, h1).
              let l2 = (if Some a = sll_last l1 then l1\<lparr>sll_last := old\<rparr> else l1) in
              bind_res (delete_item (Some a) h1) (\<lambda>h2.
                let l3 = l2\<lparr>sll_size := sll_size l2 - 1\<rparr> in
                if old = None then remove_loop fuel elem old (sll_first l3) l3 h2
                else bind_res (deref h2 old) (\<lambda>prev. remove_loop fuel elem old (it_next prev) l3 h2)))
       else remove_loop fuel elem (Some a) (it_next c) l h))"

definition sll_remove :: "nat \<Rightarrow> 'a ref \<Rightarrow> sll \<Rightarrow> 'a sheap \<Rightarrow> (sll \<times> 'a sheap) res" where
  "sll_remove fuel elem l h = remove_loop fuel elem None (sll_first l) l h"

definition sll_remove_iter :: "nat \<Rightarrow> ptr \<Rightarrow> sll \<Rightarrow> 'a sheap \<Rightarrow> (sll \<times> 'a sheap) res" where
  "sll_remove_iter fuel i l h = (if i = None then Inl Assertion else sll_remove fuel (InItem i) l h)"

definition sll_pop_front :: "sll \<Rightarrow> 'a sheap \<Rightarrow> (sll \<times> 'a sheap) res" where
  "sll_pop_front l h =
     (if sll_first l \<noteq> None
      then bind_res (deref h (sll_first l)) (\<lambda>c.
             let tmp = it_next c in
             bind_res (delete_item (sll_first l) h) (\<lambda>h'.
               let l1 = (if tmp = None then l\<lparr>sll_last := None\<rparr> else l)
               in Inr (l1\<lparr>sll_first := tmp, sll_size := sll_size l1 - 1\<rparr>, h')))
      else Inr (l, h))"

definition sll_behead :: "sll \<Rightarrow> 'a sheap \<Rightarrow> ('a \<times> sll \<times> 'a sheap) res" where
  "sll_behead l h =
     (if sll_first l = None then Inl Assertion
      else bind_res (deref h (sll_first l)) (\<lambda>c.
             let ret = it_data c; tmp = it_next c in
             bind_res (delete_item (sll_first l) h) (\<lambda>h'.
               let l1 = (if tmp = None then l\<lparr>sll_last := None\<rparr> else l)
               in Inr (ret, l1\<lparr>sll_first := tmp, sll_size := sll_size l1 - 1\<rparr>, h'))))"

fun clear_loop :: "nat \<Rightarrow> ptr \<Rightarrow> 'a sheap \<Rightarrow> 'a sheap res" where
  "clear_loop fuel None h = Inr h"
| "clear_loop 0 (Some a) h = Inl Diverges"
| "clear_loop (Suc fuel) (Some a) h =
     bind_res (deref h (Some a)) (\<lambda>c.
     bind_res (delete_item (Some a) h) (\<lambda>h'. clear_loop fuel (it_next c) h'))"

definition sll_clear :: "nat \<Rightarrow> sll \<Rightarrow> 'a sheap \<Rightarrow> (sll \<times> 'a sheap) res" where
  "sll_clear fuel l h =
     (if sll_size l = 0 then Inr (l, h)
      else bind_res (clear_loop fuel (sll_first l) h) (\<lambda>h'.
             Inr (l\<lparr>sll_first := None, sll_last := None, sll_size := 0\<rparr>, h')))"

fun copy_loop :: "nat \<Rightarrow> ptr \<Rightarrow> ptr \<Rightarrow> sll \<Rightarrow> 'a sheap \<Rightarrow> (ptr \<times> sll \<times> 'a sheap) res" where
  "copy_loop fuel None old l h = Inr (old, l, h)"
| "copy_loop 0 (Some a) old l h = Inl Diverges"
| "copy_loop (Suc fuel) (Some a) old l h =
     bind_res (deref h (Some a)) (\<lambda>c.
       let (cur, h1) = new_item (it_data c) None h;
           l1 = (if sll_first l = None then l\<lparr>sll_first := cur\<rparr> else l) in
       bind_res (if old \<noteq> None then set_next old cur h1 else Inr h1) (\<lambda>h2.
       bind_res (deref h2 (Some a)) (\<lambda>c'. copy_loop fuel (it_next c') cur l1 h2)))"

text \<open>The argument of \<open>copy\<close> is another list, or \<open>None\<close> when it is the list itself.\<close>

definition sll_copy :: "nat \<Rightarrow> sll option \<Rightarrow> sll \<Rightarrow> 'a sheap \<Rightarrow> (sll \<times> 'a sheap) res" where
  "sll_copy fuel list l h =
     (let tmp = (case list of None \<Rightarrow> sll_first l | Some s \<Rightarrow> sll_first s) in
      bind_res (sll_clear fuel l h) (\<lambda>(l1, h1).
      bind_res (copy_loop fuel tmp None l1 h1) (\<lambda>(old, l2, h2).
        let l3 = l2\<lparr>sll_last := old\<rparr>
        in Inr (l3\<lparr>sll_size := (case list of None \<Rightarrow> sll_size l3 | Some s \<Rightarrow> sll_size s)\<rparr>, h2))))"

definition sll_copy_construct :: "nat \<Rightarrow> sll \<Rightarrow> 'a sheap \<Rightarrow> (sll \<times> 'a sheap) res" where
  "sll_copy_construct fuel list h = sll_copy fuel (Some list) sll_new h"

definition sll_destroy :: "nat \<Rightarrow> sll \<Rightarrow> 'a sheap \<Rightarrow> (sll \<times> 'a sheap) res" where
  "sll_destroy fuel l h = (if sll_size l > 0 then sll_clear fuel l h else Inr (l, h))"

fun is_in_loop :: "nat \<Rightarrow> 'a \<Rightarrow> ptr \<Rightarrow> 'a sheap \<Rightarrow> bool res" where
  "is_in_loop fuel elem None h = Inr False"
| "is_in_loop 0 elem (Some a) h = Inl Diverges"
| "is_in_loop (Suc fuel) elem (Some a) h =
     bind_res (deref h (Some a)) (\<lambda>c.
       if it_data c = elem then Inr True else is_in_loop fuel elem (it_next c) h)"

definition sll_is_in :: "nat \<Rightarrow> 'a \<Rightarrow> sll \<Rightarrow> 'a sheap \<Rightarrow> bool res" where
  "sll_is_in fuel elem l h = is_in_loop fuel elem (sll_first l) h"

end
