(* ===== verification/SllProperties.thy ===== *)
theory SllProperties
  imports Sll "HOL-Library.Word"
begin

text \<open>
  The list \<open>sll\<close> represents a list of elements: \<open>lseg\<close> follows the pointers through the heap,
  \<open>sll_rep\<close> relates the three fields to the items met. The lemmas say that every operation keeps
  the representation and does to the elements what its name says, that nothing is leaked, and
  where the operations touch an item they have deleted.
\<close>

fun lseg :: "(nat \<rightharpoonup> 'a item) \<Rightarrow> ptr \<Rightarrow> (nat \<times> 'a) list \<Rightarrow> ptr \<Rightarrow> bool" where
  "lseg m p [] q \<longleftrightarrow> p = q"
| "lseg m p (c # cs) q \<longleftrightarrow> p = Some (fst c) \<and>
     (\<exists>n. m (fst c) = Some \<lparr>it_data = snd c, it_next = n\<rparr> \<and> lseg m n cs q)"

definition first_ptr :: "(nat \<times> 'a) list \<Rightarrow> ptr" where
  "first_ptr cs = (if cs = [] then None else Some (fst (hd cs)))"

definition last_ptr :: "(nat \<times> 'a) list \<Rightarrow> ptr" where
  "last_ptr cs = (if cs = [] then None else Some (fst (last cs)))"

definition sll_rep :: "'a sheap \<Rightarrow> sll \<Rightarrow> (nat \<times> 'a) list \<Rightarrow> bool" where
  "sll_rep h l cs \<longleftrightarrow> lseg (cells h) (sll_first l) cs None \<and> distinct (map fst cs) \<and>
     sll_last l = last_ptr cs \<and> unat (sll_size l) = length cs"

definition heap_ok :: "'a sheap \<Rightarrow> bool" where
  "heap_ok h \<longleftrightarrow> (\<forall>a\<ge>next_free h. cells h a = None)"

lemma ptr_simps [simp]:
  "first_ptr [] = None" "first_ptr (c # cs) = Some (fst c)"
  "last_ptr [] = None" "last_ptr (cs @ [c]) = Some (fst c)"
  by (simp_all add: first_ptr_def last_ptr_def)

lemma lseg_other: "a \<notin> fst ` set cs \<Longrightarrow> lseg (m(a := c)) p cs q \<longleftrightarrow> lseg m p cs q"
  by (induction cs arbitrary: p) auto

lemma lseg_append: "lseg m p (cs @ ds) q \<longleftrightarrow> (\<exists>r. lseg m p cs r \<and> lseg m r ds q)"
  by (induction cs arbitrary: p) auto

lemma lseg_cong: "(\<And>a. a \<in> fst ` set cs \<Longrightarrow> m a = m' a) \<Longrightarrow> lseg m p cs q \<longleftrightarrow> lseg m' p cs q"
  by (induction cs arbitrary: p) auto

lemma lseg_None: "lseg m p cs None \<Longrightarrow> p = first_ptr cs"
  by (cases cs) auto

lemma lseg_cells: "lseg m p cs q \<Longrightarrow> c \<in> set cs \<Longrightarrow> m (fst c) \<noteq> None"
  by (induction cs arbitrary: p) auto

lemma rep_below: "heap_ok h \<Longrightarrow> lseg (cells h) p cs q \<Longrightarrow> c \<in> set cs \<Longrightarrow> fst c < next_free h"
  using lseg_cells [of "cells h" p cs q c] by (auto simp: heap_ok_def not_less [symmetric])

lemma rep_fresh: "heap_ok h \<Longrightarrow> lseg (cells h) p cs q \<Longrightarrow> next_free h \<notin> fst ` set cs"
  using rep_below [of h p cs q] by (metis imageE less_irrefl)

lemma deref_Some: "cells h a = Some c \<Longrightarrow> deref h (Some a) = Inr c"
  by (simp add: deref_def)

lemma sll_rep_lseg: "sll_rep h l cs \<Longrightarrow> lseg (cells h) (sll_first l) cs None"
  by (simp add: sll_rep_def)

section \<open>Adding and taking elements\<close>

lemma size_suc: "unat (n :: 32 word) + 1 < 2 ^ 32 \<Longrightarrow> unat (n + 1) = Suc (unat n)"
  by (simp add: unat_word_ariths)

lemma size_pred: "unat (n :: 32 word) = Suc k \<Longrightarrow> unat (n - 1) = k"
  by (simp add: unat_sub_if')

lemma rep_new: "sll_rep h sll_new []"
  by (simp add: sll_rep_def sll_new_def)

lemma push_front_rep:
  assumes "sll_rep h l cs" "heap_ok h" "length cs + 1 < 2 ^ 32"
  shows "\<exists>l' h'. sll_push_front e l h = Inr (l', h') \<and> heap_ok h' \<and> sll_rep h' l' ((next_free h, e) # cs)"
proof -
  have f: "next_free h \<notin> fst ` set cs" using rep_fresh [OF assms(2) sll_rep_lseg [OF assms(1)]] .
  have "unat (sll_size l + 1) = Suc (length cs)"
    using assms by (simp add: sll_rep_def size_suc)
  moreover have "heap_ok (snd (new_item e (sll_first l) h))"
    using assms(2) by (auto simp: heap_ok_def new_item_def)
  ultimately show ?thesis using assms f
    by (cases cs) (auto simp: sll_push_front_def new_item_def sll_rep_def lseg_other last_ptr_def)
qed

lemma push_back_rep:
  assumes "sll_rep h l cs" "heap_ok h" "length cs + 1 < 2 ^ 32"
  shows "\<exists>l' h'. sll_push_back e l h = Inr (l', h') \<and> heap_ok h' \<and> sll_rep h' l' (cs @ [(next_free h, e)])"
proof (cases cs rule: rev_cases)
  case Nil
  then show ?thesis using assms
    by (auto simp: sll_push_back_def new_item_def sll_rep_def heap_ok_def size_suc last_ptr_def)
next
  case (snoc cs' c)
  let ?a = "next_free h"
  let ?h1 = "h\<lparr>cells := (cells h)(?a \<mapsto> \<lparr>it_data = e, it_next = None\<rparr>), next_free := Suc ?a\<rparr>"
  let ?h2 = "?h1\<lparr>cells := (cells ?h1)(fst c \<mapsto> \<lparr>it_data = snd c, it_next = Some ?a\<rparr>)\<rparr>"
  let ?l' = "l\<lparr>sll_last := Some ?a, sll_size := sll_size l + 1\<rparr>"
  have f: "?a \<notin> fst ` set cs" using rep_fresh [OF assms(2) sll_rep_lseg [OF assms(1)]] .
  from assms(1) snoc have seg: "lseg (cells h) (sll_first l) cs' (Some (fst c))"
    and c: "cells h (fst c) = Some \<lparr>it_data = snd c, it_next = None\<rparr>"
    and d: "distinct (map fst (cs' @ [c]))" and last: "sll_last l = Some (fst c)"
    by (auto simp: sll_rep_def lseg_append)
  have nc: "fst c \<noteq> ?a" "fst c \<notin> fst ` set cs'" "?a \<notin> fst ` set cs'" using f snoc d by auto
  have "new_item e None h = (Some ?a, ?h1)" by (simp add: new_item_def)
  moreover have "set_next (Some (fst c)) (Some ?a) ?h1 = Inr ?h2"
    using c nc by (simp add: set_next_def deref_def)
  moreover have "sll_first l \<noteq> None" using seg by (cases cs') auto
  ultimately have "sll_push_back e l h = Inr (?l', ?h2)" using last by (auto simp: sll_push_back_def Let_def)
  moreover have "heap_ok ?h2" using assms(2) nc c by (auto simp: heap_ok_def)
  moreover have "lseg (cells ?h2) (sll_first l) (cs @ [(?a, e)]) None"
    using seg nc unfolding snoc by (auto simp: lseg_append lseg_other)
  then have "sll_rep ?h2 ?l' (cs @ [(?a, e)])"
    using assms f by (auto simp: sll_rep_def size_suc)
  ultimately show ?thesis by blast
qed

lemma delete_first:
  assumes "sll_rep h l (c # cs)" "heap_ok h"
  shows "\<exists>n h'. deref h (sll_first l) = Inr \<lparr>it_data = snd c, it_next = n\<rparr> \<and> sll_first l = Some (fst c) \<and>
    delete_item (sll_first l) h = Inr h' \<and> heap_ok h' \<and> cells h' (fst c) = None \<and>
    sll_rep h' ((if n = None then l\<lparr>sll_last := None\<rparr> else l)\<lparr>sll_first := n, sll_size := sll_size l - 1\<rparr>) cs"
proof -
  from assms(1) obtain n where n: "cells h (fst c) = Some \<lparr>it_data = snd c, it_next = n\<rparr>"
    "lseg (cells h) n cs None" "sll_first l = Some (fst c)"
    by (auto simp: sll_rep_def)
  let ?h' = "h\<lparr>cells := (cells h)(fst c := None)\<rparr>"
  have "fst c \<notin> fst ` set cs" using assms(1) by (auto simp: sll_rep_def)
  with n(2) have seg: "lseg (cells ?h') n cs None" by (simp add: lseg_other)
  have "n = first_ptr cs" using n(2) by (rule lseg_None)
  moreover have "unat (sll_size l - 1) = length cs" using assms(1) by (simp add: sll_rep_def size_pred)
  ultimately have "sll_rep ?h' ((if n = None then l\<lparr>sll_last := None\<rparr> else l)\<lparr>sll_first := n, sll_size := sll_size l - 1\<rparr>) cs"
    using assms(1) seg by (cases cs) (auto simp: sll_rep_def last_ptr_def)
  moreover have "heap_ok ?h'" using assms(2) by (simp add: heap_ok_def)
  ultimately show ?thesis using n by (auto simp: delete_item_def deref_def)
qed

lemma behead_rep:
  assumes "sll_rep h l (c # cs)" "heap_ok h"
  shows "\<exists>l' h'. sll_behead l h = Inr (snd c, l', h') \<and> heap_ok h' \<and> sll_rep h' l' cs \<and> cells h' (fst c) = None"
  using delete_first [OF assms] by (auto simp: sll_behead_def)

lemma pop_front_rep:
  assumes "sll_rep h l (c # cs)" "heap_ok h"
  shows "\<exists>l' h'. sll_pop_front l h = Inr (l', h') \<and> heap_ok h' \<and> sll_rep h' l' cs \<and> cells h' (fst c) = None"
  using delete_first [OF assms] by (auto simp: sll_pop_front_def)

lemma rep_Nil: "sll_rep h l [] \<Longrightarrow> sll_first l = None \<and> sll_last l = None \<and> sll_size l = 0"
  by (auto simp: sll_rep_def unat_eq_0)

lemma item_rep:
  assumes "sll_rep h l (c # cs)"
  shows "sll_first_item l h = Inr (snd c)" "sll_last_item l h = Inr (snd (last (c # cs)))"
proof -
  from assms show "sll_first_item l h = Inr (snd c)"
    by (auto simp: sll_rep_def sll_first_item_def deref_def)
  obtain ds d where d: "c # cs = ds @ [d]" by (metis rev_exhaust list.distinct(1))
  with assms have "sll_last l = Some (fst d)" "cells h (fst d) = Some \<lparr>it_data = snd d, it_next = None\<rparr>"
    by (auto simp: sll_rep_def lseg_append simp del: lseg.simps(2)) (auto simp: sll_rep_def)
  then show "sll_last_item l h = Inr (snd (last (c # cs)))"
    unfolding d by (simp add: sll_last_item_def deref_def)
qed

lemma is_in_loop_rep:
  "lseg (cells h) p cs None \<Longrightarrow> length cs \<le> fuel \<Longrightarrow> is_in_loop fuel e p h = Inr (e \<in> snd ` set cs)"
proof (induction fuel e p h arbitrary: cs rule: is_in_loop.induct)
  case (1 fuel elem h)
  then show ?case by (cases cs) auto
next
  case (2 elem a h)
  then show ?case by (cases cs) auto
next
  case (3 fuel elem a h)
  then obtain x ds n where cs: "cs = (a, x) # ds" "cells h a = Some \<lparr>it_data = x, it_next = n\<rparr>"
    "lseg (cells h) n ds None" "length ds \<le> fuel"
    by (cases cs) auto
  with "3.IH" [of "\<lparr>it_data = x, it_next = n\<rparr>" ds] show ?case by (auto simp: deref_def)
qed

lemma clear_loop_rep:
  "lseg (cells h) p cs None \<Longrightarrow> distinct (map fst cs) \<Longrightarrow> length cs \<le> fuel \<Longrightarrow>
    clear_loop fuel p h = Inr (h\<lparr>cells := (\<lambda>a. if a \<in> fst ` set cs then None else cells h a)\<rparr>)"
proof (induction cs arbitrary: fuel p h)
  case Nil
  then show ?case by simp
next
  case (Cons c cs)
  then obtain n k where n: "p = Some (fst c)" "cells h (fst c) = Some \<lparr>it_data = snd c, it_next = n\<rparr>"
    "lseg (cells h) n cs None" "fuel = Suc k" "fst c \<notin> fst ` set cs"
    by (cases fuel) auto
  let ?h' = "h\<lparr>cells := (cells h)(fst c := None)\<rparr>"
  have "lseg (cells ?h') n cs None" using n by (simp add: lseg_other)
  then have "clear_loop k n ?h' = Inr (?h'\<lparr>cells := (\<lambda>a. if a \<in> fst ` set cs then None else cells ?h' a)\<rparr>)"
    by (rule Cons.IH) (use Cons.prems n in auto)
  moreover have "(\<lambda>a. if a \<in> fst ` set cs then None else cells ?h' a) =
      (\<lambda>a. if a \<in> fst ` set (c # cs) then None else cells h a)" by (auto simp: fun_eq_iff)
  ultimately show ?case using n by (simp add: deref_def delete_item_def)
qed

lemma clear_rep:
  assumes "sll_rep h l cs" "heap_ok h" "length cs \<le> fuel"
  shows "\<exists>l'. sll_clear fuel l h = Inr (l', h\<lparr>cells := (\<lambda>a. if a \<in> fst ` set cs then None else cells h a)\<rparr>) \<and>
    l' = sll_new"
proof (cases "cs = []")
  case True
  with rep_Nil assms(1) show ?thesis by (auto simp: sll_clear_def sll_new_def)
next
  case False
  then have "sll_size l \<noteq> 0" using assms(1) by (auto simp: sll_rep_def)
  then show ?thesis using clear_loop_rep [of h "sll_first l" cs fuel] assms
    by (auto simp: sll_clear_def sll_rep_def sll_new_def)
qed

section \<open>Removing elements\<close>

lemma rep_at:
  assumes "sll_rep h l (pre @ c # cs)"
  shows "cells h (fst c) = Some \<lparr>it_data = snd c, it_next = first_ptr cs\<rparr>"
    "lseg (cells h) (sll_first l) pre (Some (fst c))" "lseg (cells h) (first_ptr cs) cs None"
    "fst c \<notin> fst ` set (pre @ cs)" "distinct (map fst (pre @ cs))"
proof -
  from assms obtain n where n: "cells h (fst c) = Some \<lparr>it_data = snd c, it_next = n\<rparr>"
    "lseg (cells h) n cs None" "lseg (cells h) (sll_first l) pre (Some (fst c))"
    by (auto simp: sll_rep_def lseg_append)
  moreover have "n = first_ptr cs" using n(2) by (rule lseg_None)
  ultimately show "cells h (fst c) = Some \<lparr>it_data = snd c, it_next = first_ptr cs\<rparr>"
    "lseg (cells h) (sll_first l) pre (Some (fst c))" "lseg (cells h) (first_ptr cs) cs None"
    by simp_all
  from assms show "fst c \<notin> fst ` set (pre @ cs)" "distinct (map fst (pre @ cs))"
    by (auto simp: sll_rep_def)
qed

lemma last_other: "cs \<noteq> [] \<Longrightarrow> a \<notin> fst ` set cs \<Longrightarrow> fst (last cs) \<noteq> a"
  by (metis image_eqI last_in_set)

text \<open>Taking the item \<open>c\<close> out of the chain: at the front, and behind an item \<open>d\<close>.\<close>

lemma unlink_first:
  assumes "sll_rep h l (c # cs)" "heap_ok h"
  defines "l3 \<equiv> (let l1 = l\<lparr>sll_first := first_ptr cs\<rparr>;
      l2 = (if Some (fst c) = sll_last l1 then l1\<lparr>sll_last := None\<rparr> else l1) in l2\<lparr>sll_size := sll_size l2 - 1\<rparr>)"
  defines "h2 \<equiv> h\<lparr>cells := (cells h)(fst c := None)\<rparr>"
  shows "sll_rep h2 l3 cs" "heap_ok h2" "sll_first l3 = first_ptr cs"
proof -
  note at = rep_at [of h l "[]", simplified, OF assms(1)]
  have "unat (sll_size l - 1) = length cs" using assms(1) by (simp add: sll_rep_def size_pred)
  moreover have "sll_last l = Some (fst c) \<longleftrightarrow> cs = []"
    using assms(1) at(4) last_other [of cs "fst c"] by (auto simp: sll_rep_def last_ptr_def)
  ultimately show "sll_rep h2 l3 cs" using assms(1) at
    by (auto simp: l3_def h2_def sll_rep_def lseg_other last_ptr_def)
  show "heap_ok h2" using assms(2) by (simp add: h2_def heap_ok_def)
  show "sll_first l3 = first_ptr cs" by (simp add: l3_def Let_def)
qed

lemma unlink_inner:
  assumes "sll_rep h l (pre @ d # c # cs)" "heap_ok h"
  defines "l3 \<equiv> (let l2 = (if Some (fst c) = sll_last l then l\<lparr>sll_last := Some (fst d)\<rparr> else l)
      in l2\<lparr>sll_size := sll_size l2 - 1\<rparr>)"
  defines "h1 \<equiv> h\<lparr>cells := (cells h)(fst d \<mapsto> \<lparr>it_data = snd d, it_next = first_ptr cs\<rparr>)\<rparr>"
  defines "h2 \<equiv> h1\<lparr>cells := (cells h1)(fst c := None)\<rparr>"
  shows "set_next (Some (fst d)) (first_ptr cs) h = Inr h1" "delete_item (Some (fst c)) h1 = Inr h2"
    "deref h2 (Some (fst d)) = Inr \<lparr>it_data = snd d, it_next = first_ptr cs\<rparr>"
    "sll_first l \<noteq> Some (fst c)" "sll_rep h2 l3 (pre @ d # cs)" "heap_ok h2"
proof -
  note d = rep_at [OF assms(1)] and c = rep_at [of h l "pre @ [d]" c cs, simplified, OF assms(1)]
  have ne: "fst d \<noteq> fst c" "fst d \<notin> fst ` set cs" "fst c \<notin> fst ` set cs" "fst c \<notin> fst ` set pre"
    "fst d \<notin> fst ` set pre" using c(4,5) d(4) by auto
  show "set_next (Some (fst d)) (first_ptr cs) h = Inr h1"
    using d(1) by (simp add: set_next_def deref_def h1_def)
  show "delete_item (Some (fst c)) h1 = Inr h2" using c(1) ne by (simp add: delete_item_def deref_def h1_def h2_def)
  show "deref h2 (Some (fst d)) = Inr \<lparr>it_data = snd d, it_next = first_ptr cs\<rparr>"
    using ne by (simp add: deref_def h1_def h2_def)
  show "sll_first l \<noteq> Some (fst c)" using d(2) ne by (cases pre) auto
  show "heap_ok h2" using assms(2) d(1) by (auto simp: heap_ok_def h1_def h2_def)
  have "lseg (cells h2) (sll_first l) (pre @ d # cs) None"
    using d(2) c(3) ne by (auto simp: lseg_append lseg_other h1_def h2_def)
  moreover have "sll_last l = Some (fst c) \<longleftrightarrow> cs = []"
    using assms(1) ne last_other [of cs "fst c"] by (auto simp: sll_rep_def last_ptr_def)
  moreover have "unat (sll_size l - 1) = length (pre @ d # cs)" using assms(1) by (simp add: sll_rep_def size_pred)
  ultimately show "sll_rep h2 l3 (pre @ d # cs)" using c(5) assms(1)
    by (auto simp: l3_def sll_rep_def last_ptr_def)
qed

lemma remove_loop_rep:
  assumes "sll_rep h l (pre @ rest)" "heap_ok h" "length rest \<le> fuel"
  shows "\<exists>l' h'. remove_loop fuel (Val e) (last_ptr pre) (first_ptr rest) l h = Inr (l', h') \<and> heap_ok h' \<and>
    sll_rep h' l' (pre @ filter (\<lambda>c. snd c \<noteq> e) rest) \<and>
    dom (cells h') = dom (cells h) - fst ` {c \<in> set rest. snd c = e} \<and>
    (\<forall>a. a \<notin> fst ` set (pre @ rest) \<longrightarrow> cells h' a = cells h a)"
  using assms
proof (induction rest arbitrary: fuel pre l h)
  case Nil
  then show ?case by simp
next
  case (Cons c cs)
  then obtain k where k: "fuel = Suc k" "length cs \<le> k" by (cases fuel) auto
  note at = rep_at [OF Cons.prems(1)]
  show ?case
  proof (cases "snd c = e")
    case False
    have "\<exists>l' h'. remove_loop k (Val e) (Some (fst c)) (first_ptr cs) l h = Inr (l', h') \<and> heap_ok h' \<and>
        sll_rep h' l' ((pre @ [c]) @ filter (\<lambda>c. snd c \<noteq> e) cs) \<and>
        dom (cells h') = dom (cells h) - fst ` {c \<in> set cs. snd c = e} \<and>
        (\<forall>a. a \<notin> fst ` set ((pre @ [c]) @ cs) \<longrightarrow> cells h' a = cells h a)"
      using Cons.IH [of h l "pre @ [c]" k] Cons.prems(1,2) k(2) by simp
    moreover have "{d \<in> set (c # cs). snd d = e} = {d \<in> set cs. snd d = e}" using False by auto
    ultimately show ?thesis using k at(1) False by (simp add: deref_def)
  next
    case True
    have eqs: "fst ` {d \<in> set (c # cs). snd d = e} = insert (fst c) (fst ` {d \<in> set cs. snd d = e})"
      using True by auto
    show ?thesis
    proof (cases pre rule: rev_cases)
      case Nil
      let ?h2 = "h\<lparr>cells := (cells h)(fst c := None)\<rparr>"
      have "sll_first l = Some (fst c)" using Cons.prems(1) Nil by (simp add: sll_rep_def)
      moreover have "delete_item (Some (fst c)) h = Inr ?h2" using at(1) by (simp add: delete_item_def deref_def)
      moreover obtain l3 where l3: "l3 = (let l1 = l\<lparr>sll_first := first_ptr cs\<rparr>;
          l2 = (if Some (fst c) = sll_last l1 then l1\<lparr>sll_last := None\<rparr> else l1) in l2\<lparr>sll_size := sll_size l2 - 1\<rparr>)"
        "sll_rep ?h2 l3 cs" "heap_ok ?h2" "sll_first l3 = first_ptr cs"
        using unlink_first [of h l c cs] Cons.prems Nil by simp
      ultimately have "remove_loop fuel (Val e) (last_ptr pre) (first_ptr (c # cs)) l h =
          remove_loop k (Val e) (last_ptr pre) (first_ptr cs) l3 ?h2"
        using at(1) True k Nil by (simp add: deref_def Let_def)
      moreover have "\<exists>l' h'. remove_loop k (Val e) (last_ptr pre) (first_ptr cs) l3 ?h2 = Inr (l', h') \<and>
          heap_ok h' \<and> sll_rep h' l' (pre @ filter (\<lambda>c. snd c \<noteq> e) cs) \<and>
          dom (cells h') = dom (cells ?h2) - fst ` {c \<in> set cs. snd c = e} \<and>
          (\<forall>a. a \<notin> fst ` set (pre @ cs) \<longrightarrow> cells h' a = cells ?h2 a)"
        by (rule Cons.IH) (use l3(2,3) k Nil in simp_all)
      moreover have "dom (cells ?h2) = dom (cells h) - {fst c}" by auto
      moreover have "cells ?h2 a = cells h a" if "a \<notin> fst ` set (pre @ c # cs)" for a using that by auto
      ultimately show ?thesis unfolding eqs using True by (auto simp del: remove_loop.simps fun_upd_apply)
    next
      case (snoc pre' d)
      have rep: "sll_rep h l (pre' @ d # c # cs)" using Cons.prems(1) snoc by simp
      obtain h1 h2 l3 where l3: "l3 = (let l2 = (if Some (fst c) = sll_last l then l\<lparr>sll_last := Some (fst d)\<rparr> else l)
          in l2\<lparr>sll_size := sll_size l2 - 1\<rparr>)"
        and h1: "h1 = h\<lparr>cells := (cells h)(fst d \<mapsto> \<lparr>it_data = snd d, it_next = first_ptr cs\<rparr>)\<rparr>"
        and h2: "h2 = h1\<lparr>cells := (cells h1)(fst c := None)\<rparr>" by simp
      note u = unlink_inner [OF rep Cons.prems(2), folded h1, folded h2, folded l3]
      have "remove_loop fuel (Val e) (last_ptr pre) (first_ptr (c # cs)) l h =
          remove_loop k (Val e) (last_ptr pre) (first_ptr cs) l3 h2"
        using at(1) True k snoc u(1-4) l3 by (simp add: deref_Some Let_def)
      moreover have "dom (cells h2) = dom (cells h) - {fst c}"
        using rep_at(1) [OF rep] rep_at(4) [OF rep] by (auto simp: h1 h2)
      moreover have "\<exists>l' h'. remove_loop k (Val e) (last_ptr pre) (first_ptr cs) l3 h2 = Inr (l', h') \<and>
          heap_ok h' \<and> sll_rep h' l' (pre @ filter (\<lambda>c. snd c \<noteq> e) cs) \<and>
          dom (cells h') = dom (cells h2) - fst ` {c \<in> set cs. snd c = e} \<and>
          (\<forall>a. a \<notin> fst ` set (pre @ cs) \<longrightarrow> cells h' a = cells h2 a)"
        by (rule Cons.IH) (use u(5,6) k snoc in simp_all)
      moreover have "cells h2 a = cells h a" if "a \<notin> fst ` set (pre @ c # cs)" for a
        using that snoc by (auto simp: h1 h2)
      ultimately show ?thesis unfolding eqs using True by (auto simp del: remove_loop.simps)
    qed
  qed
qed

section \<open>Copying\<close>

text \<open>Linking a new item behind the last one of a chain.\<close>

lemma link_last:
  assumes "lseg (cells h) p cs None" "distinct (map fst cs)" "heap_ok h"
  defines "a \<equiv> next_free h"
  shows "\<exists>h2. (if last_ptr cs \<noteq> None then set_next (last_ptr cs) (Some a) (snd (new_item e None h))
      else Inr (snd (new_item e None h))) = Inr h2 \<and> heap_ok h2 \<and> next_free h2 = Suc a \<and>
    lseg (cells h2) (first_ptr (cs @ [(a, e)])) (cs @ [(a, e)]) None \<and>
    (\<forall>b. b < a \<and> b \<notin> fst ` set cs \<longrightarrow> cells h2 b = cells h b)"
proof (cases cs rule: rev_cases)
  case Nil
  then show ?thesis using assms(3) by (auto simp: new_item_def heap_ok_def a_def)
next
  case (snoc pre d)
  let ?h1 = "h\<lparr>cells := (cells h)(a \<mapsto> \<lparr>it_data = e, it_next = None\<rparr>), next_free := Suc a\<rparr>"
  let ?h2 = "?h1\<lparr>cells := (cells ?h1)(fst d \<mapsto> \<lparr>it_data = snd d, it_next = Some a\<rparr>)\<rparr>"
  have f: "a \<notin> fst ` set cs" unfolding a_def by (rule rep_fresh [OF assms(3,1)])
  from assms(1,2) snoc have seg: "lseg (cells h) p pre (Some (fst d))"
    and d: "cells h (fst d) = Some \<lparr>it_data = snd d, it_next = None\<rparr>" "fst d \<notin> fst ` set pre"
    by (auto simp: lseg_append)
  have p: "p = first_ptr cs" using assms(1) by (rule lseg_None)
  have nd: "fst d \<noteq> a" "a \<notin> fst ` set pre" using f snoc by auto
  have "set_next (last_ptr cs) (Some a) (snd (new_item e None h)) = Inr ?h2"
    using d nd snoc by (simp add: set_next_def deref_def new_item_def a_def)
  moreover have "heap_ok ?h2" using assms(3) d by (auto simp: heap_ok_def a_def)
  moreover have "lseg (cells ?h2) p (cs @ [(a, e)]) None"
    using seg nd d(2) unfolding snoc by (auto simp: lseg_append lseg_other)
  moreover have "first_ptr (cs @ [(a, e)]) = p" using p snoc by (cases pre) auto
  ultimately show ?thesis using snoc by (auto simp: last_ptr_def)
qed

lemma copy_loop_rep:
  assumes "lseg (cells h) p rest None" "lseg (cells h) (sll_first l) cs None" "distinct (map fst cs)"
    and "fst ` set rest \<inter> fst ` set cs = {}" "heap_ok h" "length rest \<le> fuel"
  shows "\<exists>cs' h'. copy_loop fuel p (last_ptr cs) l h =
      Inr (last_ptr (cs @ cs'), l\<lparr>sll_first := first_ptr (cs @ cs')\<rparr>, h') \<and> heap_ok h' \<and>
    map snd cs' = map snd rest \<and> lseg (cells h') (first_ptr (cs @ cs')) (cs @ cs') None \<and>
    distinct (map fst (cs @ cs')) \<and> (\<forall>b. b < next_free h \<and> b \<notin> fst ` set cs \<longrightarrow> cells h' b = cells h b)"
  using assms
proof (induction rest arbitrary: fuel p l cs h)
  case Nil
  then show ?case using lseg_None [of "cells h" "sll_first l" cs] by auto
next
  case (Cons c ds)
  then obtain k n where k: "fuel = Suc k" "length ds \<le> k" and p: "p = Some (fst c)"
    and c: "cells h (fst c) = Some \<lparr>it_data = snd c, it_next = n\<rparr>" and n: "lseg (cells h) n ds None"
    by (cases fuel) auto
  let ?a = "next_free h" and ?cs = "cs @ [(next_free h, snd c)]"
  let ?l1 = "if sll_first l = None then l\<lparr>sll_first := Some ?a\<rparr> else l"
  from link_last [OF Cons.prems(2,3,5), of "snd c"] obtain h2 where
    h2: "(if last_ptr cs \<noteq> None then set_next (last_ptr cs) (Some ?a) (snd (new_item (snd c) None h))
      else Inr (snd (new_item (snd c) None h))) = Inr h2" "heap_ok h2" "next_free h2 = Suc ?a"
    "lseg (cells h2) (first_ptr ?cs) ?cs None"
    "\<And>b. b < ?a \<and> b \<notin> fst ` set cs \<Longrightarrow> cells h2 b = cells h b" by blast
  have below: "b \<in> fst ` set (c # ds) \<Longrightarrow> b < ?a \<and> b \<notin> fst ` set cs" for b
    using rep_below [OF Cons.prems(5,1)] Cons.prems(4) by (auto simp del: set_simps)
  have first: "sll_first ?l1 = first_ptr ?cs"
    using lseg_None [OF Cons.prems(2)] by (cases cs) auto
  have c2: "cells h2 (fst c) = Some \<lparr>it_data = snd c, it_next = n\<rparr>"
    using below [of "fst c"] c h2(5) [of "fst c"] by simp
  have "copy_loop fuel p (last_ptr cs) l h = copy_loop k n (last_ptr ?cs) ?l1 h2"
    by (simp only: k(1) p copy_loop.simps deref_Some [OF c] deref_Some [OF c2] bind_res_simps item.select_convs
        Let_def case_prod_beta fst_conv snd_conv new_item_def h2(1) [unfolded new_item_def snd_conv] ptr_simps)
  moreover have "lseg (cells h2) n ds None"
    using n below by (subst lseg_cong [of ds "cells h2" "cells h"]) (auto intro!: h2(5))
  moreover have dist: "distinct (map fst ?cs)"
    using Cons.prems(3) rep_fresh [OF Cons.prems(5,2)] by simp
  moreover have "fst ` set ds \<inter> fst ` set ?cs = {}" using Cons.prems(4) below by auto
  ultimately obtain cs' h' where r: "copy_loop fuel p (last_ptr cs) l h =
      Inr (last_ptr (?cs @ cs'), ?l1\<lparr>sll_first := first_ptr (?cs @ cs')\<rparr>, h')" "heap_ok h'"
    "map snd cs' = map snd ds" "lseg (cells h') (first_ptr (?cs @ cs')) (?cs @ cs') None"
    "distinct (map fst (?cs @ cs'))"
    "\<forall>b. b < next_free h2 \<and> b \<notin> fst ` set ?cs \<longrightarrow> cells h' b = cells h2 b"
    using Cons.IH [of h2 n ?l1 ?cs k] h2(2,4) k(2) first by auto
  moreover have "?l1\<lparr>sll_first := q\<rparr> = l\<lparr>sll_first := q\<rparr>" for q by simp
  moreover have "cells h' b = cells h b" if "b < ?a \<and> b \<notin> fst ` set cs" for b
    using r(6) h2(3) h2(5) [OF that] that by auto
  ultimately show ?case
    by (intro exI [of _ "(?a, snd c) # cs'"] exI [of _ h']) (simp del: copy_loop.simps)
qed

lemma copy_rep:
  assumes "sll_rep h src cs" "sll_rep h l ds" "heap_ok h" "fst ` set cs \<inter> fst ` set ds = {}"
    and "length cs \<le> fuel" "length ds \<le> fuel"
  shows "\<exists>l' h' cs'. sll_copy fuel (Some src) l h = Inr (l', h') \<and> heap_ok h' \<and> sll_rep h' l' cs' \<and>
    sll_rep h' src cs \<and> map snd cs' = map snd cs \<and> (\<forall>a\<in>fst ` set ds. cells h' a = None)"
proof -
  let ?h1 = "h\<lparr>cells := (\<lambda>a. if a \<in> fst ` set ds then None else cells h a)\<rparr>"
  have clear: "sll_clear fuel l h = Inr (sll_new, ?h1)" using clear_rep [OF assms(2,3,6)] by blast
  have ok: "heap_ok ?h1" using assms(3) by (simp add: heap_ok_def)
  have seg: "lseg (cells ?h1) (sll_first src) cs None"
    using assms(1,4) by (subst lseg_cong [of cs _ "cells h"]) (auto simp: sll_rep_def)
  from copy_loop_rep [OF seg _ _ _ ok assms(5), of sll_new "[]"] obtain cs' h' where
    r: "copy_loop fuel (sll_first src) None sll_new ?h1 =
      Inr (last_ptr cs', sll_new\<lparr>sll_first := first_ptr cs'\<rparr>, h')" "heap_ok h'" "map snd cs' = map snd cs"
    "lseg (cells h') (first_ptr cs') cs' None" "distinct (map fst cs')"
    "\<And>b. b < next_free h \<Longrightarrow> cells h' b = cells ?h1 b"
    by (auto simp: sll_new_def)
  let ?l' = "sll_new\<lparr>sll_first := first_ptr cs', sll_last := last_ptr cs', sll_size := sll_size src\<rparr>"
  have "sll_copy fuel (Some src) l h = Inr (?l', h')" using clear r(1) by (simp add: sll_copy_def)
  moreover have "length cs' = length cs" using r(3) map_eq_imp_length_eq by blast
  then have "sll_rep h' ?l' cs'" using r(4,5) assms(1) by (simp add: sll_rep_def)
  moreover have below: "a < next_free h" if "a \<in> fst ` set cs \<or> a \<in> fst ` set ds" for a
    using that rep_below [OF assms(3) sll_rep_lseg [OF assms(1)]] rep_below [OF assms(3) sll_rep_lseg [OF assms(2)]] by auto
  then have "lseg (cells h') (sll_first src) cs None"
    using seg by (subst lseg_cong [of cs _ "cells ?h1"]) (auto simp: r(6))
  then have "sll_rep h' src cs" using assms(1) by (simp add: sll_rep_def)
  moreover have "\<forall>a\<in>fst ` set ds. cells h' a = None" using below r(6) by auto
  ultimately show ?thesis using r(2,3) by blast
qed

section \<open>Properties\<close>

definition sll_elems :: "'a sheap \<Rightarrow> sll \<Rightarrow> 'a list \<Rightarrow> bool" where
  "sll_elems h l xs \<longleftrightarrow> (\<exists>cs. sll_rep h l cs \<and> map snd cs = xs)"

definition ex_heap :: "nat sheap" where
  "ex_heap = \<lparr>cells = Map.empty, next_free = 0\<rparr>"

lemma ex_heap_ok [simp]: "heap_ok ex_heap" "sll_elems ex_heap sll_new []"
  using rep_new by (auto simp: ex_heap_def heap_ok_def sll_elems_def)

lemma sll_elems_I: "sll_rep h l cs \<Longrightarrow> map snd cs = xs \<Longrightarrow> sll_elems h l xs"
  by (auto simp: sll_elems_def)

text \<open>
  What an operation leaves of the heap when it turns the items \<open>cs\<close> of a list into \<open>cs'\<close>: the items
  of others are as before, those it took out are freed, and those it made are new.
\<close>

definition sll_frame :: "'a sheap \<Rightarrow> (nat \<times> 'a) list \<Rightarrow> 'a sheap \<Rightarrow> (nat \<times> 'a) list \<Rightarrow> bool" where
  "sll_frame h cs h' cs' \<longleftrightarrow> (\<forall>a. a \<notin> fst ` set cs \<union> fst ` set cs' \<longrightarrow> cells h' a = cells h a) \<and>
     (\<forall>a\<in>fst ` set cs - fst ` set cs'. cells h' a = None) \<and> (\<forall>a\<in>fst ` set cs' - fst ` set cs. cells h a = None)"

definition sll_becomes :: "'a sheap \<Rightarrow> (nat \<times> 'a) list \<Rightarrow> (nat \<times> 'a) list \<Rightarrow> (sll \<times> 'a sheap) res \<Rightarrow> bool" where
  "sll_becomes h cs cs' r \<longleftrightarrow> (\<exists>l' h'. r = Inr (l', h') \<and> heap_ok h' \<and> sll_rep h' l' cs' \<and> sll_frame h cs h' cs')"

lemma frame_new:
  "cells h (next_free h) = None \<Longrightarrow> fst ` set cs' = insert (next_free h) (fst ` set cs) \<Longrightarrow>
    (\<And>a. a \<notin> fst ` set cs' \<Longrightarrow> cells h' a = cells h a) \<Longrightarrow> sll_frame h cs h' cs'"
  by (auto simp: sll_frame_def)

lemma push_front_becomes:
  assumes "sll_rep h l cs" "heap_ok h" "length cs + 1 < 2 ^ 32"
  shows "sll_becomes h cs ((next_free h, e) # cs) (sll_push_front e l h)"
proof -
  obtain l' h' where r: "sll_push_front e l h = Inr (l', h')" "heap_ok h'" "sll_rep h' l' ((next_free h, e) # cs)"
    using push_front_rep [OF assms] by blast
  have "sll_frame h cs h' ((next_free h, e) # cs)"
    using assms(2) r(1) by (intro frame_new) (auto simp: heap_ok_def sll_push_front_def new_item_def Let_def split: if_splits)
  with r show ?thesis by (auto simp: sll_becomes_def)
qed

lemma push_back_becomes:
  assumes "sll_rep h l cs" "heap_ok h" "length cs + 1 < 2 ^ 32"
  shows "sll_becomes h cs (cs @ [(next_free h, e)]) (sll_push_back e l h)"
proof -
  obtain l' h' where r: "sll_push_back e l h = Inr (l', h')" "heap_ok h'" "sll_rep h' l' (cs @ [(next_free h, e)])"
    using push_back_rep [OF assms] by blast
  have last: "sll_last l = last_ptr cs" using assms(1) by (simp add: sll_rep_def)
  have "cells h' a = cells h a" if "a \<notin> fst ` set (cs @ [(next_free h, e)])" for a
  proof (cases "cs = []")
    case True
    then show ?thesis using r(1) last that by (auto simp: sll_push_back_def new_item_def Let_def split: if_splits)
  next
    case False
    then have "sll_last l = Some (fst (last cs))" "a \<noteq> fst (last cs)" "a \<noteq> next_free h"
      using last that by (auto simp: last_ptr_def)
    then show ?thesis using r(1)
      by (auto simp: sll_push_back_def new_item_def set_next_def Let_def bind_res_Inr_iff split: if_splits)
  qed
  then have "sll_frame h cs h' (cs @ [(next_free h, e)])"
    using assms(2) by (intro frame_new) (auto simp: heap_ok_def)
  with r show ?thesis by (auto simp: sll_becomes_def)
qed

lemma delete_frame:
  assumes "sll_rep h l (c # cs)" "cells h' = (cells h)(fst c := None)"
  shows "sll_frame h (c # cs) h' cs"
  using assms by (auto simp: sll_frame_def sll_rep_def)

lemma take_first_cells:
  assumes "sll_rep h l (c # cs)"
  shows "sll_behead l h = Inr (x, l', h') \<Longrightarrow> cells h' = (cells h)(fst c := None)"
    and "sll_pop_front l h = Inr (l', h') \<Longrightarrow> cells h' = (cells h)(fst c := None)"
  using assms by (auto simp: sll_behead_def sll_pop_front_def sll_rep_def deref_def delete_item_def Let_def)

lemma pop_front_becomes:
  assumes "sll_rep h l cs" "heap_ok h"
  shows "sll_becomes h cs (tl cs) (sll_pop_front l h)"
proof (cases cs)
  case Nil
  then show ?thesis using assms rep_Nil [of h l] by (auto simp: sll_becomes_def sll_pop_front_def sll_frame_def)
next
  case (Cons c ds)
  then have rep: "sll_rep h l (c # ds)" using assms(1) by simp
  from pop_front_rep [OF rep assms(2)] obtain l' h' where
    "sll_pop_front l h = Inr (l', h')" "heap_ok h'" "sll_rep h' l' ds" by blast
  with delete_frame [OF rep take_first_cells(2) [OF rep]] Cons show ?thesis by (auto simp: sll_becomes_def)
qed

lemma remove_becomes:
  assumes "sll_rep h l cs" "heap_ok h" "length cs \<le> fuel"
  shows "sll_becomes h cs (filter (\<lambda>c. snd c \<noteq> e) cs) (sll_remove fuel (Val e) l h)"
proof -
  have "sll_rep h l ([] @ cs)" using assms(1) by simp
  from remove_loop_rep [OF this assms(2,3), of e] obtain l' h' where
    r: "remove_loop fuel (Val e) None (sll_first l) l h = Inr (l', h')" "heap_ok h'"
    "sll_rep h' l' (filter (\<lambda>c. snd c \<noteq> e) cs)" "dom (cells h') = dom (cells h) - fst ` {c \<in> set cs. snd c = e}"
    "\<forall>a. a \<notin> fst ` set cs \<longrightarrow> cells h' a = cells h a"
    using lseg_None [OF sll_rep_lseg [OF assms(1)]] by auto
  have "cells h' a = None" if "a \<in> fst ` set cs - fst ` set (filter (\<lambda>c. snd c \<noteq> e) cs)" for a
  proof -
    have "a \<in> fst ` {c \<in> set cs. snd c = e}" using that by auto
    then have "a \<notin> dom (cells h')" unfolding r(4) by blast
    then show ?thesis by (simp add: domIff)
  qed
  then have "sll_frame h cs h' (filter (\<lambda>c. snd c \<noteq> e) cs)" using r(5) by (auto simp: sll_frame_def)
  with r(1-3) show ?thesis by (auto simp: sll_becomes_def sll_remove_def)
qed

lemma clear_becomes:
  assumes "sll_rep h l cs" "heap_ok h" "length cs \<le> fuel"
  shows "sll_becomes h cs [] (sll_clear fuel l h)"
proof -
  have "heap_ok (h\<lparr>cells := (\<lambda>a. if a \<in> fst ` set cs then None else cells h a)\<rparr>)" using assms(2) by (simp add: heap_ok_def)
  with clear_rep [OF assms] show ?thesis by (auto simp: sll_becomes_def rep_new sll_frame_def)
qed

text \<open>
  C32: \<open>sll\<close> implements lists. On a list of less than \<open>2^32 - 1\<close> items, each an address and its
  element, the operations add at the front and at the back, take the first item, remove every
  occurrence of a value, clear, look up and answer the ends and the size as on the list of the elements; the
  loops end. Every operation leaves the heap outside the list as it was, frees exactly the items
  it takes out, and puts what it adds where nothing was.
\<close>

theorem sll_implements_list:
  assumes "sll_rep h l cs" "heap_ok h" "length cs + 1 < 2 ^ 32" "length cs \<le> fuel"
  shows "sll_becomes h cs ((next_free h, e) # cs) (sll_push_front e l h) \<and>
    sll_becomes h cs (cs @ [(next_free h, e)]) (sll_push_back e l h) \<and>
    sll_becomes h cs (filter (\<lambda>c. snd c \<noteq> e) cs) (sll_remove fuel (Val e) l h) \<and>
    sll_becomes h cs (tl cs) (sll_pop_front l h) \<and>
    sll_becomes h cs [] (sll_clear fuel l h) \<and>
    (if cs = [] then sll_behead l h = Inl Assertion
     else (\<exists>l' h'. sll_behead l h = Inr (snd (hd cs), l', h') \<and> heap_ok h' \<and> sll_rep h' l' (tl cs) \<and>
         sll_frame h cs h' (tl cs)) \<and>
       sll_first_item l h = Inr (snd (hd cs)) \<and> sll_last_item l h = Inr (snd (last cs))) \<and>
    sll_is_in fuel e l h = Inr (e \<in> snd ` set cs) \<and> unat (sll_size l) = length cs"
proof -
  have "if cs = [] then sll_behead l h = Inl Assertion
     else (\<exists>l' h'. sll_behead l h = Inr (snd (hd cs), l', h') \<and> heap_ok h' \<and> sll_rep h' l' (tl cs) \<and>
         sll_frame h cs h' (tl cs)) \<and>
       sll_first_item l h = Inr (snd (hd cs)) \<and> sll_last_item l h = Inr (snd (last cs))"
  proof (cases cs)
    case Nil
    then show ?thesis using assms(1) rep_Nil [of h l] by (simp add: sll_behead_def)
  next
    case (Cons c ds)
    with assms(1) have rep: "sll_rep h l (c # ds)" by simp
    from behead_rep [OF rep assms(2)] obtain l' h' where
      "sll_behead l h = Inr (snd c, l', h')" "heap_ok h'" "sll_rep h' l' ds" by blast
    with delete_frame [OF rep take_first_cells(1) [OF rep]] item_rep [OF rep] Cons show ?thesis by auto
  qed
  moreover have "sll_is_in fuel e l h = Inr (e \<in> snd ` set cs)"
    using is_in_loop_rep [OF sll_rep_lseg [OF assms(1)] assms(4), of e] by (simp add: sll_is_in_def)
  moreover have "unat (sll_size l) = length cs" using assms(1) by (simp add: sll_rep_def)
  ultimately show ?thesis
    using push_front_becomes [OF assms(1-3), of e] push_back_becomes [OF assms(1-3), of e]
      remove_becomes [OF assms(1,2,4), of e] pop_front_becomes [OF assms(1,2)] clear_becomes [OF assms(1,2,4)]
    by blast
qed

theorem sll_implements_list_witness:
  "\<exists>l1 h1 l2 h2. sll_push_back 7 sll_new ex_heap = Inr (l1, h1) \<and> sll_push_front 5 l1 h1 = Inr (l2, h2) \<and>
    sll_rep h2 l2 [(next_free h1, 5), (0, 7)]"
proof -
  have "sll_rep ex_heap sll_new []" by (rule rep_new)
  from sll_implements_list [OF this, of 0 7] obtain l1 h1 where
    1: "sll_push_back 7 sll_new ex_heap = Inr (l1, h1)" "heap_ok h1" "sll_rep h1 l1 [(0, 7)]"
    by (auto simp: sll_becomes_def ex_heap_def heap_ok_def)
  from sll_implements_list [OF 1(3,2), of 1 5] 1(1) show ?thesis by (auto simp: sll_becomes_def)
qed

text \<open>
  Copying a list is deep. The copy holds the same elements in items of its own, the source is
  unchanged, and the old items of the target are freed.
\<close>

theorem sll_copy_is_deep:
  assumes "sll_rep h src cs" "sll_rep h l ds" "heap_ok h" "fst ` set cs \<inter> fst ` set ds = {}"
    and "length cs \<le> fuel" "length ds \<le> fuel"
  shows "\<exists>l' h'. sll_copy fuel (Some src) l h = Inr (l', h') \<and> heap_ok h' \<and> sll_elems h' l' (map snd cs) \<and>
    sll_rep h' src cs \<and> list_all (\<lambda>d. cells h' (fst d) = None) ds"
  using copy_rep [OF assms] by (auto simp: list_all_iff intro: sll_elems_I)

theorem sll_copy_is_deep_witness:
  "\<exists>src h1 l' h'. sll_push_back 7 sll_new ex_heap = Inr (src, h1) \<and>
    sll_copy 1 (Some src) sll_new h1 = Inr (l', h') \<and> sll_elems h' l' [7] \<and> sll_rep h' src [(0, 7)]"
proof -
  have "sll_rep ex_heap sll_new []" by (rule rep_new)
  from push_back_rep [OF this, of 7] obtain src h1 where
    1: "sll_push_back 7 sll_new ex_heap = Inr (src, h1)" "heap_ok h1" "sll_rep h1 src [(0, 7)]"
    by (auto simp: ex_heap_def heap_ok_def)
  have "sll_rep h1 sll_new []" by (rule rep_new)
  from sll_copy_is_deep [OF 1(3) this 1(2), of 1] 1(1) show ?thesis by auto
qed

text \<open>
  Where \<open>sll\<close> reads a deleted item. \<open>remove (iterator)\<close> passes the data of the item itself as
  the element to compare with; once that item is deleted the loop goes on comparing with it when
  there is another item. Assigning a list that is not empty to itself clears it first and then
  copies from its deleted first item.
\<close>

theorem sll_reads_deleted_items:
  assumes "sll_rep h l (c # d # cs)" "heap_ok h" "length (c # d # cs) \<le> fuel"
  shows "sll_remove_iter fuel (sll_first l) l h = Inl Undefined \<and> sll_copy fuel None l h = Inl Undefined"
proof
  note at = rep_at [of h l "[]", simplified, OF assms(1)]
  obtain k where k: "fuel = Suc (Suc k)" using that [of "fuel - 2"] assms(3) by simp
  have first: "sll_first l = Some (fst c)" using assms(1) by (simp add: sll_rep_def)
  have d: "cells h (fst d) = Some \<lparr>it_data = snd d, it_next = first_ptr cs\<rparr>" "fst d \<noteq> fst c"
    using rep_at [of h l "[c]" d cs] assms(1) by auto
  have last: "sll_last l \<noteq> Some (fst c)"
    using assms(1) at(4) last_other [of "d # cs" "fst c"] by (auto simp: sll_rep_def last_ptr_def)
  show "sll_remove_iter fuel (sll_first l) l h = Inl Undefined"
    using at(1) d first last by (simp add: sll_remove_iter_def sll_remove_def k deref_def delete_item_def Let_def)
  have "sll_clear fuel l h = Inr (sll_new, h\<lparr>cells := (\<lambda>a. if a \<in> fst ` set (c # d # cs) then None else cells h a)\<rparr>)"
    using clear_rep [OF assms] by blast
  then show "sll_copy fuel None l h = Inl Undefined"
    using first by (simp add: sll_copy_def k deref_def)
qed

theorem sll_reads_deleted_items_witness:
  "\<exists>l1 h1 l2 h2. sll_push_back 7 sll_new ex_heap = Inr (l1, h1) \<and> sll_push_back 5 l1 h1 = Inr (l2, h2) \<and>
    sll_copy 2 None l2 h2 = Inl Undefined"
proof -
  obtain l1 h1 where 1: "sll_push_back 7 sll_new ex_heap = Inr (l1, h1)" "heap_ok h1"
    "sll_rep h1 l1 [(next_free ex_heap, 7)]"
    using push_back_rep [OF rep_new ex_heap_ok(1), of 7] by auto
  from push_back_rep [OF 1(3,2), of 5] obtain l2 h2 where 2: "sll_push_back 5 l1 h1 = Inr (l2, h2)" "heap_ok h2"
    "sll_rep h2 l2 [(next_free ex_heap, 7), (next_free h1, 5)]"
    by auto
  from sll_reads_deleted_items [OF 2(3,2), of 2] 1(1) 2(1) show ?thesis by auto
qed

end
