(* ===== verification/HandleClass.thy ===== *)
theory HandleClass
  imports Prelude "HOL-Library.Word"
begin

text \<open>
  The counted pointers of \<open>include/common/HandleClass.h\<close>, which hold the buckets of the routing
  table. \<open>Object\<close> carries the counter, \<open>HandlePtr\<close> is a pointer (an address or \<open>NULL\<close>); the
  objects that exist are a map from addresses to counters, and touching an object that is deleted
  is undefined. The second half runs handles in any order and proves that none dangles.
\<close>

section \<open>Objects and handles\<close>

type_synonym hptr = "nat option"
type_synonym objects = "nat \<rightharpoonup> 32 word"

definition Object_count :: "32 word" where
  "Object_count = 0"

definition addReference :: "nat \<Rightarrow> objects \<Rightarrow> objects res" where
  "addReference a objs = (case objs a of None \<Rightarrow> Inl Undefined | Some refCount \<Rightarrow> Inr (objs(a \<mapsto> refCount + 1)))"

definition removeReference :: "nat \<Rightarrow> objects \<Rightarrow> objects res" where
  "removeReference a objs = (case objs a of None \<Rightarrow> Inl Undefined
     | Some refCount \<Rightarrow> let refCount' = refCount - 1 in
         Inr (if 0 = refCount' then objs(a := None) else objs(a \<mapsto> refCount')))"

definition handle_init :: "hptr \<Rightarrow> objects \<Rightarrow> objects res" where
  "handle_init pointee objs = (case pointee of None \<Rightarrow> Inr objs | Some a \<Rightarrow> addReference a objs)"

definition HandlePtr_new :: "hptr \<Rightarrow> objects \<Rightarrow> (hptr \<times> objects) res" where
  "HandlePtr_new realPtr objs = bind_res (handle_init realPtr objs) (\<lambda>objs'. Inr (realPtr, objs'))"

definition HandlePtr_copy :: "hptr \<Rightarrow> objects \<Rightarrow> (hptr \<times> objects) res" where
  "HandlePtr_copy rhs objs = bind_res (handle_init rhs objs) (\<lambda>objs'. Inr (rhs, objs'))"

definition HandlePtr_destroy :: "hptr \<Rightarrow> objects \<Rightarrow> objects res" where
  "HandlePtr_destroy pointee objs = (case pointee of None \<Rightarrow> Inr objs | Some a \<Rightarrow> removeReference a objs)"

definition HandlePtr_assign :: "hptr \<Rightarrow> hptr \<Rightarrow> objects \<Rightarrow> (hptr \<times> objects) res" where
  "HandlePtr_assign pointee rhs objs =
     (if pointee \<noteq> rhs
      then bind_res (case pointee of None \<Rightarrow> Inr objs | Some a \<Rightarrow> removeReference a objs) (\<lambda>objs1.
             bind_res (handle_init rhs objs1) (\<lambda>objs2. Inr (rhs, objs2)))
      else Inr (pointee, objs))"

definition HandlePtr_clear :: "hptr \<Rightarrow> objects \<Rightarrow> (hptr \<times> objects) res" where
  "HandlePtr_clear pointee objs =
     bind_res (HandlePtr_new None objs) (\<lambda>(tmp, objs1).
     bind_res (HandlePtr_assign pointee tmp objs1) (\<lambda>(pointee', objs2).
     bind_res (HandlePtr_destroy tmp objs2) (\<lambda>objs3. Inr (pointee', objs3))))"

definition HandlePtr_eq :: "hptr \<Rightarrow> hptr \<Rightarrow> bool" where
  "HandlePtr_eq pointer other \<longleftrightarrow> pointer = other"

definition HandlePtr_ne :: "hptr \<Rightarrow> hptr \<Rightarrow> bool" where
  "HandlePtr_ne pointer other \<longleftrightarrow> pointer \<noteq> other"

definition HandlePtr_deref :: "hptr \<Rightarrow> objects \<Rightarrow> nat res" where
  "HandlePtr_deref pointee objs =
     (case pointee of None \<Rightarrow> Inl Undefined
      | Some a \<Rightarrow> if objs a = None then Inl Undefined else Inr a)"

section \<open>Programs that use handles\<close>

text \<open>
  A state holds the objects and the handles in use, each under a name of its own. A program makes
  objects, makes handles on objects that exist, copies, assigns, clears and destroys handles.
\<close>

type_synonym hstate = "objects \<times> (nat \<rightharpoonup> hptr)"

inductive handle_step :: "hstate \<Rightarrow> hstate \<Rightarrow> bool" where
  object: "objs a = None \<Longrightarrow> handle_step (objs, hs) (objs(a \<mapsto> Object_count), hs)"
| construct: "hs x = None \<Longrightarrow> card (dom hs) + 1 < 2 ^ 32 \<Longrightarrow> (\<And>a. p = Some a \<Longrightarrow> objs a \<noteq> None) \<Longrightarrow>
    HandlePtr_new p objs = Inr (q, objs') \<Longrightarrow> handle_step (objs, hs) (objs', hs(x \<mapsto> q))"
| copied: "hs x = None \<Longrightarrow> card (dom hs) + 1 < 2 ^ 32 \<Longrightarrow> hs y = Some p \<Longrightarrow>
    HandlePtr_copy p objs = Inr (q, objs') \<Longrightarrow> handle_step (objs, hs) (objs', hs(x \<mapsto> q))"
| assigned: "hs x = Some p \<Longrightarrow> hs y = Some r \<Longrightarrow> HandlePtr_assign p r objs = Inr (q, objs') \<Longrightarrow>
    handle_step (objs, hs) (objs', hs(x \<mapsto> q))"
| cleared: "hs x = Some p \<Longrightarrow> HandlePtr_clear p objs = Inr (q, objs') \<Longrightarrow>
    handle_step (objs, hs) (objs', hs(x \<mapsto> q))"
| destroyed: "hs x = Some p \<Longrightarrow> HandlePtr_destroy p objs = Inr objs' \<Longrightarrow>
    handle_step (objs, hs) (objs', hs(x := None))"

inductive handle_reachable :: "hstate \<Rightarrow> bool" where
  empty: "handle_reachable (Map.empty, Map.empty)"
| step: "handle_reachable s \<Longrightarrow> handle_step s s' \<Longrightarrow> handle_reachable s'"

definition holders :: "(nat \<rightharpoonup> hptr) \<Rightarrow> nat \<Rightarrow> nat set" where
  "holders hs a = {x. hs x = Some (Some a)}"

definition counts_ok :: "hstate \<Rightarrow> bool" where
  "counts_ok s \<longleftrightarrow> (case s of (objs, hs) \<Rightarrow> finite (dom hs) \<and> card (dom hs) < 2 ^ 32 \<and>
     (\<forall>a. holders hs a \<noteq> {} \<longrightarrow> objs a \<noteq> None) \<and>
     (\<forall>a n. objs a = Some n \<longrightarrow> unat n = card (holders hs a)))"

lemma holders_subset: "holders hs a \<subseteq> dom hs"
  by (auto simp: holders_def)

lemma holders_upd:
  "hs x = None \<Longrightarrow> holders (hs(x \<mapsto> q)) a = (if q = Some a then insert x (holders hs a) else holders hs a)"
  "hs x = Some p \<Longrightarrow> holders (hs(x := None)) a = holders hs a - (if p = Some a then {x} else {})"
  "hs x = Some p \<Longrightarrow> p \<noteq> q \<Longrightarrow> holders (hs(x \<mapsto> q)) a =
    (if q = Some a then insert x (holders hs a) else holders hs a - (if p = Some a then {x} else {}))"
  by (auto simp: holders_def)

text \<open>Adding a holder of an object adds one to its counter, taking one away subtracts one.\<close>

lemma holders_card_le:
  assumes "counts_ok (objs, hs)"
  shows "finite (holders hs a)" "card (holders hs a) \<le> card (dom hs)"
proof -
  have "finite (dom hs)" using assms by (simp add: counts_ok_def)
  with holders_subset [of hs a] show "finite (holders hs a)" "card (holders hs a) \<le> card (dom hs)"
    by (auto intro: finite_subset card_mono)
qed

lemma counts_ok_card_upd:
  assumes "counts_ok (objs, hs)"
  shows "hs x = None \<Longrightarrow> finite (dom (hs(x \<mapsto> q))) \<and> card (dom (hs(x \<mapsto> q))) = card (dom hs) + 1"
    "hs x = Some p \<Longrightarrow> finite (dom (hs(x := None))) \<and> card (dom (hs(x := None))) + 1 = card (dom hs)"
proof -
  have fin: "finite (dom hs)" using assms by (simp add: counts_ok_def)
  show "finite (dom (hs(x \<mapsto> q))) \<and> card (dom (hs(x \<mapsto> q))) = card (dom hs) + 1" if "hs x = None"
    using fin that by (simp add: domIff)
  show "finite (dom (hs(x := None))) \<and> card (dom (hs(x := None))) + 1 = card (dom hs)" if "hs x = Some p"
    using fin that card_Suc_Diff1 [of "dom hs" x] by (simp add: domI)
qed

lemma attach:
  assumes ok: "counts_ok (objs, hs)" and new: "hs x = None" and room: "card (dom hs) + 1 < 2 ^ 32"
    and live: "\<And>a. p = Some a \<Longrightarrow> objs a \<noteq> None"
  shows "\<exists>objs'. handle_init p objs = Inr objs' \<and> counts_ok (objs', hs(x \<mapsto> p)) \<and> dom objs' = dom objs"
proof (cases p)
  case None
  with ok new counts_ok_card_upd(1) [OF ok, of x None, OF new] room show ?thesis
    by (auto simp: handle_init_def counts_ok_def holders_upd(1) [of hs x, OF new])
next
  case (Some a)
  with live obtain n where n: "objs a = Some n" by auto
  have card: "unat n = card (holders hs a)" using ok n by (simp add: counts_ok_def)
  have x: "x \<notin> holders hs a" using new by (simp add: holders_def)
  have "unat n + 1 < 2 ^ 32" using card holders_card_le [OF ok, of a] room by simp
  then have "unat (n + 1) = Suc (unat n)" by (simp add: unat_word_ariths)
  then have "unat (n + 1) = card (holders (hs(x \<mapsto> p)) a)"
    using card x holders_card_le [OF ok, of a] Some by (simp add: holders_upd(1) [of hs x, OF new])
  moreover have "holders (hs(x \<mapsto> p)) b = holders hs b" if "b \<noteq> a" for b
    using that Some by (simp add: holders_upd(1) [of hs x, OF new])
  ultimately have "counts_ok (objs(a \<mapsto> n + 1), hs(x \<mapsto> p))"
    using ok counts_ok_card_upd(1) [OF ok, of x p, OF new] room unfolding counts_ok_def by auto
  with n Some show ?thesis by (auto simp: handle_init_def addReference_def)
qed

lemma release:
  assumes ok: "counts_ok (objs, hs)" and x: "hs x = Some p"
  shows "\<exists>objs'. HandlePtr_destroy p objs = Inr objs' \<and> counts_ok (objs', hs(x := None)) \<and>
    (\<forall>a. p = Some a \<longrightarrow> (objs' a = None \<longleftrightarrow> holders (hs(x := None)) a = {})) \<and>
    (\<forall>a. p \<noteq> Some a \<longrightarrow> objs' a = objs a)"
proof (cases p)
  case None
  with ok x counts_ok_card_upd(2) [OF ok, of x, OF x] show ?thesis
    by (auto simp: HandlePtr_destroy_def counts_ok_def holders_upd(2) [of hs x, OF x])
next
  case (Some a)
  have "holders hs a \<noteq> {}" using x Some by (auto simp: holders_def)
  then obtain n where n: "objs a = Some n" using ok by (auto simp: counts_ok_def)
  have card: "unat n = card (holders hs a)" using ok n by (simp add: counts_ok_def)
  have fin: "finite (holders hs a)" by (rule holders_card_le [OF ok])
  have mem: "x \<in> holders hs a" using x Some by (simp add: holders_def)
  have left: "holders (hs(x := None)) a = holders hs a - {x}" using Some by (simp add: holders_upd(2) [of hs x, OF x])
  have "Suc (card (holders hs a - {x})) = card (holders hs a)" by (rule card_Suc_Diff1 [OF fin mem])
  then have n1: "unat (n - 1) = card (holders hs a - {x})"
    using card by (simp add: unat_sub_if')
  have zero: "0 = n - 1 \<longleftrightarrow> holders hs a - {x} = {}"
  proof -
    have "0 = n - 1 \<longleftrightarrow> unat (n - 1) = 0" by (auto simp: unat_eq_0)
    then show ?thesis unfolding n1 using fin by simp
  qed
  have other: "holders (hs(x := None)) b = holders hs b" if "b \<noteq> a" for b
    using that Some by (simp add: holders_upd(2) [of hs x, OF x])
  let ?objs' = "if 0 = n - 1 then objs(a := None) else objs(a \<mapsto> n - 1)"
  have "counts_ok (?objs', hs(x := None))"
    using ok counts_ok_card_upd(2) [OF ok, of x, OF x] left other n1 zero unfolding counts_ok_def by (auto split: if_splits)
  moreover have "HandlePtr_destroy p objs = Inr ?objs'"
    using n Some by (simp add: HandlePtr_destroy_def removeReference_def)
  ultimately show ?thesis using Some left zero by auto
qed

lemma assign_ok:
  assumes ok: "counts_ok (objs, hs)" and x: "hs x = Some p"
    and live: "\<And>a. r = Some a \<Longrightarrow> r \<noteq> p \<Longrightarrow> holders (hs(x := None)) a \<noteq> {}"
  shows "\<exists>objs'. HandlePtr_assign p r objs = Inr (r, objs') \<and> counts_ok (objs', hs(x \<mapsto> r))"
proof (cases "p = r")
  case True
  then have "hs(x \<mapsto> r) = hs" using x by auto
  with True ok show ?thesis by (simp add: HandlePtr_assign_def)
next
  case False
  let ?hs = "hs(x := None)"
  from release [of objs hs x p, OF ok x] obtain objs1 where
    rel: "HandlePtr_destroy p objs = Inr objs1" "counts_ok (objs1, ?hs)" by blast
  have "card (dom ?hs) + 1 < 2 ^ 32"
    using counts_ok_card_upd(2) [OF ok, of x p, OF x] ok by (simp add: counts_ok_def)
  moreover have "objs1 a \<noteq> None" if "r = Some a" for a
    using live [OF that] False rel(2) by (simp add: counts_ok_def)
  ultimately obtain objs2 where "handle_init r objs1 = Inr objs2" "counts_ok (objs2, ?hs(x \<mapsto> r))"
    using attach [of objs1 ?hs x r, OF rel(2)] by auto
  with rel(1) False show ?thesis by (simp add: HandlePtr_assign_def HandlePtr_destroy_def)
qed

lemma other_holder:
  assumes "hs x = Some p" "hs y = Some r" "r = Some a" "r \<noteq> p"
  shows "holders (hs(x := None)) a \<noteq> {}"
proof -
  have "y \<noteq> x" using assms by auto
  then have "y \<in> holders (hs(x := None)) a" using assms by (simp add: holders_def)
  then show ?thesis by blast
qed

lemma clear_eq: "HandlePtr_clear p objs = HandlePtr_assign p None objs"
  by (cases "HandlePtr_assign p None objs")
    (auto simp: HandlePtr_clear_def HandlePtr_new_def handle_init_def HandlePtr_destroy_def)

lemma handle_step_ok: "handle_step s s' \<Longrightarrow> counts_ok s \<Longrightarrow> counts_ok s'"
proof (induction rule: handle_step.induct)
  case (object objs a hs)
  then have "holders hs a = {}" by (auto simp: counts_ok_def)
  with object show ?case by (auto simp: counts_ok_def Object_count_def)
next
  case (construct hs x p objs q objs')
  then show ?case using attach [of objs hs x p] by (auto simp: HandlePtr_new_def)
next
  case (copied hs x y p objs q objs')
  have "objs a \<noteq> None" if "p = Some a" for a
    using copied.prems copied.hyps(3) that by (auto simp: counts_ok_def holders_def)
  with copied show ?case using attach [of objs hs x p] by (auto simp: HandlePtr_copy_def)
next
  case (assigned hs x p y r objs q objs')
  have "holders (hs(x := None)) a \<noteq> {}" if "r = Some a" "r \<noteq> p" for a
    by (rule other_holder [OF assigned.hyps(1,2) that])
  with assign_ok [of objs hs x p r] assigned show ?case by auto
next
  case (cleared hs x p objs q objs')
  with assign_ok [of objs hs x p None] show ?case by (auto simp: clear_eq)
next
  case (destroyed hs x p objs objs')
  then show ?case using release [of objs hs x p] by auto
qed

lemma handle_reachable_ok: "handle_reachable s \<Longrightarrow> counts_ok s"
proof (induction rule: handle_reachable.induct)
  case empty
  show ?case by (simp add: counts_ok_def holders_def)
next
  case (step s s')
  then show ?case by (blast intro: handle_step_ok)
qed

text \<open>
  C33: counted pointers do not dangle. In every reachable state the object a handle points at
  exists and its counter is the number of the handles that point at it; destroying the handle is
  defined and deletes the object exactly when no other handle points at it; assigning it another
  handle is defined.
\<close>

theorem handles_never_dangle:
  assumes "handle_reachable (objs, hs)" "hs x = Some (Some a)" "hs y = Some r"
  shows "HandlePtr_deref (Some a) objs = Inr a \<and>
    objs a = Some (of_nat (card {z. hs z = Some (Some a)})) \<and>
    (\<exists>objs'. HandlePtr_destroy (Some a) objs = Inr objs' \<and>
      (objs' a = None \<longleftrightarrow> {z. z \<noteq> x \<and> hs z = Some (Some a)} = {})) \<and>
    (\<exists>objs'. HandlePtr_assign (Some a) r objs = Inr (r, objs'))"
proof -
  have ok: "counts_ok (objs, hs)" using handle_reachable_ok assms(1) by blast
  have "holders hs a \<noteq> {}" using assms(2) by (auto simp: holders_def)
  with ok obtain n where n: "objs a = Some n" "unat n = card (holders hs a)" by (auto simp: counts_ok_def)
  have count: "objs a = Some (of_nat (card {z. hs z = Some (Some a)}))"
    using n unfolding holders_def by (simp flip: n(2) [unfolded holders_def])
  have others: "holders (hs(x := None)) a = {z. z \<noteq> x \<and> hs z = Some (Some a)}" by (auto simp: holders_def)
  obtain objs1 where destroy: "HandlePtr_destroy (Some a) objs = Inr objs1"
    "objs1 a = None \<longleftrightarrow> {z. z \<noteq> x \<and> hs z = Some (Some a)} = {}"
    using release [of objs hs x "Some a", OF ok assms(2)] unfolding others [symmetric] by blast
  have "holders (hs(x := None)) b \<noteq> {}" if "r = Some b" "r \<noteq> Some a" for b
    by (rule other_holder [OF assms(2,3) that])
  from assign_ok [of objs hs x "Some a" r, OF ok assms(2) this]
  have assign: "\<exists>objs'. HandlePtr_assign (Some a) r objs = Inr (r, objs')" by blast
  have deref: "HandlePtr_deref (Some a) objs = Inr a" using n(1) by (simp add: HandlePtr_deref_def)
  show ?thesis by (intro conjI exI [of _ objs1] deref count destroy assign)
qed

theorem handles_never_dangle_witness:
  "\<exists>objs hs. handle_reachable (objs, hs) \<and> objs 7 = Some 2 \<and>
    (\<exists>objs'. HandlePtr_destroy (Some 7) objs = Inr objs' \<and> objs' 7 \<noteq> None)"
proof -
  let ?o1 = "Map.empty(7 \<mapsto> Object_count)"
  let ?o2 = "?o1(7 \<mapsto> 1)" and ?h2 = "Map.empty(0 \<mapsto> Some 7) :: nat \<rightharpoonup> hptr"
  let ?o3 = "?o2(7 \<mapsto> 2)" and ?h3 = "?h2(Suc 0 \<mapsto> Some 7)"
  have s1: "handle_step (Map.empty, Map.empty) (?o1, Map.empty)" by (rule handle_step.object) simp
  have s2: "handle_step (?o1, Map.empty) (?o2, ?h2)"
    by (rule handle_step.construct [where p = "Some 7"])
      (simp_all add: HandlePtr_new_def handle_init_def addReference_def Object_count_def)
  have s3: "handle_step (?o2, ?h2) (?o3, ?h3)"
    by (rule handle_step.copied [where p = "Some 7" and y = 0])
      (simp_all add: HandlePtr_copy_def handle_init_def addReference_def)
  have r: "handle_reachable (?o3, ?h3)"
    by (rule handle_reachable.step [OF _ s3], rule handle_reachable.step [OF _ s2],
        rule handle_reachable.step [OF _ s1], rule handle_reachable.empty)
  have "?h3 0 = Some (Some 7)" by simp
  from handles_never_dangle [OF r this this] have "\<exists>objs'. HandlePtr_destroy (Some 7) ?o3 = Inr objs' \<and>
      (objs' 7 = None \<longleftrightarrow> {z. z \<noteq> 0 \<and> ?h3 z = Some (Some 7)} = {})" by (elim conjE)
  then obtain objs' where
    d: "HandlePtr_destroy (Some 7) ?o3 = Inr objs'" "objs' 7 = None \<longleftrightarrow> {z. z \<noteq> 0 \<and> ?h3 z = Some (Some 7)} = {}"
    by (elim exE conjE)
  have "Suc 0 \<in> {z. z \<noteq> 0 \<and> ?h3 z = Some (Some 7)}" by simp
  with d(2) have "objs' 7 \<noteq> None" by blast
  with d(1) have "\<exists>objs'. HandlePtr_destroy (Some 7) ?o3 = Inr objs' \<and> objs' 7 \<noteq> None" by blast
  moreover have "?o3 7 = Some 2" by simp
  ultimately show ?thesis using r by blast
qed

end
