(* ===== verification/KadMessages.thy ===== *)
theory KadMessages
  imports ContactInfo "HOL-Library.Word"
begin

text \<open>
  The messages of the Kademlia service as the classes Thrift generates hold, write and read them
  (\<open>kademlia_service_messages_types\<close>, \<open>signed_kadvalue_types\<close>, \<open>contact_info_types\<close> under
  \<open>src/src/thrift/gen-cpp\<close>). The names of the members carry a prefix of their class; \<open>__isset\<close> is
  the set of the ids of the fields whose flag is set. The protocol is a tree: a struct is the list
  of its fields, each with its id and a value that knows its type, as \<open>writeFieldBegin\<close> and the
  calls after it give them. \<open>X_field\<close> is the body of the loop of \<open>X::read\<close>: a field whose id and
  type are known is read into the object, any other is skipped. \<open>X_eq\<close> is \<open>operator ==\<close>.
\<close>

datatype tvalue =
    V_String string
  | V_Bool bool
  | V_I32 "32 word"
  | V_Struct "(nat \<times> tvalue) list"
  | V_List "tvalue list"

type_synonym tfield = "nat \<times> tvalue"

type_synonym i32 = "32 word"

text \<open>The loop of \<open>read\<close> up to \<open>T_STOP\<close>.\<close>

definition read_fields :: "(nat \<Rightarrow> tvalue \<Rightarrow> 'm \<Rightarrow> 'm res) \<Rightarrow> tfield list \<Rightarrow> 'm \<Rightarrow> 'm res" where
  "read_fields field fs m = fold_res (\<lambda>m (fid, v). field fid v m) m fs"

text \<open>
  A list is cleared, resized and its elements are read one by one; the type of the elements is not
  looked at, so that elements of another type are read as bytes that mean something else.
\<close>

fun read_list :: "(tvalue \<Rightarrow> 'x res) \<Rightarrow> tvalue list \<Rightarrow> 'x list res" where
  "read_list f [] = Inr []"
| "read_list f (v # vs) = bind_res (f v) (\<lambda>x. bind_res (read_list f vs) (\<lambda>xs. Inr (x # xs)))"

fun read_string :: "tvalue \<Rightarrow> string res" where
  "read_string (V_String s) = Inr s"
| "read_string _ = Inl Undefined"

fun read_struct :: "(tfield list \<Rightarrow> 'm \<Rightarrow> 'm res) \<Rightarrow> 'm \<Rightarrow> tvalue \<Rightarrow> 'm res" where
  "read_struct read new (V_Struct fs) = read fs new"
| "read_struct read new _ = Inl Undefined"

section \<open>Contacts\<close>

definition ContactInfo_write :: "contact_info \<Rightarrow> tfield list" where
  "ContactInfo_write m =
     [(1, V_String (ci_node_id m)), (2, V_String (ci_ip m)), (3, V_I32 (ci_port m))] @
     (if 4 \<in> ci_isset m then [(4, V_String (ci_local_ip m))] else []) @
     (if 5 \<in> ci_isset m then [(5, V_I32 (ci_local_port m))] else []) @
     (if 6 \<in> ci_isset m then [(6, V_String (ci_rendezvous_ip m))] else []) @
     (if 7 \<in> ci_isset m then [(7, V_I32 (ci_rendezvous_port m))] else [])"

definition ContactInfo_field :: "nat \<Rightarrow> tvalue \<Rightarrow> contact_info \<Rightarrow> contact_info res" where
  "ContactInfo_field fid v m =
     (if fid = 1 then (case v of V_String s \<Rightarrow> Inr (m\<lparr>ci_node_id := s, ci_isset := insert 1 (ci_isset m)\<rparr>) | _ \<Rightarrow> Inr m)
     else if fid = 2 then (case v of V_String s \<Rightarrow> Inr (m\<lparr>ci_ip := s, ci_isset := insert 2 (ci_isset m)\<rparr>) | _ \<Rightarrow> Inr m)
     else if fid = 3 then (case v of V_I32 n \<Rightarrow> Inr (m\<lparr>ci_port := n, ci_isset := insert 3 (ci_isset m)\<rparr>) | _ \<Rightarrow> Inr m)
     else if fid = 4 then (case v of V_String s \<Rightarrow> Inr (m\<lparr>ci_local_ip := s, ci_isset := insert 4 (ci_isset m)\<rparr>) | _ \<Rightarrow> Inr m)
     else if fid = 5 then (case v of V_I32 n \<Rightarrow> Inr (m\<lparr>ci_local_port := n, ci_isset := insert 5 (ci_isset m)\<rparr>) | _ \<Rightarrow> Inr m)
     else if fid = 6 then (case v of V_String s \<Rightarrow> Inr (m\<lparr>ci_rendezvous_ip := s, ci_isset := insert 6 (ci_isset m)\<rparr>) | _ \<Rightarrow> Inr m)
     else if fid = 7 then (case v of V_I32 n \<Rightarrow> Inr (m\<lparr>ci_rendezvous_port := n, ci_isset := insert 7 (ci_isset m)\<rparr>) | _ \<Rightarrow> Inr m)
     else Inr m)"

definition ContactInfo_read :: "tfield list \<Rightarrow> contact_info \<Rightarrow> contact_info res" where
  "ContactInfo_read = read_fields ContactInfo_field"

definition ContactInfo_eq :: "contact_info \<Rightarrow> contact_info \<Rightarrow> bool" where
  "ContactInfo_eq m rhs \<longleftrightarrow>
     ci_node_id m = ci_node_id rhs \<and>
     ci_ip m = ci_ip rhs \<and>
     ci_port m = ci_port rhs \<and>
     (4 \<in> ci_isset m \<longleftrightarrow> 4 \<in> ci_isset rhs) \<and> (4 \<in> ci_isset m \<longrightarrow> ci_local_ip m = ci_local_ip rhs) \<and>
     (5 \<in> ci_isset m \<longleftrightarrow> 5 \<in> ci_isset rhs) \<and> (5 \<in> ci_isset m \<longrightarrow> ci_local_port m = ci_local_port rhs) \<and>
     (6 \<in> ci_isset m \<longleftrightarrow> 6 \<in> ci_isset rhs) \<and> (6 \<in> ci_isset m \<longrightarrow> ci_rendezvous_ip m = ci_rendezvous_ip rhs) \<and>
     (7 \<in> ci_isset m \<longleftrightarrow> 7 \<in> ci_isset rhs) \<and> (7 \<in> ci_isset m \<longrightarrow> ci_rendezvous_port m = ci_rendezvous_port rhs)"

section \<open>Signed values and requests\<close>

record signed_value =
  sv_value :: string
  sv_value_signature :: string
  sv_isset :: "nat set"

definition SignedValue_new :: signed_value where
  "SignedValue_new = \<lparr>sv_value = [], sv_value_signature = [], sv_isset = {}\<rparr>"

definition SignedValue_write :: "signed_value \<Rightarrow> tfield list" where
  "SignedValue_write m =
     [(1, V_String (sv_value m)), (2, V_String (sv_value_signature m))]"

definition SignedValue_field :: "nat \<Rightarrow> tvalue \<Rightarrow> signed_value \<Rightarrow> signed_value res" where
  "SignedValue_field fid v m =
     (if fid = 1 then (case v of V_String s \<Rightarrow> Inr (m\<lparr>sv_value := s, sv_isset := insert 1 (sv_isset m)\<rparr>) | _ \<Rightarrow> Inr m)
     else if fid = 2 then (case v of V_String s \<Rightarrow> Inr (m\<lparr>sv_value_signature := s, sv_isset := insert 2 (sv_isset m)\<rparr>) | _ \<Rightarrow> Inr m)
     else Inr m)"

definition SignedValue_read :: "tfield list \<Rightarrow> signed_value \<Rightarrow> signed_value res" where
  "SignedValue_read = read_fields SignedValue_field"

definition SignedValue_eq :: "signed_value \<Rightarrow> signed_value \<Rightarrow> bool" where
  "SignedValue_eq m rhs \<longleftrightarrow>
     sv_value m = sv_value rhs \<and>
     sv_value_signature m = sv_value_signature rhs"

record signed_request =
  sr_signer_id :: string
  sr_public_key :: string
  sr_signed_public_key :: string
  sr_signed_request :: string
  sr_isset :: "nat set"

definition SignedRequest_new :: signed_request where
  "SignedRequest_new = \<lparr>sr_signer_id = [], sr_public_key = [], sr_signed_public_key = [], sr_signed_request = [],
     sr_isset = {}\<rparr>"

definition SignedRequest_write :: "signed_request \<Rightarrow> tfield list" where
  "SignedRequest_write m =
     [(1, V_String (sr_signer_id m)),
      (2, V_String (sr_public_key m)),
      (3, V_String (sr_signed_public_key m)),
      (4, V_String (sr_signed_request m))]"

definition SignedRequest_field :: "nat \<Rightarrow> tvalue \<Rightarrow> signed_request \<Rightarrow> signed_request res" where
  "SignedRequest_field fid v m =
     (if fid = 1 then (case v of V_String s \<Rightarrow> Inr (m\<lparr>sr_signer_id := s, sr_isset := insert 1 (sr_isset m)\<rparr>) | _ \<Rightarrow> Inr m)
     else if fid = 2 then (case v of V_String s \<Rightarrow> Inr (m\<lparr>sr_public_key := s, sr_isset := insert 2 (sr_isset m)\<rparr>) | _ \<Rightarrow> Inr m)
     else if fid = 3 then (case v of V_String s \<Rightarrow> Inr (m\<lparr>sr_signed_public_key := s, sr_isset := insert 3 (sr_isset m)\<rparr>) | _ \<Rightarrow> Inr m)
     else if fid = 4 then (case v of V_String s \<Rightarrow> Inr (m\<lparr>sr_signed_request := s, sr_isset := insert 4 (sr_isset m)\<rparr>) | _ \<Rightarrow> Inr m)
     else Inr m)"

definition SignedRequest_read :: "tfield list \<Rightarrow> signed_request \<Rightarrow> signed_request res" where
  "SignedRequest_read = read_fields SignedRequest_field"

definition SignedRequest_eq :: "signed_request \<Rightarrow> signed_request \<Rightarrow> bool" where
  "SignedRequest_eq m rhs \<longleftrightarrow>
     sr_signer_id m = sr_signer_id rhs \<and>
     sr_public_key m = sr_public_key rhs \<and>
     sr_signed_public_key m = sr_signed_public_key rhs \<and>
     sr_signed_request m = sr_signed_request rhs"

section \<open>Ping\<close>

record ping_request =
  pq_ping :: string
  pq_sender_info :: contact_info
  pq_isset :: "nat set"

definition PingRequest_new :: ping_request where
  "PingRequest_new = \<lparr>pq_ping = [], pq_sender_info = ContactInfo_new, pq_isset = {}\<rparr>"

definition PingRequest_write :: "ping_request \<Rightarrow> tfield list" where
  "PingRequest_write m =
     [(1, V_String (pq_ping m)), (2, V_Struct (ContactInfo_write (pq_sender_info m)))]"

definition PingRequest_field :: "nat \<Rightarrow> tvalue \<Rightarrow> ping_request \<Rightarrow> ping_request res" where
  "PingRequest_field fid v m =
     (if fid = 1 then (case v of V_String s \<Rightarrow> Inr (m\<lparr>pq_ping := s, pq_isset := insert 1 (pq_isset m)\<rparr>) | _ \<Rightarrow> Inr m)
     else if fid = 2 then (case v of V_Struct fs \<Rightarrow> bind_res (ContactInfo_read fs (pq_sender_info m)) (\<lambda>x.
          Inr (m\<lparr>pq_sender_info := x, pq_isset := insert 2 (pq_isset m)\<rparr>)) | _ \<Rightarrow> Inr m)
     else Inr m)"

definition PingRequest_read :: "tfield list \<Rightarrow> ping_request \<Rightarrow> ping_request res" where
  "PingRequest_read = read_fields PingRequest_field"

definition PingRequest_eq :: "ping_request \<Rightarrow> ping_request \<Rightarrow> bool" where
  "PingRequest_eq m rhs \<longleftrightarrow>
     pq_ping m = pq_ping rhs \<and>
     ContactInfo_eq (pq_sender_info m) (pq_sender_info rhs)"

record ping_response =
  pr_result :: string
  pr_echo :: string
  pr_node_id :: string
  pr_isset :: "nat set"

definition PingResponse_new :: ping_response where
  "PingResponse_new = \<lparr>pr_result = [], pr_echo = [], pr_node_id = [], pr_isset = {}\<rparr>"

definition PingResponse_write :: "ping_response \<Rightarrow> tfield list" where
  "PingResponse_write m =
     [(1, V_String (pr_result m))] @
     (if 2 \<in> pr_isset m then [(2, V_String (pr_echo m))] else []) @
     (if 3 \<in> pr_isset m then [(3, V_String (pr_node_id m))] else [])"

definition PingResponse_field :: "nat \<Rightarrow> tvalue \<Rightarrow> ping_response \<Rightarrow> ping_response res" where
  "PingResponse_field fid v m =
     (if fid = 1 then (case v of V_String s \<Rightarrow> Inr (m\<lparr>pr_result := s, pr_isset := insert 1 (pr_isset m)\<rparr>) | _ \<Rightarrow> Inr m)
     else if fid = 2 then (case v of V_String s \<Rightarrow> Inr (m\<lparr>pr_echo := s, pr_isset := insert 2 (pr_isset m)\<rparr>) | _ \<Rightarrow> Inr m)
     else if fid = 3 then (case v of V_String s \<Rightarrow> Inr (m\<lparr>pr_node_id := s, pr_isset := insert 3 (pr_isset m)\<rparr>) | _ \<Rightarrow> Inr m)
     else Inr m)"

definition PingResponse_read :: "tfield list \<Rightarrow> ping_response \<Rightarrow> ping_response res" where
  "PingResponse_read = read_fields PingResponse_field"

definition PingResponse_eq :: "ping_response \<Rightarrow> ping_response \<Rightarrow> bool" where
  "PingResponse_eq m rhs \<longleftrightarrow>
     pr_result m = pr_result rhs \<and>
     (2 \<in> pr_isset m \<longleftrightarrow> 2 \<in> pr_isset rhs) \<and> (2 \<in> pr_isset m \<longrightarrow> pr_echo m = pr_echo rhs) \<and>
     (3 \<in> pr_isset m \<longleftrightarrow> 3 \<in> pr_isset rhs) \<and> (3 \<in> pr_isset m \<longrightarrow> pr_node_id m = pr_node_id rhs)"

section \<open>Find\<close>

record find_request =
  fq_key :: string
  fq_sender_info :: contact_info
  fq_is_boostrap :: bool
  fq_sender_ext_ip :: string
  fq_sender_ext_port :: i32
  fq_isset :: "nat set"

definition FindRequest_new :: find_request where
  "FindRequest_new = \<lparr>fq_key = [], fq_sender_info = ContactInfo_new, fq_is_boostrap = False, fq_sender_ext_ip = [],
     fq_sender_ext_port = 0, fq_isset = {}\<rparr>"

definition FindRequest_write :: "find_request \<Rightarrow> tfield list" where
  "FindRequest_write m =
     [(1, V_String (fq_key m)), (2, V_Struct (ContactInfo_write (fq_sender_info m)))] @
     (if 3 \<in> fq_isset m then [(3, V_Bool (fq_is_boostrap m))] else []) @
     (if 4 \<in> fq_isset m then [(4, V_String (fq_sender_ext_ip m))] else []) @
     (if 5 \<in> fq_isset m then [(5, V_I32 (fq_sender_ext_port m))] else [])"

definition FindRequest_field :: "nat \<Rightarrow> tvalue \<Rightarrow> find_request \<Rightarrow> find_request res" where
  "FindRequest_field fid v m =
     (if fid = 1 then (case v of V_String s \<Rightarrow> Inr (m\<lparr>fq_key := s, fq_isset := insert 1 (fq_isset m)\<rparr>) | _ \<Rightarrow> Inr m)
     else if fid = 2 then (case v of V_Struct fs \<Rightarrow> bind_res (ContactInfo_read fs (fq_sender_info m)) (\<lambda>x.
          Inr (m\<lparr>fq_sender_info := x, fq_isset := insert 2 (fq_isset m)\<rparr>)) | _ \<Rightarrow> Inr m)
     else if fid = 3 then (case v of V_Bool b \<Rightarrow> Inr (m\<lparr>fq_is_boostrap := b, fq_isset := insert 3 (fq_isset m)\<rparr>) | _ \<Rightarrow> Inr m)
     else if fid = 4 then (case v of V_String s \<Rightarrow> Inr (m\<lparr>fq_sender_ext_ip := s, fq_isset := insert 4 (fq_isset m)\<rparr>) | _ \<Rightarrow> Inr m)
     else if fid = 5 then (case v of V_I32 n \<Rightarrow> Inr (m\<lparr>fq_sender_ext_port := n, fq_isset := insert 5 (fq_isset m)\<rparr>) | _ \<Rightarrow> Inr m)
     else Inr m)"

definition FindRequest_read :: "tfield list \<Rightarrow> find_request \<Rightarrow> find_request res" where
  "FindRequest_read = read_fields FindRequest_field"

definition FindRequest_eq :: "find_request \<Rightarrow> find_request \<Rightarrow> bool" where
  "FindRequest_eq m rhs \<longleftrightarrow>
     fq_key m = fq_key rhs \<and>
     ContactInfo_eq (fq_sender_info m) (fq_sender_info rhs) \<and>
     (3 \<in> fq_isset m \<longleftrightarrow> 3 \<in> fq_isset rhs) \<and> (3 \<in> fq_isset m \<longrightarrow> fq_is_boostrap m = fq_is_boostrap rhs) \<and>
     (4 \<in> fq_isset m \<longleftrightarrow> 4 \<in> fq_isset rhs) \<and> (4 \<in> fq_isset m \<longrightarrow> fq_sender_ext_ip m = fq_sender_ext_ip rhs) \<and>
     (5 \<in> fq_isset m \<longleftrightarrow> 5 \<in> fq_isset rhs) \<and> (5 \<in> fq_isset m \<longrightarrow> fq_sender_ext_port m = fq_sender_ext_port rhs)"

record find_response =
  fr_result :: string
  fr_closest_nodes :: "contact_info list"
  fr_values :: "string list"
  fr_signed_values :: "signed_value list"
  fr_alternative_value_holder :: contact_info
  fr_needs_cache_copy :: string
  fr_requester_ext_addr :: string
  fr_node_id :: string
  fr_isset :: "nat set"

definition FindResponse_new :: find_response where
  "FindResponse_new = \<lparr>fr_result = [], fr_closest_nodes = [], fr_values = [], fr_signed_values = [],
     fr_alternative_value_holder = ContactInfo_new, fr_needs_cache_copy = [],
     fr_requester_ext_addr = [], fr_node_id = [], fr_isset = {}\<rparr>"

definition FindResponse_write :: "find_response \<Rightarrow> tfield list" where
  "FindResponse_write m =
     [(1, V_String (fr_result m)),
      (2, V_List (map (\<lambda>x. V_Struct (ContactInfo_write x)) (fr_closest_nodes m))),
      (3, V_List (map V_String (fr_values m))),
      (4, V_List (map (\<lambda>x. V_Struct (SignedValue_write x)) (fr_signed_values m)))] @
     (if 5 \<in> fr_isset m then [(5, V_Struct (ContactInfo_write (fr_alternative_value_holder m)))] else []) @
     (if 6 \<in> fr_isset m then [(6, V_String (fr_needs_cache_copy m))] else []) @
     (if 7 \<in> fr_isset m then [(7, V_String (fr_requester_ext_addr m))] else []) @
     (if 8 \<in> fr_isset m then [(8, V_String (fr_node_id m))] else [])"

definition FindResponse_field :: "nat \<Rightarrow> tvalue \<Rightarrow> find_response \<Rightarrow> find_response res" where
  "FindResponse_field fid v m =
     (if fid = 1 then (case v of V_String s \<Rightarrow> Inr (m\<lparr>fr_result := s, fr_isset := insert 1 (fr_isset m)\<rparr>) | _ \<Rightarrow> Inr m)
     else if fid = 2 then (case v of V_List vs \<Rightarrow> bind_res (read_list (read_struct ContactInfo_read ContactInfo_new) vs) (\<lambda>xs.
          Inr (m\<lparr>fr_closest_nodes := xs, fr_isset := insert 2 (fr_isset m)\<rparr>)) | _ \<Rightarrow> Inr m)
     else if fid = 3 then (case v of V_List vs \<Rightarrow> bind_res (read_list read_string vs) (\<lambda>xs.
          Inr (m\<lparr>fr_values := xs, fr_isset := insert 3 (fr_isset m)\<rparr>)) | _ \<Rightarrow> Inr m)
     else if fid = 4 then (case v of V_List vs \<Rightarrow> bind_res (read_list (read_struct SignedValue_read SignedValue_new) vs) (\<lambda>xs.
          Inr (m\<lparr>fr_signed_values := xs, fr_isset := insert 4 (fr_isset m)\<rparr>)) | _ \<Rightarrow> Inr m)
     else if fid = 5 then (case v of V_Struct fs \<Rightarrow> bind_res (ContactInfo_read fs (fr_alternative_value_holder m)) (\<lambda>x.
          Inr (m\<lparr>fr_alternative_value_holder := x, fr_isset := insert 5 (fr_isset m)\<rparr>)) | _ \<Rightarrow> Inr m)
     else if fid = 6 then (case v of V_String s \<Rightarrow> Inr (m\<lparr>fr_needs_cache_copy := s, fr_isset := insert 6 (fr_isset m)\<rparr>) | _ \<Rightarrow> Inr m)
     else if fid = 7 then (case v of V_String s \<Rightarrow> Inr (m\<lparr>fr_requester_ext_addr := s, fr_isset := insert 7 (fr_isset m)\<rparr>) | _ \<Rightarrow> Inr m)
     else if fid = 8 then (case v of V_String s \<Rightarrow> Inr (m\<lparr>fr_node_id := s, fr_isset := insert 8 (fr_isset m)\<rparr>) | _ \<Rightarrow> Inr m)
     else Inr m)"

definition FindResponse_read :: "tfield list \<Rightarrow> find_response \<Rightarrow> find_response res" where
  "FindResponse_read = read_fields FindResponse_field"

definition FindResponse_eq :: "find_response \<Rightarrow> find_response \<Rightarrow> bool" where
  "FindResponse_eq m rhs \<longleftrightarrow>
     fr_result m = fr_result rhs \<and>
     list_all2 ContactInfo_eq (fr_closest_nodes m) (fr_closest_nodes rhs) \<and>
     fr_values m = fr_values rhs \<and>
     list_all2 SignedValue_eq (fr_signed_values m) (fr_signed_values rhs) \<and>
     (5 \<in> fr_isset m \<longleftrightarrow> 5 \<in> fr_isset rhs) \<and> (5 \<in> fr_isset m \<longrightarrow> ContactInfo_eq (fr_alternative_value_holder m) (fr_alternative_value_holder rhs)) \<and>
     (6 \<in> fr_isset m \<longleftrightarrow> 6 \<in> fr_isset rhs) \<and> (6 \<in> fr_isset m \<longrightarrow> fr_needs_cache_copy m = fr_needs_cache_copy rhs) \<and>
     (7 \<in> fr_isset m \<longleftrightarrow> 7 \<in> fr_isset rhs) \<and> (7 \<in> fr_isset m \<longrightarrow> fr_requester_ext_addr m = fr_requester_ext_addr rhs) \<and>
     (8 \<in> fr_isset m \<longleftrightarrow> 8 \<in> fr_isset rhs) \<and> (8 \<in> fr_isset m \<longrightarrow> fr_node_id m = fr_node_id rhs)"

record find_node_result =
  fn_result :: string
  fn_contact :: string
  fn_node_id :: string
  fn_isset :: "nat set"

definition FindNodeResult_new :: find_node_result where
  "FindNodeResult_new = \<lparr>fn_result = [], fn_contact = [], fn_node_id = [], fn_isset = {}\<rparr>"

definition FindNodeResult_write :: "find_node_result \<Rightarrow> tfield list" where
  "FindNodeResult_write m =
     [(1, V_String (fn_result m))] @
     (if 2 \<in> fn_isset m then [(2, V_String (fn_contact m))] else []) @
     (if 3 \<in> fn_isset m then [(3, V_String (fn_node_id m))] else [])"

definition FindNodeResult_field :: "nat \<Rightarrow> tvalue \<Rightarrow> find_node_result \<Rightarrow> find_node_result res" where
  "FindNodeResult_field fid v m =
     (if fid = 1 then (case v of V_String s \<Rightarrow> Inr (m\<lparr>fn_result := s, fn_isset := insert 1 (fn_isset m)\<rparr>) | _ \<Rightarrow> Inr m)
     else if fid = 2 then (case v of V_String s \<Rightarrow> Inr (m\<lparr>fn_contact := s, fn_isset := insert 2 (fn_isset m)\<rparr>) | _ \<Rightarrow> Inr m)
     else if fid = 3 then (case v of V_String s \<Rightarrow> Inr (m\<lparr>fn_node_id := s, fn_isset := insert 3 (fn_isset m)\<rparr>) | _ \<Rightarrow> Inr m)
     else Inr m)"

definition FindNodeResult_read :: "tfield list \<Rightarrow> find_node_result \<Rightarrow> find_node_result res" where
  "FindNodeResult_read = read_fields FindNodeResult_field"

definition FindNodeResult_eq :: "find_node_result \<Rightarrow> find_node_result \<Rightarrow> bool" where
  "FindNodeResult_eq m rhs \<longleftrightarrow>
     fn_result m = fn_result rhs \<and>
     (2 \<in> fn_isset m \<longleftrightarrow> 2 \<in> fn_isset rhs) \<and> (2 \<in> fn_isset m \<longrightarrow> fn_contact m = fn_contact rhs) \<and>
     (3 \<in> fn_isset m \<longleftrightarrow> 3 \<in> fn_isset rhs) \<and> (3 \<in> fn_isset m \<longrightarrow> fn_node_id m = fn_node_id rhs)"

section \<open>Store\<close>

record store_request =
  tq_key :: string
  tq_value :: string
  tq_sig_value :: signed_value
  tq_ttl :: i32
  tq_sender_info :: contact_info
  tq_publish :: bool
  tq_signed_request :: signed_request
  tq_isset :: "nat set"

definition StoreRequest_new :: store_request where
  "StoreRequest_new = \<lparr>tq_key = [], tq_value = [], tq_sig_value = SignedValue_new, tq_ttl = 0,
     tq_sender_info = ContactInfo_new, tq_publish = False, tq_signed_request = SignedRequest_new,
     tq_isset = {}\<rparr>"

definition StoreRequest_write :: "store_request \<Rightarrow> tfield list" where
  "StoreRequest_write m =
     [(1, V_String (tq_key m))] @
     (if 2 \<in> tq_isset m then [(2, V_String (tq_value m))] else []) @
     (if 3 \<in> tq_isset m then [(3, V_Struct (SignedValue_write (tq_sig_value m)))] else []) @
     [(4, V_I32 (tq_ttl m)),
      (5, V_Struct (ContactInfo_write (tq_sender_info m))),
      (6, V_Bool (tq_publish m))] @
     (if 7 \<in> tq_isset m then [(7, V_Struct (SignedRequest_write (tq_signed_request m)))] else [])"

definition StoreRequest_field :: "nat \<Rightarrow> tvalue \<Rightarrow> store_request \<Rightarrow> store_request res" where
  "StoreRequest_field fid v m =
     (if fid = 1 then (case v of V_String s \<Rightarrow> Inr (m\<lparr>tq_key := s, tq_isset := insert 1 (tq_isset m)\<rparr>) | _ \<Rightarrow> Inr m)
     else if fid = 2 then (case v of V_String s \<Rightarrow> Inr (m\<lparr>tq_value := s, tq_isset := insert 2 (tq_isset m)\<rparr>) | _ \<Rightarrow> Inr m)
     else if fid = 3 then (case v of V_Struct fs \<Rightarrow> bind_res (SignedValue_read fs (tq_sig_value m)) (\<lambda>x.
          Inr (m\<lparr>tq_sig_value := x, tq_isset := insert 3 (tq_isset m)\<rparr>)) | _ \<Rightarrow> Inr m)
     else if fid = 4 then (case v of V_I32 n \<Rightarrow> Inr (m\<lparr>tq_ttl := n, tq_isset := insert 4 (tq_isset m)\<rparr>) | _ \<Rightarrow> Inr m)
     else if fid = 5 then (case v of V_Struct fs \<Rightarrow> bind_res (ContactInfo_read fs (tq_sender_info m)) (\<lambda>x.
          Inr (m\<lparr>tq_sender_info := x, tq_isset := insert 5 (tq_isset m)\<rparr>)) | _ \<Rightarrow> Inr m)
     else if fid = 6 then (case v of V_Bool b \<Rightarrow> Inr (m\<lparr>tq_publish := b, tq_isset := insert 6 (tq_isset m)\<rparr>) | _ \<Rightarrow> Inr m)
     else if fid = 7 then (case v of V_Struct fs \<Rightarrow> bind_res (SignedRequest_read fs (tq_signed_request m)) (\<lambda>x.
          Inr (m\<lparr>tq_signed_request := x, tq_isset := insert 7 (tq_isset m)\<rparr>)) | _ \<Rightarrow> Inr m)
     else Inr m)"

definition StoreRequest_read :: "tfield list \<Rightarrow> store_request \<Rightarrow> store_request res" where
  "StoreRequest_read = read_fields StoreRequest_field"

definition StoreRequest_eq :: "store_request \<Rightarrow> store_request \<Rightarrow> bool" where
  "StoreRequest_eq m rhs \<longleftrightarrow>
     tq_key m = tq_key rhs \<and>
     (2 \<in> tq_isset m \<longleftrightarrow> 2 \<in> tq_isset rhs) \<and> (2 \<in> tq_isset m \<longrightarrow> tq_value m = tq_value rhs) \<and>
     (3 \<in> tq_isset m \<longleftrightarrow> 3 \<in> tq_isset rhs) \<and> (3 \<in> tq_isset m \<longrightarrow> SignedValue_eq (tq_sig_value m) (tq_sig_value rhs)) \<and>
     tq_ttl m = tq_ttl rhs \<and>
     ContactInfo_eq (tq_sender_info m) (tq_sender_info rhs) \<and>
     tq_publish m = tq_publish rhs \<and>
     (7 \<in> tq_isset m \<longleftrightarrow> 7 \<in> tq_isset rhs) \<and> (7 \<in> tq_isset m \<longrightarrow> SignedRequest_eq (tq_signed_request m) (tq_signed_request rhs))"

record store_response =
  tr_result :: string
  tr_node_id :: string
  tr_signed_request :: signed_request
  tr_isset :: "nat set"

definition StoreResponse_new :: store_response where
  "StoreResponse_new = \<lparr>tr_result = [], tr_node_id = [], tr_signed_request = SignedRequest_new, tr_isset = {}\<rparr>"

definition StoreResponse_write :: "store_response \<Rightarrow> tfield list" where
  "StoreResponse_write m =
     [(1, V_String (tr_result m))] @
     (if 2 \<in> tr_isset m then [(2, V_String (tr_node_id m))] else []) @
     (if 4 \<in> tr_isset m then [(4, V_Struct (SignedRequest_write (tr_signed_request m)))] else [])"

definition StoreResponse_field :: "nat \<Rightarrow> tvalue \<Rightarrow> store_response \<Rightarrow> store_response res" where
  "StoreResponse_field fid v m =
     (if fid = 1 then (case v of V_String s \<Rightarrow> Inr (m\<lparr>tr_result := s, tr_isset := insert 1 (tr_isset m)\<rparr>) | _ \<Rightarrow> Inr m)
     else if fid = 2 then (case v of V_String s \<Rightarrow> Inr (m\<lparr>tr_node_id := s, tr_isset := insert 2 (tr_isset m)\<rparr>) | _ \<Rightarrow> Inr m)
     else if fid = 4 then (case v of V_Struct fs \<Rightarrow> bind_res (SignedRequest_read fs (tr_signed_request m)) (\<lambda>x.
          Inr (m\<lparr>tr_signed_request := x, tr_isset := insert 4 (tr_isset m)\<rparr>)) | _ \<Rightarrow> Inr m)
     else Inr m)"

definition StoreResponse_read :: "tfield list \<Rightarrow> store_response \<Rightarrow> store_response res" where
  "StoreResponse_read = read_fields StoreResponse_field"

definition StoreResponse_eq :: "store_response \<Rightarrow> store_response \<Rightarrow> bool" where
  "StoreResponse_eq m rhs \<longleftrightarrow>
     tr_result m = tr_result rhs \<and>
     (2 \<in> tr_isset m \<longleftrightarrow> 2 \<in> tr_isset rhs) \<and> (2 \<in> tr_isset m \<longrightarrow> tr_node_id m = tr_node_id rhs) \<and>
     (4 \<in> tr_isset m \<longleftrightarrow> 4 \<in> tr_isset rhs) \<and> (4 \<in> tr_isset m \<longrightarrow> SignedRequest_eq (tr_signed_request m) (tr_signed_request rhs))"

section \<open>Downlist\<close>

record downlist_request =
  dq_downlist :: "contact_info list"
  dq_sender_info :: contact_info
  dq_isset :: "nat set"

definition DownlistRequest_new :: downlist_request where
  "DownlistRequest_new = \<lparr>dq_downlist = [], dq_sender_info = ContactInfo_new, dq_isset = {}\<rparr>"

definition DownlistRequest_write :: "downlist_request \<Rightarrow> tfield list" where
  "DownlistRequest_write m =
     [(1, V_List (map (\<lambda>x. V_Struct (ContactInfo_write x)) (dq_downlist m))),
      (2, V_Struct (ContactInfo_write (dq_sender_info m)))]"

definition DownlistRequest_field :: "nat \<Rightarrow> tvalue \<Rightarrow> downlist_request \<Rightarrow> downlist_request res" where
  "DownlistRequest_field fid v m =
     (if fid = 1 then (case v of V_List vs \<Rightarrow> bind_res (read_list (read_struct ContactInfo_read ContactInfo_new) vs) (\<lambda>xs.
          Inr (m\<lparr>dq_downlist := xs, dq_isset := insert 1 (dq_isset m)\<rparr>)) | _ \<Rightarrow> Inr m)
     else if fid = 2 then (case v of V_Struct fs \<Rightarrow> bind_res (ContactInfo_read fs (dq_sender_info m)) (\<lambda>x.
          Inr (m\<lparr>dq_sender_info := x, dq_isset := insert 2 (dq_isset m)\<rparr>)) | _ \<Rightarrow> Inr m)
     else Inr m)"

definition DownlistRequest_read :: "tfield list \<Rightarrow> downlist_request \<Rightarrow> downlist_request res" where
  "DownlistRequest_read = read_fields DownlistRequest_field"

definition DownlistRequest_eq :: "downlist_request \<Rightarrow> downlist_request \<Rightarrow> bool" where
  "DownlistRequest_eq m rhs \<longleftrightarrow>
     list_all2 ContactInfo_eq (dq_downlist m) (dq_downlist rhs) \<and>
     ContactInfo_eq (dq_sender_info m) (dq_sender_info rhs)"

record downlist_response =
  dr_result :: string
  dr_node_id :: string
  dr_isset :: "nat set"

definition DownlistResponse_new :: downlist_response where
  "DownlistResponse_new = \<lparr>dr_result = [], dr_node_id = [], dr_isset = {}\<rparr>"

definition DownlistResponse_write :: "downlist_response \<Rightarrow> tfield list" where
  "DownlistResponse_write m =
     [(1, V_String (dr_result m))] @
     (if 2 \<in> dr_isset m then [(2, V_String (dr_node_id m))] else [])"

definition DownlistResponse_field :: "nat \<Rightarrow> tvalue \<Rightarrow> downlist_response \<Rightarrow> downlist_response res" where
  "DownlistResponse_field fid v m =
     (if fid = 1 then (case v of V_String s \<Rightarrow> Inr (m\<lparr>dr_result := s, dr_isset := insert 1 (dr_isset m)\<rparr>) | _ \<Rightarrow> Inr m)
     else if fid = 2 then (case v of V_String s \<Rightarrow> Inr (m\<lparr>dr_node_id := s, dr_isset := insert 2 (dr_isset m)\<rparr>) | _ \<Rightarrow> Inr m)
     else Inr m)"

definition DownlistResponse_read :: "tfield list \<Rightarrow> downlist_response \<Rightarrow> downlist_response res" where
  "DownlistResponse_read = read_fields DownlistResponse_field"

definition DownlistResponse_eq :: "downlist_response \<Rightarrow> downlist_response \<Rightarrow> bool" where
  "DownlistResponse_eq m rhs \<longleftrightarrow>
     dr_result m = dr_result rhs \<and>
     (2 \<in> dr_isset m \<longleftrightarrow> 2 \<in> dr_isset rhs) \<and> (2 \<in> dr_isset m \<longrightarrow> dr_node_id m = dr_node_id rhs)"

section \<open>Bootstrap\<close>

record bootstrap_request =
  bq_newcomer_id :: string
  bq_newcomer_local_ip :: string
  bq_newcomer_local_port :: i32
  bq_node_type :: i32
  bq_newcomer_ext_ip :: string
  bq_newcomer_ext_port :: i32
  bq_isset :: "nat set"

definition BootstrapRequest_new :: bootstrap_request where
  "BootstrapRequest_new = \<lparr>bq_newcomer_id = [], bq_newcomer_local_ip = [], bq_newcomer_local_port = 0, bq_node_type = 0,
     bq_newcomer_ext_ip = [], bq_newcomer_ext_port = 0, bq_isset = {}\<rparr>"

definition BootstrapRequest_write :: "bootstrap_request \<Rightarrow> tfield list" where
  "BootstrapRequest_write m =
     [(1, V_String (bq_newcomer_id m)),
      (2, V_String (bq_newcomer_local_ip m)),
      (3, V_I32 (bq_newcomer_local_port m)),
      (5, V_I32 (bq_node_type m))] @
     (if 6 \<in> bq_isset m then [(6, V_String (bq_newcomer_ext_ip m))] else []) @
     (if 7 \<in> bq_isset m then [(7, V_I32 (bq_newcomer_ext_port m))] else [])"

definition BootstrapRequest_field :: "nat \<Rightarrow> tvalue \<Rightarrow> bootstrap_request \<Rightarrow> bootstrap_request res" where
  "BootstrapRequest_field fid v m =
     (if fid = 1 then (case v of V_String s \<Rightarrow> Inr (m\<lparr>bq_newcomer_id := s, bq_isset := insert 1 (bq_isset m)\<rparr>) | _ \<Rightarrow> Inr m)
     else if fid = 2 then (case v of V_String s \<Rightarrow> Inr (m\<lparr>bq_newcomer_local_ip := s, bq_isset := insert 2 (bq_isset m)\<rparr>) | _ \<Rightarrow> Inr m)
     else if fid = 3 then (case v of V_I32 n \<Rightarrow> Inr (m\<lparr>bq_newcomer_local_port := n, bq_isset := insert 3 (bq_isset m)\<rparr>) | _ \<Rightarrow> Inr m)
     else if fid = 5 then (case v of V_I32 n \<Rightarrow> Inr (m\<lparr>bq_node_type := n, bq_isset := insert 5 (bq_isset m)\<rparr>) | _ \<Rightarrow> Inr m)
     else if fid = 6 then (case v of V_String s \<Rightarrow> Inr (m\<lparr>bq_newcomer_ext_ip := s, bq_isset := insert 6 (bq_isset m)\<rparr>) | _ \<Rightarrow> Inr m)
     else if fid = 7 then (case v of V_I32 n \<Rightarrow> Inr (m\<lparr>bq_newcomer_ext_port := n, bq_isset := insert 7 (bq_isset m)\<rparr>) | _ \<Rightarrow> Inr m)
     else Inr m)"

definition BootstrapRequest_read :: "tfield list \<Rightarrow> bootstrap_request \<Rightarrow> bootstrap_request res" where
  "BootstrapRequest_read = read_fields BootstrapRequest_field"

definition BootstrapRequest_eq :: "bootstrap_request \<Rightarrow> bootstrap_request \<Rightarrow> bool" where
  "BootstrapRequest_eq m rhs \<longleftrightarrow>
     bq_newcomer_id m = bq_newcomer_id rhs \<and>
     bq_newcomer_local_ip m = bq_newcomer_local_ip rhs \<and>
     bq_newcomer_local_port m = bq_newcomer_local_port rhs \<and>
     bq_node_type m = bq_node_type rhs \<and>
     (6 \<in> bq_isset m \<longleftrightarrow> 6 \<in> bq_isset rhs) \<and> (6 \<in> bq_isset m \<longrightarrow> bq_newcomer_ext_ip m = bq_newcomer_ext_ip rhs) \<and>
     (7 \<in> bq_isset m \<longleftrightarrow> 7 \<in> bq_isset rhs) \<and> (7 \<in> bq_isset m \<longrightarrow> bq_newcomer_ext_port m = bq_newcomer_ext_port rhs)"

record bootstrap_response =
  br_result :: string
  br_bootstrap_id :: string
  br_newcomer_ext_ip :: string
  br_newcomer_ext_port :: i32
  br_nat_type :: i32
  br_isset :: "nat set"

definition BootstrapResponse_new :: bootstrap_response where
  "BootstrapResponse_new = \<lparr>br_result = [], br_bootstrap_id = [], br_newcomer_ext_ip = [], br_newcomer_ext_port = 0,
     br_nat_type = 0, br_isset = {}\<rparr>"

definition BootstrapResponse_write :: "bootstrap_response \<Rightarrow> tfield list" where
  "BootstrapResponse_write m =
     [(1, V_String (br_result m))] @
     (if 2 \<in> br_isset m then [(2, V_String (br_bootstrap_id m))] else []) @
     (if 3 \<in> br_isset m then [(3, V_String (br_newcomer_ext_ip m))] else []) @
     (if 4 \<in> br_isset m then [(4, V_I32 (br_newcomer_ext_port m))] else []) @
     (if 5 \<in> br_isset m then [(5, V_I32 (br_nat_type m))] else [])"

definition BootstrapResponse_field :: "nat \<Rightarrow> tvalue \<Rightarrow> bootstrap_response \<Rightarrow> bootstrap_response res" where
  "BootstrapResponse_field fid v m =
     (if fid = 1 then (case v of V_String s \<Rightarrow> Inr (m\<lparr>br_result := s, br_isset := insert 1 (br_isset m)\<rparr>) | _ \<Rightarrow> Inr m)
     else if fid = 2 then (case v of V_String s \<Rightarrow> Inr (m\<lparr>br_bootstrap_id := s, br_isset := insert 2 (br_isset m)\<rparr>) | _ \<Rightarrow> Inr m)
     else if fid = 3 then (case v of V_String s \<Rightarrow> Inr (m\<lparr>br_newcomer_ext_ip := s, br_isset := insert 3 (br_isset m)\<rparr>) | _ \<Rightarrow> Inr m)
     else if fid = 4 then (case v of V_I32 n \<Rightarrow> Inr (m\<lparr>br_newcomer_ext_port := n, br_isset := insert 4 (br_isset m)\<rparr>) | _ \<Rightarrow> Inr m)
     else if fid = 5 then (case v of V_I32 n \<Rightarrow> Inr (m\<lparr>br_nat_type := n, br_isset := insert 5 (br_isset m)\<rparr>) | _ \<Rightarrow> Inr m)
     else Inr m)"

definition BootstrapResponse_read :: "tfield list \<Rightarrow> bootstrap_response \<Rightarrow> bootstrap_response res" where
  "BootstrapResponse_read = read_fields BootstrapResponse_field"

definition BootstrapResponse_eq :: "bootstrap_response \<Rightarrow> bootstrap_response \<Rightarrow> bool" where
  "BootstrapResponse_eq m rhs \<longleftrightarrow>
     br_result m = br_result rhs \<and>
     (2 \<in> br_isset m \<longleftrightarrow> 2 \<in> br_isset rhs) \<and> (2 \<in> br_isset m \<longrightarrow> br_bootstrap_id m = br_bootstrap_id rhs) \<and>
     (3 \<in> br_isset m \<longleftrightarrow> 3 \<in> br_isset rhs) \<and> (3 \<in> br_isset m \<longrightarrow> br_newcomer_ext_ip m = br_newcomer_ext_ip rhs) \<and>
     (4 \<in> br_isset m \<longleftrightarrow> 4 \<in> br_isset rhs) \<and> (4 \<in> br_isset m \<longrightarrow> br_newcomer_ext_port m = br_newcomer_ext_port rhs) \<and>
     (5 \<in> br_isset m \<longleftrightarrow> 5 \<in> br_isset rhs) \<and> (5 \<in> br_isset m \<longrightarrow> br_nat_type m = br_nat_type rhs)"

section \<open>Delete\<close>

record delete_request =
  eq_key :: string
  eq_value :: signed_value
  eq_signed_request :: signed_request
  eq_sender_info :: contact_info
  eq_isset :: "nat set"

definition DeleteRequest_new :: delete_request where
  "DeleteRequest_new = \<lparr>eq_key = [], eq_value = SignedValue_new, eq_signed_request = SignedRequest_new,
     eq_sender_info = ContactInfo_new, eq_isset = {}\<rparr>"

definition DeleteRequest_write :: "delete_request \<Rightarrow> tfield list" where
  "DeleteRequest_write m =
     [(1, V_String (eq_key m)),
      (2, V_Struct (SignedValue_write (eq_value m))),
      (3, V_Struct (SignedRequest_write (eq_signed_request m))),
      (4, V_Struct (ContactInfo_write (eq_sender_info m)))]"

definition DeleteRequest_field :: "nat \<Rightarrow> tvalue \<Rightarrow> delete_request \<Rightarrow> delete_request res" where
  "DeleteRequest_field fid v m =
     (if fid = 1 then (case v of V_String s \<Rightarrow> Inr (m\<lparr>eq_key := s, eq_isset := insert 1 (eq_isset m)\<rparr>) | _ \<Rightarrow> Inr m)
     else if fid = 2 then (case v of V_Struct fs \<Rightarrow> bind_res (SignedValue_read fs (eq_value m)) (\<lambda>x.
          Inr (m\<lparr>eq_value := x, eq_isset := insert 2 (eq_isset m)\<rparr>)) | _ \<Rightarrow> Inr m)
     else if fid = 3 then (case v of V_Struct fs \<Rightarrow> bind_res (SignedRequest_read fs (eq_signed_request m)) (\<lambda>x.
          Inr (m\<lparr>eq_signed_request := x, eq_isset := insert 3 (eq_isset m)\<rparr>)) | _ \<Rightarrow> Inr m)
     else if fid = 4 then (case v of V_Struct fs \<Rightarrow> bind_res (ContactInfo_read fs (eq_sender_info m)) (\<lambda>x.
          Inr (m\<lparr>eq_sender_info := x, eq_isset := insert 4 (eq_isset m)\<rparr>)) | _ \<Rightarrow> Inr m)
     else Inr m)"

definition DeleteRequest_read :: "tfield list \<Rightarrow> delete_request \<Rightarrow> delete_request res" where
  "DeleteRequest_read = read_fields DeleteRequest_field"

definition DeleteRequest_eq :: "delete_request \<Rightarrow> delete_request \<Rightarrow> bool" where
  "DeleteRequest_eq m rhs \<longleftrightarrow>
     eq_key m = eq_key rhs \<and>
     SignedValue_eq (eq_value m) (eq_value rhs) \<and>
     SignedRequest_eq (eq_signed_request m) (eq_signed_request rhs) \<and>
     ContactInfo_eq (eq_sender_info m) (eq_sender_info rhs)"

record delete_response =
  er_result :: string
  er_node_id :: string
  er_isset :: "nat set"

definition DeleteResponse_new :: delete_response where
  "DeleteResponse_new = \<lparr>er_result = [], er_node_id = [], er_isset = {}\<rparr>"

definition DeleteResponse_write :: "delete_response \<Rightarrow> tfield list" where
  "DeleteResponse_write m =
     [(1, V_String (er_result m))] @
     (if 2 \<in> er_isset m then [(2, V_String (er_node_id m))] else [])"

definition DeleteResponse_field :: "nat \<Rightarrow> tvalue \<Rightarrow> delete_response \<Rightarrow> delete_response res" where
  "DeleteResponse_field fid v m =
     (if fid = 1 then (case v of V_String s \<Rightarrow> Inr (m\<lparr>er_result := s, er_isset := insert 1 (er_isset m)\<rparr>) | _ \<Rightarrow> Inr m)
     else if fid = 2 then (case v of V_String s \<Rightarrow> Inr (m\<lparr>er_node_id := s, er_isset := insert 2 (er_isset m)\<rparr>) | _ \<Rightarrow> Inr m)
     else Inr m)"

definition DeleteResponse_read :: "tfield list \<Rightarrow> delete_response \<Rightarrow> delete_response res" where
  "DeleteResponse_read = read_fields DeleteResponse_field"

definition DeleteResponse_eq :: "delete_response \<Rightarrow> delete_response \<Rightarrow> bool" where
  "DeleteResponse_eq m rhs \<longleftrightarrow>
     er_result m = er_result rhs \<and>
     (2 \<in> er_isset m \<longleftrightarrow> 2 \<in> er_isset rhs) \<and> (2 \<in> er_isset m \<longrightarrow> er_node_id m = er_node_id rhs)"

section \<open>Update\<close>

record update_request =
  uq_key :: string
  uq_new_value :: signed_value
  uq_old_value :: signed_value
  uq_ttl :: i32
  uq_request :: signed_request
  uq_sender_info :: contact_info
  uq_isset :: "nat set"

definition UpdateRequest_new :: update_request where
  "UpdateRequest_new = \<lparr>uq_key = [], uq_new_value = SignedValue_new, uq_old_value = SignedValue_new, uq_ttl = 0,
     uq_request = SignedRequest_new, uq_sender_info = ContactInfo_new, uq_isset = {}\<rparr>"

definition UpdateRequest_write :: "update_request \<Rightarrow> tfield list" where
  "UpdateRequest_write m =
     [(1, V_String (uq_key m)),
      (2, V_Struct (SignedValue_write (uq_new_value m))),
      (3, V_Struct (SignedValue_write (uq_old_value m))),
      (4, V_I32 (uq_ttl m)),
      (5, V_Struct (SignedRequest_write (uq_request m))),
      (6, V_Struct (ContactInfo_write (uq_sender_info m)))]"

definition UpdateRequest_field :: "nat \<Rightarrow> tvalue \<Rightarrow> update_request \<Rightarrow> update_request res" where
  "UpdateRequest_field fid v m =
     (if fid = 1 then (case v of V_String s \<Rightarrow> Inr (m\<lparr>uq_key := s, uq_isset := insert 1 (uq_isset m)\<rparr>) | _ \<Rightarrow> Inr m)
     else if fid = 2 then (case v of V_Struct fs \<Rightarrow> bind_res (SignedValue_read fs (uq_new_value m)) (\<lambda>x.
          Inr (m\<lparr>uq_new_value := x, uq_isset := insert 2 (uq_isset m)\<rparr>)) | _ \<Rightarrow> Inr m)
     else if fid = 3 then (case v of V_Struct fs \<Rightarrow> bind_res (SignedValue_read fs (uq_old_value m)) (\<lambda>x.
          Inr (m\<lparr>uq_old_value := x, uq_isset := insert 3 (uq_isset m)\<rparr>)) | _ \<Rightarrow> Inr m)
     else if fid = 4 then (case v of V_I32 n \<Rightarrow> Inr (m\<lparr>uq_ttl := n, uq_isset := insert 4 (uq_isset m)\<rparr>) | _ \<Rightarrow> Inr m)
     else if fid = 5 then (case v of V_Struct fs \<Rightarrow> bind_res (SignedRequest_read fs (uq_request m)) (\<lambda>x.
          Inr (m\<lparr>uq_request := x, uq_isset := insert 5 (uq_isset m)\<rparr>)) | _ \<Rightarrow> Inr m)
     else if fid = 6 then (case v of V_Struct fs \<Rightarrow> bind_res (ContactInfo_read fs (uq_sender_info m)) (\<lambda>x.
          Inr (m\<lparr>uq_sender_info := x, uq_isset := insert 6 (uq_isset m)\<rparr>)) | _ \<Rightarrow> Inr m)
     else Inr m)"

definition UpdateRequest_read :: "tfield list \<Rightarrow> update_request \<Rightarrow> update_request res" where
  "UpdateRequest_read = read_fields UpdateRequest_field"

definition UpdateRequest_eq :: "update_request \<Rightarrow> update_request \<Rightarrow> bool" where
  "UpdateRequest_eq m rhs \<longleftrightarrow>
     uq_key m = uq_key rhs \<and>
     SignedValue_eq (uq_new_value m) (uq_new_value rhs) \<and>
     SignedValue_eq (uq_old_value m) (uq_old_value rhs) \<and>
     uq_ttl m = uq_ttl rhs \<and>
     SignedRequest_eq (uq_request m) (uq_request rhs) \<and>
     ContactInfo_eq (uq_sender_info m) (uq_sender_info rhs)"

record update_response =
  ur_result :: string
  ur_node_id :: string
  ur_isset :: "nat set"

definition UpdateResponse_new :: update_response where
  "UpdateResponse_new = \<lparr>ur_result = [], ur_node_id = [], ur_isset = {}\<rparr>"

definition UpdateResponse_write :: "update_response \<Rightarrow> tfield list" where
  "UpdateResponse_write m =
     [(1, V_String (ur_result m))] @
     (if 2 \<in> ur_isset m then [(2, V_String (ur_node_id m))] else [])"

definition UpdateResponse_field :: "nat \<Rightarrow> tvalue \<Rightarrow> update_response \<Rightarrow> update_response res" where
  "UpdateResponse_field fid v m =
     (if fid = 1 then (case v of V_String s \<Rightarrow> Inr (m\<lparr>ur_result := s, ur_isset := insert 1 (ur_isset m)\<rparr>) | _ \<Rightarrow> Inr m)
     else if fid = 2 then (case v of V_String s \<Rightarrow> Inr (m\<lparr>ur_node_id := s, ur_isset := insert 2 (ur_isset m)\<rparr>) | _ \<Rightarrow> Inr m)
     else Inr m)"

definition UpdateResponse_read :: "tfield list \<Rightarrow> update_response \<Rightarrow> update_response res" where
  "UpdateResponse_read = read_fields UpdateResponse_field"

definition UpdateResponse_eq :: "update_response \<Rightarrow> update_response \<Rightarrow> bool" where
  "UpdateResponse_eq m rhs \<longleftrightarrow>
     ur_result m = ur_result rhs \<and>
     (2 \<in> ur_isset m \<longleftrightarrow> 2 \<in> ur_isset rhs) \<and> (2 \<in> ur_isset m \<longrightarrow> ur_node_id m = ur_node_id rhs)"

end
