(* ===== verification/ThriftService.thy ===== *)
theory ThriftService
  imports KadMessages "HOL-Library.Word"
begin

text \<open>
  The two ends of a call as Thrift generates them (\<open>KademliaService.cpp\<close> and \<open>KademliaService.h\<close> under
  \<open>src/src/thrift/gen-cpp\<close>): the classes \<open>args\<close>, \<open>pargs\<close>, \<open>result\<close> and \<open>presult\<close> of every method, the
  client's \<open>send\<close>, \<open>recv\<close> and call, the processor's \<open>process\<close>, \<open>process_fn\<close> and its handlers, and the
  two generated implementations of the interface. The code of the eight methods differs in names
  only: each definition of the first sections is that code for any method, and the sections after
  them give the methods. The protocol reads and writes whole messages; what an exception of Thrift
  looks like in a message is a parameter (\<open>thrift_lib\<close>), as is the transport of the client.
\<close>

section \<open>Messages\<close>

datatype message_type = T_CALL | T_REPLY | T_EXCEPTION | T_ONEWAY

record message =
  ms_name :: string
  ms_type :: message_type
  ms_seqid :: i32
  ms_body :: "tfield list"

datatype exception_type = UNKNOWN | UNKNOWN_METHOD | INVALID_MESSAGE_TYPE | WRONG_METHOD_NAME | MISSING_RESULT

text \<open>A \<open>TApplicationException\<close> is its type and its message.\<close>

type_synonym app_exception = "exception_type \<times> string"

record thrift_lib =
  tl_write :: "app_exception \<Rightarrow> tfield list"
  tl_read :: "tfield list \<Rightarrow> app_exception"

text \<open>What ends a call of the client other than its return.\<close>

datatype rpc_exception = Transport_exception | Application_exception app_exception

section \<open>Arguments and results\<close>

record 'q args =
  ar_request :: 'q
  ar_isset :: bool

record 'r result =
  rs_success :: 'r
  rs_isset :: bool

definition args_field ::
  "(tfield list \<Rightarrow> 'q \<Rightarrow> 'q res) \<Rightarrow> nat \<Rightarrow> tvalue \<Rightarrow> 'q args \<Rightarrow> 'q args res" where
  "args_field read fid v a =
     (if fid = 1
      then (case v of
              V_Struct fs \<Rightarrow> bind_res (read fs (ar_request a)) (\<lambda>x. Inr (a\<lparr>ar_request := x, ar_isset := True\<rparr>))
            | _ \<Rightarrow> Inr a)
      else Inr a)"

definition args_read ::
  "(tfield list \<Rightarrow> 'q \<Rightarrow> 'q res) \<Rightarrow> tfield list \<Rightarrow> 'q args \<Rightarrow> 'q args res" where
  "args_read read = read_fields (args_field read)"

definition args_write :: "('q \<Rightarrow> tfield list) \<Rightarrow> 'q args \<Rightarrow> tfield list" where
  "args_write write a = [(1, V_Struct (write (ar_request a)))]"

definition pargs_write :: "('q \<Rightarrow> tfield list) \<Rightarrow> 'q \<Rightarrow> tfield list" where
  "pargs_write write request = [(1, V_Struct (write request))]"

definition result_field ::
  "(tfield list \<Rightarrow> 'r \<Rightarrow> 'r res) \<Rightarrow> nat \<Rightarrow> tvalue \<Rightarrow> 'r result \<Rightarrow> 'r result res" where
  "result_field read fid v a =
     (if fid = 0
      then (case v of
              V_Struct fs \<Rightarrow> bind_res (read fs (rs_success a)) (\<lambda>x. Inr (a\<lparr>rs_success := x, rs_isset := True\<rparr>))
            | _ \<Rightarrow> Inr a)
      else Inr a)"

definition result_read ::
  "(tfield list \<Rightarrow> 'r \<Rightarrow> 'r res) \<Rightarrow> tfield list \<Rightarrow> 'r result \<Rightarrow> 'r result res" where
  "result_read read = read_fields (result_field read)"

definition result_write :: "('r \<Rightarrow> tfield list) \<Rightarrow> 'r result \<Rightarrow> tfield list" where
  "result_write write a = (if rs_isset a then [(0, V_Struct (write (rs_success a)))] else [])"

section \<open>The client\<close>

text \<open>
  The protocol of a client over the state \<open>'n\<close> of its network: sending says whether the transport
  took the message, receiving gives none when the transport throws.
\<close>

record 'n protocol =
  pt_send :: "message \<Rightarrow> 'n \<Rightarrow> bool \<times> 'n"
  pt_recv :: "'n \<Rightarrow> message option \<times> 'n"

definition send_call :: "string \<Rightarrow> ('q \<Rightarrow> tfield list) \<Rightarrow> 'n protocol \<Rightarrow> 'q \<Rightarrow> 'n \<Rightarrow> bool \<times> 'n" where
  "send_call name pargs P request n =
     pt_send P \<lparr>ms_name = name, ms_type = T_CALL, ms_seqid = 0, ms_body = pargs request\<rparr> n"

text \<open>The response, what was thrown if anything, and the network.\<close>

type_synonym ('r, 'n) answer = "('r \<times> rpc_exception option \<times> 'n) res"

definition recv_call ::
  "string \<Rightarrow> (tfield list \<Rightarrow> 'r result \<Rightarrow> 'r result res) \<Rightarrow> thrift_lib \<Rightarrow> 'n protocol \<Rightarrow> 'r \<Rightarrow> 'n \<Rightarrow>
     ('r, 'n) answer" where
  "recv_call name presult L P ret n =
     (case pt_recv P n of
        (None, n') \<Rightarrow> Inr (ret, Some Transport_exception, n')
      | (Some m, n') \<Rightarrow>
          if ms_type m = T_EXCEPTION
          then Inr (ret, Some (Application_exception (tl_read L (ms_body m))), n')
          else if ms_type m \<noteq> T_REPLY
          then Inr (ret, Some (Application_exception (INVALID_MESSAGE_TYPE, [])), n')
          else if ms_name m \<noteq> name
          then Inr (ret, Some (Application_exception (WRONG_METHOD_NAME, [])), n')
          else bind_res (presult (ms_body m) \<lparr>rs_success = ret, rs_isset = False\<rparr>) (\<lambda>a.
            if rs_isset a then Inr (rs_success a, None, n')
            else Inr (rs_success a,
              Some (Application_exception (MISSING_RESULT, name @ '' failed: unknown result'')), n')))"

definition client_call ::
  "(thrift_lib \<Rightarrow> 'n protocol \<Rightarrow> 'r \<Rightarrow> 'n \<Rightarrow> ('r, 'n) answer) \<Rightarrow> ('n protocol \<Rightarrow> 'q \<Rightarrow> 'n \<Rightarrow> bool \<times> 'n) \<Rightarrow>
     thrift_lib \<Rightarrow> 'n protocol \<Rightarrow> 'q \<Rightarrow> 'r \<Rightarrow> 'n \<Rightarrow> ('r, 'n) answer" where
  "client_call recv send L P request ret n =
     (case send P request n of
        (sent, n') \<Rightarrow> if sent then recv L P ret n' else Inr (ret, Some Transport_exception, n'))"

section \<open>The interface and the processor\<close>

text \<open>
  A method of the interface may also throw a \<open>std::exception\<close>, which the processor turns into a
  message; \<open>Inl\<close> in its outcome is the text of the exception.
\<close>

type_synonym ('q, 'r, 's) handler = "'q \<Rightarrow> 'r \<Rightarrow> 's \<Rightarrow> ('s \<times> (string + 'r)) res"

record 's service_if =
  if_Ping :: "(ping_request, ping_response, 's) handler"
  if_FindValue :: "(find_request, find_response, 's) handler"
  if_FindNode :: "(find_request, find_response, 's) handler"
  if_Store :: "(store_request, store_response, 's) handler"
  if_Downlist :: "(downlist_request, downlist_response, 's) handler"
  if_Bootstrap :: "(bootstrap_request, bootstrap_response, 's) handler"
  if_Delete :: "(delete_request, delete_response, 's) handler"
  if_Update :: "(update_request, update_response, 's) handler"

definition exception_reply :: "thrift_lib \<Rightarrow> string \<Rightarrow> i32 \<Rightarrow> app_exception \<Rightarrow> message" where
  "exception_reply L name seqid x =
     \<lparr>ms_name = name, ms_type = T_EXCEPTION, ms_seqid = seqid, ms_body = tl_write L x\<rparr>"

definition process_call ::
  "string \<Rightarrow> (tfield list \<Rightarrow> 'q args \<Rightarrow> 'q args res) \<Rightarrow> 'q \<Rightarrow> ('r result \<Rightarrow> tfield list) \<Rightarrow> 'r \<Rightarrow> thrift_lib \<Rightarrow>
     ('q, 'r, 's) handler \<Rightarrow> i32 \<Rightarrow> tfield list \<Rightarrow> 's \<Rightarrow> (message \<times> 's) res" where
  "process_call name args request_new result response_new L h seqid body s =
     bind_res (args body \<lparr>ar_request = request_new, ar_isset = False\<rparr>) (\<lambda>a.
     bind_res (h (ar_request a) response_new s) (\<lambda>(s', outcome).
       case outcome of
         Inl what \<Rightarrow> Inr (exception_reply L name seqid (UNKNOWN, what), s')
       | Inr success \<Rightarrow>
           Inr (\<lparr>ms_name = name, ms_type = T_REPLY, ms_seqid = seqid,
                 ms_body = result \<lparr>rs_success = success, rs_isset = True\<rparr>\<rparr>, s')))"

section \<open>The method Ping\<close>

definition Ping_args_read :: "tfield list \<Rightarrow> ping_request args \<Rightarrow> ping_request args res" where
  "Ping_args_read = args_read PingRequest_read"

definition Ping_args_write :: "ping_request args \<Rightarrow> tfield list" where
  "Ping_args_write = args_write PingRequest_write"

definition Ping_pargs_write :: "ping_request \<Rightarrow> tfield list" where
  "Ping_pargs_write = pargs_write PingRequest_write"

definition Ping_result_read :: "tfield list \<Rightarrow> ping_response result \<Rightarrow> ping_response result res" where
  "Ping_result_read = result_read PingResponse_read"

definition Ping_result_write :: "ping_response result \<Rightarrow> tfield list" where
  "Ping_result_write = result_write PingResponse_write"

definition Ping_presult_read :: "tfield list \<Rightarrow> ping_response result \<Rightarrow> ping_response result res" where
  "Ping_presult_read = result_read PingResponse_read"

definition send_Ping :: "'n protocol \<Rightarrow> ping_request \<Rightarrow> 'n \<Rightarrow> bool \<times> 'n" where
  "send_Ping = send_call ''Ping'' Ping_pargs_write"

definition recv_Ping :: "thrift_lib \<Rightarrow> 'n protocol \<Rightarrow> ping_response \<Rightarrow> 'n \<Rightarrow> (ping_response, 'n) answer" where
  "recv_Ping = recv_call ''Ping'' Ping_presult_read"

definition client_Ping ::
  "thrift_lib \<Rightarrow> 'n protocol \<Rightarrow> ping_request \<Rightarrow> ping_response \<Rightarrow> 'n \<Rightarrow> (ping_response, 'n) answer" where
  "client_Ping = client_call recv_Ping send_Ping"

definition process_Ping ::
  "thrift_lib \<Rightarrow> 's service_if \<Rightarrow> i32 \<Rightarrow> tfield list \<Rightarrow> 's \<Rightarrow> (message \<times> 's) res" where
  "process_Ping L iface = process_call ''Ping'' Ping_args_read PingRequest_new Ping_result_write PingResponse_new L (if_Ping iface)"

section \<open>The method FindValue\<close>

definition FindValue_args_read :: "tfield list \<Rightarrow> find_request args \<Rightarrow> find_request args res" where
  "FindValue_args_read = args_read FindRequest_read"

definition FindValue_args_write :: "find_request args \<Rightarrow> tfield list" where
  "FindValue_args_write = args_write FindRequest_write"

definition FindValue_pargs_write :: "find_request \<Rightarrow> tfield list" where
  "FindValue_pargs_write = pargs_write FindRequest_write"

definition FindValue_result_read :: "tfield list \<Rightarrow> find_response result \<Rightarrow> find_response result res" where
  "FindValue_result_read = result_read FindResponse_read"

definition FindValue_result_write :: "find_response result \<Rightarrow> tfield list" where
  "FindValue_result_write = result_write FindResponse_write"

definition FindValue_presult_read :: "tfield list \<Rightarrow> find_response result \<Rightarrow> find_response result res" where
  "FindValue_presult_read = result_read FindResponse_read"

definition send_FindValue :: "'n protocol \<Rightarrow> find_request \<Rightarrow> 'n \<Rightarrow> bool \<times> 'n" where
  "send_FindValue = send_call ''FindValue'' FindValue_pargs_write"

definition recv_FindValue :: "thrift_lib \<Rightarrow> 'n protocol \<Rightarrow> find_response \<Rightarrow> 'n \<Rightarrow> (find_response, 'n) answer" where
  "recv_FindValue = recv_call ''FindValue'' FindValue_presult_read"

definition client_FindValue ::
  "thrift_lib \<Rightarrow> 'n protocol \<Rightarrow> find_request \<Rightarrow> find_response \<Rightarrow> 'n \<Rightarrow> (find_response, 'n) answer" where
  "client_FindValue = client_call recv_FindValue send_FindValue"

definition process_FindValue ::
  "thrift_lib \<Rightarrow> 's service_if \<Rightarrow> i32 \<Rightarrow> tfield list \<Rightarrow> 's \<Rightarrow> (message \<times> 's) res" where
  "process_FindValue L iface = process_call ''FindValue'' FindValue_args_read FindRequest_new FindValue_result_write FindResponse_new L (if_FindValue iface)"

section \<open>The method FindNode\<close>

definition FindNode_args_read :: "tfield list \<Rightarrow> find_request args \<Rightarrow> find_request args res" where
  "FindNode_args_read = args_read FindRequest_read"

definition FindNode_args_write :: "find_request args \<Rightarrow> tfield list" where
  "FindNode_args_write = args_write FindRequest_write"

definition FindNode_pargs_write :: "find_request \<Rightarrow> tfield list" where
  "FindNode_pargs_write = pargs_write FindRequest_write"

definition FindNode_result_read :: "tfield list \<Rightarrow> find_response result \<Rightarrow> find_response result res" where
  "FindNode_result_read = result_read FindResponse_read"

definition FindNode_result_write :: "find_response result \<Rightarrow> tfield list" where
  "FindNode_result_write = result_write FindResponse_write"

definition FindNode_presult_read :: "tfield list \<Rightarrow> find_response result \<Rightarrow> find_response result res" where
  "FindNode_presult_read = result_read FindResponse_read"

definition send_FindNode :: "'n protocol \<Rightarrow> find_request \<Rightarrow> 'n \<Rightarrow> bool \<times> 'n" where
  "send_FindNode = send_call ''FindNode'' FindNode_pargs_write"

definition recv_FindNode :: "thrift_lib \<Rightarrow> 'n protocol \<Rightarrow> find_response \<Rightarrow> 'n \<Rightarrow> (find_response, 'n) answer" where
  "recv_FindNode = recv_call ''FindNode'' FindNode_presult_read"

definition client_FindNode ::
  "thrift_lib \<Rightarrow> 'n protocol \<Rightarrow> find_request \<Rightarrow> find_response \<Rightarrow> 'n \<Rightarrow> (find_response, 'n) answer" where
  "client_FindNode = client_call recv_FindNode send_FindNode"

definition process_FindNode ::
  "thrift_lib \<Rightarrow> 's service_if \<Rightarrow> i32 \<Rightarrow> tfield list \<Rightarrow> 's \<Rightarrow> (message \<times> 's) res" where
  "process_FindNode L iface = process_call ''FindNode'' FindNode_args_read FindRequest_new FindNode_result_write FindResponse_new L (if_FindNode iface)"

section \<open>The method Store\<close>

definition Store_args_read :: "tfield list \<Rightarrow> store_request args \<Rightarrow> store_request args res" where
  "Store_args_read = args_read StoreRequest_read"

definition Store_args_write :: "store_request args \<Rightarrow> tfield list" where
  "Store_args_write = args_write StoreRequest_write"

definition Store_pargs_write :: "store_request \<Rightarrow> tfield list" where
  "Store_pargs_write = pargs_write StoreRequest_write"

definition Store_result_read :: "tfield list \<Rightarrow> store_response result \<Rightarrow> store_response result res" where
  "Store_result_read = result_read StoreResponse_read"

definition Store_result_write :: "store_response result \<Rightarrow> tfield list" where
  "Store_result_write = result_write StoreResponse_write"

definition Store_presult_read :: "tfield list \<Rightarrow> store_response result \<Rightarrow> store_response result res" where
  "Store_presult_read = result_read StoreResponse_read"

definition send_Store :: "'n protocol \<Rightarrow> store_request \<Rightarrow> 'n \<Rightarrow> bool \<times> 'n" where
  "send_Store = send_call ''Store'' Store_pargs_write"

definition recv_Store :: "thrift_lib \<Rightarrow> 'n protocol \<Rightarrow> store_response \<Rightarrow> 'n \<Rightarrow> (store_response, 'n) answer" where
  "recv_Store = recv_call ''Store'' Store_presult_read"

definition client_Store ::
  "thrift_lib \<Rightarrow> 'n protocol \<Rightarrow> store_request \<Rightarrow> store_response \<Rightarrow> 'n \<Rightarrow> (store_response, 'n) answer" where
  "client_Store = client_call recv_Store send_Store"

definition process_Store ::
  "thrift_lib \<Rightarrow> 's service_if \<Rightarrow> i32 \<Rightarrow> tfield list \<Rightarrow> 's \<Rightarrow> (message \<times> 's) res" where
  "process_Store L iface = process_call ''Store'' Store_args_read StoreRequest_new Store_result_write StoreResponse_new L (if_Store iface)"

section \<open>The method Downlist\<close>

definition Downlist_args_read :: "tfield list \<Rightarrow> downlist_request args \<Rightarrow> downlist_request args res" where
  "Downlist_args_read = args_read DownlistRequest_read"

definition Downlist_args_write :: "downlist_request args \<Rightarrow> tfield list" where
  "Downlist_args_write = args_write DownlistRequest_write"

definition Downlist_pargs_write :: "downlist_request \<Rightarrow> tfield list" where
  "Downlist_pargs_write = pargs_write DownlistRequest_write"

definition Downlist_result_read :: "tfield list \<Rightarrow> downlist_response result \<Rightarrow> downlist_response result res" where
  "Downlist_result_read = result_read DownlistResponse_read"

definition Downlist_result_write :: "downlist_response result \<Rightarrow> tfield list" where
  "Downlist_result_write = result_write DownlistResponse_write"

definition Downlist_presult_read :: "tfield list \<Rightarrow> downlist_response result \<Rightarrow> downlist_response result res" where
  "Downlist_presult_read = result_read DownlistResponse_read"

definition send_Downlist :: "'n protocol \<Rightarrow> downlist_request \<Rightarrow> 'n \<Rightarrow> bool \<times> 'n" where
  "send_Downlist = send_call ''Downlist'' Downlist_pargs_write"

definition recv_Downlist :: "thrift_lib \<Rightarrow> 'n protocol \<Rightarrow> downlist_response \<Rightarrow> 'n \<Rightarrow> (downlist_response, 'n) answer" where
  "recv_Downlist = recv_call ''Downlist'' Downlist_presult_read"

definition client_Downlist ::
  "thrift_lib \<Rightarrow> 'n protocol \<Rightarrow> downlist_request \<Rightarrow> downlist_response \<Rightarrow> 'n \<Rightarrow> (downlist_response, 'n) answer" where
  "client_Downlist = client_call recv_Downlist send_Downlist"

definition process_Downlist ::
  "thrift_lib \<Rightarrow> 's service_if \<Rightarrow> i32 \<Rightarrow> tfield list \<Rightarrow> 's \<Rightarrow> (message \<times> 's) res" where
  "process_Downlist L iface = process_call ''Downlist'' Downlist_args_read DownlistRequest_new Downlist_result_write DownlistResponse_new L (if_Downlist iface)"

section \<open>The method Bootstrap\<close>

definition Bootstrap_args_read :: "tfield list \<Rightarrow> bootstrap_request args \<Rightarrow> bootstrap_request args res" where
  "Bootstrap_args_read = args_read BootstrapRequest_read"

definition Bootstrap_args_write :: "bootstrap_request args \<Rightarrow> tfield list" where
  "Bootstrap_args_write = args_write BootstrapRequest_write"

definition Bootstrap_pargs_write :: "bootstrap_request \<Rightarrow> tfield list" where
  "Bootstrap_pargs_write = pargs_write BootstrapRequest_write"

definition Bootstrap_result_read :: "tfield list \<Rightarrow> bootstrap_response result \<Rightarrow> bootstrap_response result res" where
  "Bootstrap_result_read = result_read BootstrapResponse_read"

definition Bootstrap_result_write :: "bootstrap_response result \<Rightarrow> tfield list" where
  "Bootstrap_result_write = result_write BootstrapResponse_write"

definition Bootstrap_presult_read :: "tfield list \<Rightarrow> bootstrap_response result \<Rightarrow> bootstrap_response result res" where
  "Bootstrap_presult_read = result_read BootstrapResponse_read"

definition send_Bootstrap :: "'n protocol \<Rightarrow> bootstrap_request \<Rightarrow> 'n \<Rightarrow> bool \<times> 'n" where
  "send_Bootstrap = send_call ''Bootstrap'' Bootstrap_pargs_write"

definition recv_Bootstrap :: "thrift_lib \<Rightarrow> 'n protocol \<Rightarrow> bootstrap_response \<Rightarrow> 'n \<Rightarrow> (bootstrap_response, 'n) answer" where
  "recv_Bootstrap = recv_call ''Bootstrap'' Bootstrap_presult_read"

definition client_Bootstrap ::
  "thrift_lib \<Rightarrow> 'n protocol \<Rightarrow> bootstrap_request \<Rightarrow> bootstrap_response \<Rightarrow> 'n \<Rightarrow> (bootstrap_response, 'n) answer" where
  "client_Bootstrap = client_call recv_Bootstrap send_Bootstrap"

definition process_Bootstrap ::
  "thrift_lib \<Rightarrow> 's service_if \<Rightarrow> i32 \<Rightarrow> tfield list \<Rightarrow> 's \<Rightarrow> (message \<times> 's) res" where
  "process_Bootstrap L iface = process_call ''Bootstrap'' Bootstrap_args_read BootstrapRequest_new Bootstrap_result_write BootstrapResponse_new L (if_Bootstrap iface)"

section \<open>The method Delete\<close>

definition Delete_args_read :: "tfield list \<Rightarrow> delete_request args \<Rightarrow> delete_request args res" where
  "Delete_args_read = args_read DeleteRequest_read"

definition Delete_args_write :: "delete_request args \<Rightarrow> tfield list" where
  "Delete_args_write = args_write DeleteRequest_write"

definition Delete_pargs_write :: "delete_request \<Rightarrow> tfield list" where
  "Delete_pargs_write = pargs_write DeleteRequest_write"

definition Delete_result_read :: "tfield list \<Rightarrow> delete_response result \<Rightarrow> delete_response result res" where
  "Delete_result_read = result_read DeleteResponse_read"

definition Delete_result_write :: "delete_response result \<Rightarrow> tfield list" where
  "Delete_result_write = result_write DeleteResponse_write"

definition Delete_presult_read :: "tfield list \<Rightarrow> delete_response result \<Rightarrow> delete_response result res" where
  "Delete_presult_read = result_read DeleteResponse_read"

definition send_Delete :: "'n protocol \<Rightarrow> delete_request \<Rightarrow> 'n \<Rightarrow> bool \<times> 'n" where
  "send_Delete = send_call ''Delete'' Delete_pargs_write"

definition recv_Delete :: "thrift_lib \<Rightarrow> 'n protocol \<Rightarrow> delete_response \<Rightarrow> 'n \<Rightarrow> (delete_response, 'n) answer" where
  "recv_Delete = recv_call ''Delete'' Delete_presult_read"

definition client_Delete ::
  "thrift_lib \<Rightarrow> 'n protocol \<Rightarrow> delete_request \<Rightarrow> delete_response \<Rightarrow> 'n \<Rightarrow> (delete_response, 'n) answer" where
  "client_Delete = client_call recv_Delete send_Delete"

definition process_Delete ::
  "thrift_lib \<Rightarrow> 's service_if \<Rightarrow> i32 \<Rightarrow> tfield list \<Rightarrow> 's \<Rightarrow> (message \<times> 's) res" where
  "process_Delete L iface = process_call ''Delete'' Delete_args_read DeleteRequest_new Delete_result_write DeleteResponse_new L (if_Delete iface)"

section \<open>The method Update\<close>

definition Update_args_read :: "tfield list \<Rightarrow> update_request args \<Rightarrow> update_request args res" where
  "Update_args_read = args_read UpdateRequest_read"

definition Update_args_write :: "update_request args \<Rightarrow> tfield list" where
  "Update_args_write = args_write UpdateRequest_write"

definition Update_pargs_write :: "update_request \<Rightarrow> tfield list" where
  "Update_pargs_write = pargs_write UpdateRequest_write"

definition Update_result_read :: "tfield list \<Rightarrow> update_response result \<Rightarrow> update_response result res" where
  "Update_result_read = result_read UpdateResponse_read"

definition Update_result_write :: "update_response result \<Rightarrow> tfield list" where
  "Update_result_write = result_write UpdateResponse_write"

definition Update_presult_read :: "tfield list \<Rightarrow> update_response result \<Rightarrow> update_response result res" where
  "Update_presult_read = result_read UpdateResponse_read"

definition send_Update :: "'n protocol \<Rightarrow> update_request \<Rightarrow> 'n \<Rightarrow> bool \<times> 'n" where
  "send_Update = send_call ''Update'' Update_pargs_write"

definition recv_Update :: "thrift_lib \<Rightarrow> 'n protocol \<Rightarrow> update_response \<Rightarrow> 'n \<Rightarrow> (update_response, 'n) answer" where
  "recv_Update = recv_call ''Update'' Update_presult_read"

definition client_Update ::
  "thrift_lib \<Rightarrow> 'n protocol \<Rightarrow> update_request \<Rightarrow> update_response \<Rightarrow> 'n \<Rightarrow> (update_response, 'n) answer" where
  "client_Update = client_call recv_Update send_Update"

definition process_Update ::
  "thrift_lib \<Rightarrow> 's service_if \<Rightarrow> i32 \<Rightarrow> tfield list \<Rightarrow> 's \<Rightarrow> (message \<times> 's) res" where
  "process_Update L iface = process_call ''Update'' Update_args_read UpdateRequest_new Update_result_write UpdateResponse_new L (if_Update iface)"

section \<open>The dispatch of the processor\<close>

definition processMap ::
  "thrift_lib \<Rightarrow> 's service_if \<Rightarrow> (string \<times> (i32 \<Rightarrow> tfield list \<Rightarrow> 's \<Rightarrow> (message \<times> 's) res)) list" where
  "processMap L iface =
     [(''Ping'', process_Ping L iface),
      (''FindValue'', process_FindValue L iface),
      (''FindNode'', process_FindNode L iface),
      (''Store'', process_Store L iface),
      (''Downlist'', process_Downlist L iface),
      (''Bootstrap'', process_Bootstrap L iface),
      (''Delete'', process_Delete L iface),
      (''Update'', process_Update L iface)]"

definition process_fn ::
  "thrift_lib \<Rightarrow> 's service_if \<Rightarrow> string \<Rightarrow> i32 \<Rightarrow> tfield list \<Rightarrow> 's \<Rightarrow> (message \<times> 's) res" where
  "process_fn L iface fname seqid body s =
     (case map_of (processMap L iface) fname of
        None \<Rightarrow> Inr (exception_reply L fname seqid
                  (UNKNOWN_METHOD, ''Invalid method name: '' @ [CHR 0x27] @ fname @ [CHR 0x27]), s)
      | Some f \<Rightarrow> f seqid body s)"

definition process :: "thrift_lib \<Rightarrow> 's service_if \<Rightarrow> message \<Rightarrow> 's \<Rightarrow> (message \<times> 's) res" where
  "process L iface m s =
     (if ms_type m \<noteq> T_CALL \<and> ms_type m \<noteq> T_ONEWAY
      then Inr (exception_reply L (ms_name m) (ms_seqid m) (INVALID_MESSAGE_TYPE, []), s)
      else process_fn L iface (ms_name m) (ms_seqid m) (ms_body m) s)"

section \<open>Generated implementations of the interface\<close>

definition null_call :: "('q, 'r, 's) handler" where
  "null_call request ret s = Inr (s, Inr ret)"

definition KademliaServiceNull :: "'s service_if" where
  "KademliaServiceNull =
     \<lparr>if_Ping = null_call,
      if_FindValue = null_call,
      if_FindNode = null_call,
      if_Store = null_call,
      if_Downlist = null_call,
      if_Bootstrap = null_call,
      if_Delete = null_call,
      if_Update = null_call\<rparr>"

text \<open>Every interface of the list gets the call and the response of the one before it.\<close>

fun multi_call :: "('q, 'r, 's) handler list \<Rightarrow> ('q, 'r, 's) handler" where
  "multi_call [] request ret s = Inr (s, Inr ret)"
| "multi_call (h # hs) request ret s =
     bind_res (h request ret s) (\<lambda>(s', outcome).
       case outcome of
         Inl what \<Rightarrow> Inr (s', Inl what)
       | Inr ret' \<Rightarrow> multi_call hs request ret' s')"

definition KademliaServiceMultiface :: "'s service_if list \<Rightarrow> 's service_if" where
  "KademliaServiceMultiface ifaces =
     \<lparr>if_Ping = multi_call (map if_Ping ifaces),
      if_FindValue = multi_call (map if_FindValue ifaces),
      if_FindNode = multi_call (map if_FindNode ifaces),
      if_Store = multi_call (map if_Store ifaces),
      if_Downlist = multi_call (map if_Downlist ifaces),
      if_Bootstrap = multi_call (map if_Bootstrap ifaces),
      if_Delete = multi_call (map if_Delete ifaces),
      if_Update = multi_call (map if_Update ifaces)\<rparr>"

end
