(* ===== verification/KadRpcs.thy ===== *)
theory KadRpcs
  imports ThriftService "HOL-Library.Word"
begin

text \<open>
  \<open>KadRpcs\<close> (\<open>src/kademlia/kadrpc.cpp\<close>), the user of the generated client. \<open>rpc_net\<close> holds the transport
  and the protocol over it, which act on the state \<open>'n\<close> of the network; \<open>open\<close> says whether it returns
  without a \<open>TException\<close>. Every method has the same frame, \<open>with_transport\<close>: open, call, close, and an
  exception ends the method quietly, the transport not closed. The addresses the methods are given
  are not used by the code, since the transport is that of the constructor.
\<close>

record 'n rpc_net =
  rn_open :: "'n \<Rightarrow> bool \<times> 'n"
  rn_close :: "'n \<Rightarrow> 'n"
  rn_lib :: thrift_lib
  rn_protocol :: "'n protocol"

record kad_rpcs =
  kr_info :: contact_info

definition KadRpcs_new :: kad_rpcs where
  "KadRpcs_new = \<lparr>kr_info = ContactInfo_new\<rparr>"

definition set_info :: "contact_info \<Rightarrow> kad_rpcs \<Rightarrow> kad_rpcs" where
  "set_info info c = c\<lparr>kr_info := info\<rparr>"

definition with_transport :: "'n rpc_net \<Rightarrow> ('r \<Rightarrow> 'n \<Rightarrow> ('r, 'n) answer) \<Rightarrow> 'r \<Rightarrow> 'n \<Rightarrow> ('r \<times> 'n) res" where
  "with_transport N call resp n =
     (let (opened, n1) = rn_open N n in
      if \<not> opened then Inr (resp, n1)
      else bind_res (call resp n1) (\<lambda>(resp', thrown, n2).
        if thrown \<noteq> None then Inr (resp', n2) else Inr (resp', rn_close N n2)))"

section \<open>The calls\<close>

definition rpc_FindNode ::
  "'n rpc_net \<Rightarrow> kad_rpcs \<Rightarrow> string \<Rightarrow> find_response \<Rightarrow> 'n \<Rightarrow> (find_response \<times> 'n) res" where
  "rpc_FindNode N c key resp n =
     (let args = (if fr_requester_ext_addr resp \<noteq> [] then FindRequest_new\<lparr>fq_is_boostrap := True\<rparr>
                  else FindRequest_new);
          args = args\<lparr>fq_key := key, fq_sender_info := kr_info c\<rparr>
      in with_transport N (client_FindNode (rn_lib N) (rn_protocol N) args) resp n)"

definition rpc_FindValue ::
  "'n rpc_net \<Rightarrow> kad_rpcs \<Rightarrow> string \<Rightarrow> find_response \<Rightarrow> 'n \<Rightarrow> (find_response \<times> 'n) res" where
  "rpc_FindValue N c key resp n =
     (let args = FindRequest_new\<lparr>fq_key := key, fq_sender_info := kr_info c\<rparr>
      in with_transport N (client_FindValue (rn_lib N) (rn_protocol N) args) resp n)"

definition rpc_Ping :: "'n rpc_net \<Rightarrow> kad_rpcs \<Rightarrow> ping_response \<Rightarrow> 'n \<Rightarrow> (ping_response \<times> 'n) res" where
  "rpc_Ping N c resp n =
     (let args = PingRequest_new\<lparr>pq_sender_info := kr_info c, pq_ping := ''ping''\<rparr>
      in with_transport N (client_Ping (rn_lib N) (rn_protocol N) args) resp n)"

definition rpc_Store_string ::
  "'n rpc_net \<Rightarrow> kad_rpcs \<Rightarrow> string \<Rightarrow> string \<Rightarrow> 32 word \<Rightarrow> bool \<Rightarrow> store_response \<Rightarrow> 'n \<Rightarrow> (store_response \<times> 'n) res" where
  "rpc_Store_string N c key value ttl publish resp n =
     (let args = StoreRequest_new\<lparr>tq_key := key, tq_value := value, tq_ttl := ttl, tq_publish := publish,
                   tq_sender_info := kr_info c\<rparr>
      in with_transport N (client_Store (rn_lib N) (rn_protocol N) args) resp n)"

definition rpc_Store_signed ::
  "'n rpc_net \<Rightarrow> kad_rpcs \<Rightarrow> string \<Rightarrow> signed_value \<Rightarrow> 32 word \<Rightarrow> bool \<Rightarrow> store_response \<Rightarrow> 'n \<Rightarrow>
     (store_response \<times> 'n) res" where
  "rpc_Store_signed N c key value ttl publish resp n =
     (let args = StoreRequest_new\<lparr>tq_key := key, tq_value := sv_value value, tq_ttl := ttl,
                   tq_publish := publish, tq_sender_info := kr_info c\<rparr>
      in with_transport N (client_Store (rn_lib N) (rn_protocol N) args) resp n)"

definition rpc_Downlist ::
  "'n rpc_net \<Rightarrow> kad_rpcs \<Rightarrow> contact_info list \<Rightarrow> downlist_response \<Rightarrow> 'n \<Rightarrow> (downlist_response \<times> 'n) res" where
  "rpc_Downlist N c downlist resp n =
     (let args = fold (\<lambda>info args. args\<lparr>dq_downlist := dq_downlist args @ [info]\<rparr>) downlist DownlistRequest_new;
          args = args\<lparr>dq_sender_info := kr_info c\<rparr>
      in with_transport N (client_Downlist (rn_lib N) (rn_protocol N) args) resp n)"

definition rpc_Bootstrap ::
  "'n rpc_net \<Rightarrow> string \<Rightarrow> string \<Rightarrow> 16 word \<Rightarrow> bootstrap_response \<Rightarrow> 'n \<Rightarrow> (bootstrap_response \<times> 'n) res" where
  "rpc_Bootstrap N local_id local_ip local_port resp n =
     (let args = BootstrapRequest_new\<lparr>bq_newcomer_id := local_id, bq_newcomer_local_ip := local_ip,
                   bq_newcomer_local_port := ucast local_port\<rparr>
      in with_transport N (client_Bootstrap (rn_lib N) (rn_protocol N) args) resp n)"

definition rpc_Delete ::
  "'n rpc_net \<Rightarrow> kad_rpcs \<Rightarrow> string \<Rightarrow> signed_value \<Rightarrow> signed_request \<Rightarrow> delete_response \<Rightarrow> 'n \<Rightarrow>
     (delete_response \<times> 'n) res" where
  "rpc_Delete N c key value sig_req resp n =
     (let args = DeleteRequest_new\<lparr>eq_key := key, eq_value := value, eq_sender_info := kr_info c,
                   eq_signed_request := sig_req\<rparr>
      in with_transport N (client_Delete (rn_lib N) (rn_protocol N) args) resp n)"

end
