(* ===== verification/KadMessagesWire.thy ===== *)
theory KadMessagesWire
  imports KadMessages "HOL-Library.Word"
begin

text \<open>
  What the messages carry. \<open>X_merge m m0\<close> is the object \<open>m0\<close> after it has read what \<open>m\<close> wrote: every
  required field and the optional fields whose flag \<open>m\<close> has set are those of \<open>m\<close>, the others stay.
  \<open>X_sent\<close> are the objects that say of themselves what they carry, which read back as they are; the others,
  such as the node's own requests whose flags are not all set, read back as objects that are equal to them
  by \<open>operator ==\<close>.
\<close>

named_theorems wire "reading what an object wrote"

lemma read_fields_Nil [wire]: "read_fields f [] m = Inr m"
  by (simp add: read_fields_def)

lemma read_fields_Cons [wire]: "read_fields f ((i, v) # fs) m = bind_res (f i v m) (read_fields f fs)"
  by (cases "f i v m") (simp_all add: read_fields_def)

lemma read_fields_append:
  "read_fields f (fs @ gs) m = bind_res (read_fields f fs m) (read_fields f gs)"
  unfolding read_fields_def [abs_def] by (rule fold_res_append)

text \<open>A field of an id the class does not know is skipped, wherever it stands.\<close>

lemma read_fields_skip:
  assumes "\<And>m. f i v m = Inr m"
  shows "read_fields f (fs @ (i, v) # gs) m = read_fields f (fs @ gs) m"
proof -
  have "read_fields f ((i, v) # gs) = read_fields f gs" by (rule ext) (simp add: read_fields_Cons assms)
  then show ?thesis by (simp add: read_fields_append)
qed

lemma read_strings [wire]: "read_list read_string (map V_String xs) = Inr xs"
  by (induction xs) auto

lemma read_structs [wire]:
  assumes "\<And>x. read (write x) new = Inr (g x)"
  shows "read_list (read_struct read new) (map (\<lambda>x. V_Struct (write x)) xs) = Inr (map g xs)"
  by (induction xs) (auto simp: assms)

lemma map_sent: "list_all sent xs \<Longrightarrow> (\<And>x. sent x \<Longrightarrow> g x = x) \<Longrightarrow> map g xs = xs"
  by (induction xs) auto

section \<open>Equality\<close>

text \<open>Two objects are equal exactly when they write the same fields.\<close>

named_theorems wire_eq "equality of objects as equality of what they write"

lemma optional_field_eq:
  "((if c then [p] else []) = (if d then [q] else [])) \<longleftrightarrow> (c \<longleftrightarrow> d) \<and> (c \<longrightarrow> p = q)"
  by auto

lemma filter_optional: "filter P (if c then [p] else []) = (if c \<and> P p then [p] else [])"
  by simp

lemma map_structs_eq:
  assumes "\<And>x y. eq x y \<longleftrightarrow> write x = write y"
  shows "map (\<lambda>x. V_Struct (write x)) xs = map (\<lambda>x. V_Struct (write x)) ys \<longleftrightarrow> list_all2 eq xs ys"
  by (simp add: assms list_all2_conv_all_nth list_eq_iff_nth_eq cong: conj_cong)

lemma map_strings_eq [simp]: "map V_String xs = map V_String ys \<longleftrightarrow> xs = ys"
  by (simp add: inj_map_eq_map inj_def)

lemma ContactInfo_eq_write [wire_eq]: "ContactInfo_write m = ContactInfo_write rhs \<longleftrightarrow> ContactInfo_eq m rhs"
proof
  assume "ContactInfo_write m = ContactInfo_write rhs"
  then have "filter (\<lambda>p. fst p = i) (ContactInfo_write m) = filter (\<lambda>p. fst p = i) (ContactInfo_write rhs)" for i
    by simp
  from this [of 1] this [of 2] this [of 3] this [of 4] this [of 5] this [of 6] this [of 7] show "ContactInfo_eq m rhs"
    by (simp add: ContactInfo_write_def ContactInfo_eq_def filter_optional optional_field_eq wire_eq)
qed (auto simp: ContactInfo_write_def ContactInfo_eq_def wire_eq)

lemmas ContactInfo_map_eq [wire_eq] = map_structs_eq [of ContactInfo_eq ContactInfo_write, OF ContactInfo_eq_write [symmetric]]

lemma SignedValue_eq_write [wire_eq]: "SignedValue_write m = SignedValue_write rhs \<longleftrightarrow> SignedValue_eq m rhs"
  by (simp add: SignedValue_write_def SignedValue_eq_def wire_eq)

lemmas SignedValue_map_eq [wire_eq] = map_structs_eq [of SignedValue_eq SignedValue_write, OF SignedValue_eq_write [symmetric]]

lemma SignedRequest_eq_write [wire_eq]: "SignedRequest_write m = SignedRequest_write rhs \<longleftrightarrow> SignedRequest_eq m rhs"
  by (simp add: SignedRequest_write_def SignedRequest_eq_def wire_eq)

lemma PingRequest_eq_write [wire_eq]: "PingRequest_write m = PingRequest_write rhs \<longleftrightarrow> PingRequest_eq m rhs"
  by (simp add: PingRequest_write_def PingRequest_eq_def wire_eq)

lemma PingResponse_eq_write [wire_eq]: "PingResponse_write m = PingResponse_write rhs \<longleftrightarrow> PingResponse_eq m rhs"
proof
  assume "PingResponse_write m = PingResponse_write rhs"
  then have "filter (\<lambda>p. fst p = i) (PingResponse_write m) = filter (\<lambda>p. fst p = i) (PingResponse_write rhs)" for i
    by simp
  from this [of 1] this [of 2] this [of 3] show "PingResponse_eq m rhs"
    by (simp add: PingResponse_write_def PingResponse_eq_def filter_optional optional_field_eq wire_eq)
qed (auto simp: PingResponse_write_def PingResponse_eq_def wire_eq)

lemma FindRequest_eq_write [wire_eq]: "FindRequest_write m = FindRequest_write rhs \<longleftrightarrow> FindRequest_eq m rhs"
proof
  assume "FindRequest_write m = FindRequest_write rhs"
  then have "filter (\<lambda>p. fst p = i) (FindRequest_write m) = filter (\<lambda>p. fst p = i) (FindRequest_write rhs)" for i
    by simp
  from this [of 1] this [of 2] this [of 3] this [of 4] this [of 5] show "FindRequest_eq m rhs"
    by (simp add: FindRequest_write_def FindRequest_eq_def filter_optional optional_field_eq wire_eq)
qed (auto simp: FindRequest_write_def FindRequest_eq_def wire_eq)

lemma FindResponse_eq_write [wire_eq]: "FindResponse_write m = FindResponse_write rhs \<longleftrightarrow> FindResponse_eq m rhs"
proof
  assume "FindResponse_write m = FindResponse_write rhs"
  then have "filter (\<lambda>p. fst p = i) (FindResponse_write m) = filter (\<lambda>p. fst p = i) (FindResponse_write rhs)" for i
    by simp
  from this [of 1] this [of 2] this [of 3] this [of 4] this [of 5] this [of 6] this [of 7] this [of 8] show "FindResponse_eq m rhs"
    by (simp add: FindResponse_write_def FindResponse_eq_def filter_optional optional_field_eq wire_eq)
qed (auto simp: FindResponse_write_def FindResponse_eq_def wire_eq)

lemma FindNodeResult_eq_write [wire_eq]: "FindNodeResult_write m = FindNodeResult_write rhs \<longleftrightarrow> FindNodeResult_eq m rhs"
proof
  assume "FindNodeResult_write m = FindNodeResult_write rhs"
  then have "filter (\<lambda>p. fst p = i) (FindNodeResult_write m) = filter (\<lambda>p. fst p = i) (FindNodeResult_write rhs)" for i
    by simp
  from this [of 1] this [of 2] this [of 3] show "FindNodeResult_eq m rhs"
    by (simp add: FindNodeResult_write_def FindNodeResult_eq_def filter_optional optional_field_eq wire_eq)
qed (auto simp: FindNodeResult_write_def FindNodeResult_eq_def wire_eq)

lemma StoreRequest_eq_write [wire_eq]: "StoreRequest_write m = StoreRequest_write rhs \<longleftrightarrow> StoreRequest_eq m rhs"
proof
  assume "StoreRequest_write m = StoreRequest_write rhs"
  then have "filter (\<lambda>p. fst p = i) (StoreRequest_write m) = filter (\<lambda>p. fst p = i) (StoreRequest_write rhs)" for i
    by simp
  from this [of 1] this [of 2] this [of 3] this [of 4] this [of 5] this [of 6] this [of 7] show "StoreRequest_eq m rhs"
    by (simp add: StoreRequest_write_def StoreRequest_eq_def filter_optional optional_field_eq wire_eq)
qed (auto simp: StoreRequest_write_def StoreRequest_eq_def wire_eq)

lemma StoreResponse_eq_write [wire_eq]: "StoreResponse_write m = StoreResponse_write rhs \<longleftrightarrow> StoreResponse_eq m rhs"
proof
  assume "StoreResponse_write m = StoreResponse_write rhs"
  then have "filter (\<lambda>p. fst p = i) (StoreResponse_write m) = filter (\<lambda>p. fst p = i) (StoreResponse_write rhs)" for i
    by simp
  from this [of 1] this [of 2] this [of 4] show "StoreResponse_eq m rhs"
    by (simp add: StoreResponse_write_def StoreResponse_eq_def filter_optional optional_field_eq wire_eq)
qed (auto simp: StoreResponse_write_def StoreResponse_eq_def wire_eq)

lemma DownlistRequest_eq_write [wire_eq]: "DownlistRequest_write m = DownlistRequest_write rhs \<longleftrightarrow> DownlistRequest_eq m rhs"
  by (simp add: DownlistRequest_write_def DownlistRequest_eq_def wire_eq)

lemma DownlistResponse_eq_write [wire_eq]: "DownlistResponse_write m = DownlistResponse_write rhs \<longleftrightarrow> DownlistResponse_eq m rhs"
proof
  assume "DownlistResponse_write m = DownlistResponse_write rhs"
  then have "filter (\<lambda>p. fst p = i) (DownlistResponse_write m) = filter (\<lambda>p. fst p = i) (DownlistResponse_write rhs)" for i
    by simp
  from this [of 1] this [of 2] show "DownlistResponse_eq m rhs"
    by (simp add: DownlistResponse_write_def DownlistResponse_eq_def filter_optional optional_field_eq wire_eq)
qed (auto simp: DownlistResponse_write_def DownlistResponse_eq_def wire_eq)

lemma BootstrapRequest_eq_write [wire_eq]: "BootstrapRequest_write m = BootstrapRequest_write rhs \<longleftrightarrow> BootstrapRequest_eq m rhs"
proof
  assume "BootstrapRequest_write m = BootstrapRequest_write rhs"
  then have "filter (\<lambda>p. fst p = i) (BootstrapRequest_write m) = filter (\<lambda>p. fst p = i) (BootstrapRequest_write rhs)" for i
    by simp
  from this [of 1] this [of 2] this [of 3] this [of 5] this [of 6] this [of 7] show "BootstrapRequest_eq m rhs"
    by (simp add: BootstrapRequest_write_def BootstrapRequest_eq_def filter_optional optional_field_eq wire_eq)
qed (auto simp: BootstrapRequest_write_def BootstrapRequest_eq_def wire_eq)

lemma BootstrapResponse_eq_write [wire_eq]: "BootstrapResponse_write m = BootstrapResponse_write rhs \<longleftrightarrow> BootstrapResponse_eq m rhs"
proof
  assume "BootstrapResponse_write m = BootstrapResponse_write rhs"
  then have "filter (\<lambda>p. fst p = i) (BootstrapResponse_write m) = filter (\<lambda>p. fst p = i) (BootstrapResponse_write rhs)" for i
    by simp
  from this [of 1] this [of 2] this [of 3] this [of 4] this [of 5] show "BootstrapResponse_eq m rhs"
    by (simp add: BootstrapResponse_write_def BootstrapResponse_eq_def filter_optional optional_field_eq wire_eq)
qed (auto simp: BootstrapResponse_write_def BootstrapResponse_eq_def wire_eq)

lemma DeleteRequest_eq_write [wire_eq]: "DeleteRequest_write m = DeleteRequest_write rhs \<longleftrightarrow> DeleteRequest_eq m rhs"
  by (simp add: DeleteRequest_write_def DeleteRequest_eq_def wire_eq)

lemma DeleteResponse_eq_write [wire_eq]: "DeleteResponse_write m = DeleteResponse_write rhs \<longleftrightarrow> DeleteResponse_eq m rhs"
proof
  assume "DeleteResponse_write m = DeleteResponse_write rhs"
  then have "filter (\<lambda>p. fst p = i) (DeleteResponse_write m) = filter (\<lambda>p. fst p = i) (DeleteResponse_write rhs)" for i
    by simp
  from this [of 1] this [of 2] show "DeleteResponse_eq m rhs"
    by (simp add: DeleteResponse_write_def DeleteResponse_eq_def filter_optional optional_field_eq wire_eq)
qed (auto simp: DeleteResponse_write_def DeleteResponse_eq_def wire_eq)

lemma UpdateRequest_eq_write [wire_eq]: "UpdateRequest_write m = UpdateRequest_write rhs \<longleftrightarrow> UpdateRequest_eq m rhs"
  by (simp add: UpdateRequest_write_def UpdateRequest_eq_def wire_eq)

lemma UpdateResponse_eq_write [wire_eq]: "UpdateResponse_write m = UpdateResponse_write rhs \<longleftrightarrow> UpdateResponse_eq m rhs"
proof
  assume "UpdateResponse_write m = UpdateResponse_write rhs"
  then have "filter (\<lambda>p. fst p = i) (UpdateResponse_write m) = filter (\<lambda>p. fst p = i) (UpdateResponse_write rhs)" for i
    by simp
  from this [of 1] this [of 2] show "UpdateResponse_eq m rhs"
    by (simp add: UpdateResponse_write_def UpdateResponse_eq_def filter_optional optional_field_eq wire_eq)
qed (auto simp: UpdateResponse_write_def UpdateResponse_eq_def wire_eq)

section \<open>Reading what was written\<close>

definition ContactInfo_merge :: "contact_info \<Rightarrow> contact_info \<Rightarrow> contact_info" where
  "ContactInfo_merge m m0 = m0
     \<lparr>ci_node_id := ci_node_id m, ci_ip := ci_ip m, ci_port := ci_port m,
      ci_local_ip := (if 4 \<in> ci_isset m then ci_local_ip m else ci_local_ip m0),
      ci_local_port := (if 5 \<in> ci_isset m then ci_local_port m else ci_local_port m0),
      ci_rendezvous_ip := (if 6 \<in> ci_isset m then ci_rendezvous_ip m else ci_rendezvous_ip m0),
      ci_rendezvous_port := (if 7 \<in> ci_isset m then ci_rendezvous_port m else ci_rendezvous_port m0),
      ci_isset := ci_isset m0 \<union> {1, 2, 3} \<union> (ci_isset m \<inter> {4, 5, 6, 7})\<rparr>"

lemma ContactInfo_read_write [wire]: "ContactInfo_read (ContactInfo_write m) m0 = Inr (ContactInfo_merge m m0)"
  by (cases m0) (auto simp: ContactInfo_read_def ContactInfo_write_def ContactInfo_field_def ContactInfo_merge_def wire)

definition ContactInfo_sent :: "contact_info \<Rightarrow> bool" where
  "ContactInfo_sent m \<longleftrightarrow>
     (4 \<notin> ci_isset m \<longrightarrow> ci_local_ip m = []) \<and>
     (5 \<notin> ci_isset m \<longrightarrow> ci_local_port m = 0) \<and>
     (6 \<notin> ci_isset m \<longrightarrow> ci_rendezvous_ip m = []) \<and>
     (7 \<notin> ci_isset m \<longrightarrow> ci_rendezvous_port m = 0) \<and>
     {1, 2, 3} \<subseteq> ci_isset m \<and>
     ci_isset m \<subseteq> {1, 2, 3, 4, 5, 6, 7}"

lemma ContactInfo_merge_new [wire]: "ContactInfo_sent m \<Longrightarrow> ContactInfo_merge m ContactInfo_new = m"
  by (cases m) (auto simp: ContactInfo_merge_def ContactInfo_sent_def ContactInfo_new_def wire)

lemmas ContactInfo_map_sent [wire] = map_sent [where sent = ContactInfo_sent and g = "\<lambda>x. ContactInfo_merge x ContactInfo_new", OF _ ContactInfo_merge_new]

definition SignedValue_merge :: "signed_value \<Rightarrow> signed_value \<Rightarrow> signed_value" where
  "SignedValue_merge m m0 = m0
     \<lparr>sv_value := sv_value m, sv_value_signature := sv_value_signature m,
      sv_isset := sv_isset m0 \<union> {1, 2}\<rparr>"

lemma SignedValue_read_write [wire]: "SignedValue_read (SignedValue_write m) m0 = Inr (SignedValue_merge m m0)"
  by (cases m0) (auto simp: SignedValue_read_def SignedValue_write_def SignedValue_field_def SignedValue_merge_def wire)

definition SignedValue_sent :: "signed_value \<Rightarrow> bool" where
  "SignedValue_sent m \<longleftrightarrow>
     {1, 2} \<subseteq> sv_isset m \<and>
     sv_isset m \<subseteq> {1, 2}"

lemma SignedValue_merge_new [wire]: "SignedValue_sent m \<Longrightarrow> SignedValue_merge m SignedValue_new = m"
  by (cases m) (auto simp: SignedValue_merge_def SignedValue_sent_def SignedValue_new_def wire)

lemmas SignedValue_map_sent [wire] = map_sent [where sent = SignedValue_sent and g = "\<lambda>x. SignedValue_merge x SignedValue_new", OF _ SignedValue_merge_new]

definition SignedRequest_merge :: "signed_request \<Rightarrow> signed_request \<Rightarrow> signed_request" where
  "SignedRequest_merge m m0 = m0
     \<lparr>sr_signer_id := sr_signer_id m, sr_public_key := sr_public_key m,
      sr_signed_public_key := sr_signed_public_key m, sr_signed_request := sr_signed_request m,
      sr_isset := sr_isset m0 \<union> {1, 2, 3, 4}\<rparr>"

lemma SignedRequest_read_write [wire]: "SignedRequest_read (SignedRequest_write m) m0 = Inr (SignedRequest_merge m m0)"
  by (cases m0) (auto simp: SignedRequest_read_def SignedRequest_write_def SignedRequest_field_def SignedRequest_merge_def wire)

definition SignedRequest_sent :: "signed_request \<Rightarrow> bool" where
  "SignedRequest_sent m \<longleftrightarrow>
     {1, 2, 3, 4} \<subseteq> sr_isset m \<and>
     sr_isset m \<subseteq> {1, 2, 3, 4}"

lemma SignedRequest_merge_new [wire]: "SignedRequest_sent m \<Longrightarrow> SignedRequest_merge m SignedRequest_new = m"
  by (cases m) (auto simp: SignedRequest_merge_def SignedRequest_sent_def SignedRequest_new_def wire)

definition PingRequest_merge :: "ping_request \<Rightarrow> ping_request \<Rightarrow> ping_request" where
  "PingRequest_merge m m0 = m0
     \<lparr>pq_ping := pq_ping m,
      pq_sender_info := ContactInfo_merge (pq_sender_info m) (pq_sender_info m0),
      pq_isset := pq_isset m0 \<union> {1, 2}\<rparr>"

lemma PingRequest_read_write [wire]: "PingRequest_read (PingRequest_write m) m0 = Inr (PingRequest_merge m m0)"
  by (cases m0) (auto simp: PingRequest_read_def PingRequest_write_def PingRequest_field_def PingRequest_merge_def wire)

definition PingRequest_sent :: "ping_request \<Rightarrow> bool" where
  "PingRequest_sent m \<longleftrightarrow>
     ContactInfo_sent (pq_sender_info m) \<and>
     {1, 2} \<subseteq> pq_isset m \<and>
     pq_isset m \<subseteq> {1, 2}"

lemma PingRequest_merge_new [wire]: "PingRequest_sent m \<Longrightarrow> PingRequest_merge m PingRequest_new = m"
  by (cases m) (auto simp: PingRequest_merge_def PingRequest_sent_def PingRequest_new_def wire)

definition PingResponse_merge :: "ping_response \<Rightarrow> ping_response \<Rightarrow> ping_response" where
  "PingResponse_merge m m0 = m0
     \<lparr>pr_result := pr_result m, pr_echo := (if 2 \<in> pr_isset m then pr_echo m else pr_echo m0),
      pr_node_id := (if 3 \<in> pr_isset m then pr_node_id m else pr_node_id m0),
      pr_isset := pr_isset m0 \<union> {1} \<union> (pr_isset m \<inter> {2, 3})\<rparr>"

lemma PingResponse_read_write [wire]: "PingResponse_read (PingResponse_write m) m0 = Inr (PingResponse_merge m m0)"
  by (cases m0) (auto simp: PingResponse_read_def PingResponse_write_def PingResponse_field_def PingResponse_merge_def wire)

definition PingResponse_sent :: "ping_response \<Rightarrow> bool" where
  "PingResponse_sent m \<longleftrightarrow>
     (2 \<notin> pr_isset m \<longrightarrow> pr_echo m = []) \<and>
     (3 \<notin> pr_isset m \<longrightarrow> pr_node_id m = []) \<and>
     {1} \<subseteq> pr_isset m \<and>
     pr_isset m \<subseteq> {1, 2, 3}"

lemma PingResponse_merge_new [wire]: "PingResponse_sent m \<Longrightarrow> PingResponse_merge m PingResponse_new = m"
  by (cases m) (auto simp: PingResponse_merge_def PingResponse_sent_def PingResponse_new_def wire)

definition FindRequest_merge :: "find_request \<Rightarrow> find_request \<Rightarrow> find_request" where
  "FindRequest_merge m m0 = m0
     \<lparr>fq_key := fq_key m,
      fq_sender_info := ContactInfo_merge (fq_sender_info m) (fq_sender_info m0),
      fq_is_boostrap := (if 3 \<in> fq_isset m then fq_is_boostrap m else fq_is_boostrap m0),
      fq_sender_ext_ip := (if 4 \<in> fq_isset m then fq_sender_ext_ip m else fq_sender_ext_ip m0),
      fq_sender_ext_port := (if 5 \<in> fq_isset m then fq_sender_ext_port m else fq_sender_ext_port m0),
      fq_isset := fq_isset m0 \<union> {1, 2} \<union> (fq_isset m \<inter> {3, 4, 5})\<rparr>"

lemma FindRequest_read_write [wire]: "FindRequest_read (FindRequest_write m) m0 = Inr (FindRequest_merge m m0)"
  by (cases m0) (auto simp: FindRequest_read_def FindRequest_write_def FindRequest_field_def FindRequest_merge_def wire)

definition FindRequest_sent :: "find_request \<Rightarrow> bool" where
  "FindRequest_sent m \<longleftrightarrow>
     ContactInfo_sent (fq_sender_info m) \<and>
     (3 \<notin> fq_isset m \<longrightarrow> fq_is_boostrap m = False) \<and>
     (4 \<notin> fq_isset m \<longrightarrow> fq_sender_ext_ip m = []) \<and>
     (5 \<notin> fq_isset m \<longrightarrow> fq_sender_ext_port m = 0) \<and>
     {1, 2} \<subseteq> fq_isset m \<and>
     fq_isset m \<subseteq> {1, 2, 3, 4, 5}"

lemma FindRequest_merge_new [wire]: "FindRequest_sent m \<Longrightarrow> FindRequest_merge m FindRequest_new = m"
  by (cases m) (auto simp: FindRequest_merge_def FindRequest_sent_def FindRequest_new_def wire)

definition FindResponse_merge :: "find_response \<Rightarrow> find_response \<Rightarrow> find_response" where
  "FindResponse_merge m m0 = m0
     \<lparr>fr_result := fr_result m,
      fr_closest_nodes := map (\<lambda>x. ContactInfo_merge x ContactInfo_new) (fr_closest_nodes m),
      fr_values := fr_values m,
      fr_signed_values := map (\<lambda>x. SignedValue_merge x SignedValue_new) (fr_signed_values m),
      fr_alternative_value_holder := (if 5 \<in> fr_isset m then ContactInfo_merge (fr_alternative_value_holder m) (fr_alternative_value_holder m0) else fr_alternative_value_holder m0),
      fr_needs_cache_copy := (if 6 \<in> fr_isset m then fr_needs_cache_copy m else fr_needs_cache_copy m0),
      fr_requester_ext_addr := (if 7 \<in> fr_isset m then fr_requester_ext_addr m else fr_requester_ext_addr m0),
      fr_node_id := (if 8 \<in> fr_isset m then fr_node_id m else fr_node_id m0),
      fr_isset := fr_isset m0 \<union> {1, 2, 3, 4} \<union> (fr_isset m \<inter> {5, 6, 7, 8})\<rparr>"

lemma FindResponse_read_write [wire]: "FindResponse_read (FindResponse_write m) m0 = Inr (FindResponse_merge m m0)"
  by (cases m0) (auto simp: FindResponse_read_def FindResponse_write_def FindResponse_field_def FindResponse_merge_def wire)

definition FindResponse_sent :: "find_response \<Rightarrow> bool" where
  "FindResponse_sent m \<longleftrightarrow>
     list_all ContactInfo_sent (fr_closest_nodes m) \<and>
     list_all SignedValue_sent (fr_signed_values m) \<and>
     (if 5 \<in> fr_isset m then ContactInfo_sent (fr_alternative_value_holder m) else fr_alternative_value_holder m = ContactInfo_new) \<and>
     (6 \<notin> fr_isset m \<longrightarrow> fr_needs_cache_copy m = []) \<and>
     (7 \<notin> fr_isset m \<longrightarrow> fr_requester_ext_addr m = []) \<and>
     (8 \<notin> fr_isset m \<longrightarrow> fr_node_id m = []) \<and>
     {1, 2, 3, 4} \<subseteq> fr_isset m \<and>
     fr_isset m \<subseteq> {1, 2, 3, 4, 5, 6, 7, 8}"

lemma FindResponse_merge_new [wire]:
  assumes "FindResponse_sent m"
  shows "FindResponse_merge m FindResponse_new = m"
proof -
  have "insert 1 (insert 2 (insert 3 (insert 4 (fr_isset m \<inter> {5, 6, 7, 8})))) = fr_isset m"
    using assms unfolding FindResponse_sent_def by blast
  with assms show ?thesis unfolding FindResponse_sent_def
    by (intro find_response.equality) (simp_all add: FindResponse_merge_def FindResponse_new_def wire split: if_splits)
qed

definition FindNodeResult_merge :: "find_node_result \<Rightarrow> find_node_result \<Rightarrow> find_node_result" where
  "FindNodeResult_merge m m0 = m0
     \<lparr>fn_result := fn_result m,
      fn_contact := (if 2 \<in> fn_isset m then fn_contact m else fn_contact m0),
      fn_node_id := (if 3 \<in> fn_isset m then fn_node_id m else fn_node_id m0),
      fn_isset := fn_isset m0 \<union> {1} \<union> (fn_isset m \<inter> {2, 3})\<rparr>"

lemma FindNodeResult_read_write [wire]: "FindNodeResult_read (FindNodeResult_write m) m0 = Inr (FindNodeResult_merge m m0)"
  by (cases m0) (auto simp: FindNodeResult_read_def FindNodeResult_write_def FindNodeResult_field_def FindNodeResult_merge_def wire)

definition FindNodeResult_sent :: "find_node_result \<Rightarrow> bool" where
  "FindNodeResult_sent m \<longleftrightarrow>
     (2 \<notin> fn_isset m \<longrightarrow> fn_contact m = []) \<and>
     (3 \<notin> fn_isset m \<longrightarrow> fn_node_id m = []) \<and>
     {1} \<subseteq> fn_isset m \<and>
     fn_isset m \<subseteq> {1, 2, 3}"

lemma FindNodeResult_merge_new [wire]: "FindNodeResult_sent m \<Longrightarrow> FindNodeResult_merge m FindNodeResult_new = m"
  by (cases m) (auto simp: FindNodeResult_merge_def FindNodeResult_sent_def FindNodeResult_new_def wire)

definition StoreRequest_merge :: "store_request \<Rightarrow> store_request \<Rightarrow> store_request" where
  "StoreRequest_merge m m0 = m0
     \<lparr>tq_key := tq_key m, tq_value := (if 2 \<in> tq_isset m then tq_value m else tq_value m0),
      tq_sig_value := (if 3 \<in> tq_isset m then SignedValue_merge (tq_sig_value m) (tq_sig_value m0) else tq_sig_value m0),
      tq_ttl := tq_ttl m,
      tq_sender_info := ContactInfo_merge (tq_sender_info m) (tq_sender_info m0),
      tq_publish := tq_publish m,
      tq_signed_request := (if 7 \<in> tq_isset m then SignedRequest_merge (tq_signed_request m) (tq_signed_request m0) else tq_signed_request m0),
      tq_isset := tq_isset m0 \<union> {1, 4, 5, 6} \<union> (tq_isset m \<inter> {2, 3, 7})\<rparr>"

lemma StoreRequest_read_write [wire]: "StoreRequest_read (StoreRequest_write m) m0 = Inr (StoreRequest_merge m m0)"
  by (cases m0) (auto simp: StoreRequest_read_def StoreRequest_write_def StoreRequest_field_def StoreRequest_merge_def wire)

definition StoreRequest_sent :: "store_request \<Rightarrow> bool" where
  "StoreRequest_sent m \<longleftrightarrow>
     (2 \<notin> tq_isset m \<longrightarrow> tq_value m = []) \<and>
     (if 3 \<in> tq_isset m then SignedValue_sent (tq_sig_value m) else tq_sig_value m = SignedValue_new) \<and>
     ContactInfo_sent (tq_sender_info m) \<and>
     (if 7 \<in> tq_isset m then SignedRequest_sent (tq_signed_request m) else tq_signed_request m = SignedRequest_new) \<and>
     {1, 4, 5, 6} \<subseteq> tq_isset m \<and>
     tq_isset m \<subseteq> {1, 2, 3, 4, 5, 6, 7}"

lemma StoreRequest_merge_new [wire]: "StoreRequest_sent m \<Longrightarrow> StoreRequest_merge m StoreRequest_new = m"
  by (cases m) (auto simp: StoreRequest_merge_def StoreRequest_sent_def StoreRequest_new_def wire)

definition StoreResponse_merge :: "store_response \<Rightarrow> store_response \<Rightarrow> store_response" where
  "StoreResponse_merge m m0 = m0
     \<lparr>tr_result := tr_result m,
      tr_node_id := (if 2 \<in> tr_isset m then tr_node_id m else tr_node_id m0),
      tr_signed_request := (if 4 \<in> tr_isset m then SignedRequest_merge (tr_signed_request m) (tr_signed_request m0) else tr_signed_request m0),
      tr_isset := tr_isset m0 \<union> {1} \<union> (tr_isset m \<inter> {2, 4})\<rparr>"

lemma StoreResponse_read_write [wire]: "StoreResponse_read (StoreResponse_write m) m0 = Inr (StoreResponse_merge m m0)"
  by (cases m0) (auto simp: StoreResponse_read_def StoreResponse_write_def StoreResponse_field_def StoreResponse_merge_def wire)

definition StoreResponse_sent :: "store_response \<Rightarrow> bool" where
  "StoreResponse_sent m \<longleftrightarrow>
     (2 \<notin> tr_isset m \<longrightarrow> tr_node_id m = []) \<and>
     (if 4 \<in> tr_isset m then SignedRequest_sent (tr_signed_request m) else tr_signed_request m = SignedRequest_new) \<and>
     {1} \<subseteq> tr_isset m \<and>
     tr_isset m \<subseteq> {1, 2, 4}"

lemma StoreResponse_merge_new [wire]: "StoreResponse_sent m \<Longrightarrow> StoreResponse_merge m StoreResponse_new = m"
  by (cases m) (auto simp: StoreResponse_merge_def StoreResponse_sent_def StoreResponse_new_def wire)

definition DownlistRequest_merge :: "downlist_request \<Rightarrow> downlist_request \<Rightarrow> downlist_request" where
  "DownlistRequest_merge m m0 = m0
     \<lparr>dq_downlist := map (\<lambda>x. ContactInfo_merge x ContactInfo_new) (dq_downlist m),
      dq_sender_info := ContactInfo_merge (dq_sender_info m) (dq_sender_info m0),
      dq_isset := dq_isset m0 \<union> {1, 2}\<rparr>"

lemma DownlistRequest_read_write [wire]: "DownlistRequest_read (DownlistRequest_write m) m0 = Inr (DownlistRequest_merge m m0)"
  by (cases m0) (auto simp: DownlistRequest_read_def DownlistRequest_write_def DownlistRequest_field_def DownlistRequest_merge_def wire)

definition DownlistRequest_sent :: "downlist_request \<Rightarrow> bool" where
  "DownlistRequest_sent m \<longleftrightarrow>
     list_all ContactInfo_sent (dq_downlist m) \<and>
     ContactInfo_sent (dq_sender_info m) \<and>
     {1, 2} \<subseteq> dq_isset m \<and>
     dq_isset m \<subseteq> {1, 2}"

lemma DownlistRequest_merge_new [wire]: "DownlistRequest_sent m \<Longrightarrow> DownlistRequest_merge m DownlistRequest_new = m"
  by (cases m) (auto simp: DownlistRequest_merge_def DownlistRequest_sent_def DownlistRequest_new_def wire)

definition DownlistResponse_merge :: "downlist_response \<Rightarrow> downlist_response \<Rightarrow> downlist_response" where
  "DownlistResponse_merge m m0 = m0
     \<lparr>dr_result := dr_result m,
      dr_node_id := (if 2 \<in> dr_isset m then dr_node_id m else dr_node_id m0),
      dr_isset := dr_isset m0 \<union> {1} \<union> (dr_isset m \<inter> {2})\<rparr>"

lemma DownlistResponse_read_write [wire]: "DownlistResponse_read (DownlistResponse_write m) m0 = Inr (DownlistResponse_merge m m0)"
  by (cases m0) (auto simp: DownlistResponse_read_def DownlistResponse_write_def DownlistResponse_field_def DownlistResponse_merge_def wire)

definition DownlistResponse_sent :: "downlist_response \<Rightarrow> bool" where
  "DownlistResponse_sent m \<longleftrightarrow>
     (2 \<notin> dr_isset m \<longrightarrow> dr_node_id m = []) \<and>
     {1} \<subseteq> dr_isset m \<and>
     dr_isset m \<subseteq> {1, 2}"

lemma DownlistResponse_merge_new [wire]: "DownlistResponse_sent m \<Longrightarrow> DownlistResponse_merge m DownlistResponse_new = m"
  by (cases m) (auto simp: DownlistResponse_merge_def DownlistResponse_sent_def DownlistResponse_new_def wire)

definition BootstrapRequest_merge :: "bootstrap_request \<Rightarrow> bootstrap_request \<Rightarrow> bootstrap_request" where
  "BootstrapRequest_merge m m0 = m0
     \<lparr>bq_newcomer_id := bq_newcomer_id m, bq_newcomer_local_ip := bq_newcomer_local_ip m,
      bq_newcomer_local_port := bq_newcomer_local_port m, bq_node_type := bq_node_type m,
      bq_newcomer_ext_ip := (if 6 \<in> bq_isset m then bq_newcomer_ext_ip m else bq_newcomer_ext_ip m0),
      bq_newcomer_ext_port := (if 7 \<in> bq_isset m then bq_newcomer_ext_port m else bq_newcomer_ext_port m0),
      bq_isset := bq_isset m0 \<union> {1, 2, 3, 5} \<union> (bq_isset m \<inter> {6, 7})\<rparr>"

lemma BootstrapRequest_read_write [wire]: "BootstrapRequest_read (BootstrapRequest_write m) m0 = Inr (BootstrapRequest_merge m m0)"
  by (cases m0) (auto simp: BootstrapRequest_read_def BootstrapRequest_write_def BootstrapRequest_field_def BootstrapRequest_merge_def wire)

definition BootstrapRequest_sent :: "bootstrap_request \<Rightarrow> bool" where
  "BootstrapRequest_sent m \<longleftrightarrow>
     (6 \<notin> bq_isset m \<longrightarrow> bq_newcomer_ext_ip m = []) \<and>
     (7 \<notin> bq_isset m \<longrightarrow> bq_newcomer_ext_port m = 0) \<and>
     {1, 2, 3, 5} \<subseteq> bq_isset m \<and>
     bq_isset m \<subseteq> {1, 2, 3, 5, 6, 7}"

lemma BootstrapRequest_merge_new [wire]: "BootstrapRequest_sent m \<Longrightarrow> BootstrapRequest_merge m BootstrapRequest_new = m"
  by (cases m) (auto simp: BootstrapRequest_merge_def BootstrapRequest_sent_def BootstrapRequest_new_def wire)

definition BootstrapResponse_merge :: "bootstrap_response \<Rightarrow> bootstrap_response \<Rightarrow> bootstrap_response" where
  "BootstrapResponse_merge m m0 = m0
     \<lparr>br_result := br_result m,
      br_bootstrap_id := (if 2 \<in> br_isset m then br_bootstrap_id m else br_bootstrap_id m0),
      br_newcomer_ext_ip := (if 3 \<in> br_isset m then br_newcomer_ext_ip m else br_newcomer_ext_ip m0),
      br_newcomer_ext_port := (if 4 \<in> br_isset m then br_newcomer_ext_port m else br_newcomer_ext_port m0),
      br_nat_type := (if 5 \<in> br_isset m then br_nat_type m else br_nat_type m0),
      br_isset := br_isset m0 \<union> {1} \<union> (br_isset m \<inter> {2, 3, 4, 5})\<rparr>"

lemma BootstrapResponse_read_write [wire]: "BootstrapResponse_read (BootstrapResponse_write m) m0 = Inr (BootstrapResponse_merge m m0)"
  by (cases m0) (auto simp: BootstrapResponse_read_def BootstrapResponse_write_def BootstrapResponse_field_def BootstrapResponse_merge_def wire)

definition BootstrapResponse_sent :: "bootstrap_response \<Rightarrow> bool" where
  "BootstrapResponse_sent m \<longleftrightarrow>
     (2 \<notin> br_isset m \<longrightarrow> br_bootstrap_id m = []) \<and>
     (3 \<notin> br_isset m \<longrightarrow> br_newcomer_ext_ip m = []) \<and>
     (4 \<notin> br_isset m \<longrightarrow> br_newcomer_ext_port m = 0) \<and>
     (5 \<notin> br_isset m \<longrightarrow> br_nat_type m = 0) \<and>
     {1} \<subseteq> br_isset m \<and>
     br_isset m \<subseteq> {1, 2, 3, 4, 5}"

lemma BootstrapResponse_merge_new [wire]: "BootstrapResponse_sent m \<Longrightarrow> BootstrapResponse_merge m BootstrapResponse_new = m"
  by (cases m) (auto simp: BootstrapResponse_merge_def BootstrapResponse_sent_def BootstrapResponse_new_def wire)

definition DeleteRequest_merge :: "delete_request \<Rightarrow> delete_request \<Rightarrow> delete_request" where
  "DeleteRequest_merge m m0 = m0
     \<lparr>eq_key := eq_key m, eq_value := SignedValue_merge (eq_value m) (eq_value m0),
      eq_signed_request := SignedRequest_merge (eq_signed_request m) (eq_signed_request m0),
      eq_sender_info := ContactInfo_merge (eq_sender_info m) (eq_sender_info m0),
      eq_isset := eq_isset m0 \<union> {1, 2, 3, 4}\<rparr>"

lemma DeleteRequest_read_write [wire]: "DeleteRequest_read (DeleteRequest_write m) m0 = Inr (DeleteRequest_merge m m0)"
  by (cases m0) (auto simp: DeleteRequest_read_def DeleteRequest_write_def DeleteRequest_field_def DeleteRequest_merge_def wire)

definition DeleteRequest_sent :: "delete_request \<Rightarrow> bool" where
  "DeleteRequest_sent m \<longleftrightarrow>
     SignedValue_sent (eq_value m) \<and>
     SignedRequest_sent (eq_signed_request m) \<and>
     ContactInfo_sent (eq_sender_info m) \<and>
     {1, 2, 3, 4} \<subseteq> eq_isset m \<and>
     eq_isset m \<subseteq> {1, 2, 3, 4}"

lemma DeleteRequest_merge_new [wire]: "DeleteRequest_sent m \<Longrightarrow> DeleteRequest_merge m DeleteRequest_new = m"
  by (cases m) (auto simp: DeleteRequest_merge_def DeleteRequest_sent_def DeleteRequest_new_def wire)

definition DeleteResponse_merge :: "delete_response \<Rightarrow> delete_response \<Rightarrow> delete_response" where
  "DeleteResponse_merge m m0 = m0
     \<lparr>er_result := er_result m,
      er_node_id := (if 2 \<in> er_isset m then er_node_id m else er_node_id m0),
      er_isset := er_isset m0 \<union> {1} \<union> (er_isset m \<inter> {2})\<rparr>"

lemma DeleteResponse_read_write [wire]: "DeleteResponse_read (DeleteResponse_write m) m0 = Inr (DeleteResponse_merge m m0)"
  by (cases m0) (auto simp: DeleteResponse_read_def DeleteResponse_write_def DeleteResponse_field_def DeleteResponse_merge_def wire)

definition DeleteResponse_sent :: "delete_response \<Rightarrow> bool" where
  "DeleteResponse_sent m \<longleftrightarrow>
     (2 \<notin> er_isset m \<longrightarrow> er_node_id m = []) \<and>
     {1} \<subseteq> er_isset m \<and>
     er_isset m \<subseteq> {1, 2}"

lemma DeleteResponse_merge_new [wire]: "DeleteResponse_sent m \<Longrightarrow> DeleteResponse_merge m DeleteResponse_new = m"
  by (cases m) (auto simp: DeleteResponse_merge_def DeleteResponse_sent_def DeleteResponse_new_def wire)

definition UpdateRequest_merge :: "update_request \<Rightarrow> update_request \<Rightarrow> update_request" where
  "UpdateRequest_merge m m0 = m0
     \<lparr>uq_key := uq_key m, uq_new_value := SignedValue_merge (uq_new_value m) (uq_new_value m0),
      uq_old_value := SignedValue_merge (uq_old_value m) (uq_old_value m0), uq_ttl := uq_ttl m,
      uq_request := SignedRequest_merge (uq_request m) (uq_request m0),
      uq_sender_info := ContactInfo_merge (uq_sender_info m) (uq_sender_info m0),
      uq_isset := uq_isset m0 \<union> {1, 2, 3, 4, 5, 6}\<rparr>"

lemma UpdateRequest_read_write [wire]: "UpdateRequest_read (UpdateRequest_write m) m0 = Inr (UpdateRequest_merge m m0)"
  by (cases m0) (auto simp: UpdateRequest_read_def UpdateRequest_write_def UpdateRequest_field_def UpdateRequest_merge_def wire)

definition UpdateRequest_sent :: "update_request \<Rightarrow> bool" where
  "UpdateRequest_sent m \<longleftrightarrow>
     SignedValue_sent (uq_new_value m) \<and>
     SignedValue_sent (uq_old_value m) \<and>
     SignedRequest_sent (uq_request m) \<and>
     ContactInfo_sent (uq_sender_info m) \<and>
     {1, 2, 3, 4, 5, 6} \<subseteq> uq_isset m \<and>
     uq_isset m \<subseteq> {1, 2, 3, 4, 5, 6}"

lemma UpdateRequest_merge_new [wire]: "UpdateRequest_sent m \<Longrightarrow> UpdateRequest_merge m UpdateRequest_new = m"
  by (cases m) (auto simp: UpdateRequest_merge_def UpdateRequest_sent_def UpdateRequest_new_def wire)

definition UpdateResponse_merge :: "update_response \<Rightarrow> update_response \<Rightarrow> update_response" where
  "UpdateResponse_merge m m0 = m0
     \<lparr>ur_result := ur_result m,
      ur_node_id := (if 2 \<in> ur_isset m then ur_node_id m else ur_node_id m0),
      ur_isset := ur_isset m0 \<union> {1} \<union> (ur_isset m \<inter> {2})\<rparr>"

lemma UpdateResponse_read_write [wire]: "UpdateResponse_read (UpdateResponse_write m) m0 = Inr (UpdateResponse_merge m m0)"
  by (cases m0) (auto simp: UpdateResponse_read_def UpdateResponse_write_def UpdateResponse_field_def UpdateResponse_merge_def wire)

definition UpdateResponse_sent :: "update_response \<Rightarrow> bool" where
  "UpdateResponse_sent m \<longleftrightarrow>
     (2 \<notin> ur_isset m \<longrightarrow> ur_node_id m = []) \<and>
     {1} \<subseteq> ur_isset m \<and>
     ur_isset m \<subseteq> {1, 2}"

lemma UpdateResponse_merge_new [wire]: "UpdateResponse_sent m \<Longrightarrow> UpdateResponse_merge m UpdateResponse_new = m"
  by (cases m) (auto simp: UpdateResponse_merge_def UpdateResponse_sent_def UpdateResponse_new_def wire)

section \<open>What a reader sees of a message\<close>

text \<open>What a new object has read is equal, for the class, to what was written.\<close>

named_theorems written "an object that has read what another wrote writes the same"

lemma ContactInfo_written [written]: "ContactInfo_write (ContactInfo_merge m ContactInfo_new) = ContactInfo_write m"
  by (simp add: ContactInfo_write_def ContactInfo_merge_def ContactInfo_new_def written comp_def)

lemma SignedValue_written [written]: "SignedValue_write (SignedValue_merge m SignedValue_new) = SignedValue_write m"
  by (simp add: SignedValue_write_def SignedValue_merge_def SignedValue_new_def written comp_def)

lemma SignedRequest_written [written]: "SignedRequest_write (SignedRequest_merge m SignedRequest_new) = SignedRequest_write m"
  by (simp add: SignedRequest_write_def SignedRequest_merge_def SignedRequest_new_def written comp_def)

lemma PingRequest_written [written]: "PingRequest_write (PingRequest_merge m PingRequest_new) = PingRequest_write m"
  by (simp add: PingRequest_write_def PingRequest_merge_def PingRequest_new_def written comp_def)

lemma PingResponse_written [written]: "PingResponse_write (PingResponse_merge m PingResponse_new) = PingResponse_write m"
  by (simp add: PingResponse_write_def PingResponse_merge_def PingResponse_new_def written comp_def)

lemma FindRequest_written [written]: "FindRequest_write (FindRequest_merge m FindRequest_new) = FindRequest_write m"
  by (simp add: FindRequest_write_def FindRequest_merge_def FindRequest_new_def written comp_def)

lemma FindResponse_written [written]: "FindResponse_write (FindResponse_merge m FindResponse_new) = FindResponse_write m"
  by (simp add: FindResponse_write_def FindResponse_merge_def FindResponse_new_def written comp_def)

lemma FindNodeResult_written [written]: "FindNodeResult_write (FindNodeResult_merge m FindNodeResult_new) = FindNodeResult_write m"
  by (simp add: FindNodeResult_write_def FindNodeResult_merge_def FindNodeResult_new_def written comp_def)

lemma StoreRequest_written [written]: "StoreRequest_write (StoreRequest_merge m StoreRequest_new) = StoreRequest_write m"
  by (simp add: StoreRequest_write_def StoreRequest_merge_def StoreRequest_new_def written comp_def)

lemma StoreResponse_written [written]: "StoreResponse_write (StoreResponse_merge m StoreResponse_new) = StoreResponse_write m"
  by (simp add: StoreResponse_write_def StoreResponse_merge_def StoreResponse_new_def written comp_def)

lemma DownlistRequest_written [written]: "DownlistRequest_write (DownlistRequest_merge m DownlistRequest_new) = DownlistRequest_write m"
  by (simp add: DownlistRequest_write_def DownlistRequest_merge_def DownlistRequest_new_def written comp_def)

lemma DownlistResponse_written [written]: "DownlistResponse_write (DownlistResponse_merge m DownlistResponse_new) = DownlistResponse_write m"
  by (simp add: DownlistResponse_write_def DownlistResponse_merge_def DownlistResponse_new_def written comp_def)

lemma BootstrapRequest_written [written]: "BootstrapRequest_write (BootstrapRequest_merge m BootstrapRequest_new) = BootstrapRequest_write m"
  by (simp add: BootstrapRequest_write_def BootstrapRequest_merge_def BootstrapRequest_new_def written comp_def)

lemma BootstrapResponse_written [written]: "BootstrapResponse_write (BootstrapResponse_merge m BootstrapResponse_new) = BootstrapResponse_write m"
  by (simp add: BootstrapResponse_write_def BootstrapResponse_merge_def BootstrapResponse_new_def written comp_def)

lemma DeleteRequest_written [written]: "DeleteRequest_write (DeleteRequest_merge m DeleteRequest_new) = DeleteRequest_write m"
  by (simp add: DeleteRequest_write_def DeleteRequest_merge_def DeleteRequest_new_def written comp_def)

lemma DeleteResponse_written [written]: "DeleteResponse_write (DeleteResponse_merge m DeleteResponse_new) = DeleteResponse_write m"
  by (simp add: DeleteResponse_write_def DeleteResponse_merge_def DeleteResponse_new_def written comp_def)

lemma UpdateRequest_written [written]: "UpdateRequest_write (UpdateRequest_merge m UpdateRequest_new) = UpdateRequest_write m"
  by (simp add: UpdateRequest_write_def UpdateRequest_merge_def UpdateRequest_new_def written comp_def)

lemma UpdateResponse_written [written]: "UpdateResponse_write (UpdateResponse_merge m UpdateResponse_new) = UpdateResponse_write m"
  by (simp add: UpdateResponse_write_def UpdateResponse_merge_def UpdateResponse_new_def written comp_def)

text \<open>
  A class survives the wire when every object of it, whatever its flags, is read back by a new object
  as an object equal to it by \<open>operator ==\<close>, exactly as it was if its flags say what it carries, and a field
  of an id the class does not have changes nothing of that, wherever it stands.
\<close>

definition survives ::
  "('m \<Rightarrow> tfield list) \<Rightarrow> (tfield list \<Rightarrow> 'm \<Rightarrow> 'm res) \<Rightarrow> 'm \<Rightarrow> ('m \<Rightarrow> 'm \<Rightarrow> bool) \<Rightarrow> ('m \<Rightarrow> bool) \<Rightarrow> nat set \<Rightarrow> bool" where
  "survives wr rd new eq sent own \<longleftrightarrow>
     (\<forall>m. \<exists>m'. rd (wr m) new = Inr m' \<and> eq m m' \<and> (sent m \<longrightarrow> m' = m) \<and>
        (\<forall>xs ys i v. xs @ ys = wr m \<and> i \<notin> own \<longrightarrow> rd (xs @ (i, v) # ys) new = Inr m'))"

lemma survivesI:
  assumes "rd = read_fields f" "\<And>m. rd (wr m) new = Inr (g m)" "\<And>m m'. wr m = wr m' \<longleftrightarrow> eq m m'"
    "\<And>m. wr (g m) = wr m" "\<And>m. sent m \<Longrightarrow> g m = m" "\<And>i v m. i \<notin> own \<Longrightarrow> f i v m = Inr m"
  shows "survives wr rd new eq sent own"
  unfolding survives_def
proof
  fix m
  have "rd (xs @ (i, v) # ys) new = Inr (g m)" if "xs @ ys = wr m" "i \<notin> own" for xs ys i v
    using assms(2) [of m] that assms(6) by (simp add: assms(1) read_fields_skip)
  moreover have "eq m (g m)" using assms(3,4) by metis
  ultimately show "\<exists>m'. rd (wr m) new = Inr m' \<and> eq m m' \<and> (sent m \<longrightarrow> m' = m) \<and>
      (\<forall>xs ys i v. xs @ ys = wr m \<and> i \<notin> own \<longrightarrow> rd (xs @ (i, v) # ys) new = Inr m')"
    using assms(2,5) by blast
qed

lemma ContactInfo_survives:
  "survives ContactInfo_write ContactInfo_read ContactInfo_new ContactInfo_eq ContactInfo_sent {1, 2, 3, 4, 5, 6, 7}"
  by (rule survivesI [OF ContactInfo_read_def ContactInfo_read_write ContactInfo_eq_write ContactInfo_written ContactInfo_merge_new]) (simp_all add: ContactInfo_field_def)

lemma SignedValue_survives:
  "survives SignedValue_write SignedValue_read SignedValue_new SignedValue_eq SignedValue_sent {1, 2}"
  by (rule survivesI [OF SignedValue_read_def SignedValue_read_write SignedValue_eq_write SignedValue_written SignedValue_merge_new]) (simp_all add: SignedValue_field_def)

lemma SignedRequest_survives:
  "survives SignedRequest_write SignedRequest_read SignedRequest_new SignedRequest_eq SignedRequest_sent {1, 2, 3, 4}"
  by (rule survivesI [OF SignedRequest_read_def SignedRequest_read_write SignedRequest_eq_write SignedRequest_written SignedRequest_merge_new]) (simp_all add: SignedRequest_field_def)

lemma PingRequest_survives:
  "survives PingRequest_write PingRequest_read PingRequest_new PingRequest_eq PingRequest_sent {1, 2}"
  by (rule survivesI [OF PingRequest_read_def PingRequest_read_write PingRequest_eq_write PingRequest_written PingRequest_merge_new]) (simp_all add: PingRequest_field_def)

lemma PingResponse_survives:
  "survives PingResponse_write PingResponse_read PingResponse_new PingResponse_eq PingResponse_sent {1, 2, 3}"
  by (rule survivesI [OF PingResponse_read_def PingResponse_read_write PingResponse_eq_write PingResponse_written PingResponse_merge_new]) (simp_all add: PingResponse_field_def)

lemma FindRequest_survives:
  "survives FindRequest_write FindRequest_read FindRequest_new FindRequest_eq FindRequest_sent {1, 2, 3, 4, 5}"
  by (rule survivesI [OF FindRequest_read_def FindRequest_read_write FindRequest_eq_write FindRequest_written FindRequest_merge_new]) (simp_all add: FindRequest_field_def)

lemma FindResponse_survives:
  "survives FindResponse_write FindResponse_read FindResponse_new FindResponse_eq FindResponse_sent {1, 2, 3, 4, 5, 6, 7, 8}"
  by (rule survivesI [OF FindResponse_read_def FindResponse_read_write FindResponse_eq_write FindResponse_written FindResponse_merge_new]) (simp_all add: FindResponse_field_def)

lemma FindNodeResult_survives:
  "survives FindNodeResult_write FindNodeResult_read FindNodeResult_new FindNodeResult_eq FindNodeResult_sent {1, 2, 3}"
  by (rule survivesI [OF FindNodeResult_read_def FindNodeResult_read_write FindNodeResult_eq_write FindNodeResult_written FindNodeResult_merge_new]) (simp_all add: FindNodeResult_field_def)

lemma StoreRequest_survives:
  "survives StoreRequest_write StoreRequest_read StoreRequest_new StoreRequest_eq StoreRequest_sent {1, 2, 3, 4, 5, 6, 7}"
  by (rule survivesI [OF StoreRequest_read_def StoreRequest_read_write StoreRequest_eq_write StoreRequest_written StoreRequest_merge_new]) (simp_all add: StoreRequest_field_def)

lemma StoreResponse_survives:
  "survives StoreResponse_write StoreResponse_read StoreResponse_new StoreResponse_eq StoreResponse_sent {1, 2, 4}"
  by (rule survivesI [OF StoreResponse_read_def StoreResponse_read_write StoreResponse_eq_write StoreResponse_written StoreResponse_merge_new]) (simp_all add: StoreResponse_field_def)

lemma DownlistRequest_survives:
  "survives DownlistRequest_write DownlistRequest_read DownlistRequest_new DownlistRequest_eq DownlistRequest_sent {1, 2}"
  by (rule survivesI [OF DownlistRequest_read_def DownlistRequest_read_write DownlistRequest_eq_write DownlistRequest_written DownlistRequest_merge_new]) (simp_all add: DownlistRequest_field_def)

lemma DownlistResponse_survives:
  "survives DownlistResponse_write DownlistResponse_read DownlistResponse_new DownlistResponse_eq DownlistResponse_sent {1, 2}"
  by (rule survivesI [OF DownlistResponse_read_def DownlistResponse_read_write DownlistResponse_eq_write DownlistResponse_written DownlistResponse_merge_new]) (simp_all add: DownlistResponse_field_def)

lemma BootstrapRequest_survives:
  "survives BootstrapRequest_write BootstrapRequest_read BootstrapRequest_new BootstrapRequest_eq BootstrapRequest_sent {1, 2, 3, 5, 6, 7}"
  by (rule survivesI [OF BootstrapRequest_read_def BootstrapRequest_read_write BootstrapRequest_eq_write BootstrapRequest_written BootstrapRequest_merge_new]) (simp_all add: BootstrapRequest_field_def)

lemma BootstrapResponse_survives:
  "survives BootstrapResponse_write BootstrapResponse_read BootstrapResponse_new BootstrapResponse_eq BootstrapResponse_sent {1, 2, 3, 4, 5}"
  by (rule survivesI [OF BootstrapResponse_read_def BootstrapResponse_read_write BootstrapResponse_eq_write BootstrapResponse_written BootstrapResponse_merge_new]) (simp_all add: BootstrapResponse_field_def)

lemma DeleteRequest_survives:
  "survives DeleteRequest_write DeleteRequest_read DeleteRequest_new DeleteRequest_eq DeleteRequest_sent {1, 2, 3, 4}"
  by (rule survivesI [OF DeleteRequest_read_def DeleteRequest_read_write DeleteRequest_eq_write DeleteRequest_written DeleteRequest_merge_new]) (simp_all add: DeleteRequest_field_def)

lemma DeleteResponse_survives:
  "survives DeleteResponse_write DeleteResponse_read DeleteResponse_new DeleteResponse_eq DeleteResponse_sent {1, 2}"
  by (rule survivesI [OF DeleteResponse_read_def DeleteResponse_read_write DeleteResponse_eq_write DeleteResponse_written DeleteResponse_merge_new]) (simp_all add: DeleteResponse_field_def)

lemma UpdateRequest_survives:
  "survives UpdateRequest_write UpdateRequest_read UpdateRequest_new UpdateRequest_eq UpdateRequest_sent {1, 2, 3, 4, 5, 6}"
  by (rule survivesI [OF UpdateRequest_read_def UpdateRequest_read_write UpdateRequest_eq_write UpdateRequest_written UpdateRequest_merge_new]) (simp_all add: UpdateRequest_field_def)

lemma UpdateResponse_survives:
  "survives UpdateResponse_write UpdateResponse_read UpdateResponse_new UpdateResponse_eq UpdateResponse_sent {1, 2}"
  by (rule survivesI [OF UpdateResponse_read_def UpdateResponse_read_write UpdateResponse_eq_write UpdateResponse_written UpdateResponse_merge_new]) (simp_all add: UpdateResponse_field_def)

section \<open>Properties\<close>

text \<open>
  C15: messages survive the wire. Every object of each of the 18 classes, whatever its flags, is read
  back by a new object as one that is equal to it by the class's \<open>operator ==\<close>, nested structs and lists
  included; it is read back exactly as it was when its flags say what it carries (\<open>X_sent\<close>); and a field of
  an id the class does not have changes nothing, wherever it stands among the others.
\<close>

theorem messages_roundtrip:
  "survives ContactInfo_write ContactInfo_read ContactInfo_new ContactInfo_eq ContactInfo_sent {1, 2, 3, 4, 5, 6, 7}
   \<and> survives SignedValue_write SignedValue_read SignedValue_new SignedValue_eq SignedValue_sent {1, 2}
   \<and> survives SignedRequest_write SignedRequest_read SignedRequest_new SignedRequest_eq SignedRequest_sent {1, 2, 3, 4}
   \<and> survives PingRequest_write PingRequest_read PingRequest_new PingRequest_eq PingRequest_sent {1, 2}
   \<and> survives PingResponse_write PingResponse_read PingResponse_new PingResponse_eq PingResponse_sent {1, 2, 3}
   \<and> survives FindRequest_write FindRequest_read FindRequest_new FindRequest_eq FindRequest_sent {1, 2, 3, 4, 5}
   \<and> survives FindResponse_write FindResponse_read FindResponse_new FindResponse_eq FindResponse_sent {1, 2, 3, 4, 5, 6, 7, 8}
   \<and> survives FindNodeResult_write FindNodeResult_read FindNodeResult_new FindNodeResult_eq FindNodeResult_sent {1, 2, 3}
   \<and> survives StoreRequest_write StoreRequest_read StoreRequest_new StoreRequest_eq StoreRequest_sent {1, 2, 3, 4, 5, 6, 7}
   \<and> survives StoreResponse_write StoreResponse_read StoreResponse_new StoreResponse_eq StoreResponse_sent {1, 2, 4}
   \<and> survives DownlistRequest_write DownlistRequest_read DownlistRequest_new DownlistRequest_eq DownlistRequest_sent {1, 2}
   \<and> survives DownlistResponse_write DownlistResponse_read DownlistResponse_new DownlistResponse_eq DownlistResponse_sent {1, 2}
   \<and> survives BootstrapRequest_write BootstrapRequest_read BootstrapRequest_new BootstrapRequest_eq BootstrapRequest_sent {1, 2, 3, 5, 6, 7}
   \<and> survives BootstrapResponse_write BootstrapResponse_read BootstrapResponse_new BootstrapResponse_eq BootstrapResponse_sent {1, 2, 3, 4, 5}
   \<and> survives DeleteRequest_write DeleteRequest_read DeleteRequest_new DeleteRequest_eq DeleteRequest_sent {1, 2, 3, 4}
   \<and> survives DeleteResponse_write DeleteResponse_read DeleteResponse_new DeleteResponse_eq DeleteResponse_sent {1, 2}
   \<and> survives UpdateRequest_write UpdateRequest_read UpdateRequest_new UpdateRequest_eq UpdateRequest_sent {1, 2, 3, 4, 5, 6}
   \<and> survives UpdateResponse_write UpdateResponse_read UpdateResponse_new UpdateResponse_eq UpdateResponse_sent {1, 2}"
  by (intro conjI ContactInfo_survives SignedValue_survives SignedRequest_survives PingRequest_survives
      PingResponse_survives FindRequest_survives FindResponse_survives FindNodeResult_survives
      StoreRequest_survives StoreResponse_survives DownlistRequest_survives DownlistResponse_survives
      BootstrapRequest_survives BootstrapResponse_survives DeleteRequest_survives DeleteResponse_survives
      UpdateRequest_survives UpdateResponse_survives)

text \<open>
  The generated \<open>operator ==\<close> of every class holds of two objects exactly when they write the
  same fields: unset optional fields are not compared, and nothing else is left out.
\<close>

theorem messages_equal_iff_written:
  "(ContactInfo_eq a0 b0 \<longleftrightarrow> ContactInfo_write a0 = ContactInfo_write b0)
   \<and> (SignedValue_eq a1 b1 \<longleftrightarrow> SignedValue_write a1 = SignedValue_write b1)
   \<and> (SignedRequest_eq a2 b2 \<longleftrightarrow> SignedRequest_write a2 = SignedRequest_write b2)
   \<and> (PingRequest_eq a3 b3 \<longleftrightarrow> PingRequest_write a3 = PingRequest_write b3)
   \<and> (PingResponse_eq a4 b4 \<longleftrightarrow> PingResponse_write a4 = PingResponse_write b4)
   \<and> (FindRequest_eq a5 b5 \<longleftrightarrow> FindRequest_write a5 = FindRequest_write b5)
   \<and> (FindResponse_eq a6 b6 \<longleftrightarrow> FindResponse_write a6 = FindResponse_write b6)
   \<and> (FindNodeResult_eq a7 b7 \<longleftrightarrow> FindNodeResult_write a7 = FindNodeResult_write b7)
   \<and> (StoreRequest_eq a8 b8 \<longleftrightarrow> StoreRequest_write a8 = StoreRequest_write b8)
   \<and> (StoreResponse_eq a9 b9 \<longleftrightarrow> StoreResponse_write a9 = StoreResponse_write b9)
   \<and> (DownlistRequest_eq a10 b10 \<longleftrightarrow> DownlistRequest_write a10 = DownlistRequest_write b10)
   \<and> (DownlistResponse_eq a11 b11 \<longleftrightarrow> DownlistResponse_write a11 = DownlistResponse_write b11)
   \<and> (BootstrapRequest_eq a12 b12 \<longleftrightarrow> BootstrapRequest_write a12 = BootstrapRequest_write b12)
   \<and> (BootstrapResponse_eq a13 b13 \<longleftrightarrow> BootstrapResponse_write a13 = BootstrapResponse_write b13)
   \<and> (DeleteRequest_eq a14 b14 \<longleftrightarrow> DeleteRequest_write a14 = DeleteRequest_write b14)
   \<and> (DeleteResponse_eq a15 b15 \<longleftrightarrow> DeleteResponse_write a15 = DeleteResponse_write b15)
   \<and> (UpdateRequest_eq a16 b16 \<longleftrightarrow> UpdateRequest_write a16 = UpdateRequest_write b16)
   \<and> (UpdateResponse_eq a17 b17 \<longleftrightarrow> UpdateResponse_write a17 = UpdateResponse_write b17)"
  by (simp add: wire_eq)

end
