(* ===== verification/ThriftServiceProperties.thy ===== *)
theory ThriftServiceProperties
  imports ThriftService KadMessagesWire "HOL-Library.Word"
begin

text \<open>
  A call from one end to the other. The locale \<open>message_class\<close> is what the two ends rely on of a
  message class, that an object reads what another wrote, and \<open>rpc_method\<close> the two classes of a
  method; its lemmas hold for each of the eight methods by interpretation.
\<close>

locale message_class =
  fixes wr :: "'m \<Rightarrow> tfield list"
    and rd :: "tfield list \<Rightarrow> 'm \<Rightarrow> 'm res"
    and merge :: "'m \<Rightarrow> 'm \<Rightarrow> 'm"
  assumes read_write: "rd (wr m) m0 = Inr (merge m m0)"

text \<open>
  A client on a connection to a processor: what it sends is processed at once and the reply waits.
  If the process of the service ends, the connection breaks.
\<close>

definition served :: "thrift_lib \<Rightarrow> 's service_if \<Rightarrow> ('s \<times> message option) protocol" where
  "served L iface =
     \<lparr>pt_send = (\<lambda>m (s, _). case process L iface m s of
                   Inl e \<Rightarrow> (True, (s, None)) | Inr (reply, s') \<Rightarrow> (True, (s', Some reply))),
      pt_recv = (\<lambda>(s, reply). (reply, (s, None)))\<rparr>"

text \<open>What the client gets of the outcome of the handler.\<close>

definition call_outcome ::
  "thrift_lib \<Rightarrow> ('r \<Rightarrow> 'r \<Rightarrow> 'r) \<Rightarrow> 'r \<Rightarrow> 's \<Rightarrow> ('s \<times> (string + 'r)) res \<Rightarrow> ('r, 's \<times> message option) answer" where
  "call_outcome L merge ret s outcome =
     (case outcome of
        Inl e \<Rightarrow> Inr (ret, Some Transport_exception, (s, None))
      | Inr (s', Inl what) \<Rightarrow>
          Inr (ret, Some (Application_exception (tl_read L (tl_write L (UNKNOWN, what)))), (s', None))
      | Inr (s', Inr r) \<Rightarrow> Inr (merge r ret, None, (s', None)))"

locale rpc_method =
  request: message_class qwrite qread qmerge + response: message_class rwrite rread rmerge
  for qwrite :: "'q \<Rightarrow> tfield list" and qread :: "tfield list \<Rightarrow> 'q \<Rightarrow> 'q res" and qmerge :: "'q \<Rightarrow> 'q \<Rightarrow> 'q"
    and rwrite :: "'r \<Rightarrow> tfield list" and rread :: "tfield list \<Rightarrow> 'r \<Rightarrow> 'r res" and rmerge :: "'r \<Rightarrow> 'r \<Rightarrow> 'r"
begin

lemma args_travel:
  "args_read qread (pargs_write qwrite q) \<lparr>ar_request = q0, ar_isset = b\<rparr> =
     Inr \<lparr>ar_request = qmerge q q0, ar_isset = True\<rparr>"
  by (simp add: args_read_def pargs_write_def wire args_field_def request.read_write)

lemma result_travels:
  "result_read rread (result_write rwrite \<lparr>rs_success = r, rs_isset = True\<rparr>) \<lparr>rs_success = r0, rs_isset = b\<rparr> =
     Inr \<lparr>rs_success = rmerge r r0, rs_isset = True\<rparr>"
  by (simp add: result_read_def result_write_def wire result_field_def response.read_write)

lemma served_call:
  assumes "map_of (processMap L iface) name =
      Some (process_call name (args_read qread) q0 (result_write rwrite) r0 L h)"
  shows "client_call (recv_call name (result_read rread)) (send_call name (pargs_write qwrite)) L (served L iface)
      q ret (s, x) = call_outcome L rmerge ret s (h (qmerge q q0) r0 s)"
proof -
  have p: "process L iface \<lparr>ms_name = name, ms_type = T_CALL, ms_seqid = 0, ms_body = pargs_write qwrite q\<rparr> s =
    bind_res (h (qmerge q q0) r0 s) (\<lambda>(s', outcome). case outcome of
      Inl what \<Rightarrow> Inr (exception_reply L name 0 (UNKNOWN, what), s')
    | Inr r \<Rightarrow> Inr (\<lparr>ms_name = name, ms_type = T_REPLY, ms_seqid = 0,
        ms_body = result_write rwrite \<lparr>rs_success = r, rs_isset = True\<rparr>\<rparr>, s'))"
    using assms by (simp add: process_def process_fn_def process_call_def args_travel)
  consider e where "h (qmerge q q0) r0 s = Inl e"
    | s' what where "h (qmerge q q0) r0 s = Inr (s', Inl what)"
    | s' r where "h (qmerge q q0) r0 s = Inr (s', Inr r)"
    by (metis obj_sumE surj_pair)
  then show ?thesis
    by cases (simp_all add: p client_call_def send_call_def recv_call_def served_def result_travels
        call_outcome_def exception_reply_def)
qed

end

interpretation Ping_method: rpc_method PingRequest_write PingRequest_read PingRequest_merge
    PingResponse_write PingResponse_read PingResponse_merge
  by unfold_locales (rule PingRequest_read_write PingResponse_read_write)+

interpretation Find_method: rpc_method FindRequest_write FindRequest_read FindRequest_merge
    FindResponse_write FindResponse_read FindResponse_merge
  by unfold_locales (rule FindRequest_read_write FindResponse_read_write)+

interpretation Store_method: rpc_method StoreRequest_write StoreRequest_read StoreRequest_merge
    StoreResponse_write StoreResponse_read StoreResponse_merge
  by unfold_locales (rule StoreRequest_read_write StoreResponse_read_write)+

interpretation Downlist_method: rpc_method DownlistRequest_write DownlistRequest_read DownlistRequest_merge
    DownlistResponse_write DownlistResponse_read DownlistResponse_merge
  by unfold_locales (rule DownlistRequest_read_write DownlistResponse_read_write)+

interpretation Bootstrap_method: rpc_method BootstrapRequest_write BootstrapRequest_read BootstrapRequest_merge
    BootstrapResponse_write BootstrapResponse_read BootstrapResponse_merge
  by unfold_locales (rule BootstrapRequest_read_write BootstrapResponse_read_write)+

interpretation Delete_method: rpc_method DeleteRequest_write DeleteRequest_read DeleteRequest_merge
    DeleteResponse_write DeleteResponse_read DeleteResponse_merge
  by unfold_locales (rule DeleteRequest_read_write DeleteResponse_read_write)+

interpretation Update_method: rpc_method UpdateRequest_write UpdateRequest_read UpdateRequest_merge
    UpdateResponse_write UpdateResponse_read UpdateResponse_merge
  by unfold_locales (rule UpdateRequest_read_write UpdateResponse_read_write)+

lemma client_Ping_served:
  "client_Ping L (served L iface) q r (s, x) =
     call_outcome L PingResponse_merge r s (if_Ping iface (PingRequest_merge q PingRequest_new) PingResponse_new s)"
  unfolding client_Ping_def recv_Ping_def send_Ping_def Ping_presult_read_def Ping_pargs_write_def
  by (rule Ping_method.served_call) (simp add: processMap_def process_Ping_def Ping_args_read_def Ping_result_write_def)

lemma client_FindValue_served:
  "client_FindValue L (served L iface) q r (s, x) =
     call_outcome L FindResponse_merge r s (if_FindValue iface (FindRequest_merge q FindRequest_new) FindResponse_new s)"
  unfolding client_FindValue_def recv_FindValue_def send_FindValue_def FindValue_presult_read_def FindValue_pargs_write_def
  by (rule Find_method.served_call) (simp add: processMap_def process_FindValue_def FindValue_args_read_def FindValue_result_write_def)

lemma client_FindNode_served:
  "client_FindNode L (served L iface) q r (s, x) =
     call_outcome L FindResponse_merge r s (if_FindNode iface (FindRequest_merge q FindRequest_new) FindResponse_new s)"
  unfolding client_FindNode_def recv_FindNode_def send_FindNode_def FindNode_presult_read_def FindNode_pargs_write_def
  by (rule Find_method.served_call) (simp add: processMap_def process_FindNode_def FindNode_args_read_def FindNode_result_write_def)

lemma client_Store_served:
  "client_Store L (served L iface) q r (s, x) =
     call_outcome L StoreResponse_merge r s (if_Store iface (StoreRequest_merge q StoreRequest_new) StoreResponse_new s)"
  unfolding client_Store_def recv_Store_def send_Store_def Store_presult_read_def Store_pargs_write_def
  by (rule Store_method.served_call) (simp add: processMap_def process_Store_def Store_args_read_def Store_result_write_def)

lemma client_Downlist_served:
  "client_Downlist L (served L iface) q r (s, x) =
     call_outcome L DownlistResponse_merge r s (if_Downlist iface (DownlistRequest_merge q DownlistRequest_new) DownlistResponse_new s)"
  unfolding client_Downlist_def recv_Downlist_def send_Downlist_def Downlist_presult_read_def Downlist_pargs_write_def
  by (rule Downlist_method.served_call) (simp add: processMap_def process_Downlist_def Downlist_args_read_def Downlist_result_write_def)

lemma client_Bootstrap_served:
  "client_Bootstrap L (served L iface) q r (s, x) =
     call_outcome L BootstrapResponse_merge r s (if_Bootstrap iface (BootstrapRequest_merge q BootstrapRequest_new) BootstrapResponse_new s)"
  unfolding client_Bootstrap_def recv_Bootstrap_def send_Bootstrap_def Bootstrap_presult_read_def Bootstrap_pargs_write_def
  by (rule Bootstrap_method.served_call) (simp add: processMap_def process_Bootstrap_def Bootstrap_args_read_def Bootstrap_result_write_def)

lemma client_Delete_served:
  "client_Delete L (served L iface) q r (s, x) =
     call_outcome L DeleteResponse_merge r s (if_Delete iface (DeleteRequest_merge q DeleteRequest_new) DeleteResponse_new s)"
  unfolding client_Delete_def recv_Delete_def send_Delete_def Delete_presult_read_def Delete_pargs_write_def
  by (rule Delete_method.served_call) (simp add: processMap_def process_Delete_def Delete_args_read_def Delete_result_write_def)

lemma client_Update_served:
  "client_Update L (served L iface) q r (s, x) =
     call_outcome L UpdateResponse_merge r s (if_Update iface (UpdateRequest_merge q UpdateRequest_new) UpdateResponse_new s)"
  unfolding client_Update_def recv_Update_def send_Update_def Update_presult_read_def Update_pargs_write_def
  by (rule Update_method.served_call) (simp add: processMap_def process_Update_def Update_args_read_def Update_result_write_def)

text \<open>
  C14: calls reach the handlers. For each of the eight methods, a client connected to a processor gets
  what the handler of that method makes of the request as it travels: a new request object that has
  read what the client wrote, and a new response; a response is read into the response of the
  caller, the text of an exception comes as an exception of the application, and when the process
  of the service ends the client gets an exception of the transport. The service is left as the handler left it.
\<close>

theorem calls_reach_handlers:
  "client_Ping L (served L iface) q0 r0 (s, x) = call_outcome L PingResponse_merge r0 s
       (if_Ping iface (PingRequest_merge q0 PingRequest_new) PingResponse_new s)
   \<and> client_FindValue L (served L iface) q1 r1 (s, x) = call_outcome L FindResponse_merge r1 s
       (if_FindValue iface (FindRequest_merge q1 FindRequest_new) FindResponse_new s)
   \<and> client_FindNode L (served L iface) q2 r2 (s, x) = call_outcome L FindResponse_merge r2 s
       (if_FindNode iface (FindRequest_merge q2 FindRequest_new) FindResponse_new s)
   \<and> client_Store L (served L iface) q3 r3 (s, x) = call_outcome L StoreResponse_merge r3 s
       (if_Store iface (StoreRequest_merge q3 StoreRequest_new) StoreResponse_new s)
   \<and> client_Downlist L (served L iface) q4 r4 (s, x) = call_outcome L DownlistResponse_merge r4 s
       (if_Downlist iface (DownlistRequest_merge q4 DownlistRequest_new) DownlistResponse_new s)
   \<and> client_Bootstrap L (served L iface) q5 r5 (s, x) = call_outcome L BootstrapResponse_merge r5 s
       (if_Bootstrap iface (BootstrapRequest_merge q5 BootstrapRequest_new) BootstrapResponse_new s)
   \<and> client_Delete L (served L iface) q6 r6 (s, x) = call_outcome L DeleteResponse_merge r6 s
       (if_Delete iface (DeleteRequest_merge q6 DeleteRequest_new) DeleteResponse_new s)
   \<and> client_Update L (served L iface) q7 r7 (s, x) = call_outcome L UpdateResponse_merge r7 s
       (if_Update iface (UpdateRequest_merge q7 UpdateRequest_new) UpdateResponse_new s)"
  by (intro conjI client_Ping_served client_FindValue_served client_FindNode_served client_Store_served client_Downlist_served client_Bootstrap_served client_Delete_served client_Update_served)

end
