(* ===== verification/Crypto.thy ===== *)
theory Crypto
  imports Prelude "HOL-Library.Signed_Division" "HOL-Library.Word"
begin

text \<open>
  The wrapper of the Crypto++ library (\<open>src/common/crypto.cpp\<close>, \<open>include/common/crypto.h\<close>). What
  the library computes is a field of \<open>crypto_lib\<close>; which source, filter and sink the code builds in
  each mode, in which order, and what it answers when the library throws is the code's own. A
  filter is a function that gives the text that has reached the sink and whether it ran to its end
  without an exception.
\<close>

section \<open>The library and the files\<close>

datatype operationtype = FILE_FILE | STRING_FILE | FILE_STRING | STRING_STRING
datatype hashtype = SHA_512 | SHA_1 | SHA_256 | SHA_384
datatype symmtype = AES_256
datatype obfuscationtype = XOR_obf

type_synonym crypto_filter = "string \<Rightarrow> string \<times> bool"

text \<open>
  \<open>cl_digest\<close> is \<open>HashFilter\<close> of the digest named; \<open>cl_hex\<close> is \<open>HexEncoder (_, false)\<close>;
  \<open>cl_cfb_encrypt\<close> and \<open>cl_cfb_decrypt\<close> take the key and the initialisation vector; the RSA
  operations take the encoded key, and \<open>cl_is_public\<close> and \<open>cl_is_private\<close> say whether decoding it
  succeeds; those that draw random bits take them as an argument. \<open>cl_generate\<close> gives the encoded
  private and public key.
\<close>

record crypto_lib =
  cl_digest :: "hashtype \<Rightarrow> string \<Rightarrow> string"
  cl_hex :: "string \<Rightarrow> string"
  cl_pbkdf2_sha512 :: "string \<Rightarrow> string \<Rightarrow> nat \<Rightarrow> nat \<Rightarrow> string"
  cl_cfb_encrypt :: "string \<Rightarrow> string \<Rightarrow> string \<Rightarrow> string"
  cl_cfb_decrypt :: "string \<Rightarrow> string \<Rightarrow> string \<Rightarrow> string"
  cl_is_public :: "string \<Rightarrow> bool"
  cl_is_private :: "string \<Rightarrow> bool"
  cl_oaep_encrypt :: "string \<Rightarrow> nat \<Rightarrow> crypto_filter"
  cl_oaep_decrypt :: "string \<Rightarrow> nat \<Rightarrow> crypto_filter"
  cl_sign :: "string \<Rightarrow> nat \<Rightarrow> crypto_filter"
  cl_signature_length :: "string \<Rightarrow> nat"
  cl_verify :: "string \<Rightarrow> string \<Rightarrow> string \<Rightarrow> bool"
  cl_gzip :: "nat \<Rightarrow> crypto_filter"
  cl_gunzip :: crypto_filter
  cl_generate :: "string \<Rightarrow> nat \<Rightarrow> nat \<Rightarrow> (string \<times> string) option"
  cl_is_long :: "int \<Rightarrow> bool"
  cl_to_long :: "int \<Rightarrow> int"

text \<open>The files by name, and which names can be opened for reading and for writing.\<close>

record filesys =
  fs_files :: "string \<rightharpoonup> string"
  fs_readable :: "string \<Rightarrow> bool"
  fs_writable :: "string \<Rightarrow> bool"

definition read_source :: "string \<Rightarrow> filesys \<Rightarrow> string option" where
  "read_source name fs = (if fs_readable fs (c_str name) then fs_files fs (c_str name) else None)"

definition write_sink :: "string \<Rightarrow> string \<Rightarrow> filesys \<Rightarrow> filesys" where
  "write_sink name text fs = fs\<lparr>fs_files := (fs_files fs)(c_str name \<mapsto> text)\<rparr>"

definition open_sink :: "string \<Rightarrow> filesys \<Rightarrow> filesys option" where
  "open_sink name fs = (if fs_writable fs (c_str name) then Some (write_sink name [] fs) else None)"

text \<open>
  \<open>Source (input, true, new Filter (new Sink (output)))\<close> in the four modes: the sink is built before
  the source, so its file is emptied before the source is opened. The result is the string the
  code returns, whether nothing was thrown, and the files.
\<close>

fun pump :: "operationtype \<Rightarrow> string \<Rightarrow> string \<Rightarrow> crypto_filter \<Rightarrow> filesys \<Rightarrow> string \<times> bool \<times> filesys" where
  "pump STRING_STRING input output f fs = (fst (f input), snd (f input), fs)"
| "pump STRING_FILE input output f fs =
     (case open_sink output fs of
        None \<Rightarrow> (output, False, fs)
      | Some fs1 \<Rightarrow> (output, snd (f input), write_sink output (fst (f input)) fs1))"
| "pump FILE_STRING input output f fs =
     (case read_source input fs of
        None \<Rightarrow> ([], False, fs)
      | Some x \<Rightarrow> (fst (f x), snd (f x), fs))"
| "pump FILE_FILE input output f fs =
     (case open_sink output fs of
        None \<Rightarrow> (output, False, fs)
      | Some fs1 \<Rightarrow>
          (case read_source input fs1 of
             None \<Rightarrow> (output, False, fs1)
           | Some x \<Rightarrow> (output, snd (f x), write_sink output (fst (f x)) fs1)))"

text \<open>\<open>catch (const CryptoPP::Exception&)\<close>: the answer is empty; files written stay.\<close>

definition caught :: "string \<times> bool \<times> filesys \<Rightarrow> string \<times> filesys" where
  "caught r = (case r of (result, ok, fs) \<Rightarrow> (if ok then result else [], fs))"

section \<open>The class \<open>Crypto\<close>\<close>

record crypto =
  hash_algorithm :: hashtype
  symm_algorithm :: symmtype

definition Crypto_new :: crypto where
  "Crypto_new = \<lparr>hash_algorithm = SHA_512, symm_algorithm = AES_256\<rparr>"

definition set_hash_algorithm :: "hashtype \<Rightarrow> crypto \<Rightarrow> crypto" where
  "set_hash_algorithm type c = c\<lparr>hash_algorithm := type\<rparr>"

definition set_symm_algorithm :: "symmtype \<Rightarrow> crypto \<Rightarrow> crypto" where
  "set_symm_algorithm type c = c\<lparr>symm_algorithm := type\<rparr>"

definition xor_char :: "char \<Rightarrow> char \<Rightarrow> char" where
  "xor_char a b = char_of ((of_char a :: nat) XOR of_char b)"

text \<open>\<open>second[i]\<close> of a \<open>const std::string\<close> is the character NUL at the length, and undefined beyond.\<close>

definition XOROperation :: "string \<Rightarrow> string \<Rightarrow> string res" where
  "XOROperation first second =
     (if length first \<le> Suc (length second)
      then Inr (map (\<lambda>i. xor_char (first ! i) ((second @ [CHR 0x00]) ! i)) [0..<length first])
      else Inl Undefined)"

definition Obfuscate :: "string \<Rightarrow> string \<Rightarrow> obfuscationtype \<Rightarrow> string res" where
  "Obfuscate first second obt =
     (if length first \<noteq> length second \<or> length first = 0 then Inr []
      else case obt of XOR_obf \<Rightarrow> XOROperation first second)"

definition pbkdf_iterations :: "32 word \<Rightarrow> nat" where
  "pbkdf_iterations pin = nat (sint pin smod 1000 + 1000)"

definition SecurePassword :: "crypto_lib \<Rightarrow> string \<Rightarrow> 32 word \<Rightarrow> string" where
  "SecurePassword L password pin =
     (if password = [] \<or> pin = 0 then []
      else cl_hex L (cl_pbkdf2_sha512 L password ''maidsafe_salt'' (pbkdf_iterations pin) 32))"

definition hash_filter :: "crypto_lib \<Rightarrow> hashtype \<Rightarrow> bool \<Rightarrow> crypto_filter" where
  "hash_filter L type hex x = (if hex then cl_hex L (cl_digest L type x) else cl_digest L type x, True)"

definition HashFunc ::
  "crypto_lib \<Rightarrow> string \<Rightarrow> string \<Rightarrow> operationtype \<Rightarrow> bool \<Rightarrow> hashtype \<Rightarrow> filesys \<Rightarrow> string \<times> filesys" where
  "HashFunc L input output ot hex type fs = caught (pump ot input output (hash_filter L type hex) fs)"

definition Hash ::
  "crypto_lib \<Rightarrow> string \<Rightarrow> string \<Rightarrow> operationtype \<Rightarrow> bool \<Rightarrow> crypto \<Rightarrow> filesys \<Rightarrow> string \<times> filesys" where
  "Hash L input output ot hex c fs =
     (case hash_algorithm c of
        SHA_512 \<Rightarrow> HashFunc L input output ot hex SHA_512 fs
      | SHA_1 \<Rightarrow> HashFunc L input output ot hex SHA_1 fs
      | SHA_256 \<Rightarrow> HashFunc L input output ot hex SHA_256 fs
      | SHA_384 \<Rightarrow> HashFunc L input output ot hex SHA_384 fs)"

definition AES256_KeySize :: nat where "AES256_KeySize = 32"
definition AES256_IVSize :: nat where "AES256_IVSize = 16"

definition substr :: "string \<Rightarrow> nat \<Rightarrow> nat \<Rightarrow> string res" where
  "substr s pos n = (if length s < pos then Inl LogicError else Inr (take n (drop pos s)))"

text \<open>\<open>ArraySink\<close> into an array that holds \<open>junk\<close>: what does not fit is dropped.\<close>

definition array_sink :: "string \<Rightarrow> string \<Rightarrow> string" where
  "array_sink junk s = take (length junk) s @ drop (length s) junk"

text \<open>The key and the initialisation vector made of a password; the two arrays are uninitialised.\<close>

definition symm_key :: "crypto_lib \<Rightarrow> string \<Rightarrow> string \<Rightarrow> string \<Rightarrow> filesys \<Rightarrow> (string \<times> string) res" where
  "symm_key L junk_key junk_iv key fs =
     (let hashkey = fst (HashFunc L key [] STRING_STRING True SHA_512 fs) in
      bind_res (substr hashkey 0 AES256_KeySize) (\<lambda>k.
      bind_res (substr hashkey AES256_KeySize AES256_IVSize) (\<lambda>v.
        Inr (array_sink junk_key k, array_sink junk_iv v))))"

definition SymmEncrypt ::
  "crypto_lib \<Rightarrow> string \<Rightarrow> string \<Rightarrow> string \<Rightarrow> string \<Rightarrow> operationtype \<Rightarrow> string \<Rightarrow> crypto \<Rightarrow> filesys \<Rightarrow> (string \<times> filesys) res" where
  "SymmEncrypt L junk_key junk_iv input output ot key c fs =
     (if symm_algorithm c \<noteq> AES_256 then Inr ([], fs)
      else bind_res (symm_key L junk_key junk_iv key fs) (\<lambda>(byte_key, byte_iv).
        Inr (caught (pump ot input output (\<lambda>x. (cl_cfb_encrypt L byte_key byte_iv x, True)) fs))))"

definition SymmDecrypt ::
  "crypto_lib \<Rightarrow> string \<Rightarrow> string \<Rightarrow> string \<Rightarrow> string \<Rightarrow> operationtype \<Rightarrow> string \<Rightarrow> crypto \<Rightarrow> filesys \<Rightarrow> (string \<times> filesys) res" where
  "SymmDecrypt L junk_key junk_iv input output ot key c fs =
     (if symm_algorithm c \<noteq> AES_256 then Inr ([], fs)
      else bind_res (symm_key L junk_key junk_iv key fs) (\<lambda>(byte_key, byte_iv).
        Inr (caught (pump ot input output (\<lambda>x. (cl_cfb_decrypt L byte_key byte_iv x, True)) fs))))"

definition AsymEncrypt ::
  "crypto_lib \<Rightarrow> nat \<Rightarrow> string \<Rightarrow> string \<Rightarrow> string \<Rightarrow> operationtype \<Rightarrow> filesys \<Rightarrow> string \<times> filesys" where
  "AsymEncrypt L rnd input output key ot fs =
     (if \<not> cl_is_public L key then ([], fs)
      else caught (pump ot input output (cl_oaep_encrypt L key rnd) fs))"

definition AsymDecrypt ::
  "crypto_lib \<Rightarrow> nat \<Rightarrow> string \<Rightarrow> string \<Rightarrow> string \<Rightarrow> operationtype \<Rightarrow> filesys \<Rightarrow> string \<times> filesys" where
  "AsymDecrypt L rnd input output key ot fs =
     (if \<not> cl_is_private L key then ([], fs)
      else caught (pump ot input output (cl_oaep_decrypt L key rnd) fs))"

definition AsymSign ::
  "crypto_lib \<Rightarrow> nat \<Rightarrow> string \<Rightarrow> string \<Rightarrow> string \<Rightarrow> operationtype \<Rightarrow> filesys \<Rightarrow> string \<times> filesys" where
  "AsymSign L rnd input output key ot fs =
     (if \<not> cl_is_private L key then ([], fs)
      else caught (pump ot input output (cl_sign L key rnd) fs))"

text \<open>
  \<open>GetLastResult\<close> is called on the filter after the source that owns it has deleted it; the model
  takes the result the filter had.
\<close>

definition check_signature :: "crypto_lib \<Rightarrow> string \<Rightarrow> string \<Rightarrow> string \<Rightarrow> bool" where
  "check_signature L data signature key =
     (if length signature \<noteq> cl_signature_length L key then False else cl_verify L key signature data)"

definition AsymCheckSig ::
  "crypto_lib \<Rightarrow> string \<Rightarrow> string \<Rightarrow> string \<Rightarrow> operationtype \<Rightarrow> filesys \<Rightarrow> bool" where
  "AsymCheckSig L input_data input_signature key ot fs =
     (if \<not> cl_is_public L key then False
      else if ot = STRING_STRING \<or> ot = STRING_FILE then check_signature L input_data input_signature key
      else case read_source input_signature fs of
             None \<Rightarrow> False
           | Some signature \<Rightarrow>
               if length signature \<noteq> cl_signature_length L key then False
               else (case read_source input_data fs of
                       None \<Rightarrow> False
                     | Some data \<Rightarrow> check_signature L data signature key))"

definition Compress ::
  "crypto_lib \<Rightarrow> string \<Rightarrow> string \<Rightarrow> 32 word \<Rightarrow> operationtype \<Rightarrow> filesys \<Rightarrow> string \<times> filesys" where
  "Compress L input output level ot fs =
     (if level <s 0 \<or> 9 <s level then ([], fs)
      else caught (pump ot input output (cl_gzip L (unat level)) fs))"

definition Uncompress ::
  "crypto_lib \<Rightarrow> string \<Rightarrow> string \<Rightarrow> operationtype \<Rightarrow> filesys \<Rightarrow> string \<times> filesys" where
  "Uncompress L input output ot fs = caught (pump ot input output (cl_gunzip L) fs)"

section \<open>Random strings and key pairs\<close>

text \<open>One character of \<open>RandomString\<close> from one random integer.\<close>

definition random_num :: "crypto_lib \<Rightarrow> int \<Rightarrow> 32 word" where
  "random_num L rand =
     (if \<not> cl_is_long L rand then (- 1) + word_of_int (cl_to_long L \<bar>rand\<bar>)
      else word_of_int (cl_to_long L \<bar>rand\<bar>))"

definition random_char :: "32 word \<Rightarrow> char" where
  "random_char num0 =
     (let num1 = num0 mod 122;
          num2 = (if 48 > num1 then num1 + 48 else num1);
          num3 = (if 57 < num2 \<and> 65 > num2 then num2 + 7 else num2);
          num4 = (if 90 < num3 \<and> 97 > num3 then num3 + 6 else num3)
      in char_of (unat num4))"

text \<open>\<open>draw i\<close> is the \<open>i\<close>-th integer the generator gives.\<close>

definition RandomString :: "crypto_lib \<Rightarrow> (nat \<Rightarrow> int) \<Rightarrow> 32 word \<Rightarrow> string" where
  "RandomString L draw len = map (\<lambda>i. random_char (random_num L (draw i))) [0..<nat (sint len)]"

record rsa_key_pair =
  public_key :: string
  private_key :: string

definition RsaKeyPair_new :: rsa_key_pair where
  "RsaKeyPair_new = \<lparr>public_key = [], private_key = []\<rparr>"

definition set_public_key :: "string \<Rightarrow> rsa_key_pair \<Rightarrow> rsa_key_pair" where
  "set_public_key k p = p\<lparr>public_key := k\<rparr>"

definition set_private_key :: "string \<Rightarrow> rsa_key_pair \<Rightarrow> rsa_key_pair" where
  "set_private_key k p = p\<lparr>private_key := k\<rparr>"

definition ClearKeys :: "rsa_key_pair \<Rightarrow> rsa_key_pair" where
  "ClearKeys p = p\<lparr>private_key := [], public_key := []\<rparr>"

text \<open>The second result is whether the library threw nothing; an exception is not caught here.\<close>

definition GenerateKeys ::
  "crypto_lib \<Rightarrow> (nat \<Rightarrow> int) \<Rightarrow> nat \<Rightarrow> 32 word \<Rightarrow> rsa_key_pair \<Rightarrow> rsa_key_pair \<times> bool" where
  "GenerateKeys L draw rnd keySize p =
     (let p1 = p\<lparr>private_key := [], public_key := []\<rparr>;
          seed = RandomString L draw keySize in
      case cl_generate L seed rnd (unat keySize) of
        None \<Rightarrow> (p1, False)
      | Some (priv, pub) \<Rightarrow> (p1\<lparr>private_key := priv, public_key := pub\<rparr>, True))"

end
