(* ===== verification/KadService.thy ===== *)
theory KadService
  imports KadMessages DataStoreSpec Crypto "HOL-Library.Word"
begin

text \<open>
  \<open>KadService\<close> (\<open>src/kademlia/kadservice.cpp\<close>), the handlers of the remote calls. Each handler
  takes the request and the response object the caller made and returns the new state of the
  service and the response. The parts that are not in the repository are fields of \<open>service_env\<close>:
  the Boost container, the functions the constructor is given (they act on the world \<open>'w\<close> of the
  node, its routing table), and the Crypto++ library with the files. The clock is an argument, one
  for each time it is read.
\<close>

record ('m, 'w) service_env =
  se_index :: "'m index_ops"
  se_add_contact :: "contact \<Rightarrow> bool \<Rightarrow> 'w \<Rightarrow> 'w"
  se_get_contact :: "kadid \<Rightarrow> 'w \<Rightarrow> contact option"
  se_get_closestK :: "kadid \<Rightarrow> contact list \<Rightarrow> 'w \<Rightarrow> contact list"
  se_ping :: "contact \<Rightarrow> 'w \<Rightarrow> 'w"
  se_crypto :: crypto_lib
  se_files :: filesys
  se_junk :: int

record ('m, 'w) kad_service =
  ks_store :: "'m data_store"
  ks_node_joined :: bool
  ks_hasRSAkeys :: bool
  ks_node_info :: contact_info
  ks_world :: 'w

definition kRpcResultFailure :: string where "kRpcResultFailure = ''F''"
definition kRpcResultSuccess :: string where "kRpcResultSuccess = ''S''"

datatype NodeType = CLIENT | CLIENT_PORT_MAPPED | VAULT

fun node_type_code :: "NodeType \<Rightarrow> i32" where
  "node_type_code CLIENT = 0"
| "node_type_code CLIENT_PORT_MAPPED = 1"
| "node_type_code VAULT = 2"

definition KadService_new :: "'m data_store \<Rightarrow> bool \<Rightarrow> 'w \<Rightarrow> ('m, 'w) kad_service" where
  "KadService_new datastore hasRSAkeys w =
     \<lparr>ks_store = datastore, ks_node_joined = False, ks_hasRSAkeys = hasRSAkeys,
      ks_node_info = ContactInfo_new, ks_world = w\<rparr>"

definition set_node_joined :: "bool \<Rightarrow> ('m, 'w) kad_service \<Rightarrow> ('m, 'w) kad_service" where
  "set_node_joined joined s = s\<lparr>ks_node_joined := joined\<rparr>"

definition set_node_info :: "contact_info \<Rightarrow> ('m, 'w) kad_service \<Rightarrow> ('m, 'w) kad_service" where
  "set_node_info info s = s\<lparr>ks_node_info := info\<rparr>"

text \<open>The call of \<open>add_contact_ (sender, false)\<close>.\<close>

definition add_sender :: "('m, 'w) service_env \<Rightarrow> contact \<Rightarrow> ('m, 'w) kad_service \<Rightarrow> ('m, 'w) kad_service" where
  "add_sender E sender s = s\<lparr>ks_world := se_add_contact E sender False (ks_world s)\<rparr>"

definition GetSender :: "contact_info \<Rightarrow> contact \<Rightarrow> (contact \<times> bool) res" where
  "GetSender sender_info sender = ParseFromThrift sender_info sender"

definition ks_Ping ::
  "('m, 'w) service_env \<Rightarrow> ping_request \<Rightarrow> ping_response \<Rightarrow> ('m, 'w) kad_service \<Rightarrow>
     (('m, 'w) kad_service \<times> ping_response) res" where
  "ks_Ping E request ret s =
     (if \<not> ks_node_joined s then Inr (s, ret\<lparr>pr_result := kRpcResultFailure\<rparr>)
      else bind_res (if pq_ping request = ''ping''
                     then GetSender (pq_sender_info request) (Contact_default (se_junk E))
                     else Inr (Contact_default (se_junk E), False)) (\<lambda>(sender, ok).
             let (s', ret') = (if ok then (add_sender E sender s,
                                 ret\<lparr>pr_echo := ''pong'', pr_result := kRpcResultSuccess\<rparr>)
                               else (s, ret\<lparr>pr_result := kRpcResultFailure\<rparr>))
             in Inr (s', ret'\<lparr>pr_node_id := ci_node_id (ks_node_info s')\<rparr>)))"

text \<open>The loop over the closest contacts: the contacts pushed and whether the key was met.\<close>

definition push_closest :: "kadid \<Rightarrow> contact_info list \<Rightarrow> contact list \<Rightarrow> (contact_info list \<times> bool) res" where
  "push_closest key nodes closest =
     fold_res (\<lambda>(nodes, found) c. bind_res (ParseToThrift c) (\<lambda>info.
         Inr (nodes @ [info], if kadid_eq key (ct_node_id c) then True else found)))
       (nodes, False) closest"

definition ks_FindNode ::
  "('m, 'w) service_env \<Rightarrow> find_request \<Rightarrow> find_response \<Rightarrow> ('m, 'w) kad_service \<Rightarrow>
     (('m, 'w) kad_service \<times> find_response) res" where
  "ks_FindNode E request ret s =
     (if \<not> ks_node_joined s then Inr (s, ret\<lparr>fr_result := kRpcResultFailure\<rparr>)
      else bind_res (GetSender (fq_sender_info request) (Contact_default (se_junk E))) (\<lambda>(sender, ok).
        if ok
        then bind_res (kadid_of_string (fq_key request)) (\<lambda>key.
             bind_res (push_closest key (fr_closest_nodes ret) (se_get_closestK E key [sender] (ks_world s)))
               (\<lambda>(nodes, found_node).
             bind_res (if \<not> found_node
                       then (case se_get_contact E key (ks_world s) of
                               None \<Rightarrow> Inr nodes
                             | Some key_node \<Rightarrow> bind_res (ParseToThrift key_node) (\<lambda>info. Inr (nodes @ [info])))
                       else Inr nodes) (\<lambda>nodes'.
               Inr (add_sender E sender s, ret\<lparr>fr_closest_nodes := nodes', fr_result := kRpcResultSuccess\<rparr>))))
        else Inr (s, ret\<lparr>fr_result := kRpcResultFailure\<rparr>)))"

definition ks_FindValue ::
  "('m, 'w) service_env \<Rightarrow> uint32 \<Rightarrow> find_request \<Rightarrow> find_response \<Rightarrow> ('m, 'w) kad_service \<Rightarrow>
     (('m, 'w) kad_service \<times> find_response) res" where
  "ks_FindValue E now request ret s =
     (if \<not> ks_node_joined s then Inr (s, ret\<lparr>fr_result := kRpcResultFailure\<rparr>)
      else bind_res
        (bind_res (GetSender (fq_sender_info request) (Contact_default (se_junk E))) (\<lambda>(sender, ok).
           if ok
           then let (value_str, found) = LoadItem (se_index E) now (fq_key request) (ks_store s) in
                if found
                then Inr (add_sender E sender s,
                       ret\<lparr>fr_values := fr_values ret @ value_str, fr_result := kRpcResultSuccess\<rparr>)
                else ks_FindNode E request ret s
           else Inr (s, ret\<lparr>fr_result := kRpcResultFailure\<rparr>)))
        (\<lambda>(s', ret'). Inr (s', ret'\<lparr>fr_node_id := ci_node_id (ks_node_info s')\<rparr>)))"

section \<open>Storing\<close>

text \<open>\<open>cobj.Hash (value, "", STRING_STRING, false)\<close> with SHA-512, which is also what a new object uses.\<close>

definition value_hash :: "('m, 'w) service_env \<Rightarrow> crypto \<Rightarrow> string \<Rightarrow> string" where
  "value_hash E cobj value = fst (Hash (se_crypto E) value [] STRING_STRING False cobj (se_files E))"

definition CheckStoreRequest :: "('m, 'w) kad_service \<Rightarrow> store_request \<Rightarrow> contact \<Rightarrow> (contact \<times> bool) res" where
  "CheckStoreRequest s request sender =
     (if ks_hasRSAkeys s
      then if 7 \<notin> tq_isset request \<or> 3 \<notin> tq_isset request then Inr (sender, False)
           else GetSender (tq_sender_info request) sender
      else if 2 \<notin> tq_isset request then Inr (sender, False)
           else GetSender (tq_sender_info request) sender)"

text \<open>The first result is the returned bool, the second \<open>*hashable\<close>.\<close>

definition CanStoreSignedValueHashable ::
  "('m, 'w) service_env \<Rightarrow> ('m, 'w) kad_service \<Rightarrow> string \<Rightarrow> string \<Rightarrow> bool \<times> bool" where
  "CanStoreSignedValueHashable E s key value =
     (let attr = LoadKeyAppendableAttr (se_index E) key (ks_store s) in
      if attr = [] then (True, key = value_hash E (set_hash_algorithm SHA_512 Crypto_new) value)
      else if length attr = 1
      then let hashable = snd (hd attr) in
           if hashable \<and> value \<noteq> fst (hd attr) then (False, hashable) else (True, hashable)
      else (True, False))"

definition answer_store ::
  "('m, 'w) service_env \<Rightarrow> contact \<Rightarrow> bool \<Rightarrow> store_response \<Rightarrow> ('m, 'w) kad_service \<Rightarrow>
     ('m, 'w) kad_service \<times> store_response" where
  "answer_store E sender result response s =
     (if result then (add_sender E sender s, response\<lparr>tr_result := kRpcResultSuccess\<rparr>)
      else (s, response\<lparr>tr_result := kRpcResultFailure\<rparr>))"

definition StoreValueLocal_string ::
  "('m, 'w) service_env \<Rightarrow> uint32 \<Rightarrow> uint32 \<Rightarrow> string \<Rightarrow> string \<Rightarrow> contact \<Rightarrow> uint32 \<Rightarrow> bool \<Rightarrow> store_response \<Rightarrow>
     ('m, 'w) kad_service \<Rightarrow> ('m, 'w) kad_service \<times> store_response" where
  "StoreValueLocal_string E now now' key value sender ttl publish response s =
     (let (ds, result) =
        (if publish then StoreItem (se_index E) now key value ttl False (ks_store s)
         else let (ds1, result, ser_del_request) = RefreshItem (se_index E) now key value [] (ks_store s) in
              if \<not> result \<and> ser_del_request = [] then StoreItem (se_index E) now' key value ttl False ds1
              else (ds1, result))
      in answer_store E sender result response (s\<lparr>ks_store := ds\<rparr>))"

definition StoreValueLocal_signed ::
  "('m, 'w) service_env \<Rightarrow> uint32 \<Rightarrow> uint32 \<Rightarrow> string \<Rightarrow> signed_value \<Rightarrow> contact \<Rightarrow> uint32 \<Rightarrow> bool \<Rightarrow> store_response \<Rightarrow>
     ('m, 'w) kad_service \<Rightarrow> ('m, 'w) kad_service \<times> store_response" where
  "StoreValueLocal_signed E now now' key value sender ttl publish response s =
     (let ser_value = sv_value value @ sv_value_signature value;
          (ds, result) =
        (if publish
         then let (can, hashable) = CanStoreSignedValueHashable E s key ser_value in
              if can then StoreItem (se_index E) now key ser_value ttl hashable (ks_store s)
              else (ks_store s, False)
         else let (ds1, result, ser_del_request) = RefreshItem (se_index E) now key ser_value [] (ks_store s) in
              if result then (ds1, True)
              else let (can, hashable) = CanStoreSignedValueHashable E (s\<lparr>ks_store := ds1\<rparr>) key ser_value in
                   if can \<and> ser_del_request = []
                   then StoreItem (se_index E) now' key ser_value ttl hashable ds1
                   else (ds1, False))
      in answer_store E sender result response (s\<lparr>ks_store := ds\<rparr>))"

definition ks_Store ::
  "('m, 'w) service_env \<Rightarrow> uint32 \<Rightarrow> uint32 \<Rightarrow> store_request \<Rightarrow> store_response \<Rightarrow> ('m, 'w) kad_service \<Rightarrow>
     (('m, 'w) kad_service \<times> store_response) res" where
  "ks_Store E now now' request ret s =
     (if \<not> ks_node_joined s then Inr (s, ret\<lparr>tr_result := kRpcResultFailure\<rparr>)
      else bind_res (CheckStoreRequest s request (Contact_default (se_junk E))) (\<lambda>(sender, ok).
        if \<not> ok then Inr (s, ret\<lparr>tr_result := kRpcResultFailure\<rparr>)
        else Inr (StoreValueLocal_signed E now now' (tq_key request) (tq_sig_value request) sender
               (tq_ttl request) (tq_publish request) ret s)))"

section \<open>The other handlers\<close>

definition ks_Downlist ::
  "('m, 'w) service_env \<Rightarrow> downlist_request \<Rightarrow> downlist_response \<Rightarrow> ('m, 'w) kad_service \<Rightarrow>
     (('m, 'w) kad_service \<times> downlist_response) res" where
  "ks_Downlist E request ret s =
     (if \<not> ks_node_joined s then Inr (s, ret\<lparr>dr_result := kRpcResultFailure\<rparr>)
      else bind_res (GetSender (dq_sender_info request) (Contact_default (se_junk E))) (\<lambda>(sender, ok).
        if ok
        then bind_res (fold_res (\<lambda>(w, ret) info.
                 bind_res (ParseFromThrift info (Contact_default (se_junk E))) (\<lambda>(dead_node, parsed).
                   if \<not> parsed then Inr (w, ret)
                   else Inr (case se_get_contact E (ct_node_id dead_node) w of
                               None \<Rightarrow> w | Some contact_to_ping \<Rightarrow> se_ping E dead_node w,
                             ret\<lparr>dr_result := kRpcResultSuccess\<rparr>)))
               (ks_world s, ret) (dq_downlist request)) (\<lambda>(w, ret').
             Inr (add_sender E sender (s\<lparr>ks_world := w\<rparr>), ret'))
        else Inr (s, ret\<lparr>dr_result := kRpcResultFailure\<rparr>)))"

definition ks_Bootstrap ::
  "bootstrap_request \<Rightarrow> bootstrap_response \<Rightarrow> ('m, 'w) kad_service \<Rightarrow> ('m, 'w) kad_service \<times> bootstrap_response" where
  "ks_Bootstrap request ret s =
     (if \<not> ks_node_joined s then (s, ret\<lparr>br_result := kRpcResultFailure\<rparr>)
      else if bq_node_type request = node_type_code CLIENT
      then (s, ret\<lparr>br_bootstrap_id := ci_node_id (ks_node_info s),
                   br_newcomer_ext_ip := bq_newcomer_ext_ip request,
                   br_newcomer_ext_port := bq_newcomer_ext_port request, br_result := kRpcResultSuccess\<rparr>)
      else (s, ret))"

definition delete_text :: "signed_request \<Rightarrow> string" where
  "delete_text r = sr_signer_id r @ sr_public_key r @ sr_signed_public_key r @ sr_signed_request r"

definition ks_Delete ::
  "('m, 'w) service_env \<Rightarrow> uint32 \<Rightarrow> delete_request \<Rightarrow> delete_response \<Rightarrow> ('m, 'w) kad_service \<Rightarrow>
     (('m, 'w) kad_service \<times> delete_response) res" where
  "ks_Delete E now request ret s =
     (if \<not> ks_node_joined s then Inr (s, ret\<lparr>er_result := kRpcResultFailure\<rparr>)
      else let ret1 = ret\<lparr>er_node_id := ci_node_id (ks_node_info s)\<rparr> in
           if \<not> snd (LoadItem (se_index E) now (eq_key request) (ks_store s))
           then Inr (s, ret1\<lparr>er_result := kRpcResultFailure\<rparr>)
           else let (ds, marked) = MarkForDeletion (se_index E) (eq_key request)
                      (sv_value (eq_value request) @ sv_value_signature (eq_value request))
                      (delete_text (eq_signed_request request)) (ks_store s);
                    s1 = s\<lparr>ks_store := ds\<rparr> in
                bind_res (if marked then GetSender (eq_sender_info request) (Contact_default (se_junk E))
                          else Inr (Contact_default (se_junk E), False)) (\<lambda>(sender, ok).
                  if ok then Inr (add_sender E sender s1, ret1\<lparr>er_result := kRpcResultSuccess\<rparr>)
                  else Inr (s1, ret1\<lparr>er_result := kRpcResultFailure\<rparr>)))"

definition ks_Update ::
  "('m, 'w) service_env \<Rightarrow> uint32 \<Rightarrow> uint32 \<Rightarrow> update_request \<Rightarrow> update_response \<Rightarrow> ('m, 'w) kad_service \<Rightarrow>
     (('m, 'w) kad_service \<times> update_response) res" where
  "ks_Update E now now' request ret s =
     (let ret1 = ret\<lparr>ur_node_id := ci_node_id (ks_node_info s), ur_result := kRpcResultFailure\<rparr>;
          (values_str, loaded) = LoadItem (se_index E) now (uq_key request) (ks_store s);
          ser_sv = sv_value (uq_old_value request) @ sv_value_signature (uq_old_value request);
          ser_new = sv_value (uq_new_value request) @ sv_value_signature (uq_new_value request) in
      if \<not> ks_node_joined s then Inr (s, ret1)
      else if \<not> loaded then Inr (s, ret1)
      else if ser_sv \<notin> set values_str then Inr (s, ret1)
      else if \<not> AsymCheckSig (se_crypto E) (sv_value (uq_new_value request))
                 (sv_value_signature (uq_new_value request)) (sr_public_key (uq_request request))
                 STRING_STRING (se_files E) then Inr (s, ret1)
      else let new_hashable = (uq_key request = value_hash E Crypto_new ser_new);
               (ds, updated_ok) = UpdateItem (se_index E) now' (uq_key request) ser_sv ser_new (uq_ttl request)
                 new_hashable (ks_store s);
               s1 = s\<lparr>ks_store := ds\<rparr> in
           if \<not> updated_ok then Inr (s1, ret1)
           else bind_res (GetSender (uq_sender_info request) (Contact_default (se_junk E))) (\<lambda>(sender, ok).
                  if ok then Inr (add_sender E sender s1, ret1\<lparr>ur_result := kRpcResultSuccess\<rparr>)
                  else Inr (s1, ret1)))"

end
