(* ===== verification/CryptoProperties.thy ===== *)
theory CryptoProperties
  imports Crypto "HOL-Library.Word"
begin

text \<open>
  What the wrapper of Crypto++ promises whatever the library computes: obfuscation undoes itself,
  what is encrypted decrypts in every mode, files included, and random strings are made of 61
  characters.
\<close>

section \<open>Obfuscation\<close>

lemma xor_char_cancel: "xor_char (xor_char a b) b = a"
proof -
  have small: "(of_char c :: nat) = take_bit 8 (of_char c)" for c :: char
    by (simp add: take_bit_eq_mod)
  have "(of_char (xor_char a b) :: nat) = take_bit 8 ((of_char a :: nat) XOR of_char b)"
    by (simp add: xor_char_def take_bit_eq_mod)
  also have "\<dots> = (of_char a :: nat) XOR of_char b"
    using small [of a] small [of b] by (metis take_bit_xor)
  finally show ?thesis
    by (simp add: xor_char_def [of "xor_char a b"] xor.assoc)
qed

lemma XOROperation_same_length:
  "length a = length b \<Longrightarrow> XOROperation a b = Inr (map2 xor_char a b)"
  by (auto simp: XOROperation_def intro!: nth_equalityI simp: nth_append)

lemma map2_xor_cancel: "length a = length b \<Longrightarrow> map2 xor_char (map2 xor_char a b) b = a"
  by (induction a b rule: list_induct2) (simp_all add: xor_char_cancel)

lemma Obfuscate_twice:
  assumes "length a = length b"
  shows "bind_res (Obfuscate a b XOR_obf) (\<lambda>x. Obfuscate x b XOR_obf) = Inr a"
  using assms by (auto simp: Obfuscate_def XOROperation_same_length map2_xor_cancel)

section \<open>Files\<close>

lemma caught_ok [simp]: "caught (r, True, fs) = (r, fs)"
  by (simp add: caught_def)

lemma caught_failed [simp]: "caught (r, False, fs) = ([], fs)"
  by (simp add: caught_def)

lemma write_sink_fields [simp]:
  "fs_readable (write_sink n t fs) = fs_readable fs"
  "fs_writable (write_sink n t fs) = fs_writable fs"
  "write_sink n t (write_sink n u fs) = write_sink n t fs"
  by (simp_all add: write_sink_def)

lemma read_write_same:
  "fs_readable fs (c_str n) \<Longrightarrow> read_source n (write_sink n t fs) = Some t"
  by (simp add: read_source_def write_sink_def)

lemma read_write_other:
  "c_str n \<noteq> c_str m \<Longrightarrow> read_source n (write_sink m t fs) = read_source n fs"
  by (simp add: read_source_def write_sink_def)

text \<open>A filter that ends well, over files that can be opened.\<close>

lemma pump_file_file:
  assumes "fs_writable fs (c_str output)" "c_str input \<noteq> c_str output" "read_source input fs = Some x" "snd (f x)"
  shows "pump FILE_FILE input output f fs = (output, True, write_sink output (fst (f x)) fs)"
  using assms by (simp add: open_sink_def read_write_other)

lemma pump_file_itself:
  assumes "fs_writable fs (c_str name)" "fs_readable fs (c_str name)" "snd (f [])"
  shows "pump FILE_FILE name name f fs = (name, True, write_sink name (fst (f [])) fs)"
  using assms by (simp add: open_sink_def read_write_same)

section \<open>Encryption\<close>

lemma symm_key_total:
  assumes "length (cl_hex L (cl_digest L SHA_512 key)) = 128"
  shows "symm_key L jk jv key fs =
    Inr (array_sink jk (take 32 (cl_hex L (cl_digest L SHA_512 key))),
         array_sink jv (take 16 (drop 32 (cl_hex L (cl_digest L SHA_512 key)))))"
  using assms by (simp add: symm_key_def HashFunc_def hash_filter_def substr_def
      AES256_KeySize_def AES256_IVSize_def Let_def)

text \<open>The key does not depend on what the arrays held, since the text fills them.\<close>

lemma array_sink_full: "length s = length junk \<Longrightarrow> array_sink junk s = s"
  by (simp add: array_sink_def)

lemma symm_key_full:
  assumes "length (cl_hex L (cl_digest L SHA_512 key)) = 128" "length jk = 32" "length jv = 16"
  shows "symm_key L jk jv key fs =
    Inr (take 32 (cl_hex L (cl_digest L SHA_512 key)), take 16 (drop 32 (cl_hex L (cl_digest L SHA_512 key))))"
  using assms by (simp add: symm_key_total array_sink_full)

lemma symm_alg: "symm_algorithm c = AES_256"
  by (cases "symm_algorithm c") simp

definition toy_digest :: "hashtype \<Rightarrow> string \<Rightarrow> string" where
  "toy_digest type x = replicate 64 (CHR ''d'')"

text \<open>A library that keeps the laws, for the witnesses: the cipher reverses the text.\<close>

definition toy_lib :: crypto_lib where
  "toy_lib = \<lparr>cl_digest = toy_digest, cl_hex = (\<lambda>x. concat (map (\<lambda>c. [c, c]) x)),
     cl_pbkdf2_sha512 = (\<lambda>p s i n. replicate n (CHR ''p'')),
     cl_cfb_encrypt = (\<lambda>k v. rev), cl_cfb_decrypt = (\<lambda>k v. rev),
     cl_is_public = (\<lambda>k. k \<noteq> []), cl_is_private = (\<lambda>k. k \<noteq> []),
     cl_oaep_encrypt = (\<lambda>k r x. (rev x, True)), cl_oaep_decrypt = (\<lambda>k r x. (rev x, True)),
     cl_sign = (\<lambda>k r x. (k, True)), cl_signature_length = length, cl_verify = (\<lambda>k s x. s = k),
     cl_gzip = (\<lambda>n x. (x, True)), cl_gunzip = (\<lambda>x. (x, True)),
     cl_generate = (\<lambda>seed r n. Some (seed, seed)), cl_is_long = (\<lambda>x. True), cl_to_long = id\<rparr>"

definition toy_files :: filesys where
  "toy_files = \<lparr>fs_files = [''a'' \<mapsto> ''text''], fs_readable = (\<lambda>n. True), fs_writable = (\<lambda>n. True)\<rparr>"

text \<open>
  C13: what \<open>SymmEncrypt\<close> writes, \<open>SymmDecrypt\<close> reads back. For a library whose CFB decryption
  inverts its encryption and whose SHA-512 has 128 hexadecimal digits, with the same password and
  whatever the uninitialised arrays of the two calls held: the text of a string comes back, and a
  file encrypted into a second file and decrypted into a third gives the third the content of the
  first, when the names differ and can be opened. The files in between are the only ones changed.
\<close>

theorem symm_roundtrip:
  assumes cfb: "\<And>k v x. cl_cfb_decrypt L k v (cl_cfb_encrypt L k v x) = x"
    and hex: "length (cl_hex L (cl_digest L SHA_512 key)) = 128"
    and junk: "length jk = 32" "length jv = 16" "length jk' = 32" "length jv' = 16"
    and names: "c_str a \<noteq> c_str b" "c_str b \<noteq> c_str d"
    and access: "fs_readable fs (c_str a)" "fs_readable fs (c_str b)"
      "fs_writable fs (c_str b)" "fs_writable fs (c_str d)"
    and content: "fs_files fs (c_str a) = Some text"
  shows "\<exists>cipher. SymmEncrypt L jk jv text [] STRING_STRING key c fs = Inr (cipher, fs)
      \<and> SymmDecrypt L jk' jv' cipher [] STRING_STRING key c' fs = Inr (text, fs)
      \<and> (\<exists>fs1 fs2. SymmEncrypt L jk jv a b FILE_FILE key c fs = Inr (b, fs1)
            \<and> SymmDecrypt L jk' jv' b d FILE_FILE key c' fs1 = Inr (d, fs2)
            \<and> fs_files fs1 = (fs_files fs)(c_str b \<mapsto> cipher)
            \<and> fs_files fs2 = (fs_files fs)(c_str b \<mapsto> cipher, c_str d \<mapsto> text))"
proof -
  define k where "k = take 32 (cl_hex L (cl_digest L SHA_512 key))"
  define v where "v = take 16 (drop 32 (cl_hex L (cl_digest L SHA_512 key)))"
  let ?cipher = "cl_cfb_encrypt L k v text"
  let ?fs1 = "write_sink b ?cipher fs"
  let ?fs2 = "write_sink d text ?fs1"
  have key: "symm_key L jk jv key fs' = Inr (k, v)" "symm_key L jk' jv' key fs' = Inr (k, v)" for fs'
    using hex junk by (simp_all add: symm_key_full k_def v_def)
  have ra: "read_source a fs = Some text"
    using access content by (simp add: read_source_def)
  have rb: "read_source b ?fs1 = Some ?cipher"
    using access by (simp add: read_write_same)
  have e1: "SymmEncrypt L jk jv text [] STRING_STRING key c fs = Inr (?cipher, fs)"
    by (simp add: SymmEncrypt_def symm_alg key)
  have d1: "SymmDecrypt L jk' jv' ?cipher [] STRING_STRING key c' fs = Inr (text, fs)"
    by (simp add: SymmDecrypt_def symm_alg key cfb)
  have e2: "SymmEncrypt L jk jv a b FILE_FILE key c fs = Inr (b, ?fs1)"
    using access names ra by (simp add: SymmEncrypt_def symm_alg key pump_file_file del: pump.simps)
  have d2: "SymmDecrypt L jk' jv' b d FILE_FILE key c' ?fs1 = Inr (d, ?fs2)"
    using access names rb by (simp add: SymmDecrypt_def symm_alg key pump_file_file cfb del: pump.simps)
  have f: "fs_files ?fs1 = (fs_files fs)(c_str b \<mapsto> ?cipher)"
    "fs_files ?fs2 = (fs_files fs)(c_str b \<mapsto> ?cipher, c_str d \<mapsto> text)"
    by (simp_all add: write_sink_def)
  from e1 d1 e2 d2 f show ?thesis by blast
qed

theorem symm_roundtrip_witness:
  "\<exists>fs1 fs2. SymmEncrypt toy_lib (replicate 32 (CHR ''x'')) (replicate 16 (CHR ''y'')) ''a'' ''b'' FILE_FILE
      ''pw'' Crypto_new toy_files = Inr (''b'', fs1)
    \<and> SymmDecrypt toy_lib (replicate 32 (CHR ''z'')) (replicate 16 (CHR ''z'')) ''b'' ''c'' FILE_FILE
      ''pw'' Crypto_new fs1 = Inr (''c'', fs2) \<and> fs_files fs2 ''c'' = Some ''text''"
proof -
  have laws: "cl_cfb_decrypt toy_lib k v (cl_cfb_encrypt toy_lib k v x) = x"
    "length (cl_hex toy_lib (cl_digest toy_lib SHA_512 ''pw'')) = 128" for k v x
    by (simp_all add: toy_lib_def toy_digest_def length_concat sum_list_replicate)
  have names: "c_str ''a'' \<noteq> c_str ''b''" "c_str ''b'' \<noteq> c_str ''c''"
    and content: "fs_files toy_files (c_str ''a'') = Some ''text''"
    by (simp_all add: c_str_def toy_files_def)
  have access: "fs_readable toy_files n" "fs_writable toy_files n" for n
    by (simp_all add: toy_files_def)
  show ?thesis
    using symm_roundtrip [of toy_lib "''pw''" "replicate 32 (CHR ''x'')" "replicate 16 (CHR ''y'')"
        "replicate 32 (CHR ''z'')" "replicate 16 (CHR ''z'')" "''a''" "''b''" "''c''" toy_files "''text''" Crypto_new Crypto_new,
        OF laws(1) laws(2) length_replicate length_replicate length_replicate length_replicate names
        access(1) access(1) access(2) access(2) content]
    by (auto simp: c_str_def)
qed

lemma level_in_range:
  assumes "level \<le> (9 :: 32 word)"
  shows "\<not> level <s 0" "\<not> 9 <s level"
proof -
  have "\<forall>n\<in>set [0..<10]. \<not> (word_of_nat n :: 32 word) <s 0 \<and> \<not> 9 <s (word_of_nat n :: 32 word)"
    by (simp add: upt_rec word_sless_alt)
  moreover have "unat level \<in> set [0..<10]" using assms by (simp add: word_le_nat_alt)
  ultimately show "\<not> level <s 0" "\<not> 9 <s level" by fastforce+
qed
text \<open>
  A file cannot be encrypted, hashed or compressed in place. With one name for input and output
  the sink empties the file before the source reads it: the call reports success, and the file
  holds the transform of the empty text, whatever it held before. With different names an input
  that cannot be read gives the empty answer and still leaves an empty output file.
\<close>

theorem in_place_loses:
  assumes "fs_readable fs (c_str name)" "fs_writable fs (c_str name)"
    and "fs_writable fs (c_str out)" "fs_files fs (c_str missing) = None" "c_str missing \<noteq> c_str out"
  shows "HashFunc L name name FILE_FILE hex type fs
           = (name, write_sink name (fst (hash_filter L type hex [])) fs)
    \<and> (length (cl_hex L (cl_digest L SHA_512 key)) = 128 \<longrightarrow>
         (\<exists>k v. SymmEncrypt L jk jv name name FILE_FILE key c fs
                  = Inr (name, write_sink name (cl_cfb_encrypt L k v []) fs)))
    \<and> (level \<le> 9 \<longrightarrow> snd (cl_gzip L (unat level) []) \<longrightarrow>
         Compress L name name level FILE_FILE fs
           = (name, write_sink name (fst (cl_gzip L (unat level) [])) fs))
    \<and> HashFunc L missing out FILE_FILE hex type fs = ([], write_sink out [] fs)"
proof -
  have enc: "\<exists>k v. SymmEncrypt L jk jv name name FILE_FILE key c fs
      = Inr (name, write_sink name (cl_cfb_encrypt L k v []) fs)"
    if "length (cl_hex L (cl_digest L SHA_512 key)) = 128"
    using assms by (auto simp: SymmEncrypt_def symm_alg symm_key_total [OF that] pump_file_itself simp del: pump.simps)
  have gz: "Compress L name name level FILE_FILE fs = (name, write_sink name (fst (cl_gzip L (unat level) [])) fs)"
    if "level \<le> 9" "snd (cl_gzip L (unat level) [])"
    using assms that by (simp add: Compress_def level_in_range pump_file_itself del: pump.simps)
  have "read_source missing (write_sink out [] fs) = None"
    using assms by (simp add: read_write_other) (simp add: read_source_def)
  then have miss: "HashFunc L missing out FILE_FILE hex type fs = ([], write_sink out [] fs)"
    using assms by (simp add: HashFunc_def open_sink_def)
  have "HashFunc L name name FILE_FILE hex type fs = (name, write_sink name (fst (hash_filter L type hex [])) fs)"
    using assms by (simp add: HashFunc_def pump_file_itself hash_filter_def del: pump.simps)
  with enc gz miss show ?thesis by blast
qed

theorem in_place_loses_witness:
  "HashFunc toy_lib ''a'' ''a'' FILE_FILE False SHA_1 toy_files
     = (''a'', write_sink ''a'' (replicate 64 (CHR ''d'')) toy_files)"
proof -
  have "fs_readable toy_files n" "fs_writable toy_files n" for n
    by (simp_all add: toy_files_def)
  moreover have "fs_files toy_files (c_str ''b'') = None" "c_str ''b'' \<noteq> c_str ''o''"
    by (simp_all add: toy_files_def c_str_def)
  ultimately show ?thesis
    using in_place_loses [of toy_files "''a''" "''o''" "''b''" toy_lib False SHA_1 "[]" "[]" "[]" Crypto_new 0]
    by (simp add: hash_filter_def toy_lib_def toy_digest_def)
qed

section \<open>Random strings\<close>

lemma unat_step: "unat n < 200 \<Longrightarrow> k \<le> (50 :: 32 word) \<Longrightarrow> unat (n + k) = unat n + unat k"
  by (subst unat_word_ariths) (simp add: word_le_nat_alt)

lemma random_char_num: "\<exists>n. random_char num = char_of (n::nat) \<and> n \<in> {48..<58} \<union> {65..<91} \<union> {97..<122}"
proof -
  define n1 where "n1 = num mod 122"
  define n2 where "n2 = (if 48 > n1 then n1 + 48 else n1)"
  define n3 where "n3 = (if 57 < n2 \<and> 65 > n2 then n2 + 7 else n2)"
  define n4 where "n4 = (if 90 < n3 \<and> 97 > n3 then n3 + 6 else n3)"
  have u1: "unat n1 < 122"
    using word_mod_less_divisor [of 122 num] by (simp add: n1_def word_less_nat_alt)
  have u2: "unat n2 = (if unat n1 < 48 then unat n1 + 48 else unat n1)"
    using u1 by (simp add: n2_def unat_step word_less_nat_alt)
  have u3: "unat n3 = (if 57 < unat n2 \<and> unat n2 < 65 then unat n2 + 7 else unat n2)"
    using u1 u2 by (simp add: n3_def unat_step word_less_nat_alt)
  have u4: "unat n4 = (if 90 < unat n3 \<and> unat n3 < 97 then unat n3 + 6 else unat n3)"
    using u1 u2 u3 by (simp add: n4_def unat_step word_less_nat_alt)
  have "unat n4 \<in> {48..<58} \<union> {65..<91} \<union> {97..<122}"
    using u1 u2 u3 u4 by (simp split: if_splits) linarith+
  moreover have "random_char num = char_of (unat n4)"
    by (simp only: random_char_def Let_def n4_def n3_def n2_def n1_def)
  ultimately show ?thesis by blast
qed
text \<open>The characters \<open>RandomString\<close> can give.\<close>

definition random_alphabet :: string where
  "random_alphabet = ''0123456789ABCDEFGHIJKLMNOPQRSTUVWXYZabcdefghijklmnopqrstuvwxy''"

lemma random_alphabet_code: "random_alphabet = map char_of ([48..<58] @ [65..<91] @ [97..<122 :: nat])"
proof -
  have "[48..<58] @ [65..<91] @ [97..<122 :: nat] = map of_char random_alphabet"
    by (simp add: random_alphabet_def)
  then show ?thesis by simp
qed

lemma random_char_image: "range random_char = set random_alphabet"
proof
  show "range random_char \<subseteq> set random_alphabet"
  proof
    fix c assume "c \<in> range random_char"
    then obtain num where "c = random_char num" ..
    then obtain n where n: "c = char_of (n::nat)" "n \<in> {48..<58} \<union> {65..<91} \<union> {97..<122}"
      using random_char_num by metis
    show "c \<in> set random_alphabet" unfolding random_alphabet_code n(1) set_map
      by (rule imageI) (use n(2) in \<open>simp only: set_append set_upt Un_assoc\<close>)
  qed
  have "\<forall>c\<in>set random_alphabet. (of_char (random_char (word_of_nat (of_char c))) :: nat) = of_char c"
    by (simp add: random_alphabet_def random_char_def Let_def)
  then have "\<forall>c\<in>set random_alphabet. random_char (word_of_nat (of_char c)) = c"
    by (simp only: of_char_eq_iff)
  then show "set random_alphabet \<subseteq> range random_char" by (metis rangeI subsetI)
qed

text \<open>
  \<open>RandomString\<close> gives as many characters as asked for, none for a negative length, and all of
  them are digits, capital letters or small letters other than z: whatever the generator draws, the
  characters one draw can give are exactly these 61.
\<close>

theorem RandomString_alphabet:
  "length (RandomString L draw len) = nat (sint len)
   \<and> set (RandomString L draw len) \<subseteq> set random_alphabet
   \<and> range random_char = set random_alphabet \<and> CHR ''z'' \<notin> set random_alphabet
   \<and> length random_alphabet = 61 \<and> distinct random_alphabet"
proof -
  have "set (RandomString L draw len) \<subseteq> range random_char"
    by (auto simp: RandomString_def)
  moreover have "CHR ''z'' \<notin> set random_alphabet" "length random_alphabet = 61" "distinct random_alphabet"
    by (simp_all add: random_alphabet_def)
  ultimately show ?thesis
    by (simp add: random_char_image) (simp add: RandomString_def)
qed
end
