(* ===== verification/KadServiceProperties.thy ===== *)
theory KadServiceProperties
  imports KadService DataStoreProperties CryptoProperties "HOL-Library.Word"
begin

text \<open>
  What the handlers of \<open>KadService\<close> promise: how the values of a key keep their hash, when a store
  is accepted, and what the failing constructor of ids makes of every handler that asks for the
  sender.
\<close>

lemma GetSender_cases:
  "GetSender info c = (if ci_node_id info = [] then Inr (c, False) else Inl Assertion)"
  by (simp add: GetSender_def ParseFromThrift_def kadid_of_string_aborts)

lemma CheckStoreRequest_cases:
  "CheckStoreRequest s q c = Inr (c, False) \<or> CheckStoreRequest s q c = Inl Assertion"
  by (simp add: CheckStoreRequest_def GetSender_cases)

section \<open>No handler answers\<close>

text \<open>
  A call that is refused aborts the process in an assertion or answers with the failure code, and
  has told the node of no contact.
\<close>

definition refused :: "('r \<Rightarrow> string) \<Rightarrow> ('m, 'w) kad_service \<Rightarrow> (('m, 'w) kad_service \<times> 'r) res \<Rightarrow> bool" where
  "refused result s r = (case r of Inl e \<Rightarrow> e = Assertion
     | Inr (s', ret) \<Rightarrow> result ret = kRpcResultFailure \<and> ks_world s' = ks_world s)"

definition unchanged :: "('m, 'w) kad_service \<Rightarrow> (('m, 'w) kad_service \<times> 'r) res \<Rightarrow> bool" where
  "unchanged s r = (case r of Inl e \<Rightarrow> True | Inr (s', ret) \<Rightarrow> s' = s)"

lemma ks_Ping_refused: "refused pr_result s (ks_Ping E q r s) \<and> unchanged s (ks_Ping E q r s)"
  by (simp add: ks_Ping_def refused_def unchanged_def GetSender_cases)

lemma ks_FindNode_refused: "refused fr_result s (ks_FindNode E q r s) \<and> unchanged s (ks_FindNode E q r s)"
  by (simp add: ks_FindNode_def refused_def unchanged_def GetSender_cases)

lemma ks_FindValue_refused:
  "refused fr_result s (ks_FindValue E now q r s) \<and> unchanged s (ks_FindValue E now q r s)"
  by (simp add: ks_FindValue_def refused_def unchanged_def GetSender_cases)

lemma ks_Store_refused:
  "refused tr_result s (ks_Store E now now' q r s) \<and> unchanged s (ks_Store E now now' q r s)"
  using CheckStoreRequest_cases [of s q "Contact_default (se_junk E)"]
  by (auto simp: ks_Store_def refused_def unchanged_def)

lemma ks_Downlist_refused:
  "refused dr_result s (ks_Downlist E q r s) \<and> unchanged s (ks_Downlist E q r s)"
  by (simp add: ks_Downlist_def refused_def unchanged_def GetSender_cases)

lemma ks_Delete_refused: "refused er_result s (ks_Delete E now q r s)"
  by (auto simp: ks_Delete_def refused_def GetSender_cases Let_def split: prod.splits)

lemma ks_Update_refused: "refused ur_result s (ks_Update E now now' q r s)"
  by (auto simp: ks_Update_def refused_def GetSender_cases Let_def split: prod.splits)

lemma ks_Bootstrap_succeeds:
  "br_result (snd (ks_Bootstrap q BootstrapResponse_new s)) = kRpcResultSuccess
     \<longleftrightarrow> ks_node_joined s \<and> bq_node_type q = node_type_code CLIENT"
  by (simp add: ks_Bootstrap_def BootstrapResponse_new_def kRpcResultSuccess_def kRpcResultFailure_def)

text \<open>
  C37: no handler that asks for its sender ever answers with success. Whatever the state of the
  node, the request, the clock and the functions it was given, \<open>Ping\<close>, \<open>FindNode\<close>, \<open>FindValue\<close>,
  \<open>Store\<close>, \<open>Downlist\<close>, \<open>Delete\<close> and \<open>Update\<close> answer with the failure code or abort the process, and
  never add a contact: an empty id is refused and every other id stops in the assertion of
  \<open>KadID (std::string)\<close>. All but \<open>Delete\<close> and \<open>Update\<close> leave the service as it was. Only
  \<open>Bootstrap\<close> can succeed, and only for a client of a joined node.
\<close>

theorem handlers_never_succeed:
  "refused pr_result s (ks_Ping E q1 r1 s) \<and> unchanged s (ks_Ping E q1 r1 s)
   \<and> refused fr_result s (ks_FindNode E q2 r2 s) \<and> unchanged s (ks_FindNode E q2 r2 s)
   \<and> refused fr_result s (ks_FindValue E now q2 r2 s) \<and> unchanged s (ks_FindValue E now q2 r2 s)
   \<and> refused tr_result s (ks_Store E now now' q3 r3 s) \<and> unchanged s (ks_Store E now now' q3 r3 s)
   \<and> refused dr_result s (ks_Downlist E q4 r4 s) \<and> unchanged s (ks_Downlist E q4 r4 s)
   \<and> refused er_result s (ks_Delete E now q5 r5 s) \<and> refused ur_result s (ks_Update E now now' q6 r6 s)
   \<and> (br_result (snd (ks_Bootstrap q7 BootstrapResponse_new s)) = kRpcResultSuccess
        \<longleftrightarrow> ks_node_joined s \<and> bq_node_type q7 = node_type_code CLIENT)"
  by (intro conjI ks_Ping_refused [THEN conjunct1] ks_Ping_refused [THEN conjunct2]
      ks_FindNode_refused [THEN conjunct1] ks_FindNode_refused [THEN conjunct2]
      ks_FindValue_refused [THEN conjunct1] ks_FindValue_refused [THEN conjunct2]
      ks_Store_refused [THEN conjunct1] ks_Store_refused [THEN conjunct2]
      ks_Downlist_refused [THEN conjunct1] ks_Downlist_refused [THEN conjunct2]
      ks_Delete_refused ks_Update_refused ks_Bootstrap_succeeds)

section \<open>Deletion without a sender\<close>

text \<open>
  \<open>Delete\<close> needs no sender and no signature. A request without a sender id that names a live
  entry of a joined node is answered with the failure code, and yet the entry is marked for
  deletion with the text of the request, whatever signature it carries: no load finds the value any
  more, and every other entry is as before.
\<close>

lemma ks_Delete_unsigned:
  assumes "multi_index (se_index E)" "ds_ok (se_index E) (ks_store s)" "ks_node_joined s"
    and "ds_at (se_index E) (ks_store s) (eq_key q, v) = Some t" "kv_alive now t"
    and "v = sv_value (eq_value q) @ sv_value_signature (eq_value q)" "ci_node_id (eq_sender_info q) = []"
  shows "\<exists>s' r. ks_Delete E now q ret s = Inr (s', r)
    \<and> r = ret\<lparr>er_node_id := ci_node_id (ks_node_info s), er_result := kRpcResultFailure\<rparr>
    \<and> ds_ok (se_index E) (ks_store s')
    \<and> ds_at (se_index E) (ks_store s') = (ds_at (se_index E) (ks_store s))((eq_key q, v) \<mapsto>
          t\<lparr>kv_ser_delete_req := delete_text (eq_signed_request q), kv_del_status := MARKED_FOR_DELETION\<rparr>)
    \<and> (\<forall>now'. v \<notin> set (fst (LoadItem (se_index E) now' (eq_key q) (ks_store s'))))"
proof -
  let ?M = "se_index E" and ?req = "delete_text (eq_signed_request q)"
  obtain ds r where mark: "MarkForDeletion ?M (eq_key q) v ?req (ks_store s) = (ds, r)" by fastforce
  note st = multi_index.MarkForDeletion_sim [OF assms(1,2), of now "eq_key q" v ?req]
  have r: "r" using st mark assms(4) by simp
  have nd: "kv_del_status t = NOT_DELETED" using assms(5) by (simp add: kv_alive_def)
  let ?t = "t\<lparr>kv_ser_delete_req := ?req, kv_del_status := MARKED_FOR_DELETION\<rparr>"
  have ok: "ds_ok ?M ds" and at: "ds_at ?M ds = (ds_at ?M (ks_store s))((eq_key q, v) \<mapsto> ?t)"
    using st mark assms(4) nd by (simp_all add: sim_def)
  have "v \<in> set (fst (LoadItem ?M now (eq_key q) (ks_store s)))"
    using LoadItem_entry [OF assms(1,2,4)] assms(5) by simp
  then have load: "snd (LoadItem ?M now (eq_key q) (ks_store s))"
    using multi_index.LoadItem_values [OF assms(1,2), of now "eq_key q"] by auto
  have gone: "v \<notin> set (fst (LoadItem ?M now' (eq_key q) ds))" for now'
    using LoadItem_entry [OF assms(1) ok, of "eq_key q" v ?t now'] at by (simp add: kv_alive_def)
  have "ks_Delete E now q ret s = Inr (s\<lparr>ks_store := ds\<rparr>,
      ret\<lparr>er_node_id := ci_node_id (ks_node_info s), er_result := kRpcResultFailure\<rparr>)"
    using assms(3,6,7) load mark r by (simp add: ks_Delete_def Let_def GetSender_cases)
  with ok at gone show ?thesis by auto
qed

section \<open>Storing a signed value\<close>

lemma attr_entries:
  assumes "multi_index M" "ds_ok M ds"
  shows "set (LoadKeyAppendableAttr M k ds) = {(v, kv_hashable t) | v t. ds_at M ds (k, v) = Some t}"
    and "distinct (map fst (LoadKeyAppendableAttr M k ds))"
proof -
  let ?p = "filter (\<lambda>t. kv_key t = k) (mi_items M (ds_index ds))"
  have inv: "mi_invar M (ds_index ds)" using assms(2) by (simp add: ds_ok_def)
  have p: "mi_equal_range M k (ds_index ds) = ?p" by (rule multi_index.equal_range [OF assms(1) inv])
  have at: "ds_at M ds (k, v) = Some t \<longleftrightarrow> t \<in> set ?p \<and> kv_value t = v" for v t
    using multi_index.find [OF assms(1) inv, of "(k, v)" t] by (auto simp: ds_at_def kv_id_def)
  show "set (LoadKeyAppendableAttr M k ds) = {(v, kv_hashable t) | v t. ds_at M ds (k, v) = Some t}"
    unfolding LoadKeyAppendableAttr_def p at by auto
  have "inj_on kv_value (set ?p)"
    using multi_index.ids_inj [OF assms(1) inv] by (auto simp: inj_on_def kv_id_def)
  moreover have "distinct ?p"
    using multi_index.distinct_ids [OF assms(1) inv] by (simp add: distinct_map)
  ultimately show "distinct (map fst (LoadKeyAppendableAttr M k ds))"
    by (simp add: LoadKeyAppendableAttr_def p distinct_map comp_def)
qed

text \<open>A hashable value is the only value of its key.\<close>

definition hash_alone :: "store_map \<Rightarrow> bool" where
  "hash_alone A \<longleftrightarrow> (\<forall>k v w t u. A (k, v) = Some t \<longrightarrow> kv_hashable t \<longrightarrow> A (k, w) = Some u \<longrightarrow> w = v)"

lemma CanStore_alone:
  assumes "multi_index (se_index E)" "ds_ok (se_index E) (ks_store s)"
    and "hash_alone (ds_at (se_index E) (ks_store s))"
    and "CanStoreSignedValueHashable E s k v = (True, h)"
    and "ds_at (se_index E) (ks_store s) (k, w) = Some t" "w \<noteq> v"
  shows "\<not> h \<and> \<not> kv_hashable t"
proof -
  define attr where "attr = LoadKeyAppendableAttr (se_index E) k (ks_store s)"
  have mem: "(w, kv_hashable t) \<in> set attr"
    using attr_entries(1) [OF assms(1,2), of k] assms(5) by (auto simp: attr_def)
  have can: "(if attr = [] then (True, k = value_hash E (set_hash_algorithm SHA_512 Crypto_new) v)
      else if length attr = 1
      then let hashable = snd (hd attr) in
           if hashable \<and> v \<noteq> fst (hd attr) then (False, hashable) else (True, hashable)
      else (True, False)) = (True, h)"
    using assms(4) by (simp only: CanStoreSignedValueHashable_def attr_def Let_def)
  consider (one) "attr = [(w, kv_hashable t)]" | (more) x where "x \<in> set attr" "x \<noteq> (w, kv_hashable t)"
    "length attr \<noteq> 1" "attr \<noteq> []"
    using mem attr_entries(2) [OF assms(1,2), of k]
    by (cases attr; cases "tl attr") (auto simp: attr_def)
  then show ?thesis
  proof cases
    case one
    then show ?thesis using can assms(6) by (auto simp: Let_def split: if_splits)
  next
    case more
    then have "\<not> h" using can by simp
    obtain w' u where x: "x = (w', kv_hashable u)" "ds_at (se_index E) (ks_store s) (k, w') = Some u"
      using more(1) attr_entries(1) [OF assms(1,2), of k] by (auto simp: attr_def)
    with more(2) assms(5) have "w' \<noteq> w" by auto
    then have "\<not> kv_hashable t" using assms(3,5) x(2) unfolding hash_alone_def by blast
    with \<open>\<not> h\<close> show ?thesis ..
  qed
qed

lemma CanStore_refuses:
  assumes "multi_index (se_index E)" "ds_ok (se_index E) (ks_store s)"
    and "hash_alone (ds_at (se_index E) (ks_store s))"
    and "ds_at (se_index E) (ks_store s) (k, w) = Some t" "kv_hashable t" "w \<noteq> v"
  shows "\<not> fst (CanStoreSignedValueHashable E s k v)"
  using CanStore_alone [OF assms(1-3) _ assms(4,6)] assms(5)
  by (metis (full_types) prod.collapse)

lemma StoreItem_step:
  assumes "multi_index M" "ds_ok M ds" "StoreItem M at k v ttl h ds = (ds', r)"
  shows "ds_ok M ds' \<and>
    (r \<and> k \<noteq> [] \<and> v \<noteq> [] \<and> ttl \<noteq> 0 \<and> store_accepts (ds_at M ds (k, v)) (key_value_full k v at (ttl + at) ttl h) \<and>
        ds_at M ds' = (ds_at M ds)((k, v) \<mapsto> key_value_full k v at (ttl + at) ttl h)
     \<or> \<not> r \<and> ds_at M ds' = ds_at M ds)"
  using multi_index.StoreItem_sim [OF assms(1,2), of at k v ttl h] assms(3)
  by (auto simp: sim_def Let_def)

lemma RefreshItem_step:
  assumes "multi_index M" "ds_ok M ds" "RefreshItem M now k v [] ds = (ds', r, req)"
  obtains (refreshed) t where "r" "ds_at M ds (k, v) = Some t" "kv_del_status t = NOT_DELETED" "ds_ok M ds'"
      "ds_at M ds' = (ds_at M ds)((k, v) \<mapsto> t\<lparr>kv_last_refresh_time := now, kv_ser_delete_req := []\<rparr>)"
  | (absent) "\<not> r" "ds' = ds" "req = []" "ds_at M ds (k, v) = None"
  | (deleted) t where "\<not> r" "ds' = ds" "ds_at M ds (k, v) = Some t" "kv_del_status t \<noteq> NOT_DELETED"
      "req = kv_ser_delete_req t"
proof (cases "ds_at M ds (k, v)")
  case None
  then have "mi_find M (k, v) (ds_index ds) = None" by (simp add: ds_at_def)
  with assms(3) None absent show ?thesis by (auto simp: RefreshItem_def)
next
  case (Some t)
  then have find: "mi_find M (k, v) (ds_index ds) = Some t" by (simp add: ds_at_def)
  show ?thesis
  proof (cases "kv_del_status t = NOT_DELETED")
    case True
    with multi_index.RefreshItem_sim [OF assms(1,2), of now k v "[]" "[]"] assms(3) Some
    have "r" "ds_ok M ds'"
      "ds_at M ds' = (ds_at M ds)((k, v) \<mapsto> t\<lparr>kv_last_refresh_time := now, kv_ser_delete_req := []\<rparr>)"
      by (auto simp: sim_def)
    with refreshed Some True show ?thesis by blast
  next
    case False
    with assms(3) find Some deleted show ?thesis by (auto simp: RefreshItem_def)
  qed
qed

text \<open>
  What \<open>StoreValueLocal\<close> makes of the map, by cases: nothing changes and it fails, the entry that
  is there and not deleted is refreshed, or the item is stored, in which case the test for
  hashable values let it pass.
\<close>

lemma StoreValueLocal_step:
  assumes "multi_index (se_index E)" "ds_ok (se_index E) (ks_store s)"
    and "StoreValueLocal_signed E now now' key value sender ttl publish ret s = (s', r)"
    and "v = sv_value value @ sv_value_signature value"
    and "A = ds_at (se_index E) (ks_store s)" "A' = ds_at (se_index E) (ks_store s')"
  shows "ds_ok (se_index E) (ks_store s') \<and>
    (A' = A \<and> ks_world s' = ks_world s \<and> tr_result r = kRpcResultFailure
       \<and> \<not> (\<not> publish \<and> (\<exists>t. A (key, v) = Some t \<and> kv_del_status t = NOT_DELETED))
     \<or> ks_world s' = se_add_contact E sender False (ks_world s) \<and> tr_result r = kRpcResultSuccess \<and>
       (\<not> publish \<and> (\<exists>t. A (key, v) = Some t \<and> kv_del_status t = NOT_DELETED \<and>
           A' = A((key, v) \<mapsto> t\<lparr>kv_last_refresh_time := now, kv_ser_delete_req := []\<rparr>))
        \<or> (\<exists>h at. CanStoreSignedValueHashable E s key v = (True, h) \<and>
             key \<noteq> [] \<and> v \<noteq> [] \<and> ttl \<noteq> 0 \<and>
             store_accepts (A (key, v)) (key_value_full key v at (ttl + at) ttl h) \<and>
             (publish \<or> A (key, v) = None \<or> (\<exists>t. A (key, v) = Some t \<and>
                kv_del_status t \<noteq> NOT_DELETED \<and> kv_ser_delete_req t = [])) \<and>
             A' = A((key, v) \<mapsto> key_value_full key v at (ttl + at) ttl h))))"
proof -
  let ?M = "se_index E" and ?ds = "ks_store s"
  obtain can h where can: "CanStoreSignedValueHashable E s key v = (can, h)" by fastforce
  have same: "s\<lparr>ks_store := ks_store s\<rparr> = s" by simp
  note eq = assms(3) [unfolded StoreValueLocal_signed_def assms(4) [symmetric] Let_def]
  show ?thesis
  proof (cases publish)
    case True
    obtain ds1 ok where st: "StoreItem ?M now key v ttl h ?ds = (ds1, ok)" by fastforce
    note step = StoreItem_step [OF assms(1,2) st]
    show ?thesis
      using eq step True can st assms(2,5,6)
      by (cases can; cases ok) (auto simp: answer_store_def add_sender_def)
  next
    case False
    obtain ds1 r1 req where rf: "RefreshItem ?M now key v [] ?ds = (ds1, r1, req)" by (metis prod_cases3)
    obtain ds2 ok where st: "StoreItem ?M now' key v ttl h ?ds = (ds2, ok)" by fastforce
    note step = StoreItem_step [OF assms(1,2) st]
    show ?thesis
    proof (cases rule: RefreshItem_step [OF assms(1,2) rf])
      case (1 t)
      then show ?thesis
        using eq rf False assms(5,6) by (auto simp: answer_store_def add_sender_def)
    next
      case 2
      then show ?thesis
        using eq step rf False can st assms(2,5,6)
        by (cases can; cases ok) (auto simp: answer_store_def add_sender_def same)
    next
      case (3 t)
      then show ?thesis
        using eq step rf False can st assms(2,5,6)
        by (cases can; cases ok; cases "req = []") (auto simp: answer_store_def add_sender_def same)
    qed
  qed
qed

text \<open>
  C11: what \<open>StoreValueLocal\<close> answers for a signed value. It answers success or failure; on failure
  the store and the world of the node are as before; on success the sender is added, the entry of
  the key and the value is in the store and not deleted, and no other entry has changed. A value
  that is there and not deleted is refreshed when the request does not publish, with its time to
  live and expiry as they were, whatever the request says of them. An entry whose deletion request
  is not empty makes every request that does not publish fail.
\<close>

theorem StoreValueLocal_outcome:
  assumes "multi_index (se_index E)" "ds_ok (se_index E) (ks_store s)"
    and "StoreValueLocal_signed E now now' key value sender ttl publish ret s = (s', r)"
    and "v = sv_value value @ sv_value_signature value"
    and "A = ds_at (se_index E) (ks_store s)" "A' = ds_at (se_index E) (ks_store s')"
  shows "ds_ok (se_index E) (ks_store s')
    \<and> (tr_result r = kRpcResultFailure \<and> A' = A \<and> ks_world s' = ks_world s
       \<or> tr_result r = kRpcResultSuccess \<and> ks_world s' = se_add_contact E sender False (ks_world s)
         \<and> (\<exists>t'. A' = A((key, v) \<mapsto> t') \<and> kv_del_status t' = NOT_DELETED))
    \<and> (\<forall>t. \<not> publish \<and> A (key, v) = Some t \<and> kv_del_status t = NOT_DELETED \<longrightarrow>
          tr_result r = kRpcResultSuccess
          \<and> A' = A((key, v) \<mapsto> t\<lparr>kv_last_refresh_time := now, kv_ser_delete_req := []\<rparr>))
    \<and> (\<forall>t. \<not> publish \<and> A (key, v) = Some t \<and> kv_del_status t \<noteq> NOT_DELETED \<and> kv_ser_delete_req t \<noteq> []
          \<longrightarrow> tr_result r = kRpcResultFailure)"
proof -
  have codes: "kRpcResultFailure \<noteq> kRpcResultSuccess"
    by (simp add: kRpcResultFailure_def kRpcResultSuccess_def)
  have fresh: "kv_del_status (key_value_full k w a e l h) = NOT_DELETED" for k w a e l h
    by (simp add: key_value_full_def)
  have kept: "kv_del_status (t\<lparr>kv_last_refresh_time := a, kv_ser_delete_req := []\<rparr>) = kv_del_status t" for t a
    by simp
  from StoreValueLocal_step [OF assms] show ?thesis
    by (elim conjE disjE exE) (auto simp: codes codes [symmetric] fresh)
qed

definition toy_env :: "(key_value_tuple list, contact list) service_env" where
  "toy_env = \<lparr>se_index = list_index, se_add_contact = (\<lambda>c b w. c # w), se_get_contact = (\<lambda>k w. None),
     se_get_closestK = (\<lambda>k ex w. w), se_ping = (\<lambda>c w. w), se_crypto = toy_lib, se_files = toy_files,
     se_junk = 0\<rparr>"

definition toy_service :: "(key_value_tuple list, contact list) kad_service" where
  "toy_service = set_node_joined True (KadService_new ex_store False [])"

lemma toy_fields [simp]:
  "se_index toy_env = list_index" "ks_store toy_service = ex_store" "ks_node_joined toy_service"
  "ks_world toy_service = []" "se_crypto toy_env = toy_lib" "se_files toy_env = toy_files"
  by (simp_all add: toy_env_def toy_service_def set_node_joined_def KadService_new_def)

lemma ex_store_ok: "ds_ok list_index ex_store"
  using reachable_ok [OF list_index_laws ex_store_reachable] by blast

lemma ex_store_entry:
  "ds_at list_index ex_store = [(''k'', ''v'') \<mapsto> key_value_full ''k'' ''v'' 100 150 50 False]"
  by (rule ext) (simp add: ex_store_def DataStore_new_def StoreItem_def list_index_def ds_at_def
      key_value_full_def kv_id_def)

theorem StoreValueLocal_outcome_witness:
  "\<exists>s' r. StoreValueLocal_signed toy_env 120 120 ''k'' (SignedValue_new\<lparr>sv_value := ''v''\<rparr>) (Contact_default 0)
      900 False StoreResponse_new toy_service = (s', r) \<and> tr_result r = kRpcResultSuccess
    \<and> ds_at list_index (ks_store s') (''k'', ''v'') = Some (key_value_full ''k'' ''v'' 120 150 50 False)"
proof -
  let ?v = "SignedValue_new\<lparr>sv_value := ''v''\<rparr>" and ?t = "key_value_full ''k'' ''v'' 100 150 50 False"
  obtain s' r where run: "StoreValueLocal_signed toy_env 120 120 ''k'' ?v (Contact_default 0) 900 False
      StoreResponse_new toy_service = (s', r)" by fastforce
  have v: "''v'' = sv_value ?v @ sv_value_signature ?v" by (simp add: SignedValue_new_def)
  have "multi_index (se_index toy_env)" "ds_ok (se_index toy_env) (ks_store toy_service)"
    by (simp_all add: list_index_laws ex_store_ok)
  from StoreValueLocal_outcome [OF this run v refl refl, THEN conjunct2, THEN conjunct2, THEN conjunct1]
  have "\<forall>t. ds_at list_index ex_store (''k'', ''v'') = Some t \<and> kv_del_status t = NOT_DELETED \<longrightarrow>
      tr_result r = kRpcResultSuccess \<and> ds_at list_index (ks_store s') = (ds_at list_index ex_store)
        ((''k'', ''v'') \<mapsto> t\<lparr>kv_last_refresh_time := 120, kv_ser_delete_req := []\<rparr>)"
    by (simp only: toy_fields simp_thms)
  moreover have "kv_del_status ?t = NOT_DELETED"
    "?t\<lparr>kv_last_refresh_time := 120, kv_ser_delete_req := []\<rparr> = key_value_full ''k'' ''v'' 120 150 50 False"
    by (simp_all add: key_value_full_def)
  ultimately show ?thesis using run by (simp add: ex_store_entry)
qed

section \<open>Values under their own hash\<close>

text \<open>
  Every value that is flagged as hashable is stored under its SHA-512 digest, and is the only value of
  its key.
\<close>

definition hash_sound :: "('m, 'w) service_env \<Rightarrow> store_map \<Rightarrow> bool" where
  "hash_sound E A \<longleftrightarrow> (\<forall>k v t. A (k, v) = Some t \<and> kv_hashable t \<longrightarrow>
     k = cl_digest (se_crypto E) SHA_512 v \<and> (\<forall>w u. A (k, w) = Some u \<longrightarrow> w = v))"

lemma value_hash_digest: "value_hash E (set_hash_algorithm SHA_512 Crypto_new) v = cl_digest (se_crypto E) SHA_512 v"
  by (simp add: value_hash_def Hash_def set_hash_algorithm_def Crypto_new_def HashFunc_def caught_def hash_filter_def)

lemma hash_sound_alone: "hash_sound E A \<Longrightarrow> hash_alone A"
  unfolding hash_sound_def hash_alone_def by blast

lemma hash_alone_kept:
  assumes "multi_index (se_index E)" "ds_ok (se_index E) (ks_store s)"
    and "hash_alone (ds_at (se_index E) (ks_store s))"
    and "StoreValueLocal_signed E now now' key value sender ttl publish ret s = (s', r)"
  shows "hash_alone (ds_at (se_index E) (ks_store s'))
    \<and> (\<forall>w t. ds_at (se_index E) (ks_store s) (key, w) = Some t \<and> kv_hashable t
         \<and> w \<noteq> sv_value value @ sv_value_signature value \<longrightarrow>
         tr_result r = kRpcResultFailure \<and> ds_at (se_index E) (ks_store s') = ds_at (se_index E) (ks_store s))"
proof -
  define v where "v = sv_value value @ sv_value_signature value"
  define A where "A = ds_at (se_index E) (ks_store s)"
  define A' where "A' = ds_at (se_index E) (ks_store s')"
  note step = StoreValueLocal_step [OF assms(1,2,4) v_def A_def A'_def]
  have alone: "hash_alone (A((key, v) \<mapsto> t'))"
    if "\<And>w u. A (key, w) = Some u \<Longrightarrow> w \<noteq> v \<Longrightarrow> \<not> kv_hashable u \<and> \<not> kv_hashable t'" for t'
    unfolding hash_alone_def
  proof (intro allI impI)
    fix k x y t u
    assume "(A((key, v) \<mapsto> t')) (k, x) = Some t" "kv_hashable t" "(A((key, v) \<mapsto> t')) (k, y) = Some u"
    with that assms(3) show "y = x"
      unfolding hash_alone_def A_def by (auto split: if_splits)
  qed
  have refreshed: "hash_alone (A((key, v) \<mapsto> t\<lparr>kv_last_refresh_time := now, kv_ser_delete_req := []\<rparr>))"
    if "A (key, v) = Some t" for t
  proof (rule alone)
    fix w u assume "A (key, w) = Some u" "w \<noteq> v"
    with that assms(3) have "\<not> kv_hashable u" "\<not> kv_hashable t"
      unfolding hash_alone_def A_def by metis+
    then show "\<not> kv_hashable u \<and> \<not> kv_hashable (t\<lparr>kv_last_refresh_time := now, kv_ser_delete_req := []\<rparr>)"
      by simp
  qed
  have stored: "hash_alone (A((key, v) \<mapsto> key_value_full key v a (ttl + a) ttl h))"
    if "CanStoreSignedValueHashable E s key v = (True, h)" for h a
    using CanStore_alone [OF assms(1-3) that] by (intro alone) (auto simp: A_def key_value_full_def)
  from step refreshed stored assms(3) have "hash_alone A'"
    by (auto simp: A_def)
  moreover have "tr_result r = kRpcResultFailure \<and> A' = A"
    if "A (key, w) = Some t" "kv_hashable t" "w \<noteq> v" for w t
  proof -
    have "\<not> fst (CanStoreSignedValueHashable E s key v)"
      using CanStore_refuses [OF assms(1-3)] that by (auto simp: A_def)
    moreover have "A (key, v) = None"
      using assms(3) that unfolding hash_alone_def A_def by (metis not_Some_eq)
    ultimately show ?thesis using step by auto
  qed
  ultimately show ?thesis by (auto simp: A_def A'_def v_def)
qed

text \<open>The flag that the test gives.\<close>

lemma CanStore_flag:
  assumes "multi_index (se_index E)" "ds_ok (se_index E) (ks_store s)"
    and "CanStoreSignedValueHashable E s k v = (True, h)"
  shows "(\<forall>w. ds_at (se_index E) (ks_store s) (k, w) = None) \<Longrightarrow> h \<longleftrightarrow> k = cl_digest (se_crypto E) SHA_512 v"
    and "hash_sound E (ds_at (se_index E) (ks_store s)) \<Longrightarrow> h \<Longrightarrow> k = cl_digest (se_crypto E) SHA_512 v"
proof -
  define attr where "attr = LoadKeyAppendableAttr (se_index E) k (ks_store s)"
  note entries = attr_entries(1) [OF assms(1,2), of k, folded attr_def]
  have can: "(if attr = [] then (True, k = cl_digest (se_crypto E) SHA_512 v)
      else if length attr = 1
      then let hashable = snd (hd attr) in
           if hashable \<and> v \<noteq> fst (hd attr) then (False, hashable) else (True, hashable)
      else (True, False)) = (True, h)"
    using assms(3) by (simp only: CanStoreSignedValueHashable_def attr_def Let_def value_hash_digest)
  show "h \<longleftrightarrow> k = cl_digest (se_crypto E) SHA_512 v" if "\<forall>w. ds_at (se_index E) (ks_store s) (k, w) = None"
  proof -
    have "set attr = {}" unfolding entries using that by simp
    then show ?thesis using can by simp
  qed
  show "k = cl_digest (se_crypto E) SHA_512 v" if sound: "hash_sound E (ds_at (se_index E) (ks_store s))" and flag: h
  proof (cases "attr = []")
    case False
    with can flag have x: "attr = [(v, True)]"
      by (cases attr) (auto simp: Let_def split: if_splits)
    then have "(v, True) \<in> {(v, kv_hashable t) | v t. ds_at (se_index E) (ks_store s) (k, v) = Some t}"
      unfolding entries [symmetric] by simp
    then obtain t where "ds_at (se_index E) (ks_store s) (k, v) = Some t" "kv_hashable t" by auto
    with sound show ?thesis unfolding hash_sound_def by blast
  qed (use can flag in simp)
qed

text \<open>
  C12: a value stored under its own hash keeps its key to itself. When every value flagged as hashable is
  stored under its SHA-512 digest and is alone under its key, \<open>StoreValueLocal\<close> keeps it so. A key that holds
  a flagged value accepts no other: the request fails and nothing changes. The first value of a key
  that is stored with success is flagged just when the key is its digest; a value that joins
  another under its key is not flagged, whatever its digest is.
\<close>

theorem hashable_values_alone:
  assumes "multi_index (se_index E)" "ds_ok (se_index E) (ks_store s)"
    and "hash_sound E (ds_at (se_index E) (ks_store s))"
    and "StoreValueLocal_signed E now now' key value sender ttl publish ret s = (s', r)"
    and "v = sv_value value @ sv_value_signature value"
    and "A = ds_at (se_index E) (ks_store s)" "A' = ds_at (se_index E) (ks_store s')"
  shows "hash_sound E A'
    \<and> (\<forall>w t. A (key, w) = Some t \<and> kv_hashable t \<and> w \<noteq> v \<longrightarrow> tr_result r = kRpcResultFailure \<and> A' = A)
    \<and> (tr_result r = kRpcResultSuccess \<and> (\<forall>w. A (key, w) = None) \<longrightarrow>
         (\<exists>t. A' (key, v) = Some t \<and> (kv_hashable t \<longleftrightarrow> key = cl_digest (se_crypto E) SHA_512 v)))
    \<and> (tr_result r = kRpcResultSuccess \<and> (\<exists>w. w \<noteq> v \<and> A (key, w) \<noteq> None) \<longrightarrow>
         (\<exists>t. A' (key, v) = Some t \<and> \<not> kv_hashable t))"
proof -
  note alone = hash_sound_alone [OF assms(3)]
  have codes: "kRpcResultFailure \<noteq> kRpcResultSuccess"
    by (simp add: kRpcResultFailure_def kRpcResultSuccess_def)
  consider (fail) "tr_result r = kRpcResultFailure" "A' = A"
    | (refreshed) t where "A (key, v) = Some t" "A' = A((key, v) \<mapsto> t\<lparr>kv_last_refresh_time := now, kv_ser_delete_req := []\<rparr>)"
        "tr_result r = kRpcResultSuccess"
    | (stored) h a where "CanStoreSignedValueHashable E s key v = (True, h)" "A' = A((key, v) \<mapsto> key_value_full key v a (ttl + a) ttl h)"
        "tr_result r = kRpcResultSuccess"
    using StoreValueLocal_step [OF assms(1,2,4-7)] by blast
  note cases = this
  have flagged: "k = cl_digest (se_crypto E) SHA_512 w" if "A' (k, w) = Some t" "kv_hashable t" for k w t
    using cases
  proof cases
    case (stored h a)
    then show ?thesis
      using that assms(3,6) CanStore_flag(2) [OF assms(1,2) stored(1) assms(3)]
      by (auto simp: hash_sound_def key_value_full_def split: if_splits)
  qed (use that assms(3,6) in \<open>auto simp: hash_sound_def split: if_splits\<close>)
  have sound: "hash_sound E A'"
    using hash_alone_kept [OF assms(1,2) alone assms(4)] flagged unfolding hash_sound_def hash_alone_def assms(7) by blast
  have first: "\<exists>t. A' (key, v) = Some t \<and> (kv_hashable t \<longleftrightarrow> key = cl_digest (se_crypto E) SHA_512 v)"
    if "tr_result r = kRpcResultSuccess" "\<forall>w. A (key, w) = None"
    using cases
  proof cases
    case (stored h a)
    then show ?thesis using CanStore_flag(1) [OF assms(1,2) stored(1)] that assms(6) by (simp add: key_value_full_def)
  qed (use that codes in auto)
  have joins: "\<exists>t. A' (key, v) = Some t \<and> \<not> kv_hashable t"
    if "tr_result r = kRpcResultSuccess" "w \<noteq> v" "A (key, w) \<noteq> None" for w
    using cases
  proof cases
    case (stored h a)
    then show ?thesis using CanStore_alone [OF assms(1,2) alone stored(1)] that assms(6) by (auto simp: key_value_full_def)
  next
    case (refreshed t)
    then show ?thesis using alone that assms(6) unfolding hash_alone_def by auto
  qed (use that codes in auto)
  from sound first joins hash_alone_kept [OF assms(1,2) alone assms(4)] show ?thesis unfolding assms(5-7) by blast
qed

text \<open>A value under its own digest in an empty store, and another one that is refused.\<close>

definition empty_service :: "(key_value_tuple list, contact list) kad_service" where
  "empty_service = set_node_joined True (KadService_new (DataStore_new list_index 3600) False [])"

theorem hashable_values_alone_witness:
  "\<exists>s1 r1 s2 r2 t. StoreValueLocal_signed toy_env 120 120 (toy_digest SHA_512 ''w'') (SignedValue_new\<lparr>sv_value := ''w''\<rparr>)
      (Contact_default 0) 900 True StoreResponse_new empty_service = (s1, r1) \<and> tr_result r1 = kRpcResultSuccess \<and>
    ds_at list_index (ks_store s1) (toy_digest SHA_512 ''w'', ''w'') = Some t \<and> kv_hashable t \<and>
    StoreValueLocal_signed toy_env 120 120 (toy_digest SHA_512 ''w'') (SignedValue_new\<lparr>sv_value := ''x''\<rparr>)
      (Contact_default 0) 900 True StoreResponse_new s1 = (s2, r2) \<and> tr_result r2 = kRpcResultFailure"
proof -
  let ?M = "se_index toy_env" and ?k = "toy_digest SHA_512 ''w''"
  let ?w = "SignedValue_new\<lparr>sv_value := ''w''\<rparr>" and ?x = "SignedValue_new\<lparr>sv_value := ''x''\<rparr>"
  obtain s1 r1 where one: "StoreValueLocal_signed toy_env 120 120 ?k ?w (Contact_default 0) 900 True
      StoreResponse_new empty_service = (s1, r1)" by fastforce
  obtain s2 r2 where two: "StoreValueLocal_signed toy_env 120 120 ?k ?x (Contact_default 0) 900 True
      StoreResponse_new s1 = (s2, r2)" by fastforce
  have laws: "multi_index ?M" by (simp add: list_index_laws)
  have start: "ds_ok ?M (ks_store empty_service)" "ds_at ?M (ks_store empty_service) = Map.empty"
    by (simp_all add: empty_service_def set_node_joined_def KadService_new_def DataStore_new_def ds_ok_def ds_at_def list_index_def fun_eq_iff)
  then have empty: "hash_sound toy_env (ds_at ?M (ks_store empty_service))" by (simp add: hash_sound_def)
  have k: "?k \<noteq> []" by (simp add: toy_digest_def)
  have w: "''w'' = sv_value ?w @ sv_value_signature ?w" and x: "''x'' = sv_value ?x @ sv_value_signature ?x"
    by (simp_all add: SignedValue_new_def)
  have ok1: "ds_ok ?M (ks_store s1)" using StoreValueLocal_outcome [OF laws start(1) one w refl refl] by blast
  have success: "tr_result r1 = kRpcResultSuccess"
    using one k by (auto simp: StoreValueLocal_signed_def CanStoreSignedValueHashable_def LoadKeyAppendableAttr_def empty_service_def
        set_node_joined_def KadService_new_def DataStore_new_def StoreItem_def list_index_def answer_store_def SignedValue_new_def
        add_sender_def Let_def)
  note alone1 = hashable_values_alone [OF laws start(1) empty one w refl refl]
  obtain t where t: "ds_at ?M (ks_store s1) (?k, ''w'') = Some t" "kv_hashable t"
    using alone1 [THEN conjunct2, THEN conjunct2, THEN conjunct1] success start(2) by (auto simp: toy_lib_def)
  have sound1: "hash_sound toy_env (ds_at ?M (ks_store s1))" using alone1 by blast
  have "tr_result r2 = kRpcResultFailure"
    using hashable_values_alone [OF laws ok1 sound1 two x refl refl, THEN conjunct2, THEN conjunct1] t by blast
  then show ?thesis using one two success t by auto
qed

end
