(* ===== verification/KadRpcsProperties.thy ===== *)
theory KadRpcsProperties
  imports KadRpcs ThriftServiceProperties KadServiceProperties "HOL-Library.Word"
begin

text \<open>
  The client, the generated code and the service together: the interface of the processor is the
  service of the other node. No handler of the service throws, and one that aborts ends the process.
\<close>

definition handler_of :: "('q \<Rightarrow> 'r \<Rightarrow> 's \<Rightarrow> ('s \<times> 'r) res) \<Rightarrow> ('q, 'r, 's) handler" where
  "handler_of h request ret s = bind_res (h request ret s) (\<lambda>(s', r). Inr (s', Inr r))"

definition kad_service_if ::
  "('m, 'w) service_env \<Rightarrow> uint32 \<Rightarrow> uint32 \<Rightarrow> ('m, 'w) kad_service service_if" where
  "kad_service_if E now now' =
     \<lparr>if_Ping = handler_of (ks_Ping E), if_FindValue = handler_of (ks_FindValue E now),
      if_FindNode = handler_of (ks_FindNode E), if_Store = handler_of (ks_Store E now now'),
      if_Downlist = handler_of (ks_Downlist E),
      if_Bootstrap = handler_of (\<lambda>request ret s. Inr (ks_Bootstrap request ret s)),
      if_Delete = handler_of (ks_Delete E now), if_Update = handler_of (ks_Update E now now')\<rparr>"

text \<open>A network of one node, over a transport that opens and closes.\<close>

definition node_net ::
  "thrift_lib \<Rightarrow> ('m, 'w) service_env \<Rightarrow> uint32 \<Rightarrow> uint32 \<Rightarrow> (('m, 'w) kad_service \<times> message option) rpc_net" where
  "node_net L E now now' =
     \<lparr>rn_open = (\<lambda>n. (True, n)), rn_close = id, rn_lib = L, rn_protocol = served L (kad_service_if E now now')\<rparr>"

lemma call_outcome_handler:
  "call_outcome L merge ret s (handler_of h q r s) =
     (case h q r s of Inl e \<Rightarrow> Inr (ret, Some Transport_exception, (s, None))
                    | Inr (s', w) \<Rightarrow> Inr (merge w ret, None, (s', None)))"
  by (auto simp: handler_of_def call_outcome_def split: sum.split)

lemma node_net_simps [simp]:
  "rn_lib (node_net L E now now') = L"
  "rn_protocol (node_net L E now now') = served L (kad_service_if E now now')"
  by (simp_all add: node_net_def)

lemma with_transport_node:
  "with_transport (node_net L E now now') call resp n =
     bind_res (call resp n) (\<lambda>(resp', thrown, n'). Inr (resp', n'))"
  by (cases "call resp n") (auto simp: with_transport_def node_net_def)

text \<open>A store request without the flags its fields need is refused before its sender is looked at.\<close>

lemma ks_Store_unset:
  "2 \<notin> tq_isset q \<Longrightarrow> 3 \<notin> tq_isset q \<Longrightarrow> ks_Store E now now' q ret s = Inr (s, ret\<lparr>tr_result := kRpcResultFailure\<rparr>)"
  by (simp add: ks_Store_def CheckStoreRequest_def)

lemma StoreRequest_travels_unset:
  "tq_isset q = {} \<Longrightarrow> 2 \<notin> tq_isset (StoreRequest_merge q StoreRequest_new)"
  "tq_isset q = {} \<Longrightarrow> 3 \<notin> tq_isset (StoreRequest_merge q StoreRequest_new)"
  by (simp_all add: StoreRequest_merge_def StoreRequest_new_def)

lemma StoreResponse_received:
  "StoreResponse_merge (StoreResponse_new\<lparr>tr_result := x\<rparr>) resp = resp\<lparr>tr_result := x, tr_isset := insert 1 (tr_isset resp)\<rparr>"
  by (simp add: StoreResponse_merge_def StoreResponse_new_def)

lemma client_Store_unset:
  assumes "tq_isset q = {}"
  shows "client_Store L (served L (kad_service_if E now now')) q resp (s, x) =
    Inr (resp\<lparr>tr_result := kRpcResultFailure, tr_isset := insert 1 (tr_isset resp)\<rparr>, None, (s, None))"
  using StoreRequest_travels_unset [OF assms]
  by (simp add: client_Store_served call_outcome_handler kad_service_if_def ks_Store_unset StoreResponse_received)

text \<open>
  A value cannot be stored on another node. Both \<open>Store\<close> methods of \<open>KadRpcs\<close>, through the
  generated code of both ends, get the failure code from every node, joined or not, with keys or
  without, for every key, value, time to live and sender, and leave the other node as it was: the
  client sets the value but not its flag, so the value does not travel, and \<open>CheckStoreRequest\<close>
  refuses the request.
\<close>

theorem remote_store_fails:
  "rpc_Store_string (node_net L E now now') c key text ttl publish resp (s, x) =
     Inr (resp\<lparr>tr_result := kRpcResultFailure, tr_isset := insert 1 (tr_isset resp)\<rparr>, (s, None))
   \<and> rpc_Store_signed (node_net L E now now') c key value ttl publish resp (s, x) =
     Inr (resp\<lparr>tr_result := kRpcResultFailure, tr_isset := insert 1 (tr_isset resp)\<rparr>, (s, None))"
  by (simp add: rpc_Store_string_def rpc_Store_signed_def Let_def with_transport_node client_Store_unset
      StoreRequest_new_def)

text \<open>
  What a client learns from \<open>Bootstrap\<close>. The answer of a joined node is the success code, since
  the client never sets its type and 0 is \<open>CLIENT\<close>, and that of another node the failure code; in
  both cases every other field of the response stays what the caller had put there: the service
  fills the id and the address but not their flags, and they do not travel.
\<close>

theorem remote_bootstrap_answers:
  "rpc_Bootstrap (node_net L E now now') local_id local_ip local_port resp (s, x) =
    Inr (resp\<lparr>br_result := (if ks_node_joined s then kRpcResultSuccess else kRpcResultFailure),
             br_isset := insert 1 (br_isset resp)\<rparr>, (s, None))"
  by (simp add: rpc_Bootstrap_def Let_def with_transport_node client_Bootstrap_served
      call_outcome_handler kad_service_if_def ks_Bootstrap_def BootstrapRequest_merge_def BootstrapRequest_new_def
      BootstrapResponse_merge_def BootstrapResponse_new_def)

section \<open>Deletion by anyone\<close>

lemma DeleteRequest_travels:
  "eq_key (DeleteRequest_merge q m0) = eq_key q"
  "sv_value (eq_value (DeleteRequest_merge q m0)) = sv_value (eq_value q)"
  "sv_value_signature (eq_value (DeleteRequest_merge q m0)) = sv_value_signature (eq_value q)"
  "ci_node_id (eq_sender_info (DeleteRequest_merge q m0)) = ci_node_id (eq_sender_info q)"
  "delete_text (eq_signed_request (DeleteRequest_merge q m0)) = delete_text (eq_signed_request q)"
  by (simp_all add: DeleteRequest_merge_def SignedValue_merge_def ContactInfo_merge_def SignedRequest_merge_def
      delete_text_def)

lemma DeleteResponse_received:
  "DeleteResponse_merge (DeleteResponse_new\<lparr>er_node_id := i, er_result := x\<rparr>) resp =
     resp\<lparr>er_result := x, er_isset := insert 1 (er_isset resp)\<rparr>"
  by (simp add: DeleteResponse_merge_def DeleteResponse_new_def)

text \<open>
  C38: any client can delete any value. A client that has set no contact of its own and signs nothing,
  and calls \<open>KadRpcs::Delete\<close> with the key and the text of a live entry of a joined node, is answered
  with the failure code, and yet the node has marked the entry for deletion with the text of the
  request: no load finds the value any more, and every other entry is as before.
\<close>

theorem remote_delete_unsigned:
  assumes "multi_index (se_index E)" "ds_ok (se_index E) (ks_store s)" "ks_node_joined s"
    and "ds_at (se_index E) (ks_store s) (key, v) = Some t" "kv_alive now t"
    and "v = sv_value sv @ sv_value_signature sv" "ci_node_id (kr_info c) = []"
  shows "\<exists>s'. rpc_Delete (node_net L E now now') c key sv sig_req resp (s, x) =
        Inr (resp\<lparr>er_result := kRpcResultFailure, er_isset := insert 1 (er_isset resp)\<rparr>, (s', None))
    \<and> ds_ok (se_index E) (ks_store s')
    \<and> ds_at (se_index E) (ks_store s') = (ds_at (se_index E) (ks_store s))((key, v) \<mapsto>
          t\<lparr>kv_ser_delete_req := delete_text sig_req, kv_del_status := MARKED_FOR_DELETION\<rparr>)
    \<and> (\<forall>later. v \<notin> set (fst (LoadItem (se_index E) later key (ks_store s'))))"
proof -
  let ?a = "DeleteRequest_new\<lparr>eq_key := key, eq_value := sv, eq_sender_info := kr_info c, eq_signed_request := sig_req\<rparr>"
  let ?q = "DeleteRequest_merge ?a DeleteRequest_new"
  have "ds_at (se_index E) (ks_store s) (eq_key ?q, v) = Some t" using assms(4) by (simp add: DeleteRequest_travels)
  from ks_Delete_unsigned [OF assms(1-3) this assms(5), of DeleteResponse_new] assms(6,7)
  obtain s' where "ks_Delete E now ?q DeleteResponse_new s =
      Inr (s', DeleteResponse_new\<lparr>er_node_id := ci_node_id (ks_node_info s), er_result := kRpcResultFailure\<rparr>)"
    and rest: "ds_ok (se_index E) (ks_store s')"
      "ds_at (se_index E) (ks_store s') = (ds_at (se_index E) (ks_store s))((key, v) \<mapsto>
          t\<lparr>kv_ser_delete_req := delete_text sig_req, kv_del_status := MARKED_FOR_DELETION\<rparr>)"
      "\<forall>later. v \<notin> set (fst (LoadItem (se_index E) later key (ks_store s')))"
    by (auto simp: DeleteRequest_travels)
  then have "rpc_Delete (node_net L E now now') c key sv sig_req resp (s, x) =
        Inr (resp\<lparr>er_result := kRpcResultFailure, er_isset := insert 1 (er_isset resp)\<rparr>, (s', None))"
    by (simp add: rpc_Delete_def Let_def with_transport_node client_Delete_served call_outcome_handler
        kad_service_if_def DeleteResponse_received)
  with rest show ?thesis by blast
qed

theorem remote_delete_unsigned_witness:
  "\<exists>s'. rpc_Delete (node_net (\<lparr>tl_write = (\<lambda>x. []), tl_read = (\<lambda>fs. (UNKNOWN, []))\<rparr>) toy_env 120 120) KadRpcs_new
      ''k'' (SignedValue_new\<lparr>sv_value := ''v''\<rparr>) SignedRequest_new DeleteResponse_new (toy_service, None) =
        Inr (DeleteResponse_new\<lparr>er_result := ''F'', er_isset := {1}\<rparr>, (s', None))
    \<and> ds_at list_index (ks_store s') (''k'', ''v'') \<noteq> ds_at list_index ex_store (''k'', ''v'')"
proof -
  let ?t = "key_value_full ''k'' ''v'' 100 150 50 False"
  have live: "kv_alive 120 ?t" by (simp add: kv_alive_def key_value_full_def)
  have marked: "?t\<lparr>kv_ser_delete_req := r, kv_del_status := MARKED_FOR_DELETION\<rparr> \<noteq> ?t" for r
    by (simp add: key_value_full_def)
  show ?thesis
    using remote_delete_unsigned [where E = toy_env and s = toy_service and key = "''k''" and v = "''v''" and t = ?t
        and now = 120 and sv = "SignedValue_new\<lparr>sv_value := ''v''\<rparr>" and c = KadRpcs_new
        and L = "\<lparr>tl_write = (\<lambda>x. []), tl_read = (\<lambda>fs. (UNKNOWN, []))\<rparr>" and now' = 120
        and sig_req = SignedRequest_new and resp = DeleteResponse_new and x = None] live marked
    by (auto simp: list_index_laws ex_store_ok ex_store_entry SignedValue_new_def ContactInfo_new_def KadRpcs_new_def
        kRpcResultFailure_def DeleteResponse_new_def)
qed

end
