(* ===== verification/ThreadPool.thy ===== *)
theory ThreadPool
  imports Prelude "HOL-Library.Multiset" "HOL-Library.Word"
begin

text \<open>
  \<open>TThreadPool\<close> and \<open>TPoolThr\<close> (\<open>src/common/TThreadPool.cpp\<close>) as a step relation over the threads of
  the pool and the threads that call it. A step is one critical section of the code, or the code
  between two of them; a thread that waits on \<open>_idle_cond\<close> is in a phase of its own until a signal
  wakes it. \<open>pthread_cond_signal\<close> wakes one of the waiting threads, which one is open, and a thread
  may also wake without a signal. The condition of a worker has one waiter, so that its wait is the
  step of that worker being disabled. Threads that cannot be created and the misuse of a pool that
  is being destroyed by other callers are left out.
\<close>

text \<open>A job with its data pointer and the flag that says whether the pool deletes it.\<close>

type_synonym task = "nat \<times> nat \<times> bool"

text \<open>
  The phases of \<open>TPoolThr::run\<close>: before \<open>append_idle\<close>; at or in the wait for a job; with a job it is
  about to run; after \<open>_job->unlock ()\<close>; out of the loop.
\<close>

datatype phase = W_Append | W_Wait | W_Run | W_Clear | W_Exited

record worker =
  wk_phase :: phase
  wk_job :: "task option"
  wk_end :: bool

text \<open>
  The phases of a caller: in \<open>run\<close> before the test of \<open>get_idle\<close>, waiting there, with a thread,
  with the mutex of the job locked too; in \<open>sync_all\<close> before its test, waiting there; in \<open>sync\<close>
  before and after \<open>lock\<close>; in the destructor before the test of \<open>sync_all\<close>, waiting there, before
  the call of \<open>quit\<close> for a thread, before the lock of \<open>del_mutex\<close> of a thread, at its end.
\<close>

datatype client =
    C_Free
  | C_Get task | C_GetWait task | C_Got nat task | C_Locked nat task
  | C_All | C_AllWait
  | C_Sync nat | C_Synced nat
  | D_All | D_AllWait | D_Quit nat | D_Join nat | D_Done

text \<open>
  \<open>pl_locked\<close> are the jobs whose mutex is locked, \<open>pl_closing\<close> says that the destructor has begun.
  \<open>pl_submitted\<close> and \<open>pl_log\<close> record the tasks given to \<open>run\<close> and the calls of \<open>TJob::run\<close>.
\<close>

record pool =
  pl_workers :: "worker list"
  pl_idle :: "nat list"
  pl_locked :: "nat set"
  pl_clients :: "client list"
  pl_closing :: bool
  pl_submitted :: "task list"
  pl_log :: "(nat \<times> task) list"

definition TPoolThr_new :: worker where
  "TPoolThr_new = \<lparr>wk_phase = W_Append, wk_job = None, wk_end = False\<rparr>"

text \<open>The pool after its constructor, with \<open>k\<close> threads that may call it.\<close>

definition TThreadPool_new :: "nat \<Rightarrow> nat \<Rightarrow> pool" where
  "TThreadPool_new max_p k =
     \<lparr>pl_workers = replicate max_p TPoolThr_new, pl_idle = [], pl_locked = {}, pl_clients = replicate k C_Free,
      pl_closing = False, pl_submitted = [], pl_log = []\<rparr>"

definition set_client :: "nat \<Rightarrow> client \<Rightarrow> pool \<Rightarrow> pool" where
  "set_client c x p = p\<lparr>pl_clients := (pl_clients p)[c := x]\<rparr>"

definition set_worker :: "nat \<Rightarrow> worker \<Rightarrow> pool \<Rightarrow> pool" where
  "set_worker i w p = p\<lparr>pl_workers := (pl_workers p)[i := w]\<rparr>"

section \<open>The operations\<close>

text \<open>\<open>TPoolThr::run_job\<close> and \<open>TPoolThr::quit\<close>.\<close>

definition run_job :: "task \<Rightarrow> worker \<Rightarrow> worker" where
  "run_job t w = w\<lparr>wk_job := Some t\<rparr>"

definition quit_worker :: "worker \<Rightarrow> worker" where
  "quit_worker w = w\<lparr>wk_end := True, wk_job := None\<rparr>"

text \<open>\<open>append_idle\<close>: the pool and whether it signals.\<close>

definition append_idle :: "nat \<Rightarrow> pool \<Rightarrow> pool \<times> bool" where
  "append_idle i p = (if i \<in> set (pl_idle p) then (p, False) else (p\<lparr>pl_idle := pl_idle p @ [i]\<rparr>, True))"

text \<open>What a thread does that is woken in a wait on \<open>_idle_cond\<close>: it tests again.\<close>

fun woken :: "client \<Rightarrow> client option" where
  "woken (C_GetWait t) = Some (C_Get t)"
| "woken C_AllWait = Some C_All"
| "woken D_AllWait = Some D_All"
| "woken _ = None"

inductive wake :: "pool \<Rightarrow> pool \<Rightarrow> bool" where
  "c < length (pl_clients p) \<Longrightarrow> woken (pl_clients p ! c) = Some x \<Longrightarrow> wake p (set_client c x p)"

inductive idle_signal :: "pool \<Rightarrow> pool \<Rightarrow> bool" where
  nobody: "\<forall>c < length (pl_clients p). woken (pl_clients p ! c) = None \<Longrightarrow> idle_signal p p"
| one: "wake p p' \<Longrightarrow> idle_signal p p'"

text \<open>The loop of a worker after it has cleared its job: the test of \<open>_end\<close>.\<close>

definition next_round :: "worker \<Rightarrow> worker" where
  "next_round w = w\<lparr>wk_phase := (if wk_end w then W_Exited else W_Append), wk_job := None\<rparr>"

section \<open>The steps\<close>

text \<open>The steps of the workers.\<close>

inductive worker_step :: "nat \<Rightarrow> pool \<Rightarrow> pool \<Rightarrow> bool" where
  w_append: "wk_phase (pl_workers p ! i) = W_Append \<Longrightarrow> append_idle i p = (p1, sig) \<Longrightarrow>
    (if sig then idle_signal p1 p2 else p2 = p1) \<Longrightarrow>
    worker_step i p (set_worker i ((pl_workers p ! i)\<lparr>wk_phase := W_Wait\<rparr>) p2)"
| w_take: "wk_phase (pl_workers p ! i) = W_Wait \<Longrightarrow> wk_job (pl_workers p ! i) = Some t \<Longrightarrow>
    worker_step i p (set_worker i ((pl_workers p ! i)\<lparr>wk_phase := W_Run\<rparr>) p)"
| w_quit: "wk_phase (pl_workers p ! i) = W_Wait \<Longrightarrow> wk_job (pl_workers p ! i) = None \<Longrightarrow>
    wk_end (pl_workers p ! i) \<Longrightarrow> worker_step i p (set_worker i ((pl_workers p ! i)\<lparr>wk_phase := W_Exited\<rparr>) p)"
| w_run: "wk_phase (pl_workers p ! i) = W_Run \<Longrightarrow> wk_job (pl_workers p ! i) = Some (j, d, del) \<Longrightarrow>
    worker_step i p (set_worker i ((pl_workers p ! i)\<lparr>wk_phase := W_Clear\<rparr>)
      (p\<lparr>pl_log := pl_log p @ [(i, j, d, del)], pl_locked := pl_locked p - {j}\<rparr>))"
| w_clear: "wk_phase (pl_workers p ! i) = W_Clear \<Longrightarrow>
    worker_step i p (set_worker i (next_round (pl_workers p ! i)) p)"

text \<open>The steps of a caller within a call.\<close>

inductive client_step :: "nat \<Rightarrow> pool \<Rightarrow> pool \<Rightarrow> bool" where
  get_block: "pl_clients p ! c = C_Get t \<Longrightarrow> pl_idle p = [] \<Longrightarrow> client_step c p (set_client c (C_GetWait t) p)"
| get_take: "pl_clients p ! c = C_Get t \<Longrightarrow> pl_idle p = w # ws \<Longrightarrow>
    client_step c p (set_client c (C_Got w t) (p\<lparr>pl_idle := ws\<rparr>))"
| lock_job: "pl_clients p ! c = C_Got w t \<Longrightarrow> fst t \<notin> pl_locked p \<Longrightarrow>
    client_step c p (set_client c (C_Locked w t) (p\<lparr>pl_locked := insert (fst t) (pl_locked p)\<rparr>))"
| dispatch: "pl_clients p ! c = C_Locked w t \<Longrightarrow>
    client_step c p (set_client c C_Free (set_worker w (run_job t (pl_workers p ! w)) p))"
| all_block: "pl_clients p ! c = C_All \<Longrightarrow> length (pl_idle p) < length (pl_workers p) \<Longrightarrow>
    client_step c p (set_client c C_AllWait p)"
| all_done: "pl_clients p ! c = C_All \<Longrightarrow> \<not> length (pl_idle p) < length (pl_workers p) \<Longrightarrow>
    client_step c p (set_client c C_Free p)"
| sync_lock: "pl_clients p ! c = C_Sync j \<Longrightarrow> j \<notin> pl_locked p \<Longrightarrow>
    client_step c p (set_client c (C_Synced j) (p\<lparr>pl_locked := insert j (pl_locked p)\<rparr>))"
| sync_unlock: "pl_clients p ! c = C_Synced j \<Longrightarrow>
    client_step c p (set_client c C_Free (p\<lparr>pl_locked := pl_locked p - {j}\<rparr>))"
| d_block: "pl_clients p ! c = D_All \<Longrightarrow> length (pl_idle p) < length (pl_workers p) \<Longrightarrow>
    client_step c p (set_client c D_AllWait p)"
| d_synced: "pl_clients p ! c = D_All \<Longrightarrow> \<not> length (pl_idle p) < length (pl_workers p) \<Longrightarrow>
    client_step c p (set_client c (D_Quit 0) p)"
| d_quit: "pl_clients p ! c = D_Quit i \<Longrightarrow> i < length (pl_workers p) \<Longrightarrow>
    client_step c p (set_client c (D_Quit (Suc i)) (set_worker i (quit_worker (pl_workers p ! i)) p))"
| d_quitted: "pl_clients p ! c = D_Quit i \<Longrightarrow> \<not> i < length (pl_workers p) \<Longrightarrow>
    client_step c p (set_client c (D_Join 0) p)"
| d_join: "pl_clients p ! c = D_Join i \<Longrightarrow> i < length (pl_workers p) \<Longrightarrow>
    wk_phase (pl_workers p ! i) = W_Exited \<Longrightarrow> client_step c p (set_client c (D_Join (Suc i)) p)"
| d_done: "pl_clients p ! c = D_Join i \<Longrightarrow> \<not> i < length (pl_workers p) \<Longrightarrow>
    client_step c p (set_client c D_Done p)"

text \<open>
  The begin of a call. The destructor begins when no other call is under way, and after it none
  begins.
\<close>

inductive call_step :: "nat \<Rightarrow> pool \<Rightarrow> pool \<Rightarrow> bool" where
  call_run: "pl_clients p ! c = C_Free \<Longrightarrow> \<not> pl_closing p \<Longrightarrow>
    call_step c p (set_client c (C_Get t) (p\<lparr>pl_submitted := pl_submitted p @ [t]\<rparr>))"
| call_sync_all: "pl_clients p ! c = C_Free \<Longrightarrow> \<not> pl_closing p \<Longrightarrow> call_step c p (set_client c C_All p)"
| call_sync: "pl_clients p ! c = C_Free \<Longrightarrow> \<not> pl_closing p \<Longrightarrow> call_step c p (set_client c (C_Sync j) p)"
| call_destroy: "pl_clients p ! c = C_Free \<Longrightarrow> list_all (\<lambda>x. x = C_Free) (pl_clients p) \<Longrightarrow> \<not> pl_closing p \<Longrightarrow>
    call_step c p (set_client c D_All (p\<lparr>pl_closing := True\<rparr>))"

text \<open>What happens without a new call and without a wake-up that nobody signalled, and all steps.\<close>

inductive internal_step :: "pool \<Rightarrow> pool \<Rightarrow> bool" where
  by_worker: "i < length (pl_workers p) \<Longrightarrow> worker_step i p p' \<Longrightarrow> internal_step p p'"
| by_client: "c < length (pl_clients p) \<Longrightarrow> client_step c p p' \<Longrightarrow> internal_step p p'"

inductive pool_step :: "pool \<Rightarrow> pool \<Rightarrow> bool" where
  internal: "internal_step p p' \<Longrightarrow> pool_step p p'"
| called: "c < length (pl_clients p) \<Longrightarrow> call_step c p p' \<Longrightarrow> pool_step p p'"
| spurious: "wake p p' \<Longrightarrow> pool_step p p'"

inductive pool_reachable :: "pool \<Rightarrow> bool" where
  initial: "pool_reachable (TThreadPool_new max_p k)"
| step: "pool_reachable p \<Longrightarrow> pool_step p p' \<Longrightarrow> pool_reachable p'"

inductive_cases worker_stepE: "worker_step i p p'"
inductive_cases client_stepE: "client_step c p p'"
inductive_cases call_stepE: "call_step c p p'"
inductive_cases wakeE: "wake p p'"
inductive_cases idle_signalE: "idle_signal p p'"
inductive_cases internal_stepE: "internal_step p p'"
inductive_cases pool_stepE: "pool_step p p'"

section \<open>The global pool\<close>

text \<open>The pointer \<open>thread_pool\<close>: null, to a pool, or to a pool that was deleted.\<close>

datatype tp_pointer = TP_Null | TP_Live | TP_Deleted

definition tp_init :: "tp_pointer \<Rightarrow> tp_pointer res" where
  "tp_init g = (case g of TP_Null \<Rightarrow> Inr TP_Live | TP_Live \<Rightarrow> Inr TP_Live | TP_Deleted \<Rightarrow> Inl Undefined)"

text \<open>\<open>tp_run\<close>, \<open>tp_sync\<close> and \<open>tp_sync_all\<close> call the pool; \<open>tp_run\<close> looks at the job first.\<close>

definition tp_use :: "tp_pointer \<Rightarrow> unit res" where
  "tp_use g = (if g = TP_Live then Inr () else Inl Undefined)"

definition tp_run :: "bool \<Rightarrow> tp_pointer \<Rightarrow> unit res" where
  "tp_run job_is_null g = (if job_is_null then Inr () else tp_use g)"

definition tp_done :: "tp_pointer \<Rightarrow> tp_pointer res" where
  "tp_done g = (case g of TP_Null \<Rightarrow> Inr TP_Null | TP_Live \<Rightarrow> Inr TP_Deleted | TP_Deleted \<Rightarrow> Inl Undefined)"

end
