(* ===== verification/ThreadPoolProperties.thy ===== *)
theory ThreadPoolProperties
  imports ThreadPool "HOL-Library.Word"
begin

text \<open>
  What the thread pool promises under every interleaving: a thread that is handed a job has none,
  each job that is submitted is run once, a returning \<open>sync_all\<close> has seen every thread idle; and
  where its one condition for two kinds of waiters loses a wake-up.
\<close>

section \<open>The invariant\<close>

fun holds :: "client \<Rightarrow> nat option" where
  "holds (C_Got w t) = Some w"
| "holds (C_Locked w t) = Some w"
| "holds _ = None"

fun destroying :: "client \<Rightarrow> bool" where
  "destroying D_All \<longleftrightarrow> True"
| "destroying D_AllWait \<longleftrightarrow> True"
| "destroying (D_Quit i) \<longleftrightarrow> True"
| "destroying (D_Join i) \<longleftrightarrow> True"
| "destroying D_Done \<longleftrightarrow> True"
| "destroying _ \<longleftrightarrow> False"

fun all_seen_idle :: "client \<Rightarrow> bool" where
  "all_seen_idle (D_Quit i) \<longleftrightarrow> True"
| "all_seen_idle (D_Join i) \<longleftrightarrow> True"
| "all_seen_idle D_Done \<longleftrightarrow> True"
| "all_seen_idle _ \<longleftrightarrow> False"

definition worker_ok :: "bool \<Rightarrow> bool \<Rightarrow> worker \<Rightarrow> bool" where
  "worker_ok closing is_idle w \<longleftrightarrow>
     (is_idle \<longrightarrow> wk_job w = None \<and> wk_phase w \<in> {W_Wait, W_Exited}) \<and>
     (wk_phase w = W_Append \<longrightarrow> wk_job w = None) \<and>
     (wk_phase w = W_Run \<or> wk_phase w = W_Clear \<longrightarrow> wk_job w \<noteq> None) \<and>
     (wk_phase w = W_Exited \<longrightarrow> wk_end w) \<and> (wk_end w \<longrightarrow> closing \<and> is_idle)"

definition workers_ok :: "pool \<Rightarrow> bool" where
  "workers_ok p \<longleftrightarrow> (\<forall>i < length (pl_workers p). worker_ok (pl_closing p) (i \<in> set (pl_idle p)) (pl_workers p ! i))"

definition idle_ok :: "pool \<Rightarrow> bool" where
  "idle_ok p \<longleftrightarrow> distinct (pl_idle p) \<and> set (pl_idle p) \<subseteq> {..<length (pl_workers p)}"

definition client_ok :: "pool \<Rightarrow> client \<Rightarrow> bool" where
  "client_ok p x \<longleftrightarrow>
     (\<forall>w. holds x = Some w \<longrightarrow> w < length (pl_workers p) \<and> w \<notin> set (pl_idle p) \<and>
        wk_phase (pl_workers p ! w) = W_Wait \<and> wk_job (pl_workers p ! w) = None) \<and>
     (destroying x \<longrightarrow> pl_closing p) \<and>
     (all_seen_idle x \<longrightarrow> {..<length (pl_workers p)} \<subseteq> set (pl_idle p)) \<and>
     (pl_closing p \<longrightarrow> x = C_Free \<or> destroying x)"

definition one_holder :: "client list \<Rightarrow> bool" where
  "one_holder cs \<longleftrightarrow> (\<forall>c < length cs. \<forall>c' < length cs. \<forall>w.
     holds (cs ! c) = Some w \<longrightarrow> holds (cs ! c') = Some w \<longrightarrow> c = c')"

definition pool_ok :: "pool \<Rightarrow> bool" where
  "pool_ok p \<longleftrightarrow> workers_ok p \<and> idle_ok p \<and> (\<forall>x \<in> set (pl_clients p). client_ok p x) \<and> one_holder (pl_clients p)"

lemma initial_ok: "pool_ok (TThreadPool_new max_p k)"
  by (simp add: pool_ok_def workers_ok_def idle_ok_def client_ok_def worker_ok_def one_holder_def
      TThreadPool_new_def TPoolThr_new_def)

text \<open>The invariant looks at the workers, the idle list, the clients and the closing flag only.\<close>

lemma pool_ok_cong:
  "pl_workers q = pl_workers p \<Longrightarrow> pl_idle q = pl_idle p \<Longrightarrow> pl_clients q = pl_clients p \<Longrightarrow>
    pl_closing q = pl_closing p \<Longrightarrow> pool_ok q = pool_ok p"
  by (simp add: pool_ok_def workers_ok_def idle_ok_def client_ok_def)

lemma pool_ok_log [simp]:
  "pool_ok (p\<lparr>pl_locked := l\<rparr>) = pool_ok p" "pool_ok (p\<lparr>pl_log := g\<rparr>) = pool_ok p"
  "pool_ok (p\<lparr>pl_submitted := ts\<rparr>) = pool_ok p"
  by (rule pool_ok_cong; simp)+

lemma set_client_fields [simp]:
  "pl_workers (set_client c x p) = pl_workers p" "pl_idle (set_client c x p) = pl_idle p"
  "pl_closing (set_client c x p) = pl_closing p" "pl_clients (set_client c x p) = (pl_clients p)[c := x]"
  "pl_locked (set_client c x p) = pl_locked p" "pl_log (set_client c x p) = pl_log p"
  "pl_submitted (set_client c x p) = pl_submitted p"
  by (simp_all add: set_client_def)

lemma set_worker_fields [simp]:
  "pl_workers (set_worker i w p) = (pl_workers p)[i := w]" "pl_idle (set_worker i w p) = pl_idle p"
  "pl_closing (set_worker i w p) = pl_closing p" "pl_clients (set_worker i w p) = pl_clients p"
  "pl_locked (set_worker i w p) = pl_locked p" "pl_log (set_worker i w p) = pl_log p"
  "pl_submitted (set_worker i w p) = pl_submitted p"
  by (simp_all add: set_worker_def)

lemma client_ok_set_client [simp]: "client_ok (set_client c x p) = client_ok p"
  by (rule ext) (simp add: client_ok_def)

lemma one_holder_update:
  assumes "one_holder cs" "\<And>w c'. holds x = Some w \<Longrightarrow> c' < length cs \<Longrightarrow> c' \<noteq> c \<Longrightarrow> holds (cs ! c') \<noteq> Some w"
  shows "one_holder (cs[c := x])"
  unfolding one_holder_def
proof (intro allI impI)
  fix a b w
  assume ab: "a < length (cs[c := x])" "b < length (cs[c := x])"
    "holds (cs[c := x] ! a) = Some w" "holds (cs[c := x] ! b) = Some w"
  show "a = b"
  proof (cases "a = c \<or> b = c")
    case True
    with ab assms(2) show ?thesis by (auto simp: nth_list_update split: if_splits)
  next
    case False
    with ab assms(1) show ?thesis by (auto simp: one_holder_def)
  qed
qed

lemma nth_update: "j < length xs \<Longrightarrow> xs[i := y] ! j = (if j = i then y else xs ! j)"
  by simp

text \<open>A caller moves on.\<close>

lemma set_client_ok:
  assumes "pool_ok p" "client_ok p x"
    and "\<And>w c'. holds x = Some w \<Longrightarrow> c' < length (pl_clients p) \<Longrightarrow> c' \<noteq> c \<Longrightarrow> holds (pl_clients p ! c') \<noteq> Some w"
  shows "pool_ok (set_client c x p)"
proof -
  have "workers_ok (set_client c x p)" "idle_ok (set_client c x p)"
    using assms(1) by (simp_all add: pool_ok_def workers_ok_def idle_ok_def)
  moreover have "\<forall>y \<in> set ((pl_clients p)[c := x]). client_ok p y"
    using assms(1,2) set_update_subset_insert [of "pl_clients p" c x] by (auto simp: pool_ok_def)
  moreover have "one_holder ((pl_clients p)[c := x])"
    using assms(1,3) by (intro one_holder_update) (simp_all add: pool_ok_def)
  ultimately show ?thesis by (simp add: pool_ok_def)
qed

text \<open>A worker moves on that no caller holds, or that still waits without a job.\<close>

lemma set_worker_ok:
  assumes "pool_ok p" "worker_ok (pl_closing p) (i \<in> set (pl_idle p)) w"
    and "(\<forall>x \<in> set (pl_clients p). holds x \<noteq> Some i) \<or> wk_phase w = W_Wait \<and> wk_job w = None"
  shows "pool_ok (set_worker i w p)"
proof -
  have "workers_ok (set_worker i w p)"
    unfolding workers_ok_def
  proof (intro allI impI)
    fix j assume "j < length (pl_workers (set_worker i w p))"
    then show "worker_ok (pl_closing (set_worker i w p)) (j \<in> set (pl_idle (set_worker i w p)))
        (pl_workers (set_worker i w p) ! j)"
      using assms(1,2) by (cases "j = i") (simp_all add: pool_ok_def workers_ok_def)
  qed
  moreover have "idle_ok (set_worker i w p)" using assms(1) by (simp add: pool_ok_def idle_ok_def)
  moreover have "client_ok (set_worker i w p) x" if "x \<in> set (pl_clients p)" for x
  proof -
    have "client_ok p x" using assms(1) that by (simp add: pool_ok_def)
    with assms(3) that show ?thesis by (auto simp: client_ok_def nth_update)
  qed
  ultimately show ?thesis using assms(1) by (simp add: pool_ok_def)
qed

lemma worker_of: "pool_ok p \<Longrightarrow> i < length (pl_workers p) \<Longrightarrow>
    worker_ok (pl_closing p) (i \<in> set (pl_idle p)) (pl_workers p ! i)"
  by (simp add: pool_ok_def workers_ok_def)

lemma client_of: "pool_ok p \<Longrightarrow> c < length (pl_clients p) \<Longrightarrow> client_ok p (pl_clients p ! c)"
  by (simp add: pool_ok_def)

text \<open>A held worker waits without a job.\<close>

lemma held_waits:
  assumes "pool_ok p" "wk_phase (pl_workers p ! i) \<noteq> W_Wait \<or> wk_job (pl_workers p ! i) \<noteq> None"
  shows "\<forall>x \<in> set (pl_clients p). holds x \<noteq> Some i"
  using assms by (auto simp: pool_ok_def client_ok_def)

section \<open>Signals\<close>

lemma woken_cases:
  assumes "woken x = Some y"
  shows "holds y = None \<and> destroying y = destroying x \<and> all_seen_idle y = all_seen_idle x \<and> x \<noteq> C_Free"
  using assms by (cases x) auto

lemma woken_ok: "client_ok p x \<Longrightarrow> woken x = Some y \<Longrightarrow> client_ok p y"
  using woken_cases [of x y] by (auto simp: client_ok_def)

lemma wake_ok: "wake p p' \<Longrightarrow> pool_ok p \<Longrightarrow> pool_ok p'"
  by (erule wakeE) (auto intro!: set_client_ok dest: client_of intro: woken_ok dest: woken_cases)

lemma signal_ok: "idle_signal p p' \<Longrightarrow> pool_ok p \<Longrightarrow> pool_ok p'"
  by (erule idle_signalE) (auto intro: wake_ok)

lemma signal_set_worker:
  assumes "idle_signal p p'"
  shows "idle_signal (set_worker i w p) (set_worker i w p')"
  using assms
proof cases
  case nobody
  then show ?thesis by (auto intro: idle_signal.nobody)
next
  case one
  then obtain c x where c: "c < length (pl_clients p)" "woken (pl_clients p ! c) = Some x" "p' = set_client c x p"
    by (auto elim: wakeE)
  have "set_worker i w p' = set_client c x (set_worker i w p)"
    by (simp add: c(3) set_worker_def set_client_def)
  moreover have "wake (set_worker i w p) (set_client c x (set_worker i w p))"
    using c by (intro wake.intros) simp_all
  ultimately show ?thesis by (simp add: idle_signal.one)
qed

section \<open>The invariant is kept\<close>

lemma call_ok:
  assumes "call_step c p p'" "c < length (pl_clients p)" "pool_ok p"
  shows "pool_ok p'"
  using assms(1)
proof cases
  case (call_run t)
  then show ?thesis using assms(3) by (auto intro!: set_client_ok simp: client_ok_def)
next
  case call_sync_all
  then show ?thesis using assms(3) by (auto intro!: set_client_ok simp: client_ok_def)
next
  case (call_sync j)
  then show ?thesis using assms(3) by (auto intro!: set_client_ok simp: client_ok_def)
next
  case call_destroy
  let ?q = "p\<lparr>pl_closing := True\<rparr>"
  have free: "\<forall>x \<in> set (pl_clients p). x = C_Free" using call_destroy by (simp add: list_all_iff)
  then have "pool_ok ?q"
    using assms(3) by (auto simp: pool_ok_def workers_ok_def worker_ok_def idle_ok_def client_ok_def)
  then show ?thesis using call_destroy by (auto intro!: set_client_ok simp: client_ok_def)
qed

lemma worker_ok_step:
  assumes "worker_step i p p'" "i < length (pl_workers p)" "pool_ok p"
  shows "pool_ok p'"
  using assms(1)
proof cases
  case (w_append p1 sig p2)
  let ?w = "(pl_workers p ! i)\<lparr>wk_phase := W_Wait\<rparr>"
  note ok = worker_of [OF assms(3,2)] and held = held_waits [OF assms(3), of i]
  have i: "i \<notin> set (pl_idle p)" using ok w_append by (auto simp: worker_ok_def)
  then have p1: "p1 = p\<lparr>pl_idle := pl_idle p @ [i]\<rparr>" and sig: "idle_signal p1 p2"
    using w_append by (auto simp: append_idle_def)
  have free: "\<forall>x \<in> set (pl_clients p). holds x \<noteq> Some i" using held w_append by simp
  have "pool_ok (set_worker i ?w p1)"
  proof -
    have "workers_ok (set_worker i ?w p1)"
      unfolding workers_ok_def
    proof (intro allI impI)
      fix j assume "j < length (pl_workers (set_worker i ?w p1))"
      then show "worker_ok (pl_closing (set_worker i ?w p1)) (j \<in> set (pl_idle (set_worker i ?w p1)))
          (pl_workers (set_worker i ?w p1) ! j)"
        using assms(2,3) ok i w_append
        by (cases "j = i") (auto simp: p1 pool_ok_def workers_ok_def worker_ok_def)
    qed
    moreover have "idle_ok (set_worker i ?w p1)"
      using assms(2,3) i by (auto simp: p1 pool_ok_def idle_ok_def)
    moreover have "client_ok (set_worker i ?w p1) x" if "x \<in> set (pl_clients p)" for x
      using assms(3) that free by (auto simp: p1 pool_ok_def client_ok_def nth_update)
    ultimately show ?thesis using assms(3) by (simp add: pool_ok_def p1)
  qed
  with signal_set_worker [OF sig] signal_ok show ?thesis unfolding w_append(1) by blast
next
  case (w_take t)
  then show ?thesis
    using worker_of [OF assms(3,2)] held_waits [OF assms(3), of i] assms(3)
    by (auto intro!: set_worker_ok simp: worker_ok_def)
next
  case w_quit
  then have "i \<in> set (pl_idle p)" "pl_closing p"
    using worker_of [OF assms(3,2)] by (auto simp: worker_ok_def)
  moreover from this have "\<forall>x \<in> set (pl_clients p). holds x \<noteq> Some i"
    using assms(3) by (auto simp: pool_ok_def client_ok_def)
  ultimately show ?thesis using w_quit assms(3) by (auto intro!: set_worker_ok simp: worker_ok_def)
next
  case (w_run j d del)
  then show ?thesis
    using worker_of [OF assms(3,2)] held_waits [OF assms(3), of i] assms(3)
    by (auto intro!: set_worker_ok simp: worker_ok_def)
next
  case w_clear
  then show ?thesis
    using worker_of [OF assms(3,2)] held_waits [OF assms(3), of i] assms(3)
    by (auto intro!: set_worker_ok simp: worker_ok_def next_round_def)
qed

lemma all_idle:
  assumes "pool_ok p" "\<not> length (pl_idle p) < length (pl_workers p)"
  shows "set (pl_idle p) = {..<length (pl_workers p)}"
  using assms by (intro card_seteq) (auto simp: pool_ok_def idle_ok_def distinct_card)

lemma client_ok_step:
  assumes "client_step c p p'" "c < length (pl_clients p)" "pool_ok p"
  shows "pool_ok p'"
proof -
  note cl = client_of [OF assms(3,2)]
  have other: "holds (pl_clients p ! c') \<noteq> Some w"
    if "holds (pl_clients p ! c) = Some w" "c' < length (pl_clients p)" "c' \<noteq> c" for w c'
    using assms(2,3) that by (auto simp: pool_ok_def one_holder_def)
  from assms(1) show ?thesis
  proof cases
    case (get_take t w ws)
    let ?q = "p\<lparr>pl_idle := ws\<rparr>"
    have opened: "\<not> pl_closing p" using cl get_take by (auto simp: client_ok_def)
    have w: "w < length (pl_workers p)" "w \<notin> set ws" "distinct ws" "set ws \<subseteq> {..<length (pl_workers p)}"
      using assms(3) get_take by (auto simp: pool_ok_def idle_ok_def)
    have wk: "wk_phase (pl_workers p ! w) = W_Wait" "wk_job (pl_workers p ! w) = None"
      using worker_of [OF assms(3) w(1)] get_take opened by (auto simp: worker_ok_def)
    have "worker_ok (pl_closing p) (i \<in> set ws) (pl_workers p ! i)" if "i < length (pl_workers p)" for i
      using worker_of [OF assms(3) that] get_take opened by (auto simp: worker_ok_def)
    moreover have "client_ok ?q x" if "x \<in> set (pl_clients p)" for x
    proof -
      have "client_ok p x" using assms(3) that by (simp add: pool_ok_def)
      then show ?thesis using get_take opened by (cases x) (auto simp: client_ok_def)
    qed
    ultimately have "pool_ok ?q"
      using assms(3) w by (simp add: pool_ok_def workers_ok_def idle_ok_def)
    moreover have "holds (pl_clients p ! c') \<noteq> Some w" if "c' < length (pl_clients p)" for c'
      using client_of [OF assms(3) that] get_take by (auto simp: client_ok_def)
    ultimately show ?thesis unfolding get_take(1)
      using w wk opened by (intro set_client_ok) (auto simp: client_ok_def)
  next
    case (lock_job w t)
    then show ?thesis using assms(3) cl other by (auto intro!: set_client_ok simp: client_ok_def)
  next
    case (dispatch w t)
    let ?q = "set_client c C_Free p"
    have "pool_ok ?q" using assms(3) by (intro set_client_ok) (auto simp: client_ok_def)
    have held: "w < length (pl_workers p)" "w \<notin> set (pl_idle p)" "wk_phase (pl_workers p ! w) = W_Wait"
      "wk_job (pl_workers p ! w) = None"
      using cl dispatch by (auto simp: client_ok_def)
    have "\<forall>x \<in> set (pl_clients ?q). holds x \<noteq> Some w"
      using other [of w] dispatch assms(2) by (auto simp: in_set_conv_nth nth_list_update split: if_splits)
    moreover have "worker_ok (pl_closing ?q) (w \<in> set (pl_idle ?q)) (run_job t (pl_workers p ! w))"
      using worker_of [OF assms(3) held(1)] held by (simp add: worker_ok_def run_job_def)
    ultimately have "pool_ok (set_worker w (run_job t (pl_workers p ! w)) ?q)"
      using \<open>pool_ok ?q\<close> by (intro set_worker_ok) auto
    moreover have "p' = set_worker w (run_job t (pl_workers p ! w)) ?q"
      by (simp add: dispatch set_client_def set_worker_def)
    ultimately show ?thesis by simp
  next
    case d_synced
    have "set (pl_idle p) = {..<length (pl_workers p)}"
      using all_idle [OF assms(3)] d_synced by simp
    moreover have "pl_closing p" using cl d_synced by (simp add: client_ok_def)
    ultimately have "client_ok p (D_Quit 0)" by (simp add: client_ok_def)
    with assms(3) show ?thesis unfolding d_synced(1) by (rule set_client_ok) simp
  next
    case (d_quit i)
    have i: "i \<in> set (pl_idle p)" "pl_closing p" using cl d_quit by (auto simp: client_ok_def)
    have "worker_ok (pl_closing p) (i \<in> set (pl_idle p)) (quit_worker (pl_workers p ! i))"
      using worker_of [OF assms(3) d_quit(3)] i by (auto simp: worker_ok_def quit_worker_def)
    moreover have "\<forall>x \<in> set (pl_clients p). holds x \<noteq> Some i"
      using assms(3) i by (auto simp: pool_ok_def client_ok_def)
    ultimately have "pool_ok (set_worker i (quit_worker (pl_workers p ! i)) p)"
      using assms(3) by (intro set_worker_ok) auto
    then show ?thesis unfolding d_quit(1)
      using cl d_quit(2) by (intro set_client_ok) (auto simp: client_ok_def)
  qed (use assms(3) cl in \<open>auto intro!: set_client_ok simp: client_ok_def\<close>)
qed

lemma step_ok: "pool_step p p' \<Longrightarrow> pool_ok p \<Longrightarrow> pool_ok p'"
  by (erule pool_stepE) (auto elim!: internal_stepE intro: worker_ok_step client_ok_step call_ok wake_ok)

lemma reachable_pool_ok: "pool_reachable p \<Longrightarrow> pool_ok p"
  by (induction rule: pool_reachable.induct) (auto intro: initial_ok step_ok)

section \<open>Where the tasks are\<close>

fun client_tasks :: "client \<Rightarrow> task multiset" where
  "client_tasks (C_Get t) = {#t#}"
| "client_tasks (C_GetWait t) = {#t#}"
| "client_tasks (C_Got w t) = {#t#}"
| "client_tasks (C_Locked w t) = {#t#}"
| "client_tasks _ = {#}"

definition worker_tasks :: "worker \<Rightarrow> task multiset" where
  "worker_tasks w = (if wk_phase w = W_Clear then {#} else case wk_job w of None \<Rightarrow> {#} | Some t \<Rightarrow> {#t#})"

definition held_tasks :: "pool \<Rightarrow> task multiset" where
  "held_tasks p = sum_list (map client_tasks (pl_clients p))"

definition pending :: "pool \<Rightarrow> task multiset" where
  "pending p = held_tasks p + sum_list (map worker_tasks (pl_workers p))"

definition accounted :: "pool \<Rightarrow> bool" where
  "accounted p \<longleftrightarrow> mset (pl_submitted p) = mset (map snd (pl_log p)) + pending p"

lemma sum_list_empty_mset: "\<forall>x \<in> set xs. f x = ({#} :: 'a multiset) \<Longrightarrow> sum_list (map f xs) = {#}"
  by (induction xs) simp_all

lemma sum_list_update_mset:
  "i < length xs \<Longrightarrow> sum_list (map f (xs[i := y])) + f (xs ! i) = sum_list (map f xs) + (f y :: 'a multiset)"
  by (induction xs arbitrary: i) (auto split: nat.split simp: add_ac)

lemma set_client_pending:
  "c < length (pl_clients p) \<Longrightarrow>
    pending (set_client c x p) + client_tasks (pl_clients p ! c) = pending p + client_tasks x"
  using sum_list_update_mset [of c "pl_clients p" client_tasks x]
  by (simp add: pending_def held_tasks_def add_ac)

lemma set_worker_pending:
  "i < length (pl_workers p) \<Longrightarrow>
    pending (set_worker i w p) + worker_tasks (pl_workers p ! i) = pending p + worker_tasks w"
  using sum_list_update_mset [of i "pl_workers p" worker_tasks w]
  by (simp add: pending_def held_tasks_def add_ac)

lemma pending_fields [simp]:
  "pending (p\<lparr>pl_locked := l\<rparr>) = pending p" "pending (p\<lparr>pl_idle := l'\<rparr>) = pending p"
  "pending (p\<lparr>pl_closing := b\<rparr>) = pending p" "pending (p\<lparr>pl_log := g\<rparr>) = pending p"
  "pending (p\<lparr>pl_submitted := ts\<rparr>) = pending p"
  by (simp_all add: pending_def held_tasks_def)

lemma set_client_same:
  "c < length (pl_clients p) \<Longrightarrow> client_tasks x = client_tasks (pl_clients p ! c) \<Longrightarrow>
    pending (set_client c x p) = pending p"
  using set_client_pending [of c p x] by simp

lemma set_worker_same:
  "i < length (pl_workers p) \<Longrightarrow> worker_tasks w = worker_tasks (pl_workers p ! i) \<Longrightarrow>
    pending (set_worker i w p) = pending p"
  using set_worker_pending [of i p w] by simp

lemma wake_accounted: "wake p p' \<Longrightarrow> accounted p \<Longrightarrow> accounted p'"
proof (erule wakeE)
  fix c x
  assume p': "p' = set_client c x p" and c: "c < length (pl_clients p)" and w: "woken (pl_clients p ! c) = Some x"
    and acc: "accounted p"
  have "client_tasks x = client_tasks (pl_clients p ! c)"
    using w by (cases "pl_clients p ! c") auto
  then show "accounted p'" using acc c by (simp add: accounted_def p' set_client_same)
qed

lemma signal_accounted: "idle_signal p p' \<Longrightarrow> accounted p \<Longrightarrow> accounted p'"
  by (erule idle_signalE) (auto intro: wake_accounted)

lemma signal_workers: "idle_signal p p' \<Longrightarrow> pl_workers p' = pl_workers p"
  by (erule idle_signalE) (auto elim: wakeE)

lemma call_accounted:
  assumes "call_step c p p'" "c < length (pl_clients p)" "accounted p"
  shows "accounted p'"
  using assms(1)
proof cases
  case (call_run t)
  then show ?thesis
    using assms(2,3) set_client_pending [of c "p\<lparr>pl_submitted := pl_submitted p @ [t]\<rparr>" "C_Get t"]
    by (simp add: accounted_def)
qed (use assms(2,3) in \<open>simp_all add: accounted_def set_client_same\<close>)

lemma worker_accounted:
  assumes "worker_step i p p'" "i < length (pl_workers p)" "accounted p"
  shows "accounted p'"
  using assms(1)
proof cases
  case (w_append p1 sig p2)
  have "accounted p1" "pl_workers p1 = pl_workers p"
    using w_append assms(3) by (auto simp: append_idle_def accounted_def split: if_splits)
  then have "accounted p2" "pl_workers p2 = pl_workers p"
    using w_append signal_accounted [of p1 p2] signal_workers [of p1 p2] by (auto split: if_splits)
  then show ?thesis
    using w_append assms(2) by (simp add: accounted_def set_worker_same worker_tasks_def)
next
  case (w_run j d del)
  let ?q = "p\<lparr>pl_log := pl_log p @ [(i, j, d, del)], pl_locked := pl_locked p - {j}\<rparr>"
  have "pending (set_worker i ((pl_workers p ! i)\<lparr>wk_phase := W_Clear\<rparr>) ?q) + {#(j, d, del)#} = pending p"
    using set_worker_pending [of i ?q "(pl_workers p ! i)\<lparr>wk_phase := W_Clear\<rparr>"] w_run assms(2)
    by (simp add: worker_tasks_def)
  then show ?thesis
    using assms(3) w_run by (simp add: accounted_def)
qed (use assms(2,3) in \<open>simp_all add: accounted_def set_worker_same worker_tasks_def next_round_def\<close>)

lemma client_accounted:
  assumes "client_step c p p'" "c < length (pl_clients p)" "pool_ok p" "accounted p"
  shows "accounted p'"
  using assms(1)
proof cases
  case (dispatch w t)
  let ?q = "set_worker w (run_job t (pl_workers p ! w)) p"
  have w: "w < length (pl_workers p)" "wk_phase (pl_workers p ! w) = W_Wait" "wk_job (pl_workers p ! w) = None"
    using client_of [OF assms(3,2)] dispatch by (auto simp: client_ok_def)
  have "pending ?q = pending p + {#t#}"
    using set_worker_pending [OF w(1), of "run_job t (pl_workers p ! w)"] w
    by (simp add: worker_tasks_def run_job_def)
  moreover have "pending (set_client c C_Free ?q) + {#t#} = pending ?q"
    using set_client_pending [of c ?q C_Free] assms(2) dispatch by simp
  ultimately have "pending p' = pending p" using dispatch by simp
  then show ?thesis using assms(4) dispatch by (simp add: accounted_def)
next
  case (d_quit i)
  let ?q = "set_worker i (quit_worker (pl_workers p ! i)) p"
  have "i \<in> set (pl_idle p)" using client_of [OF assms(3,2)] d_quit by (auto simp: client_ok_def)
  then have "pending ?q = pending p"
    using worker_of [OF assms(3) d_quit(3)] d_quit(3)
    by (intro set_worker_same) (auto simp: worker_ok_def worker_tasks_def quit_worker_def)
  moreover have "pending (set_client c (D_Quit (Suc i)) ?q) = pending ?q"
    using assms(2) d_quit by (intro set_client_same) simp_all
  ultimately show ?thesis using assms(4) d_quit by (simp add: accounted_def)
qed (use assms(2,4) in \<open>simp_all add: accounted_def set_client_same\<close>)

lemma step_accounted: "pool_step p p' \<Longrightarrow> pool_ok p \<Longrightarrow> accounted p \<Longrightarrow> accounted p'"
  by (erule pool_stepE)
    (auto elim!: internal_stepE intro: worker_accounted client_accounted call_accounted wake_accounted)

lemma sum_list_replicate_empty: "sum_list (replicate k {#}) = ({#} :: task multiset)"
  by (induction k) simp_all

lemma initial_accounted: "accounted (TThreadPool_new max_p k)"
  by (simp add: accounted_def pending_def held_tasks_def TThreadPool_new_def TPoolThr_new_def worker_tasks_def
      sum_list_replicate_empty)

lemma reachable_accounted: "pool_reachable p \<Longrightarrow> accounted p"
  by (induction rule: pool_reachable.induct) (auto intro: initial_accounted step_accounted reachable_pool_ok)

section \<open>Properties\<close>

text \<open>
  C10: a thread that is handed a job is free. In every reachable state of a pool, whatever the
  interleaving, a caller that has taken a thread from \<open>get_idle\<close>, before or after it locks the job,
  has one of the threads of the pool, which waits for a job, has none and has not been told to end;
  it is not in the idle list and no other caller has it. So \<open>run_job\<close> never overwrites a job.
\<close>

theorem dispatch_to_free_thread:
  assumes "pool_reachable p" "c < length (pl_clients p)" "holds (pl_clients p ! c) = Some w"
  shows "w < length (pl_workers p) \<and> wk_phase (pl_workers p ! w) = W_Wait \<and> wk_job (pl_workers p ! w) = None
    \<and> \<not> wk_end (pl_workers p ! w) \<and> w \<notin> set (pl_idle p) \<and> distinct (pl_idle p)
    \<and> (\<forall>c' < length (pl_clients p). c' \<noteq> c \<longrightarrow> holds (pl_clients p ! c') \<noteq> Some w)"
proof -
  have ok: "pool_ok p" by (rule reachable_pool_ok [OF assms(1)])
  have w: "w < length (pl_workers p)" "w \<notin> set (pl_idle p)" "wk_phase (pl_workers p ! w) = W_Wait"
    "wk_job (pl_workers p ! w) = None"
    using client_of [OF ok assms(2)] assms(3) by (auto simp: client_ok_def)
  moreover have "\<not> wk_end (pl_workers p ! w)"
    using worker_of [OF ok w(1)] w(2) by (auto simp: worker_ok_def)
  moreover have "distinct (pl_idle p)" using ok by (simp add: pool_ok_def idle_ok_def)
  moreover have "\<forall>c' < length (pl_clients p). c' \<noteq> c \<longrightarrow> holds (pl_clients p ! c') \<noteq> Some w"
    using ok assms(2,3) by (auto simp: pool_ok_def one_holder_def)
  ultimately show ?thesis by blast
qed

text \<open>
  C9: every job is run once. In every reachable state the tasks given to \<open>run\<close> are those that have
  been run, as often as they were given, those a caller of \<open>run\<close> still holds, and those a thread
  has been handed and has not finished. When \<open>sync_all\<close> finds nothing to wait for, every thread is
  idle and waits without a job, so only the callers still hold tasks; and once the destructor is
  past its \<open>sync_all\<close>, every task has been run exactly as often as it was given.
\<close>

theorem jobs_run_once:
  assumes "pool_reachable p"
  shows "mset (pl_submitted p) = mset (map snd (pl_log p)) + pending p
    \<and> (\<not> length (pl_idle p) < length (pl_workers p) \<longrightarrow>
         (\<forall>i < length (pl_workers p). i \<in> set (pl_idle p) \<and> wk_job (pl_workers p ! i) = None)
         \<and> mset (pl_submitted p) = mset (map snd (pl_log p)) + held_tasks p)
    \<and> (\<forall>x \<in> set (pl_clients p). all_seen_idle x \<longrightarrow> mset (pl_submitted p) = mset (map snd (pl_log p)))"
proof -
  have ok: "pool_ok p" by (rule reachable_pool_ok [OF assms])
  have acc: "mset (pl_submitted p) = mset (map snd (pl_log p)) + pending p"
    using reachable_accounted [OF assms] by (simp add: accounted_def)
  have quiet: "(\<forall>i < length (pl_workers p). i \<in> set (pl_idle p) \<and> wk_job (pl_workers p ! i) = None) \<and>
      mset (pl_submitted p) = mset (map snd (pl_log p)) + held_tasks p"
    if "{..<length (pl_workers p)} \<subseteq> set (pl_idle p)"
  proof -
    have none: "i \<in> set (pl_idle p) \<and> wk_job (pl_workers p ! i) = None" if "i < length (pl_workers p)" for i
      using worker_of [OF ok that] that \<open>{..<length (pl_workers p)} \<subseteq> set (pl_idle p)\<close> by (auto simp: worker_ok_def)
    then have "\<forall>w \<in> set (pl_workers p). worker_tasks w = {#}"
      by (auto simp: in_set_conv_nth worker_tasks_def)
    then have "sum_list (map worker_tasks (pl_workers p)) = {#}"
      by (rule sum_list_empty_mset)
    with acc none show ?thesis by (simp add: pending_def)
  qed
  moreover have "mset (pl_submitted p) = mset (map snd (pl_log p))"
    if x: "x \<in> set (pl_clients p)" "all_seen_idle x" for x
  proof -
    have cx: "client_ok p x" using ok x(1) by (simp add: pool_ok_def)
    have "pl_closing p" using cx x(2) by (cases x) (auto simp: client_ok_def)
    then have "client_tasks y = {#}" if "y \<in> set (pl_clients p)" for y
      using ok that by (cases y) (auto simp: pool_ok_def client_ok_def)
    then have "held_tasks p = {#}" by (simp add: held_tasks_def sum_list_empty_mset)
    with quiet cx x(2) show ?thesis by (simp add: client_ok_def)
  qed
  ultimately show ?thesis using acc all_idle [OF ok] by blast
qed

section \<open>A lost wake-up\<close>

text \<open>The states of a pool with one thread and two callers.\<close>

definition st :: "phase \<Rightarrow> task option \<Rightarrow> nat list \<Rightarrow> nat set \<Rightarrow> client \<Rightarrow> client \<Rightarrow> task list \<Rightarrow>
    (nat \<times> task) list \<Rightarrow> pool" where
  "st ph job idle locked c0 c1 sub log =
     \<lparr>pl_workers = [\<lparr>wk_phase = ph, wk_job = job, wk_end = False\<rparr>], pl_idle = idle, pl_locked = locked,
      pl_clients = [c0, c1], pl_closing = False, pl_submitted = sub, pl_log = log\<rparr>"

lemma st_fields [simp]:
  "pl_workers (st ph job idle locked c0 c1 sub log) = [\<lparr>wk_phase = ph, wk_job = job, wk_end = False\<rparr>]"
  "pl_idle (st ph job idle locked c0 c1 sub log) = idle"
  "pl_locked (st ph job idle locked c0 c1 sub log) = locked"
  "pl_clients (st ph job idle locked c0 c1 sub log) = [c0, c1]"
  "pl_closing (st ph job idle locked c0 c1 sub log) = False"
  "pl_submitted (st ph job idle locked c0 c1 sub log) = sub"
  "pl_log (st ph job idle locked c0 c1 sub log) = log"
  by (simp_all add: st_def)

lemma st_updates:
  "set_client 0 x (st ph job idle locked c0 c1 sub log) = st ph job idle locked x c1 sub log"
  "set_client (Suc 0) x (st ph job idle locked c0 c1 sub log) = st ph job idle locked c0 x sub log"
  "set_worker 0 \<lparr>wk_phase = ph', wk_job = job', wk_end = False\<rparr> (st ph job idle locked c0 c1 sub log) =
     st ph' job' idle locked c0 c1 sub log"
  "(st ph job idle locked c0 c1 sub log)\<lparr>pl_idle := idle'\<rparr> = st ph job idle' locked c0 c1 sub log"
  "(st ph job idle locked c0 c1 sub log)\<lparr>pl_locked := locked'\<rparr> = st ph job idle locked' c0 c1 sub log"
  "(st ph job idle locked c0 c1 sub log)\<lparr>pl_submitted := sub'\<rparr> = st ph job idle locked c0 c1 sub' log"
  "(st ph job idle locked c0 c1 sub log)\<lparr>pl_log := log', pl_locked := locked'\<rparr> = st ph job idle locked' c0 c1 sub log'"
  by (simp_all add: st_def set_client_def set_worker_def)

lemma client_steps:
  assumes "pool_reachable p" "client_step c p p'" "c < length (pl_clients p)"
  shows "pool_reachable p'"
  using assms by (blast intro: pool_reachable.step pool_step.internal internal_step.by_client)

lemma worker_steps:
  assumes "pool_reachable p" "worker_step i p p'" "i < length (pl_workers p)"
  shows "pool_reachable p'"
  using assms by (blast intro: pool_reachable.step pool_step.internal internal_step.by_worker)

lemma call_steps:
  assumes "pool_reachable p" "call_step c p p'" "c < length (pl_clients p)"
  shows "pool_reachable p'"
  using assms by (blast intro: pool_reachable.step pool_step.called)

definition task0 :: task where "task0 = (0, 0, False)"
definition task1 :: task where "task1 = (1, 0, False)"

text \<open>A first job is handed to the thread.\<close>

lemma reach_held: "pool_reachable (st W_Wait None [] {} (C_Got 0 task0) C_Free [task0] [])"
proof -
  have "st W_Append None [] {} C_Free C_Free [] [] = TThreadPool_new 1 2"
    by (simp add: st_def TThreadPool_new_def TPoolThr_new_def numeral_2_eq_2)
  then have "pool_reachable (st W_Append None [] {} C_Free C_Free [] [])"
    using pool_reachable.initial by simp
  then have "pool_reachable (st W_Wait None [0] {} C_Free C_Free [] [])"
  proof (rule worker_steps [where i = 0])
    have "idle_signal (st W_Append None [0] {} C_Free C_Free [] []) (st W_Append None [0] {} C_Free C_Free [] [])"
      by (intro idle_signal.nobody) (simp add: less_Suc_eq)
    then show "worker_step 0 (st W_Append None [] {} C_Free C_Free [] []) (st W_Wait None [0] {} C_Free C_Free [] [])"
      using worker_step.w_append [of "st W_Append None [] {} C_Free C_Free [] []" 0
          "st W_Append None [0] {} C_Free C_Free [] []" True "st W_Append None [0] {} C_Free C_Free [] []"]
      by (simp add: append_idle_def st_updates)
  qed simp
  then have "pool_reachable (st W_Wait None [0] {} (C_Get task0) C_Free [task0] [])"
    using call_steps [OF _ call_step.call_run [of "st W_Wait None [0] {} C_Free C_Free [] []" 0 task0]]
    by (simp add: st_updates)
  then show ?thesis
    using client_steps [OF _ client_step.get_take [of "st W_Wait None [0] {} (C_Get task0) C_Free [task0] []" 0 task0 0 "[]"]]
    by (simp add: st_updates)
qed

text \<open>While it is busy one caller waits in \<open>sync_all\<close> and the other in \<open>get_idle\<close>.\<close>

lemma reach_two_waiters:
  "pool_reachable (st W_Wait (Some task0) [] {0} (C_GetWait task1) C_AllWait [task0, task1] [])"
proof -
  have "pool_reachable (st W_Wait None [] {0} (C_Locked 0 task0) C_Free [task0] [])"
    using client_steps [OF reach_held client_step.lock_job [where c = 0]] by (simp add: st_updates task0_def)
  then have "pool_reachable (st W_Wait (Some task0) [] {0} C_Free C_Free [task0] [])"
    using client_steps [OF _ client_step.dispatch [of "st W_Wait None [] {0} (C_Locked 0 task0) C_Free [task0] []" 0 0 task0]]
    by (simp add: st_updates run_job_def)
  then have "pool_reachable (st W_Wait (Some task0) [] {0} C_Free C_All [task0] [])"
    using call_steps [OF _ call_step.call_sync_all [where c = "Suc 0"
        and p = "st W_Wait (Some task0) [] {0} C_Free C_Free [task0] []"]] by (simp add: st_updates)
  then have "pool_reachable (st W_Wait (Some task0) [] {0} C_Free C_AllWait [task0] [])"
    using client_steps [OF _ client_step.all_block [where c = "Suc 0"
        and p = "st W_Wait (Some task0) [] {0} C_Free C_All [task0] []"]] by (simp add: st_updates)
  then have "pool_reachable (st W_Wait (Some task0) [] {0} (C_Get task1) C_AllWait [task0, task1] [])"
    using call_steps [OF _ call_step.call_run [where c = 0 and t = task1
        and p = "st W_Wait (Some task0) [] {0} C_Free C_AllWait [task0] []"]] by (simp add: st_updates)
  then show ?thesis
    using client_steps [OF _ client_step.get_block [where c = 0 and t = task1
        and p = "st W_Wait (Some task0) [] {0} (C_Get task1) C_AllWait [task0, task1] []"]] by (simp add: st_updates)
qed

text \<open>The thread ends its job, and its signal wakes the caller of \<open>sync_all\<close>.\<close>

lemma reach_lost:
  "pool_reachable (st W_Wait None [0] {} (C_GetWait task1) C_Free [task0, task1] [(0, task0)])"
proof -
  let ?s = "\<lambda>ph job idle c1. st ph job idle {} (C_GetWait task1) c1 [task0, task1] [(0, task0)]"
  let ?t = "\<lambda>ph. st ph (Some task0) [] {0} (C_GetWait task1) C_AllWait [task0, task1] []"
  have "pool_reachable (?t W_Run)"
    using worker_steps [OF reach_two_waiters worker_step.w_take [of _ 0 task0]] by (simp add: st_updates)
  then have "pool_reachable (?s W_Clear (Some task0) [] C_AllWait)"
    using worker_steps [OF _ worker_step.w_run [of "?t W_Run" 0 0 0 False]] by (simp add: st_updates task0_def)
  then have "pool_reachable (?s W_Append None [] C_AllWait)"
    using worker_steps [OF _ worker_step.w_clear [of "?s W_Clear (Some task0) [] C_AllWait" 0]]
    by (simp add: st_updates next_round_def)
  then have "pool_reachable (?s W_Wait None [0] C_All)"
  proof (rule worker_steps [where i = 0])
    have "wake (?s W_Append None [0] C_AllWait) (?s W_Append None [0] C_All)"
      using wake.intros [of "Suc 0" "?s W_Append None [0] C_AllWait" C_All] by (simp add: st_updates)
    then show "worker_step 0 (?s W_Append None [] C_AllWait) (?s W_Wait None [0] C_All)"
      using worker_step.w_append [of "?s W_Append None [] C_AllWait" 0 "?s W_Append None [0] C_AllWait" True
          "?s W_Append None [0] C_All"] idle_signal.one
      by (simp add: append_idle_def st_updates)
  qed simp
  then show ?thesis
    using client_steps [OF _ client_step.all_done [of "?s W_Wait None [0] C_All" "Suc 0"]] by (simp add: st_updates)
qed

text \<open>
  C39: a wake-up can be lost. A pool with one thread and two callers reaches a state in which one
  caller waits in \<open>get_idle\<close> although the only thread is in the idle list and waits for a job, and
  the other caller has returned from \<open>sync_all\<close>: the signal of \<open>append_idle\<close> went to \<open>sync_all\<close>,
  which waits on the same condition. Nothing more happens in that state without a new call or a
  wake-up nobody signalled: no thread and no caller can make a step, and the submitted job is not run.
\<close>

theorem lost_wakeup:
  "\<exists>p t. pool_reachable p \<and> pl_clients p = [C_GetWait t, C_Free] \<and> pl_idle p = [0] \<and> length (pl_workers p) = 1
    \<and> t \<in># mset (pl_submitted p) \<and> t \<notin># mset (map snd (pl_log p)) \<and> \<not> (\<exists>p'. internal_step p p')"
proof -
  let ?p = "st W_Wait None [0] {} (C_GetWait task1) C_Free [task0, task1] [(0, task0)]"
  have "\<not> internal_step ?p p'" for p'
    by (auto elim!: internal_stepE worker_stepE client_stepE simp: less_Suc_eq)
  moreover have "task1 \<noteq> task0" by (simp add: task0_def task1_def)
  ultimately show ?thesis using reach_lost by (intro exI [of _ ?p] exI [of _ task1]) simp
qed

theorem dispatch_to_free_thread_witness:
  "wk_job (pl_workers (st W_Wait None [] {} (C_Got 0 task0) C_Free [task0] []) ! 0) = None
    \<and> wk_phase (pl_workers (st W_Wait None [] {} (C_Got 0 task0) C_Free [task0] []) ! 0) = W_Wait"
  using dispatch_to_free_thread [OF reach_held, of 0 0] by simp

theorem jobs_run_once_witness:
  "pending (st W_Wait None [0] {} (C_GetWait task1) C_Free [task0, task1] [(0, task0)]) = {#task1#}"
  using jobs_run_once [OF reach_lost] by simp

end
