(* ===== verification/Blah.thy ===== *)
theory Blah
  imports Numerals "HOL-Library.List_Lexorder" "HOL-Library.Char_ord" "HOL-Library.Word"
begin

text \<open>
  The logging library (\<open>include/common/blah.hpp\<close>, \<open>src/common/blah.cpp\<close>): the string class and the
  order of the entries, the stack of filters of the global logger with the filters the library
  supplies, and the streams the logging macros make. A filter is the functor it wraps, acting on
  the text and on the world \<open>'o\<close> outside; the empty filter is \<open>None\<close>. A thread identifier is the
  \<open>unsigned long\<close> of Linux, with its bytes in the order of x86-64.
\<close>

section \<open>Strings\<close>

text \<open>A \<open>blah::string\<close> is the characters before the terminating zero; a literal may hold zeros itself.\<close>

type_synonym blah_string = string

definition string_of_pointer :: "string \<Rightarrow> blah_string" where
  "string_of_pointer s = c_str s"

definition string_at :: "blah_string \<Rightarrow> nat \<Rightarrow> char res" where
  "string_at s i = (if i < length s then Inr (s ! i) else Inl Assertion)"

text \<open>The sign of \<open>std::strcmp\<close>, which compares as \<open>unsigned char\<close> up to the first zero.\<close>

definition strcmp :: "string \<Rightarrow> string \<Rightarrow> int" where
  "strcmp a b = (if c_str a = c_str b then 0 else if c_str a < c_str b then - 1 else 1)"

definition same_size :: "string \<Rightarrow> string \<Rightarrow> bool" where
  "same_size a b \<longleftrightarrow> length a = length b"

definition same :: "string \<Rightarrow> string \<Rightarrow> bool" where
  "same a b \<longleftrightarrow> strcmp a b = 0"

definition string_eq :: "blah_string \<Rightarrow> string \<Rightarrow> bool" where
  "string_eq lhs rhs \<longleftrightarrow> same_size lhs rhs \<and> same lhs rhs"

definition string_eq_pointer :: "blah_string \<Rightarrow> string \<Rightarrow> bool" where
  "string_eq_pointer lhs rhs \<longleftrightarrow> same lhs rhs"

definition string_lt :: "blah_string \<Rightarrow> blah_string \<Rightarrow> bool" where
  "string_lt lhs rhs \<longleftrightarrow> strcmp lhs rhs < 0"

definition string_gt :: "blah_string \<Rightarrow> blah_string \<Rightarrow> bool" where
  "string_gt lhs rhs \<longleftrightarrow> strcmp lhs rhs > 0"

section \<open>Threads\<close>

type_synonym thread_id = "64 word"

fun memory_bytes :: "nat \<Rightarrow> 64 word \<Rightarrow> nat list" where
  "memory_bytes 0 w = []"
| "memory_bytes (Suc n) w = unat (w AND 0xFF) # memory_bytes n (drop_bit 8 w)"

text \<open>The sign of \<open>std::memcmp\<close> of two identifiers.\<close>

definition thread_cmp :: "thread_id \<Rightarrow> thread_id \<Rightarrow> int" where
  "thread_cmp a b =
     (let x = memory_bytes 8 a; y = memory_bytes 8 b in if x = y then 0 else if x < y then - 1 else 1)"

definition thread_lt :: "thread_id \<Rightarrow> thread_id \<Rightarrow> bool" where
  "thread_lt lhs rhs \<longleftrightarrow> thread_cmp lhs rhs < 0"

definition thread_eq :: "thread_id \<Rightarrow> thread_id \<Rightarrow> bool" where
  "thread_eq lhs rhs \<longleftrightarrow> lhs = rhs"

section \<open>Entries\<close>

record log_entry =
  en_log :: blah_string
  en_file :: blah_string
  en_line :: "64 word"
  en_function :: blah_string
  en_date :: blah_string
  en_time :: blah_string
  en_thread :: thread_id

definition entry_eq :: "log_entry \<Rightarrow> log_entry \<Rightarrow> bool" where
  "entry_eq lhs rhs \<longleftrightarrow>
     string_eq (en_log lhs) (en_log rhs) \<and> string_eq (en_file lhs) (en_file rhs) \<and>
     en_line lhs = en_line rhs \<and> thread_eq (en_thread lhs) (en_thread rhs)"

definition entry_lt :: "log_entry \<Rightarrow> log_entry \<Rightarrow> bool" where
  "entry_lt lhs rhs =
     (if string_lt (en_log lhs) (en_log rhs) then True
      else if string_gt (en_log lhs) (en_log rhs) then False
      else if string_lt (en_file lhs) (en_file rhs) then True
      else if string_gt (en_file lhs) (en_file rhs) then False
      else if en_line lhs < en_line rhs then True
      else if en_line lhs > en_line rhs then False
      else thread_lt (en_thread lhs) (en_thread rhs))"

section \<open>Filters\<close>

datatype progression = stop | carry_on

type_synonym 'o filter_fn = "log_entry \<Rightarrow> string \<Rightarrow> 'o \<Rightarrow> progression \<times> string \<times> 'o"

definition call_filter :: "'o filter_fn option \<Rightarrow> 'o filter_fn" where
  "call_filter f e text out = (case f of None \<Rightarrow> (carry_on, text, out) | Some g \<Rightarrow> g e text out)"

text \<open>
  The world the supplied filters use: the text \<open>strftime\<close> makes of the current time in the format
  \<open>"[%d %b %Y %R:%S | "\<close>, at most 31 characters, and what was written to each output stream.
\<close>

record log_world =
  lw_time :: string
  lw_streams :: "nat \<Rightarrow> string"

definition newline :: char where "newline = CHR 0x0A"

definition prepend_details :: "log_world filter_fn" where
  "prepend_details e text w = (carry_on, lw_time w @ en_log e @ '']: '' @ text, w)"

definition add_missing_newline :: "'o filter_fn" where
  "add_missing_newline e text w =
     (carry_on, if text = [] \<or> last text \<noteq> newline then text @ [newline] else text, w)"

definition write_to :: "nat \<Rightarrow> log_world filter_fn" where
  "write_to out e text w =
     (carry_on, text, w\<lparr>lw_streams := (lw_streams w)(out := lw_streams w out @ text)\<rparr>)"

definition append_thread :: "'o filter_fn" where
  "append_thread e text w =
     (carry_on, text @ '' [~'' @ show_nat 10 (unat (en_thread e)) @ ''] '' @ [newline] @ [newline], w)"

section \<open>The global logger\<close>

text \<open>The back of the \<open>deque\<close>, the top of the stack, is the end of the list; \<open>clog\<close> is a stream.\<close>

definition clog :: nat where "clog = 2"

definition default_filters :: "log_world filter_fn list" where
  "default_filters = [write_to clog, add_missing_newline, prepend_details]"

fun run_filters :: "'o filter_fn list \<Rightarrow> log_entry \<Rightarrow> string \<Rightarrow> 'o \<Rightarrow> 'o" where
  "run_filters [] e text w = w"
| "run_filters (f # fs) e text w =
     (case f e text w of
        (carry_on, text', w') \<Rightarrow> run_filters fs e text' w'
      | (stop, text', w') \<Rightarrow> w')"

definition logger_log :: "'o filter_fn list \<Rightarrow> log_entry \<Rightarrow> string \<Rightarrow> 'o \<Rightarrow> 'o" where
  "logger_log filters e text w = run_filters (rev filters) e text w"

definition push_filter :: "'o filter_fn option \<Rightarrow> 'o filter_fn list \<Rightarrow> 'o filter_fn list" where
  "push_filter filt filters = (case filt of None \<Rightarrow> filters | Some f \<Rightarrow> filters @ [f])"

definition pop_filter :: "'o filter_fn list \<Rightarrow> 'o filter_fn option \<times> 'o filter_fn list" where
  "pop_filter filters = (if filters \<noteq> [] then (Some (last filters), butlast filters) else (None, filters))"

section \<open>Streams\<close>

text \<open>
  A \<open>log_stream\<close> holds the address of its \<open>counted_stringbuf\<close> and its entry; the buffers are a map
  from addresses to the text and the count.
\<close>

record stringbuf =
  sb_text :: string
  sb_n :: nat

record log_stream =
  ls_buf :: nat
  ls_entry :: log_entry

record 'o log_state =
  lg_filters :: "'o filter_fn list"
  lg_bufs :: "nat \<rightharpoonup> stringbuf"
  lg_world :: 'o

definition log_stream_new :: "nat \<Rightarrow> log_entry \<Rightarrow> 'o log_state \<Rightarrow> log_stream \<times> 'o log_state" where
  "log_stream_new a e st =
     (\<lparr>ls_buf = a, ls_entry = e\<rparr>, st\<lparr>lg_bufs := (lg_bufs st)(a \<mapsto> \<lparr>sb_text = [], sb_n = 1\<rparr>)\<rparr>)"

definition log_stream_copy :: "log_stream \<Rightarrow> 'o log_state \<Rightarrow> (log_stream \<times> 'o log_state) res" where
  "log_stream_copy other st =
     (case lg_bufs st (ls_buf other) of
        None \<Rightarrow> Inl Undefined
      | Some b \<Rightarrow> Inr (other, st\<lparr>lg_bufs := (lg_bufs st)(ls_buf other \<mapsto> b\<lparr>sb_n := Suc (sb_n b)\<rparr>),
                                lg_filters := push_filter (Some append_thread) (lg_filters st)\<rparr>))"

definition log_stream_insert :: "log_stream \<Rightarrow> string \<Rightarrow> 'o log_state \<Rightarrow> 'o log_state res" where
  "log_stream_insert s text st =
     (case lg_bufs st (ls_buf s) of
        None \<Rightarrow> Inl Undefined
      | Some b \<Rightarrow> Inr (st\<lparr>lg_bufs := (lg_bufs st)(ls_buf s \<mapsto> b\<lparr>sb_text := sb_text b @ text\<rparr>)\<rparr>))"

text \<open>\<open>counted_stringbuf::decrement\<close>, which deletes the buffer when its count reaches 0.\<close>

definition decrement :: "nat \<Rightarrow> stringbuf \<Rightarrow> (nat \<rightharpoonup> stringbuf) \<Rightarrow> (nat \<rightharpoonup> stringbuf)" where
  "decrement a b bufs = (if sb_n b - 1 = 0 then bufs(a := None) else bufs(a \<mapsto> b\<lparr>sb_n := sb_n b - 1\<rparr>))"

definition log_stream_destroy :: "log_stream \<Rightarrow> 'o log_state \<Rightarrow> 'o log_state res" where
  "log_stream_destroy s st =
     (case lg_bufs st (ls_buf s) of
        None \<Rightarrow> Inl Undefined
      | Some b \<Rightarrow>
          (let st' = (if sb_n b = 1
                      then st\<lparr>lg_world := logger_log (lg_filters st) (ls_entry s) (sb_text b) (lg_world st)\<rparr>
                      else st)
           in Inr (st'\<lparr>lg_bufs := decrement (ls_buf s) b (lg_bufs st')\<rparr>)))"

end
