(* ===== verification/BlahProperties.thy ===== *)
theory BlahProperties
  imports Blah "HOL-Library.Product_Lexorder" "HOL-Library.Word"
begin

text \<open>
  The entries of the log are linearly ordered, and the life of the streams: a step relation over the
  stream objects and the state of the library, its invariant, and what reaches the log.
\<close>

section \<open>The order of the entries\<close>

definition zero_free :: "log_entry \<Rightarrow> bool" where
  "zero_free e \<longleftrightarrow> CHR 0x00 \<notin> set (en_log e) \<and> CHR 0x00 \<notin> set (en_file e)"

lemma c_str_zero_free: "CHR 0x00 \<notin> set s \<Longrightarrow> c_str s = s"
  by (auto simp: c_str_def)

lemma memory_bytes_bit:
  "memory_bytes n a = memory_bytes n b \<Longrightarrow> i < 8 * n \<Longrightarrow> bit a i = bit b i"
proof (induction n arbitrary: a b i)
  case (Suc n)
  have low: "a AND 0xFF = b AND 0xFF" using Suc.prems(1) by (simp add: word_unat_eq_iff)
  have m8: "bit (0xFF :: 64 word) j \<longleftrightarrow> j < 8" for j
    using bit_mask_iff [of 8 j, where 'a = "64 word"] by (auto simp: mask_eq_exp_minus_1)
  show ?case
  proof (cases "i < 8")
    case True
    have "bit (a AND 0xFF) i = bit (b AND 0xFF) i" using low by simp
    with True show ?thesis by (simp only: bit_and_iff m8) simp
  next
    case False
    then have "bit (drop_bit 8 a) (i - 8) = bit (drop_bit 8 b) (i - 8)"
      using Suc.prems by (intro Suc.IH) auto
    with False show ?thesis by (simp add: bit_drop_bit_eq)
  qed
qed simp

lemma memory_bytes_inj: "memory_bytes 8 a = memory_bytes 8 b \<longleftrightarrow> a = b"
  by (auto intro!: bit_word_eqI memory_bytes_bit)

lemma thread_order: "thread_lt a b \<longleftrightarrow> memory_bytes 8 a < memory_bytes 8 b"
  by (auto simp: thread_lt_def thread_cmp_def Let_def)

lemma string_order:
  "string_lt a b \<longleftrightarrow> c_str a < c_str b" "string_gt a b \<longleftrightarrow> c_str b < c_str a"
  by (auto simp: string_lt_def string_gt_def strcmp_def)

definition entry_key :: "log_entry \<Rightarrow> string \<times> string \<times> 64 word \<times> nat list" where
  "entry_key e = (c_str (en_log e), c_str (en_file e), en_line e, memory_bytes 8 (en_thread e))"

lemma entry_lt_key: "entry_lt e f \<longleftrightarrow> entry_key e < entry_key f"
  by (auto simp: entry_lt_def entry_key_def string_order thread_order)

lemma entry_eq_key:
  assumes "zero_free e" "zero_free f"
  shows "entry_eq e f \<longleftrightarrow> entry_key e = entry_key f"
  using assms by (auto simp: entry_eq_def entry_key_def string_eq_def same_size_def same_def strcmp_def
      zero_free_def c_str_zero_free thread_eq_def memory_bytes_inj)

text \<open>
  Entries are linearly ordered by \<open>operator <\<close>, consistently with \<open>operator ==\<close>. Of two entries
  whose names hold no zero, one is less than the other or they are equal, and only one of the three;
  and the order is transitive.
\<close>

theorem entry_order:
  assumes "zero_free e" "zero_free f"
  shows "((entry_lt e f \<and> \<not> entry_lt f e \<and> \<not> entry_eq e f)
    \<or> (\<not> entry_lt e f \<and> entry_lt f e \<and> \<not> entry_eq e f)
    \<or> (\<not> entry_lt e f \<and> \<not> entry_lt f e \<and> entry_eq e f))
    \<and> (entry_lt e f \<longrightarrow> entry_lt f g \<longrightarrow> entry_lt e g)"
  using assms by (auto simp: entry_lt_key entry_eq_key)

section \<open>The life of the streams\<close>

text \<open>
  The stream objects by the variables that hold them, the state of the library, and how many copies
  have been made. A new buffer has an address that no buffer has.
\<close>

type_synonym 'o log_system = "(nat \<rightharpoonup> log_stream) \<times> 'o log_state \<times> nat"

inductive log_step :: "'o log_system \<Rightarrow> 'o log_system \<Rightarrow> bool" where
  create: "live x = None \<Longrightarrow> lg_bufs st a = None \<Longrightarrow> log_stream_new a e st = (s, st') \<Longrightarrow>
     log_step (live, st, k) (live(x \<mapsto> s), st', k)"
| copied: "live x = None \<Longrightarrow> live y = Some s \<Longrightarrow> log_stream_copy s st = Inr (s', st') \<Longrightarrow>
     log_step (live, st, k) (live(x \<mapsto> s'), st', Suc k)"
| inserted: "live x = Some s \<Longrightarrow> log_stream_insert s text st = Inr st' \<Longrightarrow>
     log_step (live, st, k) (live, st', k)"
| destroyed: "live x = Some s \<Longrightarrow> log_stream_destroy s st = Inr st' \<Longrightarrow>
     log_step (live, st, k) (live(x := None), st', k)"

inductive log_reachable :: "'o filter_fn list \<Rightarrow> 'o \<Rightarrow> 'o log_system \<Rightarrow> bool" for fs w where
  start: "log_reachable fs w (Map.empty, \<lparr>lg_filters = fs, lg_bufs = Map.empty, lg_world = w\<rparr>, 0)"
| step: "log_reachable fs w s \<Longrightarrow> log_step s s' \<Longrightarrow> log_reachable fs w s'"

definition sharers :: "(nat \<rightharpoonup> log_stream) \<Rightarrow> nat \<Rightarrow> nat set" where
  "sharers live a = {x. \<exists>s. live x = Some s \<and> ls_buf s = a}"

definition log_ok :: "'o filter_fn list \<Rightarrow> 'o log_system \<Rightarrow> bool" where
  "log_ok fs sys \<longleftrightarrow> (case sys of (live, st, k) \<Rightarrow>
     finite (dom live) \<and>
     lg_filters st = fs @ replicate k append_thread \<and>
     (\<forall>a. lg_bufs st a = None \<longleftrightarrow> sharers live a = {}) \<and>
     (\<forall>a b. lg_bufs st a = Some b \<longrightarrow> sb_n b = card (sharers live a)) \<and>
     (\<forall>x y s t. live x = Some s \<longrightarrow> live y = Some t \<longrightarrow> ls_buf s = ls_buf t \<longrightarrow> s = t))"

lemma sharers_finite: "finite (dom live) \<Longrightarrow> finite (sharers live a)"
  by (rule finite_subset [of _ "dom live"]) (auto simp: sharers_def)

lemma sharers_add:
  "live x = None \<Longrightarrow> sharers (live(x \<mapsto> s)) a = (if a = ls_buf s then insert x (sharers live a) else sharers live a)"
  by (auto simp: sharers_def)

lemma sharers_remove:
  "live x = Some s \<Longrightarrow> sharers (live(x := None)) a = (if a = ls_buf s then sharers live a - {x} else sharers live a)"
  by (auto simp: sharers_def)

lemma fresh_not_sharer: "live x = None \<Longrightarrow> x \<notin> sharers live a"
  by (auto simp: sharers_def)

lemma no_sharers: "sharers live a = {} \<Longrightarrow> live y = Some s \<Longrightarrow> ls_buf s \<noteq> a"
  by (auto simp: sharers_def)

lemma only_member:
  assumes "x \<in> A" "finite A"
  shows "A - {x} = {} \<longleftrightarrow> card A - 1 = 0"
proof -
  have "A - {x} = {} \<longleftrightarrow> card (A - {x}) = 0" by (rule card_0_eq [symmetric]) (simp add: assms(2))
  then show ?thesis using assms by (simp only: card_Diff_singleton)
qed

lemma replicate_snoc: "replicate k x @ [x] = replicate (Suc k) x"
  by (simp add: replicate_append_same)

lemma log_step_ok: "log_step sys sys' \<Longrightarrow> log_ok fs sys \<Longrightarrow> log_ok fs sys'"
proof (induction rule: log_step.induct)
  case (create live x st a e s st' k)
  then show ?case
    by (auto simp: log_ok_def log_stream_new_def sharers_add dest: no_sharers)
next
  case (copied live x y s st s' st' k)
  then obtain b where b: "lg_bufs st (ls_buf s) = Some b" "s' = s"
    "st' = st\<lparr>lg_bufs := (lg_bufs st)(ls_buf s \<mapsto> b\<lparr>sb_n := Suc (sb_n b)\<rparr>),
      lg_filters := lg_filters st @ [append_thread]\<rparr>"
    by (auto simp: log_stream_copy_def push_filter_def split: option.splits)
  have "card (insert x (sharers live (ls_buf s))) = Suc (card (sharers live (ls_buf s)))"
    using copied.prems copied.hyps(1) by (intro card_insert_disjoint) (auto simp: log_ok_def sharers_finite fresh_not_sharer)
  with copied.prems copied.hyps(1,2) b show ?case
    by (auto simp: log_ok_def sharers_add replicate_snoc)
next
  case (inserted live x s u st st' k)
  then show ?case
    by (auto simp: log_ok_def log_stream_insert_def dest: no_sharers split: option.splits if_splits)
next
  case (destroyed live x s st st' k)
  then obtain b where b: "lg_bufs st (ls_buf s) = Some b" "lg_filters st' = lg_filters st"
    "lg_bufs st' = decrement (ls_buf s) b (lg_bufs st)"
    by (auto simp: log_stream_destroy_def Let_def split: option.splits if_splits)
  have x: "x \<in> sharers live (ls_buf s)" using destroyed.hyps(1) by (auto simp: sharers_def)
  have fin: "finite (sharers live (ls_buf s))" using destroyed.prems by (auto simp: log_ok_def sharers_finite)
  have n: "sb_n b = card (sharers live (ls_buf s))" using destroyed.prems b(1) by (auto simp: log_ok_def)
  have "sharers live (ls_buf s) - {x} = {} \<longleftrightarrow> sb_n b - 1 = 0"
    using only_member [OF x fin] n by simp
  with destroyed.prems destroyed.hyps(1) b n x fin show ?case
    by (auto simp: log_ok_def sharers_remove decrement_def card_Diff_singleton)
qed

lemma log_reachable_ok: "log_reachable fs w sys \<Longrightarrow> log_ok fs sys"
proof (induction rule: log_reachable.induct)
  case start
  show ?case by (simp add: log_ok_def sharers_def)
next
  case (step s s')
  then show ?case by (blast intro: log_step_ok)
qed

text \<open>What the default filters and \<open>k\<close> filters of the copies make of an entry.\<close>

definition thread_note :: "log_entry \<Rightarrow> string" where
  "thread_note e = '' [~'' @ show_nat 10 (unat (en_thread e)) @ ''] '' @ [newline, newline]"

definition log_line :: "nat \<Rightarrow> string \<Rightarrow> log_entry \<Rightarrow> string \<Rightarrow> string" where
  "log_line k now e t =
     (let line = now @ en_log e @ '']: '' @ t @ concat (replicate k (thread_note e))
      in if last line = newline then line else line @ [newline])"

lemma run_threads:
  "run_filters (replicate k append_thread @ fs) e t w =
     run_filters fs e (t @ concat (replicate k (thread_note e))) w"
  by (induction k arbitrary: t) (simp_all add: append_thread_def thread_note_def)

lemma logger_log_default:
  "logger_log (default_filters @ replicate k append_thread) e t w =
     w\<lparr>lw_streams := (lw_streams w)(clog := lw_streams w clog @ log_line k (lw_time w) e t)\<rparr>"
proof -
  have "logger_log (default_filters @ replicate k append_thread) e t w =
      run_filters (rev default_filters) e (t @ concat (replicate k (thread_note e))) w"
    by (simp add: logger_log_def run_threads)
  then show ?thesis
    by (simp add: default_filters_def prepend_details_def add_missing_newline_def write_to_def log_line_def Let_def)
qed

text \<open>
  C16: what goes through a stream is logged once. With the default filters, whatever is created,
  copied, written and destroyed in any order: a stream object can always be written to and
  destroyed; destroying it logs nothing while another object shares its buffer, and the last object
  of a buffer writes one line to \<open>clog\<close>, the time, the name of the log, all that was inserted through
  any of the objects and a newline, and releases the buffer. Every copy ever made of any stream
  leaves a filter behind, so that after \<open>k\<close> copies each line carries \<open>k\<close> notes of the thread.
\<close>

theorem streams_log_once:
  assumes "log_reachable default_filters w (live, st, k)" "live x = Some s"
  shows "\<exists>b st'. lg_bufs st (ls_buf s) = Some b \<and> log_stream_destroy s st = Inr st'
    \<and> log_stream_insert s t st =
        Inr (st\<lparr>lg_bufs := (lg_bufs st)(ls_buf s \<mapsto> b\<lparr>sb_text := sb_text b @ t\<rparr>)\<rparr>)
    \<and> (if \<exists>y r. y \<noteq> x \<and> live y = Some r \<and> ls_buf r = ls_buf s
       then lg_world st' = lg_world st \<and> lg_bufs st' (ls_buf s) \<noteq> None
       else lg_world st' = (lg_world st)\<lparr>lw_streams := (lw_streams (lg_world st))(clog :=
              lw_streams (lg_world st) clog @ log_line k (lw_time (lg_world st)) (ls_entry s) (sb_text b))\<rparr>
          \<and> lg_bufs st' (ls_buf s) = None)"
proof -
  have ok: "log_ok default_filters (live, st, k)" by (rule log_reachable_ok [OF assms(1)])
  have x: "x \<in> sharers live (ls_buf s)" using assms(2) by (auto simp: sharers_def)
  with ok obtain b where b: "lg_bufs st (ls_buf s) = Some b" "sb_n b = card (sharers live (ls_buf s))"
    by (fastforce simp: log_ok_def)
  have fin: "finite (sharers live (ls_buf s))" using ok by (simp add: log_ok_def sharers_finite)
  have others: "(\<exists>y r. y \<noteq> x \<and> live y = Some r \<and> ls_buf r = ls_buf s) \<longleftrightarrow> sb_n b \<noteq> 1"
  proof -
    have "(\<exists>y r. y \<noteq> x \<and> live y = Some r \<and> ls_buf r = ls_buf s) \<longleftrightarrow> sharers live (ls_buf s) - {x} \<noteq> {}"
      by (auto simp: sharers_def)
    also have "\<dots> \<longleftrightarrow> card (sharers live (ls_buf s)) - 1 \<noteq> 0"
      using only_member [OF x fin] by simp
    also have "\<dots> \<longleftrightarrow> sb_n b \<noteq> 1"
      using x fin b(2) by (cases "card (sharers live (ls_buf s))") auto
    finally show ?thesis .
  qed
  have "sb_n b \<noteq> 0" using b(2) x fin by auto
  with ok b(1) show ?thesis unfolding others
    by (auto simp: log_ok_def log_stream_destroy_def log_stream_insert_def decrement_def Let_def logger_log_default)
qed

theorem streams_log_once_witness:
  "\<exists>live st s st'. log_reachable default_filters \<lparr>lw_time = ''[now | '', lw_streams = (\<lambda>a. [])\<rparr> (live, st, 0)
    \<and> live 0 = Some s \<and> log_stream_destroy s st = Inr st'
    \<and> lw_streams (lg_world st') clog = ''[now | msg]: hello'' @ [newline]"
proof -
  let ?w = "\<lparr>lw_time = ''[now | '', lw_streams = (\<lambda>a. [])\<rparr>"
  let ?e = "\<lparr>en_log = ''msg'', en_file = ''f'', en_line = 1, en_function = ''g'', en_date = [], en_time = [], en_thread = 5\<rparr>"
  let ?s = "\<lparr>ls_buf = 0, ls_entry = ?e\<rparr>" and ?live = "[0 \<mapsto> \<lparr>ls_buf = 0, ls_entry = ?e\<rparr>]"
  let ?st = "\<lambda>t. \<lparr>lg_filters = default_filters, lg_bufs = [0 \<mapsto> \<lparr>sb_text = t, sb_n = 1\<rparr>], lg_world = ?w\<rparr>"
  have "log_reachable default_filters ?w (?live, ?st [], 0)"
    by (rule log_reachable.step [OF log_reachable.start]) (auto intro: log_step.create simp: log_stream_new_def)
  then have r: "log_reachable default_filters ?w (?live, ?st ''hello'', 0)"
    by (rule log_reachable.step) (rule log_step.inserted [of _ 0 ?s "''hello''"], simp_all add: log_stream_insert_def)
  have "last ''[now | msg]: hello'' \<noteq> newline" by (simp add: newline_def)
  then have "log_line 0 ''[now | '' ?e ''hello'' = ''[now | msg]: hello'' @ [newline]" by (simp add: log_line_def)
  with streams_log_once [OF r, of 0 ?s "[]"] obtain st' where d: "log_stream_destroy ?s (?st ''hello'') = Inr st'"
    "lw_streams (lg_world st') clog = ''[now | msg]: hello'' @ [newline]"
    by (auto split: if_splits)
  show ?thesis
    by (rule exI [of _ ?live], rule exI [of _ "?st ''hello''"], rule exI [of _ ?s], rule exI [of _ st'])
      (intro conjI r d, simp)
qed

end
