(* ===== verification/UdtSeqNo.thy ===== *)
theory UdtSeqNo
  imports Prelude "HOL-Library.Word"
begin

text \<open>
  The numbers of the UDT protocol (\<open>src/udt/common.h\<close>): sequence numbers on a circle of \<open>2^31\<close>,
  compared and subtracted by their distance on the circle, and the numbers of acknowledgements and
  messages. An \<open>int32_t\<close> is an \<open>int\<close>: on numbers of the protocol the operations stay in the range of
  the type, which \<open>seq_in_range\<close> shows. A number of the circle is \<open>x mod seq_circle\<close> for the count
  \<open>x\<close> of packets that never wraps; the lemmas say what the operations are on such counts.
\<close>

definition m_iSeqNoTH :: int where "m_iSeqNoTH = 0x3FFFFFFF"
definition m_iMaxSeqNo :: int where "m_iMaxSeqNo = 0x7FFFFFFF"
definition m_iMaxAckSeqNo :: int where "m_iMaxAckSeqNo = 0x7FFFFFFF"
definition m_iMsgNoTH :: int where "m_iMsgNoTH = 0xFFFFFFF"
definition m_iMaxMsgNo :: int where "m_iMaxMsgNo = 0x1FFFFFFF"

section \<open>Sequence numbers\<close>

definition seqcmp :: "int \<Rightarrow> int \<Rightarrow> int" where
  "seqcmp seq1 seq2 = (if \<bar>seq1 - seq2\<bar> < m_iSeqNoTH then seq1 - seq2 else seq2 - seq1)"

definition seqlen :: "int \<Rightarrow> int \<Rightarrow> int" where
  "seqlen seq1 seq2 = (if seq1 \<le> seq2 then seq2 - seq1 + 1 else seq2 - seq1 + m_iMaxSeqNo + 2)"

definition seqoff :: "int \<Rightarrow> int \<Rightarrow> int" where
  "seqoff seq1 seq2 =
     (if \<bar>seq1 - seq2\<bar> < m_iSeqNoTH then seq2 - seq1
      else if seq1 < seq2 then seq2 - seq1 - m_iMaxSeqNo - 1
      else seq2 - seq1 + m_iMaxSeqNo + 1)"

definition incseq :: "int \<Rightarrow> int" where
  "incseq seq = (if seq = m_iMaxSeqNo then 0 else seq + 1)"

definition decseq :: "int \<Rightarrow> int" where
  "decseq seq = (if seq = 0 then m_iMaxSeqNo else seq - 1)"

definition incseq_by :: "int \<Rightarrow> int \<Rightarrow> int" where
  "incseq_by seq inc = (if m_iMaxSeqNo - seq \<ge> inc then seq + inc else seq - m_iMaxSeqNo + inc - 1)"

section \<open>Acknowledgements and messages\<close>

definition incack :: "int \<Rightarrow> int" where
  "incack ackno = (if ackno = m_iMaxAckSeqNo then 0 else ackno + 1)"

definition msgcmp :: "int \<Rightarrow> int \<Rightarrow> int" where
  "msgcmp msgno1 msgno2 = (if \<bar>msgno1 - msgno2\<bar> < m_iMsgNoTH then msgno1 - msgno2 else msgno2 - msgno1)"

definition msglen :: "int \<Rightarrow> int \<Rightarrow> int" where
  "msglen msgno1 msgno2 =
     (if msgno1 \<le> msgno2 then msgno2 - msgno1 + 1 else msgno2 - msgno1 + m_iMaxMsgNo + 2)"

definition msgoff :: "int \<Rightarrow> int \<Rightarrow> int" where
  "msgoff msgno1 msgno2 =
     (if \<bar>msgno1 - msgno2\<bar> < m_iMsgNoTH then msgno2 - msgno1
      else if msgno1 < msgno2 then msgno2 - msgno1 - m_iMaxMsgNo - 1
      else msgno2 - msgno1 + m_iMaxMsgNo + 1)"

definition incmsg :: "int \<Rightarrow> int" where
  "incmsg msgno = (if msgno = m_iMaxMsgNo then 0 else msgno + 1)"

section \<open>The operations on counts\<close>

definition seq_circle :: int where "seq_circle = 0x80000000"

named_theorems seq "the operations on sequence numbers of counts"

lemma seq_consts: "m_iMaxSeqNo = seq_circle - 1" "2 * m_iSeqNoTH + 2 = seq_circle" "0 < m_iSeqNoTH"
  by (simp_all add: m_iMaxSeqNo_def m_iSeqNoTH_def seq_circle_def)

lemma seq_number [seq]: "0 \<le> x mod seq_circle" "x mod seq_circle < seq_circle" "x mod seq_circle \<noteq> - 1"
  using pos_mod_sign [of seq_circle x] pos_mod_bound [of seq_circle x] by (simp_all add: seq_circle_def)

text \<open>Two counts less than a circle apart: the difference of their numbers, or that and a circle.\<close>

lemma mod_diff_cases:
  assumes "\<bar>x - y\<bar> < (m::int)"
  shows "x mod m - y mod m = x - y \<or> x mod m - y mod m = x - y + m \<or> x mod m - y mod m = x - y - m"
proof -
  have m: "0 < m" using assms by linarith
  have x: "x = m * (x div m) + x mod m" "0 \<le> x mod m" "x mod m < m" using m by simp_all
  have y: "y = m * (y div m) + y mod m" "0 \<le> y mod m" "y mod m < m" using m by simp_all
  let ?d = "x div m - y div m"
  have d: "x - y = m * ?d + (x mod m - y mod m)"
    unfolding right_diff_distrib using x(1) y(1) by linarith
  have "\<bar>m * ?d\<bar> < 2 * m" using d x(2,3) y(2,3) assms by linarith
  then have "m * \<bar>?d\<bar> < m * 2" using m by (simp add: abs_mult)
  then have "\<bar>?d\<bar> < 2" using m by (simp add: mult_less_cancel_left)
  then have "?d = 0 \<or> ?d = 1 \<or> ?d = - 1" by linarith
  with d show ?thesis by auto
qed

lemma seq_eq [seq]: "\<bar>x - y\<bar> < seq_circle \<Longrightarrow> x mod seq_circle = y mod seq_circle \<longleftrightarrow> x = y"
  using mod_diff_cases [of x y seq_circle] by auto

lemma seqoff_count [seq]:
  assumes "\<bar>x - y\<bar> < m_iSeqNoTH"
  shows "seqoff (x mod seq_circle) (y mod seq_circle) = y - x"
proof -
  have "\<bar>x - y\<bar> < seq_circle" using assms seq_consts by linarith
  from mod_diff_cases [OF this] show ?thesis
    using assms seq_consts by (elim disjE) (auto simp: seqoff_def)
qed

lemma seqcmp_count:
  assumes "\<bar>x - y\<bar> < m_iSeqNoTH"
  shows "sgn (seqcmp (x mod seq_circle) (y mod seq_circle)) = sgn (x - y)"
proof -
  let ?d = "x mod seq_circle - y mod seq_circle"
  note b = seq_number(1,2) [of x] seq_number(1,2) [of y]
  have "\<bar>x - y\<bar> < seq_circle" using assms seq_consts by linarith
  then consider "?d = x - y" | "?d = x - y + seq_circle" | "?d = x - y - seq_circle"
    using mod_diff_cases by blast
  then show ?thesis
  proof cases
    case 1
    then show ?thesis using assms by (simp add: seqcmp_def)
  next
    case 2
    moreover from 2 have "x - y < 0" using b by linarith
    moreover have "\<not> \<bar>?d\<bar> < m_iSeqNoTH" "0 < ?d" using 2 assms seq_consts by linarith+
    ultimately show ?thesis unfolding seqcmp_def by (simp add: sgn_if)
  next
    case 3
    moreover from 3 have "0 < x - y" using b by linarith
    moreover have "\<not> \<bar>?d\<bar> < m_iSeqNoTH" "?d < 0" using 3 assms seq_consts by linarith+
    ultimately show ?thesis unfolding seqcmp_def by (simp add: sgn_if)
  qed
qed

lemma seqcmp_less [seq]:
  assumes "\<bar>x - y\<bar> < m_iSeqNoTH"
  shows "seqcmp (x mod seq_circle) (y mod seq_circle) < 0 \<longleftrightarrow> x < y"
    and "0 < seqcmp (x mod seq_circle) (y mod seq_circle) \<longleftrightarrow> y < x"
    and "seqcmp (x mod seq_circle) (y mod seq_circle) \<le> 0 \<longleftrightarrow> x \<le> y"
    and "0 \<le> seqcmp (x mod seq_circle) (y mod seq_circle) \<longleftrightarrow> y \<le> x"
    and "seqcmp (x mod seq_circle) (y mod seq_circle) = 0 \<longleftrightarrow> x = y"
  using seqcmp_count [OF assms] by (auto simp: sgn_if split: if_splits)

text \<open>Adding to a number and wrapping is adding to the count.\<close>

lemma wrap_add:
  assumes "0 \<le> r" "r < m" "0 \<le> i" "i < (m::int)"
  shows "(r + i) mod m = (if r + i < m then r + i else r + i - m)"
proof (cases "r + i < m")
  case False
  then have "(r + i) mod m = (r + i - m) mod m" by simp
  also have "\<dots> = r + i - m" using False assms by (intro mod_pos_pos_trivial) linarith+
  finally show ?thesis using False by simp
qed (use assms in simp)

lemma count_add: "(x + i) mod seq_circle = (x mod seq_circle + i) mod seq_circle"
  by (simp add: mod_add_left_eq)

lemma incseq_count [seq]: "incseq (x mod seq_circle) = (x + 1) mod seq_circle"
  by (subst count_add, subst wrap_add)
    (use seq_number [of x] in \<open>auto simp: incseq_def seq_consts(1) seq_circle_def\<close>)

lemma decseq_count [seq]: "decseq (x mod seq_circle) = (x - 1) mod seq_circle"
proof -
  have "incseq ((x - 1) mod seq_circle) = x mod seq_circle" by (simp add: incseq_count)
  then show ?thesis using seq_number [of "x - 1"] seq_number [of x]
    by (auto simp: incseq_def decseq_def seq_consts split: if_splits)
qed

lemma incseq_by_count [seq]:
  assumes "0 \<le> i" "i < seq_circle"
  shows "incseq_by (x mod seq_circle) i = (x + i) mod seq_circle"
  by (subst count_add, subst wrap_add)
    (use assms seq_number [of x] in \<open>auto simp: incseq_by_def seq_consts(1)\<close>)

lemma seqlen_count [seq]:
  assumes "x \<le> y" "y - x < seq_circle"
  shows "seqlen (x mod seq_circle) (y mod seq_circle) = y - x + 1"
proof -
  have "\<bar>x - y\<bar> < seq_circle" using assms by linarith
  from mod_diff_cases [OF this] show ?thesis
    using assms seq_number [of x] seq_number [of y] by (elim disjE) (auto simp: seqlen_def seq_consts)
qed

text \<open>On numbers of the protocol nothing overflows; only the length of the whole circle does.\<close>

lemma seq_in_range:
  assumes "a \<in> {0..<seq_circle}" "b \<in> {0..<seq_circle}"
  shows "\<bar>a - b\<bar> < 2 ^ 31" "\<bar>seqcmp a b\<bar> < 2 ^ 31" "\<bar>seqoff a b\<bar> < 2 ^ 31"
    "incseq a \<in> {0..<seq_circle}" "decseq a \<in> {0..<seq_circle}"
    "1 \<le> seqlen a b" "seqlen a b \<le> 2 ^ 31" "seqlen a b = 2 ^ 31 \<longleftrightarrow> a = incseq b"
  using assms by (auto simp: seqcmp_def seqoff_def incseq_def decseq_def seqlen_def m_iMaxSeqNo_def
      m_iSeqNoTH_def seq_circle_def)

text \<open>C30:
  sequence numbers are a type: on the numbers \<open>a\<close> and \<open>b\<close> of two counts less than half of the
  circle apart, every operation of \<open>CSeqNo\<close> gives a number of the protocol or an offset that fits an
  \<open>int32_t\<close>, and it is the number, the order, the offset or the length that the counts have, across
  the wrap from \<open>2 ^ 31 - 1\<close> to 0.
\<close>

theorem sequence_numbers_count:
  assumes "a = x mod seq_circle" "b = y mod seq_circle" "\<bar>x - y\<bar> < m_iSeqNoTH" "0 \<le> i" "i < m_iSeqNoTH"
  shows "{a, b, incseq a, decseq a, incseq_by a i} \<subseteq> {0..m_iMaxSeqNo}
    \<and> incseq a = (x + 1) mod seq_circle \<and> decseq a = (x - 1) mod seq_circle \<and> incseq_by a i = (x + i) mod seq_circle
    \<and> sgn (seqcmp a b) = sgn (x - y) \<and> seqoff a b = y - x \<and> (x \<le> y \<longrightarrow> seqlen a b = y - x + 1)
    \<and> \<bar>a - b\<bar> < 2 ^ 31 \<and> \<bar>seqcmp a b\<bar> < 2 ^ 31"
proof -
  have "i < seq_circle" "x \<le> y \<Longrightarrow> y - x < seq_circle" using assms(3,5) seq_consts by linarith+
  moreover have "z mod seq_circle \<in> {0..m_iMaxSeqNo}" for z
    using seq_number(1,2) [of z] seq_consts(1) unfolding atLeastAtMost_iff by linarith
  moreover have "a \<in> {0..<seq_circle}" "b \<in> {0..<seq_circle}" using seq_number(1,2) assms(1,2) by auto
  ultimately show ?thesis
    using assms seq_in_range(1,2) [of a b] seqcmp_count [of x y]
    by (auto simp: incseq_count decseq_count incseq_by_count seqoff_count seqlen_count)
qed

lemma sequence_numbers_count_witness:
  "incseq 0x7FFFFFFF = 0 \<and> seqoff 0x7FFFFFFF 4 = 5 \<and> seqlen 0x7FFFFFFF 4 = 6 \<and> sgn (seqcmp 0x7FFFFFFF 4) = - 1"
  using sequence_numbers_count [of "0x7FFFFFFF" "- 1" 4 4 0] by (simp add: seq_circle_def m_iSeqNoTH_def)

end
