(* ===== verification/RcvLossList.thy ===== *)
theory RcvLossList
  imports UdtSeqNo "HOL-Library.Signed_Division" "HOL-Library.Word"
begin

text \<open>
  \<open>CRcvLossList\<close> (\<open>src/udt/list.h\<close>, \<open>src/udt/list.cpp\<close>), the sequence numbers the receiver of a UDT
  connection has not got. A node is a slot of four parallel arrays: the first and the last number of
  an interval of lost packets (\<open>-1\<close> for no last, and for an empty slot no first), and the next and the
  prior slot of a doubly linked list. A node lies at the distance of its first number from that of
  the head, around the arrays. An array is a function from the indices with its size, and an
  access outside it is \<open>Undefined\<close>; the clock \<open>CTimer::getTime\<close> is an argument.
\<close>

record rcv_loss_list =
  rl_data1 :: "int \<Rightarrow> int"
  rl_data2 :: "int \<Rightarrow> int"
  rl_next :: "int \<Rightarrow> int"
  rl_prior :: "int \<Rightarrow> int"
  rl_head :: int
  rl_tail :: int
  rl_length :: int
  rl_size :: int
  rl_time :: "64 word"

definition array_get :: "int \<Rightarrow> (int \<Rightarrow> 'x) \<Rightarrow> int \<Rightarrow> 'x res" where
  "array_get n a i = (if 0 \<le> i \<and> i < n then Inr (a i) else Inl Undefined)"

definition array_set :: "int \<Rightarrow> (int \<Rightarrow> 'x) \<Rightarrow> int \<Rightarrow> 'x \<Rightarrow> (int \<Rightarrow> 'x) res" where
  "array_set n a i v = (if 0 \<le> i \<and> i < n then Inr (a(i := v)) else Inl Undefined)"

definition get_data1 :: "int \<Rightarrow> rcv_loss_list \<Rightarrow> int res" where
  "get_data1 i l = array_get (rl_size l) (rl_data1 l) i"

definition get_data2 :: "int \<Rightarrow> rcv_loss_list \<Rightarrow> int res" where
  "get_data2 i l = array_get (rl_size l) (rl_data2 l) i"

definition get_next :: "int \<Rightarrow> rcv_loss_list \<Rightarrow> int res" where
  "get_next i l = array_get (rl_size l) (rl_next l) i"

definition get_prior :: "int \<Rightarrow> rcv_loss_list \<Rightarrow> int res" where
  "get_prior i l = array_get (rl_size l) (rl_prior l) i"

definition set_data1 :: "int \<Rightarrow> int \<Rightarrow> rcv_loss_list \<Rightarrow> rcv_loss_list res" where
  "set_data1 i v l = bind_res (array_set (rl_size l) (rl_data1 l) i v) (\<lambda>a. Inr (l\<lparr>rl_data1 := a\<rparr>))"

definition set_data2 :: "int \<Rightarrow> int \<Rightarrow> rcv_loss_list \<Rightarrow> rcv_loss_list res" where
  "set_data2 i v l = bind_res (array_set (rl_size l) (rl_data2 l) i v) (\<lambda>a. Inr (l\<lparr>rl_data2 := a\<rparr>))"

definition set_next :: "int \<Rightarrow> int \<Rightarrow> rcv_loss_list \<Rightarrow> rcv_loss_list res" where
  "set_next i v l = bind_res (array_set (rl_size l) (rl_next l) i v) (\<lambda>a. Inr (l\<lparr>rl_next := a\<rparr>))"

definition set_prior :: "int \<Rightarrow> int \<Rightarrow> rcv_loss_list \<Rightarrow> rcv_loss_list res" where
  "set_prior i v l = bind_res (array_set (rl_size l) (rl_prior l) i v) (\<lambda>a. Inr (l\<lparr>rl_prior := a\<rparr>))"

text \<open>The pointers of a new list are whatever the storage held.\<close>

definition RcvLossList_new :: "(int \<Rightarrow> int) \<Rightarrow> (int \<Rightarrow> int) \<Rightarrow> int \<Rightarrow> 64 word \<Rightarrow> rcv_loss_list" where
  "RcvLossList_new next0 prior0 sz now =
     \<lparr>rl_data1 = (\<lambda>i. - 1), rl_data2 = (\<lambda>i. - 1), rl_next = next0, rl_prior = prior0,
      rl_head = - 1, rl_tail = - 1, rl_length = 0, rl_size = sz, rl_time = now\<rparr>"

section \<open>Insertion\<close>

definition rcv_insert :: "64 word \<Rightarrow> int \<Rightarrow> int \<Rightarrow> rcv_loss_list \<Rightarrow> rcv_loss_list res" where
  "rcv_insert now seqno1 seqno2 l0 =
     (let l = l0\<lparr>rl_time := now\<rparr> in
      if rl_length l = 0
      then let l = l\<lparr>rl_head := 0, rl_tail := 0\<rparr> in
        bind_res (set_data1 (rl_head l) seqno1 l) (\<lambda>l.
        bind_res (if seqno2 \<noteq> seqno1 then set_data2 (rl_head l) seqno2 l else Inr l) (\<lambda>l.
        bind_res (set_next (rl_head l) (- 1) l) (\<lambda>l.
        bind_res (set_prior (rl_head l) (- 1) l) (\<lambda>l.
          Inr (l\<lparr>rl_length := rl_length l + seqlen seqno1 seqno2\<rparr>)))))
      else
        bind_res (get_data1 (rl_head l) l) (\<lambda>first.
        let offset = seqoff first seqno1; loc = (rl_head l + offset) smod rl_size l in
        bind_res (get_data2 (rl_tail l) l) (\<lambda>last2.
        bind_res
          (if last2 \<noteq> - 1 \<and> incseq last2 = seqno1
           then set_data2 (rl_tail l) seqno2 l
           else
             bind_res (set_data1 loc seqno1 l) (\<lambda>l.
             bind_res (if seqno2 \<noteq> seqno1 then set_data2 loc seqno2 l else Inr l) (\<lambda>l.
             bind_res (set_next (rl_tail l) loc l) (\<lambda>l.
             bind_res (set_prior loc (rl_tail l) l) (\<lambda>l.
             bind_res (set_next loc (- 1) l) (\<lambda>l.
               Inr (l\<lparr>rl_tail := loc\<rparr>)))))))
          (\<lambda>l. Inr (l\<lparr>rl_length := rl_length l + seqlen seqno1 seqno2\<rparr>)))))"

section \<open>Removal\<close>

text \<open>The loop that looks for the node before a slot; past a whole round it does not end.\<close>

fun search_back :: "nat \<Rightarrow> rcv_loss_list \<Rightarrow> int \<Rightarrow> int res" where
  "search_back fuel l i =
     bind_res (get_data1 i l) (\<lambda>d.
       if d \<noteq> - 1 then Inr i
       else (case fuel of
               0 \<Rightarrow> Inl Diverges
             | Suc f \<Rightarrow> search_back f l ((i - 1 + rl_size l) smod rl_size l)))"

declare search_back.simps [simp del]

text \<open>The node at \<open>loc\<close> holds one number: it is unlinked.\<close>

definition unlink_node :: "int \<Rightarrow> rcv_loss_list \<Rightarrow> rcv_loss_list res" where
  "unlink_node loc l =
     bind_res
       (if rl_head l = loc
        then bind_res (get_next (rl_head l) l) (\<lambda>h. let l = l\<lparr>rl_head := h\<rparr> in
               if rl_head l \<noteq> - 1 then set_prior (rl_head l) (- 1) l else Inr l)
        else bind_res (get_prior loc l) (\<lambda>p. bind_res (get_next loc l) (\<lambda>n.
             bind_res (set_next p n l) (\<lambda>l.
             bind_res (get_next loc l) (\<lambda>n.
               if n \<noteq> - 1
               then bind_res (get_prior loc l) (\<lambda>p. set_prior n p l)
               else bind_res (get_prior loc l) (\<lambda>p. Inr (l\<lparr>rl_tail := p\<rparr>)))))))
       (set_data1 loc (- 1))"

text \<open>The first number of the node at \<open>loc\<close> goes: the node moves to the next slot.\<close>

definition shift_node :: "int \<Rightarrow> rcv_loss_list \<Rightarrow> rcv_loss_list res" where
  "shift_node loc l =
     (let i = (loc + 1) smod rl_size l in
      bind_res (get_data1 loc l) (\<lambda>d1.
      bind_res (set_data1 i (incseq d1) l) (\<lambda>l.
      bind_res (get_data2 loc l) (\<lambda>d2.
      bind_res (get_data1 loc l) (\<lambda>d1.
      bind_res (if seqcmp d2 (incseq d1) > 0 then set_data2 i d2 l else Inr l) (\<lambda>l.
      bind_res (set_data1 loc (- 1) l) (\<lambda>l.
      bind_res (set_data2 loc (- 1) l) (\<lambda>l.
      bind_res (get_next loc l) (\<lambda>n.
      bind_res (set_next i n l) (\<lambda>l.
      bind_res (get_prior loc l) (\<lambda>p.
      bind_res (set_prior i p l) (\<lambda>l.
      bind_res (if rl_head l = loc then Inr (l\<lparr>rl_head := i\<rparr>)
                else bind_res (get_prior i l) (\<lambda>p. set_next p i l)) (\<lambda>l.
      if rl_tail l = loc then Inr (l\<lparr>rl_tail := i\<rparr>)
      else bind_res (get_next i l) (\<lambda>n. set_prior n i l))))))))))))))"

text \<open>The number in the node \<open>i\<close> that ends it, or splits it in two; \<open>loc\<close> is where it would start.\<close>

definition cut_node :: "int \<Rightarrow> int \<Rightarrow> int \<Rightarrow> rcv_loss_list \<Rightarrow> rcv_loss_list res" where
  "cut_node seqno i loc l =
     bind_res (get_data2 i l) (\<lambda>d2.
       if seqno = d2
       then bind_res (get_data1 i l) (\<lambda>d1. set_data2 i (if seqno = incseq d1 then - 1 else decseq seqno) l)
       else
         let loc = (loc + 1) smod rl_size l in
         bind_res (set_data1 loc (incseq seqno) l) (\<lambda>l.
         bind_res (get_data2 i l) (\<lambda>d2.
         bind_res (get_data1 loc l) (\<lambda>c1.
         bind_res (if seqcmp d2 c1 > 0 then set_data2 loc d2 l else Inr l) (\<lambda>l.
         bind_res (get_data1 i l) (\<lambda>d1.
         bind_res (set_data2 i (if seqno = incseq d1 then - 1 else decseq seqno) l) (\<lambda>l.
         bind_res (get_next i l) (\<lambda>n.
         bind_res (set_next loc n l) (\<lambda>l.
         bind_res (set_next i loc l) (\<lambda>l.
         bind_res (set_prior loc i l) (\<lambda>l.
           if rl_tail l = i then Inr (l\<lparr>rl_tail := loc\<rparr>)
           else bind_res (get_next loc l) (\<lambda>n. set_prior n loc l))))))))))))"

definition rcv_remove :: "64 word \<Rightarrow> int \<Rightarrow> rcv_loss_list \<Rightarrow> (rcv_loss_list \<times> bool) res" where
  "rcv_remove now seqno l0 =
     (let l = l0\<lparr>rl_time := now\<rparr> in
      if rl_length l = 0 then Inr (l, False)
      else bind_res (get_data1 (rl_head l) l) (\<lambda>first.
        let offset = seqoff first seqno in
        if offset < 0 then Inr (l, False)
        else
          let loc = (rl_head l + offset) smod rl_size l in
          bind_res (get_data1 loc l) (\<lambda>d1.
            if seqno = d1
            then bind_res (get_data2 loc l) (\<lambda>d2.
                 bind_res (if d2 = - 1 then unlink_node loc l else shift_node loc l) (\<lambda>l.
                   Inr (l\<lparr>rl_length := rl_length l - 1\<rparr>, True)))
            else
              bind_res (search_back (nat (rl_size l)) l ((loc - 1 + rl_size l) smod rl_size l)) (\<lambda>i.
              bind_res (get_data2 i l) (\<lambda>d2.
                if d2 = - 1 \<or> seqcmp seqno d2 > 0 then Inr (l, False)
                else bind_res (cut_node seqno i loc l) (\<lambda>l.
                  Inr (l\<lparr>rl_length := rl_length l - 1\<rparr>, True)))))))"

text \<open>
  Removing from \<open>seqno1\<close> to \<open>seqno2\<close>: the loops over \<open>int32_t\<close> counters. A loop up to the largest
  value of the type does not stop at it: incrementing it overflows.
\<close>

definition rcv_remove_range :: "64 word \<Rightarrow> int \<Rightarrow> int \<Rightarrow> rcv_loss_list \<Rightarrow> (rcv_loss_list \<times> bool) res" where
  "rcv_remove_range now seqno1 seqno2 l =
     (let run = fold_res (\<lambda>l i. bind_res (rcv_remove now i l) (\<lambda>(l, _). Inr l)) in
      if seqno1 \<le> seqno2
      then bind_res (run l [seqno1..seqno2]) (\<lambda>l.
             if seqno2 = 2 ^ 31 - 1 then Inl Undefined else Inr (l, True))
      else bind_res (run l [seqno1..m_iMaxSeqNo - 1]) (\<lambda>l.
           bind_res (run l [0..seqno2]) (\<lambda>l. Inr (l, True))))"

section \<open>Reading\<close>

fun find_loop :: "nat \<Rightarrow> int \<Rightarrow> int \<Rightarrow> rcv_loss_list \<Rightarrow> int \<Rightarrow> bool res" where
  "find_loop fuel seqno1 seqno2 l p =
     (if p = - 1 then Inr False
      else bind_res (get_data1 p l) (\<lambda>d1. bind_res (get_data2 p l) (\<lambda>d2.
        if seqcmp d1 seqno1 = 0 \<or> (seqcmp d1 seqno1 > 0 \<and> seqcmp d1 seqno2 \<le> 0) \<or>
           (seqcmp d1 seqno1 < 0 \<and> d2 \<noteq> - 1 \<and> seqcmp d2 seqno1 \<ge> 0)
        then Inr True
        else (case fuel of
                0 \<Rightarrow> Inl Diverges
              | Suc f \<Rightarrow> bind_res (get_next p l) (find_loop f seqno1 seqno2 l)))))"

declare find_loop.simps [simp del]

definition rcv_find :: "int \<Rightarrow> int \<Rightarrow> rcv_loss_list \<Rightarrow> bool res" where
  "rcv_find seqno1 seqno2 l =
     (if rl_length l = 0 then Inr False else find_loop (nat (rl_size l)) seqno1 seqno2 l (rl_head l))"

definition rcv_getLossLength :: "rcv_loss_list \<Rightarrow> int" where
  "rcv_getLossLength l = rl_length l"

definition getFirstLostSeq :: "rcv_loss_list \<Rightarrow> int res" where
  "getFirstLostSeq l = (if rl_length l = 0 then Inr (- 1) else get_data1 (rl_head l) l)"

text \<open>
  The loop that fills the array of the report from the node \<open>i\<close> on, \<open>len\<close> entries being filled:
  \<open>array[len] |= 0x80000000\<close> on a number that is not negative takes \<open>2^31\<close> off.
\<close>

function loss_array_loop :: "int \<Rightarrow> rcv_loss_list \<Rightarrow> int list \<Rightarrow> int \<Rightarrow> int list res" where
  "loss_array_loop limit l out i =
     (if int (length out) < limit - 1 \<and> i \<noteq> - 1
      then bind_res (get_data1 i l) (\<lambda>d1. bind_res (get_data2 i l) (\<lambda>d2. bind_res (get_next i l) (\<lambda>n.
             loss_array_loop limit l (out @ (if d2 \<noteq> - 1 then [d1 - 2 ^ 31, d2] else [d1])) n)))
      else Inr out)"
  by pat_completeness auto

termination
  by (relation "measure (\<lambda>(limit, l, out, i). nat (limit - int (length out)))") auto

declare loss_array_loop.simps [simp del]

definition getLossArray ::
  "64 word \<Rightarrow> 64 word \<Rightarrow> int \<Rightarrow> int \<Rightarrow> rcv_loss_list \<Rightarrow> (rcv_loss_list \<times> int list) res" where
  "getLossArray now now' limit threshold l =
     (if sint (ucast (now - rl_time l) :: 32 word) < threshold then Inr (l, [])
      else bind_res (loss_array_loop limit l [] (rl_head l)) (\<lambda>out. Inr (l\<lparr>rl_time := now'\<rparr>, out)))"

end
