(* ===== verification/SndLossList.thy ===== *)
theory SndLossList
  imports RcvLossList "HOL-Library.Word"
begin

text \<open>
  \<open>CSndLossList\<close> (\<open>src/udt/list.h\<close>, \<open>src/udt/list.cpp\<close>), the sequence numbers the sender of a UDT
  connection has to send again. As in the list of the receiver a node is a slot of parallel arrays,
  at the distance of its first number from that of the head; the list is linked one way, intervals
  come in any order and may overlap, and a pointer keeps the position of the last insertion. Every
  operation holds the lock of the list, so that it is one step.
\<close>

record snd_loss_list =
  sl_data1 :: "int \<Rightarrow> int"
  sl_data2 :: "int \<Rightarrow> int"
  sl_next :: "int \<Rightarrow> int"
  sl_head :: int
  sl_length :: int
  sl_size :: int
  sl_last :: int

definition sget1 :: "int \<Rightarrow> snd_loss_list \<Rightarrow> int res" where
  "sget1 i l = array_get (sl_size l) (sl_data1 l) i"

definition sget2 :: "int \<Rightarrow> snd_loss_list \<Rightarrow> int res" where
  "sget2 i l = array_get (sl_size l) (sl_data2 l) i"

definition sget_next :: "int \<Rightarrow> snd_loss_list \<Rightarrow> int res" where
  "sget_next i l = array_get (sl_size l) (sl_next l) i"

definition sset1 :: "int \<Rightarrow> int \<Rightarrow> snd_loss_list \<Rightarrow> snd_loss_list res" where
  "sset1 i v l = bind_res (array_set (sl_size l) (sl_data1 l) i v) (\<lambda>a. Inr (l\<lparr>sl_data1 := a\<rparr>))"

definition sset2 :: "int \<Rightarrow> int \<Rightarrow> snd_loss_list \<Rightarrow> snd_loss_list res" where
  "sset2 i v l = bind_res (array_set (sl_size l) (sl_data2 l) i v) (\<lambda>a. Inr (l\<lparr>sl_data2 := a\<rparr>))"

definition sset_next :: "int \<Rightarrow> int \<Rightarrow> snd_loss_list \<Rightarrow> snd_loss_list res" where
  "sset_next i v l = bind_res (array_set (sl_size l) (sl_next l) i v) (\<lambda>a. Inr (l\<lparr>sl_next := a\<rparr>))"

definition SndLossList_new :: "(int \<Rightarrow> int) \<Rightarrow> int \<Rightarrow> snd_loss_list" where
  "SndLossList_new next0 sz =
     \<lparr>sl_data1 = (\<lambda>i. - 1), sl_data2 = (\<lambda>i. - 1), sl_next = next0, sl_head = - 1, sl_length = 0,
      sl_size = sz, sl_last = - 1\<rparr>"

section \<open>Insertion\<close>

text \<open>The loop to the last node in front of \<open>seqno\<close>, from the node \<open>i\<close>.\<close>

fun snd_search :: "nat \<Rightarrow> int \<Rightarrow> snd_loss_list \<Rightarrow> int \<Rightarrow> int res" where
  "snd_search fuel seqno l i =
     bind_res (sget_next i l) (\<lambda>n.
       if n = - 1 then Inr i
       else bind_res (sget1 n l) (\<lambda>d.
         if seqcmp d seqno < 0
         then (case fuel of
                 0 \<Rightarrow> Inl Diverges
               | Suc f \<Rightarrow> snd_search f seqno l n)
         else Inr i))"

declare snd_search.simps [simp del]

text \<open>What the loop that joins \<open>loc\<close> with the nodes behind it does with the node \<open>i\<close> that overlaps it.\<close>

definition snd_join :: "int \<Rightarrow> int \<Rightarrow> snd_loss_list \<Rightarrow> snd_loss_list res" where
  "snd_join loc i l =
     bind_res (sget1 i l) (\<lambda>c. bind_res (sget2 i l) (\<lambda>d. bind_res (sget2 loc l) (\<lambda>b.
       bind_res
         (if d \<noteq> - 1
          then if seqcmp d b > 0
               then sset2 loc d (if seqcmp b c \<ge> 0 then l\<lparr>sl_length := sl_length l - seqlen c b\<rparr> else l)
               else Inr (l\<lparr>sl_length := sl_length l - seqlen c d\<rparr>)
          else if c = incseq b then sset2 loc c l
               else Inr (l\<lparr>sl_length := sl_length l - 1\<rparr>))
         (\<lambda>l. bind_res (sset1 i (- 1) l) (\<lambda>l. bind_res (sset2 i (- 1) l) (\<lambda>l.
              bind_res (sget_next i l) (\<lambda>n. sset_next loc n l)))))))"

fun snd_coalesce :: "nat \<Rightarrow> int \<Rightarrow> snd_loss_list \<Rightarrow> snd_loss_list res" where
  "snd_coalesce fuel loc l =
     bind_res (sget_next loc l) (\<lambda>i.
       if i = - 1 then Inr l
       else bind_res (sget2 loc l) (\<lambda>b.
         if b = - 1 then Inr l
         else bind_res (sget1 i l) (\<lambda>c.
           if seqcmp c (incseq b) \<le> 0
           then (case fuel of
                   0 \<Rightarrow> Inl Diverges
                 | Suc f \<Rightarrow> bind_res (snd_join loc i l) (snd_coalesce f loc))
           else Inr l)))"

declare snd_coalesce.simps [simp del]

text \<open>A node that starts at \<open>seqno1\<close> and now reaches \<open>seqno2\<close>; \<open>None\<close> when it did so before.\<close>

definition snd_extend :: "int \<Rightarrow> int \<Rightarrow> int \<Rightarrow> snd_loss_list \<Rightarrow> snd_loss_list option res" where
  "snd_extend seqno1 seqno2 loc l =
     bind_res (sget2 loc l) (\<lambda>d.
       if d = - 1
       then if seqno2 \<noteq> seqno1
            then bind_res (sset2 loc seqno2 (l\<lparr>sl_length := sl_length l + (seqlen seqno1 seqno2 - 1)\<rparr>)) (\<lambda>l. Inr (Some l))
            else Inr (Some l)
       else if seqcmp seqno2 d > 0
            then bind_res (sset2 loc seqno2 (l\<lparr>sl_length := sl_length l + (seqlen d seqno2 - 1)\<rparr>)) (\<lambda>l. Inr (Some l))
            else Inr None)"

definition snd_new_node :: "int \<Rightarrow> int \<Rightarrow> int \<Rightarrow> snd_loss_list \<Rightarrow> snd_loss_list res" where
  "snd_new_node seqno1 seqno2 loc l =
     bind_res (sset1 loc seqno1 l) (\<lambda>l. if seqno2 \<noteq> seqno1 then sset2 loc seqno2 l else Inr l)"

text \<open>An insertion behind the first number, where no node starts.\<close>

definition snd_insert_behind :: "int \<Rightarrow> int \<Rightarrow> int \<Rightarrow> snd_loss_list \<Rightarrow> (snd_loss_list \<times> int option) res" where
  "snd_insert_behind seqno1 seqno2 loc l =
     bind_res
       (if sl_last l \<noteq> - 1
        then bind_res (sget1 (sl_last l) l) (\<lambda>d. Inr (if seqcmp d seqno1 < 0 then sl_last l else sl_head l))
        else Inr (sl_head l)) (\<lambda>i.
     bind_res (snd_search (nat (sl_size l)) seqno1 l i) (\<lambda>i.
     bind_res (sget2 i l) (\<lambda>b.
       if b = - 1 \<or> seqcmp b seqno1 < 0
       then bind_res (snd_new_node seqno1 seqno2 loc (l\<lparr>sl_last := loc\<rparr>)) (\<lambda>l.
            bind_res (sget_next i l) (\<lambda>n.
            bind_res (sset_next loc n l) (\<lambda>l.
            bind_res (sset_next i loc l) (\<lambda>l.
              Inr (l\<lparr>sl_length := sl_length l + seqlen seqno1 seqno2\<rparr>, Some loc)))))
       else let l = l\<lparr>sl_last := i\<rparr> in
            if seqcmp b seqno2 < 0
            then bind_res (sset2 i seqno2 (l\<lparr>sl_length := sl_length l + (seqlen b seqno2 - 1)\<rparr>)) (\<lambda>l.
                   Inr (l, Some i))
            else Inr (l, None))))"

text \<open>The insertion, with the number of packets that were not in the list.\<close>

definition snd_insert :: "int \<Rightarrow> int \<Rightarrow> snd_loss_list \<Rightarrow> (snd_loss_list \<times> int) res" where
  "snd_insert seqno1 seqno2 l =
     (if sl_length l = 0
      then let l = l\<lparr>sl_head := 0\<rparr> in
        bind_res (snd_new_node seqno1 seqno2 (sl_head l) l) (\<lambda>l.
        bind_res (sset_next (sl_head l) (- 1) l) (\<lambda>l.
        let l = l\<lparr>sl_last := sl_head l, sl_length := sl_length l + seqlen seqno1 seqno2\<rparr> in
          Inr (l, sl_length l)))
      else
        bind_res (sget1 (sl_head l) l) (\<lambda>first.
        let origlen = sl_length l; offset = seqoff first seqno1;
            loc = (sl_head l + offset + sl_size l) smod sl_size l in
        bind_res
          (if offset < 0
           then bind_res (snd_new_node seqno1 seqno2 loc l) (\<lambda>l.
                bind_res (sset_next loc (sl_head l) l) (\<lambda>l.
                  Inr (l\<lparr>sl_head := loc, sl_last := loc, sl_length := sl_length l + seqlen seqno1 seqno2\<rparr>, Some loc)))
           else if offset > 0
           then bind_res (sget1 loc l) (\<lambda>d1.
                if seqno1 = d1
                then bind_res (snd_extend seqno1 seqno2 loc (l\<lparr>sl_last := loc\<rparr>)) (\<lambda>e.
                       case e of Some l' \<Rightarrow> Inr (l', Some loc) | None \<Rightarrow> Inr (l\<lparr>sl_last := loc\<rparr>, None))
                else snd_insert_behind seqno1 seqno2 loc l)
           else let l = l\<lparr>sl_last := sl_head l\<rparr> in
                if seqno2 \<noteq> seqno1
                then bind_res (snd_extend seqno1 seqno2 loc l) (\<lambda>e.
                       case e of Some l' \<Rightarrow> Inr (l', Some loc) | None \<Rightarrow> Inr (l, None))
                else Inr (l, None))
          (\<lambda>(l, at). case at of
             None \<Rightarrow> Inr (l, 0)
           | Some loc \<Rightarrow> bind_res (snd_coalesce (nat (sl_size l)) loc l) (\<lambda>l.
               Inr (l, sl_length l - origlen)))))"

section \<open>Removal\<close>

text \<open>The node \<open>i\<close> without its numbers up to \<open>seqno\<close>, in the slot \<open>loc\<close>.\<close>

definition snd_rest :: "int \<Rightarrow> int \<Rightarrow> int \<Rightarrow> snd_loss_list \<Rightarrow> snd_loss_list res" where
  "snd_rest seqno i loc l =
     bind_res (sset1 loc (incseq seqno) l) (\<lambda>l.
     bind_res (sget2 i l) (\<lambda>d. if seqcmp d (incseq seqno) > 0 then sset2 loc d l else Inr l))"

text \<open>The loop that empties the nodes from \<open>h\<close> to the new head.\<close>

fun snd_clean :: "nat \<Rightarrow> int \<Rightarrow> snd_loss_list \<Rightarrow> snd_loss_list res" where
  "snd_clean fuel h l =
     (if h = sl_head l then Inr l
      else
        bind_res (sget2 h l) (\<lambda>d2.
        bind_res
          (if d2 \<noteq> - 1
           then bind_res (sget1 h l) (\<lambda>d1. sset2 h (- 1) (l\<lparr>sl_length := sl_length l - seqlen d1 d2\<rparr>))
           else Inr (l\<lparr>sl_length := sl_length l - 1\<rparr>)) (\<lambda>l.
        bind_res (sset1 h (- 1) l) (\<lambda>l.
        let l = (if sl_last l = h then l\<lparr>sl_last := - 1\<rparr> else l) in
        bind_res (sget_next h l) (\<lambda>n.
          case fuel of
            0 \<Rightarrow> Inl Diverges
          | Suc f \<Rightarrow> snd_clean f n l)))))"

declare snd_clean.simps [simp del]

text \<open>The removal of the first number.\<close>

definition snd_remove_head :: "int \<Rightarrow> int \<Rightarrow> snd_loss_list \<Rightarrow> snd_loss_list res" where
  "snd_remove_head seqno loc l =
     bind_res (sget2 (sl_head l) l) (\<lambda>d2.
     bind_res
       (if d2 = - 1 then bind_res (sget_next (sl_head l) l) (\<lambda>n. Inr (n, l))
        else
          let loc = (loc + 1) smod sl_size l in
          bind_res (snd_rest seqno (sl_head l) loc l) (\<lambda>l.
          bind_res (sset2 (sl_head l) (- 1) l) (\<lambda>l.
          bind_res (sget_next (sl_head l) l) (\<lambda>n.
          bind_res (sset_next loc n l) (\<lambda>l. Inr (loc, l)))))) (\<lambda>(loc, l).
     bind_res (sset1 (sl_head l) (- 1) l) (\<lambda>l.
       let l = (if sl_last l = sl_head l then l\<lparr>sl_last := - 1\<rparr> else l) in
         Inr (l\<lparr>sl_head := loc, sl_length := sl_length l - 1\<rparr>))))"

text \<open>The removal of everything up to \<open>seqno\<close>.\<close>

definition snd_remove :: "int \<Rightarrow> snd_loss_list \<Rightarrow> snd_loss_list res" where
  "snd_remove seqno l =
     (if sl_length l = 0 then Inr l
      else bind_res (sget1 (sl_head l) l) (\<lambda>first.
        let offset = seqoff first seqno; loc = (sl_head l + offset + sl_size l) smod sl_size l in
        if offset = 0 then snd_remove_head seqno loc l
        else if offset > 0
        then
          let h = sl_head l in
          bind_res (sget1 loc l) (\<lambda>d1.
          bind_res
            (if seqno = d1
             then let temp = loc; loc = (loc + 1) smod sl_size l in
               bind_res (sget2 temp l) (\<lambda>d2.
               if d2 = - 1 then bind_res (sget_next temp l) (\<lambda>n. Inr (l\<lparr>sl_head := n\<rparr>))
               else
                 bind_res (snd_rest seqno temp loc l) (\<lambda>l.
                 let l = l\<lparr>sl_head := loc\<rparr> in
                 bind_res (sget_next temp l) (\<lambda>n.
                 bind_res (sset_next loc n l) (\<lambda>l.
                 bind_res (sset_next temp loc l) (\<lambda>l.
                   sset2 temp (- 1) l)))))
             else
               bind_res (snd_search (nat (sl_size l)) seqno l (sl_head l)) (\<lambda>i.
               let loc = (loc + 1) smod sl_size l in
               bind_res (sget2 i l) (\<lambda>d2.
               if d2 = - 1 then bind_res (sget_next i l) (\<lambda>n. Inr (l\<lparr>sl_head := n\<rparr>))
               else if seqcmp d2 seqno > 0
               then
                 bind_res (snd_rest seqno i loc l) (\<lambda>l.
                 bind_res (sset2 i seqno l) (\<lambda>l.
                 bind_res (sget_next i l) (\<lambda>n.
                 bind_res (sset_next loc n l) (\<lambda>l.
                 bind_res (sset_next i loc l) (\<lambda>l.
                   Inr (l\<lparr>sl_head := loc\<rparr>))))))
               else bind_res (sget_next i l) (\<lambda>n. Inr (l\<lparr>sl_head := n\<rparr>)))))
            (snd_clean (nat (sl_size l)) h))
        else Inr l))"

section \<open>Reading\<close>

definition snd_getLossLength :: "snd_loss_list \<Rightarrow> int" where
  "snd_getLossLength l = sl_length l"

text \<open>Taking the first number out.\<close>

definition getLostSeq :: "snd_loss_list \<Rightarrow> (snd_loss_list \<times> int) res" where
  "getLostSeq l =
     (if sl_length l = 0 then Inr (l, - 1)
      else
        let l = (if sl_last l = sl_head l then l\<lparr>sl_last := - 1\<rparr> else l) in
        bind_res (sget1 (sl_head l) l) (\<lambda>seqno.
        bind_res (sget2 (sl_head l) l) (\<lambda>d2.
        bind_res
          (if d2 = - 1
           then bind_res (sset1 (sl_head l) (- 1) l) (\<lambda>l.
                bind_res (sget_next (sl_head l) l) (\<lambda>n. Inr (l\<lparr>sl_head := n\<rparr>)))
           else
             let loc = (sl_head l + 1) smod sl_size l in
             bind_res (snd_rest seqno (sl_head l) loc l) (\<lambda>l.
             bind_res (sset1 (sl_head l) (- 1) l) (\<lambda>l.
             bind_res (sset2 (sl_head l) (- 1) l) (\<lambda>l.
             bind_res (sget_next (sl_head l) l) (\<lambda>n.
             bind_res (sset_next loc n l) (\<lambda>l.
               Inr (l\<lparr>sl_head := loc\<rparr>)))))))
          (\<lambda>l. Inr (l\<lparr>sl_length := sl_length l - 1\<rparr>, seqno)))))"

end
