(* ===== verification/UdtCore.thy ===== *)
theory UdtCore
  imports SndLossList "HOL-Library.Word"
begin

text \<open>
  The parts of \<open>CUDT\<close> (\<open>src/udt/core.cpp\<close>) that keep the loss lists of the two ends: the loss
  detection at the end of \<open>processData\<close>, the loss reports of \<open>sendCtrl\<close> (case 3) and what
  \<open>processCtrl\<close> (case 3) makes of them. A report is the list of the \<open>int32_t\<close> values of its payload, a
  value with bit 0 set being negative. What lies behind the payload, which the code reads when the
  last value has the bit, is the argument \<open>past\<close>.
\<close>

section \<open>Detecting losses\<close>

text \<open>\<open>x | 0x80000000\<close> for an \<open>int32_t\<close> that is not negative, and \<open>x & 0x7FFFFFFF\<close> for any.\<close>

definition with_bit :: "int \<Rightarrow> int" where
  "with_bit x = x - 2 ^ 31"

definition without_bit :: "int \<Rightarrow> int" where
  "without_bit x = x mod 2 ^ 31"

text \<open>\<open>sendCtrl (3, NULL, lossdata, size)\<close>: the payload of a report on one interval.\<close>

definition nak_now :: "int \<Rightarrow> int \<Rightarrow> int \<Rightarrow> int list" where
  "nak_now data0 data1 sz = (if sz = 1 then [data1] else [data0, data1])"

text \<open>
  A data packet that the buffer took: a gap in front of it becomes an interval of the loss list and is
  reported, and a packet that is not the newest is taken out of the list.
\<close>

definition receive_packet ::
  "64 word \<Rightarrow> 64 word \<Rightarrow> int \<Rightarrow> int \<times> rcv_loss_list \<Rightarrow> (int \<times> rcv_loss_list \<times> int list option) res" where
  "receive_packet now now' seqno = (\<lambda>(m_iRcvCurrSeqNo, l).
     bind_res
       (if seqcmp seqno (incseq m_iRcvCurrSeqNo) > 0
        then bind_res (rcv_insert now (incseq m_iRcvCurrSeqNo) (decseq seqno) l) (\<lambda>l.
          Inr (l, Some (nak_now (with_bit (incseq m_iRcvCurrSeqNo)) (decseq seqno)
            (if incseq m_iRcvCurrSeqNo = decseq seqno then 1 else 2))))
        else Inr (l, None)) (\<lambda>(l, nak).
     if seqcmp seqno m_iRcvCurrSeqNo > 0 then Inr (seqno, l, nak)
     else bind_res (rcv_remove now' seqno l) (\<lambda>(l, _). Inr (m_iRcvCurrSeqNo, l, nak))))"

section \<open>Reports\<close>

text \<open>\<open>sendCtrl (3)\<close> without data: the report of the whole list, when there is one to send.\<close>

definition nak_periodic ::
  "64 word \<Rightarrow> 64 word \<Rightarrow> int \<Rightarrow> int \<Rightarrow> int \<Rightarrow> rcv_loss_list \<Rightarrow> (rcv_loss_list \<times> int list option) res" where
  "nak_periodic now now' m_iPayloadSize m_iRTT m_iRTTVar l =
     (if rcv_getLossLength l > 0
      then bind_res (getLossArray now now' (m_iPayloadSize div 4) (m_iRTT + 4 * m_iRTTVar) l) (\<lambda>(l, data).
        Inr (l, if 0 < length data then Some data else None))
      else Inr (l, None))"

text \<open>
  \<open>processCtrl\<close> on a report: the list of the sender, the number of packets it did not have, and
  \<open>secure\<close>, which is false when the report names a packet that was never sent.
\<close>

fun nak_loop :: "int \<Rightarrow> int \<Rightarrow> int \<Rightarrow> int list \<Rightarrow> snd_loss_list \<Rightarrow> int \<Rightarrow> (snd_loss_list \<times> int \<times> bool) res" where
  "nak_loop last_ack newest past [] l num = Inr (l, num, True)"
| "nak_loop last_ack newest past (v # vs) l num =
     (if v < 0
      then
        let a = without_bit v; b = (case vs of [] \<Rightarrow> past | w # _ \<Rightarrow> w) in
        if seqcmp a b > 0 \<or> seqcmp b newest > 0 then Inr (l, num, False)
        else bind_res
          (if seqcmp a last_ack \<ge> 0 then snd_insert a b l
           else if seqcmp b last_ack \<ge> 0 then snd_insert last_ack b l
           else Inr (l, 0)) (\<lambda>(l, n). nak_loop last_ack newest past (tl vs) l (num + n))
      else if seqcmp v last_ack \<ge> 0
      then if seqcmp v newest > 0 then Inr (l, num, False)
        else bind_res (snd_insert v v l) (\<lambda>(l, n). nak_loop last_ack newest past vs l (num + n))
      else nak_loop last_ack newest past vs l num)"

definition process_loss_report ::
  "int \<Rightarrow> int \<Rightarrow> int \<Rightarrow> int list \<Rightarrow> snd_loss_list \<Rightarrow> (snd_loss_list \<times> int \<times> bool) res" where
  "process_loss_report m_iSndLastAck m_iSndCurrSeqNo past report l =
     nak_loop m_iSndLastAck m_iSndCurrSeqNo past report l 0"

end
