(* ===== verification/RcvLossListNodes.thy ===== *)
theory RcvLossListNodes
  imports RcvLossList "HOL-Library.Word"
begin

text \<open>
  \<open>CRcvLossList\<close> refines a set of lost packets. The abstract list is the disjoint intervals of the
  lost counts in ascending order; \<open>loss_list\<close> says that the arrays hold them, each node in the slot
  of its first count, linked both ways, and every other slot empty. Each operation is shown to act
  on the intervals, and through them on the set of lost counts.
\<close>

section \<open>Slots\<close>

definition slot :: "int \<Rightarrow> int \<Rightarrow> int \<Rightarrow> int" where
  "slot n k x = (x + k) mod n"

lemma slot_range [simp]: "0 < n \<Longrightarrow> 0 \<le> slot n k x" "0 < n \<Longrightarrow> slot n k x < n"
  by (simp_all add: slot_def)

lemma slot_not_m1 [simp]: "0 < n \<Longrightarrow> slot n k x \<noteq> - 1" "0 < n \<Longrightarrow> - 1 \<noteq> slot n k x"
  using slot_range(1) [of n k x] by linarith+

lemma slot_eq:
  assumes "\<bar>x - y\<bar> < n"
  shows "slot n k x = slot n k y \<longleftrightarrow> x = y"
  using mod_diff_cases [of "x + k" "y + k" n] assms by (auto simp: slot_def)

lemma smod_mod: "0 \<le> a \<Longrightarrow> 0 < n \<Longrightarrow> a smod n = a mod (n::int)"
  by (cases "a = 0") (simp_all add: signed_modulo_int_def)

lemma slot_move:
  assumes "0 < n" "0 \<le> d"
  shows "(slot n k x + d) smod n = slot n k (x + d)"
proof -
  have "(slot n k x + d) smod n = (slot n k x + d) mod n"
    using assms by (intro smod_mod) simp_all
  then show ?thesis by (simp only: slot_def mod_add_left_eq) (simp add: add_ac)
qed

lemma slot_back:
  assumes "0 < n"
  shows "(slot n k x - 1 + n) smod n = slot n k (x - 1)"
proof -
  have "(slot n k x - 1 + n) smod n = (slot n k x - 1 + n) mod n"
    using assms slot_range [of n k x] by (intro smod_mod) linarith+
  also have "\<dots> = (slot n k x + - 1) mod n" by simp
  finally show ?thesis by (simp only: slot_def mod_add_left_eq) (simp add: algebra_simps)
qed

lemma array_in [simp]:
  "0 \<le> i \<Longrightarrow> i < rl_size l \<Longrightarrow> get_data1 i l = Inr (rl_data1 l i)"
  "0 \<le> i \<Longrightarrow> i < rl_size l \<Longrightarrow> get_data2 i l = Inr (rl_data2 l i)"
  "0 \<le> i \<Longrightarrow> i < rl_size l \<Longrightarrow> get_next i l = Inr (rl_next l i)"
  "0 \<le> i \<Longrightarrow> i < rl_size l \<Longrightarrow> get_prior i l = Inr (rl_prior l i)"
  "0 \<le> i \<Longrightarrow> i < rl_size l \<Longrightarrow> set_data1 i v l = Inr (l\<lparr>rl_data1 := (rl_data1 l)(i := v)\<rparr>)"
  "0 \<le> i \<Longrightarrow> i < rl_size l \<Longrightarrow> set_data2 i v l = Inr (l\<lparr>rl_data2 := (rl_data2 l)(i := v)\<rparr>)"
  "0 \<le> i \<Longrightarrow> i < rl_size l \<Longrightarrow> set_next i v l = Inr (l\<lparr>rl_next := (rl_next l)(i := v)\<rparr>)"
  "0 \<le> i \<Longrightarrow> i < rl_size l \<Longrightarrow> set_prior i v l = Inr (l\<lparr>rl_prior := (rl_prior l)(i := v)\<rparr>)"
  by (simp_all add: get_data1_def get_data2_def get_next_def get_prior_def set_data1_def set_data2_def
      set_next_def set_prior_def array_get_def array_set_def)

section \<open>Intervals\<close>

fun intervals :: "(int \<times> int) list \<Rightarrow> bool" where
  "intervals [] = True"
| "intervals ((a, b) # xs) \<longleftrightarrow> a \<le> b \<and> (\<forall>(c, d) \<in> set xs. b < c) \<and> intervals xs"

definition lost :: "(int \<times> int) list \<Rightarrow> int set" where
  "lost xs = (\<Union>(a, b) \<in> set xs. {a..b})"

definition lost_count :: "(int \<times> int) list \<Rightarrow> int" where
  "lost_count xs = (\<Sum>(a, b) \<leftarrow> xs. b - a + 1)"

definition within :: "int \<Rightarrow> (int \<times> int) list \<Rightarrow> bool" where
  "within n xs \<longleftrightarrow> (\<forall>(a, b) \<in> set xs. \<forall>(c, d) \<in> set xs. d - a < n)"

lemma lost_simps [simp]:
  "lost [] = {}" "lost ((a, b) # xs) = {a..b} \<union> lost xs" "lost (xs @ ys) = lost xs \<union> lost ys"
  by (auto simp: lost_def)

lemma lost_count_simps [simp]:
  "lost_count [] = 0" "lost_count ((a, b) # xs) = b - a + 1 + lost_count xs"
  "lost_count (xs @ ys) = lost_count xs + lost_count ys"
  by (simp_all add: lost_count_def)

lemma intervals_append:
  "intervals (xs @ ys) \<longleftrightarrow> intervals xs \<and> intervals ys \<and> (\<forall>(a, b) \<in> set xs. \<forall>(c, d) \<in> set ys. b < c)"
proof (induction xs)
  case (Cons x xs)
  then show ?case by (cases x) (fastforce simp: ball_Un)
qed simp

lemma intervals_mem: "intervals xs \<Longrightarrow> (a, b) \<in> set xs \<Longrightarrow> a \<le> b"
  by (induction xs) auto

lemma lost_count_card: "intervals xs \<Longrightarrow> finite (lost xs) \<and> int (card (lost xs)) = lost_count xs"
proof (induction xs)
  case (Cons x xs)
  obtain a b where x: "x = (a, b)" by fastforce
  have "{a..b} \<inter> lost xs = {}" using Cons.prems x by (fastforce simp: lost_def)
  with Cons x show ?case by (simp add: card_Un_disjoint)
qed simp

lemma lost_count_pos: "intervals xs \<Longrightarrow> 0 \<le> lost_count xs \<and> (lost_count xs = 0 \<longleftrightarrow> xs = [])"
proof (induction xs)
  case (Cons x xs)
  then show ?case by (cases x) auto
qed simp

section \<open>The nodes\<close>

definition first_slot :: "int \<Rightarrow> int \<Rightarrow> (int \<times> int) list \<Rightarrow> int \<Rightarrow> int" where
  "first_slot n k xs z = (case xs of [] \<Rightarrow> z | x # _ \<Rightarrow> slot n k (fst x))"

definition last_slot :: "int \<Rightarrow> int \<Rightarrow> (int \<times> int) list \<Rightarrow> int \<Rightarrow> int" where
  "last_slot n k xs z = (if xs = [] then z else slot n k (fst (last xs)))"

lemma first_slot_simps [simp]:
  "first_slot n k [] z = z" "first_slot n k (x # xs) z = slot n k (fst x)"
  "first_slot n k (xs @ ys) z = first_slot n k xs (first_slot n k ys z)"
  by (simp_all add: first_slot_def split: list.splits)

lemma last_slot_simps [simp]:
  "last_slot n k [] z = z" "last_slot n k (xs @ [x]) z = slot n k (fst x)"
  "last_slot n k (x # xs) z = last_slot n k xs (slot n k (fst x))"
  "last_slot n k (xs @ ys) z = last_slot n k ys (last_slot n k xs z)"
  by (simp_all add: last_slot_def)

text \<open>The nodes of \<open>xs\<close> hold their intervals and are linked, from the slot before to the slot after.\<close>

fun nodes :: "rcv_loss_list \<Rightarrow> int \<Rightarrow> int \<Rightarrow> (int \<times> int) list \<Rightarrow> int \<Rightarrow> bool" where
  "nodes l k prv [] nxt = True"
| "nodes l k prv ((a, b) # xs) nxt \<longleftrightarrow>
     (let p = slot (rl_size l) k a in
      rl_data1 l p = a mod seq_circle \<and>
      rl_data2 l p = (if a = b then - 1 else b mod seq_circle) \<and>
      rl_prior l p = prv \<and>
      rl_next l p = first_slot (rl_size l) k xs nxt \<and>
      nodes l k p xs nxt)"

declare nodes.simps(2) [simp del]

lemma nodes_Cons:
  "nodes l k prv ((a, b) # xs) nxt \<longleftrightarrow>
      rl_data1 l (slot (rl_size l) k a) = a mod seq_circle \<and>
      rl_data2 l (slot (rl_size l) k a) = (if a = b then - 1 else b mod seq_circle) \<and>
      rl_prior l (slot (rl_size l) k a) = prv \<and>
      rl_next l (slot (rl_size l) k a) = first_slot (rl_size l) k xs nxt \<and>
      nodes l k (slot (rl_size l) k a) xs nxt"
  by (simp add: nodes.simps(2) Let_def)

lemma nodes_append:
  "nodes l k prv (xs @ ys) nxt \<longleftrightarrow>
     nodes l k prv xs (first_slot (rl_size l) k ys nxt) \<and> nodes l k (last_slot (rl_size l) k xs prv) ys nxt"
proof (induction xs arbitrary: prv)
  case (Cons x xs)
  then show ?case by (cases x) (auto simp: nodes_Cons)
qed simp

definition slots :: "int \<Rightarrow> int \<Rightarrow> (int \<times> int) list \<Rightarrow> int set" where
  "slots n k xs = (\<lambda>x. slot n k (fst x)) ` set xs"

lemma slots_simps [simp]:
  "slots n k [] = {}" "slots n k (x # xs) = insert (slot n k (fst x)) (slots n k xs)"
  "slots n k (xs @ ys) = slots n k xs \<union> slots n k ys"
  by (auto simp: slots_def)

text \<open>Nodes only depend on their own slots.\<close>

lemma nodes_frame:
  assumes "\<And>i. i \<in> slots (rl_size l) k xs \<Longrightarrow> rl_data1 l' i = rl_data1 l i \<and> rl_data2 l' i = rl_data2 l i
      \<and> rl_next l' i = rl_next l i \<and> rl_prior l' i = rl_prior l i"
    and "rl_size l' = rl_size l"
  shows "nodes l' k prv xs nxt \<longleftrightarrow> nodes l k prv xs nxt"
  using assms
proof (induction xs arbitrary: prv)
  case (Cons x xs)
  then show ?case by (cases x) (simp add: nodes_Cons)
qed simp

definition loss_list :: "int \<Rightarrow> (int \<times> int) list \<Rightarrow> rcv_loss_list \<Rightarrow> bool" where
  "loss_list k xs l \<longleftrightarrow>
     0 < rl_size l \<and> rl_size l < m_iSeqNoTH \<and> intervals xs \<and> within (rl_size l) xs \<and>
     nodes l k (- 1) xs (- 1) \<and>
     rl_head l = first_slot (rl_size l) k xs (rl_head l) \<and>
     rl_tail l = last_slot (rl_size l) k xs (rl_tail l) \<and>
     (xs = [] \<longrightarrow> rl_head l = - 1) \<and>
     rl_length l = lost_count xs \<and>
     (\<forall>i. i \<notin> slots (rl_size l) k xs \<longrightarrow> rl_data1 l i = - 1 \<and> rl_data2 l i = - 1)"

lemma loss_list_empty:
  assumes "loss_list k xs l"
  shows "rl_length l = 0 \<longleftrightarrow> xs = []"
  using assms lost_count_pos [of xs] by (auto simp: loss_list_def)

lemma slot_notin:
  assumes "\<And>c d. (c, d) \<in> set xs \<Longrightarrow> c \<noteq> x \<and> \<bar>c - x\<bar> < n"
  shows "slot n k x \<notin> slots n k xs"
proof
  assume "slot n k x \<in> slots n k xs"
  then obtain c d where "(c, d) \<in> set xs" "slot n k x = slot n k c" by (auto simp: slots_def)
  with assms [of c d] slot_eq [of c x n k] show False by auto
qed

lemma starts_apart:
  assumes "intervals xs" "within n xs" "(a, b) \<in> set xs" "(c, d) \<in> set xs"
  shows "\<bar>a - c\<bar> < n"
proof -
  have "a \<le> b" "c \<le> d" using assms by (auto dest: intervals_mem)
  moreover have "d - a < n" "b - c < n" using assms(2-4) by (fastforce simp: within_def)+
  ultimately show ?thesis by linarith
qed

lemma middle_slot:
  assumes "intervals (ys @ (a, b) # zs)" "within n (ys @ (a, b) # zs)"
  shows "slot n k a \<notin> slots n k ys" "slot n k a \<notin> slots n k zs"
proof -
  have *: "\<bar>c - a\<bar> < n" if "(c, d) \<in> set ys \<union> set zs" for c d
    using that by (intro starts_apart [OF assms]) auto
  have "c < a" if "(c, d) \<in> set ys" for c d
    using that assms(1) intervals_mem [of ys c d] by (fastforce simp: intervals_append)
  with * show "slot n k a \<notin> slots n k ys" by (intro slot_notin) fastforce
  have "a < c" if "(c, d) \<in> set zs" for c d
    using that assms(1) by (fastforce simp: intervals_append)
  with * show "slot n k a \<notin> slots n k zs" by (intro slot_notin) fastforce
qed

lemma node_data:
  assumes "nodes l k prv xs nxt" "(a, b) \<in> set xs"
  shows "rl_data1 l (slot (rl_size l) k a) = a mod seq_circle"
    and "rl_data2 l (slot (rl_size l) k a) = (if a = b then - 1 else b mod seq_circle)"
proof -
  obtain ys zs where "xs = ys @ (a, b) # zs" using assms(2) by (meson split_list)
  with assms(1) show "rl_data1 l (slot (rl_size l) k a) = a mod seq_circle"
    and "rl_data2 l (slot (rl_size l) k a) = (if a = b then - 1 else b mod seq_circle)"
    by (simp_all add: nodes_append nodes_Cons)
qed

lemma head_data:
  assumes "loss_list k xs l" "xs \<noteq> []"
  shows "rl_head l = slot (rl_size l) k (fst (hd xs))" "rl_data1 l (rl_head l) = fst (hd xs) mod seq_circle"
proof -
  obtain a b zs where xs: "xs = (a, b) # zs" using assms(2) by (cases xs) auto
  show h: "rl_head l = slot (rl_size l) k (fst (hd xs))" using assms(1) xs by (simp add: loss_list_def)
  show "rl_data1 l (rl_head l) = fst (hd xs) mod seq_circle"
    unfolding h using assms(1) xs by (simp add: loss_list_def nodes_Cons)
qed

lemma first_least:
  assumes "intervals xs" "(c, d) \<in> set xs"
  shows "fst (hd xs) \<le> c"
  using assms by (cases xs) (fastforce dest: intervals_mem)+

section \<open>Insertion\<close>

lemma insert_into_empty:
  assumes "loss_list k [] l" "x \<le> y" "y - x < rl_size l"
  shows "\<exists>l'. rcv_insert now (x mod seq_circle) (y mod seq_circle) l = Inr l' \<and> loss_list (- x) [(x, y)] l'
    \<and> rl_size l' = rl_size l"
proof -
  have n: "0 < rl_size l" "rl_size l < m_iSeqNoTH" using assms(1) by (auto simp: loss_list_def)
  have "\<bar>y - x\<bar> < seq_circle" "y - x < seq_circle" using assms n seq_consts by linarith+
  then have xy: "y mod seq_circle = x mod seq_circle \<longleftrightarrow> y = x"
    and len: "seqlen (x mod seq_circle) (y mod seq_circle) = y - x + 1"
    using assms(2) by (simp_all add: seq_eq seqlen_count)
  have s: "slot (rl_size l) (- x) x = 0" using n by (simp add: slot_def)
  show ?thesis
    using assms n unfolding rcv_insert_def Let_def loss_list_def
    by (cases "y = x") (use len in \<open>simp_all add: xy nodes_Cons s within_def\<close>)
qed

lemma insert_behind:
  assumes "loss_list k xs l" "xs \<noteq> []" "x \<le> y" "\<And>z. z \<in> lost xs \<Longrightarrow> z < x" "y - fst (hd xs) < rl_size l"
  shows "\<exists>xs' l'. rcv_insert now (x mod seq_circle) (y mod seq_circle) l = Inr l' \<and> loss_list k xs' l'
    \<and> lost xs' = lost xs \<union> {x..y} \<and> rl_size l' = rl_size l"
proof -
  obtain ys a b where xs: "xs = ys @ [(a, b)]" using assms(2) by (metis rev_exhaust surj_pair)
  let ?n = "rl_size l" and ?C = seq_circle
  note ok = assms(1) [unfolded loss_list_def]
  have n: "0 < ?n" "?n < m_iSeqNoTH" and iv: "intervals (ys @ [(a, b)])" and wi: "within ?n (ys @ [(a, b)])"
    using ok xs by auto
  have ab: "a \<le> b" "b < x" using iv assms(4) [of b] xs by (auto simp: intervals_append)
  have first: "fst (hd xs) \<le> c" if "(c, d) \<in> set xs" for c d using first_least [of xs c d] that iv xs by auto
  have fa: "fst (hd xs) \<le> a" using first [of a b] xs by simp
  have tail: "rl_tail l = slot ?n k a" using ok xs by simp
  have t2: "rl_data2 l (slot ?n k a) = (if a = b then - 1 else b mod ?C)"
    using node_data(2) [of l k "- 1" xs "- 1" a b] ok xs by simp
  have loc: "(rl_head l + seqoff (fst (hd xs) mod ?C) (x mod ?C)) smod ?n = slot ?n k x"
    using head_data(1) [OF assms(1,2)] slot_move [of ?n "x - fst (hd xs)" k "fst (hd xs)"] n fa ab assms(3,5)
    by (simp add: seqoff_count)
  have coal: "incseq (b mod ?C) = x mod ?C \<longleftrightarrow> b + 1 = x"
    using ab fa assms(3,5) n seq_consts by (simp add: incseq_count seq_eq)
  have "\<bar>y - x\<bar> < ?C" "y - x < ?C" using ab fa assms(3,5) n seq_consts by linarith+
  then have xy: "y mod ?C = x mod ?C \<longleftrightarrow> y = x" and len: "seqlen (x mod ?C) (y mod ?C) = y - x + 1"
    using assms(3) by (simp_all add: seq_eq seqlen_count)
  have before: "c \<le> d \<and> d < x" if "(c, d) \<in> set xs" for c d
  proof -
    have "c \<le> d" using that iv xs intervals_mem by blast
    moreover from this that have "d \<in> lost xs" by (force simp: lost_def)
    ultimately show ?thesis using assms(4) by blast
  qed
  have far: "y - c < ?n" if "(c, d) \<in> set xs" for c d using first [OF that] assms(5) by linarith
  show ?thesis
  proof (cases "a < b \<and> b + 1 = x")
    case True
    let ?l = "l\<lparr>rl_time := now, rl_data2 := (rl_data2 l)(slot ?n k a := y mod ?C),
      rl_length := rl_length l + (y - x + 1)\<rparr>"
    have "rcv_insert now (x mod ?C) (y mod ?C) l = Inr ?l"
      using True loss_list_empty [OF assms(1)] assms(2) head_data [OF assms(1,2)] n tail t2 coal len seq_number
      unfolding rcv_insert_def Let_def by simp
    moreover have "loss_list k (ys @ [(a, y)]) ?l"
    proof -
      have "intervals (ys @ [(a, y)])" using iv ab True assms(3) by (auto simp: intervals_append)
      moreover have "within ?n (ys @ [(a, y)])"
        using wi far xs unfolding within_def by (fastforce simp: ball_Un)
      moreover have "nodes ?l k (- 1) ys (slot ?n k a) \<longleftrightarrow> nodes l k (- 1) ys (slot ?n k a)"
        using middle_slot(1) [OF iv wi] by (intro nodes_frame) auto
      ultimately show ?thesis using ok xs n True assms(3)
        by (auto simp: loss_list_def nodes_append nodes_Cons)
    qed
    moreover have "lost (ys @ [(a, y)]) = lost xs \<union> {x..y}" using True assms(3) xs by auto
    ultimately show ?thesis by fastforce
  next
    case False
    let ?p = "slot ?n k x"
    let ?l = "l\<lparr>rl_time := now, rl_data1 := (rl_data1 l)(?p := x mod ?C),
      rl_data2 := (if x = y then rl_data2 l else (rl_data2 l)(?p := y mod ?C)),
      rl_next := (rl_next l)(slot ?n k a := ?p, ?p := - 1), rl_prior := (rl_prior l)(?p := slot ?n k a),
      rl_tail := ?p, rl_length := rl_length l + (y - x + 1)\<rparr>"
    have "rcv_insert now (x mod ?C) (y mod ?C) l = Inr ?l"
      using False loss_list_empty [OF assms(1)] assms(2) head_data [OF assms(1,2)] n tail t2 coal len seq_number xy loc ab(1)
      unfolding rcv_insert_def Let_def by auto
    moreover have "loss_list k (xs @ [(x, y)]) ?l"
    proof -
      have fresh: "?p \<notin> slots ?n k xs"
        using before far assms(3) by (intro slot_notin) fastforce
      have "intervals (xs @ [(x, y)])" using iv xs before assms(3) by (auto simp: intervals_append)
      moreover have "within ?n (xs @ [(x, y)])"
        using wi far xs before assms(3,5) n unfolding within_def by (fastforce simp: ball_Un)
      moreover have "nodes ?l k (- 1) ys (slot ?n k a) \<longleftrightarrow> nodes l k (- 1) ys (slot ?n k a)"
        using middle_slot(1) [OF iv wi] fresh xs by (intro nodes_frame) auto
      ultimately show ?thesis using ok xs n fresh
        by (auto simp: loss_list_def nodes_append nodes_Cons)
    qed
    moreover have "lost (xs @ [(x, y)]) = lost xs \<union> {x..y}" by simp
    ultimately show ?thesis by fastforce
  qed
qed

section \<open>Removal\<close>

lemma loss_list_time [simp]: "loss_list k xs (l\<lparr>rl_time := t\<rparr>) \<longleftrightarrow> loss_list k xs l"
  using nodes_frame [of l k xs "l\<lparr>rl_time := t\<rparr>" "- 1" "- 1"] by (simp add: loss_list_def)

lemma slots_distinct:
  assumes "intervals xs" "within n xs"
  shows "distinct (map (\<lambda>x. slot n k (fst x)) xs)"
  using assms
proof (induction xs)
  case (Cons x xs)
  moreover obtain a b where x: "x = (a, b)" by fastforce
  moreover have "slot n k a \<notin> slots n k xs"
    using middle_slot(2) [of "[]" a b xs n k] Cons.prems x by simp
  moreover have "within n xs" using Cons.prems(2) by (auto simp: within_def)
  ultimately show ?case by (auto simp: slots_def)
qed simp

lemma within_subset: "within n xs \<Longrightarrow> set ys \<subseteq> set xs \<Longrightarrow> within n ys"
  unfolding within_def by fast

lemma within_inside:
  assumes "within n xs" "\<And>a b. (a, b) \<in> set ys \<Longrightarrow> \<exists>c d. (c, d) \<in> set xs \<and> c \<le> a \<and> b \<le> d"
  shows "within n ys"
proof -
  have "d - a < n" if ab: "(a, b) \<in> set ys" and cd: "(c, d) \<in> set ys" for a b c d
  proof -
    obtain a' b' where "(a', b') \<in> set xs" "a' \<le> a" using assms(2) [OF ab] by blast
    moreover obtain c' d' where "(c', d') \<in> set xs" "d \<le> d'" using assms(2) [OF cd] by blast
    moreover from calculation have "d' - a' < n" using assms(1) by (fastforce simp: within_def)
    ultimately show ?thesis by linarith
  qed
  then show ?thesis by (auto simp: within_def)
qed

text \<open>Taking out the node of a single number.\<close>

lemma unlink_ok:
  assumes "loss_list k (ys @ (x, x) # zs) l"
  shows "\<exists>l'. unlink_node (slot (rl_size l) k x) l = Inr l' \<and> rl_size l' = rl_size l
    \<and> loss_list k (ys @ zs) (l'\<lparr>rl_length := rl_length l' - 1\<rparr>)"
proof -
  let ?n = "rl_size l" and ?x = "slot (rl_size l) k x"
  note ok = assms(1) [unfolded loss_list_def]
  have n: "0 < ?n" "?n < m_iSeqNoTH" and iv: "intervals (ys @ (x, x) # zs)" and wi: "within ?n (ys @ (x, x) # zs)"
    using ok by auto
  note dist = slots_distinct [OF iv wi, of k]
  have iv': "intervals (ys @ zs)" using iv by (auto simp: intervals_append)
  have wi': "within ?n (ys @ zs)" by (rule within_subset [OF wi]) auto
  have data: "\<forall>i. i \<notin> slots ?n k (ys @ zs) \<longrightarrow> (if i = ?x then - 1 else rl_data1 l i) = - 1 \<and> rl_data2 l i = - 1"
    using ok by (auto simp: nodes_append nodes_Cons)
  show ?thesis
  proof (cases ys rule: rev_cases)
    case Nil
    show ?thesis
    proof (cases zs)
      case Z: Nil
      let ?l = "l\<lparr>rl_head := - 1, rl_data1 := (rl_data1 l)(?x := - 1)\<rparr>"
      have "unlink_node ?x l = Inr ?l"
        using ok n Nil Z by (simp add: unlink_node_def nodes_Cons)
      moreover have "loss_list k (ys @ zs) (?l\<lparr>rl_length := rl_length ?l - 1\<rparr>)"
        using ok data iv' wi' Nil Z by (simp add: loss_list_def)
      ultimately show ?thesis by fastforce
    next
      case (Cons z zs')
      obtain e f where z: "z = (e, f)" by fastforce
      let ?l = "l\<lparr>rl_head := slot ?n k e, rl_prior := (rl_prior l)(slot ?n k e := - 1),
        rl_data1 := (rl_data1 l)(?x := - 1)\<rparr>"
      have "unlink_node ?x l = Inr ?l"
        using ok n Nil Cons z by (simp add: unlink_node_def nodes_Cons)
      moreover have "loss_list k (ys @ zs) (?l\<lparr>rl_length := rl_length ?l - 1\<rparr>)"
      proof -
        have "nodes (?l\<lparr>rl_length := rl_length ?l - 1\<rparr>) k (slot ?n k e) zs' (- 1)
            \<longleftrightarrow> nodes l k (slot ?n k e) zs' (- 1)"
          using dist Nil Cons z by (intro nodes_frame) (force simp: slots_def)+
        then show ?thesis
          using ok data iv' wi' Nil Cons z dist n by (auto simp: loss_list_def nodes_Cons)
      qed
      ultimately show ?thesis by fastforce
    qed
  next
    case (snoc ys' y)
    obtain c d where y: "y = (c, d)" by fastforce
    show ?thesis
    proof (cases zs)
      case Nil
      let ?l = "l\<lparr>rl_next := (rl_next l)(slot ?n k c := - 1), rl_tail := slot ?n k c,
        rl_data1 := (rl_data1 l)(?x := - 1)\<rparr>"
      have "rl_head l \<noteq> ?x" using ok snoc dist y by (cases ys') (auto simp: nodes_append)
      then have "unlink_node ?x l = Inr ?l"
        using ok n Nil snoc y dist by (simp add: unlink_node_def nodes_append nodes_Cons)
      moreover have "loss_list k (ys @ zs) (?l\<lparr>rl_length := rl_length ?l - 1\<rparr>)"
      proof -
        have "nodes (?l\<lparr>rl_length := rl_length ?l - 1\<rparr>) k (- 1) ys' (slot ?n k c)
            \<longleftrightarrow> nodes l k (- 1) ys' (slot ?n k c)"
          using dist Nil snoc y by (intro nodes_frame) (force simp: slots_def)+
        then show ?thesis
          using ok data iv' wi' Nil snoc y dist n by (auto simp: loss_list_def nodes_append nodes_Cons)
      qed
      ultimately show ?thesis by fastforce
    next
      case (Cons z zs')
      obtain e f where z: "z = (e, f)" by fastforce
      have apart: "slot ?n k c \<notin> slots ?n k ys'" "?x \<notin> slots ?n k ys'" "slot ?n k e \<notin> slots ?n k ys'"
        "slot ?n k c \<notin> slots ?n k zs'" "?x \<notin> slots ?n k zs'" "slot ?n k e \<notin> slots ?n k zs'"
        using dist Cons snoc y z by (auto simp: slots_def)
      let ?l = "l\<lparr>rl_next := (rl_next l)(slot ?n k c := slot ?n k e),
        rl_prior := (rl_prior l)(slot ?n k e := slot ?n k c), rl_data1 := (rl_data1 l)(?x := - 1)\<rparr>"
      have "rl_head l \<noteq> ?x" using ok snoc dist y by (cases ys') (auto simp: nodes_append)
      then have "unlink_node ?x l = Inr ?l"
        using ok n Cons snoc y z dist by (simp add: unlink_node_def nodes_append nodes_Cons)
      moreover have "loss_list k (ys @ zs) (?l\<lparr>rl_length := rl_length ?l - 1\<rparr>)"
      proof -
        have "nodes (?l\<lparr>rl_length := rl_length ?l - 1\<rparr>) k (- 1) ys' (slot ?n k c)
            \<longleftrightarrow> nodes l k (- 1) ys' (slot ?n k c)"
          "nodes (?l\<lparr>rl_length := rl_length ?l - 1\<rparr>) k (slot ?n k e) zs' (- 1)
            \<longleftrightarrow> nodes l k (slot ?n k e) zs' (- 1)"
          using apart by (intro nodes_frame; auto)+
        then show ?thesis
          using ok data iv' wi' Cons snoc y z dist n by (auto simp: loss_list_def nodes_append nodes_Cons)
      qed
      ultimately show ?thesis by fastforce
    qed
  qed
qed

text \<open>A slot that no node takes, for the count that follows one in an interval.\<close>

lemma next_slot_free:
  assumes "intervals (ys @ (a, b) # zs)" "within n (ys @ (a, b) # zs)" "a \<le> x" "x < b"
  shows "slot n k (x + 1) \<notin> slots n k (ys @ (a, b) # zs)"
proof (rule slot_notin)
  fix c d assume cd: "(c, d) \<in> set (ys @ (a, b) # zs)"
  have "b - c < n" "d - a < n" using assms(2) cd by (fastforce simp: within_def)+
  moreover have "c \<le> d" using intervals_mem [OF assms(1) cd] .
  moreover have "c \<le> a \<or> b < c" using cd assms(1) by (fastforce simp: intervals_append dest: intervals_mem)
  ultimately show "c \<noteq> x + 1 \<and> \<bar>c - (x + 1)\<bar> < n" using assms(3,4) by linarith
qed




lemma slot_ne:
  "ys \<noteq> [] \<Longrightarrow> first_slot n k ys z = slot n k (fst (hd ys))"
  "ys \<noteq> [] \<Longrightarrow> last_slot n k ys z = slot n k (fst (last ys))"
  by (cases ys) (simp_all add: last_slot_def)

lemma last_slot_in: "ys \<noteq> [] \<Longrightarrow> last_slot n k ys z \<in> slots n k ys"
  by (simp add: last_slot_def slots_def)

lemma first_slot_in: "ys \<noteq> [] \<Longrightarrow> first_slot n k ys z \<in> slots n k ys"
  by (cases ys) simp_all

text \<open>Nodes whose last is linked to another slot, and whose first is.\<close>

lemma nodes_relast:
  assumes "nodes l k prv ys nxt" "distinct (map (\<lambda>x. slot (rl_size l) k (fst x)) ys)" "rl_size l' = rl_size l"
    and "\<And>i. i \<in> slots (rl_size l) k ys \<Longrightarrow> rl_data1 l' i = rl_data1 l i \<and> rl_data2 l' i = rl_data2 l i
      \<and> rl_prior l' i = rl_prior l i
      \<and> rl_next l' i = (if i = last_slot (rl_size l) k ys i then nxt' else rl_next l i)"
  shows "nodes l' k prv ys nxt'"
  using assms
proof (induction ys arbitrary: prv)
  case (Cons y ys)
  obtain a b where y: "y = (a, b)" by fastforce
  show ?case
  proof (cases ys)
    case Nil
    then show ?thesis using Cons.prems y by (simp add: nodes_Cons)
  next
    case (Cons y' ys')
    have "last_slot (rl_size l) k (y # ys) i = last_slot (rl_size l) k ys i" for i
      using Cons by (simp add: last_slot_def)
    moreover have "slot (rl_size l) k a \<noteq> last_slot (rl_size l) k ys z" for z
    proof -
      have "slot (rl_size l) k a \<notin> slots (rl_size l) k ys" using Cons.prems(2) y by (auto simp: slots_def)
      then show ?thesis using last_slot_in [of ys "rl_size l" k z] Cons by auto
    qed
    ultimately show ?thesis using Cons.prems Cons.IH [of "slot (rl_size l) k a"] Cons y
      by (simp add: nodes_Cons)
  qed
qed simp

lemma nodes_refirst:
  assumes "nodes l k prv zs nxt" "distinct (map (\<lambda>x. slot (rl_size l) k (fst x)) zs)" "rl_size l' = rl_size l"
    and "\<And>i. i \<in> slots (rl_size l) k zs \<Longrightarrow> rl_data1 l' i = rl_data1 l i \<and> rl_data2 l' i = rl_data2 l i
      \<and> rl_next l' i = rl_next l i
      \<and> rl_prior l' i = (if i = first_slot (rl_size l) k zs i then prv' else rl_prior l i)"
  shows "nodes l' k prv' zs nxt"
proof (cases zs)
  case (Cons z zs')
  obtain a b where z: "z = (a, b)" by fastforce
  have "nodes l' k (slot (rl_size l) k a) zs' nxt \<longleftrightarrow> nodes l k (slot (rl_size l) k a) zs' nxt"
    using assms Cons z by (intro nodes_frame) (force simp: slots_def)+
  then show ?thesis using assms Cons z by (simp add: nodes_Cons)
qed simp

lemma shift_ok:
  assumes "loss_list k (ys @ (x, b) # zs) l" "x < b"
  shows "\<exists>l'. shift_node (slot (rl_size l) k x) l = Inr l' \<and> rl_size l' = rl_size l
    \<and> loss_list k (ys @ (x + 1, b) # zs) (l'\<lparr>rl_length := rl_length l' - 1\<rparr>)"
proof -
  let ?n = "rl_size l" and ?x = "slot (rl_size l) k x" and ?i = "slot (rl_size l) k (x + 1)"
  note ok = assms(1) [unfolded loss_list_def]
  have n: "0 < ?n" "?n < m_iSeqNoTH" and iv: "intervals (ys @ (x, b) # zs)" and wi: "within ?n (ys @ (x, b) # zs)"
    using ok by auto
  note dist = slots_distinct [OF iv wi, of k]
  have free: "?i \<notin> slots ?n k ys" "?i \<notin> slots ?n k zs" "?i \<noteq> ?x"
    using next_slot_free [OF iv wi order_refl assms(2), of k] by auto
  have "b - x < ?n" using wi by (fastforce simp: within_def)
  then have cmp: "seqcmp (b mod seq_circle) ((x + 1) mod seq_circle) > 0 \<longleftrightarrow> x + 1 < b"
    using assms(2) n by (intro seqcmp_less(2)) linarith
  have loc: "(?x + 1) smod ?n = ?i" using slot_move [of ?n 1 k x] n by simp
  have iv': "intervals (ys @ (x + 1, b) # zs)" using iv assms(2) by (auto simp: intervals_append)
  have wi': "within ?n (ys @ (x + 1, b) # zs)" by (rule within_inside [OF wi]) (use assms(2) in force)
  have x12: "rl_data1 l ?x = x mod seq_circle" "rl_data2 l ?x = b mod seq_circle" "rl_data2 l ?i = - 1"
    using ok assms(2) free by (auto simp: nodes_append nodes_Cons)
  have links: "rl_next l ?x = first_slot ?n k zs (- 1)" "rl_prior l ?x = last_slot ?n k ys (- 1)"
    using ok by (simp_all add: nodes_append nodes_Cons)
  have head: "rl_head l = ?x \<longleftrightarrow> ys = []" using ok dist by (cases ys) auto
  have tail: "rl_tail l = ?x \<longleftrightarrow> zs = []" using ok dist by (cases zs rule: rev_cases) auto
  let ?l = "l\<lparr>rl_data1 := (rl_data1 l)(?i := (x + 1) mod seq_circle, ?x := - 1),
    rl_data2 := (rl_data2 l)(?i := (if x + 1 < b then b mod seq_circle else - 1), ?x := - 1),
    rl_next := (if ys = [] then (rl_next l)(?i := first_slot ?n k zs (- 1))
      else (rl_next l)(?i := first_slot ?n k zs (- 1), last_slot ?n k ys (- 1) := ?i)),
    rl_prior := (if zs = [] then (rl_prior l)(?i := last_slot ?n k ys (- 1))
      else (rl_prior l)(?i := last_slot ?n k ys (- 1), first_slot ?n k zs (- 1) := ?i)),
    rl_head := (if ys = [] then ?i else rl_head l), rl_tail := (if zs = [] then ?i else rl_tail l)\<rparr>"
  have ls: "ys \<noteq> [] \<Longrightarrow> 0 \<le> last_slot ?n k ys (- 1) \<and> last_slot ?n k ys (- 1) < ?n"
    and fs: "zs \<noteq> [] \<Longrightarrow> 0 \<le> first_slot ?n k zs (- 1) \<and> first_slot ?n k zs (- 1) < ?n"
    using n by (auto simp: last_slot_def first_slot_def split: list.splits)
  have lf: "last_slot ?n k ys (- 1) \<noteq> ?i" "first_slot ?n k zs (- 1) \<noteq> ?i" 
    using free n by (cases ys rule: rev_cases; cases zs; auto)+
  have run: "shift_node ?x l = Inr ?l"
    using n loc cmp x12 links head tail ls fs lf free
    by (cases "ys = []"; cases "zs = []")
      (simp_all add: shift_node_def Let_def incseq_count, simp_all add: fun_eq_iff)
  let ?l' = "?l\<lparr>rl_length := rl_length ?l - 1\<rparr>"
  have dist': "distinct (map (\<lambda>x. slot ?n k (fst x)) ys)" "distinct (map (\<lambda>x. slot ?n k (fst x)) zs)"
    and apart: "?x \<notin> slots ?n k ys" "?x \<notin> slots ?n k zs" "slots ?n k ys \<inter> slots ?n k zs = {}"
    using dist by (auto simp: slots_def)
  have fresh: "i \<noteq> ?i \<and> i \<noteq> ?x \<and> (zs \<noteq> [] \<longrightarrow> i \<noteq> first_slot ?n k zs (- 1))
      \<and> last_slot ?n k ys i = last_slot ?n k ys (- 1) \<and> ys \<noteq> []" if "i \<in> slots ?n k ys" for i
    using that free apart first_slot_in [of zs ?n k "- 1"] by (cases "ys = []") (auto simp: last_slot_def)
  have ys: "nodes ?l' k (- 1) ys ?i"
  proof (rule nodes_relast [of l _ _ _ "first_slot ?n k ((x, b) # zs) (- 1)"])
    show "nodes l k (- 1) ys (first_slot ?n k ((x, b) # zs) (- 1))" using ok by (simp only: nodes_append)
  qed (use fresh dist' n lf in simp_all)
  have fresh: "i \<noteq> ?i \<and> i \<noteq> ?x \<and> (ys \<noteq> [] \<longrightarrow> i \<noteq> last_slot ?n k ys (- 1))
      \<and> first_slot ?n k zs i = first_slot ?n k zs (- 1) \<and> zs \<noteq> []" if "i \<in> slots ?n k zs" for i
    using that free apart last_slot_in [of ys ?n k "- 1"] by (cases zs) auto
  have zs: "nodes ?l' k ?i zs (- 1)"
  proof (rule nodes_refirst [of l k ?x])
    show "nodes l k ?x zs (- 1)" using ok by (simp add: nodes_append nodes_Cons)
  qed (use fresh dist' n lf in simp_all)
  have "loss_list k (ys @ (x + 1, b) # zs) ?l'"
    unfolding loss_list_def
  proof (intro conjI)
    show "nodes ?l' k (- 1) (ys @ (x + 1, b) # zs) (- 1)"
      using ys zs free lf assms(2) by (auto simp: nodes_append nodes_Cons)
  qed (use ok iv' wi' free apart assms(2) in \<open>auto simp: nodes_append nodes_Cons slot_ne\<close>)
  then show ?thesis using run by auto
qed

lemma cut_end_ok:
  assumes "loss_list k (ys @ (a, x) # zs) l" "a < x"
  shows "\<exists>l'. cut_node (x mod seq_circle) (slot (rl_size l) k a) (slot (rl_size l) k x) l = Inr l'
    \<and> rl_size l' = rl_size l \<and> loss_list k (ys @ (a, x - 1) # zs) (l'\<lparr>rl_length := rl_length l' - 1\<rparr>)"
proof -
  let ?n = "rl_size l" and ?a = "slot (rl_size l) k a"
  note ok = assms(1) [unfolded loss_list_def]
  have n: "0 < ?n" "?n < m_iSeqNoTH" and iv: "intervals (ys @ (a, x) # zs)" and wi: "within ?n (ys @ (a, x) # zs)"
    using ok by auto
  have "x - a < ?n" using wi by (fastforce simp: within_def)
  then have next1: "x mod seq_circle = incseq (a mod seq_circle) \<longleftrightarrow> x = a + 1"
    using assms(2) n seq_consts by (simp add: incseq_count seq_eq)
  have a12: "rl_data1 l ?a = a mod seq_circle" "rl_data2 l ?a = x mod seq_circle"
    using ok assms(2) by (auto simp: nodes_append nodes_Cons)
  let ?l = "l\<lparr>rl_data2 := (rl_data2 l)(?a := (if x = a + 1 then - 1 else (x - 1) mod seq_circle))\<rparr>"
  let ?l' = "?l\<lparr>rl_length := rl_length ?l - 1\<rparr>"
  have run: "cut_node (x mod seq_circle) ?a (slot ?n k x) l = Inr ?l"
    using n a12 next1 by (simp add: cut_node_def decseq_count)
  have same: "nodes ?l' k p ys q \<longleftrightarrow> nodes l k p ys q" "nodes ?l' k p zs q \<longleftrightarrow> nodes l k p zs q" for p q
    using middle_slot [OF iv wi, of k] by (intro nodes_frame; auto)+
  have "within ?n (ys @ (a, x - 1) # zs)" by (rule within_inside [OF wi]) (use assms(2) in force)
  moreover have "intervals (ys @ (a, x - 1) # zs)" using iv assms(2) by (auto simp: intervals_append)
  ultimately have "loss_list k (ys @ (a, x - 1) # zs) ?l'"
    unfolding loss_list_def
  proof (intro conjI)
    show "nodes ?l' k (- 1) (ys @ (a, x - 1) # zs) (- 1)"
      using ok same assms(2) by (auto simp: nodes_append nodes_Cons)
  qed (use ok assms(2) in auto)
  then show ?thesis using run by auto
qed

lemma cut_middle_ok:
  assumes "loss_list k (ys @ (a, b) # zs) l" "a < x" "x < b"
  shows "\<exists>l'. cut_node (x mod seq_circle) (slot (rl_size l) k a) (slot (rl_size l) k x) l = Inr l'
    \<and> rl_size l' = rl_size l
    \<and> loss_list k (ys @ (a, x - 1) # (x + 1, b) # zs) (l'\<lparr>rl_length := rl_length l' - 1\<rparr>)"
proof -
  let ?n = "rl_size l" and ?a = "slot (rl_size l) k a" and ?i = "slot (rl_size l) k (x + 1)"
  note ok = assms(1) [unfolded loss_list_def]
  have n: "0 < ?n" "?n < m_iSeqNoTH" and iv: "intervals (ys @ (a, b) # zs)" and wi: "within ?n (ys @ (a, b) # zs)"
    using ok by auto
  have "b - a < ?n" using wi by (fastforce simp: within_def)
  then have next1: "x mod seq_circle = incseq (a mod seq_circle) \<longleftrightarrow> x = a + 1"
    and last1: "x mod seq_circle \<noteq> b mod seq_circle"
    and cmp: "seqcmp (b mod seq_circle) ((x + 1) mod seq_circle) > 0 \<longleftrightarrow> x + 1 < b"
    using assms(2,3) n seq_consts by (simp_all add: incseq_count seq_eq seqcmp_less(2))
  have free: "?i \<notin> slots ?n k ys" "?i \<notin> slots ?n k zs" "?i \<noteq> ?a"
    using next_slot_free [OF iv wi order.strict_implies_order [OF assms(2)] assms(3), of k] by auto
  have loc: "(slot ?n k x + 1) smod ?n = ?i" using slot_move [of ?n 1 k x] n by simp
  have a12: "rl_data1 l ?a = a mod seq_circle" "rl_data2 l ?a = b mod seq_circle" "rl_data2 l ?i = - 1"
    using ok assms(2,3) free by (auto simp: nodes_append nodes_Cons)
  have links: "rl_next l ?a = first_slot ?n k zs (- 1)" using ok by (simp add: nodes_append nodes_Cons)
  note mid = middle_slot [OF iv wi, of k]
  note dist = slots_distinct [OF iv wi, of k]
  have tail: "rl_tail l = ?a \<longleftrightarrow> zs = []"
    using ok mid(2) last_slot_in [of zs ?n k ?a] by (cases "zs = []") auto
  have fs: "zs \<noteq> [] \<Longrightarrow> 0 \<le> first_slot ?n k zs (- 1) \<and> first_slot ?n k zs (- 1) < ?n \<and> first_slot ?n k zs (- 1) \<noteq> ?i
    \<and> first_slot ?n k zs (- 1) \<noteq> ?a \<and> first_slot ?n k zs (- 1) \<noteq> - 1"
    using n free mid first_slot_in [of zs ?n k "- 1"] by (auto simp: slot_ne)
  have lf: "?i \<noteq> first_slot ?n k zs (- 1)" "?a \<noteq> first_slot ?n k zs (- 1)"
    using fs n by (cases "zs = []", auto)+
  let ?l = "l\<lparr>rl_data1 := (rl_data1 l)(?i := (x + 1) mod seq_circle),
    rl_data2 := (rl_data2 l)(?i := (if x + 1 < b then b mod seq_circle else - 1),
      ?a := (if x = a + 1 then - 1 else (x - 1) mod seq_circle)),
    rl_next := (rl_next l)(?i := first_slot ?n k zs (- 1), ?a := ?i),
    rl_prior := (if zs = [] then (rl_prior l)(?i := ?a) else (rl_prior l)(?i := ?a, first_slot ?n k zs (- 1) := ?i)),
    rl_tail := (if zs = [] then ?i else rl_tail l)\<rparr>"
  let ?l' = "?l\<lparr>rl_length := rl_length ?l - 1\<rparr>"
  have upd: "(rl_data2 l)(?i := - 1, ?a := v) = (rl_data2 l)(?a := v)"
    "x = a + 1 \<Longrightarrow> (rl_data2 l)(slot ?n k (2 + a) := - 1, ?a := v) = (rl_data2 l)(?a := v)" for v
    using a12(3) by (auto simp: fun_eq_iff algebra_simps)
  have run: "cut_node (x mod seq_circle) ?a (slot ?n k x) l = Inr ?l"
    using n loc cmp a12 links tail fs lf free next1 last1
    by (cases "zs = []") (simp_all add: cut_node_def Let_def incseq_count decseq_count upd)
  have apart: "slots ?n k ys \<inter> slots ?n k zs = {}" using dist by (auto simp: slots_def)
  have fresh: "i \<noteq> ?i \<and> i \<noteq> ?a \<and> (zs \<noteq> [] \<longrightarrow> i \<noteq> first_slot ?n k zs (- 1))" if "i \<in> slots ?n k ys" for i
    using that free mid apart first_slot_in [of zs ?n k "- 1"] by auto
  have ys: "nodes ?l' k (- 1) ys ?a \<longleftrightarrow> nodes l k (- 1) ys ?a"
    by (rule nodes_frame) (use fresh in simp_all)
  have fresh: "i \<noteq> ?i \<and> i \<noteq> ?a \<and> first_slot ?n k zs i = first_slot ?n k zs (- 1) \<and> zs \<noteq> []" if "i \<in> slots ?n k zs" for i
    using that free mid by (cases zs) auto
  have zs: "nodes ?l' k ?i zs (- 1)"
  proof (rule nodes_refirst [of l k ?a])
    show "nodes l k ?a zs (- 1)" using ok by (simp add: nodes_append nodes_Cons)
  qed (use fresh dist n fs in simp_all)
  have okn: "nodes l k (- 1) ys ?a" "rl_prior l ?a = last_slot ?n k ys (- 1)"
    using ok by (simp_all add: nodes_append nodes_Cons)
  have "within ?n (ys @ (a, x - 1) # (x + 1, b) # zs)" by (rule within_inside [OF wi]) (use assms(2,3) in force)
  moreover have "intervals (ys @ (a, x - 1) # (x + 1, b) # zs)" using iv assms(2,3) by (auto simp: intervals_append)
  ultimately have "loss_list k (ys @ (a, x - 1) # (x + 1, b) # zs) ?l'"
    unfolding loss_list_def
  proof (intro conjI)
    show "nodes ?l' k (- 1) (ys @ (a, x - 1) # (x + 1, b) # zs) (- 1)"
      unfolding nodes_append nodes_Cons using okn ys zs free lf a12 assms(2,3)
      by (intro conjI) simp_all
  qed (use ok free assms(2,3) in \<open>auto simp: nodes_append nodes_Cons slot_ne\<close>)
  then show ?thesis using run by auto
qed

end
