(* ===== verification/RcvLossListProperties.thy ===== *)
theory RcvLossListProperties
  imports RcvLossListNodes "HOL-Library.Word"
begin

text \<open>
  \<open>CRcvLossList\<close> refines a set of lost packets: what each operation does to the intervals of a list,
  and through them to the set, and what that makes of every run of the receiver.
\<close>

section \<open>The operations\<close>

lemma intervals_ordered:
  assumes "intervals xs" "(a, b) \<in> set xs" "(c, d) \<in> set xs"
  shows "a < c \<Longrightarrow> b < c" "a = c \<Longrightarrow> b = d"
proof -
  have "(a < c \<longrightarrow> b < c) \<and> (a = c \<longrightarrow> b = d)"
    using assms
  proof (induction xs)
    case (Cons x xs)
    then show ?case by (cases x) (fastforce dest: intervals_mem)
  qed simp
  then show "a < c \<Longrightarrow> b < c" "a = c \<Longrightarrow> b = d" by auto
qed

text \<open>The search for the node before a slot goes back over the empty ones.\<close>

lemma search_back_ok:
  assumes "0 < rl_size l" "rl_data1 l (slot (rl_size l) k a) \<noteq> - 1" "a \<le> c" "nat (c - a) \<le> fuel"
    and "\<And>z. a < z \<Longrightarrow> z \<le> c \<Longrightarrow> rl_data1 l (slot (rl_size l) k z) = - 1"
  shows "search_back fuel l (slot (rl_size l) k c) = Inr (slot (rl_size l) k a)"
  using assms(3-)
proof (induction fuel arbitrary: c)
  case 0
  then show ?case using assms(1,2) by (subst search_back.simps) simp
next
  case (Suc fuel)
  show ?case
  proof (cases "c = a")
    case True
    then show ?thesis using assms(1,2) by (subst search_back.simps) simp
  next
    case False
    then have "search_back fuel l (slot (rl_size l) k (c - 1)) = Inr (slot (rl_size l) k a)"
      using Suc.prems by (intro Suc.IH) auto
    then show ?thesis using assms(1) Suc.prems(1) Suc.prems(3) [of c] False
      by (subst search_back.simps) (simp add: slot_back)
  qed
qed

lemma node_slot:
  assumes "loss_list k xs l"
  shows "rl_data1 l (slot (rl_size l) k z) = - 1 \<longleftrightarrow> slot (rl_size l) k z \<notin> slots (rl_size l) k xs"
proof
  assume m1: "rl_data1 l (slot (rl_size l) k z) = - 1"
  show "slot (rl_size l) k z \<notin> slots (rl_size l) k xs"
  proof
    assume "slot (rl_size l) k z \<in> slots (rl_size l) k xs"
    then obtain a b where "(a, b) \<in> set xs" "slot (rl_size l) k z = slot (rl_size l) k a"
      by (auto simp: slots_def)
    then have "rl_data1 l (slot (rl_size l) k z) = a mod seq_circle"
      using node_data(1) [of l k "- 1" xs "- 1" a b] assms by (simp add: loss_list_def)
    with m1 seq_number(3) [of a] show False by simp
  qed
qed (use assms in \<open>simp add: loss_list_def\<close>)

lemma search_back_node:
  assumes "loss_list k xs l" "xs \<noteq> []"
  obtains a b where "(a, b) \<in> set xs"
    "search_back (nat (rl_size l)) l (slot (rl_size l) k (x - 1)) = Inr (slot (rl_size l) k a)"
    "fst (hd xs) < x \<Longrightarrow> x - fst (hd xs) < rl_size l \<Longrightarrow> a < x \<and> (\<forall>(c, d) \<in> set xs. c < x \<longrightarrow> c \<le> a)"
proof -
  let ?n = "rl_size l" and ?s = "slot (rl_size l) k" and ?f = "fst (hd xs)"
  have n: "0 < ?n" and iv: "intervals xs" and wi: "within ?n xs" using assms(1) by (auto simp: loss_list_def)
  let ?P = "\<lambda>j. ?s (x - 1 - int j) \<in> slots ?n k xs"
  have turn: "?s (x - 1 - (x - 1 - ?f) mod ?n) = ?s ?f"
    using mod_diff_right_eq [of "x - 1 + k" "x - 1 - ?f" ?n] by (simp add: slot_def algebra_simps)
  have hd: "?s ?f \<in> slots ?n k xs" using assms(2) by (cases xs) auto
  have "?P (nat ((x - 1 - ?f) mod ?n))" using turn hd n by simp
  then have least: "?P (LEAST j. ?P j)" "(LEAST j. ?P j) \<le> nat ((x - 1 - ?f) mod ?n)"
    by (rule LeastI, rule Least_le)
  define m where "m = (LEAST j. ?P j)"
  have m: "?P m" "m \<le> nat ((x - 1 - ?f) mod ?n)" using least unfolding m_def by blast+
  have "(x - 1 - ?f) mod ?n < ?n" using n by simp
  then have mn: "m \<le> nat ?n" using m(2) n by linarith
  obtain a b where ab: "(a, b) \<in> set xs" "?s (x - 1 - int m) = ?s a" using m(1) by (auto simp: slots_def)
  have "search_back (nat ?n) l (?s (x - 1)) = Inr (?s (x - 1 - int m))"
  proof (rule search_back_ok)
    show "rl_data1 l (?s (x - 1 - int m)) \<noteq> - 1" using m(1) node_slot [OF assms(1)] by simp
    fix z assume z: "x - 1 - int m < z" "z \<le> x - 1"
    have "\<not> ?P (nat (x - 1 - z))" using z by (intro not_less_Least) (simp add: m_def [symmetric])
    then show "rl_data1 l (?s z) = - 1" using z node_slot [OF assms(1)] by simp
  qed (use n mn in simp_all)
  moreover have "a < x \<and> (\<forall>(c, d) \<in> set xs. c < x \<longrightarrow> c \<le> a)" if fx: "?f < x" "x - ?f < ?n"
  proof -
    have "(x - 1 - ?f) mod ?n = x - 1 - ?f" using fx by simp
    then have "?f \<le> x - 1 - int m" using m(2) fx by simp
    moreover have "?f \<le> a" "a - ?f < ?n"
      using first_least [OF iv ab(1)] starts_apart [OF iv wi ab(1), of ?f "snd (hd xs)"] assms(2) by auto
    ultimately have am: "a = x - 1 - int m" using ab(2) slot_eq [of "x - 1 - int m" a ?n k] fx by simp
    have "c \<le> a" if cd: "(c, d) \<in> set xs" "c < x" for c d
    proof (rule ccontr)
      assume "\<not> c \<le> a"
      then have "\<not> ?P (nat (x - 1 - c))" using am cd by (intro not_less_Least) (simp add: m_def [symmetric])
      then show False using cd by (force simp: slots_def)
    qed
    then show ?thesis using am by auto
  qed
  ultimately show ?thesis using that [OF ab(1)] ab(2) by simp
qed

text \<open>What a remove does to the node that starts at its count, and to the one that holds it.\<close>

lemma remove_start_ok:
  assumes "loss_list k (ys @ (x, b) # zs) l"
  shows "\<exists>xs' l'. bind_res (if x = b then unlink_node (slot (rl_size l) k x) l else shift_node (slot (rl_size l) k x) l)
      (\<lambda>l. Inr (l\<lparr>rl_length := rl_length l - 1\<rparr>, True)) = Inr (l', True)
    \<and> rl_size l' = rl_size l \<and> loss_list k xs' l' \<and> lost xs' = lost (ys @ (x, b) # zs) - {x}"
proof -
  have iv: "intervals (ys @ (x, b) # zs)" using assms by (simp add: loss_list_def)
  then have others: "x \<notin> lost ys" "x \<notin> lost zs" and "x \<le> b" by (fastforce simp: lost_def intervals_append)+
  show ?thesis
  proof (cases "x = b")
    case True
    with unlink_ok [of k ys x zs l] assms obtain l' where "unlink_node (slot (rl_size l) k x) l = Inr l'"
      "rl_size l' = rl_size l" "loss_list k (ys @ zs) (l'\<lparr>rl_length := rl_length l' - 1\<rparr>)" by auto
    moreover have "lost (ys @ zs) = lost (ys @ (x, b) # zs) - {x}" using others True by auto
    ultimately show ?thesis using True by (intro exI [of _ "ys @ zs"]) simp
  next
    case False
    with shift_ok [OF assms] \<open>x \<le> b\<close> obtain l' where "shift_node (slot (rl_size l) k x) l = Inr l'"
      "rl_size l' = rl_size l" "loss_list k (ys @ (x + 1, b) # zs) (l'\<lparr>rl_length := rl_length l' - 1\<rparr>)" by auto
    moreover have "lost (ys @ (x + 1, b) # zs) = lost (ys @ (x, b) # zs) - {x}" using others \<open>x \<le> b\<close> by auto
    ultimately show ?thesis using False by (intro exI [of _ "ys @ (x + 1, b) # zs"]) simp
  qed
qed

lemma remove_inside_ok:
  assumes "loss_list k (ys @ (a, b) # zs) l" "a < x" "x \<le> b"
  shows "\<exists>xs' l'. bind_res (cut_node (x mod seq_circle) (slot (rl_size l) k a) (slot (rl_size l) k x) l)
      (\<lambda>l. Inr (l\<lparr>rl_length := rl_length l - 1\<rparr>, True)) = Inr (l', True)
    \<and> rl_size l' = rl_size l \<and> loss_list k xs' l' \<and> lost xs' = lost (ys @ (a, b) # zs) - {x}"
proof -
  have "intervals (ys @ (a, b) # zs)" using assms by (simp add: loss_list_def)
  then have others: "x \<notin> lost ys" "x \<notin> lost zs" using assms(2,3) by (fastforce simp: lost_def intervals_append)+
  show ?thesis
  proof (cases "x = b")
    case True
    with cut_end_ok [of k ys a x zs l] assms obtain l' where
      "cut_node (x mod seq_circle) (slot (rl_size l) k a) (slot (rl_size l) k x) l = Inr l'"
      "rl_size l' = rl_size l" "loss_list k (ys @ (a, x - 1) # zs) (l'\<lparr>rl_length := rl_length l' - 1\<rparr>)" by auto
    moreover have "lost (ys @ (a, x - 1) # zs) = lost (ys @ (a, b) # zs) - {x}" using others assms(2) True by auto
    ultimately show ?thesis by (intro exI [of _ "ys @ (a, x - 1) # zs"]) simp
  next
    case False
    with cut_middle_ok [OF assms(1,2)] assms(3) obtain l' where
      "cut_node (x mod seq_circle) (slot (rl_size l) k a) (slot (rl_size l) k x) l = Inr l'"
      "rl_size l' = rl_size l"
      "loss_list k (ys @ (a, x - 1) # (x + 1, b) # zs) (l'\<lparr>rl_length := rl_length l' - 1\<rparr>)" by auto
    moreover have "lost (ys @ (a, x - 1) # (x + 1, b) # zs) = lost (ys @ (a, b) # zs) - {x}"
      using others assms(2,3) by auto
    ultimately show ?thesis by (intro exI [of _ "ys @ (a, x - 1) # (x + 1, b) # zs"]) simp
  qed
qed

lemma interval_bounds:
  assumes "loss_list k xs l" "(a, b) \<in> set xs"
  shows "fst (hd xs) \<le> a" "a \<le> b" "b - fst (hd xs) < rl_size l"
proof -
  have iv: "intervals xs" and wi: "within (rl_size l) xs" using assms(1) by (auto simp: loss_list_def)
  show "fst (hd xs) \<le> a" "a \<le> b" using first_least [OF iv assms(2)] intervals_mem [OF iv assms(2)] by auto
  have "(fst (hd xs), snd (hd xs)) \<in> set xs" using assms(2) by (cases xs) auto
  then show "b - fst (hd xs) < rl_size l" using wi assms(2) unfolding within_def by fast
qed

lemma starts_at:
  assumes "loss_list k xs l" "\<bar>x - fst (hd xs)\<bar> < m_iSeqNoTH"
  shows "x mod seq_circle = rl_data1 l (slot (rl_size l) k x) \<longleftrightarrow> (\<exists>b. (x, b) \<in> set xs)"
proof
  have nodes: "nodes l k (- 1) xs (- 1)" using assms(1) by (simp add: loss_list_def)
  assume eq: "x mod seq_circle = rl_data1 l (slot (rl_size l) k x)"
  then have "slot (rl_size l) k x \<in> slots (rl_size l) k xs"
    using node_slot [OF assms(1), of x] seq_number(3) [of x] by argo
  then obtain a b where ab: "(a, b) \<in> set xs" "slot (rl_size l) k x = slot (rl_size l) k a"
    by (auto simp: slots_def)
  have "x mod seq_circle = a mod seq_circle" using eq node_data(1) [OF nodes ab(1)] ab(2) by simp
  moreover have "\<bar>x - a\<bar> < seq_circle"
    using interval_bounds [OF assms(1) ab(1)] assms seq_consts by (fastforce simp: loss_list_def)
  ultimately show "\<exists>b. (x, b) \<in> set xs" using ab(1) by (auto simp: seq_eq)
next
  have nodes: "nodes l k (- 1) xs (- 1)" using assms(1) by (simp add: loss_list_def)
  assume "\<exists>b. (x, b) \<in> set xs"
  then show "x mod seq_circle = rl_data1 l (slot (rl_size l) k x)" using node_data(1) [OF nodes] by fastforce
qed

text \<open>Removing behind the head takes the count out of the set, and says whether it was there.\<close>

lemma rcv_remove_behind:
  assumes "loss_list k xs l" "xs \<noteq> []" "fst (hd xs) \<le> x" "x - fst (hd xs) < m_iSeqNoTH"
  shows "\<exists>xs' l'. rcv_remove now (x mod seq_circle) l = Inr (l', x \<in> lost xs) \<and> rl_size l' = rl_size l
    \<and> loss_list k xs' l' \<and> lost xs' = lost xs - {x}"
proof -
  let ?l = "l\<lparr>rl_time := now\<rparr>" and ?n = "rl_size l" and ?f = "fst (hd xs)"
  let ?x = "slot ?n k x" and ?C = seq_circle
  have ok: "loss_list k xs ?l" and size: "rl_size ?l = ?n" using assms(1) by simp_all
  have n: "0 < ?n" "?n < m_iSeqNoTH" and iv: "intervals xs" and nodes: "nodes ?l k (- 1) xs (- 1)"
    using ok by (auto simp: loss_list_def)
  note bounds = interval_bounds [OF assms(1)]
  have len: "rl_length l \<noteq> 0" using loss_list_empty [OF assms(1)] assms(2) by simp
  note hd = head_data [OF ok assms(2), simplified]
  have off: "seqoff (?f mod ?C) (x mod ?C) = x - ?f" using assms(3,4) by (intro seqoff_count) linarith
  have loc: "(rl_head l + (x - ?f)) smod ?n = ?x"
    using hd slot_move [of ?n "x - ?f" k ?f] n assms(3) by simp
  have start: "x mod ?C = rl_data1 l ?x \<longleftrightarrow> (\<exists>b. (x, b) \<in> set xs)"
    using starts_at [OF assms(1)] assms(3,4) by simp
  show ?thesis
  proof (cases "\<exists>b. (x, b) \<in> set xs")
    case True
    then obtain b ys zs where xs: "xs = ys @ (x, b) # zs" by (meson split_list)
    have d2: "rl_data2 l ?x = (if x = b then - 1 else b mod ?C)"
      using node_data(2) [OF nodes, of x b] xs by simp
    have run: "rcv_remove now (x mod ?C) l =
        bind_res (if x = b then unlink_node ?x ?l else shift_node ?x ?l)
          (\<lambda>l. Inr (l\<lparr>rl_length := rl_length l - 1\<rparr>, True))"
      using hd off loc len assms(3) n start True d2 seq_number(3) [of b] by (simp add: rcv_remove_def Let_def)
    have mem: "x \<in> lost xs" using bounds(2) [of x b] xs by simp
    show ?thesis unfolding run eqTrueI [OF mem]
      using remove_start_ok [of k ys x b zs ?l, unfolded size, folded xs, OF ok] .
  next
    case no: False
    then have fx: "?f < x" using assms(2,3) by (cases "?f = x") (metis list.set_sel(1) prod.collapse, simp)
    obtain a b where ab: "(a, b) \<in> set xs"
      and search: "search_back (nat ?n) ?l (slot ?n k (x - 1)) = Inr (slot ?n k a)"
      and last: "x - ?f < ?n \<Longrightarrow> a < x \<and> (\<forall>(c, d) \<in> set xs. c < x \<longrightarrow> c \<le> a)"
      using search_back_node [OF ok assms(2), of x] fx by auto
    note d2 = node_data(2) [OF nodes ab, simplified]
    have cmp: "seqcmp (x mod ?C) (b mod ?C) > 0 \<longleftrightarrow> b < x"
      using bounds [OF ab] fx assms(4) n by (intro seqcmp_less(2)) linarith
    have run: "rcv_remove now (x mod ?C) l =
        (if a = b \<or> b < x then Inr (?l, False)
         else bind_res (cut_node (x mod ?C) (slot ?n k a) ?x ?l)
           (\<lambda>l. Inr (l\<lparr>rl_length := rl_length l - 1\<rparr>, True)))"
      using hd off loc len assms(3) n start no d2 cmp search seq_number(3) [of b]
      by (simp add: rcv_remove_def Let_def slot_back)
    have where_x: "(c, d) = (a, b) \<and> a < x" if "(c, d) \<in> set xs" "c \<le> x" "x \<le> d" for c d
    proof -
      have "a < x" "c \<le> a" using that no last bounds [OF that(1)] by (cases "c = x"; fastforce)+
      then show ?thesis using intervals_ordered [OF iv that(1) ab] that by (cases "c = a") auto
    qed
    show ?thesis
    proof (cases "a = b \<or> b < x")
      case True
      then have "x \<notin> lost xs" using where_x by (fastforce simp: lost_def)
      then show ?thesis using run True ok n by (intro exI [of _ xs] exI [of _ ?l]) simp
    next
      case False
      then have ax: "a < x" "x \<le> b" using bounds [OF ab] last by auto
      then have mem: "x \<in> lost xs" using ab unfolding lost_def by (intro UN_I [of "(a, b)"]) auto
      obtain ys zs where xs: "xs = ys @ (a, b) # zs" using ab by (meson split_list)
      show ?thesis unfolding run if_not_P [OF False] eqTrueI [OF mem]
        using remove_inside_ok [of k ys a b zs ?l x, unfolded size, folded xs, OF ok ax(1,2)] .
    qed
  qed
qed

lemma rcv_remove_ok:
  assumes "loss_list k xs l" "xs \<noteq> [] \<Longrightarrow> \<bar>x - fst (hd xs)\<bar> < m_iSeqNoTH"
  shows "\<exists>xs' l'. rcv_remove now (x mod seq_circle) l = Inr (l', x \<in> lost xs) \<and> rl_size l' = rl_size l
    \<and> loss_list k xs' l' \<and> lost xs' = lost xs - {x}"
proof -
  consider "xs = []" | "xs \<noteq> []" "x < fst (hd xs)" | "xs \<noteq> []" "fst (hd xs) \<le> x" by linarith
  then show ?thesis
  proof cases
    case 1
    then show ?thesis using assms(1) loss_list_empty [OF assms(1)]
      by (intro exI [of _ xs]) (simp add: rcv_remove_def)
  next
    case 2
    then have "seqoff (fst (hd xs) mod seq_circle) (x mod seq_circle) = x - fst (hd xs)"
      using assms(2) by (intro seqoff_count) (simp add: abs_minus_commute)
    moreover have "x \<notin> lost xs" using interval_bounds [OF assms(1)] 2 by (fastforce simp: lost_def)
    moreover have "0 < rl_size l" using assms(1) by (simp add: loss_list_def)
    ultimately show ?thesis using 2 head_data [OF assms(1) 2(1)] assms(1) loss_list_empty [OF assms(1)]
      by (intro exI [of _ xs]) (simp add: rcv_remove_def Let_def)
  next
    case 3
    then show ?thesis using rcv_remove_behind [OF assms(1)] assms(2) by simp
  qed
qed

text \<open>
  What a list stands for: a set of lost counts. The window says that the counts in question are near
  enough to be compared by their numbers.
\<close>

definition stands_for :: "int set \<Rightarrow> rcv_loss_list \<Rightarrow> bool" where
  "stands_for S l \<longleftrightarrow> (\<exists>k xs. loss_list k xs l \<and> lost xs = S)"

lemma stands_forE:
  assumes "stands_for S l"
  obtains k xs where "loss_list k xs l" "lost xs = S" "xs = [] \<longleftrightarrow> S = {}" "finite S"
    "xs \<noteq> [] \<longrightarrow> fst (hd xs) = Min S"
proof -
  obtain k xs where l: "loss_list k xs l" and S: "lost xs = S" using assms by (auto simp: stands_for_def)
  have iv: "intervals xs" using l by (simp add: loss_list_def)
  have fin: "finite S" using lost_count_card [OF iv] S by simp
  have "xs = [] \<longleftrightarrow> S = {}" using S iv by (cases xs) auto
  moreover have "fst (hd xs) = Min S" if "xs \<noteq> []"
  proof (rule Min_eqI [symmetric])
    show "fst (hd xs) \<in> S" using that S iv by (cases xs) auto
    show "fst (hd xs) \<le> y" if "y \<in> S" for y
      using that S first_least [OF iv] unfolding lost_def by fastforce
  qed (rule fin)
  ultimately show ?thesis using that l S fin by blast
qed

lemma new_stands_for: "0 < sz \<Longrightarrow> sz < m_iSeqNoTH \<Longrightarrow> stands_for {} (RcvLossList_new nx pr sz t)"
  unfolding stands_for_def
  by (intro exI [of _ 0] exI [of _ "[]"]) (simp add: loss_list_def RcvLossList_new_def within_def)

lemma insert_stands_for:
  assumes "stands_for S l" "x \<le> y" "\<And>z. z \<in> S \<Longrightarrow> z < x" "y - Min (insert x S) < rl_size l"
  shows "\<exists>l'. rcv_insert now (x mod seq_circle) (y mod seq_circle) l = Inr l' \<and> stands_for (S \<union> {x..y}) l'
    \<and> rl_size l' = rl_size l"
proof -
  obtain k xs where l: "loss_list k xs l" "lost xs = S" "xs = [] \<longleftrightarrow> S = {}" "finite S"
    "xs \<noteq> [] \<longrightarrow> fst (hd xs) = Min S" by (rule stands_forE [OF assms(1)]) blast
  show ?thesis
  proof (cases "xs = []")
    case True
    with insert_into_empty [of k l x y now] l assms(2,4) show ?thesis
      by (fastforce simp: stands_for_def)
  next
    case False
    then have "Min S < x" using l assms(3) by (simp add: Min_in)
    then have "Min (insert x S) = fst (hd xs)" using l False by (simp add: min.absorb2)
    with insert_behind [OF l(1) False assms(2), of now] l assms(3,4) show ?thesis
      by (fastforce simp: stands_for_def)
  qed
qed

lemma remove_stands_for:
  assumes "stands_for S l" "S \<noteq> {} \<Longrightarrow> \<bar>x - Min S\<bar> < m_iSeqNoTH"
  shows "\<exists>l'. rcv_remove now (x mod seq_circle) l = Inr (l', x \<in> S) \<and> stands_for (S - {x}) l'
    \<and> rl_size l' = rl_size l"
proof -
  obtain k xs where "loss_list k xs l" "lost xs = S" "xs = [] \<longleftrightarrow> S = {}"
    "xs \<noteq> [] \<longrightarrow> fst (hd xs) = Min S" by (rule stands_forE [OF assms(1)]) blast
  with rcv_remove_ok [of k xs l x now] assms(2) show ?thesis by (auto simp: stands_for_def)
qed

lemma length_stands_for:
  assumes "stands_for S l"
  shows "rcv_getLossLength l = int (card S)"
proof -
  obtain k xs where "loss_list k xs l" "lost xs = S" by (rule stands_forE [OF assms]) blast
  then show ?thesis using lost_count_card [of xs] by (auto simp: loss_list_def rcv_getLossLength_def)
qed

lemma first_stands_for:
  assumes "stands_for S l"
  shows "getFirstLostSeq l = Inr (if S = {} then - 1 else Min S mod seq_circle)"
proof -
  obtain k xs where l: "loss_list k xs l" "xs = [] \<longleftrightarrow> S = {}"
    "xs \<noteq> [] \<longrightarrow> fst (hd xs) = Min S" by (rule stands_forE [OF assms]) blast
  then have "0 < rl_size l" by (simp add: loss_list_def)
  with l loss_list_empty [OF l(1)] head_data [OF l(1)] show ?thesis by (auto simp: getFirstLostSeq_def)
qed

text \<open>Removing the counts of a list, one after the other.\<close>

lemma run_stands_for:
  assumes "stands_for S l" "S \<union> set zs \<subseteq> {w..<w + m_iSeqNoTH}"
  shows "\<exists>l'. fold_res (\<lambda>l i. bind_res (rcv_remove now i l) (\<lambda>(l, _). Inr l)) l (map (\<lambda>z. z mod seq_circle) zs) = Inr l'
    \<and> stands_for (S - set zs) l'"
  using assms
proof (induction zs arbitrary: S l)
  case (Cons z zs)
  have "\<bar>z - Min S\<bar> < m_iSeqNoTH" if "S \<noteq> {}"
  proof -
    have "finite S" using Cons.prems(2) by (meson finite_atLeastLessThan_int finite_subset le_sup_iff)
    then have "Min S \<in> S" using that by (rule Min_in)
    then have "Min S \<in> {w..<w + m_iSeqNoTH}" "z \<in> {w..<w + m_iSeqNoTH}" using Cons.prems(2) by auto
    then show ?thesis by auto
  qed
  with remove_stands_for [OF Cons.prems(1), of z now] obtain l' where
    l': "rcv_remove now (z mod seq_circle) l = Inr (l', z \<in> S)" "stands_for (S - {z}) l'" by auto
  have "S - set (z # zs) = S - {z} - set zs" by auto
  with Cons.IH [OF l'(2)] Cons.prems(2) l'(1) show ?case by force
qed simp

text \<open>The numbers of a row of counts that does not wrap are a row.\<close>

lemma upto_counts:
  assumes "x mod seq_circle + d < seq_circle"
  shows "[x mod seq_circle..x mod seq_circle + d] = map (\<lambda>z. z mod seq_circle) [x..x + d]"
proof (rule nth_equalityI)
  fix i assume "i < length [x mod seq_circle..x mod seq_circle + d]"
  then have i: "int i \<le> d" by simp
  then have "x mod seq_circle + int i = (x mod seq_circle + int i) mod seq_circle"
    using assms seq_number [of x] by (intro mod_pos_pos_trivial [symmetric]) linarith+
  then show "[x mod seq_circle..x mod seq_circle + d] ! i = map (\<lambda>z. z mod seq_circle) [x..x + d] ! i"
    using i by (subst nth_map) (simp_all add: mod_simps)
qed simp

lemma remove_range_stands_for:
  assumes "stands_for S l" "x \<le> y" "S \<union> {x..y} \<subseteq> {w..<w + m_iSeqNoTH}"
  shows "y mod seq_circle = m_iMaxSeqNo \<Longrightarrow>
      rcv_remove_range now (x mod seq_circle) (y mod seq_circle) l = Inl Undefined"
    and "x mod seq_circle \<le> y mod seq_circle \<Longrightarrow> y mod seq_circle < m_iMaxSeqNo \<Longrightarrow>
      \<exists>l'. rcv_remove_range now (x mod seq_circle) (y mod seq_circle) l = Inr (l', True)
        \<and> stands_for (S - {x..y}) l'"
    and "y mod seq_circle < x mod seq_circle \<Longrightarrow>
      \<exists>l'. rcv_remove_range now (x mod seq_circle) (y mod seq_circle) l = Inr (l', True)
        \<and> stands_for (S - {z \<in> {x..y}. z mod seq_circle \<noteq> m_iMaxSeqNo}) l'"
proof -
  let ?C = seq_circle
  let ?run = "fold_res (\<lambda>l i. bind_res (rcv_remove now i l) (\<lambda>(l, _). Inr l))"
  have "x \<in> {w..<w + m_iSeqNoTH}" "y \<in> {w..<w + m_iSeqNoTH}" using assms(2,3) by auto
  then have near: "\<bar>y - x\<bar> < ?C" using seq_consts by auto
  note cases = mod_diff_cases [OF near] and nx = seq_number(1,2) [of x] and ny = seq_number(1,2) [of y]
  have max: "m_iMaxSeqNo = 2 ^ 31 - 1" by (simp add: m_iMaxSeqNo_def)
  have straight: "\<exists>l'. ?run l [x mod ?C..y mod ?C] = Inr l' \<and> stands_for (S - {x..y}) l'"
    if "x mod ?C \<le> y mod ?C"
  proof -
    have d: "y mod ?C = x mod ?C + (y - x)" using that cases near nx ny assms(2) by linarith
    then have "[x mod ?C..y mod ?C] = map (\<lambda>z. z mod ?C) [x..y]" using upto_counts [of x "y - x"] ny by simp
    then show ?thesis using run_stands_for [OF assms(1), of "[x..y]" w now] assms(3) by simp
  qed
  show "rcv_remove_range now (x mod ?C) (y mod ?C) l = Inl Undefined" if "y mod ?C = m_iMaxSeqNo"
  proof -
    have "x mod ?C \<le> y mod ?C" using that nx seq_consts(1) by linarith
    moreover from this straight obtain l' where "?run l [x mod ?C..y mod ?C] = Inr l'" by blast
    ultimately show ?thesis using that max by (simp add: rcv_remove_range_def Let_def)
  qed
  show "\<exists>l'. rcv_remove_range now (x mod ?C) (y mod ?C) l = Inr (l', True) \<and> stands_for (S - {x..y}) l'"
    if "x mod ?C \<le> y mod ?C" "y mod ?C < m_iMaxSeqNo"
    using straight that max by (fastforce simp: rcv_remove_range_def Let_def)
  show "\<exists>l'. rcv_remove_range now (x mod ?C) (y mod ?C) l = Inr (l', True)
      \<and> stands_for (S - {z \<in> {x..y}. z mod ?C \<noteq> m_iMaxSeqNo}) l'" if less: "y mod ?C < x mod ?C"
  proof -
    have d: "y mod ?C = x mod ?C + (y - x) - ?C" using less cases near nx ny assms(2) by linarith
    let ?t = "x + (?C - 1 - x mod ?C)"
    have "?t + 1 = (x div ?C + 1) * ?C" using div_mult_mod_eq [of x ?C] by (simp add: algebra_simps)
    then have t: "(?t + 1) mod ?C = 0" by (metis mod_mult_self2_is_0)
    have tx: "x \<le> ?t" "?t \<le> y" using d nx ny by linarith+
    have low: "[x mod ?C..m_iMaxSeqNo - 1] = map (\<lambda>z. z mod ?C) [x..?t - 1]"
      using upto_counts [of x "?C - 2 - x mod ?C"] unfolding seq_consts(1) by (simp add: algebra_simps)
    have "S \<union> set [x..?t - 1] \<subseteq> {w..<w + m_iSeqNoTH}" using assms(3) tx by auto
    with run_stands_for [OF assms(1), of "[x..?t - 1]" w now] obtain l1 where
      l1: "?run l [x mod ?C..m_iMaxSeqNo - 1] = Inr l1" "stands_for (S - {x..?t - 1}) l1"
      unfolding low set_upto by blast
    have e: "?t + 1 + y mod ?C = y" using d by linarith
    have high: "[0..y mod ?C] = map (\<lambda>z. z mod ?C) [?t + 1..y]"
      using upto_counts [of "?t + 1" "y mod ?C", unfolded t e] ny by simp
    have "S - {x..?t - 1} \<union> set [?t + 1..y] \<subseteq> {w..<w + m_iSeqNoTH}" using assms(3) tx by auto
    with run_stands_for [OF l1(2), of "[?t + 1..y]" w now] obtain l2 where
      l2: "?run l1 [0..y mod ?C] = Inr l2" "stands_for (S - {x..?t - 1} - {?t + 1..y}) l2"
      unfolding high set_upto by blast
    have "S - {x..?t - 1} - {?t + 1..y} = S - {z \<in> {x..y}. z mod ?C \<noteq> m_iMaxSeqNo}"
    proof -
      have "z mod ?C = m_iMaxSeqNo \<longleftrightarrow> z = ?t" if "z \<in> {x..y}" for z
      proof -
        have "?t mod ?C = m_iMaxSeqNo" using t seq_number [of ?t] incseq_count [of ?t]
          by (auto simp: incseq_def split: if_splits)
        moreover have "\<bar>z - ?t\<bar> < ?C" using that [unfolded atLeastAtMost_iff] near tx by linarith
        ultimately show ?thesis using seq_eq [of z ?t] by simp
      qed
      with tx show ?thesis by auto
    qed
    then show ?thesis using l1(1) l2 less by (simp add: rcv_remove_range_def Let_def)
  qed
qed

text \<open>A search in a range of counts finds whether one is lost.\<close>

lemma find_loop_ok:
  assumes "nodes l k p xs (- 1)" "0 < rl_size l" "intervals xs" "length xs \<le> fuel" "x \<le> y"
    and "lost xs \<union> {x..y} \<subseteq> {w..<w + m_iSeqNoTH}"
  shows "find_loop fuel (x mod seq_circle) (y mod seq_circle) l (first_slot (rl_size l) k xs (- 1))
    = Inr (lost xs \<inter> {x..y} \<noteq> {})"
  using assms(1,3,4,6)
proof (induction fuel arbitrary: xs p)
  case 0
  then show ?case by (subst find_loop.simps) simp
next
  case (Suc fuel)
  show ?case
  proof (cases xs)
    case Nil
    then show ?thesis by (subst find_loop.simps) simp
  next
    case (Cons z zs)
    obtain a b where z: "z = (a, b)" by fastforce
    let ?a = "slot (rl_size l) k a" and ?C = seq_circle
    have node: "rl_data1 l ?a = a mod ?C" "rl_data2 l ?a = (if a = b then - 1 else b mod ?C)"
      "rl_next l ?a = first_slot (rl_size l) k zs (- 1)" "nodes l k ?a zs (- 1)"
      using Suc.prems(1) Cons z by (auto simp: nodes_Cons)
    have ab: "a \<le> b" and iv: "intervals zs" using Suc.prems(2) Cons z by auto
    have "a \<in> {w..<w + m_iSeqNoTH}" "b \<in> {w..<w + m_iSeqNoTH}" "x \<in> {w..<w + m_iSeqNoTH}"
      "y \<in> {w..<w + m_iSeqNoTH}"
      using Suc.prems(4) Cons z ab assms(5) by auto
    then have near: "\<bar>a - x\<bar> < m_iSeqNoTH" "\<bar>a - y\<bar> < m_iSeqNoTH" "\<bar>b - x\<bar> < m_iSeqNoTH" by auto
    have meets: "a = x \<or> x < a \<and> a \<le> y \<or> a < x \<and> a \<noteq> b \<and> x \<le> b \<longleftrightarrow> {a..b} \<inter> {x..y} \<noteq> {}"
      using ab assms(5) by auto
    have "find_loop (Suc fuel) (x mod ?C) (y mod ?C) l ?a =
        (if a = x \<or> x < a \<and> a \<le> y \<or> a < x \<and> a \<noteq> b \<and> x \<le> b then Inr True
         else find_loop fuel (x mod ?C) (y mod ?C) l (first_slot (rl_size l) k zs (- 1)))"
      using node assms(2) near seq_number(3) [of b]
      by (subst find_loop.simps) (simp add: seqcmp_less)
    moreover have "find_loop fuel (x mod ?C) (y mod ?C) l (first_slot (rl_size l) k zs (- 1))
        = Inr (lost zs \<inter> {x..y} \<noteq> {})"
      using Suc.IH [OF node(4) iv] Suc.prems(3,4) Cons z by simp
    ultimately show ?thesis using Cons z unfolding meets by (auto simp add: Int_Un_distrib2)
  qed
qed

text \<open>An interval for every slot at most.\<close>

lemma few_nodes:
  assumes "loss_list k xs l"
  shows "length xs \<le> nat (rl_size l)"
proof -
  have "distinct (map (\<lambda>x. slot (rl_size l) k (fst x)) xs)" and n: "0 < rl_size l"
    using slots_distinct assms by (auto simp: loss_list_def)
  then have "length xs = card (set (map (\<lambda>x. slot (rl_size l) k (fst x)) xs))"
    using distinct_card [of "map (\<lambda>x. slot (rl_size l) k (fst x)) xs"] by simp
  also have "\<dots> \<le> card {0..<rl_size l}" using n by (intro card_mono) auto
  finally show ?thesis by simp
qed

lemma find_stands_for:
  assumes "stands_for S l" "x \<le> y" "S \<union> {x..y} \<subseteq> {w..<w + m_iSeqNoTH}"
  shows "rcv_find (x mod seq_circle) (y mod seq_circle) l = Inr (S \<inter> {x..y} \<noteq> {})"
proof -
  obtain k xs where l: "loss_list k xs l" "lost xs = S" by (rule stands_forE [OF assms(1)]) blast
  then have "find_loop (nat (rl_size l)) (x mod seq_circle) (y mod seq_circle) l (first_slot (rl_size l) k xs (- 1))
      = Inr (S \<inter> {x..y} \<noteq> {})"
    using find_loop_ok [of l k "- 1" xs "nat (rl_size l)" x y w] few_nodes [OF l(1)] assms(2,3)
    by (simp add: loss_list_def)
  moreover have "rl_head l = first_slot (rl_size l) k xs (- 1)" using l(1) by (cases xs) (auto simp: loss_list_def)
  ultimately show ?thesis using loss_list_empty [OF l(1)] l by (auto simp: rcv_find_def)
qed

text \<open>The report of an interval: its numbers, the first with its sign bit set, or its only number.\<close>

definition report :: "int \<times> int \<Rightarrow> int list" where
  "report = (\<lambda>(a, b). if a = b then [a mod seq_circle] else [a mod seq_circle - 2 ^ 31, b mod seq_circle])"

lemma loss_array_loop_ok:
  assumes "nodes l k p xs (- 1)" "0 < rl_size l"
  shows "\<exists>m. loss_array_loop limit l out (first_slot (rl_size l) k xs (- 1))
      = Inr (out @ concat (map report (take m xs)))
    \<and> int (length (out @ concat (map report (take m xs)))) \<le> max limit (int (length out))
    \<and> (m < length xs \<longrightarrow> limit - 1 \<le> int (length (out @ concat (map report (take m xs)))))"
  using assms(1)
proof (induction xs arbitrary: out p)
  case Nil
  then show ?case by (subst loss_array_loop.simps) simp
next
  case (Cons x xs)
  obtain a b where x: "x = (a, b)" by fastforce
  let ?a = "slot (rl_size l) k a"
  have node: "rl_data1 l ?a = a mod seq_circle" "rl_data2 l ?a = (if a = b then - 1 else b mod seq_circle)"
    "rl_next l ?a = first_slot (rl_size l) k xs (- 1)" "nodes l k ?a xs (- 1)"
    using Cons.prems x by (auto simp: nodes_Cons)
  show ?case
  proof (cases "int (length out) < limit - 1")
    case True
    obtain m where m: "loss_array_loop limit l (out @ report x) (first_slot (rl_size l) k xs (- 1))
        = Inr (out @ report x @ concat (map report (take m xs)))"
      "int (length (out @ report x @ concat (map report (take m xs)))) \<le> max limit (int (length (out @ report x)))"
      "m < length xs \<longrightarrow> limit - 1 \<le> int (length (out @ report x @ concat (map report (take m xs))))"
      using Cons.IH [OF node(4), of "out @ report x"] by auto
    have "loss_array_loop limit l out ?a = loss_array_loop limit l (out @ report x) (first_slot (rl_size l) k xs (- 1))"
      using True node assms(2) seq_number(3) [of b] x
      by (subst loss_array_loop.simps) (simp add: report_def)
    moreover have "int (length (report x)) \<le> 2" by (simp add: report_def split: prod.split)
    ultimately show ?thesis using m True x by (intro exI [of _ "Suc m"]) simp
  next
    case False
    then show ?thesis using assms(2) x
      by (intro exI [of _ 0]) (subst loss_array_loop.simps, simp)
  qed
qed

lemma getLossArray_reports:
  assumes "loss_list k xs l" "threshold \<le> sint (ucast (now - rl_time l) :: 32 word)"
  shows "\<exists>l' m. getLossArray now now' limit threshold l = Inr (l', concat (map report (take m xs)))
    \<and> stands_for (lost xs) l'
    \<and> int (length (concat (map report (take m xs)))) \<le> max limit 0
    \<and> (m < length xs \<longrightarrow> limit - 1 \<le> int (length (concat (map report (take m xs)))))"
proof -
  have head: "rl_head l = first_slot (rl_size l) k xs (- 1)" using assms(1) by (cases xs) (auto simp: loss_list_def)
  have "loss_list k xs (l\<lparr>rl_time := now'\<rparr>)" using assms(1) by simp
  then have "stands_for (lost xs) (l\<lparr>rl_time := now'\<rparr>)" unfolding stands_for_def by blast
  moreover obtain m where "loss_array_loop limit l [] (rl_head l) = Inr (concat (map report (take m xs)))"
    "int (length (concat (map report (take m xs)))) \<le> max limit 0"
    "m < length xs \<longrightarrow> limit - 1 \<le> int (length (concat (map report (take m xs))))"
    using loss_array_loop_ok [of l k "- 1" xs limit "[]"] assms(1) head by (auto simp: loss_list_def)
  ultimately show ?thesis using assms(2)
    by (intro exI [of _ "l\<lparr>rl_time := now'\<rparr>"] exI [of _ m]) (simp add: getLossArray_def)
qed

section \<open>Every run of the receiver\<close>

text \<open>
  What the receiver of a connection does with the list: it inserts the counts it found missing, all
  behind those it knows, and takes out the ones that come after all.
\<close>

datatype loss_op = Missing "64 word" int int | Arrived "64 word" int

fun loss_op_ok :: "int \<Rightarrow> int set \<Rightarrow> loss_op \<Rightarrow> bool" where
  "loss_op_ok n S (Missing t x y) \<longleftrightarrow> x \<le> y \<and> (\<forall>z \<in> S. z < x) \<and> y - Min (insert x S) < n"
| "loss_op_ok n S (Arrived t x) \<longleftrightarrow> S \<noteq> {} \<longrightarrow> \<bar>x - Min S\<bar> < m_iSeqNoTH"

fun lost_after :: "int set \<Rightarrow> loss_op \<Rightarrow> int set" where
  "lost_after S (Missing t x y) = S \<union> {x..y}"
| "lost_after S (Arrived t x) = S - {x}"

fun loss_ops_ok :: "int \<Rightarrow> int set \<Rightarrow> loss_op list \<Rightarrow> bool" where
  "loss_ops_ok n S [] \<longleftrightarrow> True"
| "loss_ops_ok n S (r # rs) \<longleftrightarrow> loss_op_ok n S r \<and> loss_ops_ok n (lost_after S r) rs"

fun loss_step :: "rcv_loss_list \<Rightarrow> loss_op \<Rightarrow> rcv_loss_list res" where
  "loss_step l (Missing t x y) = rcv_insert t (x mod seq_circle) (y mod seq_circle) l"
| "loss_step l (Arrived t x) = bind_res (rcv_remove t (x mod seq_circle) l) (\<lambda>(l, _). Inr l)"

lemma loss_steps:
  assumes "stands_for S l" "loss_ops_ok (rl_size l) S rs"
  shows "\<exists>l'. fold_res loss_step l rs = Inr l' \<and> stands_for (foldl lost_after S rs) l'"
  using assms
proof (induction rs arbitrary: S l)
  case (Cons r rs)
  have "\<exists>l'. loss_step l r = Inr l' \<and> stands_for (lost_after S r) l' \<and> rl_size l' = rl_size l"
  proof (cases r)
    case (Missing t x y)
    then show ?thesis using insert_stands_for [OF Cons.prems(1), of x y t] Cons.prems(2) by auto
  next
    case (Arrived t x)
    then show ?thesis using remove_stands_for [OF Cons.prems(1), of x t] Cons.prems(2) by auto
  qed
  with Cons.IH Cons.prems(2) show ?case by fastforce
qed simp

text \<open>The receiver's loss list is a set of lost packets: whatever intervals the receiver inserts, each
  behind those it knows and within the size of the list, and whatever packets arrive after all, no
  operation leaves the arrays or loops for ever, and at every moment the list tells how many packets
  are lost, which is the first, and whether one of a range is; the sequence numbers may wrap at any
  point of the run.
\<close>

theorem loss_list_is_a_set:
  assumes "0 < sz" "sz < m_iSeqNoTH" "loss_ops_ok sz {} rs"
  shows "\<exists>l. fold_res loss_step (RcvLossList_new next0 prior0 sz t0) rs = Inr l
    \<and> rcv_getLossLength l = int (card (foldl lost_after {} rs))
    \<and> getFirstLostSeq l
        = Inr (if foldl lost_after {} rs = {} then - 1 else Min (foldl lost_after {} rs) mod seq_circle)
    \<and> (\<forall>w x y. x \<le> y \<longrightarrow> foldl lost_after {} rs \<union> {x..y} \<subseteq> {w..<w + m_iSeqNoTH} \<longrightarrow>
        rcv_find (x mod seq_circle) (y mod seq_circle) l = Inr (foldl lost_after {} rs \<inter> {x..y} \<noteq> {}))"
proof -
  have "loss_ops_ok (rl_size (RcvLossList_new next0 prior0 sz t0)) {} rs"
    using assms(3) by (simp add: RcvLossList_new_def)
  with loss_steps [OF new_stands_for [OF assms(1,2)]] obtain l where
    "fold_res loss_step (RcvLossList_new next0 prior0 sz t0) rs = Inr l" "stands_for (foldl lost_after {} rs) l"
    by blast
  then show ?thesis
    using length_stands_for first_stands_for find_stands_for by blast
qed

text \<open>Three packets around the wrap of the numbers are lost, and the middle one arrives.\<close>

lemma loss_list_is_a_set_witness:
  "\<exists>l. fold_res loss_step (RcvLossList_new (\<lambda>_. 7) (\<lambda>_. 7) 4 0)
        [Missing 0 (2 ^ 31 - 1) (2 ^ 31 + 1), Arrived 0 (2 ^ 31)] = Inr l
    \<and> rcv_getLossLength l = 2 \<and> getFirstLostSeq l = Inr (2 ^ 31 - 1)"
proof -
  let ?rs = "[Missing 0 (2 ^ 31 - 1) (2 ^ 31 + 1), Arrived 0 (2 ^ 31)]"
  have S: "foldl lost_after {} ?rs = {2 ^ 31 - 1, 2 ^ 31 + 1}" by auto
  have "Min {2147483647..2147483649::int} = 2147483647" by (rule Min_eqI) auto
  then have "loss_ops_ok 4 {} ?rs" by (simp add: m_iSeqNoTH_def)
  then show ?thesis
    using loss_list_is_a_set [of 4 ?rs "\<lambda>_. 7" "\<lambda>_. 7" 0] unfolding S
    by (auto simp: m_iSeqNoTH_def seq_circle_def)
qed

text \<open>
  A drop request for a range removes its packets from the loss list, but for the number
  \<open>2 ^ 31 - 1\<close>: a range that wraps behind it leaves that packet lost, as the loop stops before it, and
  for a range that ends there the loop counter overflows.
\<close>

theorem remove_range_around:
  assumes "stands_for S l" "x \<le> y" "S \<union> {x..y} \<subseteq> {w..<w + m_iSeqNoTH}"
  shows "if y mod seq_circle = m_iMaxSeqNo
    then rcv_remove_range now (x mod seq_circle) (y mod seq_circle) l = Inl Undefined
    else \<exists>l'. rcv_remove_range now (x mod seq_circle) (y mod seq_circle) l = Inr (l', True)
      \<and> rcv_getLossLength l' = int (card (S - {z \<in> {x..y}. z mod seq_circle \<noteq> m_iMaxSeqNo}))
      \<and> stands_for (S - {z \<in> {x..y}. z mod seq_circle \<noteq> m_iMaxSeqNo}) l'"
proof -
  note range = remove_range_stands_for [OF assms, of now]
  have row: "{z \<in> {x..y}. z mod seq_circle \<noteq> m_iMaxSeqNo} = {x..y}"
    if "x mod seq_circle \<le> y mod seq_circle" "y mod seq_circle < m_iMaxSeqNo"
  proof -
    have "x \<in> {w..<w + m_iSeqNoTH}" "y \<in> {w..<w + m_iSeqNoTH}" using assms(2,3) by auto
    then have near: "\<bar>y - x\<bar> < seq_circle" using seq_consts by auto
    have d: "y mod seq_circle = x mod seq_circle + (y - x)"
      using that mod_diff_cases [OF near] near assms(2) seq_number [of x] seq_number [of y] by linarith
    have "z mod seq_circle \<noteq> m_iMaxSeqNo" if "z \<in> {x..y}" for z
    proof -
      have "z mod seq_circle \<in> set [x mod seq_circle..y mod seq_circle]"
        using upto_counts [of x "y - x"] d that seq_number [of y] by simp
      then show ?thesis using \<open>y mod seq_circle < m_iMaxSeqNo\<close> by simp
    qed
    then show ?thesis by auto
  qed
  have "y mod seq_circle \<le> m_iMaxSeqNo" using seq_number [of y] seq_consts(1) by simp
  then consider "y mod seq_circle = m_iMaxSeqNo" | "x mod seq_circle \<le> y mod seq_circle" "y mod seq_circle < m_iMaxSeqNo"
    | "y mod seq_circle < x mod seq_circle" "y mod seq_circle < m_iMaxSeqNo" by linarith
  then show ?thesis
  proof cases
    case 1
    then show ?thesis using range(1) by simp
  next
    case 2
    with range(2) row show ?thesis using length_stands_for by fastforce
  next
    case 3
    with range(3) show ?thesis using length_stands_for by fastforce
  qed
qed

text \<open>Two packets around the wrap are lost and dropped together; the one before the wrap stays.\<close>

lemma remove_range_around_witness:
  "\<exists>l l'. rcv_insert 0 (2 ^ 31 - 1) 0 (RcvLossList_new (\<lambda>_. 7) (\<lambda>_. 7) 4 0) = Inr l
    \<and> rcv_remove_range 0 (2 ^ 31 - 1) 0 l = Inr (l', True) \<and> rcv_getLossLength l' = 1"
proof -
  let ?x = "2 ^ 31 - 1 :: int" and ?y = "2 ^ 31 :: int" and ?new = "RcvLossList_new (\<lambda>_. 7) (\<lambda>_. 7) 4 0"
  have n: "?x mod seq_circle = 2 ^ 31 - 1" "?y mod seq_circle = 0" by (simp_all add: seq_circle_def)
  have "stands_for {} ?new" by (rule new_stands_for) (simp_all add: m_iSeqNoTH_def)
  then obtain l where l: "rcv_insert 0 (2 ^ 31 - 1) 0 ?new = Inr l" "stands_for {?x..?y} l"
    using insert_stands_for [of "{}" ?new ?x ?y 0] unfolding n by (auto simp: RcvLossList_new_def)
  have "{?x..?y} = {?x, ?y}" by auto
  then have "{?x..?y} - {z \<in> {?x..?y}. z mod seq_circle \<noteq> m_iMaxSeqNo} = {?x}"
    by (auto simp: m_iMaxSeqNo_def seq_circle_def)
  moreover have "{?x..?y} \<union> {?x..?y} \<subseteq> {?x..<?x + m_iSeqNoTH}" by (auto simp: m_iSeqNoTH_def)
  ultimately have "\<exists>l'. rcv_remove_range 0 (2 ^ 31 - 1) 0 l = Inr (l', True) \<and> rcv_getLossLength l' = 1"
    using remove_range_around [OF l(2), of ?x ?y ?x 0] unfolding n
    by (auto simp: m_iMaxSeqNo_def)
  with l(1) show ?thesis by blast
qed

end
