(* ===== verification/SndLossListNodes.thy ===== *)
theory SndLossListNodes
  imports SndLossList RcvLossListNodes "HOL-Library.Word"
begin

text \<open>
  The nodes of \<open>CSndLossList\<close>. A chain links the nodes of intervals in ascending order, which may
  overlap while an insertion joins them; \<open>snd_list\<close> says that they are disjoint again and counted.
  The lemmas give the changes of a chain the operations are made of: a new end, a new node, a node
  dropped, split or joined with the next, and the loops that search, join and clean.
\<close>

lemma snd_array_in [simp]:
  "0 \<le> i \<Longrightarrow> i < sl_size l \<Longrightarrow> sget1 i l = Inr (sl_data1 l i)"
  "0 \<le> i \<Longrightarrow> i < sl_size l \<Longrightarrow> sget2 i l = Inr (sl_data2 l i)"
  "0 \<le> i \<Longrightarrow> i < sl_size l \<Longrightarrow> sget_next i l = Inr (sl_next l i)"
  "0 \<le> i \<Longrightarrow> i < sl_size l \<Longrightarrow> sset1 i v l = Inr (l\<lparr>sl_data1 := (sl_data1 l)(i := v)\<rparr>)"
  "0 \<le> i \<Longrightarrow> i < sl_size l \<Longrightarrow> sset2 i v l = Inr (l\<lparr>sl_data2 := (sl_data2 l)(i := v)\<rparr>)"
  "0 \<le> i \<Longrightarrow> i < sl_size l \<Longrightarrow> sset_next i v l = Inr (l\<lparr>sl_next := (sl_next l)(i := v)\<rparr>)"
  by (simp_all add: sget1_def sget2_def sget_next_def sset1_def sset2_def sset_next_def array_get_def array_set_def)

section \<open>Chains of nodes\<close>

fun snodes :: "snd_loss_list \<Rightarrow> int \<Rightarrow> (int \<times> int) list \<Rightarrow> int \<Rightarrow> bool" where
  "snodes l k [] nxt = True"
| "snodes l k (x # xs) nxt \<longleftrightarrow>
     sl_data1 l (slot (sl_size l) k (fst x)) = fst x mod seq_circle \<and>
     sl_data2 l (slot (sl_size l) k (fst x)) = (if fst x = snd x then - 1 else snd x mod seq_circle) \<and>
     sl_next l (slot (sl_size l) k (fst x)) = first_slot (sl_size l) k xs nxt \<and>
     snodes l k xs nxt"

lemma snodes_append:
  "snodes l k (xs @ ys) nxt \<longleftrightarrow> snodes l k xs (first_slot (sl_size l) k ys nxt) \<and> snodes l k ys nxt"
  by (induction xs) auto

lemma snodes_frame:
  assumes "\<And>i. i \<in> slots (sl_size l) k xs \<Longrightarrow> sl_data1 l' i = sl_data1 l i \<and> sl_data2 l' i = sl_data2 l i
      \<and> sl_next l' i = sl_next l i"
    and "sl_size l' = sl_size l"
  shows "snodes l' k xs nxt \<longleftrightarrow> snodes l k xs nxt"
  using assms by (induction xs) auto

text \<open>
  A chain links the nodes of intervals in the order of their starts, which may overlap; every other
  slot is empty.
\<close>

definition chain :: "int \<Rightarrow> (int \<times> int) list \<Rightarrow> snd_loss_list \<Rightarrow> bool" where
  "chain k xs l \<longleftrightarrow>
     0 < sl_size l \<and> sl_size l < m_iSeqNoTH \<and> (\<forall>(a, b) \<in> set xs. a \<le> b) \<and>
     sorted_wrt (<) (map fst xs) \<and> within (sl_size l) xs \<and> snodes l k xs (- 1) \<and>
     sl_head l = first_slot (sl_size l) k xs (- 1) \<and>
     (sl_last l = - 1 \<or> sl_last l \<in> slots (sl_size l) k xs) \<and>
     (\<forall>i. i \<notin> slots (sl_size l) k xs \<longrightarrow> sl_data1 l i = - 1 \<and> sl_data2 l i = - 1)"

lemma chain_apart:
  assumes "within n xs" "\<forall>(a, b) \<in> set xs. a \<le> b" "(a, b) \<in> set xs" "(c, d) \<in> set xs"
  shows "\<bar>a - c\<bar> < n"
proof -
  have "a \<le> b" "c \<le> d" using assms by auto
  moreover have "d - a < n" "b - c < n" using assms(1,3,4) by (fastforce simp: within_def)+
  ultimately show ?thesis by linarith
qed

lemma chain_slot:
  assumes "chain k (ys @ (a, b) # zs) l"
  shows "slot (sl_size l) k a \<notin> slots (sl_size l) k ys" "slot (sl_size l) k a \<notin> slots (sl_size l) k zs"
    "slots (sl_size l) k ys \<inter> slots (sl_size l) k zs = {}"
proof -
  let ?n = "sl_size l"
  have *: "within ?n (ys @ (a, b) # zs)" "\<forall>(a, b) \<in> set (ys @ (a, b) # zs). a \<le> b"
    and st: "sorted_wrt (<) (map fst (ys @ (a, b) # zs))"
    using assms by (auto simp: chain_def)
  have far: "slot ?n k c = slot ?n k e \<longleftrightarrow> c = e"
    if "(c, d) \<in> set (ys @ (a, b) # zs)" "(e, f) \<in> set (ys @ (a, b) # zs)" for c d e f
    using chain_apart [OF * that] by (rule slot_eq)
  show "slot ?n k a \<notin> slots ?n k ys"
  proof
    assume "slot ?n k a \<in> slots ?n k ys"
    then obtain c d where "(c, d) \<in> set ys" "slot ?n k a = slot ?n k c" by (auto simp: slots_def)
    with far [of a b c d] st show False by (auto simp: sorted_wrt_append)
  qed
  show "slot ?n k a \<notin> slots ?n k zs"
  proof
    assume "slot ?n k a \<in> slots ?n k zs"
    then obtain c d where "(c, d) \<in> set zs" "slot ?n k a = slot ?n k c" by (auto simp: slots_def)
    with far [of a b c d] st show False by (auto simp: sorted_wrt_append)
  qed
  show "slots ?n k ys \<inter> slots ?n k zs = {}"
  proof (rule ccontr)
    assume "slots ?n k ys \<inter> slots ?n k zs \<noteq> {}"
    then obtain c d e f where "(c, d) \<in> set ys" "(e, f) \<in> set zs" "slot ?n k c = slot ?n k e"
      by (auto simp: slots_def)
    with far [of c d e f] st show False by (fastforce simp: sorted_wrt_append)
  qed
qed

text \<open>A slot no node of a chain takes.\<close>

lemma chain_free:
  assumes "within n (ys @ (x, y) # zs)" "\<forall>(a, b) \<in> set (ys @ (x, y) # zs). a \<le> b"
    and "sorted_wrt (<) (map fst (ys @ (x, y) # zs))"
  shows "slot n k x \<notin> slots n k ys" "slot n k x \<notin> slots n k zs"
  using chain_apart [OF assms(1,2), of x y] assms(3)
  by (intro slot_notin; fastforce simp: sorted_wrt_append)+

section \<open>Changes to a chain\<close>

text \<open>The node at \<open>x\<close> ends elsewhere.\<close>

lemma chain_end:
  assumes "chain k (ys @ (a, b) # zs) l" "a \<le> b'" "within (sl_size l) (ys @ (a, b') # zs)"
  shows "chain k (ys @ (a, b') # zs)
    (l\<lparr>sl_data2 := (sl_data2 l)(slot (sl_size l) k a := (if a = b' then - 1 else b' mod seq_circle))\<rparr>)" (is "chain k _ ?l")
proof -
  have "snodes ?l k ys q \<longleftrightarrow> snodes l k ys q" "snodes ?l k zs q \<longleftrightarrow> snodes l k zs q" for q
    using chain_slot [OF assms(1)] by (intro snodes_frame; auto)+
  then show ?thesis using assms by (auto simp: chain_def snodes_append)
qed

lemma chain_last:
  assumes "chain k xs l" "p = - 1 \<or> p \<in> slots (sl_size l) k xs"
  shows "chain k xs (l\<lparr>sl_last := p\<rparr>)"
proof -
  have "snodes (l\<lparr>sl_last := p\<rparr>) k xs q \<longleftrightarrow> snodes l k xs q" for q by (intro snodes_frame; simp)
  then show ?thesis using assms by (simp add: chain_def)
qed

lemma chain_length: "chain k xs (l\<lparr>sl_length := m\<rparr>) \<longleftrightarrow> chain k xs l"
proof -
  have "snodes (l\<lparr>sl_length := m\<rparr>) k xs q \<longleftrightarrow> snodes l k xs q" for q by (intro snodes_frame; simp)
  then show ?thesis by (simp add: chain_def)
qed

text \<open>A node between two others, and one before all.\<close>

lemma chain_insert:
  assumes "chain k (ys @ (a, b) # zs) l" "x \<le> y" "within (sl_size l) (ys @ (a, b) # (x, y) # zs)"
    and "sorted_wrt (<) (map fst (ys @ (a, b) # (x, y) # zs))"
  shows "chain k (ys @ (a, b) # (x, y) # zs)
    (l\<lparr>sl_data1 := (sl_data1 l)(slot (sl_size l) k x := x mod seq_circle),
       sl_data2 := (sl_data2 l)(slot (sl_size l) k x := (if x = y then - 1 else y mod seq_circle)),
       sl_next := (sl_next l)(slot (sl_size l) k x := sl_next l (slot (sl_size l) k a),
         slot (sl_size l) k a := slot (sl_size l) k x)\<rparr>)" (is "chain k ?xs ?l")
proof -
  let ?n = "sl_size l"
  have le: "\<forall>(a, b) \<in> set ?xs. a \<le> b" using assms(1,2) by (auto simp: chain_def)
  have free: "slot ?n k x \<notin> slots ?n k (ys @ [(a, b)])" "slot ?n k x \<notin> slots ?n k zs"
    by (rule chain_free [of ?n "ys @ [(a, b)]" x y zs k]; use assms le in simp)+
  note apart = chain_slot [OF assms(1)]
  have "snodes ?l k ys q \<longleftrightarrow> snodes l k ys q" "snodes ?l k zs q \<longleftrightarrow> snodes l k zs q" for q
    using free apart by (intro snodes_frame; auto)+
  moreover have "slot ?n k a \<noteq> slot ?n k x" using free by auto
  ultimately show ?thesis
    using assms(1,3,4) le free unfolding chain_def by (auto simp: snodes_append)
qed

lemma chain_insert_first:
  assumes "chain k xs l" "x \<le> y" "within (sl_size l) ((x, y) # xs)" "\<forall>(a, b) \<in> set xs. x < a"
  shows "chain k ((x, y) # xs)
    (l\<lparr>sl_data1 := (sl_data1 l)(slot (sl_size l) k x := x mod seq_circle),
       sl_data2 := (sl_data2 l)(slot (sl_size l) k x := (if x = y then - 1 else y mod seq_circle)),
       sl_next := (sl_next l)(slot (sl_size l) k x := sl_head l), sl_head := slot (sl_size l) k x\<rparr>)" (is "chain k ?xs ?l")
proof -
  let ?n = "sl_size l"
  have le: "\<forall>(a, b) \<in> set ?xs. a \<le> b" using assms(1,2) by (auto simp: chain_def)
  have st: "sorted_wrt (<) (map fst ?xs)" using assms(1,4) by (auto simp: chain_def)
  have free: "slot ?n k x \<notin> slots ?n k xs"
    using chain_free(2) [of ?n "[]" x y xs k] assms(3) le st by simp
  have "snodes ?l k xs q \<longleftrightarrow> snodes l k xs q" for q
    using free by (intro snodes_frame; auto)
  then show ?thesis using assms le st free unfolding chain_def by (auto simp: snodes_append)
qed

text \<open>The node behind another goes, and the first one.\<close>

lemma chain_drop:
  assumes "chain k (ys @ (a, b) # (c, d) # zs) l" "sl_last l \<noteq> slot (sl_size l) k c"
  shows "chain k (ys @ (a, b) # zs)
    (l\<lparr>sl_data1 := (sl_data1 l)(slot (sl_size l) k c := - 1),
       sl_data2 := (sl_data2 l)(slot (sl_size l) k c := - 1),
       sl_next := (sl_next l)(slot (sl_size l) k a := sl_next l (slot (sl_size l) k c))\<rparr>)" (is "chain k ?xs ?l")
proof -
  let ?n = "sl_size l"
  have apart: "slot ?n k a \<notin> slots ?n k ys" "slot ?n k a \<notin> slots ?n k zs" "slot ?n k a \<noteq> slot ?n k c"
    "slot ?n k c \<notin> slots ?n k ys" "slot ?n k c \<notin> slots ?n k zs"
    using chain_slot [OF assms(1)] chain_slot [of k "ys @ [(a, b)]" c d zs l] assms(1) by auto
  have "within ?n ?xs" by (rule within_subset [of ?n "ys @ (a, b) # (c, d) # zs"]) (use assms(1) in \<open>simp add: chain_def\<close>, auto)
  moreover have "snodes ?l k ys q \<longleftrightarrow> snodes l k ys q" "snodes ?l k zs q \<longleftrightarrow> snodes l k zs q" for q
    using apart by (intro snodes_frame; auto)+
  ultimately show ?thesis
    using assms apart unfolding chain_def by (auto simp: snodes_append sorted_wrt_append)
qed

lemma chain_drop_first:
  assumes "chain k ((a, b) # zs) l"
  shows "chain k zs
    (l\<lparr>sl_data1 := (sl_data1 l)(slot (sl_size l) k a := - 1),
       sl_data2 := (sl_data2 l)(slot (sl_size l) k a := - 1), sl_head := sl_next l (slot (sl_size l) k a),
       sl_last := (if sl_last l = slot (sl_size l) k a then - 1 else sl_last l)\<rparr>)" (is "chain k zs ?l")
proof -
  let ?n = "sl_size l"
  have apart: "slot ?n k a \<notin> slots ?n k zs" using chain_slot(2) [of k "[]" a b zs l] assms by simp
  have "within ?n zs" by (rule within_subset [of ?n "(a, b) # zs"]) (use assms(1) in \<open>simp add: chain_def\<close>, auto)
  moreover have "snodes ?l k zs q \<longleftrightarrow> snodes l k zs q" for q
    using apart by (intro snodes_frame; auto)
  ultimately show ?thesis using assms apart unfolding chain_def by auto
qed

section \<open>The list\<close>

definition snd_list :: "int \<Rightarrow> (int \<times> int) list \<Rightarrow> snd_loss_list \<Rightarrow> bool" where
  "snd_list k xs l \<longleftrightarrow> chain k xs l \<and> intervals xs \<and> sl_length l = lost_count xs"

lemma within_ends:
  assumes "within n xs" "fst ` set ys \<subseteq> fst ` set xs" "snd ` set ys \<subseteq> snd ` set xs"
  shows "within n ys"
proof -
  have "d - a < n" if "(a, b) \<in> set ys" "(c, d) \<in> set ys" for a b c d
  proof -
    have "a \<in> fst ` set xs" using that(1) assms(2) by (force simp: image_iff)
    then obtain b' where "(a, b') \<in> set xs" by auto
    moreover have "d \<in> snd ` set xs" using that(2) assms(3) by (force simp: image_iff)
    then obtain c' where "(c', d) \<in> set xs" by auto
    ultimately show ?thesis using assms(1) by (fastforce simp: within_def)
  qed
  then show ?thesis by (auto simp: within_def)
qed

text \<open>Two nodes of a chain are near enough to be compared.\<close>

lemma chain_near:
  assumes "chain k xs l" "(a, b) \<in> set xs" "(c, d) \<in> set xs"
  shows "d - a < sl_size l" "sl_size l < m_iSeqNoTH" "a \<le> b"
  using assms unfolding chain_def within_def by fastforce+

lemma chain_data:
  assumes "chain k xs l" "(a, b) \<in> set xs"
  shows "sl_data1 l (slot (sl_size l) k a) = a mod seq_circle"
    and "sl_data2 l (slot (sl_size l) k a) = (if a = b then - 1 else b mod seq_circle)"
proof -
  obtain ys zs where "xs = ys @ (a, b) # zs" using assms(2) by (meson split_list)
  with assms(1) show "sl_data1 l (slot (sl_size l) k a) = a mod seq_circle"
    and "sl_data2 l (slot (sl_size l) k a) = (if a = b then - 1 else b mod seq_circle)"
    by (simp_all add: chain_def snodes_append)
qed

lemma chain_next:
  assumes "chain k (ys @ (a, b) # zs) l"
  shows "sl_next l (slot (sl_size l) k a) = first_slot (sl_size l) k zs (- 1)"
  using assms by (simp add: chain_def snodes_append)

lemma chain_size: "chain k xs l \<Longrightarrow> 0 < sl_size l"
  by (simp add: chain_def)

text \<open>A node joined with the next one, which it overlaps or touches.\<close>

lemma join_ok:
  assumes "chain k (ys @ (a, b) # (c, d) # zs) l" "a < b" "c \<le> b + 1" "sl_last l = slot (sl_size l) k a"
  shows "\<exists>l'. snd_join (slot (sl_size l) k a) (slot (sl_size l) k c) l = Inr l'
    \<and> chain k (ys @ (a, max b d) # zs) l' \<and> sl_size l' = sl_size l \<and> sl_last l' = slot (sl_size l) k a
    \<and> sl_length l' = sl_length l - (min b d - c + 1)"
proof -
  let ?n = "sl_size l" and ?C = seq_circle
  let ?a = "slot ?n k a" and ?c = "slot ?n k c"
  note n = chain_size [OF assms(1)] and near = chain_near [OF assms(1)]
  have nn: "?n < m_iSeqNoTH" using near(2) [of a b c d] by simp
  have "a < c" using assms(1) by (auto simp: chain_def sorted_wrt_append)
  have cd: "c \<le> d" "d - a < ?n" "b - a < ?n" using near [of c d c d] near [of a b c d] near [of a b a b] by simp_all
  have data: "sl_data2 l ?a = b mod ?C" "sl_data1 l ?c = c mod ?C" "sl_data2 l ?c = (if c = d then - 1 else d mod ?C)"
    using chain_data [OF assms(1), of a b] chain_data [OF assms(1), of c d] assms(2) by auto
  have ac: "?a \<noteq> ?c" using chain_slot(2) [OF assms(1)] by auto
  have cmp: "0 < seqcmp (d mod ?C) (b mod ?C) \<longleftrightarrow> b < d" "0 \<le> seqcmp (b mod ?C) (c mod ?C) \<longleftrightarrow> c \<le> b"
    using cd nn assms(2,3) \<open>a < c\<close> by (auto intro!: seqcmp_less)
  have len: "c \<le> b \<Longrightarrow> seqlen (c mod ?C) (b mod ?C) = b - c + 1" "seqlen (c mod ?C) (d mod ?C) = d - c + 1"
    using cd nn seq_consts \<open>a < c\<close> by (auto intro!: seqlen_count)
  have inc: "c mod ?C = incseq (b mod ?C) \<longleftrightarrow> c = b + 1"
    using cd nn seq_consts assms(2,3) \<open>a < c\<close> by (auto simp: incseq_count seq_eq)
  let ?l = "l\<lparr>sl_data1 := (sl_data1 l)(?c := - 1), sl_data2 := (sl_data2 l)(?a := max b d mod ?C, ?c := - 1),
    sl_next := (sl_next l)(?a := sl_next l ?c), sl_length := sl_length l - (min b d - c + 1)\<rparr>"
  have "snd_join ?a ?c l = Inr ?l"
  proof -
    consider "c = d" "c = b + 1" | "c = d" "c \<le> b" | "c < d" "b < d" "c \<le> b" | "c < d" "b < d" "c = b + 1"
      | "c < d" "d \<le> b" using cd assms(3) by linarith
    then show ?thesis
    proof cases
      case 1
      then show ?thesis using n data cmp inc ac by (simp add: snd_join_def fun_upd_twist)
    next
      case 2
      then show ?thesis using n data cmp inc ac by (simp add: snd_join_def fun_upd_idem)
    next
      case 3
      then show ?thesis using n data cmp len inc ac seq_number(3) [of d] by (simp add: snd_join_def fun_upd_twist)
    next
      case 4
      then show ?thesis using n data cmp len inc ac seq_number(3) [of d] by (simp add: snd_join_def fun_upd_twist)
    next
      case 5
      then show ?thesis using n data cmp len inc ac seq_number(3) [of d] by (simp add: snd_join_def fun_upd_idem)
    qed
  qed
  moreover have "chain k (ys @ (a, max b d) # zs) ?l"
  proof -
    have wi: "within ?n (ys @ (a, b) # (c, d) # zs)" using assms(1) by (simp add: chain_def)
    have w2: "within ?n (ys @ (a, max b d) # (c, d) # zs)" by (rule within_ends [OF wi]) (auto simp: max_def)
    have m: "a \<le> max b d" "a \<noteq> max b d" using assms(2) by linarith+
    let ?e = "l\<lparr>sl_data2 := (sl_data2 l)(?a := max b d mod ?C)\<rparr>"
    have "chain k (ys @ (a, max b d) # (c, d) # zs) ?e"
      using chain_end [OF assms(1) m(1) w2] m(2) by simp
    then have "chain k (ys @ (a, max b d) # zs)
      (?e\<lparr>sl_data1 := (sl_data1 ?e)(?c := - 1), sl_data2 := (sl_data2 ?e)(?c := - 1),
        sl_next := (sl_next ?e)(?a := sl_next ?e ?c)\<rparr>)"
      using chain_drop [of k ys a "max b d" c d zs ?e] assms(4) ac by simp
    then show ?thesis using chain_length by (simp add: chain_length)
  qed
  ultimately show ?thesis using assms(4) by auto
qed

lemma coalesce_ok:
  assumes "chain k (ys @ (a, b) # zs) l" "intervals (ys @ [(a, b)])" "intervals zs"
    and "sl_last l = slot (sl_size l) k a" "sl_length l = lost_count (ys @ (a, b) # zs)" "length zs \<le> fuel"
  shows "\<exists>xs' l'. snd_coalesce fuel (slot (sl_size l) k a) l = Inr l' \<and> snd_list k xs' l'
    \<and> lost xs' = lost (ys @ (a, b) # zs) \<and> sl_size l' = sl_size l"
  using assms
proof (induction fuel arbitrary: b zs l)
  case (0 b zs l)
  then have "snd_list k (ys @ (a, b) # zs) l" "sl_next l (slot (sl_size l) k a) = - 1" "0 < sl_size l"
    using chain_next [OF 0(1)] chain_size [OF 0(1)] by (auto simp: snd_list_def)
  then show ?case by (intro exI [of _ "ys @ (a, b) # zs"]) (subst snd_coalesce.simps, simp)
next
  case (Suc fuel b zs l)
  let ?n = "sl_size l" and ?C = seq_circle
  let ?a = "slot ?n k a"
  note n = chain_size [OF Suc.prems(1)] and nx = chain_next [OF Suc.prems(1)]
  have d2: "sl_data2 l ?a = (if a = b then - 1 else b mod ?C)" using chain_data(2) [OF Suc.prems(1), of a b] by simp
  have a_le: "a \<le> b" using Suc.prems(2) by (auto simp: intervals_append)
  show ?case
  proof (cases "\<exists>c d zs'. zs = (c, d) # zs' \<and> a < b \<and> c \<le> b + 1")
    case True
    then obtain c d zs' where zs: "zs = (c, d) # zs'" and go: "a < b" "c \<le> b + 1" by blast
    obtain l' where l': "snd_join ?a (slot ?n k c) l = Inr l'" "chain k (ys @ (a, max b d) # zs') l'"
      "sl_size l' = ?n" "sl_last l' = ?a" "sl_length l' = sl_length l - (min b d - c + 1)"
      using join_ok [of k ys a b c d zs' l] Suc.prems(1,4) zs go by auto
    have ac: "a < c" "c \<le> d" using Suc.prems(1) zs by (auto simp: chain_def sorted_wrt_append)
    have near: "\<bar>c - (b + 1)\<bar> < m_iSeqNoTH"
      using chain_near [OF Suc.prems(1), of a b c d] chain_near [OF Suc.prems(1), of a b a b] zs go ac by auto
    have "snd_coalesce (Suc fuel) ?a l = snd_coalesce fuel ?a l'"
      using n nx zs go d2 seq_number(3) [of b] chain_data(1) [OF Suc.prems(1), of c d] l'(1) seqcmp_less(3) [OF near]
      by (subst snd_coalesce.simps) (simp add: incseq_count)
    moreover have "intervals (ys @ [(a, max b d)])" using Suc.prems(2) by (auto simp: intervals_append)
    moreover have "sl_length l' = lost_count (ys @ (a, max b d) # zs')" using l'(5) Suc.prems(5) zs by auto
    moreover have "lost (ys @ (a, max b d) # zs') = lost (ys @ (a, b) # zs)" using zs go ac by auto
    ultimately show ?thesis
      using Suc.IH [of "max b d" zs' l'] l' Suc.prems(3,6) zs by auto
  next
    case False
    have "intervals (ys @ (a, b) # zs)"
    proof -
      have "b < c" if cd: "(c, d) \<in> set zs" for c d
      proof -
        obtain e f zs' where zs: "zs = (e, f) # zs'" using cd by (cases zs) auto
        have "a < e" "e \<le> c" using Suc.prems(1) cd zs by (auto simp: chain_def sorted_wrt_append)
        then show ?thesis using False zs a_le by fastforce
      qed
      then show ?thesis using Suc.prems(2,3) Suc.prems(1) by (fastforce simp: intervals_append chain_def sorted_wrt_append)
    qed
    then have "snd_list k (ys @ (a, b) # zs) l" using Suc.prems by (simp add: snd_list_def)
    moreover have "snd_coalesce (Suc fuel) ?a l = Inr l"
    proof (cases zs)
      case Nil
      then show ?thesis using n nx by (subst snd_coalesce.simps) simp
    next
      case (Cons z zs')
      obtain c d where z: "z = (c, d)" by fastforce
      have ac: "a < c" "c \<le> d" using Suc.prems(1) Cons z by (auto simp: chain_def sorted_wrt_append)
      have near: "\<bar>c - (b + 1)\<bar> < m_iSeqNoTH"
        using chain_near [OF Suc.prems(1), of a b c d] chain_near [OF Suc.prems(1), of a b a b] Cons z ac a_le by auto
      show ?thesis
        using n nx Cons z False d2 chain_data(1) [OF Suc.prems(1), of c d] seqcmp_less(3) [OF near] a_le
        by (subst snd_coalesce.simps) (auto simp: incseq_count)
    qed
    ultimately show ?thesis by blast
  qed
qed

end
