(* ===== verification/SndLossListInsert.thy ===== *)
theory SndLossListInsert
  imports SndLossListNodes "HOL-Library.Word"
begin

text \<open>
  Insertion into \<open>CSndLossList\<close>, case by case: into an empty list, before the first node, at the start
  of a node, and behind one; each ends by joining the node it made or changed with the next ones.
\<close>

section \<open>Insertion\<close>

lemma chain_few:
  assumes "chain k xs l"
  shows "length xs \<le> nat (sl_size l)"
proof -
  let ?s = "\<lambda>x. slot (sl_size l) k (fst x)"
  have "distinct (map ?s xs)"
    using assms
  proof (induction xs rule: rev_induct)
    case (snoc x xs)
    obtain a b where x: "x = (a, b)" by fastforce
    have "distinct (map ?s ys)" if "chain k (ys @ (a, b) # zs) l" for ys a b zs
      using that
    proof (induction ys arbitrary: a b zs rule: rev_induct)
      case (snoc y ys)
      obtain c d where y: "y = (c, d)" by fastforce
      have "distinct (map ?s ys)" using snoc.IH [of c d "(a, b) # zs"] snoc.prems y by simp
      moreover have "slot (sl_size l) k c \<notin> slots (sl_size l) k ys"
        using chain_slot(1) [of k ys c d "(a, b) # zs" l] snoc.prems y by simp
      ultimately show ?case using y by (auto simp: slots_def)
    qed simp
    then have "distinct (map ?s xs)" using snoc.prems x by blast
    moreover have "slot (sl_size l) k a \<notin> slots (sl_size l) k xs"
      using chain_slot(1) [of k xs a b "[]" l] snoc.prems x by simp
    ultimately show ?case using x by (auto simp: slots_def)
  qed simp
  then have "length xs = card (set (map ?s xs))" using distinct_card [of "map ?s xs"] by simp
  also have "\<dots> \<le> card {0..<sl_size l}" using chain_size [OF assms] by (intro card_mono) auto
  finally show ?thesis by simp
qed

text \<open>The search finds the last node in front of a count.\<close>

lemma snd_search_ok:
  assumes "chain k (us @ (p, q) # vs) l" "p < x" "\<And>c d. (c, d) \<in> set vs \<Longrightarrow> \<bar>c - x\<bar> < m_iSeqNoTH"
    and "length vs \<le> fuel"
  shows "\<exists>ys a b zs. us @ (p, q) # vs = ys @ (a, b) # zs \<and> a < x \<and> (\<forall>(c, d) \<in> set zs. x \<le> c)
    \<and> snd_search fuel (x mod seq_circle) l (slot (sl_size l) k p) = Inr (slot (sl_size l) k a)"
  using assms
proof (induction fuel arbitrary: us p q vs)
  case 0
  then show ?case using chain_next [OF 0(1)] chain_size [OF 0(1)]
    by (intro exI [of _ us] exI [of _ p] exI [of _ q] exI [of _ "[]"]) (subst snd_search.simps, simp)
next
  case (Suc fuel)
  note n = chain_size [OF Suc.prems(1)] and nx = chain_next [OF Suc.prems(1)]
  show ?case
  proof (cases vs)
    case Nil
    then show ?thesis using nx n Suc.prems(2)
      by (intro exI [of _ us] exI [of _ p] exI [of _ q] exI [of _ "[]"]) (subst snd_search.simps, simp)
  next
    case (Cons v vs')
    obtain c d where v: "v = (c, d)" by fastforce
    have d1: "sl_data1 l (slot (sl_size l) k c) = c mod seq_circle"
      using chain_data(1) [OF Suc.prems(1), of c d] Cons v by simp
    have cmp: "seqcmp (c mod seq_circle) (x mod seq_circle) < 0 \<longleftrightarrow> c < x"
      using Suc.prems(3) [of c d] Cons v by (intro seqcmp_less) simp
    show ?thesis
    proof (cases "c < x")
      case True
      have "snd_search (Suc fuel) (x mod seq_circle) l (slot (sl_size l) k p)
          = snd_search fuel (x mod seq_circle) l (slot (sl_size l) k c)"
        using nx n Cons v d1 cmp True by (subst snd_search.simps) simp
      moreover have "chain k ((us @ [(p, q)]) @ (c, d) # vs') l" using Suc.prems(1) Cons v by simp
      ultimately show ?thesis
        using Suc.IH [of "us @ [(p, q)]" c d vs'] Suc.prems(3,4) True Cons v by fastforce
    next
      case False
      then have "\<forall>(e, f) \<in> set vs. x \<le> e"
        using Suc.prems(1) Cons v by (fastforce simp: chain_def sorted_wrt_append)
      then show ?thesis using nx n Cons v d1 cmp False Suc.prems(2)
        by (intro exI [of _ us] exI [of _ p] exI [of _ q] exI [of _ vs]) (subst snd_search.simps, simp)
    qed
  qed
qed

text \<open>Joining at the node that was made or changed ends the insertion.\<close>

lemma insert_end:
  assumes "chain k (ys @ (a, b) # zs) l" "intervals (ys @ [(a, b)])" "intervals zs"
    and "sl_last l = slot (sl_size l) k a" "sl_length l = lost_count (ys @ (a, b) # zs)"
  shows "\<exists>xs' l'. bind_res (snd_coalesce (nat (sl_size l)) (slot (sl_size l) k a) l) (\<lambda>l. Inr (l, sl_length l - m))
      = Inr (l', lost_count xs' - m)
    \<and> snd_list k xs' l' \<and> lost xs' = lost (ys @ (a, b) # zs) \<and> sl_size l' = sl_size l"
proof -
  have "length zs \<le> nat (sl_size l)" using chain_few [OF assms(1)] by simp
  with coalesce_ok [OF assms] obtain xs' l' where "snd_coalesce (nat (sl_size l)) (slot (sl_size l) k a) l = Inr l'"
    "snd_list k xs' l'" "lost xs' = lost (ys @ (a, b) # zs)" "sl_size l' = sl_size l" by blast
  then show ?thesis by (intro exI [of _ xs'] exI [of _ l']) (simp add: snd_list_def)
qed

lemma extend_eq:
  assumes "chain k (ys @ (x, b) # zs) l" "x \<le> y" "y - x < sl_size l"
  shows "snd_extend (x mod seq_circle) (y mod seq_circle) (slot (sl_size l) k x) l
    = Inr (if x < b \<and> y \<le> b then None
        else Some (l\<lparr>sl_data2 := (sl_data2 l)(slot (sl_size l) k x := (if x = y then - 1 else y mod seq_circle)),
          sl_length := sl_length l + (y - b)\<rparr>))"
proof -
  let ?C = seq_circle
  have n: "0 < sl_size l" "sl_size l < m_iSeqNoTH" and xb: "x \<le> b" "b - x < sl_size l"
    using assms(1) chain_near [OF assms(1), of x b x b] by (auto simp: chain_def)
  have d2: "sl_data2 l (slot (sl_size l) k x) = (if x = b then - 1 else b mod ?C)"
    using chain_data(2) [OF assms(1), of x b] by simp
  have eq: "y mod ?C = x mod ?C \<longleftrightarrow> y = x" using assms(2,3) n seq_consts by (intro seq_eq) linarith
  have cmp: "0 < seqcmp (y mod ?C) (b mod ?C) \<longleftrightarrow> b < y" using assms(2,3) n xb by (intro seqcmp_less) linarith
  have len: "seqlen (x mod ?C) (y mod ?C) = y - x + 1" "b \<le> y \<Longrightarrow> seqlen (b mod ?C) (y mod ?C) = y - b + 1"
    using assms(2,3) n xb seq_consts by (auto intro!: seqlen_count)
  show ?thesis
  proof (cases "x = b")
    case True
    then show ?thesis using n d2 eq len assms(2) by (auto simp: snd_extend_def fun_upd_idem)
  next
    case False
    then show ?thesis using n d2 cmp len xb seq_number(3) [of b] assms(2) by (auto simp: snd_extend_def)
  qed
qed

text \<open>Counts of a window no larger than the list.\<close>

definition windowed :: "int \<Rightarrow> int \<Rightarrow> (int \<times> int) list \<Rightarrow> bool" where
  "windowed w n xs \<longleftrightarrow> (\<forall>(a, b) \<in> set xs. w \<le> a \<and> a \<le> b \<and> b < w + n)"

lemma windowed_within:
  assumes "windowed w n xs"
  shows "within n xs"
proof -
  have "d - a < n" if "(a, b) \<in> set xs" "(c, d) \<in> set xs" for a b c d
  proof -
    have "w \<le> a" "d < w + n" using assms that by (auto simp: windowed_def)
    then show ?thesis by linarith
  qed
  then show ?thesis by (auto simp: within_def)
qed

lemma windowed_simps [simp]:
  "windowed w n []" "windowed w n ((a, b) # xs) \<longleftrightarrow> w \<le> a \<and> a \<le> b \<and> b < w + n \<and> windowed w n xs"
  "windowed w n (xs @ ys) \<longleftrightarrow> windowed w n xs \<and> windowed w n ys"
  by (auto simp: windowed_def)

lemma windowed_lost: "intervals xs \<Longrightarrow> windowed w n xs \<longleftrightarrow> lost xs \<subseteq> {w..<w + n}"
proof (induction xs)
  case (Cons x xs)
  then show ?case by (cases x) auto
qed simp

lemma snd_head:
  assumes "snd_list k xs l" "xs \<noteq> []"
  shows "sl_head l = slot (sl_size l) k (fst (hd xs))" "sl_data1 l (sl_head l) = fst (hd xs) mod seq_circle"
    "sl_length l \<noteq> 0"
proof -
  obtain a b zs where xs: "xs = (a, b) # zs" using assms(2) by (cases xs) auto
  show h: "sl_head l = slot (sl_size l) k (fst (hd xs))" using assms(1) xs by (simp add: snd_list_def chain_def)
  show "sl_data1 l (sl_head l) = fst (hd xs) mod seq_circle"
    unfolding h using assms(1) xs by (simp add: snd_list_def chain_def)
  show "sl_length l \<noteq> 0" using assms lost_count_pos [of xs] by (simp add: snd_list_def)
qed

lemma snd_loc:
  assumes "0 < n" "- n < x - f"
  shows "(slot n k f + (x - f) + n) smod n = slot n k x"
proof -
  have "(slot n k f + (x - f) + n) smod n = (slot n k f + (x - f + n)) smod n" by (simp add: algebra_simps)
  also have "\<dots> = slot n k (x + n)" using slot_move [OF assms(1), of "x - f + n" k f] assms(2) by simp
  also have "\<dots> = slot n k x" using mod_add_self2 [of "x + k" n] by (simp add: slot_def algebra_simps)
  finally show ?thesis .
qed

lemma snd_insert_empty:
  assumes "snd_list k [] l" "x \<le> y" "y - x < sl_size l"
  shows "\<exists>l'. snd_insert (x mod seq_circle) (y mod seq_circle) l = Inr (l', y - x + 1)
    \<and> snd_list (- x) [(x, y)] l' \<and> sl_size l' = sl_size l"
proof -
  have n: "0 < sl_size l" "sl_size l < m_iSeqNoTH" using assms(1) by (auto simp: snd_list_def chain_def)
  have xy: "y mod seq_circle = x mod seq_circle \<longleftrightarrow> y = x"
    and len: "seqlen (x mod seq_circle) (y mod seq_circle) = y - x + 1"
    using assms n seq_consts by (auto intro!: seq_eq seqlen_count)
  have s: "slot (sl_size l) (- x) x = 0" using n by (simp add: slot_def)
  show ?thesis
    using assms n unfolding snd_insert_def snd_new_node_def Let_def snd_list_def chain_def
    by (cases "y = x") (use len in \<open>simp_all add: xy s within_def\<close>)
qed

lemma new_node_eq:
  assumes "0 < sl_size l" "sl_size l < m_iSeqNoTH" "x \<le> y" "y - x < sl_size l"
    and "sl_data2 l (slot (sl_size l) k x) = - 1"
  shows "snd_new_node (x mod seq_circle) (y mod seq_circle) (slot (sl_size l) k x) l
    = Inr (l\<lparr>sl_data1 := (sl_data1 l)(slot (sl_size l) k x := x mod seq_circle),
        sl_data2 := (sl_data2 l)(slot (sl_size l) k x := (if x = y then - 1 else y mod seq_circle))\<rparr>)"
proof -
  have "y mod seq_circle = x mod seq_circle \<longleftrightarrow> y = x" using assms(2-4) seq_consts by (intro seq_eq) linarith
  then show ?thesis using assms(1,5) by (auto simp: snd_new_node_def fun_upd_idem)
qed

lemma snd_insert_before:
  assumes "snd_list k xs l" "xs \<noteq> []" "x \<le> y" "x < fst (hd xs)" "windowed w (sl_size l) ((x, y) # xs)"
  shows "\<exists>xs' l'. snd_insert (x mod seq_circle) (y mod seq_circle) l = Inr (l', lost_count xs' - lost_count xs)
    \<and> snd_list k xs' l' \<and> lost xs' = lost xs \<union> {x..y} \<and> sl_size l' = sl_size l"
proof -
  let ?n = "sl_size l" and ?C = seq_circle and ?f = "fst (hd xs)"
  have ch: "chain k xs l" and iv: "intervals xs" and len: "sl_length l = lost_count xs"
    using assms(1) by (auto simp: snd_list_def)
  have n: "0 < ?n" "?n < m_iSeqNoTH" using ch by (auto simp: chain_def)
  note hd = snd_head [OF assms(1,2)]
  have wi: "within ?n ((x, y) # xs)" by (rule windowed_within [OF assms(5)])
  have lt: "\<forall>(a, b) \<in> set xs. x < a" using first_least [OF iv] assms(4) by fastforce
  have near: "?f - x < ?n" "y - x < ?n" using assms(2,5) by (cases xs; auto)+
  have off: "seqoff (?f mod ?C) (x mod ?C) = x - ?f" using near n assms(4) by (intro seqoff_count) linarith
  have loc: "(sl_head l + (x - ?f) + ?n) smod ?n = slot ?n k x"
    unfolding hd(1) using near n by (intro snd_loc) linarith+
  have le: "\<forall>(a, b) \<in> set xs. a \<le> b" and st: "sorted_wrt (<) (map fst xs)" using ch by (auto simp: chain_def)
  have free: "slot ?n k x \<notin> slots ?n k xs"
    using chain_free(2) [of ?n "[]" x y xs k] wi le lt st assms(3) by (simp add: split_beta)
  then have empty: "sl_data2 l (slot ?n k x) = - 1" using ch by (simp add: chain_def)
  let ?l = "l\<lparr>sl_data1 := (sl_data1 l)(slot ?n k x := x mod ?C),
    sl_data2 := (sl_data2 l)(slot ?n k x := (if x = y then - 1 else y mod ?C)),
    sl_next := (sl_next l)(slot ?n k x := sl_head l), sl_head := slot ?n k x, sl_last := slot ?n k x,
    sl_length := sl_length l + (y - x + 1)\<rparr>"
  have "seqlen (x mod ?C) (y mod ?C) = y - x + 1" using near n seq_consts assms(3) by (intro seqlen_count) linarith+
  then have run: "snd_insert (x mod ?C) (y mod ?C) l
      = bind_res (snd_coalesce (nat ?n) (slot ?n k x) ?l) (\<lambda>l. Inr (l, sl_length l - lost_count xs))"
    using hd n off loc assms(4) len new_node_eq [OF n assms(3) near(2), of k] empty
    by (simp add: snd_insert_def Let_def)
  have "chain k ((x, y) # xs) ?l"
    using chain_last [OF chain_insert_first [OF ch assms(3) wi lt], of "slot ?n k x"]
    by (simp add: chain_length)
  from insert_end [of k "[]" x y xs ?l "lost_count xs"] this iv len assms(3) show ?thesis
    unfolding run by (auto simp: Un_commute)
qed

lemma snd_insert_at:
  assumes "snd_list k (ys @ (x, b) # zs) l" "x \<le> y" "windowed w (sl_size l) ((x, y) # ys @ (x, b) # zs)"
  shows "\<exists>xs' l'. snd_insert (x mod seq_circle) (y mod seq_circle) l
      = Inr (l', lost_count xs' - lost_count (ys @ (x, b) # zs))
    \<and> snd_list k xs' l' \<and> lost xs' = lost (ys @ (x, b) # zs) \<union> {x..y} \<and> sl_size l' = sl_size l"
proof -
  let ?n = "sl_size l" and ?C = seq_circle and ?xs = "ys @ (x, b) # zs"
  let ?x = "slot ?n k x" and ?f = "fst (hd ?xs)"
  have ch: "chain k ?xs l" and iv: "intervals ?xs" and len: "sl_length l = lost_count ?xs"
    using assms(1) by (auto simp: snd_list_def)
  have n: "0 < ?n" "?n < m_iSeqNoTH" using ch by (auto simp: chain_def)
  note hd = snd_head [OF assms(1), simplified]
  have fx: "?f \<le> x" using first_least [OF iv, of x b] by simp
  have near: "x - ?f < ?n" "y - x < ?n" using assms(3) by (cases ys; auto)+
  have off: "seqoff (?f mod ?C) (x mod ?C) = x - ?f" using near n fx by (intro seqoff_count) linarith
  have loc: "(sl_head l + (x - ?f) + ?n) smod ?n = ?x"
    unfolding hd(1) using near n fx by (intro snd_loc) linarith+
  have d1: "sl_data1 l ?x = x mod ?C" using chain_data(1) [OF ch, of x b] by simp
  have ch': "chain k ?xs (l\<lparr>sl_last := ?x\<rparr>)" by (rule chain_last [OF ch]) simp
  have xb: "x \<le> b" using iv by (simp add: intervals_append)
  have yx: "y mod ?C = x mod ?C \<longleftrightarrow> y = x" using near assms(2) n seq_consts by (intro seq_eq) linarith
  have head: "x = ?f \<Longrightarrow> sl_head l = ?x" using hd(1) by simp
  let ?e = "l\<lparr>sl_last := ?x, sl_data2 := (sl_data2 l)(?x := (if x = y then - 1 else y mod ?C)),
    sl_length := sl_length l + (y - b)\<rparr>"
  have ext: "snd_extend (x mod ?C) (y mod ?C) ?x (l\<lparr>sl_last := ?x\<rparr>)
      = Inr (if x < b \<and> y \<le> b then None else Some ?e)"
    using extend_eq [OF ch' assms(2)] near by simp
  show ?thesis
  proof (cases "x < b \<and> y \<le> b \<or> x = ?f \<and> y = x")
    case True
    then have "snd_insert (x mod ?C) (y mod ?C) l = Inr (l\<lparr>sl_last := ?x\<rparr>, 0)"
      using hd n off loc fx d1 ext yx head
      by (cases "x = ?f") (auto simp: snd_insert_def Let_def)
    moreover have "lost ?xs = lost ?xs \<union> {x..y}" using True xb by auto
    moreover have "snd_list k ?xs (l\<lparr>sl_last := ?x\<rparr>)" using ch' iv len by (simp add: snd_list_def)
    ultimately show ?thesis by (intro exI [of _ ?xs] exI [of _ "l\<lparr>sl_last := ?x\<rparr>"]) simp
  next
    case False
    then have longer: "b \<le> y" using assms(2) xb by auto
    have run: "snd_insert (x mod ?C) (y mod ?C) l
        = bind_res (snd_coalesce (nat ?n) ?x ?e) (\<lambda>l. Inr (l, sl_length l - lost_count ?xs))"
      using hd n off loc fx d1 ext yx head False len
      by (cases "x = ?f") (auto simp: snd_insert_def Let_def)
    have wi: "within ?n (ys @ (x, y) # zs)" by (rule windowed_within [of w]) (use assms(3) in simp)
    have "chain k (ys @ (x, y) # zs) ?e"
      using chain_end [OF ch' assms(2)] wi by (simp add: chain_length)
    moreover have "intervals (ys @ [(x, y)])" "intervals zs" using iv assms(2) by (auto simp: intervals_append)
    moreover have "lost (ys @ (x, y) # zs) = lost ?xs \<union> {x..y}" using xb longer by auto
    ultimately show ?thesis
      using insert_end [of k ys x y zs ?e "lost_count ?xs"] len unfolding run by auto
  qed
qed

lemma chain_start:
  assumes "chain k xs l" "\<And>c d. (c, d) \<in> set xs \<Longrightarrow> \<bar>c - x\<bar> < seq_circle"
  shows "sl_data1 l (slot (sl_size l) k x) = x mod seq_circle \<longleftrightarrow> (\<exists>b. (x, b) \<in> set xs)"
proof
  assume eq: "sl_data1 l (slot (sl_size l) k x) = x mod seq_circle"
  have "slot (sl_size l) k x \<in> slots (sl_size l) k xs"
  proof (rule ccontr)
    assume "slot (sl_size l) k x \<notin> slots (sl_size l) k xs"
    then have "sl_data1 l (slot (sl_size l) k x) = - 1" using assms(1) by (simp add: chain_def)
    with eq seq_number(3) [of x] show False by simp
  qed
  then obtain c d where cd: "(c, d) \<in> set xs" "slot (sl_size l) k x = slot (sl_size l) k c" by (auto simp: slots_def)
  then have "c mod seq_circle = x mod seq_circle" using eq chain_data(1) [OF assms(1) cd(1)] by simp
  then have "c = x" using seq_eq [OF assms(2) [OF cd(1)]] by simp
  with cd(1) show "\<exists>b. (x, b) \<in> set xs" by auto
qed (use chain_data(1) [OF assms(1)] in auto)

text \<open>Where the search of an insertion starts: at a node in front.\<close>

lemma search_start:
  assumes "chain k xs l" "\<And>c d. (c, d) \<in> set xs \<Longrightarrow> \<bar>c - x\<bar> < m_iSeqNoTH" "xs \<noteq> []" "fst (hd xs) < x"
  shows "\<exists>us p q vs. xs = us @ (p, q) # vs \<and> p < x
    \<and> (if sl_last l \<noteq> - 1
       then bind_res (sget1 (sl_last l) l)
         (\<lambda>d. Inr (if seqcmp d (x mod seq_circle) < 0 then sl_last l else sl_head l))
       else Inr (sl_head l)) = Inr (slot (sl_size l) k p)"
proof -
  let ?n = "sl_size l"
  have n: "0 < ?n" and last: "sl_last l = - 1 \<or> sl_last l \<in> slots ?n k xs" using assms(1) by (auto simp: chain_def)
  obtain f g zs where xs: "xs = (f, g) # zs" using assms(3) by (cases xs) auto
  have hd: "sl_head l = slot ?n k f" using assms(1) xs by (simp add: chain_def)
  show ?thesis
  proof (cases "\<exists>p q. (p, q) \<in> set xs \<and> sl_last l = slot ?n k p \<and> p < x")
    case True
    then obtain p q where p: "(p, q) \<in> set xs" "sl_last l = slot ?n k p" "p < x" by blast
    obtain us vs where "xs = us @ (p, q) # vs" using p(1) by (meson split_list)
    moreover have "seqcmp (p mod seq_circle) (x mod seq_circle) < 0"
      using assms(2) [OF p(1)] p(3) by (simp add: seqcmp_less)
    ultimately show ?thesis using p n chain_data(1) [OF assms(1) p(1)] by fastforce
  next
    case False
    have "\<not> seqcmp (sl_data1 l (sl_last l)) (x mod seq_circle) < 0" if m1: "sl_last l \<noteq> - 1"
    proof -
      obtain p q where p: "(p, q) \<in> set xs" "sl_last l = slot ?n k p" using last m1 by (auto simp: slots_def)
      then have "x \<le> p" using False by force
      then show ?thesis using assms(2) [OF p(1)] chain_data(1) [OF assms(1) p(1)] p(2) by (simp add: seqcmp_less)
    qed
    moreover have "sl_last l = - 1 \<or> 0 \<le> sl_last l \<and> sl_last l < ?n" using last n by (auto simp: slots_def)
    ultimately show ?thesis using xs hd assms(4)
      by (intro exI [of _ "[]"] exI [of _ f] exI [of _ g] exI [of _ zs]) auto
  qed
qed

lemma snd_insert_behind_eq:
  assumes "chain k (ys @ (a, b) # zs) l" "x \<le> y" "a < x" "\<forall>(c, d) \<in> set zs. x < c"
    and "windowed w (sl_size l) ((x, y) # ys @ (a, b) # zs)"
    and "(if sl_last l \<noteq> - 1
       then bind_res (sget1 (sl_last l) l)
         (\<lambda>d. Inr (if seqcmp d (x mod seq_circle) < 0 then sl_last l else sl_head l))
       else Inr (sl_head l)) = Inr i"
    and "snd_search (nat (sl_size l)) (x mod seq_circle) l i = Inr (slot (sl_size l) k a)"
  shows "if b < x
    then \<exists>l'. snd_insert_behind (x mod seq_circle) (y mod seq_circle) (slot (sl_size l) k x) l
        = Inr (l', Some (slot (sl_size l) k x))
      \<and> chain k (ys @ (a, b) # (x, y) # zs) l' \<and> sl_size l' = sl_size l \<and> sl_last l' = slot (sl_size l) k x
      \<and> sl_length l' = sl_length l + (y - x + 1)
    else if b < y
    then \<exists>l'. snd_insert_behind (x mod seq_circle) (y mod seq_circle) (slot (sl_size l) k x) l
        = Inr (l', Some (slot (sl_size l) k a))
      \<and> chain k (ys @ (a, y) # zs) l' \<and> sl_size l' = sl_size l \<and> sl_last l' = slot (sl_size l) k a
      \<and> sl_length l' = sl_length l + (y - b)
    else snd_insert_behind (x mod seq_circle) (y mod seq_circle) (slot (sl_size l) k x) l
      = Inr (l\<lparr>sl_last := slot (sl_size l) k a\<rparr>, None)"
proof -
  let ?n = "sl_size l" and ?C = seq_circle and ?xs = "ys @ (a, b) # zs"
  let ?x = "slot ?n k x" and ?a = "slot ?n k a"
  have n: "0 < ?n" "?n < m_iSeqNoTH" using assms(1) by (auto simp: chain_def)
  have near: "a \<le> b" "b - a < ?n" "y - x < ?n" "y - a < ?n" "x - a < ?n" "\<bar>b - x\<bar> < m_iSeqNoTH" "\<bar>b - y\<bar> < m_iSeqNoTH"
    using assms(2,3,5) n by auto
  have d2: "sl_data2 l ?a = (if a = b then - 1 else b mod ?C)" using chain_data(2) [OF assms(1), of a b] by simp
  note cmp = seqcmp_less(1) [OF near(6)] seqcmp_less(1) [OF near(7)]
  have cond: "sl_data2 l ?a = - 1 \<or> seqcmp (sl_data2 l ?a) (x mod ?C) < 0 \<longleftrightarrow> b < x"
    using d2 cmp(1) near(1) assms(3) seq_number(3) [of b] by auto
  have le: "\<forall>(c, d) \<in> set (ys @ (a, b) # (x, y) # zs). c \<le> d" using assms(1,2) by (auto simp: chain_def)
  have st: "sorted_wrt (<) (map fst (ys @ (a, b) # (x, y) # zs))"
    using assms(1,3,4) by (fastforce simp: chain_def sorted_wrt_append)
  have wi: "within ?n (ys @ (a, b) # (x, y) # zs)" "within ?n (ys @ (a, y) # zs)"
    by (rule windowed_within [of w]; use assms(3,5) in simp)+
  have free: "?x \<notin> slots ?n k ?xs"
    using chain_free [of ?n "ys @ [(a, b)]" x y zs k] wi(1) le st by simp
  have empty: "sl_data2 l ?x = - 1" using free assms(1) by (simp add: chain_def)
  have len: "seqlen (x mod ?C) (y mod ?C) = y - x + 1" "b \<le> y \<Longrightarrow> seqlen (b mod ?C) (y mod ?C) = y - b + 1"
    using near assms(2) n seq_consts by (auto intro!: seqlen_count)
  note i = assms(6,7)
  have ax: "?a \<noteq> ?x" using free by auto
  consider "b < x" | "x \<le> b" "b < y" | "x \<le> b" "y \<le> b" by linarith
  then show ?thesis
  proof cases
    case 1
    let ?l = "l\<lparr>sl_data1 := (sl_data1 l)(?x := x mod ?C),
      sl_data2 := (sl_data2 l)(?x := (if x = y then - 1 else y mod ?C)),
      sl_next := (sl_next l)(?x := sl_next l ?a, ?a := ?x), sl_last := ?x, sl_length := sl_length l + (y - x + 1)\<rparr>"
    have "snd_new_node (x mod ?C) (y mod ?C) ?x (l\<lparr>sl_last := ?x\<rparr>) = Inr (l\<lparr>sl_last := ?x,
        sl_data1 := (sl_data1 l)(?x := x mod ?C), sl_data2 := (sl_data2 l)(?x := (if x = y then - 1 else y mod ?C))\<rparr>)"
      using new_node_eq [of "l\<lparr>sl_last := ?x\<rparr>" x y k] n assms(2) near(3) empty by simp
    then have "snd_insert_behind (x mod ?C) (y mod ?C) ?x l = Inr (?l, Some ?x)"
      using i cond 1 n len ax d2 by (simp add: snd_insert_behind_def)
    moreover have "chain k (ys @ (a, b) # (x, y) # zs) ?l"
      using chain_last [OF chain_insert [OF assms(1,2) wi(1) st], of ?x] by (simp add: chain_length)
    ultimately show ?thesis using 1 by simp
  next
    case 2
    let ?l = "l\<lparr>sl_data2 := (sl_data2 l)(?a := y mod ?C), sl_last := ?a, sl_length := sl_length l + (y - b)\<rparr>"
    have "snd_insert_behind (x mod ?C) (y mod ?C) ?x l = Inr (?l, Some ?a)"
      using i cond 2 n len d2 cmp near(1) assms(3) by (simp add: snd_insert_behind_def)
    moreover have "chain k (ys @ (a, y) # zs) ?l"
      using chain_last [OF chain_end [OF assms(1) _ wi(2)], of ?a] 2 near(1) by (simp add: chain_length)
    ultimately show ?thesis using 2 by simp
  next
    case 3
    then show ?thesis using i cond n len d2 cmp near(1) assms(3) by (simp add: snd_insert_behind_def)
  qed
qed

lemma snd_insert_between:
  assumes "snd_list k xs l" "xs \<noteq> []" "x \<le> y" "fst (hd xs) < x" "\<nexists>b. (x, b) \<in> set xs"
    and "windowed w (sl_size l) ((x, y) # xs)"
  shows "\<exists>xs' l'. snd_insert (x mod seq_circle) (y mod seq_circle) l = Inr (l', lost_count xs' - lost_count xs)
    \<and> snd_list k xs' l' \<and> lost xs' = lost xs \<union> {x..y} \<and> sl_size l' = sl_size l"
proof -
  let ?n = "sl_size l" and ?C = seq_circle and ?f = "fst (hd xs)"
  let ?x = "slot ?n k x"
  have ch: "chain k xs l" and iv: "intervals xs" and len: "sl_length l = lost_count xs"
    using assms(1) by (auto simp: snd_list_def)
  have n: "0 < ?n" "?n < m_iSeqNoTH" using ch by (auto simp: chain_def)
  note hd = snd_head [OF assms(1,2)]
  have win: "w \<le> c \<and> c \<le> d \<and> d < w + ?n" if "(c, d) \<in> set xs" for c d
    using assms(6) that by (auto simp: windowed_def)
  have wx: "w \<le> x" "y < w + ?n" using assms(6) by auto
  have near: "\<bar>c - x\<bar> < m_iSeqNoTH" "\<bar>c - x\<bar> < ?C" if "(c, d) \<in> set xs" for c d
    using win [OF that] wx assms(3) n seq_consts by linarith+
  have fin: "(?f, snd (hd xs)) \<in> set xs" using assms(2) by simp
  have off: "seqoff (?f mod ?C) (x mod ?C) = x - ?f" using near(1) [OF fin] by (intro seqoff_count)
  have loc: "(sl_head l + (x - ?f) + ?n) smod ?n = ?x"
    unfolding hd(1) using assms(4) n by (intro snd_loc) linarith+
  have "sl_data1 l ?x \<noteq> x mod ?C" using chain_start [OF ch, of x] near(2) assms(5) by blast
  then have d1: "x mod ?C \<noteq> sl_data1 l ?x" by (rule not_sym)
  obtain us p q vs where start: "xs = us @ (p, q) # vs" "p < x"
    "(if sl_last l \<noteq> - 1 then bind_res (sget1 (sl_last l) l)
         (\<lambda>d. Inr (if seqcmp d (x mod ?C) < 0 then sl_last l else sl_head l)) else Inr (sl_head l)) = Inr (slot ?n k p)"
    using search_start [OF ch _ assms(2,4)] near(1) by blast
  obtain ys a b zs where found: "xs = ys @ (a, b) # zs" "a < x" "\<forall>(c, d) \<in> set zs. x \<le> c"
    "snd_search (nat ?n) (x mod ?C) l (slot ?n k p) = Inr (slot ?n k a)"
  proof -
    have "chain k (us @ (p, q) # vs) l" "length vs \<le> nat ?n" using ch chain_few [OF ch] start(1) by simp_all
    moreover have "\<bar>c - x\<bar> < m_iSeqNoTH" if "(c, d) \<in> set vs" for c d using near(1) [of c d] that start(1) by simp
    ultimately show ?thesis using that snd_search_ok [of k us p q vs l x "nat ?n"] start(1,2) by blast
  qed
  have zs: "\<forall>(c, d) \<in> set zs. x < c" using found(1,3) assms(5) by fastforce
  have ch': "chain k (ys @ (a, b) # zs) l" and win': "windowed w ?n ((x, y) # ys @ (a, b) # zs)"
    using ch assms(6) found(1) by simp_all
  note ins = snd_insert_behind_eq [OF ch' assms(3) found(2) zs win' start(3) found(4)]
  have run: "snd_insert (x mod ?C) (y mod ?C) l = bind_res (snd_insert_behind (x mod ?C) (y mod ?C) ?x l) (\<lambda>(l, at).
      case at of None \<Rightarrow> Inr (l, 0) | Some loc \<Rightarrow> bind_res (snd_coalesce (nat (sl_size l)) loc l) (\<lambda>l.
        Inr (l, sl_length l - lost_count xs)))"
    using hd n off loc d1 len assms(4) by (simp add: snd_insert_def Let_def)
  have iv': "intervals (ys @ (a, b) # zs)" using iv found(1) by simp
  have ab: "a \<le> b" using iv' by (simp add: intervals_append)
  consider "b < x" | "x \<le> b" "b < y" | "x \<le> b" "y \<le> b" by linarith
  then show ?thesis
  proof cases
    case 1
    then obtain l' where l': "snd_insert_behind (x mod ?C) (y mod ?C) ?x l = Inr (l', Some ?x)"
      "chain k ((ys @ [(a, b)]) @ (x, y) # zs) l'" "sl_size l' = ?n" "sl_last l' = ?x"
      "sl_length l' = sl_length l + (y - x + 1)" using ins by auto
    have "intervals ((ys @ [(a, b)]) @ [(x, y)])" "intervals zs"
      using iv' 1 ab assms(3) by (fastforce simp: intervals_append)+
    moreover have "lost ((ys @ [(a, b)]) @ (x, y) # zs) = lost xs \<union> {x..y}" using found(1) by auto
    ultimately show ?thesis
      using insert_end [OF l'(2)] l' len found(1) unfolding run by auto
  next
    case 2
    then obtain l' where l': "snd_insert_behind (x mod ?C) (y mod ?C) ?x l = Inr (l', Some (slot ?n k a))"
      "chain k (ys @ (a, y) # zs) l'" "sl_size l' = ?n" "sl_last l' = slot ?n k a"
      "sl_length l' = sl_length l + (y - b)" using ins by auto
    have "intervals (ys @ [(a, y)])" "intervals zs" using iv' 2 ab by (auto simp: intervals_append)
    moreover have "lost (ys @ (a, y) # zs) = lost xs \<union> {x..y}" using found(1,2) 2 ab by auto
    ultimately show ?thesis
      using insert_end [OF l'(2)] l' len found(1) unfolding run by auto
  next
    case 3
    then have "snd_insert (x mod ?C) (y mod ?C) l = Inr (l\<lparr>sl_last := slot ?n k a\<rparr>, 0)" using ins unfolding run by simp
    moreover have "lost xs = lost xs \<union> {x..y}" using found(1,2) 3 by auto
    moreover have "snd_list k xs (l\<lparr>sl_last := slot ?n k a\<rparr>)"
      using chain_last [OF ch, of "slot ?n k a"] iv len found(1) by (simp add: snd_list_def)
    ultimately show ?thesis by (intro exI [of _ xs] exI [of _ "l\<lparr>sl_last := slot ?n k a\<rparr>"]) simp
  qed
qed

lemma snd_insert_ok:
  assumes "snd_list k xs l" "xs \<noteq> []" "x \<le> y" "windowed w (sl_size l) ((x, y) # xs)"
  shows "\<exists>xs' l'. snd_insert (x mod seq_circle) (y mod seq_circle) l = Inr (l', lost_count xs' - lost_count xs)
    \<and> snd_list k xs' l' \<and> lost xs' = lost xs \<union> {x..y} \<and> sl_size l' = sl_size l"
proof -
  consider "x < fst (hd xs)" | b where "(x, b) \<in> set xs" | "fst (hd xs) < x" "\<nexists>b. (x, b) \<in> set xs"
    using assms(2) by (metis linorder_neqE_linordered_idom list.set_sel(1) prod.collapse)
  then show ?thesis
  proof cases
    case 1
    then show ?thesis using snd_insert_before [OF assms(1-3) _ assms(4)] by blast
  next
    case 2
    then obtain ys zs where "xs = ys @ (x, b) # zs" by (meson split_list)
    with snd_insert_at [of k ys x b zs l y w] assms show ?thesis by blast
  next
    case 3
    then show ?thesis using snd_insert_between [OF assms(1-3) _ _ assms(4)] by blast
  qed
qed

end
