(* ===== verification/SndLossListRemove.thy ===== *)
theory SndLossListRemove
  imports SndLossListInsert "HOL-Library.Word"
begin

text \<open>
  Removal from \<open>CSndLossList\<close>: taking out the first number, and everything up to a number, where the
  node that holds it is split and the loop that empties the nodes ends at its rest.
\<close>

lemma rest_eq:
  assumes "0 < sl_size l" "sl_size l < m_iSeqNoTH" "x < b" "b - x \<le> sl_size l" "sl_data2 l (slot (sl_size l) k (x + 1)) = - 1"
    and "sl_data2 l (slot (sl_size l) k a) = b mod seq_circle"
  shows "snd_rest (x mod seq_circle) (slot (sl_size l) k a) (slot (sl_size l) k (x + 1)) l
    = Inr (l\<lparr>sl_data1 := (sl_data1 l)(slot (sl_size l) k (x + 1) := (x + 1) mod seq_circle),
        sl_data2 := (sl_data2 l)(slot (sl_size l) k (x + 1) := (if x + 1 = b then - 1 else b mod seq_circle))\<rparr>)"
proof -
  have "0 < seqcmp (b mod seq_circle) ((x + 1) mod seq_circle) \<longleftrightarrow> x + 1 < b"
    using assms(2-4) by (intro seqcmp_less) linarith
  then show ?thesis using assms by (auto simp: snd_rest_def incseq_count fun_upd_idem)
qed

text \<open>Cleaning up to the new head leaves its nodes.\<close>

lemma clean_ok:
  assumes "chain k (ws @ zs) (l\<lparr>sl_head := slot_h\<rparr>)" "slot_h = first_slot (sl_size l) k (ws @ zs) (- 1)"
    and "sl_head l = first_slot (sl_size l) k zs (- 1)" "length ws \<le> fuel"
  shows "\<exists>l'. snd_clean fuel slot_h l = Inr l' \<and> chain k zs l' \<and> sl_size l' = sl_size l
    \<and> sl_length l' = sl_length l - lost_count ws"
  using assms
proof (induction ws arbitrary: l slot_h fuel)
  case (Nil l slot_h fuel)
  then have "slot_h = sl_head l" by simp
  with Nil(1) show ?case by (subst snd_clean.simps) simp
next
  case (Cons v ws l slot_h fuel)
  obtain a b where v: "v = (a, b)" by fastforce
  let ?n = "sl_size l" and ?C = seq_circle
  let ?a = "slot ?n k a" and ?l = "l\<lparr>sl_head := slot_h\<rparr>"
  have ch: "chain k ((a, b) # (ws @ zs)) ?l" and h: "slot_h = ?a" using Cons.prems(1,2) v by simp_all
  note n = chain_size [OF ch, simplified] and data = chain_data [OF ch, of a b, simplified]
  have ab: "a \<le> b" "b - a < ?n" "?n < m_iSeqNoTH" using chain_near [OF ch, of a b a b] by simp_all
  have nx: "sl_next l ?a = first_slot ?n k (ws @ zs) (- 1)" using chain_next [of k "[]" a b "ws @ zs" ?l] ch by simp
  have not_head: "?a \<noteq> sl_head l"
    using chain_slot(2) [of k "[]" a b "ws @ zs" ?l] ch Cons.prems(3) first_slot_in [of zs ?n k "- 1"] n
    by (cases "zs = []") auto
  obtain f where f: "fuel = Suc f" "length ws \<le> f" using Cons.prems(4) by (cases fuel) auto
  let ?m = "l\<lparr>sl_data1 := (sl_data1 l)(?a := - 1), sl_data2 := (sl_data2 l)(?a := - 1),
    sl_last := (if sl_last l = ?a then - 1 else sl_last l), sl_length := sl_length l - (b - a + 1)\<rparr>"
  have len: "seqlen (a mod ?C) (b mod ?C) = b - a + 1" using ab seq_consts by (intro seqlen_count) linarith+
  have "snd_clean fuel slot_h l = snd_clean f (sl_next l ?a) ?m"
  proof (cases "a = b")
    case True
    then have m: "?m = l\<lparr>sl_length := sl_length l - 1, sl_data1 := (sl_data1 l)(?a := - 1),
      sl_last := (if sl_last l = ?a then - 1 else sl_last l)\<rparr>" using data by (simp add: fun_upd_idem)
    show ?thesis unfolding m f(1) using n data h True not_head
      by (subst snd_clean.simps) (simp add: Let_def)
  next
    case False
    have m: "?m = l\<lparr>sl_length := sl_length l - (b - a + 1), sl_data2 := (sl_data2 l)(?a := - 1),
      sl_data1 := (sl_data1 l)(?a := - 1), sl_last := (if sl_last l = ?a then - 1 else sl_last l)\<rparr>" by simp
    show ?thesis unfolding m f(1) using n data len seq_number(3) [of b] h False not_head
      by (subst snd_clean.simps) (simp add: Let_def)
  qed
  moreover have "chain k (ws @ zs) (?m\<lparr>sl_head := sl_next l ?a\<rparr>)"
  proof -
    have m: "?m\<lparr>sl_head := sl_next l ?a\<rparr> = ?l\<lparr>sl_data1 := (sl_data1 ?l)(?a := - 1),
        sl_data2 := (sl_data2 ?l)(?a := - 1), sl_head := sl_next ?l ?a,
        sl_last := (if sl_last ?l = ?a then - 1 else sl_last ?l)\<rparr>\<lparr>sl_length := sl_length l - (b - a + 1)\<rparr>" by simp
    show ?thesis unfolding m chain_length using chain_drop_first [OF ch] by simp
  qed
  ultimately show ?case
    using Cons.IH [where l = ?m and slot_h = "sl_next l ?a" and fuel = f] f(2) nx Cons.prems(3) v by auto
qed

lemma chain_next_free:
  assumes "chain k xs l" "p \<notin> slots (sl_size l) k xs"
  shows "chain k xs (l\<lparr>sl_next := (sl_next l)(p := v)\<rparr>)"
proof -
  have "snodes (l\<lparr>sl_next := (sl_next l)(p := v)\<rparr>) k xs q \<longleftrightarrow> snodes l k xs q" for q
    using assms(2) by (intro snodes_frame; auto)
  then show ?thesis using assms(1) by (simp add: chain_def)
qed

text \<open>A node split behind \<open>x\<close>.\<close>

lemma chain_split:
  assumes "chain k (ys @ (a, b) # zs) l" "intervals (ys @ (a, b) # zs)" "a \<le> x" "x < b"
  shows "chain k (ys @ (a, x) # (x + 1, b) # zs)
    (l\<lparr>sl_data1 := (sl_data1 l)(slot (sl_size l) k (x + 1) := (x + 1) mod seq_circle),
       sl_data2 := (sl_data2 l)(slot (sl_size l) k a := (if a = x then - 1 else x mod seq_circle),
         slot (sl_size l) k (x + 1) := (if x + 1 = b then - 1 else b mod seq_circle)),
       sl_next := (sl_next l)(slot (sl_size l) k (x + 1) := sl_next l (slot (sl_size l) k a),
         slot (sl_size l) k a := slot (sl_size l) k (x + 1))\<rparr>)"
    and "slot (sl_size l) k (x + 1) \<notin> slots (sl_size l) k (ys @ (a, b) # zs)"
    and "intervals (ys @ (a, x) # (x + 1, b) # zs)"
proof -
  let ?n = "sl_size l"
  have wi: "within ?n (ys @ (a, b) # zs)" and st: "sorted_wrt (<) (map fst (ys @ (a, b) # zs))"
    and le: "\<forall>(c, d) \<in> set (ys @ (a, b) # zs). c \<le> d" using assms(1) by (auto simp: chain_def)
  let ?e = "l\<lparr>sl_data2 := (sl_data2 l)(slot ?n k a := (if a = x then - 1 else x mod seq_circle))\<rparr>"
  have "within ?n (ys @ (a, x) # zs)" by (rule within_inside [OF wi]) (use assms(4) in force)
  then have "chain k (ys @ (a, x) # zs) ?e" using chain_end [OF assms(1,3)] by simp
  moreover have "within ?n (ys @ (a, x) # (x + 1, b) # zs)"
    by (rule within_inside [OF wi]) (use assms(3,4) in force)
  moreover have "sorted_wrt (<) (map fst (ys @ (a, x) # (x + 1, b) # zs))"
    using st assms(2-4) by (fastforce simp: sorted_wrt_append intervals_append)
  ultimately have "chain k (ys @ (a, x) # (x + 1, b) # zs)
      (?e\<lparr>sl_data1 := (sl_data1 ?e)(slot (sl_size ?e) k (x + 1) := (x + 1) mod seq_circle),
       sl_data2 := (sl_data2 ?e)(slot (sl_size ?e) k (x + 1) := (if x + 1 = b then - 1 else b mod seq_circle)),
       sl_next := (sl_next ?e)(slot (sl_size ?e) k (x + 1) := sl_next ?e (slot (sl_size ?e) k a),
         slot (sl_size ?e) k a := slot (sl_size ?e) k (x + 1))\<rparr>)"
    using assms(4) by (intro chain_insert) simp_all
  then show "chain k (ys @ (a, x) # (x + 1, b) # zs)
    (l\<lparr>sl_data1 := (sl_data1 l)(slot (sl_size l) k (x + 1) := (x + 1) mod seq_circle),
       sl_data2 := (sl_data2 l)(slot (sl_size l) k a := (if a = x then - 1 else x mod seq_circle),
         slot (sl_size l) k (x + 1) := (if x + 1 = b then - 1 else b mod seq_circle)),
       sl_next := (sl_next l)(slot (sl_size l) k (x + 1) := sl_next l (slot (sl_size l) k a),
         slot (sl_size l) k a := slot (sl_size l) k (x + 1))\<rparr>)" by simp
  show "slot ?n k (x + 1) \<notin> slots ?n k (ys @ (a, b) # zs)" by (rule next_slot_free [OF assms(2) wi assms(3,4)])
  show "intervals (ys @ (a, x) # (x + 1, b) # zs)" using assms(2-4) by (auto simp: intervals_append)
qed

text \<open>The first number of a list goes.\<close>

lemma pop_single:
  assumes "snd_list k ((x, x) # zs) l"
  shows "snd_list k zs (l\<lparr>sl_data1 := (sl_data1 l)(slot (sl_size l) k x := - 1),
      sl_head := sl_next l (slot (sl_size l) k x),
      sl_last := (if sl_last l = slot (sl_size l) k x then - 1 else sl_last l), sl_length := sl_length l - 1\<rparr>)"
proof -
  have ch: "chain k ((x, x) # zs) l" and iv: "intervals ((x, x) # zs)" and len: "sl_length l = lost_count ((x, x) # zs)"
    using assms by (auto simp: snd_list_def)
  have "sl_data2 l (slot (sl_size l) k x) = - 1" using chain_data(2) [OF ch, of x x] by simp
  then have d2: "(sl_data2 l)(slot (sl_size l) k x := - 1) = sl_data2 l" by (simp add: fun_upd_idem)
  show ?thesis using chain_drop_first [OF ch, unfolded d2] iv len by (simp add: snd_list_def chain_length)
qed

lemma pop_first:
  assumes "snd_list k ((x, b) # zs) l" "x < b"
  shows "snd_list k ((x + 1, b) # zs)
    (l\<lparr>sl_data1 := (sl_data1 l)(slot (sl_size l) k (x + 1) := (x + 1) mod seq_circle, slot (sl_size l) k x := - 1),
       sl_data2 := (sl_data2 l)(slot (sl_size l) k (x + 1) := (if x + 1 = b then - 1 else b mod seq_circle),
         slot (sl_size l) k x := - 1),
       sl_next := (sl_next l)(slot (sl_size l) k (x + 1) := sl_next l (slot (sl_size l) k x)),
       sl_head := slot (sl_size l) k (x + 1),
       sl_last := (if sl_last l = slot (sl_size l) k x then - 1 else sl_last l), sl_length := sl_length l - 1\<rparr>)"
    (is "snd_list k _ ?l")
proof -
  let ?x = "slot (sl_size l) k x" and ?y = "slot (sl_size l) k (x + 1)"
  have ch: "chain k ([] @ (x, b) # zs) l" and iv: "intervals ([] @ (x, b) # zs)"
    and len: "sl_length l = lost_count ((x, b) # zs)"
    using assms by (auto simp: snd_list_def)
  note split = chain_split [OF ch iv order_refl assms(2)]
  have xy: "?x \<noteq> ?y" using split(2) by auto
  let ?s = "l\<lparr>sl_data1 := (sl_data1 l)(?y := (x + 1) mod seq_circle),
    sl_data2 := (sl_data2 l)(?x := - 1, ?y := (if x + 1 = b then - 1 else b mod seq_circle)),
    sl_next := (sl_next l)(?y := sl_next l ?x, ?x := ?y)\<rparr>"
  let ?d = "?s\<lparr>sl_data1 := (sl_data1 ?s)(?x := - 1), sl_data2 := (sl_data2 ?s)(?x := - 1),
    sl_head := sl_next ?s ?x, sl_last := (if sl_last ?s = ?x then - 1 else sl_last ?s)\<rparr>"
  have "chain k ((x, x) # (x + 1, b) # zs) ?s" using split(1) by simp
  from chain_drop_first [OF this] have ch1: "chain k ((x + 1, b) # zs) ?d" by simp
  have "?x \<notin> slots (sl_size ?d) k ((x + 1, b) # zs)" using chain_slot(2) [OF ch] xy by simp
  then have "chain k ((x + 1, b) # zs)
      (?d\<lparr>sl_next := (sl_next ?d)(?x := sl_next l ?x)\<rparr>\<lparr>sl_length := sl_length l - 1\<rparr>)"
    unfolding chain_length by (rule chain_next_free [OF ch1])
  also have "?d\<lparr>sl_next := (sl_next ?d)(?x := sl_next l ?x)\<rparr>\<lparr>sl_length := sl_length l - 1\<rparr> = ?l"
    using xy by (simp add: fun_eq_iff)
  finally show ?thesis using split(3) len by (simp add: snd_list_def)
qed

lemma snd_remove_head_ok:
  assumes "snd_list k ((x, b) # zs) l"
  shows "\<exists>xs' l'. snd_remove_head (x mod seq_circle) (slot (sl_size l) k x) l = Inr l' \<and> snd_list k xs' l'
    \<and> lost xs' = lost ((x, b) # zs) - {x} \<and> sl_size l' = sl_size l"
    and "\<exists>xs' l'. getLostSeq l = Inr (l', x mod seq_circle) \<and> snd_list k xs' l'
    \<and> lost xs' = lost ((x, b) # zs) - {x} \<and> sl_size l' = sl_size l"
proof -
  let ?n = "sl_size l" and ?C = seq_circle
  let ?x = "slot ?n k x" and ?y = "slot ?n k (x + 1)"
  have ch: "chain k ((x, b) # zs) l" and iv: "intervals ((x, b) # zs)" using assms by (auto simp: snd_list_def)
  have n: "0 < ?n" "?n < m_iSeqNoTH" using ch by (auto simp: chain_def)
  note data = chain_data [OF ch, of x b, simplified]
  have xb: "x \<le> b" "b - x < ?n" using chain_near [OF ch, of x b x b] by simp_all
  note hd = snd_head [OF assms, simplified]
  have loc: "(?x + 1) smod ?n = ?y" using slot_move [of ?n 1 k x] n by simp
  have others: "x \<notin> lost zs" using iv xb by (fastforce simp: lost_def)
  let ?p = "l\<lparr>sl_data1 := (sl_data1 l)(?x := - 1), sl_head := sl_next l ?x,
    sl_last := (if sl_last l = ?x then - 1 else sl_last l), sl_length := sl_length l - 1\<rparr>"
  let ?q = "l\<lparr>sl_data1 := (sl_data1 l)(?y := (x + 1) mod ?C, ?x := - 1),
    sl_data2 := (sl_data2 l)(?y := (if x + 1 = b then - 1 else b mod ?C), ?x := - 1),
    sl_next := (sl_next l)(?y := sl_next l ?x), sl_head := ?y,
    sl_last := (if sl_last l = ?x then - 1 else sl_last l), sl_length := sl_length l - 1\<rparr>"
  have single: "snd_remove_head (x mod ?C) ?x l = Inr ?p" "getLostSeq l = Inr (?p, x mod ?C)" if "x = b"
    using n data hd that by (simp_all add: snd_remove_head_def getLostSeq_def Let_def)
  have more: "snd_remove_head (x mod ?C) ?x l = Inr ?q" "getLostSeq l = Inr (?q, x mod ?C)" if "x < b"
  proof -
    have free: "?y \<notin> slots ?n k ([] @ (x, b) # zs)" using chain_split(2) [of k "[]" x b zs l x] ch iv that by simp
    then have d2: "sl_data2 l ?y = - 1" and xy: "?x \<noteq> ?y" using ch by (auto simp: chain_def)
    have rest: "snd_rest (x mod ?C) ?x ?y m = Inr (m\<lparr>sl_data1 := (sl_data1 m)(?y := (x + 1) mod ?C),
        sl_data2 := (sl_data2 m)(?y := (if x + 1 = b then - 1 else b mod ?C))\<rparr>)"
      if "sl_size m = ?n" "sl_data2 m = sl_data2 l" for m
      using rest_eq [of m x b k x] n xb d2 data that \<open>x < b\<close> by simp
    show "snd_remove_head (x mod ?C) ?x l = Inr ?q" "getLostSeq l = Inr (?q, x mod ?C)"
      using n data hd that loc rest xy seq_number(3) [of b]
      by (simp_all add: snd_remove_head_def getLostSeq_def Let_def)
  qed
  consider "x = b" "snd_list k zs ?p" | "x < b" "snd_list k ((x + 1, b) # zs) ?q"
    using pop_single [of k x zs l] pop_first [of k x b zs l] assms xb(1) by (cases "x = b") auto
  then have "(\<exists>xs' l'. snd_remove_head (x mod ?C) ?x l = Inr l' \<and> snd_list k xs' l'
      \<and> lost xs' = lost ((x, b) # zs) - {x} \<and> sl_size l' = ?n)
    \<and> (\<exists>xs' l'. getLostSeq l = Inr (l', x mod ?C) \<and> snd_list k xs' l'
      \<and> lost xs' = lost ((x, b) # zs) - {x} \<and> sl_size l' = ?n)"
  proof cases
    case 1
    have e: "lost zs = lost ((x, b) # zs) - {x}" "sl_size ?p = ?n" using 1(1) others by auto
    then show ?thesis using single [OF 1(1)] 1(2) by blast
  next
    case 2
    have "lost ((x + 1, b) # zs) = lost ((x, b) # zs) - {x}" "sl_size ?q = ?n" using 2(1) others by auto
    then show ?thesis using more [OF 2(1)] 2(2) by blast
  qed
  then show "\<exists>xs' l'. snd_remove_head (x mod ?C) ?x l = Inr l' \<and> snd_list k xs' l'
    \<and> lost xs' = lost ((x, b) # zs) - {x} \<and> sl_size l' = ?n"
    "\<exists>xs' l'. getLostSeq l = Inr (l', x mod ?C) \<and> snd_list k xs' l'
    \<and> lost xs' = lost ((x, b) # zs) - {x} \<and> sl_size l' = ?n" by blast+
qed

lemma cut_front:
  assumes "chain k (ws @ zs) l" "intervals zs" "sl_length l = lost_count (ws @ zs)"
  shows "\<exists>l'. snd_clean (nat (sl_size l)) (sl_head l) (l\<lparr>sl_head := first_slot (sl_size l) k zs (- 1)\<rparr>) = Inr l'
    \<and> snd_list k zs l' \<and> sl_size l' = sl_size l"
proof -
  let ?l = "l\<lparr>sl_head := first_slot (sl_size l) k zs (- 1)\<rparr>"
  have "chain k (ws @ zs) (?l\<lparr>sl_head := sl_head l\<rparr>)" using assms(1) by simp
  moreover have "sl_head l = first_slot (sl_size ?l) k (ws @ zs) (- 1)" using assms(1) by (simp add: chain_def)
  moreover have "length ws \<le> nat (sl_size l)" using chain_few [OF assms(1)] by simp
  ultimately show ?thesis using clean_ok [where k = k and ws = ws and zs = zs and l = ?l and slot_h = "sl_head l" and fuel = "nat (sl_size l)"] assms(2,3)
    by (auto simp: snd_list_def)
qed

text \<open>Behind a split node the rest of it becomes the head.\<close>

lemma cut_split:
  assumes "snd_list k (ys @ (a, b) # zs) l" "a \<le> x" "x < b"
  shows "\<exists>l'. snd_clean (nat (sl_size l)) (sl_head l)
      (l\<lparr>sl_data1 := (sl_data1 l)(slot (sl_size l) k (x + 1) := (x + 1) mod seq_circle),
       sl_data2 := (sl_data2 l)(slot (sl_size l) k (x + 1) := (if x + 1 = b then - 1 else b mod seq_circle),
         slot (sl_size l) k a := (if a = x then - 1 else x mod seq_circle)),
       sl_next := (sl_next l)(slot (sl_size l) k (x + 1) := sl_next l (slot (sl_size l) k a),
         slot (sl_size l) k a := slot (sl_size l) k (x + 1)),
       sl_head := slot (sl_size l) k (x + 1)\<rparr>) = Inr l'
    \<and> snd_list k ((x + 1, b) # zs) l' \<and> sl_size l' = sl_size l"
proof -
  let ?n = "sl_size l"
  let ?y = "slot ?n k (x + 1)" and ?a = "slot ?n k a"
  have ch: "chain k (ys @ (a, b) # zs) l" and iv: "intervals (ys @ (a, b) # zs)"
    and len: "sl_length l = lost_count (ys @ (a, b) # zs)"
    using assms(1) by (auto simp: snd_list_def)
  note split = chain_split [OF ch iv assms(2,3)]
  let ?s = "l\<lparr>sl_data1 := (sl_data1 l)(?y := (x + 1) mod seq_circle),
    sl_data2 := (sl_data2 l)(?a := (if a = x then - 1 else x mod seq_circle),
      ?y := (if x + 1 = b then - 1 else b mod seq_circle)),
    sl_next := (sl_next l)(?y := sl_next l ?a, ?a := ?y)\<rparr>"
  have ya: "?y \<noteq> ?a" using split(2) by auto
  have "chain k ((ys @ [(a, x)]) @ (x + 1, b) # zs) ?s" using split(1) by simp
  moreover have "intervals ((x + 1, b) # zs)" using split(3) by (simp add: intervals_append)
  moreover have "sl_length ?s = lost_count ((ys @ [(a, x)]) @ (x + 1, b) # zs)" using len by simp
  ultimately obtain l' where "snd_clean (nat ?n) (sl_head l)
      (?s\<lparr>sl_head := first_slot ?n k ((x + 1, b) # zs) (- 1)\<rparr>) = Inr l'"
    "snd_list k ((x + 1, b) # zs) l'" "sl_size l' = ?n"
    using cut_front [of k "ys @ [(a, x)]" "(x + 1, b) # zs" ?s] by auto
  moreover have "?s\<lparr>sl_head := first_slot ?n k ((x + 1, b) # zs) (- 1)\<rparr>
      = l\<lparr>sl_data1 := (sl_data1 l)(?y := (x + 1) mod seq_circle),
       sl_data2 := (sl_data2 l)(?y := (if x + 1 = b then - 1 else b mod seq_circle),
         ?a := (if a = x then - 1 else x mod seq_circle)),
       sl_next := (sl_next l)(?y := sl_next l ?a, ?a := ?y), sl_head := ?y\<rparr>"
    using ya by (simp add: fun_upd_twist [of ?y ?a])
  ultimately show ?thesis by auto
qed

lemma cut_whole:
  assumes "snd_list k (ys @ (a, b) # zs) l"
  shows "\<exists>l'. snd_clean (nat (sl_size l)) (sl_head l) (l\<lparr>sl_head := sl_next l (slot (sl_size l) k a)\<rparr>) = Inr l'
    \<and> snd_list k zs l' \<and> sl_size l' = sl_size l"
proof -
  have "chain k ((ys @ [(a, b)]) @ zs) l" "intervals zs" "sl_length l = lost_count ((ys @ [(a, b)]) @ zs)"
    and ch: "chain k (ys @ (a, b) # zs) l"
    using assms by (auto simp: snd_list_def intervals_append)
  from cut_front [OF this(1-3)] show ?thesis using chain_next [OF ch] by simp
qed

text \<open>Updates in one order.\<close>

lemma snd_update_order:
  "l\<lparr>sl_head := h, sl_next := q\<rparr> = l\<lparr>sl_next := q, sl_head := h\<rparr>"
  "l\<lparr>sl_head := h, sl_data2 := d\<rparr> = l\<lparr>sl_data2 := d, sl_head := h\<rparr>"
  "l\<lparr>sl_next := q, sl_data2 := d\<rparr> = l\<lparr>sl_data2 := d, sl_next := q\<rparr>"
  by simp_all

lemma snd_remove_behind:
  assumes "snd_list k xs l" "xs \<noteq> []" "fst (hd xs) < x" "x - fst (hd xs) < m_iSeqNoTH"
  shows "\<exists>xs' l'. snd_remove (x mod seq_circle) l = Inr l' \<and> snd_list k xs' l'
    \<and> lost xs' = {z \<in> lost xs. x < z} \<and> sl_size l' = sl_size l"
proof -
  let ?n = "sl_size l" and ?C = seq_circle and ?f = "fst (hd xs)"
  let ?x = "slot ?n k x" and ?y = "slot ?n k (x + 1)"
  have ch: "chain k xs l" and iv: "intervals xs" using assms(1) by (auto simp: snd_list_def)
  have n: "0 < ?n" "?n < m_iSeqNoTH" using ch by (auto simp: chain_def)
  note hd = snd_head [OF assms(1,2)]
  have fin: "(?f, snd (hd xs)) \<in> set xs" using assms(2) by simp
  have bounds: "?f \<le> c" "c \<le> d" "d - ?f < ?n" "d - c < ?n" if "(c, d) \<in> set xs" for c d
    using first_least [OF iv that] chain_near [OF ch fin that] chain_near [OF ch that that] by auto
  have near: "\<bar>c - x\<bar> < m_iSeqNoTH" "\<bar>c - x\<bar> < ?C" if "(c, d) \<in> set xs" for c d
    using bounds [OF that] assms(3,4) n seq_consts by linarith+
  have off: "seqoff (?f mod ?C) (x mod ?C) = x - ?f" using near(1) [OF fin] by (intro seqoff_count)
  have loc: "(sl_head l + (x - ?f) + ?n) smod ?n = ?x"
    unfolding hd(1) using assms(3) n by (intro snd_loc) linarith+
  have loc1: "(?x + 1) smod ?n = ?y" using slot_move [of ?n 1 k x] n by simp
  show ?thesis
  proof (cases "\<exists>b. (x, b) \<in> set xs")
    case True
    then obtain b ys zs where xs: "xs = ys @ (x, b) # zs" by (meson split_list)
    have ch': "chain k (ys @ (x, b) # zs) l" and sl: "snd_list k (ys @ (x, b) # zs) l" and iv': "intervals (ys @ (x, b) # zs)"
      using ch assms(1) iv xs by simp_all
    note data = chain_data [OF ch', of x b, simplified]
    have xb: "x \<le> b" "b - x < ?n" using bounds [of x b] xs by simp_all
    show ?thesis
    proof (cases "x = b")
      case True
      have "snd_remove (x mod ?C) l = snd_clean (nat ?n) (sl_head l) (l\<lparr>sl_head := sl_next l ?x\<rparr>)"
        using hd off loc n assms(3) data True by (simp add: snd_remove_def Let_def snd_update_order)
      moreover have "lost zs = {z \<in> lost xs. x < z}" using iv' xs True by (fastforce simp: lost_def intervals_append)
      ultimately show ?thesis using cut_whole [OF sl] by auto
    next
      case False
      then have less: "x < b" using xb by simp
      have d2: "sl_data2 l ?y = - 1" and xy: "?x \<noteq> ?y"
        using chain_split(2) [OF ch' iv' order_refl less] ch' by (auto simp: chain_def)
      have "snd_remove (x mod ?C) l = snd_clean (nat ?n) (sl_head l)
        (l\<lparr>sl_data1 := (sl_data1 l)(?y := (x + 1) mod seq_circle),
         sl_data2 := (sl_data2 l)(?y := (if x + 1 = b then - 1 else b mod ?C), ?x := (if x = x then - 1 else x mod ?C)),
         sl_next := (sl_next l)(?y := sl_next l ?x, ?x := ?y), sl_head := ?y\<rparr>)"
        using hd off loc loc1 n assms(3) data less xy rest_eq [OF n less _ d2, of x] xb(2) seq_number(3) [of b]
        by (simp add: snd_remove_def Let_def snd_update_order)
      moreover have "lost ((x + 1, b) # zs) = {z \<in> lost xs. x < z}"
        using iv' xs less by (fastforce simp: lost_def intervals_append)
      ultimately show ?thesis using cut_split [OF sl order_refl less] by metis
    qed
  next
    case False
    obtain zs0 where xs0: "xs = (?f, snd (hd xs)) # zs0" using assms(2) by (cases xs) auto
    have d1: "x mod ?C \<noteq> sl_data1 l ?x"
    proof
      assume "x mod ?C = sl_data1 l ?x"
      then show False using chain_start [OF ch, of x] near(2) False by metis
    qed
    obtain ys a b zs where found: "xs = ys @ (a, b) # zs" "a < x" "\<forall>(c, d) \<in> set zs. x \<le> c"
      "snd_search (nat ?n) (x mod ?C) l (sl_head l) = Inr (slot ?n k a)"
    proof -
      have "chain k ([] @ (?f, snd (hd xs)) # zs0) l" "length zs0 \<le> nat ?n"
        using ch chain_few [OF ch] xs0 by (simp, metis Suc_leD length_Cons)
      moreover have "\<bar>c - x\<bar> < m_iSeqNoTH" if "(c, d) \<in> set zs0" for c d
        using near(1) [of c d] that xs0 by (metis list.set_intros(2))
      ultimately show ?thesis using that snd_search_ok [of k "[]" ?f "snd (hd xs)" zs0 l x "nat ?n"] assms(3) xs0 hd(1)
        by (metis append_Nil)
    qed
    let ?a = "slot ?n k a"
    have ch': "chain k (ys @ (a, b) # zs) l" and sl: "snd_list k (ys @ (a, b) # zs) l" and iv': "intervals (ys @ (a, b) # zs)"
      using ch assms(1) iv found(1) by simp_all
    have zs: "\<forall>(c, d) \<in> set zs. x < c" using found(1,3) False by fastforce
    have ab: "a \<le> b" "b - a < ?n" using bounds [of a b] found(1) by simp_all
    have d2: "sl_data2 l ?a = (if a = b then - 1 else b mod ?C)" using chain_data(2) [OF ch', of a b] by simp
    have "\<bar>b - x\<bar> < m_iSeqNoTH" using bounds [of a b] found(1) assms(3,4) n by auto
    then have cmp: "0 < seqcmp (b mod ?C) (x mod ?C) \<longleftrightarrow> x < b" by (rule seqcmp_less)
    show ?thesis
    proof (cases "x < b")
      case True
      have e2: "sl_data2 l ?y = - 1" and ay: "?a \<noteq> ?y"
        using chain_split(2) [OF ch' iv' less_imp_le [OF found(2)] True] ch' by (auto simp: chain_def)
      have "snd_remove (x mod ?C) l = snd_clean (nat ?n) (sl_head l)
        (l\<lparr>sl_data1 := (sl_data1 l)(?y := (x + 1) mod seq_circle),
         sl_data2 := (sl_data2 l)(?y := (if x + 1 = b then - 1 else b mod ?C), ?a := (if a = x then - 1 else x mod ?C)),
         sl_next := (sl_next l)(?y := sl_next l ?a, ?a := ?y), sl_head := ?y\<rparr>)"
        using hd off loc loc1 n assms(3) d1 d2 found(2,4) cmp True ay rest_eq [OF n True _ e2, of a] ab(2) seq_number(3) [of b]
        by (simp add: snd_remove_def Let_def snd_update_order)
      moreover have "lost ((x + 1, b) # zs) = {z \<in> lost xs. x < z}"
        using iv' found(1,2) zs True by (fastforce simp: lost_def intervals_append)
      ultimately show ?thesis using cut_split [OF sl less_imp_le [OF found(2)] True] by metis
    next
      case False
      have "snd_remove (x mod ?C) l = snd_clean (nat ?n) (sl_head l) (l\<lparr>sl_head := sl_next l ?a\<rparr>)"
        using hd off loc loc1 n assms(3) d1 d2 found(4) cmp False by (auto simp: snd_remove_def Let_def)
      moreover have "lost zs = {z \<in> lost xs. x < z}"
        using iv' found(1,2) zs False ab by (fastforce simp: lost_def intervals_append)
      ultimately show ?thesis using cut_whole [OF sl] by auto
    qed
  qed
qed

end
