(* ===== verification/SndLossListProperties.thy ===== *)
theory SndLossListProperties
  imports SndLossListRemove "HOL-Library.Word"
begin

text \<open>
  \<open>CSndLossList\<close> refines a set of packets to send again: its operations on sets, and what they make
  of every run of the sender.
\<close>

section \<open>Every run of the sender\<close>

definition snd_stands_for :: "int set \<Rightarrow> snd_loss_list \<Rightarrow> bool" where
  "snd_stands_for S l \<longleftrightarrow> (\<exists>k xs. snd_list k xs l \<and> lost xs = S)"

lemma snd_stands_forE:
  assumes "snd_stands_for S l"
  obtains k xs where "snd_list k xs l" "lost xs = S" "xs = [] \<longleftrightarrow> S = {}" "finite S"
    "xs \<noteq> [] \<longrightarrow> fst (hd xs) = Min S" "lost_count xs = int (card S)"
proof -
  obtain k xs where l: "snd_list k xs l" and S: "lost xs = S" using assms by (auto simp: snd_stands_for_def)
  have iv: "intervals xs" using l by (simp add: snd_list_def)
  have fin: "finite S" "lost_count xs = int (card S)" using lost_count_card [OF iv] S by auto
  have "xs = [] \<longleftrightarrow> S = {}" using S iv by (cases xs) auto
  moreover have "fst (hd xs) = Min S" if "xs \<noteq> []"
  proof (rule Min_eqI [symmetric])
    show "fst (hd xs) \<in> S" using that S iv by (cases xs) auto
    show "fst (hd xs) \<le> y" if "y \<in> S" for y
      using that S first_least [OF iv] unfolding lost_def by fastforce
  qed (rule fin(1))
  ultimately show ?thesis using that l S fin by blast
qed

lemma snd_new_stands_for: "0 < sz \<Longrightarrow> sz < m_iSeqNoTH \<Longrightarrow> snd_stands_for {} (SndLossList_new nx sz)"
  unfolding snd_stands_for_def
  by (intro exI [of _ 0] exI [of _ "[]"]) (simp add: snd_list_def chain_def SndLossList_new_def within_def)

lemma snd_insert_stands_for:
  assumes "snd_stands_for S l" "x \<le> y" "S \<union> {x..y} \<subseteq> {w..<w + sl_size l}"
  shows "\<exists>l'. snd_insert (x mod seq_circle) (y mod seq_circle) l = Inr (l', int (card (S \<union> {x..y})) - int (card S))
    \<and> snd_stands_for (S \<union> {x..y}) l' \<and> sl_size l' = sl_size l"
proof -
  obtain k xs where l: "snd_list k xs l" "lost xs = S" "xs = [] \<longleftrightarrow> S = {}" "lost_count xs = int (card S)"
    by (rule snd_stands_forE [OF assms(1)]) blast
  show ?thesis
  proof (cases "xs = []")
    case True
    have "x \<in> {w..<w + sl_size l}" "y \<in> {w..<w + sl_size l}" using assms(2,3) by auto
    then have "y - x < sl_size l" by auto
    with snd_insert_empty [of k l x y] True l assms(2) obtain l' where
      "snd_insert (x mod seq_circle) (y mod seq_circle) l = Inr (l', y - x + 1)"
      "snd_list (- x) [(x, y)] l'" "sl_size l' = sl_size l" by auto
    moreover have "S = {}" using True l(3) by simp
    ultimately show ?thesis using assms(2)
      by (intro exI [of _ l']) (auto simp: snd_stands_for_def intro!: exI [of _ "- x"] exI [of _ "[(x, y)]"])
  next
    case False
    have "windowed w (sl_size l) xs" using l(1,2) assms(3) windowed_lost [of xs w "sl_size l"]
      by (simp add: snd_list_def)
    then have "windowed w (sl_size l) ((x, y) # xs)" using assms(2,3) by auto
    from snd_insert_ok [OF l(1) False assms(2) this] obtain xs' l' where
      l': "snd_insert (x mod seq_circle) (y mod seq_circle) l = Inr (l', lost_count xs' - lost_count xs)"
      "snd_list k xs' l'" "lost xs' = S \<union> {x..y}" "sl_size l' = sl_size l" using l(2) by auto
    moreover have "lost_count xs' = int (card (S \<union> {x..y}))"
      using lost_count_card [of xs'] l'(2,3) by (simp add: snd_list_def)
    ultimately show ?thesis using l(4) by (auto simp: snd_stands_for_def)
  qed
qed

lemma snd_remove_stands_for:
  assumes "snd_stands_for S l" "S \<noteq> {} \<Longrightarrow> \<bar>x - Min S\<bar> < m_iSeqNoTH"
  shows "\<exists>l'. snd_remove (x mod seq_circle) l = Inr l' \<and> snd_stands_for {z \<in> S. x < z} l' \<and> sl_size l' = sl_size l"
proof -
  obtain k xs where l: "snd_list k xs l" "lost xs = S" "xs = [] \<longleftrightarrow> S = {}" "finite S"
    "xs \<noteq> [] \<longrightarrow> fst (hd xs) = Min S"
    by (rule snd_stands_forE [OF assms(1)]) blast
  show ?thesis
  proof (cases "xs = []")
    case True
    then have "sl_length l = 0" using l(1) by (simp add: snd_list_def)
    then show ?thesis using True l(3) assms(1) by (simp add: snd_remove_def)
  next
    case False
    have f: "fst (hd xs) = Min S" "S \<noteq> {}" using False l by auto
    note hd = snd_head [OF l(1) False]
    have n: "0 < sl_size l" using l(1) by (simp add: snd_list_def chain_def)
    have near: "\<bar>x - Min S\<bar> < m_iSeqNoTH" by (rule assms(2) [OF f(2)])
    then have off: "seqoff (Min S mod seq_circle) (x mod seq_circle) = x - Min S" by (intro seqoff_count) linarith
    consider "x < Min S" | "x = Min S" | "Min S < x" by linarith
    then show ?thesis
    proof cases
      case 1
      then have "{z \<in> S. x < z} = S" using l(4) by (auto dest: Min_le)
      moreover have "snd_remove (x mod seq_circle) l = Inr l" using 1 hd n off f by (simp add: snd_remove_def Let_def)
      ultimately show ?thesis using assms(1) by simp
    next
      case 2
      obtain b zs where xs: "xs = (x, b) # zs" using False f 2 by (cases xs) auto
      have "(sl_head l + 0 + sl_size l) smod sl_size l = slot (sl_size l) k x"
        using snd_loc [of "sl_size l" x x k] n hd(1) f 2 by simp
      then have "snd_remove (x mod seq_circle) l = snd_remove_head (x mod seq_circle) (slot (sl_size l) k x) l"
        using hd n off f 2 by (simp add: snd_remove_def Let_def)
      moreover have "{z \<in> S. x < z} = S - {x}" using l(4) 2 by (auto dest: Min_le)
      ultimately show ?thesis using snd_remove_head_ok(1) [of k x b zs l] l(1,2) xs by (auto simp: snd_stands_for_def)
    next
      case 3
      then show ?thesis using snd_remove_behind [OF l(1) False, of x] f near l(2) by (auto simp: snd_stands_for_def)
    qed
  qed
qed

lemma getLostSeq_stands_for:
  assumes "snd_stands_for S l"
  shows "\<exists>l'. getLostSeq l = Inr (l', if S = {} then - 1 else Min S mod seq_circle)
    \<and> snd_stands_for (S - {Min S}) l' \<and> sl_size l' = sl_size l"
proof -
  obtain k xs where l: "snd_list k xs l" "lost xs = S" "xs = [] \<longleftrightarrow> S = {}" "xs \<noteq> [] \<longrightarrow> fst (hd xs) = Min S"
    by (rule snd_stands_forE [OF assms]) blast
  show ?thesis
  proof (cases xs)
    case Nil
    then have "sl_length l = 0" using l(1) by (simp add: snd_list_def)
    then show ?thesis using Nil l(3) assms by (simp add: getLostSeq_def)
  next
    case (Cons x zs)
    then obtain b where "xs = (Min S, b) # zs" "S \<noteq> {}" using l by (cases x) auto
    then show ?thesis using snd_remove_head_ok(2) [of k "Min S" b zs l] l(1,2) by (auto simp: snd_stands_for_def)
  qed
qed

text \<open>
  What the sender does with the list: it notes the packets of a report of the receiver, drops what
  was acknowledged, and takes the next packet to send again.
\<close>

datatype snd_op = Reported int int | Acknowledged int | Resend

fun snd_op_ok :: "int \<Rightarrow> int set \<Rightarrow> snd_op \<Rightarrow> bool" where
  "snd_op_ok n S (Reported x y) \<longleftrightarrow> x \<le> y \<and> (\<forall>u \<in> insert x S. \<forall>v \<in> insert y S. v - u < n)"
| "snd_op_ok n S (Acknowledged x) \<longleftrightarrow> S \<noteq> {} \<longrightarrow> \<bar>x - Min S\<bar> < m_iSeqNoTH"
| "snd_op_ok n S Resend \<longleftrightarrow> True"

fun to_send :: "int set \<Rightarrow> snd_op \<Rightarrow> int set" where
  "to_send S (Reported x y) = S \<union> {x..y}"
| "to_send S (Acknowledged x) = {z \<in> S. x < z}"
| "to_send S Resend = S - {Min S}"

fun snd_answer :: "int set \<Rightarrow> snd_op \<Rightarrow> int list" where
  "snd_answer S (Reported x y) = [int (card (S \<union> {x..y})) - int (card S)]"
| "snd_answer S (Acknowledged x) = []"
| "snd_answer S Resend = [if S = {} then - 1 else Min S mod seq_circle]"

fun snd_ops_ok :: "int \<Rightarrow> int set \<Rightarrow> snd_op list \<Rightarrow> bool" where
  "snd_ops_ok n S [] \<longleftrightarrow> True"
| "snd_ops_ok n S (r # rs) \<longleftrightarrow> snd_op_ok n S r \<and> snd_ops_ok n (to_send S r) rs"

fun snd_answers :: "int set \<Rightarrow> snd_op list \<Rightarrow> int list" where
  "snd_answers S [] = []"
| "snd_answers S (r # rs) = snd_answer S r @ snd_answers (to_send S r) rs"

fun snd_step :: "snd_loss_list \<times> int list \<Rightarrow> snd_op \<Rightarrow> (snd_loss_list \<times> int list) res" where
  "snd_step (l, out) (Reported x y) =
     bind_res (snd_insert (x mod seq_circle) (y mod seq_circle) l) (\<lambda>(l, n). Inr (l, out @ [n]))"
| "snd_step (l, out) (Acknowledged x) = bind_res (snd_remove (x mod seq_circle) l) (\<lambda>l. Inr (l, out))"
| "snd_step (l, out) Resend = bind_res (getLostSeq l) (\<lambda>(l, n). Inr (l, out @ [n]))"

lemma snd_step_ok:
  assumes "snd_stands_for S l" "snd_op_ok (sl_size l) S r"
  shows "\<exists>l'. snd_step (l, out) r = Inr (l', out @ snd_answer S r) \<and> snd_stands_for (to_send S r) l'
    \<and> sl_size l' = sl_size l"
proof (cases r)
  case (Reported x y)
  have fin: "finite (insert x S)" using assms(1) by (rule snd_stands_forE) simp
  define w where "w = Min (insert x S)"
  have w: "w \<in> insert x S" "\<And>z. z \<in> insert x S \<Longrightarrow> w \<le> z"
    unfolding w_def using fin by (rule Min_in, simp) (rule Min_le [OF fin])
  have "S \<union> {x..y} \<subseteq> {w..<w + sl_size l}"
  proof
    fix z assume z: "z \<in> S \<union> {x..y}"
    obtain v where v: "v \<in> insert y S" "z \<le> v" using z by (cases "z \<in> S") auto
    have "v - w < sl_size l" using assms(2) Reported w(1) v(1) by auto
    moreover have "w \<le> z" using z w(2) [of z] w(2) [of x] by (cases "z \<in> S") auto
    ultimately show "z \<in> {w..<w + sl_size l}" using v(2) by simp
  qed
  then show ?thesis using snd_insert_stands_for [OF assms(1), of x y w] assms(2) Reported by auto
next
  case (Acknowledged x)
  then show ?thesis using snd_remove_stands_for [OF assms(1), of x] assms(2) by auto
next
  case Resend
  then show ?thesis using getLostSeq_stands_for [OF assms(1)] by auto
qed

lemma snd_steps:
  assumes "snd_stands_for S l" "snd_ops_ok (sl_size l) S rs"
  shows "\<exists>l'. fold_res snd_step (l, out) rs = Inr (l', out @ snd_answers S rs)
    \<and> snd_stands_for (foldl to_send S rs) l'"
  using assms
proof (induction rs arbitrary: S l out)
  case (Cons r rs)
  from snd_step_ok [of S l r out] Cons.prems obtain l' where
    "snd_step (l, out) r = Inr (l', out @ snd_answer S r)" "snd_stands_for (to_send S r) l'" "sl_size l' = sl_size l"
    by auto
  with Cons.IH [of "to_send S r" l' "out @ snd_answer S r"] Cons.prems(2) show ?case by auto
qed simp

text \<open>C18:
  the loss list of the sender is the set of packets to send again: for reports in any order, which may
  overlap, in a window of the size of the list, insertion returns how many packets are new, removal
  drops everything up to an acknowledged number, and \<open>getLostSeq\<close> takes out the first number; no
  operation leaves the arrays or loops for ever, wherever the sequence numbers wrap, and the length is
  the number of packets.
\<close>

theorem snd_loss_list_is_a_set:
  assumes "0 < sz" "sz < m_iSeqNoTH" "snd_ops_ok sz {} rs"
  shows "\<exists>l. fold_res snd_step (SndLossList_new next0 sz, []) rs = Inr (l, snd_answers {} rs)
    \<and> snd_getLossLength l = int (card (foldl to_send {} rs))"
proof -
  have "snd_ops_ok (sl_size (SndLossList_new next0 sz)) {} rs" using assms(3) by (simp add: SndLossList_new_def)
  with snd_steps [OF snd_new_stands_for [OF assms(1,2)], of next0 rs "[]"] obtain l where
    l: "fold_res snd_step (SndLossList_new next0 sz, []) rs = Inr (l, snd_answers {} rs)"
    "snd_stands_for (foldl to_send {} rs) l" by auto
  obtain k xs where "snd_list k xs l" "lost_count xs = int (card (foldl to_send {} rs))"
    by (rule snd_stands_forE [OF l(2)]) blast
  with l(1) show ?thesis by (simp add: snd_getLossLength_def snd_list_def)
qed

text \<open>Overlapping reports around the wrap, an acknowledgement, and the next packet to send.\<close>

lemma snd_loss_list_is_a_set_witness:
  "\<exists>l. fold_res snd_step (SndLossList_new (\<lambda>_. 7) 8, [])
      [Reported (2 ^ 31) (2 ^ 31 + 1), Reported (2 ^ 31 - 1) (2 ^ 31), Acknowledged (2 ^ 31 - 1), Resend]
      = Inr (l, [2, 1, 0]) \<and> snd_getLossLength l = 1"
proof -
  let ?a = "2147483647 :: int" and ?b = "2147483648 :: int" and ?c = "2147483649 :: int"
  let ?rs = "[Reported ?b ?c, Reported ?a ?b, Acknowledged ?a, Resend]"
  have s: "{?b..?c} = {?b, ?c}" "{?a..?b} = {?a, ?b}" by auto
  have t: "to_send {} (Reported ?b ?c) = {?b, ?c}" "to_send {?b, ?c} (Reported ?a ?b) = {?a, ?b, ?c}"
    "to_send {?a, ?b, ?c} (Acknowledged ?a) = {?b, ?c}" "to_send {?b, ?c} Resend = {?c}"
    by (auto simp: s)
  have m: "Min {?a, ?b, ?c} = ?a" "Min {?b, ?c} = ?b" by simp_all
  have "snd_ops_ok 8 {} ?rs" by (simp add: s t m m_iSeqNoTH_def del: to_send.simps)
  moreover have "snd_answers {} ?rs = [2, 1, 0]" by (simp add: s t m seq_circle_def del: to_send.simps)
  moreover have "foldl to_send {} ?rs = {?c}" by (simp only: foldl.simps t)
  ultimately show ?thesis
    using snd_loss_list_is_a_set [of 8 ?rs "\<lambda>_. 7"] by (simp add: m_iSeqNoTH_def)
qed

end
