(* ===== verification/UdtCoreProperties.thy ===== *)
theory UdtCoreProperties
  imports UdtCore RcvLossListProperties SndLossListProperties "HOL-Library.Word"
begin

text \<open>
  The loss lists of both ends at work: the receiver knows exactly the packets that never came, and a
  loss report carries them to the list of the sender.
\<close>

section \<open>Detecting losses\<close>

lemma bit_count [simp]: "with_bit (x mod seq_circle) < 0" "without_bit (with_bit (x mod seq_circle)) = x mod seq_circle"
proof -
  have c: "(2::int) ^ 31 = seq_circle" by (simp add: seq_circle_def)
  show "with_bit (x mod seq_circle) < 0" using seq_number(2) [of x] by (simp only: with_bit_def c)
  have "(x mod seq_circle - seq_circle) mod seq_circle = x mod seq_circle" by (simp add: mod_simps)
  then show "without_bit (with_bit (x mod seq_circle)) = x mod seq_circle"
    by (simp only: with_bit_def without_bit_def c)
qed

text \<open>
  The packets in play, those lost, the newest one and the one that comes, lie within the size of the
  list; \<open>lost_with\<close> is what is lost after the packet.
\<close>

definition in_play :: "int \<Rightarrow> int \<Rightarrow> int set \<Rightarrow> int \<Rightarrow> bool" where
  "in_play n c S p \<longleftrightarrow> (\<forall>z \<in> insert p (insert c S). max p c - z < n)"

definition lost_with :: "int \<Rightarrow> int set \<Rightarrow> int \<Rightarrow> int set" where
  "lost_with c S p = (if c < p then S \<union> {c + 1..p - 1} else S - {p})"

fun in_play_all :: "int \<Rightarrow> int \<Rightarrow> int set \<Rightarrow> int list \<Rightarrow> bool" where
  "in_play_all n c S [] \<longleftrightarrow> True"
| "in_play_all n c S (p # ps) \<longleftrightarrow> in_play n c S p \<and> in_play_all n (max c p) (lost_with c S p) ps"

lemma receive_packet_ok:
  assumes "stands_for S l" "in_play (rl_size l) c S p" "S \<subseteq> {..<c}"
  shows "\<exists>l' nak. receive_packet now now' (p mod seq_circle) (c mod seq_circle, l)
      = Inr (max c p mod seq_circle, l', nak) \<and> stands_for (lost_with c S p) l' \<and> rl_size l' = rl_size l"
proof -
  have n: "rl_size l < m_iSeqNoTH" using assms(1) by (auto simp: stands_for_def loss_list_def)
  have fin: "finite S" using assms(1) by (rule stands_forE) simp
  have near: "\<bar>p - c\<bar> < rl_size l" using assms(2) by (auto simp: in_play_def)
  have c1: "0 < seqcmp (p mod seq_circle) (incseq (c mod seq_circle)) \<longleftrightarrow> c + 1 < p"
    unfolding incseq_count using near n by (intro seqcmp_less) linarith
  have c2: "0 < seqcmp (p mod seq_circle) (c mod seq_circle) \<longleftrightarrow> c < p"
    using near n by (intro seqcmp_less) linarith
  consider "c + 1 < p" | "p = c + 1" | "p \<le> c" by linarith
  then show ?thesis
  proof cases
    case 1
    have "p - 1 - Min (insert (c + 1) S) < rl_size l"
    proof -
      have "Min (insert (c + 1) S) \<in> insert (c + 1) S" using fin by (intro Min_in) simp_all
      then show ?thesis using assms(2) 1 near by (auto simp: in_play_def)
    qed
    moreover have "\<And>z. z \<in> S \<Longrightarrow> z < c + 1" using assms(3) by force
    ultimately obtain l' where "rcv_insert now ((c + 1) mod seq_circle) ((p - 1) mod seq_circle) l = Inr l'"
      "stands_for (S \<union> {c + 1..p - 1}) l'" "rl_size l' = rl_size l"
      using insert_stands_for [OF assms(1), of "c + 1" "p - 1" now] 1 by auto
    then show ?thesis using 1 c1 c2 by (simp add: receive_packet_def incseq_count decseq_count lost_with_def max_def)
  next
    case 2
    then have "lost_with c S p = S" by (simp add: lost_with_def)
    then show ?thesis using 2 c1 c2 assms(1) by (simp add: receive_packet_def)
  next
    case 3
    have "\<bar>p - Min S\<bar> < m_iSeqNoTH" if "S \<noteq> {}"
    proof -
      have "Min S \<in> S" using fin that by (rule Min_in)
      then have "c - Min S < rl_size l" "Min S < c" using assms(2,3) 3 by (auto simp: in_play_def)
      then show ?thesis using near n 3 by linarith
    qed
    with remove_stands_for [OF assms(1), of p now'] obtain l' where
      "rcv_remove now' (p mod seq_circle) l = Inr (l', p \<in> S)" "stands_for (S - {p}) l'" "rl_size l' = rl_size l"
      by auto
    then show ?thesis using 3 c1 c2 by (simp add: receive_packet_def lost_with_def max_def)
  qed
qed

fun receive_all :: "int \<times> rcv_loss_list \<Rightarrow> (64 word \<times> 64 word \<times> int) list \<Rightarrow> (int \<times> rcv_loss_list) res" where
  "receive_all st [] = Inr st"
| "receive_all st ((now, now', p) # ps) =
     bind_res (receive_packet now now' (p mod seq_circle) st) (\<lambda>(c, l, _). receive_all (c, l) ps)"

text \<open>After all packets of a run the lost ones are those up to the newest that never came.\<close>

lemma receive_all_ok:
  assumes "stands_for S l" "in_play_all (rl_size l) c S (map (snd \<circ> snd) ps)" "S = {c0<..c} - A"
    and "c0 \<le> c" "c \<in> insert c0 A" "A \<subseteq> {..c}"
  shows "\<exists>l'. receive_all (c mod seq_circle, l) ps = Inr (foldl max c (map (snd \<circ> snd) ps) mod seq_circle, l')
    \<and> stands_for ({c0<..foldl max c (map (snd \<circ> snd) ps)} - (A \<union> set (map (snd \<circ> snd) ps))) l'"
  using assms
proof (induction ps arbitrary: S l c A)
  case (Cons q ps S l c A)
  obtain t t' p where q: "q = (t, t', p)" by (cases q)
  have "S \<subseteq> {..<c}" using Cons.prems(3-5) by (auto simp: order_less_le)
  then obtain l' nak where l': "receive_packet t t' (p mod seq_circle) (c mod seq_circle, l)
      = Inr (max c p mod seq_circle, l', nak)" "stands_for (lost_with c S p) l'" "rl_size l' = rl_size l"
    using receive_packet_ok [of S l c p t t'] Cons.prems q by auto
  have "lost_with c S p = {c0<..max c p} - insert p A"
    using Cons.prems(3-6) by (auto simp: lost_with_def)
  moreover have "c0 \<le> max c p" "max c p \<in> insert c0 (insert p A)" "insert p A \<subseteq> {..max c p}"
    using Cons.prems(4-6) by (auto simp: max_def)
  ultimately show ?case using Cons.IH [where A = "insert p A", OF l'(2)] Cons.prems(2) l'(1,3) q by auto
qed simp

text \<open>C17:
  the loss list of the receiver is right: whatever packets arrive, in whatever order and how often,
  as long as those in play fit into the list, it holds exactly the packets up to the newest one that
  never came, and \<open>getFirstLostSeq\<close> is the number up to which the receiver may acknowledge.
\<close>

theorem losses_detected:
  assumes "0 < sz" "sz < m_iSeqNoTH" "in_play_all sz c0 {} (map (snd \<circ> snd) ps)"
  shows "\<exists>l. receive_all (c0 mod seq_circle, RcvLossList_new next0 prior0 sz t0) ps
      = Inr (foldl max c0 (map (snd \<circ> snd) ps) mod seq_circle, l)
    \<and> rcv_getLossLength l
      = int (card ({c0<..foldl max c0 (map (snd \<circ> snd) ps)} - set (map (snd \<circ> snd) ps)))
    \<and> getFirstLostSeq l
      = Inr (if {c0<..foldl max c0 (map (snd \<circ> snd) ps)} \<subseteq> set (map (snd \<circ> snd) ps) then - 1
          else Min ({c0<..foldl max c0 (map (snd \<circ> snd) ps)} - set (map (snd \<circ> snd) ps)) mod seq_circle)"
proof -
  let ?new = "RcvLossList_new next0 prior0 sz t0"
  have "in_play_all (rl_size ?new) c0 {} (map (snd \<circ> snd) ps)" using assms(3) by (simp add: RcvLossList_new_def)
  from receive_all_ok [OF new_stands_for [OF assms(1,2)] this, of c0 "{}"] obtain l where
    l: "receive_all (c0 mod seq_circle, ?new) ps = Inr (foldl max c0 (map (snd \<circ> snd) ps) mod seq_circle, l)"
    "stands_for ({c0<..foldl max c0 (map (snd \<circ> snd) ps)} - set (map (snd \<circ> snd) ps)) l" by auto
  then show ?thesis using length_stands_for [OF l(2)] first_stands_for [OF l(2)] by (auto simp: Diff_eq_empty_iff)
qed

text \<open>Packets around the wrap, out of order and twice; one never comes.\<close>

lemma losses_detected_witness:
  "\<exists>l. receive_all (2 ^ 31 - 3, RcvLossList_new (\<lambda>_. 7) (\<lambda>_. 7) 8 0)
      [(0, 0, 2 ^ 31 + 1), (0, 0, 2 ^ 31), (0, 0, 2 ^ 31 - 1), (0, 0, 2 ^ 31)] = Inr (1, l)
    \<and> rcv_getLossLength l = 1 \<and> getFirstLostSeq l = Inr (2 ^ 31 - 2)"
proof -
  let ?ps = "[(0, 0, 2147483649), (0, 0, 2147483648), (0, 0, 2147483647), (0, 0, 2147483648)] :: (64 word \<times> 64 word \<times> int) list"
  have s: "{2147483646..2147483648::int} = {2147483646, 2147483647, 2147483648}" by auto
  have ok: "in_play_all 8 2147483645 {} (map (snd \<circ> snd) ?ps)"
    by (auto simp: in_play_def lost_with_def s)
  have ps: "map (snd \<circ> snd) ?ps = [2147483649, 2147483648, 2147483647, 2147483648]" by simp
  have newest: "foldl max 2147483645 [2147483649, 2147483648, 2147483647, 2147483648] = (2147483649 :: int)" by simp
  have lost: "{2147483645<..2147483649} - set [2147483649, 2147483648, 2147483647, 2147483648] = {2147483646::int}"
    by auto
  then have some: "\<not> {2147483645<..2147483649} \<subseteq> set [2147483649, 2147483648, 2147483647, 2147483648::int]" by blast
  show ?thesis
    using losses_detected [OF _ _ ok, of "\<lambda>_. 7" "\<lambda>_. 7" 0] unfolding ps newest lost
    by (simp add: some m_iSeqNoTH_def seq_circle_def del: list.set)
qed

section \<open>Reports\<close>

text \<open>What a report says to the sender: the intervals it names, from the last acknowledged count on.\<close>

lemma nak_loop_report:
  assumes "snd_stands_for R l" "intervals xs" "lost xs \<union> R \<union> {ack, newest} \<subseteq> {w..<w + sl_size l}"
    and "sl_size l < m_iSeqNoTH" "lost xs \<subseteq> {..newest}"
  shows "\<exists>l'. nak_loop (ack mod seq_circle) (newest mod seq_circle) past (concat (map report xs)) l m
      = Inr (l', m + int (card (R \<union> (lost xs \<inter> {ack..}))) - int (card R), True)
    \<and> snd_stands_for (R \<union> (lost xs \<inter> {ack..})) l'"
  using assms
proof (induction xs arbitrary: R l m)
  case Nil
  then show ?case by auto
next
  case (Cons x xs R l m)
  obtain a b where x: "x = (a, b)" by fastforce
  let ?C = seq_circle and ?n = "sl_size l" and ?I = "{a..b} \<inter> {ack..}"
  have ab: "a \<le> b" and iv: "intervals xs" using Cons.prems(2) x by auto
  have "a \<in> {w..<w + ?n}" "b \<in> {w..<w + ?n}" "ack \<in> {w..<w + ?n}" "newest \<in> {w..<w + ?n}" and bn: "b \<le> newest"
    using Cons.prems(3,5) x ab by auto
  then have near: "\<bar>a - b\<bar> < m_iSeqNoTH" "\<bar>b - newest\<bar> < m_iSeqNoTH" "\<bar>a - ack\<bar> < m_iSeqNoTH" "\<bar>b - ack\<bar> < m_iSeqNoTH"
    using Cons.prems(4) by auto
  note cmp = seqcmp_less [OF near(1)] seqcmp_less [OF near(2)] seqcmp_less [OF near(3)] seqcmp_less [OF near(4)]
  have ins: "\<exists>l'. (if ack \<le> a then snd_insert (a mod ?C) (b mod ?C) l
      else if ack \<le> b then snd_insert (ack mod ?C) (b mod ?C) l else Inr (l, 0))
      = Inr (l', int (card (R \<union> ?I)) - int (card R)) \<and> snd_stands_for (R \<union> ?I) l' \<and> sl_size l' = ?n"
  proof -
    consider "ack \<le> a" | "a < ack" "ack \<le> b" | "b < ack" by linarith
    then show ?thesis
    proof cases
      case 1
      then have "?I = {a..b}" by auto
      moreover have "R \<union> {a..b} \<subseteq> {w..<w + ?n}" using Cons.prems(3) x by auto
      ultimately show ?thesis using 1 snd_insert_stands_for [OF Cons.prems(1) ab, of w] by auto
    next
      case 2
      then have "?I = {ack..b}" by auto
      moreover have "{ack..b} \<subseteq> {a..b}" using 2 by auto
      then have "R \<union> {ack..b} \<subseteq> {w..<w + ?n}" using Cons.prems(3) x by auto
      ultimately show ?thesis using 2 snd_insert_stands_for [OF Cons.prems(1) 2(2), of w] by auto
    next
      case 3
      then have "?I = {}" by auto
      then show ?thesis using 3 ab Cons.prems(1) by simp
    qed
  qed
  then obtain l' num where l': "(if ack \<le> a then snd_insert (a mod ?C) (b mod ?C) l
      else if ack \<le> b then snd_insert (ack mod ?C) (b mod ?C) l else Inr (l, 0))
      = Inr (l', num)" "snd_stands_for (R \<union> ?I) l'" "sl_size l' = ?n"
    and num: "num = int (card (R \<union> ?I)) - int (card R)" by blast
  have step: "nak_loop (ack mod ?C) (newest mod ?C) past (report x @ vs) l m
      = nak_loop (ack mod ?C) (newest mod ?C) past vs l' (m + num)" for vs
  proof (cases "a = b")
    case True
    have "\<not> a mod ?C < 0" using seq_number(1) [of a] by simp
    then show ?thesis using True x cmp bn l'(1) by (auto simp: report_def split: if_splits)
  next
    case False
    have "report x = [with_bit (a mod ?C), b mod ?C]" using x False by (simp add: report_def with_bit_def)
    then show ?thesis using cmp bn ab l'(1) by (simp add: Let_def split del: if_split cong: if_cong)
  qed
  have u: "R \<union> (lost (x # xs) \<inter> {ack..}) = (R \<union> ?I) \<union> (lost xs \<inter> {ack..})" using x by auto
  have "lost xs \<union> (R \<union> ?I) \<union> {ack, newest} \<subseteq> {w..<w + sl_size l'}" "lost xs \<subseteq> {..newest}"
    using Cons.prems(3,5) x l'(3) by auto
  with Cons.IH [OF l'(2) iv, of "m + num"] l'(3) Cons.prems(4) step num
  show ?case unfolding u by (auto simp: algebra_simps)
qed

lemma few_intervals: "intervals xs \<Longrightarrow> int (length xs) \<le> lost_count xs"
proof (induction xs)
  case (Cons x xs)
  then show ?case by (cases x) auto
qed simp

lemma report_length: "length (concat (map report xs)) \<le> 2 * length xs"
  by (induction xs) (auto simp: report_def split: prod.split)

lemma lost_take: "lost (take m xs) \<subseteq> lost xs"
  by (auto simp: lost_def dest!: in_set_takeD)

lemma intervals_take: "intervals xs \<Longrightarrow> intervals (take m xs)"
  by (metis append_take_drop_id intervals_append)

text \<open>C21:
  a loss report tells the sender what the receiver lost. Before the list has been left unchanged for
  \<open>m_iRTT + 4 * m_iRTTVar\<close> no report is made. From then on \<open>sendCtrl\<close> sends a report that fits the payload, on
  the first intervals of the list, at least one and all of them when the payload has room for two
  numbers each, and keeps the list. With the numbers in play within the size of the sender's list,
  \<open>processCtrl\<close> adds to that list exactly the packets of these intervals from the last acknowledged one on,
  counting those it did not have, and finds nothing suspicious, wherever the numbers wrap.
\<close>

theorem report_tells_losses:
  assumes "loss_list k xs l" "xs \<noteq> []" "snd_stands_for R s" "8 \<le> m_iPayloadSize"
    and "lost xs \<union> R \<union> {ack, newest} \<subseteq> {w..<w + sl_size s}" "lost xs \<subseteq> {..newest}"
  shows "(sint (ucast (now - rl_time l) :: 32 word) < m_iRTT + 4 * m_iRTTVar \<longrightarrow>
      nak_periodic now now' m_iPayloadSize m_iRTT m_iRTTVar l = Inr (l, None))
    \<and> (m_iRTT + 4 * m_iRTTVar \<le> sint (ucast (now - rl_time l) :: 32 word) \<longrightarrow>
      (\<exists>m l' out s'. 0 < m \<and> m \<le> length xs \<and> (2 * int (length xs) \<le> m_iPayloadSize div 4 \<longrightarrow> m = length xs)
        \<and> nak_periodic now now' m_iPayloadSize m_iRTT m_iRTTVar l = Inr (l', Some out)
        \<and> stands_for (lost xs) l' \<and> 4 * int (length out) \<le> m_iPayloadSize
        \<and> process_loss_report (ack mod seq_circle) (newest mod seq_circle) past out s
          = Inr (s', int (card (R \<union> (lost (take m xs) \<inter> {ack..}))) - int (card R), True)
        \<and> snd_stands_for (R \<union> (lost (take m xs) \<inter> {ack..})) s'))"
proof (intro conjI impI)
  assume "sint (ucast (now - rl_time l) :: 32 word) < m_iRTT + 4 * m_iRTTVar"
  then show "nak_periodic now now' m_iPayloadSize m_iRTT m_iRTTVar l = Inr (l, None)"
    by (simp add: nak_periodic_def getLossArray_def)
next
  let ?limit = "m_iPayloadSize div 4"
  have st: "stands_for (lost xs) l" using assms(1) by (auto simp: stands_for_def)
  have iv: "intervals xs" using assms(1) by (simp add: loss_list_def)
  assume "m_iRTT + 4 * m_iRTTVar \<le> sint (ucast (now - rl_time l) :: 32 word)"
  from getLossArray_reports [OF assms(1) this, of now' ?limit] obtain l' m0 where
    out: "getLossArray now now' ?limit (m_iRTT + 4 * m_iRTTVar) l = Inr (l', concat (map report (take m0 xs)))"
    "stands_for (lost xs) l'" "int (length (concat (map report (take m0 xs)))) \<le> max ?limit 0"
    "m0 < length xs \<longrightarrow> ?limit - 1 \<le> int (length (concat (map report (take m0 xs))))" by blast
  define m where "m = min m0 (length xs)"
  have m: "take m0 xs = take m xs" "m \<le> length xs" by (simp_all add: m_def min_def)
  have "2 \<le> ?limit" using assms(4) by linarith
  then have pos: "0 < m" using out(4) assms(2) by (cases m0) (auto simp: m_def)
  have all: "m = length xs" if "2 * int (length xs) \<le> ?limit"
  proof (rule ccontr)
    assume "m \<noteq> length xs"
    then have "m0 < length xs" by (auto simp: m_def min_def split: if_splits)
    with out(4) report_length [of "take m0 xs"] that show False by auto
  qed
  have "take m xs \<noteq> []" using pos assms(2) by (cases xs) auto
  then have "concat (map report (take m xs)) \<noteq> []" by (cases "take m xs") (auto simp: report_def split: prod.split)
  moreover have "0 < rcv_getLossLength l"
    using assms(1,2) lost_count_pos [OF iv] by (auto simp: rcv_getLossLength_def loss_list_def order_less_le)
  ultimately have nak: "nak_periodic now now' m_iPayloadSize m_iRTT m_iRTTVar l = Inr (l', Some (concat (map report (take m xs))))"
    using out(1) unfolding m(1) by (simp add: nak_periodic_def)
  have fits: "4 * int (length (concat (map report (take m xs)))) \<le> m_iPayloadSize"
    using out(3) \<open>2 \<le> ?limit\<close> unfolding m(1) by linarith
  have "sl_size s < m_iSeqNoTH" using assms(3) by (auto simp: snd_stands_for_def snd_list_def chain_def)
  moreover have "lost (take m xs) \<union> R \<union> {ack, newest} \<subseteq> {w..<w + sl_size s}" "lost (take m xs) \<subseteq> {..newest}"
    using lost_take [of m xs] assms(5,6) by blast+
  ultimately obtain s' where "process_loss_report (ack mod seq_circle) (newest mod seq_circle) past (concat (map report (take m xs))) s
      = Inr (s', int (card (R \<union> (lost (take m xs) \<inter> {ack..}))) - int (card R), True)"
    "snd_stands_for (R \<union> (lost (take m xs) \<inter> {ack..})) s'"
    using nak_loop_report [OF assms(3) intervals_take [OF iv], of m ack newest w past 0] unfolding process_loss_report_def by force
  with nak fits out(2) pos m(2) all show "\<exists>m l' out s'. 0 < m \<and> m \<le> length xs \<and> (2 * int (length xs) \<le> ?limit \<longrightarrow> m = length xs)
        \<and> nak_periodic now now' m_iPayloadSize m_iRTT m_iRTTVar l = Inr (l', Some out)
        \<and> stands_for (lost xs) l' \<and> 4 * int (length out) \<le> m_iPayloadSize
        \<and> process_loss_report (ack mod seq_circle) (newest mod seq_circle) past out s
          = Inr (s', int (card (R \<union> (lost (take m xs) \<inter> {ack..}))) - int (card R), True)
        \<and> snd_stands_for (R \<union> (lost (take m xs) \<inter> {ack..})) s'" by blast
qed

text \<open>
  A lost interval around the wrap, one packet of which the sender has noted already, and an
  acknowledgement that overtook the report.
\<close>

lemma report_tells_losses_witness:
  "\<exists>l s l' out s'. rcv_insert 0 (2 ^ 31 - 1) 1 (RcvLossList_new (\<lambda>_. 7) (\<lambda>_. 7) 8 0) = Inr l
    \<and> snd_insert 1 1 (SndLossList_new (\<lambda>_. 7) 8) = Inr (s, 1)
    \<and> nak_periodic 1000 1000 1456 100 50 l = Inr (l', Some out)
    \<and> process_loss_report 0 2 9 out s = Inr (s', 1, True)"
proof -
  let ?a = "2147483647 :: int" and ?b = "2147483648 :: int" and ?c = "2147483649 :: int"
  let ?r = "RcvLossList_new (\<lambda>_. 7) (\<lambda>_. 7) 8 0" and ?s = "SndLossList_new (\<lambda>_. 7) 8"
  have n: "?a mod seq_circle = 2 ^ 31 - 1" "?b mod seq_circle = 0" "?c mod seq_circle = 1" "(?c + 1) mod seq_circle = 2"
    by (simp_all add: seq_circle_def)
  have "stands_for {} ?r" by (rule new_stands_for) (simp_all add: m_iSeqNoTH_def)
  then obtain l where l: "rcv_insert 0 (2 ^ 31 - 1) 1 ?r = Inr l" "stands_for {?a..?c} l"
    using insert_stands_for [of "{}" ?r ?a ?c 0] unfolding n by (auto simp: RcvLossList_new_def)
  have time: "rl_time l = 0"
    using l(1) by (auto simp: rcv_insert_def RcvLossList_new_def set_data1_def set_data2_def set_next_def
        set_prior_def array_set_def)
  have "snd_stands_for {} ?s" by (rule snd_new_stands_for) (simp_all add: m_iSeqNoTH_def)
  then obtain s where s: "snd_insert 1 1 ?s = Inr (s, 1)" "snd_stands_for {?c} s" "sl_size s = 8"
    using snd_insert_stands_for [of "{}" ?s ?c ?c ?c] unfolding n by (auto simp: SndLossList_new_def)
  have ivl: "{?a..?c} = {?a, ?b, ?c}" by auto
  have set: "{?c} \<union> ({?a, ?b, ?c} \<inter> {?b..}) = {?b, ?c}" by auto
  obtain k xs where xs: "loss_list k xs l" "lost xs = {?a..?c}" using l(2) by (auto simp: stands_for_def)
  have ne: "xs \<noteq> []" using xs(2) by (auto simp: lost_def)
  have iv: "intervals xs" using xs(1) by (simp add: loss_list_def)
  have "int (length xs) \<le> 3" using few_intervals [OF iv] lost_count_card [OF iv] xs(2) unfolding ivl by simp
  then have room: "2 * int (length xs) \<le> 1456 div 4" by simp
  have "\<exists>l' out s'. nak_periodic 1000 1000 1456 100 50 l = Inr (l', Some out)
      \<and> process_loss_report 0 2 9 out s = Inr (s', 1, True)"
    using report_tells_losses [OF xs(1) ne s(2), of 1456 ?b "?c + 1" ?a 1000 100 50 1000 9] room
    unfolding n xs(2) ivl set s(3) time by (auto simp: xs(2) ivl set card_insert_if)
  with l(1) s(1) show ?thesis by blast
qed

text \<open>The value behind a report that ends in the first half of an interval is taken for the second.\<close>

lemma report_past_end:
  assumes "v < 0"
  shows "process_loss_report ack newest past [v] s = process_loss_report ack newest past' [v, past] s"
  using assms by (simp add: process_loss_report_def Let_def)

end
