(* ===== verification/UdtWindow.thy ===== *)
theory UdtWindow
  imports RcvLossList "HOL-Library.Word"
begin

text \<open>
  The history windows of a UDT connection (\<open>src/udt/window.h\<close>, \<open>src/udt/window.cpp\<close>): \<open>CACKWindow\<close>, the
  acknowledgements that were sent and not yet acknowledged, and \<open>CPktTimeWindow\<close>, the intervals
  between packets. The clock \<open>CTimer::getTime\<close> is an argument, and so is the storage of a new array.
  A difference of times that is cast to \<open>int\<close> is its lower 32 bits.
\<close>

definition time_diff :: "64 word \<Rightarrow> 64 word \<Rightarrow> int" where
  "time_diff t0 t1 = sint (ucast (t1 - t0) :: 32 word)"

section \<open>Acknowledgements\<close>

record ack_window =
  aw_seqno :: "int \<Rightarrow> int"
  aw_ack :: "int \<Rightarrow> int"
  aw_time :: "int \<Rightarrow> 64 word"
  aw_size :: int
  aw_head :: int
  aw_tail :: int

definition ACKWindow_new :: "(int \<Rightarrow> int) \<Rightarrow> (int \<Rightarrow> int) \<Rightarrow> (int \<Rightarrow> 64 word) \<Rightarrow> int \<Rightarrow> ack_window" where
  "ACKWindow_new seq0 ack0 time0 sz =
     \<lparr>aw_seqno = seq0(0 := - 1), aw_ack = ack0, aw_time = time0, aw_size = sz, aw_head = 0, aw_tail = 0\<rparr>"

definition ACKWindow_default :: "(int \<Rightarrow> int) \<Rightarrow> (int \<Rightarrow> int) \<Rightarrow> (int \<Rightarrow> 64 word) \<Rightarrow> ack_window" where
  "ACKWindow_default seq0 ack0 time0 = ACKWindow_new seq0 ack0 time0 1024"

definition ack_store :: "64 word \<Rightarrow> int \<Rightarrow> int \<Rightarrow> ack_window \<Rightarrow> ack_window res" where
  "ack_store now sq ack w =
     bind_res (array_set (aw_size w) (aw_seqno w) (aw_head w) sq) (\<lambda>seqnos.
     bind_res (array_set (aw_size w) (aw_ack w) (aw_head w) ack) (\<lambda>acks.
     bind_res (array_set (aw_size w) (aw_time w) (aw_head w) now) (\<lambda>times.
       let w = w\<lparr>aw_seqno := seqnos, aw_ack := acks, aw_time := times,
             aw_head := (aw_head w + 1) smod aw_size w\<rparr> in
         Inr (if aw_head w = aw_tail w then w\<lparr>aw_tail := (aw_tail w + 1) smod aw_size w\<rparr> else w))))"

text \<open>The loops over the positions; \<open>wraps\<close> tells the second one, past the end of the arrays.\<close>

fun ack_loop :: "bool \<Rightarrow> 64 word \<Rightarrow> int \<Rightarrow> ack_window \<Rightarrow> int list \<Rightarrow> (ack_window \<times> (int \<times> int) option) res" where
  "ack_loop wraps now sq w [] = Inr (w, None)"
| "ack_loop wraps now sq w (j # js) =
     (let i = (if wraps then j smod aw_size w else j) in
      bind_res (array_get (aw_size w) (aw_seqno w) i) (\<lambda>s.
        if sq = s
        then
          bind_res (array_get (aw_size w) (aw_ack w) i) (\<lambda>ack.
          bind_res (array_get (aw_size w) (aw_time w) i) (\<lambda>t.
          bind_res
            (if (if wraps then i else i + 1) = aw_head w
             then bind_res (array_set (aw_size w) (aw_seqno w) 0 (- 1)) (\<lambda>seqnos.
                    Inr (w\<lparr>aw_tail := 0, aw_head := 0, aw_seqno := seqnos\<rparr>))
             else Inr (w\<lparr>aw_tail := (i + 1) smod aw_size w\<rparr>))
            (\<lambda>w. Inr (w, Some (ack, time_diff t now)))))
        else ack_loop wraps now sq w js))"

declare ack_loop.simps(2) [simp del]

text \<open>The result is the round trip time, or \<open>- 1\<close>, and what is stored in \<open>ack\<close>.\<close>

definition acknowledge :: "64 word \<Rightarrow> int \<Rightarrow> int \<Rightarrow> ack_window \<Rightarrow> (ack_window \<times> int \<times> int) res" where
  "acknowledge now sq ack0 w =
     bind_res
       (if aw_head w \<ge> aw_tail w
        then ack_loop False now sq w [aw_tail w..aw_head w - 1]
        else ack_loop True now sq w [aw_tail w..aw_head w + aw_size w - 1])
       (\<lambda>(w, r). case r of None \<Rightarrow> Inr (w, ack0, - 1) | Some (ack, rtt) \<Rightarrow> Inr (w, ack, rtt))"

section \<open>Intervals between packets\<close>

record pkt_time_window =
  pw_window :: "int list"
  pw_ptr :: nat
  pw_probes :: "int list"
  pw_probe_ptr :: nat
  pw_last_sent :: int
  pw_min_send :: int
  pw_last_arr :: "64 word"
  pw_curr_arr :: "64 word"
  pw_probe_time :: "64 word"

definition PktTimeWindow_new :: "64 word \<Rightarrow> nat \<Rightarrow> nat \<Rightarrow> pkt_time_window" where
  "PktTimeWindow_new now asize psize =
     \<lparr>pw_window = replicate asize 1000000, pw_ptr = 0, pw_probes = replicate psize 1000, pw_probe_ptr = 0,
      pw_last_sent = 0, pw_min_send = 1000000, pw_last_arr = now, pw_curr_arr = 0, pw_probe_time = 0\<rparr>"

definition PktTimeWindow_default :: "64 word \<Rightarrow> pkt_time_window" where
  "PktTimeWindow_default now = PktTimeWindow_new now 16 16"

definition getMinPktSndInt :: "pkt_time_window \<Rightarrow> int" where
  "getMinPktSndInt w = pw_min_send w"

text \<open>The two loops that sort the first half of the window and one more.\<close>

fun exchange_pass :: "nat \<Rightarrow> nat list \<Rightarrow> int list \<Rightarrow> int list" where
  "exchange_pass i [] xs = xs"
| "exchange_pass i (j # js) xs =
     exchange_pass i js (if xs ! i > xs ! j then xs[i := xs ! j, j := xs ! i] else xs)"

definition sort_half :: "int list \<Rightarrow> int list" where
  "sort_half xs = fold (\<lambda>i ys. exchange_pass i [i..<length xs] ys) [0..<length xs div 2 + 1] xs"

text \<open>A result of \<open>int\<close> arithmetic, which must not overflow.\<close>

definition int_res :: "int \<Rightarrow> int res" where
  "int_res x = (if - (2 ^ 31) \<le> x \<and> x < 2 ^ 31 then Inr x else Inl Undefined)"

text \<open>The average of the two values around the middle.\<close>

definition median :: "int list \<Rightarrow> int res" where
  "median xs = bind_res (int_res (xs ! (length xs div 2 - 1) + xs ! (length xs div 2))) (\<lambda>s. Inr (s div 2))"

text \<open>The values near the median, with their sum on top of \<open>sum0\<close>.\<close>

definition near_median :: "int \<Rightarrow> int \<Rightarrow> int list \<Rightarrow> (int list \<times> int) res" where
  "near_median m sum0 xs =
     bind_res (int_res (m * 8)) (\<lambda>upper.
       let good = filter (\<lambda>x. x < upper \<and> x > m div 8) xs in
       bind_res (fold_res (\<lambda>s x. int_res (s + x)) sum0 good) (\<lambda>sum. Inr (good, sum)))"

text \<open>
  The window is sorted where it lies. For \<open>double\<close> division and \<open>ceil\<close> stand the arguments
  \<open>speed\<close>, applied to the average, and \<open>rate\<close>, applied to the sum and the count.
\<close>

definition getPktRcvSpeed :: "(int \<Rightarrow> int) \<Rightarrow> pkt_time_window \<Rightarrow> (pkt_time_window \<times> int) res" where
  "getPktRcvSpeed speed w =
     (if length (pw_window w) < 2 then Inl Undefined
      else
        let xs = sort_half (pw_window w) in
        bind_res (median xs) (\<lambda>m. bind_res (near_median m 0 xs) (\<lambda>(good, sum).
          Inr (w\<lparr>pw_window := xs\<rparr>,
            if length good > length xs div 2 then speed (sum sdiv int (length good)) else 0))))"

definition getBandwidth :: "(int \<Rightarrow> int \<Rightarrow> int) \<Rightarrow> pkt_time_window \<Rightarrow> (pkt_time_window \<times> int) res" where
  "getBandwidth rate w =
     (if length (pw_probes w) < 2 then Inl Undefined
      else
        let xs = sort_half (pw_probes w) in
        bind_res (median xs) (\<lambda>m. bind_res (near_median m m xs) (\<lambda>(good, sum).
          Inr (w\<lparr>pw_probes := xs\<rparr>, rate sum (1 + int (length good))))))"

definition onPktSent :: "int \<Rightarrow> pkt_time_window \<Rightarrow> pkt_time_window res" where
  "onPktSent currtime w =
     bind_res (int_res (currtime - pw_last_sent w)) (\<lambda>interval.
       Inr ((if interval < pw_min_send w \<and> interval > 0 then w\<lparr>pw_min_send := interval\<rparr> else w)
         \<lparr>pw_last_sent := currtime\<rparr>))"

definition onPktArrival :: "64 word \<Rightarrow> pkt_time_window \<Rightarrow> pkt_time_window res" where
  "onPktArrival now w =
     (if pw_ptr w < length (pw_window w)
      then Inr (w\<lparr>pw_curr_arr := now,
        pw_window := (pw_window w)[pw_ptr w := time_diff (pw_last_arr w) now],
        pw_ptr := (if pw_ptr w + 1 = length (pw_window w) then 0 else pw_ptr w + 1),
        pw_last_arr := now\<rparr>)
      else Inl Undefined)"

definition probe1Arrival :: "64 word \<Rightarrow> pkt_time_window \<Rightarrow> pkt_time_window" where
  "probe1Arrival now w = w\<lparr>pw_probe_time := now\<rparr>"

definition probe2Arrival :: "64 word \<Rightarrow> pkt_time_window \<Rightarrow> pkt_time_window res" where
  "probe2Arrival now w =
     (if pw_probe_ptr w < length (pw_probes w)
      then Inr (w\<lparr>pw_curr_arr := now,
        pw_probes := (pw_probes w)[pw_probe_ptr w := time_diff (pw_probe_time w) now],
        pw_probe_ptr := (if pw_probe_ptr w + 1 = length (pw_probes w) then 0 else pw_probe_ptr w + 1)\<rparr>)
      else Inl Undefined)"

end
