(* ===== verification/UdtWindowProperties.thy ===== *)
theory UdtWindowProperties
  imports UdtWindow "HOL-Library.Multiset" "HOL-Library.Word"
begin

text \<open>
  The history windows: the window of acknowledgements is a bounded queue, and the speed of arrival is
  computed from the true median of the intervals, though the window loses their order in time.
\<close>

section \<open>The window of acknowledgements\<close>

definition aw_ok :: "ack_window \<Rightarrow> bool" where
  "aw_ok w \<longleftrightarrow> 0 \<le> aw_head w \<and> aw_head w < aw_size w \<and> 0 \<le> aw_tail w \<and> aw_tail w < aw_size w"

definition aw_entry :: "ack_window \<Rightarrow> int \<Rightarrow> int \<times> int \<times> 64 word" where
  "aw_entry w i = (aw_seqno w i, aw_ack w i, aw_time w i)"

definition aw_count :: "ack_window \<Rightarrow> int" where
  "aw_count w = (aw_head w - aw_tail w) mod aw_size w"

text \<open>The entries from the oldest to the newest.\<close>

definition aw_entries :: "ack_window \<Rightarrow> (int \<times> int \<times> 64 word) list" where
  "aw_entries w = map (\<lambda>j. aw_entry w (j mod aw_size w)) [aw_tail w..aw_tail w + aw_count w - 1]"

lemma smod_pos: "0 \<le> a \<Longrightarrow> 0 < n \<Longrightarrow> a smod n = a mod (n::int)"
  by (cases "a = 0") (simp_all add: signed_modulo_int_def)

lemma map_mod_shift:
  assumes "a mod n = a' mod (n::int)"
  shows "map (\<lambda>j. f (j mod n)) [a..a + d] = map (\<lambda>j. f (j mod n)) [a'..a' + d]"
proof (rule nth_equalityI)
  fix i assume "i < length (map (\<lambda>j. f (j mod n)) [a..a + d])"
  then have i: "int i \<le> d" by simp
  have "(a + int i) mod n = (a' + int i) mod n" using assms by (metis mod_add_left_eq)
  then show "map (\<lambda>j. f (j mod n)) [a..a + d] ! i = map (\<lambda>j. f (j mod n)) [a'..a' + d] ! i"
    using i by (subst (1 2) nth_map) simp_all
qed simp

lemma aw_count_bounds: "aw_ok w \<Longrightarrow> 0 \<le> aw_count w \<and> aw_count w < aw_size w
    \<and> (aw_tail w + aw_count w) mod aw_size w = aw_head w"
  by (auto simp: aw_ok_def aw_count_def mod_simps)

lemma aw_entries_length: "aw_ok w \<Longrightarrow> int (length (aw_entries w)) = aw_count w"
  using aw_count_bounds [of w] by (simp add: aw_entries_def)

text \<open>What a window is after a change of its ends.\<close>

lemma aw_entriesI:
  assumes "aw_size w = n" "0 \<le> d" "d < n" "aw_tail w mod n = a mod n" "aw_head w mod n = (a + d) mod n"
  shows "aw_entries w = map (\<lambda>j. aw_entry w (j mod n)) [a..a + d - 1]"
proof -
  have "aw_count w = (aw_head w - aw_tail w) mod n" using assms(1) by (simp add: aw_count_def)
  also have "\<dots> = (aw_head w mod n - aw_tail w mod n) mod n" by (simp add: mod_simps)
  also have "\<dots> = d" unfolding assms(4,5) using assms(2,3) by (simp add: mod_simps)
  finally show ?thesis
    using map_mod_shift [OF assms(4), of "aw_entry w" "d - 1", unfolded add_diff_eq] assms(1)
    by (simp add: aw_entries_def)
qed

lemma ack_store_ok:
  assumes "aw_ok w"
  shows "\<exists>w'. ack_store now sq ack w = Inr w' \<and> aw_ok w' \<and> aw_size w' = aw_size w
    \<and> aw_entries w' = (if int (length (aw_entries w)) + 1 = aw_size w then tl (aw_entries w @ [(sq, ack, now)])
        else aw_entries w @ [(sq, ack, now)])"
proof -
  let ?n = "aw_size w" and ?h = "aw_head w" and ?t = "aw_tail w" and ?c = "aw_count w"
  note ok = assms [unfolded aw_ok_def]
  note c = aw_count_bounds [OF assms]
  define u where "u = w\<lparr>aw_seqno := (aw_seqno w)(?h := sq), aw_ack := (aw_ack w)(?h := ack),
    aw_time := (aw_time w)(?h := now), aw_head := (?h + 1) mod ?n\<rparr>"
  define v where "v = (if aw_head u = ?t then u\<lparr>aw_tail := (?t + 1) mod ?n\<rparr> else u)"
  have run: "ack_store now sq ack w = Inr v"
    using ok by (simp add: v_def u_def ack_store_def array_set_def Let_def smod_pos)
  have entry: "aw_entry v i = (if i = ?h then (sq, ack, now) else aw_entry w i)" for i
    by (simp add: aw_entry_def v_def u_def)
  have v: "aw_size v = ?n" "aw_head v = (?h + 1) mod ?n"
    "aw_tail v = (if (?h + 1) mod ?n = ?t then (?t + 1) mod ?n else ?t)"
    by (simp_all add: v_def u_def)
  have other: "j mod ?n \<noteq> ?h" if "?t \<le> j" "j < ?t + ?c" for j
  proof
    assume "j mod ?n = ?h"
    then have "(?t + ?c) mod ?n = j mod ?n" using c by simp
    then have "?n dvd ?t + ?c - j" by (simp add: mod_eq_dvd_iff)
    then have "?n \<le> ?t + ?c - j" using that by (intro zdvd_imp_le) auto
    with that c show False by linarith
  qed
  have row: "map (\<lambda>j. aw_entry v (j mod ?n)) [?t..?t + ?c] = aw_entries w @ [(sq, ack, now)]"
  proof -
    have "[?t..?t + ?c] = [?t..?t + ?c - 1] @ [?t + ?c]" using c by (simp add: upto_rec2)
    moreover have "map (\<lambda>j. aw_entry v (j mod ?n)) [?t..?t + ?c - 1] = aw_entries w"
      unfolding aw_entries_def using other by (intro map_cong refl) (simp add: entry)
    ultimately show ?thesis using c entry [of "(?t + ?c) mod ?n"] by simp
  qed
  have h': "(?h + 1) mod ?n = (?t + ?c + 1) mod ?n" using c by (metis mod_add_left_eq)
  have len: "int (length (aw_entries w)) = ?c" by (rule aw_entries_length [OF assms])
  have aw: "aw_ok v" using ok v by (auto simp: aw_ok_def)
  show ?thesis
  proof (cases "?c + 1 = ?n")
    case True
    have full: "(?h + 1) mod ?n = ?t" using h' True ok by (simp add: add.assoc)
    have turn: "?t + 1 + ?c = ?t + ?n" using True by simp
    have "aw_entries v = map (\<lambda>j. aw_entry v (j mod ?n)) [?t + 1..?t + 1 + ?c - 1]"
      using c full True v by (intro aw_entriesI) (simp_all add: turn)
    also have "\<dots> = tl (map (\<lambda>j. aw_entry v (j mod ?n)) [?t..?t + ?c])"
      using c by (simp add: upto_rec1 [of ?t])
    finally show ?thesis using run aw True len v(1) unfolding row by (intro exI [of _ v]) simp
  next
    case False
    have "(?h + 1) mod ?n \<noteq> ?t"
    proof
      assume "(?h + 1) mod ?n = ?t"
      then have "(?t + ?c + 1) mod ?n = ?t mod ?n" using h' ok by simp
      then have "?n dvd ?c + 1" by (simp add: mod_eq_dvd_iff add.assoc)
      then have "?n \<le> ?c + 1" using c by (intro zdvd_imp_le) auto
      with False c show False by linarith
    qed
    then have "aw_entries v = map (\<lambda>j. aw_entry v (j mod ?n)) [?t..?t + (?c + 1) - 1]"
      using c False h' v by (intro aw_entriesI) (auto simp: mod_simps add.assoc)
    then show ?thesis using run aw False len row v(1) by (intro exI [of _ v]) simp
  qed
qed

lemma ack_loop_ok:
  assumes "aw_ok w" "aw_tail w \<le> a" "a \<le> aw_tail w + aw_count w"
    and "wraps \<longleftrightarrow> aw_head w < aw_tail w"
  shows "case dropWhile (\<lambda>e. fst e \<noteq> sq) (map (\<lambda>j. aw_entry w (j mod aw_size w)) [a..aw_tail w + aw_count w - 1]) of
      [] \<Rightarrow> ack_loop wraps now sq w [a..aw_tail w + aw_count w - 1] = Inr (w, None)
    | (_, ack, t) # es \<Rightarrow> \<exists>w'. ack_loop wraps now sq w [a..aw_tail w + aw_count w - 1]
        = Inr (w', Some (ack, time_diff t now)) \<and> aw_ok w' \<and> aw_size w' = aw_size w \<and> aw_entries w' = es"
  using assms(2,3)
proof (induction "nat (aw_tail w + aw_count w - a)" arbitrary: a)
  case 0
  then show ?case by simp
next
  case (Suc m a)
  let ?n = "aw_size w" and ?h = "aw_head w" and ?t = "aw_tail w" and ?c = "aw_count w"
  note ok = assms(1) [unfolded aw_ok_def] and c = aw_count_bounds [OF assms(1)]
  let ?i = "a mod ?n"
  have less: "a < ?t + ?c" using Suc.hyps(2) by linarith
  have js: "[a..?t + ?c - 1] = a # [a + 1..?t + ?c - 1]" using less by (simp add: upto_rec1)
  have index: "(if wraps then a smod ?n else a) = ?i"
  proof (cases wraps)
    case True
    then show ?thesis using Suc.prems ok by (simp add: smod_pos)
  next
    case False
    then have "?c = ?h - ?t" using assms(4) ok by (simp add: aw_count_def)
    then show ?thesis using False less Suc.prems(1) ok by simp
  qed
  have i: "0 \<le> ?i" "?i < ?n" using ok by auto
  show ?case
  proof (cases "aw_seqno w ?i = sq")
    case False
    have rest: "case dropWhile (\<lambda>e. fst e \<noteq> sq) (map (\<lambda>j. aw_entry w (j mod ?n)) [a + 1..?t + ?c - 1]) of
      [] \<Rightarrow> ack_loop wraps now sq w [a + 1..?t + ?c - 1] = Inr (w, None)
    | (_, ack, t) # es \<Rightarrow> \<exists>w'. ack_loop wraps now sq w [a + 1..?t + ?c - 1]
        = Inr (w', Some (ack, time_diff t now)) \<and> aw_ok w' \<and> aw_size w' = aw_size w \<and> aw_entries w' = es"
      using Suc.hyps(2) Suc.prems less by (intro Suc.hyps(1)) auto
    have skip: "ack_loop wraps now sq w [a..?t + ?c - 1] = ack_loop wraps now sq w [a + 1..?t + ?c - 1]"
      unfolding js using False i index by (subst ack_loop.simps(2)) (auto simp: array_get_def Let_def)
    show ?thesis unfolding skip unfolding js using rest False by (simp add: aw_entry_def)
  next
    case True
    let ?w1 = "w\<lparr>aw_tail := 0, aw_head := 0, aw_seqno := (aw_seqno w)(0 := - 1)\<rparr>"
    let ?w2 = "w\<lparr>aw_tail := (?i + 1) mod ?n\<rparr>"
    define w' where "w' = (if (if wraps then ?i else ?i + 1) = ?h then ?w1 else ?w2)"
    have run: "ack_loop wraps now sq w [a..?t + ?c - 1] = Inr (w', Some (aw_ack w ?i, time_diff (aw_time w ?i) now))"
      unfolding js using True i index ok
      by (subst ack_loop.simps(2), cases wraps)
        (auto simp: array_get_def array_set_def Let_def w'_def smod_pos)
    have "aw_entries w' = map (\<lambda>j. aw_entry w (j mod ?n)) [a + 1..?t + ?c - 1]"
    proof (cases "(if wraps then ?i else ?i + 1) = ?h")
      case True
      have "?t + ?c - 1 = a"
      proof (cases wraps)
        case True
        have "(?t + ?c) mod ?n = a mod ?n" using c \<open>(if wraps then ?i else ?i + 1) = ?h\<close> True by simp
        then have "?n dvd ?t + ?c - a" by (simp only: mod_eq_dvd_iff)
        then have "?n \<le> ?t + ?c - a" using less by (intro zdvd_imp_le) auto
        then show ?thesis using c Suc.prems by linarith
      next
        case False
        then have "?c = ?h - ?t" using assms(4) ok by (simp add: aw_count_def)
        then show ?thesis using \<open>(if wraps then ?i else ?i + 1) = ?h\<close> False index by simp
      qed
      moreover have "aw_entries w' = []" using True by (simp add: w'_def aw_entries_def aw_count_def)
      ultimately show ?thesis by simp
    next
      case False
      then have w': "w' = ?w2" by (simp add: w'_def)
      have "aw_entries w' = map (\<lambda>j. aw_entry w' (j mod ?n)) [a + 1..a + 1 + (?t + ?c - 1 - a) - 1]"
        using c ok less Suc.prems unfolding w' by (intro aw_entriesI) (auto simp: mod_simps)
      then show ?thesis by (simp add: w' aw_entry_def)
    qed
    moreover have "aw_ok w'" "aw_size w' = ?n" using ok by (auto simp: w'_def aw_ok_def)
    ultimately show ?thesis unfolding js using True run unfolding js by (simp add: aw_entry_def)
  qed
qed

lemma acknowledge_ok:
  assumes "aw_ok w"
  shows "case dropWhile (\<lambda>e. fst e \<noteq> sq) (aw_entries w) of
      [] \<Rightarrow> acknowledge now sq ack_in w = Inr (w, ack_in, - 1)
    | (_, ack, t) # es \<Rightarrow> \<exists>w'. acknowledge now sq ack_in w = Inr (w', ack, time_diff t now)
        \<and> aw_ok w' \<and> aw_size w' = aw_size w \<and> aw_entries w' = es"
proof -
  let ?wraps = "aw_head w < aw_tail w"
  have "aw_head w + (if ?wraps then aw_size w else 0) = aw_tail w + aw_count w"
  proof (cases ?wraps)
    case True
    have "aw_count w = (aw_head w - aw_tail w + aw_size w) mod aw_size w" by (simp add: aw_count_def)
    also have "\<dots> = aw_head w - aw_tail w + aw_size w"
      using True assms by (intro mod_pos_pos_trivial) (auto simp: aw_ok_def)
    finally show ?thesis using True by simp
  next
    case False
    then show ?thesis using assms by (auto simp: aw_ok_def aw_count_def)
  qed
  then have run: "acknowledge now sq ack_in w =
      bind_res (ack_loop ?wraps now sq w [aw_tail w..aw_tail w + aw_count w - 1])
        (\<lambda>(w, r). case r of None \<Rightarrow> Inr (w, ack_in, - 1) | Some (ack, rtt) \<Rightarrow> Inr (w, ack, rtt))"
    by (auto simp: acknowledge_def split: if_splits)
  note loop = ack_loop_ok [where sq = sq and now = now, OF assms order_refl _ refl, folded aw_entries_def]
  have "aw_tail w \<le> aw_tail w + aw_count w" using aw_count_bounds [OF assms] by simp
  note loop = loop [OF this]
  show ?thesis
  proof (cases "dropWhile (\<lambda>e. fst e \<noteq> sq) (aw_entries w)")
    case Nil
    then show ?thesis using loop unfolding run Nil by simp
  next
    case (Cons e es)
    then show ?thesis using loop unfolding run Cons by (cases e) force
  qed
qed

text \<open>What the receiver does with the window, and the queue of the entries that can be found.\<close>

datatype aw_op = Ack_sent "64 word" int int | Ack_acked "64 word" int

fun aw_step :: "ack_window \<times> (int \<times> int) list \<Rightarrow> aw_op \<Rightarrow> (ack_window \<times> (int \<times> int) list) res" where
  "aw_step (w, out) (Ack_sent t sq ack) = bind_res (ack_store t sq ack w) (\<lambda>w. Inr (w, out))"
| "aw_step (w, out) (Ack_acked t sq) = bind_res (acknowledge t sq 0 w) (\<lambda>(w, r). Inr (w, out @ [r]))"

fun aw_queue :: "int \<Rightarrow> (int \<times> int \<times> 64 word) list \<times> (int \<times> int) list \<Rightarrow> aw_op
    \<Rightarrow> (int \<times> int \<times> 64 word) list \<times> (int \<times> int) list" where
  "aw_queue n (es, out) (Ack_sent t sq ack) =
     (if int (length es) + 1 = n then tl (es @ [(sq, ack, t)]) else es @ [(sq, ack, t)], out)"
| "aw_queue n (es, out) (Ack_acked t sq) =
     (case dropWhile (\<lambda>e. fst e \<noteq> sq) es of
        [] \<Rightarrow> (es, out @ [(0, - 1)])
      | (_, ack, t0) # es' \<Rightarrow> (es', out @ [(ack, time_diff t0 t)]))"

lemma aw_steps:
  assumes "aw_ok w"
  shows "\<exists>w'. fold_res aw_step (w, out) rs = Inr (w', snd (foldl (aw_queue (aw_size w)) (aw_entries w, out) rs))
    \<and> aw_entries w' = fst (foldl (aw_queue (aw_size w)) (aw_entries w, out) rs)"
  using assms
proof (induction rs arbitrary: w out)
  case (Cons r rs)
  have "\<exists>w' out'. aw_step (w, out) r = Inr (w', out') \<and> aw_ok w' \<and> aw_size w' = aw_size w
    \<and> aw_queue (aw_size w) (aw_entries w, out) r = (aw_entries w', out')"
  proof (cases r)
    case (Ack_sent t sq ack)
    then show ?thesis using ack_store_ok [OF Cons.prems, of t sq ack] by auto
  next
    case (Ack_acked t sq)
    note found = acknowledge_ok [where sq = sq and now = t and ack_in = 0, OF Cons.prems]
    show ?thesis
    proof (cases "dropWhile (\<lambda>e. fst e \<noteq> sq) (aw_entries w)")
      case Nil
      then show ?thesis using found Cons.prems Ack_acked unfolding Nil by (simp add: Nil)
    next
      case (Cons e es)
      then show ?thesis using found Ack_acked unfolding Cons by (cases e) (auto simp: Cons)
    qed
  qed
  then obtain w' out' where "aw_step (w, out) r = Inr (w', out')" "aw_ok w'" "aw_size w' = aw_size w"
    "aw_queue (aw_size w) (aw_entries w, out) r = (aw_entries w', out')" by blast
  with Cons.IH [of w' out'] show ?case by simp
qed simp

text \<open>C19:
  the window of acknowledgements is a bounded queue: whatever was stored before, \<open>acknowledge\<close> finds
  the oldest entry of its number among the last \<open>size - 1\<close> ones that no later acknowledgement has
  passed, gives the number and the round trip time it carries, and forgets it with all older ones; else
  it gives \<open>- 1\<close> and changes nothing. No operation leaves the arrays.
\<close>

theorem ack_window_is_a_queue:
  assumes "0 < sz"
  shows "\<exists>w. fold_res aw_step (ACKWindow_new seq0 acks0 time0 sz, []) rs
      = Inr (w, snd (foldl (aw_queue sz) ([], []) rs))
    \<and> aw_entries w = fst (foldl (aw_queue sz) ([], []) rs)"
proof -
  have "aw_ok (ACKWindow_new seq0 acks0 time0 sz)" using assms by (simp add: aw_ok_def ACKWindow_new_def)
  from aw_steps [OF this, of "[]" rs] show ?thesis
    by (simp add: aw_entries_def aw_count_def ACKWindow_new_def)
qed

text \<open>A window of three overwrites its oldest entry, wraps, and forgets what was passed.\<close>

lemma ack_window_is_a_queue_witness:
  "\<exists>w. fold_res aw_step (ACKWindow_new (\<lambda>_. 7) (\<lambda>_. 7) (\<lambda>_. 7) 3, [])
      [Ack_sent 10 1 100, Ack_sent 20 2 200, Ack_sent 30 3 300, Ack_acked 50 1, Ack_acked 60 3, Ack_acked 70 2]
      = Inr (w, [(0, - 1), (300, 30), (0, - 1)]) \<and> aw_entries w = []"
  using ack_window_is_a_queue [of 3 "\<lambda>_. 7" "\<lambda>_. 7" "\<lambda>_. 7"
      "[Ack_sent 10 1 100, Ack_sent 20 2 200, Ack_sent 30 3 300, Ack_acked 50 1, Ack_acked 60 3, Ack_acked 70 2]"]
  by (simp add: time_diff_def)
section \<open>Sorting\<close>

lemma exchange_pass_ok:
  assumes "i < length xs" "\<forall>j \<in> set js. i \<le> j \<and> j < length xs" "distinct js"
  shows "length (exchange_pass i js xs) = length xs \<and> mset (exchange_pass i js xs) = mset xs
    \<and> take i (exchange_pass i js xs) = take i xs \<and> exchange_pass i js xs ! i \<le> xs ! i
    \<and> (\<forall>j \<in> set js. exchange_pass i js xs ! i \<le> exchange_pass i js xs ! j)
    \<and> (\<forall>j. i < j \<longrightarrow> j \<notin> set js \<longrightarrow> exchange_pass i js xs ! j = xs ! j)"
  using assms
proof (induction js arbitrary: xs)
  case (Cons j js)
  let ?ys = "if xs ! i > xs ! j then xs[i := xs ! j, j := xs ! i] else xs"
  have len: "length ?ys = length xs" by simp
  have IH: "length (exchange_pass i js ?ys) = length ?ys \<and> mset (exchange_pass i js ?ys) = mset ?ys
    \<and> take i (exchange_pass i js ?ys) = take i ?ys \<and> exchange_pass i js ?ys ! i \<le> ?ys ! i
    \<and> (\<forall>j \<in> set js. exchange_pass i js ?ys ! i \<le> exchange_pass i js ?ys ! j)
    \<and> (\<forall>j. i < j \<longrightarrow> j \<notin> set js \<longrightarrow> exchange_pass i js ?ys ! j = ?ys ! j)"
    using Cons.prems unfolding len [symmetric] by (intro Cons.IH) auto
  have ms: "mset ?ys = mset xs" using Cons.prems by (simp add: mset_swap)
  have tk: "take i ?ys = take i xs" using Cons.prems by simp
  have yi: "?ys ! i \<le> xs ! i" "?ys ! i \<le> ?ys ! j" using Cons.prems by (auto simp: nth_list_update)
  have yk: "\<forall>m. i < m \<longrightarrow> m \<noteq> j \<longrightarrow> ?ys ! m = xs ! m" by (simp add: nth_list_update)
  have j: "j \<notin> set js" "i \<le> j" using Cons.prems by auto
  show ?case
  proof (intro conjI ballI allI impI)
    fix m assume "m \<in> set (j # js)"
    then consider "m \<in> set js" | "m = j" "i = j" | "m = j" "i < j" using j by fastforce
    then show "exchange_pass i (j # js) xs ! i \<le> exchange_pass i (j # js) xs ! m"
      using IH yi j by cases auto
  qed (use IH ms tk yi yk in \<open>auto simp del: mset_swap\<close>)
qed simp

text \<open>After the passes up to \<open>m\<close> the values in front are the least ones in their order.\<close>

lemma passes_ok:
  assumes "m \<le> length xs"
  shows "length (fold (\<lambda>i ys. exchange_pass i [i..<length xs] ys) [0..<m] xs) = length xs
    \<and> mset (fold (\<lambda>i ys. exchange_pass i [i..<length xs] ys) [0..<m] xs) = mset xs
    \<and> (\<forall>p q. p < m \<longrightarrow> p \<le> q \<longrightarrow> q < length xs \<longrightarrow>
        fold (\<lambda>i ys. exchange_pass i [i..<length xs] ys) [0..<m] xs ! p
        \<le> fold (\<lambda>i ys. exchange_pass i [i..<length xs] ys) [0..<m] xs ! q)"
  using assms
proof (induction m)
  case (Suc m)
  define ys where "ys = fold (\<lambda>i ys. exchange_pass i [i..<length xs] ys) [0..<m] xs"
  define zs where "zs = exchange_pass m [m..<length xs] ys"
  have ys: "length ys = length xs" "mset ys = mset xs"
    "\<And>p q. p < m \<Longrightarrow> p \<le> q \<Longrightarrow> q < length xs \<Longrightarrow> ys ! p \<le> ys ! q"
    using Suc by (auto simp: ys_def)
  have zs: "length zs = length ys" "mset zs = mset ys" "take m zs = take m ys"
    "\<And>q. m \<le> q \<Longrightarrow> q < length xs \<Longrightarrow> zs ! m \<le> zs ! q"
    using exchange_pass_ok [of m ys "[m..<length xs]"] ys(1) Suc.prems unfolding zs_def by auto
  have drop: "set (drop m zs) = set (drop m ys)"
  proof -
    have "mset (take m zs) + mset (drop m zs) = mset (take m ys) + mset (drop m ys)"
      using zs(2) by (metis append_take_drop_id mset_append)
    then show ?thesis using zs(3) by (metis add_left_cancel set_mset_mset)
  qed
  have "zs ! p \<le> zs ! q" if "p < Suc m" "p \<le> q" "q < length xs" for p q
  proof (cases "p = m")
    case True
    then show ?thesis using zs(4) that by simp
  next
    case False
    then have p: "p < m" "zs ! p = ys ! p" using that zs(3) by (simp, metis nth_take less_Suc_eq)
    show ?thesis
    proof (cases "q < m")
      case True
      then have "zs ! q = ys ! q" using zs(3) by (metis nth_take)
      then show ?thesis using p ys(3) that by simp
    next
      case False
      then have "zs ! q = drop m zs ! (q - m)" "q - m < length (drop m zs)" using that zs(1) ys(1) by simp_all
      then have "zs ! q \<in> set (drop m zs)" by (metis nth_mem)
      then obtain r where "r < length (drop m ys)" "zs ! q = drop m ys ! r" unfolding drop by (metis in_set_conv_nth)
      then show ?thesis using p ys(1) ys(3) [of p "m + r"] by simp
    qed
  qed
  then show ?case using zs ys by (simp add: ys_def [symmetric] zs_def [symmetric])
qed simp

lemma sort_half_ok:
  assumes "2 \<le> length xs"
  shows "mset (sort_half xs) = mset xs"
    and "i \<le> length xs div 2 \<Longrightarrow> sort_half xs ! i = sort xs ! i"
proof -
  let ?m = "length xs div 2 + 1" and ?ys = "sort_half xs"
  note ok = passes_ok [of ?m xs]
  have ys: "length ?ys = length xs" "mset ?ys = mset xs"
    "\<And>p q. p < ?m \<Longrightarrow> p \<le> q \<Longrightarrow> q < length xs \<Longrightarrow> ?ys ! p \<le> ?ys ! q"
    using ok assms unfolding sort_half_def by auto
  show "mset ?ys = mset xs" by (rule ys(2))
  have m: "?m \<le> length xs" using assms by simp
  let ?s = "take ?m ?ys @ sort (drop ?m ?ys)"
  have "sorted (take ?m ?ys)" using ys(1,3) m by (auto simp: sorted_iff_nth_mono)
  moreover have "a \<le> b" if a: "a \<in> set (take ?m ?ys)" and b: "b \<in> set (drop ?m ?ys)" for a b
  proof -
    obtain p where "p < ?m" "a = ?ys ! p" using a ys(1) m by (auto simp: in_set_conv_nth)
    moreover obtain q where "q < length (drop ?m ?ys)" "b = ?ys ! (?m + q)"
      using b by (auto simp: in_set_conv_nth)
    ultimately show ?thesis using ys(1) ys(3) [of p "?m + q"] by simp
  qed
  ultimately have "sorted ?s" by (auto simp: sorted_append)
  moreover have "mset ?s = mset xs" using ys(2) by (metis append_take_drop_id mset_append mset_sort)
  ultimately have "sort xs = ?s" by (metis properties_for_sort)
  then show "?ys ! i = sort xs ! i" if "i \<le> length xs div 2" using that ys(1) m by (simp add: nth_append)
qed

section \<open>The speed of arrival\<close>

lemma fold_int_res:
  assumes "\<forall>x \<in> set xs. 0 \<le> x \<and> x < b" "0 \<le> s" "s + int (length xs) * b \<le> 2 ^ 31" "0 < b"
    "s < 2 ^ 31"
  shows "fold_res (\<lambda>s x. int_res (s + x)) s xs = Inr (s + sum_list xs)"
  using assms
proof (induction xs arbitrary: s)
  case (Cons x xs)
  have x: "0 \<le> x" "x < b" using Cons.prems(1) by auto
  have room: "s + x + int (length xs) * b + (b - x) \<le> 2 ^ 31" using Cons.prems(3) by (simp add: algebra_simps)
  have "0 \<le> int (length xs) * b" using Cons.prems(4) by simp
  then have sx: "s + x < 2 ^ 31" using room x by linarith
  have "fold_res (\<lambda>s x. int_res (s + x)) (s + x) xs = Inr (s + x + sum_list xs)"
    using Cons.prems x room sx by (intro Cons.IH) auto
  then show ?case using x sx Cons.prems(2) by (simp add: int_res_def)
qed simp

definition true_median :: "int list \<Rightarrow> int" where
  "true_median xs = (sort xs ! (length xs div 2 - 1) + sort xs ! (length xs div 2)) div 2"

definition near_values :: "int list \<Rightarrow> int list" where
  "near_values xs = filter (\<lambda>x. true_median xs div 8 < x \<and> x < 8 * true_median xs) xs"

lemma sort_half_length [simp]: "2 \<le> length xs \<Longrightarrow> length (sort_half xs) = length xs"
  using sort_half_ok(1) by (metis size_mset)

lemma median_ok:
  assumes "2 \<le> length xs" "\<forall>x \<in> set xs. 0 \<le> x \<and> x < 2 ^ 27"
  shows "median (sort_half xs) = Inr (true_median xs)" and "0 \<le> true_median xs \<and> true_median xs < 2 ^ 27"
proof -
  have nth: "sort_half xs ! i = sort xs ! i" if "i \<le> length xs div 2" for i
    using sort_half_ok(2) [OF assms(1) that] .
  have range: "0 \<le> sort xs ! i \<and> sort xs ! i < 2 ^ 27" if "i \<le> length xs div 2" for i
  proof -
    have "i < length xs" using that assms(1) by linarith
    then have "sort xs ! i \<in> set (sort xs)" by (intro nth_mem) simp
    then show ?thesis using assms(2) by simp
  qed
  note r1 = range [of "length xs div 2"] and r2 = range [of "length xs div 2 - 1"]
  show "median (sort_half xs) = Inr (true_median xs)"
    using r1 r2 assms(1) nth by (auto simp: median_def true_median_def int_res_def)
  show "0 \<le> true_median xs \<and> true_median xs < 2 ^ 27" using r1 r2 unfolding true_median_def by (simp, linarith)
qed

text \<open>On a window of two to sixteen intervals below \<open>2 ^ 27\<close> microseconds, \<open>getPktRcvSpeed\<close> does not overflow: it
  gives the speed of the average of the intervals between an eighth and eight times the true median, or
  0 when they are no majority, though only half of the window is sorted; it changes nothing but the
  order of the window.
\<close>

theorem getPktRcvSpeed_median:
  assumes "2 \<le> length (pw_window w)" "length (pw_window w) \<le> 16" "\<forall>x \<in> set (pw_window w). 0 \<le> x \<and> x < 2 ^ 27"
  shows "\<exists>xs. mset xs = mset (pw_window w) \<and> getPktRcvSpeed speed w = Inr (w\<lparr>pw_window := xs\<rparr>,
    let good = near_values (pw_window w)
    in if length (pw_window w) div 2 < length good then speed (sum_list good sdiv int (length good)) else 0)"
proof -
  let ?xs = "pw_window w" let ?ys = "sort_half ?xs" let ?m = "true_median ?xs"
  let ?good = "filter (\<lambda>x. x < ?m * 8 \<and> x > ?m div 8) ?ys"
  have perm: "mset ?ys = mset ?xs" by (rule sort_half_ok(1) [OF assms(1)])
  note med = median_ok [OF assms(1,3)]
  have "mset ?good = mset (near_values ?xs)" by (simp add: near_values_def perm ac_simps)
  then have same: "length ?good = length (near_values ?xs)" "sum_list ?good = sum_list (near_values ?xs)"
    by (metis size_mset, metis sum_mset_sum_list)
  have "set ?ys = set ?xs" using perm by (metis set_mset_mset)
  then have "\<forall>x \<in> set ?good. 0 \<le> x \<and> x < 2 ^ 27" using assms(3) by simp
  moreover have "length ?good \<le> 16"
    using assms(1,2) length_filter_le [of "\<lambda>x. x < ?m * 8 \<and> x > ?m div 8" ?ys] by simp
  ultimately have "fold_res (\<lambda>s x. int_res (s + x)) 0 ?good = Inr (0 + sum_list ?good)"
    by (intro fold_int_res [where b = "2 ^ 27"]) auto
  then have "near_median ?m 0 ?ys = Inr (?good, sum_list ?good)"
    using med(2) by (simp add: near_median_def int_res_def Let_def)
  then show ?thesis
    using assms(1) perm med(1) same by (intro exI [of _ ?ys]) (simp add: getPktRcvSpeed_def Let_def)
qed

lemma getPktRcvSpeed_median_witness:
  "\<exists>xs. mset xs = mset [70, 10, 90, 80] \<and>
    getPktRcvSpeed (\<lambda>x. 1000000 div x) (PktTimeWindow_new 0 4 4\<lparr>pw_window := [70, 10, 90, 80]\<rparr>)
    = Inr (PktTimeWindow_new 0 4 4\<lparr>pw_window := xs\<rparr>, 16129)"
  using getPktRcvSpeed_median [of "PktTimeWindow_new 0 4 4\<lparr>pw_window := [70, 10, 90, 80]\<rparr>" "\<lambda>x. 1000000 div x"]
  by (simp add: near_values_def true_median_def Let_def signed_divide_int_def)

text \<open>
  \<open>getPktRcvSpeed\<close> sorts the circular window where it lies, without moving the position of the next
  interval: the interval that the next arrival overwrites need not be the oldest one. Here the window
  holds 90, 10, 20, 30 from the oldest to the newest; asked for the speed before the next packet, it
  loses the newer 10 and keeps the old 90.
\<close>

lemma speed_reorders_window:
  "let w = PktTimeWindow_new 0 4 4\<lparr>pw_window := [90, 10, 20, 30], pw_last_arr := 100\<rparr> in
   (case onPktArrival 140 w of Inr v \<Rightarrow> set (pw_window v) = {10, 20, 30, 40} | _ \<Rightarrow> False) \<and>
   (case getPktRcvSpeed (\<lambda>_. 0) w of
      Inr (v, _) \<Rightarrow> (case onPktArrival 140 v of Inr v \<Rightarrow> set (pw_window v) = {20, 30, 40, 90} | _ \<Rightarrow> False)
    | _ \<Rightarrow> False)"
  by (simp add: PktTimeWindow_new_def getPktRcvSpeed_def onPktArrival_def sort_half_def median_def
      near_median_def int_res_def time_diff_def upt_rec Let_def insert_commute)

text \<open>
  The times of \<open>onPktSent\<close> are the lower 32 bits of microseconds: 36 minutes after the start of a connection
  the time wraps, and the interval between the packets before and after that overflows.
\<close>

lemma onPktSent_overflows:
  "onPktSent (- (2 ^ 31)) ((PktTimeWindow_default 0)\<lparr>pw_last_sent := 2 ^ 31 - 1\<rparr>) = Inl Undefined"
  by (simp add: onPktSent_def int_res_def)

end
