(* ===== verification/UdtSndUList.thy ===== *)
theory UdtSndUList
  imports Prelude "HOL-Library.Word"
begin

text \<open>
  The list of the sockets that have something to send (\<open>CSndUList\<close> of \<open>src/udt/queue.cpp\<close>): a heap of
  nodes ordered by the time when they are due. A socket and its node \<open>m_pSNode\<close> are one number, and
  the two fields of a node are maps from numbers. Each operation runs under the lock of the list
  and is one step; that the sending thread is woken and its timer interrupted is left out. What the
  storage of a new array holds is an argument.
\<close>

record snd_ulist =
  su_heap :: "nat \<Rightarrow> nat"
  su_size :: nat
  su_last :: int
  su_time :: "nat \<Rightarrow> 64 word"
  su_loc :: "nat \<Rightarrow> int"

text \<open>The positions of the array.\<close>

definition in_heap :: "snd_ulist \<Rightarrow> int \<Rightarrow> bool" where
  "in_heap l i \<longleftrightarrow> 0 \<le> i \<and> i < int (su_size l)"

definition SndUList_new :: "(nat \<Rightarrow> nat) \<Rightarrow> (nat \<Rightarrow> 64 word) \<Rightarrow> snd_ulist" where
  "SndUList_new storage time0 =
     \<lparr>su_heap = storage, su_size = 4096, su_last = - 1, su_time = time0, su_loc = (\<lambda>_. - 1)\<rparr>"

text \<open>The loop of \<open>insert_\<close>: a node goes up until its parent is due no later.\<close>

function sift_up :: "nat \<Rightarrow> snd_ulist \<Rightarrow> (snd_ulist \<times> nat) res" where
  "sift_up q l =
     (if q = 0 then Inr (l, q)
      else if in_heap l (int q)
      then
        let p = (q - 1) div 2; t = su_heap l p; m = su_heap l q in
        if su_time l t > su_time l m
        then sift_up p (l\<lparr>su_heap := (su_heap l)(p := m, q := t), su_loc := (su_loc l)(t := int q)\<rparr>)
        else Inr (l, q)
      else Inl Undefined)"
  by auto

termination by (relation "measure fst") auto

declare sift_up.simps [simp del]

definition su_insert_node :: "64 word \<Rightarrow> nat \<Rightarrow> snd_ulist \<Rightarrow> snd_ulist res" where
  "su_insert_node ts n l =
     (if su_loc l n \<ge> 0 then Inr l
      else
        let q = su_last l + 1 in
        if in_heap l q
        then
          bind_res (sift_up (nat q) (l\<lparr>su_heap := (su_heap l)(nat q := n), su_last := q,
            su_time := (su_time l)(n := ts)\<rparr>)) (\<lambda>(l, q). Inr (l\<lparr>su_loc := (su_loc l)(n := int q)\<rparr>))
        else Inl Undefined)"

text \<open>
  The loop of \<open>remove_\<close>: a node goes down until its children are due no earlier. It stops at a node
  without children, and goes on with the child that is due first.
\<close>

definition earlier_child :: "nat \<Rightarrow> snd_ulist \<Rightarrow> nat" where
  "earlier_child p l =
     (if int p + 1 \<le> su_last l \<and> su_time l (su_heap l p) > su_time l (su_heap l (p + 1)) then p + 1 else p)"

function sift_down :: "nat \<Rightarrow> snd_ulist \<Rightarrow> snd_ulist res" where
  "sift_down q l =
     (if int (q * 2 + 1) > su_last l then Inr l
      else if in_heap l (min (int (q * 2 + 1) + 1) (su_last l))
      then
        let p = earlier_child (q * 2 + 1) l; t = su_heap l p; m = su_heap l q in
        if su_time l m > su_time l t
        then sift_down p (l\<lparr>su_heap := (su_heap l)(p := m, q := t), su_loc := (su_loc l)(m := int p, t := int q)\<rparr>)
        else Inr l
      else Inl Undefined)"
  by auto

termination by (relation "measure (\<lambda>(q, l). nat (su_last l) - q)") (auto simp: earlier_child_def split: if_splits)

declare sift_down.simps [simp del]

definition su_remove_node :: "nat \<Rightarrow> snd_ulist \<Rightarrow> snd_ulist res" where
  "su_remove_node n l =
     (if su_loc l n \<ge> 0
      then
        if in_heap l (su_loc l n) \<and> in_heap l (su_last l)
        then
          let q = nat (su_loc l n); m = su_heap l (nat (su_last l)) in
          bind_res (sift_down q (l\<lparr>su_heap := (su_heap l)(q := m), su_last := su_last l - 1,
            su_loc := (su_loc l)(m := int q)\<rparr>)) (\<lambda>l. Inr (l\<lparr>su_loc := (su_loc l)(n := - 1)\<rparr>))
        else Inl Undefined
      else Inr l)"

text \<open>An array of twice the size, with the old one copied to its front.\<close>

definition su_grow :: "(nat \<Rightarrow> nat) \<Rightarrow> snd_ulist \<Rightarrow> snd_ulist" where
  "su_grow storage l =
     l\<lparr>su_heap := (\<lambda>i. if i < su_size l then su_heap l i else storage i), su_size := su_size l * 2\<rparr>"

definition su_insert :: "(nat \<Rightarrow> nat) \<Rightarrow> 64 word \<Rightarrow> nat \<Rightarrow> snd_ulist \<Rightarrow> snd_ulist res" where
  "su_insert storage ts n l =
     su_insert_node ts n (if su_last l = int (su_size l) - 1 then su_grow storage l else l)"

definition su_update :: "nat \<Rightarrow> bool \<Rightarrow> snd_ulist \<Rightarrow> snd_ulist res" where
  "su_update n reschedule l =
     (if su_loc l n \<ge> 0
      then
        if \<not> reschedule then Inr l
        else if su_loc l n = 0 then Inr (l\<lparr>su_time := (su_time l)(n := 1)\<rparr>)
        else bind_res (su_remove_node n l) (su_insert_node 1 n)
      else su_insert_node 1 n l)"

text \<open>
  \<open>pop\<close> gives the socket whose packet is sent, or nothing. What the socket \<open>u\<close> answers stands in the
  arguments: \<open>m_bConnected\<close>, \<open>m_bBroken\<close> and the result and time stamp of \<open>packData\<close>.
\<close>

definition su_pop :: "(nat \<Rightarrow> bool) \<Rightarrow> (nat \<Rightarrow> bool) \<Rightarrow> (nat \<Rightarrow> int \<times> 64 word) \<Rightarrow> snd_ulist
    \<Rightarrow> (snd_ulist \<times> nat option) res" where
  "su_pop connected broken packData l =
     (if su_last l = - 1 then Inr (l, None)
      else if in_heap l 0
      then
        let u = su_heap l 0 in
        bind_res (su_remove_node u l) (\<lambda>l.
          if \<not> connected u \<or> broken u then Inr (l, None)
          else
            let (r, ts) = packData u in
            if r \<le> 0 then Inr (l, None)
            else bind_res (if ts > 0 then su_insert_node ts u l else Inr l) (\<lambda>l. Inr (l, Some u)))
      else Inl Undefined)"

definition getNextProcTime :: "snd_ulist \<Rightarrow> 64 word res" where
  "getNextProcTime l =
     (if su_last l = - 1 then Inr 0 else if in_heap l 0 then Inr (su_time l (su_heap l 0)) else Inl Undefined)"

end
