(* ===== verification/UdtSndUListProperties.thy ===== *)
theory UdtSndUListProperties
  imports UdtSndUList "HOL-Library.Word"
begin

text \<open>
  The list of the senders as a map from sockets to the times when they are due: the positions that
  the nodes keep are right whatever happens. The first node is the earliest as long as only the
  first one is taken out; a removal from inside can leave a node below a later one.
\<close>

section \<open>The invariant\<close>

abbreviation su_count :: "snd_ulist \<Rightarrow> nat" where
  "su_count l \<equiv> nat (su_last l + 1)"

abbreviation su_nodes :: "snd_ulist \<Rightarrow> nat set" where
  "su_nodes l \<equiv> su_heap l ` {..<su_count l}"

text \<open>The nodes in the heap but \<open>m\<close> know their position \<open>q\<close>.\<close>

definition su_located :: "nat option \<Rightarrow> snd_ulist \<Rightarrow> bool" where
  "su_located hole l \<longleftrightarrow> inj_on (su_heap l) {..<su_count l}
    \<and> (\<forall>i < su_count l. Some i \<noteq> hole \<longrightarrow> su_loc l (su_heap l i) = int i)"

definition su_ok :: "snd_ulist \<Rightarrow> bool" where
  "su_ok l \<longleftrightarrow> - 1 \<le> su_last l \<and> su_last l < int (su_size l) \<and> su_located None l
    \<and> (\<forall>n. n \<notin> su_nodes l \<longrightarrow> su_loc l n = - 1)"

definition su_map :: "snd_ulist \<Rightarrow> nat \<Rightarrow> 64 word option" where
  "su_map l n = (if su_loc l n \<ge> 0 then Some (su_time l n) else None)"

text \<open>What moving nodes inside the heap leaves alone.\<close>

definition su_same :: "snd_ulist \<Rightarrow> snd_ulist \<Rightarrow> bool" where
  "su_same l l' \<longleftrightarrow> su_size l' = su_size l \<and> su_last l' = su_last l \<and> su_time l' = su_time l
    \<and> su_heap l' ` {..<su_count l} = su_nodes l
    \<and> (\<forall>n. n \<notin> su_nodes l \<longrightarrow> su_loc l' n = su_loc l n)"

lemma su_same_refl [simp]: "su_same l l"
  by (simp add: su_same_def)

lemma su_same_trans: "su_same l l' \<Longrightarrow> su_same l' l'' \<Longrightarrow> su_same l l''"
  by (auto simp: su_same_def)

lemma su_swap:
  assumes "su_located (Some q) l" "p < su_count l" "q < su_count l" "p \<noteq> q"
  shows "su_located (Some p) (l\<lparr>su_heap := (su_heap l)(p := su_heap l q, q := su_heap l p),
      su_loc := (su_loc l)(su_heap l p := int q)\<rparr>)"
    and "su_same l (l\<lparr>su_heap := (su_heap l)(p := su_heap l q, q := su_heap l p),
      su_loc := (su_loc l)(su_heap l p := int q)\<rparr>)"
proof -
  let ?h = "su_heap l" let ?h' = "?h(p := ?h q, q := ?h p)" let ?I = "{..<su_count l}"
  have inj: "inj_on ?h ?I" using assms(1) by (simp add: su_located_def)
  have inj': "inj_on ?h' ?I"
    using inj assms(2-4) by (auto simp: inj_on_def split: if_splits)
  have "?h i \<noteq> ?h p" if "i \<in> ?I" "i \<noteq> p" for i
    using inj that assms(2) by (auto dest: inj_onD)
  then show "su_located (Some p) (l\<lparr>su_heap := ?h', su_loc := (su_loc l)(?h p := int q)\<rparr>)"
    using assms inj' by (auto simp: su_located_def)
  have "?h' ` ?I = ?h ` ?I"
  proof -
    have "?h' ` ?I \<subseteq> ?h ` ?I" using assms(2,3) by auto
    moreover have "card (?h' ` ?I) = card (?h ` ?I)" by (simp only: card_image [OF inj] card_image [OF inj'])
    ultimately show ?thesis by (intro card_subset_eq) auto
  qed
  then show "su_same l (l\<lparr>su_heap := ?h', su_loc := (su_loc l)(?h p := int q)\<rparr>)"
    using assms(2) by (auto simp: su_same_def)
qed

text \<open>Going up, from the position \<open>q\<close> to the one the result names.\<close>

lemma sift_up_ok:
  assumes "su_located (Some q) l" "q < su_count l" "su_last l < int (su_size l)"
  shows "\<exists>l' q'. sift_up q l = Inr (l', q') \<and> su_same l l' \<and> su_located (Some q') l' \<and> q' < su_count l
    \<and> su_heap l' q' = su_heap l q"
  using assms
proof (induction q l rule: sift_up.induct)
  case (1 q l)
  let ?p = "(q - 1) div 2"
  let ?l = "l\<lparr>su_heap := (su_heap l)(?p := su_heap l q, q := su_heap l ?p), su_loc := (su_loc l)(su_heap l ?p := int q)\<rparr>"
  have in_heap: "in_heap l (int q)" using "1.prems" by (simp add: in_heap_def)
  show ?case
  proof (cases "q \<noteq> 0 \<and> su_time l (su_heap l ?p) > su_time l (su_heap l q)")
    case True
    then have p: "?p < q" by auto
    note sw = su_swap [OF "1.prems"(1) _ "1.prems"(2), of ?p]
    have s: "su_located (Some ?p) ?l" "su_same l ?l" using sw p "1.prems"(2) by auto
    have "\<exists>l' q'. sift_up ?p ?l = Inr (l', q') \<and> su_same ?l l' \<and> su_located (Some q') l' \<and> q' < su_count ?l
      \<and> su_heap l' q' = su_heap ?l ?p"
      using True in_heap s(1) p "1.prems" by (intro "1.IH") auto
    then obtain l' q' where l': "sift_up ?p ?l = Inr (l', q')" "su_same ?l l'" "su_located (Some q') l'"
      "q' < su_count l" "su_heap l' q' = su_heap l q" by auto
    moreover have "sift_up q l = sift_up ?p ?l" using True in_heap by (subst sift_up.simps) (simp add: Let_def)
    ultimately show ?thesis using su_same_trans [OF s(2) l'(2)] by simp
  next
    case False
    then have "sift_up q l = Inr (l, q)" using in_heap by (subst sift_up.simps) (auto simp: Let_def)
    then show ?thesis using "1.prems" by simp
  qed
qed

lemma su_locate:
  assumes "su_located (Some q) l" "q < su_count l"
  shows "su_located None (l\<lparr>su_loc := (su_loc l)(su_heap l q := int q)\<rparr>)"
  using assms by (auto simp: su_located_def dest: inj_onD)

lemma su_member: "su_ok l \<Longrightarrow> su_loc l n \<ge> 0 \<longleftrightarrow> n \<in> su_nodes l"
  by (force simp: su_ok_def su_located_def)

lemma su_map_nodes: "su_ok l \<Longrightarrow> su_map l n = (if n \<in> su_nodes l then Some (su_time l n) else None)"
  by (simp add: su_map_def su_member)

lemma su_same_nodes: "su_same l l' \<Longrightarrow> su_nodes l' = su_nodes l"
  by (simp add: su_same_def)

lemma su_insert_node_ok:
  assumes "su_ok l" "su_loc l n < 0" "su_last l + 1 < int (su_size l)"
  shows "\<exists>l'. su_insert_node ts n l = Inr l' \<and> su_ok l' \<and> su_size l' = su_size l \<and> su_last l' = su_last l + 1
    \<and> su_map l' = (su_map l)(n \<mapsto> ts)"
proof -
  let ?q = "su_count l"
  let ?l = "l\<lparr>su_heap := (su_heap l)(?q := n), su_last := su_last l + 1, su_time := (su_time l)(n := ts)\<rparr>"
  note ok = assms(1) [unfolded su_ok_def]
  have count: "su_count ?l = Suc ?q" "int ?q = su_last l + 1" using ok by auto
  have new: "n \<notin> su_nodes l" using su_member [OF assms(1)] assms(2) by force
  have nodes: "su_nodes ?l = insert n (su_nodes l)" unfolding count(1) by (auto simp: lessThan_Suc)
  have "inj_on (su_heap l) {..<?q}" using ok by (simp add: su_located_def)
  then have "inj_on ((su_heap l)(?q := n)) (insert ?q {..<?q})" using new by (auto simp: inj_on_def)
  moreover have "su_loc l (su_heap l i) = int i" if "i < ?q" for i using ok that by (simp add: su_located_def)
  ultimately have "su_located (Some ?q) ?l"
    unfolding su_located_def count(1) by (simp add: lessThan_Suc less_Suc_eq)
  from sift_up_ok [OF this] obtain l2 q2 where up: "sift_up ?q ?l = Inr (l2, q2)" "su_same ?l l2"
    "su_located (Some q2) l2" "q2 < su_count ?l" "su_heap l2 q2 = n"
    using count assms(3) by auto
  let ?l' = "l2\<lparr>su_loc := (su_loc l2)(n := int q2)\<rparr>"
  have run: "su_insert_node ts n l = Inr ?l'"
    using up(1) assms(2,3) ok by (simp add: su_insert_node_def in_heap_def Let_def)
  have l2: "su_size l2 = su_size l" "su_last l2 = su_last l + 1" "su_time l2 = (su_time l)(n := ts)"
    "su_nodes l2 = insert n (su_nodes l)" "\<And>m. m \<notin> su_nodes ?l \<Longrightarrow> su_loc l2 m = su_loc ?l m"
    using up(2) nodes by (auto simp: su_same_def)
  have "su_located None ?l'" using su_locate [OF up(3)] up(4,5) l2(2) by simp
  then have ok': "su_ok ?l'" using l2 ok assms(3) nodes by (auto simp: su_ok_def)
  have "su_map ?l' = (su_map l)(n \<mapsto> ts)"
    using su_map_nodes [OF ok'] su_map_nodes [OF assms(1)] l2 by (intro ext) simp
  then show ?thesis using run ok' l2 by simp
qed

text \<open>Going down from \<open>q\<close>.\<close>

lemma sift_down_leaf: "su_last l < int (q * 2 + 1) \<Longrightarrow> sift_down q l = Inr l"
  by (subst sift_down.simps) simp

lemma sift_down_inner:
  assumes "int (q * 2 + 1) \<le> su_last l" "su_last l < int (su_size l)" "p = earlier_child (q * 2 + 1) l"
    "t = su_heap l p" "m = su_heap l q"
  shows "sift_down q l = (if su_time l m > su_time l t
    then sift_down p (l\<lparr>su_heap := (su_heap l)(p := m, q := t), su_loc := (su_loc l)(m := int p, t := int q)\<rparr>)
    else Inr l)"
proof -
  have "in_heap l (min (int (q * 2 + 1) + 1) (su_last l))" using assms(1,2) by (auto simp: in_heap_def)
  then show ?thesis using assms by (subst sift_down.simps) (simp add: Let_def)
qed

lemma earlier_child_bounds:
  "int (q * 2 + 1) \<le> su_last l \<Longrightarrow> q < earlier_child (q * 2 + 1) l \<and> earlier_child (q * 2 + 1) l < su_count l"
  by (auto simp: earlier_child_def)

lemma sift_down_ok:
  assumes "su_located None l" "su_last l < int (su_size l)"
  shows "\<exists>l'. sift_down q l = Inr l' \<and> su_same l l' \<and> su_located None l'"
  using assms
proof (induction q l rule: sift_down.induct)
  case (1 q l)
  let ?c = "earlier_child (q * 2 + 1) l"
  let ?m = "su_heap l q" and ?t = "su_heap l ?c"
  let ?l0 = "l\<lparr>su_heap := (su_heap l)(?c := ?m, q := ?t), su_loc := (su_loc l)(?t := int q)\<rparr>"
  let ?l = "l\<lparr>su_heap := (su_heap l)(?c := ?m, q := ?t), su_loc := (su_loc l)(?m := int ?c, ?t := int q)\<rparr>"
  show ?case
  proof (cases "int (q * 2 + 1) \<le> su_last l \<and> su_time l ?m > su_time l ?t")
    case True
    then have c: "q < ?c" "?c < su_count l" using earlier_child_bounds by auto
    have "su_located (Some q) l" using "1.prems"(1) by (simp add: su_located_def)
    note sw = su_swap [OF this c(2) _ c(1) [THEN less_imp_neq, THEN not_sym]]
    have mt: "?m \<noteq> ?t" using True by auto
    have "su_located None (l\<lparr>su_heap := (su_heap l)(?c := ?m, q := ?t),
        su_loc := (su_loc l)(?t := int q, ?m := int ?c)\<rparr>)"
      using su_locate [OF sw(1)] c by simp
    then have l: "su_located None ?l" by (simp only: fun_upd_twist [OF mt])
    have s: "su_same l ?l" using sw(2) c by (auto simp: su_same_def)
    have "\<exists>l'. sift_down ?c ?l = Inr l' \<and> su_same ?l l' \<and> su_located None l'"
      using True l "1.prems"(2) by (intro "1.IH") (auto simp: in_heap_def min_def)
    moreover have "sift_down q l = sift_down ?c ?l"
      using True "1.prems"(2) by (subst sift_down_inner) auto
    ultimately show ?thesis using su_same_trans [OF s] by auto
  next
    case False
    have "sift_down q l = Inr l"
    proof (cases "int (q * 2 + 1) \<le> su_last l")
      case True
      then show ?thesis using False sift_down_inner [OF True "1.prems"(2) refl refl refl] by (simp only: simp_thms if_False)
    next
      case False
      then show ?thesis by (intro sift_down_leaf) simp
    qed
    then show ?thesis using "1.prems" by simp
  qed
qed

lemma su_remove_node_ok:
  assumes "su_ok l"
  shows "\<exists>l'. su_remove_node n l = Inr l' \<and> su_ok l' \<and> su_size l' = su_size l
    \<and> su_last l' = su_last l - (if n \<in> su_nodes l then 1 else 0) \<and> su_map l' = (su_map l)(n := None)"
proof (cases "n \<in> su_nodes l")
  case False
  then have "su_loc l n < 0" using su_member [OF assms] by force
  then show ?thesis using assms False by (auto simp: su_remove_node_def su_map_def)
next
  case True
  note ok = assms [unfolded su_ok_def]
  from True obtain q where q: "q < su_count l" "su_heap l q = n" by auto
  let ?e = "nat (su_last l)" let ?m = "su_heap l ?e"
  have loc: "su_loc l (su_heap l i) = int i" if "i < su_count l" for i using ok that by (simp add: su_located_def)
  have inj: "inj_on (su_heap l) {..<su_count l}" using ok by (simp add: su_located_def)
  have e: "su_count l = Suc ?e" "int ?e = su_last l" using q(1) by auto
  let ?l = "l\<lparr>su_heap := (su_heap l)(q := ?m), su_last := su_last l - 1, su_loc := (su_loc l)(?m := int q)\<rparr>"
  have count: "su_count ?l = ?e" using q(1) by simp
  have away: "su_heap l i \<noteq> n" "su_heap l i \<noteq> ?m" if "i < ?e" "i \<noteq> q" for i
  proof -
    have "i < su_count l" "?e < su_count l" using that(1) e(1) by linarith+
    then show "su_heap l i \<noteq> n" "su_heap l i \<noteq> ?m"
      using inj_on_eq_iff [OF inj, of i q] inj_on_eq_iff [OF inj, of i ?e] that q by simp_all
  qed
  have m: "?m \<in> su_nodes l" by (rule imageI) (simp only: e(1) lessThan_iff lessI)
  have nodes: "su_nodes ?l = su_nodes l - {n}"
  proof (intro set_eqI iffI)
    fix x assume "x \<in> su_nodes ?l"
    then obtain i where "i < ?e" "x = ((su_heap l)(q := ?m)) i" unfolding count by auto
    moreover have "?m \<noteq> n" if "q < ?e"
      using inj_on_eq_iff [OF inj, of ?e q] that q by (auto simp: e(1))
    ultimately show "x \<in> su_nodes l - {n}" using away(1) [of i] e(1) m by (cases "i = q") auto
  next
    fix x assume x: "x \<in> su_nodes l - {n}"
    then obtain j where j: "j < Suc ?e" "x = su_heap l j" "j \<noteq> q" using e(1) q(2) by auto
    then have "x = ((su_heap l)(q := ?m)) (if j = ?e then q else j)" "(if j = ?e then q else j) < ?e"
      using q(1) e(1) by auto
    then show "x \<in> su_nodes ?l" unfolding count by simp
  qed
  have "?m \<notin> su_heap l ` {..<?e}"
  proof
    assume "?m \<in> su_heap l ` {..<?e}"
    then obtain i where "i < ?e" "?m = su_heap l i" by auto
    moreover have "i < su_count l" "?e < su_count l" using \<open>i < ?e\<close> e(1) by linarith+
    ultimately show False using inj_on_eq_iff [OF inj, of ?e i] by simp
  qed
  then have "inj_on ((su_heap l)(q := ?m)) {..<?e}"
    using inj by (intro inj_on_fun_updI) (auto intro: inj_on_subset)
  then have "su_located None ?l" using loc away unfolding su_located_def count by (auto simp: e(1))
  from sift_down_ok [OF this, of q] obtain l2 where down: "sift_down q ?l = Inr l2" "su_same ?l l2"
    "su_located None l2" using ok by auto
  let ?l' = "l2\<lparr>su_loc := (su_loc l2)(n := - 1)\<rparr>"
  have run: "su_remove_node n l = Inr ?l'"
  proof -
    have "in_heap l (int q)" "in_heap l (su_last l)" using q(1) ok unfolding in_heap_def by linarith+
    then show ?thesis using down(1) loc [OF q(1)] q by (simp add: su_remove_node_def Let_def)
  qed
  have l2: "su_size l2 = su_size l" "su_last l2 = su_last l - 1" "su_time l2 = su_time l"
    "su_nodes l2 = su_nodes l - {n}" "\<And>m. m \<notin> su_nodes ?l \<Longrightarrow> su_loc l2 m = su_loc ?l m"
    using down(2) nodes by (auto simp: su_same_def)
  have "su_heap l2 i \<noteq> n" if "i < su_count l2" for i using l2(4) that by blast
  then have "su_located None ?l'" using down(3) by (auto simp: su_located_def)
  moreover have "su_loc l2 k = - 1" if "k \<notin> su_nodes l2" "k \<noteq> n" for k
  proof -
    have k: "k \<notin> su_nodes l" using that l2(4) by auto
    then have "k \<noteq> ?m" using m by auto
    moreover have "k \<notin> su_nodes ?l" unfolding nodes using k by simp
    ultimately have "su_loc l2 k = su_loc l k" using l2(5) [of k] by simp
    then show ?thesis using k ok by simp
  qed
  ultimately have ok': "su_ok ?l'" using l2(1,2) ok q(1) by (auto simp: su_ok_def)
  have "su_map ?l' = (su_map l)(n := None)"
    using su_map_nodes [OF ok'] su_map_nodes [OF assms] l2 by (intro ext) simp
  then show ?thesis using run ok' l2 True by simp
qed

section \<open>The order of the heap\<close>

text \<open>
  On the times \<open>f\<close> of the first \<open>n\<close> positions: no node is due before its parent; the same but for
  the node at \<open>q\<close> and its parent, or for the node at \<open>q\<close> and its children.
\<close>

definition ordered :: "nat \<Rightarrow> (nat \<Rightarrow> 'a::linorder) \<Rightarrow> bool" where
  "ordered n f \<longleftrightarrow> (\<forall>i. 0 < i \<longrightarrow> i < n \<longrightarrow> f ((i - 1) div 2) \<le> f i)"

definition passing :: "nat \<Rightarrow> nat \<Rightarrow> (nat \<Rightarrow> 'a::linorder) \<Rightarrow> bool" where
  "passing n q f \<longleftrightarrow> (\<forall>i. 0 < i \<longrightarrow> i < n \<longrightarrow> (i - 1) div 2 = q \<longrightarrow> 0 < q \<longrightarrow> f ((q - 1) div 2) \<le> f i)"

definition ordered_above :: "nat \<Rightarrow> nat \<Rightarrow> (nat \<Rightarrow> 'a::linorder) \<Rightarrow> bool" where
  "ordered_above n q f \<longleftrightarrow> passing n q f \<and> (\<forall>i. 0 < i \<longrightarrow> i < n \<longrightarrow> i \<noteq> q \<longrightarrow> f ((i - 1) div 2) \<le> f i)"

definition ordered_below :: "nat \<Rightarrow> nat \<Rightarrow> (nat \<Rightarrow> 'a::linorder) \<Rightarrow> bool" where
  "ordered_below n q f \<longleftrightarrow> passing n q f \<and> (\<forall>i. 0 < i \<longrightarrow> i < n \<longrightarrow> (i - 1) div 2 \<noteq> q \<longrightarrow> f ((i - 1) div 2) \<le> f i)"

lemma ordered_above_stop:
  "ordered_above n q f \<Longrightarrow> q = 0 \<or> f ((q - 1) div 2) \<le> f q \<Longrightarrow> ordered n f"
  by (auto simp: ordered_def ordered_above_def)

lemma ordered_above_swap:
  assumes "ordered_above n q f" "0 < q" "q < n" "f q < f p" "p = (q - 1) div 2"
  shows "ordered_above n p (f(p := f q, q := f p))"
proof -
  have p: "p < q" "p < n" using assms by auto
  note o = assms(1) [unfolded ordered_above_def passing_def]
  have up: "f p \<le> f i" if "0 < i" "i < n" "(i - 1) div 2 = p" "i \<noteq> q" for i
    using o that by blast
  have under: "f p \<le> f i" if "0 < i" "i < n" "(i - 1) div 2 = q" for i using o that assms(2,5) by blast
  have over: "f ((p - 1) div 2) \<le> f p" if "0 < p" using o that p by auto
  have less: "(i - 1) div 2 < i" if "0 < i" for i :: nat using that by linarith
  show ?thesis
    unfolding ordered_above_def passing_def
  proof (intro conjI allI impI)
    fix i assume i: "0 < i" "i < n" "(i - 1) div 2 = p" "0 < p"
    show "(f(p := f q, q := f p)) ((p - 1) div 2) \<le> (f(p := f q, q := f p)) i"
      using over up [of i] i less [of p] p less [of i] by (auto intro: order.trans)
  next
    fix i assume i: "0 < i" "i < n" "i \<noteq> p"
    consider "i = q" | "i \<noteq> q" "(i - 1) div 2 = p" | "(i - 1) div 2 = q" "i \<noteq> q"
      | "i \<noteq> q" "(i - 1) div 2 \<noteq> p" "(i - 1) div 2 \<noteq> q" by blast
    then show "(f(p := f q, q := f p)) ((i - 1) div 2) \<le> (f(p := f q, q := f p)) i"
    proof cases
      case 1
      then show ?thesis using assms(4,5) p by auto
    next
      case 2
      then show ?thesis using up [of i] i assms(4) p by auto
    next
      case 3
      then show ?thesis using under [of i] i p less [of i] by auto
    next
      case 4
      then show ?thesis using o i by auto
    qed
  qed
qed

lemma ordered_below_stop:
  assumes "ordered_below n q f" "\<And>i. i < n \<Longrightarrow> i = q * 2 + 1 \<or> i = q * 2 + 2 \<Longrightarrow> f q \<le> f i"
  shows "ordered n f"
proof -
  have "i = q * 2 + 1 \<or> i = q * 2 + 2" if "0 < i" "(i - 1) div 2 = q" for i using that by linarith
  then show ?thesis using assms by (auto simp: ordered_def ordered_below_def)
qed

lemma ordered_below_swap:
  assumes "ordered_below n q f" "c = q * 2 + 1 \<or> c = q * 2 + 2" "c < n" "f c < f q"
    and least: "\<And>i. i < n \<Longrightarrow> i = q * 2 + 1 \<or> i = q * 2 + 2 \<Longrightarrow> f c \<le> f i"
  shows "ordered_below n c (f(c := f q, q := f c))"
proof -
  note o = assms(1) [unfolded ordered_below_def passing_def]
  have c: "(c - 1) div 2 = q" "q < c" "0 < c" using assms(2) by auto
  have child: "f c \<le> f i" if "0 < i" "i < n" "(i - 1) div 2 = q" for i
    using that by (intro least) linarith+
  have less: "(i - 1) div 2 < i" if "0 < i" for i :: nat using that by linarith
  have under: "f c \<le> f i" if "0 < i" "i < n" "(i - 1) div 2 = c" for i using o that c by auto
  have over: "f ((q - 1) div 2) \<le> f c" if "0 < q" using o that c assms(3) by blast
  show ?thesis
    unfolding ordered_below_def passing_def
  proof (intro conjI allI impI)
    fix i assume i: "0 < i" "i < n" "(i - 1) div 2 = c"
    show "(f(c := f q, q := f c)) ((c - 1) div 2) \<le> (f(c := f q, q := f c)) i"
      using under [OF i] i c less [of i] by auto
  next
    fix i assume i: "0 < i" "i < n" "(i - 1) div 2 \<noteq> c"
    consider "i = q" | "i = c" | "i \<noteq> q" "i \<noteq> c" "(i - 1) div 2 = q" | "i \<noteq> q" "i \<noteq> c" "(i - 1) div 2 \<noteq> q" by blast
    then show "(f(c := f q, q := f c)) ((i - 1) div 2) \<le> (f(c := f q, q := f c)) i"
    proof cases
      case 1
      then show ?thesis using over i less [of q] by auto
    next
      case 2
      then show ?thesis using c assms(4) by auto
    next
      case 3
      then show ?thesis using child [of i] i c by auto
    next
      case 4
      then show ?thesis using o i by auto
    qed
  qed
qed

lemma ordered_least: "ordered n f \<Longrightarrow> i < n \<Longrightarrow> f 0 \<le> f i"
proof (induction i rule: less_induct)
  case (less i)
  show ?case
  proof (cases "i = 0")
    case False
    then have "(i - 1) div 2 < i" by linarith
    then have "f 0 \<le> f ((i - 1) div 2)" using less by auto
    also have "\<dots> \<le> f i" using less.prems False by (simp add: ordered_def)
    finally show ?thesis .
  qed simp
qed

text \<open>The loops of the list and the order.\<close>

definition su_key :: "snd_ulist \<Rightarrow> nat \<Rightarrow> 64 word" where
  "su_key l i = su_time l (su_heap l i)"

lemma sift_up_ordered:
  assumes "sift_up q l = Inr (l', q')" "ordered_above (su_count l) q (su_key l)" "q < su_count l"
  shows "ordered (su_count l') (su_key l')"
  using assms
proof (induction q l rule: sift_up.induct)
  case (1 q l)
  let ?p = "(q - 1) div 2"
  let ?l = "l\<lparr>su_heap := (su_heap l)(?p := su_heap l q, q := su_heap l ?p), su_loc := (su_loc l)(su_heap l ?p := int q)\<rparr>"
  have in_heap: "q = 0 \<or> in_heap l (int q)" using "1.prems"(1) by (subst (asm) sift_up.simps) (auto split: if_splits)
  show ?case
  proof (cases "q \<noteq> 0 \<and> su_key l ?p > su_key l q")
    case True
    have key: "su_key ?l = (su_key l)(?p := su_key l q, q := su_key l ?p)" by (auto simp: su_key_def)
    have ord: "ordered_above (su_count ?l) ?p (su_key ?l)"
      unfolding key using True "1.prems" by (intro ordered_above_swap) auto
    have run: "sift_up ?p ?l = Inr (l', q')"
      using True in_heap "1.prems"(1) by (subst (asm) sift_up.simps) (simp add: Let_def su_key_def)
    show ?thesis
      by (rule "1.IH" [OF _ _ refl refl refl _ run ord])
        (use True in_heap "1.prems"(3) in \<open>auto simp: su_key_def\<close>)
  next
    case False
    have "sift_up q l = Inr (l, q)"
      using False in_heap by (subst sift_up.simps) (auto simp: Let_def su_key_def)
    then have "l' = l" using "1.prems"(1) by simp
    then show ?thesis using "1.prems"(2) False ordered_above_stop [of _ q "su_key l"] by force
  qed
qed

lemma sift_down_ordered:
  assumes "sift_down q l = Inr l'" "ordered_below (su_count l) q (su_key l)" "su_last l < int (su_size l)"
  shows "ordered (su_count l') (su_key l')"
  using assms
proof (induction q l rule: sift_down.induct)
  case (1 q l)
  let ?c = "earlier_child (q * 2 + 1) l"
  let ?m = "su_heap l q" and ?t = "su_heap l ?c"
  let ?l = "l\<lparr>su_heap := (su_heap l)(?c := ?m, q := ?t), su_loc := (su_loc l)(?m := int ?c, ?t := int q)\<rparr>"
  show ?case
  proof (cases "int (q * 2 + 1) \<le> su_last l")
    case False
    then have "l' = l" using sift_down_leaf [of l q] "1.prems"(1) by simp
    moreover have "ordered (su_count l) (su_key l)"
      using "1.prems"(2) False by (intro ordered_below_stop) auto
    ultimately show ?thesis by simp
  next
    case inner: True
    have c: "?c = q * 2 + 1 \<or> ?c = q * 2 + 2" by (simp add: earlier_child_def)
    have least: "su_key l ?c \<le> su_key l i" if "i < su_count l" "i = q * 2 + 1 \<or> i = q * 2 + 2" for i
      using that by (auto simp: earlier_child_def su_key_def)
    note step = sift_down_inner [OF inner "1.prems"(3) refl refl refl]
    show ?thesis
    proof (cases "su_key l q > su_key l ?c")
      case True
      have key: "su_key ?l = (su_key l)(?c := su_key l q, q := su_key l ?c)" by (auto simp: su_key_def)
      have ord: "ordered_below (su_count ?l) ?c (su_key ?l)"
        unfolding key using True "1.prems" earlier_child_bounds [OF inner] least c by (intro ordered_below_swap) auto
      have run: "sift_down ?c ?l = Inr l'"
        using True step "1.prems"(1) by (simp add: su_key_def)
      have "in_heap l (min (int (q * 2 + 1) + 1) (su_last l))"
        using inner "1.prems"(3) by (auto simp: in_heap_def)
      then show ?thesis
        by (rule "1.IH" [OF _ _ refl refl refl _ run ord, rotated])
          (use True inner "1.prems"(3) in \<open>auto simp: su_key_def\<close>)
    next
      case False
      then have "l' = l" using step "1.prems"(1) by (simp add: su_key_def)
      moreover have "su_key l q \<le> su_key l ?c" using False by simp
      then have "ordered (su_count l) (su_key l)"
        using least by (intro ordered_below_stop [OF "1.prems"(2)]) (auto intro: order.trans)
      ultimately show ?thesis by simp
    qed
  qed
qed

lemma su_insert_node_ordered:
  assumes "su_insert_node ts n l = Inr l'" "su_ok l" "ordered (su_count l) (su_key l)"
  shows "ordered (su_count l') (su_key l')"
proof (cases "su_loc l n \<ge> 0")
  case True
  then show ?thesis using assms by (simp add: su_insert_node_def)
next
  case False
  let ?q = "su_count l"
  let ?l = "l\<lparr>su_heap := (su_heap l)(?q := n), su_last := su_last l + 1, su_time := (su_time l)(n := ts)\<rparr>"
  from False assms(1) obtain l2 q2 where up: "sift_up ?q ?l = Inr (l2, q2)" "l' = l2\<lparr>su_loc := (su_loc l2)(n := int q2)\<rparr>"
    by (auto simp: su_insert_node_def Let_def bind_res_Inr_iff split: if_splits)
  have count: "su_count ?l = Suc ?q" using assms(2) by (auto simp: su_ok_def)
  have new: "n \<notin> su_nodes l" using su_member [OF assms(2)] False by simp
  have key: "su_key ?l i = su_key l i" if "i < ?q" for i using that new by (auto simp: su_key_def)
  have "ordered_above (su_count ?l) ?q (su_key ?l)"
    unfolding ordered_above_def passing_def count
  proof (intro conjI allI impI)
    fix i assume "0 < i" "i < Suc ?q" "i \<noteq> ?q"
    then have "i < ?q" "(i - 1) div 2 < ?q" by auto
    then show "su_key ?l ((i - 1) div 2) \<le> su_key ?l i"
      using assms(3) \<open>0 < i\<close> key by (simp add: ordered_def)
  next
    fix i assume "0 < i" "i < Suc ?q" "(i - 1) div 2 = ?q"
    then have False by linarith
    then show "su_key ?l ((?q - 1) div 2) \<le> su_key ?l i" ..
  qed
  from sift_up_ordered [OF up(1) this] count show ?thesis by (simp add: up(2) su_key_def [abs_def])
qed

lemma su_remove_node_ordered:
  assumes "su_remove_node n l = Inr l'" "su_ok l" "ordered (su_count l) (su_key l)" "su_loc l n \<le> 0"
  shows "ordered (su_count l') (su_key l')"
proof (cases "su_loc l n = 0")
  case False
  then show ?thesis using assms by (simp add: su_remove_node_def)
next
  case True
  let ?m = "su_heap l (nat (su_last l))"
  let ?l = "l\<lparr>su_heap := (su_heap l)(0 := ?m), su_last := su_last l - 1, su_loc := (su_loc l)(?m := 0)\<rparr>"
  from True assms(1) obtain l2 where down: "sift_down 0 ?l = Inr l2" "l' = l2\<lparr>su_loc := (su_loc l2)(n := - 1)\<rparr>"
    by (auto simp: su_remove_node_def Let_def bind_res_Inr_iff split: if_splits)
  have key: "su_key ?l i = su_key l i" if "i \<noteq> 0" for i using that by (simp add: su_key_def)
  have "ordered_below (su_count ?l) 0 (su_key ?l)"
    unfolding ordered_below_def passing_def
  proof (intro conjI allI impI)
    fix i assume i: "0 < i" "i < su_count ?l" "(i - 1) div 2 \<noteq> 0"
    moreover have "i < su_count l" using i by simp
    ultimately show "su_key ?l ((i - 1) div 2) \<le> su_key ?l i"
      using assms(3) key [of i] key [of "(i - 1) div 2"] by (simp add: ordered_def)
  qed simp
  moreover have "su_last ?l < int (su_size ?l)" using assms(2) by (simp add: su_ok_def)
  ultimately show ?thesis using sift_down_ordered [OF down(1)] by (simp add: down(2) su_key_def [abs_def])
qed

section \<open>Operations\<close>

datatype su_op =
    Su_insert "nat \<Rightarrow> nat" "64 word" nat
  | Su_update nat bool
  | Su_remove nat
  | Su_pop "nat \<Rightarrow> bool" "nat \<Rightarrow> bool" "nat \<Rightarrow> int \<times> 64 word"

fun su_step :: "snd_ulist \<Rightarrow> su_op \<Rightarrow> (snd_ulist \<times> nat option) res" where
  "su_step l (Su_insert storage ts n) = bind_res (su_insert storage ts n l) (\<lambda>l. Inr (l, None))"
| "su_step l (Su_update n reschedule) = bind_res (su_update n reschedule l) (\<lambda>l. Inr (l, None))"
| "su_step l (Su_remove n) = bind_res (su_remove_node n l) (\<lambda>l. Inr (l, None))"
| "su_step l (Su_pop connected broken packData) = su_pop connected broken packData l"

text \<open>What an operation does to the map, and which socket it gives.\<close>

fun su_spec :: "(nat \<Rightarrow> 64 word option) \<Rightarrow> su_op \<Rightarrow> nat option \<Rightarrow> (nat \<Rightarrow> 64 word option) \<Rightarrow> bool" where
  "su_spec M (Su_insert storage ts n) r M' \<longleftrightarrow> r = None \<and> M' = (if M n = None then M(n \<mapsto> ts) else M)"
| "su_spec M (Su_update n reschedule) r M' \<longleftrightarrow> r = None \<and> M' = (if M n = None \<or> reschedule then M(n \<mapsto> 1) else M)"
| "su_spec M (Su_remove n) r M' \<longleftrightarrow> r = None \<and> M' = M(n := None)"
| "su_spec M (Su_pop connected broken packData) r M' \<longleftrightarrow>
     (if M = Map.empty then r = None \<and> M' = M
      else \<exists>u \<in> dom M.
        if connected u \<and> \<not> broken u \<and> fst (packData u) > 0
        then r = Some u \<and> M' = (if snd (packData u) > 0 then M(u \<mapsto> snd (packData u)) else M(u := None))
        else r = None \<and> M' = M(u := None))"

text \<open>The array has room for the node an operation may insert.\<close>

fun su_room :: "snd_ulist \<Rightarrow> su_op \<Rightarrow> bool" where
  "su_room l (Su_insert storage ts n) \<longleftrightarrow> 0 < su_size l"
| "su_room l (Su_update n reschedule) \<longleftrightarrow> su_loc l n \<ge> 0 \<or> su_last l + 1 < int (su_size l)"
| "su_room l (Su_remove n) \<longleftrightarrow> True"
| "su_room l (Su_pop connected broken packData) \<longleftrightarrow> True"

lemma su_grow_ok:
  assumes "su_ok l"
  shows "su_ok (su_grow storage l)" and "su_map (su_grow storage l) = su_map l"
    and "i < su_count l \<Longrightarrow> su_heap (su_grow storage l) i = su_heap l i"
proof -
  let ?g = "su_grow storage l"
  have eq: "su_heap ?g i = su_heap l i" if "i < su_count l" for i
    using that assms by (auto simp: su_grow_def su_ok_def)
  have count: "su_count ?g = su_count l" by (simp add: su_grow_def)
  have "inj_on (su_heap ?g) {..<su_count l} = inj_on (su_heap l) {..<su_count l}" using eq by (intro inj_on_cong) auto
  moreover have "su_nodes ?g = su_nodes l" unfolding count using eq by (intro image_cong) auto
  moreover have "su_loc ?g = su_loc l" "su_last ?g = su_last l" "su_size ?g = su_size l * 2" by (simp_all add: su_grow_def)
  ultimately show "su_ok ?g" using assms eq unfolding su_ok_def su_located_def count by auto
  show "su_map ?g = su_map l" by (intro ext) (simp add: su_grow_def su_map_def)
  show "i < su_count l \<Longrightarrow> su_heap ?g i = su_heap l i" by (rule eq)
qed

text \<open>Inserting a node that may be there already.\<close>

lemma su_insert_node_step:
  assumes "su_ok l" "su_loc l n \<ge> 0 \<or> su_last l + 1 < int (su_size l)"
  shows "\<exists>l'. su_insert_node ts n l = Inr l' \<and> su_ok l' \<and> su_size l' = su_size l
    \<and> su_map l' = (if su_map l n = None then (su_map l)(n \<mapsto> ts) else su_map l)"
proof (cases "su_loc l n \<ge> 0")
  case True
  then show ?thesis using assms(1) by (simp add: su_insert_node_def su_map_def)
next
  case False
  then have "su_map l n = None" by (simp add: su_map_def)
  with su_insert_node_ok [of l n ts] False assms show ?thesis by auto
qed

lemma su_spec_pop:
  assumes "M u = Some t"
    and "if connected u \<and> \<not> broken u \<and> fst (packData u) > 0
      then r = Some u \<and> M' = (if snd (packData u) > 0 then M(u \<mapsto> snd (packData u)) else M(u := None))
      else r = None \<and> M' = M(u := None)"
  shows "su_spec M (Su_pop connected broken packData) r M'"
proof -
  have "M \<noteq> Map.empty" "u \<in> dom M" using assms(1) by auto
  then show ?thesis using assms(2) unfolding su_spec.simps by (simp only: if_False) (rule bexI [of _ u])
qed

lemma su_pop_ok:
  assumes "su_ok l"
  shows "\<exists>l' r. su_pop connected broken packData l = Inr (l', r) \<and> su_ok l' \<and> su_size l' = su_size l
    \<and> su_spec (su_map l) (Su_pop connected broken packData) r (su_map l')"
proof (cases "su_last l = - 1")
  case True
  then have "su_map l = Map.empty" using su_map_nodes [OF assms] by (intro ext) simp
  then show ?thesis using True assms by (simp add: su_pop_def)
next
  case False
  let ?u = "su_heap l 0"
  have top: "0 < su_count l" "in_heap l 0" using False assms by (auto simp: su_ok_def in_heap_def)
  then have u: "?u \<in> su_nodes l" by blast
  then have dom: "su_map l ?u = Some (su_time l ?u)" using su_map_nodes [OF assms] by simp
  obtain l1 where l1: "su_remove_node ?u l = Inr l1" "su_ok l1" "su_size l1 = su_size l" "su_last l1 = su_last l - 1"
    "su_map l1 = (su_map l)(?u := None)" using su_remove_node_ok [OF assms, of ?u] u by auto
  have run: "su_pop connected broken packData l =
      (if connected ?u \<and> \<not> broken ?u \<and> fst (packData ?u) > 0
       then bind_res (if snd (packData ?u) > 0 then su_insert_node (snd (packData ?u)) ?u l1 else Inr l1)
         (\<lambda>l. Inr (l, Some ?u))
       else Inr (l1, None))"
    using False top(2) l1(1) by (auto simp: su_pop_def Let_def split: prod.splits)
  show ?thesis
  proof (cases "connected ?u \<and> \<not> broken ?u \<and> fst (packData ?u) > 0 \<and> snd (packData ?u) > 0")
    case True
    have "su_last l1 + 1 < int (su_size l1)" using l1 assms by (simp add: su_ok_def)
    then obtain l2 where l2: "su_insert_node (snd (packData ?u)) ?u l1 = Inr l2" "su_ok l2" "su_size l2 = su_size l"
      "su_map l2 = (su_map l)(?u \<mapsto> snd (packData ?u))"
      using su_insert_node_step [OF l1(2), of ?u "snd (packData ?u)"] l1 by auto
    have "su_spec (su_map l) (Su_pop connected broken packData) (Some ?u) (su_map l2)"
      by (rule su_spec_pop [where M = "su_map l" and u = ?u, OF dom]) (use True l2(4) in simp)
    then show ?thesis unfolding run using True l2 by (intro exI [of _ l2] exI [of _ "Some ?u"]) simp
  next
    case other: False
    define r where "r = (if connected ?u \<and> \<not> broken ?u \<and> fst (packData ?u) > 0 then Some ?u else None)"
    have "su_spec (su_map l) (Su_pop connected broken packData) r (su_map l1)"
      by (rule su_spec_pop [where M = "su_map l" and u = ?u, OF dom]) (use other l1(5) in \<open>auto simp: r_def\<close>)
    then show ?thesis unfolding run using other l1 by (intro exI [of _ l1] exI [of _ r]) (auto simp: r_def)
  qed
qed

lemma su_step_ok:
  assumes "su_ok l" "su_room l op"
  shows "\<exists>l' r. su_step l op = Inr (l', r) \<and> su_ok l' \<and> su_size l \<le> su_size l' \<and> su_spec (su_map l) op r (su_map l')"
proof (cases op)
  case (Su_insert storage ts n)
  let ?g = "if su_last l = int (su_size l) - 1 then su_grow storage l else l"
  have g: "su_ok ?g" "su_map ?g = su_map l" "su_size l \<le> su_size ?g" "su_last ?g + 1 < int (su_size ?g)"
    using su_grow_ok [OF assms(1)] assms Su_insert by (auto simp: su_grow_def su_ok_def)
  from su_insert_node_step [OF g(1), of n ts] g obtain l' where "su_insert_node ts n ?g = Inr l'" "su_ok l'"
    "su_size l' = su_size ?g" "su_map l' = (if su_map l n = None then (su_map l)(n \<mapsto> ts) else su_map l)" by auto
  then show ?thesis using Su_insert g(3) by (simp add: su_insert_def)
next
  case (Su_update n reschedule)
  show ?thesis
  proof (cases "su_loc l n \<ge> 0 \<and> reschedule")
    case False
    then show ?thesis using Su_update assms su_insert_node_step [OF assms(1), of n 1]
      by (auto simp: su_update_def su_map_def)
  next
    case True
    show ?thesis
    proof (cases "su_loc l n = 0")
      case top: True
      have "su_map (l\<lparr>su_time := (su_time l)(n := 1)\<rparr>) = (su_map l)(n \<mapsto> 1)" using top by (auto simp: su_map_def)
      moreover have "su_ok (l\<lparr>su_time := (su_time l)(n := 1)\<rparr>)" using assms(1) by (simp add: su_ok_def su_located_def)
      ultimately show ?thesis using True top Su_update by (simp add: su_update_def)
    next
      case inner: False
      have n: "n \<in> su_nodes l" using True su_member [OF assms(1)] by simp
      then obtain l1 where l1: "su_remove_node n l = Inr l1" "su_ok l1" "su_size l1 = su_size l" "su_last l1 = su_last l - 1"
        "su_map l1 = (su_map l)(n := None)" using su_remove_node_ok [OF assms(1), of n] by auto
      have "su_last l1 + 1 < int (su_size l1)" using l1 assms by (simp add: su_ok_def)
      then obtain l2 where "su_insert_node 1 n l1 = Inr l2" "su_ok l2" "su_size l2 = su_size l"
        "su_map l2 = (su_map l)(n \<mapsto> 1)"
        using su_insert_node_step [OF l1(2), of n 1] l1 by auto
      then show ?thesis using True inner l1 Su_update by (simp add: su_update_def)
    qed
  qed
next
  case (Su_remove n)
  then show ?thesis using su_remove_node_ok [OF assms(1), of n] by auto
next
  case (Su_pop connected broken packData)
  then show ?thesis using su_pop_ok [OF assms(1), of connected broken packData] by (auto simp del: su_spec.simps)
qed

section \<open>Runs\<close>

fun su_run :: "snd_ulist \<times> nat option list \<Rightarrow> su_op \<Rightarrow> (snd_ulist \<times> nat option list) res" where
  "su_run (l, outs) op = bind_res (su_step l op) (\<lambda>(l, r). Inr (l, outs @ [r]))"

fun su_specs :: "(nat \<Rightarrow> 64 word option) \<Rightarrow> su_op list \<Rightarrow> nat option list \<Rightarrow> (nat \<Rightarrow> 64 word option) \<Rightarrow> bool" where
  "su_specs M [] rs M' \<longleftrightarrow> rs = [] \<and> M' = M"
| "su_specs M (op # ops) rs M' \<longleftrightarrow> (\<exists>r rs' M1. rs = r # rs' \<and> su_spec M op r M1 \<and> su_specs M1 ops rs' M')"

fun su_sockets :: "su_op \<Rightarrow> nat set" where
  "su_sockets (Su_insert storage ts n) = {n}"
| "su_sockets (Su_update n reschedule) = {n}"
| "su_sockets (Su_remove n) = {n}"
| "su_sockets (Su_pop connected broken packData) = {}"

lemma su_spec_dom: "su_spec M op r M' \<Longrightarrow> dom M' \<subseteq> dom M \<union> su_sockets op"
  by (cases op) (auto split: if_splits)

lemma su_count_dom: "su_ok l \<Longrightarrow> card (dom (su_map l)) = su_count l"
proof -
  assume ok: "su_ok l"
  have "dom (su_map l) = su_nodes l" using su_map_nodes [OF ok] by (auto simp: dom_def)
  moreover have "inj_on (su_heap l) {..<su_count l}" using ok by (simp add: su_ok_def su_located_def)
  ultimately show ?thesis by (simp add: card_image)
qed

lemma su_roomI:
  assumes "su_ok l" "dom (su_map l) \<subseteq> S" "finite S" "card S \<le> su_size l" "su_sockets op \<subseteq> S" "0 < su_size l"
  shows "su_room l op"
proof (cases op)
  case (Su_update n reschedule)
  have "su_last l + 1 < int (su_size l)" if "su_loc l n < 0"
  proof -
    have "n \<notin> dom (su_map l)" using that by (auto simp: dom_def su_map_def)
    then have "dom (su_map l) \<subset> S" using assms(2,5) Su_update by auto
    then have "card (dom (su_map l)) < card S" using assms(3) by (simp add: psubset_card_mono)
    then show ?thesis using su_count_dom [OF assms(1)] assms(1,4) by (auto simp: su_ok_def)
  qed
  then show ?thesis using Su_update by force
qed (use assms(6) in auto)

lemma su_runs_ok:
  assumes "su_ok l" "dom (su_map l) \<subseteq> S" "finite S" "card S \<le> su_size l" "0 < su_size l"
    and "\<forall>op \<in> set ops. su_sockets op \<subseteq> S"
  shows "\<exists>l' rs. fold_res su_run (l, outs) ops = Inr (l', outs @ rs) \<and> su_ok l' \<and> su_size l \<le> su_size l'
    \<and> su_specs (su_map l) ops rs (su_map l')"
  using assms
proof (induction ops arbitrary: l outs)
  case (Cons op ops)
  have "su_room l op" using Cons.prems by (intro su_roomI) auto
  from su_step_ok [OF Cons.prems(1) this] obtain l1 r where l1: "su_step l op = Inr (l1, r)" "su_ok l1"
    "su_size l \<le> su_size l1" "su_spec (su_map l) op r (su_map l1)" by blast
  have "dom (su_map l1) \<subseteq> S" using su_spec_dom [OF l1(4)] Cons.prems(2,6) by auto
  then obtain l' rs where "fold_res su_run (l1, outs @ [r]) ops = Inr (l', (outs @ [r]) @ rs)" "su_ok l'"
    "su_size l1 \<le> su_size l'" "su_specs (su_map l1) ops rs (su_map l')"
    using Cons.IH [OF l1(2), of "outs @ [r]"] Cons.prems l1(3) by auto
  then show ?case using l1 by (intro exI [of _ l'] exI [of _ "r # rs"]) (auto simp del: su_spec.simps)
qed simp

lemma su_new_ok:
  "su_ok (SndUList_new storage time0)" "su_map (SndUList_new storage time0) = Map.empty"
  "su_size (SndUList_new storage time0) = 4096"
  by (auto simp: SndUList_new_def su_ok_def su_located_def su_map_def)

text \<open>C20:
  the list of the senders is a map from sockets to times: whatever is inserted, updated, removed and
  popped, as long as no more than 4096 sockets use it, no operation leaves the array, each changes
  the map as it means to, \<open>pop\<close> takes a socket out of it, and every node knows its position.
\<close>

theorem snd_ulist_is_a_map:
  assumes "finite S" "card S \<le> 4096" "\<forall>op \<in> set ops. su_sockets op \<subseteq> S"
  shows "\<exists>l rs. fold_res su_run (SndUList_new storage time0, []) ops = Inr (l, rs)
    \<and> su_specs Map.empty ops rs (su_map l) \<and> su_ok l"
  using su_runs_ok [of "SndUList_new storage time0" S ops "[]"] su_new_ok assms by auto

lemma snd_ulist_is_a_map_witness:
  "\<exists>l rs. fold_res su_run (SndUList_new id (\<lambda>_. 0), [])
      [Su_update 7 False, Su_update 3 False, Su_pop (\<lambda>_. True) (\<lambda>_. False) (\<lambda>_. (1, 5)), Su_update 3 True, Su_remove 7]
      = Inr (l, rs)
    \<and> su_specs Map.empty
      [Su_update 7 False, Su_update 3 False, Su_pop (\<lambda>_. True) (\<lambda>_. False) (\<lambda>_. (1, 5)), Su_update 3 True, Su_remove 7]
      rs (su_map l) \<and> su_ok l"
  by (rule snd_ulist_is_a_map [of "{3, 7}"]) auto

text \<open>Runs that take out the first node only.\<close>

fun su_shallow :: "snd_ulist \<Rightarrow> su_op \<Rightarrow> bool" where
  "su_shallow l (Su_insert storage ts n) \<longleftrightarrow> ts \<noteq> 0"
| "su_shallow l (Su_update n reschedule) \<longleftrightarrow> (reschedule \<longrightarrow> su_loc l n \<le> 0)"
| "su_shallow l (Su_remove n) \<longleftrightarrow> su_loc l n \<le> 0"
| "su_shallow l (Su_pop connected broken packData) \<longleftrightarrow> True"

inductive su_front :: "snd_ulist \<Rightarrow> bool" where
  new: "su_front (SndUList_new storage time0)"
| step: "su_front l \<Longrightarrow> su_room l op \<Longrightarrow> su_shallow l op \<Longrightarrow> su_step l op = Inr (l', r) \<Longrightarrow> su_front l'"

lemma su_spec_times:
  assumes "su_spec M op r M'" "su_shallow l op" "0 \<notin> ran M"
  shows "0 \<notin> ran M'"
proof -
  have "M(u := None) \<noteq> M(u \<mapsto> t)" for u t by (metis fun_upd_same option.distinct(1))
  then show ?thesis using assms by (cases op) (auto simp: ran_def split: if_splits)
qed

lemma su_step_ordered:
  assumes "su_step l op = Inr (l', r)" "su_shallow l op" "su_ok l" "ordered (su_count l) (su_key l)" "0 \<notin> ran (su_map l)"
  shows "ordered (su_count l') (su_key l')"
proof (cases op)
  case (Su_insert storage ts n)
  let ?g = "if su_last l = int (su_size l) - 1 then su_grow storage l else l"
  have time: "su_time (su_grow storage l) = su_time l" and last: "su_last (su_grow storage l) = su_last l"
    by (simp_all add: su_grow_def)
  have key: "su_key (su_grow storage l) i = su_key l i" if "i < su_count l" for i
    using su_grow_ok(3) [OF assms(3) that] by (simp add: su_key_def time)
  have "ordered (su_count (su_grow storage l)) (su_key (su_grow storage l))"
    unfolding ordered_def last
  proof (intro allI impI)
    fix i assume i: "0 < i" "i < su_count l"
    then have "(i - 1) div 2 < su_count l" by linarith
    then show "su_key (su_grow storage l) ((i - 1) div 2) \<le> su_key (su_grow storage l) i"
      using assms(4) i by (simp add: ordered_def key)
  qed
  then have g: "ordered (su_count ?g) (su_key ?g)" "su_ok ?g" using assms(3,4) su_grow_ok(1) by auto
  have "su_insert_node ts n ?g = Inr l'"
    using assms(1) Su_insert by (auto simp: su_insert_def bind_res_Inr_iff)
  from su_insert_node_ordered [OF this g(2,1)] show ?thesis .
next
  case (Su_update n reschedule)
  have run: "su_update n reschedule l = Inr l'" using assms(1) Su_update by (auto simp: bind_res_Inr_iff)
  show ?thesis
  proof (cases "su_loc l n \<ge> 0 \<and> reschedule")
    case False
    then show ?thesis using run assms(3,4) su_insert_node_ordered [of 1 n l l']
      by (auto simp: su_update_def split: if_splits)
  next
    case True
    then have loc: "su_loc l n = 0" using assms(2) Su_update by simp
    then have l': "l' = l\<lparr>su_time := (su_time l)(n := 1)\<rparr>" using run True by (simp add: su_update_def)
    have n: "n \<in> su_nodes l" using loc su_member [OF assms(3), of n] by simp
    then obtain k where k: "k < su_count l" "su_heap l k = n" by auto
    have locs: "su_loc l (su_heap l i) = int i" if "i < su_count l" for i
      using assms(3) that by (simp add: su_ok_def su_located_def)
    then have "k = 0" using k loc by force
    then have key: "su_key l' i = (if i = 0 then 1 else su_key l i)" if "i < su_count l" for i
      using locs [OF that] locs [OF k(1)] k(2) by (auto simp: su_key_def l')
    have "1 \<le> su_key l i" if "i < su_count l" for i
    proof -
      have "su_map l (su_heap l i) = Some (su_key l i)"
        using su_map_nodes [OF assms(3)] that by (simp add: su_key_def)
      then have "su_key l i \<noteq> 0" using assms(5) by (metis ranI)
      then show ?thesis by (simp add: word_le_nat_alt unat_gt_0 Suc_le_eq)
    qed
    then show ?thesis
      using assms(4) key unfolding ordered_def l' [THEN arg_cong [of _ _ su_last], simplified] by auto
  qed
next
  case (Su_remove n)
  then show ?thesis using assms su_remove_node_ordered [of n l l'] by (auto simp: bind_res_Inr_iff)
next
  case (Su_pop connected broken packData)
  show ?thesis
  proof (cases "su_last l = - 1")
    case True
    then show ?thesis using assms(1,4) Su_pop by (auto simp: su_pop_def)
  next
    case False
    let ?u = "su_heap l 0"
    have "0 < su_count l" using False assms(3) by (auto simp: su_ok_def)
    then have "su_loc l ?u = 0" using assms(3) by (simp add: su_ok_def su_located_def)
    moreover obtain l1 where l1: "su_remove_node ?u l = Inr l1" "su_ok l1" using su_remove_node_ok [OF assms(3)] by blast
    ultimately have "ordered (su_count l1) (su_key l1)" using su_remove_node_ordered [OF l1(1) assms(3,4)] by simp
    then show ?thesis using assms(1) Su_pop False l1 su_insert_node_ordered [OF _ l1(2)]
      by (auto simp: su_pop_def Let_def bind_res_Inr_iff split: if_splits prod.splits)
  qed
qed

lemma su_front_ok:
  "su_front l \<Longrightarrow> su_ok l \<and> ordered (su_count l) (su_key l) \<and> 0 \<notin> ran (su_map l)"
proof (induction rule: su_front.induct)
  case (new storage time0)
  then show ?case using su_new_ok by (auto simp: ordered_def SndUList_new_def)
next
  case (step l op l' r)
  then have "su_ok l'" "su_spec (su_map l) op r (su_map l')" using su_step_ok [of l op] by auto
  then show ?case using step su_step_ordered su_spec_times by blast
qed

text \<open>As long as only the first node is taken out of the heap, by \<open>pop\<close>, \<open>remove\<close> or \<open>update\<close>, the list is a
  queue by time: \<open>getNextProcTime\<close> gives the least time of a socket in it, and \<open>pop\<close> takes a socket
  with this time.
\<close>

theorem earliest_socket_first:
  assumes "su_front l" "su_map l n = Some t"
  shows "\<exists>u t0 l'. getNextProcTime l = Inr t0 \<and> su_map l u = Some t0 \<and> t0 \<le> t
    \<and> su_remove_node u l = Inr l'
    \<and> su_pop connected broken packData l
      = (if connected u \<and> \<not> broken u \<and> fst (packData u) > 0
         then bind_res (if snd (packData u) > 0 then su_insert_node (snd (packData u)) u l' else Inr l')
           (\<lambda>l. Inr (l, Some u))
         else Inr (l', None))"
proof -
  note front = su_front_ok [OF assms(1)]
  then have ok: "su_ok l" by simp
  obtain i where i: "i < su_count l" "su_heap l i = n"
    using assms(2) su_map_nodes [OF ok] by (auto split: if_splits)
  then have t: "t = su_key l i" using assms(2) su_map_nodes [OF ok] by (auto simp: su_key_def split: if_splits)
  have top: "0 < su_count l" "su_last l \<noteq> - 1" "in_heap l 0" using i(1) ok by (auto simp: su_ok_def in_heap_def)
  have "su_key l 0 \<le> t" unfolding t using ordered_least front i(1) by blast
  moreover have "su_map l (su_heap l 0) = Some (su_key l 0)"
    using su_map_nodes [OF ok] top(1) by (simp add: su_key_def)
  moreover have "getNextProcTime l = Inr (su_key l 0)" using top by (simp add: getNextProcTime_def su_key_def)
  moreover obtain l' where "su_remove_node (su_heap l 0) l = Inr l'" using su_remove_node_ok [OF ok] by blast
  ultimately show ?thesis using top
    by (intro exI [of _ "su_heap l 0"] exI [of _ "su_key l 0"] exI [of _ l'])
      (auto simp: su_pop_def Let_def split: prod.splits)
qed

lemma earliest_socket_first_witness:
  "\<exists>l u t0 l'. su_map l 3 = Some 1 \<and> getNextProcTime l = Inr t0 \<and> su_map l u = Some t0 \<and> t0 \<le> 1
    \<and> su_remove_node u l = Inr l'
    \<and> su_pop (\<lambda>_. True) (\<lambda>_. False) (\<lambda>_. (1, 9)) l = bind_res (su_insert_node 9 u l') (\<lambda>l. Inr (l, Some u))"
proof -
  let ?l = "SndUList_new id (\<lambda>_. 0)"
  obtain l where l: "su_step ?l (Su_update 3 False) = Inr (l, None)" "su_map l = [3 \<mapsto> 1]"
    using su_step_ok [of ?l "Su_update 3 False"] su_new_ok [of id "\<lambda>_. 0"] by (auto simp: SndUList_new_def)
  have "su_front l"
    by (rule su_front.step [OF su_front.new [of id "\<lambda>_. 0"] _ _ l(1)]) (auto simp: SndUList_new_def)
  from earliest_socket_first [OF this, of 3 1 "\<lambda>_. True" "\<lambda>_. False" "\<lambda>_. (1, 9)"] l(2)
  show ?thesis by (intro exI [of _ l]) simp
qed

abbreviation su_sends :: "64 word \<Rightarrow> su_op" where
  "su_sends ts \<equiv> Su_pop (\<lambda>_. True) (\<lambda>_. False) (\<lambda>_. (1, ts))"

text \<open>
  In general the list is no queue by time: a node that is removed from inside is replaced by the last
  one, which only goes down, though it may be due before its new parent. Here the removal of socket 4
  leaves socket 0, due at 1, out of order: two packets on, the list names 2 as the time of the next
  packet.
\<close>

lemma removal_breaks_order:
  "case fold_res su_run (SndUList_new id (\<lambda>_. 0), [])
      [Su_update 4 False, Su_update 7 False, Su_update 6 False, Su_update 1 False, su_sends 5, su_sends 3,
       Su_update 5 False, su_sends 2, Su_update 0 False, Su_remove 4, su_sends 6, su_sends 3] of
     Inr (l, rs) \<Rightarrow> getNextProcTime l = Inr 2 \<and> su_map l 0 = Some 1
   | _ \<Rightarrow> False"
  by (simp add: SndUList_new_def su_update_def su_insert_node_def su_pop_def su_remove_node_def sift_up.simps
      sift_down.simps earlier_child_def in_heap_def getNextProcTime_def su_map_def Let_def)

lemma su_updates_fill:
  assumes "k \<le> 4096"
  shows "\<exists>l rs. fold_res su_run (SndUList_new storage time0, []) (map (\<lambda>n. Su_update n False) [0..<k]) = Inr (l, rs)
    \<and> su_ok l \<and> su_size l = 4096 \<and> dom (su_map l) = {..<k}"
  using assms
proof (induction k)
  case 0
  then show ?case using su_new_ok by auto
next
  case (Suc k)
  then obtain l rs where l: "fold_res su_run (SndUList_new storage time0, []) (map (\<lambda>n. Su_update n False) [0..<k])
      = Inr (l, rs)" "su_ok l" "su_size l = 4096" "dom (su_map l) = {..<k}" by auto
  have "su_map l k = None" using l(4) by (metis domIff lessThan_iff less_irrefl)
  then have k: "su_loc l k < 0" by (auto simp: su_map_def split: if_splits)
  have "su_count l = k" using su_count_dom [OF l(2)] l(4) by simp
  then have "su_last l + 1 < int (su_size l)" using l(2,3) Suc.prems by (auto simp: su_ok_def)
  from su_insert_node_ok [OF l(2) k this, of 1] obtain l' where "su_insert_node 1 k l = Inr l'" "su_ok l'"
    "su_size l' = 4096" "su_map l' = (su_map l)(k \<mapsto> 1)" using l(3) by auto
  then show ?case using l k by (auto simp: fold_res_append su_update_def)
qed

text \<open>The array of the list has 4096 places and only \<open>insert\<close>, which is never called, makes it grow: when
  4097 sockets have something to send, \<open>update\<close> writes behind the array.
\<close>

theorem socket_4097_overflows:
  "fold_res su_run (SndUList_new storage time0, []) (map (\<lambda>n. Su_update n False) [0..<4097]) = Inl Undefined"
proof -
  obtain l rs where l: "fold_res su_run (SndUList_new storage time0, []) (map (\<lambda>n. Su_update n False) [0..<4096])
      = Inr (l, rs)" "su_ok l" "su_size l = 4096" "dom (su_map l) = {..<4096}"
    using su_updates_fill [of 4096 storage time0] by blast
  have "su_map l 4096 = None" using l(4) by (metis domIff lessThan_iff less_irrefl)
  then have "su_loc l 4096 < 0" by (auto simp: su_map_def split: if_splits)
  moreover have "su_count l = 4096" using su_count_dom [OF l(2)] l(4) by simp
  ultimately have "su_update 4096 False l = Inl Undefined"
    using l(2,3) by (auto simp: su_update_def su_insert_node_def in_heap_def su_ok_def Let_def)
  moreover have "[0..<4097] = [0..<4096] @ [4096 :: nat]" using upt_Suc [of 0 4096] by simp
  ultimately show ?thesis using l(1) by (simp only: map_append fold_res_append) simp
qed

end
