(* ===== verification/UdtPacket.thy ===== *)
theory UdtPacket
  imports Prelude "HOL-Library.Word" "HOL-Library.Signed_Division"
begin

text \<open>
  Packets of the transport (\<open>CPacket\<close> of \<open>src/udt/packet.cpp\<close>) and how the channel puts them on the
  network (\<open>CChannel::sendto\<close> and \<open>recvfrom\<close> of \<open>src/udt/channel.cpp\<close>). The four words of the header are
  fields; \<open>pk_data\<close> is the memory behind \<open>m_pcData\<close> and \<open>pk_len\<close> its length in the vector of buffers.
  Whether a host stores the low byte of a word first is the argument \<open>le\<close>.
\<close>

type_synonym byte = "8 word"

record packet =
  pk_seqno :: "32 word"
  pk_msgno :: "32 word"
  pk_timestamp :: "32 word"
  pk_id :: "32 word"
  pk_pad :: "32 word"
  pk_data :: "nat \<Rightarrow> byte"
  pk_len :: int

definition payload :: "packet \<Rightarrow> byte list" where
  "payload p = map (pk_data p) [0..<nat (pk_len p)]"

definition getLength :: "packet \<Rightarrow> int" where
  "getLength p = pk_len p"

definition setLength :: "int \<Rightarrow> packet \<Rightarrow> packet" where
  "setLength len p = p\<lparr>pk_len := len\<rparr>"

section \<open>Words in memory\<close>

text \<open>The bytes of a word from the high to the low one, in the order of a host, and \<open>htonl\<close>, which is \<open>ntohl\<close>.\<close>

definition high_first :: "32 word \<Rightarrow> byte list" where
  "high_first w = [ucast (drop_bit 24 w), ucast (drop_bit 16 w), ucast (drop_bit 8 w), ucast w]"

definition of_high_first :: "byte list \<Rightarrow> 32 word" where
  "of_high_first bs = push_bit 24 (ucast (bs ! 0)) OR push_bit 16 (ucast (bs ! 1)) OR push_bit 8 (ucast (bs ! 2)) OR ucast (bs ! 3)"

definition host_order :: "bool \<Rightarrow> byte list \<Rightarrow> byte list" where
  "host_order le bs = (if le then rev bs else bs)"

definition bytes_of :: "bool \<Rightarrow> 32 word \<Rightarrow> byte list" where
  "bytes_of le w = host_order le (high_first w)"

definition word_of :: "bool \<Rightarrow> byte list \<Rightarrow> 32 word" where
  "word_of le bs = of_high_first (host_order le bs)"

definition htonl :: "bool \<Rightarrow> 32 word \<Rightarrow> 32 word" where
  "htonl le w = word_of le (high_first w)"

text \<open>The word \<open>i\<close> of a memory, and writing it.\<close>

definition word_at :: "bool \<Rightarrow> (nat \<Rightarrow> byte) \<Rightarrow> nat \<Rightarrow> 32 word" where
  "word_at le mem i = word_of le [mem (4 * i), mem (4 * i + 1), mem (4 * i + 2), mem (4 * i + 3)]"

definition put_word :: "bool \<Rightarrow> nat \<Rightarrow> 32 word \<Rightarrow> (nat \<Rightarrow> byte) \<Rightarrow> nat \<Rightarrow> byte" where
  "put_word le i w mem =
     (let bs = bytes_of le w in
      mem(4 * i := bs ! 0, 4 * i + 1 := bs ! 1, 4 * i + 2 := bs ! 2, 4 * i + 3 := bs ! 3))"

section \<open>CPacket\<close>

definition Packet_new :: "32 word \<Rightarrow> 32 word \<Rightarrow> 32 word \<Rightarrow> 32 word \<Rightarrow> (nat \<Rightarrow> byte) \<Rightarrow> int \<Rightarrow> packet" where
  "Packet_new h0 h1 h2 h3 mem len =
     \<lparr>pk_seqno = h0, pk_msgno = h1, pk_timestamp = h2, pk_id = h3, pk_pad = 0, pk_data = mem, pk_len = len\<rparr>"

text \<open>The padding of control packets that carry nothing.\<close>

definition padded :: "bool \<Rightarrow> packet \<Rightarrow> packet" where
  "padded le p = p\<lparr>pk_data := put_word le 0 (pk_pad p) (pk_data p), pk_len := 4\<rparr>"

text \<open>
  \<open>lparam\<close> points to an integer and \<open>rparam\<close> to a memory, or is null. The packet takes the memory over:
  a null pointer behind a length is no error before it is read.
\<close>

definition pack :: "bool \<Rightarrow> int \<Rightarrow> 32 word option \<Rightarrow> (nat \<Rightarrow> byte) option \<Rightarrow> int \<Rightarrow> (nat \<Rightarrow> byte) \<Rightarrow> packet \<Rightarrow> packet res" where
  "pack le pkttype lparam rparam sz null_mem p =
     (let p = p\<lparr>pk_seqno := 0x80000000 OR push_bit 16 (word_of_int pkttype)\<rparr>;
          given = (\<lambda>p. p\<lparr>pk_data := (case rparam of None \<Rightarrow> null_mem | Some mem \<Rightarrow> mem), pk_len := sz\<rparr>);
          numbered = (\<lambda>p. case lparam of None \<Rightarrow> Inl Undefined | Some n \<Rightarrow> Inr (p\<lparr>pk_msgno := n\<rparr>)) in
      if pkttype = 2 then Inr (given (case lparam of None \<Rightarrow> p | Some n \<Rightarrow> p\<lparr>pk_msgno := n\<rparr>))
      else if pkttype = 6 then bind_res (numbered p) (\<lambda>p. Inr (padded le p))
      else if pkttype = 3 then Inr (given p)
      else if pkttype = 4 then Inr (padded le p)
      else if pkttype = 1 then Inr (padded le p)
      else if pkttype = 0 then Inr (given p)
      else if pkttype = 5 then Inr (padded le p)
      else if pkttype = 7 then bind_res (numbered p) (\<lambda>p. Inr (given p))
      else if pkttype = 32767 then
        (case lparam of None \<Rightarrow> Inl Undefined
         | Some n \<Rightarrow>
             let p = p\<lparr>pk_seqno := pk_seqno p OR n\<rparr> in
             Inr (if rparam \<noteq> None then given p else padded le p))
      else Inr p)"

definition getFlag :: "packet \<Rightarrow> int" where
  "getFlag p = sint (drop_bit 31 (pk_seqno p))"

definition getType :: "packet \<Rightarrow> int" where
  "getType p = sint (drop_bit 16 (pk_seqno p) AND 0x00007FFF)"

definition getExtendedType :: "packet \<Rightarrow> int" where
  "getExtendedType p = sint (pk_seqno p AND 0x0000FFFF)"

definition getAckSeqNo :: "packet \<Rightarrow> int" where
  "getAckSeqNo p = sint (pk_msgno p)"

definition getMsgBoundary :: "packet \<Rightarrow> int" where
  "getMsgBoundary p = sint (drop_bit 30 (pk_msgno p))"

definition getMsgOrderFlag :: "packet \<Rightarrow> bool" where
  "getMsgOrderFlag p \<longleftrightarrow> 1 = drop_bit 29 (pk_msgno p) AND 1"

definition getMsgSeq :: "packet \<Rightarrow> int" where
  "getMsgSeq p = sint (pk_msgno p AND 0x1FFFFFFF)"

text \<open>The copy has memory of its own, of the length of the packet; what lies behind it is arbitrary.\<close>

definition clone :: "(nat \<Rightarrow> byte) \<Rightarrow> packet \<Rightarrow> packet" where
  "clone mem p =
     \<lparr>pk_seqno = pk_seqno p, pk_msgno = pk_msgno p, pk_timestamp = pk_timestamp p, pk_id = pk_id p, pk_pad = 0,
      pk_data = (\<lambda>i. if int i < pk_len p then pk_data p i else mem i), pk_len = pk_len p\<rparr>"

section \<open>The channel\<close>

text \<open>The loops over the words of the memory of a control packet.\<close>

definition converted :: "bool \<Rightarrow> nat \<Rightarrow> (nat \<Rightarrow> byte) \<Rightarrow> nat \<Rightarrow> byte" where
  "converted le n mem = fold (\<lambda>i mem. put_word le i (htonl le (word_at le mem i)) mem) [0..<n] mem"

definition convert_data :: "bool \<Rightarrow> packet \<Rightarrow> packet" where
  "convert_data le p =
     (if getFlag p \<noteq> 0
      then p\<lparr>pk_data := converted le (nat (getLength p sdiv 4)) (pk_data p)\<rparr>
      else p)"

definition convert_header :: "bool \<Rightarrow> packet \<Rightarrow> packet" where
  "convert_header le p =
     p\<lparr>pk_seqno := htonl le (pk_seqno p), pk_msgno := htonl le (pk_msgno p),
       pk_timestamp := htonl le (pk_timestamp p), pk_id := htonl le (pk_id p)\<rparr>"

definition header_bytes :: "bool \<Rightarrow> packet \<Rightarrow> byte list" where
  "header_bytes le p =
     bytes_of le (pk_seqno p) @ bytes_of le (pk_msgno p) @ bytes_of le (pk_timestamp p) @ bytes_of le (pk_id p)"

text \<open>
  \<open>sendto\<close> gives the datagram that \<open>sendmsg\<close> is called with, whose result \<open>res\<close> it returns, and the packet
  converted back.
\<close>

definition sendto :: "bool \<Rightarrow> int \<Rightarrow> packet \<Rightarrow> packet \<times> byte list \<times> int" where
  "sendto le res p =
     (let q = convert_header le (convert_data le p) in
      (convert_data le (convert_header le q), header_bytes le q @ payload q, res))"

text \<open>
  \<open>recvmsg\<close> gives a datagram or an error. It fills the header and then the memory, whose size is
  \<open>pk_len\<close> before the call; what does not fit is dropped and what does not come is left as it was.
\<close>

definition scatter :: "bool \<Rightarrow> byte list \<Rightarrow> packet \<Rightarrow> packet" where
  "scatter le bs p =
     (let h = bs @ drop (length bs) (header_bytes le p); body = take (nat (pk_len p)) (drop 16 bs) in
      p\<lparr>pk_seqno := word_of le (take 4 h), pk_msgno := word_of le (take 4 (drop 4 h)),
        pk_timestamp := word_of le (take 4 (drop 8 h)), pk_id := word_of le (take 4 (drop 12 h)),
        pk_data := (\<lambda>i. if i < length body then body ! i else pk_data p i)\<rparr>)"

definition recvfrom :: "bool \<Rightarrow> byte list option \<Rightarrow> packet \<Rightarrow> packet \<times> int" where
  "recvfrom le datagram p =
     (case datagram of
        None \<Rightarrow> (setLength (- 1) p, - 1)
      | Some bs \<Rightarrow>
          let res = min (int (length bs)) (16 + pk_len p) in
          if res \<le> 0 then (setLength (- 1) (scatter le bs p), - 1)
          else
            let q = convert_data le (convert_header le (setLength (res - 16) (scatter le bs p))) in
            (q, getLength q))"

end
