(* ===== verification/UdtSndBuffer.thy ===== *)
theory UdtSndBuffer
  imports UdtPacket
begin

text \<open>
  The buffer of the sender (\<open>CSndBuffer\<close> of \<open>src/udt/buffer.cpp\<close>): a ring of blocks, each with the bytes
  of one packet. Blocks are numbers, their contents and the next block of each are maps; new blocks
  take the next free numbers, and what their storage holds is an argument. Each block has memory of its own, of the size of a
  packet, so that the list of the physical buffers is left out but for the size of the first one.
  Two critical sections that only change the count are one step with the method around them.
\<close>

record block =
  bk_data :: "nat \<Rightarrow> byte"
  bk_length :: int
  bk_msgno :: "32 word"
  bk_origin :: "64 word"
  bk_ttl :: int

record snd_buffer =
  sb_block :: "nat \<Rightarrow> block"
  sb_next :: "nat \<Rightarrow> nat"
  sb_fresh :: nat
  sb_first :: nat
  sb_curr :: nat
  sb_last :: nat
  sb_unit :: int
  sb_next_msg :: "32 word"
  sb_size :: int
  sb_mss :: int
  sb_count :: int

text \<open>The constructor numbers the blocks of the ring from 0 on; the last one keeps the message number of its storage.\<close>

definition SndBuffer_new :: "(nat \<Rightarrow> block) \<Rightarrow> int \<Rightarrow> int \<Rightarrow> snd_buffer" where
  "SndBuffer_new storage sz mss =
     \<lparr>sb_block = (\<lambda>i. if int i < sz - 1 then (storage i)\<lparr>bk_msgno := 0\<rparr> else storage i),
      sb_next = (\<lambda>i. if int i < sz - 1 then i + 1 else 0), sb_fresh = nat (max 1 sz),
      sb_first = 0, sb_curr = 0, sb_last = 0, sb_unit = sz, sb_next_msg = 1, sb_size = sz, sb_mss = mss, sb_count = 0\<rparr>"

text \<open>Twice the loop over the new blocks: they are chained behind the last block.\<close>

definition sb_increase :: "snd_buffer \<Rightarrow> snd_buffer" where
  "sb_increase b =
     (let n = sb_fresh b; m = nat (max 1 (sb_unit b)) in
      b\<lparr>sb_next := (\<lambda>i. if i = sb_last b then n
          else if n \<le> i \<and> i < n + m then (if i + 1 < n + m then i + 1 else sb_next b (sb_last b))
          else sb_next b i),
        sb_fresh := n + m, sb_size := sb_size b + sb_unit b\<rparr>)"

function make_room :: "int \<Rightarrow> snd_buffer \<Rightarrow> snd_buffer res" where
  "make_room n b =
     (if n + sb_count b \<ge> sb_size b
      then if sb_unit b \<le> 0 then Inl Diverges else make_room n (sb_increase b)
      else Inr b)"
  by auto

termination
  by (relation "measure (\<lambda>(n, b). nat (n + sb_count b + 1 - sb_size b))") (auto simp: sb_increase_def Let_def)

declare make_room.simps [simp del]

text \<open>The number of packets for \<open>len\<close> bytes.\<close>

definition packets_of :: "int \<Rightarrow> snd_buffer \<Rightarrow> int" where
  "packets_of len b = (if len smod sb_mss b \<noteq> 0 then len sdiv sb_mss b + 1 else len sdiv sb_mss b)"

text \<open>The loop of \<open>addBuffer\<close>: the packet \<open>i\<close> of \<open>n\<close> goes to the block \<open>s\<close>.\<close>

definition fill_block :: "(nat \<Rightarrow> byte) \<Rightarrow> int \<Rightarrow> int \<Rightarrow> 32 word \<Rightarrow> 64 word \<Rightarrow> int \<Rightarrow> int \<Rightarrow> nat \<times> snd_buffer \<Rightarrow> nat \<times> snd_buffer" where
  "fill_block data len ttl inorder now n i = (\<lambda>(s, b).
     let pktlen = (if len - i * sb_mss b > sb_mss b then sb_mss b else len - i * sb_mss b);
         msgno = sb_next_msg b OR inorder;
         msgno = (if i = 0 then msgno OR 0x80000000 else msgno);
         msgno = (if i = n - 1 then msgno OR 0x40000000 else msgno) in
     (sb_next b s,
      b\<lparr>sb_block := (sb_block b)(s :=
          \<lparr>bk_data = (\<lambda>j. if int j < pktlen then data (nat (i * sb_mss b) + j) else bk_data (sb_block b s) j),
           bk_length = pktlen, bk_msgno = msgno, bk_origin = now, bk_ttl = ttl\<rparr>)\<rparr>))"

definition addBuffer :: "64 word \<Rightarrow> (nat \<Rightarrow> byte) \<Rightarrow> int \<Rightarrow> int \<Rightarrow> bool \<Rightarrow> snd_buffer \<Rightarrow> snd_buffer res" where
  "addBuffer now data len ttl order b =
     (if sb_mss b = 0 then Inl Undefined
      else
        let n = packets_of len b in
        bind_res (make_room n b) (\<lambda>b.
          let inorder = push_bit 29 (if order then 1 else 0);
              (s, b) = fold (\<lambda>i. fill_block data len ttl inorder now n i) [0..n - 1] (sb_last b, b) in
          if sb_next_msg b = 0x7FFFFFFF then Inl Undefined
          else Inr (b\<lparr>sb_last := s, sb_count := sb_count b + n, sb_next_msg := sb_next_msg b + 1\<rparr>)))"

text \<open>
  The loop of \<open>addBufferFromFile\<close>. The file gives for each read what \<open>gcount\<close> says and the bytes, or
  nothing when its state is bad before it.
\<close>

fun file_loop :: "(int \<Rightarrow> byte list) option list \<Rightarrow> int \<Rightarrow> int \<Rightarrow> nat \<times> snd_buffer \<times> int \<Rightarrow> nat \<times> snd_buffer \<times> int" where
  "file_loop (Some rd # reads) len i (s, b, tot) =
     (let pktlen = (if len - i * sb_mss b > sb_mss b then sb_mss b else len - i * sb_mss b);
          bytes = rd pktlen; cnt = int (length bytes);
          b = b\<lparr>sb_block := (sb_block b)(s := (sb_block b s)
                \<lparr>bk_data := (\<lambda>j. if j < length bytes then bytes ! j else bk_data (sb_block b s) j)\<rparr>)\<rparr> in
      if cnt \<le> 0 then (s, b, tot)
      else file_loop reads len (i + 1)
        (sb_next b s,
         b\<lparr>sb_block := (sb_block b)(s := (sb_block b s)\<lparr>bk_length := cnt, bk_ttl := - 1\<rparr>)\<rparr>,
         tot + cnt))"
| "file_loop _ len i (s, b, tot) = (s, b, tot)"

definition addBufferFromFile :: "(int \<Rightarrow> byte list) option list \<Rightarrow> int \<Rightarrow> snd_buffer \<Rightarrow> (snd_buffer \<times> int) res" where
  "addBufferFromFile reads len b =
     (if sb_mss b = 0 then Inl Undefined
      else
        let n = packets_of len b in
        bind_res (make_room n b) (\<lambda>b.
          let (s, b, tot) = file_loop (take (nat n) reads) len 0 (sb_last b, b, 0) in
          Inr (b\<lparr>sb_last := s, sb_count := sb_count b + n\<rparr>, tot)))"

text \<open>\<open>readData\<close> gives the block that is next to be sent, whose bytes, length and message number it returns.\<close>

definition readData :: "snd_buffer \<Rightarrow> snd_buffer \<times> block option" where
  "readData b =
     (if sb_curr b = sb_last b then (b, None)
      else (b\<lparr>sb_curr := sb_next b (sb_curr b)\<rparr>, Some (sb_block b (sb_curr b))))"

text \<open>The loop over the blocks of a message that has expired.\<close>

fun expired_loop :: "nat \<Rightarrow> 32 word \<Rightarrow> nat \<Rightarrow> bool \<Rightarrow> int \<Rightarrow> snd_buffer \<Rightarrow> (snd_buffer \<times> int) res" where
  "expired_loop fuel msgno p move msglen b =
     (if msgno = bk_msgno (sb_block b p) AND 0x1FFFFFFF
      then case fuel of
        0 \<Rightarrow> Inl Diverges
      | Suc fuel \<Rightarrow>
          let move = (move \<or> p = sb_curr b); p = sb_next b p in
          expired_loop fuel msgno p move (msglen + 1) (if move then b\<lparr>sb_curr := p\<rparr> else b)
      else Inr (b, msglen))"

declare expired_loop.simps [simp del]

text \<open>The other \<open>readData\<close>: the block at an offset, or the number and the length of an expired message.\<close>

definition readData_at :: "64 word \<Rightarrow> nat \<Rightarrow> snd_buffer \<Rightarrow> (snd_buffer \<times> (32 word \<times> int + block)) res" where
  "readData_at now offset b =
     (let p = (sb_next b ^^ offset) (sb_first b); bk = sb_block b p in
      if bk_ttl bk > 0 \<and> (now - bk_origin bk) div 1000 > word_of_int (bk_ttl bk)
      then
        let msgno = bk_msgno bk AND 0x1FFFFFFF in
        bind_res (expired_loop (nat (sb_size b)) msgno (sb_next b p) False 1 b) (\<lambda>(b, msglen). Inr (b, Inl (msgno, msglen)))
      else Inr (b, Inr bk))"

definition sb_ackData :: "nat \<Rightarrow> snd_buffer \<Rightarrow> snd_buffer" where
  "sb_ackData offset b = b\<lparr>sb_first := (sb_next b ^^ offset) (sb_first b), sb_count := sb_count b - int offset\<rparr>"

definition getCurrBufSize :: "snd_buffer \<Rightarrow> int" where
  "getCurrBufSize b = sb_count b"

end
