(* ===== verification/UdtRcvBuffer.thy ===== *)
theory UdtRcvBuffer
  imports UdtPacket
begin

text \<open>
  The buffer of the receiver (\<open>CRcvBuffer\<close> of \<open>src/udt/buffer.cpp\<close>): a circular array of pointers to
  the units of the queue, which hold the packets. Units are numbers and their contents a map, which
  the buffer shares with the queue. The loops that go around the array take fuel; \<open>Diverges\<close> is the
  result when it is used up.
\<close>

record cunit =
  cu_packet :: packet
  cu_flag :: int

record rcv_buffer =
  rb_unit :: "int \<Rightarrow> nat option"
  rb_size :: int
  rb_start :: int
  rb_last_ack :: int
  rb_max :: int
  rb_notch :: int
  rb_units :: "nat \<Rightarrow> cunit"
  rb_count :: int

definition RcvBuffer_new :: "int \<Rightarrow> (nat \<Rightarrow> cunit) \<Rightarrow> int \<Rightarrow> rcv_buffer" where
  "RcvBuffer_new bufsize units count =
     \<lparr>rb_unit = (\<lambda>_. None), rb_size = bufsize, rb_start = 0, rb_last_ack = 0, rb_max = - 1, rb_notch = 0,
      rb_units = units, rb_count = count\<rparr>"

text \<open>The other constructor leaves the array as it is.\<close>

definition RcvBuffer_default :: "(int \<Rightarrow> nat option) \<Rightarrow> (nat \<Rightarrow> cunit) \<Rightarrow> int \<Rightarrow> rcv_buffer" where
  "RcvBuffer_default storage units count = (RcvBuffer_new 65536 units count)\<lparr>rb_unit := storage\<rparr>"

text \<open>Reading a place of the array, and the unit it points to.\<close>

definition slot_at :: "int \<Rightarrow> rcv_buffer \<Rightarrow> nat option res" where
  "slot_at p b = (if 0 \<le> p \<and> p < rb_size b then Inr (rb_unit b p) else Inl Undefined)"

definition unit_at :: "int \<Rightarrow> rcv_buffer \<Rightarrow> cunit res" where
  "unit_at p b = bind_res (slot_at p b) (\<lambda>s. case s of None \<Rightarrow> Inl Undefined | Some u \<Rightarrow> Inr (rb_units b u))"

definition set_flag :: "nat \<Rightarrow> int \<Rightarrow> rcv_buffer \<Rightarrow> rcv_buffer" where
  "set_flag u f b = b\<lparr>rb_units := (rb_units b)(u := (rb_units b u)\<lparr>cu_flag := f\<rparr>)\<rparr>"

definition free_slot :: "int \<Rightarrow> rcv_buffer \<Rightarrow> rcv_buffer res" where
  "free_slot p b = bind_res (slot_at p b) (\<lambda>s. case s of
     None \<Rightarrow> Inl Undefined
   | Some u \<Rightarrow> Inr (set_flag u 0 (b\<lparr>rb_unit := (rb_unit b)(p := None), rb_count := rb_count b - 1\<rparr>)))"

definition next_pos :: "int \<Rightarrow> rcv_buffer \<Rightarrow> int" where
  "next_pos p b = (if p + 1 = rb_size b then 0 else p + 1)"

definition RcvBuffer_destroy :: "rcv_buffer \<Rightarrow> rcv_buffer res" where
  "RcvBuffer_destroy b = fold_res (\<lambda>b i. case rb_unit b i of
     None \<Rightarrow> Inr b
   | Some u \<Rightarrow> Inr (set_flag u 0 (b\<lparr>rb_count := rb_count b - 1\<rparr>))) b [0..rb_size b - 1]"

definition addData :: "nat \<Rightarrow> int \<Rightarrow> rcv_buffer \<Rightarrow> (rcv_buffer \<times> int) res" where
  "addData u offset b =
     (let pos = (rb_last_ack b + offset) smod rb_size b;
          b = (if offset > rb_max b then b\<lparr>rb_max := offset\<rparr> else b) in
      bind_res (slot_at pos b) (\<lambda>s.
        if s \<noteq> None then Inr (b, - 1)
        else Inr (set_flag u 1 (b\<lparr>rb_unit := (rb_unit b)(pos := Some u), rb_count := rb_count b + 1\<rparr>), 0)))"

text \<open>The loop of \<open>readBuffer\<close>: from position \<open>p\<close> with \<open>rs\<close> bytes to read. The bytes come one after the other.\<close>

fun read_loop :: "nat \<Rightarrow> int \<Rightarrow> int \<Rightarrow> byte list \<Rightarrow> rcv_buffer \<Rightarrow> (rcv_buffer \<times> int \<times> byte list) res" where
  "read_loop fuel p rs out b =
     (if p \<noteq> rb_last_ack b \<and> rs > 0
      then case fuel of
        0 \<Rightarrow> Inl Diverges
      | Suc fuel \<Rightarrow>
          bind_res (unit_at p b) (\<lambda>u.
            let len = getLength (cu_packet u) - rb_notch b; unitsize = (if len > rs then rs else len) in
            if unitsize < 0 then Inl Undefined
            else
              let bytes = map (\<lambda>i. pk_data (cu_packet u) (nat (rb_notch b) + i)) [0..<nat unitsize] in
              if rs > unitsize \<or> rs = len
              then bind_res (free_slot p b) (\<lambda>b.
                read_loop fuel (next_pos p b) (rs - unitsize) (out @ bytes) (b\<lparr>rb_notch := 0\<rparr>))
              else read_loop fuel p (rs - unitsize) (out @ bytes) (b\<lparr>rb_notch := rb_notch b + rs\<rparr>))
      else Inr (b\<lparr>rb_start := p\<rparr>, rs, out))"

declare read_loop.simps [simp del]

text \<open>\<open>readBuffer\<close> gives the bytes it writes; their number is what it returns.\<close>

definition readBuffer :: "int \<Rightarrow> rcv_buffer \<Rightarrow> (rcv_buffer \<times> byte list \<times> int) res" where
  "readBuffer len b =
     bind_res (read_loop (Suc (nat (rb_size b))) (rb_start b) len [] b) (\<lambda>(b, rs, out). Inr (b, out, len - rs))"

text \<open>\<open>readBufferToFile\<close> has the same loop, with \<open>ofs.write\<close> for \<open>memcpy\<close>; what the file stream does with the bytes is not modelled.\<close>

definition readBufferToFile :: "int \<Rightarrow> rcv_buffer \<Rightarrow> (rcv_buffer \<times> byte list \<times> int) res" where
  "readBufferToFile len b =
     bind_res (read_loop (Suc (nat (rb_size b))) (rb_start b) len [] b) (\<lambda>(b, rs, out). Inr (b, out, len - rs))"

definition rb_ackData :: "int \<Rightarrow> rcv_buffer \<Rightarrow> rcv_buffer" where
  "rb_ackData len b =
     b\<lparr>rb_last_ack := (rb_last_ack b + len) smod rb_size b,
       rb_max := (if rb_max b - len < 0 then 0 else rb_max b - len)\<rparr>"

definition getRcvDataSize :: "rcv_buffer \<Rightarrow> int" where
  "getRcvDataSize b =
     (if rb_last_ack b \<ge> rb_start b then rb_last_ack b - rb_start b else rb_size b + rb_last_ack b - rb_start b)"

definition getAvailBufSize :: "rcv_buffer \<Rightarrow> int" where
  "getAvailBufSize b = rb_size b - getRcvDataSize b - 1"

text \<open>The loop of \<open>dropMsg\<close> from position \<open>i\<close>.\<close>

fun drop_loop :: "nat \<Rightarrow> int \<Rightarrow> 32 word \<Rightarrow> int \<Rightarrow> rcv_buffer \<Rightarrow> rcv_buffer res" where
  "drop_loop fuel n msgno i b =
     (if i \<noteq> n
      then case fuel of
        0 \<Rightarrow> Inl Diverges
      | Suc fuel \<Rightarrow>
          bind_res (slot_at i b) (\<lambda>s.
            drop_loop fuel n msgno ((i + 1) smod rb_size b) (case s of
              None \<Rightarrow> b
            | Some u \<Rightarrow> if msgno = pk_msgno (cu_packet (rb_units b u)) then set_flag u 3 b else b))
      else Inr b)"

declare drop_loop.simps [simp del]

definition dropMsg :: "32 word \<Rightarrow> rcv_buffer \<Rightarrow> rcv_buffer res" where
  "dropMsg msgno b =
     drop_loop (nat (rb_size b)) ((rb_last_ack b + rb_max b) smod rb_size b) msgno (rb_start b) b"

section \<open>Messages\<close>

text \<open>The look ahead for a whole message from position \<open>i\<close>, which tells whether it is good.\<close>

fun whole_message :: "nat \<Rightarrow> int \<Rightarrow> rcv_buffer \<Rightarrow> bool res" where
  "whole_message fuel i b =
     (if i \<noteq> rb_last_ack b
      then case fuel of
        0 \<Rightarrow> Inl Diverges
      | Suc fuel \<Rightarrow>
          bind_res (slot_at i b) (\<lambda>s. case s of
            None \<Rightarrow> Inr False
          | Some u \<Rightarrow>
              if cu_flag (rb_units b u) \<noteq> 1 then Inr False
              else if getMsgBoundary (cu_packet (rb_units b u)) = 1 \<or> getMsgBoundary (cu_packet (rb_units b u)) = 3
              then Inr True
              else whole_message fuel (next_pos i b) b)
      else Inr True)"

declare whole_message.simps [simp del]

text \<open>The loop that skips the bad messages at the beginning.\<close>

fun skip_bad :: "nat \<Rightarrow> rcv_buffer \<Rightarrow> rcv_buffer res" where
  "skip_bad fuel b =
     (if rb_start b \<noteq> rb_last_ack b
      then case fuel of
        0 \<Rightarrow> Inl Diverges
      | Suc fuel \<Rightarrow>
          bind_res (slot_at (rb_start b) b) (\<lambda>s. case s of
            None \<Rightarrow> skip_bad fuel (b\<lparr>rb_start := next_pos (rb_start b) b\<rparr>)
          | Some u \<Rightarrow>
              bind_res
                (if cu_flag (rb_units b u) = 1 \<and> getMsgBoundary (cu_packet (rb_units b u)) > 1
                 then whole_message (nat (rb_size b)) (rb_start b) b else Inr False)
                (\<lambda>good. if good then Inr b
                  else bind_res (free_slot (rb_start b) b) (\<lambda>b.
                    skip_bad fuel (b\<lparr>rb_start := next_pos (rb_start b) b\<rparr>))))
      else Inr b)"

declare skip_bad.simps [simp del]

text \<open>The loop that looks for a message: it keeps the head \<open>p\<close>, the tail \<open>q\<close> and whether the acknowledged part is passed.\<close>

fun find_message :: "nat \<Rightarrow> int \<Rightarrow> int \<Rightarrow> bool \<Rightarrow> rcv_buffer \<Rightarrow> (int \<times> int \<times> bool \<times> bool) res" where
  "find_message 0 p q passack b = Inr (p, q, passack, False)"
| "find_message (Suc n) p q passack b =
     bind_res (slot_at q b) (\<lambda>s.
       let here = (case s of None \<Rightarrow> None
                   | Some u \<Rightarrow> if cu_flag (rb_units b u) = 1 then Some (cu_packet (rb_units b u)) else None);
           (p, found) = (case here of None \<Rightarrow> (- 1, False)
                         | Some pkt \<Rightarrow>
                             if getMsgBoundary pkt = 3 then (q, True)
                             else if getMsgBoundary pkt = 2 then (q, False)
                             else if getMsgBoundary pkt = 1 then (p, p \<noteq> - 1)
                             else (p, False)) in
       if found \<and> (\<not> passack \<or> (case here of Some pkt \<Rightarrow> \<not> getMsgOrderFlag pkt | None \<Rightarrow> False))
       then Inr (p, q, passack, True)
       else find_message n p (next_pos q b) (passack \<or> next_pos q b = rb_last_ack b) b)"

text \<open>The result is the buffer and, when a message was found, \<open>p\<close>, \<open>q\<close> and \<open>passack\<close>.\<close>

definition scanMsg :: "rcv_buffer \<Rightarrow> (rcv_buffer \<times> (int \<times> int \<times> bool) option) res" where
  "scanMsg b =
     (if rb_start b = rb_last_ack b \<and> 0 = rb_max b then Inr (b, None)
      else
        bind_res (skip_bad (nat (rb_size b)) b) (\<lambda>b.
        bind_res (find_message (nat (rb_max b + getRcvDataSize b + 1)) (- 1) (rb_start b) (rb_start b = rb_last_ack b) b)
          (\<lambda>(p, q, passack, found).
            Inr (b, if found \<or> (p \<noteq> - 1 \<and> (q + 1) smod rb_size b = p) then Some (p, q, passack) else None))))"

text \<open>The loop of \<open>readMsg\<close>.\<close>

fun take_message :: "nat \<Rightarrow> int \<Rightarrow> int \<Rightarrow> bool \<Rightarrow> int \<Rightarrow> byte list \<Rightarrow> rcv_buffer \<Rightarrow> (rcv_buffer \<times> int \<times> byte list) res" where
  "take_message fuel p q passack rs out b =
     (if p \<noteq> (q + 1) smod rb_size b
      then case fuel of
        0 \<Rightarrow> Inl Diverges
      | Suc fuel \<Rightarrow>
          bind_res (unit_at p b) (\<lambda>u.
            let len = getLength (cu_packet u); unitsize = (if rs \<ge> 0 \<and> len > rs then rs else len);
                bytes = map (pk_data (cu_packet u)) [0..<nat unitsize];
                rs = (if unitsize > 0 then rs - unitsize else rs) in
            bind_res
              (if \<not> passack then free_slot p b
               else bind_res (slot_at p b) (\<lambda>s. case s of None \<Rightarrow> Inl Undefined | Some u \<Rightarrow> Inr (set_flag u 2 b)))
              (\<lambda>b. take_message fuel (next_pos p b) q passack rs (out @ bytes) b))
      else Inr (b, rs, out))"

declare take_message.simps [simp del]

definition readMsg :: "int \<Rightarrow> rcv_buffer \<Rightarrow> (rcv_buffer \<times> byte list \<times> int) res" where
  "readMsg len b =
     bind_res (scanMsg b) (\<lambda>(b, found). case found of
       None \<Rightarrow> Inr (b, [], 0)
     | Some (p, q, passack) \<Rightarrow>
         bind_res (take_message (nat (rb_size b)) p q passack len [] b) (\<lambda>(b, rs, out).
           Inr (if passack then b else b\<lparr>rb_start := (q + 1) smod rb_size b\<rparr>, out, len - rs)))"

definition getRcvMsgNum :: "rcv_buffer \<Rightarrow> (rcv_buffer \<times> int) res" where
  "getRcvMsgNum b = bind_res (scanMsg b) (\<lambda>(b, found). Inr (b, if found \<noteq> None then 1 else 0))"

end
