(* ===== verification/UdtPacketProperties.thy ===== *)
theory UdtPacketProperties
  imports UdtPacket "HOL-Library.Word"
begin

text \<open>
  The packets: what \<open>pack\<close> puts into the header is read back, and what one host sends another receives,
  whatever the orders of their bytes: all words of the header, the bytes of data and the words of
  control information.
\<close>

section \<open>Words in memory\<close>

lemma of_high_first_inverse [simp]: "of_high_first (high_first w) = w"
proof (rule bit_word_eqI)
  fix n assume "n < LENGTH(32)"
  then consider "n < 8" | "8 \<le> n" "n < 16" | "16 \<le> n" "n < 24" | "24 \<le> n" "n < 32" by force
  then show "bit (of_high_first (high_first w)) n \<longleftrightarrow> bit w n"
    by cases (auto simp: of_high_first_def high_first_def bit_simps)
qed

lemma length_high_first [simp]: "length (high_first w) = 4"
  by (simp add: high_first_def)

lemma length_bytes_of [simp]: "length (bytes_of le w) = 4"
  by (simp add: bytes_of_def host_order_def)

lemma four_bytes: "length bs = 4 \<Longrightarrow> bs = [bs ! 0, bs ! 1, bs ! 2, bs ! 3]"
  by (auto simp: numeral_eq_Suc length_Suc_conv)

lemma high_first_inverse:
  assumes "length bs = 4"
  shows "high_first (of_high_first bs) = bs"
proof -
  have "ucast (drop_bit 24 (of_high_first bs)) = bs ! 0" "ucast (drop_bit 16 (of_high_first bs)) = bs ! 1"
    "ucast (drop_bit 8 (of_high_first bs)) = bs ! 2" "ucast (of_high_first bs) = bs ! 3"
    by (rule bit_word_eqI; auto simp: of_high_first_def bit_simps dest: bit_imp_le_length)+
  then show ?thesis using four_bytes [OF assms] by (simp add: high_first_def)
qed

lemma host_order_twice [simp]: "host_order le (host_order le bs) = bs" "length (host_order le bs) = length bs"
  by (simp_all add: host_order_def)

lemma word_of_bytes_of [simp]: "word_of le (bytes_of le w) = w"
  by (simp add: word_of_def bytes_of_def)

lemma bytes_of_word_of: "length bs = 4 \<Longrightarrow> bytes_of le (word_of le bs) = bs"
  by (simp add: word_of_def bytes_of_def high_first_inverse)

lemma bytes_of_htonl: "bytes_of le (htonl le w) = high_first w"
  by (simp add: htonl_def bytes_of_word_of)

lemma htonl_word_of: "length bs = 4 \<Longrightarrow> htonl le (word_of le bs) = of_high_first bs"
  by (cases le) (simp_all add: htonl_def word_of_def host_order_def high_first_inverse)

lemma htonl_htonl [simp]: "htonl le (htonl le w) = w"
  by (simp add: htonl_def htonl_word_of [unfolded htonl_def])

lemma high_first_word_of: "length bs = 4 \<Longrightarrow> high_first (word_of le bs) = host_order le bs"
  by (simp add: word_of_def high_first_inverse)

section \<open>The memory of a packet\<close>

lemma converted_simps [simp]:
  "converted le 0 mem = mem"
  "converted le (Suc n) mem = put_word le n (htonl le (word_at le (converted le n mem) n)) (converted le n mem)"
  by (simp_all add: converted_def)

lemma put_word_at: "put_word le i w mem j = (if j div 4 = i then bytes_of le w ! (j mod 4) else mem j)"
proof -
  have "j = 4 * (j div 4) + j mod 4" "j mod 4 < 4" by simp_all
  then consider "j = 4 * (j div 4)" "j mod 4 = 0" | "j = 4 * (j div 4) + 1" "j mod 4 = 1"
    | "j = 4 * (j div 4) + 2" "j mod 4 = 2" | "j = 4 * (j div 4) + 3" "j mod 4 = 3" by linarith
  then show ?thesis by cases (auto simp: put_word_def Let_def)
qed

lemma word_at_cong:
  assumes "\<And>j. j div 4 = i \<Longrightarrow> mem j = mem' j"
  shows "word_at le mem i = word_at le mem' i"
  using assms by (simp add: word_at_def)

lemma converted_at:
  "converted le n mem j = (if j div 4 < n then high_first (word_at le mem (j div 4)) ! (j mod 4) else mem j)"
proof (induction n arbitrary: j)
  case (Suc n)
  have "word_at le (converted le n mem) n = word_at le mem n" by (rule word_at_cong) (simp add: Suc)
  then show ?case using Suc by (simp add: put_word_at bytes_of_htonl less_Suc_eq)
qed simp

lemma word_at_high_first:
  assumes "\<And>k. k < 4 \<Longrightarrow> mem (4 * i + k) = high_first w ! k"
  shows "word_at le mem i = htonl le w"
proof -
  have "[mem (4 * i), mem (4 * i + 1), mem (4 * i + 2), mem (4 * i + 3)] = high_first w"
    using four_bytes [OF length_high_first, of w] assms [of 0] assms [of 1] assms [of 2] assms [of 3] by simp
  then show ?thesis by (simp only: word_at_def htonl_def)
qed

lemma word_at_converted: "i < n \<Longrightarrow> word_at le (converted le n mem) i = htonl le (word_at le mem i)"
  by (rule word_at_high_first) (simp add: converted_at)

lemma word_at_bytes: "high_first (word_at le mem i) = host_order le [mem (4 * i), mem (4 * i + 1), mem (4 * i + 2), mem (4 * i + 3)]"
  by (simp add: word_at_def high_first_word_of)

lemma converted_twice [simp]: "converted le n (converted le n mem) = mem"
proof
  fix j :: nat
  let ?i = "j div 4"
  have "high_first (htonl le (word_at le mem ?i)) ! (j mod 4) = mem j"
  proof -
    have "high_first (htonl le (word_at le mem ?i)) = host_order le (high_first (word_at le mem ?i))"
      by (simp add: htonl_def high_first_word_of)
    also have "\<dots> = [mem (4 * ?i), mem (4 * ?i + 1), mem (4 * ?i + 2), mem (4 * ?i + 3)]" by (simp add: word_at_bytes)
    finally have eq: "high_first (htonl le (word_at le mem ?i)) = [mem (4 * ?i), mem (4 * ?i + 1), mem (4 * ?i + 2), mem (4 * ?i + 3)]" .
    have "j = 4 * ?i + j mod 4" "j mod 4 < 4" by simp_all
    then consider "j mod 4 = 0" "j = 4 * ?i" | "j mod 4 = 1" "j = 4 * ?i + 1" | "j mod 4 = 2" "j = 4 * ?i + 2"
      | "j mod 4 = 3" "j = 4 * ?i + 3" by linarith
    then show ?thesis unfolding eq by cases (simp_all only: nth_Cons_0 nth_Cons_numeral, simp_all)
  qed
  then show "converted le n (converted le n mem) j = mem j"
    by (cases "?i < n") (simp_all add: converted_at [of le n "converted le n mem"] word_at_converted, simp add: converted_at)
qed

section \<open>From host to host\<close>

lemma getFlag_eq: "getFlag p = (if bit (pk_seqno p) 31 then 1 else 0)"
proof -
  have "drop_bit 31 (pk_seqno p) = (if bit (pk_seqno p) 31 then 1 else 0)"
  proof (rule bit_word_eqI)
    fix n assume "n < LENGTH(32)"
    show "bit (drop_bit 31 (pk_seqno p)) n \<longleftrightarrow> bit (if bit (pk_seqno p) 31 then 1 else 0) n"
      using bit_imp_le_length [of "pk_seqno p" "31 + n"] by (cases "n = 0") (auto simp: bit_simps)
  qed
  then show ?thesis by (simp add: getFlag_def)
qed

lemma take_4: "length a = 4 \<Longrightarrow> take 4 (a @ b) = a" "length a = 4 \<Longrightarrow> drop 4 (a @ b) = b"
  by simp_all

lemma payload_at [simp]: "i < nat (pk_len p) \<Longrightarrow> payload p ! i = pk_data p i" "length (payload p) = nat (pk_len p)"
  by (simp_all add: payload_def)

text \<open>C22:
  what one host sends to another arrives, whatever the orders of their bytes: \<open>sendto\<close> leaves the packet
  as it was, and from the datagram it makes, \<open>recvfrom\<close> restores the four words of the header, the
  length, the bytes of a data packet, and the words of a control packet with the bytes that are left
  over behind the last one.
\<close>

theorem channel_roundtrip:
  assumes "0 \<le> pk_len p" "pk_len p \<le> pk_len r"
  shows "let (p', datagram, res') = sendto le1 res p; (q, n) = recvfrom le2 (Some datagram) r in
    p' = p \<and> n = pk_len p \<and> pk_len q = pk_len p \<and> pk_seqno q = pk_seqno p \<and> pk_msgno q = pk_msgno p
    \<and> pk_timestamp q = pk_timestamp p \<and> pk_id q = pk_id p
    \<and> (getFlag p = 0 \<longrightarrow> payload q = payload p)
    \<and> (getFlag p \<noteq> 0 \<longrightarrow>
        (\<forall>i. 4 * int i + 3 < pk_len p \<longrightarrow> word_at le2 (pk_data q) i = word_at le1 (pk_data p) i)
        \<and> (\<forall>j. 4 * (pk_len p div 4) \<le> int j \<longrightarrow> int j < pk_len p \<longrightarrow> pk_data q j = pk_data p j))"
proof -
  define m where "m = (if getFlag p \<noteq> 0 then nat (pk_len p div 4) else 0)"
  have conv: "convert_data le p' = p'\<lparr>pk_data := converted le m (pk_data p')\<rparr>"
    if "pk_seqno p' = pk_seqno p" "pk_len p' = pk_len p" for le and p' :: packet
  proof -
    have "pk_len p sdiv 4 = pk_len p div 4" using assms(1) by (cases "pk_len p = 0") (simp_all add: signed_divide_int_def)
    then show ?thesis using that by (auto simp: convert_data_def m_def getFlag_def getLength_def)
  qed
  define c where "c = convert_header le1 (convert_data le1 p)"
  define bs where "bs = header_bytes le1 c @ payload c"
  define mid where "mid = convert_header le2 (setLength (pk_len p) (scatter le2 bs r))"
  have c: "c = p\<lparr>pk_seqno := htonl le1 (pk_seqno p), pk_msgno := htonl le1 (pk_msgno p),
      pk_timestamp := htonl le1 (pk_timestamp p), pk_id := htonl le1 (pk_id p), pk_data := converted le1 m (pk_data p)\<rparr>"
    by (simp add: c_def convert_header_def conv)
  have undone: "convert_header le1 c = p\<lparr>pk_data := converted le1 m (pk_data p)\<rparr>"
    by (simp add: c convert_header_def)
  have send: "sendto le1 res p = (p, bs, res)"
    unfolding sendto_def c_def [symmetric] Let_def undone by (simp add: conv bs_def)
  have header: "header_bytes le1 c = high_first (pk_seqno p) @ high_first (pk_msgno p) @ high_first (pk_timestamp p) @ high_first (pk_id p)"
    by (simp add: header_bytes_def c bytes_of_htonl)
  have cf: "pk_len c = pk_len p" "pk_data c = converted le1 m (pk_data p)" by (simp_all add: c)
  have len: "length bs = 16 + nat (pk_len p)" by (simp add: bs_def header cf)
  have body: "take (nat (pk_len r)) (drop 16 bs) = payload c"
    using assms by (simp add: bs_def header cf payload_def)
  have htonl_eq: "word_of le2 (high_first w) = htonl le2 w" for w by (simp add: htonl_def)
  have mid: "pk_seqno mid = pk_seqno p" "pk_msgno mid = pk_msgno p" "pk_timestamp mid = pk_timestamp p"
    "pk_id mid = pk_id p" "pk_len mid = pk_len p"
    "pk_data mid = (\<lambda>i. if i < nat (pk_len p) then converted le1 m (pk_data p) i else pk_data r i)"
    using len unfolding mid_def scatter_def Let_def body
    by (auto simp: convert_header_def setLength_def bs_def header take_4 htonl_eq cf payload_def intro!: ext)
  have receive: "recvfrom le2 (Some bs) r = (mid\<lparr>pk_data := converted le2 m (pk_data mid)\<rparr>, pk_len p)"
    using assms mid by (simp add: recvfrom_def len Let_def mid_def [symmetric] conv getLength_def min_def)
  define q where "q = mid\<lparr>pk_data := converted le2 m (pk_data mid)\<rparr>"
  have words: "word_at le2 (pk_data q) i = word_at le1 (pk_data p) i" if "i < m" for i
  proof -
    have inside: "4 * i + k < nat (pk_len p)" if "k < 4" for k
      using \<open>i < m\<close> that by (auto simp: m_def split: if_splits)
    have "word_at le2 (pk_data mid) i = htonl le2 (word_at le1 (pk_data p) i)"
      using inside \<open>i < m\<close> by (intro word_at_high_first) (simp add: mid(6) converted_at)
    then show ?thesis using that by (simp add: q_def word_at_converted)
  qed
  have rest: "pk_data q j = pk_data p j" if "4 * m \<le> j" "int j < pk_len p" for j
  proof -
    have "\<not> j div 4 < m" "j < nat (pk_len p)" using that by linarith+
    then show ?thesis by (simp add: q_def converted_at mid(6))
  qed
  have data: "payload q = payload p" if "m = 0"
    using rest that by (simp add: payload_def q_def mid(5))
  have "\<forall>i. 4 * int i + 3 < pk_len p \<longrightarrow> word_at le2 (pk_data q) i = word_at le1 (pk_data p) i" if "getFlag p \<noteq> 0"
    using words that by (auto simp: m_def)
  moreover have "\<forall>j. 4 * (pk_len p div 4) \<le> int j \<longrightarrow> int j < pk_len p \<longrightarrow> pk_data q j = pk_data p j" if "getFlag p \<noteq> 0"
    using rest that assms(1) by (auto simp: m_def)
  moreover have "payload q = payload p" if "getFlag p = 0" using data that by (simp add: m_def)
  moreover have "recvfrom le2 (Some bs) r = (q, pk_len p)" by (simp only: receive q_def)
  moreover have "pk_len q = pk_len p" "pk_seqno q = pk_seqno p" "pk_msgno q = pk_msgno p"
    "pk_timestamp q = pk_timestamp p" "pk_id q = pk_id p" by (simp_all add: q_def mid)
  ultimately show ?thesis by (simp add: send)
qed

text \<open>A control packet of six bytes from a host with the low byte first to one with the high byte first.\<close>

lemma channel_roundtrip_witness:
  "let p = Packet_new 0x80020000 7 8 9 (\<lambda>i. of_nat i) 6; r = Packet_new 0 0 0 0 (\<lambda>_. 0) 100;
      (p', datagram, res') = sendto True 22 p; (q, n) = recvfrom False (Some datagram) r in
    p' = p \<and> n = 6 \<and> pk_seqno q = 0x80020000 \<and> pk_msgno q = 7
    \<and> word_at False (pk_data q) 0 = word_at True (\<lambda>i. of_nat i) 0 \<and> pk_data q 5 = 5"
proof -
  let ?p = "Packet_new 0x80020000 7 8 9 (\<lambda>i. of_nat i) 6" let ?r = "Packet_new 0 0 0 0 (\<lambda>_. 0) 100"
  have "getFlag ?p \<noteq> 0" by (simp add: getFlag_eq Packet_new_def)
  moreover obtain q n datagram where "sendto True 22 ?p = (?p, datagram, 22)"
    "recvfrom False (Some datagram) ?r = (q, n)"
    "n = 6 \<and> pk_seqno q = 0x80020000 \<and> pk_msgno q = 7
    \<and> (getFlag ?p \<noteq> 0 \<longrightarrow>
        (\<forall>i. 4 * int i + 3 < 6 \<longrightarrow> word_at False (pk_data q) i = word_at True (pk_data ?p) i)
        \<and> (\<forall>j. 4 * ((6::int) div 4) \<le> int j \<longrightarrow> int j < 6 \<longrightarrow> pk_data q j = pk_data ?p j))"
  proof -
    obtain p' datagram res' q n where run: "sendto True 22 ?p = (p', datagram, res')"
      "recvfrom False (Some datagram) ?r = (q, n)" by (metis prod_cases3 surj_pair)
    moreover have "res' = 22" using run(1) by (simp add: sendto_def Let_def)
    ultimately show ?thesis
      using that channel_roundtrip [of ?p ?r True 22 False] by (simp add: Packet_new_def)
  qed
  ultimately show ?thesis by (auto simp: Packet_new_def dest: spec [of _ "0 :: nat"] spec [of _ "5 :: nat"])
qed

section \<open>What is packed\<close>

text \<open>
  Every kind of control packet that the transport makes is read as what it is: the flag, the type, and
  the additional information or the extended type that were given.
\<close>

lemma pack_header:
  assumes "pkttype \<in> {0, 1, 2, 3, 4, 5, 6, 7, 32767}" "unat n < 2 ^ 16"
  shows "\<exists>q. pack le pkttype (Some n) rparam sz mem p = Inr q \<and> getFlag q = 1 \<and> getType q = pkttype
    \<and> (pkttype \<in> {2, 6, 7} \<longrightarrow> getAckSeqNo q = sint n) \<and> (pkttype = 32767 \<longrightarrow> getExtendedType q = sint n)
    \<and> pk_len q = (if pkttype \<in> {1, 4, 5, 6} \<or> (pkttype = 32767 \<and> rparam = None) then 4 else sz)"
proof -
  have n: "drop_bit 16 n = 0" "n AND 0xFFFF = n" "\<not> bit n 31"
  proof -
    have "take_bit 16 n = n"
      using assms(2) by (simp add: word_unat_eq_iff unsigned_take_bit_eq take_bit_nat_eq_self)
    then have high: "\<not> bit n k" if "16 \<le> k" for k using that by (metis bit_take_bit_iff not_less)
    show "drop_bit 16 n = 0" "\<not> bit n 31" using high by (auto intro!: bit_word_eqI simp: bit_simps)
    have "n AND mask 16 = n" using \<open>take_bit 16 n = n\<close> by (simp add: take_bit_eq_mask)
    then show "n AND 0xFFFF = n" by (simp add: mask_eq_exp_minus_1)
  qed
  show ?thesis
  proof (cases "pkttype = 32767")
    case True
    have "drop_bit 16 (0xFFFF0000 OR n) AND 0x7FFF = 0x7FFF" by (simp add: n)
    moreover have "(0xFFFF0000 OR n) AND 0xFFFF = n" by (simp add: bit.conj_disj_distrib2 n)
    moreover have "bit (0xFFFF0000 OR n) 31" by (simp add: bit_or_iff)
    ultimately show ?thesis
      using True by (cases rparam) (simp_all add: pack_def Let_def padded_def getFlag_eq getType_def getExtendedType_def)
  next
    case False
    then have "pkttype = 0 \<or> pkttype = 1 \<or> pkttype = 2 \<or> pkttype = 3 \<or> pkttype = 4 \<or> pkttype = 5 \<or> pkttype = 6 \<or> pkttype = 7"
      using assms(1) by auto
    then show ?thesis
      by (elim disjE) (simp_all add: pack_def Let_def padded_def getFlag_eq getType_def getAckSeqNo_def)
  qed
qed

end
