(* ===== verification/UdtRcvBufferProperties.thy ===== *)
theory UdtRcvBufferProperties
  imports UdtRcvBuffer UdtPacketProperties
begin

text \<open>
  The buffer of the receiver as a stream: what is read is what was received and acknowledged, in the
  order of the packets, whatever the order in which they came and the portions in which they are
  read; and a request to drop a message that does not end.
\<close>

section \<open>The invariant\<close>

text \<open>
  Packets are counted from the first one on. The packet \<open>k\<close> lies at position \<open>k mod n\<close>; \<open>D\<close> tells what
  has been received, \<open>A\<close> packets are acknowledged and \<open>S\<close> of them are read.
\<close>

abbreviation slot :: "nat \<Rightarrow> rcv_buffer \<Rightarrow> nat \<Rightarrow> nat option" where
  "slot n b k \<equiv> rb_unit b (int (k mod n))"

definition holds :: "nat \<Rightarrow> rcv_buffer \<Rightarrow> nat \<Rightarrow> byte list option \<Rightarrow> bool" where
  "holds n b k d \<longleftrightarrow> (case d of
     None \<Rightarrow> slot n b k = None
   | Some bs \<Rightarrow> (case slot n b k of None \<Rightarrow> False
       | Some u \<Rightarrow> cu_flag (rb_units b u) \<noteq> 0 \<and> payload (cu_packet (rb_units b u)) = bs \<and> 0 \<le> pk_len (cu_packet (rb_units b u))))"

definition apart :: "nat \<Rightarrow> nat \<Rightarrow> rcv_buffer \<Rightarrow> bool" where
  "apart n S b \<longleftrightarrow> (\<forall>k k' u. S \<le> k \<longrightarrow> k < S + n \<longrightarrow> S \<le> k' \<longrightarrow> k' < S + n \<longrightarrow>
     slot n b k = Some u \<longrightarrow> slot n b k' = Some u \<longrightarrow> k = k')"

definition rb_ok :: "nat \<Rightarrow> (nat \<Rightarrow> byte list option) \<Rightarrow> nat \<Rightarrow> nat \<Rightarrow> rcv_buffer \<Rightarrow> bool" where
  "rb_ok n D S A b \<longleftrightarrow> rb_size b = int n \<and> rb_last_ack b = int (A mod n)
    \<and> S \<le> A \<and> A < S + n \<and> 0 \<le> rb_notch b \<and> (S = A \<longrightarrow> rb_notch b = 0)
    \<and> (S < A \<longrightarrow> rb_notch b \<le> int (length (the (D S))))
    \<and> (\<forall>k. S \<le> k \<longrightarrow> k < S + n \<longrightarrow> holds n b k (D k)) \<and> apart n S b
    \<and> (\<forall>k. S \<le> k \<longrightarrow> k < A \<longrightarrow> D k \<noteq> None) \<and> (\<forall>k. S + n \<le> k + 1 \<longrightarrow> D k = None)"

definition unread :: "(nat \<Rightarrow> byte list option) \<Rightarrow> nat \<Rightarrow> nat \<Rightarrow> rcv_buffer \<Rightarrow> byte list" where
  "unread D S A b = drop (nat (rb_notch b)) (concat (map (\<lambda>k. the (D k)) [S..<A]))"

lemma window_mod:
  assumes "S \<le> k" "k < S + n" "S \<le> k'" "k' < S + n" "k mod n = k' mod n"
  shows "k = (k' :: nat)"
proof -
  have *: "j = i" if "i \<le> j" "j < i + n" "j mod n = i mod n" for i j :: nat
  proof -
    have "n dvd j - i" using mod_eq_dvd_iff_nat [OF that(1)] that(3) by simp
    then have "\<not> (0 < j - i)" using nat_dvd_not_less [of "j - i" n] that(1,2) by linarith
    then show ?thesis using that(1) by simp
  qed
  then show ?thesis using assms * [of k k'] * [of k' k] by linarith
qed

lemma holds_Some: "holds n b k (Some bs) \<longleftrightarrow> (\<exists>u. slot n b k = Some u \<and> cu_flag (rb_units b u) \<noteq> 0
    \<and> payload (cu_packet (rb_units b u)) = bs \<and> 0 \<le> pk_len (cu_packet (rb_units b u)))"
  by (auto simp: holds_def split: option.splits)

lemma holds_None: "holds n b k None \<longleftrightarrow> slot n b k = None"
  by (simp add: holds_def)

lemma holds_update [simp]:
  "holds n (b\<lparr>rb_notch := i\<rparr>) k d = holds n b k d" "holds n (b\<lparr>rb_start := i\<rparr>) k d = holds n b k d"
  "holds n (b\<lparr>rb_last_ack := i\<rparr>) k d = holds n b k d" "holds n (b\<lparr>rb_max := i\<rparr>) k d = holds n b k d"
  by (cases d; simp add: holds_Some holds_None)+

lemma apart_update [simp]:
  "apart n S (b\<lparr>rb_notch := i\<rparr>) = apart n S b" "apart n S (b\<lparr>rb_start := i\<rparr>) = apart n S b"
  "apart n S (b\<lparr>rb_last_ack := i\<rparr>) = apart n S b" "apart n S (b\<lparr>rb_max := i\<rparr>) = apart n S b"
  by (simp_all add: apart_def)

lemma slot_at_mod: "rb_size b = int n \<Longrightarrow> 0 < n \<Longrightarrow> slot_at (int (k mod n)) b = Inr (slot n b k)"
  by (simp add: slot_at_def)

lemma next_pos_mod: "rb_size b = int n \<Longrightarrow> 0 < n \<Longrightarrow> next_pos (int (k mod n)) b = int (Suc k mod n)"
  by (auto simp: next_pos_def mod_Suc)

text \<open>Freeing the first place, which also leaves \<open>rb_start\<close> as it is.\<close>

lemma free_first:
  assumes "rb_ok n D S A b" "S < A"
  shows "\<exists>u b'. slot n b S = Some u \<and> payload (cu_packet (rb_units b u)) = the (D S)
    \<and> pk_len (cu_packet (rb_units b u)) = int (length (the (D S)))
    \<and> unit_at (int (S mod n)) b = Inr (rb_units b u)
    \<and> free_slot (int (S mod n)) b = Inr b' \<and> rb_last_ack b' = rb_last_ack b \<and> rb_size b' = rb_size b
    \<and> rb_ok n D (Suc S) A (b'\<lparr>rb_notch := 0\<rparr>)"
proof -
  note ok = assms(1) [unfolded rb_ok_def]
  have n: "0 < n" "rb_size b = int n" using ok by auto
  obtain bs where bs: "D S = Some bs" using ok assms(2) by blast
  have "holds n b S (D S)" using ok n by simp
  then obtain u where u: "slot n b S = Some u" "cu_flag (rb_units b u) \<noteq> 0"
    "payload (cu_packet (rb_units b u)) = bs" "0 \<le> pk_len (cu_packet (rb_units b u))"
    unfolding bs holds_Some by blast
  define b' where "b' = set_flag u 0 (b\<lparr>rb_unit := (rb_unit b)(int (S mod n) := None), rb_count := rb_count b - 1\<rparr>)"
  have free: "free_slot (int (S mod n)) b = Inr b'" "unit_at (int (S mod n)) b = Inr (rb_units b u)"
    using u(1) by (simp_all add: free_slot_def unit_at_def slot_at_mod [OF n(2,1)] b'_def)
  have len: "pk_len (cu_packet (rb_units b u)) = int (length bs)" using u(3,4) payload_at(2) by fastforce
  have other: "slot n b' k = slot n b k" if "Suc S \<le> k" "k < S + n" for k
  proof -
    have "k mod n \<noteq> S mod n" using window_mod [of S k n S] that by auto
    then show ?thesis by (simp add: b'_def set_flag_def)
  qed
  have last: "slot n b' (S + n) = None" by (simp add: b'_def set_flag_def)
  have units: "rb_units b' v = rb_units b v" if "v \<noteq> u" for v using that by (simp add: b'_def set_flag_def)
  have apart: "apart n S b" using ok by simp
  have away: "slot n b k \<noteq> Some u" if "Suc S \<le> k" "k < S + n" for k
    using apart [unfolded apart_def, rule_format, of S k u] that u(1) n(1) by auto
  have "holds n b' k (D k)" if "Suc S \<le> k" "k < Suc S + n" for k
  proof (cases "k = S + n")
    case True
    then show ?thesis using ok last by (simp add: holds_def)
  next
    case False
    then have k: "Suc S \<le> k" "k < S + n" using that by auto
    have "holds n b k (D k)" using ok k by simp
    then show ?thesis using other [OF k] away [OF k] units
      by (cases "D k") (auto simp: holds_Some holds_None)
  qed
  moreover have "apart n (Suc S) b'"
    unfolding apart_def
  proof (intro allI impI)
    fix k k' v assume k: "Suc S \<le> k" "k < Suc S + n" "Suc S \<le> k'" "k' < Suc S + n" "slot n b' k = Some v" "slot n b' k' = Some v"
    then have "k \<noteq> S + n" "k' \<noteq> S + n" using last by auto
    with k have "k < S + n" "k' < S + n" by auto
    then show "k = k'" using apart k other [of k] other [of k'] by (simp add: apart_def)
  qed
  moreover have fields: "rb_size b' = int n" "rb_last_ack b' = rb_last_ack b" using n by (simp_all add: b'_def set_flag_def)
  ultimately have "rb_ok n D (Suc S) A (b'\<lparr>rb_notch := 0\<rparr>)"
    using ok assms(2) unfolding rb_ok_def by simp
  then show ?thesis using u free len bs fields n by simp
qed

lemma rb_ok_empty: "rb_ok n D S A b \<Longrightarrow> S mod n = A mod n \<longleftrightarrow> S = A"
  using window_mod [of S S n A] by (auto simp: rb_ok_def)

lemma unread_first:
  assumes "rb_ok n D S A b" "S < A"
  shows "unread D S A b = drop (nat (rb_notch b)) (the (D S)) @ concat (map (\<lambda>k. the (D k)) [Suc S..<A])"
  using assms by (simp add: unread_def upt_rec [of S] rb_ok_def nat_le_iff)

lemma read_loop_stop: "p = rb_last_ack b \<or> rs \<le> 0 \<Longrightarrow> read_loop fuel p rs out b = Inr (b\<lparr>rb_start := p\<rparr>, rs, out)"
  by (subst read_loop.simps) auto

lemma rb_ok_start [simp]: "rb_ok n D S A (b\<lparr>rb_start := p\<rparr>) = rb_ok n D S A b"
  by (simp add: rb_ok_def)

lemma unread_start [simp]: "unread D S A (b\<lparr>rb_start := p\<rparr>) = unread D S A b"
  by (simp add: unread_def)

lemma read_loop_ok:
  assumes "rb_ok n D S A b" "0 \<le> rs" "A - S \<le> fuel"
  shows "\<exists>b' S'. read_loop fuel (int (S mod n)) rs out b
      = Inr (b', rs - int (length (take (nat rs) (unread D S A b))), out @ take (nat rs) (unread D S A b))
    \<and> rb_ok n D S' A b' \<and> rb_start b' = int (S' mod n) \<and> unread D S' A b' = drop (nat rs) (unread D S A b)"
  using assms
proof (induction fuel arbitrary: S rs out b)
  case (0 S rs out b)
  then have "S = A" by (simp add: rb_ok_def)
  then have "int (S mod n) = rb_last_ack b" "unread D S A b = []" using 0 by (simp_all add: rb_ok_def unread_def)
  then show ?case using 0 read_loop_stop [of "int (S mod n)" b rs 0 out]
    by (intro exI [of _ "b\<lparr>rb_start := int (S mod n)\<rparr>"] exI [of _ S]) simp
next
  case (Suc fuel S rs out b)
  note ok = Suc.prems(1) [unfolded rb_ok_def]
  have last: "rb_last_ack b = int (A mod n)" using ok by simp
  show ?case
  proof (cases "S = A \<or> rs = 0")
    case True
    then have "int (S mod n) = rb_last_ack b \<or> rs \<le> 0" "take (nat rs) (unread D S A b) = []"
      "drop (nat rs) (unread D S A b) = unread D S A b" "length (take (nat rs) (unread D S A b)) = 0"
      using last by (auto simp: unread_def)
    then show ?thesis using Suc.prems(1) read_loop_stop [of "int (S mod n)" b rs "Suc fuel" out]
      by (intro exI [of _ "b\<lparr>rb_start := int (S mod n)\<rparr>"] exI [of _ S]) (simp del: length_take take_eq_Nil)
  next
    case False
    then have go: "S < A" "rs > 0" "int (S mod n) \<noteq> rb_last_ack b"
      using ok Suc.prems(2) rb_ok_empty [OF Suc.prems(1)] by (auto simp: last)
    let ?bs = "the (D S)" and ?m = "rb_notch b"
    obtain u b' where u: "payload (cu_packet (rb_units b u)) = ?bs" "pk_len (cu_packet (rb_units b u)) = int (length ?bs)"
      "unit_at (int (S mod n)) b = Inr (rb_units b u)" "free_slot (int (S mod n)) b = Inr b'"
      "rb_size b' = rb_size b" "rb_ok n D (Suc S) A (b'\<lparr>rb_notch := 0\<rparr>)"
      using free_first [OF Suc.prems(1) go(1)] by blast
    have m: "0 \<le> ?m" "?m \<le> int (length ?bs)" using ok go(1) by auto
    define l where "l = int (length ?bs) - ?m"
    have bytes: "map (\<lambda>i. pk_data (cu_packet (rb_units b u)) (nat ?m + i)) [0..<nat k] = take (nat k) (drop (nat ?m) ?bs)"
      if "k \<le> l" for k
    proof (rule nth_equalityI)
      show "length (map (\<lambda>i. pk_data (cu_packet (rb_units b u)) (nat ?m + i)) [0..<nat k]) = length (take (nat k) (drop (nat ?m) ?bs))"
        using that m by (simp add: l_def)
      fix i assume "i < length (map (\<lambda>i. pk_data (cu_packet (rb_units b u)) (nat ?m + i)) [0..<nat k])"
      then have "nat ?m + i < nat (pk_len (cu_packet (rb_units b u)))" "i < nat k" using that m u(2) by (auto simp: l_def)
      then show "map (\<lambda>i. pk_data (cu_packet (rb_units b u)) (nat ?m + i)) [0..<nat k] ! i = take (nat k) (drop (nat ?m) ?bs) ! i"
        using payload_at(1) [of "nat ?m + i" "cu_packet (rb_units b u)"] u(1,2) m by simp
    qed
    have first: "unread D S A b = drop (nat ?m) ?bs @ unread D (Suc S) A (b'\<lparr>rb_notch := 0\<rparr>)"
      unfolding unread_first [OF Suc.prems(1) go(1)] by (simp add: unread_def)
    have len: "int (length (drop (nat ?m) ?bs)) = l" using m by (simp add: l_def)
    show ?thesis
    proof (cases "rs \<ge> l")
      case True
      have step: "read_loop (Suc fuel) (int (S mod n)) rs out b
          = read_loop fuel (int (Suc S mod n)) (rs - l) (out @ drop (nat ?m) ?bs) (b'\<lparr>rb_notch := 0\<rparr>)"
      proof -
        have "map (\<lambda>i. pk_data (cu_packet (rb_units b u)) (nat ?m + i)) [0..<nat l] = drop (nat ?m) ?bs"
          using bytes [of l] len by simp
        moreover have "0 \<le> l" using m by (simp add: l_def)
        moreover have "next_pos (int (S mod n)) b' = int (Suc S mod n)"
          using ok u(5) by (intro next_pos_mod) auto
        ultimately show ?thesis
          using go True u(2-4)
          by (cases "rs = l"; subst read_loop.simps) (simp_all add: Let_def getLength_def l_def [symmetric])
      qed
      have "A - Suc S \<le> fuel" "0 \<le> rs - l" using Suc.prems(3) True by auto
      then obtain b2 S2 where IH: "read_loop fuel (int (Suc S mod n)) (rs - l) (out @ drop (nat ?m) ?bs) (b'\<lparr>rb_notch := 0\<rparr>)
        = Inr (b2, rs - l - int (length (take (nat (rs - l)) (unread D (Suc S) A (b'\<lparr>rb_notch := 0\<rparr>)))),
            (out @ drop (nat ?m) ?bs) @ take (nat (rs - l)) (unread D (Suc S) A (b'\<lparr>rb_notch := 0\<rparr>)))"
        "rb_ok n D S2 A b2" "rb_start b2 = int (S2 mod n)"
        "unread D S2 A b2 = drop (nat (rs - l)) (unread D (Suc S) A (b'\<lparr>rb_notch := 0\<rparr>))"
        using Suc.IH [OF u(6), of "rs - l" "out @ drop (nat ?m) ?bs"] by blast
      have gen: "take (nat rs) (d @ r) = d @ take (nat (rs - l)) r \<and> drop (nat rs) (d @ r) = drop (nat (rs - l)) r"
        if "int (length d) = l" for d r :: "byte list"
      proof -
        have "nat rs = length d + nat (rs - l)" using that True by linarith
        then show ?thesis by simp
      qed
      note gen = gen [OF len, of "unread D (Suc S) A (b'\<lparr>rb_notch := 0\<rparr>)"]
      show ?thesis unfolding step IH(1) first using IH(2-4) gen len
        by (intro exI [of _ b2] exI [of _ S2]) (simp del: length_drop)
    next
      case False
      have step: "read_loop (Suc fuel) (int (S mod n)) rs out b
          = Inr (b\<lparr>rb_notch := ?m + rs, rb_start := int (S mod n)\<rparr>, 0, out @ take (nat rs) (drop (nat ?m) ?bs))"
      proof -
        have "read_loop (Suc fuel) (int (S mod n)) rs out b
          = read_loop fuel (int (S mod n)) 0 (out @ take (nat rs) (drop (nat ?m) ?bs)) (b\<lparr>rb_notch := ?m + rs\<rparr>)"
          using go False u(2-4) bytes [of rs]
          by (subst read_loop.simps) (simp add: Let_def getLength_def l_def [symmetric])
        then show ?thesis by (simp add: read_loop_stop)
      qed
      have take: "take (nat rs) (unread D S A b) = take (nat rs) (drop (nat ?m) ?bs)"
        "length (take (nat rs) (drop (nat ?m) ?bs)) = nat rs"
        unfolding first using False len by auto
      have ok': "rb_ok n D S A (b\<lparr>rb_notch := ?m + rs\<rparr>)"
        using ok go False unfolding rb_ok_def l_def by auto
      have "unread D S A (b\<lparr>rb_notch := ?m + rs\<rparr>) = drop (nat rs) (unread D S A b)"
        using m go(2) by (simp add: unread_def nat_add_distrib add.commute)
      then show ?thesis unfolding step take(1) using ok' take(2) Suc.prems(2)
        by (intro exI [of _ "b\<lparr>rb_notch := ?m + rs, rb_start := int (S mod n)\<rparr>"] exI [of _ S]) simp
    qed
  qed
qed

section \<open>The stream\<close>

text \<open>A free unit is filled with a packet from the channel.\<close>

definition fill_unit :: "nat \<Rightarrow> packet \<Rightarrow> rcv_buffer \<Rightarrow> rcv_buffer" where
  "fill_unit u pkt b = b\<lparr>rb_units := (rb_units b)(u := \<lparr>cu_packet = pkt, cu_flag = 0\<rparr>)\<rparr>"

text \<open>
  What happens to a buffer of \<open>n\<close> places: a packet comes into a free unit and is added in front of the
  available end, packets that have come are acknowledged, and bytes are read. \<open>D k\<close> is the payload of
  the packet \<open>k\<close> when it has come, \<open>A\<close> the number of acknowledged packets, \<open>out\<close> what has been read.
\<close>

inductive rb_reach :: "nat \<Rightarrow> rcv_buffer \<Rightarrow> (nat \<Rightarrow> byte list option) \<Rightarrow> nat \<Rightarrow> byte list \<Rightarrow> bool" for n where
  new: "0 < n \<Longrightarrow> rb_reach n (RcvBuffer_new (int n) units count) Map.empty 0 []"
| add: "rb_reach n b D A out \<Longrightarrow> cu_flag (rb_units b u) = 0 \<Longrightarrow> 0 \<le> pk_len pkt \<Longrightarrow> 0 \<le> offset
    \<Longrightarrow> offset < getAvailBufSize b \<Longrightarrow> addData u offset (fill_unit u pkt b) = Inr (b', r)
    \<Longrightarrow> rb_reach n b' (if r = 0 then D(A + nat offset \<mapsto> payload pkt) else D) A out"
| ack: "rb_reach n b D A out \<Longrightarrow> \<forall>k. A \<le> k \<longrightarrow> k < A + len \<longrightarrow> D k \<noteq> None
    \<Longrightarrow> rb_reach n (rb_ackData (int len) b) D (A + len) out"
| read: "rb_reach n b D A out \<Longrightarrow> 0 \<le> len \<Longrightarrow> readBuffer len b = Inr (b', bs, r)
    \<Longrightarrow> rb_reach n b' D A (out @ bs)"

definition rb_stream :: "nat \<Rightarrow> rcv_buffer \<Rightarrow> (nat \<Rightarrow> byte list option) \<Rightarrow> nat \<Rightarrow> byte list \<Rightarrow> nat \<Rightarrow> bool" where
  "rb_stream n b D A out S \<longleftrightarrow> 0 < n \<and> rb_ok n D S A b \<and> rb_start b = int (S mod n)
    \<and> out @ unread D S A b = concat (map (\<lambda>k. the (D k)) [0..<A])"

lemma smod_int: "0 < n \<Longrightarrow> 0 \<le> a \<Longrightarrow> a smod int n = int (nat a mod n)"
  by (cases "a = 0") (simp_all add: signed_modulo_int_def zmod_int)

lemma data_size:
  assumes "rb_stream n b D A out S"
  shows "getRcvDataSize b = int (A - S)"
proof -
  have n: "0 < n" "S \<le> A" "A < S + n" "rb_size b = int n" "rb_start b = int (S mod n)" "rb_last_ack b = int (A mod n)"
    using assms by (auto simp: rb_stream_def rb_ok_def)
  have "int (A - S) = (int (A mod n) - int (S mod n)) mod int n"
  proof -
    have "(int (A mod n) - int (S mod n)) mod int n = (int A - int S) mod int n"
      by (simp add: zmod_int mod_simps)
    also have "\<dots> = int (A - S)" using n by (simp add: of_nat_diff)
    finally show ?thesis by simp
  qed
  also have "\<dots> = (if A mod n \<ge> S mod n then int (A mod n) - int (S mod n) else int n + int (A mod n) - int (S mod n))"
  proof (cases "A mod n \<ge> S mod n")
    case True
    then show ?thesis using n(1) by (simp add: mod_pos_pos_trivial less_imp_diff_less flip: of_nat_diff)
  next
    case False
    have "(int (A mod n) - int (S mod n)) mod int n = (int (A mod n) - int (S mod n) + int n) mod int n" by simp
    also have "\<dots> = int (A mod n) - int (S mod n) + int n"
      using False n(1) mod_less_divisor [OF n(1), of S] by (intro mod_pos_pos_trivial) linarith+
    finally show ?thesis using False by simp
  qed
  finally show ?thesis using n by (auto simp: getRcvDataSize_def)
qed

lemma addData_ok:
  assumes "rb_stream n b D A out S" "cu_flag (rb_units b u) = 0" "0 \<le> pk_len pkt" "0 \<le> offset" "offset < getAvailBufSize b"
  shows "\<exists>b' r. addData u offset (fill_unit u pkt b) = Inr (b', r) \<and> r = (if D (A + nat offset) = None then 0 else - 1)
    \<and> rb_stream n b' (if r = 0 then D(A + nat offset \<mapsto> payload pkt) else D) A out S"
proof -
  have n: "0 < n" and ok: "rb_ok n D S A b" using assms(1) by (auto simp: rb_stream_def)
  note o = ok [unfolded rb_ok_def]
  let ?k = "A + nat offset"
  have size: "getAvailBufSize b = int n - int (A - S) - 1" using data_size [OF assms(1)] o by (simp add: getAvailBufSize_def)
  have k: "S \<le> ?k" "?k < S + n" "?k + 1 < S + n" using o size assms(4,5) by linarith+
  have pos: "(rb_last_ack b + offset) smod int n = int (?k mod n)"
  proof -
    have "(int (A mod n) + offset) smod int n = int (nat (int (A mod n) + offset) mod n)" using n assms(4) by (intro smod_int) auto
    also have "nat (int (A mod n) + offset) = A mod n + nat offset" using assms(4) by linarith
    finally show ?thesis using o by (simp add: mod_simps)
  qed
  have unfilled: "slot n b k \<noteq> Some u" if "S \<le> k" "k < S + n" for k
  proof
    assume "slot n b k = Some u"
    moreover have "holds n b k (D k)" using o that by simp
    ultimately show False using assms(2) by (cases "D k") (auto simp: holds_Some holds_None)
  qed
  define b1 where "b1 = (if offset > rb_max (fill_unit u pkt b) then (fill_unit u pkt b)\<lparr>rb_max := offset\<rparr> else fill_unit u pkt b)"
  have b1: "rb_size b1 = int n" "rb_unit b1 = rb_unit b" "rb_last_ack b1 = rb_last_ack b" "rb_notch b1 = rb_notch b"
    "rb_start b1 = rb_start b" "\<And>v. v \<noteq> u \<Longrightarrow> rb_units b1 v = rb_units b v" "rb_units b1 u = \<lparr>cu_packet = pkt, cu_flag = 0\<rparr>"
    using o by (simp_all add: b1_def fill_unit_def)
  have holds1: "holds n b1 k (D k)" if "S \<le> k" "k < S + n" for k
  proof -
    have "holds n b k (D k)" using o that by simp
    then show ?thesis using unfilled [OF that] b1(2,6)
      by (cases "D k") (auto simp: holds_Some holds_None)
  qed
  have run: "addData u offset (fill_unit u pkt b) = bind_res (slot_at (int (?k mod n)) b1) (\<lambda>s.
      if s \<noteq> None then Inr (b1, - 1)
      else Inr (set_flag u 1 (b1\<lparr>rb_unit := (rb_unit b1)(int (?k mod n) := Some u), rb_count := rb_count b1 + 1\<rparr>), 0))"
  proof -
    have place: "(rb_last_ack (fill_unit u pkt b) + offset) smod rb_size (fill_unit u pkt b) = int (?k mod n)"
      using pos o by (simp add: fill_unit_def)
    show ?thesis unfolding addData_def Let_def b1_def [symmetric] place by (rule refl)
  qed
  have at: "slot_at (int (?k mod n)) b1 = Inr (slot n b ?k)" using slot_at_mod [OF b1(1) n] b1(2) by simp
  have apart: "apart n S b" using o by simp
  show ?thesis
  proof (cases "D ?k")
    case (Some bs)
    moreover have "holds n b ?k (D ?k)" using o k by simp
    ultimately have "slot n b ?k \<noteq> None" by (auto simp: holds_Some)
    moreover have "rb_stream n b1 D A out S"
      using assms(1) holds1 b1 o unfolding rb_stream_def rb_ok_def apart_def unread_def by simp
    ultimately show ?thesis unfolding run at using Some by simp
  next
    case None
    moreover have "holds n b ?k (D ?k)" using o k by simp
    ultimately have free: "slot n b ?k = None" by (simp add: holds_None)
    define b2 where "b2 = set_flag u 1 (b1\<lparr>rb_unit := (rb_unit b1)(int (?k mod n) := Some u), rb_count := rb_count b1 + 1\<rparr>)"
    let ?D = "D(?k \<mapsto> payload pkt)"
    have b2: "rb_size b2 = int n" "rb_last_ack b2 = rb_last_ack b" "rb_notch b2 = rb_notch b" "rb_start b2 = rb_start b"
      "\<And>v. v \<noteq> u \<Longrightarrow> rb_units b2 v = rb_units b v" "rb_units b2 u = \<lparr>cu_packet = pkt, cu_flag = 1\<rparr>"
      "rb_unit b2 = (rb_unit b)(int (?k mod n) := Some u)"
      using b1 by (simp_all add: b2_def set_flag_def)
    have same: "slot n b2 j = (if j = ?k then Some u else slot n b j)" if "S \<le> j" "j < S + n" for j
      using window_mod [OF that k(1,2)] by (auto simp: b2(7))
    have holds2: "holds n b2 j (?D j)" if "S \<le> j" "j < S + n" for j
    proof (cases "j = ?k")
      case True
      then show ?thesis using same [OF that] b2(6) assms(3) by (simp add: holds_Some)
    next
      case False
      then show ?thesis using holds1 [OF that] same [OF that] unfilled [OF that] b1(2,6) b2(5)
        by (cases "D j") (auto simp: holds_Some holds_None)
    qed
    have apart2: "apart n S b2"
      unfolding apart_def
    proof (intro allI impI)
      fix i j v assume ij: "S \<le> i" "i < S + n" "S \<le> j" "j < S + n" "slot n b2 i = Some v" "slot n b2 j = Some v"
      then show "i = j" using same [of i] same [of j] unfilled [of i] unfilled [of j] apart [unfolded apart_def]
        by (auto split: if_splits)
    qed
    have "[0..<A] = filter (\<lambda>j. j \<noteq> ?k) [0..<A]" by (simp add: filter_id_conv)
    have maps: "map (\<lambda>j. the (?D j)) [i..<A] = map (\<lambda>j. the (D j)) [i..<A]" for i by (intro map_cong) auto
    have "rb_ok n ?D S A b2"
      using o b2(1-3) holds2 apart2 k unfolding rb_ok_def by auto
    then have "rb_stream n b2 ?D A out S"
      using assms(1) b2(3,4) unfolding rb_stream_def unread_def maps by simp
    then show ?thesis unfolding run at using None free b2_def by simp
  qed
qed

lemma ack_ok:
  assumes "rb_stream n b D A out S" "\<forall>k. A \<le> k \<longrightarrow> k < A + len \<longrightarrow> D k \<noteq> None"
  shows "rb_stream n (rb_ackData (int len) b) D (A + len) out S"
proof -
  have n: "0 < n" and o: "rb_ok n D S A b" using assms(1) by (auto simp: rb_stream_def)
  note ok = o [unfolded rb_ok_def]
  let ?b = "rb_ackData (int len) b"
  have less: "A + len < S + n"
  proof (rule ccontr)
    assume "\<not> A + len < S + n"
    then have "A \<le> S + n - 1" "S + n - 1 < A + len \<or> len = 0" using ok n by auto
    moreover have "len \<noteq> 0" using \<open>\<not> A + len < S + n\<close> ok by auto
    ultimately have "D (S + n - 1) \<noteq> None" using assms(2) by blast
    then show False using ok by simp
  qed
  have last: "rb_last_ack ?b = int ((A + len) mod n)"
  proof -
    have "(int (A mod n) + int len) smod int n = int ((A mod n + len) mod n)"
      using smod_int [OF n, of "int (A mod n) + int len"] by (simp add: nat_add_distrib)
    then show ?thesis using ok by (simp add: rb_ackData_def mod_simps)
  qed
  have split: "[i..<A + len] = [i..<A] @ [A..<A + len]" if "i \<le> A" for i by (rule upt_add_eq_append [OF that])
  have "rb_size ?b = int n" "rb_notch ?b = rb_notch b" "rb_start ?b = rb_start b" "\<And>k d. holds n ?b k d = holds n b k d"
    "apart n S ?b = apart n S b" using ok by (simp_all add: rb_ackData_def)
  moreover have "D k \<noteq> None" if "S \<le> k" "k < A + len" for k
    using ok assms(2) that by (cases "k < A") auto
  moreover have "nat (rb_notch b) \<le> length (concat (map (\<lambda>k. the (D k)) [S..<A]))"
  proof (cases "S = A")
    case False
    then have "S < A" using ok by simp
    then show ?thesis using ok by (simp add: upt_rec [of S]) linarith
  qed (use ok in simp)
  ultimately show ?thesis
    using assms(1) ok less last split [of S] split [of 0]
    unfolding rb_stream_def rb_ok_def unread_def by auto
qed

lemma read_ok:
  assumes "rb_stream n b D A out S" "0 \<le> len"
  shows "\<exists>b' S'. readBuffer len b = Inr (b', take (nat len) (unread D S A b), int (length (take (nat len) (unread D S A b))))
    \<and> rb_stream n b' D A (out @ take (nat len) (unread D S A b)) S'"
proof -
  have n: "0 < n" and o: "rb_ok n D S A b" and start: "rb_start b = int (S mod n)" using assms(1) by (auto simp: rb_stream_def)
  have "A - S \<le> Suc (nat (rb_size b))" using o by (auto simp: rb_ok_def)
  from read_loop_ok [OF o assms(2) this, of "[]"] obtain b' S' where r:
    "read_loop (Suc (nat (rb_size b))) (int (S mod n)) len [] b
      = Inr (b', len - int (length (take (nat len) (unread D S A b))), [] @ take (nat len) (unread D S A b))"
    "rb_ok n D S' A b'" "rb_start b' = int (S' mod n)" "unread D S' A b' = drop (nat len) (unread D S A b)" by blast
  have "rb_stream n b' D A (out @ take (nat len) (unread D S A b)) S'"
    using assms(1) r(2-4) n unfolding rb_stream_def by simp
  then show ?thesis using r(1) start
    by (intro exI [of _ b'] exI [of _ S']) (simp add: readBuffer_def del: length_take)
qed

lemma rb_reach_stream: "rb_reach n b D A out \<Longrightarrow> \<exists>S. rb_stream n b D A out S"
proof (induction rule: rb_reach.induct)
  case (new units count)
  then show ?case
    by (intro exI [of _ 0]) (simp add: rb_stream_def rb_ok_def RcvBuffer_new_def unread_def holds_None apart_def)
next
  case (add b D A out u pkt offset b' r)
  then obtain S where "rb_stream n b D A out S" by blast
  from addData_ok [OF this add.hyps(2-5)] show ?case using add.hyps(6) by auto
next
  case (ack b D A out len)
  then show ?case using ack_ok by blast
next
  case (read b D A out len b' bs r)
  then obtain S where "rb_stream n b D A out S" by blast
  from read_ok [OF this read.hyps(2)] show ?case using read.hyps(3) by auto
qed

text \<open>C24:
  the buffer of the receiver is a stream: whatever the order in which the packets come, repeated ones
  among them, and whatever the portions in which they are acknowledged and read, what has been read
  is a beginning of the acknowledged packets in their order; the next \<open>readBuffer\<close> ends and gives as
  many of the following bytes as it is asked for and there are; and the next packet within the
  available size is stored unless it is there already.
\<close>

theorem receive_buffer_is_a_stream:
  assumes "rb_reach n b D A out" "0 \<le> len"
    and "cu_flag (rb_units b u) = 0" "0 \<le> pk_len pkt" "0 \<le> offset" "offset < getAvailBufSize b"
  shows "(\<exists>b' rest. out @ rest = concat (map (\<lambda>k. the (D k)) [0..<A])
      \<and> readBuffer len b = Inr (b', take (nat len) rest, min len (int (length rest))))
    \<and> (\<exists>b'. addData u offset (fill_unit u pkt b) = Inr (b', if D (A + nat offset) = None then 0 else - 1))"
proof -
  obtain S where S: "rb_stream n b D A out S" using rb_reach_stream [OF assms(1)] ..
  have "out @ unread D S A b = concat (map (\<lambda>k. the (D k)) [0..<A])" using S by (simp add: rb_stream_def)
  moreover obtain b' where
    "readBuffer len b = Inr (b', take (nat len) (unread D S A b), int (length (take (nat len) (unread D S A b))))"
    using read_ok [OF S assms(2)] by blast
  moreover have "int (length (take (nat len) (unread D S A b))) = min len (int (length (unread D S A b)))"
    using assms(2) by simp
  ultimately have "\<exists>b' rest. out @ rest = concat (map (\<lambda>k. the (D k)) [0..<A])
      \<and> readBuffer len b = Inr (b', take (nat len) rest, min len (int (length rest)))"
    by (intro exI [of _ b'] exI [of _ "unread D S A b"]) simp
  moreover have "\<exists>b'. addData u offset (fill_unit u pkt b) = Inr (b', if D (A + nat offset) = None then 0 else - 1)"
    using addData_ok [OF S assms(3-6)] by blast
  ultimately show ?thesis by blast
qed

abbreviation data_packet :: "byte list \<Rightarrow> packet" where
  "data_packet bs \<equiv> Packet_new 0 0 0 0 (\<lambda>i. if i < length bs then bs ! i else 0) (int (length bs))"

text \<open>A packet of two bytes is acknowledged and read with room for five.\<close>

lemma receive_buffer_is_a_stream_witness:
  "\<exists>b b'. readBuffer 5 b = Inr (b', [1, 2], 2)"
proof -
  let ?b0 = "RcvBuffer_new (int 4) (\<lambda>_. \<lparr>cu_packet = data_packet [], cu_flag = 0\<rparr>) 0"
  have "\<exists>b1. addData 7 0 (fill_unit 7 (data_packet [1, 2]) ?b0) = Inr (b1, 0) \<and> cu_flag (rb_units b1 8) = 0
      \<and> getAvailBufSize (rb_ackData (int 1) b1) = 2"
    by (simp add: addData_def RcvBuffer_new_def fill_unit_def slot_at_def set_flag_def Let_def getAvailBufSize_def
        getRcvDataSize_def rb_ackData_def signed_modulo_int_def)
  then obtain b1 where b1: "addData 7 0 (fill_unit 7 (data_packet [1, 2]) ?b0) = Inr (b1, 0)" "cu_flag (rb_units b1 8) = 0"
      "getAvailBufSize (rb_ackData (int 1) b1) = 2" by blast
  have pay: "payload (data_packet [1, 2]) = [1, 2]" by (simp add: payload_def Packet_new_def upt_rec)
  have start: "rb_reach 4 ?b0 Map.empty 0 []" by (rule rb_reach.new) simp
  have "rb_reach 4 b1 (if 0 = (0::int) then Map.empty(0 + nat 0 \<mapsto> payload (data_packet [1, 2])) else Map.empty) 0 []"
    by (rule rb_reach.add [OF start _ _ _ _ b1(1)])
      (simp_all add: RcvBuffer_new_def getAvailBufSize_def getRcvDataSize_def Packet_new_def)
  then have "rb_reach 4 b1 [0 \<mapsto> [1, 2]] 0 []" unfolding pay by simp
  from rb_reach.ack [OF this, of 1] have r: "rb_reach 4 (rb_ackData (int 1) b1) [0 \<mapsto> [1, 2]] 1 []" by simp
  have "cu_flag (rb_units (rb_ackData (int 1) b1) 8) = 0" using b1(2) by (simp add: rb_ackData_def)
  then obtain b' rest where "[] @ rest = concat (map (\<lambda>k. the ([0 \<mapsto> [1, 2]] k)) [0..<1])"
    "readBuffer 5 (rb_ackData (int 1) b1) = Inr (b', take (nat 5) rest, min 5 (int (length rest)))"
    using receive_buffer_is_a_stream [OF r, of 5 8 "data_packet []" 0] b1(3) by (auto simp: Packet_new_def)
  then show ?thesis by (intro exI [of _ "rb_ackData (int 1) b1"] exI [of _ b']) simp
qed

section \<open>Drop requests\<close>

text \<open>A request to drop a message that comes before any data does not end: the last position the buffer
  knows of is then \<open>- 1\<close>, and the loop of \<open>dropMsg\<close> goes around the buffer without meeting it, however
  long it runs.
\<close>

theorem drop_request_diverges:
  assumes "1 < n"
  shows "let b = RcvBuffer_new n units count in dropMsg msgno b = Inl Diverges
    \<and> (\<forall>fuel. drop_loop fuel ((rb_last_ack b + rb_max b) smod rb_size b) msgno (rb_start b) b = Inl Diverges)"
proof -
  let ?b = "RcvBuffer_new n units count"
  have "drop_loop fuel (- 1) msgno i ?b = Inl Diverges" if "0 \<le> i" "i < n" for fuel i
    using that
  proof (induction fuel arbitrary: i)
    case 0
    then show ?case by (subst drop_loop.simps) simp
  next
    case (Suc fuel i)
    have "(i + 1) smod n = (i + 1) mod n" using Suc.prems by (simp add: signed_modulo_int_def)
    then have "drop_loop fuel (- 1) msgno ((i + 1) smod n) ?b = Inl Diverges"
      using assms by (intro Suc.IH) simp_all
    then show ?case using Suc.prems by (subst drop_loop.simps) (simp add: slot_at_def RcvBuffer_new_def)
  qed
  moreover have "(0 + - 1) smod n = - 1" using assms by (simp add: signed_modulo_int_def)
  ultimately show ?thesis using assms by (simp add: dropMsg_def RcvBuffer_new_def Let_def)
qed

lemma drop_request_diverges_witness:
  "dropMsg 5 (RcvBuffer_new 8192 (\<lambda>_. \<lparr>cu_packet = data_packet [], cu_flag = 0\<rparr>) 0) = Inl Diverges"
  using drop_request_diverges [of 8192 "\<lambda>_. \<lparr>cu_packet = data_packet [], cu_flag = 0\<rparr>" 0 5] by (simp add: Let_def)

text \<open>
  The number of a request has 29 bits and is compared with the whole word of a packet, which has its
  boundaries and its order in the upper three: only packets from the middle of an unordered message
  are ever dropped.
\<close>

lemma drop_loop_boundaries:
  assumes "drop_loop fuel n msgno i b = Inr b'" "drop_bit 29 msgno = 0" "drop_bit 29 (pk_msgno (cu_packet (rb_units b u))) \<noteq> 0"
  shows "rb_units b' u = rb_units b u"
  using assms
proof (induction fuel arbitrary: i b)
  case 0
  then show ?case by (subst (asm) drop_loop.simps) (auto split: if_splits)
next
  case (Suc fuel i b)
  show ?case
  proof (cases "i = n")
    case True
    then show ?thesis using Suc.prems(1) by (subst (asm) drop_loop.simps) simp
  next
    case False
    then obtain s where s: "slot_at i b = Inr s" "drop_loop fuel n msgno ((i + 1) smod rb_size b) (case s of
        None \<Rightarrow> b
      | Some u \<Rightarrow> if msgno = pk_msgno (cu_packet (rb_units b u)) then set_flag u 3 b else b) = Inr b'"
      using Suc.prems(1) by (subst (asm) drop_loop.simps) (auto simp: bind_res_Inr_iff)
    show ?thesis
    proof (cases s)
      case None
      then show ?thesis using Suc.IH [OF _ Suc.prems(2,3)] s(2) by simp
    next
      case (Some v)
      define b1 where "b1 = (if msgno = pk_msgno (cu_packet (rb_units b v)) then set_flag v 3 b else b)"
      have "rb_units b1 u = rb_units b u" using Suc.prems(2,3) by (auto simp: b1_def set_flag_def)
      moreover have "rb_units b' u = rb_units b1 u"
        using Suc.IH [of "(i + 1) smod rb_size b" b1] s(2) Suc.prems(2,3) calculation by (simp add: Some b1_def)
      ultimately show ?thesis by simp
    qed
  qed
qed

end
