(* ===== verification/UdtSndBufferProperties.thy ===== *)
theory UdtSndBufferProperties
  imports UdtSndBuffer UdtRcvBufferProperties
begin

text \<open>
  The buffer of the sender as a queue of packets, of messages and of files: the blocks from the first to the last
  one are the packets that are not acknowledged, whatever the ring around them; and both buffers together as a stream.
\<close>

section \<open>The ring\<close>

definition ring :: "nat list \<Rightarrow> snd_buffer \<Rightarrow> bool" where
  "ring xs b \<longleftrightarrow> distinct xs \<and> xs \<noteq> [] \<and> int (length xs) = sb_size b \<and> (\<forall>x \<in> set xs. x < sb_fresh b)
    \<and> (\<forall>i < length xs. sb_next b (xs ! i) = xs ! (Suc i mod length xs))"

text \<open>What a block sends: bytes, message number, time and time to live.\<close>

type_synonym sent = "byte list \<times> 32 word \<times> 64 word \<times> int"

definition view :: "block \<Rightarrow> sent" where
  "view bk = (map (bk_data bk) [0..<nat (bk_length bk)], bk_msgno bk, bk_origin bk, bk_ttl bk)"

text \<open>
  From the first block on lie the packets \<open>Q\<close>, \<open>c\<close> of them sent. The count of the buffer is \<open>e\<close> too great
  (\<open>addBufferFromFile\<close>).
\<close>

definition sb_ok :: "nat list \<Rightarrow> sent list \<Rightarrow> nat \<Rightarrow> nat \<Rightarrow> snd_buffer \<Rightarrow> bool" where
  "sb_ok xs Q c e b \<longleftrightarrow> ring xs b \<and> 0 < sb_unit b \<and> 0 < sb_mss b \<and> sb_count b = int (length Q + e) \<and> length Q < length xs
    \<and> c \<le> length Q \<and> sb_first b = xs ! 0 \<and> sb_curr b = xs ! c \<and> sb_last b = xs ! length Q
    \<and> (\<forall>i < length Q. view (sb_block b (xs ! i)) = Q ! i)"

lemma ring_steps: "ring xs b \<Longrightarrow> i < length xs \<Longrightarrow> (sb_next b ^^ k) (xs ! i) = xs ! ((i + k) mod length xs)"
proof (induction k)
  case (Suc k)
  then have "(i + k) mod length xs < length xs" by (simp add: ring_def)
  then show ?case using Suc by (simp add: ring_def mod_simps)
qed simp

lemma increase_ok:
  assumes "sb_ok xs Q c e b"
  shows "\<exists>xs'. sb_ok xs' Q c e (sb_increase b) \<and> sb_block (sb_increase b) = sb_block b"
proof -
  note ok = assms [unfolded sb_ok_def]
  let ?L = "length xs" and ?k = "length Q" and ?n = "sb_fresh b" and ?m = "nat (max 1 (sb_unit b))"
  let ?new = "[?n..<?n + ?m]"
  define ys where "ys = take (Suc ?k) xs @ ?new @ drop (Suc ?k) xs"
  have ring: "distinct xs" "int ?L = sb_size b" "\<And>x. x \<in> set xs \<Longrightarrow> x < ?n" "\<And>i. i < ?L \<Longrightarrow> sb_next b (xs ! i) = xs ! (Suc i mod ?L)"
    using ok by (auto simp: ring_def)
  have k: "?k < ?L" using ok by simp
  have m: "0 < ?m" "int ?m = sb_unit b" using ok by auto
  have len: "length ys = ?L + ?m" using k by (simp add: ys_def)
  have front: "ys ! i = xs ! i" if "i \<le> ?k" for i using that k by (simp add: ys_def nth_append)
  have mid: "ys ! (Suc ?k + j) = ?n + j" if "j < ?m" for j using that k by (simp add: ys_def nth_append)
  have rear: "ys ! (i + ?m) = xs ! i" if "?k < i" "i < ?L" for i
  proof -
    from that(1) obtain j where "i = Suc ?k + j" using less_iff_Suc_add [of ?k i] by auto
    then show ?thesis using that k by (simp add: ys_def nth_append)
  qed
  have old: "xs ! i < ?n" if "i < ?L" for i using ring(3) that by simp
  let ?b = "sb_increase b"
  have next_last: "sb_next ?b (xs ! ?k) = ?n" using ok by (simp add: sb_increase_def Let_def)
  have next_new: "sb_next ?b (?n + j) = (if Suc j < ?m then ?n + Suc j else xs ! (Suc ?k mod ?L))" if "j < ?m" for j
    using that old [OF k] ok ring(4) [OF k] by (auto simp: sb_increase_def Let_def)
  have next_old: "sb_next ?b (xs ! i) = xs ! (Suc i mod ?L)" if "i < ?L" "i \<noteq> ?k" for i
    using that old [OF that(1)] ok ring(1,4) k by (simp add: sb_increase_def Let_def nth_eq_iff_index_eq)
  have "sb_next ?b (ys ! i) = ys ! (Suc i mod length ys)" if i: "i < length ys" for i
  proof -
    consider "i < ?k" | "i = ?k" | j where "i = Suc ?k + j" "j < ?m" | j where "i = j + ?m" "?k < j" "j < ?L"
    proof -
      have "i < ?k \<or> i = ?k \<or> (i = Suc ?k + (i - Suc ?k) \<and> i - Suc ?k < ?m)
          \<or> (i = i - ?m + ?m \<and> ?k < i - ?m \<and> i - ?m < ?L)"
        using i len by linarith
      then show ?thesis using that by blast
    qed
    then show ?thesis
    proof cases
      case 1
      then show ?thesis using next_old [of i] front [of i] front [of "Suc i"] k len by simp
    next
      case 2
      then show ?thesis using next_last front [of i] mid [of 0] k len m(1) by simp
    next
      case (3 j)
      show ?thesis
      proof (cases "Suc j < ?m")
        case True
        then show ?thesis using 3 next_new [of j] mid [of j] mid [of "Suc j"] k len by simp
      next
        case False
        then have j: "Suc j = ?m" using 3 by simp
        have "sb_next ?b (ys ! i) = xs ! (Suc ?k mod ?L)" using 3 next_new [of j] mid [of j] False by simp
        also have "\<dots> = ys ! (Suc i mod length ys)"
        proof (cases "Suc ?k = ?L")
          case True
          then have "Suc i = length ys" using 3 j len by simp
          then show ?thesis using True front [of 0] by simp
        next
          case False
          then have "Suc ?k < ?L" using k by simp
          moreover have "Suc i = Suc ?k + ?m" using 3 j by simp
          ultimately show ?thesis using rear [of "Suc ?k"] len by simp
        qed
        finally show ?thesis .
      qed
    next
      case (4 j)
      then have "sb_next ?b (ys ! i) = xs ! (Suc j mod ?L)" using next_old [of j] rear [of j] by simp
      also have "\<dots> = ys ! (Suc i mod length ys)"
      proof (cases "Suc j = ?L")
        case True
        then have "Suc i = length ys" using 4 len by simp
        then show ?thesis using True front [of 0] by simp
      next
        case False
        then have "Suc j < ?L" "Suc i = Suc j + ?m" using 4 by auto
        then show ?thesis using rear [of "Suc j"] 4 len by simp
      qed
      finally show ?thesis .
    qed
  qed
  moreover have "distinct ys"
  proof -
    have "distinct (take (Suc ?k) xs @ drop (Suc ?k) xs)" using ring(1) by simp
    moreover have "set ?new \<inter> set xs = {}" using ring(3) by fastforce
    ultimately show ?thesis
      using set_take_subset [of "Suc ?k" xs] set_drop_subset [of "Suc ?k" xs] unfolding ys_def distinct_append set_append
      by (simp only: distinct_upt) blast
  qed
  moreover have "x < sb_fresh ?b" if "x \<in> set ys" for x
    using that ring(3) by (fastforce simp: ys_def sb_increase_def Let_def dest: in_set_takeD in_set_dropD)
  moreover have "sb_size ?b = int (length ys)" using len ring(2) m(2) ok by (simp add: sb_increase_def Let_def)
  ultimately have "ring ys ?b" using len m(1) by (auto simp: ring_def)
  then have "sb_ok ys Q c e ?b" using ok front len by (simp add: sb_ok_def) (simp add: sb_increase_def Let_def)
  then show ?thesis by (auto simp: sb_increase_def Let_def)
qed

lemma make_room_ok:
  assumes "sb_ok xs Q c e b"
  shows "\<exists>xs' b'. make_room n b = Inr b' \<and> sb_ok xs' Q c e b' \<and> n + int (length Q) < int (length xs')
    \<and> sb_next_msg b' = sb_next_msg b \<and> sb_mss b' = sb_mss b \<and> sb_last b' = sb_last b"
  using assms
proof (induction n b arbitrary: xs rule: make_room.induct)
  case (1 n b)
  note ok = "1.prems" [unfolded sb_ok_def ring_def]
  show ?case
  proof (cases "n + sb_count b \<ge> sb_size b")
    case True
    obtain ys where "sb_ok ys Q c e (sb_increase b)" using increase_ok [OF "1.prems"] by blast
    moreover have "make_room n b = make_room n (sb_increase b)" using True ok by (subst make_room.simps) simp
    moreover have "sb_next_msg (sb_increase b) = sb_next_msg b" "sb_mss (sb_increase b) = sb_mss b"
      by (simp_all add: sb_increase_def Let_def)
    moreover have "sb_last (sb_increase b) = sb_last b" by (simp add: sb_increase_def Let_def)
    moreover have "n + sb_count b \<ge> sb_size b \<and> sb_unit b > 0" using True ok by simp
    ultimately show ?thesis using "1.IH" [of ys] by simp
  next
    case False
    then show ?thesis using "1.prems" ok by (subst make_room.simps) auto
  qed
qed

section \<open>Messages\<close>

text \<open>The packets of a message: its bytes in portions, and the number with the boundaries and the order.\<close>

definition message_packet :: "nat \<Rightarrow> (nat \<Rightarrow> byte) \<Rightarrow> nat \<Rightarrow> int \<Rightarrow> bool \<Rightarrow> 32 word \<Rightarrow> 64 word \<Rightarrow> nat \<Rightarrow> nat \<Rightarrow> sent" where
  "message_packet mss data len ttl order num now n i =
     (map data [i * mss..<min len (i * mss + mss)],
      num OR push_bit 29 (if order then 1 else 0) OR (if i = 0 then 0x80000000 else 0) OR (if Suc i = n then 0x40000000 else 0),
      now, ttl)"

definition message_packets :: "nat \<Rightarrow> (nat \<Rightarrow> byte) \<Rightarrow> nat \<Rightarrow> int \<Rightarrow> bool \<Rightarrow> 32 word \<Rightarrow> 64 word \<Rightarrow> sent list" where
  "message_packets mss data len ttl order num now =
     (let n = (len + mss - 1) div mss in map (message_packet mss data len ttl order num now n) [0..<n])"

lemma portions: "concat (map (\<lambda>i. map data [i * m..<min l (i * m + m)]) [0..<n]) = map data [0..<min l (n * m)]" for m :: nat
proof (induction n)
  case (Suc n)
  have "[0..<min l (Suc n * m)] = [0..<min l (n * m)] @ [n * m..<min l (n * m + m)]"
  proof (cases "n * m \<le> l")
    case True
    then have "min l (Suc n * m) = n * m + (min l (n * m + m) - n * m)" by simp
    then show ?thesis using True upt_add_eq_append [of 0 "n * m" "min l (n * m + m) - n * m"] by simp
  next
    case False
    then show ?thesis by simp
  qed
  then show ?case using Suc by simp
qed simp

text \<open>The packets of a message carry its bytes.\<close>

lemma message_bytes:
  assumes "0 < mss"
  shows "concat (map fst (message_packets mss data len ttl order num now)) = map data [0..<len]"
proof -
  have "len \<le> (len + mss - 1) div mss * mss"
    using div_mult_mod_eq [of "len + mss - 1" mss] mod_less_divisor [OF assms, of "len + mss - 1"] by linarith
  then have "min len ((len + mss - 1) div mss * mss) = len" by simp
  then show ?thesis
    using portions [of data mss len "(len + mss - 1) div mss"]
    by (simp add: message_packets_def message_packet_def Let_def comp_def)
qed

lemma packets_of_nat:
  assumes "sb_mss b = int m" "0 < m"
  shows "packets_of (int l) b = int ((l + m - 1) div m)"
proof (cases "l = 0")
  case True
  then show ?thesis using assms by (simp add: packets_of_def signed_modulo_int_def signed_divide_int_def)
next
  case False
  have smod: "int l smod int m = int (l mod m)" "int l sdiv int m = int (l div m)"
    using False assms(2) by (simp_all add: signed_modulo_int_def signed_divide_int_def zmod_int zdiv_int)
  have "(l + m - 1) div m = (if l mod m \<noteq> 0 then l div m + 1 else l div m)"
  proof -
    have l: "l + m - 1 = l div m * m + (l mod m + m - 1)" using assms(2) by simp
    have "(l + m - 1) div m = l div m + (l mod m + m - 1) div m"
      unfolding l by (rule div_mult_self3) (use assms(2) in simp)
    moreover have "(l mod m + m - 1) div m = (if l mod m \<noteq> 0 then 1 else 0)"
    proof (cases "l mod m = 0")
      case False
      have "m \<le> l mod m + m - 1" "l mod m + m - 1 < 2 * m"
        using False mod_less_divisor [OF assms(2), of l] by linarith+
      then show ?thesis using False by (simp add: div_nat_eqI)
    qed (use assms(2) in simp)
    ultimately show ?thesis by simp
  qed
  then show ?thesis by (simp add: packets_of_def assms(1) smod)
qed

text \<open>The loop that fills the blocks.\<close>

lemma fill_ok:
  assumes "sb_ok xs Q c e b" "sb_mss b = int m" "length Q + j < length xs" "j \<le> n" "n = (l + m - 1) div m"
  shows "\<exists>blocks. fold (\<lambda>i. fill_block data (int l) ttl (push_bit 29 (if order then 1 else 0)) now (int n) i) [0..int j - 1] (sb_last b, b)
      = (xs ! (length Q + j), b\<lparr>sb_block := blocks\<rparr>)
    \<and> (\<forall>i < length Q. view (blocks (xs ! i)) = Q ! i)
    \<and> (\<forall>i < j. view (blocks (xs ! (length Q + i))) = message_packet m data l ttl order (sb_next_msg b) now n i)"
  using assms(3,4)
proof (induction j)
  case 0
  then show ?case using assms(1) by (intro exI [of _ "sb_block b"]) (simp add: sb_ok_def)
next
  case (Suc j)
  note ok = assms(1) [unfolded sb_ok_def ring_def]
  let ?fill = "\<lambda>i. fill_block data (int l) ttl (push_bit 29 (if order then 1 else 0)) now (int n) i"
  let ?s = "xs ! (length Q + j)"
  from Suc obtain blocks where IH: "fold ?fill [0..int j - 1] (sb_last b, b) = (?s, b\<lparr>sb_block := blocks\<rparr>)"
    "\<And>i. i < length Q \<Longrightarrow> view (blocks (xs ! i)) = Q ! i"
    "\<And>i. i < j \<Longrightarrow> view (blocks (xs ! (length Q + i))) = message_packet m data l ttl order (sb_next_msg b) now n i"
    by auto
  have upto: "[0..int (Suc j) - 1] = [0..int j - 1] @ [int j]" by (simp add: upto_rec2)
  have next_s: "sb_next b ?s = xs ! (length Q + Suc j)" using ok Suc.prems(1) by simp
  define pktlen where "pktlen = (if int l - int j * int m > int m then int m else int l - int j * int m)"
  define num where "num = snd (message_packet m data l ttl order (sb_next_msg b) now n j)"
  define bk where "bk = \<lparr>bk_data = (\<lambda>k. if int k < pktlen then data (j * m + k) else bk_data (blocks ?s) k), bk_length = pktlen,
    bk_msgno = fst num, bk_origin = now, bk_ttl = ttl\<rparr>"
  have m: "0 < m" using ok assms(2) by simp
  have short: "j * m < l"
  proof -
    have "Suc j \<le> (l + m - 1) div m" using Suc.prems(2) assms(5) by simp
    then have "j * m + m \<le> l + m - 1" using m by (simp add: less_eq_div_iff_mult_less_eq)
    then show ?thesis using m by linarith
  qed
  have len: "nat pktlen = min l (j * m + m) - j * m" "0 \<le> pktlen"
    using short by (auto simp: pktlen_def min_def of_nat_mult [symmetric] nat_diff_distrib simp del: of_nat_mult)
  have "view bk = message_packet m data l ttl order (sb_next_msg b) now n j"
  proof -
    have "map (bk_data bk) [0..<nat pktlen] = map data [j * m..<min l (j * m + m)]"
    proof (rule nth_equalityI)
      fix i assume "i < length (map (bk_data bk) [0..<nat pktlen])"
      then have "i < nat pktlen" "j * m + i < min l (j * m + m)" using len(1) by auto
      moreover have "int i < pktlen" using calculation(1) by linarith
      ultimately show "map (bk_data bk) [0..<nat pktlen] ! i = map data [j * m..<min l (j * m + m)] ! i"
        by (simp add: bk_def del: min_less_iff_conj)
    qed (use len(1) in simp)
    then show ?thesis by (simp add: view_def bk_def num_def message_packet_def)
  qed
  moreover have "?fill (int j) (?s, b\<lparr>sb_block := blocks\<rparr>) = (xs ! (length Q + Suc j), b\<lparr>sb_block := blocks(?s := bk)\<rparr>)"
    using next_s assms(2)
    by (simp add: fill_block_def Let_def bk_def pktlen_def num_def message_packet_def nat_mult_distrib or.assoc
        cong del: if_weak_cong)
  ultimately have bk: "?fill (int j) (?s, b\<lparr>sb_block := blocks\<rparr>) = (xs ! (length Q + Suc j), b\<lparr>sb_block := blocks(?s := bk)\<rparr>)"
    "view bk = message_packet m data l ttl order (sb_next_msg b) now n j" by simp_all
  have other: "xs ! i \<noteq> ?s" if "i < length Q + j" for i
    using that ok Suc.prems(1) by (simp add: nth_eq_iff_index_eq)
  show ?case
  proof (intro exI [of _ "blocks(?s := bk)"] conjI allI impI)
    show "fold ?fill [0..int (Suc j) - 1] (sb_last b, b) = (xs ! (length Q + Suc j), b\<lparr>sb_block := blocks(?s := bk)\<rparr>)"
      unfolding upto fold_append comp_apply IH(1) using bk(1) by simp
    fix i assume "i < length Q"
    then show "view ((blocks(?s := bk)) (xs ! i)) = Q ! i" using IH(2) other by simp
  next
    fix i assume "i < Suc j"
    then show "view ((blocks(?s := bk)) (xs ! (length Q + i))) = message_packet m data l ttl order (sb_next_msg b) now n i"
      using IH(3) [of i] other [of "length Q + i"] bk(2) by (cases "i = j") auto
  qed
qed

section \<open>The operations\<close>

lemma addBuffer_ok:
  assumes "sb_ok xs Q c e b" "sb_next_msg b \<noteq> 0x7FFFFFFF"
  shows "\<exists>xs' b'. addBuffer now data (int l) ttl order b = Inr b'
    \<and> sb_ok xs' (Q @ message_packets (nat (sb_mss b)) data l ttl order (sb_next_msg b) now) c e b'
    \<and> sb_next_msg b' = sb_next_msg b + 1 \<and> sb_mss b' = sb_mss b"
proof -
  let ?m = "nat (sb_mss b)" let ?n = "(l + ?m - 1) div ?m"
  have m: "0 < sb_mss b" "sb_mss b = int ?m" "0 < ?m" using assms(1) by (auto simp: sb_ok_def)
  have n: "packets_of (int l) b = int ?n" by (rule packets_of_nat [OF m(2,3)])
  obtain xs' b1 where b1: "make_room (int ?n) b = Inr b1" "sb_ok xs' Q c e b1" "int ?n + int (length Q) < int (length xs')"
    "sb_next_msg b1 = sb_next_msg b" "sb_mss b1 = sb_mss b" using make_room_ok [OF assms(1)] by blast
  have "sb_mss b1 = int ?m" "length Q + ?n < length xs'" using b1(3,5) m(2) by auto
  from fill_ok [OF b1(2) this le_refl refl, where data = data and ttl = ttl and order = order and now = now]
  obtain blocks where fill: "fold (\<lambda>i. fill_block data (int l) ttl (push_bit 29 (if order then 1 else 0)) now (int ?n) i)
      [0..int ?n - 1] (sb_last b1, b1) = (xs' ! (length Q + ?n), b1\<lparr>sb_block := blocks\<rparr>)"
    "\<And>i. i < length Q \<Longrightarrow> view (blocks (xs' ! i)) = Q ! i"
    "\<And>i. i < ?n \<Longrightarrow> view (blocks (xs' ! (length Q + i))) = message_packet ?m data l ttl order (sb_next_msg b1) now ?n i"
    by blast
  let ?ps = "message_packets ?m data l ttl order (sb_next_msg b) now"
  define b' where "b' = b1\<lparr>sb_block := blocks, sb_last := xs' ! (length Q + ?n), sb_count := sb_count b1 + int ?n,
    sb_next_msg := sb_next_msg b1 + 1\<rparr>"
  have run: "addBuffer now data (int l) ttl order b = Inr b'"
    using m(1) assms(2) b1(1,4) fill(1) by (simp add: addBuffer_def Let_def n b'_def del: of_nat_add)
  have ps: "length ?ps = ?n" "\<And>i. i < ?n \<Longrightarrow> ?ps ! i = message_packet ?m data l ttl order (sb_next_msg b) now ?n i"
    by (simp_all add: message_packets_def Let_def)
  have "view (sb_block b' (xs' ! i)) = (Q @ ?ps) ! i" if "i < length (Q @ ?ps)" for i
  proof (cases "i < length Q")
    case True
    then show ?thesis using fill(2) by (simp add: b'_def nth_append)
  next
    case False
    have "i < length Q + ?n" using that unfolding length_append ps(1) .
    then have "i = length Q + (i - length Q)" "i - length Q < ?n" using False by linarith+
    then show ?thesis using fill(3) [of "i - length Q"] ps(2) [of "i - length Q"] b1(4) False
      by (simp add: b'_def nth_append)
  qed
  moreover have "ring xs' b' = ring xs' b1" by (simp add: b'_def ring_def)
  ultimately have "sb_ok xs' (Q @ ?ps) c e b'"
    using b1(2,3) ps(1) unfolding sb_ok_def by (simp add: b'_def)
  then show ?thesis using run b1(4,5) by (intro exI [of _ xs'] exI [of _ b']) (simp add: b'_def)
qed

lemma readData_ok:
  assumes "sb_ok xs Q c e b"
  shows "if c < length Q then \<exists>b' bk. readData b = (b', Some bk) \<and> view bk = Q ! c \<and> sb_ok xs Q (Suc c) e b'
      \<and> sb_next_msg b' = sb_next_msg b \<and> sb_mss b' = sb_mss b
    else readData b = (b, None)"
proof -
  note ok = assms [unfolded sb_ok_def]
  have "xs ! c = xs ! length Q \<longleftrightarrow> c = length Q" using ok by (simp add: ring_def nth_eq_iff_index_eq)
  moreover have "sb_next b (xs ! c) = xs ! Suc c" if "c < length Q" using ok that by (simp add: ring_def)
  ultimately show ?thesis using ok by (auto simp: readData_def sb_ok_def ring_def)
qed

lemma ackData_ok:
  assumes "sb_ok xs Q c e b" "k \<le> c"
  shows "sb_ok (rotate k xs) (drop k Q) (c - k) e (sb_ackData k b)"
proof -
  note ok = assms(1) [unfolded sb_ok_def]
  let ?L = "length xs" let ?b = "sb_ackData k b"
  have ring: "ring xs b" using ok by simp
  have L: "k < ?L" "0 < ?L" using ok assms(2) by auto
  have at: "rotate k xs ! i = xs ! ((k + i) mod ?L)" if "i < ?L" for i using that by (simp add: nth_rotate)
  have "ring (rotate k xs) ?b"
    unfolding ring_def
  proof (intro conjI allI impI ballI)
    fix i assume "i < length (rotate k xs)"
    then have i: "i < ?L" by simp
    have "sb_next b (xs ! ((k + i) mod ?L)) = xs ! (Suc ((k + i) mod ?L) mod ?L)" using ring L by (simp add: ring_def)
    also have "Suc ((k + i) mod ?L) mod ?L = (k + Suc i mod ?L) mod ?L" by (simp add: mod_simps)
    finally show "sb_next ?b (rotate k xs ! i) = rotate k xs ! (Suc i mod length (rotate k xs))"
      using at [OF i] at [of "Suc i mod ?L"] L by (simp add: sb_ackData_def)
  qed (use ring in \<open>auto simp: ring_def sb_ackData_def\<close>)
  moreover have "sb_first ?b = rotate k xs ! 0"
    using ring_steps [OF ring, of 0 k] ok at [of 0] L by (simp add: sb_ackData_def)
  moreover have "rotate k xs ! (i - k) = xs ! i" if "k \<le> i" "i < ?L" for i
    using at [of "i - k"] that by simp
  ultimately show ?thesis
    using ok assms(2) unfolding sb_ok_def by (auto simp: sb_ackData_def nth_rotate)
qed

lemma readData_at_ok:
  assumes "sb_ok xs Q c e b" "k < length Q" "\<not> (snd (snd (snd (Q ! k))) > 0
    \<and> (now - fst (snd (snd (Q ! k)))) div 1000 > word_of_int (snd (snd (snd (Q ! k)))))"
  shows "\<exists>bk. readData_at now k b = Inr (b, Inr bk) \<and> view bk = Q ! k"
proof -
  note ok = assms(1) [unfolded sb_ok_def]
  have "xs \<noteq> []" using ok by (simp add: ring_def)
  then have "(sb_next b ^^ k) (sb_first b) = xs ! k" using ok ring_steps [of xs b 0 k] assms(2) by auto
  moreover have q: "Q ! k = view (sb_block b (xs ! k))" using ok assms(2) by simp
  moreover have "\<not> (bk_ttl (sb_block b (xs ! k)) > 0
      \<and> (now - bk_origin (sb_block b (xs ! k))) div 1000 > word_of_int (bk_ttl (sb_block b (xs ! k))))"
    using assms(3) unfolding q by (simp add: view_def)
  ultimately show ?thesis by (simp only: readData_at_def Let_def if_False simp_thms) simp
qed

text \<open>What a file gives: the bytes of each read, up to the first that gives none.\<close>

fun file_chunks :: "(int \<Rightarrow> byte list) option list \<Rightarrow> int \<Rightarrow> int \<Rightarrow> int \<Rightarrow> byte list list" where
  "file_chunks (Some rd # reads) len mss i =
     (let chunk = rd (if len - i * mss > mss then mss else len - i * mss)
      in if chunk = [] then [] else chunk # file_chunks reads len mss (i + 1))"
| "file_chunks _ len mss i = []"

lemma file_chunks_length: "length (file_chunks reads len mss i) \<le> length reads"
  by (induction reads len mss i rule: file_chunks.induct) (auto simp: Let_def)

lemma file_loop_ok:
  assumes "ring xs b" "p + length reads < length xs"
  shows "\<exists>blocks. file_loop reads len i (xs ! p, b, tot)
      = (xs ! (p + length (file_chunks reads len (sb_mss b) i)), b\<lparr>sb_block := blocks\<rparr>,
         tot + int (length (concat (file_chunks reads len (sb_mss b) i))))
    \<and> (\<forall>j < length (file_chunks reads len (sb_mss b) i).
        fst (view (blocks (xs ! (p + j)))) = file_chunks reads len (sb_mss b) i ! j)
    \<and> (\<forall>x. x \<notin> set (drop p xs) \<longrightarrow> blocks x = sb_block b x)"
  using assms
proof (induction reads arbitrary: p i b tot)
  case Nil
  then show ?case by (intro exI [of _ "sb_block b"]) simp
next
  case (Cons r reads)
  show ?case
  proof (cases r)
    case None
    then show ?thesis by (intro exI [of _ "sb_block b"]) simp
  next
    case (Some rd)
    define bytes where "bytes = rd (if len - i * sb_mss b > sb_mss b then sb_mss b else len - i * sb_mss b)"
    let ?s = "xs ! p"
    show ?thesis
    proof (cases "bytes = []")
      case True
      then show ?thesis using Some by (intro exI [of _ "sb_block b"]) (simp add: Let_def flip: bytes_def)
    next
      case False
      define bk where "bk = (sb_block b ?s)\<lparr>bk_data := (\<lambda>j. if j < length bytes then bytes ! j else bk_data (sb_block b ?s) j),
        bk_length := int (length bytes), bk_ttl := - 1\<rparr>"
      define b1 where "b1 = b\<lparr>sb_block := (sb_block b)(?s := bk)\<rparr>"
      have p: "p < length xs" using Cons.prems(2) by simp
      have nxt: "sb_next b ?s = xs ! Suc p" using Cons.prems by (simp add: ring_def)
      have ring1: "ring xs b1" using Cons.prems(1) by (simp add: b1_def ring_def)
      have mss1: "sb_mss b1 = sb_mss b" by (simp add: b1_def)
      have step: "file_loop (Some rd # reads) len i (?s, b, tot) = file_loop reads len (i + 1) (xs ! Suc p, b1, tot + int (length bytes))"
        by (simp only: file_loop.simps Let_def flip: bytes_def) (simp add: False nxt b1_def bk_def)
      have "Suc p + length reads < length xs" using Cons.prems(2) by simp
      from Cons.IH [OF ring1 this, of "i + 1" "tot + int (length bytes)"] obtain blocks where
        IH: "file_loop reads len (i + 1) (xs ! Suc p, b1, tot + int (length bytes))
          = (xs ! (Suc p + length (file_chunks reads len (sb_mss b) (i + 1))), b1\<lparr>sb_block := blocks\<rparr>,
             tot + int (length bytes) + int (length (concat (file_chunks reads len (sb_mss b) (i + 1)))))"
        "\<And>j. j < length (file_chunks reads len (sb_mss b) (i + 1)) \<Longrightarrow>
          fst (view (blocks (xs ! (Suc p + j)))) = file_chunks reads len (sb_mss b) (i + 1) ! j"
        "\<And>x. x \<notin> set (drop (Suc p) xs) \<Longrightarrow> blocks x = sb_block b1 x" unfolding mss1 by blast
      have cs: "file_chunks (Some rd # reads) len (sb_mss b) i = bytes # file_chunks reads len (sb_mss b) (i + 1)"
        using False by (simp add: Let_def flip: bytes_def)
      have dp: "drop p xs = ?s # drop (Suc p) xs" using p by (simp add: Cons_nth_drop_Suc)
      have "?s \<notin> set (drop (Suc p) xs)"
        using Cons.prems(1) dp distinct_drop [of xs p] by (auto simp: ring_def)
      then have "blocks ?s = bk" using IH(3) by (simp add: b1_def)
      moreover have "map (bk_data bk) [0..<nat (bk_length bk)] = bytes" by (rule nth_equalityI) (simp_all add: bk_def)
      ultimately have first: "fst (view (blocks ?s)) = bytes" by (simp add: view_def)
      have "fst (view (blocks (xs ! (p + j)))) = file_chunks (Some rd # reads) len (sb_mss b) i ! j"
        if "j < length (file_chunks (Some rd # reads) len (sb_mss b) i)" for j
        using that first IH(2) unfolding cs by (cases j) simp_all
      moreover have "blocks x = sb_block b x" if "x \<notin> set (drop p xs)" for x
        using that IH(3) [of x] unfolding dp by (simp add: b1_def)
      moreover have "file_loop (Some rd # reads) len i (?s, b, tot) =
          (xs ! (p + length (file_chunks (Some rd # reads) len (sb_mss b) i)), b\<lparr>sb_block := blocks\<rparr>,
           tot + int (length (concat (file_chunks (Some rd # reads) len (sb_mss b) i))))"
        unfolding step IH(1) cs by (simp add: b1_def)
      ultimately show ?thesis unfolding Some by blast
    qed
  qed
qed

text \<open>The packets that a file has made, read off the blocks behind the last one.\<close>

definition file_packets :: "nat \<Rightarrow> nat \<Rightarrow> snd_buffer \<Rightarrow> sent list" where
  "file_packets start n b = map (\<lambda>i. view (sb_block b ((sb_next b ^^ i) start))) [0..<n]"

lemma addBufferFromFile_ok:
  assumes "sb_ok xs Q c e b" "n = nat (packets_of (int l) b)" "cs = file_chunks (take n reads) (int l) (sb_mss b) 0"
  shows "\<exists>xs' b'. addBufferFromFile reads (int l) b = Inr (b', int (length (concat cs)))
    \<and> sb_ok xs' (Q @ file_packets (sb_last b) (length cs) b') c (e + (n - length cs)) b'
    \<and> map fst (file_packets (sb_last b) (length cs) b') = cs \<and> length cs \<le> n"
proof -
  have m: "0 < sb_mss b" "sb_mss b = int (nat (sb_mss b))" "0 < nat (sb_mss b)" using assms(1) by (auto simp: sb_ok_def)
  have n: "packets_of (int l) b = int n" using packets_of_nat [OF m(2,3)] assms(2) by simp
  obtain xs' b1 where b1: "make_room (int n) b = Inr b1" "sb_ok xs' Q c e b1" "int n + int (length Q) < int (length xs')"
    "sb_next_msg b1 = sb_next_msg b" "sb_mss b1 = sb_mss b" "sb_last b1 = sb_last b" using make_room_ok [OF assms(1)] by blast
  note ok = b1(2) [unfolded sb_ok_def]
  have ring: "ring xs' b1" and last: "sb_last b1 = xs' ! length Q" using ok by auto
  have le: "length cs \<le> n" using file_chunks_length [of "take n reads" "int l" "sb_mss b" 0] unfolding assms(3) by simp
  have "length Q + length (take n reads) < length xs'" using b1(3) by simp
  from file_loop_ok [OF ring this, of "int l" 0 0] obtain blocks where
    loop: "file_loop (take n reads) (int l) 0 (xs' ! length Q, b1, 0) = (xs' ! (length Q + length cs), b1\<lparr>sb_block := blocks\<rparr>, int (length (concat cs)))"
    "\<And>j. j < length cs \<Longrightarrow> fst (view (blocks (xs' ! (length Q + j)))) = cs ! j"
    "\<And>x. x \<notin> set (drop (length Q) xs') \<Longrightarrow> blocks x = sb_block b1 x" unfolding b1(5) assms(3) by auto
  define b' where "b' = b1\<lparr>sb_block := blocks, sb_last := xs' ! (length Q + length cs), sb_count := sb_count b1 + int n\<rparr>"
  have run: "addBufferFromFile reads (int l) b = Inr (b', int (length (concat cs)))"
    using m(1) b1(1) loop(1) last by (simp add: addBufferFromFile_def n b'_def Let_def)
  have ring': "ring xs' b'" using ring by (simp add: b'_def ring_def)
  have at: "(sb_next b' ^^ i) (sb_last b) = xs' ! (length Q + i)" if "i < length cs" for i
    using ring_steps [OF ring', of "length Q" i] that le b1(3,6) last by simp
  then have ps: "file_packets (sb_last b) (length cs) b' = map (\<lambda>i. view (blocks (xs' ! (length Q + i)))) [0..<length cs]"
    by (simp add: file_packets_def b'_def)
  have old: "blocks (xs' ! i) = sb_block b1 (xs' ! i)" if "i < length Q" for i
  proof (rule loop(3))
    have d: "distinct xs'" using ring by (simp add: ring_def)
    have "xs' ! i \<in> set (take (length Q) xs')" using that b1(3) by (auto simp: in_set_conv_nth)
    moreover have "set (take (length Q) xs') \<inter> set (drop (length Q) xs') = {}"
      by (rule set_take_disj_set_drop_if_distinct [OF d]) simp
    ultimately show "xs' ! i \<notin> set (drop (length Q) xs')" by blast
  qed
  have "view (sb_block b' (xs' ! i)) = (Q @ file_packets (sb_last b) (length cs) b') ! i"
    if "i < length (Q @ file_packets (sb_last b) (length cs) b')" for i
  proof (cases "i < length Q")
    case True
    then show ?thesis using old ok by (simp add: b'_def nth_append)
  next
    case False
    then have "i - length Q < length cs" "length Q + (i - length Q) = i" using that by (simp_all add: ps)
    then have "(Q @ file_packets (sb_last b) (length cs) b') ! i = view (blocks (xs' ! i))"
      unfolding ps using False by (simp add: nth_append)
    moreover have "sb_block b' = blocks" by (simp add: b'_def)
    ultimately show ?thesis by simp
  qed
  moreover have "sb_count b' = int (length Q + e + n)" using ok by (simp add: b'_def)
  ultimately have "sb_ok xs' (Q @ file_packets (sb_last b) (length cs) b') c (e + (n - length cs)) b'"
    using ok ring' le b1(3) unfolding sb_ok_def by (simp add: ps) (simp add: b'_def)
  moreover have "map fst (file_packets (sb_last b) (length cs) b') = cs"
    unfolding ps by (rule nth_equalityI) (simp_all add: loop(2))
  ultimately show ?thesis using run le by blast
qed

section \<open>Expired messages\<close>

text \<open>
  A packet with a positive time to live expires. What follows with its message number is the rest
  of its message: \<open>rest_of\<close> packets. The loop of \<open>readData\<close> ends behind it, when the block behind the last
  packet does not happen to hold the same number; the packet to be sent next moves behind the message
  when it is in its rest.
\<close>

definition has_expired :: "64 word \<Rightarrow> sent \<Rightarrow> bool" where
  "has_expired now p \<longleftrightarrow> snd (snd (snd p)) > 0 \<and> (now - fst (snd (snd p))) div 1000 > word_of_int (snd (snd (snd p)))"

definition number_of :: "sent \<Rightarrow> 32 word" where
  "number_of p = fst (snd p) AND 0x1FFFFFFF"

definition rest_of :: "nat \<Rightarrow> sent list \<Rightarrow> nat" where
  "rest_of i P = length (takeWhile (\<lambda>p. number_of p = number_of (P ! i)) (drop (Suc i) P))"

definition rest_ends :: "nat \<Rightarrow> nat \<Rightarrow> sent list \<Rightarrow> snd_buffer \<Rightarrow> bool" where
  "rest_ends a k P b \<longleftrightarrow> Suc (a + k) + rest_of (a + k) P < length P
     \<or> bk_msgno (sb_block b (sb_last b)) AND 0x1FFFFFFF \<noteq> number_of (P ! (a + k))"

definition passed_over :: "nat \<Rightarrow> nat \<Rightarrow> sent list \<Rightarrow> nat \<Rightarrow> nat" where
  "passed_over a k P c = (if a + k < c \<and> c \<le> a + k + rest_of (a + k) P then Suc (a + k) + rest_of (a + k) P else c)"

lemma number_of_view: "number_of (view bk) = bk_msgno bk AND 0x1FFFFFFF"
  by (simp add: number_of_def view_def)

lemma rest_of_props:
  assumes "i < length P"
  shows "Suc i + rest_of i P \<le> length P" "\<And>j. j < rest_of i P \<Longrightarrow> number_of (P ! (Suc i + j)) = number_of (P ! i)"
    "Suc i + rest_of i P < length P \<Longrightarrow> number_of (P ! (Suc i + rest_of i P)) \<noteq> number_of (P ! i)"
proof -
  let ?same = "\<lambda>p. number_of p = number_of (P ! i)" and ?rest = "drop (Suc i) P"
  have "length (takeWhile ?same ?rest) \<le> length ?rest" by (rule length_takeWhile_le)
  then show "Suc i + rest_of i P \<le> length P" using assms by (simp add: rest_of_def)
  show "number_of (P ! (Suc i + j)) = number_of (P ! i)" if "j < rest_of i P" for j
  proof -
    have "takeWhile ?same ?rest ! j \<in> set (takeWhile ?same ?rest)" using that by (simp add: rest_of_def)
    then have "?same (takeWhile ?same ?rest ! j)" by (auto dest: set_takeWhileD)
    moreover have "takeWhile ?same ?rest ! j = ?rest ! j" using that by (simp add: rest_of_def takeWhile_nth)
    ultimately show ?thesis using assms by simp
  qed
  show "number_of (P ! (Suc i + rest_of i P)) \<noteq> number_of (P ! i)" if "Suc i + rest_of i P < length P"
  proof -
    have "length (takeWhile ?same ?rest) < length ?rest" using that by (simp add: rest_of_def)
    then have "\<not> ?same (?rest ! length (takeWhile ?same ?rest))" by (rule nth_length_takeWhile)
    then show ?thesis using assms by (simp add: rest_of_def)
  qed
qed

lemma expired_loop_ok:
  assumes "sb_ok xs Q c e b" "Suc (k + j) \<le> length Q"
    "\<And>i. i < j \<Longrightarrow> bk_msgno (sb_block b (xs ! Suc (k + i))) AND 0x1FFFFFFF = num"
    "bk_msgno (sb_block b (xs ! Suc (k + j))) AND 0x1FFFFFFF \<noteq> num" "i \<le> j" "j - i \<le> fuel"
  shows "expired_loop fuel num (xs ! Suc (k + i)) (k < c \<and> c \<le> k + i) len
      (b\<lparr>sb_curr := xs ! (if k < c \<and> c \<le> k + i then Suc (k + i) else c)\<rparr>)
    = Inr (b\<lparr>sb_curr := xs ! (if k < c \<and> c \<le> k + j then Suc (k + j) else c)\<rparr>, len + int (j - i))"
  using assms(5,6)
proof (induction "j - i" arbitrary: i len fuel)
  case 0
  then have "i = j" by simp
  then show ?case using assms(4) by (subst expired_loop.simps) simp
next
  case (Suc d)
  note ok = assms(1) [unfolded sb_ok_def ring_def]
  have i: "i < j" "Suc (Suc (k + i)) \<le> length Q" using Suc.hyps(2) assms(2) by linarith+
  obtain f where f: "fuel = Suc f" using Suc.prems(2) i by (cases fuel) auto
  have nxt: "sb_next b (xs ! Suc (k + i)) = xs ! Suc (Suc (k + i))" using ok i(2) by simp
  have c: "c \<le> length Q" "length Q < length xs" "distinct xs" using ok by auto
  then have here: "xs ! Suc (k + i) = xs ! (if k < c \<and> c \<le> k + i then Suc (k + i) else c) \<longleftrightarrow> (k < c \<and> c \<le> k + i) \<or> c = Suc (k + i)"
    using i(2) by (auto simp: nth_eq_iff_index_eq)
  have move: "(k < c \<and> c \<le> k + i) \<or> (k < c \<and> c \<le> k + i) \<or> c = Suc (k + i) \<longleftrightarrow> k < c \<and> c \<le> k + Suc i" by auto
  have "expired_loop fuel num (xs ! Suc (k + i)) (k < c \<and> c \<le> k + i) len
      (b\<lparr>sb_curr := xs ! (if k < c \<and> c \<le> k + i then Suc (k + i) else c)\<rparr>)
    = expired_loop f num (xs ! Suc (k + Suc i)) (k < c \<and> c \<le> k + Suc i) (len + 1)
      (b\<lparr>sb_curr := xs ! (if k < c \<and> c \<le> k + Suc i then Suc (k + Suc i) else c)\<rparr>)"
    using assms(3) [OF i(1)] nxt unfolding f by (subst expired_loop.simps) (simp add: here move Let_def, auto)
  also have "\<dots> = Inr (b\<lparr>sb_curr := xs ! (if k < c \<and> c \<le> k + j then Suc (k + j) else c)\<rparr>, len + 1 + int (j - Suc i))"
    using Suc.hyps(2) Suc.prems(2) i(1) f by (intro Suc.hyps(1)) simp_all
  finally show ?case using i(1) by (simp add: of_nat_diff)
qed

lemma readData_at_expired:
  assumes "sb_ok xs Q c e b" "k < length Q" "has_expired now (Q ! k)" "rest_ends 0 k Q b"
  shows "readData_at now k b = Inr (b\<lparr>sb_curr := xs ! passed_over 0 k Q c\<rparr>, Inl (number_of (Q ! k), 1 + int (rest_of k Q)))"
    "sb_ok xs Q (passed_over 0 k Q c) e (b\<lparr>sb_curr := xs ! passed_over 0 k Q c\<rparr>)"
proof -
  note ok = assms(1) [unfolded sb_ok_def]
  note rest = rest_of_props [OF assms(2)]
  let ?j = "rest_of k Q"
  have "xs \<noteq> []" using ok by (simp add: ring_def)
  then have p: "(sb_next b ^^ k) (sb_first b) = xs ! k" using ok ring_steps [of xs b 0 k] assms(2) by auto
  have q: "Q ! i = view (sb_block b (xs ! i))" if "i < length Q" for i using ok that by simp
  have exp: "bk_ttl (sb_block b (xs ! k)) > 0
      \<and> (now - bk_origin (sb_block b (xs ! k))) div 1000 > word_of_int (bk_ttl (sb_block b (xs ! k)))"
    using assms(3) unfolding q [OF assms(2)] by (simp add: has_expired_def view_def)
  have num: "number_of (Q ! k) = bk_msgno (sb_block b (xs ! k)) AND 0x1FFFFFFF"
    unfolding q [OF assms(2)] by (rule number_of_view)
  have nxt: "sb_next b (xs ! k) = xs ! Suc k" using ok assms(2) by (simp add: ring_def)
  have inner: "bk_msgno (sb_block b (xs ! Suc (k + i))) AND 0x1FFFFFFF = number_of (Q ! k)" if "i < ?j" for i
    using rest(2) [OF that] q [of "Suc k + i"] rest(1) that by (simp add: number_of_view)
  have stop: "bk_msgno (sb_block b (xs ! Suc (k + ?j))) AND 0x1FFFFFFF \<noteq> number_of (Q ! k)"
  proof (cases "Suc k + ?j < length Q")
    case True
    then show ?thesis using rest(3) q [of "Suc k + ?j"] by (simp add: number_of_view)
  next
    case False
    then have "Suc (k + ?j) = length Q" using rest(1) by simp
    then show ?thesis using assms(4) ok by (simp add: rest_ends_def)
  qed
  have "nat (sb_size b) = length xs" "length Q < length xs" using ok by (auto simp: ring_def)
  then have fuel: "?j - 0 \<le> nat (sb_size b)" using rest(1) by linarith
  have "Suc (k + ?j) \<le> length Q" using rest(1) by simp
  have "sb_curr b = xs ! c" using ok by simp
  then have same: "b\<lparr>sb_curr := xs ! c\<rparr> = b" by (cases b) simp
  from expired_loop_ok [OF assms(1) \<open>Suc (k + ?j) \<le> length Q\<close> inner stop le0 fuel, of 1]
  have loop: "expired_loop (nat (sb_size b)) (number_of (Q ! k)) (xs ! Suc k) False 1 b =
      Inr (b\<lparr>sb_curr := xs ! passed_over 0 k Q c\<rparr>, 1 + int ?j)"
    using same by (auto simp: passed_over_def not_le split: if_splits)
  show "readData_at now k b = Inr (b\<lparr>sb_curr := xs ! passed_over 0 k Q c\<rparr>, Inl (number_of (Q ! k), 1 + int ?j))"
    using exp loop nxt num by (simp add: readData_at_def p Let_def)
  have "passed_over 0 k Q c \<le> length Q" using ok rest(1) by (simp add: passed_over_def)
  then show "sb_ok xs Q (passed_over 0 k Q c) e (b\<lparr>sb_curr := xs ! passed_over 0 k Q c\<rparr>)"
    using ok unfolding sb_ok_def by (simp add: ring_def)
qed

lemma passed_over_drop: "a \<le> c \<Longrightarrow> a + k < length P \<Longrightarrow> passed_over 0 k (drop a P) (c - a) = passed_over a k P c - a"
  and rest_of_drop: "a + k < length P \<Longrightarrow> rest_of k (drop a P) = rest_of (a + k) P"
  by (auto simp: passed_over_def rest_of_def add.commute)

section \<open>The queue\<close>

text \<open>
  What is done to the buffer: messages of at most the greatest number and files are added, the next packet is
  read, an expired message is passed over, and packets that were read are acknowledged. \<open>P\<close> are all
  packets that were added, \<open>a\<close> of them acknowledged and \<open>c\<close> read or passed over, \<open>bytes\<close> are the bytes of the
  messages and files, and \<open>e\<close> is by how much the count is too great: the packets that a length asked
  for and the file did not have.
\<close>

inductive sb_reach :: "snd_buffer \<Rightarrow> sent list \<Rightarrow> nat \<Rightarrow> nat \<Rightarrow> byte list \<Rightarrow> nat \<Rightarrow> bool" where
  new: "0 < sz \<Longrightarrow> 0 < mss \<Longrightarrow> sb_reach (SndBuffer_new storage sz mss) [] 0 0 [] 0"
| add: "sb_reach b P a c bytes e \<Longrightarrow> sb_next_msg b \<noteq> 0x7FFFFFFF \<Longrightarrow> addBuffer now data (int l) ttl order b = Inr b'
    \<Longrightarrow> sb_reach b' (P @ message_packets (nat (sb_mss b)) data l ttl order (sb_next_msg b) now) a c (bytes @ map data [0..<l]) e"
| from_file: "sb_reach b P a c bytes e \<Longrightarrow> addBufferFromFile reads (int l) b = Inr (b', tot)
    \<Longrightarrow> n = nat (packets_of (int l) b) \<Longrightarrow> cs = file_chunks (take n reads) (int l) (sb_mss b) 0
    \<Longrightarrow> sb_reach b' (P @ file_packets (sb_last b) (length cs) b') a c (bytes @ concat cs) (e + (n - length cs))"
| read: "sb_reach b P a c bytes e \<Longrightarrow> readData b = (b', Some bk) \<Longrightarrow> sb_reach b' P a (Suc c) bytes e"
| skip: "sb_reach b P a c bytes e \<Longrightarrow> a + k < length P \<Longrightarrow> has_expired now (P ! (a + k)) \<Longrightarrow> rest_ends a k P b
    \<Longrightarrow> readData_at now k b = Inr (b', r) \<Longrightarrow> sb_reach b' P a (passed_over a k P c) bytes e"
| ack: "sb_reach b P a c bytes e \<Longrightarrow> a + k \<le> c \<Longrightarrow> sb_reach (sb_ackData k b) P (a + k) c bytes e"

lemma sb_new_ok:
  assumes "0 < sz" "0 < mss"
  shows "sb_ok [0..<nat sz] [] 0 0 (SndBuffer_new storage sz mss)"
proof -
  have "ring [0..<nat sz] (SndBuffer_new storage sz mss)"
    unfolding ring_def
  proof (intro conjI allI impI ballI)
    fix i assume "i < length [0..<nat sz]"
    then have "i < nat sz" by simp
    moreover have "Suc i mod nat sz < nat sz" using assms(1) by simp
    moreover have "Suc i mod nat sz = (if int i < sz - 1 then Suc i else 0)"
    proof (cases "int i < sz - 1")
      case False
      then have "Suc i = nat sz" using \<open>i < nat sz\<close> by linarith
      then show ?thesis using False by simp
    next
      case True
      then have "Suc i < nat sz" by linarith
      then show ?thesis using True by simp
    qed
    ultimately show "sb_next (SndBuffer_new storage sz mss) ([0..<nat sz] ! i)
        = [0..<nat sz] ! (Suc i mod length [0..<nat sz])" by (simp add: SndBuffer_new_def)
  qed (use assms in \<open>auto simp: SndBuffer_new_def\<close>)
  then show ?thesis using assms by (simp add: sb_ok_def SndBuffer_new_def)
qed

lemma sb_reach_ok:
  "sb_reach b P a c bytes e \<Longrightarrow> a \<le> c \<and> c \<le> length P \<and> (\<exists>xs. sb_ok xs (drop a P) (c - a) e b) \<and> concat (map fst P) = bytes"
proof (induction rule: sb_reach.induct)
  case (new sz mss storage)
  then show ?case using sb_new_ok by auto
next
  case (add b P a c bytes e now data l ttl order b')
  then obtain xs where xs: "sb_ok xs (drop a P) (c - a) e b" by blast
  let ?ps = "message_packets (nat (sb_mss b)) data l ttl order (sb_next_msg b) now"
  obtain xs' where "sb_ok xs' (drop a P @ ?ps) (c - a) e b'"
    using addBuffer_ok [OF xs add.hyps(2), of now data l ttl order] add.hyps(3) by auto
  moreover have "0 < nat (sb_mss b)" using xs by (simp add: sb_ok_def)
  ultimately show ?case using add.IH message_bytes by auto
next
  case (from_file b P a c bytes e reads l b' tot n cs)
  then obtain xs where "sb_ok xs (drop a P) (c - a) e b" by blast
  from addBufferFromFile_ok [OF this from_file.hyps(3,4)] from_file.hyps(2) obtain xs' where
    "sb_ok xs' (drop a P @ file_packets (sb_last b) (length cs) b') (c - a) (e + (n - length cs)) b'"
    "map fst (file_packets (sb_last b) (length cs) b') = cs" by auto
  then show ?case using from_file.IH by auto
next
  case (read b P a c bytes e b' bk)
  then obtain xs where "sb_ok xs (drop a P) (c - a) e b" by blast
  from readData_ok [OF this] read.hyps(2) have "c - a < length (drop a P)" "sb_ok xs (drop a P) (Suc (c - a)) e b'"
    by (auto split: if_splits)
  then show ?case using read.IH by (auto simp: Suc_diff_le intro!: exI [of _ xs])
next
  case (skip b P a c bytes e k now b' r)
  then obtain xs where xs: "sb_ok xs (drop a P) (c - a) e b" and ac: "a \<le> c" "c \<le> length P" by blast
  have k: "k < length (drop a P)" "has_expired now (drop a P ! k)" using skip.hyps(2,3) by simp_all
  have "rest_ends 0 k (drop a P) b" using skip.hyps(2,4) by (auto simp: rest_ends_def rest_of_drop)
  from readData_at_expired [OF xs k this] skip.hyps(5)
  have ok: "sb_ok xs (drop a P) (passed_over 0 k (drop a P) (c - a)) e b'" by simp
  have "a \<le> passed_over a k P c" "passed_over a k P c \<le> length P"
    using ac skip.hyps(2) rest_of_props(1) [OF skip.hyps(2)] by (auto simp: passed_over_def)
  with ok show ?case using skip.IH by (auto simp: passed_over_drop [OF ac(1) skip.hyps(2)])
next
  case (ack b P a c bytes e k)
  then obtain xs where "sb_ok xs (drop a P) (c - a) e b" by blast
  moreover have "k \<le> c - a" using ack.hyps(2) by linarith
  ultimately have "sb_ok (rotate k xs) (drop (a + k) P) (c - (a + k)) e (sb_ackData k b)"
    using ackData_ok [of xs "drop a P" "c - a" e b k] by (simp add: add.commute)
  then show ?case using ack.IH ack.hyps(2) by auto
qed

text \<open>C23:
  the buffer of the sender is a queue, however often its ring grows and turns, of the packets of the messages
  and files that were added. This holds in every run in which message numbers stay up to 2147483646, only packets
  that were read are acknowledged, and an expired message is asked for only while the block behind the last
  packet does not carry its number. \<open>readData\<close> gives the packets in their order, each once but for
  those of expired messages it was moved behind, and nothing when all are read. \<open>readData\<close> with an
  offset gives the packet that follows the acknowledged ones by it; when that has expired, the number of its
  message and the length of its rest, and the packet to be read next moves behind the message when it was in
  its rest. The packets carry the bytes of the messages and what the files gave. The size is the number
  of packets that are not acknowledged, and the packets that \<open>addBufferFromFile\<close> was asked for and the
  files did not have.
\<close>

theorem send_buffer_is_a_queue:
  assumes "sb_reach b P a c bytes e"
  shows "(if c < length P then \<exists>b' bk. readData b = (b', Some bk) \<and> view bk = P ! c else readData b = (b, None))
    \<and> (a + k < length P \<longrightarrow> \<not> has_expired now (P ! (a + k)) \<longrightarrow>
        (\<exists>bk. readData_at now k b = Inr (b, Inr bk) \<and> view bk = P ! (a + k)))
    \<and> (a + k < length P \<longrightarrow> has_expired now (P ! (a + k)) \<longrightarrow> rest_ends a k P b \<longrightarrow>
        (\<exists>b'. readData_at now k b = Inr (b', Inl (number_of (P ! (a + k)), 1 + int (rest_of (a + k) P)))
          \<and> sb_reach b' P a (passed_over a k P c) bytes e))
    \<and> getCurrBufSize b = int (length P - a + e) \<and> concat (map fst P) = bytes"
proof -
  from sb_reach_ok [OF assms] obtain xs where xs: "a \<le> c" "c \<le> length P" "sb_ok xs (drop a P) (c - a) e b"
    "concat (map fst P) = bytes" by blast
  have "if c < length P then \<exists>b' bk. readData b = (b', Some bk) \<and> view bk = P ! c else readData b = (b, None)"
    using readData_ok [OF xs(3)] xs(1,2) by (auto split: if_splits)
  moreover have "\<exists>bk. readData_at now k b = Inr (b, Inr bk) \<and> view bk = P ! (a + k)"
    if "a + k < length P" "\<not> has_expired now (P ! (a + k))"
    using readData_at_ok [OF xs(3), of k now] that by (auto simp: has_expired_def)
  moreover have "\<exists>b'. readData_at now k b = Inr (b', Inl (number_of (P ! (a + k)), 1 + int (rest_of (a + k) P)))
      \<and> sb_reach b' P a (passed_over a k P c) bytes e"
    if k: "a + k < length P" "has_expired now (P ! (a + k))" "rest_ends a k P b"
  proof -
    have "k < length (drop a P)" "has_expired now (drop a P ! k)" using k by simp_all
    moreover have "rest_ends 0 k (drop a P) b" using k(1,3) by (auto simp: rest_ends_def rest_of_drop)
    ultimately have "\<exists>b'. readData_at now k b = Inr (b', Inl (number_of (P ! (a + k)), 1 + int (rest_of (a + k) P)))"
      using readData_at_expired(1) [OF xs(3)] k(1) by (simp add: rest_of_drop)
    then show ?thesis using sb_reach.skip [OF assms k] by blast
  qed
  moreover have "getCurrBufSize b = int (length P - a + e)" using xs(3) by (simp add: sb_ok_def getCurrBufSize_def)
  ultimately show ?thesis using xs(4) by blast
qed

text \<open>
  A message of five bytes in packets of two, whose first packet is read and acknowledged, and a file that
  ends after three of the five bytes it is asked for.
\<close>

lemma send_buffer_is_a_queue_witness:
  "\<exists>b b' bk. readData b = (b', Some bk) \<and> fst (view bk) = [3, 4] \<and> getCurrBufSize b = 5"
proof -
  let ?b0 = "SndBuffer_new (\<lambda>_. \<lparr>bk_data = (\<lambda>_. 0), bk_length = 0, bk_msgno = 0, bk_origin = 0, bk_ttl = 0\<rparr>) 2 2"
  let ?data = "\<lambda>i. of_nat (i + 1) :: byte"
  have start: "sb_reach ?b0 [] 0 0 [] 0" by (rule sb_reach.new) simp_all
  have ok: "sb_ok [0..<nat 2] [] 0 0 ?b0" by (rule sb_new_ok) simp_all
  have msg: "sb_next_msg ?b0 = 1" "sb_mss ?b0 = 2" by (simp_all add: SndBuffer_new_def)
  obtain b1 xs1 where b1: "addBuffer 0 ?data (int 5) (- 1) True ?b0 = Inr b1" "sb_mss b1 = 2"
    "sb_ok xs1 (message_packets 2 ?data 5 (- 1) True 1 0) 0 0 b1"
    using addBuffer_ok [OF ok, of 0 ?data 5 "- 1" True] msg by auto
  define P where "P = message_packets 2 ?data 5 (- 1) True 1 0"
  have r1: "sb_reach b1 P 0 0 [1, 2, 3, 4, 5] 0" using sb_reach.add [OF start _ b1(1)] msg by (simp add: P_def upt_rec)
  have P: "length P = 3" "fst (P ! 1) = [3, 4]"
    by (simp_all add: P_def message_packets_def message_packet_def Let_def upt_rec)
  have "0 < length P" "1 < length P" using P(1) by simp_all
  note q = send_buffer_is_a_queue [OF r1, of 0 0]
  obtain b2 bk2 where read: "readData b1 = (b2, Some bk2)" using conjunct1 [OF q] \<open>0 < length P\<close> by (simp only: if_True) blast
  from sb_reach.ack [OF sb_reach.read [OF r1 this], of 1]
  have r2: "sb_reach (sb_ackData 1 b2) P 1 1 [1, 2, 3, 4, 5] 0" by simp
  let ?b2 = "sb_ackData 1 b2" and ?reads = "[Some (\<lambda>n. [6, 7]), Some (\<lambda>n. [8]), None] :: (int \<Rightarrow> byte list) option list"
  obtain xs where xs: "sb_ok xs (drop 1 P) (1 - 1) 0 ?b2" using sb_reach_ok [OF r2] by blast
  have mss: "sb_mss ?b2 = 2" using read b1(2) by (auto simp: readData_def sb_ackData_def split: if_splits)
  then have n: "nat (packets_of (int 5) ?b2) = 3" using packets_of_nat [of ?b2 2 5] by simp
  have cs: "file_chunks (take 3 ?reads) (int 5) (sb_mss ?b2) 0 = [[6, 7], [8]]" by (simp add: mss numeral_3_eq_3)
  obtain b3 t where b3: "addBufferFromFile ?reads (int 5) ?b2 = Inr (b3, t)"
    using addBufferFromFile_ok [OF xs n [symmetric] refl, of ?reads] by blast
  let ?P = "P @ file_packets (sb_last ?b2) 2 b3"
  from sb_reach.from_file [OF r2 b3 n [symmetric] cs [symmetric]]
  have r3: "sb_reach b3 ?P 1 1 [1, 2, 3, 4, 5, 6, 7, 8] 1" by (simp add: numeral_2_eq_2)
  have "length ?P = 5" by (simp add: P(1) file_packets_def)
  note q3 = send_buffer_is_a_queue [OF r3, of 0 0]
  have "1 < length ?P" using \<open>length ?P = 5\<close> by simp
  then obtain b4 bk4 where "readData b3 = (b4, Some bk4)" "view bk4 = ?P ! 1"
    using conjunct1 [OF q3] by (simp only: if_True) blast
  moreover have "getCurrBufSize b3 = 5" using q3 \<open>length ?P = 5\<close> by simp
  moreover have "?P ! 1 = P ! 1" using P(1) by (simp add: nth_append)
  ultimately show ?thesis using P(2) by metis
qed

section \<open>From buffer to buffer\<close>

lemma rb_reach_received: "rb_reach n b D A out \<Longrightarrow> \<forall>k < A. D k \<noteq> None"
proof (induction rule: rb_reach.induct)
  case (ack b D A out len)
  then show ?case by (metis not_le)
qed auto

text \<open>C25:
  the two buffers make a stream: when every packet the receiver gets is one that the sender made, with
  its place in the sequence, then what is read from the buffer of the receiver is a beginning of what
  was put into the buffer of the sender, whatever is lost, repeated and reordered in between.
\<close>

theorem buffers_make_a_stream:
  assumes "sb_reach s P a c bytes e" "rb_reach n r D A out"
    and "\<forall>k d. D k = Some d \<longrightarrow> k < length P \<and> d = fst (P ! k)"
  shows "\<exists>rest. bytes = out @ rest"
proof -
  have bytes: "bytes = concat (map fst P)" using sb_reach_ok [OF assms(1)] by simp
  have some: "D k = Some (fst (P ! k)) \<and> k < length P" if "k < A" for k
    using rb_reach_received [OF assms(2)] assms(3) that by blast
  obtain S where "rb_stream n r D A out S" using rb_reach_stream [OF assms(2)] ..
  then have out: "out @ unread D S A r = concat (map (\<lambda>k. the (D k)) [0..<A])" by (simp add: rb_stream_def)
  have "A \<le> length P" using some [of "A - 1"] by (cases A) auto
  then have "map (\<lambda>k. the (D k)) [0..<A] = map fst (take A P)"
    using some by (intro nth_equalityI) auto
  moreover have "P = take A P @ drop A P" by simp
  ultimately have "bytes = (out @ unread D S A r) @ concat (map fst (drop A P))"
    unfolding bytes out by (metis concat_append map_append)
  then show ?thesis by auto
qed

lemma buffers_make_a_stream_witness:
  "\<exists>s P a c e r D A out rest. sb_reach s P a c [1, 2] e \<and> rb_reach 4 r D A out \<and> A = 1 \<and> [1, 2] = out @ rest"
proof -
  let ?b0 = "SndBuffer_new (\<lambda>_. \<lparr>bk_data = (\<lambda>_. 0), bk_length = 0, bk_msgno = 0, bk_origin = 0, bk_ttl = 0\<rparr>) 2 2"
  let ?data = "\<lambda>i. of_nat (i + 1) :: byte"
  have start: "sb_reach ?b0 [] 0 0 [] 0" by (rule sb_reach.new) simp_all
  have ok: "sb_ok [0..<nat 2] [] 0 0 ?b0" by (rule sb_new_ok) simp_all
  have msg: "sb_next_msg ?b0 = 1" "sb_mss ?b0 = 2" by (simp_all add: SndBuffer_new_def)
  obtain b1 where b1: "addBuffer 0 ?data (int 2) (- 1) True ?b0 = Inr b1"
    using addBuffer_ok [OF ok, of 0 ?data 2 "- 1" True] msg by auto
  let ?P = "message_packets 2 ?data 2 (- 1) True 1 0"
  from sb_reach.add [OF start _ b1] msg have s: "sb_reach b1 ?P 0 0 [1, 2] 0" by (simp add: upt_rec)
  have P: "length ?P = 1" "fst (?P ! 0) = [1, 2]" by (simp_all add: message_packets_def message_packet_def Let_def upt_rec)
  let ?r0 = "RcvBuffer_new (int 4) (\<lambda>_. \<lparr>cu_packet = data_packet [], cu_flag = 0\<rparr>) 0"
  have "rb_reach 4 ?r0 Map.empty 0 []" by (rule rb_reach.new) simp
  note add = rb_reach.add [OF this, of 7 "data_packet [1, 2]" 0]
  obtain r1 where "addData 7 0 (fill_unit 7 (data_packet [1, 2]) ?r0) = Inr (r1, 0)"
    by (simp add: addData_def RcvBuffer_new_def fill_unit_def slot_at_def set_flag_def Let_def)
  from add [OF _ _ _ _ this] have "rb_reach 4 r1 [0 \<mapsto> payload (data_packet [1, 2])] 0 []"
    by (simp add: RcvBuffer_new_def getAvailBufSize_def getRcvDataSize_def Packet_new_def)
  from rb_reach.ack [OF this, of 1] have r: "rb_reach 4 (rb_ackData (int 1) r1) [0 \<mapsto> payload (data_packet [1, 2])] 1 []"
    by simp
  have "payload (data_packet [1, 2]) = [1, 2]" by (simp add: payload_def Packet_new_def upt_rec)
  then have "\<exists>rest. [1, 2] = [] @ rest" using buffers_make_a_stream [OF s r] P by (auto split: if_splits)
  then show ?thesis using s r by blast
qed

section \<open>Message numbers\<close>

text \<open>
  What a receiver reads of the word a packet carries, as long as the number has 29 bits; and the
  first number that has more, which no longer fits: \<open>addBuffer\<close> counts on where \<open>CMsgNo\<close> would wrap,
  and the number of an unordered message becomes the order flag of message 0.
\<close>

lemma message_number_bits:
  assumes "drop_bit 29 num = 0" "pk_msgno p = fst (snd (message_packet mss data len ttl order num now n i))"
  shows "getMsgSeq p = sint num \<and> getMsgOrderFlag p = order
    \<and> getMsgBoundary p = (if i = 0 then 2 else 0) + (if Suc i = n then 1 else 0)"
proof -
  have high: "\<not> bit num k" if "29 \<le> k" for k
  proof -
    have "bit (drop_bit 29 num) (k - 29) = bit num k" using that by (simp add: bit_drop_bit_eq)
    then show ?thesis using assms(1) by simp
  qed
  have "num AND 0x1FFFFFFF = num"
  proof -
    have "take_bit 29 num = num" by (rule bit_word_eqI) (metis bit_take_bit_iff high not_le)
    then have "num AND mask 29 = num" by (simp add: take_bit_eq_mask)
    then show ?thesis by (simp add: mask_eq_exp_minus_1)
  qed
  moreover have "drop_bit 30 num = 0" by (rule bit_word_eqI) (simp add: bit_drop_bit_eq high)
  ultimately show ?thesis using assms
    by (cases order; cases "i = 0"; cases "Suc i = n")
      (auto simp: message_packet_def getMsgSeq_def getMsgOrderFlag_def getMsgBoundary_def bit.conj_disj_distrib2)
qed

lemma message_number_overflows:
  assumes "pk_msgno p = fst (snd (message_packet mss data len ttl False 0x20000000 now n i))"
  shows "getMsgSeq p = 0 \<and> getMsgOrderFlag p"
  using assms
  by (cases "i = 0"; cases "Suc i = n") (auto simp: message_packet_def getMsgSeq_def getMsgOrderFlag_def)

end
