(* ===== verification/UdtUnitQueue.thy ===== *)
theory UdtUnitQueue
  imports UdtRcvBuffer
begin

text \<open>
  The units that packets are received into (\<open>CUnitQueue\<close> of \<open>src/udt/queue.cpp\<close>): entries of equally
  many units in a ring. Units are numbers, as in \<open>UdtRcvBuffer\<close>: the units of an entry follow its
  first one. The entries are a list in the order of the ring from \<open>m_pQEntry\<close> to \<open>m_pLastQueue\<close>, and
  \<open>m_pCurrQueue\<close> is a position in it. What the storage of new units holds is an argument. Memory is not
  exhausted, and the numbers of units stay far below the bounds of \<open>int\<close>.
\<close>

record qentry =
  qe_unit :: nat
  qe_size :: int

record unit_queue =
  uq_entries :: "qentry list"
  uq_curr :: nat
  uq_avail :: nat
  uq_units :: "nat \<Rightarrow> cunit"
  uq_fresh :: nat
  uq_size :: int
  uq_count :: int
  uq_mss :: int
  uq_version :: int

definition UnitQueue_new :: "(nat \<Rightarrow> cunit) \<Rightarrow> nat \<Rightarrow> unit_queue" where
  "UnitQueue_new storage fresh =
     \<lparr>uq_entries = [], uq_curr = 0, uq_avail = 0, uq_units = storage, uq_fresh = fresh, uq_size = 0, uq_count = 0,
      uq_mss = 0, uq_version = 0\<rparr>"

text \<open>New units, with memory of their own, that are all free.\<close>

definition new_entry :: "int \<Rightarrow> unit_queue \<Rightarrow> qentry \<times> unit_queue" where
  "new_entry sz q =
     (let a = uq_fresh q in
      (\<lparr>qe_unit = a, qe_size = sz\<rparr>,
       q\<lparr>uq_units := (\<lambda>u. if a \<le> u \<and> u < a + nat sz then (uq_units q u)\<lparr>cu_flag := 0\<rparr> else uq_units q u),
         uq_fresh := a + nat sz\<rparr>))"

definition uq_init :: "int \<Rightarrow> int \<Rightarrow> int \<Rightarrow> unit_queue \<Rightarrow> unit_queue" where
  "uq_init sz mss version q =
     (let (e, q) = new_entry sz q in
      q\<lparr>uq_entries := [e], uq_curr := 0, uq_avail := qe_unit e, uq_size := sz, uq_mss := mss, uq_version := version\<rparr>)"

text \<open>The units of an entry, and the loops of \<open>increase\<close> that count those in use.\<close>

definition units_of :: "qentry \<Rightarrow> nat list" where
  "units_of e = [qe_unit e..<qe_unit e + nat (qe_size e)]"

definition real_count :: "unit_queue \<Rightarrow> int" where
  "real_count q =
     fold (\<lambda>e n. fold (\<lambda>u n. if cu_flag (uq_units q u) \<noteq> 0 then n + 1 else n) (units_of e) n) (uq_entries q) 0"

text \<open>
  \<open>double (m_iCount) / m_iSize < 0.9\<close> is a comparison of integers: the quotient of two numbers below
  \<open>2 ^ 31\<close> that differs from \<open>0.9\<close> does so by more than the rounding of both, and no number is less
  than another after a division by zero.
\<close>

definition uq_increase :: "unit_queue \<Rightarrow> (unit_queue \<times> int) res" where
  "uq_increase q =
     (case uq_entries q of
        [] \<Rightarrow> Inl Undefined
      | e # es \<Rightarrow>
          let q = q\<lparr>uq_count := real_count q\<rparr> in
          if 10 * uq_count q < 9 * uq_size q then Inr (q, - 1)
          else
            let sz = qe_size e; (e', q) = new_entry sz q in
            Inr (q\<lparr>uq_entries := uq_entries q @ [e'], uq_size := uq_size q + sz\<rparr>, 0))"

definition uq_shrink :: "unit_queue \<Rightarrow> unit_queue \<times> int" where
  "uq_shrink q = (q, - 1)"

text \<open>The \<open>for\<close> loop of \<open>getNextAvailUnit\<close>: it leaves out the unit \<open>sentinel\<close>.\<close>

function scan_units :: "nat \<Rightarrow> nat \<Rightarrow> (nat \<Rightarrow> cunit) \<Rightarrow> (nat \<times> bool) res" where
  "scan_units a sentinel units =
     (if a = sentinel then Inr (a, False)
      else if a > sentinel then Inl Undefined
      else if cu_flag (units a) = 0 then Inr (a, True)
      else scan_units (a + 1) sentinel units)"
  by auto

termination by (relation "measure (\<lambda>(a, s, _). s - a)") auto

declare scan_units.simps [simp del]

text \<open>The \<open>do\<close> loop, which ends back at the entry \<open>entrance\<close>; its fuel is the number of entries.\<close>

fun avail_loop :: "nat \<Rightarrow> nat \<Rightarrow> unit_queue \<Rightarrow> (unit_queue \<times> nat option) res" where
  "avail_loop 0 entrance q = Inl Diverges"
| "avail_loop (Suc fuel) entrance q =
     (if uq_curr q \<ge> length (uq_entries q) then Inl Undefined
      else
        let e = uq_entries q ! uq_curr q in
        bind_res (scan_units (uq_avail q) (qe_unit e + nat (qe_size e - 1)) (uq_units q)) (\<lambda>(a, found).
          let q = q\<lparr>uq_avail := a\<rparr> in
          if found then Inr (q, Some a)
          else if cu_flag (uq_units q (qe_unit e)) = 0 then Inr (q\<lparr>uq_avail := qe_unit e\<rparr>, Some (qe_unit e))
          else
            let c = (if uq_curr q + 1 = length (uq_entries q) then 0 else uq_curr q + 1);
                q = q\<lparr>uq_curr := c, uq_avail := qe_unit (uq_entries q ! c)\<rparr> in
            if c \<noteq> entrance then avail_loop fuel entrance q else Inr (q, None)))"

definition getNextAvailUnit :: "unit_queue \<Rightarrow> (unit_queue \<times> nat option) res" where
  "getNextAvailUnit q =
     bind_res (if uq_count q * 10 > uq_size q * 9 then uq_increase q else Inr (q, 0)) (\<lambda>(q, _).
       if uq_count q \<ge> uq_size q then Inr (q, None)
       else bind_res (avail_loop (length (uq_entries q)) (uq_curr q) q) (\<lambda>(q, r). case r of
         Some u \<Rightarrow> Inr (q, Some u)
       | None \<Rightarrow> bind_res (uq_increase q) (\<lambda>(q, _). Inr (q, None))))"

end
