(* ===== verification/UdtRcvUList.thy ===== *)
theory UdtRcvUList
  imports Prelude "HOL-Library.Word" "HOL-Library.Signed_Division"
begin

text \<open>
  The list of the sockets that receive (\<open>CRcvUList\<close> of \<open>src/udt/queue.cpp\<close>), doubly linked and in the
  order of the last packets, and the table that finds sockets by their ids (\<open>CHash\<close>). A socket and its
  node \<open>m_pRNode\<close> are one number; the fields of the nodes are maps, and a null pointer is \<open>None\<close>. The
  readings of the clock are arguments.
\<close>

section \<open>CRcvUList\<close>

record rcv_ulist =
  ru_first :: "nat option"
  ru_last :: "nat option"
  ru_time :: "nat \<Rightarrow> 64 word"
  ru_prev :: "nat \<Rightarrow> nat option"
  ru_next :: "nat \<Rightarrow> nat option"
  ru_on :: "nat \<Rightarrow> bool"

definition RcvUList_new :: "(nat \<Rightarrow> 64 word) \<Rightarrow> (nat \<Rightarrow> nat option) \<Rightarrow> (nat \<Rightarrow> nat option) \<Rightarrow> rcv_ulist" where
  "RcvUList_new time0 prev0 next0 =
     \<lparr>ru_first = None, ru_last = None, ru_time = time0, ru_prev = prev0, ru_next = next0, ru_on = (\<lambda>_. False)\<rparr>"

text \<open>Writing the links of a node, which a null pointer does not have.\<close>

definition set_ru_next :: "nat option \<Rightarrow> nat option \<Rightarrow> rcv_ulist \<Rightarrow> rcv_ulist res" where
  "set_ru_next p v l = (case p of None \<Rightarrow> Inl Undefined | Some n \<Rightarrow> Inr (l\<lparr>ru_next := (ru_next l)(n := v)\<rparr>))"

definition set_ru_prev :: "nat option \<Rightarrow> nat option \<Rightarrow> rcv_ulist \<Rightarrow> rcv_ulist res" where
  "set_ru_prev p v l = (case p of None \<Rightarrow> Inl Undefined | Some n \<Rightarrow> Inr (l\<lparr>ru_prev := (ru_prev l)(n := v)\<rparr>))"

text \<open>The four lines at the end of \<open>insert\<close> and of \<open>update\<close>.\<close>

definition append_node :: "nat \<Rightarrow> rcv_ulist \<Rightarrow> rcv_ulist res" where
  "append_node n l =
     bind_res (set_ru_next (ru_last l) (Some n)
        (l\<lparr>ru_prev := (ru_prev l)(n := ru_last l), ru_next := (ru_next l)(n := None)\<rparr>)) (\<lambda>l.
     Inr (l\<lparr>ru_last := Some n\<rparr>))"

definition ru_insert :: "64 word \<Rightarrow> nat \<Rightarrow> rcv_ulist \<Rightarrow> rcv_ulist res" where
  "ru_insert now n l =
     (let l = l\<lparr>ru_time := (ru_time l)(n := now), ru_on := (ru_on l)(n := True)\<rparr> in
      if ru_first l = None
      then Inr (l\<lparr>ru_prev := (ru_prev l)(n := None), ru_next := (ru_next l)(n := None),
                  ru_last := Some n, ru_first := Some n\<rparr>)
      else append_node n l)"

definition ru_remove :: "nat \<Rightarrow> rcv_ulist \<Rightarrow> rcv_ulist res" where
  "ru_remove n l =
     (if \<not> ru_on l n then Inr l
      else
        bind_res
          (if ru_prev l n = None
           then
             let l = l\<lparr>ru_first := ru_next l n\<rparr> in
             if ru_first l = None then Inr (l\<lparr>ru_last := None\<rparr>) else set_ru_prev (ru_first l) None l
           else
             bind_res (set_ru_next (ru_prev l n) (ru_next l n) l) (\<lambda>l.
               if ru_next l n = None then Inr (l\<lparr>ru_last := ru_prev l n\<rparr>)
               else set_ru_prev (ru_next l n) (ru_prev l n) l))
          (\<lambda>l. Inr (l\<lparr>ru_prev := (ru_prev l)(n := None), ru_next := (ru_next l)(n := None),
                       ru_on := (ru_on l)(n := False)\<rparr>)))"

definition ru_update :: "64 word \<Rightarrow> nat \<Rightarrow> rcv_ulist \<Rightarrow> rcv_ulist res" where
  "ru_update now n l =
     (if \<not> ru_on l n then Inr l
      else
        let l = l\<lparr>ru_time := (ru_time l)(n := now)\<rparr> in
        if ru_next l n = None then Inr l
        else
          bind_res
            (if ru_prev l n = None
             then let l = l\<lparr>ru_first := ru_next l n\<rparr> in set_ru_prev (ru_first l) None l
             else bind_res (set_ru_next (ru_prev l n) (ru_next l n) l) (\<lambda>l.
               set_ru_prev (ru_next l n) (ru_prev l n) l))
            (append_node n))"

section \<open>CHash\<close>

text \<open>The buckets are lists of ids and sockets. A negative id is a position before the table.\<close>

record chash =
  ch_bucket :: "int \<Rightarrow> (int \<times> nat) list"
  ch_size :: int

definition hash_new :: chash where
  "hash_new = \<lparr>ch_bucket = (\<lambda>_. []), ch_size = 0\<rparr>"

definition hash_init :: "int \<Rightarrow> chash \<Rightarrow> chash" where
  "hash_init sz h = h\<lparr>ch_bucket := (\<lambda>_. []), ch_size := sz\<rparr>"

definition hash_pos :: "int \<Rightarrow> chash \<Rightarrow> int res" where
  "hash_pos sid h =
     (if ch_size h = 0 then Inl Undefined
      else let i = sid smod ch_size h in if 0 \<le> i \<and> i < ch_size h then Inr i else Inl Undefined)"

fun find_id :: "int \<Rightarrow> (int \<times> nat) list \<Rightarrow> nat option" where
  "find_id sid [] = None"
| "find_id sid ((i, u) # bs) = (if sid = i then Some u else find_id sid bs)"

fun remove_id :: "int \<Rightarrow> (int \<times> nat) list \<Rightarrow> (int \<times> nat) list" where
  "remove_id sid [] = []"
| "remove_id sid ((i, u) # bs) = (if sid = i then bs else (i, u) # remove_id sid bs)"

definition hash_lookup :: "int \<Rightarrow> chash \<Rightarrow> nat option res" where
  "hash_lookup sid h = bind_res (hash_pos sid h) (\<lambda>i. Inr (find_id sid (ch_bucket h i)))"

definition hash_insert :: "int \<Rightarrow> nat \<Rightarrow> chash \<Rightarrow> chash res" where
  "hash_insert sid u h = bind_res (hash_pos sid h) (\<lambda>i.
     Inr (h\<lparr>ch_bucket := (ch_bucket h)(i := (sid, u) # ch_bucket h i)\<rparr>))"

definition hash_remove :: "int \<Rightarrow> chash \<Rightarrow> chash res" where
  "hash_remove sid h = bind_res (hash_pos sid h) (\<lambda>i.
     Inr (h\<lparr>ch_bucket := (ch_bucket h)(i := remove_id sid (ch_bucket h i))\<rparr>))"

end
