(* ===== verification/UdtRcvQueue.thy ===== *)
theory UdtRcvQueue
  imports UdtUnitQueue UdtRcvUList UdtSndUList
begin

text \<open>
  The queues of a port (\<open>CRcvQueue\<close>, \<open>CRendezvousQueue\<close> and \<open>CSndQueue\<close> of \<open>src/udt/queue.cpp\<close>, \<open>ipcmp\<close> of
  \<open>src/udt/common.cpp\<close>). One round of the loop of a thread is one step. What the sockets do when they
  are called is the argument \<open>handle\<close>; of the units it can change the contents and the count, which
  are what the buffers reach. A position in the readings of the clock \<open>clk\<close> stands for the time.
\<close>

section \<open>Addresses and rendezvous\<close>

text \<open>The fields of both layouts of \<open>sockaddr\<close>; which are in use the version tells.\<close>

record sockaddr =
  sa_port :: "16 word"
  sa_addr :: "32 word"
  sa_addr6 :: "nat \<Rightarrow> byte"

definition AF_INET :: int where
  "AF_INET = 2"

definition ipcmp :: "sockaddr \<Rightarrow> sockaddr \<Rightarrow> int \<Rightarrow> bool" where
  "ipcmp a1 a2 ver =
     (if AF_INET = ver then sa_port a1 = sa_port a2 \<and> sa_addr a1 = sa_addr a2
      else sa_port a1 = sa_port a2 \<and> list_all (\<lambda>i. sa_addr6 a1 i = sa_addr6 a2 i) [0..<16])"

record crl =
  rl_id :: int
  rl_version :: int
  rl_addr :: sockaddr

definition rz_insert :: "int \<Rightarrow> int \<Rightarrow> sockaddr \<Rightarrow> crl list \<Rightarrow> crl list" where
  "rz_insert sid ipv addr v = v @ [\<lparr>rl_id = sid, rl_version = ipv, rl_addr = addr\<rparr>]"

fun rz_remove :: "int \<Rightarrow> crl list \<Rightarrow> crl list" where
  "rz_remove sid [] = []"
| "rz_remove sid (r # v) = (if rl_id r = sid then v else r # rz_remove sid v)"

text \<open>\<open>retrieve\<close> gives the id it writes, when it finds one.\<close>

fun rz_retrieve :: "sockaddr \<Rightarrow> int \<Rightarrow> crl list \<Rightarrow> int option" where
  "rz_retrieve addr sid [] = None"
| "rz_retrieve addr sid (r # v) =
     (if ipcmp addr (rl_addr r) (rl_version r) \<and> (0 = sid \<or> sid = rl_id r) then Some (rl_id r) else rz_retrieve addr sid v)"

section \<open>CRcvQueue\<close>

text \<open>What does not change of a socket in the queue, and the flags that do.\<close>

record sock =
  sk_id :: int
  sk_peer :: sockaddr
  sk_version :: int

record flags =
  fl_connected :: bool
  fl_broken :: bool
  fl_closing :: bool

text \<open>What the queue and the sockets both change, \<open>ud_rest\<close> being the state of the sockets.\<close>

record 'c udt =
  ud_units :: unit_queue
  ud_listener :: "nat option"
  ud_rendezvous :: "crl list"
  ud_new :: "nat list"
  ud_flags :: "nat \<Rightarrow> flags"
  ud_rest :: 'c

record 'c rcv_queue =
  rq_ulist :: rcv_ulist
  rq_hash :: chash
  rq_store :: "int \<rightharpoonup> packet"
  rq_payload :: int
  rq_udt :: "'c udt"
  rq_ticks :: nat

text \<open>The calls of a socket.\<close>

datatype call = Listen sockaddr packet | ProcessData nat | ProcessCtrl packet | CheckTimers

type_synonym 'c sockets = "nat \<Rightarrow> call \<Rightarrow> 'c udt \<Rightarrow> 'c udt"

definition call_socket :: "'c sockets \<Rightarrow> nat \<Rightarrow> call \<Rightarrow> 'c udt \<Rightarrow> 'c udt" where
  "call_socket handle u c s =
     (let s' = handle u c s in
      s'\<lparr>ud_units := (ud_units s)\<lparr>uq_units := uq_units (ud_units s'), uq_count := uq_count (ud_units s')\<rparr>\<rparr>)"

definition live :: "'c udt \<Rightarrow> nat \<Rightarrow> bool" where
  "live s u \<longleftrightarrow> fl_connected (ud_flags s u) \<and> \<not> fl_broken (ud_flags s u) \<and> \<not> fl_closing (ud_flags s u)"

definition RcvQueue_init :: "int \<Rightarrow> int \<Rightarrow> int \<Rightarrow> int \<Rightarrow> rcv_ulist \<Rightarrow> 'c udt \<Rightarrow> 'c rcv_queue" where
  "RcvQueue_init qsize psize version hsize l s =
     \<lparr>rq_ulist = l, rq_hash = hash_init hsize hash_new, rq_store = Map.empty, rq_payload = psize,
      rq_udt = s\<lparr>ud_units := uq_init qsize psize version (ud_units s), ud_listener := None, ud_rendezvous := [], ud_new := []\<rparr>,
      rq_ticks = 0\<rparr>"

definition rdtsc :: "(nat \<Rightarrow> 64 word) \<Rightarrow> 'c rcv_queue \<Rightarrow> 64 word \<times> 'c rcv_queue" where
  "rdtsc clk q = (clk (rq_ticks q), q\<lparr>rq_ticks := rq_ticks q + 1\<rparr>)"

definition setListener :: "nat \<Rightarrow> 'c udt \<Rightarrow> 'c udt \<times> int" where
  "setListener u s = (if ud_listener s \<noteq> None then (s, - 1) else (s\<lparr>ud_listener := Some u\<rparr>, 1))"

definition removeListener :: "nat \<Rightarrow> 'c udt \<Rightarrow> 'c udt" where
  "removeListener u s = (if ud_listener s = Some u then s\<lparr>ud_listener := None\<rparr> else s)"

definition setNewEntry :: "nat \<Rightarrow> 'c udt \<Rightarrow> 'c udt" where
  "setNewEntry u s = s\<lparr>ud_new := ud_new s @ [u]\<rparr>"

definition getNewEntry :: "'c udt \<Rightarrow> 'c udt \<times> nat option" where
  "getNewEntry s = (case ud_new s of [] \<Rightarrow> (s, None) | u # us \<Rightarrow> (s\<lparr>ud_new := us\<rparr>, Some u))"

definition storePkt :: "int \<Rightarrow> packet \<Rightarrow> 'c rcv_queue \<Rightarrow> 'c rcv_queue" where
  "storePkt sid pkt q = q\<lparr>rq_store := (rq_store q)(sid \<mapsto> pkt)\<rparr>"

text \<open>
  \<open>recvfrom\<close> of the queue: when there is no packet for the socket, it waits up to a second, in which
  the queue becomes \<open>later\<close>.
\<close>

definition rq_recvfrom :: "('c rcv_queue \<Rightarrow> 'c rcv_queue) \<Rightarrow> int \<Rightarrow> packet \<Rightarrow> 'c rcv_queue \<Rightarrow> 'c rcv_queue \<times> packet \<times> int" where
  "rq_recvfrom later sid packet q =
     (let q = (if rq_store q sid = None then later q else q) in
      case rq_store q sid of
        None \<Rightarrow> (q, setLength (- 1) packet, - 1)
      | Some p \<Rightarrow>
          if getLength packet < getLength p then (q, setLength (- 1) packet, - 1)
          else
            let packet = packet\<lparr>pk_seqno := pk_seqno p, pk_msgno := pk_msgno p, pk_timestamp := pk_timestamp p, pk_id := pk_id p,
                  pk_data := (\<lambda>i. if int i < getLength p then pk_data p i else pk_data packet i), pk_len := getLength p\<rparr> in
            (q\<lparr>rq_store := (rq_store q)(sid := None)\<rparr>, packet, getLength packet))"

section \<open>The receiving thread\<close>

definition take_new :: "(nat \<Rightarrow> 64 word) \<Rightarrow> (nat \<Rightarrow> sock) \<Rightarrow> 'c rcv_queue \<Rightarrow> 'c rcv_queue res" where
  "take_new clk sock q =
     (case getNewEntry (rq_udt q) of
        (_, None) \<Rightarrow> Inr q
      | (s, Some ne) \<Rightarrow>
          let (now, q) = rdtsc clk (q\<lparr>rq_udt := s\<rparr>) in
          bind_res (ru_insert now ne (rq_ulist q)) (\<lambda>l.
          bind_res (hash_insert (sk_id (sock ne)) ne (rq_hash q)) (\<lambda>h.
          Inr (q\<lparr>rq_ulist := l, rq_hash := h\<rparr>))))"

text \<open>What becomes of a packet that came from \<open>addr\<close> and lies in a unit. The memory of a clone is \<open>mem\<close>.\<close>

definition to_rendezvous :: "(nat \<Rightarrow> byte) \<Rightarrow> sockaddr \<Rightarrow> int \<Rightarrow> packet \<Rightarrow> 'c rcv_queue \<Rightarrow> 'c rcv_queue" where
  "to_rendezvous mem addr sid p q =
     (case rz_retrieve addr sid (ud_rendezvous (rq_udt q)) of None \<Rightarrow> q | Some sid \<Rightarrow> storePkt sid (clone mem p) q)"

definition deliver :: "(nat \<Rightarrow> 64 word) \<Rightarrow> 'c sockets \<Rightarrow> (nat \<Rightarrow> byte) \<Rightarrow> (nat \<Rightarrow> sock) \<Rightarrow> sockaddr \<Rightarrow> nat
    \<Rightarrow> 'c rcv_queue \<Rightarrow> 'c rcv_queue res" where
  "deliver clk handle mem sock addr n q =
     (let p = cu_packet (uq_units (ud_units (rq_udt q)) n); sid = sint (pk_id p) in
      if 0 = sid then
        case ud_listener (rq_udt q) of
          Some u \<Rightarrow> Inr (q\<lparr>rq_udt := call_socket handle u (Listen addr p) (rq_udt q)\<rparr>)
        | None \<Rightarrow> Inr (to_rendezvous mem addr sid p q)
      else if sid > 0 then
        bind_res (hash_lookup sid (rq_hash q)) (\<lambda>r. case r of
          Some u \<Rightarrow>
            if ipcmp addr (sk_peer (sock u)) (sk_version (sock u)) \<and> live (rq_udt q) u
            then
              let s = call_socket handle u (if 0 = getFlag p then ProcessData n else ProcessCtrl p) (rq_udt q);
                  s = call_socket handle u CheckTimers s;
                  (now, q) = rdtsc clk (q\<lparr>rq_udt := s\<rparr>) in
              bind_res (ru_update now u (rq_ulist q)) (\<lambda>l. Inr (q\<lparr>rq_ulist := l\<rparr>))
            else Inr q
        | None \<Rightarrow> Inr (to_rendezvous mem addr sid p q))
      else Inr q)"

text \<open>Receiving one datagram, or none when the channel gives up waiting, into a free unit.\<close>

definition receive_one :: "bool \<Rightarrow> (nat \<Rightarrow> 64 word) \<Rightarrow> 'c sockets \<Rightarrow> (nat \<Rightarrow> byte) \<Rightarrow> (nat \<Rightarrow> sock)
    \<Rightarrow> (sockaddr \<times> byte list) option \<Rightarrow> 'c rcv_queue \<Rightarrow> 'c rcv_queue res" where
  "receive_one le clk handle mem sock datagram q =
     bind_res (getNextAvailUnit (ud_units (rq_udt q))) (\<lambda>(uq, r).
       let q = q\<lparr>rq_udt := (rq_udt q)\<lparr>ud_units := uq\<rparr>\<rparr> in
       case r of
         None \<Rightarrow> Inr q
       | Some n \<Rightarrow>
           let u = uq_units uq n;
               (p, res) = recvfrom le (map_option snd datagram) (setLength (rq_payload q) (cu_packet u));
               uq = uq\<lparr>uq_units := (uq_units uq)(n := u\<lparr>cu_packet := p\<rparr>)\<rparr>;
               q = q\<lparr>rq_udt := (rq_udt q)\<lparr>ud_units := uq\<rparr>\<rparr> in
           if res \<le> 0 then Inr q
           else case datagram of None \<Rightarrow> Inr q | Some (addr, _) \<Rightarrow> deliver clk handle mem sock addr n q)"

text \<open>The sockets that were not heard of lately: those at the front of the list.\<close>

fun timer_loop :: "(nat \<Rightarrow> 64 word) \<Rightarrow> 'c sockets \<Rightarrow> (nat \<Rightarrow> sock) \<Rightarrow> 64 word \<Rightarrow> nat \<Rightarrow> 'c rcv_queue \<Rightarrow> 'c rcv_queue res" where
  "timer_loop clk handle sock ctime fuel q =
     (case ru_first (rq_ulist q) of
        None \<Rightarrow> Inr q
      | Some u \<Rightarrow>
          if ru_time (rq_ulist q) u < ctime
          then case fuel of
            0 \<Rightarrow> Inl Diverges
          | Suc fuel \<Rightarrow>
              bind_res
                (if live (rq_udt q) u
                 then
                   let (now, q) = rdtsc clk (q\<lparr>rq_udt := call_socket handle u CheckTimers (rq_udt q)\<rparr>) in
                   bind_res (ru_update now u (rq_ulist q)) (\<lambda>l. Inr (q\<lparr>rq_ulist := l\<rparr>))
                 else
                   bind_res (hash_remove (sk_id (sock u)) (rq_hash q)) (\<lambda>h.
                   bind_res (ru_remove u (rq_ulist q)) (\<lambda>l.
                   Inr (q\<lparr>rq_hash := h, rq_ulist := l\<rparr>))))
                (timer_loop clk handle sock ctime fuel)
          else Inr q)"

declare timer_loop.simps [simp del]

definition check_timers :: "(nat \<Rightarrow> 64 word) \<Rightarrow> 'c sockets \<Rightarrow> (nat \<Rightarrow> sock) \<Rightarrow> 64 word \<Rightarrow> nat \<Rightarrow> 'c rcv_queue \<Rightarrow> 'c rcv_queue res" where
  "check_timers clk handle sock freq fuel q =
     (let (currtime, q) = rdtsc clk q; ctime = currtime - 100000 * freq in
      timer_loop clk handle sock ctime fuel q)"

definition rcv_worker :: "bool \<Rightarrow> (nat \<Rightarrow> 64 word) \<Rightarrow> 'c sockets \<Rightarrow> (nat \<Rightarrow> byte) \<Rightarrow> (nat \<Rightarrow> sock) \<Rightarrow> 64 word \<Rightarrow> nat
    \<Rightarrow> (sockaddr \<times> byte list) option \<Rightarrow> 'c rcv_queue \<Rightarrow> 'c rcv_queue res" where
  "rcv_worker le clk handle mem sock freq fuel datagram q =
     bind_res (take_new clk sock q) (\<lambda>q.
     bind_res (receive_one le clk handle mem sock datagram q) (\<lambda>q.
     check_timers clk handle sock freq fuel q))"

section \<open>The sending thread\<close>

text \<open>
  One round: when a socket has something to send, its packet goes to the channel, which gives the
  datagram. \<open>packData\<close> is what a socket answers, its packet and address included.
\<close>

definition snd_worker :: "bool \<Rightarrow> (nat \<Rightarrow> bool) \<Rightarrow> (nat \<Rightarrow> bool) \<Rightarrow> (nat \<Rightarrow> int \<times> 64 word) \<Rightarrow> (nat \<Rightarrow> sockaddr \<times> packet)
    \<Rightarrow> snd_ulist \<Rightarrow> (snd_ulist \<times> (sockaddr \<times> byte list) option) res" where
  "snd_worker le connected broken packData pkt l =
     bind_res (getNextProcTime l) (\<lambda>ts.
       if ts > 0
       then bind_res (su_pop connected broken packData l) (\<lambda>(l, r). case r of
         None \<Rightarrow> Inr (l, None)
       | Some u \<Rightarrow> let (addr, p) = pkt u; (_, bytes, _) = sendto le 0 p in Inr (l, Some (addr, bytes)))
       else Inr (l, None))"

end
