(* ===== verification/UdtUnitQueueProperties.thy ===== *)
theory UdtUnitQueueProperties
  imports UdtUnitQueue
begin

text \<open>
  The queue of units gives only free units, and after a call that gives none the next one gives a
  unit, also when the buffers free units and write the count in between. It never gives the last
  unit of an entry.
\<close>

section \<open>The invariant\<close>

text \<open>All units of an entry but the last.\<close>

definition usable :: "qentry \<Rightarrow> nat set" where
  "usable e = {qe_unit e..<qe_unit e + nat (qe_size e - 1)}"

definition uq_ok :: "nat \<Rightarrow> unit_queue \<Rightarrow> bool" where
  "uq_ok n q \<longleftrightarrow> uq_curr q < length (uq_entries q)
    \<and> (\<forall>e \<in> set (uq_entries q). qe_size e = int n \<and> qe_unit e + n \<le> uq_fresh q)
    \<and> uq_avail q \<in> {qe_unit (uq_entries q ! uq_curr q)..qe_unit (uq_entries q ! uq_curr q) + (n - 1)}
    \<and> uq_size q = int n * int (length (uq_entries q))"

definition is_free :: "unit_queue \<Rightarrow> nat \<Rightarrow> bool" where
  "is_free q u \<longleftrightarrow> cu_flag (uq_units q u) = 0"

lemma uq_okD:
  assumes "uq_ok n q"
  shows "uq_curr q < length (uq_entries q)" "i < length (uq_entries q) \<Longrightarrow> qe_size (uq_entries q ! i) = int n"
    "uq_entries q \<noteq> []"
  using assms by (auto simp: uq_ok_def)

lemma uq_ok_init:
  "0 < n \<Longrightarrow> uq_ok n (uq_init (int n) mss version (UnitQueue_new storage fresh))"
  by (simp add: uq_ok_def uq_init_def new_entry_def UnitQueue_new_def Let_def)

section \<open>Counting\<close>

lemma fold_count: "fold (\<lambda>u m. if P u then m + 1 else m) us m = m + int (length (filter P us))"
  by (induction us arbitrary: m) auto

lemma real_count_eq:
  "real_count q = (\<Sum>e \<leftarrow> uq_entries q. int (length (filter (\<lambda>u. \<not> is_free q u) (units_of e))))"
proof -
  have "fold (\<lambda>e m. fold (\<lambda>u m. if cu_flag (uq_units q u) \<noteq> 0 then m + 1 else m) (units_of e) m) es m
    = m + (\<Sum>e \<leftarrow> es. int (length (filter (\<lambda>u. \<not> is_free q u) (units_of e))))" for es m
    by (induction es arbitrary: m) (simp_all add: fold_count is_free_def)
  then show ?thesis by (simp add: real_count_def)
qed

lemma real_count_full:
  assumes "\<forall>e \<in> set (uq_entries q). qe_size e = int n" "\<forall>e \<in> set (uq_entries q). \<forall>u \<in> usable e. \<not> is_free q u"
  shows "int (n - 1) * int (length (uq_entries q)) \<le> real_count q"
proof -
  have "int (n - 1) \<le> int (length (filter (\<lambda>u. \<not> is_free q u) (units_of e)))" if "e \<in> set (uq_entries q)" for e
  proof -
    have "units_of e = [qe_unit e..<qe_unit e + (n - 1)] @ [qe_unit e + (n - 1)..<qe_unit e + n]"
      using assms(1) that upt_add_eq_append [of "qe_unit e" "qe_unit e + (n - 1)" "n - (n - 1)"] by (simp add: units_of_def)
    moreover have "filter (\<lambda>u. \<not> is_free q u) [qe_unit e..<qe_unit e + (n - 1)] = [qe_unit e..<qe_unit e + (n - 1)]"
      using assms that by (intro filter_True) (auto simp: usable_def nat_diff_distrib')
    ultimately show ?thesis by simp
  qed
  then have "(\<Sum>e \<leftarrow> uq_entries q. int (n - 1)) \<le> real_count q"
    unfolding real_count_eq by (rule sum_list_mono)
  then show ?thesis by (simp add: sum_list_triv mult.commute)
qed

lemma real_count_le:
  assumes "\<forall>e \<in> set (uq_entries q). qe_size e = int n"
  shows "real_count q \<le> int n * int (length (uq_entries q))"
proof -
  have "real_count q \<le> (\<Sum>e \<leftarrow> uq_entries q. int n)"
    unfolding real_count_eq
  proof (rule sum_list_mono)
    fix e assume "e \<in> set (uq_entries q)"
    then show "int (length (filter (\<lambda>u. \<not> is_free q u) (units_of e))) \<le> int n"
      using assms length_filter_le [of "\<lambda>u. \<not> is_free q u" "units_of e"] by (simp add: units_of_def)
  qed
  then show ?thesis by (simp add: sum_list_triv mult.commute)
qed

section \<open>Growing\<close>

text \<open>What a call leaves as it was.\<close>

definition keeps :: "unit_queue \<Rightarrow> unit_queue \<Rightarrow> bool" where
  "keeps q q' \<longleftrightarrow> (\<exists>es. uq_entries q' = uq_entries q @ es) \<and> uq_fresh q \<le> uq_fresh q'
    \<and> (\<forall>u < uq_fresh q. uq_units q' u = uq_units q u)"

lemma keeps_trans: "keeps q1 q2 \<Longrightarrow> keeps q2 q3 \<Longrightarrow> keeps q1 q3"
  by (fastforce simp: keeps_def)

lemma keeps_refl: "keeps q q"
  by (simp add: keeps_def)

lemma uq_increase_ok:
  assumes "uq_ok n q" "10 \<le> n"
  obtains q' r where "uq_increase q = Inr (q', r)" "uq_ok n q'" "keeps q q'" "uq_count q' < uq_size q'"
    "uq_curr q' = uq_curr q" "uq_avail q' = uq_avail q"
    "\<exists>e \<in> set (uq_entries q'). \<exists>u \<in> usable e. is_free q' u"
proof -
  obtain e es where es: "uq_entries q = e # es" using uq_okD(3) [OF assms(1)] by (cases "uq_entries q") auto
  have size: "\<forall>e \<in> set (uq_entries q). qe_size e = int n" using assms(1) by (simp add: uq_ok_def)
  show ?thesis
  proof (cases "10 * real_count q < 9 * uq_size q")
    case True
    let ?q = "q\<lparr>uq_count := real_count q\<rparr>"
    have "\<exists>e \<in> set (uq_entries q). \<exists>u \<in> usable e. is_free q u"
    proof (rule ccontr)
      assume "\<not> ?thesis"
      then have "int (n - 1) * int (length (uq_entries q)) \<le> real_count q" using size by (intro real_count_full) auto
      then have "10 * (int (n - 1) * int (length (uq_entries q))) < 9 * (int n * int (length (uq_entries q)))"
        using True assms(1) by (simp add: uq_ok_def)
      then have "int (length (uq_entries q)) * (10 * int (n - 1)) < int (length (uq_entries q)) * (9 * int n)"
        by (simp add: algebra_simps)
      then have "10 * int (n - 1) < 9 * int n" by (rule mult_less_cancel_left_pos [THEN iffD1, rotated]) (use es in simp)
      then show False using assms(2) by linarith
    qed
    moreover have "uq_increase q = Inr (?q, - 1)" using True by (simp add: uq_increase_def es Let_def)
    moreover have "uq_ok n ?q" "keeps q ?q" using assms(1) by (simp_all add: uq_ok_def keeps_def)
    moreover have "0 \<le> uq_size q" using assms(1) by (simp add: uq_ok_def)
    then have "real_count q < uq_size q" using True by linarith
    ultimately show ?thesis using that [of ?q "- 1"] by (simp add: is_free_def)
  next
    case False
    let ?a = "uq_fresh q"
    let ?q = "q\<lparr>uq_count := real_count q,
      uq_units := (\<lambda>u. if ?a \<le> u \<and> u < ?a + n then (uq_units q u)\<lparr>cu_flag := 0\<rparr> else uq_units q u),
      uq_fresh := ?a + n, uq_entries := uq_entries q @ [\<lparr>qe_unit = ?a, qe_size = int n\<rparr>],
      uq_size := uq_size q + int n\<rparr>"
    have "uq_increase q = Inr (?q, 0)"
      using False size by (simp add: uq_increase_def es Let_def new_entry_def cong del: if_weak_cong)
    moreover have "uq_ok n ?q" using assms(1) by (auto simp: uq_ok_def nth_append algebra_simps)
    moreover have "keeps q ?q" by (simp add: keeps_def)
    moreover have "real_count q < uq_size q + int n"
      using real_count_le [OF size] assms by (simp add: uq_ok_def)
    moreover have "?a \<in> usable \<lparr>qe_unit = ?a, qe_size = int n\<rparr>" "is_free ?q ?a"
      using assms(2) by (simp_all add: usable_def is_free_def)
    ultimately show ?thesis using that [of ?q 0] by (auto intro!: bexI [of _ "?a"])
  qed
qed

section \<open>Looking for a unit\<close>

lemma scan_ok:
  "a \<le> s \<Longrightarrow> \<exists>a' found. scan_units a s units = Inr (a', found) \<and> a \<le> a' \<and> a' \<le> s
    \<and> (found \<longrightarrow> a' < s \<and> cu_flag (units a') = 0) \<and> (\<not> found \<longrightarrow> (\<forall>u \<in> {a..<s}. cu_flag (units u) \<noteq> 0))"
proof (induction a s units rule: scan_units.induct)
  case (1 a s units)
  consider (fin) "a = s" | (free) "a < s" "cu_flag (units a) = 0" | (used) "a < s" "cu_flag (units a) \<noteq> 0"
    using "1.prems" by linarith
  then show ?case
  proof cases
    case used
    then obtain a' found where IH: "scan_units (a + 1) s units = Inr (a', found)" "a + 1 \<le> a'" "a' \<le> s"
      "found \<longrightarrow> a' < s \<and> cu_flag (units a') = 0" "\<not> found \<longrightarrow> (\<forall>u \<in> {a + 1..<s}. cu_flag (units u) \<noteq> 0)"
      using "1.IH" by auto
    have "scan_units a s units = Inr (a', found)" using used IH(1) by (subst scan_units.simps) auto
    moreover have "{a..<s} = insert a {a + 1..<s}" using used(1) by auto
    ultimately show ?thesis using IH(2-5) used(2) by auto
  qed (auto simp: scan_units.simps)
qed

text \<open>
  How many entries lie between an entry and the next visit to another, and what a round through the
  entries finds.
\<close>

definition dist :: "nat \<Rightarrow> nat \<Rightarrow> nat \<Rightarrow> nat" where
  "dist l entrance c = (if c < entrance then entrance - c else l - c + entrance)"

lemma dist_next:
  assumes "c < l" "entrance < l" "c' = (if c + 1 = l then 0 else c + 1)"
  shows "c' = entrance \<longleftrightarrow> dist l entrance c = 1" "c' \<noteq> entrance \<Longrightarrow> dist l entrance c' = dist l entrance c - 1"
  using assms by (auto simp: dist_def split: if_splits)

lemma dist_bounds: "c < l \<Longrightarrow> entrance < l \<Longrightarrow> 0 < dist l entrance c \<and> dist l entrance c \<le> l"
  by (auto simp: dist_def)

lemma dist_inj: "c < l \<Longrightarrow> c' < l \<Longrightarrow> entrance < l \<Longrightarrow> dist l entrance c = dist l entrance c' \<Longrightarrow> c = c'"
  by (auto simp: dist_def split: if_splits)

definition moved :: "unit_queue \<Rightarrow> unit_queue \<Rightarrow> bool" where
  "moved q q' \<longleftrightarrow> (\<exists>c a. q' = q\<lparr>uq_curr := c, uq_avail := a\<rparr>)"

lemma moved_avail: "moved q (q\<lparr>uq_avail := a\<rparr>)"
  unfolding moved_def by (rule exI [of _ "uq_curr q"], rule exI [of _ a]) (cases q, simp)

lemma movedD:
  assumes "moved q q'"
  shows "uq_entries q' = uq_entries q" "uq_units q' = uq_units q" "uq_size q' = uq_size q" "uq_count q' = uq_count q"
    "uq_fresh q' = uq_fresh q" "is_free q' = is_free q" "keeps q q'"
  using assms by (auto simp: moved_def is_free_def keeps_def fun_eq_iff)

definition round_ok :: "nat \<Rightarrow> nat \<Rightarrow> unit_queue \<Rightarrow> unit_queue \<Rightarrow> nat option \<Rightarrow> bool" where
  "round_ok n entrance q q' r \<longleftrightarrow> moved q q' \<and> uq_ok n q' \<and> (case r of
     Some u \<Rightarrow> is_free q u \<and> (\<exists>e \<in> set (uq_entries q). u \<in> usable e)
   | None \<Rightarrow> uq_curr q' = entrance \<and> uq_avail q' = qe_unit (uq_entries q ! entrance)
       \<and> (\<forall>i < length (uq_entries q). dist (length (uq_entries q)) entrance i < dist (length (uq_entries q)) entrance (uq_curr q)
            \<or> i = uq_curr q \<and> uq_avail q = qe_unit (uq_entries q ! i) \<longrightarrow> (\<forall>u \<in> usable (uq_entries q ! i). \<not> is_free q u)))"

lemma avail_loop_ok:
  assumes "uq_ok n q" "2 \<le> n" "entrance < length (uq_entries q)" "dist (length (uq_entries q)) entrance (uq_curr q) \<le> fuel"
  shows "\<exists>q' r. avail_loop fuel entrance q = Inr (q', r) \<and> round_ok n entrance q q' r"
  using assms
proof (induction fuel arbitrary: q)
  case 0
  then show ?case using dist_bounds [OF uq_okD(1) [OF "0.prems"(1)] "0.prems"(3)] by simp
next
  case (Suc fuel q)
  let ?l = "length (uq_entries q)" and ?c = "uq_curr q" and ?e = "uq_entries q ! uq_curr q"
  let ?s = "qe_unit ?e + (n - 1)"
  have c: "?c < ?l" and size: "qe_size ?e = int n" using uq_okD [OF Suc.prems(1)] by auto
  have usable: "usable ?e = {qe_unit ?e..<?s}" using size Suc.prems(2) by (simp add: usable_def nat_diff_distrib')
  have s: "qe_unit ?e + nat (qe_size ?e - 1) = ?s" using size Suc.prems(2) by (simp add: nat_diff_distrib')
  have avail: "qe_unit ?e \<le> uq_avail q" "uq_avail q \<le> ?s" using Suc.prems(1) by (auto simp: uq_ok_def)
  from scan_ok [OF avail(2)] obtain a found where scan: "scan_units (uq_avail q) ?s (uq_units q) = Inr (a, found)"
    "uq_avail q \<le> a" "a \<le> ?s" "found \<longrightarrow> a < ?s \<and> cu_flag (uq_units q a) = 0"
    "\<not> found \<longrightarrow> (\<forall>u \<in> {uq_avail q..<?s}. cu_flag (uq_units q u) \<noteq> 0)" by blast
  have ok: "uq_ok n (q\<lparr>uq_avail := b\<rparr>)" if "qe_unit ?e \<le> b" "b \<le> ?s" for b
    using Suc.prems(1) that by (auto simp: uq_ok_def)
  have loop: "avail_loop (Suc fuel) entrance q = (let q = q\<lparr>uq_avail := a\<rparr> in
      if found then Inr (q, Some a)
      else if cu_flag (uq_units q (qe_unit ?e)) = 0 then Inr (q\<lparr>uq_avail := qe_unit ?e\<rparr>, Some (qe_unit ?e))
      else let c = (if ?c + 1 = ?l then 0 else ?c + 1); q = q\<lparr>uq_curr := c, uq_avail := qe_unit (uq_entries q ! c)\<rparr> in
        if c \<noteq> entrance then avail_loop fuel entrance q else Inr (q, None))"
    using c scan(1) s by (simp add: Let_def)
  have mem: "?e \<in> set (uq_entries q)" using c by simp
  consider (found) found | (first) "\<not> found" "is_free q (qe_unit ?e)" | (next_entry) "\<not> found" "\<not> is_free q (qe_unit ?e)"
    by blast
  then show ?case
  proof cases
    case found
    then have "avail_loop (Suc fuel) entrance q = Inr (q\<lparr>uq_avail := a\<rparr>, Some a)" using loop by simp
    moreover have "a \<in> usable ?e" "is_free q a" using found scan(2,4) avail usable by (auto simp: is_free_def)
    moreover have "moved q (q\<lparr>uq_avail := a\<rparr>)" by (rule moved_avail)
    moreover have "uq_ok n (q\<lparr>uq_avail := a\<rparr>)" using scan(2,3) avail by (intro ok) auto
    ultimately show ?thesis using mem by (auto simp: round_ok_def)
  next
    case first
    then have "avail_loop (Suc fuel) entrance q = Inr (q\<lparr>uq_avail := qe_unit ?e\<rparr>, Some (qe_unit ?e))"
      using loop by (simp add: is_free_def)
    moreover have "qe_unit ?e \<in> usable ?e" using usable Suc.prems(2) by simp
    moreover have "moved q (q\<lparr>uq_avail := qe_unit ?e\<rparr>)" by (rule moved_avail)
    moreover have "uq_ok n (q\<lparr>uq_avail := qe_unit ?e\<rparr>)" by (intro ok) auto
    ultimately show ?thesis using mem first(2) by (auto simp: round_ok_def)
  next
    case next_entry
    define c' where "c' = (if ?c + 1 = ?l then 0 else ?c + 1)"
    define q1 where "q1 = q\<lparr>uq_curr := c', uq_avail := qe_unit (uq_entries q ! c')\<rparr>"
    have c': "c' < ?l" using c by (auto simp: c'_def)
    have q1: "uq_ok n q1" "moved q q1" using Suc.prems(1) c' by (auto simp: uq_ok_def q1_def moved_def)
    have step: "avail_loop (Suc fuel) entrance q = (if c' \<noteq> entrance then avail_loop fuel entrance q1 else Inr (q1, None))"
      using loop next_entry by (simp add: is_free_def c'_def q1_def Let_def)
    have here: "\<not> is_free q u" if "uq_avail q = qe_unit ?e" "u \<in> usable ?e" for u
      using scan(5) next_entry(1) that usable by (simp add: is_free_def)
    show ?thesis
    proof (cases "c' = entrance")
      case True
      then have one: "dist ?l entrance ?c = 1" using dist_next(1) [OF c Suc.prems(3) c'_def] by simp
      have "dist ?l entrance i < dist ?l entrance ?c \<longrightarrow> False" if "i < ?l" for i
        using dist_bounds [OF that Suc.prems(3)] one by simp
      then have "round_ok n entrance q q1 None"
        using q1 True here by (auto simp: round_ok_def q1_def)
      then show ?thesis using step True by simp
    next
      case False
      have d: "dist ?l entrance c' = dist ?l entrance ?c - 1" using dist_next(2) [OF c Suc.prems(3) c'_def] False by simp
      have "\<exists>q' r. avail_loop fuel entrance q1 = Inr (q', r) \<and> round_ok n entrance q1 q' r"
        using Suc.prems q1(1) d by (intro Suc.IH) (simp_all add: q1_def)
      then obtain q' r where IH: "avail_loop fuel entrance q1 = Inr (q', r)" "round_ok n entrance q1 q' r" by blast
      have same: "uq_entries q1 = uq_entries q" "is_free q1 = is_free q" by (simp_all add: q1_def is_free_def fun_eq_iff)
      have "moved q q'" using IH(2) by (auto simp: round_ok_def moved_def q1_def)
      have "round_ok n entrance q q' r"
      proof (cases r)
        case None
        have "\<not> is_free q u" if "i < ?l" "dist ?l entrance i < dist ?l entrance ?c \<or> i = ?c \<and> uq_avail q = qe_unit (uq_entries q ! i)"
          "u \<in> usable (uq_entries q ! i)" for i u
        proof (cases "i = ?c \<and> uq_avail q = qe_unit (uq_entries q ! i)")
          case True
          then show ?thesis using here that(3) by simp
        next
          case False
          then have "dist ?l entrance i < dist ?l entrance c' \<or> i = c'"
            using that(1,2) d dist_inj [OF that(1) c' Suc.prems(3)] by linarith
          then have "dist ?l entrance i < dist ?l entrance (uq_curr q1) \<or> i = uq_curr q1 \<and> uq_avail q1 = qe_unit (uq_entries q1 ! i)"
            by (auto simp: q1_def)
          moreover have "\<forall>i < length (uq_entries q1). dist (length (uq_entries q1)) entrance i
              < dist (length (uq_entries q1)) entrance (uq_curr q1)
              \<or> i = uq_curr q1 \<and> uq_avail q1 = qe_unit (uq_entries q1 ! i)
              \<longrightarrow> (\<forall>u \<in> usable (uq_entries q1 ! i). \<not> is_free q1 u)"
            using IH(2) None by (simp add: round_ok_def)
          moreover have "uq_entries q1 = uq_entries q" by (simp add: q1_def)
          ultimately have "\<not> is_free q1 u" using that(1,3) by metis
          then show ?thesis by (simp add: is_free_def q1_def)
        qed
        then have "\<forall>i < ?l. dist ?l entrance i < dist ?l entrance ?c \<or> i = ?c \<and> uq_avail q = qe_unit (uq_entries q ! i)
            \<longrightarrow> (\<forall>u \<in> usable (uq_entries q ! i). \<not> is_free q u)" by blast
        moreover have "uq_ok n q'" "uq_curr q' = entrance" "uq_avail q' = qe_unit (uq_entries q ! entrance)"
          using IH(2) None by (simp_all add: round_ok_def same)
        ultimately show ?thesis using \<open>moved q q'\<close> None unfolding round_ok_def by simp
      next
        case (Some u)
        then have "uq_ok n q'" "is_free q u" "\<exists>e \<in> set (uq_entries q). u \<in> usable e"
          using IH(2) by (simp_all add: round_ok_def same)
        then show ?thesis using \<open>moved q q'\<close> Some by (simp add: round_ok_def)
      qed
      then show ?thesis using step False IH(1) by auto
    qed
  qed
qed

section \<open>Calls\<close>

definition has_free :: "unit_queue \<Rightarrow> bool" where
  "has_free q \<longleftrightarrow> (\<exists>e \<in> set (uq_entries q). \<exists>u \<in> usable e. is_free q u)"

definition at_start :: "unit_queue \<Rightarrow> bool" where
  "at_start q \<longleftrightarrow> uq_avail q = qe_unit (uq_entries q ! uq_curr q)"

lemma usable_fresh: "uq_ok n q \<Longrightarrow> e \<in> set (uq_entries q) \<Longrightarrow> u \<in> usable e \<Longrightarrow> u < uq_fresh q"
  by (force simp: uq_ok_def usable_def)

lemma keeps_has_free:
  assumes "keeps q q'" "uq_ok n q" "has_free q"
  shows "has_free q'"
proof -
  obtain e u where u: "e \<in> set (uq_entries q)" "u \<in> usable e" "is_free q u" using assms(3) by (auto simp: has_free_def)
  then have "u < uq_fresh q" using usable_fresh assms(2) by blast
  then have "is_free q' u" using assms(1) u(3) by (simp add: keeps_def is_free_def)
  moreover have "e \<in> set (uq_entries q')" using assms(1) u(1) by (auto simp: keeps_def)
  ultimately show ?thesis using u(2) by (auto simp: has_free_def)
qed

lemma keeps_at_start:
  assumes "keeps q q'" "uq_ok n q" "uq_curr q' = uq_curr q" "uq_avail q' = uq_avail q"
  shows "at_start q' \<longleftrightarrow> at_start q"
  using assms uq_okD(1) [OF assms(2)] by (auto simp: keeps_def at_start_def nth_append)

lemma round_all:
  assumes "uq_ok n q" "round_ok n (uq_curr q) q q' None" "at_start q"
  shows "\<not> has_free q"
proof -
  let ?l = "length (uq_entries q)" and ?c = "uq_curr q"
  have c: "?c < ?l" by (rule uq_okD(1) [OF assms(1)])
  have "\<not> is_free q u" if "i < ?l" "u \<in> usable (uq_entries q ! i)" for i u
  proof -
    have "dist ?l ?c i < dist ?l ?c ?c \<or> i = ?c"
      using c that(1) dist_bounds [OF that(1) c] dist_inj [OF that(1) c c] by (cases "i = ?c") (auto simp: dist_def)
    then show ?thesis using assms(2,3) that unfolding round_ok_def at_start_def by auto
  qed
  then show ?thesis unfolding has_free_def by (metis in_set_conv_nth)
qed

lemma get_ok:
  assumes "uq_ok n q" "10 \<le> n"
  shows "\<exists>q' r. getNextAvailUnit q = Inr (q', r) \<and> uq_ok n q' \<and> keeps q q' \<and> (case r of
      Some u \<Rightarrow> is_free q' u \<and> (\<exists>e \<in> set (uq_entries q'). u \<in> usable e)
    | None \<Rightarrow> has_free q' \<and> at_start q' \<and> \<not> (has_free q \<and> at_start q))"
proof -
  have "\<exists>q1 r. (if uq_count q * 10 > uq_size q * 9 then uq_increase q else Inr (q, 0)) = Inr (q1, r)
      \<and> uq_ok n q1 \<and> keeps q q1 \<and> uq_count q1 < uq_size q1 \<and> uq_curr q1 = uq_curr q \<and> uq_avail q1 = uq_avail q"
  proof (cases "uq_count q * 10 > uq_size q * 9")
    case True
    then show ?thesis using uq_increase_ok [OF assms] by (metis (no_types, lifting))
  next
    case False
    have "0 < uq_size q" using assms uq_okD(3) [OF assms(1)] by (simp add: uq_ok_def)
    then have "uq_count q < uq_size q" using False by linarith
    then show ?thesis using False assms(1) keeps_refl by simp
  qed
  then obtain q1 r1 where q1: "(if uq_count q * 10 > uq_size q * 9 then uq_increase q else Inr (q, 0)) = Inr (q1, r1)"
    "uq_ok n q1" "keeps q q1" "uq_count q1 < uq_size q1" "uq_curr q1 = uq_curr q" "uq_avail q1 = uq_avail q" by blast
  have c: "uq_curr q1 < length (uq_entries q1)" by (rule uq_okD(1) [OF q1(2)])
  have "\<exists>q' r. avail_loop (length (uq_entries q1)) (uq_curr q1) q1 = Inr (q', r) \<and> round_ok n (uq_curr q1) q1 q' r"
    using dist_bounds [OF c c] assms(2) by (intro avail_loop_ok [OF q1(2) _ c]) simp_all
  then obtain q2 r2 where q2: "avail_loop (length (uq_entries q1)) (uq_curr q1) q1 = Inr (q2, r2)"
    "round_ok n (uq_curr q1) q1 q2 r2" by blast
  have moved: "moved q1 q2" and ok2: "uq_ok n q2" using q2(2) by (simp_all add: round_ok_def)
  have keeps2: "keeps q q2" using keeps_trans q1(3) movedD(7) [OF moved] by blast
  have get: "getNextAvailUnit q = (case r2 of Some u \<Rightarrow> Inr (q2, Some u)
      | None \<Rightarrow> bind_res (uq_increase q2) (\<lambda>(q, _). Inr (q, None)))"
    using q1(1,4) q2(1) by (simp add: getNextAvailUnit_def cong del: if_weak_cong)
  show ?thesis
  proof (cases r2)
    case (Some u)
    then have "is_free q2 u \<and> (\<exists>e \<in> set (uq_entries q2). u \<in> usable e)"
      using q2(2) movedD [OF moved] by (simp add: round_ok_def)
    then show ?thesis using get Some ok2 keeps2 by simp
  next
    case None
    obtain q3 r3 where q3: "uq_increase q2 = Inr (q3, r3)" "uq_ok n q3" "keeps q2 q3" "uq_curr q3 = uq_curr q2"
      "uq_avail q3 = uq_avail q2" "\<exists>e \<in> set (uq_entries q3). \<exists>u \<in> usable e. is_free q3 u"
      using uq_increase_ok [OF ok2 assms(2)] by metis
    have "at_start q2" using q2(2) None movedD [OF moved] by (simp add: round_ok_def at_start_def)
    then have "at_start q3" using keeps_at_start [OF q3(3) ok2 q3(4,5)] by simp
    moreover have "\<not> (has_free q \<and> at_start q)"
      using round_all [OF q1(2)] q2(2) None keeps_at_start [OF q1(3) assms(1) q1(5,6)] keeps_has_free [OF q1(3) assms(1)] by blast
    ultimately show ?thesis using get None q3(1,2,6) keeps_trans [OF keeps2 q3(3)] by (simp add: has_free_def)
  qed
qed

text \<open>
  The states that a queue with entries of at least ten units reaches, when between the calls the
  buffers write the units and the count as they like. The receiving queue makes entries of 32.
\<close>

inductive uq_reach :: "nat \<Rightarrow> unit_queue \<Rightarrow> bool" for n where
  init: "10 \<le> n \<Longrightarrow> uq_reach n (uq_init (int n) mss version (UnitQueue_new storage fresh))"
| call: "uq_reach n q \<Longrightarrow> getNextAvailUnit q = Inr (q', r) \<Longrightarrow> uq_reach n q'"
| buffers: "uq_reach n q \<Longrightarrow> uq_reach n (q\<lparr>uq_units := units, uq_count := count\<rparr>)"

lemma uq_reach_ok: "uq_reach n q \<Longrightarrow> uq_ok n q \<and> 10 \<le> n"
proof (induction rule: uq_reach.induct)
  case (init mss version storage fresh)
  then show ?case using uq_ok_init by simp
next
  case (call q q' r)
  then show ?case using get_ok [of n q] by auto
next
  case (buffers q count units)
  have "uq_ok n (q\<lparr>uq_units := units, uq_count := count\<rparr>) = uq_ok n q" by (simp add: uq_ok_def)
  then show ?case using buffers.IH by simp
qed

text \<open>
  What the buffers do to the units between a call that gives no unit and the next one. Packets take only units that a call
  has given, so that no free unit is taken; any unit may be freed, and the count may be anything.
\<close>

definition only_freed :: "unit_queue \<Rightarrow> unit_queue \<Rightarrow> bool" where
  "only_freed q q2 \<longleftrightarrow> (\<forall>u. is_free q u \<longrightarrow> is_free q2 u)
     \<and> (\<exists>units count. q2 = q\<lparr>uq_units := units, uq_count := count\<rparr>)"

lemma only_freed_ok:
  assumes "only_freed q q2" "uq_ok n q" "has_free q" "at_start q"
  shows "uq_ok n q2" "has_free q2" "at_start q2"
proof -
  obtain units count where q2: "q2 = q\<lparr>uq_units := units, uq_count := count\<rparr>" using assms(1) by (auto simp: only_freed_def)
  show "uq_ok n q2" "at_start q2" using assms(2,4) by (simp_all add: q2 uq_ok_def at_start_def)
  have "uq_entries q2 = uq_entries q" by (simp add: q2)
  then show "has_free q2" using assms(1,3) unfolding has_free_def only_freed_def by metis
qed

text \<open>C28:
  in every reachable state \<open>getNextAvailUnit\<close> returns, and changes no unit there was. The unit it gives
  is free and not the last of its entry. When it gives none, the next call gives one, whatever units
  the buffers free and whatever they write to the count between the two; a buffer takes no free unit between
  them, as it takes only what a call has given.
\<close>

theorem every_second_call_gives_a_unit:
  assumes "uq_reach n q"
  shows "\<exists>q' r. getNextAvailUnit q = Inr (q', r) \<and> (\<forall>u < uq_fresh q. uq_units q' u = uq_units q u)
    \<and> (case r of
        Some u \<Rightarrow> cu_flag (uq_units q' u) = 0 \<and> (\<exists>e \<in> set (uq_entries q'). qe_unit e \<le> u \<and> u < qe_unit e + (n - 1))
      | None \<Rightarrow> \<forall>q2. only_freed q' q2 \<longrightarrow> (\<exists>q'' u. getNextAvailUnit q2 = Inr (q'', Some u)))"
proof -
  note ok = uq_reach_ok [OF assms]
  obtain q' r where q': "getNextAvailUnit q = Inr (q', r)" "uq_ok n q'" "keeps q q'" "case r of
      Some u \<Rightarrow> is_free q' u \<and> (\<exists>e \<in> set (uq_entries q'). u \<in> usable e)
    | None \<Rightarrow> has_free q' \<and> at_start q' \<and> \<not> (has_free q \<and> at_start q)" using get_ok ok by blast
  have old: "\<forall>u < uq_fresh q. uq_units q' u = uq_units q u" using q'(3) by (simp add: keeps_def)
  show ?thesis
  proof (cases r)
    case None
    have "\<exists>q'' u. getNextAvailUnit q2 = Inr (q'', Some u)" if "only_freed q' q2" for q2
    proof -
      have q2: "uq_ok n q2" "has_free q2" "at_start q2" using only_freed_ok [OF that q'(2)] q'(4) None by simp_all
      obtain q'' r'' where "getNextAvailUnit q2 = Inr (q'', r'')"
        "case r'' of Some u \<Rightarrow> True | None \<Rightarrow> \<not> (has_free q2 \<and> at_start q2)"
        using get_ok [OF q2(1)] ok by (fastforce split: option.splits)
      then show ?thesis using q2 by (cases r'') auto
    qed
    then show ?thesis using q'(1) None old by auto
  next
    case (Some u)
    then obtain e where e: "e \<in> set (uq_entries q')" "u \<in> usable e" using q'(4) by auto
    then have "qe_unit e \<le> u \<and> u < qe_unit e + (n - 1)" using q'(2) by (auto simp: uq_ok_def usable_def nat_diff_distrib')
    then show ?thesis using q'(1,4) old e(1) Some by (auto simp: is_free_def)
  qed
qed

text \<open>A queue of ten units that are all in use, although the count is 0: the first call gives none.\<close>

definition ex_units :: unit_queue where
  "ex_units = (uq_init 10 1456 4 (UnitQueue_new (\<lambda>_. \<lparr>cu_packet = Packet_new 0 0 0 0 (\<lambda>_. 0) 0, cu_flag = 1\<rparr>) 0))
     \<lparr>uq_units := (\<lambda>_. \<lparr>cu_packet = Packet_new 0 0 0 0 (\<lambda>_. 0) 0, cu_flag = 1\<rparr>), uq_count := 0\<rparr>"

lemma every_second_call_gives_a_unit_witness:
  "\<exists>q' q'' u. getNextAvailUnit ex_units = Inr (q', None) \<and>
    getNextAvailUnit (q'\<lparr>uq_count := 10\<rparr>) = Inr (q'', Some u)"
proof -
  have "uq_reach 10 ex_units"
    unfolding ex_units_def by (rule uq_reach.buffers) (use uq_reach.init [of 10 1456 4] in simp)
  from every_second_call_gives_a_unit [OF this] obtain q' r where
    r: "getNextAvailUnit ex_units = Inr (q', r)" "r = None \<longrightarrow> (\<forall>q2. only_freed q' q2 \<longrightarrow> (\<exists>q'' u. getNextAvailUnit q2 = Inr (q'', Some u)))"
    by (auto split: option.splits)
  have "(case getNextAvailUnit ex_units of Inr p \<Rightarrow> snd p = None | _ \<Rightarrow> False)"
    by (simp add: ex_units_def getNextAvailUnit_def uq_init_def new_entry_def UnitQueue_new_def Let_def scan_units.simps
        uq_increase_def real_count_def units_of_def upt_rec eval_nat_numeral)
  then have none: "r = None" using r(1) by simp
  have "only_freed q' (q'\<lparr>uq_count := 10\<rparr>)"
    unfolding only_freed_def by (intro conjI exI [of _ "uq_units q'"] exI [of _ 10]) (simp_all add: is_free_def)
  then show ?thesis using r none by blast
qed

text \<open>
  A call can miss the free units in front of the place where it starts, when there is one entry: the
  round ends where it began. Here unit 1 is free and unit 0 and all from the third on are not.
\<close>

lemma free_unit_missed:
  "let q0 = uq_init 5 1456 4 (UnitQueue_new (\<lambda>_. \<lparr>cu_packet = Packet_new 0 0 0 0 (\<lambda>_. 0) 0, cu_flag = 1\<rparr>) 0);
       q = q0\<lparr>uq_avail := 2, uq_units := (\<lambda>u. (uq_units q0 u)\<lparr>cu_flag := (if u = 1 then 0 else 1)\<rparr>), uq_count := 4\<rparr> in
   (case getNextAvailUnit q of Inr (_, r) \<Rightarrow> r = None | _ \<Rightarrow> False)"
  by (simp add: getNextAvailUnit_def uq_init_def new_entry_def UnitQueue_new_def Let_def scan_units.simps uq_increase_def
      real_count_def units_of_def upt_rec eval_nat_numeral)

end
