(* ===== verification/UdtRcvUListProperties.thy ===== *)
theory UdtRcvUListProperties
  imports UdtRcvUList
begin

text \<open>
  The receiving list is a list of sockets without repetition, and the table a map from ids to the
  sockets inserted under them, the newest first.
\<close>

section \<open>Chains of nodes\<close>

text \<open>The nodes \<open>xs\<close> are linked from behind \<open>p\<close> to before \<open>q\<close>.\<close>

fun links :: "(nat \<Rightarrow> nat option) \<Rightarrow> (nat \<Rightarrow> nat option) \<Rightarrow> nat option \<Rightarrow> nat list \<Rightarrow> nat option \<Rightarrow> bool" where
  "links pv nx p [] q \<longleftrightarrow> True"
| "links pv nx p (x # xs) q \<longleftrightarrow> pv x = p \<and> nx x = (if xs = [] then q else Some (hd xs)) \<and> links pv nx (Some x) xs q"

lemma links_append:
  "links pv nx p (xs @ ys) q \<longleftrightarrow> links pv nx p xs (if ys = [] then q else Some (hd ys))
    \<and> links pv nx (if xs = [] then p else Some (last xs)) ys q"
  by (induction xs arbitrary: p) auto

lemma links_cong:
  "(\<And>x. x \<in> set xs \<Longrightarrow> pv x = pv' x \<and> nx x = nx' x) \<Longrightarrow> links pv nx p xs q \<longleftrightarrow> links pv' nx' p xs q"
  by (induction xs arbitrary: p) auto

lemma links_other [simp]:
  "n \<notin> set xs \<Longrightarrow> links (pv(n := v)) nx p xs q = links pv nx p xs q"
  "n \<notin> set xs \<Longrightarrow> links pv (nx(n := v)) p xs q = links pv nx p xs q"
  by (induction xs arbitrary: p) auto

lemma links_last:
  assumes "links pv nx p (xs @ [x]) q" "distinct (xs @ [x])"
  shows "links pv (nx(x := q')) p (xs @ [x]) q'"
  using assms by (simp add: links_append)

lemma links_first:
  assumes "links pv nx p (x # xs) q" "distinct (x # xs)"
  shows "links (pv(x := p')) nx p' (x # xs) q"
  using assms by simp

definition ru_list :: "rcv_ulist \<Rightarrow> nat list \<Rightarrow> bool" where
  "ru_list l xs \<longleftrightarrow> distinct xs \<and> ru_first l = (if xs = [] then None else Some (hd xs))
    \<and> ru_last l = (if xs = [] then None else Some (last xs))
    \<and> links (ru_prev l) (ru_next l) None xs None \<and> (\<forall>n. ru_on l n \<longleftrightarrow> n \<in> set xs)"

lemma ru_list_new: "ru_list (RcvUList_new t p q) []"
  by (simp add: ru_list_def RcvUList_new_def)

lemma append_node_ok:
  assumes "distinct xs" "xs \<noteq> []" "n \<notin> set xs" "ru_first l = Some (hd xs)" "ru_last l = Some (last xs)"
    "links (ru_prev l) (ru_next l) None xs None" "\<And>m. ru_on l m \<longleftrightarrow> m \<in> set (xs @ [n])"
  obtains l' where "append_node n l = Inr l'" "ru_list l' (xs @ [n])" "ru_time l' = ru_time l"
proof -
  obtain ys y where xs: "xs = ys @ [y]" using assms(2) by (metis rev_exhaust)
  have "links (ru_prev l) ((ru_next l)(y := Some n)) None xs (Some n)"
    using links_last [of "ru_prev l" "ru_next l" None ys y None "Some n"] assms(1,6) xs by simp
  then have "links ((ru_prev l)(n := Some y)) ((ru_next l)(y := Some n, n := None)) None (xs @ [n]) None"
    using assms(3) xs by (simp add: links_append)
  moreover have "(ru_next l)(y := Some n, n := None) = (ru_next l)(n := None, y := Some n)"
    using assms(3) xs by (intro fun_upd_twist) auto
  ultimately show ?thesis using that assms by (simp add: append_node_def set_ru_next_def ru_list_def xs hd_append)
qed

lemma ru_insert_ok:
  assumes "ru_list l xs" "n \<notin> set xs"
  obtains l' where "ru_insert now n l = Inr l'" "ru_list l' (xs @ [n])" "ru_time l' = (ru_time l)(n := now)"
proof (cases "xs = []")
  case True
  then show ?thesis using that assms by (simp add: ru_insert_def ru_list_def)
next
  case False
  let ?l = "l\<lparr>ru_time := (ru_time l)(n := now), ru_on := (ru_on l)(n := True)\<rparr>"
  have "ru_on ?l m \<longleftrightarrow> m \<in> set (xs @ [n])" for m using assms(1) by (simp add: ru_list_def)
  then obtain l' where "append_node n ?l = Inr l'" "ru_list l' (xs @ [n])" "ru_time l' = ru_time ?l"
    using append_node_ok [of xs n ?l] assms False by (simp add: ru_list_def del: fun_upd_apply) blast
  then show ?thesis using that assms(1) False by (simp add: ru_insert_def ru_list_def)
qed

text \<open>Taking a node out of the chain, as \<open>remove\<close> and \<open>update\<close> do.\<close>

lemma links_remove:
  assumes "links pv nx p (ys @ n # zs) q" "distinct (ys @ n # zs)"
  defines "nx' \<equiv> (if ys = [] then nx else nx(last ys := nx n))" and "pv' \<equiv> (if zs = [] then pv else pv(hd zs := pv n))"
  shows "links pv' nx' p (ys @ zs) q"
proof -
  have n: "pv n = (if ys = [] then p else Some (last ys))" "nx n = (if zs = [] then q else Some (hd zs))"
    "links pv nx p ys (Some n)" "links pv nx (Some n) zs q"
    using assms(1) by (simp_all add: links_append)
  have "links pv (if ys = [] then nx else nx(last ys := nx n)) p ys (nx n)"
  proof (cases ys rule: rev_exhaust)
    case (snoc us u)
    then show ?thesis using links_last [of pv nx p us u "Some n" "nx n"] n(3) assms(2) by simp
  qed simp
  moreover have "links (if zs = [] then pv else pv(hd zs := pv n)) nx (pv n) zs q"
    using n(4) assms(2) by (cases zs) auto
  moreover have "zs \<noteq> [] \<Longrightarrow> hd zs \<notin> set ys" "ys \<noteq> [] \<Longrightarrow> last ys \<notin> set zs"
    using assms(2) by (auto dest: hd_in_set last_in_set)
  ultimately show ?thesis using n(1,2) by (auto simp: links_append nx'_def pv'_def)
qed

lemma split_ends:
  assumes "ru_list l xs" "n \<in> set xs"
  obtains ys zs where "xs = ys @ n # zs" "n \<notin> set ys" "n \<notin> set zs" "remove1 n xs = ys @ zs"
    "ru_prev l n = (if ys = [] then None else Some (last ys))" "ru_next l n = (if zs = [] then None else Some (hd zs))"
    "distinct (ys @ n # zs)" "links (ru_prev l) (ru_next l) None (ys @ n # zs) None"
proof -
  obtain ys zs where xs: "xs = ys @ n # zs" "n \<notin> set ys" using split_list_first [OF assms(2)] by blast
  then show ?thesis using assms(1) that [of ys zs] by (auto simp: ru_list_def links_append remove1_append)
qed

lemma ru_remove_ok:
  assumes "ru_list l xs"
  obtains l' where "ru_remove n l = Inr l'" "ru_list l' (remove1 n xs)" "ru_time l' = ru_time l"
proof (cases "n \<in> set xs")
  case False
  then have "remove1 n xs = xs" by (simp add: remove1_idem)
  then show ?thesis using that [of l] False assms by (simp add: ru_remove_def ru_list_def)
next
  case True
  obtain ys zs where s: "xs = ys @ n # zs" "n \<notin> set ys" "n \<notin> set zs" "remove1 n xs = ys @ zs"
    "ru_prev l n = (if ys = [] then None else Some (last ys))" "ru_next l n = (if zs = [] then None else Some (hd zs))"
    "distinct (ys @ n # zs)" "links (ru_prev l) (ru_next l) None (ys @ n # zs) None"
    using split_ends [OF assms True] by metis
  have on: "ru_on l m \<longleftrightarrow> m \<in> set xs" for m using assms by (simp add: ru_list_def)
  have ends: "ru_first l = Some (hd xs)" "ru_last l = Some (last xs)" using assms s(1) by (simp_all add: ru_list_def)
  have neq: "ys \<noteq> [] \<Longrightarrow> last ys \<noteq> n" "zs \<noteq> [] \<Longrightarrow> hd zs \<noteq> n" using s(2,3) last_in_set [of ys] hd_in_set [of zs] by auto
  let ?nx = "if ys = [] then ru_next l else (ru_next l)(last ys := ru_next l n)"
  let ?pv = "if zs = [] then ru_prev l else (ru_prev l)(hd zs := ru_prev l n)"
  let ?l = "l\<lparr>ru_first := (if ys = [] then ru_next l n else ru_first l), ru_last := (if zs = [] then ru_prev l n else ru_last l),
    ru_next := ?nx(n := None), ru_prev := ?pv(n := None), ru_on := (ru_on l)(n := False)\<rparr>"
  have "ru_remove n l = Inr ?l"
    using on s(1,5,6) ends neq
    by (cases ys; cases zs)
      (simp_all add: ru_remove_def set_ru_next_def set_ru_prev_def Let_def)
  moreover have "links ?pv ?nx None (ys @ zs) None" by (rule links_remove [OF s(8,7)])
  then have "ru_list ?l (ys @ zs)"
    using s ends on by (auto simp: ru_list_def hd_append last_append)
  ultimately show ?thesis using that s(4) by simp
qed

lemma ru_update_ok:
  assumes "ru_list l xs" "n \<in> set xs"
  obtains l' where "ru_update now n l = Inr l'" "ru_list l' (remove1 n xs @ [n])" "ru_time l' = (ru_time l)(n := now)"
proof -
  obtain ys zs where s: "xs = ys @ n # zs" "n \<notin> set ys" "n \<notin> set zs" "remove1 n xs = ys @ zs"
    "ru_prev l n = (if ys = [] then None else Some (last ys))" "ru_next l n = (if zs = [] then None else Some (hd zs))"
    "distinct (ys @ n # zs)" "links (ru_prev l) (ru_next l) None (ys @ n # zs) None"
    using split_ends [OF assms] by metis
  have on: "ru_on l m \<longleftrightarrow> m \<in> set xs" for m using assms by (simp add: ru_list_def)
  have ends: "ru_first l = Some (hd xs)" "ru_last l = Some (last xs)" using assms(1) s(1) by (simp_all add: ru_list_def)
  show ?thesis
  proof (cases "zs = []")
    case True
    then have "ru_update now n l = Inr (l\<lparr>ru_time := (ru_time l)(n := now)\<rparr>)" using on s(1,6) by (simp add: ru_update_def)
    then show ?thesis using that True s(1,4) assms(1) by (simp add: ru_list_def)
  next
    case False
    have neq: "ys \<noteq> [] \<Longrightarrow> last ys \<noteq> n" "hd zs \<noteq> n" using s(2,3) last_in_set [of ys] hd_in_set [OF False] by auto
    let ?nx = "if ys = [] then ru_next l else (ru_next l)(last ys := ru_next l n)"
    let ?pv = "(ru_prev l)(hd zs := ru_prev l n)"
    let ?l = "if ys = [] then l\<lparr>ru_time := (ru_time l)(n := now), ru_first := Some (hd zs), ru_prev := ?pv\<rparr>
      else l\<lparr>ru_time := (ru_time l)(n := now), ru_next := ?nx, ru_prev := ?pv\<rparr>"
    have "ru_update now n l = append_node n ?l"
      using False on s(1,5,6) ends neq
      by (cases ys) (simp_all add: ru_update_def set_ru_next_def set_ru_prev_def Let_def)
    moreover have "links ?pv ?nx None (ys @ zs) None" using links_remove [OF s(8,7)] False by simp
    then obtain l' where "append_node n ?l = Inr l'" "ru_list l' ((ys @ zs) @ [n])" "ru_time l' = ru_time ?l"
      using append_node_ok [of "ys @ zs" n ?l] False s(1,7) ends on by (cases "ys = []") (auto simp: hd_append simp del: append_assoc)
    ultimately show ?thesis using that s(4) by simp
  qed
qed

lemma ru_list_head: "ru_list l xs \<Longrightarrow> ru_first l = (case xs of [] \<Rightarrow> None | x # _ \<Rightarrow> Some x)"
  by (cases xs) (simp_all add: ru_list_def)

section \<open>The table of ids\<close>

text \<open>The sockets under an id, the newest first.\<close>

definition hash_stack :: "chash \<Rightarrow> int \<Rightarrow> nat list" where
  "hash_stack h sid = map snd (filter (\<lambda>b. fst b = sid) (ch_bucket h (sid smod ch_size h)))"

lemma find_id_stack: "find_id sid bs = (case filter (\<lambda>b. fst b = sid) bs of [] \<Rightarrow> None | b # _ \<Rightarrow> Some (snd b))"
  by (induction sid bs rule: find_id.induct) auto

lemma remove_id_stack:
  "filter (\<lambda>b. fst b = k) (remove_id sid bs) = (if k = sid then tl (filter (\<lambda>b. fst b = k) bs) else filter (\<lambda>b. fst b = k) bs)"
  by (induction sid bs rule: remove_id.induct) auto

lemma hash_pos_ok: "0 < ch_size h \<Longrightarrow> 0 \<le> sid \<Longrightarrow> hash_pos sid h = Inr (sid smod ch_size h)"
  by (cases "sid = 0") (simp_all add: hash_pos_def Let_def signed_modulo_int_def)

lemma hash_lookup_ok:
  "0 < ch_size h \<Longrightarrow> 0 \<le> sid \<Longrightarrow> hash_lookup sid h = Inr (case hash_stack h sid of [] \<Rightarrow> None | u # _ \<Rightarrow> Some u)"
  by (simp add: hash_lookup_def hash_pos_ok hash_stack_def find_id_stack split: list.split)

lemma hash_insert_ok:
  assumes "0 < ch_size h" "0 \<le> sid"
  obtains h' where "hash_insert sid u h = Inr h'" "ch_size h' = ch_size h"
    "hash_stack h' = (hash_stack h)(sid := u # hash_stack h sid)"
  using assms that [of "h\<lparr>ch_bucket := (ch_bucket h)(sid smod ch_size h := (sid, u) # ch_bucket h (sid smod ch_size h))\<rparr>"]
  by (auto simp: hash_insert_def hash_pos_ok hash_stack_def fun_eq_iff)

lemma hash_remove_ok:
  assumes "0 < ch_size h" "0 \<le> sid"
  obtains h' where "hash_remove sid h = Inr h'" "ch_size h' = ch_size h"
    "hash_stack h' = (hash_stack h)(sid := tl (hash_stack h sid))"
  using assms that [of "h\<lparr>ch_bucket := (ch_bucket h)(sid smod ch_size h := remove_id sid (ch_bucket h (sid smod ch_size h)))\<rparr>"]
  by (auto simp: hash_remove_def hash_pos_ok hash_stack_def fun_eq_iff remove_id_stack map_tl)

end
