(* ===== verification/UdtRcvQueueProperties.thy ===== *)
theory UdtRcvQueueProperties
  imports UdtRcvQueue UdtUnitQueueProperties UdtRcvUListProperties
begin

text \<open>
  The receiving thread: every round ends, after it every socket on the list was taken up, got a packet
  or had its timers checked within a tenth of a second, and the table finds exactly the sockets on the list.
\<close>

section \<open>The invariant\<close>

definition table_ok :: "(nat \<Rightarrow> sock) \<Rightarrow> nat list \<Rightarrow> chash \<Rightarrow> bool" where
  "table_ok sock xs h \<longleftrightarrow> 0 < ch_size h
    \<and> (\<forall>sid \<ge> 0. length (hash_stack h sid) \<le> 1 \<and> set (hash_stack h sid) = {u \<in> set xs. sk_id (sock u) = sid})"

definition times_ok :: "(nat \<Rightarrow> 64 word) \<Rightarrow> nat \<Rightarrow> nat list \<Rightarrow> rcv_ulist \<Rightarrow> bool" where
  "times_ok clk t xs l \<longleftrightarrow> sorted (map (ru_time l) xs) \<and> (\<forall>u \<in> set xs. ru_time l u \<le> clk t)"

definition rq_ok :: "nat \<Rightarrow> (nat \<Rightarrow> 64 word) \<Rightarrow> (nat \<Rightarrow> sock) \<Rightarrow> nat list \<Rightarrow> 'c rcv_queue \<Rightarrow> bool" where
  "rq_ok n clk sock xs q \<longleftrightarrow> ru_list (rq_ulist q) xs \<and> times_ok clk (rq_ticks q) xs (rq_ulist q)
    \<and> table_ok sock xs (rq_hash q) \<and> uq_ok n (ud_units (rq_udt q))"

definition announced_once :: "'c rcv_queue \<Rightarrow> bool" where
  "announced_once q \<longleftrightarrow> distinct (ud_new (rq_udt q)) \<and> (\<forall>u \<in> set (ud_new (rq_udt q)). \<not> ru_on (rq_ulist q) u)"

text \<open>Sockets have ids of their own, above 0.\<close>

definition ids_ok :: "(nat \<Rightarrow> sock) \<Rightarrow> bool" where
  "ids_ok sock \<longleftrightarrow> (\<forall>u. 0 < sk_id (sock u)) \<and> inj (\<lambda>u. sk_id (sock u))"

lemma table_lookup:
  assumes "table_ok sock xs h" "0 \<le> sid"
  shows "hash_lookup sid h = Inr (case hash_stack h sid of [] \<Rightarrow> None | u # _ \<Rightarrow> Some u)"
  using assms by (simp add: table_ok_def hash_lookup_ok)

lemma table_stack:
  assumes "table_ok sock xs h" "ids_ok sock"
  shows "hash_stack h (sk_id (sock u)) = (if u \<in> set xs then [u] else [])"
proof -
  have "0 \<le> sk_id (sock u)" using assms(2) by (simp add: ids_ok_def less_imp_le)
  then have stack: "length (hash_stack h (sk_id (sock u))) \<le> 1"
    "set (hash_stack h (sk_id (sock u))) = {v \<in> set xs. sk_id (sock v) = sk_id (sock u)}"
    using assms(1) by (simp_all add: table_ok_def)
  have same: "{v \<in> set xs. sk_id (sock v) = sk_id (sock u)} = {v \<in> set xs. v = u}"
    using assms(2) by (auto simp: ids_ok_def dest: injD)
  have "length S \<le> 1 \<and> set S = (if u \<in> set xs then {u} else {}) \<Longrightarrow> S = (if u \<in> set xs then [u] else [])" for S
    by (cases S) (auto split: if_splits)
  moreover have "{v \<in> set xs. v = u} = (if u \<in> set xs then {u} else {})" by auto
  ultimately show ?thesis using stack same by simp
qed

lemma table_insert:
  assumes "table_ok sock xs h" "ids_ok sock" "u \<notin> set xs"
  obtains h' where "hash_insert (sk_id (sock u)) u h = Inr h'" "table_ok sock (xs @ [u]) h'"
proof -
  have id: "0 \<le> sk_id (sock u)" using assms(2) by (simp add: ids_ok_def less_imp_le)
  obtain h' where h': "hash_insert (sk_id (sock u)) u h = Inr h'" "ch_size h' = ch_size h"
    "hash_stack h' = (hash_stack h)(sk_id (sock u) := u # hash_stack h (sk_id (sock u)))"
    using hash_insert_ok [of h, OF _ id] assms(1) by (auto simp: table_ok_def)
  have "sk_id (sock v) = sk_id (sock u) \<longleftrightarrow> v = u" for v using assms(2) by (auto simp: ids_ok_def dest: injD)
  then have "table_ok sock (xs @ [u]) h'"
    using assms(1) h'(2,3) table_stack [OF assms(1,2), of u] assms(3) by (auto simp: table_ok_def)
  then show ?thesis using that h'(1) by blast
qed

lemma table_remove:
  assumes "table_ok sock xs h" "ids_ok sock" "u \<in> set xs" "distinct xs"
  obtains h' where "hash_remove (sk_id (sock u)) h = Inr h'" "table_ok sock (remove1 u xs) h'"
proof -
  have id: "0 \<le> sk_id (sock u)" using assms(2) by (simp add: ids_ok_def less_imp_le)
  obtain h' where h': "hash_remove (sk_id (sock u)) h = Inr h'" "ch_size h' = ch_size h"
    "hash_stack h' = (hash_stack h)(sk_id (sock u) := tl (hash_stack h (sk_id (sock u))))"
    using hash_remove_ok [of h, OF _ id] assms(1) by (auto simp: table_ok_def)
  have "sk_id (sock v) = sk_id (sock u) \<longleftrightarrow> v = u" for v using assms(2) by (auto simp: ids_ok_def dest: injD)
  then have "table_ok sock (remove1 u xs) h'"
    using assms(1,4) h'(2,3) table_stack [OF assms(1,2), of u] assms(3) by (auto simp: table_ok_def)
  then show ?thesis using that h'(1) by blast
qed

lemma table_same: "set xs = set ys \<Longrightarrow> table_ok sock xs h = table_ok sock ys h"
  by (simp add: table_ok_def)

lemma times_append:
  assumes "times_ok clk t xs l" "mono clk" "ru_time l' = (ru_time l)(u := clk t)" "u \<notin> set ys" "set ys \<subseteq> set xs"
    "sorted (map (ru_time l) ys)"
  shows "times_ok clk (Suc t) (ys @ [u]) l'"
proof -
  have "map (ru_time l') ys = map (ru_time l) ys" using assms(3,4) by (intro map_cong) auto
  moreover have "\<forall>v \<in> set ys. ru_time l v \<le> clk t" using assms(1,5) by (auto simp: times_ok_def)
  moreover have "clk t \<le> clk (Suc t)" using assms(2) by (simp add: monoD)
  moreover have "\<forall>v \<in> set ys. v \<noteq> u" using assms(4) by auto
  ultimately show ?thesis using assms(3,6) by (fastforce simp: times_ok_def sorted_append)
qed

lemma sorted_remove1: "sorted (map f xs) \<Longrightarrow> sorted (map f (remove1 u xs))"
  by (induction xs) (auto dest: notin_set_remove1)

text \<open>A socket that was heard of goes to the end of the list.\<close>

lemma heard_of_ok:
  assumes "ru_list l xs" "times_ok clk t xs l" "mono clk" "u \<in> set xs"
  obtains l' where "ru_update (clk t) u l = Inr l'" "ru_list l' (remove1 u xs @ [u])"
    "times_ok clk (Suc t) (remove1 u xs @ [u]) l'" "ru_time l' = (ru_time l)(u := clk t)"
proof -
  obtain l' where l': "ru_update (clk t) u l = Inr l'" "ru_list l' (remove1 u xs @ [u])" "ru_time l' = (ru_time l)(u := clk t)"
    using ru_update_ok [OF assms(1,4)] by blast
  have "u \<notin> set (remove1 u xs)" using assms(1) by (simp add: ru_list_def)
  then have "times_ok clk (Suc t) (remove1 u xs @ [u]) l'"
    using assms(2) l'(3) set_remove1_subset [of u xs] by (intro times_append [OF assms(2,3)] sorted_remove1) (auto simp: times_ok_def)
  then show ?thesis using that l' by blast
qed

lemma uq_ok_call [simp]: "uq_ok n (ud_units (call_socket handle u c s)) = uq_ok n (ud_units s)"
  by (simp add: call_socket_def Let_def uq_ok_def)

section \<open>The timers\<close>

lemma timer_loop_ok:
  assumes "rq_ok n clk sock xs q" "ids_ok sock" "mono clk" "ctime \<le> clk (rq_ticks q)"
    "length (filter (\<lambda>u. ru_time (rq_ulist q) u < ctime) xs) \<le> fuel"
  shows "\<exists>q' ys. timer_loop clk handle sock ctime fuel q = Inr q' \<and> rq_ok n clk sock ys q' \<and> rq_ticks q \<le> rq_ticks q'
    \<and> (\<forall>u \<in> set ys. ctime \<le> ru_time (rq_ulist q') u) \<and> set ys \<subseteq> set xs"
  using assms(1,4,5)
proof (induction fuel arbitrary: q xs)
  case 0
  show ?case
  proof (cases xs)
    case Nil
    then show ?thesis using "0.prems" by (subst timer_loop.simps) (auto simp: rq_ok_def ru_list_head)
  next
    case (Cons x zs)
    have "\<not> ru_time (rq_ulist q) u < ctime" if "u \<in> set xs" for u
      using "0.prems"(3) that by (simp add: filter_empty_conv)
    then show ?thesis using "0.prems"(1) Cons
      by (subst timer_loop.simps) (auto simp: rq_ok_def ru_list_head not_less intro!: exI [of _ xs])
  qed
next
  case (Suc fuel q xs)
  have l: "ru_list (rq_ulist q) xs" "times_ok clk (rq_ticks q) xs (rq_ulist q)" "table_ok sock xs (rq_hash q)"
    "uq_ok n (ud_units (rq_udt q))" using Suc.prems(1) by (simp_all add: rq_ok_def)
  have dist: "distinct xs" using l(1) by (simp add: ru_list_def)
  show ?case
  proof (cases xs)
    case Nil
    then show ?thesis using Suc.prems by (subst timer_loop.simps) (auto simp: rq_ok_def ru_list_head)
  next
    case (Cons x zs)
    note head = ru_list_head [OF l(1)]
    show ?thesis
    proof (cases "ru_time (rq_ulist q) x < ctime")
      case False
      then have "\<forall>u \<in> set xs. ctime \<le> ru_time (rq_ulist q) u"
        using l(2) Cons by (auto simp: times_ok_def not_less)
      then show ?thesis using Suc.prems(1) head Cons False
        by (subst timer_loop.simps) (auto intro!: exI [of _ xs])
    next
      case True
      have x: "x \<in> set xs" using Cons by simp
      have step: "timer_loop clk handle sock ctime (Suc fuel) q = bind_res
          (if live (rq_udt q) x
           then bind_res (ru_update (clk (rq_ticks q)) x (rq_ulist q)) (\<lambda>l. Inr (q\<lparr>rq_udt := call_socket handle x CheckTimers (rq_udt q),
             rq_ticks := rq_ticks q + 1, rq_ulist := l\<rparr>))
           else bind_res (hash_remove (sk_id (sock x)) (rq_hash q)) (\<lambda>h. bind_res (ru_remove x (rq_ulist q)) (\<lambda>l.
             Inr (q\<lparr>rq_hash := h, rq_ulist := l\<rparr>))))
          (timer_loop clk handle sock ctime fuel)"
        using head Cons True by (subst timer_loop.simps) (simp add: rdtsc_def)
      show ?thesis
      proof (cases "live (rq_udt q) x")
        case live: True
        obtain l' where l': "ru_update (clk (rq_ticks q)) x (rq_ulist q) = Inr l'" "ru_list l' (remove1 x xs @ [x])"
          "times_ok clk (Suc (rq_ticks q)) (remove1 x xs @ [x]) l'" "ru_time l' = (ru_time (rq_ulist q))(x := clk (rq_ticks q))"
          using heard_of_ok [OF l(1,2) assms(3) x] by blast
        let ?q = "q\<lparr>rq_udt := call_socket handle x CheckTimers (rq_udt q), rq_ticks := rq_ticks q + 1, rq_ulist := l'\<rparr>"
        have same: "set (remove1 x xs @ [x]) = set xs" using dist x by auto
        have "rq_ok n clk sock (remove1 x xs @ [x]) ?q"
          using l'(2,3) l(3,4) table_same [OF same] by (simp add: rq_ok_def)
        moreover have "ctime \<le> clk (rq_ticks ?q)"
          using Suc.prems(2) monoD [OF assms(3), of "rq_ticks q" "rq_ticks q + 1"] by simp
        moreover have "length (filter (\<lambda>u. ru_time (rq_ulist ?q) u < ctime) (remove1 x xs @ [x])) \<le> fuel"
        proof -
          have "filter (\<lambda>u. ru_time l' u < ctime) zs = filter (\<lambda>u. ru_time (rq_ulist q) u < ctime) zs"
            using dist Cons l'(4) by (intro filter_cong) auto
          moreover have "\<not> clk (rq_ticks q) < ctime" using Suc.prems(2) by (simp add: not_less)
          ultimately show ?thesis using Suc.prems(3) Cons True l'(4) by simp
        qed
        ultimately obtain q' ys where "timer_loop clk handle sock ctime fuel ?q = Inr q'" "rq_ok n clk sock ys q'"
          "rq_ticks ?q \<le> rq_ticks q'" "\<forall>u \<in> set ys. ctime \<le> ru_time (rq_ulist q') u" "set ys \<subseteq> set (remove1 x xs @ [x])"
          using Suc.IH [of "remove1 x xs @ [x]" ?q] by blast
        then show ?thesis using step live l'(1) same by (intro exI [of _ q'] exI [of _ ys]) auto
      next
        case dead: False
        obtain h' where h': "hash_remove (sk_id (sock x)) (rq_hash q) = Inr h'" "table_ok sock (remove1 x xs) h'"
          using table_remove [OF l(3) assms(2) x dist] by blast
        obtain l' where l': "ru_remove x (rq_ulist q) = Inr l'" "ru_list l' (remove1 x xs)" "ru_time l' = ru_time (rq_ulist q)"
          using ru_remove_ok [OF l(1)] by blast
        let ?q = "q\<lparr>rq_hash := h', rq_ulist := l'\<rparr>"
        have "times_ok clk (rq_ticks q) (remove1 x xs) l'"
          using l(2) l'(3) Cons by (simp add: times_ok_def)
        then have "rq_ok n clk sock (remove1 x xs) ?q" using l'(2) h'(2) l(4) by (simp add: rq_ok_def)
        moreover have "length (filter (\<lambda>u. ru_time (rq_ulist ?q) u < ctime) (remove1 x xs)) \<le> fuel"
          using Suc.prems(3) Cons True l'(3) by simp
        ultimately obtain q' ys where "timer_loop clk handle sock ctime fuel ?q = Inr q'" "rq_ok n clk sock ys q'"
          "rq_ticks ?q \<le> rq_ticks q'" "\<forall>u \<in> set ys. ctime \<le> ru_time (rq_ulist q') u" "set ys \<subseteq> set (remove1 x xs)"
          using Suc.IH [of "remove1 x xs" ?q] Suc.prems(2) by auto
        then show ?thesis using step dead l'(1) h'(1) set_remove1_subset [of x xs] by (intro exI [of _ q'] exI [of _ ys]) auto
      qed
    qed
  qed
qed

section \<open>A round of the thread\<close>

lemma take_new_ok:
  assumes "rq_ok n clk sock xs q" "ids_ok sock" "mono clk" "announced_once q"
  shows "\<exists>q' ys. take_new clk sock q = Inr q' \<and> rq_ok n clk sock ys q' \<and> rq_ticks q \<le> rq_ticks q' \<and> length ys \<le> length xs + 1"
proof (cases "ud_new (rq_udt q)")
  case Nil
  then show ?thesis using assms(1) by (auto simp: take_new_def getNewEntry_def)
next
  case (Cons u us)
  have l: "ru_list (rq_ulist q) xs" "times_ok clk (rq_ticks q) xs (rq_ulist q)" "table_ok sock xs (rq_hash q)"
    using assms(1) by (simp_all add: rq_ok_def)
  have u: "u \<notin> set xs" using assms(4) Cons l(1) by (simp add: announced_once_def ru_list_def)
  obtain l' where l': "ru_insert (clk (rq_ticks q)) u (rq_ulist q) = Inr l'" "ru_list l' (xs @ [u])"
    "ru_time l' = (ru_time (rq_ulist q))(u := clk (rq_ticks q))" using ru_insert_ok [OF l(1) u] by blast
  obtain h' where h': "hash_insert (sk_id (sock u)) u (rq_hash q) = Inr h'" "table_ok sock (xs @ [u]) h'"
    using table_insert [OF l(3) assms(2) u] by blast
  have "times_ok clk (Suc (rq_ticks q)) (xs @ [u]) l'"
    using l(2) u by (intro times_append [OF l(2) assms(3) l'(3)]) (simp_all add: times_ok_def)
  then show ?thesis
    using Cons l'(1,2) h' assms(1)
    by (intro exI [of _ "q\<lparr>rq_udt := (rq_udt q)\<lparr>ud_new := us\<rparr>, rq_ticks := rq_ticks q + 1, rq_ulist := l', rq_hash := h'\<rparr>"] exI [of _ "xs @ [u]"])
      (simp add: take_new_def getNewEntry_def rdtsc_def rq_ok_def)
qed

text \<open>What a packet that lies in a unit does.\<close>

definition addressed :: "(nat \<Rightarrow> sock) \<Rightarrow> int \<Rightarrow> nat list \<Rightarrow> nat option" where
  "addressed sock sid xs = find (\<lambda>u. sk_id (sock u) = sid) xs"

lemma addressed_lookup:
  assumes "table_ok sock xs h" "ids_ok sock" "0 < sid"
  shows "hash_lookup sid h = Inr (addressed sock sid xs)"
proof (cases "addressed sock sid xs")
  case None
  then have "{u \<in> set xs. sk_id (sock u) = sid} = {}" by (auto simp: addressed_def find_None_iff)
  moreover have "set (hash_stack h sid) = {u \<in> set xs. sk_id (sock u) = sid}"
    using assms(1,3) unfolding table_ok_def by (meson less_imp_le)
  ultimately have "set (hash_stack h sid) = {}" by (simp only:)
  then have "hash_stack h sid = []" by simp
  then show ?thesis using table_lookup [OF assms(1), of sid] assms(3) None by simp
next
  case (Some u)
  then have "u \<in> set xs" "sk_id (sock u) = sid" by (auto simp: addressed_def find_Some_iff)
  then show ?thesis using table_lookup [OF assms(1), of sid] table_stack [OF assms(1,2), of u] assms(3) Some by simp
qed

lemma deliver_socket:
  assumes "rq_ok n clk sock xs q" "ids_ok sock" "mono clk"
    and "pk_id (cu_packet (uq_units (ud_units (rq_udt q)) m)) = d" "0 < sint d" "addressed sock (sint d) xs = Some u"
    and "ipcmp addr (sk_peer (sock u)) (sk_version (sock u))" "live (rq_udt q) u"
  shows "\<exists>q'. deliver clk handle mem sock addr m q = Inr q' \<and> rq_ok n clk sock (remove1 u xs @ [u]) q'
    \<and> rq_udt q' = call_socket handle u CheckTimers (call_socket handle u
        (let p = cu_packet (uq_units (ud_units (rq_udt q)) m) in if 0 = getFlag p then ProcessData m else ProcessCtrl p) (rq_udt q))
    \<and> ru_time (rq_ulist q') u = clk (rq_ticks q) \<and> rq_ticks q' = Suc (rq_ticks q)"
proof -
  have l: "ru_list (rq_ulist q) xs" "times_ok clk (rq_ticks q) xs (rq_ulist q)" "table_ok sock xs (rq_hash q)"
    using assms(1) by (simp_all add: rq_ok_def)
  have u: "u \<in> set xs" using assms(6) by (auto simp: addressed_def find_Some_iff)
  obtain l' where l': "ru_update (clk (rq_ticks q)) u (rq_ulist q) = Inr l'" "ru_list l' (remove1 u xs @ [u])"
    "times_ok clk (Suc (rq_ticks q)) (remove1 u xs @ [u]) l'" "ru_time l' = (ru_time (rq_ulist q))(u := clk (rq_ticks q))"
    using heard_of_ok [OF l(1,2) assms(3) u] by blast
  have "set (remove1 u xs @ [u]) = set xs" using l(1) u by (auto simp: ru_list_def)
  note same = table_same [OF this]
  let ?c = "let p = cu_packet (uq_units (ud_units (rq_udt q)) m) in if 0 = getFlag p then ProcessData m else ProcessCtrl p"
  let ?q = "q\<lparr>rq_udt := call_socket handle u CheckTimers (call_socket handle u ?c (rq_udt q)),
      rq_ticks := Suc (rq_ticks q), rq_ulist := l'\<rparr>"
  have "deliver clk handle mem sock addr m q = Inr ?q"
    using assms(4-8) addressed_lookup [OF l(3) assms(2,5)] l'(1) by (simp add: deliver_def Let_def rdtsc_def)
  moreover have "rq_ok n clk sock (remove1 u xs @ [u]) ?q"
    using l'(2,3) l(3) same assms(1) by (simp add: rq_ok_def)
  ultimately show ?thesis using l'(4) by auto
qed

lemma deliver_other:
  assumes "rq_ok n clk sock xs q" "ids_ok sock"
    and "pk_id (cu_packet (uq_units (ud_units (rq_udt q)) m)) = d" "0 < sint d"
    and "addressed sock (sint d) xs = Some u \<Longrightarrow> \<not> (ipcmp addr (sk_peer (sock u)) (sk_version (sock u)) \<and> live (rq_udt q) u)"
    and "addressed sock (sint d) xs \<noteq> None \<Longrightarrow> addressed sock (sint d) xs = Some u"
  shows "\<exists>q'. deliver clk handle mem sock addr m q = Inr q' \<and> rq_udt q' = rq_udt q \<and> rq_ulist q' = rq_ulist q
    \<and> rq_hash q' = rq_hash q \<and> rq_ticks q' = rq_ticks q"
proof -
  have "table_ok sock xs (rq_hash q)" using assms(1) by (simp add: rq_ok_def)
  note look = addressed_lookup [OF this assms(2,4)]
  show ?thesis
  proof (cases "addressed sock (sint d) xs")
    case None
    then show ?thesis using assms(3,4) look
      by (auto simp: deliver_def Let_def to_rendezvous_def storePkt_def split: option.split)
  next
    case (Some v)
    then show ?thesis using assms(3-6) look by (auto simp: deliver_def Let_def)
  qed
qed

lemma deliver_ok:
  assumes "rq_ok n clk sock xs q" "ids_ok sock" "mono clk"
  shows "\<exists>q' ys. deliver clk handle mem sock addr m q = Inr q' \<and> rq_ok n clk sock ys q' \<and> rq_ticks q \<le> rq_ticks q' \<and> length ys = length xs"
proof -
  let ?p = "cu_packet (uq_units (ud_units (rq_udt q)) m)"
  consider "sint (pk_id ?p) = 0" | "sint (pk_id ?p) < 0" | "0 < sint (pk_id ?p)" by linarith
  then show ?thesis
  proof cases
    case 1
    then show ?thesis using assms(1)
      by (auto simp: deliver_def Let_def to_rendezvous_def storePkt_def rq_ok_def split: option.split)
  next
    case 2
    then show ?thesis using assms(1) by (auto simp: deliver_def Let_def)
  next
    case pos: 3
    show ?thesis
    proof (cases "\<exists>u. addressed sock (sint (pk_id ?p)) xs = Some u \<and> ipcmp addr (sk_peer (sock u)) (sk_version (sock u)) \<and> live (rq_udt q) u")
      case True
      then obtain u where u: "addressed sock (sint (pk_id ?p)) xs = Some u"
        "ipcmp addr (sk_peer (sock u)) (sk_version (sock u))" "live (rq_udt q) u" by blast
      then have "u \<in> set xs" by (auto simp: addressed_def find_Some_iff)
      then have "length (remove1 u xs @ [u]) = length xs" by (simp add: length_remove1) (metis Suc_pred length_pos_if_in_set)
      then show ?thesis using deliver_socket [where handle = handle and mem = mem, OF assms refl pos u] by force
    next
      case False
      obtain q' where q': "deliver clk handle mem sock addr m q = Inr q'" "rq_udt q' = rq_udt q" "rq_ulist q' = rq_ulist q"
        "rq_hash q' = rq_hash q" "rq_ticks q' = rq_ticks q"
        using deliver_other [where handle = handle and mem = mem and addr = addr and u = "the (addressed sock (sint (pk_id ?p)) xs)",
          OF assms(1,2) refl pos] False by auto
      then have "rq_ok n clk sock xs q'" using assms(1) by (simp add: rq_ok_def)
      then show ?thesis using q' by auto
    qed
  qed
qed

lemma receive_one_ok:
  assumes "rq_ok n clk sock xs q" "ids_ok sock" "mono clk" "10 \<le> n"
  shows "\<exists>q' ys. receive_one le clk handle mem sock datagram q = Inr q' \<and> rq_ok n clk sock ys q' \<and> rq_ticks q \<le> rq_ticks q' \<and> length ys = length xs"
proof -
  have "uq_ok n (ud_units (rq_udt q))" using assms(1) by (simp add: rq_ok_def)
  then obtain uq r where uq: "getNextAvailUnit (ud_units (rq_udt q)) = Inr (uq, r)" "uq_ok n uq"
    using get_ok [OF _ assms(4)] by blast
  have ok: "rq_ok n clk sock xs (q\<lparr>rq_udt := (rq_udt q)\<lparr>ud_units := uq\<lparr>uq_units := us\<rparr>\<rparr>\<rparr>)" for us
    using assms(1) uq(2) by (simp add: rq_ok_def uq_ok_def)
  show ?thesis
  proof (cases r)
    case None
    then show ?thesis using uq(1) ok [of "uq_units uq"] by (auto simp: receive_one_def Let_def)
  next
    case (Some m)
    obtain p res where rec: "recvfrom le (map_option snd datagram) (setLength (rq_payload q) (cu_packet (uq_units uq m))) = (p, res)"
      by (metis surj_pair)
    let ?q = "q\<lparr>rq_udt := (rq_udt q)\<lparr>ud_units := uq\<lparr>uq_units := (uq_units uq)(m := (uq_units uq m)\<lparr>cu_packet := p\<rparr>)\<rparr>\<rparr>\<rparr>"
    have eq: "receive_one le clk handle mem sock datagram q = (if res \<le> 0 then Inr ?q
        else case datagram of None \<Rightarrow> Inr ?q | Some (addr, _) \<Rightarrow> deliver clk handle mem sock addr m ?q)"
      using uq(1) Some rec by (simp add: receive_one_def Let_def cong del: if_weak_cong)
    have same: "\<exists>q' ys. Inr ?q = (Inr q' :: 'a rcv_queue res) \<and> rq_ok n clk sock ys q' \<and> rq_ticks q \<le> rq_ticks q' \<and> length ys = length xs"
      using ok by (intro exI [of _ ?q] exI [of _ xs]) simp
    show ?thesis
    proof (cases "res \<le> 0 \<or> datagram = None")
      case True
      then have "receive_one le clk handle mem sock datagram q = Inr ?q" using eq by (auto split: option.split)
      then show ?thesis using same by simp
    next
      case False
      then obtain addr bs where "datagram = Some (addr, bs)" by auto
      then have "receive_one le clk handle mem sock datagram q = deliver clk handle mem sock addr m ?q" using eq False by simp
      then show ?thesis using deliver_ok [where handle = handle and mem = mem and addr = addr and m = m, OF ok assms(2,3)] by simp
    qed
  qed
qed

section \<open>Reachable states\<close>

text \<open>
  Between the rounds other threads change what the queue shares with the sockets, and the store. A
  socket that is announced is not in the queue already.
\<close>

inductive rq_reach :: "bool \<Rightarrow> (nat \<Rightarrow> 64 word) \<Rightarrow> 'c sockets \<Rightarrow> (nat \<Rightarrow> sock) \<Rightarrow> 64 word \<Rightarrow> nat \<Rightarrow> 'c rcv_queue \<Rightarrow> bool"
  for le clk handle sock freq n where
  init: "10 \<le> n \<Longrightarrow> 0 < hsize \<Longrightarrow> ud_units s = UnitQueue_new storage fresh
    \<Longrightarrow> rq_reach le clk handle sock freq n (RcvQueue_init (int n) psize version hsize (RcvUList_new t p nx) s)"
| worker: "rq_reach le clk handle sock freq n q \<Longrightarrow> announced_once q
    \<Longrightarrow> rcv_worker le clk handle mem sock freq fuel datagram q = Inr q' \<Longrightarrow> rq_reach le clk handle sock freq n q'"
| sockets: "rq_reach le clk handle sock freq n q
    \<Longrightarrow> ud_units s = (ud_units (rq_udt q))\<lparr>uq_units := units, uq_count := count\<rparr>
    \<Longrightarrow> rq_reach le clk handle sock freq n (q\<lparr>rq_udt := s, rq_store := st\<rparr>)"

lemma filter_mono_length: "length (filter P xs) \<le> length xs"
  by simp

lemma rcv_worker_ok:
  assumes "rq_ok n clk sock xs q" "ids_ok sock" "mono clk" "10 \<le> n" "announced_once q"
    and "100000 * freq \<le> clk 0" "length xs < fuel"
  shows "\<exists>q' ys t. rcv_worker le clk handle mem sock freq fuel datagram q = Inr q' \<and> rq_ok n clk sock ys q'
    \<and> rq_ticks q \<le> t \<and> t < rq_ticks q' \<and> (\<forall>u \<in> set ys. clk t - 100000 * freq \<le> ru_time (rq_ulist q') u)"
proof -
  obtain q1 xs1 where q1: "take_new clk sock q = Inr q1" "rq_ok n clk sock xs1 q1" "rq_ticks q \<le> rq_ticks q1"
    "length xs1 \<le> length xs + 1" using take_new_ok [OF assms(1-3,5)] by blast
  obtain q2 xs2 where q2: "receive_one le clk handle mem sock datagram q1 = Inr q2" "rq_ok n clk sock xs2 q2"
    "rq_ticks q1 \<le> rq_ticks q2" "length xs2 = length xs1" using receive_one_ok [OF q1(2) assms(2-4)] by blast
  let ?t = "rq_ticks q2" and ?q = "q2\<lparr>rq_ticks := rq_ticks q2 + 1\<rparr>"
  have mono: "clk i \<le> clk (Suc i)" for i by (rule monoD [OF assms(3)]) simp
  have "100000 * freq \<le> clk ?t" using assms(6) monoD [OF assms(3), of 0 ?t] by simp
  then have "clk ?t - 100000 * freq \<le> clk ?t" by (rule word_sub_le)
  then have ctime: "clk ?t - 100000 * freq \<le> clk (rq_ticks ?q)" using mono [of ?t] by simp
  have "rq_ok n clk sock xs2 ?q"
  proof -
    have "times_ok clk (Suc ?t) xs2 (rq_ulist q2)"
      using q2(2) mono [of ?t] by (auto simp: rq_ok_def times_ok_def intro: order_trans)
    then show ?thesis using q2(2) by (simp add: rq_ok_def)
  qed
  moreover have "length (filter (\<lambda>u. ru_time (rq_ulist ?q) u < clk ?t - 100000 * freq) xs2) \<le> fuel"
    using filter_mono_length [of "\<lambda>u. ru_time (rq_ulist ?q) u < clk ?t - 100000 * freq" xs2] q2(4) q1(4) assms(7) by linarith
  ultimately obtain q3 ys where "timer_loop clk handle sock (clk ?t - 100000 * freq) fuel ?q = Inr q3" "rq_ok n clk sock ys q3"
    "rq_ticks ?q \<le> rq_ticks q3" "\<forall>u \<in> set ys. clk ?t - 100000 * freq \<le> ru_time (rq_ulist q3) u"
    using timer_loop_ok [OF _ assms(2,3) ctime] by blast
  then show ?thesis
    using q1(1,3) q2(1,3)
    by (intro exI [of _ q3] exI [of _ ys] exI [of _ ?t]) (simp add: rcv_worker_def check_timers_def rdtsc_def Let_def)
qed

lemma timer_loop_fuel:
  "timer_loop clk handle sock ctime fuel q = Inr q' \<Longrightarrow> timer_loop clk handle sock ctime (fuel + k) q = Inr q'"
proof (induction fuel arbitrary: q)
  case 0
  then show ?case by (subst (asm) timer_loop.simps, subst timer_loop.simps) (auto split: option.splits if_splits)
next
  case (Suc fuel q)
  show ?case
  proof (cases "case ru_first (rq_ulist q) of None \<Rightarrow> True | Some u \<Rightarrow> \<not> ru_time (rq_ulist q) u < ctime")
    case True
    then show ?thesis using Suc.prems
      by (subst (asm) timer_loop.simps, subst timer_loop.simps) (auto split: option.splits if_splits)
  next
    case False
    then obtain u where u: "ru_first (rq_ulist q) = Some u" "ru_time (rq_ulist q) u < ctime" by (auto split: option.splits)
    have step: "timer_loop clk handle sock ctime (Suc f) q = bind_res
        (if live (rq_udt q) u
         then let (now, q) = rdtsc clk (q\<lparr>rq_udt := call_socket handle u CheckTimers (rq_udt q)\<rparr>) in
           bind_res (ru_update now u (rq_ulist q)) (\<lambda>l. Inr (q\<lparr>rq_ulist := l\<rparr>))
         else bind_res (hash_remove (sk_id (sock u)) (rq_hash q)) (\<lambda>h. bind_res (ru_remove u (rq_ulist q)) (\<lambda>l.
           Inr (q\<lparr>rq_hash := h, rq_ulist := l\<rparr>))))
        (timer_loop clk handle sock ctime f)" for f
      using u by (subst timer_loop.simps) simp
    then show ?thesis using Suc.prems Suc.IH unfolding add_Suc by (fastforce simp: bind_res_Inr_iff)
  qed
qed

lemma rcv_worker_fuel:
  "rcv_worker le clk handle mem sock freq fuel datagram q = Inr q' \<Longrightarrow> rcv_worker le clk handle mem sock freq (fuel + k) datagram q = Inr q'"
  by (auto simp: rcv_worker_def check_timers_def bind_res_Inr_iff Let_def split_beta intro: timer_loop_fuel)

lemma rq_reach_ok:
  assumes "rq_reach le clk handle sock freq n q" "ids_ok sock" "mono clk" "100000 * freq \<le> clk 0"
  shows "10 \<le> n \<and> (\<exists>xs. rq_ok n clk sock xs q)"
  using assms(1)
proof (induction rule: rq_reach.induct)
  case (init hsize s storage fresh psize version t p nx)
  have "uq_ok n (uq_init (int n) psize version (ud_units s))" using uq_ok_init [of n] init(1,3) by simp
  moreover have "hash_stack (hash_init hsize hash_new) = (\<lambda>_. [])" by (simp add: hash_stack_def hash_init_def hash_new_def fun_eq_iff)
  then have "table_ok sock [] (hash_init hsize hash_new)" using init(2) by (simp add: table_ok_def hash_init_def)
  ultimately show ?case
    using init(1) ru_list_new by (auto simp: rq_ok_def RcvQueue_init_def times_ok_def intro!: exI [of _ "[]"])
next
  case (worker q mem fuel datagram q')
  then obtain xs where xs: "10 \<le> n" "rq_ok n clk sock xs q" by blast
  obtain q'' ys where q'': "rcv_worker le clk handle mem sock freq (fuel + Suc (length xs)) datagram q = Inr q''" "rq_ok n clk sock ys q''"
    using rcv_worker_ok [OF xs(2) assms(2,3) xs(1) worker.hyps(2) assms(4), of "fuel + Suc (length xs)" le handle mem datagram] by auto
  have "rcv_worker le clk handle mem sock freq (fuel + Suc (length xs)) datagram q = Inr q'"
    by (rule rcv_worker_fuel [OF worker.hyps(3)])
  then have "q'' = q'" using q''(1) by simp
  then show ?case using q''(2) xs(1) by blast
next
  case (sockets q s units count st)
  then obtain xs where "rq_ok n clk sock xs q" by blast
  then have "rq_ok n clk sock xs (q\<lparr>rq_udt := s, rq_store := st\<rparr>)" using sockets.hyps(2) by (simp add: rq_ok_def uq_ok_def)
  then show ?case using sockets.IH by blast
qed

lemma rq_ok_on: "rq_ok n clk sock xs q \<Longrightarrow> ru_on (rq_ulist q) u \<longleftrightarrow> u \<in> set xs"
  by (simp add: rq_ok_def ru_list_def)

section \<open>The calls of a round\<close>

text \<open>Sockets that write down in their state how they are called.\<close>

definition keeps_log :: "'c sockets \<Rightarrow> ('c \<Rightarrow> (nat \<times> call) list) \<Rightarrow> bool" where
  "keeps_log handle log \<longleftrightarrow> (\<forall>u c s. log (ud_rest (handle u c s)) = (u, c) # log (ud_rest s))"

lemma log_call: "keeps_log handle log \<Longrightarrow> log (ud_rest (call_socket handle u c s)) = (u, c) # log (ud_rest s)"
  by (simp add: keeps_log_def call_socket_def Let_def)

text \<open>The calls are in the log, and a socket has its old time stamp or its timers were checked.\<close>

definition round_calls :: "('c \<Rightarrow> (nat \<times> call) list) \<Rightarrow> 'c rcv_queue \<Rightarrow> 'c rcv_queue \<Rightarrow> (nat \<times> call) list \<Rightarrow> bool" where
  "round_calls log q q' calls \<longleftrightarrow> log (ud_rest (rq_udt q')) = calls @ log (ud_rest (rq_udt q)) \<and>
     (\<forall>u. ru_time (rq_ulist q') u = ru_time (rq_ulist q) u \<or> (u, CheckTimers) \<in> set calls)"

lemma round_calls_trans:
  "round_calls log q1 q2 c1 \<Longrightarrow> round_calls log q2 q3 c2 \<Longrightarrow> round_calls log q1 q3 (c2 @ c1)"
  by (auto simp: round_calls_def) metis+

lemma append_node_time: "append_node n l = Inr l' \<Longrightarrow> ru_time l' = ru_time l"
  by (auto simp: append_node_def set_ru_next_def bind_res_Inr_iff split: option.splits)

lemma ru_update_time: "ru_update now n l = Inr l' \<Longrightarrow> v \<noteq> n \<Longrightarrow> ru_time l' v = ru_time l v"
  by (auto simp: ru_update_def set_ru_next_def set_ru_prev_def bind_res_Inr_iff Let_def
      split: option.splits if_splits dest!: append_node_time)

lemma ru_remove_time: "ru_remove n l = Inr l' \<Longrightarrow> ru_time l' = ru_time l"
  by (auto simp: ru_remove_def set_ru_next_def set_ru_prev_def bind_res_Inr_iff Let_def split: option.splits if_splits)

lemma timer_loop_calls:
  assumes "keeps_log handle log"
  shows "timer_loop clk handle sock ctime fuel q = Inr q' \<Longrightarrow> \<exists>calls. round_calls log q q' calls"
proof (induction fuel arbitrary: q)
  case 0
  then have "q' = q" by (subst (asm) timer_loop.simps) (auto split: option.splits if_splits)
  then show ?case by (auto simp: round_calls_def intro!: exI [of _ "[]"])
next
  case (Suc fuel q)
  show ?case
  proof (cases "case ru_first (rq_ulist q) of None \<Rightarrow> True | Some u \<Rightarrow> \<not> ru_time (rq_ulist q) u < ctime")
    case True
    then have "q' = q" using Suc.prems by (subst (asm) timer_loop.simps) (auto split: option.splits if_splits)
    then show ?thesis by (auto simp: round_calls_def intro!: exI [of _ "[]"])
  next
    case False
    then obtain u where u: "ru_first (rq_ulist q) = Some u" "ru_time (rq_ulist q) u < ctime" by (auto split: option.splits)
    have "\<exists>q1 c1. round_calls log q q1 c1 \<and> timer_loop clk handle sock ctime fuel q1 = Inr q'"
    proof (cases "live (rq_udt q) u")
      case True
      then obtain l where l: "ru_update (clk (rq_ticks q)) u (rq_ulist q) = Inr l"
        "timer_loop clk handle sock ctime fuel (q\<lparr>rq_udt := call_socket handle u CheckTimers (rq_udt q),
           rq_ticks := rq_ticks q + 1, rq_ulist := l\<rparr>) = Inr q'"
        using u Suc.prems by (subst (asm) timer_loop.simps) (auto simp: rdtsc_def bind_res_Inr_iff)
      have "round_calls log q (q\<lparr>rq_udt := call_socket handle u CheckTimers (rq_udt q),
           rq_ticks := rq_ticks q + 1, rq_ulist := l\<rparr>) [(u, CheckTimers)]"
        using log_call [OF assms] ru_update_time [OF l(1)] by (auto simp: round_calls_def)
      with l(2) show ?thesis by blast
    next
      case False
      then obtain h l where l: "ru_remove u (rq_ulist q) = Inr l"
        "timer_loop clk handle sock ctime fuel (q\<lparr>rq_hash := h, rq_ulist := l\<rparr>) = Inr q'"
        using u Suc.prems by (subst (asm) timer_loop.simps) (auto simp: bind_res_Inr_iff)
      have "round_calls log q (q\<lparr>rq_hash := h, rq_ulist := l\<rparr>) []"
        using ru_remove_time [OF l(1)] by (auto simp: round_calls_def)
      with l(2) show ?thesis by blast
    qed
    with Suc.IH round_calls_trans show ?thesis by blast
  qed
qed

lemma deliver_calls:
  assumes "keeps_log handle log" "deliver clk handle mem sock addr m q = Inr q'"
  shows "\<exists>calls. round_calls log q q' calls"
proof -
  let ?p = "cu_packet (uq_units (ud_units (rq_udt q)) m)"
  consider (quiet) "ud_rest (rq_udt q') = ud_rest (rq_udt q)" "rq_ulist q' = rq_ulist q"
    | (listener) u where "rq_udt q' = call_socket handle u (Listen addr ?p) (rq_udt q)" "rq_ulist q' = rq_ulist q"
    | (socket) u c l where "rq_udt q' = call_socket handle u CheckTimers (call_socket handle u c (rq_udt q))"
      "ru_update (clk (rq_ticks q)) u (rq_ulist q) = Inr l" "rq_ulist q' = l"
  proof (cases "sint (pk_id ?p) > 0")
    case True
    then obtain r where r: "hash_lookup (sint (pk_id ?p)) (rq_hash q) = Inr r"
      using assms(2) by (auto simp: deliver_def Let_def bind_res_Inr_iff)
    show ?thesis
    proof (cases r)
      case None
      then show ?thesis using assms(2) True r quiet
        by (auto simp: deliver_def Let_def to_rendezvous_def storePkt_def split: option.splits)
    next
      case (Some u)
      show ?thesis
      proof (cases "ipcmp addr (sk_peer (sock u)) (sk_version (sock u)) \<and> live (rq_udt q) u")
        case True
        then show ?thesis using assms(2) \<open>sint (pk_id ?p) > 0\<close> r Some socket
          by (auto simp: deliver_def Let_def rdtsc_def bind_res_Inr_iff)
      next
        case False
        then show ?thesis using assms(2) True r Some quiet by (auto simp: deliver_def Let_def)
      qed
    qed
  next
    case False
    then show ?thesis using assms(2) quiet listener
      by (auto simp: deliver_def Let_def to_rendezvous_def storePkt_def split: option.splits if_splits)
  qed
  then show ?thesis
  proof cases
    case quiet
    then show ?thesis by (auto simp: round_calls_def intro!: exI [of _ "[]"])
  next
    case (listener u)
    then show ?thesis using log_call [OF assms(1)] by (intro exI [of _ "[(u, Listen addr ?p)]"]) (simp add: round_calls_def)
  next
    case (socket u c l)
    then show ?thesis using log_call [OF assms(1)] ru_update_time [OF socket(2)]
      by (intro exI [of _ "[(u, CheckTimers), (u, c)]"]) (auto simp: round_calls_def)
  qed
qed

lemma receive_one_calls:
  assumes "keeps_log handle log" "receive_one le clk handle mem sock datagram q = Inr q'"
  shows "\<exists>calls. round_calls log q q' calls"
proof -
  obtain uq r where uq: "getNextAvailUnit (ud_units (rq_udt q)) = Inr (uq, r)"
    using assms(2) by (auto simp: receive_one_def bind_res_Inr_iff)
  have same: "round_calls log q (q\<lparr>rq_udt := (rq_udt q)\<lparr>ud_units := u\<rparr>\<rparr>) []" for u
    by (simp add: round_calls_def)
  consider (quiet) u where "q' = q\<lparr>rq_udt := (rq_udt q)\<lparr>ud_units := u\<rparr>\<rparr>"
    | (packet) u addr m where "deliver clk handle mem sock addr m (q\<lparr>rq_udt := (rq_udt q)\<lparr>ud_units := u\<rparr>\<rparr>) = Inr q'"
    using assms(2) uq by (auto simp: receive_one_def Let_def split: option.splits prod.splits if_splits)
  then show ?thesis
  proof cases
    case (quiet u)
    then show ?thesis using same by blast
  next
    case (packet u addr m)
    then show ?thesis using deliver_calls [OF assms(1)] round_calls_trans [OF same [of u]] by blast
  qed
qed

lemma take_new_calls:
  assumes "take_new clk sock q = Inr q'"
  shows "ud_rest (rq_udt q') = ud_rest (rq_udt q)"
    "u \<notin> set (ud_new (rq_udt q)) \<Longrightarrow> ru_time (rq_ulist q') u = ru_time (rq_ulist q) u"
  using assms by (auto simp: take_new_def getNewEntry_def rdtsc_def bind_res_Inr_iff ru_insert_def Let_def
      split: list.splits if_splits dest!: append_node_time)

text \<open>In a round the timers of a socket are checked or its time stamp stays, unless it is taken up.\<close>

lemma rcv_worker_calls:
  assumes "keeps_log handle log" "rcv_worker le clk handle mem sock freq fuel datagram q = Inr q'"
  shows "\<exists>calls. log (ud_rest (rq_udt q')) = calls @ log (ud_rest (rq_udt q)) \<and>
    (\<forall>u. u \<notin> set (ud_new (rq_udt q)) \<longrightarrow>
      ru_time (rq_ulist q') u = ru_time (rq_ulist q) u \<or> (u, CheckTimers) \<in> set calls)"
proof -
  obtain q1 q2 where q: "take_new clk sock q = Inr q1" "receive_one le clk handle mem sock datagram q1 = Inr q2"
    "check_timers clk handle sock freq fuel q2 = Inr q'"
    using assms(2) by (auto simp: rcv_worker_def bind_res_Inr_iff)
  obtain c1 where c1: "round_calls log q1 q2 c1" using receive_one_calls [OF assms(1) q(2)] by blast
  obtain c2 where c2: "round_calls log (snd (rdtsc clk q2)) q' c2"
    using timer_loop_calls [OF assms(1)] q(3) by (force simp: check_timers_def rdtsc_def)
  have "round_calls log q2 q' c2" using c2 by (simp add: round_calls_def rdtsc_def)
  with round_calls_trans c1 have "round_calls log q1 q' (c2 @ c1)" by blast
  then have "log (ud_rest (rq_udt q')) = (c2 @ c1) @ log (ud_rest (rq_udt q))"
    "\<forall>u. ru_time (rq_ulist q') u = ru_time (rq_ulist q1) u \<or> (u, CheckTimers) \<in> set (c2 @ c1)"
    using take_new_calls(1) [OF q(1)] by (simp_all add: round_calls_def)
  then show ?thesis using take_new_calls(2) [OF q(1)] by (intro exI [of _ "c2 @ c1"]) metis
qed

text \<open>C26:
  every round of the receiving thread ends, whatever comes from the network and whatever the sockets
  do when they are called, provided that sockets have ids of their own, that a socket is announced
  only while it is not on the list, and that the clock does not run backwards and has run for a tenth of a
  second. After the round every socket on the list has a time stamp of the last tenth of a second, and the
  table finds by their ids exactly the sockets on the list. A socket that was on the list before, with an
  older stamp, and still is has had its timers checked in this round, as sockets that keep a log of
  their calls show; a socket to which nothing is sent is kept alive by these checks alone.
\<close>

theorem receiving_rounds_end:
  assumes "rq_reach le clk handle sock freq n q" "ids_ok sock" "mono clk" "100000 * freq \<le> clk 0"
    and "announced_once q" "card {u. ru_on (rq_ulist q) u} < fuel"
  shows "\<exists>q' t. rcv_worker le clk handle mem sock freq fuel datagram q = Inr q' \<and> rq_ticks q \<le> t \<and> t < rq_ticks q'
    \<and> (\<forall>u. ru_on (rq_ulist q') u \<longrightarrow> clk t - 100000 * freq \<le> ru_time (rq_ulist q') u)
    \<and> (\<forall>u. hash_lookup (sk_id (sock u)) (rq_hash q') = Inr (if ru_on (rq_ulist q') u then Some u else None))
    \<and> (\<forall>log. keeps_log handle log \<longrightarrow> (\<exists>calls. log (ud_rest (rq_udt q')) = calls @ log (ud_rest (rq_udt q)) \<and>
        (\<forall>u. ru_on (rq_ulist q) u \<and> ru_on (rq_ulist q') u \<and> ru_time (rq_ulist q) u < clk t - 100000 * freq \<longrightarrow>
          (u, CheckTimers) \<in> set calls)))"
proof -
  obtain xs where xs: "10 \<le> n" "rq_ok n clk sock xs q" using rq_reach_ok [OF assms(1-4)] by blast
  have "distinct xs" "{u. ru_on (rq_ulist q) u} = set xs" using xs(2) by (simp_all add: rq_ok_def ru_list_def)
  then have "length xs < fuel" using assms(6) by (simp add: distinct_card)
  then obtain q' ys t where q': "rcv_worker le clk handle mem sock freq fuel datagram q = Inr q'" "rq_ok n clk sock ys q'"
    "rq_ticks q \<le> t" "t < rq_ticks q'" "\<forall>u \<in> set ys. clk t - 100000 * freq \<le> ru_time (rq_ulist q') u"
    using rcv_worker_ok [OF xs(2) assms(2,3) xs(1) assms(5,4)] by blast
  have "hash_lookup (sk_id (sock u)) (rq_hash q') = Inr (if u \<in> set ys then Some u else None)" for u
  proof -
    have tab: "table_ok sock ys (rq_hash q')" using q'(2) by (simp add: rq_ok_def)
    have "0 \<le> sk_id (sock u)" using assms(2) by (simp add: ids_ok_def less_imp_le)
    then show ?thesis using table_lookup [OF tab] table_stack [OF tab assms(2), of u] by simp
  qed
  moreover have "\<exists>calls. log (ud_rest (rq_udt q')) = calls @ log (ud_rest (rq_udt q)) \<and>
        (\<forall>u. ru_on (rq_ulist q) u \<and> ru_on (rq_ulist q') u \<and> ru_time (rq_ulist q) u < clk t - 100000 * freq \<longrightarrow>
          (u, CheckTimers) \<in> set calls)" if keeps: "keeps_log handle log" for log
  proof -
    obtain calls where calls: "log (ud_rest (rq_udt q')) = calls @ log (ud_rest (rq_udt q))"
      "\<forall>u. u \<notin> set (ud_new (rq_udt q)) \<longrightarrow> ru_time (rq_ulist q') u = ru_time (rq_ulist q) u \<or> (u, CheckTimers) \<in> set calls"
      using rcv_worker_calls [OF keeps q'(1)] by blast
    have "(u, CheckTimers) \<in> set calls"
      if u: "ru_on (rq_ulist q) u" "ru_on (rq_ulist q') u" "ru_time (rq_ulist q) u < clk t - 100000 * freq" for u
    proof -
      have "u \<notin> set (ud_new (rq_udt q))" using assms(5) u(1) by (auto simp: announced_once_def)
      moreover have "ru_time (rq_ulist q') u \<noteq> ru_time (rq_ulist q) u"
        using q'(5) u(2,3) rq_ok_on [OF q'(2)] by (metis leD)
      ultimately show ?thesis using calls(2) by blast
    qed
    then show ?thesis using calls(1) by blast
  qed
  ultimately show ?thesis using q' rq_ok_on [OF q'(2)] by (intro exI [of _ q'] exI [of _ t]) simp
qed

text \<open>C27:
  a packet that carries the id of a socket reaches this socket and no other: when the socket is on the
  list, the packet came from its peer and the socket is connected, it is called with the packet and
  then to check its timers, and else no socket is called.
\<close>

theorem packets_reach_their_socket:
  assumes "rq_reach le clk handle sock freq n q" "ids_ok sock" "mono clk" "100000 * freq \<le> clk 0"
    and "p = cu_packet (uq_units (ud_units (rq_udt q)) m)" "sint (pk_id p) = sk_id (sock u)"
  shows "\<exists>q'. deliver clk handle mem sock addr m q = Inr q' \<and> rq_udt q' =
    (if ru_on (rq_ulist q) u \<and> ipcmp addr (sk_peer (sock u)) (sk_version (sock u)) \<and> live (rq_udt q) u
     then call_socket handle u CheckTimers
       (call_socket handle u (if getFlag p = 0 then ProcessData m else ProcessCtrl p) (rq_udt q))
     else rq_udt q)"
proof -
  obtain xs where xs: "10 \<le> n" "rq_ok n clk sock xs q" using rq_reach_ok [OF assms(1-4)] by blast
  have inj: "sk_id (sock v) = sk_id (sock u) \<longleftrightarrow> v = u" for v using assms(2) by (auto simp: ids_ok_def dest: injD)
  have pos: "0 < sint (pk_id (cu_packet (uq_units (ud_units (rq_udt q)) m)))" using assms(2,5,6) by (simp add: ids_ok_def)
  have "addressed sock (sk_id (sock u)) xs = (if u \<in> set xs then Some u else None)" for xs
    by (induction xs) (auto simp: addressed_def inj)
  then have addr: "addressed sock (sint (pk_id (cu_packet (uq_units (ud_units (rq_udt q)) m)))) xs
      = (if ru_on (rq_ulist q) u then Some u else None)"
    using assms(5,6) rq_ok_on [OF xs(2)] by simp
  show ?thesis
  proof (cases "ru_on (rq_ulist q) u \<and> ipcmp addr (sk_peer (sock u)) (sk_version (sock u)) \<and> live (rq_udt q) u")
    case True
    then have u: "addressed sock (sint (pk_id (cu_packet (uq_units (ud_units (rq_udt q)) m)))) xs = Some u"
      "ipcmp addr (sk_peer (sock u)) (sk_version (sock u))" "live (rq_udt q) u" using addr by simp_all
    have "\<exists>q'. deliver clk handle mem sock addr m q = Inr q' \<and> rq_ok n clk sock (remove1 u xs @ [u]) q'
      \<and> rq_udt q' = call_socket handle u CheckTimers (call_socket handle u
        (let p = cu_packet (uq_units (ud_units (rq_udt q)) m) in if 0 = getFlag p then ProcessData m else ProcessCtrl p) (rq_udt q))
      \<and> ru_time (rq_ulist q') u = clk (rq_ticks q) \<and> rq_ticks q' = Suc (rq_ticks q)"
      by (rule deliver_socket [OF xs(2) assms(2,3) refl pos u])
    moreover have "(let p = cu_packet (uq_units (ud_units (rq_udt q)) m) in if 0 = getFlag p then ProcessData m else ProcessCtrl p)
      = (if getFlag p = 0 then ProcessData m else ProcessCtrl p)" using assms(5) by (simp only: Let_def eq_commute [of 0])
    ultimately show ?thesis using True by auto
  next
    case False
    have "\<exists>q'. deliver clk handle mem sock addr m q = Inr q' \<and> rq_udt q' = rq_udt q \<and> rq_ulist q' = rq_ulist q
        \<and> rq_hash q' = rq_hash q \<and> rq_ticks q' = rq_ticks q"
      by (rule deliver_other [OF xs(2) assms(2) refl pos, of u]) (use addr False in \<open>auto split: if_splits\<close>)
    then show ?thesis using False by auto
  qed
qed

text \<open>
  A queue that has just been made, to which the socket 6 is announced; the sockets write down how
  they are called.
\<close>

definition noting_sockets :: "(nat \<times> call) list sockets" where
  "noting_sockets = (\<lambda>u c s. s\<lparr>ud_rest := (u, c) # ud_rest s\<rparr>)"

definition some_socks :: "nat \<Rightarrow> sock" where
  "some_socks u = \<lparr>sk_id = int u + 1, sk_peer = \<lparr>sa_port = 0, sa_addr = 0, sa_addr6 = (\<lambda>_. 0)\<rparr>, sk_version = 2\<rparr>"

definition some_udt :: "nat list \<Rightarrow> (nat \<times> call) list udt" where
  "some_udt new = \<lparr>ud_units = UnitQueue_new (\<lambda>_. \<lparr>cu_packet = Packet_new 0 0 0 0 (\<lambda>_. 0) 0, cu_flag = 0\<rparr>) 0, ud_listener = None,
     ud_rendezvous = [], ud_new = new, ud_flags = (\<lambda>_. \<lparr>fl_connected = True, fl_broken = False, fl_closing = False\<rparr>), ud_rest = []\<rparr>"

definition some_queue :: "(nat \<times> call) list rcv_queue" where
  "some_queue = (RcvQueue_init (int 32) 1456 4 1024 (RcvUList_new (\<lambda>_. 0) (\<lambda>_. None) (\<lambda>_. None)) (some_udt []))
     \<lparr>rq_udt := (some_udt [6])\<lparr>ud_units := uq_init (int 32) 1456 4 (ud_units (some_udt []))\<rparr>, rq_store := Map.empty\<rparr>"

definition slow_clock :: "nat \<Rightarrow> 64 word" where
  "slow_clock _ = 1000000"

lemma some_queue_facts:
  "rq_reach True slow_clock noting_sockets some_socks 1 32 some_queue" "ids_ok some_socks" "mono slow_clock"
  "announced_once some_queue" "\<not> ru_on (rq_ulist some_queue) u" "100000 * 1 \<le> slow_clock 0" "keeps_log noting_sockets (\<lambda>l. l)"
proof -
  let ?q = "RcvQueue_init (int 32) 1456 4 1024 (RcvUList_new (\<lambda>_. 0) (\<lambda>_. None) (\<lambda>_. None)) (some_udt [])"
  have "rq_reach True slow_clock noting_sockets some_socks 1 32 ?q" by (rule rq_reach.init) (simp_all add: some_udt_def)
  then show "rq_reach True slow_clock noting_sockets some_socks 1 32 some_queue"
    unfolding some_queue_def
    by (rule rq_reach.sockets [where units = "uq_units (ud_units (rq_udt ?q))" and count = "uq_count (ud_units (rq_udt ?q))"])
      (simp add: RcvQueue_init_def)
qed (simp_all add: ids_ok_def some_socks_def inj_def monoI slow_clock_def announced_once_def some_queue_def RcvQueue_init_def
    RcvUList_new_def some_udt_def keeps_log_def noting_sockets_def)

lemma some_round:
  "\<exists>q'. rcv_worker True slow_clock noting_sockets (\<lambda>_. 0) some_socks 1 1 None some_queue = Inr q' \<and> ru_on (rq_ulist q') 6"
  by (simp add: rcv_worker_def take_new_def some_queue_def RcvQueue_init_def some_udt_def getNewEntry_def rdtsc_def RcvUList_new_def
      ru_insert_def hash_insert_def hash_pos_def hash_init_def hash_new_def some_socks_def receive_one_def getNextAvailUnit_def
      uq_init_def new_entry_def UnitQueue_new_def Let_def scan_units.simps recvfrom_def check_timers_def timer_loop.simps slow_clock_def
      setLength_def)

lemma receiving_rounds_end_witness:
  "\<exists>q' calls. rcv_worker True slow_clock noting_sockets (\<lambda>_. 0) some_socks 1 1 None some_queue = Inr q' \<and>
    hash_lookup 7 (rq_hash q') = Inr (Some 6) \<and> ud_rest (rq_udt q') = calls @ ud_rest (rq_udt some_queue)"
proof -
  have "card {u. ru_on (rq_ulist some_queue) u} < 1" by (simp add: some_queue_facts)
  from receiving_rounds_end [OF some_queue_facts(1,2,3,6,4) this, of "\<lambda>_. 0" None] obtain q' where
    q': "rcv_worker True slow_clock noting_sockets (\<lambda>_. 0) some_socks 1 1 None some_queue = Inr q'"
    "\<forall>u. hash_lookup (sk_id (some_socks u)) (rq_hash q') = Inr (if ru_on (rq_ulist q') u then Some u else None)"
    "\<exists>calls. ud_rest (rq_udt q') = calls @ ud_rest (rq_udt some_queue)"
    using some_queue_facts(7) by blast
  have "ru_on (rq_ulist q') 6" using some_round q'(1) by auto
  moreover have "sk_id (some_socks 6) = 7" by (simp add: some_socks_def)
  ultimately show ?thesis using q' by metis
qed

text \<open>Then a packet for it comes from its peer.\<close>

lemma packets_reach_their_socket_witness:
  "\<exists>q p q'. ru_on (rq_ulist q) 6 \<and>
    deliver slow_clock noting_sockets (\<lambda>_. 0) some_socks (sk_peer (some_socks 6)) 0 q = Inr q' \<and>
    ud_rest (rq_udt q') = (6, CheckTimers) # (6, ProcessData 0) # ud_rest (rq_udt q)"
proof -
  obtain q1 where q1: "rcv_worker True slow_clock noting_sockets (\<lambda>_. 0) some_socks 1 1 None some_queue = Inr q1"
    "ru_on (rq_ulist q1) 6" using some_round by blast
  have reach: "rq_reach True slow_clock noting_sockets some_socks 1 32 q1"
    by (rule rq_reach.worker [OF some_queue_facts(1,4) q1(1)])
  let ?p = "Packet_new 0 0 0 7 (\<lambda>_. 0) 0"
  let ?s = "(some_udt [])\<lparr>ud_units := (ud_units (rq_udt q1))\<lparr>uq_units := (\<lambda>_. \<lparr>cu_packet = ?p, cu_flag = 0\<rparr>), uq_count := 0\<rparr>\<rparr>"
  let ?q = "q1\<lparr>rq_udt := ?s, rq_store := Map.empty\<rparr>"
  have "rq_reach True slow_clock noting_sockets some_socks 1 32 ?q"
    by (rule rq_reach.sockets [OF reach]) simp
  from packets_reach_their_socket [OF this some_queue_facts(2,3,6), of ?p 0 6 "\<lambda>_. 0" "sk_peer (some_socks 6)"] obtain q' where
    "deliver slow_clock noting_sockets (\<lambda>_. 0) some_socks (sk_peer (some_socks 6)) 0 ?q = Inr q'"
    "rq_udt q' = call_socket noting_sockets 6 CheckTimers (call_socket noting_sockets 6 (ProcessData 0) (rq_udt ?q))"
    using q1(2) by (auto simp: Packet_new_def some_socks_def ipcmp_def AF_INET_def live_def some_udt_def getFlag_def)
  then show ?thesis using q1(2) log_call [OF some_queue_facts(7)] by (intro exI [of _ ?q]) auto
qed

end
