(* ===== verification/UdtCache.thy ===== *)
theory UdtCache
  imports UdtRcvQueue
begin

text \<open>
  What the transport remembers of the paths to other hosts (\<open>CCache\<close> of \<open>src/udt/cache.cpp\<close>): blocks
  that two sets point to, one ordered by addresses and one by time stamps. A set is the list of its
  pointers in its order; since the order reads the blocks, an operation on a set that holds a pointer
  to a deleted block is undefined. Fields of \<open>CInfoBlock\<close> that the cache never touches are left out.
\<close>

record info_block =
  ib_ip :: "32 word list"
  ib_version :: int
  ib_time :: "64 word"
  ib_rtt :: int
  ib_bandwidth :: int

fun ip_after :: "32 word list \<Rightarrow> 32 word list \<Rightarrow> bool" where
  "ip_after (a # as) (b # bs) = (if a \<noteq> b then a > b else ip_after as bs)"
| "ip_after _ _ = False"

definition CIPComp :: "info_block \<Rightarrow> info_block \<Rightarrow> bool" where
  "CIPComp ib1 ib2 =
     (if ib_version ib1 \<noteq> ib_version ib2 then ib_version ib1 < ib_version ib2
      else if ib_version ib1 = AF_INET then ib_ip ib1 ! 0 > ib_ip ib2 ! 0
      else ip_after (ib_ip ib1) (ib_ip ib2))"

definition CTSComp :: "info_block \<Rightarrow> info_block \<Rightarrow> bool" where
  "CTSComp ib1 ib2 \<longleftrightarrow> ib_time ib1 > ib_time ib2"

section \<open>Sets of pointers\<close>

definition equiv :: "(info_block \<Rightarrow> info_block \<Rightarrow> bool) \<Rightarrow> info_block \<Rightarrow> info_block \<Rightarrow> bool" where
  "equiv lt x y \<longleftrightarrow> \<not> lt x y \<and> \<not> lt y x"

definition alive :: "(nat \<rightharpoonup> info_block) \<Rightarrow> nat list \<Rightarrow> bool" where
  "alive h xs \<longleftrightarrow> list_all (\<lambda>p. h p \<noteq> None) xs"

text \<open>\<open>find\<close>, \<open>insert\<close> and \<open>erase\<close> with a key, on a set that is ordered.\<close>

definition set_find :: "(info_block \<Rightarrow> info_block \<Rightarrow> bool) \<Rightarrow> (nat \<rightharpoonup> info_block) \<Rightarrow> info_block \<Rightarrow> nat list \<Rightarrow> nat option res" where
  "set_find lt h x xs = (if alive h xs then Inr (find (\<lambda>p. equiv lt x (the (h p))) xs) else Inl Undefined)"

fun put_in :: "(info_block \<Rightarrow> info_block \<Rightarrow> bool) \<Rightarrow> (nat \<rightharpoonup> info_block) \<Rightarrow> nat \<Rightarrow> nat list \<Rightarrow> nat list" where
  "put_in lt h p [] = [p]"
| "put_in lt h p (y # ys) =
     (if lt (the (h p)) (the (h y)) then p # y # ys
      else if lt (the (h y)) (the (h p)) then y # put_in lt h p ys
      else y # ys)"

definition set_insert :: "(info_block \<Rightarrow> info_block \<Rightarrow> bool) \<Rightarrow> (nat \<rightharpoonup> info_block) \<Rightarrow> nat \<Rightarrow> nat list \<Rightarrow> nat list res" where
  "set_insert lt h p xs = (if alive h (p # xs) then Inr (put_in lt h p xs) else Inl Undefined)"

definition set_erase :: "(info_block \<Rightarrow> info_block \<Rightarrow> bool) \<Rightarrow> (nat \<rightharpoonup> info_block) \<Rightarrow> nat \<Rightarrow> nat list \<Rightarrow> nat list res" where
  "set_erase lt h p xs =
     (if alive h (p # xs) then Inr (filter (\<lambda>q. \<not> equiv lt (the (h p)) (the (h q))) xs) else Inl Undefined)"

section \<open>CCache\<close>

record ccache =
  cc_size :: nat
  cc_ip :: "nat list"
  cc_ts :: "nat list"
  cc_heap :: "nat \<rightharpoonup> info_block"
  cc_fresh :: nat

definition Cache_new :: "nat \<Rightarrow> ccache" where
  "Cache_new sz = \<lparr>cc_size = sz, cc_ip = [], cc_ts = [], cc_heap = Map.empty, cc_fresh = 0\<rparr>"

definition Cache_default :: ccache where
  "Cache_default = Cache_new 1024"

text \<open>\<open>delete\<close> of a block.\<close>

definition free_block :: "nat \<Rightarrow> ccache \<Rightarrow> ccache res" where
  "free_block p c = (if cc_heap c p = None then Inl Undefined else Inr (c\<lparr>cc_heap := (cc_heap c)(p := None)\<rparr>))"

definition Cache_destroy :: "ccache \<Rightarrow> ccache res" where
  "Cache_destroy c = fold_res (\<lambda>c p. free_block p c) c (cc_ts c)"

text \<open>The four words of an address; those of version 6 as the host reads them in memory.\<close>

definition convert_addr :: "bool \<Rightarrow> sockaddr \<Rightarrow> int \<Rightarrow> 32 word list" where
  "convert_addr le addr ver =
     (if ver = AF_INET then [sa_addr addr, 0, 0, 0]
      else map (word_at le (sa_addr6 addr)) [0..<4])"

text \<open>The second half of \<open>update\<close>: the new block goes into both sets, and the first one by time goes when there are too many.\<close>

definition insert_block :: "nat \<Rightarrow> ccache \<Rightarrow> ccache res" where
  "insert_block n c =
      bind_res (set_insert CIPComp (cc_heap c) n (cc_ip c)) (\<lambda>ips.
      bind_res (set_insert CTSComp (cc_heap c) n (cc_ts c)) (\<lambda>ts.
      let c = c\<lparr>cc_ip := ips, cc_ts := ts\<rparr> in
      if length (cc_ts c) > cc_size c
      then case cc_ts c of
          [] \<Rightarrow> Inl Undefined
        | tmp # rest \<Rightarrow>
            bind_res (set_erase CIPComp (cc_heap c) tmp (cc_ip c)) (\<lambda>ips.
            free_block tmp (c\<lparr>cc_ip := ips, cc_ts := rest\<rparr>))
      else Inr c))"

text \<open>\<open>update\<close> at the time \<open>now\<close> with the round trip time and the bandwidth of \<open>ib\<close>.\<close>

definition cc_update :: "bool \<Rightarrow> 64 word \<Rightarrow> sockaddr \<Rightarrow> int \<Rightarrow> info_block \<Rightarrow> ccache \<Rightarrow> ccache res" where
  "cc_update le now addr ver ib c =
     (let n = cc_fresh c;
          newib = \<lparr>ib_ip = convert_addr le addr ver, ib_version = ver, ib_time = 0, ib_rtt = 0, ib_bandwidth = 0\<rparr>;
          c = c\<lparr>cc_heap := (cc_heap c)(n \<mapsto> newib), cc_fresh := n + 1\<rparr> in
      bind_res (set_find CIPComp (cc_heap c) newib (cc_ip c)) (\<lambda>i.
      bind_res (case i of
          None \<Rightarrow> Inr c
        | Some p \<Rightarrow>
            bind_res (set_erase CTSComp (cc_heap c) p (cc_ts c)) (\<lambda>ts.
            bind_res (free_block p (c\<lparr>cc_ts := ts\<rparr>)) (\<lambda>c.
            Inr (c\<lparr>cc_ip := remove1 p (cc_ip c)\<rparr>)))) (\<lambda>c.
      let newib = newib\<lparr>ib_rtt := ib_rtt ib, ib_bandwidth := ib_bandwidth ib, ib_time := now\<rparr> in
      insert_block n (c\<lparr>cc_heap := (cc_heap c)(n \<mapsto> newib)\<rparr>))))"

text \<open>\<open>lookup\<close> fills the block of the caller, and tells whether it found the address.\<close>

definition cc_lookup :: "bool \<Rightarrow> sockaddr \<Rightarrow> int \<Rightarrow> info_block \<Rightarrow> ccache \<Rightarrow> (info_block \<times> int) res" where
  "cc_lookup le addr ver ib c =
     (let ib = ib\<lparr>ib_ip := convert_addr le addr ver, ib_version := ver\<rparr> in
      bind_res (set_find CIPComp (cc_heap c) ib (cc_ip c)) (\<lambda>i. case i of
        None \<Rightarrow> Inr (ib, - 1)
      | Some p \<Rightarrow>
          let b = the (cc_heap c p) in
          Inr (ib\<lparr>ib_time := ib_time b, ib_rtt := ib_rtt b, ib_bandwidth := ib_bandwidth b\<rparr>, 1)))"

end
