(* ===== verification/UdtCacheProperties.thy ===== *)
theory UdtCacheProperties
  imports UdtCache
begin

text \<open>
  The cache of paths is a map from addresses to what was measured last, as long as the clock moves
  on between the updates. When it is full it learns no address any more: the set by time stamps has
  the newest block in front, which is the block that goes.
\<close>

section \<open>Addresses as keys\<close>

type_synonym key = "int \<times> 32 word list"

definition key_of :: "info_block \<Rightarrow> key" where
  "key_of b = (ib_version b, ib_ip b)"

definition val_of :: "info_block \<Rightarrow> 64 word \<times> int \<times> int" where
  "val_of b = (ib_time b, ib_rtt b, ib_bandwidth b)"

definition converted_block :: "info_block \<Rightarrow> bool" where
  "converted_block b \<longleftrightarrow> length (ib_ip b) = 4 \<and> (ib_version b = AF_INET \<longrightarrow> tl (ib_ip b) = [0, 0, 0])"

lemma converted_convert [simp]: "converted_block \<lparr>ib_ip = convert_addr le addr ver, ib_version = ver, ib_time = t, ib_rtt = r, ib_bandwidth = w\<rparr>"
  by (simp add: converted_block_def convert_addr_def)

lemma ip_after_total: "length as = length bs \<Longrightarrow> \<not> ip_after as bs \<Longrightarrow> \<not> ip_after bs as \<Longrightarrow> as = bs"
  by (induction as bs rule: ip_after.induct) (auto split: if_splits)

lemma ip_after_irrefl [simp]: "\<not> ip_after as as"
  by (induction as) auto

lemma equiv_CIPComp:
  assumes "converted_block x" "converted_block y"
  shows "equiv CIPComp x y \<longleftrightarrow> key_of x = key_of y"
proof (cases "ib_version x = ib_version y")
  case True
  have "ib_ip x = (ib_ip x ! 0) # tl (ib_ip x)" "ib_ip y = (ib_ip y ! 0) # tl (ib_ip y)"
    using assms by (cases "ib_ip x"; cases "ib_ip y"; simp add: converted_block_def)+
  then have "ib_version x = AF_INET \<Longrightarrow> ib_ip x = ib_ip y \<longleftrightarrow> ib_ip x ! 0 = ib_ip y ! 0"
    using assms True by (metis converted_block_def)
  then show ?thesis
    using True assms ip_after_total [of "ib_ip x" "ib_ip y"]
    by (auto simp: equiv_def CIPComp_def key_of_def converted_block_def not_less)
next
  case False
  then show ?thesis by (auto simp: equiv_def CIPComp_def key_of_def)
qed

lemma equiv_CTSComp: "equiv CTSComp x y \<longleftrightarrow> ib_time x = ib_time y"
  by (auto simp: equiv_def CTSComp_def not_less)

lemma put_in_new:
  assumes "\<forall>q \<in> set xs. \<not> equiv lt (the (h p)) (the (h q))"
  shows "set (put_in lt h p xs) = insert p (set xs)" "length (put_in lt h p xs) = Suc (length xs)"
    "p \<notin> set xs \<Longrightarrow> distinct xs \<Longrightarrow> distinct (put_in lt h p xs)"
    "filter (\<lambda>q. q \<noteq> p) (put_in lt h p xs) = filter (\<lambda>q. q \<noteq> p) xs"
  using assms by (induction xs) (auto simp: equiv_def)

lemma put_in_first: "\<forall>q \<in> set xs. lt (the (h p)) (the (h q)) \<Longrightarrow> put_in lt h p xs = p # xs"
  by (cases xs) auto

section \<open>The map\<close>

definition cc_ok :: "nat \<Rightarrow> 64 word \<Rightarrow> ccache \<Rightarrow> (key \<rightharpoonup> 64 word \<times> int \<times> int) \<Rightarrow> bool" where
  "cc_ok sz t c m \<longleftrightarrow> cc_size c = sz \<and> distinct (cc_ip c) \<and> distinct (cc_ts c) \<and> set (cc_ts c) = set (cc_ip c)
    \<and> dom (cc_heap c) = set (cc_ip c) \<and> (\<forall>p \<in> set (cc_ip c). p < cc_fresh c) \<and> length (cc_ip c) \<le> sz
    \<and> (\<forall>p \<in> set (cc_ip c). converted_block (the (cc_heap c p)) \<and> ib_time (the (cc_heap c p)) \<le> t)
    \<and> inj_on (\<lambda>p. key_of (the (cc_heap c p))) (set (cc_ip c)) \<and> inj_on (\<lambda>p. ib_time (the (cc_heap c p))) (set (cc_ip c))
    \<and> (\<forall>k v. m k = Some v \<longleftrightarrow> (\<exists>p \<in> set (cc_ip c). key_of (the (cc_heap c p)) = k \<and> val_of (the (cc_heap c p)) = v))"

lemma cc_ok_alive:
  assumes "cc_ok sz t c m"
  shows "alive (cc_heap c) (cc_ip c)" "alive (cc_heap c) (cc_ts c)"
proof -
  have "dom (cc_heap c) = set (cc_ip c)" "set (cc_ts c) = set (cc_ip c)" using assms by (simp_all add: cc_ok_def)
  then show "alive (cc_heap c) (cc_ip c)" "alive (cc_heap c) (cc_ts c)"
    unfolding alive_def list_all_iff by (metis domIff)+
qed

lemma cc_ok_dom:
  assumes "cc_ok sz t c m"
  shows "dom m = (\<lambda>p. key_of (the (cc_heap c p))) ` set (cc_ip c)" "card (dom m) = length (cc_ip c)"
    "length (cc_ts c) = length (cc_ip c)"
proof -
  have iff: "m k = Some v \<longleftrightarrow> (\<exists>p \<in> set (cc_ip c). key_of (the (cc_heap c p)) = k \<and> val_of (the (cc_heap c p)) = v)" for k v
    using assms by (simp add: cc_ok_def del: split_paired_All)
  have "k \<in> dom m \<longleftrightarrow> (\<exists>p \<in> set (cc_ip c). k = key_of (the (cc_heap c p)))" for k
    unfolding dom_def mem_Collect_eq not_None_eq iff by metis
  then show dom: "dom m = (\<lambda>p. key_of (the (cc_heap c p))) ` set (cc_ip c)" unfolding set_eq_iff image_iff by blast
  show "card (dom m) = length (cc_ip c)"
    unfolding dom using assms by (simp add: cc_ok_def card_image distinct_card)
  show "length (cc_ts c) = length (cc_ip c)" using assms by (metis cc_ok_def distinct_card)
qed

text \<open>Looking an address up.\<close>

lemma find_key:
  assumes "cc_ok sz t c m" "converted_block x"
  shows "set_find CIPComp (cc_heap c) x (cc_ip c) = Inr (find (\<lambda>p. key_of x = key_of (the (cc_heap c p))) (cc_ip c))"
proof -
  have "find (\<lambda>p. equiv CIPComp x (the (cc_heap c p))) xs = find (\<lambda>p. key_of x = key_of (the (cc_heap c p))) xs"
    if "set xs \<subseteq> set (cc_ip c)" for xs
    using that assms by (induction xs) (auto simp: cc_ok_def equiv_CIPComp)
  then show ?thesis using cc_ok_alive(1) [OF assms(1)] by (simp add: set_find_def)
qed

lemma cc_lookup_ok:
  assumes "cc_ok sz t c m"
  shows "\<exists>ib'. cc_lookup le addr ver ib c = Inr (ib', if (ver, convert_addr le addr ver) \<in> dom m then 1 else - 1)
    \<and> (\<forall>v. m (ver, convert_addr le addr ver) = Some v \<longrightarrow> val_of ib' = v)"
proof -
  let ?k = "(ver, convert_addr le addr ver)" and ?x = "ib\<lparr>ib_ip := convert_addr le addr ver, ib_version := ver\<rparr>"
  have conv: "converted_block ?x" by (simp add: converted_block_def convert_addr_def)
  have key: "key_of ?x = ?k" by (simp add: key_of_def)
  note found = find_key [OF assms conv]
  show ?thesis
  proof (cases "find (\<lambda>p. key_of ?x = key_of (the (cc_heap c p))) (cc_ip c)")
    case None
    then have "?k \<notin> dom m" using cc_ok_dom(1) [OF assms] key by (auto simp: find_None_iff)
    then show ?thesis using found None by (auto simp: cc_lookup_def domIff)
  next
    case (Some p)
    then have p: "p \<in> set (cc_ip c)" "key_of (the (cc_heap c p)) = ?k" using key by (auto simp: find_Some_iff)
    then have "m ?k = Some (val_of (the (cc_heap c p)))" using assms unfolding cc_ok_def by blast
    then show ?thesis using found Some by (auto simp: cc_lookup_def Let_def val_of_def)
  qed
qed

text \<open>Updating: an address that is known gets the new values; a new one is added when there is room, and else nothing changes.\<close>

lemma erase_time:
  assumes "cc_ok sz t c m" "p \<in> set (cc_ip c)" "n \<notin> set (cc_ip c)"
  shows "set_erase CTSComp ((cc_heap c)(n \<mapsto> b)) p (cc_ts c) = Inr (filter (\<lambda>q. q \<noteq> p) (cc_ts c))"
proof -
  have "alive ((cc_heap c)(n \<mapsto> b)) (p # cc_ts c)"
    using assms by (auto simp: cc_ok_def alive_def list_all_iff dom_def)
  moreover have "filter (\<lambda>q. \<not> equiv CTSComp (the (((cc_heap c)(n \<mapsto> b)) p)) (the (((cc_heap c)(n \<mapsto> b)) q))) (cc_ts c) = filter (\<lambda>q. q \<noteq> p) (cc_ts c)"
  proof (rule filter_cong [OF refl])
    fix q assume "q \<in> set (cc_ts c)"
    then have "q \<in> set (cc_ip c)" "q \<noteq> n" "p \<noteq> n" using assms by (auto simp: cc_ok_def)
    then show "(\<not> equiv CTSComp (the (((cc_heap c)(n \<mapsto> b)) p)) (the (((cc_heap c)(n \<mapsto> b)) q))) = (q \<noteq> p)"
      using assms(1,2) by (auto simp: equiv_CTSComp cc_ok_def dest: inj_onD)
  qed
  ultimately show ?thesis by (simp add: set_erase_def)
qed

lemma insert_block_ok:
  assumes "cc_ok sz t c m" "t < ib_time b" "converted_block b" "key_of b \<notin> dom m" "n \<notin> set (cc_ip c)"
  shows "\<exists>c'. insert_block n (c\<lparr>cc_fresh := n + 1, cc_heap := (cc_heap c)(n \<mapsto> b)\<rparr>) = Inr c'
    \<and> (cc_fresh c \<le> n \<longrightarrow> cc_ok sz (ib_time b) c' (if card (dom m) < sz then m(key_of b \<mapsto> val_of b) else m))"
proof -
  define h where "h = (cc_heap c)(n \<mapsto> b)"
  have h: "h n = Some b" "\<And>q. q \<noteq> n \<Longrightarrow> h q = cc_heap c q" by (simp_all add: h_def)
  note inv = assms(1) [unfolded cc_ok_def]
  have alive: "alive h (n # cc_ip c)" "alive h (n # cc_ts c)"
    using inv by (auto simp: h_def alive_def list_all_iff dom_def)
  have old: "\<forall>q \<in> set (cc_ip c). h q = cc_heap c q" using assms(5) by (intro ballI h(2)) auto
  have other: "\<forall>q \<in> set (cc_ip c). \<not> equiv CIPComp (the (h n)) (the (h q))"
    using old inv assms(3,4) cc_ok_dom(1) [OF assms(1)] h(1) by (auto simp: equiv_CIPComp)
  have newer: "\<forall>q \<in> set (cc_ts c). CTSComp (the (h n)) (the (h q))"
    using old inv assms(2) h(1) by (force simp: CTSComp_def)
  let ?ips = "put_in CIPComp h n (cc_ip c)"
  have ips: "set ?ips = insert n (set (cc_ip c))" "length ?ips = Suc (length (cc_ip c))" "distinct ?ips"
    "filter (\<lambda>q. q \<noteq> n) ?ips = cc_ip c"
    using put_in_new [OF other] assms(5) inv by (auto intro: filter_True)
  have ts: "put_in CTSComp h n (cc_ts c) = n # cc_ts c" using newer by (intro put_in_first) simp
  have erase: "set_erase CIPComp h n ?ips = Inr (cc_ip c)"
  proof -
    have "alive h (n # ?ips)" using alive(1) ips(1) by (simp add: alive_def list_all_iff)
    moreover have "filter (\<lambda>q. \<not> equiv CIPComp (the (h n)) (the (h q))) ?ips = filter (\<lambda>q. q \<noteq> n) ?ips"
      using ips(1) other assms(3) by (intro filter_cong) (auto simp: equiv_def CIPComp_def)
    ultimately show ?thesis using ips(4) by (simp add: set_erase_def)
  qed
  have len: "length (cc_ts c) = length (cc_ip c)" "card (dom m) = length (cc_ip c)" using cc_ok_dom [OF assms(1)] by simp_all
  show ?thesis
  proof (cases "length (cc_ip c) < sz")
    case True
    let ?c = "c\<lparr>cc_fresh := n + 1, cc_heap := h, cc_ip := ?ips, cc_ts := n # cc_ts c\<rparr>"
    have "insert_block n (c\<lparr>cc_fresh := n + 1, cc_heap := h\<rparr>) = Inr ?c"
      using alive ts True len inv by (simp add: insert_block_def set_insert_def)
    moreover have "cc_ok sz (ib_time b) ?c (m(key_of b \<mapsto> val_of b))" if fresh: "cc_fresh c \<le> n"
    proof -
      have "inj_on (\<lambda>p. key_of (the (h p))) (insert n (set (cc_ip c)))"
      proof -
        have "inj_on (\<lambda>p. key_of (the (h p))) (set (cc_ip c)) = inj_on (\<lambda>p. key_of (the (cc_heap c p))) (set (cc_ip c))"
          "(\<lambda>p. key_of (the (h p))) ` set (cc_ip c) = (\<lambda>p. key_of (the (cc_heap c p))) ` set (cc_ip c)"
          using old by (auto intro!: inj_on_cong image_cong)
        then show ?thesis using inv assms(4,5) cc_ok_dom(1) [OF assms(1)] h(1) by simp
      qed
      moreover have "inj_on (\<lambda>p. ib_time (the (h p))) (insert n (set (cc_ip c)))"
      proof -
        have "inj_on (\<lambda>p. ib_time (the (h p))) (set (cc_ip c)) = inj_on (\<lambda>p. ib_time (the (cc_heap c p))) (set (cc_ip c))"
          "(\<lambda>p. ib_time (the (h p))) ` set (cc_ip c) = (\<lambda>p. ib_time (the (cc_heap c p))) ` set (cc_ip c)"
          using old by (auto intro!: inj_on_cong image_cong)
        moreover have "ib_time b \<notin> (\<lambda>p. ib_time (the (cc_heap c p))) ` set (cc_ip c)" using inv assms(2) by force
        ultimately show ?thesis using inv assms(5) h(1) by simp
      qed
      moreover have "(m(key_of b \<mapsto> val_of b)) k = Some v
          \<longleftrightarrow> (\<exists>p \<in> insert n (set (cc_ip c)). key_of (the (h p)) = k \<and> val_of (the (h p)) = v)" for k v
      proof (cases "k = key_of b")
        case True
        have "\<forall>p \<in> set (cc_ip c). key_of (the (h p)) \<noteq> key_of b" 
          using old assms(4) unfolding cc_ok_dom(1) [OF assms(1)] by (metis imageI)
        then show ?thesis using True h(1) by auto
      next
        case False
        then have "(m(key_of b \<mapsto> val_of b)) k = Some v \<longleftrightarrow> (\<exists>p \<in> set (cc_ip c). key_of (the (cc_heap c p)) = k \<and> val_of (the (cc_heap c p)) = v)"
          using inv by (simp del: split_paired_All)
        moreover have "(\<exists>p \<in> set (cc_ip c). key_of (the (h p)) = k \<and> val_of (the (h p)) = v)
            = (\<exists>p \<in> set (cc_ip c). key_of (the (cc_heap c p)) = k \<and> val_of (the (cc_heap c p)) = v)"
          using old by (intro bex_cong) auto
        ultimately show ?thesis using False h(1) by auto
      qed
      moreover have "\<forall>p \<in> insert n (set (cc_ip c)). converted_block (the (h p)) \<and> ib_time (the (h p)) \<le> ib_time b"
      proof
        fix p assume "p \<in> insert n (set (cc_ip c))"
        moreover have "converted_block (the (cc_heap c q)) \<and> ib_time (the (cc_heap c q)) \<le> ib_time b" if "q \<in> set (cc_ip c)" for q
        proof -
          have "converted_block (the (cc_heap c q))" "ib_time (the (cc_heap c q)) \<le> t" using inv that by blast+
          then show ?thesis using assms(2) by simp
        qed
        ultimately show "converted_block (the (h p)) \<and> ib_time (the (h p)) \<le> ib_time b"
          using old h(1) assms(3) by auto
      qed
      moreover have "\<forall>p \<in> insert n (set (cc_ip c)). p < n + 1" using inv fresh by force
      moreover have "dom h = insert n (set (cc_ip c))" using inv by (auto simp: h_def)
      moreover have "distinct (n # cc_ts c)" "insert n (set (cc_ts c)) = insert n (set (cc_ip c))" using inv assms(5) by auto
      ultimately show ?thesis using inv ips True by (simp add: cc_ok_def)
    qed
    ultimately show ?thesis unfolding h_def [symmetric] using True len by auto
  next
    case False
    let ?c = "c\<lparr>cc_fresh := n + 1, cc_heap := h(n := None)\<rparr>"
    have "insert_block n (c\<lparr>cc_fresh := n + 1, cc_heap := h\<rparr>) = Inr ?c"
      using alive ts False len inv erase h(1) by (simp add: insert_block_def set_insert_def free_block_def)
    moreover have "h(n := None) = cc_heap c" using inv assms(5) by (auto simp: h_def fun_eq_iff dom_def)
    moreover have "cc_ok sz (ib_time b) (c\<lparr>cc_fresh := n + 1, cc_heap := cc_heap c\<rparr>) m" if "cc_fresh c \<le> n"
      using inv that assms(2) by (fastforce simp: cc_ok_def)
    ultimately show ?thesis unfolding h_def [symmetric] using False len by auto
  qed
qed

lemma cc_update_ok:
  assumes "cc_ok sz t c m" "t < now"
  shows "\<exists>c'. cc_update le now addr ver ib c = Inr c' \<and> cc_ok sz now c'
    (let k = (ver, convert_addr le addr ver); v = (now, ib_rtt ib, ib_bandwidth ib) in
     if k \<in> dom m \<or> card (dom m) < sz then m(k \<mapsto> v) else m)"
proof -
  let ?n = "cc_fresh c" and ?k = "(ver, convert_addr le addr ver)" and ?v = "(now, ib_rtt ib, ib_bandwidth ib)"
  define b0 where "b0 = \<lparr>ib_ip = convert_addr le addr ver, ib_version = ver, ib_time = 0, ib_rtt = 0, ib_bandwidth = 0\<rparr>"
  define b where "b = b0\<lparr>ib_rtt := ib_rtt ib, ib_bandwidth := ib_bandwidth ib, ib_time := now\<rparr>"
  have b: "converted_block b0" "converted_block b" "key_of b0 = ?k" "key_of b = ?k" "val_of b = ?v" "ib_time b = now"
    by (simp_all add: b0_def b_def key_of_def val_of_def)
  note inv = assms(1) [unfolded cc_ok_def]
  have n: "?n \<notin> set (cc_ip c)" using inv by auto
  define h0 where "h0 = (cc_heap c)(?n \<mapsto> b0)"
  have upd: "cc_update le now addr ver ib c = bind_res (set_find CIPComp h0 b0 (cc_ip c)) (\<lambda>i.
      bind_res (case i of
          None \<Rightarrow> Inr (c\<lparr>cc_heap := h0, cc_fresh := ?n + 1\<rparr>)
        | Some p \<Rightarrow>
            bind_res (set_erase CTSComp h0 p (cc_ts c)) (\<lambda>ts.
            bind_res (free_block p (c\<lparr>cc_heap := h0, cc_fresh := ?n + 1, cc_ts := ts\<rparr>)) (\<lambda>c.
            Inr (c\<lparr>cc_ip := remove1 p (cc_ip c)\<rparr>)))) (\<lambda>c.
      insert_block ?n (c\<lparr>cc_heap := (cc_heap c)(?n \<mapsto> b)\<rparr>)))"
    by (simp add: cc_update_def b_def b0_def h0_def Let_def cong: option.case_cong)
  have find: "set_find CIPComp h0 b0 (cc_ip c) = Inr (find (\<lambda>p. ?k = key_of (the (cc_heap c p))) (cc_ip c))"
  proof -
    have "alive h0 (cc_ip c)" using inv by (auto simp: h0_def alive_def list_all_iff dom_def)
    moreover have "find (\<lambda>p. equiv CIPComp b0 (the (h0 p))) xs = find (\<lambda>p. ?k = key_of (the (cc_heap c p))) xs"
      if "set xs \<subseteq> set (cc_ip c)" for xs
      using that inv n b(1,3) by (induction xs) (auto simp: h0_def equiv_CIPComp)
    ultimately show ?thesis by (simp add: set_find_def)
  qed
  show ?thesis
  proof (cases "find (\<lambda>p. ?k = key_of (the (cc_heap c p))) (cc_ip c)")
    case None
    then have k: "?k \<notin> dom m" using cc_ok_dom(1) [OF assms(1)] by (auto simp: find_None_iff)
    have "cc_update le now addr ver ib c = insert_block ?n (c\<lparr>cc_fresh := ?n + 1, cc_heap := (cc_heap c)(?n \<mapsto> b)\<rparr>)"
      using upd find None by (simp add: h0_def)
    then show ?thesis using insert_block_ok [OF assms(1) _ b(2) _ n] assms(2) k b(4-6)
      by (cases "card (dom m) < sz") (simp_all add: Let_def)
  next
    case (Some p)
    then have p: "p \<in> set (cc_ip c)" "key_of (the (cc_heap c p)) = ?k" by (auto simp: find_Some_iff)
    let ?ts = "filter (\<lambda>q. q \<noteq> p) (cc_ts c)"
    let ?c = "c\<lparr>cc_heap := (cc_heap c)(p := None), cc_ts := ?ts, cc_ip := remove1 p (cc_ip c)\<rparr>"
    have "set (remove1 p (cc_ip c)) = set (cc_ip c) - {p}" using inv by simp
    note rm = this
    have k: "?k \<in> dom m" unfolding cc_ok_dom(1) [OF assms(1)] p(2) [symmetric] using p(1) by (rule imageI)
    have ok: "cc_ok sz t ?c (m(?k := None))"
    proof -
      have "(m(?k := None)) k = Some v \<longleftrightarrow> (\<exists>q \<in> set (cc_ip c) - {p}. key_of (the (cc_heap c q)) = k \<and> val_of (the (cc_heap c q)) = v)" for k v
      proof (cases "k = ?k")
        case True
        have "inj_on (\<lambda>p. key_of (the (cc_heap c p))) (set (cc_ip c))" using inv by simp
        from inj_onD [OF this _ _ p(1)] have "q \<in> set (cc_ip c) \<Longrightarrow> key_of (the (cc_heap c q)) = ?k \<Longrightarrow> q = p" for q
          using p(2) by simp
        then show ?thesis using True by auto
      next
        case False
        then show ?thesis using inv p(2) by (auto simp del: split_paired_All)
      qed
      moreover have "inj_on (\<lambda>p. key_of (the (cc_heap c p))) (set (cc_ip c) - {p})" "inj_on (\<lambda>p. ib_time (the (cc_heap c p))) (set (cc_ip c) - {p})"
        using inv by (auto intro: inj_on_diff)
      moreover have "dom ((cc_heap c)(p := None)) = set (cc_ip c) - {p}" using inv by simp
      moreover have "length (cc_ip c) \<le> sz" using inv by simp
      then have "length (remove1 p (cc_ip c)) \<le> sz" by (auto simp: length_remove1)
      moreover have "inj_on (\<lambda>q. key_of (the (((cc_heap c)(p := None)) q))) (set (cc_ip c) - {p}) = inj_on (\<lambda>p. key_of (the (cc_heap c p))) (set (cc_ip c) - {p})"
        "inj_on (\<lambda>q. ib_time (the (((cc_heap c)(p := None)) q))) (set (cc_ip c) - {p}) = inj_on (\<lambda>p. ib_time (the (cc_heap c p))) (set (cc_ip c) - {p})"
        by (rule inj_on_cong; simp)+
      ultimately show ?thesis using inv rm by (simp add: cc_ok_def set_diff_eq del: split_paired_All fun_upd_apply) auto
    qed
    have "cc_update le now addr ver ib c = insert_block ?n (?c\<lparr>cc_fresh := ?n + 1, cc_heap := (cc_heap ?c)(?n \<mapsto> b)\<rparr>)"
    proof -
      have "p \<noteq> ?n" using p(1) n by auto
      moreover have "p \<in> dom h0" using p(1) inv by (auto simp: h0_def)
      then obtain x where "h0 p = Some x" by auto
      moreover have "set_erase CTSComp h0 p (cc_ts c) = Inr ?ts" unfolding h0_def by (rule erase_time [OF assms(1) p(1) n])
      moreover have "(h0(p := None))(?n \<mapsto> b) = (cc_heap c)(p := None, ?n \<mapsto> b)" using \<open>p \<noteq> ?n\<close> by (simp add: h0_def fun_eq_iff)
      ultimately have "cc_update le now addr ver ib c = insert_block ?n
          (c\<lparr>cc_fresh := Suc ?n, cc_ts := ?ts, cc_ip := remove1 p (cc_ip c), cc_heap := (cc_heap c)(p := None, ?n \<mapsto> b)\<rparr>)"
        using upd find Some by (simp add: free_block_def)
      also have "c\<lparr>cc_fresh := Suc ?n, cc_ts := ?ts, cc_ip := remove1 p (cc_ip c), cc_heap := (cc_heap c)(p := None, ?n \<mapsto> b)\<rparr>
          = ?c\<lparr>cc_fresh := ?n + 1, cc_heap := (cc_heap ?c)(?n \<mapsto> b)\<rparr>" by (cases c) simp
      finally show ?thesis .
    qed
    moreover have "card (dom (m(?k := None))) < sz"
    proof -
      have "finite (dom m)" using cc_ok_dom(1) [OF assms(1)] by simp
      from card_Diff1_less [OF this k] have "card (dom (m(?k := None))) < card (dom m)" by (simp only: dom_fun_upd if_True simp_thms)
      moreover have "card (dom m) \<le> sz" using cc_ok_dom(2) [OF assms(1)] inv by simp
      ultimately show ?thesis by simp
    qed
    ultimately show ?thesis using insert_block_ok [OF ok _ b(2), of ?n] assms(2) k b(4-6) n rm by (simp add: Let_def)
  qed
qed

section \<open>Runs\<close>

inductive cc_reach :: "bool \<Rightarrow> nat \<Rightarrow> 64 word \<Rightarrow> ccache \<Rightarrow> (key \<rightharpoonup> 64 word \<times> int \<times> int) \<Rightarrow> bool" for le sz where
  new: "cc_reach le sz 0 (Cache_new sz) Map.empty"
| update: "cc_reach le sz t c m \<Longrightarrow> t < now \<Longrightarrow> cc_update le now addr ver ib c = Inr c'
    \<Longrightarrow> cc_reach le sz now c' (let k = (ver, convert_addr le addr ver) in
      if k \<in> dom m \<or> card (dom m) < sz then m(k \<mapsto> (now, ib_rtt ib, ib_bandwidth ib)) else m)"

lemma cc_reach_ok: "cc_reach le sz t c m \<Longrightarrow> cc_ok sz t c m"
proof (induction rule: cc_reach.induct)
  case new
  then show ?case by (simp add: cc_ok_def Cache_new_def)
next
  case (update t c m now addr ver ib c')
  then show ?case using cc_update_ok [OF update.IH update.hyps(2), of le addr ver ib] by (auto simp: Let_def)
qed

text \<open>C29:
  when the clock moves on between the updates, the cache is a map from addresses to the round trip
  time and the bandwidth measured last: no operation reads or frees a block that is gone, \<open>lookup\<close>
  answers what the map holds, and \<open>update\<close> writes it, except for a new address when the cache is
  full, which is forgotten at once.
\<close>

theorem cache_is_a_map_until_full:
  assumes "cc_reach le sz t c m" "t < now" "k = (ver, convert_addr le addr ver)"
  shows "(\<exists>ib'. cc_lookup le addr ver ib c = Inr (ib', if k \<in> dom m then 1 else - 1)
      \<and> (\<forall>v. m k = Some v \<longrightarrow> (ib_time ib', ib_rtt ib', ib_bandwidth ib') = v))
    \<and> (\<exists>c'. cc_update le now addr ver ib c = Inr c'
      \<and> cc_reach le sz now c' (if k \<in> dom m \<or> card (dom m) < sz then m(k \<mapsto> (now, ib_rtt ib, ib_bandwidth ib)) else m))"
proof -
  note ok = cc_reach_ok [OF assms(1)]
  obtain c' where c': "cc_update le now addr ver ib c = Inr c'" using cc_update_ok [OF ok assms(2)] by blast
  have "cc_reach le sz now c' (if k \<in> dom m \<or> card (dom m) < sz then m(k \<mapsto> (now, ib_rtt ib, ib_bandwidth ib)) else m)"
    using cc_reach.update [OF assms(1,2) c'] unfolding Let_def assms(3) .
  moreover have "\<exists>ib'. cc_lookup le addr ver ib c = Inr (ib', if k \<in> dom m then 1 else - 1)
      \<and> (\<forall>v. m k = Some v \<longrightarrow> (ib_time ib', ib_rtt ib', ib_bandwidth ib') = v)"
    using cc_lookup_ok [OF ok, of le addr ver ib] unfolding assms(3) val_of_def .
  ultimately show ?thesis using c' by blast
qed

lemma cache_is_a_map_until_full_witness:
  "let ib = \<lparr>ib_ip = [], ib_version = 0, ib_time = 0, ib_rtt = 100, ib_bandwidth = 7\<rparr>;
       addr = \<lparr>sa_port = 9000, sa_addr = 5, sa_addr6 = (\<lambda>_. 0)\<rparr> in
   \<exists>c'. cc_update True 5 addr 2 ib (Cache_new 1) = Inr c' \<and> cc_reach True 1 5 c' [(2, [5, 0, 0, 0]) \<mapsto> (5, 100, 7)]"
proof -
  let ?ib = "\<lparr>ib_ip = [], ib_version = 0, ib_time = 0, ib_rtt = 100, ib_bandwidth = 7\<rparr>"
  let ?addr = "\<lparr>sa_port = 9000, sa_addr = 5, sa_addr6 = (\<lambda>_. 0)\<rparr>"
  have "(2, [5, 0, 0, 0]) = (2 :: int, convert_addr True ?addr 2)" by (simp add: convert_addr_def AF_INET_def)
  from cache_is_a_map_until_full [OF cc_reach.new [of True 1] _ this, of 5 ?ib]
  show ?thesis by (simp add: Let_def)
qed

end
