(* ===== verification/UdtMd5.thy ===== *)
theory UdtMd5
  imports Sha1 UdtPacket
begin

text \<open>
  The MD5 of the transport (\<open>src/udt/md5.cpp\<close>, and \<open>CMD5\<close> of \<open>common.cpp\<close>), with which a listening socket
  makes its cookies. The four registers of \<open>md5_process\<close> are a list, and the macro \<open>SET\<close> is a function
  of the numbers of the registers it names; its 64 uses are the lists \<open>round1\<close> to \<open>round4\<close>. \<open>le\<close> tells
  the byte order of the host. \<open>md5_rfc\<close> is MD5 as RFC 1321 states it.
\<close>

record md5_state =
  md_count0 :: u32
  md_count1 :: u32
  md_abcd :: "u32 list"
  md_buf :: "octet list"

definition T_MASK :: u32 where
  "T_MASK = NOT 0"

definition ROTATE_LEFT :: "nat \<Rightarrow> u32 \<Rightarrow> u32" where
  "ROTATE_LEFT n x = push_bit n x OR drop_bit (32 - n) x"

text \<open>The registers \<open>a\<close>, \<open>b\<close>, \<open>c\<close>, \<open>d\<close> of a use of \<open>SET\<close>, and \<open>k\<close>, \<open>s\<close> and \<open>Ti\<close>.\<close>

type_synonym set_call = "nat \<times> nat \<times> nat \<times> nat \<times> nat \<times> nat \<times> u32"

definition SET :: "(u32 \<Rightarrow> u32 \<Rightarrow> u32 \<Rightarrow> u32) \<Rightarrow> u32 list \<Rightarrow> set_call \<Rightarrow> u32 list \<Rightarrow> u32 list" where
  "SET f X = (\<lambda>(a, b, c, d, k, s, Ti) r.
     let t = r ! a + f (r ! b) (r ! c) (r ! d) + X ! k + Ti in r[a := ROTATE_LEFT s t + r ! b])"

definition F1 :: "u32 \<Rightarrow> u32 \<Rightarrow> u32 \<Rightarrow> u32" where
  "F1 x y z = (x AND y) OR (NOT x AND z)"

definition G1 :: "u32 \<Rightarrow> u32 \<Rightarrow> u32 \<Rightarrow> u32" where
  "G1 x y z = (x AND z) OR (y AND NOT z)"

definition H1 :: "u32 \<Rightarrow> u32 \<Rightarrow> u32 \<Rightarrow> u32" where
  "H1 x y z = x XOR y XOR z"

definition I1 :: "u32 \<Rightarrow> u32 \<Rightarrow> u32 \<Rightarrow> u32" where
  "I1 x y z = y XOR (x OR NOT z)"

definition round1 :: "set_call list" where
  "round1 =
     [(0, 1, 2, 3, 0, 7, T_MASK XOR 0x28955b87), (3, 0, 1, 2, 1, 12, T_MASK XOR 0x173848a9),
      (2, 3, 0, 1, 2, 17, 0x242070db), (1, 2, 3, 0, 3, 22, T_MASK XOR 0x3e423111),
      (0, 1, 2, 3, 4, 7, T_MASK XOR 0x0a83f050), (3, 0, 1, 2, 5, 12, 0x4787c62a),
      (2, 3, 0, 1, 6, 17, T_MASK XOR 0x57cfb9ec), (1, 2, 3, 0, 7, 22, T_MASK XOR 0x02b96afe),
      (0, 1, 2, 3, 8, 7, 0x698098d8), (3, 0, 1, 2, 9, 12, T_MASK XOR 0x74bb0850),
      (2, 3, 0, 1, 10, 17, T_MASK XOR 0x0000a44e), (1, 2, 3, 0, 11, 22, T_MASK XOR 0x76a32841),
      (0, 1, 2, 3, 12, 7, 0x6b901122), (3, 0, 1, 2, 13, 12, T_MASK XOR 0x02678e6c),
      (2, 3, 0, 1, 14, 17, T_MASK XOR 0x5986bc71), (1, 2, 3, 0, 15, 22, 0x49b40821)]"

definition round2 :: "set_call list" where
  "round2 =
     [(0, 1, 2, 3, 1, 5, T_MASK XOR 0x09e1da9d), (3, 0, 1, 2, 6, 9, T_MASK XOR 0x3fbf4cbf),
      (2, 3, 0, 1, 11, 14, 0x265e5a51), (1, 2, 3, 0, 0, 20, T_MASK XOR 0x16493855),
      (0, 1, 2, 3, 5, 5, T_MASK XOR 0x29d0efa2), (3, 0, 1, 2, 10, 9, 0x02441453),
      (2, 3, 0, 1, 15, 14, T_MASK XOR 0x275e197e), (1, 2, 3, 0, 4, 20, T_MASK XOR 0x182c0437),
      (0, 1, 2, 3, 9, 5, 0x21e1cde6), (3, 0, 1, 2, 14, 9, T_MASK XOR 0x3cc8f829),
      (2, 3, 0, 1, 3, 14, T_MASK XOR 0x0b2af278), (1, 2, 3, 0, 8, 20, 0x455a14ed),
      (0, 1, 2, 3, 13, 5, T_MASK XOR 0x561c16fa), (3, 0, 1, 2, 2, 9, T_MASK XOR 0x03105c07),
      (2, 3, 0, 1, 7, 14, 0x676f02d9), (1, 2, 3, 0, 12, 20, T_MASK XOR 0x72d5b375)]"

definition round3 :: "set_call list" where
  "round3 =
     [(0, 1, 2, 3, 5, 4, T_MASK XOR 0x0005c6bd), (3, 0, 1, 2, 8, 11, T_MASK XOR 0x788e097e),
      (2, 3, 0, 1, 11, 16, 0x6d9d6122), (1, 2, 3, 0, 14, 23, T_MASK XOR 0x021ac7f3),
      (0, 1, 2, 3, 1, 4, T_MASK XOR 0x5b4115bb), (3, 0, 1, 2, 4, 11, 0x4bdecfa9),
      (2, 3, 0, 1, 7, 16, T_MASK XOR 0x0944b49f), (1, 2, 3, 0, 10, 23, T_MASK XOR 0x4140438f),
      (0, 1, 2, 3, 13, 4, 0x289b7ec6), (3, 0, 1, 2, 0, 11, T_MASK XOR 0x155ed805),
      (2, 3, 0, 1, 3, 16, T_MASK XOR 0x2b10cf7a), (1, 2, 3, 0, 6, 23, 0x04881d05),
      (0, 1, 2, 3, 9, 4, T_MASK XOR 0x262b2fc6), (3, 0, 1, 2, 12, 11, T_MASK XOR 0x1924661a),
      (2, 3, 0, 1, 15, 16, 0x1fa27cf8), (1, 2, 3, 0, 2, 23, T_MASK XOR 0x3b53a99a)]"

definition round4 :: "set_call list" where
  "round4 =
     [(0, 1, 2, 3, 0, 6, T_MASK XOR 0x0bd6ddbb), (3, 0, 1, 2, 7, 10, 0x432aff97),
      (2, 3, 0, 1, 14, 15, T_MASK XOR 0x546bdc58), (1, 2, 3, 0, 5, 21, T_MASK XOR 0x036c5fc6),
      (0, 1, 2, 3, 12, 6, 0x655b59c3), (3, 0, 1, 2, 3, 10, T_MASK XOR 0x70f3336d),
      (2, 3, 0, 1, 10, 15, T_MASK XOR 0x00100b82), (1, 2, 3, 0, 1, 21, T_MASK XOR 0x7a7ba22e),
      (0, 1, 2, 3, 8, 6, 0x6fa87e4f), (3, 0, 1, 2, 15, 10, T_MASK XOR 0x01d3191f),
      (2, 3, 0, 1, 6, 15, T_MASK XOR 0x5cfebceb), (1, 2, 3, 0, 13, 21, 0x4e0811a1),
      (0, 1, 2, 3, 4, 6, T_MASK XOR 0x08ac817d), (3, 0, 1, 2, 11, 10, T_MASK XOR 0x42c50dca),
      (2, 3, 0, 1, 2, 15, 0x2ad7d2bb), (1, 2, 3, 0, 9, 21, T_MASK XOR 0x14792c6e)]"

text \<open>The words of the 64 bytes: the memory itself, or put together byte by byte.\<close>

definition data_word :: "bool \<Rightarrow> octet list \<Rightarrow> nat \<Rightarrow> u32" where
  "data_word le data i =
     (let xp = drop (4 * i) data in
      if le then word_of True [xp ! 0, xp ! 1, xp ! 2, xp ! 3]
      else ucast (xp ! 0) + push_bit 8 (ucast (xp ! 1)) + push_bit 16 (ucast (xp ! 2)) + push_bit 24 (ucast (xp ! 3)))"

definition md5_process :: "bool \<Rightarrow> octet list \<Rightarrow> md5_state \<Rightarrow> md5_state" where
  "md5_process le data pms =
     (let X = map (data_word le data) [0..<16];
          r = fold (SET F1 X) round1 (md_abcd pms);
          r = fold (SET G1 X) round2 r;
          r = fold (SET H1 X) round3 r;
          r = fold (SET I1 X) round4 r in
      pms\<lparr>md_abcd := map2 (+) (md_abcd pms) r\<rparr>)"

text \<open>The constructor leaves the buffer as the storage of the object.\<close>

definition md5_init :: "md5_state \<Rightarrow> md5_state" where
  "md5_init pms =
     pms\<lparr>md_count0 := 0, md_count1 := 0, md_abcd := [0x67452301, T_MASK XOR 0x10325476, T_MASK XOR 0x67452301, 0x10325476]\<rparr>"

definition put_bytes :: "nat \<Rightarrow> octet list \<Rightarrow> octet list \<Rightarrow> octet list" where
  "put_bytes k bs buf = take k buf @ bs @ drop (k + length bs) buf"

text \<open>The loop over the full blocks, and the partial block after them.\<close>

function append_blocks :: "bool \<Rightarrow> octet list \<Rightarrow> md5_state \<Rightarrow> md5_state" where
  "append_blocks le p pms =
     (if length p \<ge> 64 then append_blocks le (drop 64 p) (md5_process le (take 64 p) pms)
      else if p \<noteq> [] then pms\<lparr>md_buf := put_bytes 0 p (md_buf pms)\<rparr>
      else pms)"
  by auto

termination by (relation "measure (\<lambda>(_, p, _). length p)") auto

declare append_blocks.simps [simp del]

text \<open>\<open>nbytes << 3\<close> overflows from \<open>2 ^ 28\<close> bytes on.\<close>

definition md5_append :: "bool \<Rightarrow> octet list \<Rightarrow> md5_state \<Rightarrow> md5_state res" where
  "md5_append le data pms =
     (let nbytes = length data; offset = unat (drop_bit 3 (md_count0 pms) AND 63); nbits = of_nat (nbytes * 8) in
      if nbytes \<ge> 2 ^ 28 then Inl Undefined
      else if nbytes = 0 then Inr pms
      else
        let pms = pms\<lparr>md_count1 := md_count1 pms + of_nat (nbytes div 2 ^ 29)\<rparr>;
            pms = pms\<lparr>md_count0 := md_count0 pms + nbits\<rparr>;
            pms = (if md_count0 pms < nbits then pms\<lparr>md_count1 := md_count1 pms + 1\<rparr> else pms) in
        if offset \<noteq> 0 then
          let copy = (if offset + nbytes > 64 then 64 - offset else nbytes);
              pms = pms\<lparr>md_buf := put_bytes offset (take copy data) (md_buf pms)\<rparr> in
          if offset + copy < 64 then Inr pms
          else Inr (append_blocks le (drop copy data) (md5_process le (md_buf pms) pms))
        else Inr (append_blocks le data pms))"

definition pad :: "octet list" where
  "pad = 0x80 # replicate 63 0"

definition md5_finish :: "bool \<Rightarrow> md5_state \<Rightarrow> (md5_state \<times> octet list) res" where
  "md5_finish le pms =
     (let data = map (\<lambda>i. ucast (drop_bit ((i mod 4) * 8) (if i div 4 = 0 then md_count0 pms else md_count1 pms))) [0..<8];
          n = unat ((55 - drop_bit 3 (md_count0 pms)) AND 63) + 1 in
      bind_res (md5_append le (take n pad) pms) (\<lambda>pms.
      bind_res (md5_append le data pms) (\<lambda>pms.
      Inr (pms, map (\<lambda>i. ucast (drop_bit ((i mod 4) * 8) (md_abcd pms ! (i div 4)))) [0..<16]))))"

text \<open>The input ends at its first zero byte.\<close>

definition MD5_compute :: "bool \<Rightarrow> md5_state \<Rightarrow> octet list \<Rightarrow> octet list res" where
  "MD5_compute le storage input =
     bind_res (md5_append le (takeWhile (\<lambda>b. b \<noteq> 0) input) (md5_init storage)) (\<lambda>pms.
     bind_res (md5_finish le pms) (\<lambda>(_, digest). Inr digest))"

section \<open>RFC 1321\<close>

definition rfc_T :: "u32 list" where
  "rfc_T =
     [0xd76aa478, 0xe8c7b756, 0x242070db, 0xc1bdceee, 0xf57c0faf, 0x4787c62a, 0xa8304613, 0xfd469501,
      0x698098d8, 0x8b44f7af, 0xffff5bb1, 0x895cd7be, 0x6b901122, 0xfd987193, 0xa679438e, 0x49b40821,
      0xf61e2562, 0xc040b340, 0x265e5a51, 0xe9b6c7aa, 0xd62f105d, 0x02441453, 0xd8a1e681, 0xe7d3fbc8,
      0x21e1cde6, 0xc33707d6, 0xf4d50d87, 0x455a14ed, 0xa9e3e905, 0xfcefa3f8, 0x676f02d9, 0x8d2a4c8a,
      0xfffa3942, 0x8771f681, 0x6d9d6122, 0xfde5380c, 0xa4beea44, 0x4bdecfa9, 0xf6bb4b60, 0xbebfbc70,
      0x289b7ec6, 0xeaa127fa, 0xd4ef3085, 0x04881d05, 0xd9d4d039, 0xe6db99e5, 0x1fa27cf8, 0xc4ac5665,
      0xf4292244, 0x432aff97, 0xab9423a7, 0xfc93a039, 0x655b59c3, 0x8f0ccc92, 0xffeff47d, 0x85845dd1,
      0x6fa87e4f, 0xfe2ce6e0, 0xa3014314, 0x4e0811a1, 0xf7537e82, 0xbd3af235, 0x2ad7d2bb, 0xeb86d391]"

definition rfc_s :: "nat \<Rightarrow> nat" where
  "rfc_s i = [[7, 12, 17, 22], [5, 9, 14, 20], [4, 11, 16, 23], [6, 10, 15, 21]] ! (i div 16) ! (i mod 4)"

definition rfc_k :: "nat \<Rightarrow> nat" where
  "rfc_k i = (if i < 16 then i else if i < 32 then (5 * i + 1) mod 16 else if i < 48 then (3 * i + 5) mod 16 else 7 * i mod 16)"

definition rfc_f :: "nat \<Rightarrow> u32 \<Rightarrow> u32 \<Rightarrow> u32 \<Rightarrow> u32" where
  "rfc_f i x y z =
     (if i < 16 then (x AND y) OR (NOT x AND z)
      else if i < 32 then (x AND z) OR (y AND NOT z)
      else if i < 48 then x XOR y XOR z
      else y XOR (x OR NOT z))"

type_synonym md5_hash = "u32 \<times> u32 \<times> u32 \<times> u32"

text \<open>The word \<open>k\<close> of a block, its low-order byte first.\<close>

definition rfc_word :: "octet list \<Rightarrow> nat \<Rightarrow> u32" where
  "rfc_word M k = word_rcat (rev (take 4 (drop (4 * k) M)))"

definition rfc_step :: "octet list \<Rightarrow> nat \<Rightarrow> md5_hash \<Rightarrow> md5_hash" where
  "rfc_step M i = (\<lambda>(a, b, c, d).
     (d, b + word_rotl (rfc_s i) (a + rfc_f i b c d + rfc_word M (rfc_k i) + rfc_T ! i), b, c))"

definition rfc_compress :: "md5_hash \<Rightarrow> octet list \<Rightarrow> md5_hash" where
  "rfc_compress h M =
     (let (a, b, c, d) = h; (a', b', c', d') = fold (rfc_step M) [0..<64] h in (a + a', b + b', c + c', d + d'))"

definition le64 :: "nat \<Rightarrow> octet list" where
  "le64 n = map (\<lambda>i. of_nat (n div 2 ^ (8 * i))) [0..<8]"

definition rfc_pad :: "octet list \<Rightarrow> octet list" where
  "rfc_pad msg = msg @ 0x80 # replicate ((119 - length msg mod 64) mod 64) 0 @ le64 (8 * length msg)"

fun hash_octets :: "md5_hash \<Rightarrow> octet list" where
  "hash_octets (a, b, c, d) = concat (map (\<lambda>w. map (\<lambda>i. ucast (drop_bit (8 * i) w)) [0..<4]) [a, b, c, d])"

definition md5_rfc :: "octet list \<Rightarrow> octet list" where
  "md5_rfc msg = hash_octets (foldl rfc_compress (0x67452301, 0xefcdab89, 0x98badcfe, 0x10325476) (blocks (rfc_pad msg)))"

end
