(* ===== verification/UdtMd5Properties.thy ===== *)
theory UdtMd5Properties
  imports UdtMd5
begin

text \<open>
  Any sequence of \<open>md5_append\<close> and then \<open>md5_finish\<close> gives the digest that RFC 1321 assigns to the
  whole message, on hosts of either byte order.
\<close>

section \<open>Words\<close>

lemma ROTATE_LEFT_rotl: "0 < n \<Longrightarrow> n < 32 \<Longrightarrow> ROTATE_LEFT n w = word_rotl n w"
  using CircularShift_rotl [of n w] by (simp add: ROTATE_LEFT_def CircularShift_def)

lemma four_bytes_of_word: "xp = drop (4 * i) M \<Longrightarrow> 4 * i + 3 < length M \<Longrightarrow> take 4 xp = [xp ! 0, xp ! 1, xp ! 2, xp ! 3]"
  by (intro nth_equalityI) (auto simp: nth_Cons numeral_eq_Suc less_Suc_eq split: nat.splits)

lemma word_of_rcat: "word_of True [a, b, c, d] = word_rcat [d, c, b, a]"
proof -
  have "block_word [d, c, b, a] 0 = word_rcat [d, c, b, a]" using block_word_rcat [of 0 "[d, c, b, a]"] by (simp add: fips_M_def)
  then show ?thesis by (simp add: word_of_def host_order_def of_high_first_def block_word_def)
qed

lemma bytes_sum:
  fixes a b c d :: octet
  shows "ucast a + push_bit 8 (ucast b) + push_bit 16 (ucast c) + push_bit 24 (ucast d) = word_of True [a, b, c, d]"
proof -
  have off: "\<not> bit (u :: octet) k" if "8 \<le> k" for u k using that bit_imp_le_length [of u k] by auto
  have "ucast a + push_bit 8 (ucast b) = (ucast a OR push_bit 8 (ucast b) :: u32)"
    by (rule disjunctive_add) (auto simp: bit_simps dest: bit_imp_le_length)
  moreover have "(ucast a OR push_bit 8 (ucast b)) + push_bit 16 (ucast c) = (ucast a OR push_bit 8 (ucast b) OR push_bit 16 (ucast c) :: u32)"
    by (subst disjunctive_add) (auto simp: bit_simps or.assoc dest!: bit_imp_le_length)
  moreover have "(ucast a OR push_bit 8 (ucast b) OR push_bit 16 (ucast c)) + push_bit 24 (ucast d)
      = (ucast a OR push_bit 8 (ucast b) OR push_bit 16 (ucast c) OR push_bit 24 (ucast d) :: u32)"
    by (subst disjunctive_add) (auto simp: bit_simps or.assoc dest!: bit_imp_le_length)
  ultimately show ?thesis
    by (simp add: word_of_def host_order_def of_high_first_def ac_simps)
qed

lemma data_word_rfc:
  assumes "4 * i + 3 < length M"
  shows "data_word le M i = rfc_word M i"
proof -
  define xp where "xp = drop (4 * i) M"
  have "take 4 xp = [xp ! 0, xp ! 1, xp ! 2, xp ! 3]" using four_bytes_of_word [OF xp_def assms] .
  then have "rfc_word M i = word_of True [xp ! 0, xp ! 1, xp ! 2, xp ! 3]"
    by (simp add: rfc_word_def xp_def [symmetric] word_of_rcat)
  then show ?thesis using bytes_sum by (simp add: data_word_def xp_def [symmetric] Let_def)
qed

section \<open>The rounds\<close>

text \<open>The list of registers after \<open>i\<close> uses of \<open>SET\<close> is the state of RFC 1321, turned by \<open>i\<close> places.\<close>

definition turned :: "nat \<Rightarrow> md5_hash \<Rightarrow> u32 list" where
  "turned i = (\<lambda>(a, b, c, d). if i mod 4 = 0 then [a, b, c, d] else if i mod 4 = 1 then [b, c, d, a]
     else if i mod 4 = 2 then [c, d, a, b] else [d, a, b, c])"

definition regs_of :: "nat \<Rightarrow> nat \<times> nat \<times> nat \<times> nat" where
  "regs_of i = (if i mod 4 = 0 then (0, 1, 2, 3) else if i mod 4 = 1 then (3, 0, 1, 2)
     else if i mod 4 = 2 then (2, 3, 0, 1) else (1, 2, 3, 0))"

definition call_ok :: "nat \<Rightarrow> set_call \<Rightarrow> bool" where
  "call_ok i = (\<lambda>(a, b, c, d, k, s, Ti). (a, b, c, d) = regs_of i \<and> k = rfc_k i \<and> k < 16 \<and> s = rfc_s i \<and> 0 < s \<and> s < 32 \<and> Ti = rfc_T ! i)"

lemma SET_step:
  assumes "call_ok i call" "X = map (rfc_word M) [0..<16]" "\<And>x y z. f x y z = rfc_f i x y z"
  shows "SET f X call (turned i h) = turned (Suc i) (rfc_step M i h)"
proof -
  obtain a b c d where h: "h = (a, b, c, d)" by (cases h)
  obtain p q r s k sh t where call: "call = (p, q, r, s, k, sh, t)" by (cases call)
  have ok: "(p, q, r, s) = regs_of i" "k = rfc_k i" "k < 16" "sh = rfc_s i" "t = rfc_T ! i"
    "ROTATE_LEFT sh x = word_rotl sh x" for x
    using assms(1) ROTATE_LEFT_rotl by (auto simp: call_ok_def call)
  have X: "X ! k = rfc_word M k" using ok(3) by (simp add: assms(2))
  have "i mod 4 = 0 \<or> i mod 4 = 1 \<or> i mod 4 = 2 \<or> i mod 4 = 3" by linarith
  moreover have "Suc i mod 4 = (if i mod 4 = 3 then 0 else Suc (i mod 4))" by (simp add: mod_Suc)
  ultimately show ?thesis
    using ok X by (elim disjE)
      (simp_all add: SET_def call h turned_def regs_of_def rfc_step_def assms(3) ac_simps numeral_2_eq_2 numeral_3_eq_3)
qed

lemma SET_fold:
  assumes "\<And>j. j < length calls \<Longrightarrow> call_ok (i + j) (calls ! j)" "X = map (rfc_word M) [0..<16]"
    "\<And>j x y z. j < length calls \<Longrightarrow> f x y z = rfc_f (i + j) x y z"
  shows "fold (SET f X) calls (turned i h) = turned (i + length calls) (fold (rfc_step M) [i..<i + length calls] h)"
  using assms(1,3)
proof (induction calls arbitrary: i h)
  case (Cons call calls)
  have "SET f X call (turned i h) = turned (Suc i) (rfc_step M i h)"
    using Cons.prems(1) [of 0] Cons.prems(2) [of 0] assms(2) by (intro SET_step) auto
  moreover have "fold (SET f X) calls (turned (Suc i) (rfc_step M i h))
      = turned (Suc i + length calls) (fold (rfc_step M) [Suc i..<Suc i + length calls] (rfc_step M i h))"
    by (rule Cons.IH) (use Cons.prems [of "Suc j" for j] in auto)
  moreover have "[i..<i + length (call # calls)] = i # [Suc i..<Suc i + length calls]" by (simp add: upt_rec)
  ultimately show ?case by simp
qed simp

lemma all_calls:
  "length round1 = 16" "length round2 = 16" "length round3 = 16" "length round4 = 16"
  "j < 16 \<Longrightarrow> call_ok j (round1 ! j)" "j < 16 \<Longrightarrow> call_ok (16 + j) (round2 ! j)"
  "j < 16 \<Longrightarrow> call_ok (32 + j) (round3 ! j)" "j < 16 \<Longrightarrow> call_ok (48 + j) (round4 ! j)"
proof -
  have all: "P 0 \<and> P 1 \<and> P 2 \<and> P 3 \<and> P 4 \<and> P 5 \<and> P 6 \<and> P 7 \<and> P 8 \<and> P 9 \<and> P 10 \<and> P 11 \<and> P 12 \<and> P 13 \<and> P 14 \<and> P 15
      \<Longrightarrow> j < 16 \<Longrightarrow> P j" for P :: "nat \<Rightarrow> bool"
    by (auto simp: less_Suc_eq numeral_eq_Suc)
  show "length round1 = 16" "length round2 = 16" "length round3 = 16" "length round4 = 16"
    by (simp_all add: round1_def round2_def round3_def round4_def)
  show "j < 16 \<Longrightarrow> call_ok j (round1 ! j)"
    by (erule all [rotated]) (simp add: call_ok_def regs_of_def rfc_k_def rfc_s_def rfc_T_def round1_def T_MASK_def)
  show "j < 16 \<Longrightarrow> call_ok (16 + j) (round2 ! j)"
    by (erule all [rotated]) (simp add: call_ok_def regs_of_def rfc_k_def rfc_s_def rfc_T_def round2_def T_MASK_def)
  show "j < 16 \<Longrightarrow> call_ok (32 + j) (round3 ! j)"
    by (erule all [rotated]) (simp add: call_ok_def regs_of_def rfc_k_def rfc_s_def rfc_T_def round3_def T_MASK_def)
  show "j < 16 \<Longrightarrow> call_ok (48 + j) (round4 ! j)"
    by (erule all [rotated]) (simp add: call_ok_def regs_of_def rfc_k_def rfc_s_def rfc_T_def round4_def T_MASK_def)
qed

lemma md5_process_rfc:
  assumes "length M = 64" "md_abcd pms = turned 0 h"
  shows "md5_process le M pms = pms\<lparr>md_abcd := turned 0 (rfc_compress h M)\<rparr>"
proof -
  let ?X = "map (rfc_word M) [0..<16]"
  have X: "map (data_word le M) [0..<16] = ?X"
    using assms(1) by (intro map_cong) (auto intro: data_word_rfc)
  let ?h = "\<lambda>n. fold (rfc_step M) [0..<n] h"
  have part: "fold (rfc_step M) [n..<n + 16] (?h n) = ?h (n + 16)" for n
    using upt_add_eq_append [of 0 n 16] by (simp add: fold_append)
  have "fold (SET F1 ?X) round1 (turned 0 (?h 0)) = turned (0 + 16) (?h (0 + 16))"
    using SET_fold [of round1 0 ?X M F1 "?h 0"] all_calls by (simp add: F1_def rfc_f_def)
  moreover have "fold (SET G1 ?X) round2 (turned 16 (?h 16)) = turned (16 + 16) (?h (16 + 16))"
    using SET_fold [of round2 16 ?X M G1 "?h 16"] all_calls part [of 16] by (simp add: G1_def rfc_f_def)
  moreover have "fold (SET H1 ?X) round3 (turned 32 (?h 32)) = turned (32 + 16) (?h (32 + 16))"
    using SET_fold [of round3 32 ?X M H1 "?h 32"] all_calls part [of 32] by (simp add: H1_def rfc_f_def)
  moreover have "fold (SET I1 ?X) round4 (turned 48 (?h 48)) = turned (48 + 16) (?h (48 + 16))"
    using SET_fold [of round4 48 ?X M I1 "?h 48"] all_calls part [of 48] by (simp add: I1_def rfc_f_def)
  ultimately have "md5_process le M pms = pms\<lparr>md_abcd := map2 (+) (turned 0 h) (turned 64 (?h 64))\<rparr>"
    by (simp add: md5_process_def X assms(2))
  moreover have "map2 (+) (turned 0 h) (turned 64 h') = turned 0 (let (a, b, c, d) = h; (a', b', c', d') = h' in (a + a', b + b', c + c', d + d'))" for h'
    by (cases h; cases h') (simp add: turned_def)
  ultimately show ?thesis by (simp add: rfc_compress_def)
qed

section \<open>The stream\<close>

definition rfc_H0 :: md5_hash where
  "rfc_H0 = (0x67452301, 0xefcdab89, 0x98badcfe, 0x10325476)"

definition md5_rep :: "octet list \<Rightarrow> md5_state \<Rightarrow> bool" where
  "md5_rep msg st \<longleftrightarrow> length (md_buf st) = 64 \<and> take (length msg mod 64) (md_buf st) = rest msg
    \<and> md_abcd st = turned 0 (foldl rfc_compress rfc_H0 (blocks msg))
    \<and> md_count0 st = of_nat (8 * length msg) \<and> md_count1 st = of_nat (8 * length msg div 2 ^ 32)"

lemma md5_rep_init: "length (md_buf st) = 64 \<Longrightarrow> md5_rep [] (md5_init st)"
  by (simp add: md5_rep_def md5_init_def rest_def blocks_short turned_def rfc_H0_def T_MASK_def)

lemma rest_whole: "length w mod 64 = 0 \<Longrightarrow> rest (w @ ys) = rest ys"
proof -
  assume w: "length w mod 64 = 0"
  then have "(length w + length ys) mod 64 = length ys mod 64" by (metis add_0 mod_add_left_eq)
  moreover have "length ys mod 64 \<le> length ys" by simp
  ultimately show ?thesis by (simp add: rest_def)
qed

lemma rest_append: "rest (xs @ ys) = rest (rest xs @ ys)"
proof -
  obtain w where w: "xs = w @ rest xs" "length w mod 64 = 0" by (rule rest_split)
  have "rest (w @ (rest xs @ ys)) = rest (rest xs @ ys)" by (rule rest_whole [OF w(2)])
  then show ?thesis using w(1) by (metis append.assoc)
qed

lemma rest_short: "length xs < 64 \<Longrightarrow> rest xs = xs"
  by (simp add: rest_def)

lemma append_blocks_ok:
  assumes "md_abcd st = turned 0 h" "length (md_buf st) = 64"
  shows "\<exists>B. append_blocks le p st = st\<lparr>md_abcd := turned 0 (foldl rfc_compress h (blocks p)), md_buf := B\<rparr>
    \<and> length B = 64 \<and> take (length p mod 64) B = rest p"
  using assms
proof (induction le p st arbitrary: h rule: append_blocks.induct)
  case (1 le p st)
  show ?case
  proof (cases "64 \<le> length p")
    case True
    let ?st = "md5_process le (take 64 p) st"
    have st: "?st = st\<lparr>md_abcd := turned 0 (rfc_compress h (take 64 p))\<rparr>"
      using True "1.prems"(1) by (intro md5_process_rfc) simp_all
    then obtain B where B: "append_blocks le (drop 64 p) ?st
        = ?st\<lparr>md_abcd := turned 0 (foldl rfc_compress (rfc_compress h (take 64 p)) (blocks (drop 64 p))), md_buf := B\<rparr>"
      "length B = 64" "take (length (drop 64 p) mod 64) B = rest (drop 64 p)"
      using "1.IH" [OF True, of "rfc_compress h (take 64 p)"] "1.prems"(2) by auto
    have "blocks p = take 64 p # blocks (drop 64 p)" using True by (subst blocks.simps) simp
    moreover have "length (drop 64 p) mod 64 = length p mod 64" using True by (simp add: le_mod_geq)
    moreover have "rest p = rest (drop 64 p)" using rest_whole [of "take 64 p" "drop 64 p"] True by simp
    moreover have "append_blocks le p st = append_blocks le (drop 64 p) ?st" using True by (subst append_blocks.simps) simp
    ultimately show ?thesis using B st by (intro exI [of _ B]) simp
  next
    case False
    then have "append_blocks le p st = st\<lparr>md_buf := (if p = [] then md_buf st else put_bytes 0 p (md_buf st))\<rparr>"
      by (subst append_blocks.simps) simp
    moreover have "st = st\<lparr>md_abcd := turned 0 h\<rparr>" using "1.prems"(1) by (cases st) simp
    ultimately show ?thesis
      using False "1.prems" by (intro exI [of _ "if p = [] then md_buf st else put_bytes 0 p (md_buf st)"])
        (auto simp: blocks_short rest_short put_bytes_def)
  qed
qed

lemma offset_rep: "unat (drop_bit 3 (of_nat (8 * n) :: u32) AND 63) = n mod 64"
proof -
  have mask: "(63 :: u32) = mask 6" by (simp add: mask_eq_exp_minus_1)
  have "unat (take_bit 6 (drop_bit 3 w)) = unat w div 8 mod 64" for w :: u32
  proof -
    have "unat (take_bit 6 (drop_bit 3 w)) = take_bit 6 (drop_bit 3 (unat w))"
      by (simp only: unsigned_take_bit_eq unat_drop_bit_eq)
    then show ?thesis by (simp only: take_bit_eq_mod [of _ "_ :: nat"] drop_bit_eq_div [of _ "_ :: nat"]) simp
  qed
  from this [of "of_nat (8 * n)"]
  have "unat (drop_bit 3 (of_nat (8 * n) :: u32) AND 63) = (8 * n mod 2 ^ 32) div 8 mod 64"
    by (simp only: mask take_bit_eq_mask [symmetric] unat_of_nat) simp
  also have "8 * n mod 2 ^ 32 = 8 * (n mod 2 ^ 29)" using mult_mod_right [of 8 n "2 ^ 29"] by simp
  also have "8 * (n mod 2 ^ 29) div 8 mod 64 = n mod 64" by (simp add: mod_mod_cancel)
  finally show ?thesis .
qed

lemma count_carry:
  fixes A B :: nat
  assumes "B < 2 ^ 32"
  shows "of_nat ((A + B) div 2 ^ 32) = (of_nat (A div 2 ^ 32) :: u32)
    + (if (of_nat A + of_nat B :: u32) < of_nat B then 1 else 0)"
proof -
  have "(of_nat A + of_nat B :: u32) < of_nat B \<longleftrightarrow> (A + B) mod 2 ^ 32 < B"
    using assms by (simp add: word_less_nat_alt unat_of_nat flip: of_nat_add)
  moreover have "(A + B) div 2 ^ 32 = A div 2 ^ 32 + (if (A + B) mod 2 ^ 32 < B then 1 else 0)"
  proof -
    have "A = 2 ^ 32 * (A div 2 ^ 32) + A mod 2 ^ 32" by simp
    define q r where "q = A div 2 ^ 32" and "r = A mod 2 ^ 32"
    have A: "A = q * 2 ^ 32 + r" "r < 2 ^ 32" by (simp_all add: q_def r_def)
    have "(A + B) div 2 ^ 32 = q + (r + B) div 2 ^ 32" "(A + B) mod 2 ^ 32 = (r + B) mod 2 ^ 32"
      using A(1) by (simp_all only: add.assoc div_mult_self3 mod_mult_self3) simp_all
    moreover have "(r + B) div 2 ^ 32 = (if r + B < 2 ^ 32 then 0 else 1)" "(r + B) mod 2 ^ 32 = (if r + B < 2 ^ 32 then r + B else r + B - 2 ^ 32)"
      using A(2) assms by (auto simp: div_nat_eqI le_div_geq le_mod_geq not_less)
    ultimately show ?thesis using A(2) assms by (auto simp: q_def)
  qed
  ultimately show ?thesis by simp
qed

lemma put_bytes_take:
  "length buf = 64 \<Longrightarrow> k + length bs \<le> 64 \<Longrightarrow> length (put_bytes k bs buf) = 64 \<and> take (k + length bs) (put_bytes k bs buf) = take k buf @ bs"
  by (simp add: put_bytes_def)

lemma md5_append_rep:
  assumes "md5_rep msg st" "length data < 2 ^ 28"
  shows "\<exists>st'. md5_append le data st = Inr st' \<and> md5_rep (msg @ data) st'"
proof (cases "data = []")
  case True
  then show ?thesis using assms by (simp add: md5_append_def)
next
  case False
  define m where "m = length msg mod 64"
  define h where "h = foldl rfc_compress rfc_H0 (blocks msg)"
  note rep = assms(1) [unfolded md5_rep_def, folded m_def h_def]
  have m: "m < 64" "length (rest msg) = m" by (simp_all add: m_def rest_length)
  let ?nbits = "of_nat (length data * 8) :: u32"
  define st1 where "st1 = st\<lparr>md_count0 := of_nat (8 * length (msg @ data)), md_count1 := of_nat (8 * length (msg @ data) div 2 ^ 32)\<rparr>"
  have fields: "md_buf st1 = md_buf st" "md_abcd st1 = turned 0 h" using rep by (simp_all add: st1_def)
  have counted: "(let pms = st\<lparr>md_count1 := md_count1 st + of_nat (length data div 2 ^ 29)\<rparr>;
            pms = pms\<lparr>md_count0 := md_count0 pms + ?nbits\<rparr> in
       if md_count0 pms < ?nbits then pms\<lparr>md_count1 := md_count1 pms + 1\<rparr> else pms) = st1"
  proof -
    have "length data div 2 ^ 29 = 0" using assms(2) by simp
    moreover have "(of_nat (8 * length msg) + ?nbits :: u32) = of_nat (8 * length (msg @ data))" by (simp add: algebra_simps)
    moreover have "of_nat ((8 * length msg + length data * 8) div 2 ^ 32) = (of_nat (8 * length msg div 2 ^ 32) :: u32)
      + (if (of_nat (8 * length msg) + ?nbits :: u32) < ?nbits then 1 else 0)"
      using assms(2) by (intro count_carry) simp
    moreover have "8 * length msg + length data * 8 = 8 * length (msg @ data)" by simp
    ultimately show ?thesis using rep
      by (simp add: st1_def Let_def del: of_nat_mult of_nat_add length_append cong: if_cong)
  qed
  have offset: "unat (drop_bit 3 (md_count0 st) AND 63) = m" using rep offset_rep [of "length msg"] by (simp add: m_def)
  have app: "md5_append le data st = (if m \<noteq> 0 then
        let copy = (if m + length data > 64 then 64 - m else length data);
            pms = st1\<lparr>md_buf := put_bytes m (take copy data) (md_buf st1)\<rparr> in
        if m + copy < 64 then Inr pms
        else Inr (append_blocks le (drop copy data) (md5_process le (md_buf pms) pms))
      else Inr (append_blocks le data st1))"
    using False assms(2) counted by (simp add: md5_append_def offset Let_def cong: if_cong)
  have goal: "md5_rep (msg @ data) (st1\<lparr>md_abcd := turned 0 h', md_buf := B\<rparr>)"
    if "length B = 64" "take (length (rest msg @ data) mod 64) B = rest (rest msg @ data)"
      "h' = foldl rfc_compress h (blocks (rest msg @ data))" for h' B
  proof -
    have "length (rest msg @ data) mod 64 = length (msg @ data) mod 64" by (simp add: rest_length mod_add_left_eq)
    then show ?thesis using that rest_append [of msg data] blocks_rest [of msg data]
      by (simp add: md5_rep_def st1_def h_def)
  qed
  show ?thesis
  proof (cases "m = 0")
    case True
    then have nil: "rest msg = []" using m by simp
    obtain B where B: "append_blocks le data st1 = st1\<lparr>md_abcd := turned 0 (foldl rfc_compress h (blocks data)), md_buf := B\<rparr>"
      "length B = 64" "take (length data mod 64) B = rest data"
      using append_blocks_ok [OF fields(2), of le data] fields(1) rep by auto
    have "md5_rep (msg @ data) (st1\<lparr>md_abcd := turned 0 (foldl rfc_compress h (blocks data)), md_buf := B\<rparr>)"
      by (rule goal) (use B(2,3) nil in simp_all)
    then show ?thesis using app True B(1) by simp
  next
    case part: False
    show ?thesis
    proof (cases "m + length data < 64")
      case True
      let ?B = "put_bytes m data (md_buf st)"
      have B: "length ?B = 64" "take (m + length data) ?B = rest msg @ data"
        using put_bytes_take [of "md_buf st" m data] rep True by simp_all
      have "md5_append le data st = Inr (st1\<lparr>md_buf := ?B\<rparr>)" using app part True fields(1) by simp
      moreover have "st1\<lparr>md_buf := ?B\<rparr> = st1\<lparr>md_abcd := turned 0 h, md_buf := ?B\<rparr>" using fields(2) by (cases st1) simp
      moreover have "md5_rep (msg @ data) (st1\<lparr>md_abcd := turned 0 h, md_buf := ?B\<rparr>)"
        using B True m by (intro goal) (simp_all add: rest_short blocks_short)
      ultimately show ?thesis by simp
    next
      case full: False
      let ?c = "64 - m" and ?B = "put_bytes m (take (64 - m) data) (md_buf st)"
      have c: "(if m + length data > 64 then 64 - m else length data) = ?c" using full by auto
      have len: "m + length (take ?c data) = 64" using full m(1) by simp
      then have "length ?B = 64" "take 64 ?B = rest msg @ take ?c data"
        using put_bytes_take [of "md_buf st" m "take ?c data"] rep by simp_all
      then have B: "length ?B = 64" "?B = rest msg @ take ?c data" by (metis, metis order_refl take_all)
      let ?st = "md5_process le ?B (st1\<lparr>md_buf := ?B\<rparr>)"
      have st: "?st = st1\<lparr>md_buf := ?B, md_abcd := turned 0 (rfc_compress h ?B)\<rparr>"
        using md5_process_rfc [OF B(1), of "st1\<lparr>md_buf := ?B\<rparr>" h le] fields(2) by simp
      have "md5_append le data st = Inr (append_blocks le (drop ?c data) ?st)"
        using app part full m(1) fields(1) by (simp only: c Let_def) (simp add: not_less)
      moreover obtain B' where B': "append_blocks le (drop ?c data) ?st
          = ?st\<lparr>md_abcd := turned 0 (foldl rfc_compress (rfc_compress h ?B) (blocks (drop ?c data))), md_buf := B'\<rparr>"
        "length B' = 64" "take (length (drop ?c data) mod 64) B' = rest (drop ?c data)"
        using append_blocks_ok [of ?st "rfc_compress h ?B" le "drop ?c data"] st B(1) by auto
      moreover have split: "rest msg @ data = ?B @ drop ?c data" using B(2) by simp
      have "md5_rep (msg @ data) (st1\<lparr>md_abcd := turned 0 (foldl rfc_compress (rfc_compress h ?B) (blocks (drop ?c data))), md_buf := B'\<rparr>)"
      proof (rule goal)
        have "length (rest msg @ data) mod 64 = length (drop ?c data) mod 64" unfolding split using B(1) by simp
        then show "take (length (rest msg @ data) mod 64) B' = rest (rest msg @ data)"
          using B'(3) rest_whole [of ?B "drop ?c data"] B(1) split by simp
        show "foldl rfc_compress (rfc_compress h ?B) (blocks (drop ?c data)) = foldl rfc_compress h (blocks (rest msg @ data))"
          unfolding split blocks_step [OF B(1)] by simp
      qed (rule B'(2))
      ultimately show ?thesis unfolding st by simp
    qed
  qed
qed

section \<open>The digest\<close>

lemma count_octets:
  "map (\<lambda>i. ucast (drop_bit ((i mod 4) * 8) (if i div 4 = 0 then of_nat n else of_nat (n div 2 ^ 32) :: u32))) [0..<8] = le64 n"
proof -
  have lo: "(ucast (drop_bit k (of_nat n :: u32)) :: octet) = of_nat (n div 2 ^ k)" if "k \<le> 24" for k
    using that unfolding drop_bit_eq_div [symmetric]
    by (intro bit_word_eqI) (auto simp: bit_ucast_iff bit_drop_bit_eq bit_of_nat_iff possible_bit_def)
  have hi: "(ucast (drop_bit k (of_nat (n div 2 ^ 32) :: u32)) :: octet) = of_nat (n div 2 ^ (32 + k))" if "k \<le> 24" for k
    using that unfolding drop_bit_eq_div [symmetric]
    by (intro bit_word_eqI) (auto simp: bit_ucast_iff bit_drop_bit_eq bit_of_nat_iff possible_bit_def ac_simps)
  have idx: "[0..<8] = [0, 1, 2, 3, 4, 5, 6, 7 :: nat]" by (simp add: upt_rec)
  show ?thesis
    unfolding le64_def idx using hi [of 24] hi [of 16] hi [of 8] hi [of 0] lo [of 24] lo [of 16] lo [of 8] lo [of 0] by simp
qed

lemma pad_length: "unat ((55 - drop_bit 3 (of_nat (8 * n) :: u32)) AND 63) + 1 = (119 - n mod 64) mod 64 + 1"
proof -
  have mask: "x AND 63 = take_bit 6 x" for x :: u32
    by (simp add: take_bit_eq_mask mask_eq_exp_minus_1)
  define w v where "w = drop_bit 3 (of_nat (8 * n) :: u32)" and "v = take_bit 6 w"
  have "unat v = n mod 64" unfolding v_def w_def mask [symmetric] by (rule offset_rep)
  then have v: "uint v = int (n mod 64)" by (metis uint_nat)
  have low: "uint (take_bit 6 x) = uint x mod 64" for x :: u32
  proof -
    have "uint (take_bit 6 x) = take_bit 6 (uint x)" by (rule unsigned_take_bit_eq)
    then show ?thesis by (simp only: take_bit_eq_mod [of _ "_ :: int"]) simp
  qed
  then have w: "uint w mod 64 = int (n mod 64)" using v by (simp only: v_def)
  have "uint (take_bit 6 (55 - w)) = uint (55 - w) mod 64" by (rule low)
  also have "\<dots> = (55 - uint w) mod 64" unfolding uint_word_ariths by (simp add: mod_mod_cancel)
  also have "\<dots> = (55 - int (n mod 64)) mod 64" by (metis mod_diff_right_eq w)
  also have "\<dots> = (119 - int (n mod 64)) mod 64" using mod_add_self1 [of 64 "55 - int (n mod 64)"] by simp
  also have "\<dots> = int ((119 - n mod 64) mod 64)" by (simp add: of_nat_mod of_nat_diff)
  finally show ?thesis unfolding mask w_def [symmetric] by (metis nat_int uint_nat unat_eq_nat_uint)
qed

lemma rfc_pad_whole: "length (rfc_pad msg) mod 64 = 0"
proof -
  define m where "m = length msg mod 64"
  have "length (rfc_pad msg) mod 64 = (m + (1 + (119 - m) mod 64 + 8)) mod 64"
    by (simp add: rfc_pad_def le64_def m_def mod_add_left_eq mod_simps)
  moreover have "m < 64" by (simp add: m_def)
  then have "(119 - m) mod 64 = (if m \<le> 55 then 55 - m else 119 - m)" by (auto simp: le_mod_geq)
  ultimately show ?thesis using \<open>m < 64\<close> by auto
qed

lemma digest_octets:
  assumes "md_abcd st = turned 0 h"
  shows "map (\<lambda>i. ucast (drop_bit ((i mod 4) * 8) (md_abcd st ! (i div 4)))) [0..<16] = hash_octets h"
proof -
  have "[0..<16] = [0, 1, 2, 3, 4, 5, 6, 7, 8, 9, 10, 11, 12, 13, 14, 15 :: nat]" "[0..<4] = [0, 1, 2, 3 :: nat]"
    by (simp_all add: upt_rec)
  then show ?thesis using assms by (cases h) (simp add: turned_def)
qed

lemma md5_finish_rep:
  assumes "md5_rep msg st"
  shows "\<exists>st'. md5_finish le st = Inr (st', md5_rfc msg)"
proof -
  let ?n = "unat ((55 - drop_bit 3 (md_count0 st)) AND 63) + 1"
  let ?pad = "take ?n pad"
  have n: "?n = (119 - length msg mod 64) mod 64 + 1" using pad_length [of "length msg"] assms by (simp add: md5_rep_def)
  have "(119 - length msg mod 64) mod 64 \<le> 63" by simp
  then have pad: "?pad = 0x80 # replicate ((119 - length msg mod 64) mod 64) 0" unfolding n by (simp add: pad_def min_absorb1)
  obtain st1 where st1: "md5_append le ?pad st = Inr st1" "md5_rep (msg @ ?pad) st1"
  proof -
    have "length ?pad \<le> 64" by (simp add: pad_def)
    then have "length ?pad < 2 ^ 28" by simp
    from md5_append_rep [OF assms this, of le] show ?thesis using that by blast
  qed
  let ?data = "le64 (8 * length msg)"
  have data: "map (\<lambda>i. ucast (drop_bit ((i mod 4) * 8) (if i div 4 = 0 then md_count0 st else md_count1 st))) [0..<8] = ?data"
    using count_octets [of "8 * length msg"] assms by (simp only: md5_rep_def)
  obtain st2 where st2: "md5_append le ?data st1 = Inr st2" "md5_rep ((msg @ ?pad) @ ?data) st2"
    using md5_append_rep [OF st1(2), of ?data le] by (auto simp: le64_def)
  have whole: "(msg @ ?pad) @ ?data = rfc_pad msg" unfolding pad rfc_pad_def by simp
  have "md_abcd st2 = turned 0 (foldl rfc_compress rfc_H0 (blocks (rfc_pad msg)))"
    using st2(2) unfolding whole by (simp add: md5_rep_def)
  note digest = digest_octets [OF this]
  have "md5_finish le st = bind_res (md5_append le ?pad st) (\<lambda>pms. bind_res (md5_append le ?data pms) (\<lambda>pms.
      Inr (pms, map (\<lambda>i. ucast (drop_bit ((i mod 4) * 8) (md_abcd pms ! (i div 4)))) [0..<16])))"
    unfolding md5_finish_def Let_def data by (rule refl)
  then show ?thesis using st1(1) st2(1) digest by (simp add: md5_rfc_def rfc_H0_def)
qed

text \<open>C31:
  on hosts of either byte order, \<open>md5_init\<close>, any sequence of \<open>md5_append\<close> of less than \<open>2 ^ 28\<close> bytes each
  and \<open>md5_finish\<close> give the digest of RFC 1321 of all the bytes together, however long, and so does
  \<open>CMD5::compute\<close> of its input up to the first zero.
\<close>

theorem MD5_computes_rfc1321:
  assumes "length (md_buf storage) = 64" "\<forall>c \<in> set chunks. length c < 2 ^ 28"
  shows "(\<exists>st st'. fold_res (\<lambda>st c. md5_append le c st) (md5_init storage) chunks = Inr st
      \<and> md5_finish le st = Inr (st', md5_rfc (concat chunks)))
    \<and> (length input < 2 ^ 28 \<longrightarrow> MD5_compute le storage input = Inr (md5_rfc (takeWhile (\<lambda>b. b \<noteq> 0) input)))"
proof -
  have fold: "\<exists>st. fold_res (\<lambda>st c. md5_append le c st) st0 chunks = Inr st \<and> md5_rep (msg @ concat chunks) st"
    if "md5_rep msg st0" "\<forall>c \<in> set chunks. length c < 2 ^ 28" for st0 msg chunks
    using that
  proof (induction chunks arbitrary: st0 msg)
    case (Cons c chunks)
    obtain st1 where "md5_append le c st0 = Inr st1" "md5_rep (msg @ c) st1"
      using md5_append_rep [OF Cons.prems(1), of c le] Cons.prems(2) by auto
    then show ?case using Cons.IH [of "msg @ c" st1] Cons.prems(2) by simp
  qed simp
  note rep = md5_rep_init [OF assms(1)]
  obtain st where "fold_res (\<lambda>st c. md5_append le c st) (md5_init storage) chunks = Inr st" "md5_rep (concat chunks) st"
    using fold [OF rep assms(2)] by auto
  moreover have "MD5_compute le storage input = Inr (md5_rfc (takeWhile (\<lambda>b. b \<noteq> 0) input))" if "length input < 2 ^ 28"
  proof -
    have "length (takeWhile (\<lambda>b. b \<noteq> 0) input) < 2 ^ 28" using that length_takeWhile_le [of "\<lambda>b. b \<noteq> 0" input] by linarith
    then obtain st1 where "md5_append le (takeWhile (\<lambda>b. b \<noteq> 0) input) (md5_init storage) = Inr st1"
      "md5_rep (takeWhile (\<lambda>b. b \<noteq> 0) input) st1" using md5_append_rep [OF rep] by fastforce
    then show ?thesis using md5_finish_rep [of "takeWhile (\<lambda>b. b \<noteq> 0) input" st1 le] by (auto simp: MD5_compute_def)
  qed
  ultimately show ?thesis using md5_finish_rep [of "concat chunks" st le] by blast
qed

lemma MD5_computes_rfc1321_witness:
  "MD5_compute True \<lparr>md_count0 = 7, md_count1 = 7, md_abcd = [], md_buf = replicate 64 1\<rparr> [0x61, 0x62, 0x63, 0]
    = Inr (md5_rfc [0x61, 0x62, 0x63])"
  using MD5_computes_rfc1321 [of "\<lparr>md_count0 = 7, md_count1 = 7, md_abcd = [], md_buf = replicate 64 1\<rparr>" "[[1, 2], [3]]" True "[0x61, 0x62, 0x63, 0]"]
  by simp

end
