(* ===== verification/Spec2Isabelle.thy ===== *)
theory Spec2Isabelle
  imports BigIntProperties RoutingProperties DataStoreProperties SllProperties HandleClass KadRpcsProperties
    ThreadPoolProperties BlahProperties UdtCoreProperties UdtWindowProperties UdtSndUListProperties UdtSndBufferProperties UdtRcvQueueProperties UdtCacheProperties UdtMd5Properties
    "HOL-Library.Word"
begin

text \<open>
  A verification library of kadpeer, a peer of a Kademlia network written in C++. The theories model
  the code of the repository by hand and prove what makes it correct; where the code does not do
  what it means to, the theorems say what it does.

  \<^bold>\<open>The program.\<close> A node has a number of 160 bits (\<open>KadID\<close>, over the number class \<open>BigInt::Rossi\<close>
  and the hash \<open>SHA1\<close>). It keeps the other nodes it knows as contacts in the buckets of a routing
  table, stores values with their life times in a data store, answers the calls of other nodes in a
  service, and calls them through a client; both talk in messages generated by Thrift. Below them
  are a list, a counted pointer and a pool of threads, and a wrapper of the Crypto++ library.

  \<^bold>\<open>Conventions.\<close> A class is a record of its members, a method a function that returns the new
  record. A call that may fail returns \<open>'a res\<close> of \<open>Prelude\<close>: \<open>Inl\<close> with a failed assertion, a
  read outside the language (\<open>Undefined\<close>), \<open>exit\<close>, a thrown \<open>std::logic_error\<close> or a loop that does
  not end, else \<open>Inr\<close> with the result. Machine integers are words of their width. What a method
  reads that is not its argument, the clock, uninitialised storage, the unit behind a vector, the
  draws of a random generator, is an argument of its model. Code that is not in the repository is a
  parameter: the Boost container a record \<open>index_ops\<close> under the locale \<open>multi_index\<close>, the functions
  a service is given and the Crypto++ library the records \<open>service_env\<close> and \<open>crypto_lib\<close>, the
  transport, the protocol and the exceptions of Thrift the records \<open>rpc_net\<close>, \<open>protocol\<close> and \<open>thrift_lib\<close>. Every theorem about such a parameter has a witness that
  instantiates it. Memory is not exhausted, and what is written to a log is left out.

  \<^bold>\<open>Numbers\<close> (\<open>src/common/BigInt.cpp\<close>, \<open>include/common/BigInt.h\<close>). \<open>BigIntUnits\<close>: the vector of units
  of \<open>BaseBigInt\<close> as a list of 64 bit words, its value \<open>digits_val\<close>, the normal form that the
  code keeps. \<open>RossiArith\<close>: constructors, comparisons, addition, subtraction, increment.
  \<open>RossiBits\<close>: shifts and bitwise operators. \<open>RossiMul\<close>: multiplication, division, logarithm,
  square root; the loop of \<open>divide\<close> is an option valued partial function, so that not returning is
  a result. \<open>Numerals\<close>: numerals as texts. \<open>VinDec\<close>: the decimal class \<open>Vin\<close>. \<open>RossiText\<close>: reading
  and printing. \<open>BigIntProperties\<close>: the operations are those of the numbers, the results are in
  normal form, texts read back, the comparisons decide the order; and the operators that fail
  (\<open><<\<close>, \<open>>>\<close>, \<open>--\<close> with a borrow, \<open>sqrt\<close>).

  \<^bold>\<open>Identifiers.\<close> \<open>Sha1\<close> (\<open>src/common/sha1.cpp\<close>): the class with its block buffer, and that any
  sequence of \<open>Input\<close> calls computes the digest of FIPS 180, which is defined there on its own.
  \<open>KadIdent\<close> (\<open>src/kademlia/kadid.cpp\<close>): ids, the exclusive-or distance of \<open>CloserToTarget\<close>, the
  halves of \<open>SplitRange\<close>, and what the constructors do. \<open>ContactInfo\<close> (\<open>contact.cpp\<close>): contacts and
  their conversion to messages.

  \<^bold>\<open>The routing table.\<close> \<open>StdMap\<close>: \<open>std::map\<close> as a sorted list of
  pairs. \<open>KBucket\<close> (\<open>kbucket.cpp\<close>): the list of a bucket. \<open>RoutingTable\<close>
  (\<open>kadroutingtable.cpp\<close>): every method of the class; \<open>rt_AddContact\<close> takes fuel for its recursion,
  530 calls being enough (\<open>AddContact_terminates\<close>).
  \<open>RoutingInvariant\<close>: the buckets cut the address space, the map of upper limits is the one the
  buckets have, each contact lies in the bucket of its id. \<open>RoutingAdd\<close>: adding, splitting and forced
  insertion keep it. \<open>RoutingProperties\<close>: the tables that the constructor with \<open>K > 2\<close> and \<open>AddContact\<close>,
  \<open>RemoveContact\<close> and \<open>TouchKBucket\<close> make, on ids between the lower address, an id made of the clock, and the upper
  one (\<open>Clear\<close>, which leaves the buckets of the holder behind, is not among the steps). The unit that
  \<open>operator>>\<close> reads behind a vector when a bucket is split is taken to be even, as a heap with a zero there
  gives; an odd one puts the middle outside of the bucket. These tables have at most 1588 buckets. On
  them: lookups, termination, sorting, the answers of \<open>FindCloseNodes\<close>; and what happens to ids below and above the space.

  \<^bold>\<open>The data store.\<close> \<open>MultiIndex\<close>: entries, the locale \<open>multi_index\<close> with the documented laws of
  Boost.MultiIndex, interpreted on lists sorted by key and value. \<open>DataStore\<close>
  (\<open>datastore.cpp\<close>): every operation. \<open>DataStoreSpec\<close>: the abstract store, a map from key and value
  to the entry, what it answers to each call, and the simulation of each operation.
  \<open>DataStoreProperties\<close>: refinement of sequences of all calls, live values,
  life times, deletion in one direction.

  \<^bold>\<open>The service and its client.\<close> \<open>KadMessages\<close> (the \<open>_types\<close> files under
  \<open>src/src/thrift/gen-cpp\<close>): the classes of the messages with their flags, what \<open>write\<close> writes,
  what \<open>read\<close> makes of it and \<open>operator ==\<close>. \<open>KadMessagesWire\<close>: what an object is after it has
  read another, round trips of all 18 classes, and equality as equality of what is written. \<open>ThriftService\<close>
  (\<open>KademliaService.cpp\<close>, \<open>KademliaService.h\<close>): the generated client and processor, once for any
  method and then for each of the eight. \<open>ThriftServiceProperties\<close>: the locale \<open>rpc_method\<close> over two
  message classes, interpreted on every method, and that a call is the call of the handler. \<open>Crypto\<close>,
  \<open>CryptoProperties\<close> (\<open>crypto.cpp\<close>): the sources, filters and sinks over files.
  \<open>KadService\<close>, \<open>KadServiceProperties\<close> (\<open>kadservice.cpp\<close>): every handler; the outcome of a store,
  hashable values, and that no handler with a sender succeeds. \<open>KadRpcs\<close>, \<open>KadRpcsProperties\<close>
  (\<open>kadrpc.cpp\<close>): the calls, and client, generated code and service composed: what can be stored,
  learned and deleted over the network.

  \<^bold>\<open>Utilities.\<close> \<open>Sll\<close>, \<open>SllProperties\<close> (\<open>include/common/sll.hh\<close>): the list over a heap of items, with
  fuel above the length for its loops, which refines lists. \<open>HandleClass\<close>: reference counts, no
  handle dangles. \<open>ThreadPool\<close>, \<open>ThreadPoolProperties\<close> (\<open>TThreadPool.cpp\<close>): the critical sections of
  the pool as steps of an interleaving, an invariant over all reachable states, the accounting of
  jobs, and a lost wake-up. \<open>Blah\<close>, \<open>BlahProperties\<close> (\<open>blah.cpp\<close>, \<open>blah.hpp\<close>): the logging library, its
  filters as functions on the text and the streams it is used through; the order of its entries, and
  that what goes through a stream is logged once.

  \<^bold>\<open>The transport\<close> (\<open>src/udt\<close>, the UDT library in the repository). \<open>UdtSeqNo\<close> (\<open>common.h\<close>): the
  numbers of packets, acknowledgements and messages, which wrap, with lemmas on what the operations
  are on counts that do not. \<open>RcvLossList\<close> (\<open>list.cpp\<close>): the loss list of the receiver, four
  arrays that hold a linked list; \<open>RcvLossListNodes\<close>: the invariant \<open>loss_list\<close>, the arrays hold
  disjoint intervals; \<open>RcvLossListProperties\<close>: the list is a set of lost packets, and what removing
  a range leaves behind. \<open>SndLossList\<close>, \<open>SndLossListNodes\<close>, \<open>SndLossListInsert\<close>, \<open>SndLossListRemove\<close>,
  \<open>SndLossListProperties\<close>: the same for the list of the sender, whose insertions come in any order
  and overlap. The fuel of the loops is the size of the arrays, as no list has more nodes.
  \<open>UdtCore\<close>, \<open>UdtCoreProperties\<close> (\<open>core.cpp\<close>): the parts of \<open>CUDT\<close> that keep the two lists, from
  the packets that come to the reports, which hold the first intervals of the list that fit the
  payload, and back to the sender. \<open>UdtWindow\<close>, \<open>UdtWindowProperties\<close>
  (\<open>window.cpp\<close>): the window of acknowledgements as a bounded queue, and the speed of arrival from the
  median of a window that is half sorted. \<open>UdtSndUList\<close>, \<open>UdtSndUListProperties\<close> (\<open>queue.cpp\<close>): the
  heap of the sockets that have something to send, whose nodes know their positions; it is a map in
  every run of up to 4096 sockets, and a queue by time as long as only its first node is taken out.
  \<open>UdtPacket\<close>, \<open>UdtPacketProperties\<close> (\<open>packet.cpp\<close>, \<open>channel.cpp\<close>): packets as words of a header and a
  memory, and how the channel turns them into datagrams and back on hosts of either byte order.
  \<open>UdtRcvBuffer\<close>, \<open>UdtRcvBufferProperties\<close> (\<open>buffer.cpp\<close>): the circular buffer of the receiver; reading
  gives the bytes of the packets in order, and a request to drop a message can go around the buffer
  for ever. \<open>UdtSndBuffer\<close>, \<open>UdtSndBufferProperties\<close>: the ring of blocks of the sender, which grows
  behind its last block, as a queue of the packets of messages and files, expired messages included; and
  the two buffers together, which make a stream.
  \<open>UdtUnitQueue\<close>, \<open>UdtRcvUList\<close>, \<open>UdtRcvQueue\<close> and their \<open>Properties\<close> (\<open>queue.cpp\<close>): the units that
  packets are received into, where a call that gives none makes the next one give one, whatever is freed
  between the two; the doubly linked list of the receiving sockets and the table of their ids; and the
  rounds of the two threads of a port, which call the sockets, an argument of the model, and end with the
  timers checked of every socket whose time stamp was a tenth of a second old. The steps are whole rounds,
  between which the sockets may change their own state, the units and the packets stored for them.
  The fuel of a round is more than the number of sockets on the list. \<open>UdtCache\<close>,
  \<open>UdtCacheProperties\<close> (\<open>cache.cpp\<close>): the cache of paths, a map until it is full. \<open>UdtMd5\<close>,
  \<open>UdtMd5Properties\<close> (\<open>md5.cpp\<close>): MD5 over a buffer of 64 bytes, and that it is the hash of RFC 1321.

  \<^bold>\<open>Not modelled.\<close> The rest of \<open>udt\<close>, the vendored libraries (\<open>tinyxml\<close>, \<open>librtmp\<close>), the bytes of the Thrift
  protocol, sockets, the player of Ogg files and the drivers, which call system libraries; the
  wrappers of threads and timers, \<open>StringMap\<close> and \<open>Singleton\<close>; \<open>KNodeImpl\<close>, whose bodies are not in
  the repository; \<open>BigInt::maximize\<close>, which fills the memory, and the self test.
\<close>

end
